(* ===== verification/Prelude.thy ===== *)
theory Prelude
  imports Main "HOL-Library.Word" "HOL-Library.Monad_Syntax"
begin

text \<open>
  Shared vocabulary of the development: the machine integer types of the C sources, addresses,
  the fact collections the component proofs draw on, generic lemmas on lists, and the
  list-based contract of a first-in first-out buffer.
\<close>

unbundle bit_operations_syntax

section \<open>Types\<close>

text \<open>
  \<open>uint8_t\<close>, \<open>uint32_t\<close> and \<open>uint64_t\<close>/\<open>size_t\<close> are words of their width. A pointer that is
  only stored, compared and passed on is an \<open>addr\<close>, with \<open>0\<close> for the null pointer.
\<close>

type_synonym u8 = "8 word"
type_synonym u16 = "16 word"
type_synonym u32 = "32 word"
type_synonym u64 = "64 word"
type_synonym addr = nat
type_synonym bytes = "8 word list"

named_theorems inv_simps \<open>invariants of the components, unfolded\<close>
named_theorems step_simps \<open>operations, unfolded one level\<close>

section \<open>Lists\<close>

lemma nth_append_right: "length xs \<le> i \<Longrightarrow> (xs @ ys) ! i = ys ! (i - length xs)"
  by (simp add: nth_append)

lemma map_nth_upt: "n \<le> length xs \<Longrightarrow> map ((!) xs) [0..<n] = take n xs"
  by (induction n) (auto simp: take_Suc_conv_app_nth)

lemma map_nth_upt_drop: "n \<le> length xs \<Longrightarrow> map ((!) xs) [m..<n] = drop m (take n xs)"
  by (simp add: map_nth_upt [symmetric] drop_map)

lemma upt_rotate_split:
  assumes "h \<le> c"
  shows "map (\<lambda>i. (h + i) mod c) [0..<c] = [h..<c] @ [0..<h]"
proof (rule nth_equalityI)
  fix i
  assume "i < length (map (\<lambda>i. (h + i) mod c) [0..<c])"
  then have i: "i < c" by simp
  show "map (\<lambda>i. (h + i) mod c) [0..<c] ! i = ([h..<c] @ [0..<h]) ! i"
  proof (cases "h + i < c")
    case True
    then have "i < c - h" by simp
    with True i show ?thesis by (simp add: nth_append)
  next
    case False
    with i assms have "(h + i) mod c = h + i - c"
      by (simp add: le_mod_geq)
    moreover from False have "\<not> i < c - h" by simp
    ultimately show ?thesis using i assms by (simp add: nth_append add.commute)
  qed
qed (use assms in simp)

lemma take_drop_nth_Cons: "i < length xs \<Longrightarrow> drop i xs = xs ! i # drop (Suc i) xs"
  by (rule Cons_nth_drop_Suc [symmetric])

lemma length_filter_update:
  "i < length xs \<Longrightarrow> length (filter P (xs[i := y])) + (if P (xs ! i) then 1 else 0) =
     length (filter P xs) + (if P y then 1 else 0)"
proof (induction xs arbitrary: i)
  case (Cons x xs)
  then show ?case by (cases i) (auto split: if_splits)
qed simp

section \<open>Words\<close>

lemma or_mask_eq_iff:
  fixes a b :: "'a::len word"
  shows "a OR mask s = b OR mask s \<longleftrightarrow> drop_bit s a = drop_bit s b"
proof
  assume h: "a OR mask s = b OR mask s"
  show "drop_bit s a = drop_bit s b"
  proof (rule bit_word_eqI)
    fix n
    from h have "bit (a OR mask s) (s + n) = bit (b OR mask s) (s + n)" by simp
    then show "bit (drop_bit s a) n = bit (drop_bit s b) n"
      by (auto simp: bit_simps dest: bit_imp_le_length)
  qed
next
  assume h: "drop_bit s a = drop_bit s b"
  show "a OR mask s = b OR mask s"
  proof (rule bit_word_eqI)
    fix n
    assume "n < LENGTH('a)"
    show "bit (a OR mask s) n = bit (b OR mask s) n"
    proof (cases "n < s")
      case False
      from h have "bit (drop_bit s a) (n - s) = bit (drop_bit s b) (n - s)" by simp
      with False show ?thesis by (simp add: bit_simps)
    qed (use \<open>n < LENGTH('a)\<close> in \<open>simp add: bit_simps\<close>)
  qed
qed

lemma unat_drop_bit: "unat (drop_bit s (w :: 'a::len word)) = unat w div 2 ^ s"
  by (subst unat_drop_bit_eq) (rule drop_bit_eq_div)

lemma unat_and_mask: "unat (w AND mask s :: 'a::len word) = unat w mod 2 ^ s"
  by (metis take_bit_eq_mask unsigned_take_bit_eq take_bit_eq_mod)

lemma unat_ucast: "unat (ucast (w :: 'a::len word) :: 'b::len word) = unat w mod 2 ^ LENGTH('b)"
  by (simp add: unsigned_ucast_eq take_bit_eq_mod)

lemma unat_less_exp: "unat (w :: 'a::len word) < 2 ^ LENGTH('a)"
  by (rule unsigned_less)

lemma push_bit_8_or: "0 \<le> b \<Longrightarrow> b < 256 \<Longrightarrow> push_bit 8 a OR b = a * 256 + (b :: int)"
proof -
  assume b: "0 \<le> b" "b < 256"
  then have "take_bit 8 b = b" by (simp add: take_bit_int_eq_self_iff)
  have "push_bit 8 a + b = push_bit 8 a OR b"
  proof (rule disjunctive_add)
    fix n
    show "\<not> bit (push_bit 8 a) n \<or> \<not> bit b n"
      using \<open>take_bit 8 b = b\<close> by (metis bit_push_bit_iff_int bit_take_bit_iff not_le)
  qed
  then show ?thesis by (simp add: push_bit_eq_mult)
qed

section \<open>Ring buffers\<close>

text \<open>The entries of an array used as a ring from index \<open>h\<close> up to, but without, index \<open>t\<close>.\<close>

definition ring :: "'a list \<Rightarrow> nat \<Rightarrow> nat \<Rightarrow> 'a list" where
  "ring xs h t = (if h \<le> t then drop h (take t xs) else drop h xs @ take t xs)"

lemma ring_store:
  assumes "h < length xs" "t < length xs" "t' = (if Suc t \<ge> length xs then Suc t - length xs else Suc t)"
    "t' \<noteq> h"
  shows "ring (xs[t := x]) h t' = ring xs h t @ [x]"
proof (cases "Suc t < length xs")
  case True
  then have t': "t' = Suc t" using assms(3) by simp
  have "take (Suc t) (xs[t := x]) = take t xs @ [x]"
    using assms(2) by (simp add: take_Suc_conv_app_nth)
  with t' assms show ?thesis by (auto simp: ring_def drop_update_swap)
next
  case False
  then have t: "t = length xs - 1" "t' = 0" using assms by auto
  then have "h \<le> t" "xs[t := x] = take t xs @ [x]" using assms
    by (simp_all add: upd_conv_take_nth_drop)
  with t assms show ?thesis by (auto simp: ring_def)
qed

lemma ring_full:
  assumes "t < length xs" "h = (if Suc t \<ge> length xs then Suc t - length xs else Suc t)" "t \<noteq> h"
  shows "drop h (xs[t := x]) @ take h (xs[t := x]) = ring xs h t @ [x]"
proof (cases "Suc t < length xs")
  case True
  then have "take (Suc t) (xs[t := x]) = take t xs @ [x]"
    by (simp add: take_Suc_conv_app_nth)
  with True assms show ?thesis by (simp add: ring_def)
next
  case False
  then have t: "t = length xs - 1" "h = 0" using assms by auto
  then have "xs[t := x] = take t xs @ [x]" using assms by (simp add: upd_conv_take_nth_drop)
  with t show ?thesis by (simp add: ring_def)
qed

lemma ring_pop:
  assumes "h < length xs" "t < length xs" "h \<noteq> t" "h' = (if Suc h \<ge> length xs then 0 else Suc h)"
  shows "ring xs h t = xs ! h # ring xs h' t"
proof (cases "h < t")
  case True
  then have "h < length (take t xs)" using assms by simp
  from Cons_nth_drop_Suc [OF this] True assms show ?thesis by (auto simp: ring_def)
next
  case False
  with Cons_nth_drop_Suc [OF assms(1)] assms show ?thesis by (auto simp: ring_def)
qed

lemma ring_empty [simp]: "ring xs h h = []"
  by (simp add: ring_def)

section \<open>First-in first-out buffers\<close>

text \<open>
  The contract a message buffer promises its clients, stated over the list of messages it
  holds. The \<open>option\<close> around the result of \<open>pop\<close> is the outcome of the C call itself (a
  call that does not return is \<open>None\<close>), the inner one says whether a message was there.
\<close>

datatype 'm fifo_op = Push 'm | Pop

fun pushed :: "'m fifo_op list \<Rightarrow> 'm list" where
  "pushed [] = []"
| "pushed (Push m # ops) = m # pushed ops"
| "pushed (Pop # ops) = pushed ops"

locale fifo_buffer =
  fixes buf_inv :: "'q \<Rightarrow> bool"
    and contents :: "'q \<Rightarrow> 'm list"
    and push :: "'m \<Rightarrow> 'q \<Rightarrow> 'q"
    and pop :: "'q \<Rightarrow> ('m option \<times> 'q) option"
  assumes push_inv: "buf_inv q \<Longrightarrow> buf_inv (push m q)"
    and push_contents: "buf_inv q \<Longrightarrow> contents (push m q) = contents q @ [m]"
    and pop_empty: "buf_inv q \<Longrightarrow> contents q = [] \<Longrightarrow>
      \<exists>q'. pop q = Some (None, q') \<and> buf_inv q' \<and> contents q' = []"
    and pop_first: "buf_inv q \<Longrightarrow> contents q = m # ms \<Longrightarrow>
      \<exists>q'. pop q = Some (Some m, q') \<and> buf_inv q' \<and> contents q' = ms"
begin

fun run :: "'m fifo_op list \<Rightarrow> 'q \<Rightarrow> ('m list \<times> 'q) option" where
  "run [] q = Some ([], q)"
| "run (Push m # ops) q = run ops (push m q)"
| "run (Pop # ops) q =
     do { (r, q') \<leftarrow> pop q;
          (out, q'') \<leftarrow> run ops q';
          Some (case r of None \<Rightarrow> out | Some m \<Rightarrow> m # out, q'') }"

lemma run_conserves:
  "buf_inv q \<Longrightarrow> \<exists>out q'. run ops q = Some (out, q') \<and> buf_inv q' \<and>
     out @ contents q' = contents q @ pushed ops"
proof (induction ops arbitrary: q rule: pushed.induct)
  case 1
  then show ?case by simp
next
  case (2 m ops)
  then have "buf_inv (push m q)" "contents (push m q) = contents q @ [m]"
    by (simp_all add: push_inv push_contents)
  with 2 show ?case by fastforce
next
  case (3 ops)
  show ?case
  proof (cases "contents q")
    case Nil
    with 3 pop_empty obtain q' where "pop q = Some (None, q')" "buf_inv q'" "contents q' = []"
      by blast
    with 3 Nil show ?thesis by fastforce
  next
    case (Cons m ms)
    with 3 pop_first obtain q' where "pop q = Some (Some m, q')" "buf_inv q'" "contents q' = ms"
      by blast
    with 3 Cons show ?thesis by fastforce
  qed
qed

end

section \<open>Functional refinement\<close>

text \<open>
  A component with operations \<open>step\<close> implements the abstract operations \<open>spec\<close> on what \<open>abs\<close> sees of its state: from every
  well-formed state a valid operation returns, keeps the state well-formed and gives the abstract result. Then so does every sequence of
  operations.
\<close>

locale refines =
  fixes state_inv :: "'s \<Rightarrow> bool"
    and abs :: "'s \<Rightarrow> 'a"
    and valid :: "'o \<Rightarrow> bool"
    and step :: "'o \<Rightarrow> 's \<Rightarrow> ('r \<times> 's) option"
    and spec :: "'o \<Rightarrow> 'a \<Rightarrow> 'r \<times> 'a"
  assumes step_refines: "state_inv s \<Longrightarrow> valid x \<Longrightarrow>
    \<exists>r s'. step x s = Some (r, s') \<and> state_inv s' \<and> spec x (abs s) = (r, abs s')"

fun run_steps :: "('o \<Rightarrow> 's \<Rightarrow> ('r \<times> 's) option) \<Rightarrow> 'o list \<Rightarrow> 's \<Rightarrow> ('r list \<times> 's) option" where
  "run_steps step [] s = Some ([], s)"
| "run_steps step (x # xs) s = do { (r, s) \<leftarrow> step x s; (rs, s) \<leftarrow> run_steps step xs s; Some (r # rs, s) }"

fun run_spec :: "('o \<Rightarrow> 'a \<Rightarrow> 'r \<times> 'a) \<Rightarrow> 'o list \<Rightarrow> 'a \<Rightarrow> 'r list \<times> 'a" where
  "run_spec spec [] a = ([], a)"
| "run_spec spec (x # xs) a = (let (r, a) = spec x a; (rs, a) = run_spec spec xs a in (r # rs, a))"

context refines
begin

lemma run_refines:
  "state_inv s \<Longrightarrow> list_all valid xs \<Longrightarrow>
    \<exists>rs s'. run_steps step xs s = Some (rs, s') \<and> state_inv s' \<and> run_spec spec xs (abs s) = (rs, abs s')"
proof (induction xs arbitrary: s)
  case (Cons x xs)
  from Cons.prems step_refines obtain r s1 where s1: "step x s = Some (r, s1)" "state_inv s1" "spec x (abs s) = (r, abs s1)"
    by fastforce
  with Cons.IH [of s1] Cons.prems(2) obtain rs s2 where "run_steps step xs s1 = Some (rs, s2)" "state_inv s2"
    "run_spec spec xs (abs s1) = (rs, abs s2)" by auto
  with s1 show ?case by simp
qed simp

end

end
