(* ===== verification/Mqueue.thy ===== *)
theory Mqueue
  imports Prelude
begin

text \<open>
  The message queues of \<open>src/src/queue.c\<close>: the per-service ring buffer, its growth and
  overload accounting, and the global run queue, which is a singly linked list threaded through
  the \<open>next\<close> fields of the queues. Queues live in a store indexed by address, so that the
  aliasing between the run queue and the queues themselves is the one of the C code. Every
  operation holds the spin lock of what it touches for its whole body, so each is one atomic
  step here. An access to an address that holds no queue is \<open>None\<close>.
\<close>

section \<open>Data\<close>

record message =
  msg_source :: u32
  msg_session :: int
  msg_data :: addr
  msg_size :: u64

record queue =
  q_handle :: u32
  cap :: int
  head :: int
  tail :: int
  global :: int
  release :: int
  overload :: int
  overload_threshold :: int
  mqueue :: "message list"
  q_next :: addr

record queue_global =
  qheap :: "addr \<rightharpoonup> queue"
  Qhead :: addr
  Qtail :: addr

definition QUEUE_SIZE :: int where "QUEUE_SIZE = 64"
definition QUEUE_OVERLOAD :: int where "QUEUE_OVERLOAD = 1024"

text \<open>What \<open>pixel_alloc\<close> leaves in a fresh array entry: all bytes zero.\<close>

definition zero_message :: message where
  "zero_message = \<lparr>msg_source = 0, msg_session = 0, msg_data = 0, msg_size = 0\<rparr>"

section \<open>The ring buffer of one queue\<close>

definition queue_new :: "u32 \<Rightarrow> queue" where
  "queue_new h = \<lparr>q_handle = h, cap = QUEUE_SIZE, head = 0, tail = 0, global = 1, release = 0,
     overload = 0, overload_threshold = QUEUE_OVERLOAD,
     mqueue = replicate (nat QUEUE_SIZE) zero_message, q_next = 0\<rparr>"

definition queue_expand :: "queue \<Rightarrow> queue" where
  "queue_expand q =
     (let newq = map (\<lambda>i. mqueue q ! nat ((head q + int i) mod cap q)) [0..<nat (cap q)]
                 @ replicate (nat (cap q)) zero_message
      in q\<lparr>head := 0, tail := cap q, cap := cap q * 2, mqueue := newq\<rparr>)"

text \<open>Storing the message and growing a full buffer: the first half of \<open>queue_push\<close>.\<close>

definition queue_store :: "message \<Rightarrow> queue \<Rightarrow> queue" where
  "queue_store m q =
     (let q1 = q\<lparr>mqueue := (mqueue q)[nat (tail q) := m], tail := tail q + 1\<rparr>;
          q2 = (if tail q1 \<ge> cap q1 then q1\<lparr>tail := 0\<rparr> else q1)
      in if head q2 = tail q2 then queue_expand q2 else q2)"

text \<open>
  The loop that doubles the overload threshold. With a threshold that is not positive it would
  not end, so not returning is a possible outcome of the definition.
\<close>

partial_function (option) overload_loop :: "int \<Rightarrow> int \<Rightarrow> int \<Rightarrow> (int \<times> int) option" where
  "overload_loop len ov th =
     (if len > th then overload_loop len len (th * 2) else Some (ov, th))"

definition queue_pop :: "queue \<Rightarrow> (message option \<times> queue) option" where
  "queue_pop q =
     (if head q \<noteq> tail q then
        (let m = mqueue q ! nat (head q);
             h = (if head q + 1 \<ge> cap q then 0 else head q + 1);
             len0 = tail q - h;
             len = (if len0 < 0 then len0 + cap q else len0)
         in do { (ov, th) \<leftarrow> overload_loop len (overload q) (overload_threshold q);
                 Some (Some m, q\<lparr>head := h, overload := ov, overload_threshold := th\<rparr>) })
      else Some (None, q\<lparr>overload_threshold := QUEUE_OVERLOAD, global := 0\<rparr>))"

definition queue_len :: "queue \<Rightarrow> int" where
  "queue_len q = (if head q \<le> tail q then tail q - head q else tail q + cap q - head q)"

definition queue_overload :: "queue \<Rightarrow> int \<times> queue" where
  "queue_overload q = (if overload q \<noteq> 0 then (overload q, q\<lparr>overload := 0\<rparr>) else (0, q))"

text \<open>Popping until empty: the messages handed to the drop callback, in order.\<close>

partial_function (option) queue_drop :: "queue \<Rightarrow> (message list \<times> queue) option" where
  "queue_drop q =
     do { (r, q') \<leftarrow> queue_pop q;
          case r of
            None \<Rightarrow> Some ([], q')
          | Some m \<Rightarrow> do { (ms, q'') \<leftarrow> queue_drop q'; Some (m # ms, q'') } }"

text \<open>The default callback \<open>_d_drop\<close>: which addresses it frees.\<close>

definition d_drop :: "message \<Rightarrow> addr list" where
  "d_drop m = (if msg_data m \<noteq> 0 then [msg_data m] else [])"

section \<open>The store and the run queue\<close>

definition queue_init :: "queue_global \<Rightarrow> queue_global" where
  "queue_init Q = Q\<lparr>Qhead := 0, Qtail := 0\<rparr>"

definition queue_push_global :: "addr \<Rightarrow> queue_global \<Rightarrow> queue_global option" where
  "queue_push_global a Q =
     (if Qtail Q \<noteq> 0 then
        do { t \<leftarrow> qheap Q (Qtail Q);
             Some (Q\<lparr>qheap := (qheap Q)(Qtail Q \<mapsto> t\<lparr>q_next := a\<rparr>), Qtail := a\<rparr>) }
      else Some (Q\<lparr>Qhead := a, Qtail := a\<rparr>))"

definition queue_pop_global :: "queue_global \<Rightarrow> (addr \<times> queue_global) option" where
  "queue_pop_global Q =
     (if Qhead Q \<noteq> 0 then
        do { q \<leftarrow> qheap Q (Qhead Q);
             let Q1 = Q\<lparr>Qhead := q_next q, Qtail := (if q_next q = 0 then 0 else Qtail Q)\<rparr>;
             Some (Qhead Q, Q1\<lparr>qheap := (qheap Q1)(Qhead Q \<mapsto> q\<lparr>q_next := 0\<rparr>)\<rparr>) }
      else Some (0, Q))"

definition queue_push :: "addr \<Rightarrow> message \<Rightarrow> queue_global \<Rightarrow> queue_global option" where
  "queue_push a m Q =
     do { q \<leftarrow> qheap Q a;
          let q1 = queue_store m q;
          if global q1 = 0 then
            queue_push_global a (Q\<lparr>qheap := (qheap Q)(a \<mapsto> q1\<lparr>global := 1\<rparr>)\<rparr>)
          else Some (Q\<lparr>qheap := (qheap Q)(a \<mapsto> q1)\<rparr>) }"

text \<open>
  \<open>queue_mark_free\<close> asserts that the queue is not released yet; a failed assertion is
  \<open>None\<close>.
\<close>

definition queue_mark_free :: "addr \<Rightarrow> queue_global \<Rightarrow> queue_global option" where
  "queue_mark_free a Q =
     do { q \<leftarrow> qheap Q a;
          if release q \<noteq> 0 then None
          else (let Q1 = Q\<lparr>qheap := (qheap Q)(a \<mapsto> q\<lparr>release := 1\<rparr>)\<rparr>
                in if global q = 0 then queue_push_global a Q1 else Some Q1) }"

text \<open>
  \<open>queue_free\<close> drains and frees a released queue, and puts any other back on the run queue.
  The result carries the messages passed to the drop callback.
\<close>

definition queue_free :: "addr \<Rightarrow> queue_global \<Rightarrow> (message list \<times> queue_global) option" where
  "queue_free a Q =
     do { q \<leftarrow> qheap Q a;
          if release q \<noteq> 0 then
            do { (ms, _) \<leftarrow> queue_drop q;
                 Some (ms, Q\<lparr>qheap := (qheap Q)(a := None)\<rparr>) }
          else do { Q1 \<leftarrow> queue_push_global a Q; Some ([], Q1) } }"


section \<open>Invariant and abstraction of the ring buffer\<close>

definition queue_inv :: "queue \<Rightarrow> bool" where
  "queue_inv q \<longleftrightarrow> 0 < cap q \<and> length (mqueue q) = nat (cap q) \<and>
     0 \<le> head q \<and> head q < cap q \<and> 0 \<le> tail q \<and> tail q < cap q \<and> 0 < overload_threshold q"

declare queue_inv_def [inv_simps]

definition messages :: "queue \<Rightarrow> message list" where
  "messages q =
     (if head q \<le> tail q then drop (nat (head q)) (take (nat (tail q)) (mqueue q))
      else drop (nat (head q)) (mqueue q) @ take (nat (tail q)) (mqueue q))"

lemma queue_new_inv: "queue_inv (queue_new h)"
  by (simp add: queue_inv_def queue_new_def QUEUE_SIZE_def QUEUE_OVERLOAD_def)

lemma messages_queue_new [simp]: "messages (queue_new h) = []"
  by (simp add: messages_def queue_new_def)

lemma expand_slots:
  assumes "0 \<le> h" "h < c" "length mq = nat c"
  shows "map (\<lambda>i. mq ! nat ((h + int i) mod c)) [0..<nat c] = drop (nat h) mq @ take (nat h) mq"
proof -
  have "nat ((h + int i) mod c) = (nat h + i) mod nat c" for i
  proof -
    have "nat ((h + int i) mod c) = nat (h + int i) mod nat c"
      using assms(1,2) by (intro nat_mod_distrib) auto
    then show ?thesis using assms(1) by (simp add: nat_add_distrib)
  qed
  then have "map (\<lambda>i. mq ! nat ((h + int i) mod c)) [0..<nat c]
      = map ((!) mq) (map (\<lambda>i. (nat h + i) mod nat c) [0..<nat c])"
    by simp
  also have "\<dots> = map ((!) mq) ([nat h..<nat c] @ [0..<nat h])"
    using assms by (subst upt_rotate_split) auto
  also have "\<dots> = drop (nat h) mq @ take (nat h) mq"
    using assms by (simp add: map_nth_upt map_nth_upt_drop nat_le_iff)
  finally show ?thesis .
qed

lemma queue_expand_messages:
  assumes "0 \<le> head q" "head q < cap q" "length (mqueue q) = nat (cap q)"
  shows "messages (queue_expand q) = drop (nat (head q)) (mqueue q) @ take (nat (head q)) (mqueue q)"
proof -
  from assms have "nat (head q) \<le> nat (cap q)" by simp
  with assms show ?thesis
    by (simp add: messages_def queue_expand_def Let_def expand_slots)
qed

lemma queue_expand_inv:
  "0 \<le> head q \<Longrightarrow> head q < cap q \<Longrightarrow> length (mqueue q) = nat (cap q) \<Longrightarrow>
     0 < overload_threshold q \<Longrightarrow> queue_inv (queue_expand q)"
  by (simp add: queue_inv_def queue_expand_def Let_def nat_mult_distrib)

lemma queue_store_inv: "queue_inv q \<Longrightarrow> queue_inv (queue_store m q)"
  by (auto simp: queue_inv_def queue_store_def queue_expand_def Let_def nat_mult_distrib)

lemma queue_store_messages:
  assumes inv: "queue_inv q"
  shows "messages (queue_store m q) = messages q @ [m]"
proof -
  note i = inv [unfolded queue_inv_def]
  let ?h = "nat (head q)" and ?t = "nat (tail q)" and ?c = "nat (cap q)"
  let ?mq = "(mqueue q)[?t := m]"
  from i have t: "?t < ?c" "?h < ?c" "length (mqueue q) = ?c" by auto
  have st: "take (Suc ?t) ?mq = take ?t (mqueue q) @ [m]"
    using t by (simp add: take_Suc_conv_app_nth)
  consider (mid) "head q \<le> tail q" "tail q + 1 < cap q"
    | (wrap) "head q \<le> tail q" "tail q + 1 = cap q" "head q \<noteq> 0"
    | (wrapfull) "head q = 0" "tail q + 1 = cap q"
    | (low) "tail q + 1 < head q"
    | (lowfull) "tail q + 1 = head q"
    using i by linarith
  then show ?thesis
  proof cases
    case mid
    with i have "nat (tail q + 1) = Suc ?t" "?h \<le> ?t" by auto
    with mid i t st show ?thesis by (simp add: queue_store_def Let_def messages_def)
  next
    case wrap
    with i have c: "?c = Suc ?t" "?h \<le> ?t" by auto
    with t st have "drop ?h ?mq = drop ?h (take ?t (mqueue q)) @ [m]"
      by (metis append_eq_conv_conj drop_append diff_is_0_eq drop0 length_list_update length_take
          min.absorb2 take_all_iff le_refl less_imp_le)
    with wrap i show ?thesis by (simp add: queue_store_def Let_def messages_def)
  next
    case wrapfull
    with i have c: "?c = Suc ?t" by auto
    with t st have "?mq = take ?t (mqueue q) @ [m]"
      by (metis length_list_update order_refl take_all_iff)
    moreover have "queue_store m q = queue_expand (q\<lparr>mqueue := ?mq, tail := 0\<rparr>)"
      using wrapfull by (simp add: queue_store_def Let_def)
    moreover have "messages (queue_expand (q\<lparr>mqueue := ?mq, tail := 0\<rparr>)) = ?mq"
      using i wrapfull by (subst queue_expand_messages) auto
    ultimately show ?thesis using wrapfull i by (simp add: messages_def)
  next
    case low
    with i have "nat (tail q + 1) = Suc ?t" "?t < ?h" by auto
    with low i t st show ?thesis by (simp add: queue_store_def Let_def messages_def)
  next
    case lowfull
    with i have h: "?h = Suc ?t" "\<not> head q \<le> tail q" "tail q + 1 < cap q" by auto
    then have "queue_store m q = queue_expand (q\<lparr>mqueue := ?mq, tail := tail q + 1\<rparr>)"
      using lowfull by (simp add: queue_store_def Let_def)
    moreover have "messages (queue_expand (q\<lparr>mqueue := ?mq, tail := tail q + 1\<rparr>))
        = drop ?h ?mq @ take ?h ?mq"
      using i by (subst queue_expand_messages) auto
    ultimately show ?thesis using h st by (simp add: messages_def)
  qed
qed


lemma overload_loop_returns:
  "0 < th \<Longrightarrow> \<exists>ov' th'. overload_loop len ov th = Some (ov', th') \<and> len \<le> th' \<and> th \<le> th' \<and>
     (ov' = (if len > th then len else ov))"
proof (induction "nat (len - th)" arbitrary: ov th rule: less_induct)
  case less
  show ?case
  proof (cases "len > th")
    case True
    with less.prems have "nat (len - th * 2) < nat (len - th)" "0 < th * 2" by auto
    from less.hyps [OF this, of len] True less.prems show ?thesis
      by (subst overload_loop.simps) (auto split: if_splits)
  next
    case False
    then show ?thesis by (subst overload_loop.simps) auto
  qed
qed

lemma messages_Nil_iff: "queue_inv q \<Longrightarrow> messages q = [] \<longleftrightarrow> head q = tail q"
  by (auto simp: queue_inv_def messages_def)

lemma queue_pop_none:
  "queue_inv q \<Longrightarrow> messages q = [] \<Longrightarrow>
     queue_pop q = Some (None, q\<lparr>overload_threshold := QUEUE_OVERLOAD, global := 0\<rparr>)"
  by (simp add: messages_Nil_iff queue_pop_def)

lemma messages_shift:
  assumes inv: "queue_inv q" and ne: "head q \<noteq> tail q"
  shows "messages q = mqueue q ! nat (head q) #
    messages (q\<lparr>head := (if head q + 1 \<ge> cap q then 0 else head q + 1)\<rparr>)"
proof -
  note i = inv [unfolded queue_inv_def]
  let ?h = "nat (head q)" and ?t = "nat (tail q)"
  have h: "drop ?h (mqueue q) = mqueue q ! ?h # drop (Suc ?h) (mqueue q)"
    using i by (intro take_drop_nth_Cons) auto
  consider (le) "head q < tail q" | (last) "tail q < head q" "head q + 1 = cap q"
    | (gt) "tail q < head q" "head q + 1 < cap q"
    using i ne by linarith
  then show ?thesis
  proof cases
    case le
    with i have "?h < length (take ?t (mqueue q))" "nat (head q + 1) = Suc ?h" by auto
    with le i take_drop_nth_Cons [of ?h "take ?t (mqueue q)"] show ?thesis
      by (simp add: messages_def)
  next
    case last
    with i h show ?thesis by (simp add: messages_def)
  next
    case gt
    with i have "nat (head q + 1) = Suc ?h" by auto
    with gt i h show ?thesis by (simp add: messages_def)
  qed
qed

lemma messages_overload [simp]:
  "messages (q\<lparr>overload := ov\<rparr>) = messages q"
  "messages (q\<lparr>overload_threshold := th\<rparr>) = messages q"
  "messages (q\<lparr>global := g\<rparr>) = messages q"
  "messages (q\<lparr>release := r\<rparr>) = messages q"
  "messages (q\<lparr>q_next := a\<rparr>) = messages q"
  by (simp_all add: messages_def)

lemma queue_pop_some:
  assumes inv: "queue_inv q" and ne: "messages q = m # ms"
  shows "\<exists>q'. queue_pop q = Some (Some m, q') \<and> queue_inv q' \<and> messages q' = ms"
proof -
  define h where "h = (if head q + 1 \<ge> cap q then 0 else head q + 1)"
  define len where "len = (if tail q - h < 0 then tail q - h + cap q else tail q - h)"
  from inv ne have ht: "head q \<noteq> tail q" by (auto simp: messages_Nil_iff [symmetric])
  from messages_shift [OF inv ht] ne have m: "mqueue q ! nat (head q) = m"
    and ms: "messages (q\<lparr>head := h\<rparr>) = ms" by (auto simp: h_def)
  from inv obtain ov th where ol:
    "overload_loop len (overload q) (overload_threshold q) = Some (ov, th)" "overload_threshold q \<le> th"
    using overload_loop_returns [of "overload_threshold q" len "overload q"]
    by (auto simp: queue_inv_def)
  let ?q' = "q\<lparr>head := h, overload := ov, overload_threshold := th\<rparr>"
  have "queue_pop q = Some (Some m, ?q')"
    unfolding queue_pop_def Let_def h_def [symmetric] len_def [symmetric]
    using ht ol m by simp
  moreover have "queue_inv ?q'" using inv ol by (auto simp: queue_inv_def h_def)
  moreover have "messages ?q' = ms" using ms by simp
  ultimately show ?thesis by blast
qed

text \<open>The ring buffer meets the contract of a first-in first-out buffer.\<close>

interpretation mq: fifo_buffer queue_inv messages queue_store queue_pop
proof unfold_locales
  show "\<exists>q'. queue_pop q = Some (None, q') \<and> queue_inv q' \<and> messages q' = []"
    if "queue_inv q" "messages q = []" for q
    using that by (auto simp: queue_pop_none queue_inv_def QUEUE_OVERLOAD_def)
qed (simp_all add: queue_store_inv queue_store_messages queue_pop_some)


section \<open>The run queue as a list\<close>

text \<open>
  \<open>qpath h a xs\<close>: following the \<open>next\<close> fields from \<open>a\<close> visits the addresses \<open>xs\<close> and
  ends at the null pointer.
\<close>

fun qpath :: "(addr \<rightharpoonup> queue) \<Rightarrow> addr \<Rightarrow> addr list \<Rightarrow> bool" where
  "qpath h a [] \<longleftrightarrow> a = 0"
| "qpath h a (x # xs) \<longleftrightarrow> a = x \<and> a \<noteq> 0 \<and>
     (case h a of None \<Rightarrow> False | Some q \<Rightarrow> qpath h (q_next q) xs)"

definition runq :: "queue_global \<Rightarrow> addr list \<Rightarrow> bool" where
  "runq Q xs \<longleftrightarrow> qpath (qheap Q) (Qhead Q) xs \<and> distinct xs \<and>
     Qtail Q = (if xs = [] then 0 else last xs) \<and>
     (\<forall>a q. qheap Q a = Some q \<longrightarrow> a \<notin> set xs \<longrightarrow> q_next q = 0)"

lemma qpath_dom: "qpath h a xs \<Longrightarrow> set xs \<subseteq> dom h \<and> 0 \<notin> set xs"
  by (induction h a xs rule: qpath.induct) (auto split: option.splits)

lemma qpath_cong: "(\<And>b. b \<in> set xs \<Longrightarrow> map_option q_next (h b) = map_option q_next (h' b)) \<Longrightarrow>
    qpath h a xs = qpath h' a xs"
proof (induction xs arbitrary: a)
  case (Cons x xs)
  have "qpath h b xs = qpath h' b xs" for b
    using Cons.prems by (intro Cons.IH) simp
  with Cons.prems [of x] show ?case by (cases "h x"; cases "h' x") auto
qed simp

lemma qpath_fresh: "b \<notin> set xs \<Longrightarrow> qpath (h(b := v)) a xs = qpath h a xs"
  by (rule qpath_cong) auto

lemma qpath_snoc:
  "qpath h a xs \<Longrightarrow> xs \<noteq> [] \<Longrightarrow> distinct xs \<Longrightarrow> h (last xs) = Some t \<Longrightarrow> h b = Some q \<Longrightarrow>
     q_next q = 0 \<Longrightarrow> b \<notin> set xs \<Longrightarrow> b \<noteq> 0 \<Longrightarrow>
     qpath (h(last xs \<mapsto> t\<lparr>q_next := b\<rparr>)) a (xs @ [b])"
proof (induction xs arbitrary: a)
  case (Cons x xs)
  then show ?case
    by (cases "xs = []") (auto split: option.splits simp: qpath_fresh)
qed simp

lemma runq_dom: "runq Q xs \<Longrightarrow> set xs \<subseteq> dom (qheap Q) \<and> 0 \<notin> set xs"
  by (auto simp: runq_def dest: qpath_dom)

text \<open>
  A queue that is not in the list has a null \<open>next\<close> field, which is what
  \<open>queue_push_global\<close> relies on: it links the queue without resetting that field.
\<close>

lemma queue_push_global_runq:
  assumes r: "runq Q xs" and a: "qheap Q a = Some q" "a \<notin> set xs" "a \<noteq> 0"
  shows "\<exists>Q'. queue_push_global a Q = Some Q' \<and> runq Q' (xs @ [a]) \<and>
    (\<forall>b. map_option (q_next_update (\<lambda>_. 0)) (qheap Q' b)
       = map_option (q_next_update (\<lambda>_. 0)) (qheap Q b))"
proof (cases "xs = []")
  case True
  with r a show ?thesis by (auto simp: runq_def queue_push_global_def split: option.splits)
next
  case False
  from False have last: "last xs \<in> set xs" by simp
  with runq_dom [OF r] have "last xs \<noteq> 0" by metis
  with r a False have l: "Qtail Q = last xs" "q_next q = 0" "Qtail Q \<noteq> 0"
    by (auto simp: runq_def)
  with last obtain t where t: "qheap Q (last xs) = Some t"
    using runq_dom [OF r] by blast
  let ?h = "(qheap Q)(last xs \<mapsto> t\<lparr>q_next := a\<rparr>)"
  have "runq (Q\<lparr>qheap := ?h, Qtail := a\<rparr>) (xs @ [a])"
    using r a False l t by (auto simp: runq_def intro!: qpath_snoc)
  moreover have "queue_push_global a Q = Some (Q\<lparr>qheap := ?h, Qtail := a\<rparr>)"
    using l t by (simp add: queue_push_global_def)
  ultimately show ?thesis using t by auto
qed

lemma queue_pop_global_runq:
  assumes r: "runq Q (x # xs)"
  shows "\<exists>q. qheap Q x = Some q \<and> queue_pop_global Q =
     Some (x, Q\<lparr>Qhead := q_next q, Qtail := (if q_next q = 0 then 0 else Qtail Q),
       qheap := (qheap Q)(x \<mapsto> q\<lparr>q_next := 0\<rparr>)\<rparr>) \<and>
     runq (Q\<lparr>Qhead := q_next q, Qtail := (if q_next q = 0 then 0 else Qtail Q),
       qheap := (qheap Q)(x \<mapsto> q\<lparr>q_next := 0\<rparr>)\<rparr>) xs"
proof -
  from r obtain q where q: "qheap Q x = Some q" "Qhead Q = x" "x \<noteq> 0" "qpath (qheap Q) (q_next q) xs"
    "x \<notin> set xs"
    by (auto simp: runq_def split: option.splits)
  then have "q_next q = 0 \<longleftrightarrow> xs = []" by (cases xs) auto
  with q r show ?thesis
    by (auto simp: queue_pop_global_def runq_def qpath_fresh Let_def)
qed

lemma queue_pop_global_empty: "runq Q [] \<Longrightarrow> queue_pop_global Q = Some (0, Q)"
  by (simp add: runq_def queue_pop_global_def)

lemma queue_drop_all:
  "queue_inv q \<Longrightarrow> \<exists>q'. queue_drop q = Some (messages q, q') \<and> messages q' = []"
proof (induction "messages q" arbitrary: q)
  case Nil
  from mq.pop_empty [OF Nil.prems Nil.hyps [symmetric]] Nil.hyps show ?case
    by (subst queue_drop.simps) (auto)
next
  case (Cons m ms)
  from mq.pop_first [OF Cons.prems Cons.hyps(2) [symmetric]] obtain q' where q':
    "queue_pop q = Some (Some m, q')" "queue_inv q'" "messages q' = ms" by blast
  from Cons.hyps(1) [OF q'(3) [symmetric] q'(2)] q' Cons.hyps(2) show ?case
    by (subst queue_drop.simps) auto
qed


section \<open>Workers and the run queue\<close>

text \<open>
  The run queue under any interleaving of the threads that use it. A state is the store, the
  queues in the hands of threads and the abandoned queues. A thread (a number) has a queue in
  hand as its \<open>As_creator\<close>, from \<open>queue_new\<close> in \<open>pixel_new\<close> until it is scheduled, or as
  a \<open>As_worker\<close>, from \<open>queue_pop_global\<close> until it gives the queue back. The steps are the calls
  made by \<open>pixel_new\<close>, \<open>pixel_push\<close>, \<open>pixel_dispatch\<close>, \<open>pixel_free\<close> and
  \<open>pixel_force_free\<close> in \<open>src/src/pixel.c\<close>, from \<open>queue_init\<close> until \<open>pixel_unit\<close>
  takes the runtime down. The guard \<open>release q = 0\<close> of \<open>send\<close>, \<open>work\<close> and \<open>idle\<close> is
  the reference that the caller holds from \<open>handle_grab\<close>: the service is only freed, and its
  queue marked, when the last reference is gone.

  The step \<open>abandon\<close> is a launch that fails (lines 182-186) while another thread still holds
  a reference to the new service, a sender in \<open>pixel_push\<close> for instance: the
  \<open>handle_release\<close> of \<open>pixel_force_free\<close> is then not the last one, so \<open>queue_free\<close> is
  skipped (lines 151-154) and the creator drops the queue without scheduling it. The step is
  taken when that \<open>handle_release\<close> counts down, when the other reference keeps the queue
  unmarked.
\<close>

datatype role = As_creator | As_worker

type_synonym run_state = "queue_global \<times> (nat \<times> role \<times> addr) set \<times> addr set"

inductive run_step :: "run_state \<Rightarrow> run_state \<Rightarrow> bool" where
  create: "qheap Q a = None \<Longrightarrow> a \<noteq> 0 \<Longrightarrow>
     run_step (Q, H, B) (Q\<lparr>qheap := (qheap Q)(a \<mapsto> queue_new h)\<rparr>, insert (t, As_creator, a) H, B)"
| send: "qheap Q a = Some q \<Longrightarrow> release q = 0 \<Longrightarrow> queue_push a m Q = Some Q' \<Longrightarrow>
     run_step (Q, H, B) (Q', H, B)"
| take_next: "queue_pop_global Q = Some (a, Q') \<Longrightarrow> a \<noteq> 0 \<Longrightarrow>
     run_step (Q, H, B) (Q', insert (t, As_worker, a) H, B)"
| work: "(t, As_worker, a) \<in> H \<Longrightarrow> qheap Q a = Some q \<Longrightarrow> release q = 0 \<Longrightarrow>
     queue_pop q = Some (Some m, q') \<Longrightarrow>
     run_step (Q, H, B) (Q\<lparr>qheap := (qheap Q)(a \<mapsto> q')\<rparr>, H, B)"
| idle: "(t, As_worker, a) \<in> H \<Longrightarrow> qheap Q a = Some q \<Longrightarrow> release q = 0 \<Longrightarrow>
     queue_pop q = Some (None, q') \<Longrightarrow>
     run_step (Q, H, B) (Q\<lparr>qheap := (qheap Q)(a \<mapsto> q')\<rparr>, H - {(t, As_worker, a)}, B)"
| report: "qheap Q a = Some q \<Longrightarrow> queue_overload q = (ov, q') \<Longrightarrow>
     run_step (Q, H, B) (Q\<lparr>qheap := (qheap Q)(a \<mapsto> q')\<rparr>, H, B)"
| give_back: "(t, r, a) \<in> H \<Longrightarrow> queue_push_global a Q = Some Q' \<Longrightarrow>
     run_step (Q, H, B) (Q', H - {(t, r, a)}, B)"
| mark: "queue_mark_free a Q = Some Q' \<Longrightarrow> run_step (Q, H, B) (Q', H, B)"
| free: "(t, r, a) \<in> H \<Longrightarrow> queue_free a Q = Some (ms, Q') \<Longrightarrow>
     run_step (Q, H, B) (Q', H - {(t, r, a)}, B)"
| abandon: "(t, As_creator, a) \<in> H \<Longrightarrow> qheap Q a = Some q \<Longrightarrow> release q = 0 \<Longrightarrow>
     run_step (Q, H, B) (Q, H - {(t, As_creator, a)}, insert a B)"

inductive run_reachable :: "run_state \<Rightarrow> bool" where
  start: "Map.empty = qheap Q \<Longrightarrow> run_reachable (queue_init Q, {}, {})"
| step: "run_reachable S \<Longrightarrow> run_step S S' \<Longrightarrow> run_reachable S'"

definition queue_ok :: "bool \<Rightarrow> queue \<Rightarrow> bool" where
  "queue_ok scheduled q \<longleftrightarrow> queue_inv q \<and>
     (scheduled \<longleftrightarrow> global q \<noteq> 0 \<or> release q \<noteq> 0) \<and>
     (\<not> scheduled \<longrightarrow> messages q = [])"

definition run_inv :: "queue_global \<times> addr set \<Rightarrow> addr list \<Rightarrow> bool" where
  "run_inv S xs \<longleftrightarrow> runq (fst S) xs \<and> set xs \<inter> snd S = {} \<and> snd S \<subseteq> dom (qheap (fst S)) \<and>
     qheap (fst S) 0 = None \<and>
     (\<forall>a q. qheap (fst S) a = Some q \<longrightarrow> queue_ok (a \<in> set xs \<union> snd S) q)"


lemma queue_ok_frame [simp]:
  "queue_ok b (q\<lparr>q_next := a\<rparr>) = queue_ok b q"
  "queue_ok b (q\<lparr>overload := n\<rparr>) = queue_ok b q"
  by (simp_all add: queue_ok_def queue_inv_def)

lemma runq_update:
  "runq Q xs \<Longrightarrow> qheap Q a = Some q \<Longrightarrow> q_next q' = q_next q \<Longrightarrow>
     runq (Q\<lparr>qheap := (qheap Q)(a \<mapsto> q')\<rparr>) xs"
  using qpath_cong [of xs "(qheap Q)(a \<mapsto> q')" "qheap Q" "Qhead Q"] by (auto simp: runq_def)

lemma runq_remove: "runq Q xs \<Longrightarrow> a \<notin> set xs \<Longrightarrow> runq (Q\<lparr>qheap := (qheap Q)(a := None)\<rparr>) xs"
  by (auto simp: runq_def qpath_fresh)

lemma run_inv_push_global:
  assumes "runq Q xs" "qheap Q a = Some q" "a \<notin> set xs" "a \<noteq> 0"
    "set xs \<inter> H = {}" "H \<subseteq> dom (qheap Q)" "qheap Q 0 = None"
    "\<And>b r. qheap Q b = Some r \<Longrightarrow> queue_ok (b \<in> insert a (set xs) \<union> H) r"
    "queue_push_global a Q = Some Q'"
  shows "run_inv (Q', H - {a}) (xs @ [a])"
proof -
  from queue_push_global_runq [OF assms(1-4)] assms(9)
  have r: "runq Q' (xs @ [a])" and eq: "\<And>b. map_option (q_next_update (\<lambda>_. 0)) (qheap Q' b)
       = map_option (q_next_update (\<lambda>_. 0)) (qheap Q b)" by auto
  have d: "dom (qheap Q') = dom (qheap Q)"
    using eq by (auto simp: dom_def) (metis option.map_disc_iff option.distinct(1) not_None_eq)+
  have "queue_ok (b \<in> set (xs @ [a]) \<union> (H - {a})) r" if "qheap Q' b = Some r" for b r
  proof -
    from eq [of b] that obtain r0 where "qheap Q b = Some r0" "r\<lparr>q_next := 0\<rparr> = r0\<lparr>q_next := 0\<rparr>"
      by (cases "qheap Q b") auto
    then have "queue_ok c r = queue_ok c r0" for c by (metis queue_ok_frame(1))
    moreover have "(b \<in> set (xs @ [a]) \<union> (H - {a})) = (b \<in> insert a (set xs) \<union> H)" by auto
    ultimately show ?thesis using assms(8) [OF \<open>qheap Q b = Some r0\<close>] by simp
  qed
  moreover from eq [of 0] assms(7) have "qheap Q' 0 = None" by (cases "qheap Q' 0") auto
  ultimately show ?thesis using r d assms by (auto simp: run_inv_def)
qed

lemma queue_store_fields [simp]:
  "global (queue_store m q) = global q" "release (queue_store m q) = release q"
  "q_next (queue_store m q) = q_next q"
  by (simp_all add: queue_store_def queue_expand_def Let_def)

lemma queue_pop_fields:
  "queue_pop q = Some (r, q') \<Longrightarrow> release q' = release q \<and> q_next q' = q_next q \<and>
     global q' = (if r = None then 0 else global q)"
  by (auto simp: queue_pop_def Let_def bind_eq_Some_conv split: if_splits)

lemma queue_pop_ok:
  assumes "queue_ok True q" "release q = 0" "queue_pop q = Some (r, q')"
  shows "queue_ok (r \<noteq> None) q'"
proof (cases "messages q")
  case Nil
  with assms queue_pop_none [of q] show ?thesis
    by (auto simp: queue_ok_def queue_inv_def QUEUE_OVERLOAD_def)
next
  case (Cons m ms)
  with assms queue_pop_some [of q m ms] queue_pop_fields [of q r q'] show ?thesis
    by (auto simp: queue_ok_def)
qed

lemma run_inv_held:
  assumes "run_inv (Q, H) xs" "a \<in> H" "qheap Q a = Some q"
  shows "queue_ok True q" "a \<notin> set xs"
proof -
  from assms have "queue_ok (a \<in> set xs \<union> H) q"
    unfolding run_inv_def fst_conv snd_conv by blast
  with assms show "queue_ok True q" by simp
qed (use assms in \<open>auto simp: run_inv_def\<close>)

lemma run_inv_update:
  assumes "run_inv (Q, H) xs" "qheap Q a = Some q" "q_next q' = q_next q"
    "queue_ok (a \<in> set xs \<union> H') q'" "H' = H \<or> H' = H - {a}"
  shows "run_inv (Q\<lparr>qheap := (qheap Q)(a \<mapsto> q')\<rparr>, H') xs"
  using assms runq_update [of Q xs a q q'] by (auto simp: run_inv_def)

lemma run_inv_take:
  assumes inv: "run_inv (Q, H) xs" and pop: "queue_pop_global Q = Some (a, Q')" "a \<noteq> 0"
  shows "\<exists>ys. xs = a # ys \<and> run_inv (Q', insert a H) ys"
proof -
  from inv pop queue_pop_global_empty [of Q] have "xs \<noteq> []" by (auto simp: run_inv_def)
  then obtain y ys where xs: "xs = y # ys" by (cases xs) auto
  with inv queue_pop_global_runq [of Q y ys] pop obtain q where q: "qheap Q a = Some q" "y = a"
    "Q' = Q\<lparr>Qhead := q_next q, Qtail := (if q_next q = 0 then 0 else Qtail Q),
       qheap := (qheap Q)(a \<mapsto> q\<lparr>q_next := 0\<rparr>)\<rparr>" "runq Q' ys"
    by (auto simp: run_inv_def)
  have "a \<notin> set ys" using inv xs q by (auto simp: run_inv_def runq_def)
  moreover have "queue_ok (b \<in> set ys \<union> insert a H) r" if "qheap Q' b = Some r" for b r
  proof -
    have "\<And>b r. qheap Q b = Some r \<Longrightarrow> queue_ok (b \<in> set xs \<union> H) r"
      using inv by (simp add: run_inv_def)
    from this [of b r] this [of a q] that xs q show ?thesis by (auto split: if_splits)
  qed
  ultimately have "run_inv (Q', insert a H) ys" using inv xs q by (auto simp: run_inv_def)
  with xs q show ?thesis by blast
qed

lemma run_inv_send:
  assumes inv: "run_inv (Q, H) xs" and q: "qheap Q a = Some q"
    and rel: "release q = 0" and push: "queue_push a m Q = Some Q'"
  shows "\<exists>ys. run_inv (Q', H) ys"
proof (cases "global q = 0")
  case True
  with inv q rel have a: "a \<notin> set xs" "a \<notin> H" "a \<noteq> 0" and ok: "queue_inv q"
    by (auto simp: run_inv_def queue_ok_def)
  let ?Q = "Q\<lparr>qheap := (qheap Q)(a \<mapsto> (queue_store m q)\<lparr>global := 1\<rparr>)\<rparr>"
  have "queue_push_global a ?Q = Some Q'" using True push q by (simp add: queue_push_def)
  moreover have "queue_ok True ((queue_store m q)\<lparr>global := 1\<rparr>)"
    using ok queue_store_inv [of q m] by (auto simp: queue_ok_def queue_inv_def)
  moreover have "runq ?Q xs" using inv q by (intro runq_update [of Q]) (auto simp: run_inv_def)
  ultimately have "run_inv (Q', H - {a}) (xs @ [a])"
    using inv a q by (intro run_inv_push_global [of ?Q]) (auto simp: run_inv_def split: if_splits)
  with a show ?thesis by auto
next
  case False
  with inv q have ok: "queue_ok True q" "a \<in> set xs \<union> H"
    by (auto simp: run_inv_def queue_ok_def)
  then have "queue_ok True (queue_store m q)"
    using False queue_store_inv [of q m] by (auto simp: queue_ok_def)
  with inv q ok have "run_inv (Q\<lparr>qheap := (qheap Q)(a \<mapsto> queue_store m q)\<rparr>, H) xs"
    by (intro run_inv_update) auto
  with False push q show ?thesis by (auto simp: queue_push_def)
qed

lemma run_inv_mark:
  assumes inv: "run_inv (Q, H) xs" and mark: "queue_mark_free a Q = Some Q'"
  shows "\<exists>ys. run_inv (Q', H) ys"
proof -
  from mark obtain q where q: "qheap Q a = Some q" "release q = 0"
    by (auto simp: queue_mark_free_def bind_eq_Some_conv split: if_splits)
  let ?Q = "Q\<lparr>qheap := (qheap Q)(a \<mapsto> q\<lparr>release := 1\<rparr>)\<rparr>"
  from inv q have ok: "queue_ok True (q\<lparr>release := 1\<rparr>)"
    by (auto simp: run_inv_def queue_ok_def queue_inv_def)
  show ?thesis
  proof (cases "global q = 0")
    case True
    with inv q have a: "a \<notin> set xs" "a \<notin> H" "a \<noteq> 0"
      by (auto simp: run_inv_def queue_ok_def)
    have "queue_push_global a ?Q = Some Q'" using True mark q by (simp add: queue_mark_free_def Let_def)
    moreover have "runq ?Q xs" using inv q by (intro runq_update [of Q]) (auto simp: run_inv_def)
    ultimately have "run_inv (Q', H - {a}) (xs @ [a])"
      using inv a q ok by (intro run_inv_push_global [of ?Q]) (auto simp: run_inv_def split: if_splits)
    with a show ?thesis by auto
  next
    case False
    with inv q have "a \<in> set xs \<union> H" by (auto simp: run_inv_def queue_ok_def)
    with False mark inv q ok have "run_inv (Q', H) xs"
      by (auto simp: queue_mark_free_def Let_def intro!: run_inv_update)
    then show ?thesis ..
  qed
qed

lemma run_inv_free:
  assumes inv: "run_inv (Q, H) xs" and a: "a \<in> H" and free: "queue_free a Q = Some (ms, Q')"
  shows "\<exists>ys. run_inv (Q', H - {a}) ys"
proof -
  from inv a have "a \<in> dom (qheap Q)" "a \<notin> set xs" "qheap Q 0 = None"
    by (auto simp: run_inv_def)
  then obtain q where q: "qheap Q a = Some q" "a \<notin> set xs" "a \<noteq> 0" by (cases "a = 0") auto
  show ?thesis
  proof (cases "release q = 0")
    case True
    with free q have "queue_push_global a Q = Some Q'"
      by (auto simp: queue_free_def bind_eq_Some_conv)
    with inv q a have "run_inv (Q', H - {a}) (xs @ [a])"
      by (intro run_inv_push_global) (auto simp: run_inv_def insert_absorb)
    then show ?thesis ..
  next
    case False
    with free q have "Q' = Q\<lparr>qheap := (qheap Q)(a := None)\<rparr>"
      by (auto simp: queue_free_def bind_eq_Some_conv)
    with inv q have "run_inv (Q', H - {a}) xs"
      by (auto simp: run_inv_def intro: runq_remove)
    then show ?thesis ..
  qed
qed

lemma run_inv_create:
  assumes inv: "run_inv (Q, H) xs" and a: "qheap Q a = None" "a \<noteq> 0"
  shows "run_inv (Q\<lparr>qheap := (qheap Q)(a \<mapsto> queue_new h)\<rparr>, insert a H) xs"
proof -
  from inv a have "a \<notin> set xs" using runq_dom [of Q xs] by (auto simp: run_inv_def)
  moreover have "queue_ok True (queue_new h)" "q_next (queue_new h) = 0"
    by (simp_all add: queue_ok_def queue_new_inv) (simp_all add: queue_new_def)
  ultimately show ?thesis using inv a by (auto simp: run_inv_def runq_def qpath_fresh)
qed

text \<open>
  The invariant of the whole system: \<open>run_inv\<close> for the queues in hand and the abandoned ones, which are unscheduled alike, and
  at most one holder for each queue in hand.
\<close>

definition held :: "(nat \<times> role \<times> addr) set \<Rightarrow> addr set" where
  "held H = (\<lambda>(t, r, a). a) ` H"

definition one_holder :: "(nat \<times> role \<times> addr) set \<Rightarrow> bool" where
  "one_holder H \<longleftrightarrow>
     (\<forall>a t r t' r'. (t, r, a) \<in> H \<longrightarrow> (t', r', a) \<in> H \<longrightarrow> t' = t \<and> r' = r)"

definition sys_inv :: "run_state \<Rightarrow> addr list \<Rightarrow> bool" where
  "sys_inv S xs = (case S of (Q, H, B) \<Rightarrow> run_inv (Q, held H \<union> B) xs \<and> held H \<inter> B = {} \<and> one_holder H)"

lemma held_iff: "a \<in> held H \<longleftrightarrow> (\<exists>t r. (t, r, a) \<in> H)"
  by (auto simp: held_def image_iff Bex_def)

lemma held_simps [simp]:
  "held {} = {}" "held (insert (t, r, a) H) = insert a (held H)" "(t, r, a) \<in> H \<Longrightarrow> a \<in> held H"
  by (simp_all add: held_def) force

lemma one_holder_ex1:
  assumes "one_holder H" "a \<in> held H"
  shows "\<exists>!p. (fst p, snd p, a) \<in> H"
proof -
  from assms(2) obtain t r where h: "(t, r, a) \<in> H" by (auto simp: held_iff)
  show ?thesis
  proof (rule ex1I [of _ "(t, r)"])
    fix p assume "(fst p, snd p, a) \<in> H"
    with assms(1) h show "p = (t, r)" unfolding one_holder_def by (metis prod.collapse)
  qed (simp add: h)
qed

lemma one_holder_insert: "one_holder H \<Longrightarrow> a \<notin> held H \<Longrightarrow> one_holder (insert (t, r, a) H)"
  unfolding one_holder_def held_iff by blast

lemma one_holder_remove:
  assumes "one_holder H" "(t, r, a) \<in> H"
  shows "held (H - {(t, r, a)}) = held H - {a}" "one_holder (H - {(t, r, a)})"
proof -
  have "b \<in> held (H - {(t, r, a)}) \<longleftrightarrow> b \<in> held H - {a}" for b
    using assms unfolding one_holder_def Diff_iff held_iff by (cases "b = a") blast+
  then show "held (H - {(t, r, a)}) = held H - {a}" by blast
  show "one_holder (H - {(t, r, a)})" using assms(1) unfolding one_holder_def by blast
qed

lemma held_not_abandoned: "sys_inv (Q, H, B) xs \<Longrightarrow> (t, r, b) \<in> H \<Longrightarrow> a \<in> B \<Longrightarrow> a \<noteq> b"
  using held_simps(3) [of t r b H] by (auto simp: sys_inv_def simp del: held_simps)

lemma sys_inv_held:
  assumes "sys_inv (Q, H, B) xs" "(t, r, a) \<in> H"
  shows "a \<in> held H \<union> B" "a \<notin> set xs" "a \<noteq> 0" "held (H - {(t, r, a)}) \<union> B = held H \<union> B - {a}"
    "held (H - {(t, r, a)}) \<inter> B = {}" "one_holder (H - {(t, r, a)})" "qheap Q a = Some q \<Longrightarrow> queue_ok True q"
proof -
  from assms have i: "run_inv (Q, held H \<union> B) xs" "held H \<inter> B = {}" "one_holder H" by (simp_all add: sys_inv_def)
  show a: "a \<in> held H \<union> B" using assms(2) by simp
  with i(1) show "a \<notin> set xs" by (auto simp: run_inv_def)
  from i(1) a have "a \<in> dom (qheap Q)" "qheap Q 0 = None" unfolding run_inv_def fst_conv snd_conv by blast+
  then show "a \<noteq> 0" by (metis domIff)
  note o = one_holder_remove [OF i(3) assms(2)]
  have "a \<in> held H" using assms(2) by simp
  with i(2) o show "held (H - {(t, r, a)}) \<union> B = held H \<union> B - {a}" "held (H - {(t, r, a)}) \<inter> B = {}"
    "one_holder (H - {(t, r, a)})" by auto
  show "queue_ok True q" if "qheap Q a = Some q" using run_inv_held(1) [OF i(1) a that] .
qed

lemma run_step_inv: "run_step S S' \<Longrightarrow> sys_inv S xs \<Longrightarrow> \<exists>ys. sys_inv S' ys"
proof (induction rule: run_step.induct)
  case (create Q a H B h t)
  then have i: "run_inv (Q, held H \<union> B) xs" "held H \<inter> B = {}" "one_holder H" by (simp_all add: sys_inv_def)
  then have "a \<notin> held H \<union> B" using create by (auto simp: run_inv_def)
  with run_inv_create [OF i(1) create.hyps, of h] i one_holder_insert [of H a t As_creator] show ?case
    by (intro exI [of _ xs]) (simp add: sys_inv_def)
next
  case (send Q a q m Q' H B)
  with run_inv_send [of Q "held H \<union> B" xs a q m Q'] show ?case by (simp add: sys_inv_def)
next
  case (take_next Q a Q' H B t)
  then have i: "run_inv (Q, held H \<union> B) xs" "held H \<inter> B = {}" "one_holder H" by (simp_all add: sys_inv_def)
  from run_inv_take [OF i(1) take_next.hyps] obtain ys where
    ys: "xs = a # ys" "run_inv (Q', insert a (held H \<union> B)) ys" by blast
  have "a \<notin> held H \<union> B" using i(1) ys(1) by (auto simp: run_inv_def)
  with ys(2) i(2,3) one_holder_insert [of H a t As_worker] show ?case
    by (intro exI [of _ ys]) (simp add: sys_inv_def)
next
  case (work t a H Q q m q' B)
  note h = sys_inv_held [OF work.prems work.hyps(1)]
  from work queue_pop_ok [OF h(7), of q "Some m" q'] queue_pop_fields [of q "Some m" q'] h(1)
    run_inv_update [of Q "held H \<union> B" xs a q q' "held H \<union> B"]
  show ?case by (auto simp: sys_inv_def)
next
  case (idle t a H Q q q' B)
  note h = sys_inv_held [OF idle.prems idle.hyps(1)]
  from idle queue_pop_ok [OF h(7), of q None q'] queue_pop_fields [of q None q'] h(2)
    run_inv_update [of Q "held H \<union> B" xs a q q' "held H \<union> B - {a}"]
  have "run_inv (Q\<lparr>qheap := (qheap Q)(a \<mapsto> q')\<rparr>, held H \<union> B - {a}) xs" by (simp add: sys_inv_def)
  with h(4-6) show ?case by (auto simp: sys_inv_def)
next
  case (report Q a q ov q' H B)
  then have q': "q' = q\<lparr>overload := 0\<rparr> \<or> q' = q" by (auto simp: queue_overload_def split: if_splits)
  from report have i: "run_inv (Q, held H \<union> B) xs" by (simp add: sys_inv_def)
  then have "queue_ok (a \<in> set xs \<union> (held H \<union> B)) q" using report by (simp add: run_inv_def)
  with q' run_inv_update [OF i report.hyps(1), of q' "held H \<union> B"] report.prems show ?case by (auto simp: sys_inv_def)
next
  case (give_back t r a H Q Q' B)
  note h = sys_inv_held [OF give_back.prems give_back.hyps(1)]
  from give_back have i: "run_inv (Q, held H \<union> B) xs" by (simp add: sys_inv_def)
  with h(1) obtain q where "qheap Q a = Some q" by (auto simp: run_inv_def)
  with i give_back h(1-3) have "run_inv (Q', held H \<union> B - {a}) (xs @ [a])"
    by (intro run_inv_push_global) (auto simp: run_inv_def insert_absorb)
  with h(4-6) show ?case by (auto simp: sys_inv_def)
next
  case (mark a Q Q' H B)
  with run_inv_mark [of Q "held H \<union> B" xs a Q'] show ?case by (simp add: sys_inv_def)
next
  case (free t r a H Q ms Q' B)
  note h = sys_inv_held [OF free.prems free.hyps(1)]
  from free run_inv_free [OF _ h(1), of Q xs ms Q'] h(4-6) show ?case by (auto simp: sys_inv_def)
next
  case (abandon t a H Q q B)
  note h = sys_inv_held [OF abandon.prems abandon.hyps(1)]
  have "held (H - {(t, As_creator, a)}) \<union> insert a B = held H \<union> B" using h(1,4) by blast
  moreover have "a \<notin> held (H - {(t, As_creator, a)})" using h(4,5) by blast
  ultimately show ?case using h(5,6) abandon.prems by (auto simp: sys_inv_def)
qed

lemma run_reachable_inv: "run_reachable S \<Longrightarrow> \<exists>xs. sys_inv S xs"
proof (induction rule: run_reachable.induct)
  case (start Q)
  then have "run_inv (queue_init Q, {}) []"
    by (auto simp: run_inv_def runq_def queue_init_def) (metis option.distinct(1))+
  then show ?case by (auto simp: sys_inv_def one_holder_def)
next
  case (step S S')
  then show ?case using run_step_inv by blast
qed

lemma run_reachable_steps: "run_step\<^sup>*\<^sup>* S S' \<Longrightarrow> run_reachable S \<Longrightarrow> run_reachable S'"
  by (induction rule: rtranclp_induct) (auto intro: run_reachable.step)

text \<open>Scheduling a queue changes the links of the run queue, and no queue's messages.\<close>

definition box_messages :: "queue_global \<Rightarrow> addr \<Rightarrow> message list option" where
  "box_messages Q a = map_option messages (qheap Q a)"

lemma messages_frame [simp]:
  "messages (q\<lparr>release := x\<rparr>) = messages q" "messages (q\<lparr>global := x\<rparr>) = messages q"
  "messages (q\<lparr>overload := x\<rparr>) = messages q" "messages (q\<lparr>q_next := y\<rparr>) = messages q"
  by (simp_all add: messages_def)

lemma push_global_box: "queue_push_global a Q = Some Q' \<Longrightarrow> box_messages Q' b = box_messages Q b"
  by (auto simp: queue_push_global_def box_messages_def bind_eq_Some_conv split: if_splits)

lemma pop_global_box: "queue_pop_global Q = Some (a, Q') \<Longrightarrow> box_messages Q' b = box_messages Q b"
  by (auto simp: queue_pop_global_def box_messages_def bind_eq_Some_conv split: if_splits)

lemma mark_free_box: "queue_mark_free a Q = Some Q' \<Longrightarrow> box_messages Q' b = box_messages Q b"
  by (auto simp: queue_mark_free_def Let_def bind_eq_Some_conv split: if_splits dest!: push_global_box [of _ _ _ b])
    (auto simp: box_messages_def)

lemma free_box: "queue_free a Q = Some (ms, Q') \<Longrightarrow> b \<noteq> a \<Longrightarrow> box_messages Q' b = box_messages Q b"
  by (auto simp: queue_free_def bind_eq_Some_conv split: if_splits dest!: push_global_box [of _ _ _ b])
    (auto simp: box_messages_def)

lemma push_box:
  assumes "queue_push a m Q = Some Q'" "qheap Q a = Some q" "queue_inv q"
  shows "box_messages Q' b = (if b = a then Some (messages q @ [m]) else box_messages Q b)"
  using assms queue_store_messages [of q m]
  by (auto simp: queue_push_def Let_def split: if_splits dest!: push_global_box [of _ _ _ b]) (auto simp: box_messages_def)

text \<open>An abandoned queue keeps its messages: nothing but a send changes them.\<close>

definition strands :: "addr \<Rightarrow> message list \<Rightarrow> run_state \<Rightarrow> bool" where
  "strands a ms S \<longleftrightarrow> a \<in> snd (snd S) \<and> (\<exists>ns. box_messages (fst S) a = Some (ms @ ns))"

lemma strands_step:
  assumes "run_step S S'" "sys_inv S xs" "strands a ms S"
  shows "strands a ms S'"
  using assms
proof (induction rule: run_step.induct)
  case (create Q b H B h t)
  then show ?case by (auto simp: strands_def box_messages_def)
next
  case (send Q b q m Q' H B)
  then have "queue_inv q" by (auto simp: sys_inv_def run_inv_def queue_ok_def)
  from push_box [OF send.hyps(3,1) this, of a] send show ?case by (auto simp: strands_def box_messages_def)
next
  case (take_next Q b Q' H B t)
  then show ?case using pop_global_box [of Q b Q' a] by (simp add: strands_def)
next
  case (work t b H Q q m q' B)
  then have "a \<noteq> b" using held_not_abandoned by (auto simp: strands_def)
  with work show ?case by (simp add: strands_def box_messages_def)
next
  case (idle t b H Q q q' B)
  then have "a \<noteq> b" using held_not_abandoned by (auto simp: strands_def)
  with idle show ?case by (simp add: strands_def box_messages_def)
next
  case (report Q b q ov q' H B)
  then have "messages q' = messages q" by (auto simp: queue_overload_def split: if_splits)
  with report show ?case by (auto simp: strands_def box_messages_def)
next
  case (give_back t r b H Q Q' B)
  then show ?case using push_global_box [of b Q Q' a] by (simp add: strands_def)
next
  case (mark b Q Q' H B)
  then show ?case using mark_free_box [of b Q Q' a] by (simp add: strands_def)
next
  case (free t r b H Q ns Q' B)
  then have "a \<noteq> b" using held_not_abandoned by (auto simp: strands_def)
  with free free_box [of b Q ns Q' a] show ?case by (simp add: strands_def)
next
  case (abandon t b H Q q B)
  then show ?case by (simp add: strands_def)
qed

lemma strands_steps:
  "run_step\<^sup>*\<^sup>* S S' \<Longrightarrow> run_reachable S \<Longrightarrow> strands a ms S \<Longrightarrow> strands a ms S'"
proof (induction rule: rtranclp_induct)
  case (step S' S'')
  with run_reachable_steps [of S S'] run_reachable_inv [of S'] show ?case by (blast intro: strands_step)
qed


section \<open>Properties\<close>

text \<open>
  C1: A message queue is first-in first-out and loses nothing: from a new queue, any sequence of
  pushes and pops returns, and the messages popped followed by those still held are exactly the
  messages pushed, in order, through every growth and wrap-around of the ring buffer.
\<close>

theorem mqueue_fifo:
  "\<exists>out q. mq.run ops (queue_new h) = Some (out, q) \<and> queue_inv q \<and> out @ messages q = pushed ops"
  using mq.run_conserves [OF queue_new_inv, of ops h] by simp

text \<open>
  C2: No message is stranded but by a failed launch, and no queue is scheduled twice. In every
  state the threads can reach before the runtime is taken down, the run queue is a well-formed
  list without repetition, disjoint from the queues in the hands of threads; a queue in hand is
  in the hands of exactly one thread, in one role; and a queue that holds a message is in the
  list, in hand, or was abandoned by a launch that failed while another thread held a reference
  to the service (the step \<open>abandon\<close>). Abandoned queues are in neither. This takes for granted that
  the reference a thread holds keeps the service from being freed, which a second \<open>KILL\<close> of one
  service can break.
\<close>

theorem no_stranded_message:
  assumes "run_reachable (Q, H, B)"
  shows "\<exists>xs. runq Q xs \<and> distinct xs \<and> set xs \<inter> held H = {} \<and> (set xs \<union> held H) \<inter> B = {} \<and>
    (\<forall>a\<in>held H. \<exists>!p. (fst p, snd p, a) \<in> H) \<and>
    (\<forall>a q. qheap Q a = Some q \<longrightarrow> messages q \<noteq> [] \<longrightarrow> a \<in> set xs \<or> a \<in> held H \<or> a \<in> B)"
proof -
  from run_reachable_inv [OF assms] obtain xs where "sys_inv (Q, H, B) xs" ..
  then have i: "run_inv (Q, held H \<union> B) xs" "held H \<inter> B = {}" "one_holder H" by (simp_all add: sys_inv_def)
  have "a \<in> set xs \<or> a \<in> held H \<or> a \<in> B" if "qheap Q a = Some q" "messages q \<noteq> []" for a q
    using i(1) that by (auto simp: run_inv_def queue_ok_def)
  with i one_holder_ex1 [OF i(3)] show ?thesis
    by (intro exI [of _ xs] conjI) (auto simp: run_inv_def runq_def)
qed

text \<open>
  C31: A launch that fails while another thread holds a reference to the new service strands its
  queue: in every later state the queue is still in the store with all its messages, outside the
  run queue and in nobody's hands, so no message in it is ever dispatched or dropped and the
  queue is never freed.
\<close>

theorem failed_launch_strands:
  assumes "run_reachable (Q, H, B)" "(t, As_creator, a) \<in> H" "qheap Q a = Some q" "release q = 0"
    and "run_step\<^sup>*\<^sup>* (Q, H - {(t, As_creator, a)}, insert a B) (Q', H', B')"
  shows "run_step (Q, H, B) (Q, H - {(t, As_creator, a)}, insert a B) \<and>
    (\<exists>q' ms. qheap Q' a = Some q' \<and> messages q' = messages q @ ms) \<and> a \<notin> held H' \<and>
    (\<exists>xs. runq Q' xs \<and> a \<notin> set xs)"
proof -
  note s = run_step.abandon [OF assms(2-4)]
  from run_reachable.step [OF assms(1) s] have r: "run_reachable (Q, H - {(t, As_creator, a)}, insert a B)" .
  have "strands a (messages q) (Q, H - {(t, As_creator, a)}, insert a B)"
    using assms(3) by (simp add: strands_def box_messages_def)
  from strands_steps [OF assms(5) r this] have st: "a \<in> B'" "\<exists>q' ms. qheap Q' a = Some q' \<and> messages q' = messages q @ ms"
    by (auto simp: strands_def box_messages_def)
  from run_reachable_inv [OF run_reachable_steps [OF assms(5) r]] obtain xs where inv: "sys_inv (Q', H', B') xs" ..
  with st(1) have "runq Q' xs" "a \<notin> set xs" "a \<notin> held H'" by (auto simp: sys_inv_def run_inv_def)
  with s st(2) show ?thesis by blast
qed

text \<open>
  \<open>queue_free\<close> on a released queue terminates, hands every message still queued to the drop
  callback exactly once and in order, and removes the queue from the store; the run queue and
  every other queue are untouched.
\<close>

theorem queue_free_drains:
  assumes "qheap Q a = Some q" "queue_inv q" "release q \<noteq> 0"
  shows "queue_free a Q = Some (messages q, Q\<lparr>qheap := (qheap Q)(a := None)\<rparr>)"
  using assms queue_drop_all [of q] by (auto simp: queue_free_def)


text \<open>A service queue with one message waiting, still in the hands of its creator.\<close>

definition sample_store :: "queue_global" where
  "sample_store = \<lparr>qheap = [1 \<mapsto> queue_store (zero_message\<lparr>msg_session := 5\<rparr>) (queue_new 7)],
     Qhead = 0, Qtail = 0\<rparr>"

lemma sample_store_messages:
  "messages (queue_store (zero_message\<lparr>msg_session := 5\<rparr>) (queue_new 7)) = [zero_message\<lparr>msg_session := 5\<rparr>]"
  by (simp add: queue_store_messages queue_new_inv)

lemma sample_store_reachable: "run_reachable (sample_store, {(3, As_creator, 1)}, {})"
proof -
  let ?Q = "\<lparr>qheap = Map.empty, Qhead = 0, Qtail = 0\<rparr> :: queue_global"
  let ?Q1 = "?Q\<lparr>qheap := [1 \<mapsto> queue_new 7]\<rparr>"
  have "run_reachable (queue_init ?Q, {}, {})" by (rule run_reachable.start) simp
  then have "run_reachable (?Q, {}, {})" by (simp add: queue_init_def)
  then have "run_reachable (?Q1, {(3, As_creator, 1)}, {})"
    using run_step.create [of ?Q 1 "{}" "{}" 7 3] by (auto intro: run_reachable.step)
  moreover have "run_step (?Q1, {(3, As_creator, 1)}, {}) (sample_store, {(3, As_creator, 1)}, {})"
    by (rule run_step.send [where a = 1 and q = "queue_new 7" and m = "zero_message\<lparr>msg_session := 5\<rparr>"])
      (simp_all add: queue_push_def sample_store_def queue_new_def)
  ultimately show ?thesis by (rule run_reachable.step)
qed

theorem no_stranded_message_witness:
  "\<exists>xs. runq sample_store xs \<and> distinct xs \<and> set xs \<inter> {1} = {} \<and> (set xs \<union> {1}) \<inter> {} = {} \<and>
    (\<forall>a\<in>{1 :: addr}. \<exists>!p. (fst p, snd p, a) \<in> {(3 :: nat, As_creator, 1)}) \<and>
    (\<forall>a q. qheap sample_store a = Some q \<longrightarrow> messages q \<noteq> [] \<longrightarrow> a \<in> set xs \<or> a \<in> {1} \<or> a \<in> {})"
  using no_stranded_message [OF sample_store_reachable] by (simp only: held_simps)

theorem failed_launch_strands_witness:
  "run_step (sample_store, {(3, As_creator, 1)}, {}) (sample_store, {}, {1}) \<and>
    (\<exists>q' ms. qheap sample_store 1 = Some q' \<and> messages q' = [zero_message\<lparr>msg_session := 5\<rparr>] @ ms) \<and>
    1 \<notin> held {} \<and> (\<exists>xs. runq sample_store xs \<and> 1 \<notin> set xs)"
proof -
  let ?q = "queue_store (zero_message\<lparr>msg_session := 5\<rparr>) (queue_new 7)"
  have q: "qheap sample_store 1 = Some ?q" "release ?q = 0" "{(3, As_creator, 1)} - {(3, As_creator, 1)} = ({} :: (nat \<times> role \<times> addr) set)"
    by (simp_all add: sample_store_def) (simp add: queue_new_def)
  show ?thesis
    using failed_launch_strands [OF sample_store_reachable _ q(1,2) rtranclp.rtrancl_refl, of 3]
    unfolding q(3) sample_store_messages by simp
qed

theorem queue_free_drains_witness:
  "queue_free 1 \<lparr>qheap = [1 \<mapsto> (queue_store (zero_message\<lparr>msg_session := 5\<rparr>) (queue_new 7))\<lparr>release := 1\<rparr>],
      Qhead = 0, Qtail = 0\<rparr>
    = Some ([zero_message\<lparr>msg_session := 5\<rparr>], \<lparr>qheap = Map.empty, Qhead = 0, Qtail = 0\<rparr>)"
proof -
  let ?q = "queue_store (zero_message\<lparr>msg_session := 5\<rparr>) (queue_new 7)"
  have "queue_inv (?q\<lparr>release := 1\<rparr>)"
    using queue_store_inv [OF queue_new_inv] by (simp add: queue_inv_def)
  then show ?thesis
    using queue_free_drains [of "\<lparr>qheap = [1 \<mapsto> ?q\<lparr>release := 1\<rparr>], Qhead = 0, Qtail = 0\<rparr>" 1
        "?q\<lparr>release := 1\<rparr>"] sample_store_messages by simp
qed

end
