(* ===== verification/Wheel.thy ===== *)
theory Wheel
  imports Prelude "HOL-Library.Multiset"
begin

text \<open>
  The timer of \<open>src/src/timer.c\<close>: a hierarchical timing wheel with one array of 256 lists for
  the ticks of the current block and four levels of 64 lists for later ones. A \<open>timer_list\<close> is
  the list of its nodes from \<open>head.next\<close> on; \<open>link\<close> appends and \<open>link_clear\<close> empties it.
  The payload that \<open>timer_timeout\<close> copies behind a node is the type parameter. Clock readings
  are arguments. The lock is released while a batch of nodes is dispatched, so the timers that
  other threads register in the meantime are an argument of the execution loop.
\<close>

section \<open>Data\<close>

record 'p timer_node =
  expire :: u32
  payload :: 'p

record 'p timer =
  near :: "nat \<Rightarrow> 'p timer_node list"
  t :: "nat \<Rightarrow> nat \<Rightarrow> 'p timer_node list"
  time :: u32
  current :: u32
  start :: u32
  cur_pt :: u64

definition TIMER_NEAR_SHIFT :: nat where "TIMER_NEAR_SHIFT = 8"
definition TIMER_NEAR :: u32 where "TIMER_NEAR = push_bit TIMER_NEAR_SHIFT 1"
definition TIMER_NEAR_MASK :: u32 where "TIMER_NEAR_MASK = TIMER_NEAR - 1"
definition TIMER_LEVEL_SHIFT :: nat where "TIMER_LEVEL_SHIFT = 6"
definition TIMER_LEVEL :: u32 where "TIMER_LEVEL = push_bit TIMER_LEVEL_SHIFT 1"
definition TIMER_LEVEL_MASK :: u32 where "TIMER_LEVEL_MASK = TIMER_LEVEL - 1"

text \<open>Centiseconds of a \<open>timespec\<close>, as \<open>gettime\<close> and \<open>systime\<close> compute them.\<close>

definition gettime :: "u64 \<times> u64 \<Rightarrow> u64" where
  "gettime ts = (case ts of (tv_sec, tv_nsec) \<Rightarrow> tv_sec * 100 + tv_nsec div 10000000)"

definition systime :: "u64 \<times> u64 \<Rightarrow> u32 \<times> u32" where
  "systime ts = (case ts of (tv_sec, tv_nsec) \<Rightarrow> (ucast tv_sec, ucast (tv_nsec div 10000000)))"

section \<open>Placing nodes\<close>

definition link_near :: "nat \<Rightarrow> 'p timer_node \<Rightarrow> 'p timer \<Rightarrow> 'p timer" where
  "link_near i n T = T\<lparr>near := (near T)(i := near T i @ [n])\<rparr>"

definition link_level :: "nat \<Rightarrow> nat \<Rightarrow> 'p timer_node \<Rightarrow> 'p timer \<Rightarrow> 'p timer" where
  "link_level k j n T = T\<lparr>t := (t T)(k := (t T k)(j := t T k j @ [n]))\<rparr>"

definition link_clear_near :: "nat \<Rightarrow> 'p timer \<Rightarrow> 'p timer_node list \<times> 'p timer" where
  "link_clear_near i T = (near T i, T\<lparr>near := (near T)(i := [])\<rparr>)"

definition link_clear_level :: "nat \<Rightarrow> nat \<Rightarrow> 'p timer \<Rightarrow> 'p timer_node list \<times> 'p timer" where
  "link_clear_level k j T = (t T k j, T\<lparr>t := (t T)(k := (t T k)(j := []))\<rparr>)"

text \<open>The search for the level: \<open>for (i=0; i<3; i++) { if (...) break; mask <<= 6; }\<close>.\<close>

function find_level :: "u32 \<Rightarrow> u32 \<Rightarrow> nat \<Rightarrow> u32 \<Rightarrow> nat" where
  "find_level e tm i msk =
     (if i < 3 then
        if e OR (msk - 1) = tm OR (msk - 1) then i
        else find_level e tm (i + 1) (push_bit TIMER_LEVEL_SHIFT msk)
      else i)"
  by pat_completeness auto
termination
  by (relation "measure (\<lambda>(e, tm, i, msk). 3 - i)") auto

definition timer_add_node :: "'p timer_node \<Rightarrow> 'p timer \<Rightarrow> 'p timer" where
  "timer_add_node n T =
     (let e = expire n; tm = time T in
      if e OR TIMER_NEAR_MASK = tm OR TIMER_NEAR_MASK then
        link_near (unat (e AND TIMER_NEAR_MASK)) n T
      else
        (let i = find_level e tm 0 (push_bit TIMER_LEVEL_SHIFT TIMER_NEAR)
         in link_level i (unat (drop_bit (TIMER_NEAR_SHIFT + i * TIMER_LEVEL_SHIFT) e
              AND TIMER_LEVEL_MASK)) n T))"

definition timer_move_list :: "nat \<Rightarrow> nat \<Rightarrow> 'p timer \<Rightarrow> 'p timer" where
  "timer_move_list level idx T =
     (let (ns, T1) = link_clear_level level idx T in fold timer_add_node ns T1)"

text \<open>
  \<open>timer_timeout\<close>: the \<open>int\<close> delay is added to the 32-bit clock modulo \<open>2\<^sup>3\<^sup>2\<close>.
\<close>

definition timer_timeout :: "int \<Rightarrow> 'p \<Rightarrow> 'p timer \<Rightarrow> 'p timer" where
  "timer_timeout d ud T = timer_add_node \<lparr>expire = time T + word_of_int d, payload = ud\<rparr> T"

section \<open>Running\<close>

text \<open>
  The execution loop. Each round empties the list of the current tick, releases the lock to
  dispatch its nodes, and looks again; \<open>bs\<close> holds the timers registered by other threads
  during the first, second, \<dots> dispatch. The nodes dispatched are returned in order.
\<close>

definition timer_arrivals :: "(int \<times> 'p) list \<Rightarrow> 'p timer \<Rightarrow> 'p timer" where
  "timer_arrivals b T = fold (\<lambda>(d, ud). timer_timeout d ud) b T"

function timer_execute ::
  "(int \<times> 'p) list list \<Rightarrow> 'p timer \<Rightarrow> 'p timer_node list \<times> 'p timer \<times> (int \<times> 'p) list list" where
  "timer_execute bs T =
     (let idx = unat (time T AND TIMER_NEAR_MASK) in
      if near T idx = [] then ([], T, bs)
      else
        (let (cur, T1) = link_clear_near idx T;
             T2 = (case bs of [] \<Rightarrow> T1 | b # _ \<Rightarrow> timer_arrivals b T1);
             (ds, T3, bs') = timer_execute (tl bs) T2
         in (cur @ ds, T3, bs')))"
  by pat_completeness auto
termination
  by (relation "measures [\<lambda>(bs, T). length bs,
        \<lambda>(bs, T). length (near T (unat (time T AND TIMER_NEAR_MASK)))]")
    (auto simp: link_clear_near_def split: list.splits)

declare timer_execute.simps [simp del] find_level.simps [simp del]

text \<open>
  The level search of \<open>_timer_shift\<close>. The C variable \<open>mask\<close> is an \<open>int\<close>; a loop that did
  not find a level would not stop, so the result is an option.
\<close>

partial_function (option) shift_loop :: "u32 \<Rightarrow> nat \<Rightarrow> u32 \<Rightarrow> u32 \<Rightarrow> (nat \<times> nat) option option" where
  "shift_loop ct i msk tm =
     (if ct AND (msk - 1) = 0 then
        (let idx = unat (tm AND TIMER_LEVEL_MASK) in
         if idx \<noteq> 0 then Some (Some (i, idx))
         else shift_loop ct (i + 1) (push_bit TIMER_LEVEL_SHIFT msk) (drop_bit TIMER_LEVEL_SHIFT tm))
      else Some None)"

definition timer_shift :: "'p timer \<Rightarrow> 'p timer option" where
  "timer_shift T =
     (let ct = time T + 1; T1 = T\<lparr>time := ct\<rparr> in
      if ct = 0 then Some (timer_move_list 3 0 T1)
      else do { r \<leftarrow> shift_loop ct 0 TIMER_NEAR (drop_bit TIMER_NEAR_SHIFT ct);
                Some (case r of None \<Rightarrow> T1 | Some (i, idx) \<Rightarrow> timer_move_list i idx T1) })"

text \<open>One tick: the static \<open>_timer_update\<close>.\<close>

definition timer_tick ::
  "(int \<times> 'p) list list \<Rightarrow> 'p timer \<Rightarrow> ('p timer_node list \<times> 'p timer \<times> (int \<times> 'p) list list) option" where
  "timer_tick bs T =
     (let (ds1, T1, bs1) = timer_execute bs T in
      do { T2 \<leftarrow> timer_shift T1;
           let (ds2, T3, bs2) = timer_execute bs1 T2;
           Some (ds1 @ ds2, T3, bs2) })"

fun timer_ticks ::
  "nat \<Rightarrow> (int \<times> 'p) list list \<Rightarrow> 'p timer \<Rightarrow>
     ('p timer_node list list \<times> 'p timer \<times> (int \<times> 'p) list list) option" where
  "timer_ticks 0 bs T = Some ([], T, bs)"
| "timer_ticks (Suc n) bs T =
     do { (ds, T1, bs1) \<leftarrow> timer_tick bs T;
          (dss, T2, bs2) \<leftarrow> timer_ticks n bs1 T1;
          Some (ds # dss, T2, bs2) }"

text \<open>The exported \<open>timer_update\<close>, for a clock reading \<open>cp\<close>.\<close>

definition timer_update ::
  "u64 \<Rightarrow> (int \<times> 'p) list list \<Rightarrow> 'p timer \<Rightarrow>
     ('p timer_node list list \<times> 'p timer \<times> (int \<times> 'p) list list) option" where
  "timer_update cp bs T =
     (if cp < cur_pt T then Some ([], T\<lparr>cur_pt := cp\<rparr>, bs)
      else if cp \<noteq> cur_pt T then
        (let oc = current T;
             diff = ucast (cp - cur_pt T) :: u32;
             T1 = T\<lparr>cur_pt := cp, current := oc + diff\<rparr>;
             T2 = (if current T1 < oc then T1\<lparr>start := start T1 + 0xffffffff div 100\<rparr> else T1)
         in timer_ticks (unat diff) bs T2)
      else Some ([], T, bs))"

definition timer_init :: "u64 \<times> u64 \<Rightarrow> u64 \<times> u64 \<Rightarrow> 'p timer \<Rightarrow> 'p timer" where
  "timer_init realtime monotonic T =
     (let (sec, cs) = systime realtime in
      T\<lparr>near := (\<lambda>i. if i < 256 then [] else near T i),
        t := (\<lambda>i j. if i < 4 \<and> j < 64 then [] else t T i j),
        start := sec, current := cs, cur_pt := gettime monotonic\<rparr>)"

text \<open>
  \<open>timer_unit\<close>: the nodes it passes to \<open>T.alloc(tmp, 0)\<close>. The inner loop over a level runs
  while \<open>j < TIMER_LEVEL_MASK\<close>, as the source has it.
\<close>

definition timer_unit :: "'p timer \<Rightarrow> 'p timer_node list \<times> 'p timer" where
  "timer_unit T =
     (concat (map (near T) [0..<256]) @
      concat (map (\<lambda>i. concat (map (t T i) [0..<unat TIMER_LEVEL_MASK])) [0..<4]),
      T\<lparr>near := (\<lambda>i. if i < 256 then [] else near T i),
        t := (\<lambda>i j. if i < 4 \<and> j < unat TIMER_LEVEL_MASK then [] else t T i j)\<rparr>)"

definition timer_starttime :: "'p timer \<Rightarrow> u32" where "timer_starttime T = start T"
definition timer_now :: "'p timer \<Rightarrow> u32" where "timer_now T = current T"


section \<open>Where a node belongs\<close>

text \<open>
  The list a node with expiry \<open>e\<close> belongs to when the clock shows \<open>n\<close>, over natural numbers:
  the list of the current block when only the low eight bits differ, otherwise the lowest level
  above which the two agree.
\<close>

datatype slot = Near nat | Level nat nat

definition same_block :: "nat \<Rightarrow> nat \<Rightarrow> nat \<Rightarrow> bool" where
  "same_block k e n \<longleftrightarrow> e div 2 ^ (8 + 6 * k) = n div 2 ^ (8 + 6 * k)"

definition place :: "nat \<Rightarrow> nat \<Rightarrow> slot" where
  "place n e =
     (if same_block 0 e n then Near (e mod 256)
      else
        (let k = (if same_block 1 e n then 0 else if same_block 2 e n then 1
                  else if same_block 3 e n then 2 else 3)
         in Level k (e div 2 ^ (8 + 6 * k) mod 64)))"

definition slot :: "'p timer \<Rightarrow> slot \<Rightarrow> 'p timer_node list" where
  "slot T s = (case s of Near i \<Rightarrow> near T i | Level k j \<Rightarrow> t T k j)"

lemma drop_bit_eq_same_block:
  "drop_bit (8 + 6 * k) (e :: u32) = drop_bit (8 + 6 * k) n \<longleftrightarrow> same_block k (unat e) (unat n)"
  unfolding same_block_def unat_drop_bit [symmetric] by (simp only: word_unat_eq_iff)

lemma wheel_masks:
  "TIMER_NEAR_MASK = mask 8" "TIMER_LEVEL_MASK = mask 6" "TIMER_NEAR = 2 ^ 8"
  "TIMER_NEAR_SHIFT = 8" "TIMER_LEVEL_SHIFT = 6"
  by (simp_all add: TIMER_NEAR_MASK_def TIMER_LEVEL_MASK_def TIMER_NEAR_def TIMER_LEVEL_def
      TIMER_NEAR_SHIFT_def TIMER_LEVEL_SHIFT_def mask_eq_exp_minus_1)

lemma or_pow_eq:
  "(e OR (2 ^ (8 + 6 * k) - 1) = tm OR (2 ^ (8 + 6 * k) - 1)) \<longleftrightarrow> same_block k (unat e) (unat tm)"
  for e tm :: u32
  unfolding mask_eq_exp_minus_1 [symmetric] or_mask_eq_iff drop_bit_eq_same_block ..

lemma find_level_eq:
  "find_level e tm 0 (push_bit TIMER_LEVEL_SHIFT TIMER_NEAR) =
     (if same_block 1 (unat e) (unat tm) then 0 else if same_block 2 (unat e) (unat tm) then 1
      else if same_block 3 (unat e) (unat tm) then 2 else 3)"
proof -
  have m: "push_bit 6 (2 ^ n) = (2 ^ (n + 6) :: u32)" for n
    by (simp add: push_bit_eq_mult power_add)
  note or_pow_eq [of e 1 tm, simplified] or_pow_eq [of e 2 tm, simplified]
    or_pow_eq [of e 3 tm, simplified]
  then show ?thesis
    by (simp add: find_level.simps wheel_masks m)
qed

lemma timer_add_node_place:
  "timer_add_node n T =
     (case place (unat (time T)) (unat (expire n)) of
        Near i \<Rightarrow> link_near i n T | Level k j \<Rightarrow> link_level k j n T)"
proof -
  have "(expire n OR mask 8 = time T OR mask 8) = same_block 0 (unat (expire n)) (unat (time T))"
    using or_mask_eq_iff [of "expire n" 8 "time T"]
      drop_bit_eq_same_block [of 0 "expire n" "time T"] by simp
  then show ?thesis
    unfolding timer_add_node_def Let_def find_level_eq place_def
    by (simp add: wheel_masks(1,2,4,5) unat_and_mask unat_drop_bit mult.commute)
qed


section \<open>The list a tick moves\<close>

definition moved :: "nat \<Rightarrow> slot option" where
  "moved c =
     (if c mod 2 ^ 8 \<noteq> 0 then None
      else if c div 2 ^ 8 mod 64 \<noteq> 0 then Some (Level 0 (c div 2 ^ 8 mod 64))
      else if c div 2 ^ 14 mod 64 \<noteq> 0 then Some (Level 1 (c div 2 ^ 14 mod 64))
      else if c div 2 ^ 20 mod 64 \<noteq> 0 then Some (Level 2 (c div 2 ^ 20 mod 64))
      else Some (Level 3 (c div 2 ^ 26 mod 64)))"

lemma shift_loop_step:
  "shift_loop ct k (2 ^ (8 + 6 * k)) (drop_bit (8 + 6 * k) ct) =
     (if unat ct mod 2 ^ (8 + 6 * k) = 0 then
        let idx = unat ct div 2 ^ (8 + 6 * k) mod 64 in
        if idx \<noteq> 0 then Some (Some (k, idx))
        else shift_loop ct (k + 1) (2 ^ (8 + 6 * (k + 1))) (drop_bit (8 + 6 * (k + 1)) ct)
      else Some None)"
proof -
  have m: "push_bit TIMER_LEVEL_SHIFT (2 ^ n) = (2 ^ (n + 6) :: u32)" for n
    by (simp add: push_bit_eq_mult power_add wheel_masks)
  have "ct AND (2 ^ n - 1) = 0 \<longleftrightarrow> unat ct mod 2 ^ n = 0" for n
    unfolding mask_eq_exp_minus_1 [symmetric] unat_and_mask [symmetric] by (simp only: unat_eq_zero)
  moreover have "unat (drop_bit (8 + 6 * k) ct AND TIMER_LEVEL_MASK) = unat ct div 2 ^ (8 + 6 * k) mod 64"
    by (simp add: wheel_masks(2) unat_and_mask unat_drop_bit)
  moreover have "drop_bit TIMER_LEVEL_SHIFT (drop_bit (8 + 6 * k) ct) = drop_bit (8 + 6 * (k + 1)) ct"
    by (simp add: wheel_masks add.commute)
  ultimately show ?thesis
    by (subst shift_loop.simps) (simp add: m Let_def add.commute add.left_commute)
qed

lemma mod_chain: "(c::nat) mod 2 ^ n = 0 \<Longrightarrow> c div 2 ^ n mod 64 = 0 \<Longrightarrow> c mod 2 ^ (n + 6) = 0"
  by (simp add: power_add mod_mult2_eq)

lemma mod_chain_rev: "(c::nat) mod 2 ^ (n + 6) = 0 \<Longrightarrow> c div 2 ^ n mod 64 = 0"
proof -
  assume "c mod 2 ^ (n + 6) = 0"
  then obtain d where "c = 2 ^ n * (64 * d)" by (auto simp: power_add mod_eq_0_iff_dvd elim!: dvdE)
  then show ?thesis by simp
qed

lemma shift_loop_moved:
  assumes "ct \<noteq> 0"
  shows "shift_loop ct 0 TIMER_NEAR (drop_bit TIMER_NEAR_SHIFT ct) =
    Some (map_option (\<lambda>s. case s of Level k j \<Rightarrow> (k, j) | Near i \<Rightarrow> (0, i)) (moved (unat ct)))"
proof -
  let ?c = "unat ct"
  have c: "?c \<noteq> 0" "?c < 2 ^ 32" using assms unat_less_exp [of ct] by (simp_all add: unat_eq_zero)
  define F where "F k = shift_loop ct k (2 ^ (8 + 6 * k)) (drop_bit (8 + 6 * k) ct)" for k
  note step = shift_loop_step [of ct, folded F_def, unfolded Let_def]
  have F: "F 0 = (if ?c mod 2 ^ 8 = 0 then if ?c div 2 ^ 8 mod 64 \<noteq> 0
        then Some (Some (0, ?c div 2 ^ 8 mod 64)) else F 1 else Some None)"
    "F 1 = (if ?c mod 2 ^ 14 = 0 then if ?c div 2 ^ 14 mod 64 \<noteq> 0
        then Some (Some (1, ?c div 2 ^ 14 mod 64)) else F 2 else Some None)"
    "F 2 = (if ?c mod 2 ^ 20 = 0 then if ?c div 2 ^ 20 mod 64 \<noteq> 0
        then Some (Some (2, ?c div 2 ^ 20 mod 64)) else F 3 else Some None)"
    "F 3 = (if ?c mod 2 ^ 26 = 0 then if ?c div 2 ^ 26 mod 64 \<noteq> 0
        then Some (Some (3, ?c div 2 ^ 26 mod 64)) else F 4 else Some None)"
    subgoal using step [of 0] by (simp del: One_nat_def)
    subgoal using step [of 1] by (simp del: One_nat_def)
    subgoal using step [of 2] by (simp del: One_nat_def)
    subgoal using step [of 3] by (simp del: One_nat_def)
    done
  note ch = mod_chain [of ?c 8] mod_chain [of ?c 14] mod_chain [of ?c 20]
  have top: "?c div 2 ^ 26 mod 64 \<noteq> 0" if "?c mod 2 ^ 26 = 0"
  proof -
    from that obtain d where d: "?c = 2 ^ 26 * d" by (auto elim!: dvdE simp: mod_eq_0_iff_dvd)
    with c have "0 < d" "d < 64" by auto
    then show ?thesis unfolding d by simp
  qed
  have "F 0 = Some (map_option (\<lambda>s. case s of Level k j \<Rightarrow> (k, j) | Near i \<Rightarrow> (0, i)) (moved ?c))"
    using ch top by (simp add: F moved_def del: One_nat_def)
  then show ?thesis by (simp add: F_def wheel_masks)
qed

lemma timer_shift_moved:
  "timer_shift T = Some (case moved (unat (time T + 1)) of
     Some (Level k j) \<Rightarrow> timer_move_list k j (T\<lparr>time := time T + 1\<rparr>) | _ \<Rightarrow> T\<lparr>time := time T + 1\<rparr>)"
proof (cases "time T + 1 = 0")
  case True
  then show ?thesis by (simp add: timer_shift_def moved_def)
next
  case False
  have "\<not> moved c = Some (Near i)" for c i by (simp add: moved_def)
  with False show ?thesis
    unfolding timer_shift_def Let_def shift_loop_moved [OF False]
    by (auto split: option.splits slot.splits)
qed


lemma same_block_mono: "same_block k e n \<Longrightarrow> k \<le> m \<Longrightarrow> same_block m e n"
proof (induction m)
  case (Suc m)
  have "x div 2 ^ (8 + 6 * Suc m) = x div 2 ^ (8 + 6 * m) div 64" for x :: nat
    by (simp add: div_mult2_eq [symmetric] power_add)
  with Suc show ?case by (cases "k = Suc m") (auto simp: same_block_def)
qed simp

lemma same_block_step:
  "Suc n mod 2 ^ (8 + 6 * k) \<noteq> 0 \<Longrightarrow> same_block k e (Suc n) = same_block k e n"
  by (simp add: same_block_def div_Suc)

lemma level_choice:
  fixes a b c d :: nat
  assumes "(if p then None else if a \<noteq> 0 then Some (Level 0 a) else if b \<noteq> 0 then Some (Level 1 b)
     else if c \<noteq> 0 then Some (Level 2 c) else Some (Level 3 d)) = Some (Level k j)"
  shows "\<not> p" "(k = 0 \<and> j = a \<and> j \<noteq> 0) \<or> (k = 1 \<and> a = 0 \<and> j = b \<and> j \<noteq> 0) \<or>
     (k = 2 \<and> a = 0 \<and> b = 0 \<and> j = c \<and> j \<noteq> 0) \<or> (k = 3 \<and> a = 0 \<and> b = 0 \<and> c = 0 \<and> j = d)"
  using assms by (auto split: if_splits)

lemma moved_LevelD:
  assumes "moved c = Some (Level k j)"
  shows "k \<le> 3" "c mod 2 ^ (8 + 6 * k) = 0" "j = c div 2 ^ (8 + 6 * k) mod 64" "k < 3 \<longrightarrow> j \<noteq> 0"
proof -
  note ch = level_choice [OF assms [unfolded moved_def]]
  from ch(1) have m: "c mod 2 ^ 8 = 0" by blast
  from ch(2)
  have "k \<le> 3 \<and> c mod 2 ^ (8 + 6 * k) = 0 \<and> j = c div 2 ^ (8 + 6 * k) mod 64 \<and> (k < 3 \<longrightarrow> j \<noteq> 0)"
  proof (elim disjE conjE, goal_cases)
    case 1
    then show ?case using m by simp
  next
    case 2
    then show ?case using m mod_chain [of c 8] by simp
  next
    case 3
    then show ?case using m mod_chain [of c 8] mod_chain [of c 14] by simp
  next
    case 4
    then show ?case using m mod_chain [of c 8] mod_chain [of c 14] mod_chain [of c 20] by simp
  qed
  then show "k \<le> 3" "c mod 2 ^ (8 + 6 * k) = 0" "j = c div 2 ^ (8 + 6 * k) mod 64" "k < 3 \<longrightarrow> j \<noteq> 0"
    by blast+
qed

lemma moved_NoneD: "moved c = None \<Longrightarrow> c mod 2 ^ 8 \<noteq> 0"
  by (auto simp: moved_def split: if_splits)

lemma moved_not_Near: "moved c \<noteq> Some (Near i)"
  by (simp add: moved_def)

lemma mod_pow_mono: "(c::nat) mod 2 ^ n = 0 \<Longrightarrow> m \<le> n \<Longrightarrow> c mod 2 ^ m = 0"
  by (metis dvd_eq_mod_eq_0 dvd_trans le_imp_power_dvd)

lemma place_cong:
  "(\<And>k. k \<le> 3 \<Longrightarrow> same_block k e c = same_block k e n) \<Longrightarrow> place c e = place n e"
  by (simp add: place_def)

text \<open>A node that is still due leaves the block its clock is in before that block ends.\<close>

lemma same_div_close: "(a::nat) div b = c div b \<Longrightarrow> 0 < b \<Longrightarrow> a < c + b"
  by (metis add.commute add_less_le_mono div_mult_mod_eq div_times_less_eq_dividend mod_less_divisor)

lemma due_leaves_block:
  assumes "Suc n mod 2 ^ (8 + 6 * k) = 0" "k \<le> 3" "e \<noteq> n" "n < e \<or> e + 2 ^ 31 < n"
  shows "\<not> same_block k e n"
  using assms(4)
proof
  assume "n < e"
  then have "Suc n div 2 ^ (8 + 6 * k) \<le> e div 2 ^ (8 + 6 * k)" by (intro div_le_mono) simp
  with assms(1) show ?thesis by (simp add: same_block_def div_Suc)
next
  assume far: "e + 2 ^ 31 < n"
  let ?b = "2 ^ (8 + 6 * k) :: nat"
  have "(2::nat) ^ (8 + 6 * k) \<le> 2 ^ 26" using assms(2) by (intro power_increasing) auto
  then have b: "?b \<le> 2 ^ 26" .
  show ?thesis
  proof
    assume "same_block k e n"
    then have "n div ?b = e div ?b" by (simp add: same_block_def)
    then have "n < e + ?b" by (rule same_div_close) simp
    with far b show False by simp
  qed
qed

lemma place_level:
  assumes "K \<le> 3" "\<not> same_block K e n" "K < 3 \<longrightarrow> same_block (Suc K) e n"
  shows "place n e = Level K (e div 2 ^ (8 + 6 * K) mod 64)"
proof -
  have low: "\<not> same_block m e n" if "m \<le> K" for m using assms(2) same_block_mono that by blast
  from assms(1) consider "K = 0" | "K = 1" | "K = 2" | "K = 3" by linarith
  then show ?thesis
  proof cases
    case 1
    with low [of 0] assms(3) show ?thesis by (simp add: place_def)
  next
    case 2
    with low [of 0] low [of 1] assms(3) show ?thesis
      by (simp add: place_def flip: numeral_2_eq_2)
  next
    case 3
    with low [of 0] low [of 1] low [of 2] assms(3) show ?thesis
      by (simp add: place_def)
  next
    case 4
    with low [of 0] low [of 1] low [of 2] low [of 3] show ?thesis by (simp add: place_def)
  qed
qed

lemma place_shift:
  assumes n: "n < 2 ^ 32 - 1" and due: "e \<noteq> n" "n < e \<or> e + 2 ^ 31 < n"
    and stay: "moved (Suc n) \<noteq> Some (place n e)"
  shows "place (Suc n) e = place n e"
proof (cases "moved (Suc n)")
  case None
  then have "Suc n mod 2 ^ (8 + 6 * k) \<noteq> 0" for k
    by (metis mod_pow_mono le_add1 moved_NoneD)
  then show ?thesis by (intro place_cong) (simp add: same_block_step)
next
  case (Some s)
  then obtain K j where s: "s = Level K j" by (cases s) (auto simp: moved_not_Near)
  note mv = moved_LevelD [OF Some [unfolded s]]
  have low: "\<not> same_block m e n" if "m \<le> K" for m
    using due_leaves_block [OF mv(2) mv(1) due] same_block_mono that by blast
  have high: "same_block m e (Suc n) = same_block m e n" if "K < m" "m \<le> 3" for m
  proof (rule same_block_step, rule notI)
    assume "Suc n mod 2 ^ (8 + 6 * m) = 0"
    then have "Suc n mod 2 ^ (8 + 6 * K + 6) = 0"
      by (rule mod_pow_mono) (use that in simp)
    with mv(3) have "j = 0" by (simp only: mod_chain_rev)
    with mv(4) that show False by simp
  qed
  have "\<not> same_block K e (Suc n)"
  proof
    assume same: "same_block K e (Suc n)"
    then have "e div 2 ^ (8 + 6 * K) mod 64 = j" using mv(3) by (simp add: same_block_def)
    moreover have "K < 3 \<longrightarrow> same_block (Suc K) e n"
      using same same_block_mono [of K e "Suc n" "Suc K"] high [of "Suc K"] by auto
    ultimately have "place n e = Level K j" using low [of K] mv(1) place_level [of K e n] by simp
    with stay Some s show False by simp
  qed
  then have "\<not> same_block m e (Suc n)" if "m \<le> K" for m using that same_block_mono by blast
  with low high have "same_block m e (Suc n) = same_block m e n" if "m \<le> 3" for m
    using that by (cases "m \<le> K") auto
  then show ?thesis by (rule place_cong)
qed

lemma place_wrap:
  assumes "e + 2 ^ 31 < 2 ^ 32 - 1" "place (2 ^ 32 - 1) e \<noteq> Level 3 0"
  shows "place 0 e = place (2 ^ 32 - 1) e"
proof -
  have "\<not> same_block 3 e (2 ^ 32 - 1)" using assms(1) by (simp add: same_block_def)
  then have far: "\<not> same_block k e (2 ^ 32 - 1)" if "k \<le> 3" for k
    using that same_block_mono by blast
  then have "place (2 ^ 32 - 1) e = Level 3 (e div 2 ^ 26 mod 64)" by (simp add: place_def)
  with assms have "e div 2 ^ 26 \<noteq> 0" by auto
  then have "\<not> same_block 3 e 0" by (simp add: same_block_def)
  then have "\<not> same_block k e 0" if "k \<le> 3" for k using that same_block_mono by blast
  with far show ?thesis by (intro place_cong) simp
qed


section \<open>Invariant\<close>

text \<open>
  Every node is in the list it would be put into now, and is due within the next \<open>2\<^sup>3\<^sup>1\<close> ticks.
\<close>

definition wheel_inv :: "'p timer \<Rightarrow> bool" where
  "wheel_inv T \<longleftrightarrow> (\<forall>s. \<forall>n\<in>set (slot T s).
     place (unat (time T)) (unat (expire n)) = s \<and> unat (expire n - time T) < 2 ^ 31)"

definition all_slots :: "slot set" where
  "all_slots = Near ` {..<256} \<union> (\<lambda>(k, j). Level k j) ` ({..<4} \<times> {..<64})"

definition pending :: "'p timer \<Rightarrow> 'p timer_node multiset" where
  "pending T = (\<Sum>s\<in>all_slots. mset (slot T s))"

lemma finite_all_slots [simp]: "finite all_slots"
  by (simp add: all_slots_def)

lemma place_in_slots [simp]: "place n e \<in> all_slots"
  by (auto simp: place_def all_slots_def Let_def)

lemma slot_add_node:
  "slot (timer_add_node n T) s =
     slot T s @ (if s = place (unat (time T)) (unat (expire n)) then [n] else [])"
  by (auto simp: timer_add_node_place slot_def link_near_def link_level_def split: slot.splits)

lemma timer_add_node_fields [simp]:
  "time (timer_add_node n T) = time T" "current (timer_add_node n T) = current T"
  "start (timer_add_node n T) = start T" "cur_pt (timer_add_node n T) = cur_pt T"
  by (simp_all add: timer_add_node_place link_near_def link_level_def split: slot.splits)

lemma fold_add_fields [simp]:
  "time (fold timer_add_node ns T) = time T" "current (fold timer_add_node ns T) = current T"
  "start (fold timer_add_node ns T) = start T" "cur_pt (fold timer_add_node ns T) = cur_pt T"
  by (induction ns arbitrary: T) simp_all

lemma slot_fold_add:
  "slot (fold timer_add_node ns T) s =
     slot T s @ filter (\<lambda>n. place (unat (time T)) (unat (expire n)) = s) ns"
  by (induction ns arbitrary: T) (auto simp: slot_add_node)

lemma pending_add_node [simp]: "pending (timer_add_node n T) = add_mset n (pending T)"
proof -
  let ?p = "place (unat (time T)) (unat (expire n))"
  have "mset (slot (timer_add_node n T) s) = mset (slot T s) + (if s = ?p then {#n#} else {#})" for s
    by (simp add: slot_add_node)
  then show ?thesis by (simp add: pending_def sum.distrib)
qed

lemma pending_fold_add [simp]: "pending (fold timer_add_node ns T) = pending T + mset ns"
  by (induction ns arbitrary: T) simp_all

lemma in_pending_iff: "n \<in># pending T \<longleftrightarrow> (\<exists>s\<in>all_slots. n \<in> set (slot T s))"
  by (simp add: pending_def set_mset_sum)

lemma wheel_inv_pending:
  "wheel_inv T \<Longrightarrow> n \<in># pending T \<Longrightarrow> unat (expire n - time T) < 2 ^ 31"
  by (auto simp: wheel_inv_def in_pending_iff)

section \<open>Registering a timer\<close>

definition new_node :: "u32 \<Rightarrow> int \<times> 'p \<Rightarrow> 'p timer_node" where
  "new_node tm dp = \<lparr>expire = tm + word_of_int (fst dp), payload = snd dp\<rparr>"

definition valid_delay :: "int \<Rightarrow> bool" where
  "valid_delay d \<longleftrightarrow> 0 \<le> d \<and> d < 2 ^ 31"

lemma wheel_inv_add:
  "wheel_inv T \<Longrightarrow> unat (expire n - time T) < 2 ^ 31 \<Longrightarrow> wheel_inv (timer_add_node n T)"
  by (auto simp: wheel_inv_def slot_add_node)

lemma timer_timeout_inv:
  assumes "wheel_inv T" "valid_delay d"
  shows "wheel_inv (timer_timeout d ud T)"
proof -
  from assms(2) have "unat (word_of_int d :: u32) = nat d"
    by (simp add: valid_delay_def unsigned_of_int take_bit_int_eq_self)
  with assms show ?thesis
    by (simp add: timer_timeout_def valid_delay_def wheel_inv_add nat_less_iff)
qed

lemma timer_timeout_pending [simp]:
  "pending (timer_timeout d ud T) = add_mset (new_node (time T) (d, ud)) (pending T)"
  "time (timer_timeout d ud T) = time T"
  by (simp_all add: timer_timeout_def new_node_def)

lemma timer_arrivals_spec:
  "time (timer_arrivals b T) = time T \<and>
   pending (timer_arrivals b T) = pending T + mset (map (new_node (time T)) b) \<and>
   (wheel_inv T \<longrightarrow> (\<forall>dp\<in>set b. valid_delay (fst dp)) \<longrightarrow> wheel_inv (timer_arrivals b T))"
proof (induction b arbitrary: T)
  case (Cons x b)
  obtain d ud where "x = (d, ud)" by fastforce
  with Cons.IH [of "timer_timeout d ud T"] show ?case
    by (simp add: timer_arrivals_def timer_timeout_inv)
qed (simp add: timer_arrivals_def)


section \<open>Dispatching the current tick\<close>

lemma filter_mset_sum:
  "finite A \<Longrightarrow> filter_mset P (\<Sum>s\<in>A. f s) = (\<Sum>s\<in>A. filter_mset P (f s))"
  by (induction A rule: finite_induct) simp_all

lemma filter_empty_mset_iff: "{#} = filter_mset P M \<longleftrightarrow> (\<forall>x\<in>#M. \<not> P x)"
  by (induction M) auto

lemma place_current_iff:
  "place n e = Near (n mod 256) \<longleftrightarrow> e = n"
proof
  assume p: "place n e = Near (n mod 256)"
  then have "same_block 0 e n" by (metis place_def slot.distinct(1))
  with p have "Near (e mod 256) = Near (n mod 256)" by (simp only: place_def if_True)
  then have "e mod 256 = n mod 256" by (simp only: slot.inject)
  moreover have "e div 256 = n div 256" using \<open>same_block 0 e n\<close> by (simp only: same_block_def) simp
  ultimately show "e = n" by (metis div_mult_mod_eq)
qed (simp add: place_def same_block_def)

lemma near_now:
  assumes "wheel_inv T"
  shows "mset (near T (unat (time T AND TIMER_NEAR_MASK))) =
    filter_mset (\<lambda>n. expire n = time T) (pending T)"
proof -
  let ?now = "Near (unat (time T) mod 256)"
  have "filter_mset (\<lambda>n. expire n = time T) (mset (slot T s)) = (if s = ?now then mset (slot T s) else {#})"
    for s
  proof -
    have "expire n = time T \<longleftrightarrow> s = ?now" if "n \<in> set (slot T s)" for n
      using assms that place_current_iff [of "unat (time T)" "unat (expire n)"]
      by (auto simp: wheel_inv_def word_unat_eq_iff)
    then show ?thesis by (auto simp: filter_mset_eq_conv filter_empty_mset)
  qed
  moreover have "?now \<in> all_slots" by (simp add: all_slots_def)
  moreover have "near T (unat (time T AND TIMER_NEAR_MASK)) = slot T ?now"
    by (simp add: slot_def wheel_masks unat_and_mask)
  ultimately show ?thesis by (simp add: pending_def filter_mset_sum)
qed

lemma clear_near_spec:
  assumes "wheel_inv T" "link_clear_near (unat (time T AND TIMER_NEAR_MASK)) T = (cur, T1)"
  shows "time T1 = time T" "wheel_inv T1" "pending T = mset cur + pending T1"
    "\<forall>n\<in>set cur. expire n = time T"
proof -
  let ?now = "Near (unat (time T) mod 256)"
  from assms(2) have T1: "slot T1 s = (if s = ?now then [] else slot T s)" "time T1 = time T"
    and cur: "cur = slot T ?now" for s
    by (auto simp: link_clear_near_def slot_def wheel_masks unat_and_mask split: slot.splits)
  then show "time T1 = time T" "wheel_inv T1" using assms(1) by (auto simp: wheel_inv_def)
  have "mset (slot T s) = mset (slot T1 s) + (if s = ?now then mset cur else {#})" for s
    using T1 cur by simp
  moreover have "?now \<in> all_slots" by (simp add: all_slots_def)
  ultimately show "pending T = mset cur + pending T1" by (simp add: pending_def sum.distrib)
  have "set_mset (mset cur) = set_mset (filter_mset (\<lambda>n. expire n = time T) (pending T))"
    using near_now [OF assms(1)] assms(2) by (auto simp: link_clear_near_def)
  then show "\<forall>n\<in>set cur. expire n = time T" by auto
qed

definition valid_batches :: "(int \<times> 'p) list list \<Rightarrow> bool" where
  "valid_batches bs \<longleftrightarrow> (\<forall>b\<in>set bs. \<forall>dp\<in>set b. valid_delay (fst dp))"

lemma timer_execute_spec:
  assumes "timer_execute bs T = (ds, T', bs')" "wheel_inv T" "valid_batches bs"
  shows "wheel_inv T' \<and> time T' = time T \<and> (\<forall>n\<in>set ds. expire n = time T) \<and>
    (\<forall>n\<in>#pending T'. expire n \<noteq> time T) \<and>
    (\<exists>used. bs = used @ bs' \<and>
       pending T + mset (map (new_node (time T)) (concat used)) = mset ds + pending T')"
  using assms
proof (induction bs T arbitrary: ds T' bs' rule: timer_execute.induct)
  case (1 bs T)
  let ?idx = "unat (time T AND TIMER_NEAR_MASK)"
  show ?case
  proof (cases "near T ?idx = []")
    case True
    then have "ds = []" "T' = T" "bs' = bs"
      using "1.prems"(1) by (simp_all add: timer_execute.simps [of bs T])
    moreover have "\<forall>n\<in>#pending T. expire n \<noteq> time T"
      using near_now [OF "1.prems"(2)] True
      by (simp add: filter_empty_mset_iff)
    ultimately show ?thesis using "1.prems"(2) by simp
  next
    case False
    obtain cur T1 where c: "link_clear_near ?idx T = (cur, T1)" by fastforce
    note clr = clear_near_spec [OF "1.prems"(2) c]
    define T2 where "T2 = (case bs of [] \<Rightarrow> T1 | b # _ \<Rightarrow> timer_arrivals b T1)"
    obtain ds2 T3 bs3 where r: "timer_execute (tl bs) T2 = (ds2, T3, bs3)" by (metis prod_cases3)
    have res: "ds = cur @ ds2" "T' = T3" "bs' = bs3"
      using "1.prems"(1) False by (simp_all add: timer_execute.simps [of bs T] c T2_def [symmetric] r)
    define b where "b = (case bs of [] \<Rightarrow> [] | b # _ \<Rightarrow> b)"
    have T2: "T2 = timer_arrivals b T1"
      by (simp add: T2_def b_def timer_arrivals_def split: list.split)
    have "\<forall>dp\<in>set b. valid_delay (fst dp)" "valid_batches (tl bs)"
      using "1.prems"(3) by (cases bs; simp add: b_def valid_batches_def)+
    with timer_arrivals_spec [of b T1] clr have t2: "time T2 = time T" "wheel_inv T2"
      "pending T2 = pending T1 + mset (map (new_node (time T)) b)" by (simp_all add: T2)
    from "1.IH" [OF refl False c [symmetric] refl T2_def r t2(2) \<open>valid_batches (tl bs)\<close>]
    obtain used where u: "wheel_inv T3" "time T3 = time T" "\<forall>n\<in>set ds2. expire n = time T"
      "\<forall>n\<in>#pending T3. expire n \<noteq> time T" "tl bs = used @ bs3"
      "pending T2 + mset (map (new_node (time T)) (concat used)) = mset ds2 + pending T3"
      unfolding t2(1) by blast
    define used' where "used' = (if bs = [] then [] else b # used)"
    have "bs = used' @ bs3" using u(5) by (cases bs) (auto simp: b_def used'_def)
    moreover have "concat used' = b @ concat used"
      using u(5) by (cases bs) (simp_all add: b_def used'_def)
    then have "pending T + mset (map (new_node (time T)) (concat used')) = mset ds + pending T'"
      using u(6) unfolding clr(3) t2(3) res by (simp add: ac_simps)
    ultimately show ?thesis using u(1-4) clr(4) unfolding res by auto
  qed
qed

section \<open>Moving on to the next tick\<close>

lemma due_cases:
  fixes e tm :: u32
  assumes "e \<noteq> tm" "unat (e - tm) < 2 ^ 31"
  shows "unat e \<noteq> unat tm" "unat tm < unat e \<or> unat e + 2 ^ 31 < unat tm"
  using assms by (auto simp: unat_sub_if_size word_size word_unat_eq_iff split: if_splits)

lemma place_tick:
  fixes e tm :: u32
  assumes due: "e \<noteq> tm" "unat (e - tm) < 2 ^ 31"
    and stay: "moved (unat (tm + 1)) \<noteq> Some (place (unat tm) (unat e))"
  shows "place (unat (tm + 1)) (unat e) = place (unat tm) (unat e)"
proof (cases "tm + 1 = 0")
  case True
  then have tm: "tm = - 1" by (simp add: eq_neg_iff_add_eq_0)
  then have N: "unat tm = 2 ^ 32 - 1" by (simp add: unsigned_minus_1_eq_mask mask_eq_exp_minus_1)
  have "unat e + 2 ^ 31 < 2 ^ 32 - 1" using due_cases [OF due] unat_less_exp [of e] N by auto
  moreover have "place (2 ^ 32 - 1) (unat e) \<noteq> Level 3 0"
    using stay True unfolding N by (simp add: moved_def)
  ultimately show ?thesis using place_wrap [of "unat e"] True N by simp
next
  case False
  then have S: "unat (tm + 1) = Suc (unat tm)"
    using unat_minus_one [OF False] by (simp add: unat_gt_0)
  then have "unat tm < 2 ^ 32 - 1" using unat_less_exp [of "tm + 1"] by simp
  from place_shift [OF this due_cases [OF due]] stay show ?thesis by (simp add: S)
qed

lemma unat_dec_less:
  "e \<noteq> tm \<Longrightarrow> unat (e - (tm + 1) :: u32) = unat (e - tm) - 1"
  using unat_minus_one [of "e - tm"] by (simp add: algebra_simps)

lemma timer_move_list_slots:
  "slot (timer_move_list k j T) s = (if s = Level k j then [] else slot T s) @
     filter (\<lambda>n. place (unat (time T)) (unat (expire n)) = s) (slot T (Level k j))"
  "time (timer_move_list k j T) = time T"
  "current (timer_move_list k j T) = current T" "start (timer_move_list k j T) = start T"
  "cur_pt (timer_move_list k j T) = cur_pt T"
proof -
  let ?T1 = "T\<lparr>t := (t T)(k := (t T k)(j := []))\<rparr>"
  have "slot ?T1 s = (if s = Level k j then [] else slot T s)"
    by (auto simp: slot_def split: slot.splits)
  then show "slot (timer_move_list k j T) s = (if s = Level k j then [] else slot T s) @
     filter (\<lambda>n. place (unat (time T)) (unat (expire n)) = s) (slot T (Level k j))"
    by (simp add: timer_move_list_def link_clear_level_def slot_fold_add) (simp add: slot_def)
qed (simp_all add: timer_move_list_def link_clear_level_def)

lemma timer_move_list_pending:
  assumes "k < 4" "j < 64"
  shows "pending (timer_move_list k j T) = pending T"
proof -
  obtain ns T1 where c: "link_clear_level k j T = (ns, T1)" by fastforce
  then have "mset (slot T s) = mset (slot T1 s) + (if s = Level k j then mset ns else {#})" for s
    by (auto simp: link_clear_level_def slot_def split: slot.splits)
  moreover have "Level k j \<in> all_slots" using assms by (force simp: all_slots_def)
  ultimately have "pending T = pending T1 + mset ns" by (simp add: pending_def sum.distrib)
  with c show ?thesis by (simp add: timer_move_list_def)
qed

lemma timer_shift_spec:
  assumes inv: "wheel_inv T" and none: "\<forall>n\<in>#pending T. expire n \<noteq> time T"
  shows "\<exists>T'. timer_shift T = Some T' \<and> wheel_inv T' \<and> pending T' = pending T \<and>
    time T' = time T + 1 \<and> current T' = current T \<and> start T' = start T \<and> cur_pt T' = cur_pt T"
proof -
  let ?T1 = "T\<lparr>time := time T + 1\<rparr>"
  have sl [simp]: "slot ?T1 s = slot T s" for s by (simp add: slot_def split: slot.splits)
  then have p1: "pending ?T1 = pending T" by (simp only: pending_def)
  have node: "place (unat (time T)) (unat (expire n)) = s \<and> expire n \<noteq> time T \<and>
      unat (expire n - time T) < 2 ^ 31 \<and> unat (expire n - (time T + 1)) < 2 ^ 31"
    if "n \<in> set (slot T s)" for n s
  proof -
    from inv that have w: "place (unat (time T)) (unat (expire n)) = s" "unat (expire n - time T) < 2 ^ 31"
      by (auto simp: wheel_inv_def)
    then have "n \<in># pending T" using that by (auto simp: in_pending_iff)
    with none have "expire n \<noteq> time T" by blast
    with w show ?thesis by (simp add: unat_dec_less)
  qed
  show ?thesis
  proof (cases "moved (unat (time T + 1))")
    case None
    then have "wheel_inv ?T1" using node place_tick by (fastforce simp: wheel_inv_def)
    with None p1 show ?thesis by (simp add: timer_shift_moved)
  next
    case (Some s)
    then obtain k j where s: "s = Level k j" by (cases s) (auto simp: moved_not_Near)
    note mv = moved_LevelD [OF Some [unfolded s]]
    have "wheel_inv (timer_move_list k j ?T1)"
      unfolding wheel_inv_def
    proof (intro allI ballI)
      fix s' n
      assume "n \<in> set (slot (timer_move_list k j ?T1) s')"
      then consider "n \<in> set (slot T s')" "s' \<noteq> Level k j"
        | "place (unat (time T + 1)) (unat (expire n)) = s'" "n \<in> set (slot T (Level k j))"
        by (auto simp: timer_move_list_slots split: if_splits)
      then show "place (unat (time (timer_move_list k j ?T1))) (unat (expire n)) = s' \<and>
          unat (expire n - time (timer_move_list k j ?T1)) < 2 ^ 31"
      proof cases
        case 1
        with node [of n s'] place_tick [of "expire n" "time T"] Some s show ?thesis
          by (simp add: timer_move_list_slots)
      next
        case 2
        with node [of n "Level k j"] show ?thesis by (simp add: timer_move_list_slots)
      qed
    qed
    moreover have "pending (timer_move_list k j ?T1) = pending T"
      using mv(1,3) p1 by (subst timer_move_list_pending) auto
    ultimately show ?thesis using Some s by (simp add: timer_shift_moved timer_move_list_slots)
  qed
qed


section \<open>A whole tick\<close>

lemma timer_execute_fields:
  "timer_execute bs T = (ds, T', bs') \<Longrightarrow>
     current T' = current T \<and> start T' = start T \<and> cur_pt T' = cur_pt T"
proof (induction bs T arbitrary: ds T' bs' rule: timer_execute.induct)
  case (1 bs T)
  let ?idx = "unat (time T AND TIMER_NEAR_MASK)"
  have arr: "current (timer_arrivals b U) = current U \<and> start (timer_arrivals b U) = start U \<and>
      cur_pt (timer_arrivals b U) = cur_pt U" for b and U :: "'a timer"
    by (induction b arbitrary: U) (auto simp: timer_arrivals_def timer_timeout_def)
  show ?case
  proof (cases "near T ?idx = []")
    case True
    with "1.prems" show ?thesis by (simp add: timer_execute.simps [of bs T])
  next
    case False
    obtain cur T1 where c: "link_clear_near ?idx T = (cur, T1)" by fastforce
    define T2 where "T2 = (case bs of [] \<Rightarrow> T1 | b # _ \<Rightarrow> timer_arrivals b T1)"
    obtain ds2 T3 bs3 where r: "timer_execute (tl bs) T2 = (ds2, T3, bs3)" by (metis prod_cases3)
    have "T' = T3" using "1.prems" False
      by (simp add: timer_execute.simps [of bs T] c T2_def [symmetric] r)
    moreover have "current T2 = current T" "start T2 = start T" "cur_pt T2 = cur_pt T"
      using c by (auto simp: T2_def link_clear_near_def arr split: list.split)
    ultimately show ?thesis using "1.IH" [OF refl False c [symmetric] refl T2_def r] by simp
  qed
qed

lemma timer_tick_spec:
  assumes inv: "wheel_inv T" and bs: "valid_batches bs"
  shows "\<exists>ds T' bs' early late. timer_tick bs T = Some (ds, T', bs') \<and> bs = early @ late @ bs' \<and>
    wheel_inv T' \<and> time T' = time T + 1 \<and>
    current T' = current T \<and> start T' = start T \<and> cur_pt T' = cur_pt T \<and>
    pending T + mset (map (new_node (time T)) (concat early))
      + mset (map (new_node (time T + 1)) (concat late)) = mset ds + pending T' \<and>
    (\<forall>n\<in>set ds. expire n = time T \<or> expire n = time T + 1) \<and>
    (\<forall>n\<in>#pending T'. expire n \<noteq> time T \<and> expire n \<noteq> time T + 1)"
proof -
  obtain ds1 T1 bs1 where x1: "timer_execute bs T = (ds1, T1, bs1)" by (metis prod_cases3)
  from timer_execute_spec [OF x1 inv bs] obtain early where
    e1: "wheel_inv T1" "time T1 = time T" "\<forall>n\<in>set ds1. expire n = time T"
      "\<forall>n\<in>#pending T1. expire n \<noteq> time T" "bs = early @ bs1"
      "pending T + mset (map (new_node (time T)) (concat early)) = mset ds1 + pending T1" by blast
  from timer_shift_spec [OF e1(1)] e1(2,4) obtain T2 where
    sh: "timer_shift T1 = Some T2" "wheel_inv T2" "pending T2 = pending T1" "time T2 = time T + 1"
      "current T2 = current T1" "start T2 = start T1" "cur_pt T2 = cur_pt T1" by auto
  obtain ds2 T3 bs2 where x2: "timer_execute bs1 T2 = (ds2, T3, bs2)" by (metis prod_cases3)
  have "valid_batches bs1" using bs e1(5) by (auto simp: valid_batches_def)
  from timer_execute_spec [OF x2 sh(2) this] obtain late where
    e2: "wheel_inv T3" "time T3 = time T + 1" "\<forall>n\<in>set ds2. expire n = time T + 1"
      "\<forall>n\<in>#pending T3. expire n \<noteq> time T + 1" "bs1 = late @ bs2"
      "pending T2 + mset (map (new_node (time T + 1)) (concat late)) = mset ds2 + pending T3"
    unfolding sh(4) by blast
  have "expire n \<noteq> time T" if "n \<in># pending T3" for n
  proof
    assume "expire n = time T"
    then have "expire n - time T3 = - 1" by (simp add: e2(2))
    then have "unat (expire n - time T3) = 2 ^ 32 - 1"
      by (simp add: unsigned_minus_1_eq_mask mask_eq_exp_minus_1)
    with wheel_inv_pending [OF e2(1) that] show False by simp
  qed
  moreover have "timer_tick bs T = Some (ds1 @ ds2, T3, bs2)"
    by (simp add: timer_tick_def x1 sh(1) x2)
  moreover have "pending T + mset (map (new_node (time T)) (concat early))
      + mset (map (new_node (time T + 1)) (concat late)) = mset (ds1 @ ds2) + pending T3"
    using e1(6) e2(6) sh(3) by (simp add: union_assoc union_lcomm)
  moreover have "current T3 = current T" "start T3 = start T" "cur_pt T3 = cur_pt T"
    using timer_execute_fields [OF x1] timer_execute_fields [OF x2] sh by simp_all
  ultimately show ?thesis
    using e1(3,5) e2 by (intro exI [of _ "ds1 @ ds2"] exI [of _ T3] exI [of _ bs2]
        exI [of _ early] exI [of _ late]) auto
qed

text \<open>
  One tick always returns, advances the clock by one and keeps every node in its list.
  It dispatches exactly the nodes due at the old or the new tick: with the timers that other
  threads register while it dispatches, what was pending is what it dispatched plus what is
  still pending, everything dispatched is due and nothing due is left.
\<close>

theorem timer_tick_exact:
  assumes "wheel_inv T" "valid_batches bs"
  shows "\<exists>ds T' bs' early late. timer_tick bs T = Some (ds, T', bs') \<and> bs = early @ late @ bs' \<and>
    wheel_inv T' \<and> time T' = time T + 1 \<and>
    pending T + mset (map (new_node (time T)) (concat early))
      + mset (map (new_node (time T + 1)) (concat late)) = mset ds + pending T' \<and>
    (\<forall>n\<in>set ds. expire n \<in> {time T, time T + 1}) \<and>
    (\<forall>n\<in>#pending T'. expire n \<notin> {time T, time T + 1})"
  using timer_tick_spec [OF assms] by simp blast

definition empty_timer :: "'p timer" where
  "empty_timer = \<lparr>near = (\<lambda>_. []), t = (\<lambda>_ _. []), time = 0, current = 0, start = 0, cur_pt = 0\<rparr>"

lemma empty_timer_inv [simp]: "wheel_inv empty_timer"
  by (simp add: wheel_inv_def empty_timer_def slot_def split: slot.splits)

lemma empty_timer_pending [simp]: "pending empty_timer = {#}" "time empty_timer = 0"
proof -
  have "slot (empty_timer :: 'a timer) s = []" for s
    by (cases s) (simp_all add: slot_def empty_timer_def)
  then show "pending (empty_timer :: 'a timer) = {#}" by (simp add: pending_def)
qed (simp add: empty_timer_def)

theorem timer_tick_exact_witness:
  "wheel_inv (timer_timeout 1 ''a'' empty_timer) \<and> valid_batches ([] :: (int \<times> string) list list) \<and>
   (\<exists>T'. timer_tick [] (timer_timeout 1 ''a'' empty_timer) = Some ([new_node 0 (1, ''a'')], T', []) \<and>
     time T' = 1 \<and> pending T' = {#})"
proof -
  let ?T = "timer_timeout 1 ''a'' empty_timer" and ?n = "new_node 0 (1, ''a'')"
  have i: "wheel_inv ?T" by (simp add: timer_timeout_inv valid_delay_def)
  have v: "valid_batches ([] :: (int \<times> string) list list)" by (simp add: valid_batches_def)
  from timer_tick_exact [OF i v] obtain ds T' where r: "timer_tick [] ?T = Some (ds, T', [])"
    "time T' = 1" "{#?n#} = mset ds + pending T'" "\<forall>n\<in>#pending T'. expire n \<noteq> 1"
    by auto
  from r(3,4) have "?n \<notin># pending T'" by (auto simp: new_node_def)
  with r(3) have "pending T' = {#} \<and> mset ds = {#?n#}"
    by (metis single_is_union union_single_eq_member empty_neutral(1) add_mset_eq_single)
  with i v r show ?thesis by auto
qed

section \<open>Timers fire on time\<close>

text \<open>
  What happens to the wheel over time: timers are registered, and ticks pass, each with the
  batches of timers that arrive while it dispatches.
\<close>

datatype 'p wheel_op = Register int 'p | Tick "(int \<times> 'p) list list"

fun wheel_run :: "'p wheel_op list \<Rightarrow> 'p timer \<Rightarrow> ('p timer_node list list \<times> 'p timer) option" where
  "wheel_run [] T = Some ([], T)"
| "wheel_run (Register d ud # ops) T = wheel_run ops (timer_timeout d ud T)"
| "wheel_run (Tick bs # ops) T =
     do { (ds, T1, _) \<leftarrow> timer_tick bs T;
          (dss, T2) \<leftarrow> wheel_run ops T1;
          Some (ds # dss, T2) }"

fun valid_op :: "'p wheel_op \<Rightarrow> bool" where
  "valid_op (Register d ud) = valid_delay d"
| "valid_op (Tick bs) = valid_batches bs"

fun ticks :: "'p wheel_op list \<Rightarrow> nat" where
  "ticks [] = 0"
| "ticks (Register d ud # ops) = ticks ops"
| "ticks (Tick bs # ops) = Suc (ticks ops)"

lemma tick_node:
  assumes "wheel_inv T" "valid_batches bs" "n \<in># pending T"
  obtains ds T' bs' where "timer_tick bs T = Some (ds, T', bs')" "wheel_inv T'"
    "unat (expire n - time T) \<le> 1 \<Longrightarrow> n \<in> set ds"
    "2 \<le> unat (expire n - time T) \<Longrightarrow> n \<notin> set ds \<and> n \<in># pending T' \<and>
       unat (expire n - time T') = unat (expire n - time T) - 1"
proof -
  let ?d = "expire n - time T"
  from timer_tick_spec [OF assms(1,2)] obtain ds T' bs' early late where
    r: "timer_tick bs T = Some (ds, T', bs')" "wheel_inv T'" "time T' = time T + 1"
      "pending T + mset (map (new_node (time T)) (concat early))
        + mset (map (new_node (time T + 1)) (concat late)) = mset ds + pending T'"
      "\<forall>n\<in>set ds. expire n = time T \<or> expire n = time T + 1"
      "\<forall>n\<in>#pending T'. expire n \<noteq> time T \<and> expire n \<noteq> time T + 1" by blast
  have "n \<in># mset ds + pending T'" unfolding r(4) [symmetric] using assms(3) by simp
  then have n: "n \<in> set ds \<or> n \<in># pending T'" by simp
  have due: "unat ?d \<le> 1 \<longleftrightarrow> expire n = time T \<or> expire n = time T + 1"
  proof
    assume "unat ?d \<le> 1"
    then have "?d = 0 \<or> ?d = 1" by (metis le_Suc_eq le_zero_eq One_nat_def unat_0 unat_1 word_unat_eq_iff)
    then show "expire n = time T \<or> expire n = time T + 1" by (auto simp: algebra_simps)
  qed auto
  show ?thesis
  proof (rule that [OF r(1,2)])
    assume "unat ?d \<le> 1"
    with n r(6) due show "n \<in> set ds" by blast
  next
    assume "2 \<le> unat ?d"
    then have "\<not> unat ?d \<le> 1" by simp
    with due r(5) n show "n \<notin> set ds \<and> n \<in># pending T' \<and> unat (expire n - time T') = unat ?d - 1"
      by (auto simp: r(3) unat_dec_less)
  qed
qed

lemma wheel_run_total:
  "wheel_inv T \<Longrightarrow> \<forall>x\<in>set ops. valid_op x \<Longrightarrow>
     \<exists>dss T'. wheel_run ops T = Some (dss, T') \<and> length dss = ticks ops \<and> wheel_inv T'"
proof (induction ops arbitrary: T rule: ticks.induct)
  case (3 bs ops)
  then have "valid_batches bs" "\<forall>x\<in>set ops. valid_op x" by simp_all
  with timer_tick_spec [OF "3.prems"(1), of bs] "3.IH" show ?case by fastforce
qed (simp_all add: timer_timeout_inv)

lemma wheel_run_node:
  assumes "wheel_inv T" "\<forall>x\<in>set ops. valid_op x" "n \<in># pending T"
  shows "\<exists>dss T'. wheel_run ops T = Some (dss, T') \<and> length dss = ticks ops \<and> wheel_inv T' \<and>
    (\<forall>i<length dss. Suc i < unat (expire n - time T) \<longrightarrow> n \<notin> set (dss ! i)) \<and>
    (max 1 (unat (expire n - time T)) \<le> ticks ops \<longrightarrow>
       n \<in> set (dss ! (max 1 (unat (expire n - time T)) - 1)))"
  using assms
proof (induction ops arbitrary: T rule: ticks.induct)
  case (2 d ud ops)
  then have "wheel_inv (timer_timeout d ud T)" "n \<in># pending (timer_timeout d ud T)"
    by (simp_all add: timer_timeout_inv)
  with "2.IH" "2.prems"(2) show ?case by fastforce
next
  case (3 bs ops)
  let ?d = "unat (expire n - time T)"
  from 3 have bs: "valid_batches bs" and ops: "\<forall>x\<in>set ops. valid_op x" by simp_all
  obtain ds T1 bs' where r: "timer_tick bs T = Some (ds, T1, bs')" "wheel_inv T1"
    "?d \<le> 1 \<Longrightarrow> n \<in> set ds"
    "2 \<le> ?d \<Longrightarrow> n \<notin> set ds \<and> n \<in># pending T1 \<and> unat (expire n - time T1) = ?d - 1"
    using tick_node [OF "3.prems"(1) bs "3.prems"(3)] by blast
  show ?case
  proof (cases "?d \<le> 1")
    case True
    from wheel_run_total [OF r(2) ops] obtain dss T' where
      "wheel_run ops T1 = Some (dss, T')" "length dss = ticks ops" "wheel_inv T'" by blast
    with True r(1,3) show ?thesis by simp
  next
    case False
    with r(4) have n1: "n \<notin> set ds" "n \<in># pending T1" "unat (expire n - time T1) = ?d - 1" by auto
    from "3.IH" [OF r(2) ops n1(2)] obtain dss T' where
      w: "wheel_run ops T1 = Some (dss, T')" "length dss = ticks ops" "wheel_inv T'"
        "\<forall>i<length dss. Suc i < ?d - 1 \<longrightarrow> n \<notin> set (dss ! i)"
        "max 1 (?d - 1) \<le> ticks ops \<longrightarrow> n \<in> set (dss ! (max 1 (?d - 1) - 1))"
      unfolding n1(3) by blast
    have "n \<notin> set ((ds # dss) ! i)" if "i < length (ds # dss)" "Suc i < ?d" for i
      using that n1(1) w(4) by (cases i) auto
    moreover have "n \<in> set ((ds # dss) ! (max 1 ?d - 1))" if "max 1 ?d \<le> Suc (ticks ops)"
    proof -
      from False have "max 1 ?d - 1 = Suc (max 1 (?d - 1) - 1)" "max 1 (?d - 1) \<le> ticks ops"
        using that by auto
      with w(5) show ?thesis by simp
    qed
    ultimately show ?thesis using r(1) w by simp
  qed
qed simp


text \<open>
  C3: A timer registered with delay \<open>d\<close> is dispatched by the \<open>d\<close>-th tick after it (by the first
  when \<open>d = 0\<close>) and by no earlier one, whatever else is registered or arrives meanwhile; the
  ticks always return.
\<close>

theorem timer_fires_on_time:
  assumes "wheel_inv T" "valid_delay d" "\<forall>x\<in>set ops. valid_op x"
  shows "\<exists>dss T'. wheel_run (Register d ud # ops) T = Some (dss, T') \<and> length dss = ticks ops \<and>
    wheel_inv T' \<and>
    (\<forall>i<ticks ops. Suc i < nat d \<longrightarrow> new_node (time T) (d, ud) \<notin> set (dss ! i)) \<and>
    (max 1 (nat d) \<le> ticks ops \<longrightarrow> new_node (time T) (d, ud) \<in> set (dss ! (max 1 (nat d) - 1)))"
proof -
  let ?n = "new_node (time T) (d, ud)"
  have "unat (expire ?n - time T) = nat d"
    using assms(2) by (simp add: new_node_def valid_delay_def unsigned_of_int take_bit_int_eq_self)
  with wheel_run_node [OF timer_timeout_inv [OF assms(1,2), of ud] assms(3), of ?n]
  show ?thesis by fastforce
qed

theorem timer_fires_on_time_witness:
  "\<exists>dss T'. wheel_run [Register 2 ''a'', Register 1 ''b'', Tick [], Tick []] empty_timer = Some (dss, T') \<and>
     new_node 0 (2, ''a'') \<notin> set (dss ! 0) \<and> new_node 0 (2, ''a'') \<in> set (dss ! 1)"
  using timer_fires_on_time [of empty_timer 2 "[Register 1 ''b'', Tick [], Tick []]" "''a''"]
  by (fastforce simp: valid_delay_def valid_batches_def)

section \<open>Keeping up with the system clock\<close>

lemma timer_ticks_spec:
  assumes "wheel_inv T" "valid_batches bs"
  shows "\<exists>dss T' bs'. timer_ticks k bs T = Some (dss, T', bs') \<and> length dss = k \<and>
    wheel_inv T' \<and> time T' = time T + of_nat k \<and>
    current T' = current T \<and> start T' = start T \<and> cur_pt T' = cur_pt T"
  using assms
proof (induction k arbitrary: T bs)
  case (Suc k)
  from timer_tick_spec [OF Suc.prems] obtain ds T1 bs1 early late where
    r: "timer_tick bs T = Some (ds, T1, bs1)" "bs = early @ late @ bs1" "wheel_inv T1"
      "time T1 = time T + 1" "current T1 = current T" "start T1 = start T" "cur_pt T1 = cur_pt T"
    by blast
  have "valid_batches bs1" using Suc.prems(2) r(2) by (auto simp: valid_batches_def)
  from Suc.IH [OF r(3) this] r show ?case by (fastforce simp: add.assoc add.commute)
qed simp

text \<open>
  When the clock has advanced by less than \<open>2\<^sup>3\<^sup>2\<close> centiseconds, \<open>timer_update\<close> runs one tick
  for each of them, so the wheel's clock, \<open>current\<close> and the recorded clock reading advance
  together; when the clock went backwards it dispatches nothing and only records the reading.
\<close>

theorem timer_update_in_step:
  assumes "wheel_inv T" "valid_batches bs" "unat (cp - cur_pt T) < 2 ^ 32 \<or> cp < cur_pt T"
  shows "\<exists>dss T' bs'. timer_update cp bs T = Some (dss, T', bs') \<and> wheel_inv T' \<and> cur_pt T' = cp \<and>
    length dss = unat cp - unat (cur_pt T) \<and>
    time T' - time T = of_nat (length dss) \<and> current T' - current T = of_nat (length dss)"
proof (cases "cp < cur_pt T")
  case True
  have "slot (T\<lparr>cur_pt := cp\<rparr>) s = slot T s" for s by (simp add: slot_def split: slot.splits)
  with True have "wheel_inv (T\<lparr>cur_pt := cp\<rparr>)" "unat cp - unat (cur_pt T) = 0"
    using assms(1) by (simp_all add: wheel_inv_def word_less_nat_alt)
  with True show ?thesis by (simp add: timer_update_def)
next
  case False
  show ?thesis
  proof (cases "cp = cur_pt T")
    case True
    with assms(1) show ?thesis by (simp add: timer_update_def)
  next
    case ne: False
    let ?diff = "ucast (cp - cur_pt T) :: u32"
    have d: "unat ?diff = unat cp - unat (cur_pt T)"
      using assms(3) False by (simp add: unsigned_ucast_eq take_bit_nat_eq_self word_less_nat_alt
          unat_sub_if_size not_less)
    let ?T1 = "T\<lparr>cur_pt := cp, current := current T + ?diff\<rparr>"
    define T2 where "T2 = (if current ?T1 < current T
        then ?T1\<lparr>start := start ?T1 + 0xffffffff div 100\<rparr> else ?T1)"
    have "slot T2 s = slot T s" for s by (simp add: T2_def slot_def split: slot.splits)
    then have t2: "wheel_inv T2" "time T2 = time T" "cur_pt T2 = cp" "current T2 = current T + ?diff"
      using assms(1) by (simp_all add: wheel_inv_def T2_def)
    have "timer_update cp bs T = timer_ticks (unat ?diff) bs T2"
      using False ne by (simp add: timer_update_def T2_def Let_def)
    moreover have "of_nat (unat ?diff) = ?diff" by simp
    ultimately show ?thesis
      using timer_ticks_spec [OF t2(1) assms(2), of "unat ?diff"] t2(2-4) d by fastforce
  qed
qed

theorem timer_update_in_step_witness:
  "\<exists>dss T' bs'. timer_update 3 [] (timer_timeout 2 ''a'' empty_timer) = Some (dss, T', bs') \<and>
     length dss = 3 \<and> time T' = 3"
proof -
  let ?T = "timer_timeout 2 ''a'' empty_timer"
  have c: "cur_pt ?T = 0" "time ?T = 0" by (simp_all add: timer_timeout_def empty_timer_def)
  have "wheel_inv ?T" "valid_batches ([] :: (int \<times> string) list list)"
    by (simp_all add: timer_timeout_inv valid_delay_def valid_batches_def)
  from timer_update_in_step [OF this, of 3] c show ?thesis by fastforce
qed

section \<open>Shutting down\<close>

lemma mset_concat_upt: "mset (concat (map f [0..<n])) = (\<Sum>i<n. mset (f i))"
  by (induction n) simp_all

lemma pending_lists:
  "pending T = (\<Sum>i<256. mset (near T i)) + (\<Sum>k<4. \<Sum>j<64. mset (t T k j))"
proof -
  have "pending T = (\<Sum>s\<in>Near ` {..<256}. mset (slot T s)) +
      (\<Sum>s\<in>(\<lambda>(k, j). Level k j) ` ({..<4} \<times> {..<64}). mset (slot T s))"
    unfolding pending_def all_slots_def by (rule sum.union_disjoint) auto
  moreover have "(\<Sum>s\<in>Near ` {..<256}. mset (slot T s)) = (\<Sum>i<256. mset (near T i))"
    by (subst sum.reindex) (auto simp: inj_on_def slot_def)
  moreover have "(\<Sum>s\<in>(\<lambda>(k, j). Level k j) ` ({..<4} \<times> {..<64}). mset (slot T s)) =
      (\<Sum>(k, j)\<in>{..<4} \<times> {..<64}. mset (t T k j))"
    by (subst sum.reindex) (auto simp: inj_on_def slot_def intro!: sum.cong)
  ultimately show ?thesis by (simp add: sum.cartesian_product)
qed

text \<open>
  \<open>timer_unit\<close> releases every pending node except those in list 63 of each level: its inner
  loop stops one short of \<open>TIMER_LEVEL\<close>, so exactly the nodes of those four lists are leaked.
\<close>

theorem timer_unit_leaks:
  "pending T = mset (fst (timer_unit T)) + pending (snd (timer_unit T)) \<and>
   pending (snd (timer_unit T)) = mset (concat (map (\<lambda>k. t T k 63) [0..<4]))"
proof -
  have m: "unat TIMER_LEVEL_MASK = 63" by (simp add: wheel_masks mask_eq_exp_minus_1)
  have s64: "(\<Sum>j<64. g j) = (\<Sum>j<63. g j) + g 63" for g :: "nat \<Rightarrow> 'a timer_node multiset"
    using sum.lessThan_Suc [of g 63] by simp
  let ?L = "\<Sum>k<4. mset (t T k 63)"
  have rest: "pending (snd (timer_unit T)) = ?L"
    by (simp add: pending_lists timer_unit_def m s64)
  have "mset (fst (timer_unit T)) = (\<Sum>i<256. mset (near T i)) + (\<Sum>k<4. \<Sum>j<63. mset (t T k j))"
    by (simp only: timer_unit_def m fst_conv mset_append mset_concat_upt)
  then have "pending T = mset (fst (timer_unit T)) + ?L"
    by (simp only: pending_lists s64 sum.distrib add.assoc)
  with rest show ?thesis by (simp only: mset_concat_upt)
qed

end
