(* ===== verification/Locks.thy ===== *)
theory Locks
  imports Prelude
begin

text \<open>
  The spin lock and the reader-writer lock of \<open>src/src/lock.h\<close> in the build without
  \<open>USE_PTHREAD_LOCK\<close>. Each access to a lock word is one step of one thread (the
  \<open>__sync\<close> builtins are atomic, plain reads too), and any number of threads interleave. The
  program counter of a thread says where in \<open>rwlock_rlock\<close> or \<open>rwlock_wlock\<close> it is, or that it
  holds the lock.
\<close>

section \<open>Lock words\<close>

record rwlock =
  rw_read :: int
  rw_write :: int

definition rwlock_init :: rwlock where
  "rwlock_init = \<lparr>rw_read = 0, rw_write = 0\<rparr>"

definition atom_inc :: "rwlock \<Rightarrow> rwlock" where
  "atom_inc l = l\<lparr>rw_read := rw_read l + 1\<rparr>"

definition atom_dec :: "rwlock \<Rightarrow> rwlock" where
  "atom_dec l = l\<lparr>rw_read := rw_read l - 1\<rparr>"

text \<open>One round of \<open>atom_spinlock\<close>: \<open>__sync_lock_test_and_set(ptr, 1)\<close> returns the old value.\<close>

definition test_and_set :: "int \<Rightarrow> int \<times> int" where
  "test_and_set v = (v, 1)"

section \<open>The reader-writer lock\<close>

datatype pc =
    Idle
  | R_while   \<comment> \<open>in \<open>while (lock->write)\<close>\<close>
  | R_inc     \<comment> \<open>about to increment \<open>read\<close>\<close>
  | R_check   \<comment> \<open>about to look at \<open>write\<close> again\<close>
  | R_undo    \<comment> \<open>about to decrement \<open>read\<close> and start over\<close>
  | Reading
  | W_spin    \<comment> \<open>in \<open>atom_spinlock(&lock->write)\<close>\<close>
  | W_while   \<comment> \<open>in \<open>while (lock->read)\<close>\<close>
  | Writing

type_synonym rw_state = "rwlock \<times> (nat \<Rightarrow> pc)"

inductive rw_step :: "rw_state \<Rightarrow> rw_state \<Rightarrow> bool" where
  rlock_call: "p i = Idle \<Longrightarrow> rw_step (l, p) (l, p(i := R_while))"
| rlock_wait: "p i = R_while \<Longrightarrow> rw_write l \<noteq> 0 \<Longrightarrow> rw_step (l, p) (l, p)"
| rlock_go: "p i = R_while \<Longrightarrow> rw_write l = 0 \<Longrightarrow> rw_step (l, p) (l, p(i := R_inc))"
| rlock_inc: "p i = R_inc \<Longrightarrow> rw_step (l, p) (atom_inc l, p(i := R_check))"
| rlock_back: "p i = R_check \<Longrightarrow> rw_write l \<noteq> 0 \<Longrightarrow> rw_step (l, p) (l, p(i := R_undo))"
| rlock_undo: "p i = R_undo \<Longrightarrow> rw_step (l, p) (atom_dec l, p(i := R_while))"
| rlock_break: "p i = R_check \<Longrightarrow> rw_write l = 0 \<Longrightarrow> rw_step (l, p) (l, p(i := Reading))"
| runlock: "p i = Reading \<Longrightarrow> rw_step (l, p) (atom_dec l, p(i := Idle))"
| wlock_call: "p i = Idle \<Longrightarrow> rw_step (l, p) (l, p(i := W_spin))"
| wlock_spin: "p i = W_spin \<Longrightarrow> test_and_set (rw_write l) = (old, new) \<Longrightarrow>
    rw_step (l, p) (l\<lparr>rw_write := new\<rparr>, p(i := (if old \<noteq> 0 then W_spin else W_while)))"
| wlock_wait: "p i = W_while \<Longrightarrow> rw_read l \<noteq> 0 \<Longrightarrow> rw_step (l, p) (l, p)"
| wlock_go: "p i = W_while \<Longrightarrow> rw_read l = 0 \<Longrightarrow> rw_step (l, p) (l, p(i := Writing))"
| wunlock: "p i = Writing \<Longrightarrow> rw_step (l, p) (l\<lparr>rw_write := 0\<rparr>, p(i := Idle))"

inductive rw_reachable :: "rw_state \<Rightarrow> bool" where
  rw_start: "rw_reachable (rwlock_init, \<lambda>_. Idle)"
| rw_next: "rw_reachable s \<Longrightarrow> rw_step s s' \<Longrightarrow> rw_reachable s'"

text \<open>Threads whose increment of \<open>read\<close> is outstanding, and threads that own the write word.\<close>

definition counted :: "(nat \<Rightarrow> pc) \<Rightarrow> nat set" where
  "counted p = {i. p i \<in> {R_check, R_undo, Reading}}"

definition owners :: "(nat \<Rightarrow> pc) \<Rightarrow> nat set" where
  "owners p = {i. p i \<in> {W_while, Writing}}"

definition rw_inv :: "rw_state \<Rightarrow> bool" where
  "rw_inv s \<longleftrightarrow> (case s of (l, p) \<Rightarrow>
     finite (counted p) \<and> rw_read l = int (card (counted p)) \<and>
     (rw_write l = 0 \<and> owners p = {} \<or> rw_write l = 1 \<and> (\<exists>w. owners p = {w})) \<and>
     ((\<exists>w. p w = Writing) \<longrightarrow> (\<forall>i. p i \<noteq> Reading)))"

lemma counted_upd:
  "counted (p(i := c)) =
     (if c \<in> {R_check, R_undo, Reading} then insert i (counted p) else counted p - {i})"
  by (auto simp: counted_def)

lemma owners_upd:
  "owners (p(i := c)) = (if c \<in> {W_while, Writing} then insert i (owners p) else owners p - {i})"
  by (auto simp: owners_def)

lemma counted_iff: "i \<in> counted p \<longleftrightarrow> p i \<in> {R_check, R_undo, Reading}"
  by (simp add: counted_def)

lemma owners_iff: "i \<in> owners p \<longleftrightarrow> p i \<in> {W_while, Writing}"
  by (simp add: owners_def)

lemma counted_dec:
  "i \<in> counted p \<Longrightarrow> finite (counted p) \<Longrightarrow> int (card (counted p - {i})) = int (card (counted p)) - 1"
  using card_Suc_Diff1 [of "counted p" i] by simp

lemmas rw_upd = counted_upd owners_upd counted_dec


lemma rw_inv_step: "rw_step s s' \<Longrightarrow> rw_inv s \<Longrightarrow> rw_inv s'"
proof (induction rule: rw_step.induct)
  case (rlock_inc p i l)
  then have "i \<notin> counted p" by (simp add: counted_iff)
  with rlock_inc show ?case by (auto simp: rw_inv_def rw_upd atom_inc_def owners_iff)
next
  case (rlock_undo p i l)
  then have i: "i \<in> counted p" "i \<notin> owners p" by (simp_all add: counted_iff owners_iff)
  with rlock_undo show ?case
    by (auto simp: rw_inv_def rw_upd atom_dec_def simp del: card_Diff_insert)
next
  case (rlock_break p i l)
  then have i: "i \<in> counted p" "i \<notin> owners p" by (simp_all add: counted_iff owners_iff)
  have "p w \<noteq> Writing" for w
    using rlock_break by (auto simp: rw_inv_def owners_def)
  with i rlock_break show ?case by (auto simp: rw_inv_def rw_upd insert_absorb)
next
  case (runlock p i l)
  then have i: "i \<in> counted p" "i \<notin> owners p" by (simp_all add: counted_iff owners_iff)
  with runlock show ?case
    by (auto simp: rw_inv_def rw_upd atom_dec_def simp del: card_Diff_insert)
next
  case (wlock_go p i l)
  then have i: "i \<notin> counted p" "i \<in> owners p" by (simp_all add: counted_iff owners_iff)
  from wlock_go have "counted p = {}" by (auto simp: rw_inv_def)
  then have "p j \<noteq> Reading" for j by (auto simp: counted_def)
  with i wlock_go show ?case by (auto simp: rw_inv_def rw_upd insert_absorb)
next
  case (wunlock p i l)
  then have i: "i \<notin> counted p" "i \<in> owners p" by (simp_all add: counted_iff owners_iff)
  with wunlock have "owners p = {i}" "rw_write l = 1" by (auto simp: rw_inv_def)
  moreover have "p j \<noteq> Writing" if "j \<noteq> i" for j
    using \<open>owners p = {i}\<close> that by (auto simp: owners_def)
  ultimately show ?case using i wunlock by (auto simp: rw_inv_def rw_upd)
next
  case (wlock_spin p i l old new)
  then have i: "i \<notin> counted p" "i \<notin> owners p" "old = rw_write l" "new = 1"
    by (simp_all add: counted_iff owners_iff test_and_set_def)
  have "p w \<noteq> Writing" if "rw_write l = 0" for w
    using wlock_spin that by (auto simp: rw_inv_def owners_def)
  with i wlock_spin show ?case by (auto simp: rw_inv_def rw_upd)
qed (auto simp: rw_inv_def rw_upd counted_iff owners_iff insert_absorb)

lemma rw_reachable_inv: "rw_reachable s \<Longrightarrow> rw_inv s"
proof (induction rule: rw_reachable.induct)
  case rw_start
  then show ?case by (simp add: rw_inv_def rwlock_init_def counted_def owners_def)
qed (rule rw_inv_step)

text \<open>
  C26: The reader-writer lock excludes: in every state the threads can reach, a thread that
  holds the write lock is the only holder of the lock, and \<open>read\<close> and \<open>write\<close> are zero again
  whenever no thread is in or between the lock and unlock calls.
\<close>

theorem rwlock_exclusion:
  assumes "rw_reachable (l, p)"
  shows "(\<forall>i j. p i = Writing \<longrightarrow> p j \<in> {Reading, Writing} \<longrightarrow> j = i) \<and>
    ((\<forall>i. p i = Idle) \<longrightarrow> l = rwlock_init)"
proof -
  from rw_reachable_inv [OF assms] have inv: "rw_inv (l, p)" .
  have "j = i" if "p i = Writing" "p j \<in> {Reading, Writing}" for i j
  proof -
    from inv that have "p j = Writing" by (auto simp: rw_inv_def)
    with that have "i \<in> owners p" "j \<in> owners p" by (simp_all add: owners_iff)
    with inv show ?thesis by (auto simp: rw_inv_def)
  qed
  moreover have "l = rwlock_init" if "\<forall>i. p i = Idle"
  proof -
    from that have "counted p = {}" "owners p = {}" by (simp_all add: counted_def owners_def)
    with inv show ?thesis by (simp add: rw_inv_def rwlock_init_def)
  qed
  ultimately show ?thesis by blast
qed

theorem rwlock_exclusion_witness:
  "\<exists>l p. rw_reachable (l, p) \<and> p 0 = Writing \<and> p 1 = R_check \<and>
     (\<forall>i j. p i = Writing \<longrightarrow> p j \<in> {Reading, Writing} \<longrightarrow> j = i)"
proof -
  let ?p = "(\<lambda>_. Idle)(1 := R_while)"
  let ?l = "rwlock_init\<lparr>rw_write := 1\<rparr>"
  have "rw_reachable (rwlock_init, ?p)"
    by (rule rw_next [OF rw_start rlock_call]) simp
  then have "rw_reachable (rwlock_init, ?p(1 := R_inc))"
    by (rule rw_next [OF _ rlock_go]) (simp_all add: rwlock_init_def)
  then have "rw_reachable (rwlock_init, ?p(1 := R_inc, 0 := W_spin))"
    by (rule rw_next [OF _ wlock_call]) simp
  from rw_next [OF this wlock_spin [of _ 0 _ 0 1]]
  have "rw_reachable (?l, ?p(1 := R_inc, 0 := W_spin, 0 := W_while))"
    by (simp add: test_and_set_def rwlock_init_def)
  then have "rw_reachable (?l, ?p(1 := R_inc, 0 := W_spin, 0 := W_while, 0 := Writing))"
    by (rule rw_next [OF _ wlock_go]) (simp_all add: rwlock_init_def)
  then have r: "rw_reachable (atom_inc ?l,
      ?p(1 := R_inc, 0 := W_spin, 0 := W_while, 0 := Writing, 1 := R_check))"
    (is "rw_reachable (_, ?q)")
    by (rule rw_next [OF _ rlock_inc]) simp
  have "?q 0 = Writing" "?q 1 = R_check" by simp_all
  with rwlock_exclusion [OF r] r show ?thesis by blast
qed

section \<open>The spin lock\<close>

datatype spin_pc = Out | Spinning | In

inductive spin_step :: "int \<times> (nat \<Rightarrow> spin_pc) \<Rightarrow> int \<times> (nat \<Rightarrow> spin_pc) \<Rightarrow> bool" where
  lock_call: "p i = Out \<Longrightarrow> spin_step (v, p) (v, p(i := Spinning))"
| lock_try: "p i = Spinning \<Longrightarrow> test_and_set v = (old, new) \<Longrightarrow>
    spin_step (v, p) (new, p(i := (if old \<noteq> 0 then Spinning else In)))"
| unlock: "p i = In \<Longrightarrow> spin_step (v, p) (0, p(i := Out))"

inductive spin_reachable :: "int \<times> (nat \<Rightarrow> spin_pc) \<Rightarrow> bool" where
  spin_start: "spin_reachable (0, \<lambda>_. Out)"
| spin_next: "spin_reachable s \<Longrightarrow> spin_step s s' \<Longrightarrow> spin_reachable s'"

definition inside :: "(nat \<Rightarrow> spin_pc) \<Rightarrow> nat set" where
  "inside p = {i. p i = In}"

lemma inside_upd: "inside (p(i := c)) = (if c = In then insert i (inside p) else inside p - {i})"
  by (auto simp: inside_def)

lemma inside_iff: "i \<in> inside p \<longleftrightarrow> p i = In"
  by (simp add: inside_def)

lemma spin_inv:
  "spin_reachable s \<Longrightarrow> (case s of (v, p) \<Rightarrow>
     v = 0 \<and> inside p = {} \<or> v = 1 \<and> (\<exists>w. inside p = {w}))"
proof (induction rule: spin_reachable.induct)
  case (spin_next s s')
  from spin_next(2,1,3) show ?case
  proof (cases rule: spin_step.cases)
    case (unlock p i v)
    then have "i \<in> inside p" by (simp add: inside_iff)
    with spin_next(3) unlock(1) have "inside p = {i}" by auto
    with unlock(2) show ?thesis by (simp add: inside_upd)
  next
    case (lock_call p i v)
    then have "inside p - {i} = inside p" by (auto simp: inside_iff)
    with spin_next(3) lock_call show ?thesis by (simp add: inside_upd)
  next
    case (lock_try p i v old new)
    then have out: "inside p - {i} = inside p" by (auto simp: inside_iff)
    from lock_try(4) have on: "old = v" "new = 1" by (simp_all add: test_and_set_def)
    show ?thesis
    proof (cases "v = 0")
      case True
      with spin_next(3) lock_try(1) have "inside p = {}" by simp
      with True on lock_try(2) show ?thesis by (simp add: inside_upd)
    next
      case False
      with spin_next(3) lock_try(1) have "\<exists>w. inside p = {w}" by simp
      with False on lock_try(2) out show ?thesis by (simp add: inside_upd)
    qed
  qed
qed (simp add: inside_def)

text \<open>
  The spin lock excludes: at most one thread is between \<open>spinlock_lock\<close> and
  \<open>spinlock_unlock\<close>, and the lock word is \<open>1\<close> exactly while one is.
\<close>

theorem spinlock_exclusion:
  assumes "spin_reachable (v, p)"
  shows "(p i = In \<longrightarrow> p j = In \<longrightarrow> i = j) \<and> (v = 1 \<longleftrightarrow> (\<exists>i. p i = In)) \<and> v \<in> {0, 1}"
proof -
  from spin_inv [OF assms] consider "v = 0" "inside p = {}" | w where "v = 1" "inside p = {w}"
    by auto
  then show ?thesis by cases (simp_all add: inside_iff [symmetric])
qed

theorem spinlock_exclusion_witness:
  "\<exists>v p. spin_reachable (v, p) \<and> p 0 = In \<and> p 1 = Spinning \<and> v = (1::int)"
proof -
  have "spin_reachable (0, (\<lambda>_. Out)(1 := Spinning))"
    by (rule spin_next [OF spin_start lock_call]) simp
  then have "spin_reachable (0, (\<lambda>_. Out)(1 := Spinning, 0 := Spinning))"
    by (rule spin_next [OF _ lock_call]) simp
  from spin_next [OF this lock_try [of _ 0 _ 0 1]]
  have r: "spin_reachable (1, (\<lambda>_. Out)(1 := Spinning, 0 := Spinning, 0 := In))"
    by (simp add: test_and_set_def)
  with spinlock_exclusion [OF r] show ?thesis by (intro exI conjI) (assumption | simp)+
qed

end
