(* ===== verification/Handles.thy ===== *)
theory Handles
  imports Prelude
begin

text \<open>
  The service registry of \<open>src/src/handle.c\<close>: an open-addressing table from handles to
  reference-counted services, and a sorted array of service names searched by bisection. Every
  operation runs under the reader-writer lock of the table, so each is one step; only \<open>handle_release\<close>
  takes the lock twice, to count down and, at zero, to remove, and is one step here all the same.
  Reference counts do not reach the limits of \<open>int\<close>. The allocator
  \<open>pixel_alloc\<close> zeroes what it returns and does not return null. A service freed by
  \<open>handle_release\<close> is reported in the result.
\<close>

section \<open>Data\<close>

record handle_slot =
  sl_handle :: u32
  sl_ref :: int
  sl_ctx :: addr

record handle_name =
  nm_name :: string
  nm_handle :: u32

record handle_global =
  last_id :: u32
  harbor :: u32
  h_cap :: int
  h_n :: int
  h_slot :: "handle_slot list"
  name_cap :: int
  name_count :: int
  names :: "handle_name list"

definition zero_slot :: handle_slot where
  "zero_slot = \<lparr>sl_handle = 0, sl_ref = 0, sl_ctx = 0\<rparr>"

definition zero_name :: handle_name where
  "zero_name = \<lparr>nm_name = [], nm_handle = 0\<rparr>"

definition handle_init :: "int \<Rightarrow> handle_global" where
  "handle_init hb = \<lparr>last_id = 0, harbor = push_bit 24 (word_of_int (hb AND 0xff)), h_cap = 16, h_n = 0,
     h_slot = replicate 16 zero_slot, name_cap = 16, name_count = 0, names = replicate 16 zero_name\<rparr>"

section \<open>The slot table\<close>

text \<open>\<open>handle & (cap - 1)\<close>.\<close>

definition slot_index :: "u32 \<Rightarrow> int \<Rightarrow> nat" where
  "slot_index h cp = unat (h AND word_of_int (cp - 1))"

definition handle_expand :: "handle_global \<Rightarrow> handle_global" where
  "handle_expand H =
     (let cp = h_cap H;
          newslot = fold (\<lambda>os ns. ns[slot_index (sl_handle os) (cp * 2) := os]) (h_slot H)
                         (replicate (nat (cp * 2)) zero_slot)
      in H\<lparr>h_slot := newslot, h_cap := cp * 2\<rparr>)"

text \<open>The probing loop of \<open>handle_regist\<close>, which skips handle \<open>0\<close> and occupied slots.\<close>

partial_function (option) regist_loop :: "addr \<Rightarrow> handle_global \<Rightarrow> (u32 \<times> handle_global) option" where
  "regist_loop ctx H =
     (let id1 = last_id H + 1;
          id = (if id1 = 0 then id1 + 1 else id1);
          H1 = H\<lparr>last_id := id\<rparr>;
          i = slot_index id (h_cap H)
      in if sl_handle (h_slot H ! i) \<noteq> 0 then regist_loop ctx H1
         else Some (id OR harbor H,
           H1\<lparr>h_slot := (h_slot H)[i := \<lparr>sl_handle = id, sl_ref = 1, sl_ctx = ctx\<rparr>],
              h_n := h_n H + 1\<rparr>))"

definition handle_regist :: "addr \<Rightarrow> handle_global \<Rightarrow> (u32 \<times> handle_global) option" where
  "handle_regist ctx H =
     (let H1 = (if h_n H \<ge> h_cap H * 3 div 4 then handle_expand H else H) in regist_loop ctx H1)"

definition handle_grab :: "u32 \<Rightarrow> handle_global \<Rightarrow> addr \<times> handle_global" where
  "handle_grab h0 H =
     (let h = h0 AND 0xffffff; i = slot_index h (h_cap H); s = h_slot H ! i in
      if sl_handle s \<noteq> h then (0, H)
      else (sl_ctx s, H\<lparr>h_slot := (h_slot H)[i := s\<lparr>sl_ref := sl_ref s + 1\<rparr>]\<rparr>))"

definition handle_release_ref :: "u32 \<Rightarrow> handle_global \<Rightarrow> addr \<times> handle_global" where
  "handle_release_ref h H =
     (let i = slot_index h (h_cap H); s = h_slot H ! i in
      if sl_handle s \<noteq> h then (0, H)
      else (if sl_ref s - 1 > 0 then sl_ctx s else 0,
            H\<lparr>h_slot := (h_slot H)[i := s\<lparr>sl_ref := sl_ref s - 1\<rparr>]\<rparr>))"

definition handle_remove :: "u32 \<Rightarrow> handle_global \<Rightarrow> addr \<times> handle_global" where
  "handle_remove h H =
     (let i = slot_index h (h_cap H); s = h_slot H ! i in
      if sl_handle s \<noteq> h then (0, H)
      else if sl_ref s > 0 then (0, H)
      else (sl_ctx s, H\<lparr>h_slot := (h_slot H)[i := s\<lparr>sl_handle := 0\<rparr>], h_n := h_n H - 1\<rparr>))"

text \<open>The result of \<open>handle_release\<close>, the services passed to \<open>pixel_free\<close>, and the new table.\<close>

definition handle_release :: "u32 \<Rightarrow> handle_global \<Rightarrow> addr \<times> addr list \<times> handle_global" where
  "handle_release h0 H =
     (let h = h0 AND 0xffffff; (ctx, H1) = handle_release_ref h H in
      if ctx = 0 then
        let (ctx2, H2) = handle_remove h H1 in (0, if ctx2 = 0 then [] else [ctx2], H2)
      else (ctx, [], H1))"

text \<open>\<open>handle_exit\<close> collects the handles in use, then releases each of them.\<close>

definition handle_exit :: "handle_global \<Rightarrow> addr list \<times> handle_global" where
  "handle_exit H =
     (let hs = filter (\<lambda>h. h \<noteq> 0) (map sl_handle (h_slot H))
      in fold (\<lambda>h (fr, H). let (_, fr', H') = handle_release h H in (fr @ fr', H')) hs ([], H))"

section \<open>Names\<close>

fun strcmp :: "string \<Rightarrow> string \<Rightarrow> int" where
  "strcmp [] [] = 0"
| "strcmp [] (y # ys) = - 1"
| "strcmp (x # xs) [] = 1"
| "strcmp (x # xs) (y # ys) =
     (if x = y then strcmp xs ys else if (of_char x :: nat) < of_char y then - 1 else 1)"

text \<open>
  The bisection both \<open>_query\<close> and \<open>_insert\<close> run over the entries: the position of the name, or
  where the search ended.
\<close>

function bisect :: "handle_name list \<Rightarrow> string \<Rightarrow> int \<Rightarrow> int \<Rightarrow> int + int" where
  "bisect ns nm bg en =
     (if bg \<le> en then
        (let mid = (bg + en) div 2; c = strcmp (nm_name (ns ! nat mid)) nm in
         if c = 0 then Inl mid
         else if c < 0 then bisect ns nm (mid + 1) en
         else bisect ns nm bg (mid - 1))
      else Inr bg)"
  by pat_completeness auto
termination
  by (relation "measure (\<lambda>(ns, nm, bg, en). nat (en - bg + 1))") auto

declare bisect.simps [simp del]

definition query :: "string \<Rightarrow> handle_global \<Rightarrow> u32" where
  "query nm H =
     (case bisect (names H) nm 0 (name_count H - 1) of
        Inl mid \<Rightarrow> nm_handle (names H ! nat mid) | Inr _ \<Rightarrow> 0)"

definition insert_before :: "string \<Rightarrow> u32 \<Rightarrow> int \<Rightarrow> handle_global \<Rightarrow> handle_global" where
  "insert_before nm h pos H =
     (let p = nat pos; c = nat (name_count H);
          H1 = (if name_count H \<ge> name_cap H then
                  let nc = name_cap H * 2;
                      n0 = fold (\<lambda>i n. n[i := names H ! i]) [0..<p] (replicate (nat nc) zero_name);
                      n1 = fold (\<lambda>i n. n[i + 1 := names H ! i]) [p..<c] n0
                  in H\<lparr>name_cap := nc, names := n1\<rparr>
                else H\<lparr>names := fold (\<lambda>i n. n[i := n ! (i - 1)]) (rev [p + 1..<c + 1]) (names H)\<rparr>)
      in H1\<lparr>names := (names H1)[p := \<lparr>nm_name = nm, nm_handle = h\<rparr>], name_count := name_count H + 1\<rparr>)"

definition insert_name :: "string \<Rightarrow> u32 \<Rightarrow> handle_global \<Rightarrow> u32 \<times> handle_global" where
  "insert_name nm h H =
     (case bisect (names H) nm 0 (name_count H - 1) of
        Inl _ \<Rightarrow> (0, H)
      | Inr bg \<Rightarrow> (h, insert_before nm h bg H))"

definition handle_name_op :: "string \<Rightarrow> u32 \<Rightarrow> handle_global \<Rightarrow> u32 \<times> handle_global" where
  "handle_name_op nm h H = (if h = 0 then (query nm H, H) else insert_name nm h H)"

text \<open>\<open>handle_unit\<close>: the names it frees.\<close>

definition handle_unit :: "handle_global \<Rightarrow> string list" where
  "handle_unit H = map nm_name (take (nat (name_count H)) (names H))"

section \<open>The table as a finite map\<close>

text \<open>
  Entries of the registry: a handle in use maps to its reference count and its service.
\<close>

definition registered :: "handle_global \<Rightarrow> u32 \<rightharpoonup> int \<times> addr" where
  "registered H h =
     (let s = h_slot H ! slot_index h (h_cap H) in
      if h \<noteq> 0 \<and> sl_handle s = h then Some (sl_ref s, sl_ctx s) else None)"

definition handle_inv :: "handle_global \<Rightarrow> bool" where
  "handle_inv H \<longleftrightarrow>
     (\<exists>k. 2 \<le> k \<and> k < 31 \<and> h_cap H = 2 ^ k) \<and>
     length (h_slot H) = nat (h_cap H) \<and>
     h_n H = int (length (filter (\<lambda>s. sl_handle s \<noteq> 0) (h_slot H))) \<and>
     (\<forall>i<length (h_slot H). let s = h_slot H ! i in sl_handle s \<noteq> 0 \<longrightarrow>
        slot_index (sl_handle s) (h_cap H) = i \<and> sl_ref s > 0 \<and> sl_ctx s \<noteq> 0) \<and>
     harbor H AND 0xffffff = 0"

lemma slot_index_pow: "slot_index h (2 ^ k) = unat h mod 2 ^ k"
proof -
  have "(word_of_int (2 ^ k - 1) :: u32) = mask k"
    by (simp add: mask_eq_exp_minus_1)
  then show ?thesis by (simp add: slot_index_def unat_and_mask)
qed


lemma handle_invD:
  assumes "handle_inv H"
  shows "slot_index h (h_cap H) < length (h_slot H)"
    and "length (h_slot H) = nat (h_cap H)"
    and "i < length (h_slot H) \<Longrightarrow> sl_handle (h_slot H ! i) \<noteq> 0 \<Longrightarrow>
      slot_index (sl_handle (h_slot H ! i)) (h_cap H) = i \<and> sl_ref (h_slot H ! i) > 0 \<and>
      sl_ctx (h_slot H ! i) \<noteq> 0"
    and "h_n H = int (length (filter (\<lambda>s. sl_handle s \<noteq> 0) (h_slot H)))"
  using assms by (auto simp: handle_inv_def slot_index_pow Let_def nat_power_eq)

lemma registered_SomeD:
  assumes "handle_inv H" "registered H h = Some (r, c)"
  shows "h \<noteq> 0" "h_slot H ! slot_index h (h_cap H) = \<lparr>sl_handle = h, sl_ref = r, sl_ctx = c\<rparr>"
    "0 < r" "c \<noteq> 0"
  using assms handle_invD(1) [OF assms(1), of h] handle_invD(3) [OF assms(1), of "slot_index h (h_cap H)"]
  by (auto simp: registered_def Let_def split: if_splits)

text \<open>Overwriting the slot of \<open>h\<close>.\<close>

definition put_slot :: "u32 \<Rightarrow> handle_slot \<Rightarrow> handle_global \<Rightarrow> handle_global" where
  "put_slot h s H = H\<lparr>h_slot := (h_slot H)[slot_index h (h_cap H) := s]\<rparr>"

lemma registered_put:
  assumes "handle_inv H" "sl_handle (h_slot H ! slot_index h (h_cap H)) \<in> {0, h}" "sl_handle s \<in> {0, h}"
    "h \<noteq> 0"
  shows "registered (put_slot h s H) =
    (registered H)(h := (if sl_handle s = h then Some (sl_ref s, sl_ctx s) else None))"
proof
  fix x
  show "registered (put_slot h s H) x =
    ((registered H)(h := (if sl_handle s = h then Some (sl_ref s, sl_ctx s) else None))) x"
    using assms handle_invD(1) [OF assms(1)]
    by (cases "slot_index x (h_cap H) = slot_index h (h_cap H)")
      (auto simp: registered_def put_slot_def Let_def)
qed

lemma handle_inv_put:
  assumes "handle_inv H" "sl_handle s \<in> {0, h}" "sl_handle s \<noteq> 0 \<Longrightarrow> sl_ref s > 0 \<and> sl_ctx s \<noteq> 0"
    "d = (if sl_handle s \<noteq> 0 then 1 else 0)
       - (if sl_handle (h_slot H ! slot_index h (h_cap H)) \<noteq> 0 then 1 else (0::int))"
  shows "handle_inv ((put_slot h s H)\<lparr>h_n := h_n H + d\<rparr>)"
proof -
  let ?i = "slot_index h (h_cap H)" and ?P = "\<lambda>s. sl_handle s \<noteq> 0"
  note inv = handle_invD [OF assms(1)]
  from length_filter_update [OF inv(1) [of h], of ?P s]
  have "int (length (filter ?P ((h_slot H)[?i := s]))) = h_n H + d"
    unfolding inv(4) assms(4) by (auto split: if_splits)
  moreover have "slot_index (sl_handle (((h_slot H)[?i := s]) ! j)) (h_cap H) = j \<and>
      sl_ref (((h_slot H)[?i := s]) ! j) > 0 \<and> sl_ctx (((h_slot H)[?i := s]) ! j) \<noteq> 0"
    if "j < length (h_slot H)" "sl_handle (((h_slot H)[?i := s]) ! j) \<noteq> 0" for j
    using that assms(2,3) inv(1) [of h] inv(3) [of j] by (cases "j = ?i") auto
  ultimately show ?thesis using assms(1) by (auto simp: handle_inv_def put_slot_def Let_def)
qed

section \<open>Grabbing and releasing\<close>

abbreviation hkey :: "u32 \<Rightarrow> u32" where
  "hkey h \<equiv> h AND 0xffffff"

lemma handle_grab_spec:
  assumes "handle_inv H" "hkey h \<noteq> 0"
  shows "case registered H (hkey h) of None \<Rightarrow> handle_grab h H = (0, H)
    | Some (r, c) \<Rightarrow> \<exists>H'. handle_grab h H = (c, H') \<and> handle_inv H' \<and>
        registered H' = (registered H)(hkey h \<mapsto> (r + 1, c))"
proof (cases "registered H (hkey h)")
  case None
  with assms(2) show ?thesis by (auto simp: registered_def handle_grab_def Let_def split: if_splits)
next
  case (Some rc)
  then obtain r c where s: "registered H (hkey h) = Some (r, c)" by (cases rc) auto
  note d = registered_SomeD [OF assms(1) s]
  let ?s = "\<lparr>sl_handle = hkey h, sl_ref = r + 1, sl_ctx = c\<rparr>"
  have "handle_grab h H = (c, put_slot (hkey h) ?s H)"
    using d(2) by (simp add: handle_grab_def put_slot_def Let_def)
  moreover have "handle_inv (put_slot (hkey h) ?s H)"
    using handle_inv_put [OF assms(1), of ?s "hkey h" 0] d by (simp add: put_slot_def)
  ultimately show ?thesis using s d registered_put [OF assms(1), of "hkey h" ?s] by simp
qed

lemma handle_release_spec:
  assumes "handle_inv H" "hkey h \<noteq> 0"
  shows "case registered H (hkey h) of None \<Rightarrow> handle_release h H = (0, [], H)
    | Some (r, c) \<Rightarrow> \<exists>H'. handle_inv H' \<and>
        (if r > 1 then handle_release h H = (c, [], H') \<and>
            registered H' = (registered H)(hkey h \<mapsto> (r - 1, c))
         else handle_release h H = (0, [c], H') \<and> registered H' = (registered H)(hkey h := None))"
proof (cases "registered H (hkey h)")
  case None
  with assms(2) have "sl_handle (h_slot H ! slot_index (hkey h) (h_cap H)) \<noteq> hkey h"
    by (auto simp: registered_def Let_def split: if_splits)
  with None show ?thesis
    by (simp add: handle_release_def handle_release_ref_def handle_remove_def Let_def)
next
  case (Some rc)
  then obtain r c where s: "registered H (hkey h) = Some (r, c)" by (cases rc) auto
  note d = registered_SomeD [OF assms(1) s]
  note i = handle_invD(1) [OF assms(1), of "hkey h"]
  let ?s = "\<lparr>sl_handle = hkey h, sl_ref = r - 1, sl_ctx = c\<rparr>"
  let ?z = "\<lparr>sl_handle = 0, sl_ref = r - 1, sl_ctx = c\<rparr>"
  show ?thesis
  proof (cases "r > 1")
    case True
    have "handle_release h H = (c, [], put_slot (hkey h) ?s H)"
      using d True by (simp add: handle_release_def handle_release_ref_def put_slot_def Let_def)
    moreover have "handle_inv (put_slot (hkey h) ?s H)"
      using handle_inv_put [OF assms(1), of ?s "hkey h" 0] d True by (simp add: put_slot_def)
    ultimately show ?thesis using True s d registered_put [OF assms(1), of "hkey h" ?s] by simp
  next
    case False
    with d(3) have r: "r = 1" by simp
    let ?H = "(put_slot (hkey h) ?z H)\<lparr>h_n := h_n H + -1\<rparr>"
    have "handle_release h H = (0, [c], ?H)"
      using d r i by (simp add: handle_release_def handle_release_ref_def handle_remove_def
          put_slot_def Let_def)
    moreover have "handle_inv ?H"
      using handle_inv_put [OF assms(1), of ?z "hkey h" "-1"] d by simp
    moreover have "registered ?H = registered (put_slot (hkey h) ?z H)"
      by (simp add: fun_eq_iff registered_def put_slot_def)
    ultimately show ?thesis
      using False s d registered_put [OF assms(1), of "hkey h" ?z] by simp
  qed
qed


section \<open>The reference-counting contract\<close>

text \<open>
  What the registry promises the code that holds services: a finite map from keys to reference
  counts and services, in which a grab counts up and a release counts down and frees the
  service when the last reference goes. Sequences of both are run on the map and on the table.
\<close>

datatype 'h ref_op = Grab 'h | Release 'h

type_synonym ('h, 'c) ref_map = "'h \<rightharpoonup> int \<times> 'c"

fun ref_step :: "'h ref_op \<Rightarrow> ('h, 'c) ref_map \<Rightarrow> 'c option \<times> 'c list \<times> ('h, 'c) ref_map" where
  "ref_step (Grab h) m =
     (case m h of None \<Rightarrow> (None, [], m) | Some (r, c) \<Rightarrow> (Some c, [], m(h \<mapsto> (r + 1, c))))"
| "ref_step (Release h) m =
     (case m h of None \<Rightarrow> (None, [], m)
      | Some (r, c) \<Rightarrow> if r > 1 then (Some c, [], m(h \<mapsto> (r - 1, c))) else (None, [c], m(h := None)))"

fun ref_run :: "'h ref_op list \<Rightarrow> ('h, 'c) ref_map \<Rightarrow> 'c option list \<times> 'c list \<times> ('h, 'c) ref_map" where
  "ref_run [] m = ([], [], m)"
| "ref_run (x # xs) m =
     (let (r, fr, m1) = ref_step x m; (rs, frs, m2) = ref_run xs m1 in (r # rs, fr @ frs, m2))"

text \<open>References to \<open>h\<close> that a sequence adds, and that it never drops the last one.\<close>

fun ref_gain :: "'h \<Rightarrow> 'h ref_op list \<Rightarrow> int" where
  "ref_gain h [] = 0"
| "ref_gain h (Grab x # xs) = (if x = h then 1 else 0) + ref_gain h xs"
| "ref_gain h (Release x # xs) = (if x = h then - 1 else 0) + ref_gain h xs"

fun ref_kept :: "'h \<Rightarrow> int \<Rightarrow> 'h ref_op list \<Rightarrow> bool" where
  "ref_kept h r [] = True"
| "ref_kept h r (Grab x # xs) = ref_kept h (if x = h then r + 1 else r) xs"
| "ref_kept h r (Release x # xs) =
     (if x = h then r > 1 \<and> ref_kept h (r - 1) xs else ref_kept h r xs)"

lemma ref_step_kept:
  "m h = Some (r, c) \<Longrightarrow> ref_kept h r (x # ops) \<Longrightarrow>
     \<exists>r'. snd (snd (ref_step x m)) h = Some (r', c) \<and> ref_kept h r' ops \<and>
       r' + ref_gain h ops = r + ref_gain h (x # ops)"
  by (cases x) (auto split: option.splits prod.splits if_splits)

lemma ref_run_kept:
  "m h = Some (r, c) \<Longrightarrow> ref_kept h r ops \<Longrightarrow>
     snd (snd (ref_run ops m)) h = Some (r + ref_gain h ops, c)"
proof (induction ops arbitrary: m r)
  case (Cons x ops)
  have "snd (snd (ref_run (x # ops) m)) = snd (snd (ref_run ops (snd (snd (ref_step x m)))))"
    by (simp split: prod.splits)
  with ref_step_kept [of m h r c x ops] Cons show ?case by fastforce
qed simp

locale ref_table =
  fixes tab_inv :: "'t \<Rightarrow> bool"
    and key :: "'h \<Rightarrow> 'h"
    and valid :: "'h \<Rightarrow> bool"
    and look :: "'t \<Rightarrow> ('h, 'c) ref_map"
    and step :: "'h ref_op \<Rightarrow> 't \<Rightarrow> 'c option \<times> 'c list \<times> 't"
  assumes step_refines: "tab_inv t \<Longrightarrow> valid h \<Longrightarrow> x = Grab h \<or> x = Release h \<Longrightarrow>
      \<exists>r fr t'. step x t = (r, fr, t') \<and> tab_inv t' \<and>
        ref_step (map_ref_op key x) (look t) = (r, fr, look t')"
begin

fun tab_run :: "'h ref_op list \<Rightarrow> 't \<Rightarrow> 'c option list \<times> 'c list \<times> 't" where
  "tab_run [] t = ([], [], t)"
| "tab_run (x # xs) t =
     (let (r, fr, t1) = step x t; (rs, frs, t2) = tab_run xs t1 in (r # rs, fr @ frs, t2))"

lemma tab_run_refines:
  "tab_inv t \<Longrightarrow> \<forall>x\<in>set ops. \<forall>h\<in>set_ref_op x. valid h \<Longrightarrow>
     \<exists>rs fr t'. tab_run ops t = (rs, fr, t') \<and> tab_inv t' \<and>
       ref_run (map (map_ref_op key) ops) (look t) = (rs, fr, look t')"
proof (induction ops arbitrary: t)
  case (Cons x ops)
  then obtain h where "x = Grab h \<or> x = Release h" "valid h" by (cases x) auto
  with Cons.prems(1) step_refines obtain r fr t1 where
    x: "step x t = (r, fr, t1)" "tab_inv t1" "ref_step (map_ref_op key x) (look t) = (r, fr, look t1)"
    by blast
  from Cons.IH [OF x(2)] Cons.prems(2) obtain rs frs t2 where
    "tab_run ops t1 = (rs, frs, t2)" "tab_inv t2"
    "ref_run (map (map_ref_op key) ops) (look t1) = (rs, frs, look t2)" by auto
  with x show ?case by simp
qed simp

lemma tab_held:
  assumes "tab_inv t" "\<forall>x\<in>set ops. \<forall>h\<in>set_ref_op x. valid h" "look t k = Some (r, c)"
    "ref_kept k r (map (map_ref_op key) ops)"
  shows "\<exists>rs fr t'. tab_run ops t = (rs, fr, t') \<and> tab_inv t' \<and>
    look t' k = Some (r + ref_gain k (map (map_ref_op key) ops), c)"
proof -
  from tab_run_refines [OF assms(1,2)] obtain rs fr t' where
    t: "tab_run ops t = (rs, fr, t')" "tab_inv t'"
      "ref_run (map (map_ref_op key) ops) (look t) = (rs, fr, look t')" by blast
  from ref_run_kept [of "look t" k r c, OF assms(3,4)] t show ?thesis by simp
qed

end

text \<open>The two operations of the table with their results: null is \<open>None\<close>.\<close>

fun handle_ref_op :: "u32 ref_op \<Rightarrow> handle_global \<Rightarrow> addr option \<times> addr list \<times> handle_global" where
  "handle_ref_op (Grab h) H =
     (let (c, H') = handle_grab h H in (if c = 0 then None else Some c, [], H'))"
| "handle_ref_op (Release h) H =
     (let (c, fr, H') = handle_release h H in (if c = 0 then None else Some c, fr, H'))"

interpretation hdl: ref_table handle_inv "\<lambda>h. h AND 0xffffff" "\<lambda>h. h AND 0xffffff \<noteq> 0"
  registered handle_ref_op
proof (unfold_locales, elim disjE)
  fix t h and x :: "u32 ref_op"
  assume inv: "handle_inv t" and h: "hkey h \<noteq> 0"
  show "\<exists>r fr t'. handle_ref_op x t = (r, fr, t') \<and> handle_inv t' \<and>
      ref_step (map_ref_op hkey x) (registered t) = (r, fr, registered t')" if "x = Grab h"
  proof (cases "registered t (hkey h)")
    case None
    with handle_grab_spec [OF inv h] inv that show ?thesis by simp
  next
    case (Some rc)
    then obtain r c where s: "registered t (hkey h) = Some (r, c)" by (cases rc) auto
    with handle_grab_spec [OF inv h] registered_SomeD [OF inv s] that show ?thesis by auto
  qed
  show "\<exists>r fr t'. handle_ref_op x t = (r, fr, t') \<and> handle_inv t' \<and>
      ref_step (map_ref_op hkey x) (registered t) = (r, fr, registered t')" if "x = Release h"
  proof (cases "registered t (hkey h)")
    case None
    with handle_release_spec [OF inv h] inv that show ?thesis by simp
  next
    case (Some rc)
    then obtain r c where s: "registered t (hkey h) = Some (r, c)" by (cases rc) auto
    with handle_release_spec [OF inv h] registered_SomeD [OF inv s] that show ?thesis
      by (auto split: if_splits)
  qed
qed


section \<open>Growing the table\<close>

lemma fold_store_length [simp]: "length (fold (\<lambda>x ys. ys[f x := x]) xs ys) = length ys"
  by (induction xs arbitrary: ys) simp_all

lemma fold_store_nth:
  "j < length ys \<Longrightarrow> fold (\<lambda>x ys. ys[f x := x]) xs ys ! j =
     (if filter (\<lambda>x. f x = j) xs = [] then ys ! j else last (filter (\<lambda>x. f x = j) xs))"
  by (induction xs arbitrary: ys) (auto simp: nth_list_update)

lemma filter_only:
  "i < length xs \<Longrightarrow> P (xs ! i) \<Longrightarrow> (\<And>j. j < length xs \<Longrightarrow> P (xs ! j) \<Longrightarrow> j = i) \<Longrightarrow>
     filter P xs = [xs ! i]"
proof (induction xs arbitrary: i)
  case (Cons x xs)
  show ?case
  proof (cases i)
    case 0
    have "\<not> P y" if y: "y \<in> set xs" for y
    proof
      assume "P y"
      from y obtain j where "j < length xs" "xs ! j = y" by (auto simp: in_set_conv_nth)
      with Cons.prems(3) [of "Suc j"] \<open>P y\<close> 0 show False by simp
    qed
    with 0 Cons.prems show ?thesis by simp
  next
    case (Suc k)
    with Cons.prems(3) [of 0] have "\<not> P x" by auto
    moreover have "filter P xs = [xs ! k]"
      using Cons.prems Suc by (intro Cons.IH) (auto dest: Cons.prems(3) [of "Suc _", simplified])
    ultimately show ?thesis using Suc by simp
  qed
qed simp

lemma slot_index_double:
  assumes "slot_index h (2 ^ k * 2) = j"
  shows "slot_index h (2 ^ k) = j mod 2 ^ k"
proof -
  have "unat h mod (2 ^ k * 2) mod 2 ^ k = unat h mod 2 ^ k"
    by (rule mod_mod_cancel) simp
  moreover have "(2 ^ k * 2 :: int) = 2 ^ Suc k" by simp
  ultimately show ?thesis
    using assms slot_index_pow [of h "Suc k"] slot_index_pow [of h k] by (simp add: mult.commute)
qed

lemma slot_index_bound: "slot_index h (2 ^ k) < 2 ^ k"
  by (simp add: slot_index_pow)

lemma slot_index_zero [simp]: "slot_index 0 c = 0"
  by (simp add: slot_index_def)

text \<open>
  What growth leaves in the new slot of a handle: its old entry, except that every empty slot
  is copied to slot \<open>0\<close>, over whatever was put there before.
\<close>

lemma handle_expand_slot:
  assumes inv: "handle_inv H" and h: "h \<noteq> 0"
  shows "registered (handle_expand H) h =
    (if slot_index h (h_cap H * 2) = 0 \<and> (\<exists>i. 0 < i \<and> i < length (h_slot H) \<and> sl_handle (h_slot H ! i) = 0)
     then None else registered H h)"
proof -
  from inv obtain k where k: "h_cap H = 2 ^ k" by (auto simp: handle_inv_def)
  let ?f = "\<lambda>os. slot_index (sl_handle os) (h_cap H * 2)"
  let ?j = "slot_index h (h_cap H * 2)" and ?xs = "h_slot H"
  let ?i = "slot_index h (h_cap H)"
  let ?L = "filter (\<lambda>os. ?f os = ?j) ?xs"
  have len: "length ?xs = 2 ^ k" using handle_invD(2) [OF inv] k by (simp add: nat_power_eq)
  have i: "?i < length ?xs" using handle_invD(1) [OF inv] .
  have ij: "?i = ?j mod 2 ^ k" using slot_index_double [of h k] k by simp
  have jlt: "?j < 2 ^ Suc k" using slot_index_bound [of h "Suc k"] k by (simp add: mult.commute)
  have only: "l = ?i" if "l < length ?xs" "?f (?xs ! l) = ?j" "sl_handle (?xs ! l) \<noteq> 0" for l
    using handle_invD(3) [OF inv that(1,3)] slot_index_double [of "sl_handle (?xs ! l)" k ?j] that(2) k ij
    by simp
  have new: "h_slot (handle_expand H) ! ?j = (if ?L = [] then zero_slot else last ?L)"
    using jlt k by (simp add: handle_expand_def Let_def fold_store_nth nat_mult_distrib nat_power_eq
        mult.commute)
  then have reg: "registered (handle_expand H) h =
      (let s = (if ?L = [] then zero_slot else last ?L) in
       if sl_handle s = h then Some (sl_ref s, sl_ctx s) else None)"
    using h by (simp add: registered_def handle_expand_def Let_def)
  show ?thesis
  proof (cases "\<exists>l. ?j = 0 \<and> 0 < l \<and> l < length ?xs \<and> sl_handle (?xs ! l) = 0")
    case True
    then obtain l where l: "?j = 0" "0 < l" "l < length ?xs" "sl_handle (?xs ! l) = 0" by blast
    obtain x xs where xs: "?xs = x # xs" using l(3) by (cases ?xs) auto
    have e: "sl_handle y = 0" if "y \<in> set (filter (\<lambda>os. ?f os = ?j) xs)" for y
    proof -
      from that obtain m where m: "m < length xs" "xs ! m = y" "?f y = ?j"
        by (auto simp: in_set_conv_nth)
      with only [of "Suc m"] xs ij l(1) show ?thesis by auto
    qed
    have "?xs ! l \<in> set xs" using l xs by (cases l) auto
    then have "?xs ! l \<in> set (filter (\<lambda>os. ?f os = ?j) xs)" using l by simp
    then have ne: "filter (\<lambda>os. ?f os = ?j) xs \<noteq> []" by (metis empty_iff list.set(1))
    have "last ?L = last (filter (\<lambda>os. ?f os = ?j) xs)" using ne by (auto simp: xs)
    with e [of "last ?L"] ne have "sl_handle (last ?L) = 0" by (metis last_in_set)
    moreover have "?L \<noteq> []" using ne by (auto simp: xs)
    ultimately have "registered (handle_expand H) h = None" using h reg by (simp add: Let_def)
    with True show ?thesis by auto
  next
    case False
    have "?L = (if ?f (?xs ! ?i) = ?j then [?xs ! ?i] else [])"
    proof -
      have one: "l = ?i" if "l < length ?xs" "?f (?xs ! l) = ?j" for l
      proof (cases "sl_handle (?xs ! l) = 0")
        case True
        then have "?j = 0" using that by simp
        have "\<not> 0 < l"
        proof
          assume "0 < l"
          with \<open>?j = 0\<close> True that(1)
          have "\<exists>l. ?j = 0 \<and> 0 < l \<and> l < length ?xs \<and> sl_handle (?xs ! l) = 0" by (intro exI conjI)
          with False show False ..
        qed
        with \<open>?j = 0\<close> ij show ?thesis by simp
      qed (use only that in blast)
      show ?thesis
      proof (cases "?f (?xs ! ?i) = ?j")
        case True
        with filter_only [OF i, of "\<lambda>os. ?f os = ?j"] one show ?thesis by simp
      next
        case False
        with one have "\<forall>x\<in>set ?xs. ?f x \<noteq> ?j" by (metis in_set_conv_nth)
        with False show ?thesis by (simp add: filter_empty_conv)
      qed
    qed
    moreover have "sl_handle (?xs ! ?i) = h \<Longrightarrow> ?f (?xs ! ?i) = ?j" by simp
    ultimately have "registered (handle_expand H) h = registered H h"
      unfolding reg using h by (auto simp: registered_def Let_def zero_slot_def)
    with False show ?thesis by auto
  qed
qed


lemma registered_count:
  assumes "\<And>i. i < length (h_slot H) \<Longrightarrow> sl_handle (h_slot H ! i) \<noteq> 0 \<Longrightarrow>
      slot_index (sl_handle (h_slot H ! i)) (h_cap H) = i"
    and "\<And>h. slot_index h (h_cap H) < length (h_slot H)"
  shows "length (filter (\<lambda>s. sl_handle s \<noteq> 0) (h_slot H)) = card (dom (registered H))"
proof -
  let ?I = "{i. i < length (h_slot H) \<and> sl_handle (h_slot H ! i) \<noteq> 0}"
  let ?g = "\<lambda>i. sl_handle (h_slot H ! i)"
  have "dom (registered H) = ?g ` ?I"
  proof (intro set_eqI iffI)
    fix h
    assume "h \<in> dom (registered H)"
    then have "slot_index h (h_cap H) \<in> ?I" "h = ?g (slot_index h (h_cap H))"
      using assms(2) by (auto simp: registered_def Let_def split: if_splits)
    then show "h \<in> ?g ` ?I" by blast
  next
    fix h
    assume "h \<in> ?g ` ?I"
    with assms(1) show "h \<in> dom (registered H)" by (auto simp: registered_def Let_def)
  qed
  moreover have "inj_on ?g ?I"
    by (rule inj_onI) (metis (mono_tags, lifting) assms(1) mem_Collect_eq)
  ultimately show ?thesis by (simp add: length_filter_conv_card card_image)
qed

definition growth_safe :: "handle_global \<Rightarrow> bool" where
  "growth_safe H \<longleftrightarrow>
     (\<forall>h. registered H h \<noteq> None \<longrightarrow> slot_index h (h_cap H * 2) \<noteq> 0) \<or>
     (\<forall>i. 0 < i \<and> i < length (h_slot H) \<longrightarrow> sl_handle (h_slot H ! i) \<noteq> 0)"

lemma expand_store_in:
  "j < length ys \<Longrightarrow> P (ys ! j) \<Longrightarrow> (\<And>x. x \<in> set xs \<Longrightarrow> f x = j \<Longrightarrow> P x) \<Longrightarrow>
     P (fold (\<lambda>x ys. ys[f x := x]) xs ys ! j)"
proof (induction xs arbitrary: ys)
  case (Cons x xs)
  have "P (ys[f x := x] ! j)" using Cons.prems by (cases "f x = j") (simp_all add: nth_list_update)
  with Cons.IH [of "ys[f x := x]"] Cons.prems show ?case by simp
qed simp

lemma handle_expand_safe:
  assumes inv: "handle_inv H" and safe: "growth_safe H" and small: "h_cap H < 2 ^ 30"
  shows "handle_inv (handle_expand H) \<and> registered (handle_expand H) = registered H"
proof -
  let ?E = "handle_expand H"
  have reg: "registered ?E = registered H"
  proof
    fix h
    show "registered ?E h = registered H h"
    proof (cases "h = 0")
      case False
      with handle_expand_slot [OF inv False] safe show ?thesis
        unfolding growth_safe_def by (metis (no_types, lifting))
    qed (simp add: registered_def)
  qed
  from inv obtain k where k: "h_cap H = 2 ^ k" "2 \<le> k" by (auto simp: handle_inv_def)
  have "k < 30"
    by (rule power_less_imp_less_exp [of "2 :: int"]) (use small k in auto)
  have cap: "h_cap ?E = 2 ^ Suc k" by (simp add: handle_expand_def Let_def k)
  have len: "length (h_slot ?E) = nat (h_cap ?E)" by (simp add: handle_expand_def Let_def)
  let ?Q = "\<lambda>i s. sl_handle s \<noteq> 0 \<longrightarrow>
      slot_index (sl_handle s) (h_cap ?E) = i \<and> sl_ref s > 0 \<and> sl_ctx s \<noteq> 0"
  have slots: "?Q i (h_slot ?E ! i)" if "i < length (h_slot ?E)" for i
  proof -
    let ?f = "\<lambda>os. slot_index (sl_handle os) (h_cap H * 2)"
    have E: "h_slot ?E = fold (\<lambda>x ys. ys[?f x := x]) (h_slot H) (replicate (nat (h_cap H * 2)) zero_slot)"
      "h_cap ?E = h_cap H * 2" by (simp_all add: handle_expand_def Let_def)
    have "?Q i (fold (\<lambda>x ys. ys[?f x := x]) (h_slot H) (replicate (nat (h_cap H * 2)) zero_slot) ! i)"
    proof (rule expand_store_in)
      show "i < length (replicate (nat (h_cap H * 2)) zero_slot)" using that len E(2) by simp
      then show "?Q i (replicate (nat (h_cap H * 2)) zero_slot ! i)" by (simp add: zero_slot_def)
    next
      fix x
      assume "x \<in> set (h_slot H)" "?f x = i"
      then show "?Q i x" using handle_invD(3) [OF inv] E(2) by (auto simp: in_set_conv_nth)
    qed
    then show ?thesis unfolding E(1) .
  qed
  have bnd: "slot_index h (h_cap ?E) < length (h_slot ?E)" for h
    using slot_index_bound [of h "Suc k"] by (simp only: len cap nat_power_eq) simp
  have "length (filter (\<lambda>s. sl_handle s \<noteq> 0) (h_slot ?E)) = card (dom (registered H))"
    using registered_count [of ?E] slots bnd reg by auto
  moreover have "length (filter (\<lambda>s. sl_handle s \<noteq> 0) (h_slot H)) = card (dom (registered H))"
    using registered_count [of H] handle_invD [OF inv] by auto
  moreover have "h_n ?E = h_n H" "harbor ?E = harbor H" by (simp_all add: handle_expand_def Let_def)
  ultimately have "handle_inv ?E"
    using inv slots len cap \<open>k < 30\<close> k(2) unfolding handle_inv_def Let_def
    by (intro conjI exI [of _ "Suc k"]) auto
  with reg show ?thesis by blast
qed


section \<open>Registering a service\<close>

definition store_at :: "u32 \<Rightarrow> addr \<Rightarrow> handle_global \<Rightarrow> handle_global" where
  "store_at hid ctx H = (put_slot hid \<lparr>sl_handle = hid, sl_ref = 1, sl_ctx = ctx\<rparr> H)\<lparr>last_id := hid, h_n := h_n H + 1\<rparr>"

lemma regist_loop_spec:
  assumes "w \<noteq> 0" "sl_handle (h_slot H ! slot_index w (h_cap H)) = 0"
  shows "\<exists>hid. hid \<noteq> 0 \<and> sl_handle (h_slot H ! slot_index hid (h_cap H)) = 0 \<and>
    regist_loop ctx H = Some (hid OR harbor H, store_at hid ctx H)"
  using assms
proof (induction "unat (w - (last_id H + 1))" arbitrary: H rule: less_induct)
  case less
  define hid where "hid = (if last_id H + 1 = 0 then last_id H + 1 + 1 else last_id H + 1)"
  have hid0: "hid \<noteq> 0" by (simp add: hid_def)
  show ?case
  proof (cases "sl_handle (h_slot H ! slot_index hid (h_cap H)) = 0")
    case True
    then have "regist_loop ctx H = Some (hid OR harbor H, store_at hid ctx H)"
      by (subst regist_loop.simps) (simp add: hid_def [symmetric] Let_def store_at_def put_slot_def)
    with True hid0 show ?thesis by blast
  next
    case False
    let ?H = "H\<lparr>last_id := hid\<rparr>"
    have step: "regist_loop ctx H = regist_loop ctx ?H"
      using False by (subst regist_loop.simps) (simp add: hid_def [symmetric] Let_def)
    from False less.prems have "hid \<noteq> w" by auto
    then have ne: "w - hid \<noteq> 0" by simp
    have "unat (w - (hid + 1)) < unat (w - (last_id H + 1))"
    proof (cases "last_id H + 1 = 0")
      case True
      then have "hid = 1" by (simp add: hid_def)
      have "unat (w - 1) = unat w - 1" using less.prems(1) by (rule unat_minus_one)
      moreover have "unat (w - 1 - 1) = unat (w - 1) - 1" using ne \<open>hid = 1\<close> by (intro unat_minus_one) simp
      moreover have "0 < unat w" using less.prems(1) by (simp add: unat_gt_0)
      moreover have "w - (hid + 1) = w - 1 - 1" using \<open>hid = 1\<close> by simp
      ultimately show ?thesis using True by simp
    next
      case False
      then have "hid = last_id H + 1" by (simp add: hid_def)
      moreover have "unat (w - hid - 1) = unat (w - hid) - 1" using ne by (rule unat_minus_one)
      moreover have "0 < unat (w - hid)" using ne by (simp add: unat_gt_0)
      ultimately show ?thesis by (simp add: diff_diff_eq)
    qed
    then have "\<exists>x. x \<noteq> 0 \<and> sl_handle (h_slot ?H ! slot_index x (h_cap ?H)) = 0 \<and>
        regist_loop ctx ?H = Some (x OR harbor ?H, store_at x ctx ?H)"
      by (intro less.hyps) (use less.prems in simp_all)
    moreover have "store_at x ctx ?H = store_at x ctx H" for x by (simp add: store_at_def put_slot_def)
    ultimately show ?thesis using step by simp
  qed
qed

lemma store_at_spec:
  assumes inv: "handle_inv H" and hid: "hid \<noteq> 0" "sl_handle (h_slot H ! slot_index hid (h_cap H)) = 0"
    and ctx: "ctx \<noteq> 0"
  shows "handle_inv (store_at hid ctx H)" "registered H hid = None"
    "registered (store_at hid ctx H) = (registered H)(hid \<mapsto> (1, ctx))"
proof -
  let ?s = "\<lparr>sl_handle = hid, sl_ref = 1, sl_ctx = ctx\<rparr>"
  have "handle_inv ((put_slot hid ?s H)\<lparr>h_n := h_n H + 1\<rparr>)"
    using handle_inv_put [OF inv, of ?s hid 1] hid ctx by simp
  then show "handle_inv (store_at hid ctx H)"
    by (simp add: store_at_def handle_inv_def)
  show "registered H hid = None" using hid by (simp add: registered_def)
  have "registered (store_at hid ctx H) = registered (put_slot hid ?s H)"
    by (simp add: store_at_def registered_def fun_eq_iff)
  then show "registered (store_at hid ctx H) = (registered H)(hid \<mapsto> (1, ctx))"
    using registered_put [OF inv, of hid ?s] hid by simp
qed

lemma free_slot:
  assumes inv: "handle_inv H" and n: "h_n H < h_cap H"
  shows "\<exists>w. w \<noteq> 0 \<and> sl_handle (h_slot H ! slot_index w (h_cap H)) = 0"
proof -
  from inv obtain k where k: "h_cap H = 2 ^ k" "k < 31" by (auto simp: handle_inv_def)
  have "length (filter (\<lambda>s. sl_handle s \<noteq> 0) (h_slot H)) < length (h_slot H)"
    using n handle_invD(2,4) [OF inv] by simp
  then obtain s where "s \<in> set (h_slot H)" "sl_handle s = 0"
    by (metis (mono_tags, lifting) filter_True less_irrefl)
  then obtain i where i: "i < length (h_slot H)" "sl_handle (h_slot H ! i) = 0"
    by (auto simp: in_set_conv_nth)
  then have ik: "i < 2 ^ k" using handle_invD(2) [OF inv] k by (simp add: nat_power_eq)
  have "(2::nat) ^ k < 2 ^ 31" using k(2) by (intro power_strict_increasing) simp_all
  then have b: "(2::nat) ^ k < 2 ^ 32" by simp
  let ?w = "of_nat (if i = 0 then 2 ^ k else i) :: u32"
  have u: "unat ?w = (if i = 0 then 2 ^ k else i)"
    using ik b by (simp only: unsigned_of_nat) (simp add: take_bit_nat_eq_self)
  then have "?w \<noteq> 0" by (metis power_not_zero unat_0 zero_neq_numeral)
  moreover have "slot_index ?w (h_cap H) = i" using u ik by (simp add: k slot_index_pow)
  ultimately show ?thesis using i(2) by metis
qed

lemma handle_regist_spec:
  assumes inv: "handle_inv H" and ctx: "ctx \<noteq> 0" and small: "h_cap H < 2 ^ 30"
    and safe: "h_n H \<ge> h_cap H * 3 div 4 \<longrightarrow> growth_safe H"
  shows "\<exists>hid H'. handle_regist ctx H = Some (hid OR harbor H, H') \<and> handle_inv H' \<and> hid \<noteq> 0 \<and>
    registered H hid = None \<and> registered H' = (registered H)(hid \<mapsto> (1, ctx))"
proof -
  let ?H = "if h_n H \<ge> h_cap H * 3 div 4 then handle_expand H else H"
  have E: "handle_inv ?H" "registered ?H = registered H" "harbor ?H = harbor H"
    using handle_expand_safe [OF inv _ small] inv safe by (auto simp: handle_expand_def Let_def)
  have cap: "0 < h_cap H" using inv by (auto simp: handle_inv_def)
  have le: "h_n H \<le> h_cap H"
    using handle_invD(2,4) [OF inv] length_filter_le [of "\<lambda>s. sl_handle s \<noteq> 0" "h_slot H"] cap by simp
  have "h_n ?H < h_cap ?H"
    using cap le by (auto simp: handle_expand_def Let_def)
  from free_slot [OF E(1) this] obtain w where
    "w \<noteq> 0" "sl_handle (h_slot ?H ! slot_index w (h_cap ?H)) = 0" by blast
  from regist_loop_spec [OF this, of ctx] obtain hid where hid: "hid \<noteq> 0"
    "sl_handle (h_slot ?H ! slot_index hid (h_cap ?H)) = 0"
    "regist_loop ctx ?H = Some (hid OR harbor ?H, store_at hid ctx ?H)" by blast
  have "handle_regist ctx H = Some (hid OR harbor H, store_at hid ctx ?H)"
    using hid(3) E(3) by (simp add: handle_regist_def)
  with store_at_spec [OF E(1) hid(1,2) ctx] E(2) hid(1) show ?thesis by auto
qed


section \<open>Names as a map\<close>

lemma strcmp_eq_0: "strcmp a b = 0 \<longleftrightarrow> a = b"
  by (induction a b rule: strcmp.induct) auto

lemma strcmp_flip: "strcmp a b < 0 \<longleftrightarrow> 0 < strcmp b a"
proof (induction a b rule: strcmp.induct)
  case (4 x xs y ys)
  have "x \<noteq> y \<Longrightarrow> (of_char x :: nat) \<noteq> of_char y" by simp
  with 4 show ?case by (auto simp: not_less)
qed auto

lemma strcmp_trans: "strcmp a b < 0 \<Longrightarrow> strcmp b c < 0 \<Longrightarrow> strcmp a c < 0"
proof (induction a c arbitrary: b rule: strcmp.induct)
  case (1 b)
  then show ?case by (cases b) auto
next
  case (2 y ys b)
  then show ?case by simp
next
  case (3 x xs b)
  then show ?case by (cases b) auto
next
  case (4 x xs y ys b)
  then show ?case by (cases b) (auto split: if_splits)
qed

definition names_inv :: "handle_global \<Rightarrow> bool" where
  "names_inv H \<longleftrightarrow> 0 \<le> name_count H \<and> name_count H \<le> name_cap H \<and> 0 < name_cap H \<and>
     length (names H) = nat (name_cap H) \<and>
     sorted_wrt (\<lambda>a b. strcmp (nm_name a) (nm_name b) < 0) (take (nat (name_count H)) (names H)) \<and>
     (\<forall>x\<in>set (take (nat (name_count H)) (names H)). nm_handle x \<noteq> 0)"

definition name_map :: "handle_global \<Rightarrow> string \<rightharpoonup> u32" where
  "name_map H = map_of (map (\<lambda>x. (nm_name x, nm_handle x)) (take (nat (name_count H)) (names H)))"

lemma bisect_spec:
  assumes "sorted_wrt (\<lambda>a b. strcmp (nm_name a) (nm_name b) < 0) (take c ns)" "c \<le> length ns"
    and "0 \<le> bg" "en < int c" "bg \<le> en + 1"
    and "\<forall>i<nat bg. strcmp (nm_name (ns ! i)) nm < 0"
    and "\<forall>i. en < int i \<and> i < c \<longrightarrow> 0 < strcmp (nm_name (ns ! i)) nm"
  shows "case bisect ns nm bg en of
      Inl m \<Rightarrow> 0 \<le> m \<and> m < int c \<and> nm_name (ns ! nat m) = nm
    | Inr p \<Rightarrow> 0 \<le> p \<and> p \<le> int c \<and> (\<forall>i<nat p. strcmp (nm_name (ns ! i)) nm < 0) \<and>
        (\<forall>i. p \<le> int i \<and> i < c \<longrightarrow> 0 < strcmp (nm_name (ns ! i)) nm)"
  using assms
proof (induction ns nm bg en rule: bisect.induct)
  case (1 ns nm bg en)
  have lt: "strcmp (nm_name (ns ! i)) (nm_name (ns ! j)) < 0" if "i < j" "j < c" for i j
    using "1.prems"(1,2) that by (auto simp: sorted_wrt_iff_nth_less)
  show ?case
  proof (cases "bg \<le> en")
    case False
    with "1.prems" have "bg = en + 1" by simp
    moreover from False have "bisect ns nm bg en = Inr bg" by (simp add: bisect.simps [of ns nm bg en])
    ultimately show ?thesis using "1.prems" by auto
  next
    case True
    define mid where "mid = (bg + en) div 2"
    define k where "k = strcmp (nm_name (ns ! nat mid)) nm"
    have m: "bg \<le> mid" "mid \<le> en" using True by (auto simp: mid_def)
    with "1.prems"(3,4) have mc: "nat mid < c" "0 \<le> mid" by auto
    have b: "bisect ns nm bg en = (if k = 0 then Inl mid else if k < 0 then bisect ns nm (mid + 1) en
        else bisect ns nm bg (mid - 1))"
      using True by (simp add: bisect.simps [of ns nm bg en] Let_def mid_def k_def)
    consider "k = 0" | "k < 0" | "0 < k" by linarith
    then show ?thesis
    proof cases
      case 1
      with b mc m "1.prems"(4) show ?thesis by (simp add: k_def strcmp_eq_0)
    next
      case 2
      have "strcmp (nm_name (ns ! i)) nm < 0" if "i < nat (mid + 1)" for i
      proof (cases "i = nat mid")
        case False
        with that have "i < nat mid" by linarith
        from lt [OF this mc(1)] 2 show ?thesis by (auto simp: k_def intro: strcmp_trans)
      qed (use 2 in \<open>simp add: k_def\<close>)
      with 2 b m mc "1.prems" True show ?thesis
        using "1.IH"(1) [OF True mid_def k_def] by simp
    next
      case 3
      have "0 < strcmp (nm_name (ns ! i)) nm" if "mid - 1 < int i" "i < c" for i
      proof (cases "i = nat mid")
        case False
        with that mc have "nat mid < i" by linarith
        from lt [OF this that(2)] 3 show ?thesis
          by (metis k_def strcmp_flip strcmp_trans)
      qed (use 3 in \<open>simp add: k_def\<close>)
      with 3 b m mc "1.prems" True show ?thesis
        using "1.IH"(2) [OF True mid_def k_def] by simp
    qed
  qed
qed

lemma set_take_nth: "n \<le> length xs \<Longrightarrow> set (take n xs) = (!) xs ` {..<n}"
  by (metis atLeast_upt list.set_map map_nth_upt)

lemma names_set:
  "names_inv H \<Longrightarrow> set (take (nat (name_count H)) (names H)) = (!) (names H) ` {..<nat (name_count H)}"
  by (rule set_take_nth) (auto simp: names_inv_def)

lemma name_map_some:
  assumes "names_inv H" "i < nat (name_count H)"
  shows "name_map H (nm_name (names H ! i)) = Some (nm_handle (names H ! i))"
proof -
  let ?xs = "take (nat (name_count H)) (names H)"
  have "distinct (map nm_name ?xs)"
    using assms(1) unfolding names_inv_def distinct_conv_nth sorted_wrt_iff_nth_less
    by (metis (no_types, lifting) length_map linorder_neqE_nat nth_map order_less_irrefl strcmp_eq_0)
  then have "distinct (map fst (map (\<lambda>x. (nm_name x, nm_handle x)) ?xs))" by (simp add: comp_def)
  moreover have "names H ! i \<in> set ?xs" using assms by (simp add: names_set)
  ultimately show ?thesis unfolding name_map_def by (intro map_of_is_SomeI) auto
qed

lemma name_map_none:
  assumes "names_inv H" "\<forall>i<nat (name_count H). nm_name (names H ! i) \<noteq> nm"
  shows "name_map H nm = None"
  using assms by (auto simp: name_map_def map_of_eq_None_iff names_set)

lemma bisect_names:
  assumes "names_inv H"
  shows "case bisect (names H) nm 0 (name_count H - 1) of
      Inl m \<Rightarrow> name_map H nm = Some (nm_handle (names H ! nat m)) \<and> nm_handle (names H ! nat m) \<noteq> 0
    | Inr p \<Rightarrow> name_map H nm = None \<and> 0 \<le> p \<and> p \<le> name_count H \<and>
        (\<forall>i<nat p. strcmp (nm_name (names H ! i)) nm < 0) \<and>
        (\<forall>i. nat p \<le> i \<and> i < nat (name_count H) \<longrightarrow> strcmp nm (nm_name (names H ! i)) < 0)"
proof -
  have inv: "0 \<le> name_count H" "nat (name_count H) \<le> length (names H)"
    "sorted_wrt (\<lambda>a b. strcmp (nm_name a) (nm_name b) < 0) (take (nat (name_count H)) (names H))"
    using assms by (auto simp: names_inv_def)
  have "\<not> (name_count H - 1 < int i \<and> i < nat (name_count H))" for i by linarith
  then have sp: "case bisect (names H) nm 0 (name_count H - 1) of
      Inl m \<Rightarrow> 0 \<le> m \<and> m < int (nat (name_count H)) \<and> nm_name (names H ! nat m) = nm
    | Inr p \<Rightarrow> 0 \<le> p \<and> p \<le> int (nat (name_count H)) \<and>
        (\<forall>i<nat p. strcmp (nm_name (names H ! i)) nm < 0) \<and>
        (\<forall>i. p \<le> int i \<and> i < nat (name_count H) \<longrightarrow> 0 < strcmp (nm_name (names H ! i)) nm)"
    using inv by (intro bisect_spec) auto
  show ?thesis
  proof (cases "bisect (names H) nm 0 (name_count H - 1)")
    case (Inl m)
    with sp inv have m: "0 \<le> m" "nat m < nat (name_count H)" "nm_name (names H ! nat m) = nm" by auto
    moreover have "nm_handle (names H ! nat m) \<noteq> 0"
      using assms m names_set [OF assms] by (auto simp: names_inv_def)
    ultimately show ?thesis using Inl name_map_some [OF assms m(2)] by simp
  next
    case (Inr p)
    with sp inv have p: "0 \<le> p" "p \<le> name_count H" "\<forall>i<nat p. strcmp (nm_name (names H ! i)) nm < 0"
      "\<forall>i. p \<le> int i \<and> i < nat (name_count H) \<longrightarrow> 0 < strcmp (nm_name (names H ! i)) nm" by auto
    have "nm_name (names H ! i) \<noteq> nm" if "i < nat (name_count H)" for i
    proof (cases "i < nat p")
      case True
      with p(3) show ?thesis by (metis less_irrefl strcmp_eq_0)
    next
      case False
      with p(1,4) that have "0 < strcmp (nm_name (names H ! i)) nm" by auto
      then show ?thesis by (metis less_irrefl strcmp_eq_0)
    qed
    with name_map_none [OF assms] p Inr show ?thesis by (auto simp: strcmp_flip)
  qed
qed


lemma fold_copy_nth:
  "length (fold (\<lambda>i n. n[i + d := g i]) [a..<b] n) = length n \<and>
   (j < length n \<longrightarrow> fold (\<lambda>i n. n[i + d := g i]) [a..<b] n ! j =
     (if a + d \<le> j \<and> j < b + d then g (j - d) else n ! j))"
proof (induction b)
  case (Suc b)
  then show ?case by (cases "a \<le> b"; cases "j = b + d") (auto simp: nth_list_update)
qed auto

lemma fold_update_length: "length (fold (\<lambda>i n. n[f i := g i n]) is n) = length n"
  by (induction "is" arbitrary: n) simp_all

lemma fold_shift_nth:
  "length (fold (\<lambda>i n. n[i := n ! (i - 1)]) (rev [p + 1..<c + 1]) n) = length n \<and>
   (c < length n \<longrightarrow> j < length n \<longrightarrow> fold (\<lambda>i n. n[i := n ! (i - 1)]) (rev [p + 1..<c + 1]) n ! j =
     (if p + 1 \<le> j \<and> j < c + 1 then n ! (j - 1) else n ! j))"
proof (induction c arbitrary: n)
  case (Suc c)
  show ?case
  proof (cases "p \<le> c")
    case True
    then have "rev [p + 1..<Suc c + 1] = Suc c # rev [p + 1..<c + 1]" by simp
    with Suc [of "n[Suc c := n ! c]"] True show ?thesis
      by (cases "j = Suc c") (auto simp: nth_list_update simp del: upt_Suc)
  qed auto
qed simp

lemma insert_before_entries:
  assumes inv: "names_inv H" and p: "0 \<le> pos" "pos \<le> name_count H"
  shows "take (nat (name_count (insert_before nm h pos H))) (names (insert_before nm h pos H)) =
      take (nat pos) (names H) @ \<lparr>nm_name = nm, nm_handle = h\<rparr> #
      drop (nat pos) (take (nat (name_count H)) (names H))"
    and "name_count (insert_before nm h pos H) = name_count H + 1"
    and "name_count (insert_before nm h pos H) \<le> name_cap (insert_before nm h pos H)"
    and "length (names (insert_before nm h pos H)) = nat (name_cap (insert_before nm h pos H))"
proof -
  let ?H = "insert_before nm h pos H" and ?p = "nat pos" and ?c = "nat (name_count H)"
  let ?x = "\<lparr>nm_name = nm, nm_handle = h\<rparr>"
  have i: "0 \<le> name_count H" "name_count H \<le> name_cap H" "0 < name_cap H"
    "length (names H) = nat (name_cap H)" "?p \<le> ?c"
    using inv p by (auto simp: names_inv_def)
  show "name_count ?H = name_count H + 1" by (simp add: insert_before_def Let_def)
  then have c1: "nat (name_count ?H) = Suc ?c" using i by simp
  show cap: "name_count ?H \<le> name_cap ?H" using i by (simp add: insert_before_def Let_def)
  have nth: "names ?H ! j = (if j < ?p then names H ! j else if j = ?p then ?x else names H ! (j - 1))"
    if "j < Suc ?c" for j
  proof (cases "name_count H \<ge> name_cap H")
    case True
    let ?B = "replicate (nat (name_cap H * 2)) zero_name"
    let ?n0 = "fold (\<lambda>i n. n[i := names H ! i]) [0..<?p] ?B"
    let ?n1 = "fold (\<lambda>i n. n[i + 1 := names H ! i]) [?p..<?c] ?n0"
    have "names ?H = ?n1[?p := ?x]" using True by (simp add: insert_before_def Let_def)
    moreover have "j < nat (name_cap H * 2)" "?p < nat (name_cap H * 2)" using that i True by auto
    moreover note fold_copy_nth [of 0 "\<lambda>i. names H ! i" 0 ?p ?B j]
      fold_copy_nth [of 1 "\<lambda>i. names H ! i" ?p ?c ?n0 j]
    ultimately show ?thesis using that i(5) by (auto simp: nth_list_update)
  next
    case False
    then have "names ?H = (fold (\<lambda>i n. n[i := n ! (i - 1)]) (rev [?p + 1..<?c + 1]) (names H))[?p := ?x]"
      by (simp add: insert_before_def Let_def)
    moreover have "?c < length (names H)" using False i by simp
    moreover note fold_shift_nth [of ?p ?c "names H" j]
    ultimately show ?thesis using that i(5) by (auto simp: nth_list_update simp del: upt_Suc)
  qed
  show len: "length (names ?H) = nat (name_cap ?H)"
    using i by (simp add: insert_before_def Let_def fold_update_length del: upt_Suc)
  show "take (nat (name_count ?H)) (names ?H) = take ?p (names H) @ ?x # drop ?p (take ?c (names H))"
  proof (rule nth_equalityI)
    show "length (take (nat (name_count ?H)) (names ?H)) =
        length (take ?p (names H) @ ?x # drop ?p (take ?c (names H)))"
      using i cap c1 len by simp
  next
    fix j
    assume "j < length (take (nat (name_count ?H)) (names ?H))"
    then have "j < Suc ?c" by (simp add: c1)
    with nth [OF this] i c1 show "take (nat (name_count ?H)) (names ?H) ! j =
        (take ?p (names H) @ ?x # drop ?p (take ?c (names H))) ! j"
      by (auto simp: nth_append nth_Cons' not_less)
  qed
qed


lemma insert_name_spec:
  assumes inv: "names_inv H" and h: "h \<noteq> 0" and new: "name_map H nm = None"
  shows "\<exists>H'. insert_name nm h H = (h, H') \<and> names_inv H' \<and> name_map H' = (name_map H)(nm \<mapsto> h)"
proof -
  from bisect_names [OF inv, of nm] new obtain p where
    b: "bisect (names H) nm 0 (name_count H - 1) = Inr p" "0 \<le> p" "p \<le> name_count H"
      "\<forall>i<nat p. strcmp (nm_name (names H ! i)) nm < 0"
      "\<forall>i. nat p \<le> i \<and> i < nat (name_count H) \<longrightarrow> strcmp nm (nm_name (names H ! i)) < 0"
    by (auto split: sum.splits)
  let ?H = "insert_before nm h p H" and ?x = "\<lparr>nm_name = nm, nm_handle = h\<rparr>"
  let ?xs = "take (nat (name_count H)) (names H)"
  note e = insert_before_entries [OF inv b(2,3), of nm h]
  have le: "nat p \<le> nat (name_count H)" "nat (name_count H) \<le> length (names H)"
    using b inv by (auto simp: names_inv_def)
  then have split: "?xs = take (nat p) (names H) @ drop (nat p) ?xs"
    by (metis append_take_drop_id min.absorb1 take_take)
  have so: "sorted_wrt (\<lambda>a b. strcmp (nm_name a) (nm_name b) < 0) ?xs"
    "\<forall>x\<in>set ?xs. nm_handle x \<noteq> 0" using inv by (auto simp: names_inv_def)
  have lo: "strcmp (nm_name y) nm < 0" if "y \<in> set (take (nat p) (names H))" for y
    using that b(4) le by (auto simp: set_take_nth)
  have hi: "strcmp nm (nm_name y) < 0" if "y \<in> set (drop (nat p) ?xs)" for y
    using that b(5) le by (auto simp: set_conv_nth)
  have "sorted_wrt (\<lambda>a b. strcmp (nm_name a) (nm_name b) < 0)
      (take (nat p) (names H) @ ?x # drop (nat p) ?xs)"
    using so(1) lo hi by (subst (asm) split) (auto simp: sorted_wrt_append)
  moreover have "\<forall>y\<in>set (take (nat p) (names H) @ ?x # drop (nat p) ?xs). nm_handle y \<noteq> 0"
    using so(2) h by (subst (asm) split) auto
  ultimately have "names_inv ?H"
    using e inv by (auto simp: names_inv_def)
  moreover have "name_map ?H = (name_map H)(nm \<mapsto> h)"
  proof -
    let ?m = "map (\<lambda>x. (nm_name x, nm_handle x))"
    have "map_of (?m (take (nat p) (names H))) nm = None"
      using lo by (auto simp: map_of_eq_None_iff) (metis less_irrefl strcmp_eq_0)
    then have "map_of (?m (take (nat p) (names H) @ ?x # drop (nat p) ?xs)) =
        (map_of (?m (take (nat p) (names H) @ drop (nat p) ?xs)))(nm \<mapsto> h)"
      by (auto simp: fun_eq_iff map_add_def split: option.splits)
    then show ?thesis using e(1) split by (simp add: name_map_def)
  qed
  ultimately show ?thesis using b(1) by (simp add: insert_name_def)
qed

section \<open>Properties\<close>

text \<open>
  C21: The slot table implements reference counting on a finite map. For every sequence of
  \<open>handle_grab\<close> and \<open>handle_release\<close> calls on handles whose low 24 bits are not all zero, one after another, the services returned, the services freed and the
  table afterwards are those of the same sequence on the map from handles to reference counts
  and services: a grab counts up, a release counts down, and the service is freed exactly when
  its last reference goes. No service has a handle with zero low 24 bits, but a caller may pass one: it
  matches an empty first slot, and a freed service is returned (\<open>grab_zero_finds_freed\<close>).
\<close>

theorem handle_refcounts:
  assumes "handle_inv H" "\<forall>x\<in>set ops. \<forall>h\<in>set_ref_op x. h AND 0xffffff \<noteq> 0"
  shows "\<exists>rs fr H'. hdl.tab_run ops H = (rs, fr, H') \<and> handle_inv H' \<and>
    ref_run (map (map_ref_op (\<lambda>h. h AND 0xffffff)) ops) (registered H) = (rs, fr, registered H')"
  using hdl.tab_run_refines [OF assms] .

definition sample_table :: handle_global where
  "sample_table = \<lparr>last_id = 8, harbor = 0x1000000, h_cap = 4, h_n = 3,
     h_slot = [\<lparr>sl_handle = 8, sl_ref = 1, sl_ctx = 100\<rparr>, \<lparr>sl_handle = 1, sl_ref = 2, sl_ctx = 200\<rparr>,
       \<lparr>sl_handle = 2, sl_ref = 1, sl_ctx = 300\<rparr>, zero_slot],
     name_cap = 2, name_count = 0, names = replicate 2 zero_name\<rparr>"

lemma sample_table_inv: "handle_inv sample_table"
proof -
  have "\<exists>k. 2 \<le> k \<and> k < 31 \<and> h_cap sample_table = 2 ^ k"
    by (intro exI [of _ 2]) (simp add: sample_table_def)
  moreover have "let s = h_slot sample_table ! i in sl_handle s \<noteq> 0 \<longrightarrow>
      slot_index (sl_handle s) (h_cap sample_table) = i \<and> sl_ref s > 0 \<and> sl_ctx s \<noteq> 0"
    if "i < length (h_slot sample_table)" for i
  proof -
    from that consider "i = 0" | "i = 1" | "i = 2" | "i = 3" by (simp add: sample_table_def) linarith
    then show ?thesis by cases (simp_all add: sample_table_def zero_slot_def slot_index_def)
  qed
  ultimately show ?thesis
    unfolding handle_inv_def by (simp add: sample_table_def zero_slot_def)
qed

theorem handle_refcounts_witness:
  "handle_inv sample_table \<and>
   (\<exists>rs H'. hdl.tab_run [Grab 0x1000002, Release 2, Release 2] sample_table = (rs, [300], H') \<and>
     registered H' 2 = None)"
proof -
  let ?ops = "[Grab 0x1000002, Release 2, Release 2] :: u32 ref_op list"
  have "registered sample_table 2 = Some (1, 300)"
    by (simp add: registered_def sample_table_def slot_index_def Let_def)
  then have "ref_run (map (map_ref_op (\<lambda>h. h AND 0xffffff)) ?ops) (registered sample_table) =
      ([Some 300, Some 300, None], [300], (registered sample_table)(2 := None))" by simp
  moreover have "\<forall>x\<in>set ?ops. \<forall>h\<in>set_ref_op x. h AND 0xffffff \<noteq> 0" by simp
  ultimately obtain rs H' where "hdl.tab_run ?ops sample_table = (rs, [300], H')"
    "registered H' = (registered sample_table)(2 := None)"
    using handle_refcounts [OF sample_table_inv, of ?ops] by auto
  then show ?thesis using sample_table_inv by auto
qed

text \<open>
  C22: A service that is held stays registered: whatever handles with non-zero low 24 bits are grabbed and
  released meanwhile, as long as the handle's last reference is not released, \<open>handle_grab\<close> still returns
  its service.
\<close>

theorem held_service_stays:
  assumes "handle_inv H" "\<forall>x\<in>set ops. \<forall>h\<in>set_ref_op x. h AND 0xffffff \<noteq> 0"
    and "registered H (h AND 0xffffff) = Some (r, c)"
    and "ref_kept (h AND 0xffffff) r (map (map_ref_op (\<lambda>h. h AND 0xffffff)) ops)"
  shows "\<exists>rs fr H' H''. hdl.tab_run ops H = (rs, fr, H') \<and> handle_grab h H' = (c, H'') \<and> handle_inv H''"
proof -
  from hdl.tab_held [OF assms] obtain rs fr H' r' where
    t: "hdl.tab_run ops H = (rs, fr, H')" "handle_inv H'" "registered H' (hkey h) = Some (r', c)" by blast
  have "hkey h \<noteq> 0" using registered_SomeD(1) [OF assms(1,3)] .
  from handle_grab_spec [OF t(2) this] t show ?thesis by auto
qed


theorem held_service_stays_witness:
  "registered sample_table 1 = Some (2, 200) \<and>
   (\<exists>rs fr H' H''. hdl.tab_run [Release 1, Release 8] sample_table = (rs, fr, H') \<and>
      handle_grab 0x1000001 H' = (200, H''))"
proof -
  let ?ops = "[Release 1, Release 8] :: u32 ref_op list"
  have r: "registered sample_table (0x1000001 AND 0xffffff) = Some (2, 200)"
    by (simp add: registered_def sample_table_def slot_index_def Let_def)
  from held_service_stays [OF sample_table_inv _ r, of ?ops] r show ?thesis by simp blast
qed

lemma hkey_or:
  "hid < 2 ^ 24 \<Longrightarrow> hb AND 0xffffff = 0 \<Longrightarrow> (hid OR hb) AND 0xffffff = (hid :: u32)"
proof -
  assume a: "hid < 2 ^ 24" "hb AND 0xffffff = 0"
  have m: "(0xffffff :: u32) = mask 24" by (simp add: mask_eq_exp_minus_1)
  have "hid AND 0xffffff = hid"
    using a(1) by (simp add: m word_unat_eq_iff unat_and_mask word_less_nat_alt)
  then show ?thesis using a(2) by (simp add: bit.conj_disj_distrib2)
qed

text \<open>
  C27: Registering a service always returns, with a handle that was free: the new handle maps to
  the service with one reference and every other registration is kept. \<open>handle_grab\<close> of the
  returned handle finds the service as long as the handle counter fits in its 24 bits. When
  the call grows the table this needs \<open>growth_safe\<close>.
\<close>

theorem handle_regist_fresh:
  assumes "handle_inv H" "ctx \<noteq> 0" "h_cap H < 2 ^ 30"
    and "h_n H \<ge> h_cap H * 3 div 4 \<longrightarrow> growth_safe H"
  shows "\<exists>hid H'. handle_regist ctx H = Some (hid OR harbor H, H') \<and> handle_inv H' \<and>
    registered H hid = None \<and> registered H' = (registered H)(hid \<mapsto> (1, ctx)) \<and>
    (hid < 2 ^ 24 \<longrightarrow> fst (handle_grab (hid OR harbor H) H') = ctx)"
proof -
  from handle_regist_spec [OF assms] obtain hid H' where
    r: "handle_regist ctx H = Some (hid OR harbor H, H')" "handle_inv H'" "hid \<noteq> 0"
      "registered H hid = None" "registered H' = (registered H)(hid \<mapsto> (1, ctx))" by blast
  have "fst (handle_grab (hid OR harbor H) H') = ctx" if "hid < 2 ^ 24"
  proof -
    have "hkey (hid OR harbor H) = hid" using that assms(1) by (intro hkey_or) (auto simp: handle_inv_def)
    with handle_grab_spec [OF r(2), of "hid OR harbor H"] r(3,5) show ?thesis by auto
  qed
  with r show ?thesis by blast
qed


lemma handle_init_inv: "handle_inv (handle_init hb)" "names_inv (handle_init hb)"
proof -
  have "\<exists>k. 2 \<le> k \<and> k < 31 \<and> h_cap (handle_init hb) = 2 ^ k"
    by (intro exI [of _ 4]) (simp add: handle_init_def)
  moreover have "push_bit 24 w AND 0xffffff = (0 :: u32)" for w
  proof -
    have m: "(0xffffff :: u32) = mask 24" by (simp add: mask_eq_exp_minus_1)
    have "push_bit 24 w AND mask 24 = (0 :: u32)" by (rule bit_word_eqI) (simp add: bit_simps)
    then show ?thesis by (simp only: m)
  qed
  ultimately show "handle_inv (handle_init hb)"
    by (simp add: handle_inv_def handle_init_def zero_slot_def)
  show "names_inv (handle_init hb)"
    by (simp add: names_inv_def handle_init_def)
qed

theorem handle_regist_fresh_witness:
  "\<exists>hid H'. handle_regist 100 (handle_init 1) = Some (hid OR 0x1000000, H') \<and> registered H' hid = Some (1, 100)"
proof -
  have "harbor (handle_init 1) = 0x1000000" by (simp add: handle_init_def push_bit_eq_mult)
  then show ?thesis
    using handle_regist_fresh [OF handle_init_inv(1), of 100 1] by (auto simp: handle_init_def)
qed

text \<open>
  What growing the table keeps, exactly: every registration, except that a handle whose new
  slot is slot \<open>0\<close> disappears when any slot other than the first was empty, because empty slots
  (handle \<open>0\<close>) are copied over it.
\<close>

theorem handle_expand_keeps:
  assumes "handle_inv H"
  shows "registered (handle_expand H) h =
    (if slot_index h (h_cap H * 2) = 0 \<and>
        (\<exists>i. 0 < i \<and> i < length (h_slot H) \<and> sl_handle (h_slot H ! i) = 0)
     then None else registered H h)"
proof (cases "h = 0")
  case True
  then show ?thesis by (simp add: registered_def)
next
  case False
  then show ?thesis by (rule handle_expand_slot [OF assms])
qed

theorem handle_expand_keeps_witness:
  "registered sample_table 8 = Some (1, 100) \<and> registered (handle_expand sample_table) 8 = None"
proof -
  have "slot_index 8 (h_cap sample_table * 2) = 0" "3 < length (h_slot sample_table)"
    "sl_handle (h_slot sample_table ! 3) = 0"
    by (simp_all add: sample_table_def slot_index_def zero_slot_def)
  then have "registered (handle_expand sample_table) 8 = None"
    using handle_expand_keeps [OF sample_table_inv, of 8] by (metis zero_less_numeral)
  then show ?thesis by (simp add: registered_def sample_table_def slot_index_def)
qed

lemma exit_fold:
  assumes "handle_inv H" "distinct hs" "\<forall>h\<in>set hs. h AND 0xffffff = h"
    "\<forall>h\<in>set hs. \<exists>c. registered H h = Some (1, c)"
  shows "\<exists>H'. fold (\<lambda>h (fr, H). let (_, fr', H') = handle_release h H in (fr @ fr', H')) hs (fr0, H) =
      (fr0 @ map (\<lambda>h. snd (the (registered H h))) hs, H') \<and> handle_inv H' \<and>
    registered H' = registered H |` (- set hs)"
  using assms
proof (induction hs arbitrary: H fr0)
  case (Cons h hs)
  then obtain c where c: "registered H h = Some (1, c)" "hkey h = h" by auto
  then have "hkey h \<noteq> 0" using registered_SomeD(1) [OF Cons.prems(1) c(1)] by simp
  from handle_release_spec [OF Cons.prems(1) this] c obtain H1 where
    r: "handle_release h H = (0, [c], H1)" "handle_inv H1" "registered H1 = (registered H)(h := None)"
    by auto
  from Cons.prems have pr: "distinct hs" "\<forall>h\<in>set hs. hkey h = h"
    "\<forall>h'\<in>set hs. \<exists>c. registered H1 h' = Some (1, c)" unfolding r(3) by auto
  from Cons.IH [OF r(2) pr, of "fr0 @ [c]"] obtain H' where
    f: "fold (\<lambda>h (fr, H). let (_, fr', H') = handle_release h H in (fr @ fr', H')) hs (fr0 @ [c], H1) =
      ((fr0 @ [c]) @ map (\<lambda>h. snd (the (registered H1 h))) hs, H')" "handle_inv H'"
      "registered H' = registered H1 |` (- set hs)" by blast
  have "map (\<lambda>h. snd (the (registered H1 h))) hs = map (\<lambda>h. snd (the (registered H h))) hs"
    using Cons.prems(2) by (auto simp: r(3))
  moreover have "registered H1 |` (- set hs) = registered H |` (- set (h # hs))"
    by (auto simp: r(3) fun_eq_iff restrict_map_def)
  ultimately show ?case using f r c by simp
qed (simp add: restrict_map_def)

lemma registered_slot:
  assumes "handle_inv H" "s \<in> set (h_slot H)" "sl_handle s \<noteq> 0"
  shows "registered H (sl_handle s) = Some (sl_ref s, sl_ctx s)"
proof -
  from assms(2) obtain i where i: "i < length (h_slot H)" "h_slot H ! i = s"
    by (auto simp: in_set_conv_nth)
  with handle_invD(3) [OF assms(1) i(1)] assms(3) show ?thesis by (simp add: registered_def)
qed

lemma registered_handles:
  assumes "handle_inv H"
  shows "set (map sl_handle (filter (\<lambda>s. sl_handle s \<noteq> 0) (h_slot H))) = dom (registered H)"
    "distinct (map sl_handle (filter (\<lambda>s. sl_handle s \<noteq> 0) (h_slot H)))"
proof -
  let ?L = "filter (\<lambda>s. sl_handle s \<noteq> 0) (h_slot H)"
  show s: "set (map sl_handle ?L) = dom (registered H)"
  proof (intro set_eqI iffI)
    fix h
    assume "h \<in> dom (registered H)"
    then have "h_slot H ! slot_index h (h_cap H) \<in> set ?L" "sl_handle (h_slot H ! slot_index h (h_cap H)) = h"
      using handle_invD(1) [OF assms] by (auto simp: registered_def Let_def split: if_splits)
    then show "h \<in> set (map sl_handle ?L)" by force
  qed (auto simp: registered_slot [OF assms])
  have "length (map sl_handle ?L) = card (dom (registered H))"
    using registered_count [of H] handle_invD [OF assms] by auto
  with s show "distinct (map sl_handle ?L)" by (intro card_distinct) (simp only:)
qed

text \<open>
  At shutdown, when no service is held, \<open>handle_exit\<close> frees every registered service exactly
  once, in slot order, and leaves the table empty.
\<close>

theorem handle_exit_frees_all:
  assumes "handle_inv H" "\<forall>h r c. registered H h = Some (r, c) \<longrightarrow> r = 1 \<and> h < 2 ^ 24"
  shows "\<exists>H'. handle_exit H = (map sl_ctx (filter (\<lambda>s. sl_handle s \<noteq> 0) (h_slot H)), H') \<and>
    handle_inv H' \<and> registered H' = Map.empty"
proof -
  let ?L = "filter (\<lambda>s. sl_handle s \<noteq> 0) (h_slot H)" and ?hs = "map sl_handle (filter (\<lambda>s. sl_handle s \<noteq> 0) (h_slot H))"
  note rh = registered_handles [OF assms(1)]
  have hs: "filter (\<lambda>h. h \<noteq> 0) (map sl_handle (h_slot H)) = ?hs" by (simp add: filter_map comp_def)
  have one: "\<exists>c. registered H h = Some (1, c)" "hkey h = h" if "h \<in> set ?hs" for h
  proof -
    from that rh(1) obtain r c where "registered H h = Some (r, c)" by auto
    with assms(2) have "registered H h = Some (1, c)" "h < 2 ^ 24" by auto
    then show "\<exists>c. registered H h = Some (1, c)" "hkey h = h" using hkey_or [of h 0] by auto
  qed
  from exit_fold [OF assms(1) rh(2), of "[]"] one obtain H' where
    e: "handle_exit H = (map (\<lambda>h. snd (the (registered H h))) ?hs, H')" "handle_inv H'"
      "registered H' = registered H |` (- set ?hs)"
    unfolding handle_exit_def Let_def hs by auto
  have "map (\<lambda>h. snd (the (registered H h))) ?hs = map sl_ctx ?L"
    by (simp add: registered_slot [OF assms(1)])
  moreover have "registered H |` (- set ?hs) = Map.empty"
    unfolding rh(1) by (auto simp: fun_eq_iff restrict_map_def)
  ultimately show ?thesis using e by simp
qed

theorem handle_exit_frees_all_witness:
  "\<exists>H H'. handle_regist 100 (handle_init 1) = Some (0x1000001, H) \<and> handle_exit H = ([100], H')"
proof -
  let ?H = "store_at 1 100 (handle_init 1)"
  have "harbor (handle_init 1) = 0x1000000" by (simp add: handle_init_def push_bit_eq_mult)
  then have r: "handle_regist 100 (handle_init 1) = Some (0x1000001, ?H)"
    by (simp add: handle_regist_def regist_loop.simps) (simp add: handle_init_def store_at_def put_slot_def
        zero_slot_def slot_index_def nth_Cons' Let_def)
  note st = store_at_spec [OF handle_init_inv(1), of 1 1 100]
  have free: "sl_handle (h_slot (handle_init 1) ! slot_index 1 (h_cap (handle_init 1))) = 0"
    by (simp add: handle_init_def zero_slot_def slot_index_def)
  have none: "registered (handle_init 1) = Map.empty"
    using handle_invD(1) [OF handle_init_inv(1), of _ 1]
    by (intro ext) (simp add: registered_def handle_init_def zero_slot_def)
  have "map sl_ctx (filter (\<lambda>s. sl_handle s \<noteq> 0) (h_slot ?H)) = [100]"
    by (simp add: store_at_def put_slot_def handle_init_def zero_slot_def slot_index_def eval_nat_numeral)
  moreover have "\<forall>h r c. registered ?H h = Some (r, c) \<longrightarrow> r = 1 \<and> h < 2 ^ 24"
    using st(3) free none by (auto split: if_splits)
  ultimately show ?thesis
    using handle_exit_frees_all [OF st(1)] free r by auto
qed

text \<open>
  The sorted name array implements a map from names to handles. A query returns the handle
  registered under the name, and \<open>0\<close> exactly when there is none; naming a handle adds the name
  and returns the handle when the name is new, and is refused with \<open>0\<close>, changing nothing, when
  it is taken. The array stays sorted and within its capacity.
\<close>

theorem handle_names_map:
  assumes "names_inv H"
  shows "handle_name_op nm 0 H = (case name_map H nm of None \<Rightarrow> 0 | Some x \<Rightarrow> x, H) \<and>
    name_map H nm \<noteq> Some 0 \<and>
    (h \<noteq> 0 \<longrightarrow> (case name_map H nm of
        None \<Rightarrow> \<exists>H'. handle_name_op nm h H = (h, H') \<and> names_inv H' \<and> name_map H' = (name_map H)(nm \<mapsto> h)
      | Some _ \<Rightarrow> handle_name_op nm h H = (0, H)))"
proof (intro conjI impI)
  note b = bisect_names [OF assms, of nm]
  then show "handle_name_op nm 0 H = (case name_map H nm of None \<Rightarrow> 0 | Some x \<Rightarrow> x, H)"
    "name_map H nm \<noteq> Some 0"
    by (auto simp: handle_name_op_def query_def split: sum.splits)
  assume h: "h \<noteq> 0"
  show "case name_map H nm of
        None \<Rightarrow> \<exists>H'. handle_name_op nm h H = (h, H') \<and> names_inv H' \<and> name_map H' = (name_map H)(nm \<mapsto> h)
      | Some _ \<Rightarrow> handle_name_op nm h H = (0, H)"
  proof (cases "name_map H nm")
    case None
    with insert_name_spec [OF assms h] h show ?thesis by (simp add: handle_name_op_def)
  next
    case (Some x)
    with b h show ?thesis by (auto simp: handle_name_op_def insert_name_def split: sum.splits)
  qed
qed

theorem handle_names_map_witness:
  "\<exists>H H'. handle_name_op ''gate'' 7 (handle_init 1) = (7, H) \<and> handle_name_op ''gate'' 0 H = (7, H) \<and>
     handle_name_op ''gate'' 9 H = (0, H) \<and> handle_name_op ''db'' 9 H = (9, H')"
proof -
  have "name_map (handle_init 1) = Map.empty" by (simp add: name_map_def handle_init_def)
  with handle_names_map [OF handle_init_inv(2), of "''gate''" 1 7] obtain H where
    H: "handle_name_op ''gate'' 7 (handle_init 1) = (7, H)" "names_inv H" "name_map H = [''gate'' \<mapsto> 7]"
    by auto
  with handle_names_map [OF H(2), of "''gate''" 9] handle_names_map [OF H(2), of "''db''" 9]
  show ?thesis by auto
qed


text \<open>
  A handle whose low 24 bits are zero matches an empty first slot: here the service of handle \<open>8\<close>
  has just been freed, and grabbing the bare harbor number returns it.
\<close>

lemma grab_zero_finds_freed:
  "handle_release 8 sample_table = (0, [100], snd (snd (handle_release 8 sample_table))) \<and>
   fst (handle_grab 0x1000000 (snd (snd (handle_release 8 sample_table)))) = 100"
  by (simp add: handle_release_def handle_release_ref_def handle_remove_def handle_grab_def
      sample_table_def slot_index_def)

end
