(* ===== verification/Netpack.thy ===== *)
theory Netpack
  imports Prelude
begin

text \<open>
  The packet framing of \<open>src/lualib/lnetpack.c\<close>: every packet travels behind a two-byte
  big-endian length. \<open>lfilter\<close> cuts the byte chunks that sockets deliver into packets, keeping
  the incomplete tail of each connection in a hash table and complete surplus packets in a
  growing ring buffer that \<open>lpop\<close> empties. The Lua userdata that carries the state is an
  option (\<open>None\<close> is \<open>nil\<close>), the values pushed on the Lua stack are a result type, and buffers
  are their bytes. Reading past the end of an empty chunk is \<open>None\<close>.
\<close>

section \<open>Data\<close>

definition QUEUESIZE :: nat where "QUEUESIZE = 1024"
definition HASHSIZE :: nat where "HASHSIZE = 4096"
definition SMALLSTRING :: nat where "SMALLSTRING = 2048"

record netpack =
  np_id :: int
  np_size :: nat
  np_buffer :: bytes

record uncomplete =
  pack :: netpack
  read_pos :: int
  header :: int

record npqueue =
  np_cap :: nat
  np_head :: nat
  np_tail :: nat
  np_hash :: "nat \<Rightarrow> uncomplete list"
  np_queue :: "netpack list"

type_synonym npstate = "npqueue option"

definition zero_pack :: netpack where
  "zero_pack = \<lparr>np_id = 0, np_size = 0, np_buffer = []\<rparr>"

section \<open>Packet headers\<close>

definition write_size :: "nat \<Rightarrow> bytes" where
  "write_size len = [word_of_int (drop_bit 8 (int len) AND 0xff), word_of_int (int len AND 0xff)]"

definition read_size :: "bytes \<Rightarrow> nat" where
  "read_size b = nat (push_bit 8 (uint (b ! 0)) OR uint (b ! 1))"

text \<open>The three packers. The last appends a cookie behind the content; a Lua error is \<open>None\<close>.\<close>

definition lpack :: "bytes \<Rightarrow> bytes option" where
  "lpack ptr = (if length ptr > 0x10000 then None else Some (write_size (length ptr) @ ptr))"

definition lpack_string :: "bytes \<Rightarrow> bytes option" where
  "lpack_string ptr =
     (let len = length ptr in
      if len > 0x10000 then None
      else let buffer = replicate (if len \<le> SMALLSTRING then SMALLSTRING + 2 else len + 2) 0;
               filled = write_size len @ ptr @ drop (len + 2) buffer
           in Some (take (len + 2) filled))"

definition lpack_padding :: "bytes \<Rightarrow> bytes \<Rightarrow> bytes option" where
  "lpack_padding cookie ptr =
     (let len = length cookie + length ptr in
      if len > 0x10000 then None
      else let buffer = replicate (if len \<le> SMALLSTRING then SMALLSTRING + 2 else len + 2) 0;
               filled = write_size len @ ptr @ cookie @ drop (len + 2) buffer
           in Some (take (len + 2) filled))"

text \<open>\<open>ltostring\<close> for a buffer of \<open>sz\<close> bytes; a negative offset is a Lua error.\<close>

definition ltostring :: "bytes option \<Rightarrow> nat \<Rightarrow> int option \<Rightarrow> bytes option" where
  "ltostring ptr sz offset =
     (case ptr of None \<Rightarrow> Some []
      | Some b \<Rightarrow>
         (case offset of
            Some off \<Rightarrow>
              if off < 0 then None
              else (let off = (if off > int sz then sz else nat off)
                    in Some (take (sz - off) (drop off b)))
          | None \<Rightarrow> Some (take sz b)))"

section \<open>The queue of complete packets\<close>

definition new_queue :: npqueue where
  "new_queue = \<lparr>np_cap = QUEUESIZE, np_head = 0, np_tail = 0, np_hash = (\<lambda>_. []),
     np_queue = replicate QUEUESIZE zero_pack\<rparr>"

definition get_queue :: "npstate \<Rightarrow> npqueue" where
  "get_queue st = (case st of None \<Rightarrow> new_queue | Some q \<Rightarrow> q)"

definition expand_queue :: "npqueue \<Rightarrow> npqueue" where
  "expand_queue q =
     \<lparr>np_cap = np_cap q + QUEUESIZE, np_head = 0, np_tail = np_cap q, np_hash = np_hash q,
      np_queue = map (\<lambda>i. np_queue q ! ((np_head q + i) mod np_cap q)) [0..<np_cap q]
                 @ replicate QUEUESIZE zero_pack\<rparr>"

definition enqueue :: "netpack \<Rightarrow> npqueue \<Rightarrow> npqueue" where
  "enqueue np q =
     (let t1 = np_tail q + 1;
          q1 = q\<lparr>np_queue := (np_queue q)[np_tail q := np],
                 np_tail := (if t1 \<ge> np_cap q then t1 - np_cap q else t1)\<rparr>
      in if np_head q1 = np_tail q1 then expand_queue q1 else q1)"

definition push_data :: "int \<Rightarrow> bytes \<Rightarrow> npstate \<Rightarrow> npstate" where
  "push_data fd buffer st =
     Some (enqueue \<lparr>np_id = fd, np_size = length buffer, np_buffer = buffer\<rparr> (get_queue st))"

definition lpop :: "npstate \<Rightarrow> netpack option \<times> npstate" where
  "lpop st =
     (case st of None \<Rightarrow> (None, None)
      | Some q \<Rightarrow>
         if np_head q = np_tail q then (None, Some q)
         else (Some (np_queue q ! np_head q),
               Some (q\<lparr>np_head := (if np_head q + 1 \<ge> np_cap q then 0 else np_head q + 1)\<rparr>)))"

section \<open>Incomplete packets\<close>

text \<open>The shifts are arithmetic, the sum of the three ints wraps.\<close>

definition hash_fd :: "int \<Rightarrow> nat" where
  "hash_fd fd = unat (word_of_int (drop_bit 24 fd + drop_bit 12 fd + fd) :: u32) mod HASHSIZE"

text \<open>\<open>find_uncomplete\<close> unlinks the entry of \<open>fd\<close> from its chain.\<close>

fun unlink :: "int \<Rightarrow> uncomplete list \<Rightarrow> (uncomplete \<times> uncomplete list) option" where
  "unlink fd [] = None"
| "unlink fd (uc # ucs) =
     (if np_id (pack uc) = fd then Some (uc, ucs)
      else map_option (\<lambda>(u, us). (u, uc # us)) (unlink fd ucs))"

definition find_uncomplete :: "npstate \<Rightarrow> int \<Rightarrow> uncomplete option \<times> npstate" where
  "find_uncomplete st fd =
     (case st of None \<Rightarrow> (None, None)
      | Some q \<Rightarrow>
         (let h = hash_fd fd in
          case unlink fd (np_hash q h) of
            None \<Rightarrow> (None, Some q)
          | Some (uc, ucs) \<Rightarrow> (Some uc, Some (q\<lparr>np_hash := (np_hash q)(h := ucs)\<rparr>))))"

text \<open>Linking an entry at the front of the chain of \<open>fd\<close>.\<close>

definition link_uncomplete :: "int \<Rightarrow> uncomplete \<Rightarrow> npqueue \<Rightarrow> npqueue" where
  "link_uncomplete fd uc q =
     (let h = hash_fd fd in q\<lparr>np_hash := (np_hash q)(h := uc # np_hash q h)\<rparr>)"

text \<open>\<open>save_uncomplete\<close>, with the fields its callers then set.\<close>

definition save_uncomplete :: "int \<Rightarrow> int \<Rightarrow> int \<Rightarrow> nat \<Rightarrow> bytes \<Rightarrow> npstate \<Rightarrow> npstate" where
  "save_uncomplete fd rd hdr sz buf st =
     Some (link_uncomplete fd
       \<lparr>pack = \<lparr>np_id = fd, np_size = sz, np_buffer = buf\<rparr>, read_pos = rd, header = hdr\<rparr> (get_queue st))"

text \<open>\<open>memcpy(buf + pos, src, n)\<close> for the \<open>n\<close> bytes of \<open>src\<close>.\<close>

definition memcpy :: "bytes \<Rightarrow> nat \<Rightarrow> bytes \<Rightarrow> bytes" where
  "memcpy buf pos src = take pos buf @ src @ drop (pos + length src) buf"

function push_more :: "int \<Rightarrow> bytes \<Rightarrow> npstate \<Rightarrow> npstate" where
  "push_more fd buffer st =
     (if length buffer = 1 then save_uncomplete fd (- 1) (uint (buffer ! 0)) 0 [] st
      else
        (let pack_size = read_size buffer; b = drop 2 buffer in
         if length b < pack_size then
           save_uncomplete fd (int (length b)) 0 pack_size (memcpy (replicate pack_size 0) 0 b) st
         else
           (let st1 = push_data fd (take pack_size b) st; rest = drop pack_size b in
            if length rest > 0 then push_more fd rest st1 else st1)))"
  by pat_completeness auto
termination
  by (relation "measure (\<lambda>(fd, buffer, st). length buffer)") auto

declare push_more.simps [simp del]

definition close_uncomplete :: "npstate \<Rightarrow> int \<Rightarrow> npstate" where
  "close_uncomplete st fd = snd (find_uncomplete st fd)"

section \<open>Filtering socket messages\<close>

text \<open>What \<open>lfilter\<close> leaves on the Lua stack after the queue.\<close>

datatype np_result =
    NpNone | NpData int bytes | NpMore | NpOpen int bytes | NpClose int
  | NpError int bytes | NpWarning int int

definition filter_data :: "int \<Rightarrow> bytes \<Rightarrow> npstate \<Rightarrow> (np_result \<times> npstate) option" where
  "filter_data fd buffer st =
     (if buffer = [] then None
      else
        (case find_uncomplete st fd of
           (Some uc, st1) \<Rightarrow>
             (let (uc, buffer) =
                    (if read_pos uc < 0 then
                       (let pack_size = nat (uint (buffer ! 0) OR push_bit 8 (header uc)) in
                        (uc\<lparr>pack := (pack uc)\<lparr>np_size := pack_size, np_buffer := replicate pack_size 0\<rparr>,
                           read_pos := 0\<rparr>, drop 1 buffer))
                     else (uc, buffer));
                  need = np_size (pack uc) - nat (read_pos uc)
              in if length buffer < need then
                   (let uc1 = uc\<lparr>pack := (pack uc)\<lparr>np_buffer :=
                                    memcpy (np_buffer (pack uc)) (nat (read_pos uc)) buffer\<rparr>,
                                 read_pos := read_pos uc + int (length buffer)\<rparr>
                    in Some (NpNone, Some (link_uncomplete fd uc1 (get_queue st1))))
                 else
                   (let buf = memcpy (np_buffer (pack uc)) (nat (read_pos uc)) (take need buffer);
                        rest = drop need buffer
                    in if rest = [] then Some (NpData fd buf, st1)
                       else Some (NpMore, push_more fd rest (push_data fd buf st1))))
         | (None, st1) \<Rightarrow>
             if length buffer = 1 then
               Some (NpNone, save_uncomplete fd (- 1) (uint (buffer ! 0)) 0 [] st1)
             else
               (let pack_size = read_size buffer; b = drop 2 buffer in
                if length b < pack_size then
                  Some (NpNone, save_uncomplete fd (int (length b)) 0 pack_size
                    (memcpy (replicate pack_size 0) 0 b) st1)
                else if length b = pack_size then Some (NpData fd b, st1)
                else Some (NpMore, push_more fd (drop pack_size b)
                  (push_data fd (take pack_size b) st1)))))"

datatype socket_msg =
    SOCKET_DATA int bytes | SOCKET_OPEN int | SOCKET_CLOSE int | SOCKET_ACCEPT int bytes
  | SOCKET_ERR int bytes | SOCKET_WARNING int int | SOCKET_OTHER

definition lfilter :: "socket_msg \<Rightarrow> npstate \<Rightarrow> (np_result \<times> npstate) option" where
  "lfilter m st =
     (case m of
        SOCKET_DATA fd buffer \<Rightarrow> filter_data fd buffer st
      | SOCKET_OPEN fd \<Rightarrow> Some (NpNone, st)
      | SOCKET_CLOSE fd \<Rightarrow> Some (NpClose fd, close_uncomplete st fd)
      | SOCKET_ACCEPT newfd msg \<Rightarrow> Some (NpOpen newfd msg, st)
      | SOCKET_ERR fd msg \<Rightarrow> Some (NpError fd msg, close_uncomplete st fd)
      | SOCKET_WARNING fd sz \<Rightarrow> Some (NpWarning fd sz, st)
      | SOCKET_OTHER \<Rightarrow> Some (NpNone, st))"

text \<open>\<open>lclear\<close>: the buffers it frees, and the emptied queue.\<close>

definition lclear :: "npstate \<Rightarrow> bytes list \<times> npstate" where
  "lclear st =
     (case st of None \<Rightarrow> ([], None)
      | Some q \<Rightarrow>
         (let tl' = (if np_head q > np_tail q then np_tail q + np_cap q else np_tail q);
              partial = concat (map (\<lambda>i. map (\<lambda>uc. np_buffer (pack uc)) (np_hash q i)) [0..<HASHSIZE]);
              queued = map (\<lambda>i. np_buffer (np_queue q ! (i mod np_cap q))) [np_head q..<tl']
          in (partial @ queued,
              Some (q\<lparr>np_hash := (\<lambda>i. if i < HASHSIZE then [] else np_hash q i), np_head := 0,
                     np_tail := 0\<rparr>))))"


section \<open>The ring buffer is first-in first-out\<close>

definition queue_ok :: "npqueue \<Rightarrow> bool" where
  "queue_ok q \<longleftrightarrow> 2 \<le> np_cap q \<and> length (np_queue q) = np_cap q \<and>
     np_head q < np_cap q \<and> np_tail q < np_cap q"

definition packets :: "npqueue \<Rightarrow> netpack list" where
  "packets q = ring (np_queue q) (np_head q) (np_tail q)"

lemma expand_array:
  "h < length xs \<Longrightarrow> map (\<lambda>i. xs ! ((h + i) mod length xs)) [0..<length xs] = drop h xs @ take h xs"
proof -
  assume "h < length xs"
  then have "map (\<lambda>i. xs ! ((h + i) mod length xs)) [0..<length xs] =
      map ((!) xs) (map (\<lambda>i. (h + i) mod length xs) [0..<length xs])" by simp
  also have "\<dots> = map ((!) xs) ([h..<length xs] @ [0..<h])"
    using upt_rotate_split [of h "length xs"] \<open>h < length xs\<close> by (simp only: less_imp_le)
  also have "\<dots> = drop h xs @ take h xs"
    using \<open>h < length xs\<close> by (simp add: map_nth_upt_drop map_nth_upt)
  finally show ?thesis .
qed

lemma packets_linear:
  "packets \<lparr>np_cap = c, np_head = 0, np_tail = n, np_hash = f, np_queue = xs\<rparr> = take n xs"
  by (simp add: packets_def ring_def)

lemma enqueue_spec:
  assumes "queue_ok q"
  shows "queue_ok (enqueue np q)" "packets (enqueue np q) = packets q @ [np]"
    "np_hash (enqueue np q) = np_hash q"
proof -
  let ?xs = "np_queue q" and ?h = "np_head q" and ?t = "np_tail q"
  define t' where "t' = (if Suc ?t \<ge> length ?xs then Suc ?t - length ?xs else Suc ?t)"
  let ?q1 = "q\<lparr>np_queue := ?xs[?t := np], np_tail := t'\<rparr>"
  have ok: "length ?xs = np_cap q" "?h < length ?xs" "?t < length ?xs" "2 \<le> length ?xs"
    using assms by (auto simp: queue_ok_def)
  have eq: "enqueue np q = (if ?h = t' then expand_queue ?q1 else ?q1)"
    using ok(1) by (simp add: enqueue_def Let_def t'_def)
  have t': "t' < length ?xs" using ok by (auto simp: t'_def)
  have "queue_ok (enqueue np q) \<and> packets (enqueue np q) = packets q @ [np] \<and>
      np_hash (enqueue np q) = np_hash q"
  proof (cases "?h = t'")
    case True
    have "?t \<noteq> ?h" using True ok(3,4) by (auto simp: t'_def)
    from ring_full [OF ok(3) True [unfolded t'_def] this, of np]
    have "drop ?h (?xs[?t := np]) @ take ?h (?xs[?t := np]) = packets q @ [np]" by (simp add: packets_def)
    moreover have "map (\<lambda>i. ?xs[?t := np] ! ((?h + i) mod np_cap q)) [0..<np_cap q] =
        drop ?h (?xs[?t := np]) @ take ?h (?xs[?t := np])"
      using expand_array [of ?h "?xs[?t := np]"] ok(1,2) by simp
    moreover have "length (drop ?h (?xs[?t := np]) @ take ?h (?xs[?t := np])) = np_cap q"
      using ok(1,2) by simp
    ultimately have ys: "enqueue np q = \<lparr>np_cap = np_cap q + QUEUESIZE, np_head = 0, np_tail = np_cap q,
        np_hash = np_hash q, np_queue = (packets q @ [np]) @ replicate QUEUESIZE zero_pack\<rparr>"
      "length (packets q @ [np]) = np_cap q"
      using True eq by (simp_all add: expand_queue_def)
    then have "take (np_cap q) ((packets q @ [np]) @ replicate QUEUESIZE zero_pack) = packets q @ [np]"
      by (metis append_eq_conv_conj)
    then have "packets (enqueue np q) = packets q @ [np]"
      by (simp only: ys(1) packets_linear)
    moreover have "queue_ok (enqueue np q)"
      using ys(2) ok unfolding ys(1) by (simp add: queue_ok_def QUEUESIZE_def)
    ultimately show ?thesis by (simp add: ys(1))
  next
    case False
    from ring_store [OF ok(2,3) t'_def, of np] False ok t' show ?thesis
      unfolding eq by (auto simp: packets_def queue_ok_def)
  qed
  then show "queue_ok (enqueue np q)" "packets (enqueue np q) = packets q @ [np]"
    "np_hash (enqueue np q) = np_hash q" by auto
qed

lemma lpop_spec:
  assumes "queue_ok q"
  shows "case packets q of [] \<Rightarrow> lpop (Some q) = (None, Some q)
    | np # nps \<Rightarrow> \<exists>q'. lpop (Some q) = (Some np, Some q') \<and> queue_ok q' \<and> packets q' = nps \<and>
        np_hash q' = np_hash q"
proof (cases "np_head q = np_tail q")
  case True
  then show ?thesis by (simp add: packets_def lpop_def)
next
  case False
  let ?h = "if Suc (np_head q) \<ge> np_cap q then 0 else Suc (np_head q)"
  have "packets q = np_queue q ! np_head q # ring (np_queue q) ?h (np_tail q)"
    using assms False by (simp add: packets_def queue_ok_def ring_pop)
  with assms False show ?thesis by (auto simp: lpop_def queue_ok_def packets_def)
qed

lemma new_queue_ok [simp]: "queue_ok new_queue" "packets new_queue = []" "np_hash new_queue = (\<lambda>_. [])"
  by (simp_all add: queue_ok_def new_queue_def packets_def QUEUESIZE_def)

text \<open>The queue as a buffer of the shared contract.\<close>

definition np_pop :: "npqueue \<Rightarrow> (netpack option \<times> npqueue) option" where
  "np_pop q = (case lpop (Some q) of (r, Some q') \<Rightarrow> Some (r, q') | (_, None) \<Rightarrow> None)"

interpretation np: fifo_buffer queue_ok packets enqueue np_pop
proof
  fix q m ms
  assume ok: "queue_ok q"
  show "queue_ok (enqueue m q)" "packets (enqueue m q) = packets q @ [m]"
    using enqueue_spec [OF ok] by blast+
  note p = lpop_spec [OF ok]
  show "\<exists>q'. np_pop q = Some (None, q') \<and> queue_ok q' \<and> packets q' = []" if "packets q = []"
    using p that ok by (auto simp: np_pop_def)
  show "\<exists>q'. np_pop q = Some (Some m, q') \<and> queue_ok q' \<and> packets q' = ms" if "packets q = m # ms"
    using p that by (auto simp: np_pop_def)
qed


section \<open>Headers\<close>

lemma and_255: "(x :: int) AND 255 = x mod 256"
proof -
  have "(255 :: int) = mask 8" by (simp add: mask_eq_exp_minus_1)
  then show ?thesis by (simp only: flip: take_bit_eq_mask) (simp add: take_bit_eq_mod)
qed

lemma word_of_int_mod_256: "(word_of_int (x mod 256) :: u8) = word_of_int x"
  by (simp add: word_of_int_eq_iff take_bit_eq_mod)

lemma write_size_eq: "write_size n = [of_nat (n div 256), of_nat n]"
proof -
  have "int n div 256 = int (n div 256)" by (simp add: zdiv_int)
  then show ?thesis by (simp add: write_size_def and_255 word_of_int_mod_256 drop_bit_eq_div)
qed

lemma read_size_eq: "read_size b = unat (b ! 0) * 256 + unat (b ! 1)"
proof -
  have "uint (b ! 1) < 256" using uint_lt2p [of "b ! 1"] by simp
  then have "push_bit 8 (uint (b ! 0)) OR uint (b ! 1) = uint (b ! 0) * 256 + uint (b ! 1)"
    by (intro push_bit_8_or) simp_all
  then show ?thesis by (simp add: read_size_def nat_add_distrib nat_mult_distrib)
qed

lemma read_size_bound: "read_size b < 65536"
  using unat_less_exp [of "b ! 0"] unat_less_exp [of "b ! 1"] by (simp add: read_size_eq)

lemma length_write_size [simp]: "length (write_size n) = 2"
  by (simp add: write_size_def)

lemma write_read_size: "2 \<le> length b \<Longrightarrow> write_size (read_size b) = take 2 b"
proof -
  assume "2 \<le> length b"
  then obtain x y c where b: "b = x # y # c"
    by (metis One_nat_def Suc_1 Suc_le_length_iff)
  have "unat x < 256" "unat y < 256" using unat_less_exp [of x] unat_less_exp [of y] by simp_all
  then have "(unat x * 256 + unat y) div 256 = unat x" by simp
  moreover have "(of_nat (unat x * 256 + unat y) :: u8) = y"
  proof -
    have z: "(256 :: u8) = 0" by simp
    have "(of_nat (unat x * 256 + unat y) :: u8) = x * 256 + y" by simp
    then show ?thesis by (simp only: z mult_zero_right add_0)
  qed
  ultimately show ?thesis by (simp add: b read_size_eq write_size_eq)
qed

lemma read_write_size: "n < 65536 \<Longrightarrow> read_size (write_size n @ b) = n"
proof -
  assume n: "n < 65536"
  have "unat (of_nat (n div 256) :: u8) = n div 256" using n
    by (simp add: unat_of_nat less_mult_imp_div_less)
  moreover have "unat (of_nat n :: u8) = n mod 256" by (simp add: unat_of_nat)
  ultimately show ?thesis by (simp add: read_size_eq write_size_eq)
qed

section \<open>The framing as a function of the byte stream\<close>

text \<open>The complete packets at the front of a byte stream, and what is left behind them.\<close>

function parse :: "bytes \<Rightarrow> bytes list \<times> bytes" where
  "parse b =
     (if length b < 2 then ([], b)
      else
        (let n = read_size b in
         if length b < n + 2 then ([], b)
         else let (ps, r) = parse (drop (n + 2) b) in (take n (drop 2 b) # ps, r)))"
  by pat_completeness auto
termination
  by (relation "measure length") auto

declare parse.simps [simp del]

definition frame :: "bytes \<Rightarrow> bytes" where
  "frame p = write_size (length p) @ p"

lemma parse_frames:
  "\<forall>p\<in>set ps. length p < 65536 \<Longrightarrow> parse (concat (map frame ps)) = (ps, [])"
proof (induction ps)
  case (Cons p ps)
  let ?b = "concat (map frame (p # ps))"
  have b: "?b = write_size (length p) @ p @ concat (map frame ps)" by (simp add: frame_def)
  then have "read_size ?b = length p" using Cons.prems by (simp add: read_write_size)
  moreover have "drop 2 ?b = p @ concat (map frame ps)" unfolding b by simp
  moreover have "drop (length p + 2) ?b = concat (map frame ps)" unfolding b by simp
  moreover have "length p + 2 \<le> length ?b" unfolding b by simp
  ultimately show ?case using Cons by (subst parse.simps) simp
qed (simp add: parse.simps)

text \<open>Bytes that arrive later only add packets behind those already complete.\<close>

lemma parse_append:
  "parse b = (ps, r) \<Longrightarrow> parse (b @ c) = (let (qs, r') = parse (r @ c) in (ps @ qs, r'))"
proof (induction b arbitrary: ps r rule: parse.induct)
  case (1 b)
  show ?case
  proof (cases "length b < 2 \<or> length b < read_size b + 2")
    case True
    then have "parse b = ([], b)" by (subst parse.simps) (auto simp: Let_def)
    with "1.prems" show ?thesis by (simp add: Let_def split: prod.splits)
  next
    case False
    let ?n = "read_size b"
    have rs: "read_size (b @ c) = ?n" using False by (cases b) (auto simp: read_size_eq nth_append)
    obtain ps' r' where pr: "parse (drop (?n + 2) b) = (ps', r')" by fastforce
    with False "1.prems" have "ps = take ?n (drop 2 b) # ps'" "r = r'"
      by (simp_all add: parse.simps [of b] Let_def)
    moreover have "take ?n (drop 2 (b @ c)) = take ?n (drop 2 b)" using False by simp
    moreover have "drop (?n + 2) (b @ c) = drop (?n + 2) b @ c" using False by simp
    moreover note "1.IH" [OF _ refl _ pr]
    ultimately show ?thesis using False rs
      by (subst parse.simps [of "b @ c"]) (simp add: Let_def split: prod.splits)
  qed
qed


section \<open>Incomplete packets as bytes received\<close>

definition uc_ok :: "uncomplete \<Rightarrow> bool" where
  "uc_ok uc \<longleftrightarrow>
     read_pos uc = - 1 \<and> 0 \<le> header uc \<and> header uc < 256 \<or>
     0 \<le> read_pos uc \<and> nat (read_pos uc) < np_size (pack uc) \<and> np_size (pack uc) < 65536 \<and>
     length (np_buffer (pack uc)) = np_size (pack uc)"

definition uc_bytes :: "uncomplete \<Rightarrow> bytes" where
  "uc_bytes uc =
     (if read_pos uc < 0 then [word_of_int (header uc)]
      else write_size (np_size (pack uc)) @ take (nat (read_pos uc)) (np_buffer (pack uc)))"

abbreviation uc_id :: "uncomplete \<Rightarrow> int" where
  "uc_id uc \<equiv> np_id (pack uc)"

definition uc_find :: "npqueue \<Rightarrow> int \<Rightarrow> uncomplete option" where
  "uc_find q fd = find (\<lambda>uc. uc_id uc = fd) (np_hash q (hash_fd fd))"

text \<open>The bytes received on \<open>fd\<close> and not yet part of a complete packet.\<close>

definition residual :: "npqueue \<Rightarrow> int \<Rightarrow> bytes" where
  "residual q fd = (case uc_find q fd of None \<Rightarrow> [] | Some uc \<Rightarrow> uc_bytes uc)"

definition np_inv :: "npqueue \<Rightarrow> bool" where
  "np_inv q \<longleftrightarrow> queue_ok q \<and>
     (\<forall>h. distinct (map uc_id (np_hash q h)) \<and> (\<forall>uc\<in>set (np_hash q h). uc_ok uc))"

lemma unlink_find:
  "distinct (map uc_id ucs) \<Longrightarrow>
     unlink fd ucs = map_option (\<lambda>uc. (uc, filter (\<lambda>u. uc_id u \<noteq> fd) ucs)) (find (\<lambda>uc. uc_id uc = fd) ucs)"
proof (induction ucs)
  case (Cons uc ucs)
  show ?case
  proof (cases "uc_id uc = fd")
    case True
    with Cons.prems have "filter (\<lambda>u. uc_id u \<noteq> fd) ucs = ucs"
      by (intro filter_True) (auto simp: image_iff)
    with True show ?thesis by simp
  next
    case False
    with Cons show ?thesis by (cases "find (\<lambda>uc. uc_id uc = fd) ucs") simp_all
  qed
qed simp

lemma find_filter_other:
  "fd' \<noteq> fd \<Longrightarrow> find (\<lambda>uc. uc_id uc = fd') (filter (\<lambda>u. uc_id u \<noteq> fd) ucs) = find (\<lambda>uc. uc_id uc = fd') ucs"
  by (induction ucs) auto

lemma find_filter_same: "find (\<lambda>uc. uc_id uc = fd) (filter (\<lambda>u. uc_id u \<noteq> fd) ucs) = None"
  by (induction ucs) auto

lemma find_uncomplete_spec:
  assumes "np_inv (get_queue st)" "find_uncomplete st fd = (r, st')"
  shows "r = uc_find (get_queue st) fd" "np_inv (get_queue st')"
    "packets (get_queue st') = packets (get_queue st)"
    "residual (get_queue st') = (residual (get_queue st))(fd := [])" "uc_find (get_queue st') fd = None"
    "r \<noteq> None \<Longrightarrow> st' \<noteq> None"
proof -
  let ?q = "get_queue st" and ?q' = "get_queue st'"
  let ?l = "np_hash ?q (hash_fd fd)"
  let ?f = "filter (\<lambda>u. uc_id u \<noteq> fd) ?l"
  have d: "distinct (map uc_id (np_hash ?q h))" for h using assms(1) by (simp add: np_inv_def)
  have res: "r = uc_find ?q fd" "r \<noteq> None \<Longrightarrow> st' \<noteq> None"
    "?q' = (if r = None then ?q else ?q\<lparr>np_hash := (np_hash ?q)(hash_fd fd := ?f)\<rparr>)"
    using assms(2) unlink_find [OF d, of fd "hash_fd fd"]
    by (auto simp: find_uncomplete_def get_queue_def uc_find_def Let_def split: option.splits)
  show "r = uc_find ?q fd" "r \<noteq> None \<Longrightarrow> st' \<noteq> None" using res by auto
  show "np_inv ?q'"
    using assms(1) res(3) by (auto simp: np_inv_def queue_ok_def distinct_map_filter)
  show "packets ?q' = packets ?q" using res(3) by (simp add: packets_def)
  show none: "uc_find ?q' fd = None"
    using res(1,3) by (cases "uc_find ?q fd") (simp_all add: uc_find_def find_filter_same)
  have "uc_find ?q' fd' = uc_find ?q fd'" if "fd' \<noteq> fd" for fd'
    using that res(3) by (simp add: uc_find_def find_filter_other)
  with none show "residual ?q' = (residual ?q)(fd := [])"
    by (auto simp: residual_def fun_eq_iff)
qed

lemma link_uncomplete_spec:
  assumes "np_inv q" "uc_find q fd = None" "uc_ok uc" "uc_id uc = fd"
  shows "np_inv (link_uncomplete fd uc q)" "packets (link_uncomplete fd uc q) = packets q"
    "residual (link_uncomplete fd uc q) = (residual q)(fd := uc_bytes uc)"
proof -
  let ?q = "link_uncomplete fd uc q"
  have "fd \<notin> set (map uc_id (np_hash q (hash_fd fd)))"
    using assms(2) by (auto simp: uc_find_def find_None_iff)
  then show "np_inv ?q"
    using assms by (auto simp: np_inv_def queue_ok_def link_uncomplete_def Let_def)
  show "packets ?q = packets q" by (simp add: packets_def link_uncomplete_def Let_def)
  show "residual ?q = (residual q)(fd := uc_bytes uc)"
    using assms(4) by (auto simp: residual_def uc_find_def link_uncomplete_def Let_def fun_eq_iff)
qed

abbreviation mkpack :: "int \<Rightarrow> bytes \<Rightarrow> netpack" where
  "mkpack fd p \<equiv> \<lparr>np_id = fd, np_size = length p, np_buffer = p\<rparr>"

lemma push_data_spec:
  assumes "np_inv (get_queue st)"
  shows "np_inv (get_queue (push_data fd b st))"
    "packets (get_queue (push_data fd b st)) = packets (get_queue st) @ [mkpack fd b]"
    "residual (get_queue (push_data fd b st)) = residual (get_queue st)"
    "uc_find (get_queue (push_data fd b st)) = uc_find (get_queue st)"
proof -
  have e: "get_queue (push_data fd b st) = enqueue (mkpack fd b) (get_queue st)"
    by (simp add: push_data_def get_queue_def)
  have ok: "queue_ok (get_queue st)" using assms by (simp add: np_inv_def)
  note sp = enqueue_spec [OF ok, of "mkpack fd b"]
  show "uc_find (get_queue (push_data fd b st)) = uc_find (get_queue st)"
    by (simp add: e sp fun_eq_iff uc_find_def)
  then show "residual (get_queue (push_data fd b st)) = residual (get_queue st)"
    by (simp add: fun_eq_iff residual_def)
  show "np_inv (get_queue (push_data fd b st))"
    using assms sp by (simp add: e np_inv_def)
  show "packets (get_queue (push_data fd b st)) = packets (get_queue st) @ [mkpack fd b]"
    by (simp add: e sp)
qed


lemma save_uncomplete_spec:
  assumes "np_inv (get_queue st)" "uc_find (get_queue st) fd = None"
    and "uc = \<lparr>pack = \<lparr>np_id = fd, np_size = sz, np_buffer = buf\<rparr>, read_pos = rd, header = hdr\<rparr>"
    and "uc_ok uc"
  shows "np_inv (get_queue (save_uncomplete fd rd hdr sz buf st)) \<and>
    packets (get_queue (save_uncomplete fd rd hdr sz buf st)) = packets (get_queue st) \<and>
    residual (get_queue (save_uncomplete fd rd hdr sz buf st)) =
      (residual (get_queue st))(fd := uc_bytes uc)"
proof -
  have "get_queue (save_uncomplete fd rd hdr sz buf st) = link_uncomplete fd uc (get_queue st)"
    by (simp add: save_uncomplete_def get_queue_def assms(3))
  with link_uncomplete_spec [OF assms(1,2,4)] assms(3) show ?thesis by simp
qed

text \<open>Saving the incomplete tail of a chunk, in both shapes.\<close>

lemma save_header_spec:
  assumes "np_inv (get_queue st)" "uc_find (get_queue st) fd = None" "length b = 1"
  shows "np_inv (get_queue (save_uncomplete fd (- 1) (uint (b ! 0)) 0 [] st)) \<and>
    packets (get_queue (save_uncomplete fd (- 1) (uint (b ! 0)) 0 [] st)) = packets (get_queue st) \<and>
    residual (get_queue (save_uncomplete fd (- 1) (uint (b ! 0)) 0 [] st)) =
      (residual (get_queue st))(fd := b)"
proof -
  from assms(3) obtain x where b: "b = [x]" by (cases b) auto
  have "uint x < 256" using uint_lt2p [of x] by simp
  with save_uncomplete_spec [OF assms(1,2) refl, of 0 "[]" "- 1" "uint (b ! 0)"] show ?thesis
    by (simp add: uc_ok_def uc_bytes_def b)
qed

lemma save_partial_spec:
  assumes "np_inv (get_queue st)" "uc_find (get_queue st) fd = None" "2 \<le> length b"
    and "length (drop 2 b) < read_size b"
  defines "s \<equiv> save_uncomplete fd (int (length (drop 2 b))) 0 (read_size b)
      (memcpy (replicate (read_size b) 0) 0 (drop 2 b)) st"
  shows "np_inv (get_queue s) \<and> packets (get_queue s) = packets (get_queue st) \<and>
    residual (get_queue s) = (residual (get_queue st))(fd := b)"
proof -
  let ?m = "memcpy (replicate (read_size b) 0) 0 (drop 2 b)"
  have m: "length ?m = read_size b" "take (length (drop 2 b)) ?m = drop 2 b"
    using assms(4) by (simp_all add: memcpy_def)
  have "take 2 b @ drop 2 b = b" by simp
  then show ?thesis
    unfolding s_def
    using save_uncomplete_spec [OF assms(1,2) refl, of "read_size b" ?m "int (length (drop 2 b))" 0]
      m assms(3,4) read_size_bound [of b]
    by (simp add: uc_ok_def uc_bytes_def write_read_size del: length_drop)
qed

lemma parse_short: "length b = 1 \<Longrightarrow> parse b = ([], b)"
  by (subst parse.simps) simp

lemma parse_partial: "2 \<le> length b \<Longrightarrow> length (drop 2 b) < read_size b \<Longrightarrow> parse b = ([], b)"
  by (subst parse.simps) (auto simp: Let_def)

lemma parse_packet:
  "2 \<le> length b \<Longrightarrow> read_size b \<le> length (drop 2 b) \<Longrightarrow>
     parse b = (take (read_size b) (drop 2 b) # fst (parse (drop (read_size b) (drop 2 b))),
                snd (parse (drop (read_size b) (drop 2 b))))"
  by (subst parse.simps) (auto simp: Let_def add.commute split: prod.split)

lemma parse_Nil: "parse [] = ([], [])"
  by (simp add: parse.simps)

lemma push_more_spec:
  assumes "np_inv (get_queue st)" "uc_find (get_queue st) fd = None" "b \<noteq> []"
  shows "np_inv (get_queue (push_more fd b st)) \<and>
    packets (get_queue (push_more fd b st)) = packets (get_queue st) @ map (mkpack fd) (fst (parse b)) \<and>
    residual (get_queue (push_more fd b st)) = (residual (get_queue st))(fd := snd (parse b))"
  using assms
proof (induction fd b st rule: push_more.induct)
  case (1 fd b st)
  show ?case
  proof (cases "length b = 1")
    case True
    with save_header_spec [OF "1.prems"(1,2) True] show ?thesis
      by (simp add: push_more.simps [of fd b] parse_short)
  next
    case False
    with "1.prems"(3) have two: "2 \<le> length b" by (cases b; cases "tl b") auto
    show ?thesis
    proof (cases "length (drop 2 b) < read_size b")
      case True
      with save_partial_spec [OF "1.prems"(1,2) two True] two show ?thesis
        by (simp add: push_more.simps [of fd b] parse_partial Let_def)
    next
      case complete: False
      let ?rest = "drop (read_size b) (drop 2 b)" and ?p = "take (read_size b) (drop 2 b)"
      let ?st = "push_data fd ?p st"
      note pd = push_data_spec [OF "1.prems"(1), of fd ?p]
      have pm: "push_more fd b st = (if 0 < length ?rest then push_more fd ?rest ?st else ?st)"
        using False complete by (simp add: push_more.simps [of fd b] Let_def)
      have pp: "parse b = (?p # fst (parse ?rest), snd (parse ?rest))"
        using parse_packet [OF two] complete by simp
      have nores: "residual (get_queue st) fd = []" using "1.prems"(2) by (simp add: residual_def)
      show ?thesis
      proof (cases "?rest = []")
        case True
        then have "get_queue (push_more fd b st) = get_queue ?st" "parse b = ([?p], [])"
          using pm pp by (simp_all add: parse_Nil)
        moreover have "(residual (get_queue st))(fd := []) = residual (get_queue st)"
          using nores by (simp add: fun_upd_idem)
        ultimately show ?thesis using pd by simp
      next
        case more: False
        then have "push_more fd b st = push_more fd ?rest ?st" using pm by simp
        moreover have "np_inv (get_queue (push_more fd ?rest ?st)) \<and>
            packets (get_queue (push_more fd ?rest ?st)) =
              packets (get_queue ?st) @ map (mkpack fd) (fst (parse ?rest)) \<and>
            residual (get_queue (push_more fd ?rest ?st)) =
              (residual (get_queue ?st))(fd := snd (parse ?rest))"
          using "1.IH" [OF False refl refl complete refl refl] more pd "1.prems"(2)
          by (simp add: fun_upd_def)
        ultimately show ?thesis using pp pd by simp
      qed
    qed
  qed
qed


text \<open>Filling up the incomplete packet of a connection.\<close>

lemma uc_fill:
  assumes "nat (read_pos uc) \<le> np_size (pack uc)" "0 \<le> read_pos uc" "np_size (pack uc) < 65536"
    and "length (np_buffer (pack uc)) = np_size (pack uc)" and n: "n = np_size (pack uc) - nat (read_pos uc)"
  defines "buf \<equiv> np_buffer (pack uc)" and "pos \<equiv> nat (read_pos uc)"
  shows "length c < n \<Longrightarrow> parse (uc_bytes uc @ c) = ([], uc_bytes uc @ c)"
    and "length c < n \<Longrightarrow> length (memcpy buf pos c) = np_size (pack uc) \<and>
      take (pos + length c) (memcpy buf pos c) = take pos buf @ c"
    and "n \<le> length c \<Longrightarrow> parse (uc_bytes uc @ c) =
      (memcpy buf pos (take n c) # fst (parse (drop n c)), snd (parse (drop n c)))"
proof -
  let ?sz = "np_size (pack uc)"
  from assms have ok: "pos \<le> ?sz" "?sz < 65536" "length buf = ?sz" by auto
  have ub: "uc_bytes uc @ c = write_size ?sz @ take pos buf @ c"
    using assms(2) by (simp add: uc_bytes_def buf_def pos_def)
  have rs: "read_size (uc_bytes uc @ c) = ?sz" unfolding ub using ok(2) by (rule read_write_size)
  have d2: "drop 2 (uc_bytes uc @ c) = take pos buf @ c" unfolding ub by simp
  have two: "2 \<le> length (uc_bytes uc @ c)" unfolding ub by simp
  have np: "n + pos = ?sz" using n ok(1) by (simp add: pos_def)
  show "parse (uc_bytes uc @ c) = ([], uc_bytes uc @ c)" if "length c < n"
    by (rule parse_partial [OF two]) (use that np ok in \<open>simp only: rs d2, simp\<close>)
  show "length (memcpy buf pos c) = ?sz \<and> take (pos + length c) (memcpy buf pos c) = take pos buf @ c"
    if "length c < n" using that np ok by (simp add: memcpy_def)
  assume le: "n \<le> length c"
  have "take ?sz (take pos buf @ c) = take pos buf @ take n c" "drop ?sz (take pos buf @ c) = drop n c"
    using np ok le by (simp_all add: min_def flip: np)
  moreover have "memcpy buf pos (take n c) = take pos buf @ take n c"
    using np ok le by (simp add: memcpy_def)
  ultimately show "parse (uc_bytes uc @ c) =
      (memcpy buf pos (take n c) # fst (parse (drop n c)), snd (parse (drop n c)))"
    using parse_packet [OF two, unfolded rs d2] le np ok by simp
qed

definition filter_ok :: "int \<Rightarrow> bytes \<Rightarrow> npstate \<Rightarrow> np_result \<Rightarrow> npstate \<Rightarrow> bool" where
  "filter_ok fd b st r st' \<longleftrightarrow>
     (let q = get_queue st; q' = get_queue st'; (ps, rest) = parse (residual q fd @ b) in
      np_inv q' \<and> residual q' = (residual q)(fd := rest) \<and>
      (case r of
         NpNone \<Rightarrow> ps = [] \<and> packets q' = packets q
       | NpData fd' p \<Rightarrow> fd' = fd \<and> ps = [p] \<and> packets q' = packets q
       | NpMore \<Rightarrow> packets q' = packets q @ map (mkpack fd) ps
       | _ \<Rightarrow> False))"

lemma filter_fresh:
  assumes inv: "np_inv (get_queue st)" and b: "b \<noteq> []" and none: "uc_find (get_queue st) fd = None"
  shows "\<exists>r st'. filter_data fd b st = Some (r, st') \<and> filter_ok fd b st r st'"
proof -
  obtain r0 st1 where f: "find_uncomplete st fd = (r0, st1)" by fastforce
  note fs = find_uncomplete_spec [OF inv f]
  from fs(1) none have r0: "r0 = None" by simp
  have res0: "residual (get_queue st) fd = []" using none by (simp add: residual_def)
  have fd: "filter_data fd b st =
      (if length b = 1 then Some (NpNone, save_uncomplete fd (- 1) (uint (b ! 0)) 0 [] st1)
       else if length (drop 2 b) < read_size b then
         Some (NpNone, save_uncomplete fd (int (length (drop 2 b))) 0 (read_size b)
           (memcpy (replicate (read_size b) 0) 0 (drop 2 b)) st1)
       else if length (drop 2 b) = read_size b then Some (NpData fd (drop 2 b), st1)
       else Some (NpMore, push_more fd (drop (read_size b) (drop 2 b))
         (push_data fd (take (read_size b) (drop 2 b)) st1)))"
    using b by (simp only: filter_data_def f r0 if_False option.case prod.case Let_def)
  show ?thesis
  proof (cases "length b = 1")
    case True
    with save_header_spec [OF fs(2,5) True] fs res0 show ?thesis
      by (simp add: fd filter_ok_def parse_short)
  next
    case False
    with b have two: "2 \<le> length b" by (cases b; cases "tl b") auto
    consider "length (drop 2 b) < read_size b" | "length (drop 2 b) = read_size b"
      | "read_size b < length (drop 2 b)" by linarith
    then show ?thesis
    proof cases
      case 1
      with False save_partial_spec [OF fs(2,5) two 1] fs res0 parse_partial [OF two 1] show ?thesis
        by (simp add: fd filter_ok_def)
    next
      case 2
      then have "parse b = ([drop 2 b], [])"
        using parse_packet [OF two] by (simp add: parse_Nil del: drop_drop)
      with 2 False fs res0 show ?thesis
        by (simp add: fd filter_ok_def fun_upd_idem)
    next
      case 3
      let ?rest = "drop (read_size b) (drop 2 b)" and ?p = "take (read_size b) (drop 2 b)"
      note pd = push_data_spec [OF fs(2), of fd ?p]
      have "?rest \<noteq> []" using 3 by simp
      with push_more_spec [OF pd(1), of fd ?rest] pd fs(5)
      have pm: "np_inv (get_queue (push_more fd ?rest (push_data fd ?p st1)))"
        "packets (get_queue (push_more fd ?rest (push_data fd ?p st1))) =
          packets (get_queue st1) @ mkpack fd ?p # map (mkpack fd) (fst (parse ?rest))"
        "residual (get_queue (push_more fd ?rest (push_data fd ?p st1))) =
          (residual (get_queue st1))(fd := snd (parse ?rest))"
        by (simp_all del: drop_drop length_take)
      moreover have "parse b = (?p # fst (parse ?rest), snd (parse ?rest))"
        using parse_packet [OF two] 3 by simp
      ultimately show ?thesis using 3 False fs res0
        by (simp add: fd filter_ok_def del: drop_drop length_take)
    qed
  qed
qed

text \<open>Completing a header of which one byte had arrived.\<close>

lemma header_step:
  assumes uc: "uc_ok uc" and b: "b \<noteq> []"
    and uc': "uc' = (if read_pos uc < 0 then
      uc\<lparr>pack := (pack uc)\<lparr>np_size := nat (uint (b ! 0) OR push_bit 8 (header uc)),
         np_buffer := replicate (nat (uint (b ! 0) OR push_bit 8 (header uc))) 0\<rparr>, read_pos := 0\<rparr> else uc)"
    and c: "c = (if read_pos uc < 0 then drop 1 b else b)"
  shows "nat (read_pos uc') \<le> np_size (pack uc') \<and> 0 \<le> read_pos uc' \<and> np_size (pack uc') < 65536 \<and>
    length (np_buffer (pack uc')) = np_size (pack uc') \<and> uc_id uc' = uc_id uc \<and>
    uc_bytes uc @ b = uc_bytes uc' @ c"
proof (cases "read_pos uc < 0")
  case False
  with uc uc' c show ?thesis by (auto simp: uc_ok_def)
next
  case True
  with uc have h: "0 \<le> header uc" "header uc < 256" by (auto simp: uc_ok_def)
  obtain y d where bd: "b = y # d" using b by (cases b) auto
  define x :: u8 where "x = word_of_int (header uc)"
  have "uint x = header uc" using h by (simp add: x_def unsigned_of_int take_bit_int_eq_self)
  then have rs: "nat (uint (b ! 0) OR push_bit 8 (header uc)) = read_size [x, y]"
    by (simp add: read_size_def bd or.commute)
  have "write_size (read_size [x, y]) = [x, y]" by (simp add: write_read_size)
  with True uc' c rs read_size_bound [of "[x, y]"] show ?thesis
    by (simp add: uc_bytes_def bd x_def)
qed

lemma filter_fill:
  assumes inv: "np_inv (get_queue st)" and b: "b \<noteq> []" and some: "uc_find (get_queue st) fd = Some uc"
  shows "\<exists>r st'. filter_data fd b st = Some (r, st') \<and> filter_ok fd b st r st'"
proof -
  obtain r0 st1 where f: "find_uncomplete st fd = (r0, st1)" by fastforce
  note fs = find_uncomplete_spec [OF inv f]
  from fs(1) some have r0: "r0 = Some uc" by simp
  have uc: "uc_ok uc" "uc_id uc = fd"
    using inv some unfolding uc_find_def np_inv_def find_Some_iff by (metis nth_mem)+
  have res0: "residual (get_queue st) fd = uc_bytes uc" using some by (simp add: residual_def)
  text \<open>The entry and the rest of the chunk once the header is complete.\<close>
  define ps where "ps = nat (uint (b ! 0) OR push_bit 8 (header uc))"
  define uc' where "uc' = (if read_pos uc < 0 then
      uc\<lparr>pack := (pack uc)\<lparr>np_size := ps, np_buffer := replicate ps 0\<rparr>, read_pos := 0\<rparr> else uc)"
  define c where "c = (if read_pos uc < 0 then drop 1 b else b)"
  define n where "n = np_size (pack uc') - nat (read_pos uc')"
  let ?buf = "np_buffer (pack uc')" and ?pos = "nat (read_pos uc')"
  have fd: "filter_data fd b st =
      (if length c < n then
         Some (NpNone, Some (link_uncomplete fd
           (uc'\<lparr>pack := (pack uc')\<lparr>np_buffer := memcpy ?buf ?pos c\<rparr>,
               read_pos := read_pos uc' + int (length c)\<rparr>) (get_queue st1)))
       else if drop n c = [] then Some (NpData fd (memcpy ?buf ?pos (take n c)), st1)
       else Some (NpMore, push_more fd (drop n c) (push_data fd (memcpy ?buf ?pos (take n c)) st1)))"
    using b by (cases "read_pos uc < 0")
      (simp_all only: filter_data_def f r0 if_False if_True option.case prod.case Let_def uc'_def c_def n_def ps_def)
  have uc': "?pos \<le> np_size (pack uc')" "0 \<le> read_pos uc'" "np_size (pack uc') < 65536"
    "length ?buf = np_size (pack uc')" "uc_id uc' = fd"
    and bytes: "uc_bytes uc @ b = uc_bytes uc' @ c"
    using header_step [OF uc(1) b uc'_def [unfolded ps_def] c_def] uc(2) by simp_all
  note fill = uc_fill [OF uc'(1-4) n_def, of c]
  have pr: "parse (residual (get_queue st) fd @ b) = parse (uc_bytes uc' @ c)"
    by (simp only: res0 bytes)
  show ?thesis
  proof (cases "length c < n")
    case True
    let ?u = "uc'\<lparr>pack := (pack uc')\<lparr>np_buffer := memcpy ?buf ?pos c\<rparr>,
               read_pos := read_pos uc' + int (length c)\<rparr>"
    have pos: "nat (read_pos uc' + int (length c)) = ?pos + length c" using uc'(2) by simp
    then have u: "uc_ok ?u" "uc_id ?u = fd" "uc_bytes ?u = uc_bytes uc' @ c"
      using True uc' fill(2) [OF True] by (simp_all add: uc_ok_def uc_bytes_def n_def)
    with link_uncomplete_spec [OF fs(2,5) u(1,2)] fs fill(1) [OF True] pr True show ?thesis
      by (simp add: fd filter_ok_def get_queue_def)
  next
    case False
    let ?p = "memcpy ?buf ?pos (take n c)"
    have pa: "parse (uc_bytes uc' @ c) = (?p # fst (parse (drop n c)), snd (parse (drop n c)))"
      using False by (intro fill(3)) simp
    show ?thesis
    proof (cases "drop n c = []")
      case True
      with False fs pr pa show ?thesis by (simp add: fd filter_ok_def parse_Nil)
    next
      case more: False
      note pd = push_data_spec [OF fs(2), of fd ?p]
      have "uc_find (get_queue (push_data fd ?p st1)) fd = None" using pd(4) fs(5) by simp
      from push_more_spec [OF pd(1) this more] pd fs False more pr pa show ?thesis
        by (simp add: fd filter_ok_def)
    qed
  qed
qed


lemma filter_data_spec:
  assumes "np_inv (get_queue st)" "b \<noteq> []"
  shows "\<exists>r st'. filter_data fd b st = Some (r, st') \<and> filter_ok fd b st r st'"
  using filter_fresh [OF assms] filter_fill [OF assms] by (cases "uc_find (get_queue st) fd") auto

section \<open>A connection from both ends\<close>

text \<open>
  The receiving side: each chunk goes through \<open>lfilter\<close>; a single packet is delivered at once,
  and after \<open>more\<close> the queue is emptied with \<open>lpop\<close>.
\<close>

partial_function (option) drain :: "npstate \<Rightarrow> (netpack list \<times> npstate) option" where
  "drain st =
     (case lpop st of
        (None, st1) \<Rightarrow> Some ([], st1)
      | (Some np, st1) \<Rightarrow> do { (nps, st2) \<leftarrow> drain st1; Some (np # nps, st2) })"

definition deliver :: "int \<Rightarrow> bytes \<Rightarrow> npstate \<Rightarrow> ((int \<times> bytes) list \<times> npstate) option" where
  "deliver fd b st =
     do { (r, st1) \<leftarrow> lfilter (SOCKET_DATA fd b) st;
          case r of
            NpData fd' p \<Rightarrow> Some ([(fd', p)], st1)
          | NpMore \<Rightarrow> do { (nps, st2) \<leftarrow> drain st1; Some (map (\<lambda>n. (np_id n, np_buffer n)) nps, st2) }
          | _ \<Rightarrow> Some ([], st1) }"

fun np_run :: "(int \<times> bytes) list \<Rightarrow> npstate \<Rightarrow> ((int \<times> bytes) list \<times> npstate) option" where
  "np_run [] st = Some ([], st)"
| "np_run ((fd, b) # cs) st =
     do { (out, st1) \<leftarrow> deliver fd b st;
          (outs, st2) \<leftarrow> np_run cs st1;
          Some (out @ outs, st2) }"

definition on_fd :: "int \<Rightarrow> (int \<times> bytes) list \<Rightarrow> bytes list" where
  "on_fd fd xs = map snd (filter (\<lambda>x. fst x = fd) xs)"

lemma on_fd_simps [simp]:
  "on_fd fd [] = []" "on_fd fd ((fd', b) # xs) = (if fd' = fd then b # on_fd fd xs else on_fd fd xs)"
  "on_fd fd (xs @ ys) = on_fd fd xs @ on_fd fd ys"
  by (simp_all add: on_fd_def)

lemma on_fd_tagged: "on_fd fd (map (Pair fd') ps) = (if fd = fd' then ps else [])"
  by (induction ps) auto

lemma drain_spec:
  "queue_ok q \<Longrightarrow> \<exists>q'. drain (Some q) = Some (packets q, Some q') \<and> queue_ok q' \<and> packets q' = [] \<and>
     np_hash q' = np_hash q"
proof (induction "packets q" arbitrary: q)
  case Nil
  with lpop_spec [of q] have "lpop (Some q) = (None, Some q)" by (simp split: list.splits)
  with Nil show ?case by (subst drain.simps) simp
next
  case (Cons np nps)
  with lpop_spec [of q] obtain q1 where
    q1: "lpop (Some q) = (Some np, Some q1)" "queue_ok q1" "packets q1 = nps" "np_hash q1 = np_hash q"
    by (auto split: list.splits)
  from Cons.hyps(1) [OF q1(3) [symmetric] q1(2)] obtain q' where
    "drain (Some q1) = Some (nps, Some q')" "queue_ok q'" "packets q' = []" "np_hash q' = np_hash q1"
    using q1(3) by auto
  with q1 Cons.hyps(2) show ?case by (subst drain.simps) simp
qed

lemma drain_state:
  assumes "queue_ok (get_queue st)"
  shows "\<exists>st'. drain st = Some (packets (get_queue st), st') \<and> queue_ok (get_queue st') \<and>
    packets (get_queue st') = [] \<and> np_hash (get_queue st') = np_hash (get_queue st)"
proof (cases st)
  case None
  then show ?thesis by (subst drain.simps) (simp add: lpop_def get_queue_def)
next
  case (Some q)
  with drain_spec [of q] assms show ?thesis by (auto simp: get_queue_def)
qed

lemma deliver_spec:
  assumes inv: "np_inv (get_queue st)" and empty: "packets (get_queue st) = []" and b: "b \<noteq> []"
  shows "\<exists>st'. deliver fd b st = Some (map (Pair fd) (fst (parse (residual (get_queue st) fd @ b))), st') \<and>
    np_inv (get_queue st') \<and> packets (get_queue st') = [] \<and>
    residual (get_queue st') =
      (residual (get_queue st))(fd := snd (parse (residual (get_queue st) fd @ b)))"
proof -
  from filter_data_spec [OF inv b, of fd] obtain r st1 where
    f: "filter_data fd b st = Some (r, st1)" "filter_ok fd b st r st1" by blast
  obtain ps rest where p: "parse (residual (get_queue st) fd @ b) = (ps, rest)" by fastforce
  note ok = f(2) [unfolded filter_ok_def Let_def p prod.case]
  show ?thesis
  proof (cases r)
    case NpMore
    with ok empty have pk: "packets (get_queue st1) = map (mkpack fd) ps" and q: "queue_ok (get_queue st1)"
      by (simp_all add: np_inv_def)
    from drain_state [OF q] obtain st2 where
      d: "drain st1 = Some (packets (get_queue st1), st2)" "queue_ok (get_queue st2)"
        "packets (get_queue st2) = []" "np_hash (get_queue st2) = np_hash (get_queue st1)" by blast
    have "np_inv (get_queue st2)" "residual (get_queue st2) = residual (get_queue st1)"
      using ok d by (simp_all add: np_inv_def residual_def uc_find_def fun_eq_iff)
    with NpMore f(1) d pk ok p show ?thesis
      by (simp add: deliver_def lfilter_def comp_def)
  qed (use f(1) ok p empty in \<open>simp_all add: deliver_def lfilter_def\<close>)
qed


lemma np_run_spec:
  assumes "np_inv (get_queue st)" "packets (get_queue st) = []" "\<forall>(fd, b)\<in>set cs. b \<noteq> []"
  shows "\<exists>out st'. np_run cs st = Some (out, st') \<and> np_inv (get_queue st') \<and>
    packets (get_queue st') = [] \<and>
    (\<forall>fd. parse (residual (get_queue st) fd @ concat (on_fd fd cs)) =
       (on_fd fd out, residual (get_queue st') fd))"
  using assms
proof (induction cs arbitrary: st)
  case Nil
  have stable: "parse (residual (get_queue st) fd) = ([], residual (get_queue st) fd)" for fd
  proof (cases "uc_find (get_queue st) fd")
    case None
    then show ?thesis by (simp add: residual_def parse_Nil)
  next
    case (Some uc)
    then have uc: "uc_ok uc"
      using Nil.prems(1) unfolding uc_find_def np_inv_def find_Some_iff by (metis nth_mem)
    have r: "residual (get_queue st) fd = uc_bytes uc" using Some by (simp add: residual_def)
    show ?thesis
    proof (cases "read_pos uc < 0")
      case True
      then show ?thesis by (simp add: r uc_bytes_def parse_short)
    next
      case False
      with uc show ?thesis
        using uc_fill(1) [of uc "np_size (pack uc) - nat (read_pos uc)" "[]"]
        by (simp add: r uc_ok_def)
    qed
  qed
  with Nil show ?case by simp
next
  case (Cons c cs)
  obtain fd b where c: "c = (fd, b)" by fastforce
  with Cons.prems have b: "b \<noteq> []" "\<forall>(fd, b)\<in>set cs. b \<noteq> []" by auto
  let ?R = "residual (get_queue st)"
  from deliver_spec [OF Cons.prems(1,2) b(1), of fd] obtain st1 where
    d: "deliver fd b st = Some (map (Pair fd) (fst (parse (?R fd @ b))), st1)"
      "np_inv (get_queue st1)" "packets (get_queue st1) = []"
      "residual (get_queue st1) = ?R(fd := snd (parse (?R fd @ b)))" by blast
  from Cons.IH [OF d(2,3) b(2)] obtain out st' where
    r: "np_run cs st1 = Some (out, st')" "np_inv (get_queue st')" "packets (get_queue st') = []"
      "\<And>fd. parse (residual (get_queue st1) fd @ concat (on_fd fd cs)) =
        (on_fd fd out, residual (get_queue st') fd)" by blast
  let ?out = "map (Pair fd) (fst (parse (?R fd @ b))) @ out"
  have "parse (?R fd' @ concat (on_fd fd' (c # cs))) = (on_fd fd' ?out, residual (get_queue st') fd')" for fd'
  proof (cases "fd' = fd")
    case True
    have "parse ((?R fd @ b) @ concat (on_fd fd cs)) =
        (fst (parse (?R fd @ b)) @ on_fd fd out, residual (get_queue st') fd)"
      using parse_append [of "?R fd @ b" "fst (parse (?R fd @ b))" "snd (parse (?R fd @ b))"]
        r(4) [of fd] d(4) by simp
    with True c show ?thesis by (simp add: on_fd_tagged)
  next
    case False
    with r(4) [of fd'] d(4) c show ?thesis by (simp add: on_fd_tagged)
  qed
  with c d r show ?case by simp
qed

text \<open>
  C17: Packets survive the network. However the framed packets of any number of connections are
  cut into chunks and interleaved, the receiving side delivers on every connection exactly the
  packets sent on it, in order, and keeps nothing back.
\<close>

theorem netpack_reassembles:
  assumes "\<forall>(fd, b)\<in>set cs. b \<noteq> []"
    and "\<forall>fd. concat (on_fd fd cs) = concat (map frame (sent fd))"
    and "\<forall>fd. \<forall>p\<in>set (sent fd). length p < 65536"
  shows "\<exists>out st'. np_run cs None = Some (out, st') \<and>
    (\<forall>fd. on_fd fd out = sent fd \<and> residual (get_queue st') fd = [])"
proof -
  have start: "np_inv (get_queue None)" "packets (get_queue None) = []" "residual (get_queue None) fd = []" for fd
    by (simp_all add: get_queue_def np_inv_def residual_def uc_find_def)
  from np_run_spec [OF start(1,2) assms(1)] obtain out st' where
    r: "np_run cs None = Some (out, st')"
      "\<And>fd. parse (concat (on_fd fd cs)) = (on_fd fd out, residual (get_queue st') fd)"
    using start(3) by auto
  have "(on_fd fd out, residual (get_queue st') fd) = (sent fd, [])" for fd
    using r(2) [of fd] parse_frames [of "sent fd"] assms(2,3) by simp
  with r(1) show ?thesis by simp
qed

theorem netpack_reassembles_witness:
  "\<exists>out st'. np_run [(1, [0]), (2, [0, 1, 9, 0]), (1, [2, 7]), (2, [0]), (1, [8, 0, 0])] None = Some (out, st') \<and>
     on_fd 1 out = [[7, 8], []] \<and> on_fd 2 out = [[9], []]"
proof -
  let ?cs = "[(1, [0]), (2, [0, 1, 9, 0]), (1, [2, 7]), (2, [0]), (1, [8, 0, 0])] :: (int \<times> bytes) list"
  let ?sent = "(\<lambda>fd. if fd = 1 then [[7, 8], []] else if fd = 2 then [[9], []] else []) :: int \<Rightarrow> bytes list"
  have "\<forall>fd. concat (on_fd fd ?cs) = concat (map frame (?sent fd))"
    by (auto simp: frame_def write_size_def)
  moreover have "\<forall>(fd, b)\<in>set ?cs. b \<noteq> []" by simp
  moreover have "\<forall>fd. \<forall>p\<in>set (?sent fd). length p < 65536" by auto
  ultimately obtain out st' where "np_run ?cs None = Some (out, st')" "\<forall>fd. on_fd fd out = ?sent fd"
    using netpack_reassembles [of ?cs ?sent] by blast
  then show ?thesis by simp
qed


text \<open>
  What the packers accept. Below 65536 bytes all three produce the framed packet, the
  padding variant with the cookie behind the content, and the receiver reads it back; above
  65536 they raise an error. The limit itself is accepted too, but its length does not fit
  the header: the receiver then sees an empty packet first.
\<close>

theorem netpack_packers:
  "(length p < 0x10000 \<longrightarrow> lpack p = Some (frame p) \<and> parse (frame p) = ([p], [])) \<and>
   (length p > 0x10000 \<longrightarrow> lpack p = None) \<and>
   (length p = 0x10000 \<longrightarrow> lpack p = Some (0 # 0 # p) \<and> hd (fst (parse (0 # 0 # p))) = []) \<and>
   lpack_string p = lpack p \<and> lpack_padding cookie p = lpack (p @ cookie)"
proof -
  have small: "lpack p = Some (frame p) \<and> parse (frame p) = ([p], [])" if "length p < 0x10000"
    using that parse_frames [of "[p]"] by (simp add: lpack_def frame_def)
  have limit: "lpack p = Some (0 # 0 # p) \<and> hd (fst (parse (0 # 0 # p))) = []" if "length p = 0x10000"
  proof -
    have "read_size (0 # 0 # p) = 0" by (simp add: read_size_eq)
    then have "parse (0 # 0 # p) = ([] # fst (parse p), snd (parse p))"
      using parse_packet [of "0 # 0 # p"] by simp
    moreover have "write_size 0x10000 = [0, 0]" by (simp add: write_size_def)
    ultimately show ?thesis using that by (simp add: lpack_def)
  qed
  have "lpack_string p = lpack p" by (simp add: lpack_string_def lpack_def Let_def SMALLSTRING_def)
  moreover have "lpack_padding cookie p = lpack (p @ cookie)"
    by (simp add: lpack_padding_def lpack_def Let_def SMALLSTRING_def add.commute)
  moreover have "length p > 0x10000 \<longrightarrow> lpack p = None" by (simp add: lpack_def)
  ultimately show ?thesis using small limit by blast
qed

theorem netpack_packers_witness:
  "lpack [1, 2] = Some [0, 2, 1, 2] \<and> lpack_padding [9] [1, 2] = lpack [1, 2, 9]"
  using netpack_packers [of "[1, 2]" "[9]"] by (simp add: frame_def write_size_def)

text \<open>
  \<open>lclear\<close> frees the buffer of every incomplete packet and of every queued packet once, in
  queue order, and leaves both empty.
\<close>

theorem lclear_frees_all:
  assumes "queue_ok q"
  shows "\<exists>q'. lclear (Some q) =
      (concat (map (\<lambda>i. map (\<lambda>uc. np_buffer (pack uc)) (np_hash q i)) [0..<HASHSIZE])
         @ map np_buffer (packets q), Some q') \<and>
    packets q' = [] \<and> (\<forall>fd. residual q' fd = [])"
proof -
  let ?xs = "np_queue q" and ?h = "np_head q" and ?t = "np_tail q"
  let ?t' = "if ?h > ?t then ?t + np_cap q else ?t"
  have ok: "length ?xs = np_cap q" "?h < np_cap q" "?t < np_cap q" using assms by (auto simp: queue_ok_def)
  have "map (\<lambda>i. ?xs ! (i mod np_cap q)) [?h..<?t'] = packets q"
  proof (cases "?h > ?t")
    case True
    have "[?h..<?t + np_cap q] = [?h..<np_cap q] @ map (\<lambda>i. i + np_cap q) [0..<?t]"
      using ok by (simp add: map_add_upt upt_add_eq_append [of ?h "np_cap q" ?t, symmetric] add.commute)
    then have "map (\<lambda>i. ?xs ! (i mod np_cap q)) [?h..<?t + np_cap q] =
        map ((!) ?xs) [?h..<np_cap q] @ map ((!) ?xs) [0..<?t]"
      using ok by simp
    with True ok show ?thesis by (simp add: packets_def ring_def map_nth_upt map_nth_upt_drop)
  next
    case False
    then have "map (\<lambda>i. ?xs ! (i mod np_cap q)) [?h..<?t] = map ((!) ?xs) [?h..<?t]"
      using ok by simp
    with False ok show ?thesis by (simp add: packets_def ring_def map_nth_upt_drop)
  qed
  then have "map (\<lambda>i. np_buffer (?xs ! (i mod np_cap q))) [?h..<?t'] = map np_buffer (packets q)"
    by (metis (no_types, lifting) comp_apply map_eq_conv map_map)
  moreover have "hash_fd fd < HASHSIZE" for fd by (simp add: hash_fd_def HASHSIZE_def)
  ultimately show ?thesis
    by (simp add: lclear_def Let_def packets_def residual_def uc_find_def)
qed

theorem lclear_frees_all_witness:
  "\<exists>q'. lclear (push_data 1 [7, 8] None) = ([[7, 8]], Some q') \<and> packets q' = []"
proof -
  let ?q = "enqueue (mkpack 1 [7, 8]) new_queue"
  have q: "push_data 1 [7, 8] None = Some ?q" by (simp add: push_data_def get_queue_def)
  note sp = enqueue_spec [OF new_queue_ok(1), of "mkpack 1 [7, 8]"]
  from lclear_frees_all [OF sp(1)] sp show ?thesis unfolding q by (auto simp: map_replicate_const)
qed

end
