(* ===== verification/Des.thy ===== *)
theory Des
  imports Prelude
begin

text \<open>
  The DES part of \<open>src/lualib/lcrypt.c\<close>: S-boxes, key schedule, the block transform and the
  padded \<open>ldesencode\<close>/\<open>ldesdecode\<close>. Blocks, keys and texts are byte lists; the C macros that
  update \<open>X\<close> and \<open>Y\<close> in place are functions on the pair. A Lua error is \<open>None\<close>.
\<close>

section \<open>Tables\<close>

definition SB1 :: "u32 list" where
  "SB1 =
    [0x01010400, 0x00000000, 0x00010000, 0x01010404, 0x01010004, 0x00010404, 0x00000004, 0x00010000,
     0x00000400, 0x01010400, 0x01010404, 0x00000400, 0x01000404, 0x01010004, 0x01000000, 0x00000004,
     0x00000404, 0x01000400, 0x01000400, 0x00010400, 0x00010400, 0x01010000, 0x01010000, 0x01000404,
     0x00010004, 0x01000004, 0x01000004, 0x00010004, 0x00000000, 0x00000404, 0x00010404, 0x01000000,
     0x00010000, 0x01010404, 0x00000004, 0x01010000, 0x01010400, 0x01000000, 0x01000000, 0x00000400,
     0x01010004, 0x00010000, 0x00010400, 0x01000004, 0x00000400, 0x00000004, 0x01000404, 0x00010404,
     0x01010404, 0x00010004, 0x01010000, 0x01000404, 0x01000004, 0x00000404, 0x00010404, 0x01010400,
     0x00000404, 0x01000400, 0x01000400, 0x00000000, 0x00010004, 0x00010400, 0x00000000, 0x01010004]"

definition SB2 :: "u32 list" where
  "SB2 =
    [0x80108020, 0x80008000, 0x00008000, 0x00108020, 0x00100000, 0x00000020, 0x80100020, 0x80008020,
     0x80000020, 0x80108020, 0x80108000, 0x80000000, 0x80008000, 0x00100000, 0x00000020, 0x80100020,
     0x00108000, 0x00100020, 0x80008020, 0x00000000, 0x80000000, 0x00008000, 0x00108020, 0x80100000,
     0x00100020, 0x80000020, 0x00000000, 0x00108000, 0x00008020, 0x80108000, 0x80100000, 0x00008020,
     0x00000000, 0x00108020, 0x80100020, 0x00100000, 0x80008020, 0x80100000, 0x80108000, 0x00008000,
     0x80100000, 0x80008000, 0x00000020, 0x80108020, 0x00108020, 0x00000020, 0x00008000, 0x80000000,
     0x00008020, 0x80108000, 0x00100000, 0x80000020, 0x00100020, 0x80008020, 0x80000020, 0x00100020,
     0x00108000, 0x00000000, 0x80008000, 0x00008020, 0x80000000, 0x80100020, 0x80108020, 0x00108000]"

definition SB3 :: "u32 list" where
  "SB3 =
    [0x00000208, 0x08020200, 0x00000000, 0x08020008, 0x08000200, 0x00000000, 0x00020208, 0x08000200,
     0x00020008, 0x08000008, 0x08000008, 0x00020000, 0x08020208, 0x00020008, 0x08020000, 0x00000208,
     0x08000000, 0x00000008, 0x08020200, 0x00000200, 0x00020200, 0x08020000, 0x08020008, 0x00020208,
     0x08000208, 0x00020200, 0x00020000, 0x08000208, 0x00000008, 0x08020208, 0x00000200, 0x08000000,
     0x08020200, 0x08000000, 0x00020008, 0x00000208, 0x00020000, 0x08020200, 0x08000200, 0x00000000,
     0x00000200, 0x00020008, 0x08020208, 0x08000200, 0x08000008, 0x00000200, 0x00000000, 0x08020008,
     0x08000208, 0x00020000, 0x08000000, 0x08020208, 0x00000008, 0x00020208, 0x00020200, 0x08000008,
     0x08020000, 0x08000208, 0x00000208, 0x08020000, 0x00020208, 0x00000008, 0x08020008, 0x00020200]"

definition SB4 :: "u32 list" where
  "SB4 =
    [0x00802001, 0x00002081, 0x00002081, 0x00000080, 0x00802080, 0x00800081, 0x00800001, 0x00002001,
     0x00000000, 0x00802000, 0x00802000, 0x00802081, 0x00000081, 0x00000000, 0x00800080, 0x00800001,
     0x00000001, 0x00002000, 0x00800000, 0x00802001, 0x00000080, 0x00800000, 0x00002001, 0x00002080,
     0x00800081, 0x00000001, 0x00002080, 0x00800080, 0x00002000, 0x00802080, 0x00802081, 0x00000081,
     0x00800080, 0x00800001, 0x00802000, 0x00802081, 0x00000081, 0x00000000, 0x00000000, 0x00802000,
     0x00002080, 0x00800080, 0x00800081, 0x00000001, 0x00802001, 0x00002081, 0x00002081, 0x00000080,
     0x00802081, 0x00000081, 0x00000001, 0x00002000, 0x00800001, 0x00002001, 0x00802080, 0x00800081,
     0x00002001, 0x00002080, 0x00800000, 0x00802001, 0x00000080, 0x00800000, 0x00002000, 0x00802080]"

definition SB5 :: "u32 list" where
  "SB5 =
    [0x00000100, 0x02080100, 0x02080000, 0x42000100, 0x00080000, 0x00000100, 0x40000000, 0x02080000,
     0x40080100, 0x00080000, 0x02000100, 0x40080100, 0x42000100, 0x42080000, 0x00080100, 0x40000000,
     0x02000000, 0x40080000, 0x40080000, 0x00000000, 0x40000100, 0x42080100, 0x42080100, 0x02000100,
     0x42080000, 0x40000100, 0x00000000, 0x42000000, 0x02080100, 0x02000000, 0x42000000, 0x00080100,
     0x00080000, 0x42000100, 0x00000100, 0x02000000, 0x40000000, 0x02080000, 0x42000100, 0x40080100,
     0x02000100, 0x40000000, 0x42080000, 0x02080100, 0x40080100, 0x00000100, 0x02000000, 0x42080000,
     0x42080100, 0x00080100, 0x42000000, 0x42080100, 0x02080000, 0x00000000, 0x40080000, 0x42000000,
     0x00080100, 0x02000100, 0x40000100, 0x00080000, 0x00000000, 0x40080000, 0x02080100, 0x40000100]"

definition SB6 :: "u32 list" where
  "SB6 =
    [0x20000010, 0x20400000, 0x00004000, 0x20404010, 0x20400000, 0x00000010, 0x20404010, 0x00400000,
     0x20004000, 0x00404010, 0x00400000, 0x20000010, 0x00400010, 0x20004000, 0x20000000, 0x00004010,
     0x00000000, 0x00400010, 0x20004010, 0x00004000, 0x00404000, 0x20004010, 0x00000010, 0x20400010,
     0x20400010, 0x00000000, 0x00404010, 0x20404000, 0x00004010, 0x00404000, 0x20404000, 0x20000000,
     0x20004000, 0x00000010, 0x20400010, 0x00404000, 0x20404010, 0x00400000, 0x00004010, 0x20000010,
     0x00400000, 0x20004000, 0x20000000, 0x00004010, 0x20000010, 0x20404010, 0x00404000, 0x20400000,
     0x00404010, 0x20404000, 0x00000000, 0x20400010, 0x00000010, 0x00004000, 0x20400000, 0x00404010,
     0x00004000, 0x00400010, 0x20004010, 0x00000000, 0x20404000, 0x20000000, 0x00400010, 0x20004010]"

definition SB7 :: "u32 list" where
  "SB7 =
    [0x00200000, 0x04200002, 0x04000802, 0x00000000, 0x00000800, 0x04000802, 0x00200802, 0x04200800,
     0x04200802, 0x00200000, 0x00000000, 0x04000002, 0x00000002, 0x04000000, 0x04200002, 0x00000802,
     0x04000800, 0x00200802, 0x00200002, 0x04000800, 0x04000002, 0x04200000, 0x04200800, 0x00200002,
     0x04200000, 0x00000800, 0x00000802, 0x04200802, 0x00200800, 0x00000002, 0x04000000, 0x00200800,
     0x04000000, 0x00200800, 0x00200000, 0x04000802, 0x04000802, 0x04200002, 0x04200002, 0x00000002,
     0x00200002, 0x04000000, 0x04000800, 0x00200000, 0x04200800, 0x00000802, 0x00200802, 0x04200800,
     0x00000802, 0x04000002, 0x04200802, 0x04200000, 0x00200800, 0x00000000, 0x00000002, 0x04200802,
     0x00000000, 0x00200802, 0x04200000, 0x00000800, 0x04000002, 0x04000800, 0x00000800, 0x00200002]"

definition SB8 :: "u32 list" where
  "SB8 =
    [0x10001040, 0x00001000, 0x00040000, 0x10041040, 0x10000000, 0x10001040, 0x00000040, 0x10000000,
     0x00040040, 0x10040000, 0x10041040, 0x00041000, 0x10041000, 0x00041040, 0x00001000, 0x00000040,
     0x10040000, 0x10000040, 0x10001000, 0x00001040, 0x00041000, 0x00040040, 0x10040040, 0x10041000,
     0x00001040, 0x00000000, 0x00000000, 0x10040040, 0x10000040, 0x10001000, 0x00041040, 0x00040000,
     0x00041040, 0x00040000, 0x10041000, 0x00001000, 0x00000040, 0x10040040, 0x00001000, 0x00041040,
     0x10001000, 0x00000040, 0x10000040, 0x10040000, 0x10040040, 0x10000000, 0x00040000, 0x10001040,
     0x00000000, 0x10041040, 0x00040040, 0x10000040, 0x10040000, 0x10001000, 0x10001040, 0x00000000,
     0x10041040, 0x00041000, 0x00041000, 0x00001040, 0x00001040, 0x00040040, 0x10000000, 0x10041000]"

definition LHs :: "u32 list" where
  "LHs =
    [0x00000000, 0x00000001, 0x00000100, 0x00000101, 0x00010000, 0x00010001, 0x00010100, 0x00010101,
     0x01000000, 0x01000001, 0x01000100, 0x01000101, 0x01010000, 0x01010001, 0x01010100, 0x01010101]"

definition RHs :: "u32 list" where
  "RHs =
    [0x00000000, 0x01000000, 0x00010000, 0x01010000, 0x00000100, 0x01000100, 0x00010100, 0x01010100,
     0x00000001, 0x01000001, 0x00010001, 0x01010001, 0x00000101, 0x01000101, 0x00010101, 0x01010101]"


section \<open>Words and bytes\<close>

definition GET_UINT32 :: "bytes \<Rightarrow> nat \<Rightarrow> u32" where
  "GET_UINT32 b i =
     push_bit 24 (ucast (b ! i)) OR push_bit 16 (ucast (b ! (i + 1))) OR
     push_bit 8 (ucast (b ! (i + 2))) OR ucast (b ! (i + 3))"

definition PUT_UINT32 :: "u32 \<Rightarrow> bytes" where
  "PUT_UINT32 n = [ucast (drop_bit 24 n), ucast (drop_bit 16 n), ucast (drop_bit 8 n), ucast n]"

section \<open>Permutations\<close>

text \<open>
  The line \<open>T = ((X >> n) ^ Y) & m; Y ^= T; X ^= (T << n);\<close> that both permutation macros repeat.
\<close>

definition des_swap :: "nat \<Rightarrow> u32 \<Rightarrow> u32 \<times> u32 \<Rightarrow> u32 \<times> u32" where
  "des_swap n m = (\<lambda>(X, Y). let T = (drop_bit n X XOR Y) AND m in (X XOR push_bit n T, Y XOR T))"

definition DES_IP :: "u32 \<times> u32 \<Rightarrow> u32 \<times> u32" where
  "DES_IP = (\<lambda>(X, Y).
     let (X, Y) = des_swap 4 0x0F0F0F0F (X, Y);
         (X, Y) = des_swap 16 0x0000FFFF (X, Y);
         (Y, X) = des_swap 2 0x33333333 (Y, X);
         (Y, X) = des_swap 8 0x00FF00FF (Y, X);
         Y = (push_bit 1 Y OR drop_bit 31 Y) AND 0xFFFFFFFF;
         (X, Y) = des_swap 0 0xAAAAAAAA (X, Y);
         X = (push_bit 1 X OR drop_bit 31 X) AND 0xFFFFFFFF
     in (X, Y))"

definition DES_FP :: "u32 \<times> u32 \<Rightarrow> u32 \<times> u32" where
  "DES_FP = (\<lambda>(X, Y).
     let X = (push_bit 31 X OR drop_bit 1 X) AND 0xFFFFFFFF;
         (X, Y) = des_swap 0 0xAAAAAAAA (X, Y);
         Y = (push_bit 31 Y OR drop_bit 1 Y) AND 0xFFFFFFFF;
         (Y, X) = des_swap 8 0x00FF00FF (Y, X);
         (Y, X) = des_swap 2 0x33333333 (Y, X);
         (X, Y) = des_swap 16 0x0000FFFF (X, Y);
         (X, Y) = des_swap 4 0x0F0F0F0F (X, Y)
     in (X, Y))"

section \<open>Rounds\<close>

text \<open>What \<open>DES_ROUND(X, Y)\<close> xors into \<open>Y\<close>, for the next two subkey words.\<close>

definition des_f :: "u32 \<Rightarrow> u32 \<Rightarrow> u32 \<Rightarrow> u32" where
  "des_f k1 k2 X =
     (let T = k1 XOR X;
          a = SB8 ! unat (T AND 0x3F) XOR SB6 ! unat (drop_bit 8 T AND 0x3F) XOR
              SB4 ! unat (drop_bit 16 T AND 0x3F) XOR SB2 ! unat (drop_bit 24 T AND 0x3F);
          T = k2 XOR (push_bit 28 X OR drop_bit 4 X);
          b = SB7 ! unat (T AND 0x3F) XOR SB5 ! unat (drop_bit 8 T AND 0x3F) XOR
              SB3 ! unat (drop_bit 16 T AND 0x3F) XOR SB1 ! unat (drop_bit 24 T AND 0x3F)
      in a XOR b)"

text \<open>The eight lines \<open>DES_ROUND(Y, X); DES_ROUND(X, Y);\<close>, consuming four subkey words each.\<close>

fun des_rounds :: "u32 list \<Rightarrow> u32 \<times> u32 \<Rightarrow> u32 \<times> u32" where
  "des_rounds (k1 # k2 # k3 # k4 # SK) (X, Y) =
     (let X = X XOR des_f k1 k2 Y; Y = Y XOR des_f k3 k4 X in des_rounds SK (X, Y))"
| "des_rounds _ (X, Y) = (X, Y)"

definition des_crypt :: "u32 list \<Rightarrow> bytes \<Rightarrow> bytes" where
  "des_crypt SK input =
     (let (X, Y) = DES_IP (GET_UINT32 input 0, GET_UINT32 input 4);
          (X, Y) = des_rounds SK (X, Y);
          (Y, X) = DES_FP (Y, X)
      in PUT_UINT32 Y @ PUT_UINT32 X)"

section \<open>Key schedule\<close>

definition ks_pc1 :: "bytes \<Rightarrow> u32 \<times> u32" where
  "ks_pc1 key =
     (let X = GET_UINT32 key 0; Y = GET_UINT32 key 4;
          T = (drop_bit 4 Y XOR X) AND 0x0F0F0F0F; X = X XOR T; Y = Y XOR push_bit 4 T;
          T = (Y XOR X) AND 0x10101010; X = X XOR T; Y = Y XOR T;
          X = push_bit 3 (LHs ! unat (X AND 0xF)) OR push_bit 2 (LHs ! unat (drop_bit 8 X AND 0xF))
              OR push_bit 1 (LHs ! unat (drop_bit 16 X AND 0xF)) OR LHs ! unat (drop_bit 24 X AND 0xF)
              OR push_bit 7 (LHs ! unat (drop_bit 5 X AND 0xF)) OR push_bit 6 (LHs ! unat (drop_bit 13 X AND 0xF))
              OR push_bit 5 (LHs ! unat (drop_bit 21 X AND 0xF)) OR push_bit 4 (LHs ! unat (drop_bit 29 X AND 0xF));
          Y = push_bit 3 (RHs ! unat (drop_bit 1 Y AND 0xF)) OR push_bit 2 (RHs ! unat (drop_bit 9 Y AND 0xF))
              OR push_bit 1 (RHs ! unat (drop_bit 17 Y AND 0xF)) OR RHs ! unat (drop_bit 25 Y AND 0xF)
              OR push_bit 7 (RHs ! unat (drop_bit 4 Y AND 0xF)) OR push_bit 6 (RHs ! unat (drop_bit 12 Y AND 0xF))
              OR push_bit 5 (RHs ! unat (drop_bit 20 Y AND 0xF)) OR push_bit 4 (RHs ! unat (drop_bit 28 Y AND 0xF))
      in (X AND 0x0FFFFFFF, Y AND 0x0FFFFFFF))"

definition ks_rotate :: "nat \<Rightarrow> u32 \<Rightarrow> u32" where
  "ks_rotate i X =
     (if i < 2 \<or> i = 8 \<or> i = 15 then (push_bit 1 X OR drop_bit 27 X) AND 0x0FFFFFFF
      else (push_bit 2 X OR drop_bit 26 X) AND 0x0FFFFFFF)"

definition ks_subkey :: "u32 \<Rightarrow> u32 \<Rightarrow> u32 list" where
  "ks_subkey X Y =
    [(push_bit 4 X AND 0x24000000) OR (push_bit 28 X AND 0x10000000)
     OR (push_bit 14 X AND 0x08000000) OR (push_bit 18 X AND 0x02080000)
     OR (push_bit 6 X AND 0x01000000) OR (push_bit 9 X AND 0x00200000)
     OR (drop_bit 1 X AND 0x00100000) OR (push_bit 10 X AND 0x00040000)
     OR (push_bit 2 X AND 0x00020000) OR (drop_bit 10 X AND 0x00010000)
     OR (drop_bit 13 Y AND 0x00002000) OR (drop_bit 4 Y AND 0x00001000)
     OR (push_bit 6 Y AND 0x00000800) OR (drop_bit 1 Y AND 0x00000400)
     OR (drop_bit 14 Y AND 0x00000200) OR (Y AND 0x00000100)
     OR (drop_bit 5 Y AND 0x00000020) OR (drop_bit 10 Y AND 0x00000010)
     OR (drop_bit 3 Y AND 0x00000008) OR (drop_bit 18 Y AND 0x00000004)
     OR (drop_bit 26 Y AND 0x00000002) OR (drop_bit 24 Y AND 0x00000001),
     (push_bit 15 X AND 0x20000000) OR (push_bit 17 X AND 0x10000000)
     OR (push_bit 10 X AND 0x08000000) OR (push_bit 22 X AND 0x04000000)
     OR (drop_bit 2 X AND 0x02000000) OR (push_bit 1 X AND 0x01000000)
     OR (push_bit 16 X AND 0x00200000) OR (push_bit 11 X AND 0x00100000)
     OR (push_bit 3 X AND 0x00080000) OR (drop_bit 6 X AND 0x00040000)
     OR (push_bit 15 X AND 0x00020000) OR (drop_bit 4 X AND 0x00010000)
     OR (drop_bit 2 Y AND 0x00002000) OR (push_bit 8 Y AND 0x00001000)
     OR (drop_bit 14 Y AND 0x00000808) OR (drop_bit 9 Y AND 0x00000400)
     OR (Y AND 0x00000200) OR (push_bit 7 Y AND 0x00000100)
     OR (drop_bit 7 Y AND 0x00000020) OR (drop_bit 3 Y AND 0x00000011)
     OR (push_bit 2 Y AND 0x00000004) OR (drop_bit 21 Y AND 0x00000002)]"

text \<open>The loop of \<open>des_main_ks\<close> from round \<open>i\<close> on, with \<open>n\<close> rounds left.\<close>

fun ks_loop :: "nat \<Rightarrow> nat \<Rightarrow> u32 \<times> u32 \<Rightarrow> u32 list" where
  "ks_loop 0 i XY = []"
| "ks_loop (Suc n) i (X, Y) =
     (let X = ks_rotate i X; Y = ks_rotate i Y in ks_subkey X Y @ ks_loop n (i + 1) (X, Y))"

definition des_main_ks :: "bytes \<Rightarrow> u32 list" where
  "des_main_ks key = ks_loop 16 0 (ks_pc1 key)"

definition des_key :: "bytes \<Rightarrow> u32 list option" where
  "des_key key = (if length key \<noteq> 8 then None else Some (des_main_ks key))"


section \<open>Encoding and decoding texts\<close>

text \<open>The blocks of eight bytes, and the padded tail: \<open>0x80\<close>, then zeros.\<close>

fun crypt_blocks :: "u32 list \<Rightarrow> nat \<Rightarrow> bytes \<Rightarrow> bytes" where
  "crypt_blocks SK 0 text = []"
| "crypt_blocks SK (Suc n) text = des_crypt SK (take 8 text) @ crypt_blocks SK n (drop 8 text)"

definition des_tail :: "bytes \<Rightarrow> bytes" where
  "des_tail rest =
     map (\<lambda>j. if j < length rest then rest ! j else if j = length rest then 0x80 else 0) [0..<8]"

definition ldesencode :: "bytes \<Rightarrow> bytes \<Rightarrow> bytes option" where
  "ldesencode key text =
     (case des_key key of None \<Rightarrow> None
      | Some SK \<Rightarrow>
         (let n = length text div 8
          in Some (crypt_blocks SK n text @ des_crypt SK (des_tail (drop (8 * n) text)))))"

text \<open>The subkeys in decryption order.\<close>

definition reverse_ks :: "u32 list \<Rightarrow> u32 list" where
  "reverse_ks ESK = map (\<lambda>i. if even i then ESK ! (30 - i) else ESK ! (31 - (i - 1))) [0..<32]"

text \<open>
  The padding scan \<open>for (i=textsz-1; i>=textsz-8; i--)\<close> over the last \<open>n\<close> bytes, counted from the
  end. The comparison is unsigned: with an eight-byte text it never fails, and a scan over eight
  zeros reads \<open>buffer[-1]\<close>; that read is an error here.
\<close>

fun pad_scan :: "nat \<Rightarrow> bytes \<Rightarrow> nat \<Rightarrow> nat option" where
  "pad_scan 0 rbuf padding = Some padding"
| "pad_scan (Suc n) [] padding = None"
| "pad_scan (Suc n) (b # rbuf) padding =
     (if b = 0 then pad_scan n rbuf (padding + 1) else if b = 0x80 then Some padding else None)"

definition ldesdecode :: "bytes \<Rightarrow> bytes \<Rightarrow> bytes option" where
  "ldesdecode key text =
     (case des_key key of None \<Rightarrow> None
      | Some ESK \<Rightarrow>
         (if length text mod 8 \<noteq> 0 \<or> length text = 0 then None
          else
            (let buffer = crypt_blocks (reverse_ks ESK) (length text div 8) text in
             case pad_scan (if length text = 8 then 9 else 8) (rev buffer) 1 of
               None \<Rightarrow> None
             | Some padding \<Rightarrow>
                 if padding > 8 then None else Some (take (length text - padding) buffer))))"

text \<open>\<open>lrandomkey\<close> for the eight values \<open>rand\<close> returned.\<close>

definition lrandomkey :: "int list \<Rightarrow> bytes" where
  "lrandomkey rs =
     (let tmp = map (\<lambda>r. word_of_int (r AND 0xff)) rs; x = fold (XOR) tmp 0
      in if x = 0 then tmp[0 := tmp ! 0 OR 1] else tmp)"

section \<open>Inverting the block transform\<close>

lemma put_get:
  assumes "length b = 8"
  shows "PUT_UINT32 (GET_UINT32 b 0) @ PUT_UINT32 (GET_UINT32 b 4) = b"
proof -
  have g: "PUT_UINT32 (GET_UINT32 b i) = [b ! i, b ! (i + 1), b ! (i + 2), b ! (i + 3)]" for i
    by (auto simp: PUT_UINT32_def GET_UINT32_def intro!: bit_word_eqI)
      (auto simp: bit_simps dest: bit_imp_le_length)
  from assms have "[b ! 0, b ! 1, b ! 2, b ! 3, b ! 4, b ! 5, b ! 6, b ! 7] = b"
    by (auto simp: length_Suc_conv eval_nat_numeral)
  moreover have "PUT_UINT32 (GET_UINT32 b 0) @ PUT_UINT32 (GET_UINT32 b 4) =
      [b ! 0, b ! 1, b ! 2, b ! 3, b ! 4, b ! 5, b ! 6, b ! 7]"
    using g [of 0] g [of 4] by (simp add: numeral_2_eq_2)
  ultimately show ?thesis by (simp only:)
qed

lemma word_of_bytes:
  "push_bit 24 (ucast (ucast (drop_bit 24 x) :: u8)) OR push_bit 16 (ucast (ucast (drop_bit 16 x) :: u8)) OR
   push_bit 8 (ucast (ucast (drop_bit 8 x) :: u8)) OR ucast (ucast x :: u8) = (x :: u32)"
proof (rule bit_word_eqI)
  fix n
  assume "n < LENGTH(32)"
  then consider "n < 8" | "8 \<le> n" "n < 16" | "16 \<le> n" "n < 24" | "24 \<le> n" "n < 32" by fastforce
  then show "bit (push_bit 24 (ucast (ucast (drop_bit 24 x) :: u8)) OR
      push_bit 16 (ucast (ucast (drop_bit 16 x) :: u8)) OR
      push_bit 8 (ucast (ucast (drop_bit 8 x) :: u8)) OR ucast (ucast x :: u8) :: u32) n = bit x n"
    by cases (auto simp: bit_simps)
qed

lemma get_put:
  "GET_UINT32 (PUT_UINT32 x @ PUT_UINT32 y) 0 = x" "GET_UINT32 (PUT_UINT32 x @ PUT_UINT32 y) 4 = y"
  by (simp_all add: PUT_UINT32_def GET_UINT32_def word_of_bytes)

lemma des_swap_involution:
  assumes "drop_bit n (push_bit n m) = m"
  shows "des_swap n m (des_swap n m p) = p"
proof -
  obtain X Y where p: "p = (X, Y)" by fastforce
  define T where "T = (drop_bit n X XOR Y) AND m"
  have "drop_bit n (push_bit n T) = T"
  proof (rule bit_word_eqI)
    fix i
    assume "i < LENGTH(32)"
    have "bit m i \<Longrightarrow> n + i < LENGTH(32)"
      using assms by (metis bit_drop_bit_eq bit_imp_le_length comp_apply)
    then show "bit (drop_bit n (push_bit n T)) i = bit T i" by (auto simp: bit_simps T_def)
  qed
  then have "(drop_bit n (X XOR push_bit n T) XOR (Y XOR T)) AND m = T"
    by (simp add: T_def bit_eq_iff) (auto simp: bit_simps)
  then show ?thesis
    by (simp only: p des_swap_def prod.case Let_def T_def [symmetric]) (simp add: xor.assoc)
qed


lemma rotl_rotr:
  "(push_bit 1 ((push_bit 31 X OR drop_bit 1 X) AND 0xFFFFFFFF) OR
    drop_bit 31 ((push_bit 31 X OR drop_bit 1 X) AND 0xFFFFFFFF)) AND 0xFFFFFFFF = (X :: u32)"
  "(push_bit 31 ((push_bit 1 X OR drop_bit 31 X) AND 0xFFFFFFFF) OR
    drop_bit 1 ((push_bit 1 X OR drop_bit 31 X) AND 0xFFFFFFFF)) AND 0xFFFFFFFF = (X :: u32)"
proof -
  have m: "w AND 0xFFFFFFFF = w" for w :: u32
  proof -
    have m: "(0xFFFFFFFF :: u32) = mask 32" by (simp add: mask_eq_exp_minus_1)
    have "w AND mask 32 = w" by (rule bit_word_eqI) (simp add: bit_simps)
    then show ?thesis by (simp only: m)
  qed
  show "(push_bit 1 ((push_bit 31 X OR drop_bit 1 X) AND 0xFFFFFFFF) OR
    drop_bit 31 ((push_bit 31 X OR drop_bit 1 X) AND 0xFFFFFFFF)) AND 0xFFFFFFFF = (X :: u32)"
    unfolding m by (rule bit_word_eqI) (auto simp: bit_simps simp del: push_bit_Suc)
  show "(push_bit 31 ((push_bit 1 X OR drop_bit 31 X) AND 0xFFFFFFFF) OR
    drop_bit 1 ((push_bit 1 X OR drop_bit 31 X) AND 0xFFFFFFFF)) AND 0xFFFFFFFF = (X :: u32)"
    unfolding m
  proof (rule bit_word_eqI)
    fix n
    assume "n < LENGTH(32)"
    then show "bit (push_bit 31 (push_bit 1 X OR drop_bit 31 X) OR
        drop_bit 1 (push_bit 1 X OR drop_bit 31 X)) n = bit X n"
      by (cases "n = 31") (auto simp: bit_simps simp del: push_bit_Suc)
  qed
qed


lemma des_swap_masks:
  "drop_bit 4 (push_bit 4 (0x0F0F0F0F :: u32)) = 0x0F0F0F0F"
  "drop_bit 16 (push_bit 16 (0x0000FFFF :: u32)) = 0x0000FFFF"
  "drop_bit 2 (push_bit 2 (0x33333333 :: u32)) = 0x33333333"
  "drop_bit 8 (push_bit 8 (0x00FF00FF :: u32)) = 0x00FF00FF"
  "drop_bit 0 (push_bit 0 (0xAAAAAAAA :: u32)) = 0xAAAAAAAA"
  by simp_all

lemmas des_swap_inv = des_swap_masks [THEN des_swap_involution]

lemma DES_IP_FP: "DES_IP (DES_FP p) = p"
proof -
  obtain X Y where p: "p = (X, Y)" by fastforce
  define rotl where "rotl x = (push_bit 1 x OR drop_bit 31 x) AND 0xFFFFFFFF" for x :: u32
  define rotr where "rotr x = (push_bit 31 x OR drop_bit 1 x) AND 0xFFFFFFFF" for x :: u32
  have rot: "rotl (rotr x) = x" for x using rotl_rotr(1) [of x] by (simp only: rotl_def rotr_def)
  obtain X1 Y1 where 1: "des_swap 0 0xAAAAAAAA (rotr X, Y) = (X1, Y1)" by fastforce
  obtain Y2 X2 where 2: "des_swap 8 0x00FF00FF (rotr Y1, X1) = (Y2, X2)" by fastforce
  obtain Y3 X3 where 3: "des_swap 2 0x33333333 (Y2, X2) = (Y3, X3)" by fastforce
  obtain X4 Y4 where 4: "des_swap 16 0x0000FFFF (X3, Y3) = (X4, Y4)" by fastforce
  obtain X5 Y5 where 5: "des_swap 4 0x0F0F0F0F (X4, Y4) = (X5, Y5)" by fastforce
  have fp: "DES_FP p = (X5, Y5)"
    unfolding p DES_FP_def rotr_def [symmetric] by (simp only: prod.case Let_def 1 2 3 4 5)
  have "des_swap 4 0x0F0F0F0F (X5, Y5) = (X4, Y4)" "des_swap 16 0x0000FFFF (X4, Y4) = (X3, Y3)"
    "des_swap 2 0x33333333 (Y3, X3) = (Y2, X2)" "des_swap 8 0x00FF00FF (Y2, X2) = (rotr Y1, X1)"
    "des_swap 0 0xAAAAAAAA (X1, Y1) = (rotr X, Y)"
    using des_swap_inv(1) [of "(X4, Y4)"] des_swap_inv(2) [of "(X3, Y3)"] des_swap_inv(3) [of "(Y2, X2)"]
      des_swap_inv(4) [of "(rotr Y1, X1)"] des_swap_inv(5) [of "(rotr X, Y)"]
    by (simp_all only: 1 2 3 4 5)
  then show ?thesis
    unfolding fp DES_IP_def rotl_def [symmetric] by (simp only: prod.case Let_def rot p)
qed

lemma DES_FP_IP: "DES_FP (DES_IP p) = p"
proof -
  obtain X Y where p: "p = (X, Y)" by fastforce
  define rotl where "rotl x = (push_bit 1 x OR drop_bit 31 x) AND 0xFFFFFFFF" for x :: u32
  define rotr where "rotr x = (push_bit 31 x OR drop_bit 1 x) AND 0xFFFFFFFF" for x :: u32
  have rot: "rotr (rotl x) = x" for x using rotl_rotr(2) [of x] by (simp only: rotl_def rotr_def)
  obtain X1 Y1 where 1: "des_swap 4 0x0F0F0F0F (X, Y) = (X1, Y1)" by fastforce
  obtain X2 Y2 where 2: "des_swap 16 0x0000FFFF (X1, Y1) = (X2, Y2)" by fastforce
  obtain Y3 X3 where 3: "des_swap 2 0x33333333 (Y2, X2) = (Y3, X3)" by fastforce
  obtain Y4 X4 where 4: "des_swap 8 0x00FF00FF (Y3, X3) = (Y4, X4)" by fastforce
  obtain X5 Y5 where 5: "des_swap 0 0xAAAAAAAA (X4, rotl Y4) = (X5, Y5)" by fastforce
  have ip: "DES_IP p = (rotl X5, Y5)"
    unfolding p DES_IP_def rotl_def [symmetric] by (simp only: prod.case Let_def 1 2 3 4 5)
  have "des_swap 0 0xAAAAAAAA (X5, Y5) = (X4, rotl Y4)" "des_swap 8 0x00FF00FF (Y4, X4) = (Y3, X3)"
    "des_swap 2 0x33333333 (Y3, X3) = (Y2, X2)" "des_swap 16 0x0000FFFF (X2, Y2) = (X1, Y1)"
    "des_swap 4 0x0F0F0F0F (X1, Y1) = (X, Y)"
    using des_swap_inv(5) [of "(X4, rotl Y4)"] des_swap_inv(4) [of "(Y3, X3)"] des_swap_inv(3) [of "(Y2, X2)"]
      des_swap_inv(2) [of "(X1, Y1)"] des_swap_inv(1) [of "(X, Y)"]
    by (simp_all only: 1 2 3 4 5)
  then show ?thesis
    unfolding ip DES_FP_def rotr_def [symmetric] by (simp only: prod.case Let_def rot p)
qed

text \<open>The rounds as a Feistel network over the pairs of subkey words.\<close>

fun key_pairs :: "u32 list \<Rightarrow> (u32 \<times> u32) list" where
  "key_pairs (a # b # ks) = (a, b) # key_pairs ks"
| "key_pairs _ = []"

definition feistel :: "u32 \<times> u32 \<Rightarrow> u32 \<times> u32 \<Rightarrow> u32 \<times> u32" where
  "feistel k p = (snd p, fst p XOR des_f (fst k) (snd k) (snd p))"

lemma des_rounds_feistel:
  "4 dvd length SK \<Longrightarrow> des_rounds SK p = fold feistel (key_pairs SK) p"
proof (induction SK p rule: des_rounds.induct)
  case (1 k1 k2 k3 k4 SK X Y)
  have "4 dvd length SK" using "1.prems" unfolding list.size by presburger
  with "1.IH" show ?case by (simp add: feistel_def Let_def)
qed (auto dest: dvd_imp_le)

lemma feistel_inverse: "fold feistel (rev ks) (prod.swap (fold feistel ks p)) = prod.swap p"
proof (induction ks arbitrary: p)
  case (Cons k ks)
  have "feistel k (prod.swap (feistel k p)) = prod.swap p"
    by (cases p) (simp add: feistel_def xor.assoc)
  with Cons show ?case by simp
qed simp


lemma ks_subkey_pair: "\<exists>a b. ks_subkey X Y = [a, b]"
  by (simp add: ks_subkey_def)

lemma length_ks_loop: "length (ks_loop n i XY) = 2 * n"
proof (induction n i XY rule: ks_loop.induct)
  case (2 n i X Y)
  obtain a b where "ks_subkey (ks_rotate i X) (ks_rotate i Y) = [a, b]" using ks_subkey_pair by blast
  with 2 show ?case by (simp add: Let_def)
qed simp

lemma length_des_main_ks: "length (des_main_ks key) = 32"
  by (simp add: des_main_ks_def length_ks_loop)

lemma key_pairs_nth:
  "2 * i + 1 < length ks \<Longrightarrow> i < length (key_pairs ks) \<and> key_pairs ks ! i = (ks ! (2 * i), ks ! (2 * i + 1))"
proof (induction ks arbitrary: i rule: key_pairs.induct)
  case (1 a b ks)
  then show ?case by (cases i) auto
qed auto

lemma length_key_pairs: "length (key_pairs ks) = length ks div 2"
  by (induction ks rule: key_pairs.induct) auto

lemma reverse_ks_pairs:
  assumes "length ESK = 32"
  shows "key_pairs (reverse_ks ESK) = rev (key_pairs ESK)"
proof (rule nth_equalityI)
  have len: "length (reverse_ks ESK) = 32" by (simp add: reverse_ks_def)
  then show "length (key_pairs (reverse_ks ESK)) = length (rev (key_pairs ESK))"
    using assms by (simp add: length_key_pairs)
  fix i
  assume "i < length (key_pairs (reverse_ks ESK))"
  then have i: "i < 16" using len by (simp add: length_key_pairs)
  then have "key_pairs (reverse_ks ESK) ! i = (reverse_ks ESK ! (2 * i), reverse_ks ESK ! (2 * i + 1))"
    using key_pairs_nth [of i "reverse_ks ESK"] len by simp
  also have "\<dots> = (ESK ! (2 * (15 - i)), ESK ! (2 * (15 - i) + 1))"
  proof -
    have "30 - 2 * i = 2 * (15 - i)" "31 - 2 * i = Suc (2 * (15 - i))" using i by auto
    then show ?thesis using i by (simp add: reverse_ks_def)
  qed
  also have "\<dots> = key_pairs ESK ! (15 - i)"
    using key_pairs_nth [of "15 - i" ESK] assms i by simp
  also have "\<dots> = rev (key_pairs ESK) ! i"
    using i assms by (simp add: rev_nth length_key_pairs)
  finally show "key_pairs (reverse_ks ESK) ! i = rev (key_pairs ESK) ! i" .
qed

lemma des_crypt_feistel:
  assumes "4 dvd length SK"
  shows "des_crypt SK input =
    (let p = DES_FP (prod.swap (fold feistel (key_pairs SK) (DES_IP (GET_UINT32 input 0, GET_UINT32 input 4))))
     in PUT_UINT32 (fst p) @ PUT_UINT32 (snd p))"
  using assms by (simp add: des_crypt_def des_rounds_feistel Let_def split: prod.splits)

lemma length_des_crypt [simp]: "length (des_crypt SK b) = 8"
  by (simp add: des_crypt_def PUT_UINT32_def Let_def split: prod.splits)

lemma des_crypt_inverse:
  assumes "length SK = 32" "length b = 8"
  shows "des_crypt (reverse_ks SK) (des_crypt SK b) = b"
proof -
  let ?p = "(GET_UINT32 b 0, GET_UINT32 b 4)" and ?ks = "key_pairs SK"
  let ?q = "DES_FP (prod.swap (fold feistel ?ks (DES_IP ?p)))"
  have e: "des_crypt SK b = PUT_UINT32 (fst ?q) @ PUT_UINT32 (snd ?q)"
    using assms(1) by (subst des_crypt_feistel) (simp_all add: Let_def)
  have "4 dvd length (reverse_ks SK)" by (simp add: reverse_ks_def)
  then have "des_crypt (reverse_ks SK) (des_crypt SK b) =
      (let p = DES_FP (prod.swap (fold feistel (rev ?ks) (DES_IP ?q))) in PUT_UINT32 (fst p) @ PUT_UINT32 (snd p))"
    using reverse_ks_pairs [OF assms(1)] by (simp add: des_crypt_feistel e get_put)
  also have "DES_FP (prod.swap (fold feistel (rev ?ks) (DES_IP ?q))) = ?p"
    by (simp only: DES_IP_FP feistel_inverse swap_swap DES_FP_IP)
  finally show ?thesis using put_get [OF assms(2)] by (simp add: Let_def)
qed


section \<open>Texts\<close>

lemma length_crypt_blocks [simp]: "length (crypt_blocks SK n b) = 8 * n"
  by (induction n arbitrary: b) simp_all

lemma crypt_blocks_snoc:
  "length b = 8 * n \<Longrightarrow> length c = 8 \<Longrightarrow> crypt_blocks SK (Suc n) (b @ c) = crypt_blocks SK n b @ des_crypt SK c"
proof (induction n arbitrary: b)
  case (Suc n)
  then have "length (drop 8 b) = 8 * n" "drop 8 (b @ c) = drop 8 b @ c" "take 8 (b @ c) = take 8 b" by auto
  with Suc.IH [of "drop 8 b"] Suc.prems show ?case by (simp del: crypt_blocks.simps(2) add: crypt_blocks.simps(2) [of SK n b] crypt_blocks.simps(2) [of SK "Suc n" "b @ c"])
qed simp

lemma crypt_blocks_inverse:
  "length SK = 32 \<Longrightarrow> length b = 8 * n \<Longrightarrow> crypt_blocks (reverse_ks SK) n (crypt_blocks SK n b) = b"
  by (induction n arbitrary: b) (simp_all add: des_crypt_inverse)

lemma crypt_blocks_take: "8 * n \<le> length b \<Longrightarrow> crypt_blocks SK n (take (8 * n) b) = crypt_blocks SK n b"
proof (induction n arbitrary: b)
  case (Suc n)
  then have "drop 8 (take (8 * Suc n) b) = take (8 * n) (drop 8 b)" "take 8 (take (8 * Suc n) b) = take 8 b"
    by (simp_all add: drop_take min_def)
  with Suc show ?case by simp
qed simp

lemma des_tail_eq:
  assumes "length r < 8"
  shows "des_tail r = r @ 0x80 # replicate (7 - length r) 0"
proof (rule nth_equalityI)
  show "length (des_tail r) = length (r @ 0x80 # replicate (7 - length r) 0)"
    using assms by (simp add: des_tail_def)
  fix i
  assume "i < length (des_tail r)"
  then have "i < 8" by (simp add: des_tail_def)
  then show "des_tail r ! i = (r @ 0x80 # replicate (7 - length r) 0) ! i"
    by (auto simp: des_tail_def nth_append nth_Cons')
qed

lemma pad_scan_zeros:
  "k < n \<Longrightarrow> pad_scan n (replicate k 0 @ 0x80 # b) padding = Some (padding + k)"
proof (induction k arbitrary: n padding)
  case 0
  then show ?case by (cases n) simp_all
next
  case (Suc k)
  then show ?case by (cases n) simp_all
qed

text \<open>
  C23: DES decoding inverts encoding: every text encodes under an eight-byte key, to a multiple
  of eight bytes strictly longer than the text, and decoding that under the same key gives the
  text back; a key of any other length is refused by both.
\<close>

theorem des_roundtrip:
  "(length key = 8 \<longrightarrow> (\<exists>c. ldesencode key text = Some c \<and> length c = 8 * (length text div 8 + 1) \<and>
      ldesdecode key c = Some text)) \<and>
   (length key \<noteq> 8 \<longrightarrow> ldesencode key text = None \<and> ldesdecode key text = None)"
proof (intro conjI impI)
  assume key: "length key = 8"
  let ?SK = "des_main_ks key" and ?n = "length text div 8"
  let ?r = "drop (8 * ?n) text"
  define pad where "pad = take (8 * ?n) text @ des_tail ?r"
  have r: "length ?r < 8" by (simp add: minus_mult_div_eq_mod)
  have le: "8 * ?n \<le> length text" by simp
  then have lt: "length (take (8 * ?n) text) = 8 * ?n" by simp
  have tail: "des_tail ?r = ?r @ 0x80 # replicate (7 - length ?r) 0" using r by (rule des_tail_eq)
  then have lpad: "length pad = 8 * Suc ?n" "length (des_tail ?r) = 8" using lt r by (simp_all add: pad_def)
  let ?c = "crypt_blocks ?SK (Suc ?n) pad"
  have "?c = crypt_blocks ?SK ?n text @ des_crypt ?SK (des_tail ?r)"
    unfolding pad_def crypt_blocks_snoc [OF lt lpad(2)] using crypt_blocks_take [OF le] by simp
  then have enc: "ldesencode key text = Some ?c"
    using key by (simp add: ldesencode_def des_key_def Let_def)
  have buf: "crypt_blocks (reverse_ks ?SK) (Suc ?n) ?c = pad"
    by (rule crypt_blocks_inverse [OF length_des_main_ks lpad(1)])
  have "rev pad = replicate (7 - length ?r) 0 @ 0x80 # rev ?r @ rev (take (8 * ?n) text)"
    by (simp add: pad_def tail)
  then have scan: "pad_scan m (rev pad) 1 = Some (8 - length ?r)" if "8 \<le> m" for m
    using pad_scan_zeros [of "7 - length ?r" m _ 1] that r by simp
  have "text = take (8 * Suc ?n - (8 - length ?r)) pad"
  proof -
    have "8 * Suc ?n - (8 - length ?r) = length (take (8 * ?n) text @ ?r)" using r lt by simp
    then show ?thesis by (simp add: pad_def tail)
  qed
  moreover have "ldesdecode key ?c = Some (take (8 * Suc ?n - (8 - length ?r)) pad)"
  proof -
    have lc: "length ?c = 8 * Suc ?n" by (rule length_crypt_blocks)
    then have "length ?c mod 8 = 0" "length ?c \<noteq> 0" "length ?c div 8 = Suc ?n" by simp_all
    moreover have "pad_scan (if length ?c = 8 then 9 else 8) (rev pad) 1 = Some (8 - length ?r)"
      by (rule scan) simp
    ultimately show ?thesis
      using key buf unfolding ldesdecode_def des_key_def Let_def
      by (simp only: option.case if_False not_True_eq_False simp_thms) (simp only: lc, simp)
  qed
  ultimately have "ldesdecode key ?c = Some text" by (simp only:)
  with enc show "\<exists>c. ldesencode key text = Some c \<and> length c = 8 * (length text div 8 + 1) \<and>
      ldesdecode key c = Some text"
    by (intro exI [of _ ?c]) (simp del: crypt_blocks.simps)
next
  assume "length key \<noteq> 8"
  then show "ldesencode key text = None" "ldesdecode key text = None"
    by (simp_all add: ldesencode_def ldesdecode_def des_key_def)
qed

theorem des_roundtrip_witness:
  "\<exists>c. ldesencode [1, 2, 3, 4, 5, 6, 7, 8] [104, 101, 108, 108, 111] = Some c \<and> length c = 8 \<and>
     ldesdecode [1, 2, 3, 4, 5, 6, 7, 8] c = Some [104, 101, 108, 108, 111]"
  using des_roundtrip [of "[1, 2, 3, 4, 5, 6, 7, 8]" "[104, 101, 108, 108, 111]"] by simp

text \<open>
  A random key is never all zero, whatever \<open>rand\<close> returns.
\<close>

theorem lrandomkey_nonzero:
  assumes "length rs = 8"
  shows "length (lrandomkey rs) = 8 \<and> lrandomkey rs \<noteq> replicate 8 0"
proof -
  let ?t = "map (\<lambda>r. word_of_int (r AND 0xff) :: u8) rs"
  have z: "fold (XOR) (replicate 8 0) (0 :: u8) = 0" by (simp add: eval_nat_numeral)
  have "?t[0 := ?t ! 0 OR 1] \<noteq> replicate 8 0"
  proof
    assume "?t[0 := ?t ! 0 OR 1] = replicate 8 0"
    then have "?t[0 := ?t ! 0 OR 1] ! 0 = 0" by simp
    moreover have "0 < length ?t" using assms by simp
    ultimately have "?t ! 0 OR 1 = 0" by (simp only: nth_list_update_eq)
    then show False by (metis bit_1_0 bit_or_iff bit_0_eq bot_apply bot_bool_def)
  qed
  with assms z show ?thesis by (auto simp: lrandomkey_def Let_def)
qed

theorem lrandomkey_nonzero_witness: "lrandomkey [0, 0, 0, 0, 0, 0, 0, 256] \<noteq> replicate 8 0"
  using lrandomkey_nonzero [of "[0, 0, 0, 0, 0, 0, 0, 256]"] by simp

end
