(* ===== verification/Codec.thy ===== *)
theory Codec
  imports Prelude
begin

text \<open>
  The text encodings of \<open>src/lualib/lcrypt.c\<close>: hexadecimal and base64. Texts are byte lists, and
  a Lua error is \<open>None\<close>.
\<close>

section \<open>Hexadecimal\<close>

text \<open>\<open>"0123456789abcdef"\<close>\<close>

definition hex_digits :: bytes where
  "hex_digits = [48, 49, 50, 51, 52, 53, 54, 55, 56, 57, 97, 98, 99, 100, 101, 102]"

definition ltohex :: "bytes \<Rightarrow> bytes" where
  "ltohex text = concat (map (\<lambda>b. [hex_digits ! unat (drop_bit 4 b), hex_digits ! unat (b AND 0xf)]) text)"

text \<open>The macro \<open>HEX\<close>; its result is stored in a \<open>uint8_t\<close>.\<close>

definition HEX :: "u8 \<Rightarrow> u8" where
  "HEX c = (if c \<ge> 48 \<and> c \<le> 57 then c - 48 else c - 97 + 10)"

text \<open>The loop; behind the text of odd length lies the terminating zero byte of the Lua string.\<close>

fun fromhex_loop :: "bytes \<Rightarrow> bytes option" where
  "fromhex_loop [] = Some []"
| "fromhex_loop [a] = (if HEX a > 16 \<or> HEX 0 > 16 then None else Some [push_bit 4 (HEX a) OR HEX 0])"
| "fromhex_loop (a # b # text) =
     (let hi = HEX a; low = HEX b in
      if hi > 16 \<or> low > 16 then None
      else map_option ((#) (push_bit 4 hi OR low)) (fromhex_loop text))"

definition lfromhex :: "bytes \<Rightarrow> bytes option" where
  "lfromhex text = (if (of_nat (length text) :: u64) AND 2 \<noteq> 0 then None else fromhex_loop text)"

section \<open>Base64\<close>

text \<open>\<open>"ABC...Zabc...z0123456789+/"\<close>\<close>

definition b64_alphabet :: bytes where
  "b64_alphabet =
    [65, 66, 67, 68, 69, 70, 71, 72, 73, 74, 75, 76, 77, 78, 79, 80,
     81, 82, 83, 84, 85, 86, 87, 88, 89, 90, 97, 98, 99, 100, 101, 102,
     103, 104, 105, 106, 107, 108, 109, 110, 111, 112, 113, 114, 115, 116, 117, 118,
     119, 120, 121, 122, 48, 49, 50, 51, 52, 53, 54, 55, 56, 57, 43, 47]"

definition b64_char :: "u32 \<Rightarrow> u8" where
  "b64_char i = b64_alphabet ! unat i"

fun lb64encode :: "bytes \<Rightarrow> bytes" where
  "lb64encode (a # b # c # text) =
     (let v = push_bit 16 (ucast a) OR push_bit 8 (ucast b) OR ucast c in
      b64_char (drop_bit 18 v) # b64_char (drop_bit 12 v AND 0x3f) #
      b64_char (drop_bit 6 v AND 0x3f) # b64_char (v AND 0x3f) # lb64encode text)"
| "lb64encode [a, b] =
     (let v = push_bit 8 (ucast a) OR ucast b in
      [b64_char (drop_bit 10 v), b64_char (drop_bit 4 v AND 0x3f), b64_char (push_bit 2 (v AND 0xf)), 61])"
| "lb64encode [a] =
     (let v = ucast a in [b64_char (drop_bit 2 v), b64_char (push_bit 4 (v AND 3)), 61, 61])"
| "lb64encode [] = []"

definition b64_decoding :: "int list" where
  "b64_decoding =
    [62, -1, -1, -1, 63, 52, 53, 54, 55, 56, 57, 58, 59, 60, 61, -1, -1, -1, -2, -1, -1, -1,
     0, 1, 2, 3, 4, 5, 6, 7, 8, 9, 10, 11, 12, 13, 14, 15, 16, 17, 18, 19, 20, 21, 22, 23, 24, 25,
     -1, -1, -1, -1, -1, -1,
     26, 27, 28, 29, 30, 31, 32, 33, 34, 35, 36, 37, 38, 39, 40, 41, 42, 43, 44, 45, 46, 47, 48, 49, 50, 51]"

definition b64index :: "u8 \<Rightarrow> int" where
  "b64index c =
     (if c < 43 then - 1
      else let c' = c - 43 in
        if unat c' \<ge> length b64_decoding then - 1 else b64_decoding ! unat c')"

text \<open>Collecting the next \<open>j\<close> symbols, skipping characters outside the alphabet.\<close>

fun b64_group :: "nat \<Rightarrow> bytes \<Rightarrow> (int list \<times> bytes) option" where
  "b64_group 0 text = Some ([], text)"
| "b64_group (Suc j) [] = None"
| "b64_group (Suc j) (x # text) =
     (let c = b64index x in
      if c = - 1 then b64_group (Suc j) text
      else map_option (\<lambda>(cs, rest). (c # cs, rest)) (b64_group j text))"

text \<open>The switch over the number of padding characters in a group of four.\<close>

definition b64_bytes :: "int list \<Rightarrow> bytes option" where
  "b64_bytes c =
     (let padding = length (filter (\<lambda>x. x = - 2) c);
          w = (\<lambda>i. word_of_int (c ! i) :: u32) in
      if padding = 0 then
        let v = push_bit 18 (w 0) OR push_bit 12 (w 1) OR push_bit 6 (w 2) OR w 3
        in Some [ucast (drop_bit 16 v), ucast (drop_bit 8 v AND 0xff), ucast (v AND 0xff)]
      else if padding = 1 then
        if c ! 3 \<noteq> - 2 \<or> (c ! 2) AND 3 \<noteq> 0 then None
        else let v = push_bit 10 (w 0) OR push_bit 4 (w 1) OR drop_bit 2 (w 2)
             in Some [ucast (drop_bit 8 v), ucast (v AND 0xff)]
      else if padding = 2 then
        if c ! 3 \<noteq> - 2 \<or> c ! 2 \<noteq> - 2 \<or> (c ! 1) AND 0xf \<noteq> 0 then None
        else let v = push_bit 2 (w 0) OR drop_bit 4 (w 1) in Some [ucast v]
      else None)"

lemma b64_group_length:
  "b64_group j text = Some (cs, rest) \<Longrightarrow> length rest + j \<le> length text"
proof (induction "text" arbitrary: j cs rest)
  case (Cons x xs)
  show ?case
  proof (cases j)
    case (Suc i)
    with Cons.prems show ?thesis
      by (auto simp: Let_def split: if_splits dest!: Cons.IH)
  qed (use Cons.prems in simp)
next
  case Nil
  then show ?case by (cases j) auto
qed

function lb64decode :: "bytes \<Rightarrow> bytes option" where
  "lb64decode text =
     (if text = [] then Some []
      else (case b64_group 4 text of None \<Rightarrow> None
            | Some (cs, rest) \<Rightarrow>
               (case b64_bytes cs of None \<Rightarrow> None
                | Some bs \<Rightarrow> map_option ((@) bs) (lb64decode rest))))"
  by pat_completeness auto
termination
  by (relation "measure length") (auto dest: b64_group_length)

declare lb64decode.simps [simp del]

section \<open>Hexadecimal round trip\<close>

lemma nibble_bound: "unat (drop_bit 4 (b :: u8)) < 16" "unat (b AND 0xf) < 16"
proof -
  show "unat (drop_bit 4 b) < 16" using unat_less_exp [of b] by (simp add: unat_drop_bit)
  have "(0xf :: u8) = mask 4" by (simp add: mask_eq_exp_minus_1)
  then show "unat (b AND 0xf) < 16" by (simp only: unat_and_mask) simp
qed

lemma HEX_digit: "n < 16 \<Longrightarrow> HEX (hex_digits ! n) = of_nat n"
proof -
  assume "n < 16"
  moreover have "list_all (\<lambda>n. HEX (hex_digits ! n) = of_nat n) [0..<16]" by code_simp
  ultimately show ?thesis by (simp add: list_all_iff)
qed

lemma hex_pair:
  "HEX (hex_digits ! unat (drop_bit 4 b)) = drop_bit 4 b" "HEX (hex_digits ! unat (b AND 0xf)) = b AND 0xf"
  using HEX_digit nibble_bound by simp_all

lemma nibble_le: "drop_bit 4 (b :: u8) \<le> 16" "b AND 0xf \<le> 16"
  using nibble_bound [of b] by (simp_all add: word_le_nat_alt)

lemma nibbles: "push_bit 4 (drop_bit 4 b) OR (b AND 0xf) = (b :: u8)"
proof (rule bit_word_eqI)
  fix n
  have m: "(0xf :: u8) = mask 4" by (simp add: mask_eq_exp_minus_1)
  assume "n < LENGTH(8)"
  then show "bit (push_bit 4 (drop_bit 4 b) OR (b AND 0xf)) n = bit b n"
    unfolding m by (auto simp: bit_simps simp del: push_bit_numeral)
qed

lemma fromhex_tohex: "fromhex_loop (ltohex text) = Some text"
proof (induction "text")
  case (Cons b "text")
  then show ?case
    using nibble_le [of b] by (simp add: ltohex_def hex_pair nibbles not_less Let_def)
qed (simp add: ltohex_def)


lemma length_ltohex: "length (ltohex text) = 2 * length text"
  by (induction "text") (simp_all add: ltohex_def)

lemma even_length_and_2: "(of_nat (2 * n) :: u64) AND 2 \<noteq> 0 \<longleftrightarrow> odd n"
proof -
  have "(of_nat (2 * n) :: u64) AND 2 ^ 1 = 0 \<longleftrightarrow> \<not> bit (of_nat (2 * n) :: u64) 1"
    by (rule and_exp_eq_0_iff_not_bit)
  moreover have "bit (of_nat (2 * n) :: u64) 1 \<longleftrightarrow> odd n"
    by (simp only: bit_of_nat_iff) (simp add: bit_Suc bit_0)
  ultimately show ?thesis by (simp del: of_nat_mult)
qed

text \<open>
  Hexadecimal decoding inverts encoding for texts of even length. For odd lengths the size
  check, which tests bit 1 instead of bit 0 of the hexadecimal length, refuses the encoding.
\<close>

theorem hex_roundtrip:
  "lfromhex (ltohex text) = (if even (length text) then Some text else None)"
  by (simp add: lfromhex_def length_ltohex even_length_and_2 fromhex_tohex del: of_nat_mult)

section \<open>Base64 round trip\<close>

lemma b64index_char: "n < 64 \<Longrightarrow> b64index (b64_alphabet ! n) = int n"
proof -
  assume "n < 64"
  moreover have "list_all (\<lambda>n. b64index (b64_alphabet ! n) = int n) [0..<64]" by code_simp
  ultimately show ?thesis by (simp add: list_all_iff)
qed

lemma b64index_pad: "b64index 61 = - 2"
  by (simp add: b64index_def b64_decoding_def)


lemma bits_bound: "(\<And>n. bit (w :: u32) n \<Longrightarrow> n < k) \<Longrightarrow> unat w < 2 ^ k"
proof -
  assume a: "\<And>n. bit w n \<Longrightarrow> n < k"
  have "take_bit k w = w" by (rule bit_word_eqI) (use a in \<open>auto simp: bit_simps\<close>)
  then have "unat w = take_bit k (unat w)" by (metis unsigned_take_bit_eq)
  then show ?thesis by (metis take_bit_nat_less_exp)
qed

lemma b64index_b64_char: "unat w < 64 \<Longrightarrow> b64index (b64_char w) = uint w"
  by (simp add: b64_char_def b64index_char)

lemma mask_lits: "(0x3f :: u32) = mask 6" "(0xf :: u32) = mask 4" "(3 :: u32) = mask 2" "(0xff :: u32) = mask 8"
  by (simp_all add: mask_eq_exp_minus_1)

lemma and_3f_bound: "unat (w AND 0x3f :: u32) < 64"
  unfolding mask_lits(1) unat_and_mask by simp

lemma b64_group_chars:
  assumes "unat w1 < 64" "unat w2 < 64" "b64index x3 \<noteq> - 1" "b64index x4 \<noteq> - 1"
  shows "b64_group 4 (b64_char w1 # b64_char w2 # x3 # x4 # rest) =
    Some ([uint w1, uint w2, b64index x3, b64index x4], rest)"
proof -
  have "uint w1 \<noteq> - 1" "uint w2 \<noteq> - 1"
    using uint_nonnegative [of w1] uint_nonnegative [of w2] by linarith+
  with assms show ?thesis by (simp add: numeral_eq_Suc b64index_b64_char Let_def)
qed

lemma lb64decode_group:
  "b64_group 4 text = Some (cs, rest) \<Longrightarrow> b64_bytes cs = Some bs \<Longrightarrow>
     lb64decode text = map_option ((@) bs) (lb64decode rest)"
  by (subst lb64decode.simps) (auto simp: numeral_eq_Suc)

text \<open>The three group shapes.\<close>

lemma b64_bytes_3:
  fixes a b c :: u8
  defines "v \<equiv> push_bit 16 (ucast a) OR push_bit 8 (ucast b) OR ucast c :: u32"
  shows "unat (drop_bit 18 v) < 64"
    "b64_bytes [uint (drop_bit 18 v), uint (drop_bit 12 v AND 0x3f), uint (drop_bit 6 v AND 0x3f),
       uint (v AND 0x3f)] = Some [a, b, c]"
proof -
  have bits: "bit v n \<Longrightarrow> n < 24" for n
    by (auto simp: v_def bit_simps simp del: push_bit_numeral dest: bit_imp_le_length)
  then have "unat v < 2 ^ 24" by (rule bits_bound)
  then show "unat (drop_bit 18 v) < 64" by (simp add: unat_drop_bit less_mult_imp_div_less)
  have v: "push_bit 18 (drop_bit 18 v) OR push_bit 12 (drop_bit 12 v AND 0x3f) OR
      push_bit 6 (drop_bit 6 v AND 0x3f) OR (v AND 0x3f) = v"
  proof (rule bit_word_eqI)
    fix n
    assume n: "n < LENGTH(32)"
    consider "n < 6" | "6 \<le> n" "n < 12" | "12 \<le> n" "n < 18" | "18 \<le> n" by linarith
    then show "bit (push_bit 18 (drop_bit 18 v) OR push_bit 12 (drop_bit 12 v AND 0x3f) OR
      push_bit 6 (drop_bit 6 v AND 0x3f) OR (v AND 0x3f)) n = bit v n"
      unfolding mask_lits using n by cases (auto simp: bit_simps simp del: push_bit_numeral)
  qed
  have out: "ucast (drop_bit 16 v) = a" "ucast (drop_bit 8 v AND 0xff) = b" "ucast (v AND 0xff) = c"
    unfolding v_def mask_lits
    by (rule bit_word_eqI; auto simp: bit_simps simp del: push_bit_numeral dest: bit_imp_le_length)+
  have ne: "uint w \<noteq> - 2" for w :: u32 using uint_nonnegative [of w] by linarith
  show "b64_bytes [uint (drop_bit 18 v), uint (drop_bit 12 v AND 0x3f), uint (drop_bit 6 v AND 0x3f),
       uint (v AND 0x3f)] = Some [a, b, c]"
    using v out by (simp add: b64_bytes_def ne Let_def numeral_eq_Suc del: push_bit_numeral)
qed


lemma b64_bytes_2:
  fixes a b :: u8
  defines "v \<equiv> push_bit 8 (ucast a) OR ucast b :: u32"
  shows "unat (drop_bit 10 v) < 64" "unat (push_bit 2 (v AND 0xf)) < 64"
    "b64_bytes [uint (drop_bit 10 v), uint (drop_bit 4 v AND 0x3f), uint (push_bit 2 (v AND 0xf)), - 2] =
       Some [a, b]"
proof -
  have bits: "bit v n \<Longrightarrow> n < 16" for n
    by (auto simp: v_def bit_simps simp del: push_bit_numeral dest: bit_imp_le_length)
  then have "unat v < 2 ^ 16" by (rule bits_bound)
  then show "unat (drop_bit 10 v) < 64" by (simp add: unat_drop_bit less_mult_imp_div_less)
  have "unat (push_bit 2 (v AND 0xf)) < 2 ^ 6"
    unfolding mask_lits by (rule bits_bound) (auto simp: bit_simps simp del: push_bit_numeral)
  then show "unat (push_bit 2 (v AND 0xf)) < 64" by simp
  have v: "push_bit 10 (drop_bit 10 v) OR push_bit 4 (drop_bit 4 v AND 0x3f) OR
      drop_bit 2 (push_bit 2 (v AND 0xf)) = v"
  proof (rule bit_word_eqI)
    fix n
    assume n: "n < LENGTH(32)"
    consider "n < 4" | "4 \<le> n" "n < 10" | "10 \<le> n" by linarith
    then show "bit (push_bit 10 (drop_bit 10 v) OR push_bit 4 (drop_bit 4 v AND 0x3f) OR
      drop_bit 2 (push_bit 2 (v AND 0xf))) n = bit v n"
      unfolding mask_lits using n by cases (auto simp: bit_simps simp del: push_bit_numeral)
  qed
  have low: "uint (push_bit 2 (v AND 0xf)) AND 3 = 0"
  proof (rule bit_eqI)
    fix n
    have m: "(3 :: int) = mask 2" by (simp add: mask_eq_exp_minus_1)
    show "bit (uint (push_bit 2 (v AND 0xf)) AND 3) n = bit 0 n"
      unfolding m by (simp add: bit_simps bit_uint_iff)
  qed
  have out: "ucast (drop_bit 8 v) = a" "ucast (v AND 0xff) = b"
    unfolding v_def mask_lits
    by (rule bit_word_eqI; auto simp: bit_simps simp del: push_bit_numeral dest: bit_imp_le_length)+
  have ne: "uint w \<noteq> - 2" for w :: u32 using uint_nonnegative [of w] by linarith
  show "b64_bytes [uint (drop_bit 10 v), uint (drop_bit 4 v AND 0x3f), uint (push_bit 2 (v AND 0xf)), - 2] =
       Some [a, b]"
    using v out low by (simp add: b64_bytes_def ne Let_def numeral_eq_Suc del: push_bit_numeral)
qed

lemma b64_bytes_1:
  fixes a :: u8
  defines "v \<equiv> ucast a :: u32"
  shows "unat (drop_bit 2 v) < 64" "unat (push_bit 4 (v AND 3)) < 64"
    "b64_bytes [uint (drop_bit 2 v), uint (push_bit 4 (v AND 3)), - 2, - 2] = Some [a]"
proof -
  have bits: "bit v n \<Longrightarrow> n < 8" for n by (auto simp: v_def bit_simps dest: bit_imp_le_length)
  then have "unat v < 2 ^ 8" by (rule bits_bound)
  then show "unat (drop_bit 2 v) < 64" by (simp add: unat_drop_bit less_mult_imp_div_less)
  have "unat (push_bit 4 (v AND 3)) < 2 ^ 6"
    unfolding mask_lits by (rule bits_bound) (auto simp: bit_simps simp del: push_bit_numeral)
  then show "unat (push_bit 4 (v AND 3)) < 64" by simp
  have v: "push_bit 2 (drop_bit 2 v) OR drop_bit 4 (push_bit 4 (v AND 3)) = v"
  proof (rule bit_word_eqI)
    fix n
    assume n: "n < LENGTH(32)"
    consider "n < 2" | "2 \<le> n" by linarith
    then show "bit (push_bit 2 (drop_bit 2 v) OR drop_bit 4 (push_bit 4 (v AND 3))) n = bit v n"
      unfolding mask_lits using n le_add_diff_inverse [of 2 n]
      by cases (auto simp: bit_simps simp del: push_bit_numeral)
  qed
  have low: "uint (push_bit 4 (v AND 3)) AND 0xf = 0"
  proof (rule bit_eqI)
    fix n
    have m: "(0xf :: int) = mask 4" by (simp add: mask_eq_exp_minus_1)
    show "bit (uint (push_bit 4 (v AND 3)) AND 0xf) n = bit 0 n"
      unfolding m by (simp add: bit_simps bit_uint_iff)
  qed
  have out: "ucast v = a"
    unfolding v_def by (rule bit_word_eqI) (auto simp: bit_simps dest: bit_imp_le_length)
  have ne: "uint w \<noteq> - 2" for w :: u32 using uint_nonnegative [of w] by linarith
  show "b64_bytes [uint (drop_bit 2 v), uint (push_bit 4 (v AND 3)), - 2, - 2] = Some [a]"
    using v out low by (simp add: b64_bytes_def ne Let_def numeral_eq_Suc del: push_bit_numeral)
qed

text \<open>
  C34: Base64 decoding inverts encoding for every text, with the padded length
  \<open>(sz + 2) / 3 * 4\<close> that the encoder reserves.
\<close>

theorem base64_roundtrip:
  "lb64decode (lb64encode text) = Some text \<and> length (lb64encode text) = (length text + 2) div 3 * 4"
proof (induction "text" rule: lb64encode.induct)
  case (1 a b c "text")
  define v where "v = (push_bit 16 (ucast a) OR push_bit 8 (ucast b) OR ucast c :: u32)"
  note b3 = b64_bytes_3 [of a b c, folded v_def]
  have ne: "uint w \<noteq> - 1" for w :: u32 using uint_nonnegative [of w] by linarith
  have "lb64encode (a # b # c # text) = b64_char (drop_bit 18 v) # b64_char (drop_bit 12 v AND 0x3f) #
      b64_char (drop_bit 6 v AND 0x3f) # b64_char (v AND 0x3f) # lb64encode text" (is "_ = ?e")
    by (simp add: Let_def v_def)
  moreover have "b64_group 4 ?e = Some ([uint (drop_bit 18 v), uint (drop_bit 12 v AND 0x3f),
      uint (drop_bit 6 v AND 0x3f), uint (v AND 0x3f)], lb64encode text)"
    using b64_group_chars [OF b3(1) and_3f_bound] and_3f_bound by (simp only: b64index_b64_char ne not_False_eq_True)
  ultimately have "lb64decode (lb64encode (a # b # c # text)) = Some (a # b # c # text)"
    using lb64decode_group b3(2) "1.IH" by simp
  moreover have "(length (a # b # c # text) + 2) div 3 = Suc ((length text + 2) div 3)" by simp
  ultimately show ?case using "1.IH" by (simp add: Let_def)
next
  case (2 a b)
  define v where "v = (push_bit 8 (ucast a) OR ucast b :: u32)"
  note b2 = b64_bytes_2 [of a b, folded v_def]
  have ne: "uint w \<noteq> - 1" for w :: u32 using uint_nonnegative [of w] by linarith
  have "lb64encode [a, b] = [b64_char (drop_bit 10 v), b64_char (drop_bit 4 v AND 0x3f),
      b64_char (push_bit 2 (v AND 0xf)), 61]" (is "_ = ?e")
    by (simp add: Let_def v_def)
  moreover have "b64_group 4 ?e = Some ([uint (drop_bit 10 v), uint (drop_bit 4 v AND 0x3f),
      uint (push_bit 2 (v AND 0xf)), - 2], [])"
    using b64_group_chars [OF b2(1) and_3f_bound, of "b64_char (push_bit 2 (v AND 0xf))" 61 "drop_bit 4 v" "[]"]
    by (simp only: b64index_b64_char [OF b2(2)] b64index_pad ne not_False_eq_True)
  ultimately show ?case using lb64decode_group b2(3) by (simp add: lb64decode.simps [of "[]"])
next
  case (3 a)
  define v where "v = (ucast a :: u32)"
  note b1 = b64_bytes_1 [of a, folded v_def]
  have "lb64encode [a] = [b64_char (drop_bit 2 v), b64_char (push_bit 4 (v AND 3)), 61, 61]" (is "_ = ?e")
    by (simp add: Let_def v_def)
  moreover have "b64_group 4 ?e = Some ([uint (drop_bit 2 v), uint (push_bit 4 (v AND 3)), - 2, - 2], [])"
    using b64_group_chars [OF b1(1,2), of 61 61 "[]"] by (simp add: b64index_pad)
  ultimately show ?case using lb64decode_group b1(3) by (simp add: lb64decode.simps [of "[]"])
next
  case 4
  then show ?case by (simp add: lb64decode.simps)
qed


text \<open>
  Characters outside the hexadecimal alphabet: \<open>g\<close> has the value 16 and passes the check
  \<open>hi > 16 || low > 16\<close>.
\<close>

lemma lfromhex_accepts_g: "lfromhex [48, 103, 48, 48] = Some [16, 0]"
  by (simp add: lfromhex_def HEX_def)

end
