(* ===== verification/Keyx.thy ===== *)
theory Keyx
  imports Prelude
begin

text \<open>
  The keyed hashes and the Diffie-Hellman exchange of \<open>src/lualib/lcrypt.c\<close>. Strings are byte
  lists; a Lua error is \<open>Inl\<close> of its message. The recursion of \<open>pow_mod_p\<close> does not end for the
  exponent \<open>0\<close>, so its result is an option.
\<close>

section \<open>Bytes and words\<close>

definition le32 :: "bytes \<Rightarrow> nat \<Rightarrow> u32" where
  "le32 x i =
     ucast (x ! i) OR push_bit 8 (ucast (x ! (i + 1))) OR push_bit 16 (ucast (x ! (i + 2))) OR
     push_bit 24 (ucast (x ! (i + 3)))"

definition put32 :: "u32 \<Rightarrow> bytes" where
  "put32 r = [ucast (r AND 0xff), ucast (drop_bit 8 r AND 0xff), ucast (drop_bit 16 r AND 0xff),
     ucast (drop_bit 24 r AND 0xff)]"

definition read64 :: "bytes \<Rightarrow> bytes \<Rightarrow> string + (u32 \<times> u32) \<times> (u32 \<times> u32)" where
  "read64 x y =
     (if length x \<noteq> 8 then Inl ''Invalid uint64 x''
      else if length y \<noteq> 8 then Inl ''Invalid uint64 y''
      else Inr ((le32 x 0, le32 x 4), (le32 y 0, le32 y 4)))"

definition pushqword :: "u32 \<times> u32 \<Rightarrow> bytes" where
  "pushqword result = put32 (fst result) @ put32 (snd result)"

section \<open>Hashes\<close>

definition hash_step :: "u8 \<Rightarrow> u32 \<times> u32 \<Rightarrow> u32 \<times> u32" where
  "hash_step c = (\<lambda>(djb, js).
     (djb + (push_bit 5 djb + ucast c), js XOR (push_bit 5 js + ucast c + drop_bit 2 js)))"

definition Hash :: "bytes \<Rightarrow> bytes" where
  "Hash str =
     (let (djb_hash, js_hash) = fold hash_step str (5381, 1315423911)
      in put32 djb_hash @ put32 js_hash)"

definition lhashkey :: "bytes \<Rightarrow> bytes" where
  "lhashkey key = Hash key"

definition md5_k :: "u32 list" where
  "md5_k =
    [0xd76aa478, 0xe8c7b756, 0x242070db, 0xc1bdceee, 0xf57c0faf, 0x4787c62a, 0xa8304613, 0xfd469501,
     0x698098d8, 0x8b44f7af, 0xffff5bb1, 0x895cd7be, 0x6b901122, 0xfd987193, 0xa679438e, 0x49b40821,
     0xf61e2562, 0xc040b340, 0x265e5a51, 0xe9b6c7aa, 0xd62f105d, 0x02441453, 0xd8a1e681, 0xe7d3fbc8,
     0x21e1cde6, 0xc33707d6, 0xf4d50d87, 0x455a14ed, 0xa9e3e905, 0xfcefa3f8, 0x676f02d9, 0x8d2a4c8a,
     0xfffa3942, 0x8771f681, 0x6d9d6122, 0xfde5380c, 0xa4beea44, 0x4bdecfa9, 0xf6bb4b60, 0xbebfbc70,
     0x289b7ec6, 0xeaa127fa, 0xd4ef3085, 0x04881d05, 0xd9d4d039, 0xe6db99e5, 0x1fa27cf8, 0xc4ac5665,
     0xf4292244, 0x432aff97, 0xab9423a7, 0xfc93a039, 0x655b59c3, 0x8f0ccc92, 0xffeff47d, 0x85845dd1,
     0x6fa87e4f, 0xfe2ce6e0, 0xa3014314, 0x4e0811a1, 0xf7537e82, 0xbd3af235, 0x2ad7d2bb, 0xeb86d391]"

definition md5_r :: "nat list" where
  "md5_r =
    [7, 12, 17, 22, 7, 12, 17, 22, 7, 12, 17, 22, 7, 12, 17, 22,
     5, 9, 14, 20, 5, 9, 14, 20, 5, 9, 14, 20, 5, 9, 14, 20,
     4, 11, 16, 23, 4, 11, 16, 23, 4, 11, 16, 23, 4, 11, 16, 23,
     6, 10, 15, 21, 6, 10, 15, 21, 6, 10, 15, 21, 6, 10, 15, 21]"

definition LEFTROTATE :: "u32 \<Rightarrow> nat \<Rightarrow> u32" where
  "LEFTROTATE x c = push_bit c x OR drop_bit (32 - c) x"

text \<open>One round of \<open>hmac\<close> on \<open>(a, b, c, d)\<close>.\<close>

definition hmac_round :: "u32 list \<Rightarrow> nat \<Rightarrow> u32 \<times> u32 \<times> u32 \<times> u32 \<Rightarrow> u32 \<times> u32 \<times> u32 \<times> u32" where
  "hmac_round w i = (\<lambda>(a, b, c, d).
     let (f, g) =
       (if i < 16 then ((b AND c) OR (NOT b AND d), i)
        else if i < 32 then ((d AND b) OR (NOT d AND c), (5 * i + 1) mod 16)
        else if i < 48 then (b XOR c XOR d, (3 * i + 5) mod 16)
        else (c XOR (b OR NOT d), (7 * i) mod 16))
     in (d, b + LEFTROTATE (a + f + md5_k ! i + w ! g) (md5_r ! i), b, c))"

definition hmac :: "u32 \<times> u32 \<Rightarrow> u32 \<times> u32 \<Rightarrow> u32 \<times> u32" where
  "hmac x y =
     (let w = concat (replicate 4 [snd x, fst x, snd y, fst y]);
          (a, b, c, d) = fold (hmac_round w) [0..<64] (0x67452301, 0xefcdab89, 0x98badcfe, 0x10325476)
      in (c XOR d, a XOR b))"

definition lhmac64 :: "bytes \<Rightarrow> bytes \<Rightarrow> string + bytes" where
  "lhmac64 x y =
     (case read64 x y of Inl e \<Rightarrow> Inl e | Inr (xx, yy) \<Rightarrow> Inr (pushqword (hmac xx yy)))"

definition lhmac_hash :: "bytes \<Rightarrow> bytes \<Rightarrow> string + bytes" where
  "lhmac_hash x text =
     (if length x \<noteq> 8 then Inl ''Invalid uint64 key''
      else
        (let key = (le32 x 0, le32 x 4); h = Hash text; htext = (le32 h 0, le32 h 4)
         in Inr (pushqword (hmac htext key))))"

section \<open>Arithmetic modulo the prime\<close>

definition P :: u64 where "P = 0xffffffffffffffc5"

function mul_loop :: "u64 \<Rightarrow> u64 \<Rightarrow> u64 \<Rightarrow> u64" where
  "mul_loop a b m =
     (if b = 0 then m
      else
        (let m' = (if b AND 1 \<noteq> 0 then let t = P - a in if m \<ge> t then m - t else m + a else m);
             a' = (if a \<ge> P - a then a * 2 - P else a * 2)
         in mul_loop a' (drop_bit 1 b) m'))"
  by pat_completeness auto
termination
proof (relation "measure (\<lambda>(a, b, m). unat b)", simp)
  fix a b m m' a' :: u64
  assume "b \<noteq> 0"
  then have "0 < unat b" by (simp add: unat_gt_0)
  moreover have "unat (drop_bit 1 b) = unat b div 2" using unat_drop_bit [of 1 b] by simp
  ultimately show "((a', drop_bit 1 b, m'), a, b, m) \<in> measure (\<lambda>(a, b, m). unat b)" by simp
qed

declare mul_loop.simps [simp del]

definition mul_mod_p :: "u64 \<Rightarrow> u64 \<Rightarrow> u64" where
  "mul_mod_p a b = mul_loop a b 0"

partial_function (option) pow_mod_p :: "u64 \<Rightarrow> u64 \<Rightarrow> u64 option" where
  "pow_mod_p a b =
     (if b = 1 then Some a
      else do { t \<leftarrow> pow_mod_p a (drop_bit 1 b);
                let t = mul_mod_p t t;
                Some (if b mod 2 \<noteq> 0 then mul_mod_p t a else t) })"

definition powmodp :: "u64 \<Rightarrow> u64 \<Rightarrow> u64 option" where
  "powmodp a b = (let a = (if a > P then a mod P else a) in pow_mod_p a b)"

section \<open>The exchange\<close>

definition push64 :: "u64 \<Rightarrow> bytes" where
  "push64 r = map (\<lambda>i. ucast (drop_bit (8 * i) r AND 0xff)) [0..<8]"

definition qword :: "u32 \<times> u32 \<Rightarrow> u64" where
  "qword x = ucast (fst x) OR push_bit 32 (ucast (snd x))"

definition ldhsecret :: "bytes \<Rightarrow> bytes \<Rightarrow> (string + bytes) option" where
  "ldhsecret x y =
     (case read64 x y of Inl e \<Rightarrow> Some (Inl e)
      | Inr (x2, y2) \<Rightarrow>
         (let xx = qword x2; yy = qword y2 in
          if xx = 0 \<or> yy = 0 then Some (Inl ''can not be 0'')
          else do { r \<leftarrow> powmodp xx yy; Some (Inr (push64 r)) }))"

definition ldhexchange :: "bytes \<Rightarrow> (string + bytes) option" where
  "ldhexchange x =
     (if length x \<noteq> 8 then Some (Inl ''Invalid dh uint64 key'')
      else
        (let x0 = qword (le32 x 0, le32 x 4); x64 = (if x0 = 0 then 1 else x0)
         in do { r \<leftarrow> powmodp 5 x64; Some (Inr (push64 r)) }))"


section \<open>Words survive the wire\<close>

lemma ff_mask: "(0xff :: u32) = mask 8" "(0xff :: u64) = mask 8"
  by (simp_all add: mask_eq_exp_minus_1)

lemma le32_bits:
  "length x \<ge> i + 4 \<Longrightarrow> n < 32 \<Longrightarrow> bit (le32 x i) n = bit (x ! (i + n div 8)) (n mod 8)"
proof -
  assume "n < 32"
  then consider "n < 8" | "8 \<le> n" "n < 16" | "16 \<le> n" "n < 24" | "24 \<le> n" "n < 32" by linarith
  then show ?thesis
  proof cases
    case 1
    then show ?thesis by (auto simp: le32_def bit_simps)
  next
    case 2
    then have "n div 8 = 1" "n mod 8 = n - 8" by (auto simp: le_div_geq le_mod_geq)
    with 2 show ?thesis by (auto simp: le32_def bit_simps dest: bit_imp_le_length)
  next
    case 3
    then have "n div 8 = 2" "n mod 8 = n - 16" by (auto simp: le_div_geq le_mod_geq)
    with 3 show ?thesis by (auto simp: le32_def bit_simps dest: bit_imp_le_length)
  next
    case 4
    then have "n div 8 = 3" "n mod 8 = n - 24" by (auto simp: le_div_geq le_mod_geq)
    with 4 show ?thesis by (auto simp: le32_def bit_simps dest: bit_imp_le_length)
  qed
qed

lemma put32_nth: "j < 4 \<Longrightarrow> n < 8 \<Longrightarrow> bit (put32 r ! j) n = bit r (8 * j + n)"
proof -
  assume j: "j < 4" and n: "n < 8"
  from j consider "j = 0" | "j = 1" | "j = 2" | "j = 3" by linarith
  then show ?thesis using n
    by cases (auto simp: put32_def ff_mask bit_simps add.commute)
qed

lemma length_put32 [simp]: "length (put32 r) = 4"
  by (simp add: put32_def)

lemma le32_put32: "le32 (put32 r @ xs) 0 = r" "le32 (put32 r @ put32 q) 4 = q"
proof -
  show "le32 (put32 r @ xs) 0 = r"
  proof (rule bit_word_eqI)
    fix n
    assume n: "n < LENGTH(32)"
    then have "n div 8 < 4" by simp
    then show "bit (le32 (put32 r @ xs) 0) n = bit r n"
      using n by (simp add: le32_bits nth_append put32_nth)
  qed
  show "le32 (put32 r @ put32 q) 4 = q"
  proof (rule bit_word_eqI)
    fix n
    assume n: "n < LENGTH(32)"
    then have "n div 8 < 4" by simp
    then show "bit (le32 (put32 r @ put32 q) 4) n = bit q n"
      using n by (simp add: le32_bits nth_append put32_nth)
  qed
qed

text \<open>
  \<open>hmac_hash\<close> is \<open>hmac64\<close> of the hashed text: both give the same eight bytes for the same key.
\<close>

theorem hmac_hash_is_hmac64:
  assumes "length key = 8"
  shows "lhmac_hash key text = lhmac64 (lhashkey text) key"
proof -
  have "length (Hash text) = 8" by (simp add: Hash_def split: prod.split)
  with assms show ?thesis
    by (simp add: lhmac_hash_def lhmac64_def read64_def lhashkey_def Let_def)
qed

theorem hmac_hash_is_hmac64_witness:
  "lhmac_hash [1, 2, 3, 4, 5, 6, 7, 8] [97, 98] = lhmac64 (lhashkey [97, 98]) [1, 2, 3, 4, 5, 6, 7, 8]"
  using hmac_hash_is_hmac64 [of "[1, 2, 3, 4, 5, 6, 7, 8]" "[97, 98]"] by simp

section \<open>Modular arithmetic is correct\<close>

abbreviation Pn :: nat where "Pn \<equiv> 18446744073709551557"

lemma unat_P: "unat P = Pn"
  by (simp add: P_def)

lemma mul_step_a:
  assumes "a < P"
  shows "unat (if a \<ge> P - a then a * 2 - P else a * 2) = (2 * unat a) mod Pn"
    "(if a \<ge> P - a then a * 2 - P else a * 2) < P"
proof -
  let ?a' = "if a \<ge> P - a then a * 2 - P else a * 2"
  have a: "unat a < Pn" using assms by (simp add: word_less_nat_alt unat_P)
  have t: "unat (P - a) = Pn - unat a" using assms by (simp add: unat_sub unat_P)
  have "unat ?a' = (2 * unat a) mod Pn"
  proof (cases "a \<ge> P - a")
    case True
    then have "Pn - unat a \<le> unat a" using t by (simp add: word_le_nat_alt)
    moreover have e: "a * 2 - P = a - (P - a)" by (simp add: algebra_simps)
    have "unat (a * 2 - P) = unat a - (Pn - unat a)" unfolding e using True t by (simp only: unat_sub)
    ultimately show ?thesis using True a by (simp add: le_mod_geq)
  next
    case False
    then have lt: "2 * unat a < Pn" using t a by (simp add: word_le_nat_alt)
    then have "unat a + unat a < 2 ^ LENGTH(64)" by simp
    then have "unat (a + a) = unat a + unat a" by (rule unat_add_lem [THEN iffD1])
    moreover have "a * 2 = a + a" by (rule mult_2_right)
    ultimately have "unat (a * 2) = 2 * unat a" by (simp only: mult_2)
    with False lt show ?thesis by simp
  qed
  then show "unat ?a' = (2 * unat a) mod Pn" "?a' < P" by (simp_all add: word_less_nat_alt unat_P)
qed

lemma mul_step_m:
  assumes "a < P" "m < P"
  shows "unat (let t = P - a in if m \<ge> t then m - t else m + a) = (unat m + unat a) mod Pn"
    "(let t = P - a in if m \<ge> t then m - t else m + a) < P"
proof -
  let ?m' = "let t = P - a in if m \<ge> t then m - t else m + a"
  have b: "unat a < Pn" "unat m < Pn" using assms by (simp_all add: word_less_nat_alt unat_P)
  have t: "unat (P - a) = Pn - unat a" using assms by (simp add: unat_sub unat_P)
  have "unat ?m' = (unat m + unat a) mod Pn"
  proof (cases "m \<ge> P - a")
    case True
    then have "Pn - unat a \<le> unat m" using t by (simp add: word_le_nat_alt)
    then show ?thesis using True t b by (simp add: unat_sub le_mod_geq)
  next
    case False
    then have lt: "unat m + unat a < Pn" using t b by (simp add: word_le_nat_alt)
    moreover have "unat m + unat a < 2 ^ LENGTH(64)" using lt by simp
    then have "unat (m + a) = unat m + unat a" by (rule unat_add_lem [THEN iffD1])
    ultimately show ?thesis using False by simp
  qed
  then show "unat ?m' = (unat m + unat a) mod Pn" "?m' < P" by (simp_all add: word_less_nat_alt unat_P)
qed

lemma mod_sum_prod: "((x :: nat) mod p + y mod p * z) mod p = (x + y * z) mod p"
proof -
  have "(y mod p * z) mod p = (y * z) mod p" by (rule mod_mult_left_eq)
  then show ?thesis by (metis mod_add_left_eq mod_add_right_eq)
qed

lemma mul_loop_spec:
  "a < P \<Longrightarrow> m < P \<Longrightarrow>
     unat (mul_loop a b m) = (unat m + unat a * unat b) mod Pn \<and> mul_loop a b m < P"
proof (induction a b m rule: mul_loop.induct)
  case (1 a b m)
  show ?case
  proof (cases "b = 0")
    case True
    with "1.prems" show ?thesis by (simp add: mul_loop.simps word_less_nat_alt unat_P)
  next
    case False
    define m' where "m' = (if b AND 1 \<noteq> 0 then let t = P - a in if m \<ge> t then m - t else m + a else m)"
    define a' where "a' = (if a \<ge> P - a then a * 2 - P else a * 2)"
    note am = mul_step_a [OF "1.prems"(1), folded a'_def]
    have bit: "b AND 1 \<noteq> 0 \<longleftrightarrow> odd (unat b)"
      using unat_and_mask [of b 1] unat_eq_zero [of "b AND 1"] by (simp add: even_iff_mod_2_eq_zero)
    have m': "unat m' = (unat m + unat a * (unat b mod 2)) mod Pn" "m' < P"
      using mul_step_m [OF "1.prems"] "1.prems" bit
      by (auto simp: m'_def odd_iff_mod_2_eq_one even_iff_mod_2_eq_zero word_less_nat_alt unat_P)
    have half: "unat (drop_bit 1 b) = unat b div 2" using unat_drop_bit [of 1 b] by simp
    have "mul_loop a b m = mul_loop a' (drop_bit 1 b) m'"
      using False by (subst mul_loop.simps) (simp add: m'_def a'_def Let_def)
    moreover have "unat (mul_loop a' (drop_bit 1 b) m') = (unat m' + unat a' * unat (drop_bit 1 b)) mod Pn \<and>
        mul_loop a' (drop_bit 1 b) m' < P"
      by (rule "1.IH" [OF False m'_def a'_def am(2) m'(2)])
    moreover have "(unat m' + unat a' * unat (drop_bit 1 b)) mod Pn = (unat m + unat a * unat b) mod Pn"
    proof -
      have "(unat m' + unat a' * (unat b div 2)) mod Pn =
          ((unat m + unat a * (unat b mod 2)) + (2 * unat a) * (unat b div 2)) mod Pn"
        unfolding m' am(1) by (rule mod_sum_prod)
      also have "(unat m + unat a * (unat b mod 2)) + (2 * unat a) * (unat b div 2) =
          unat m + unat a * (unat b mod 2 + 2 * (unat b div 2))"
        by (simp only: distrib_left mult.assoc mult.left_commute add.assoc)
      also have "unat b mod 2 + 2 * (unat b div 2) = unat b" by simp
      finally show ?thesis by (simp only: half)
    qed
    ultimately show ?thesis by simp
  qed
qed


lemma mul_mod_p_spec: "a < P \<Longrightarrow> unat (mul_mod_p a b) = (unat a * unat b) mod Pn \<and> mul_mod_p a b < P"
  using mul_loop_spec [of a 0 b] by (simp add: mul_mod_p_def word_less_nat_alt unat_P)

lemma pow_mod_p_spec:
  assumes "a < P" "b \<noteq> 0"
  shows "\<exists>r. pow_mod_p a b = Some r \<and> unat r = unat a ^ unat b mod Pn \<and> r < P"
  using assms(2)
proof (induction "unat b" arbitrary: b rule: less_induct)
  case less
  have pos: "0 < unat b" using less.prems by (simp add: unat_gt_0)
  show ?case
  proof (cases "b = 1")
    case True
    have "unat a < Pn" using assms(1) by (simp add: word_less_nat_alt unat_P)
    with True assms(1) show ?thesis by (subst pow_mod_p.simps) simp
  next
    case False
    have half: "unat (drop_bit 1 b) = unat b div 2" using unat_drop_bit [of 1 b] by simp
    have "unat b \<noteq> 1" using False by (metis unat_1 word_unat_eq_iff)
    then have "drop_bit 1 b \<noteq> 0" using pos half by (metis One_nat_def Suc_leI div_eq_0_iff
          le_neq_implies_less less_2_cases_iff not_one_less_zero unat_0 zero_neq_numeral)
    from less.hyps [OF _ this] half pos obtain t where
      t: "pow_mod_p a (drop_bit 1 b) = Some t" "unat t = unat a ^ (unat b div 2) mod Pn" "t < P" by auto
    let ?t2 = "mul_mod_p t t"
    have t2: "unat ?t2 = unat a ^ (2 * (unat b div 2)) mod Pn" "?t2 < P"
    proof -
      have "unat ?t2 = (unat a ^ (unat b div 2) mod Pn * (unat a ^ (unat b div 2) mod Pn)) mod Pn"
        using mul_mod_p_spec [OF t(3), of t] by (simp only: t(2))
      also have "\<dots> = unat a ^ (unat b div 2) * unat a ^ (unat b div 2) mod Pn" by (rule mod_mult_eq)
      also have "unat a ^ (unat b div 2) * unat a ^ (unat b div 2) = unat a ^ (2 * (unat b div 2))"
        by (simp only: mult_2 power_add)
      finally show "unat ?t2 = unat a ^ (2 * (unat b div 2)) mod Pn" .
      show "?t2 < P" using mul_mod_p_spec [OF t(3), of t] by simp
    qed
    have odd: "b mod 2 \<noteq> 0 \<longleftrightarrow> odd (unat b)"
      using unat_and_mask [of b 1] unat_eq_zero [of "b mod 2"]
      by (simp add: even_iff_mod_2_eq_zero unat_mod)
    have "pow_mod_p a b = Some (if b mod 2 \<noteq> 0 then mul_mod_p ?t2 a else ?t2)"
      using False t(1) by (subst pow_mod_p.simps) (simp add: Let_def)
    moreover have "unat (mul_mod_p ?t2 a) = unat a ^ unat b mod Pn" if "odd (unat b)"
    proof -
      have "unat b = Suc (2 * (unat b div 2))" using that by simp
      then have "unat a ^ unat b = unat a ^ (2 * (unat b div 2)) * unat a"
        by (metis power_Suc2)
      with mul_mod_p_spec [OF t2(2), of a] t2(1) show ?thesis by (simp add: mod_mult_left_eq)
    qed
    moreover have "unat ?t2 = unat a ^ unat b mod Pn" if "even (unat b)" using that t2(1) by simp
    ultimately show ?thesis using odd t2(2) mul_mod_p_spec [OF t2(2), of a] by auto
  qed
qed

text \<open>
  \<open>powmodp\<close> computes modular exponentiation: for a base that is not the modulus itself and a
  positive exponent the recursion ends and gives \<open>a\<^sup>b mod P\<close>.
\<close>

theorem powmodp_correct:
  assumes "a \<noteq> P" "b \<noteq> 0"
  shows "\<exists>r. powmodp a b = Some r \<and> unat r = unat a ^ unat b mod unat P"
proof (cases "a > P")
  case True
  have P0: "0 < P" by (simp add: word_less_nat_alt unat_P)
  then have "a mod P < P" by (simp add: word_less_nat_alt unat_mod)
  from pow_mod_p_spec [OF this assms(2)] True show ?thesis
    by (auto simp: powmodp_def Let_def unat_mod power_mod unat_P)
next
  case False
  with assms(1) have "a < P" by simp
  from pow_mod_p_spec [OF this assms(2)] False show ?thesis by (auto simp: powmodp_def unat_P)
qed

theorem powmodp_correct_witness: "\<exists>r. powmodp 5 100 = Some r \<and> unat r = 5 ^ 100 mod unat P"
  using powmodp_correct [of 5 100] by (simp add: P_def)

section \<open>Key agreement\<close>

lemma qword_bits:
  assumes "length x = 8" "n < 64"
  shows "bit (qword (le32 x 0, le32 x 4)) n = bit (x ! (n div 8)) (n mod 8)"
proof (cases "n < 32")
  case True
  with assms show ?thesis by (auto simp: qword_def bit_simps le32_bits)
next
  case False
  then obtain m where n: "n = 32 + m" using le_Suc_ex not_less by blast
  then have m: "m < 32" using assms(2) by simp
  have "(32 + m) div 8 = 4 + m div 8" "(32 + m) mod 8 = m mod 8" by presburger+
  with m have "bit (le32 x 4) m = bit (x ! (n div 8)) (n mod 8)"
    using assms n by (simp add: le32_bits)
  moreover have "\<not> bit (le32 x 0) (32 + m)" using bit_imp_le_length [of "le32 x 0" "32 + m"] by auto
  ultimately show ?thesis using n m by (simp add: qword_def bit_simps)
qed

lemma length_push64 [simp]: "length (push64 r) = 8"
  by (simp add: push64_def)

lemma push64_read: "qword (le32 (push64 r) 0, le32 (push64 r) 4) = r"
proof (rule bit_word_eqI)
  fix n
  assume "n < LENGTH(64)"
  then have n: "n < 64" "n div 8 < 8" by simp_all
  have b: "bit (push64 r ! j) k = bit r (8 * j + k)" if "j < 8" "k < 8" for j k
    using that by (simp add: push64_def ff_mask bit_simps add.commute)
  show "bit (qword (le32 (push64 r) 0, le32 (push64 r) 4)) n = bit r n"
    using n by (simp add: qword_bits b)
qed

lemma qword_zero:
  assumes "length x = 8" "qword (le32 x 0, le32 x 4) = 0"
  shows "x = replicate 8 0"
proof (rule nth_equalityI)
  fix j
  assume j: "j < length x"
  have "x ! j = 0"
  proof (rule bit_word_eqI)
    fix k
    assume "k < LENGTH(8)"
    then have "(8 * j + k) div 8 = j" "(8 * j + k) mod 8 = k" "8 * j + k < 64" using j assms(1) by auto
    with qword_bits [OF assms(1), of "8 * j + k"] assms(2) show "bit (x ! j) k = bit 0 k" by simp
  qed
  with j assms(1) show "x ! j = replicate 8 0 ! j" by simp
qed (use assms in simp)

lemma five_pow_nonzero: "0 < n \<Longrightarrow> 5 ^ n mod Pn \<noteq> 0"
proof
  assume "5 ^ n mod Pn = 0"
  then have "Pn dvd 5 ^ n" by (simp only: mod_eq_0_iff_dvd)
  moreover have "coprime Pn 5" by (simp add: coprime_iff_gcd_eq_1 gcd_non_0_nat)
  ultimately show False
    using coprime_common_divisor [of Pn "5 ^ n" Pn] by (simp add: coprime_power_right_iff)
qed

text \<open>
  C24: The two sides of a Diffie-Hellman exchange agree. For any two non-zero eight-byte private keys, read as little-endian numbers
  \<open>a\<close> and \<open>b\<close>, the public values are \<open>5 ^ a mod (2 ^ 64 - 59)\<close> and \<open>5 ^ b mod (2 ^ 64 - 59)\<close>, neither of them is refused, and each
  side computes from its own key and the other's public value the same secret, \<open>5 ^ (a * b) mod (2 ^ 64 - 59)\<close>, all written as eight bytes, little-endian.
\<close>

theorem dh_agreement:
  assumes "length a = 8" "length b = 8" "a \<noteq> replicate 8 0" "b \<noteq> replicate 8 0"
  shows "\<exists>ra rb s. ldhexchange a = Some (Inr (push64 ra)) \<and> unat ra = 5 ^ unat (qword (le32 a 0, le32 a 4)) mod (2 ^ 64 - 59) \<and>
    ldhexchange b = Some (Inr (push64 rb)) \<and> unat rb = 5 ^ unat (qword (le32 b 0, le32 b 4)) mod (2 ^ 64 - 59) \<and>
    ldhsecret (push64 rb) a = Some (Inr (push64 s)) \<and> ldhsecret (push64 ra) b = Some (Inr (push64 s)) \<and>
    unat s = 5 ^ (unat (qword (le32 a 0, le32 a 4)) * unat (qword (le32 b 0, le32 b 4))) mod (2 ^ 64 - 59)"
proof -
  let ?q = "\<lambda>x. qword (le32 x 0, le32 x 4)"
  have nz: "?q a \<noteq> 0" "?q b \<noteq> 0" using qword_zero assms by blast+
  have five: "(5 :: u64) \<noteq> P" "unat (5 :: u64) = 5" by (simp_all add: P_def)
  have ex: "\<exists>r. ldhexchange x = Some (Inr (push64 r)) \<and> unat r = 5 ^ unat (?q x) mod Pn"
    if "length x = 8" "?q x \<noteq> 0" for x
    using powmodp_correct [OF five(1) that(2)] that by (auto simp: ldhexchange_def Let_def unat_P)
  from ex [OF assms(1) nz(1)] obtain ra where
    ra: "ldhexchange a = Some (Inr (push64 ra))" "unat ra = 5 ^ unat (?q a) mod Pn" by blast
  from ex [OF assms(2) nz(2)] obtain rb where
    rb: "ldhexchange b = Some (Inr (push64 rb))" "unat rb = 5 ^ unat (?q b) mod Pn" by blast
  have sec: "\<exists>s. ldhsecret (push64 r) x = Some (Inr (push64 s)) \<and> unat s = 5 ^ (n * unat (?q x)) mod Pn"
    if "length x = 8" "?q x \<noteq> 0" "unat r = 5 ^ n mod Pn" "0 < n" for x r n
  proof -
    have "unat r \<noteq> 0" using five_pow_nonzero [OF that(4)] that(3) by simp
    then have "r \<noteq> 0" by (simp add: unat_eq_zero)
    have "unat r < Pn" using that(3) by simp
    then have "r \<noteq> P" using unat_P by auto
    from powmodp_correct [OF this that(2)] obtain s where
      s: "powmodp r (?q x) = Some s" "unat s = unat r ^ unat (?q x) mod Pn" by (auto simp: unat_P)
    have "unat s = 5 ^ (n * unat (?q x)) mod Pn"
      unfolding s(2) that(3) power_mod power_mult [symmetric] ..
    with s(1) \<open>r \<noteq> 0\<close> that show ?thesis
      by (simp add: ldhsecret_def read64_def push64_read Let_def) blast
  qed
  have pos: "0 < unat (?q a)" "0 < unat (?q b)" using nz by (simp_all add: unat_gt_0)
  from sec [OF assms(1) nz(1) rb(2) pos(2)] obtain s where
    s: "ldhsecret (push64 rb) a = Some (Inr (push64 s))" "unat s = 5 ^ (unat (?q b) * unat (?q a)) mod Pn" by blast
  from sec [OF assms(2) nz(2) ra(2) pos(1)] obtain s' where
    s': "ldhsecret (push64 ra) b = Some (Inr (push64 s'))" "unat s' = 5 ^ (unat (?q a) * unat (?q b)) mod Pn" by blast
  have "s = s'" using s(2) s'(2) by (simp add: word_unat_eq_iff mult.commute)
  moreover have "Pn = 2 ^ 64 - 59" by simp
  ultimately show ?thesis using ra rb s s' by metis
qed

theorem dh_agreement_witness:
  "\<exists>ra rb s. ldhexchange [1, 2, 3, 4, 5, 6, 7, 8] = Some (Inr (push64 ra)) \<and> ldhexchange [8, 7, 6, 5, 4, 3, 2, 1] = Some (Inr (push64 rb)) \<and>
    ldhsecret (push64 rb) [1, 2, 3, 4, 5, 6, 7, 8] = Some (Inr (push64 s)) \<and> ldhsecret (push64 ra) [8, 7, 6, 5, 4, 3, 2, 1] = Some (Inr (push64 s))"
proof -
  have "[1, 2, 3, 4, 5, 6, 7, 8] \<noteq> replicate 8 (0 :: u8)" "[8, 7, 6, 5, 4, 3, 2, 1] \<noteq> replicate 8 (0 :: u8)" by (simp_all add: eval_nat_numeral)
  from dh_agreement [OF _ _ this] show ?thesis by auto
qed

end
