(* ===== verification/Sha1.thy ===== *)
theory Sha1
  imports Prelude
begin

text \<open>
  SHA-1 and its keyed hash, \<open>src/lualib/lsha1.c\<close>, as compiled for a little-endian host. The
  variables \<open>a\<close> to \<open>e\<close> of the unrolled rounds are the entries of a list, so that each round
  names its variables by index and updates two of them in place, as the macros do. The buffer
  of a context is not initialised by \<open>sat_SHA1_Init\<close>: the contexts of the callers are arguments.
  The standard's own description of the hash is stated beside it, and the code is shown to
  compute it.
\<close>

section \<open>Memory as words\<close>

definition host32 :: "bytes \<Rightarrow> nat \<Rightarrow> u32" where
  "host32 m i = ucast (m ! i) OR push_bit 8 (ucast (m ! (i + 1))) OR push_bit 16 (ucast (m ! (i + 2))) OR
     push_bit 24 (ucast (m ! (i + 3)))"

definition host32_bytes :: "u32 \<Rightarrow> bytes" where
  "host32_bytes w = [ucast w, ucast (drop_bit 8 w), ucast (drop_bit 16 w), ucast (drop_bit 24 w)]"

definition memcpy_at :: "bytes \<Rightarrow> nat \<Rightarrow> bytes \<Rightarrow> bytes" where
  "memcpy_at dst j src = take j dst @ src @ drop (j + length src) dst"

section \<open>One block\<close>

definition rol :: "u32 \<Rightarrow> nat \<Rightarrow> u32" where
  "rol v n = push_bit n v OR drop_bit (32 - n) v"

definition blk0 :: "nat \<Rightarrow> u32 list \<Rightarrow> u32 list" where
  "blk0 i l = l[i := (rol (l ! i) 24 AND 0xFF00FF00) OR (rol (l ! i) 8 AND 0x00FF00FF)]"

definition blk :: "nat \<Rightarrow> u32 list \<Rightarrow> u32 list" where
  "blk i l = l[i AND 15 :=
     rol (l ! ((i + 13) AND 15) XOR l ! ((i + 8) AND 15) XOR l ! ((i + 2) AND 15) XOR l ! (i AND 15)) 1]"

type_synonym round_vars = "nat \<times> nat \<times> nat \<times> nat \<times> nat"

definition R0 :: "round_vars \<Rightarrow> nat \<Rightarrow> u32 list \<times> u32 list \<Rightarrow> u32 list \<times> u32 list" where
  "R0 = (\<lambda>(v, w, x, y, z) i (s, l).
     let l = blk0 i l;
         s = s[z := s ! z + ((((s ! w AND (s ! x XOR s ! y)) XOR s ! y) + l ! i + 0x5A827999) + rol (s ! v) 5)];
         s = s[w := rol (s ! w) 30]
     in (s, l))"

definition R1 :: "round_vars \<Rightarrow> nat \<Rightarrow> u32 list \<times> u32 list \<Rightarrow> u32 list \<times> u32 list" where
  "R1 = (\<lambda>(v, w, x, y, z) i (s, l).
     let l = blk i l;
         s = s[z := s ! z + ((((s ! w AND (s ! x XOR s ! y)) XOR s ! y) + l ! (i AND 15) + 0x5A827999) + rol (s ! v) 5)];
         s = s[w := rol (s ! w) 30]
     in (s, l))"

definition R2 :: "round_vars \<Rightarrow> nat \<Rightarrow> u32 list \<times> u32 list \<Rightarrow> u32 list \<times> u32 list" where
  "R2 = (\<lambda>(v, w, x, y, z) i (s, l).
     let l = blk i l;
         s = s[z := s ! z + (((s ! w XOR s ! x XOR s ! y) + l ! (i AND 15) + 0x6ED9EBA1) + rol (s ! v) 5)];
         s = s[w := rol (s ! w) 30]
     in (s, l))"

definition R3 :: "round_vars \<Rightarrow> nat \<Rightarrow> u32 list \<times> u32 list \<Rightarrow> u32 list \<times> u32 list" where
  "R3 = (\<lambda>(v, w, x, y, z) i (s, l).
     let l = blk i l;
         s = s[z := s ! z + (((((s ! w OR s ! x) AND s ! y) OR (s ! w AND s ! x)) + l ! (i AND 15) + 0x8F1BBCDC) +
           rol (s ! v) 5)];
         s = s[w := rol (s ! w) 30]
     in (s, l))"

definition R4 :: "round_vars \<Rightarrow> nat \<Rightarrow> u32 list \<times> u32 list \<Rightarrow> u32 list \<times> u32 list" where
  "R4 = (\<lambda>(v, w, x, y, z) i (s, l).
     let l = blk i l;
         s = s[z := s ! z + (((s ! w XOR s ! x XOR s ! y) + l ! (i AND 15) + 0xCA62C1D6) + rol (s ! v) 5)];
         s = s[w := rol (s ! w) 30]
     in (s, l))"

text \<open>
  The arguments of the unrolled rounds turn by one place from each round to the next: \<open>(a,b,c,d,e)\<close>,
  \<open>(e,a,b,c,d)\<close>, \<open>(d,e,a,b,c)\<close>, \<open>(c,d,e,a,b)\<close>, \<open>(b,c,d,e,a)\<close>.
\<close>

definition sha1_args :: "nat \<Rightarrow> round_vars" where
  "sha1_args i = [(0,1,2,3,4), (4,0,1,2,3), (3,4,0,1,2), (2,3,4,0,1), (1,2,3,4,0)] ! (i mod 5)"

definition sha1_op :: "nat \<Rightarrow> u32 list \<times> u32 list \<Rightarrow> u32 list \<times> u32 list" where
  "sha1_op i =
     (if i < 16 then R0 (sha1_args i) i
      else if i < 20 then R1 (sha1_args i) i
      else if i < 40 then R2 (sha1_args i) i
      else if i < 60 then R3 (sha1_args i) i
      else R4 (sha1_args i) i)"

definition SHA1_Transform :: "u32 list \<Rightarrow> bytes \<Rightarrow> u32 list" where
  "SHA1_Transform state buffer =
     (let l = map (\<lambda>i. host32 buffer (4 * i)) [0..<16];
          (s, l) = fold sha1_op [0..<80] (state, l)
      in map2 (+) state s)"

section \<open>Contexts\<close>

record SHA1_CTX =
  sha_state :: "u32 list"
  count0 :: u32
  count1 :: u32
  sha_buffer :: bytes

definition sat_SHA1_Init :: "SHA1_CTX \<Rightarrow> SHA1_CTX" where
  "sat_SHA1_Init context = context\<lparr>sha_state := [0x67452301, 0xEFCDAB89, 0x98BADCFE, 0x10325476, 0xC3D2E1F0],
     count0 := 0, count1 := 0\<rparr>"

definition add_count :: "nat \<Rightarrow> u32 \<times> u32 \<Rightarrow> u32 \<times> u32" where
  "add_count len = (\<lambda>(c0, c1).
     let len = (of_nat len :: u64);
         c0 = ucast ((ucast c0 :: u64) + push_bit 3 len);
         c1 = (if (ucast c0 :: u64) < push_bit 3 len then c1 + 1 else c1)
     in (c0, ucast ((ucast c1 :: u64) + drop_bit 29 len)))"

function update_loop :: "bytes \<Rightarrow> nat \<Rightarrow> u32 list \<Rightarrow> u32 list \<times> nat" where
  "update_loop data i state =
     (if i + 63 < length data
      then update_loop data (i + 64) (SHA1_Transform state (take 64 (drop i data)))
      else (state, i))"
  by pat_completeness auto
termination by (relation "measure (\<lambda>(data, i, state). length data - i)") auto

declare update_loop.simps [simp del]

definition sat_SHA1_Update :: "SHA1_CTX \<Rightarrow> bytes \<Rightarrow> SHA1_CTX" where
  "sat_SHA1_Update context data =
     (let len = length data;
          j = unat (drop_bit 3 (count0 context) AND 63);
          (c0, c1) = add_count len (count0 context, count1 context);
          context = context\<lparr>count0 := c0, count1 := c1\<rparr>
      in if j + len > 63 then
           let i = 64 - j;
               buffer = memcpy_at (sha_buffer context) j (take i data);
               state = SHA1_Transform (sha_state context) buffer;
               (state, i) = update_loop data i state
           in context\<lparr>sha_state := state, sha_buffer := memcpy_at buffer 0 (drop i data)\<rparr>
         else context\<lparr>sha_buffer := memcpy_at (sha_buffer context) j data\<rparr>)"

partial_function (option) pad_loop :: "SHA1_CTX \<Rightarrow> SHA1_CTX option" where
  "pad_loop context =
     (if count0 context AND 504 \<noteq> 448 then pad_loop (sat_SHA1_Update context [0]) else Some context)"

declare pad_loop.simps [code]

definition be32_bytes :: "u32 \<Rightarrow> bytes" where
  "be32_bytes w = map (\<lambda>i. ucast (drop_bit ((3 - i) * 8) w AND 255)) [0..<4]"

definition sat_SHA1_Final :: "SHA1_CTX \<Rightarrow> (bytes \<times> SHA1_CTX) option" where
  "sat_SHA1_Final context =
     (let finalcount = be32_bytes (count1 context) @ be32_bytes (count0 context) in do {
        context \<leftarrow> pad_loop (sat_SHA1_Update context [0x80]);
        let context = sat_SHA1_Update context finalcount;
        let digest = concat (map be32_bytes (sha_state context));
        Some (digest, context\<lparr>sha_buffer := replicate 64 0, sha_state := replicate 5 0, count0 := 0, count1 := 0\<rparr>)
      })"

definition lsha1 :: "SHA1_CTX \<Rightarrow> bytes \<Rightarrow> bytes option" where
  "lsha1 ctx buffer =
     do { (digest, _) \<leftarrow> sat_SHA1_Final (sat_SHA1_Update (sat_SHA1_Init ctx) buffer); Some digest }"

fun xor_key :: "bytes \<Rightarrow> u32 \<Rightarrow> bytes" where
  "xor_key (b0 # b1 # b2 # b3 # key) x = host32_bytes (host32 [b0, b1, b2, b3] 0 XOR x) @ xor_key key x"
| "xor_key key x = key"

definition lhmac_sha1 :: "SHA1_CTX \<Rightarrow> SHA1_CTX \<Rightarrow> SHA1_CTX \<Rightarrow> bytes \<Rightarrow> bytes \<Rightarrow> bytes option" where
  "lhmac_sha1 ctx ctx1 ctx2 key txt = do {
     rkey \<leftarrow> (if length key > 64
       then do { (digest, _) \<leftarrow> sat_SHA1_Final (sat_SHA1_Update (sat_SHA1_Init ctx) key);
                 Some (memcpy_at (replicate 64 0) 0 digest) }
       else Some (memcpy_at (replicate 64 0) 0 key));
     let rkey = xor_key rkey 0x5c5c5c5c;
     let ctx1 = sat_SHA1_Update (sat_SHA1_Init ctx1) rkey;
     let rkey = xor_key rkey (0x5c5c5c5c XOR 0x36363636);
     let ctx2 = sat_SHA1_Update (sat_SHA1_Init ctx2) rkey;
     (digest2, _) \<leftarrow> sat_SHA1_Final (sat_SHA1_Update ctx2 txt);
     (digest1, _) \<leftarrow> sat_SHA1_Final (sat_SHA1_Update ctx1 digest2);
     Some digest1 }"

section \<open>The standard\<close>

text \<open>The hash as FIPS 180 describes it: the message schedule, the round, the padding.\<close>

definition be32 :: "bytes \<Rightarrow> nat \<Rightarrow> u32" where
  "be32 m i = push_bit 24 (ucast (m ! i)) OR push_bit 16 (ucast (m ! (i + 1))) OR
     push_bit 8 (ucast (m ! (i + 2))) OR ucast (m ! (i + 3))"

fun fips_W :: "bytes \<Rightarrow> nat \<Rightarrow> u32" where
  "fips_W m t =
     (if t < 16 then be32 m (4 * t)
      else rol (fips_W m (t - 3) XOR fips_W m (t - 8) XOR fips_W m (t - 14) XOR fips_W m (t - 16)) 1)"

declare fips_W.simps [simp del]

definition fips_f :: "nat \<Rightarrow> u32 \<Rightarrow> u32 \<Rightarrow> u32 \<Rightarrow> u32" where
  "fips_f t x y z =
     (if t < 20 then (x AND y) XOR (NOT x AND z)
      else if 40 \<le> t \<and> t < 60 then (x AND y) XOR (x AND z) XOR (y AND z)
      else x XOR y XOR z)"

definition fips_K :: "nat \<Rightarrow> u32" where
  "fips_K t = (if t < 20 then 0x5A827999 else if t < 40 then 0x6ED9EBA1 else if t < 60 then 0x8F1BBCDC
     else 0xCA62C1D6)"

definition fips_round :: "bytes \<Rightarrow> nat \<Rightarrow> u32 list \<Rightarrow> u32 list" where
  "fips_round m t s =
     (case s of [a, b, c, d, e] \<Rightarrow> [rol a 5 + fips_f t b c d + e + fips_K t + fips_W m t, a, rol b 30, c, d])"

definition fips_compress :: "u32 list \<Rightarrow> bytes \<Rightarrow> u32 list" where
  "fips_compress H m = map2 (+) H (fold (fips_round m) [0..<80] H)"

function fips_blocks :: "bytes \<Rightarrow> u32 list \<Rightarrow> u32 list" where
  "fips_blocks m H = (if length m < 64 then H else fips_blocks (drop 64 m) (fips_compress H (take 64 m)))"
  by pat_completeness auto
termination by (relation "measure (\<lambda>(m, H). length m)") auto

declare fips_blocks.simps [simp del]

definition fips_pad :: "bytes \<Rightarrow> bytes" where
  "fips_pad m = m @ [0x80] @ replicate ((119 - length m mod 64) mod 64) 0 @
     (let n = (of_nat (8 * length m) :: u64) in be32_bytes (ucast (drop_bit 32 n)) @ be32_bytes (ucast n))"

definition fips_sha1 :: "bytes \<Rightarrow> bytes" where
  "fips_sha1 m = concat (map be32_bytes
     (fips_blocks (fips_pad m) [0x67452301, 0xEFCDAB89, 0x98BADCFE, 0x10325476, 0xC3D2E1F0]))"

definition fips_hmac :: "bytes \<Rightarrow> bytes \<Rightarrow> bytes" where
  "fips_hmac key txt =
     (let k = (if length key > 64 then fips_sha1 key else key);
          k = k @ replicate (64 - length k) 0
      in fips_sha1 (map ((XOR) 0x5c) k @ fips_sha1 (map ((XOR) 0x36) k @ txt)))"

section \<open>A block of the code is a block of the standard\<close>


lemma swap_masks: "(0xFF00FF00 :: u32) = push_bit 24 (mask 8) OR push_bit 8 (mask 8)"
  "(0x00FF00FF :: u32) = push_bit 16 (mask 8) OR mask 8"
  by (simp_all add: mask_eq_exp_minus_1 push_bit_eq_mult)

lemma be32_eq_swap: "(rol (host32 m i) 24 AND 0xFF00FF00) OR (rol (host32 m i) 8 AND 0x00FF00FF) = be32 m i"
proof (rule bit_word_eqI)
  fix n
  assume "n < LENGTH(32)"
  then consider "n < 8" | "8 \<le> n" "n < 16" | "16 \<le> n" "n < 24" | "24 \<le> n" "n < 32" by fastforce
  then show "bit ((rol (host32 m i) 24 AND 0xFF00FF00) OR (rol (host32 m i) 8 AND 0x00FF00FF)) n = bit (be32 m i) n"
    unfolding rol_def host32_def be32_def swap_masks
    by cases (auto simp: bit_simps dest: bit_imp_le_length)
qed

definition turn :: "nat \<Rightarrow> u32 list \<Rightarrow> u32 list" where
  "turn i s = (let r = 5 - i mod 5 in [s ! (r mod 5), s ! ((r + 1) mod 5), s ! ((r + 2) mod 5), s ! ((r + 3) mod 5),
     s ! ((r + 4) mod 5)])"

lemma len5: "length s = 5 \<longleftrightarrow> (\<exists>a b c d e. s = [a, b, c, d, e])"
  by (auto simp: length_Suc_conv numeral_eq_Suc)

lemma turn_0: "length s = 5 \<Longrightarrow> turn 0 s = s" "length s = 5 \<Longrightarrow> turn 80 s = s"
  by (auto simp: len5 turn_def)

text \<open>One round in the code's variables is one round of the standard, seen through the turn.\<close>

lemma round_turn:
  assumes "length s = 5" "(v, w, x, y, z) = sha1_args i"
    "s' = s[z := s ! z + ((f (s ! w) (s ! x) (s ! y) + q + k) + rol (s ! v) 5)]"
  shows "turn (Suc i) (s'[w := rol (s' ! w) 30]) =
     (case turn i s of [a, b, c, d, e] \<Rightarrow> [rol a 5 + f b c d + e + k + q, a, rol b 30, c, d])"
proof -
  obtain a b c d e where s: "s = [a, b, c, d, e]" using assms(1) by (auto simp: len5)
  have "i mod 5 = 0 \<and> Suc i mod 5 = 1 \<or> i mod 5 = 1 \<and> Suc i mod 5 = 2 \<or> i mod 5 = 2 \<and> Suc i mod 5 = 3 \<or>
    i mod 5 = 3 \<and> Suc i mod 5 = 4 \<or> i mod 5 = 4 \<and> Suc i mod 5 = 0" by presburger
  then show ?thesis
    using assms(2) unfolding turn_def assms(3) s sha1_args_def 
    by (elim disjE conjE) (simp_all add: ac_simps)
qed

lemma fips_f_code:
  "t < 20 \<Longrightarrow> ((x AND (y XOR z)) XOR z) = fips_f t x y z"
  "40 \<le> t \<Longrightarrow> t < 60 \<Longrightarrow> (((x OR y) AND z) OR (x AND y)) = fips_f t x y z"
  by (rule bit_word_eqI; auto simp: fips_f_def bit_simps)+

lemma and_15: "(i :: nat) AND 15 = i mod 16"
  using take_bit_eq_mask [of 4 i] by (simp add: take_bit_eq_mod mask_eq_exp_minus_1)

text \<open>
  The sixteen words of the block are a window of the message schedule: the words already
  consumed are the last sixteen of the schedule, the others are still those of the message.
\<close>

definition sched :: "bytes \<Rightarrow> nat \<Rightarrow> u32 list \<Rightarrow> bool" where
  "sched m i l \<longleftrightarrow> length l = 16 \<and> (\<forall>t<i. i \<le> t + 16 \<longrightarrow> l ! (t mod 16) = fips_W m t) \<and>
     (\<forall>t<16. i \<le> t \<longrightarrow> l ! t = host32 m (4 * t))"

lemma blk0_sched:
  assumes "sched m i l" "i < 16"
  shows "sched m (Suc i) (blk0 i l)" "blk0 i l ! i = fips_W m i"
proof -
  have l: "length l = 16" "l ! i = host32 m (4 * i)" using assms by (auto simp: sched_def)
  have w: "blk0 i l = l[i := fips_W m i]"
    unfolding blk0_def l(2) be32_eq_swap using assms(2) by (simp add: fips_W.simps)
  then show "blk0 i l ! i = fips_W m i" using l assms(2) by simp
  show "sched m (Suc i) (blk0 i l)"
    using assms unfolding w sched_def by (auto simp: less_Suc_eq)
qed

lemma blk_sched:
  assumes "sched m i l" "16 \<le> i"
  shows "sched m (Suc i) (blk i l)" "blk i l ! (i AND 15) = fips_W m i"
proof -
  have l: "length l = 16" "\<And>t. t < i \<Longrightarrow> i \<le> t + 16 \<Longrightarrow> l ! (t mod 16) = fips_W m t"
    using assms by (auto simp: sched_def)
  have at: "l ! ((i + (16 - k)) AND 15) = fips_W m (i - k)" if "0 < k" "k \<le> 16" for k
  proof -
    have "i + (16 - k) = (i - k) + 16" using that assms(2) by simp
    then have "(i + (16 - k)) AND 15 = (i - k) mod 16" by (simp add: and_15)
    with l(2) [of "i - k"] that assms(2) show ?thesis by simp
  qed
  have w: "blk i l = l[i mod 16 := fips_W m i]"
    unfolding blk_def using at [of 3] at [of 8] at [of 14] at [of 16] assms(2)
    by (subst (1) fips_W.simps) (simp add: and_15)
  then show "blk i l ! (i AND 15) = fips_W m i" using l by (simp add: and_15)
  have "i mod 16 \<noteq> t mod 16" if "t < i" "Suc i \<le> t + 16" for t
    using that by (metis add_diff_inverse_nat less_imp_add_positive less_diff_conv mod_less_divisor
      add_less_cancel_left le_add_diff_inverse mod_eq_dvd_iff_nat nat_dvd_not_less less_imp_le_nat zero_less_diff Suc_le_eq)
  with l assms(2) show "sched m (Suc i) (blk i l)"
    unfolding w sched_def by (auto simp: less_Suc_eq)
qed

lemma sha1_op_step:
  assumes "length s = 5" "sched m i l"
  shows "\<exists>s' l'. sha1_op i (s, l) = (s', l') \<and> length s' = 5 \<and> sched m (Suc i) l' \<and>
     turn (Suc i) s' = fips_round m i (turn i s)"
proof -
  obtain v w x y z where a: "sha1_args i = (v, w, x, y, z)" by (cases "sha1_args i")
  define t where "t = (\<lambda>f k q. s[z := s ! z + ((f (s ! w) (s ! x) (s ! y) + q + k) + rol (s ! v) 5)])"
  have turned: "turn (Suc i) ((t f k q)[w := rol (t f k q ! w) 30]) =
     (case turn i s of [a, b, c, d, e] \<Rightarrow> [rol a 5 + f b c d + e + k + q, a, rol b 30, c, d])" for f k q
    by (rule round_turn [OF assms(1) a [symmetric]]) (simp add: t_def)
  have len: "length (t f k q) = 5" for f k q using assms(1) by (simp add: t_def)
  have res: ?thesis if "sha1_op i (s, l) = ((t f k q)[w := rol (t f k q ! w) 30], l')" "sched m (Suc i) l'"
    "q = fips_W m i" "k = fips_K i" "f = fips_f i" for f k q l'
    using that turned [of "fips_f i" "fips_K i" "fips_W m i"] len [of f k q] by (simp add: fips_round_def)
  consider "i < 16" | "16 \<le> i" "i < 20" | "20 \<le> i" "i < 40" | "40 \<le> i" "i < 60" | "60 \<le> i" by linarith
  then show ?thesis
  proof cases
    case 1
    with blk0_sched [OF assms(2)] show ?thesis
      by (intro res [of "\<lambda>b c d. (b AND (c XOR d)) XOR d" "0x5A827999" "fips_W m i" "blk0 i l"])
        (simp_all add: sha1_op_def a R0_def t_def Let_def fips_K_def fips_f_code [of i] fun_eq_iff)
  next
    case 2
    with blk_sched [OF assms(2)] show ?thesis
      by (intro res [of "\<lambda>b c d. (b AND (c XOR d)) XOR d" "0x5A827999" "fips_W m i" "blk i l"])
        (simp_all add: sha1_op_def a R1_def t_def Let_def fips_K_def fips_f_code [of i] fun_eq_iff)
  next
    case 3
    with blk_sched [OF assms(2)] show ?thesis
      by (intro res [of "\<lambda>b c d. b XOR c XOR d" "0x6ED9EBA1" "fips_W m i" "blk i l"])
        (simp_all add: sha1_op_def a R2_def t_def Let_def fips_K_def fips_f_def fun_eq_iff)
  next
    case 4
    with blk_sched [OF assms(2)] show ?thesis
      by (intro res [of "\<lambda>b c d. ((b OR c) AND d) OR (b AND c)" "0x8F1BBCDC" "fips_W m i" "blk i l"])
        (simp_all add: sha1_op_def a R3_def t_def Let_def fips_K_def fips_f_code [of i] fun_eq_iff)
  next
    case 5
    with blk_sched [OF assms(2)] show ?thesis
      by (intro res [of "\<lambda>b c d. b XOR c XOR d" "0xCA62C1D6" "fips_W m i" "blk i l"])
        (simp_all add: sha1_op_def a R4_def t_def Let_def fips_K_def fips_f_def fun_eq_iff)
  qed
qed

lemma sha1_ops:
  assumes "length s = 5" "sched m 0 l"
  shows "\<exists>s' l'. fold sha1_op [0..<n] (s, l) = (s', l') \<and> length s' = 5 \<and> sched m n l' \<and>
     turn n s' = fold (fips_round m) [0..<n] s"
proof (induction n)
  case 0
  then show ?case using assms by (simp add: turn_0)
next
  case (Suc n)
  then obtain s' l' where "fold sha1_op [0..<n] (s, l) = (s', l')" "length s' = 5" "sched m n l'"
    "turn n s' = fold (fips_round m) [0..<n] s" by blast
  with sha1_op_step [of s' m n l'] show ?case by simp
qed

lemma Transform_compress:
  assumes "length s = 5"
  shows "SHA1_Transform s m = fips_compress s m"
proof -
  have "sched m 0 (map (\<lambda>i. host32 m (4 * i)) [0..<16])" by (simp add: sched_def)
  from sha1_ops [OF assms this, of 80] turn_0(2) show ?thesis
    by (auto simp: SHA1_Transform_def fips_compress_def simp del: upt_rec_numeral)
qed

section \<open>Blocks\<close>

lemma length_fips_round: "length s = 5 \<Longrightarrow> length (fips_round m t s) = 5"
  by (auto simp: len5 fips_round_def)

lemma length_fips_compress [simp]: "length s = 5 \<Longrightarrow> length (fips_compress s m) = 5"
proof -
  assume s: "length s = 5"
  then have "length (fold (fips_round m) ts s) = 5" for ts
    by (induction ts arbitrary: s) (simp_all add: length_fips_round)
  with s show ?thesis by (simp add: fips_compress_def)
qed

lemma length_fips_blocks [simp]: "length s = 5 \<Longrightarrow> length (fips_blocks m s) = 5"
  by (induction m s rule: fips_blocks.induct) (simp add: fips_blocks.simps)

lemma fips_blocks_short [simp]: "length m < 64 \<Longrightarrow> fips_blocks m s = s"
  by (simp add: fips_blocks.simps)

lemma fips_blocks_append: "64 dvd length a \<Longrightarrow> fips_blocks (a @ b) s = fips_blocks b (fips_blocks a s)"
proof (induction a s rule: fips_blocks.induct)
  case (1 a s)
  show ?case
  proof (cases "length a < 64")
    case True
    with "1.prems" have "a = []" by (auto dest: dvd_imp_le)
    then show ?thesis by simp
  next
    case False
    then have "64 dvd length (drop 64 a)" using "1.prems" by (simp add: dvd_diff_nat)
    from "1.IH" [OF False this] False show ?thesis
      by (subst (1 3) fips_blocks.simps) simp
  qed
qed

lemma update_loop_blocks:
  "length s = 5 \<Longrightarrow> i \<le> length data \<Longrightarrow>
     update_loop data i s = (fips_blocks (drop i data) s, length data - (length data - i) mod 64)"
proof (induction data i s rule: update_loop.induct)
  case (1 data i s)
  show ?case
  proof (cases "i + 63 < length data")
    case True
    have "length data - i = 64 + (length data - (i + 64))" using True by simp
    then have "(length data - i) mod 64 = (length data - (i + 64)) mod 64" by (metis mod_add_self1)
    moreover have "fips_blocks (drop i data) s = fips_blocks (drop (i + 64) data) (SHA1_Transform s (take 64 (drop i data)))"
    proof -
      have "\<not> length (drop i data) < 64" using True by simp
      then show ?thesis
        using Transform_compress [OF "1.prems"(1)] fips_blocks.simps [of "drop i data" s] by (simp add: add.commute)
    qed
    moreover have "update_loop data i s = update_loop data (i + 64) (SHA1_Transform s (take 64 (drop i data)))"
      using True by (subst update_loop.simps) simp
    ultimately show ?thesis
      using True "1.IH" [OF True] "1.prems" Transform_compress [OF "1.prems"(1)] by simp
  next
    case False
    with "1.prems" show ?thesis by (simp add: update_loop.simps)
  qed
qed

section \<open>Contexts absorb their input\<close>

abbreviation fips_iv :: "u32 list" where
  "fips_iv \<equiv> [0x67452301, 0xEFCDAB89, 0x98BADCFE, 0x10325476, 0xC3D2E1F0]"

definition absorbed :: "SHA1_CTX \<Rightarrow> bytes \<Rightarrow> bool" where
  "absorbed ctx m \<longleftrightarrow> length (sha_buffer ctx) = 64 \<and> count0 ctx = of_nat (8 * length m) \<and>
     count1 ctx = of_nat (8 * length m div 2 ^ 32) \<and>
     (\<exists>a t. m = a @ t \<and> 64 dvd length a \<and> length t < 64 \<and> sha_state ctx = fips_blocks a fips_iv \<and>
        take (length t) (sha_buffer ctx) = t)"

lemma count_index: "unat (drop_bit 3 (of_nat (8 * n) :: u32) AND 63) = n mod 64"
proof -
  have "unat (drop_bit 3 (of_nat (8 * n) :: u32) AND mask 6) = (8 * n) mod (8 * 2 ^ 29) div 8 mod 64"
    by (simp only: unat_and_mask unat_drop_bit unat_of_nat) simp
  also have "\<dots> = n mod 2 ^ 29 mod 64" by (simp only: mult_mod_right [symmetric]) simp
  also have "\<dots> = n mod 64" by (rule mod_mod_cancel) simp
  finally show ?thesis by (simp add: mask_eq_exp_minus_1)
qed

lemma carry_div:
  assumes "b < (q :: nat)"
  shows "(a + b) mod q < b \<longleftrightarrow> q \<le> a mod q + b" "(a + b) div q = a div q + (if q \<le> a mod q + b then 1 else 0)"
proof -
  have a: "a mod q < q" using assms by simp
  have "(a + b) mod q = (a mod q + b) mod q" "(a + b) div q = a div q + (a mod q + b) div q"
    by (simp_all add: mod_add_left_eq div_add1_eq [of a b] assms)
  moreover have "(a mod q + b) mod q = a mod q + b - q \<and> (a mod q + b) div q = 1" if "q \<le> a mod q + b"
  proof -
    have "a mod q + b - q < q" using that a assms by linarith
    with that a assms show ?thesis by (simp add: le_mod_geq le_div_geq)
  qed
  moreover have "(a mod q + b) mod q = a mod q + b \<and> (a mod q + b) div q = 0" if "\<not> q \<le> a mod q + b"
    using that by simp
  ultimately have "(a + b) mod q < b \<and> (a + b) div q = a div q + 1 \<or> \<not> q \<le> a mod q + b"
    "b \<le> (a + b) mod q \<and> (a + b) div q = a div q \<or> q \<le> a mod q + b" using a assms by linarith+
  then show "(a + b) mod q < b \<longleftrightarrow> q \<le> a mod q + b"
    "(a + b) div q = a div q + (if q \<le> a mod q + b then 1 else 0)" by auto
qed

lemma add_count_small:
  assumes "len < 2 ^ 29"
  shows "add_count len (of_nat (8 * n), of_nat (8 * n div 2 ^ 32)) =
     (of_nat (8 * (n + len)), of_nat (8 * (n + len) div 2 ^ 32))"
proof -
  define l where "l = push_bit 3 (of_nat len :: u64)"
  define c where "c = (of_nat (8 * n) :: u32)"
  have "l = of_nat (8 * len)" by (simp add: l_def push_bit_of_nat push_bit_eq_mult mult.commute)
  then have l: "unat l = 8 * len" "drop_bit 29 (of_nat len :: u64) = 0"
    using assms by (simp_all add: unat_of_nat word_unat_eq_iff unat_drop_bit del: of_nat_mult)
  have c: "unat c = 8 * n mod 2 ^ 32" by (simp add: c_def unat_of_nat del: of_nat_mult)
  have cl: "ucast ((ucast c :: u64) + l) = (of_nat (8 * (n + len)) :: u32)"
  proof -
    have "unat (ucast c :: u64) + unat l < 2 ^ LENGTH(64)"
      using c l(1) assms unat_less_exp [of c] by (simp add: unat_ucast)
    then have "unat ((ucast c :: u64) + l) = unat (ucast c :: u64) + unat l" by (rule unat_add_lem [THEN iffD1])
    then have "unat (ucast ((ucast c :: u64) + l) :: u32) = (8 * n mod 2 ^ 32 + 8 * len) mod 2 ^ 32"
      using c l(1) by (simp only: unat_ucast) simp
    also have "\<dots> = 8 * (n + len) mod 2 ^ 32" by (simp only: mod_add_left_eq distrib_left)
    finally show ?thesis by (simp only: word_unat_eq_iff unat_of_nat) simp
  qed
  then have s: "unat (ucast (ucast ((ucast c :: u64) + l) :: u32) :: u64) = (8 * n + 8 * len) mod 2 ^ 32"
    by (simp add: unat_of_nat unat_ucast del: of_nat_mult of_nat_add)
  have "ucast (ucast d + 0 :: u64) = d" for d :: u32
    using unat_less_exp [of d] by (simp add: word_unat_eq_iff unat_ucast)
  then have "add_count len (c, d) =
      (of_nat (8 * (n + len)), if (8 * n + 8 * len) mod 2 ^ 32 < 8 * len then d + 1 else d)" for d
    unfolding add_count_def Let_def l_def [symmetric] l(2) by (simp only: prod.case word_less_nat_alt s l(1)) (simp only: cl)
  then show ?thesis
    using carry_div [of "8 * len" "2 ^ 32" "8 * n"] assms unfolding c_def by (simp only: distrib_left) simp
qed

lemma length_memcpy_at: "j + length src \<le> length dst \<Longrightarrow> length (memcpy_at dst j src) = length dst"
  by (simp add: memcpy_at_def)

lemma take_memcpy_at: "take (length src) (memcpy_at dst 0 src) = src"
  by (simp add: memcpy_at_def)

lemma absorbedI:
  assumes "length (sha_buffer ctx) = 64" "count0 ctx = of_nat (8 * length m)"
    "count1 ctx = of_nat (8 * length m div 2 ^ 32)" "m = a @ t" "64 dvd length a" "length t < 64"
    "sha_state ctx = fips_blocks a fips_iv" "take (length t) (sha_buffer ctx) = t"
  shows "absorbed ctx m"
  using assms unfolding absorbed_def by blast

lemma absorbed_Init: "length (sha_buffer ctx) = 64 \<Longrightarrow> absorbed (sat_SHA1_Init ctx) []"
  by (auto simp: absorbed_def sat_SHA1_Init_def)

lemma absorbed_Update:
  assumes "absorbed ctx m" "length data < 2 ^ 29"
  shows "absorbed (sat_SHA1_Update ctx data) (m @ data)"
proof -
  from assms(1) obtain a t where m: "m = a @ t" "64 dvd length a" "length t < 64"
    and st: "sha_state ctx = fips_blocks a fips_iv" "take (length t) (sha_buffer ctx) = t"
    and b: "length (sha_buffer ctx) = 64"
    and c: "count0 ctx = of_nat (8 * length m)" "count1 ctx = of_nat (8 * length m div 2 ^ 32)"
    unfolding absorbed_def by blast
  have j: "unat (drop_bit 3 (count0 ctx) AND 63) = length t"
    unfolding c(1) count_index using m by (auto simp: mod_add_left_eq [symmetric])
  have cnt: "add_count (length data) (count0 ctx, count1 ctx) =
      (of_nat (8 * length (m @ data)), of_nat (8 * length (m @ data) div 2 ^ 32))"
    unfolding c using add_count_small [OF assms(2), of "length m"] by simp
  show ?thesis
  proof (cases "length t + length data > 63")
    case False
    let ?b = "memcpy_at (sha_buffer ctx) (length t) data"
    have "length ?b = 64" "take (length (t @ data)) ?b = t @ data"
      using False b st(2) m(3) by (auto simp: memcpy_at_def)
    with False m st cnt show ?thesis
      unfolding absorbed_def sat_SHA1_Update_def j
      by (simp add: Let_def) (intro exI [of _ a] exI [of _ "t @ data"], simp)
  next
    case True
    let ?i = "64 - length t"
    let ?b = "memcpy_at (sha_buffer ctx) (length t) (take ?i data)"
    have b': "?b = t @ take ?i data" using True b st(2) m(3) by (auto simp: memcpy_at_def)
    let ?r = "(length data - ?i) mod 64"
    let ?e = "length data - ?r"
    have i: "?i \<le> length data" using True by simp
    have r: "?r < 64" "?i \<le> ?e" "?r \<le> length data - ?i"
      using i mod_less_eq_dividend [of "length data - ?i" 64] by auto
    have d: "64 dvd length data - ?i - ?r" by (rule dvd_minus_mod)
    define rest where "rest = take (?e - ?i) (drop ?i data)"
    have split: "data = take ?i data @ rest @ drop ?e data"
      using r(2) by (simp add: rest_def append_take_drop_id flip: append_assoc take_add)
    have "length rest = ?e - ?i" unfolding rest_def length_take length_drop by (rule min.absorb2) simp
    also have "\<dots> = length data - ?i - ?r" by (rule diff_commute)
    finally have "length rest = length data - ?i - ?r" .
    with d have rl: "64 dvd length rest" by metis
    have "?r \<le> length data" using r(3) diff_le_self le_trans by blast
    then have rd: "length (drop ?e data) = ?r" by (simp only: length_drop diff_diff_cancel)
    let ?a = "a @ t @ take ?i data" and ?s = "SHA1_Transform (sha_state ctx) ?b"
    have la: "64 dvd length ?a" using m i by simp
    have first: "fips_blocks ?a fips_iv = ?s"
    proof -
      have "length (t @ take ?i data) = 64" using m(3) i by simp
      then have "fips_blocks (t @ take ?i data) s = fips_compress s (t @ take ?i data)" for s
        by (subst fips_blocks.simps) simp
      then show ?thesis using fips_blocks_append [OF m(2), of "t @ take ?i data" fips_iv]
        by (simp add: st(1) b' Transform_compress)
    qed
    have ls: "length ?s = 5" by (simp add: first [symmetric])
    have "fips_blocks (?a @ rest) fips_iv = fips_blocks (drop ?i data) ?s"
    proof -
      have "drop ?i data = rest @ drop ?e data" using split i by (metis append_eq_conv_conj length_take min.absorb2)
      with fips_blocks_append [OF la, of rest fips_iv] fips_blocks_append [OF rl, of "drop ?e data" ?s] rd r(1)
      show ?thesis by (simp add: first)
    qed
    with update_loop_blocks [OF ls i]
    have loop: "update_loop data ?i ?s = (fips_blocks (?a @ rest) fips_iv, ?e)" by simp
    define A where "A = ?a @ rest"
    define T where "T = drop ?e data"
    define B where "B = memcpy_at ?b 0 T"
    have A: "64 dvd length A" unfolding A_def length_append [of ?a] by (rule dvd_add [OF la rl])
    have md: "m @ data = A @ T" unfolding A_def T_def using split m(1) by (metis append.assoc)
    have T: "length T < 64" unfolding T_def rd by (rule r(1))
    have "length ?b = 64" unfolding b' using m(3) i by simp
    then have B: "length B = 64" "take (length T) B = T"
      unfolding B_def using length_memcpy_at [of 0 T ?b] T by (simp_all add: take_memcpy_at)
    have "sat_SHA1_Update ctx data = ctx\<lparr>count0 := of_nat (8 * length (m @ data)),
        count1 := of_nat (8 * length (m @ data) div 2 ^ 32), sha_state := fips_blocks A fips_iv, sha_buffer := B\<rparr>"
      using True unfolding sat_SHA1_Update_def j Let_def cnt A_def B_def T_def by (simp add: loop)
    with A md T B show ?thesis by (intro absorbedI [of _ _ A T]) simp_all
  qed
qed

section \<open>The digest\<close>

lemma count_504: "count0 ctx = of_nat (8 * n) \<Longrightarrow> count0 ctx AND 504 = 448 \<longleftrightarrow> n mod 64 = 56"
proof -
  assume c: "count0 ctx = of_nat (8 * n)"
  have e: "w AND 504 = push_bit 3 (drop_bit 3 w AND 63)" for w :: u32
  proof (rule bit_word_eqI)
    fix k
    have m: "(504 :: u32) = push_bit 3 (mask 6)" "(63 :: u32) = mask 6"
      by (simp_all add: mask_eq_exp_minus_1 push_bit_eq_mult)
    show "bit (w AND 504) k = bit (push_bit 3 (drop_bit 3 w AND 63)) k"
      unfolding m by (auto simp: bit_simps dest: bit_imp_le_length)
  qed
  have "unat (count0 ctx AND 504) = 8 * (n mod 64)"
    unfolding e push_bit_eq_mult unat_word_ariths using count_index [of n] by (simp add: c)
  then show ?thesis by (auto simp: word_unat_eq_iff)
qed

lemma pad_mod:
  assumes "x < 64"
  shows "(120 - x) mod 64 = (if x \<le> 56 then 56 - x else 120 - (x :: nat))"
    "(119 - x) mod 64 = (if x \<le> 55 then 55 - x else 119 - x)"
proof -
  show "(120 - x) mod 64 = (if x \<le> 56 then 56 - x else 120 - x)"
    using assms le_mod_geq [of 64 "120 - x"] by auto
  show "(119 - x) mod 64 = (if x \<le> 55 then 55 - x else 119 - x)"
    using assms le_mod_geq [of 64 "119 - x"] by auto
qed

lemma pad_mod_Suc: "(120 - Suc n mod 64) mod 64 = (119 - n mod 64) mod (64 :: nat)"
proof -
  have n: "n mod 64 < 64" "Suc n mod 64 < 64" by simp_all
  have "Suc n mod 64 = (if n mod 64 = 63 then 0 else Suc (n mod 64))" by (simp add: mod_Suc)
  with n show ?thesis unfolding pad_mod [OF n(1)] pad_mod [OF n(2)] by (auto split: if_splits)
qed

lemma pad_loop_absorbs:
  "absorbed ctx m \<Longrightarrow>
     \<exists>ctx'. pad_loop ctx = Some ctx' \<and> absorbed ctx' (m @ replicate ((120 - length m mod 64) mod 64) 0)"
proof (induction "(120 - length m mod 64) mod 64" arbitrary: ctx m)
  case 0
  have "length m mod 64 < 64" by simp
  from 0(1) pad_mod(1) [OF this] have "length m mod 64 = 56" by (auto split: if_splits)
  with 0 count_504 [of ctx "length m"] show ?case by (subst pad_loop.simps) (simp add: absorbed_def)
next
  case (Suc k)
  have x: "length m mod 64 < 64" by simp
  with Suc.hyps(2) have n: "length m mod 64 \<noteq> 56" by auto
  moreover have "k = (119 - length m mod 64) mod 64"
    using Suc.hyps(2) n x unfolding pad_mod [OF x] by (auto split: if_splits)
  then have n2: "k = (120 - length (m @ [0 :: u8]) mod 64) mod 64" by (simp only: length_append_singleton pad_mod_Suc)
  have "absorbed (sat_SHA1_Update ctx [0]) (m @ [0])" by (rule absorbed_Update [OF Suc.prems]) simp
  from Suc.hyps(1) [OF n2 this] obtain ctx' where
    "pad_loop (sat_SHA1_Update ctx [0]) = Some ctx'" "absorbed ctx' ((m @ [0]) @ replicate k 0)"
    using n2 by auto
  moreover have "pad_loop ctx = pad_loop (sat_SHA1_Update ctx [0])"
    using n count_504 [of ctx "length m"] Suc.prems by (subst pad_loop.simps) (simp add: absorbed_def)
  ultimately show ?case unfolding Suc.hyps(2) [symmetric] by simp
qed

lemma Final_digest:
  assumes "absorbed ctx m"
  shows "\<exists>ctx'. sat_SHA1_Final ctx = Some (fips_sha1 m, ctx') \<and> length (sha_buffer ctx') = 64"
proof -
  let ?z = "(119 - length m mod 64) mod 64"
  let ?n = "of_nat (8 * length m) :: u64"
  have "absorbed (sat_SHA1_Update ctx [0x80]) (m @ [0x80])" by (rule absorbed_Update [OF assms]) simp
  moreover have "(120 - length (m @ [0x80 :: u8]) mod 64) mod 64 = ?z" 
    by (simp only: length_append_singleton pad_mod_Suc)
  ultimately obtain ctx1 where ctx1: "pad_loop (sat_SHA1_Update ctx [0x80]) = Some ctx1"
    "absorbed ctx1 ((m @ [0x80]) @ replicate ?z 0)" using pad_loop_absorbs [of "sat_SHA1_Update ctx [0x80]" "m @ [0x80]"] by auto
  let ?f = "be32_bytes (count1 ctx) @ be32_bytes (count0 ctx)"
  have "count0 ctx = ucast ?n"
    using assms by (simp add: absorbed_def word_unat_eq_iff unat_ucast unat_of_nat mod_mod_cancel del: of_nat_mult)
  moreover have "count1 ctx = ucast (drop_bit 32 ?n)"
  proof -
    have "(8 * length m) mod 2 ^ 64 div 2 ^ 32 = (8 * length m) div 2 ^ 32 mod 2 ^ 32"
      using mod_mult2_eq [of "8 * length m" "2 ^ 32" "2 ^ 32"] by simp
    then show ?thesis
      using assms by (simp add: absorbed_def word_unat_eq_iff unat_ucast unat_of_nat unat_drop_bit del: of_nat_mult)
  qed
  ultimately have "fips_pad m = ((m @ [0x80]) @ replicate ?z 0) @ ?f" by (simp add: fips_pad_def Let_def)
  moreover have "absorbed (sat_SHA1_Update ctx1 ?f) (((m @ [0x80]) @ replicate ?z 0) @ ?f)"
    by (rule absorbed_Update [OF ctx1(2)]) (simp add: be32_bytes_def)
  ultimately have fin: "absorbed (sat_SHA1_Update ctx1 ?f) (fips_pad m)" by simp
  have "64 dvd length (fips_pad m)" 
  proof -
    have x: "length m mod 64 < 64" by simp
    have "length (fips_pad m) = length m + 9 + (119 - length m mod 64) mod 64"
      by (simp add: fips_pad_def Let_def be32_bytes_def)
    also have "\<dots> = 64 * (length m div 64) + (length m mod 64 + 9 + (119 - length m mod 64) mod 64)" by simp
    also have "\<dots> = 64 * (length m div 64) + (if length m mod 64 \<le> 55 then 64 else 128)"
      using x unfolding pad_mod [OF x] by (intro arg_cong2 [of _ _ _ _ "(+)"] refl) simp
    finally show ?thesis by simp
  qed
  with fin have "sha_state (sat_SHA1_Update ctx1 ?f) = fips_blocks (fips_pad m) fips_iv"
    unfolding absorbed_def by (auto simp: fips_blocks_append dvd_add_right_iff dest: dvd_imp_le)
  then show ?thesis by (simp add: sat_SHA1_Final_def Let_def ctx1(1) fips_sha1_def)
qed

lemma sha1_after_updates:
  assumes "length (sha_buffer ctx) = 64" "length a < 2 ^ 29" "length b < 2 ^ 29"
  shows "\<exists>ctx'. sat_SHA1_Final (sat_SHA1_Update (sat_SHA1_Update (sat_SHA1_Init ctx) a) b) =
     Some (fips_sha1 (a @ b), ctx')"
proof -
  have "absorbed (sat_SHA1_Update (sat_SHA1_Init ctx) a) ([] @ a)"
    by (rule absorbed_Update [OF absorbed_Init [OF assms(1)] assms(2)])
  from absorbed_Update [OF this assms(3)] have "absorbed (sat_SHA1_Update (sat_SHA1_Update (sat_SHA1_Init ctx) a) b) (a @ b)"
    by simp
  from Final_digest [OF this] show ?thesis by blast
qed

lemma sha1_after_update:
  assumes "length (sha_buffer ctx) = 64" "length a < 2 ^ 29"
  shows "\<exists>ctx'. sat_SHA1_Final (sat_SHA1_Update (sat_SHA1_Init ctx) a) = Some (fips_sha1 a, ctx')"
proof -
  have "absorbed (sat_SHA1_Update (sat_SHA1_Init ctx) a) ([] @ a)"
    by (rule absorbed_Update [OF absorbed_Init [OF assms(1)] assms(2)])
  from Final_digest [OF this] show ?thesis by auto
qed

text \<open>
  C35: \<open>lsha1\<close> computes SHA-1 as the standard defines it: for every text below 512 MiB it returns, and
  the digest is that of the padded text, whatever the uninitialised context held.
\<close>

theorem lsha1_is_sha1:
  assumes "length (sha_buffer ctx) = 64" "length m < 2 ^ 29"
  shows "lsha1 ctx m = Some (fips_sha1 m)"
  using sha1_after_update [OF assms] by (auto simp: lsha1_def)

theorem lsha1_is_sha1_witness:
  "lsha1 \<lparr>sha_state = [], count0 = 7, count1 = 9, sha_buffer = replicate 64 3\<rparr> [97, 98, 99] =
     Some (fips_sha1 [97, 98, 99])"
  by (rule lsha1_is_sha1) simp_all

text \<open>
  The hash of a text does not depend on how the text is cut into updates: feeding it in any number of
  pieces gives the digest of their concatenation.
\<close>

theorem sha1_incremental:
  assumes "length (sha_buffer ctx) = 64" "list_all (\<lambda>p. length p < 2 ^ 29) parts"
  shows "map_option fst (sat_SHA1_Final (fold (\<lambda>p c. sat_SHA1_Update c p) parts (sat_SHA1_Init ctx))) =
     Some (fips_sha1 (concat parts))"
proof -
  have "absorbed c m \<Longrightarrow> absorbed (fold (\<lambda>p c. sat_SHA1_Update c p) parts c) (m @ concat parts)" for c m
    using assms(2)
  proof (induction parts arbitrary: c m)
    case (Cons p parts)
    then show ?case using absorbed_Update [OF Cons.prems(1), of p] by fastforce
  qed simp
  from Final_digest [OF this [OF absorbed_Init [OF assms(1)]]] show ?thesis by auto
qed

theorem sha1_incremental_witness:
  "map_option fst (sat_SHA1_Final (fold (\<lambda>p c. sat_SHA1_Update c p) [[97], [98, 99]]
     (sat_SHA1_Init \<lparr>sha_state = [], count0 = 7, count1 = 9, sha_buffer = replicate 64 3\<rparr>))) =
     Some (fips_sha1 [97, 98, 99])"
  using sha1_incremental [of "\<lparr>sha_state = [], count0 = 7, count1 = 9, sha_buffer = replicate 64 3\<rparr>" "[[97], [98, 99]]"]
  by simp

section \<open>The keyed hash\<close>

lemma word_xor_bytes:
  "host32_bytes (host32 [b0, b1, b2, b3] 0 XOR host32 [c, c, c, c] 0) = map ((XOR) c) [b0, b1, b2, b3]"
  by (auto simp: host32_bytes_def host32_def intro!: bit_word_eqI) (auto simp: bit_simps dest: bit_imp_le_length)

lemma xor_key_bytes: "4 dvd length k \<Longrightarrow> xor_key k (host32 [c, c, c, c] 0) = map ((XOR) c) k"
proof (induction k "host32 [c, c, c, c] 0" rule: xor_key.induct)
  case (1 b0 b1 b2 b3 key)
  have "length (b0 # b1 # b2 # b3 # key) = 4 + length key" by simp
  then have "4 dvd length key" using "1.prems" dvd_add_right_iff [of 4 4 "length key"] by (metis dvd_refl)
  with 1 show ?case by (simp add: word_xor_bytes)
qed (auto dest: dvd_imp_le)

lemma length_fips_sha1 [simp]: "length (fips_sha1 m) = 20"
proof -
  have "length (concat (map be32_bytes s)) = 4 * length s" for s by (induction s) (simp_all add: be32_bytes_def)
  then show ?thesis by (simp add: fips_sha1_def)
qed

text \<open>
  C36: For keys and texts below 512 MiB, where \<open>sat_SHA1_Update\<close> counts the bits right, \<open>lhmac_sha1\<close> is HMAC
  over SHA-1, whatever its three uninitialised contexts held: the hash of the key padded with \<open>0x5c\<close> and the inner hash, a key longer than a
  block being hashed first.
\<close>

theorem lhmac_sha1_is_hmac:
  assumes "length (sha_buffer ctx) = 64" "length (sha_buffer ctx1) = 64" "length (sha_buffer ctx2) = 64"
    "length key < 2 ^ 29" "length txt < 2 ^ 29"
  shows "lhmac_sha1 ctx ctx1 ctx2 key txt = Some (fips_hmac key txt)"
proof -
  let ?k = "if length key > 64 then fips_sha1 key else key"
  define k where "k = ?k @ replicate (64 - length ?k) 0"
  have len: "length k = 64" by (auto simp: k_def)
  obtain ctx' where h: "length key > 64 \<Longrightarrow> sat_SHA1_Final (sat_SHA1_Update (sat_SHA1_Init ctx) key) = Some (fips_sha1 key, ctx')"
    using sha1_after_update [OF assms(1) assms(4)] by blast
  have rkey: "(if length key > 64
       then do { (digest, _) \<leftarrow> sat_SHA1_Final (sat_SHA1_Update (sat_SHA1_Init ctx) key);
                 Some (memcpy_at (replicate 64 0) 0 digest) }
       else Some (memcpy_at (replicate 64 0) 0 key)) = Some k"
    using h by (auto simp: k_def memcpy_at_def)
  have pads: "(0x5c5c5c5c :: u32) = host32 [0x5c, 0x5c, 0x5c, 0x5c] 0"
    "(0x5c5c5c5c XOR 0x36363636 :: u32) = host32 [0x6a, 0x6a, 0x6a, 0x6a] 0" by code_simp+
  have k1: "xor_key k 0x5c5c5c5c = map ((XOR) 0x5c) k" unfolding pads(1) by (rule xor_key_bytes) (simp add: len)
  have "xor_key (map ((XOR) 0x5c) k) (0x5c5c5c5c XOR 0x36363636) = map ((XOR) 0x6a) (map ((XOR) 0x5c) k)"
    unfolding pads(2) by (rule xor_key_bytes) (simp add: len)
  also have "\<dots> = map ((XOR) 0x36) k"
  proof -
    have "(0x6a :: u8) XOR 0x5c XOR x = 0x36 XOR x" for x by (simp flip: xor.assoc)
    then show ?thesis by simp
  qed
  finally have k2: "xor_key (map ((XOR) 0x5c) k) (0x5c5c5c5c XOR 0x36363636) = map ((XOR) 0x36) k" .
  have small: "length (map ((XOR) (c :: u8)) k) < 2 ^ 29" for c by (simp add: len)
  obtain c2 where c2: "sat_SHA1_Final (sat_SHA1_Update (sat_SHA1_Update (sat_SHA1_Init ctx2) (map ((XOR) 0x36) k)) txt) =
      Some (fips_sha1 (map ((XOR) 0x36) k @ txt), c2)"
    using sha1_after_updates [OF assms(3) small assms(5)] by blast
  obtain c1 where c1: "sat_SHA1_Final (sat_SHA1_Update (sat_SHA1_Update (sat_SHA1_Init ctx1) (map ((XOR) 0x5c) k))
        (fips_sha1 (map ((XOR) 0x36) k @ txt))) =
      Some (fips_sha1 (map ((XOR) 0x5c) k @ fips_sha1 (map ((XOR) 0x36) k @ txt)), c1)"
    using sha1_after_updates [OF assms(2) small, of "fips_sha1 (map ((XOR) 0x36) k @ txt)"] by auto
  show ?thesis
    unfolding lhmac_sha1_def rkey fips_hmac_def Let_def k_def [symmetric] Option.bind.bind_lunit k1 k2 c2 by (simp add: c1)
qed

theorem lhmac_sha1_is_hmac_witness:
  "let ctx = \<lparr>sha_state = [], count0 = 0, count1 = 0, sha_buffer = replicate 64 0\<rparr>
   in lhmac_sha1 ctx ctx ctx [1, 2, 3] [4, 5] = Some (fips_hmac [1, 2, 3] [4, 5])"
  unfolding Let_def by (rule lhmac_sha1_is_hmac) simp_all

text \<open>
  For a text of \<open>2\<^sup>2\<^sup>9\<close> bytes or more in one update the 64-bit \<open>len << 3\<close> exceeds the 32-bit counter it is
  compared with, so the carry is counted although \<open>len >> 29\<close> counts it too.
\<close>

lemma add_count_large: "add_count (2 ^ 29) (0, 0) = (0, 2)"
  by (simp add: add_count_def word_less_nat_alt)

end
