(* ===== verification/Sproto_Pack.thy ===== *)
theory Sproto_Pack
  imports Prelude
begin

text \<open>
  The zero-packing of \<open>src/lualib/sproto/sproto.c\<close> (\<open>pack_seg\<close> to \<open>sproto_unpack\<close>) with its Lua
  entry points \<open>lpack\<close> and \<open>lunpack\<close> in \<open>lsproto.c\<close>. The output buffer is a list of bytes of the
  size the caller passes; a read or write outside the source or the buffer is \<open>None\<close>. Sizes are
  integers, so that the code's comparisons with negative remainders are kept.
\<close>

section \<open>Memory\<close>

definition poke :: "bytes \<Rightarrow> nat \<Rightarrow> u8 \<Rightarrow> bytes option" where
  "poke mem i b = (if i < length mem then Some (mem[i := b]) else None)"

fun poke_all :: "bytes \<Rightarrow> nat \<Rightarrow> bytes \<Rightarrow> bytes option" where
  "poke_all mem i [] = Some mem"
| "poke_all mem i (b # bs) = poke mem i b \<bind> (\<lambda>mem. poke_all mem (i + 1) bs)"

definition peek_range :: "bytes \<Rightarrow> nat \<Rightarrow> nat \<Rightarrow> bytes option" where
  "peek_range mem i n = (if i + n \<le> length mem then Some (take n (drop i mem)) else None)"

section \<open>Packing\<close>

record seg_state =
  sg_mem :: bytes
  sg_buffer :: nat
  sg_sz :: int
  sg_notzero :: nat
  sg_header :: u8

fun seg_loop :: "bytes \<Rightarrow> nat \<Rightarrow> seg_state \<Rightarrow> seg_state option" where
  "seg_loop [] i s = Some s"
| "seg_loop (b # src) i s =
     (if b \<noteq> 0 then
        let s = s\<lparr>sg_notzero := sg_notzero s + 1, sg_header := sg_header s OR push_bit i 1\<rparr>
        in if sg_sz s > 0
           then do { mem \<leftarrow> poke (sg_mem s) (sg_buffer s) b;
                     seg_loop src (i + 1) (s\<lparr>sg_mem := mem, sg_buffer := sg_buffer s + 1, sg_sz := sg_sz s - 1\<rparr>) }
           else seg_loop src (i + 1) s
      else seg_loop src (i + 1) s)"

definition pack_seg :: "bytes \<Rightarrow> bytes \<Rightarrow> nat \<Rightarrow> int \<Rightarrow> nat \<Rightarrow> (nat \<times> bytes) option" where
  "pack_seg src mem buffer sz n = do {
     let obuffer = (if sz - 1 < 0 then None else Some buffer);
     s \<leftarrow> seg_loop src 0 \<lparr>sg_mem = mem, sg_buffer = buffer + 1, sg_sz = sz - 1, sg_notzero = 0, sg_header = 0\<rparr>;
     let notzero = (if (sg_notzero s = 7 \<or> sg_notzero s = 6) \<and> n > 0 then 8 else sg_notzero s);
     if notzero = 8 then Some (if n > 0 then 8 else 10, sg_mem s)
     else do {
       mem \<leftarrow> (case obuffer of None \<Rightarrow> Some (sg_mem s) | Some p \<Rightarrow> poke (sg_mem s) p (sg_header s));
       Some (notzero + 1, mem) } }"

definition write_ff :: "bytes \<Rightarrow> nat \<Rightarrow> bytes \<Rightarrow> nat \<Rightarrow> nat \<Rightarrow> bytes option" where
  "write_ff srcv src mem des n = do {
     let align8_n = (n + 7) div 8 * 8;
     data \<leftarrow> peek_range srcv src n;
     poke_all mem des (0xff # of_nat (align8_n div 8 - 1) # data @ replicate (align8_n - n) 0) }"

record pack_state =
  pk_mem :: bytes
  pk_buffer :: nat
  pk_bufsz :: int
  ff_srcstart :: nat
  ff_desstart :: nat
  ff_n :: nat
  pk_size :: nat

definition pack_step :: "bytes \<Rightarrow> nat \<Rightarrow> pack_state \<Rightarrow> pack_state option" where
  "pack_step srcv i s = do {
     let padding = i + 8 - length srcv;
     let src = (if padding > 0 then take (8 - padding) (drop i srcv) @ replicate padding 0 else take 8 (drop i srcv));
     (n, mem) \<leftarrow> pack_seg src (pk_mem s) (pk_buffer s) (pk_bufsz s) (ff_n s);
     let s = s\<lparr>pk_mem := mem, pk_bufsz := pk_bufsz s - int n\<rparr>;
     s \<leftarrow> (if n = 10 then Some (s\<lparr>ff_srcstart := i, ff_desstart := pk_buffer s, ff_n := 1\<rparr>)
       else if n = 8 \<and> ff_n s > 0 then
         if ff_n s + 1 = 256 then do {
           mem \<leftarrow> (if pk_bufsz s \<ge> 0 then write_ff srcv (ff_srcstart s) (pk_mem s) (ff_desstart s) (256 * 8) else Some (pk_mem s));
           Some (s\<lparr>pk_mem := mem, ff_n := 0\<rparr>) }
         else Some (s\<lparr>ff_n := ff_n s + 1\<rparr>)
       else if ff_n s > 0 then do {
         mem \<leftarrow> (if pk_bufsz s \<ge> 0 then write_ff srcv (ff_srcstart s) (pk_mem s) (ff_desstart s) (ff_n s * 8) else Some (pk_mem s));
         Some (s\<lparr>pk_mem := mem, ff_n := 0\<rparr>) }
       else Some s);
     Some (s\<lparr>pk_buffer := pk_buffer s + n, pk_size := pk_size s + n\<rparr>) }"

function pack_loop :: "bytes \<Rightarrow> nat \<Rightarrow> pack_state \<Rightarrow> pack_state option" where
  "pack_loop srcv i s =
     (if i < length srcv then pack_step srcv i s \<bind> (\<lambda>s. pack_loop srcv (i + 8) s) else Some s)"
  by pat_completeness auto
termination by (relation "measure (\<lambda>(srcv, i, s). length srcv - i)") auto

declare pack_loop.simps [simp del]

definition pack_flush :: "bytes \<Rightarrow> pack_state \<Rightarrow> bytes option" where
  "pack_flush srcv s =
     (if pk_bufsz s \<ge> 0 then
        if ff_n s = 1 then write_ff srcv (ff_srcstart s) (pk_mem s) (ff_desstart s) 8
        else if ff_n s > 1 then write_ff srcv (ff_srcstart s) (pk_mem s) (ff_desstart s) (length srcv - ff_srcstart s)
        else Some (pk_mem s)
      else Some (pk_mem s))"

definition sproto_pack :: "bytes \<Rightarrow> bytes \<Rightarrow> (nat \<times> bytes) option" where
  "sproto_pack srcv bufferv = do {
     s \<leftarrow> pack_loop srcv 0 \<lparr>pk_mem = bufferv, pk_buffer = 0, pk_bufsz = int (length bufferv), ff_srcstart = 0,
            ff_desstart = 0, ff_n = 0, pk_size = 0\<rparr>;
     mem \<leftarrow> pack_flush srcv s;
     Some (pk_size s, mem) }"

section \<open>Unpacking\<close>

record unpack_state =
  up_src :: bytes
  up_srcsz :: int
  up_mem :: bytes
  up_buffer :: nat
  up_bufsz :: int
  up_size :: nat

definition unpack_put :: "u8 \<Rightarrow> unpack_state \<Rightarrow> unpack_state option" where
  "unpack_put b s =
     (if up_bufsz s > 0
      then do { mem \<leftarrow> poke (up_mem s) (up_buffer s) b;
                Some (s\<lparr>up_mem := mem, up_bufsz := up_bufsz s - 1, up_buffer := up_buffer s + 1\<rparr>) }
      else Some s)"

text \<open>The result of a run of the inner loop: \<open>None\<close> a read outside the source, \<open>Inl\<close> the return of \<open>-1\<close>
  with the buffer as it is then.\<close>

fun unpack_bits :: "nat \<Rightarrow> u8 \<Rightarrow> nat \<Rightarrow> unpack_state \<Rightarrow> (bytes + unpack_state) option" where
  "unpack_bits 0 header i s = Some (Inr s)"
| "unpack_bits (Suc k) header i s =
     (if bit header i then
        if up_srcsz s < 0 then Some (Inl (up_mem s))
        else case up_src s of
          [] \<Rightarrow> None
        | b # src \<Rightarrow> do {
            s \<leftarrow> unpack_put b s;
            unpack_bits k header (i + 1) (s\<lparr>up_src := src, up_srcsz := up_srcsz s - 1, up_size := up_size s + 1\<rparr>) }
      else do {
        s \<leftarrow> unpack_put 0 s;
        unpack_bits k header (i + 1) (s\<lparr>up_size := up_size s + 1\<rparr>) })"

definition unpack_step :: "unpack_state \<Rightarrow> (bytes + unpack_state) option" where
  "unpack_step s =
     (case up_src s of [] \<Rightarrow> None | header # src \<Rightarrow>
        let s = s\<lparr>up_src := src, up_srcsz := up_srcsz s - 1\<rparr> in
        if header = 0xff then
          if up_srcsz s < 0 then Some (Inl (up_mem s))
          else case src of [] \<Rightarrow> None | c # src \<Rightarrow>
            let n = (unat c + 1) * 8 in
            if up_srcsz s < int n + 1 then Some (Inl (up_mem s))
            else do {
              data \<leftarrow> peek_range src 0 n;
              mem \<leftarrow> (if up_bufsz s \<ge> int n then poke_all (up_mem s) (up_buffer s) data else Some (up_mem s));
              Some (Inr (s\<lparr>up_srcsz := up_srcsz s - (int n + 1), up_mem := mem, up_bufsz := up_bufsz s - int n,
                up_buffer := up_buffer s + n, up_src := drop n src, up_size := up_size s + n\<rparr>)) }
        else unpack_bits 8 header 0 s)"

partial_function (option) unpack_loop :: "unpack_state \<Rightarrow> (bytes + unpack_state) option" where
  "unpack_loop s =
     (if up_srcsz s > 0 then
        do { r \<leftarrow> unpack_step s; case r of Inl mem \<Rightarrow> Some (Inl mem) | Inr s \<Rightarrow> unpack_loop s }
      else Some (Inr s))"

declare unpack_loop.simps [code]

definition sproto_unpack :: "bytes \<Rightarrow> bytes \<Rightarrow> (int \<times> bytes) option" where
  "sproto_unpack srcv bufferv = do {
     r \<leftarrow> unpack_loop \<lparr>up_src = srcv, up_srcsz = int (length srcv), up_mem = bufferv, up_buffer = 0,
            up_bufsz = int (length bufferv), up_size = 0\<rparr>;
     Some (case r of Inl mem \<Rightarrow> (- 1, mem) | Inr s \<Rightarrow> (int (up_size s), up_mem s)) }"

section \<open>The Lua entry points\<close>

definition ENCODE_BUFFERSIZE :: nat where "ENCODE_BUFFERSIZE = 2050"
definition ENCODE_MAXSIZE :: nat where "ENCODE_MAXSIZE = 0x1000000"

function grow_size :: "nat \<Rightarrow> nat \<Rightarrow> nat" where
  "grow_size osz nsz = (if 0 < osz \<and> osz * 2 < nsz then grow_size (osz * 2) nsz else osz * 2)"
  by pat_completeness auto
termination by (relation "measure (\<lambda>(osz, nsz). nsz - osz)") auto

declare grow_size.simps [simp del]

text \<open>
  \<open>expand_buffer\<close> allocates a new output buffer; its fresh contents are the argument \<open>fresh\<close>. A Lua
  error is \<open>Inl\<close> of its message; the outer \<open>None\<close> is an access outside a buffer.
\<close>

definition expand_buffer :: "(nat \<Rightarrow> bytes) \<Rightarrow> nat \<Rightarrow> nat \<Rightarrow> string + bytes" where
  "expand_buffer fresh osz nsz =
     (let osz = grow_size osz nsz
      in if osz > ENCODE_MAXSIZE then Inl ''object is too large'' else Inr (fresh osz))"

definition pack_maxsz :: "nat \<Rightarrow> nat" where
  "pack_maxsz sz = (sz + 2047) div 2048 * 2 + sz"

definition lpack :: "(nat \<Rightarrow> bytes) \<Rightarrow> bytes \<Rightarrow> bytes \<Rightarrow> (string + bytes \<times> bytes) option" where
  "lpack fresh output buffer =
     (let sz = length buffer; maxsz = pack_maxsz sz in
      case (if length output < maxsz then expand_buffer fresh (length output) maxsz else Inr output) of
        Inl e \<Rightarrow> Some (Inl e)
      | Inr output \<Rightarrow> do {
          (bytes, mem) \<leftarrow> sproto_pack buffer (take maxsz output);
          if bytes > maxsz then Some (Inl ''packing error'')
          else Some (Inr (take bytes mem, mem @ drop maxsz output)) })"

definition lunpack :: "(nat \<Rightarrow> bytes) \<Rightarrow> bytes \<Rightarrow> bytes \<Rightarrow> (string + bytes \<times> bytes) option" where
  "lunpack fresh output buffer = do {
     (r, mem) \<leftarrow> sproto_unpack buffer output;
     if r < 0 then Some (Inl ''Invalid unpack stream'')
     else if r > int (length output) then
       (case expand_buffer fresh (length output) (nat r) of
          Inl e \<Rightarrow> Some (Inl e)
        | Inr output \<Rightarrow> do {
            (r, mem) \<leftarrow> sproto_unpack buffer (take (nat r) output);
            if r < 0 then Some (Inl ''Invalid unpack stream'')
            else Some (Inr (take (nat r) mem, mem @ drop (nat r) output)) })
     else Some (Inr (take (nat r) mem, mem)) }"

section \<open>The packed form\<close>

text \<open>
  The format itself, over eight-byte segments: runs of dense segments are stored behind \<open>0xff\<close> and a
  count, every other segment as a bit mask and its non-zero bytes.
\<close>

definition nz :: "bytes \<Rightarrow> bytes" where
  "nz s = filter (\<lambda>b. b \<noteq> 0) s"

fun seg_mask :: "nat \<Rightarrow> bytes \<Rightarrow> u8 \<Rightarrow> u8" where
  "seg_mask i [] h = h"
| "seg_mask i (b # s) h = seg_mask (i + 1) s (if b \<noteq> 0 then h OR push_bit i 1 else h)"

definition seg_bytes :: "bytes \<Rightarrow> bytes" where
  "seg_bytes s = seg_mask 0 s 0 # nz s"

definition ff_bytes :: "bytes list \<Rightarrow> bytes" where
  "ff_bytes acc = (if acc = [] then [] else 0xff # of_nat (length acc - 1) # concat acc)"

fun pack_spec :: "bytes list \<Rightarrow> bytes list \<Rightarrow> bytes" where
  "pack_spec acc [] = ff_bytes acc"
| "pack_spec acc (s # ss) =
     (if length (nz s) = 8 \<or> acc \<noteq> [] \<and> 6 \<le> length (nz s) then
        if length acc = 255 then ff_bytes (acc @ [s]) @ pack_spec [] ss else pack_spec (acc @ [s]) ss
      else ff_bytes acc @ seg_bytes s @ pack_spec [] ss)"

definition pad8 :: "bytes \<Rightarrow> bytes" where
  "pad8 s = s @ replicate (8 - length s) 0"

function segments :: "bytes \<Rightarrow> bytes list" where
  "segments xs = (if xs = [] then [] else pad8 (take 8 xs) # segments (drop 8 xs))"
  by pat_completeness auto
termination by (relation "measure length") auto

declare segments.simps [simp del]

section \<open>Writing\<close>

lemma poke_all_ok:
  "i + length bs \<le> length mem \<Longrightarrow> poke_all mem i bs = Some (take i mem @ bs @ drop (i + length bs) mem)"
proof (induction bs arbitrary: mem i)
  case (Cons b bs)
  then have "take (i + 1) (mem[i := b]) = take i mem @ [b]" "drop (i + 1 + length bs) (mem[i := b]) = drop (i + 1 + length bs) mem"
    by (simp_all add: take_Suc_conv_app_nth)
  moreover have "poke_all (mem[i := b]) (i + 1) bs = Some (take (i + 1) (mem[i := b]) @ bs @ drop (i + 1 + length bs) (mem[i := b]))"
    using Cons.prems by (intro Cons.IH) simp
  ultimately show ?case using Cons.prems by (simp add: poke_def)
qed simp

lemma take_poke: "i < length mem \<Longrightarrow> take (Suc i) (mem[i := b]) = take i mem @ [b]"
  by (simp add: take_Suc_conv_app_nth)

lemma seg_loop_ok:
  "0 < sg_sz s \<longrightarrow> int (sg_buffer s) + sg_sz s \<le> int (length (sg_mem s)) \<Longrightarrow>
   \<exists>s'. seg_loop src i s = Some s' \<and> sg_notzero s' = sg_notzero s + length (nz src) \<and>
     sg_header s' = seg_mask i src (sg_header s) \<and> length (sg_mem s') = length (sg_mem s) \<and>
     take (sg_buffer s) (sg_mem s') = take (sg_buffer s) (sg_mem s) \<and>
     (int (length (nz src)) \<le> sg_sz s \<longrightarrow>
        take (sg_buffer s + length (nz src)) (sg_mem s') = take (sg_buffer s) (sg_mem s) @ nz src)"
proof (induction src arbitrary: i s)
  case Nil
  then show ?case by (simp add: nz_def)
next
  case (Cons b src)
  show ?case
  proof (cases "b = 0")
    case True
    with Cons.IH [of s "i + 1"] Cons.prems show ?thesis by (simp add: nz_def)
  next
    case False
    define h where "h = sg_header s OR push_bit i 1"
    show ?thesis
    proof (cases "0 < sg_sz s")
      case True
      then have p: "sg_buffer s < length (sg_mem s)" using Cons.prems by linarith
      define t where "t = s\<lparr>sg_notzero := sg_notzero s + 1, sg_header := h, sg_mem := (sg_mem s)[sg_buffer s := b],
        sg_buffer := sg_buffer s + 1, sg_sz := sg_sz s - 1\<rparr>"
      have t: "sg_notzero t = sg_notzero s + 1" "sg_header t = h" "sg_mem t = (sg_mem s)[sg_buffer s := b]"
        "sg_buffer t = Suc (sg_buffer s)" "sg_sz t = sg_sz s - 1" by (simp_all add: t_def)
      have "seg_loop (b # src) i s = seg_loop src (i + 1) t"
        using False True p by (simp add: Let_def poke_def t_def h_def)
      moreover have "0 < sg_sz t \<longrightarrow> int (sg_buffer t) + sg_sz t \<le> int (length (sg_mem t))"
        using Cons.prems by (simp add: t)
      from Cons.IH [OF this, of "i + 1"] obtain s' where
        s': "seg_loop src (i + 1) t = Some s'" "sg_notzero s' = sg_notzero t + length (nz src)"
          "sg_header s' = seg_mask (i + 1) src h" "length (sg_mem s') = length (sg_mem s)"
          "take (Suc (sg_buffer s)) (sg_mem s') = take (Suc (sg_buffer s)) ((sg_mem s)[sg_buffer s := b])"
          "int (length (nz src)) \<le> sg_sz t \<longrightarrow> take (Suc (sg_buffer s) + length (nz src)) (sg_mem s') =
             take (Suc (sg_buffer s)) ((sg_mem s)[sg_buffer s := b]) @ nz src"
        unfolding t by auto
      moreover have "take (sg_buffer s) (sg_mem s') = take (sg_buffer s) (sg_mem s)"
        using arg_cong [OF s'(5), of "take (sg_buffer s)"] by (simp add: take_update_cancel min_def)
      ultimately show ?thesis using False p by (auto simp: t nz_def take_poke h_def)
    next
      case False
      with Cons.IH [of "s\<lparr>sg_notzero := sg_notzero s + 1, sg_header := h\<rparr>" "i + 1"] \<open>b \<noteq> 0\<close> show ?thesis
        by (auto simp: nz_def Let_def h_def)
    qed
  qed
qed

definition dense :: "nat \<Rightarrow> bytes \<Rightarrow> bool" where
  "dense n s \<longleftrightarrow> length (nz s) = 8 \<or> 0 < n \<and> 6 \<le> length (nz s)"

lemma length_nz_le: "length (nz s) \<le> length s"
  by (simp add: nz_def)

lemma pack_seg_ok:
  assumes "length src = 8" "0 < sz \<longrightarrow> int buffer + sz \<le> int (length mem)"
  shows "\<exists>mem'. pack_seg src mem buffer sz n =
       Some (if dense n src then if n > 0 then 8 else 10 else length (nz src) + 1, mem') \<and>
     length mem' = length mem \<and> take buffer mem' = take buffer mem \<and>
     (\<not> dense n src \<and> int (length (nz src)) + 1 \<le> sz \<longrightarrow>
        take (buffer + length (nz src) + 1) mem' = take buffer mem @ seg_bytes src)"
proof -
  let ?s = "\<lparr>sg_mem = mem, sg_buffer = buffer + 1, sg_sz = sz - 1, sg_notzero = 0, sg_header = 0\<rparr>"
  have le: "length (nz src) \<le> 8" using length_nz_le [of src] assms(1) by simp
  have "0 < sg_sz ?s \<longrightarrow> int (sg_buffer ?s) + sg_sz ?s \<le> int (length (sg_mem ?s))" using assms(2) by simp
  from seg_loop_ok [OF this, of src 0] obtain t where
    t: "seg_loop src 0 ?s = Some t" "sg_notzero t = length (nz src)" "sg_header t = seg_mask 0 src 0"
      "length (sg_mem t) = length mem" "take (buffer + 1) (sg_mem t) = take (buffer + 1) mem"
      "int (length (nz src)) \<le> sz - 1 \<longrightarrow>
         take (buffer + 1 + length (nz src)) (sg_mem t) = take (buffer + 1) mem @ nz src" by auto
  have tb: "take buffer (sg_mem t) = take buffer mem"
    using arg_cong [OF t(5), of "take buffer"] by (simp add: min_def)
  show ?thesis
  proof (cases "dense n src")
    case True
    with t le tb show ?thesis by (auto simp: pack_seg_def Let_def dense_def)
  next
    case False
    then have nd: "\<not> ((length (nz src) = 7 \<or> length (nz src) = 6) \<and> n > 0)" "length (nz src) \<noteq> 8"
      using le by (auto simp: dense_def)
    show ?thesis
    proof (cases "sz < 1")
      case True
      with t nd False tb show ?thesis by (auto simp: pack_seg_def Let_def)
    next
      case sz: False
      then have b: "buffer < length mem" using assms(2) by linarith
      let ?m = "(sg_mem t)[buffer := seg_mask 0 src 0]"
      have "take (buffer + length (nz src) + 1) ?m = take buffer mem @ seg_bytes src" if "int (length (nz src)) + 1 \<le> sz"
      proof -
        have "take (buffer + 1 + length (nz src)) (sg_mem t) = take (buffer + 1) mem @ nz src" using t(6) that by simp
        then have "take (buffer + 1 + length (nz src)) ?m = (take (buffer + 1) mem @ nz src)[buffer := seg_mask 0 src 0]"
          by (simp add: take_update_swap)
        also have "\<dots> = take buffer mem @ seg_bytes src"
          using b by (simp add: seg_bytes_def take_Suc_conv_app_nth list_update_append)
        finally show ?thesis by (simp add: add.commute add.left_commute)
      qed
      with t nd False sz tb b show ?thesis by (auto simp: pack_seg_def Let_def poke_def)
    qed
  qed
qed

section \<open>The packing loop\<close>

definition window :: "bytes \<Rightarrow> nat \<Rightarrow> nat \<Rightarrow> bytes" where
  "window srcv a n = take n (drop a srcv) @ replicate (a + n - length srcv) 0"

lemma length_window [simp]: "a \<le> length srcv \<Longrightarrow> length (window srcv a n) = n"
  by (auto simp: window_def min_def)

lemma window_append: "a + n \<le> length srcv \<Longrightarrow> window srcv a n @ window srcv (a + n) m = window srcv a (n + m)"
  by (simp add: window_def take_add add.commute [of n a] add.assoc)

lemma window_pad8: "i < length srcv \<Longrightarrow> pad8 (take 8 (drop i srcv)) = window srcv i 8"
  by (auto simp: pad8_def window_def min_def)

lemma window_dense: "i \<le> length srcv \<Longrightarrow> length (nz (window srcv i 8)) = 8 \<Longrightarrow> i + 8 \<le> length srcv"
proof (rule ccontr)
  assume i: "i \<le> length srcv" and n: "length (nz (window srcv i 8)) = 8" and "\<not> i + 8 \<le> length srcv"
  then have "length (nz (window srcv i 8)) \<le> length srcv - i"
    using length_nz_le [of "take 8 (drop i srcv)"] by (simp add: window_def nz_def min_def)
  with n \<open>\<not> i + 8 \<le> length srcv\<close> show False by simp
qed

lemma length_ff_bytes: "\<forall>a\<in>set acc. length a = 8 \<Longrightarrow> length (ff_bytes acc) = (if acc = [] then 0 else 2 + 8 * length acc)"
proof -
  assume "\<forall>a\<in>set acc. length a = 8"
  then have "length (concat acc) = 8 * length acc" by (induction acc) auto
  then show ?thesis by (simp add: ff_bytes_def)
qed

lemma write_ff_ok:
  assumes "acc \<noteq> []" "\<forall>a\<in>set acc. length a = 8" "concat acc = window srcv a (8 * length acc)"
    "n \<le> 8 * length acc" "8 * length acc < n + 8" "n = 8 * length acc \<or> a + n = length srcv" "a + n \<le> length srcv"
    "des + length (ff_bytes acc) \<le> length mem"
  shows "write_ff srcv a mem des n = Some (take des mem @ ff_bytes acc @ drop (des + length (ff_bytes acc)) mem)"
proof -
  have al: "(n + 7) div 8 = length acc" using assms(4,5) by (intro div_nat_eqI) auto
  have "take n (drop a srcv) @ replicate (8 * length acc - n) 0 = concat acc"
    using assms(3,4,6,7) by (auto simp: window_def)
  then have ff: "0xff # of_nat (length acc - 1) # take n (drop a srcv) @ replicate (8 * length acc - n) 0 = ff_bytes acc"
    using assms(1) by (simp add: ff_bytes_def)
  have "write_ff srcv a mem des n = poke_all mem des (ff_bytes acc)"
    unfolding ff [symmetric] using assms(7)
    by (simp add: write_ff_def peek_range_def al mult.commute del: poke_all.simps)
  then show ?thesis using poke_all_ok [OF assms(8)] by simp
qed

definition pack_inv :: "bytes \<Rightarrow> nat \<Rightarrow> nat \<Rightarrow> bytes \<Rightarrow> bytes list \<Rightarrow> pack_state \<Rightarrow> bool" where
  "pack_inv srcv L i out acc s \<longleftrightarrow>
     pk_size s = length out + length (ff_bytes acc) \<and> pk_buffer s = pk_size s \<and> length (pk_mem s) = L \<and>
     pk_bufsz s = int L - int (pk_size s) \<and> ff_n s = length acc \<and> length acc < 256 \<and> (\<forall>a\<in>set acc. length a = 8) \<and>
     (acc \<noteq> [] \<longrightarrow> ff_desstart s = length out \<and> ff_srcstart s + 8 * length acc = i \<and>
        ff_srcstart s + 8 \<le> length srcv \<and> concat acc = window srcv (ff_srcstart s) (8 * length acc)) \<and>
     (pk_size s \<le> L \<longrightarrow> take (length out) (pk_mem s) = out)"

definition spec_step :: "bytes \<Rightarrow> bytes list \<Rightarrow> bytes \<Rightarrow> bytes \<times> bytes list" where
  "spec_step out acc sg =
     (if dense (length acc) sg then
        if length acc = 255 then (out @ ff_bytes (acc @ [sg]), []) else (out, acc @ [sg])
      else (out @ ff_bytes acc @ seg_bytes sg, []))"

lemma flush_ok:
  assumes "pack_inv srcv L i out acc s" "acc \<noteq> []" "length mem = L" "take (length out) mem = out" "pk_size s \<le> L"
    "n \<le> 8 * length acc" "8 * length acc < n + 8"
    "n = 8 * length acc \<or> ff_srcstart s + n = length srcv" "ff_srcstart s + n \<le> length srcv"
  shows "write_ff srcv (ff_srcstart s) mem (ff_desstart s) n =
     Some (out @ ff_bytes acc @ drop (length (out @ ff_bytes acc)) mem)"
  using write_ff_ok [of acc srcv "ff_srcstart s" n "ff_desstart s" mem] assms by (auto simp: pack_inv_def)

lemma pack_step_src:
  "i < length srcv \<Longrightarrow>
   (if i + 8 - length srcv > 0 then take (8 - (i + 8 - length srcv)) (drop i srcv) @ replicate (i + 8 - length srcv) 0
    else take 8 (drop i srcv)) = window srcv i 8"
  by (auto simp: window_def)

lemma pack_step_ok:
  assumes inv: "pack_inv srcv L i out acc s" and i: "i < length srcv"
    and fit: "8 dvd length srcv \<or> length srcv \<le> 2040" and al: "8 dvd i"
    and sp: "spec_step out acc (window srcv i 8) = (out', acc')"
  shows "\<exists>s'. pack_step srcv i s = Some s' \<and> pack_inv srcv L (i + 8) out' acc' s'"
proof -
  let ?w = "window srcv i 8"
  have lw: "length ?w = 8" using i by simp
  have n: "ff_n s = length acc" "pk_buffer s = pk_size s" "length (pk_mem s) = L" "pk_bufsz s = int L - int (pk_size s)"
    using inv by (simp_all add: pack_inv_def)
  have "0 < pk_bufsz s \<longrightarrow> int (pk_buffer s) + pk_bufsz s \<le> int (length (pk_mem s))" using n by simp
  from pack_seg_ok [OF lw this, of "ff_n s"] obtain mem where
    ps: "pack_seg ?w (pk_mem s) (pk_buffer s) (pk_bufsz s) (ff_n s) =
       Some (if dense (length acc) ?w then if length acc > 0 then 8 else 10 else length (nz ?w) + 1, mem)"
    and mem: "length mem = L" "take (pk_size s) mem = take (pk_size s) (pk_mem s)"
      "\<not> dense (length acc) ?w \<and> int (length (nz ?w)) + 1 \<le> pk_bufsz s \<longrightarrow>
        take (pk_size s + length (nz ?w) + 1) mem = take (pk_size s) (pk_mem s) @ seg_bytes ?w"
    unfolding n by auto
  have out: "take (length out) mem = out" if "pk_size s \<le> L"
  proof -
    have "length out \<le> pk_size s" using inv by (simp add: pack_inv_def)
    then have "take (length out) mem = take (length out) (pk_mem s)"
      using arg_cong [OF mem(2), of "take (length out)"] by (simp add: min_def)
    then show ?thesis using inv that by (simp add: pack_inv_def)
  qed
  have lff: "length (ff_bytes acc) = (if acc = [] then 0 else 2 + 8 * length acc)"
    using inv by (intro length_ff_bytes) (simp add: pack_inv_def)
  show ?thesis
  proof (cases "dense (length acc) ?w")
    case d: True
    have inv': "pack_inv srcv L (i + 8) out (acc @ [?w]) s'" if "length acc < 255"
      "pk_size s' = pk_size s + (if acc = [] then 10 else 8)" "pk_buffer s' = pk_size s'" "pk_mem s' = mem"
      "pk_bufsz s' = int L - int (pk_size s')" "ff_n s' = length acc + 1"
      "ff_desstart s' = (if acc = [] then pk_buffer s else ff_desstart s)"
      "ff_srcstart s' = (if acc = [] then i else ff_srcstart s)" for s'
    proof -
      have "i + 8 \<le> length srcv" if "acc = []" using d that i window_dense [of i srcv] by (simp add: dense_def)
      moreover have "concat (acc @ [?w]) = window srcv (ff_srcstart s') (8 * length (acc @ [?w]))"
        using inv i window_append [of "ff_srcstart s" "8 * length acc" srcv 8] that(8)
        by (cases "acc = []") (auto simp: pack_inv_def add.commute)
      moreover have "length (ff_bytes (acc @ [?w])) = 2 + 8 * length (acc @ [?w])"
        using inv lw length_ff_bytes [of "acc @ [?w]"] by (auto simp: pack_inv_def)
      ultimately show ?thesis
        using inv that lff lw out mem(1) n unfolding pack_inv_def by (auto split: if_splits)
    qed
    show ?thesis
    proof (cases "length acc = 255")
      case False
      have "length acc < 255" using False inv by (simp add: pack_inv_def)
      moreover have sp': "out' = out" "acc' = acc @ [?w]" using sp d False by (simp_all add: spec_step_def)
      ultimately show ?thesis
      proof (cases "acc = []")
        case True
        let ?s' = "s\<lparr>pk_mem := mem, pk_bufsz := pk_bufsz s - 10, ff_srcstart := i, ff_desstart := pk_buffer s, ff_n := 1,
          pk_buffer := pk_buffer s + 10, pk_size := pk_size s + 10\<rparr>"
        have "pack_step srcv i s = Some ?s'"
          using d ps True n(1) unfolding pack_step_def Let_def pack_step_src [OF i] by simp
        moreover have "pack_inv srcv L (i + 8) out (acc @ [?w]) ?s'"
          by (rule inv') (use True n in simp_all)
        ultimately show ?thesis unfolding sp' by blast
      next
        case acc: False
        let ?s' = "s\<lparr>pk_mem := mem, pk_bufsz := pk_bufsz s - 8, ff_n := ff_n s + 1,
          pk_buffer := pk_buffer s + 8, pk_size := pk_size s + 8\<rparr>"
        have "pack_step srcv i s = Some ?s'"
          using d ps acc False n(1) unfolding pack_step_def Let_def pack_step_src [OF i] by simp
        moreover have "pack_inv srcv L (i + 8) out (acc @ [?w]) ?s'"
          by (rule inv') (use acc n \<open>length acc < 255\<close> in simp_all)
        ultimately show ?thesis unfolding sp' by blast
      qed
    next
      case full: True
      let ?s = "s\<lparr>pk_mem := mem, pk_bufsz := pk_bufsz s - 8\<rparr>"
      let ?o = "out @ ff_bytes (acc @ [?w])"
      have sp': "out' = ?o" "acc' = []" using sp d full by (simp_all add: spec_step_def)
      have acc: "acc \<noteq> []" using full by auto
      have st: "ff_srcstart s + 2040 = i" "concat acc = window srcv (ff_srcstart s) (8 * length acc)"
        "ff_desstart s = length out" using inv acc full by (auto simp: pack_inv_def)
      have lf: "length (ff_bytes (acc @ [?w])) = length (ff_bytes acc) + 8"
        using inv lw acc length_ff_bytes [of "acc @ [?w]"] length_ff_bytes [of acc] by (auto simp: pack_inv_def)
      have "i + 8 \<le> length srcv" using fit i al st(1) by (auto simp: dvd_def)
      moreover have "concat (acc @ [?w]) = window srcv (ff_srcstart s) (8 * length (acc @ [?w]))"
        using st full i window_append [of "ff_srcstart s" 2040 srcv 8] by simp
      ultimately have wf: "write_ff srcv (ff_srcstart s) mem (ff_desstart s) 2048 = Some (?o @ drop (length ?o) mem)"
        if "int (pk_size s) + 8 \<le> int L"
        using write_ff_ok [of "acc @ [?w]" srcv "ff_srcstart s" 2048 "ff_desstart s" mem] st full lw inv out that mem(1) lf
        by (simp add: pack_inv_def)
      show ?thesis
      proof (cases "int (pk_size s) + 8 \<le> int L")
        case True
        from wf [OF True] d n ps full acc True mem(1) lf inv show ?thesis
          unfolding pack_step_def Let_def pack_step_src [OF i] sp' by (simp add: pack_inv_def ff_bytes_def [of "[]"])
      next
        case False
        with d n ps full acc mem(1) lf inv show ?thesis
          unfolding pack_step_def Let_def pack_step_src [OF i] sp' by (simp add: pack_inv_def ff_bytes_def [of "[]"])
      qed
    qed
  next
    case nd: False
    let ?k = "length (nz ?w) + 1" and ?o = "out @ ff_bytes acc"
    have sp': "out' = ?o @ seg_bytes ?w" "acc' = []" using sp nd by (simp_all add: spec_step_def)
    have sz: "pk_size s = length ?o" using inv by (simp add: pack_inv_def)
    have k: "?k \<noteq> 10" "\<not> (?k = 8 \<and> ff_n s > 0)" "length (seg_bytes ?w) = ?k"
      using nd n lw length_nz_le [of ?w] by (auto simp: dense_def seg_bytes_def)
    have fin: "pack_inv srcv L (i + 8) out' acc' s'" if "pk_size s' = pk_size s + ?k" "pk_buffer s' = pk_size s'"
      "length (pk_mem s') = L" "pk_bufsz s' = int L - int (pk_size s')" "ff_n s' = 0"
      "pk_size s + ?k \<le> L \<Longrightarrow> take (pk_size s + ?k) (pk_mem s') = ?o @ seg_bytes ?w" for s'
      using that k(3) sz unfolding pack_inv_def sp' by (simp add: ff_bytes_def [of "[]"] add.assoc)
    have seg: "take (pk_size s + ?k) mem = take (pk_size s) mem @ seg_bytes ?w" if "pk_size s + ?k \<le> L"
      using mem(3) nd that n(4) mem(2) by simp
    show ?thesis
    proof (cases "acc = []")
      case True
      let ?s' = "s\<lparr>pk_mem := mem, pk_bufsz := pk_bufsz s - int ?k, pk_buffer := pk_buffer s + ?k, pk_size := pk_size s + ?k\<rparr>"
      have "pack_step srcv i s = Some ?s'"
        using nd ps True n(1) k unfolding pack_step_def Let_def pack_step_src [OF i] by simp
      moreover have "pack_inv srcv L (i + 8) out' acc' ?s'"
        by (rule fin) (use True n mem(1) seg out sz in \<open>simp_all add: ff_bytes_def\<close>)
      ultimately show ?thesis by blast
    next
      case acc: False
      let ?m = "if pk_bufsz s - int ?k \<ge> 0 then ?o @ drop (length ?o) mem else mem"
      have st: "ff_srcstart s + 8 * length acc = i" using inv acc by (simp add: pack_inv_def)
      have wf: "write_ff srcv (ff_srcstart s) mem (ff_desstart s) (length acc * 8) = Some (?o @ drop (length ?o) mem)"
        if "pk_bufsz s - int ?k \<ge> 0"
        using flush_ok [OF inv acc mem(1) out, of "8 * length acc"] that n(4) st i by (simp add: mult.commute)
      let ?s' = "s\<lparr>pk_mem := ?m, pk_bufsz := pk_bufsz s - int ?k, ff_n := 0, pk_buffer := pk_buffer s + ?k,
        pk_size := pk_size s + ?k\<rparr>"
      have "pack_step srcv i s = Some ?s'"
        using nd ps acc n(1) k wf unfolding pack_step_def Let_def pack_step_src [OF i] by simp
      moreover have "pack_inv srcv L (i + 8) out' acc' ?s'"
      proof (rule fin)
        assume le: "pk_size s + ?k \<le> L"
        have "take (pk_size s + ?k) mem = take (length ?o) mem @ seg_bytes ?w" using seg [OF le] sz by simp
        then have "take ?k (drop (length ?o) mem) = seg_bytes ?w"
          unfolding sz take_add by (metis same_append_eq)
        with le n(4) sz show "take (pk_size s + ?k) (pk_mem ?s') = ?o @ seg_bytes ?w" by simp
      qed (use n mem(1) sz in \<open>auto\<close>)
      ultimately show ?thesis by blast
    qed
  qed
qed

lemma pack_spec_step:
  "spec_step out acc sg = (out', acc') \<Longrightarrow> out @ pack_spec acc (sg # ss) = out' @ pack_spec acc' ss"
  by (auto simp: spec_step_def dense_def split: if_splits)

lemma segments_drop: "i < length xs \<Longrightarrow> segments (drop i xs) = window xs i 8 # segments (drop (i + 8) xs)"
  by (subst segments.simps) (simp add: window_pad8 add.commute)

lemma pack_finish:
  assumes inv: "pack_inv srcv L i out acc s" and i: "length srcv \<le> i" "i < length srcv + 8 \<or> acc = []"
  shows "\<exists>mem. pack_flush srcv s = Some mem \<and> length mem = L \<and> pk_size s = length (out @ ff_bytes acc) \<and>
     (pk_size s \<le> L \<longrightarrow> take (pk_size s) mem = out @ ff_bytes acc)"
proof -
  have n: "ff_n s = length acc" "length (pk_mem s) = L" "pk_bufsz s = int L - int (pk_size s)"
    "pk_size s = length (out @ ff_bytes acc)" "pk_size s \<le> L \<Longrightarrow> take (length out) (pk_mem s) = out"
    using inv by (simp_all add: pack_inv_def)
  show ?thesis
  proof (cases "acc = [] \<or> pk_size s > L")
    case True
    with n show ?thesis by (auto simp: pack_flush_def ff_bytes_def)
  next
    case False
    then have acc: "acc \<noteq> []" and le: "pk_size s \<le> L" by auto
    have st: "ff_srcstart s + 8 * length acc = i" "ff_srcstart s + 8 \<le> length srcv" using inv acc by (auto simp: pack_inv_def)
    let ?n = "if length acc = 1 then 8 else length srcv - ff_srcstart s"
    have "write_ff srcv (ff_srcstart s) (pk_mem s) (ff_desstart s) ?n =
        Some (out @ ff_bytes acc @ drop (length (out @ ff_bytes acc)) (pk_mem s))"
      by (rule flush_ok [OF inv acc n(2) n(5) [OF le] le]) (use st i acc in auto)
    with acc le n show ?thesis by (cases acc) (auto simp: pack_flush_def)
  qed
qed

lemma pack_loop_ok:
  assumes "pack_inv srcv L i out acc s" "8 dvd length srcv \<or> length srcv \<le> 2040" "8 dvd i"
    "i < length srcv + 8 \<or> acc = []"
  shows "\<exists>s' mem. pack_loop srcv i s = Some s' \<and> pack_flush srcv s' = Some mem \<and> length mem = L \<and>
     pk_size s' = length (out @ pack_spec acc (segments (drop i srcv))) \<and>
     (pk_size s' \<le> L \<longrightarrow> take (pk_size s') mem = out @ pack_spec acc (segments (drop i srcv)))"
  using assms
proof (induction srcv i s arbitrary: out acc rule: pack_loop.induct)
  case (1 srcv i s)
  show ?case
  proof (cases "i < length srcv")
    case False
    with pack_finish [OF "1.prems"(1)] "1.prems"(4) show ?thesis
      by (auto simp: pack_loop.simps [of srcv i] segments.simps [of "[]"])
  next
    case True
    obtain out' acc' where sp: "spec_step out acc (window srcv i 8) = (out', acc')" by (cases "spec_step out acc (window srcv i 8)")
    from pack_step_ok [OF "1.prems"(1) True "1.prems"(2) "1.prems"(3) sp] obtain s1 where
      s1: "pack_step srcv i s = Some s1" "pack_inv srcv L (i + 8) out' acc' s1" by blast
    have "8 dvd i + 8" using "1.prems"(3) by simp
    from "1.IH" [OF True s1(1,2) "1.prems"(2) this] True s1(1) show ?thesis
      unfolding segments_drop [OF True] pack_spec_step [OF sp] by (simp add: pack_loop.simps [of srcv i])
  qed
qed

lemma sproto_pack_ok:
  assumes "8 dvd length srcv \<or> length srcv \<le> 2040"
  shows "\<exists>mem. sproto_pack srcv bufferv = Some (length (pack_spec [] (segments srcv)), mem) \<and> length mem = length bufferv \<and>
     (length (pack_spec [] (segments srcv)) \<le> length bufferv \<longrightarrow>
        take (length (pack_spec [] (segments srcv))) mem = pack_spec [] (segments srcv))"
proof -
  let ?s = "\<lparr>pk_mem = bufferv, pk_buffer = 0, pk_bufsz = int (length bufferv), ff_srcstart = 0, ff_desstart = 0,
    ff_n = 0, pk_size = 0\<rparr>"
  have "pack_inv srcv (length bufferv) 0 [] [] ?s" by (simp add: pack_inv_def ff_bytes_def)
  from pack_loop_ok [OF this assms] show ?thesis by (auto simp: sproto_pack_def)
qed

section \<open>The unpacking loop\<close>

definition up_inv :: "nat \<Rightarrow> bytes \<Rightarrow> bytes \<Rightarrow> unpack_state \<Rightarrow> bool" where
  "up_inv L rest D s \<longleftrightarrow> up_src s = rest \<and> up_srcsz s = int (length rest) \<and> length (up_mem s) = L \<and> up_size s = length D \<and>
     (length D \<le> L \<longrightarrow> up_buffer s = length D \<and> up_bufsz s = int L - int (length D) \<and> take (length D) (up_mem s) = D) \<and>
     (L < length D \<longrightarrow> up_bufsz s \<le> 0)"

lemma unpack_put_ok:
  assumes "up_inv L rest D s"
  shows "\<exists>s'. unpack_put b s = Some s' \<and> up_src s' = rest \<and> up_srcsz s' = int (length rest) \<and>
    up_size s' = length D \<and> length (up_mem s') = L \<and>
    (length D < L \<longrightarrow> up_buffer s' = length D + 1 \<and> up_bufsz s' = int L - int (length D) - 1 \<and>
       take (length D + 1) (up_mem s') = D @ [b]) \<and> (L \<le> length D \<longrightarrow> up_bufsz s' \<le> 0)"
proof (cases "length D < L")
  case True
  then have "length D \<le> L" by simp
  with True assms show ?thesis by (auto simp: up_inv_def unpack_put_def poke_def take_poke)
next
  case False
  with assms show ?thesis by (auto simp: up_inv_def unpack_put_def)
qed

lemma unpack_bits_ok:
  "up_inv L (nz t @ rest) D s \<Longrightarrow> \<forall>j<length t. bit header (i + j) \<longleftrightarrow> t ! j \<noteq> 0 \<Longrightarrow>
     \<exists>s'. unpack_bits (length t) header i s = Some (Inr s') \<and> up_inv L rest (D @ t) s'"
proof (induction t arbitrary: i s D)
  case Nil
  then show ?case by (simp add: nz_def)
next
  case (Cons b t)
  have hb: "bit header i \<longleftrightarrow> b \<noteq> 0" using Cons.prems(2) by force
  have ht: "\<forall>j<length t. bit header (i + 1 + j) \<longleftrightarrow> t ! j \<noteq> 0" using Cons.prems(2) by force
  from unpack_put_ok [OF Cons.prems(1), of b] obtain s1 where
    s1: "unpack_put b s = Some s1" "up_src s1 = nz (b # t) @ rest" "up_srcsz s1 = int (length (nz (b # t) @ rest))"
      "up_size s1 = length D" "length (up_mem s1) = L"
      "length D < L \<longrightarrow> up_buffer s1 = length D + 1 \<and> up_bufsz s1 = int L - int (length D) - 1 \<and>
         take (length D + 1) (up_mem s1) = D @ [b]" "L \<le> length D \<longrightarrow> up_bufsz s1 \<le> 0" by blast
  show ?case
  proof (cases "b = 0")
    case True
    have "up_inv L (nz t @ rest) (D @ [b]) (s1\<lparr>up_size := up_size s1 + 1\<rparr>)"
      using s1 True by (auto simp: up_inv_def nz_def)
    from Cons.IH [OF this ht] True hb s1(1) show ?thesis by auto
  next
    case False
    let ?s = "s1\<lparr>up_src := nz t @ rest, up_srcsz := up_srcsz s1 - 1, up_size := up_size s1 + 1\<rparr>"
    have "up_inv L (nz t @ rest) (D @ [b]) ?s" using s1 False by (auto simp: up_inv_def nz_def)
    moreover have "unpack_bits (length (b # t)) header i s = unpack_bits (length t) header (i + 1) ?s"
      using Cons.prems(1) False hb s1(1) by (auto simp: up_inv_def nz_def)
    ultimately show ?thesis using Cons.IH [of "D @ [b]" ?s "i + 1"] ht by auto
  qed
qed

lemma seg_mask_bit:
  "j < 8 \<Longrightarrow> bit (seg_mask i s h) j \<longleftrightarrow> bit h j \<or> i \<le> j \<and> j < i + length s \<and> s ! (j - i) \<noteq> 0"
proof (induction s arbitrary: i h)
  case (Cons b s)
  have "bit (h OR push_bit i (1 :: u8)) j \<longleftrightarrow> bit h j \<or> j = i" using Cons.prems by (auto simp: bit_simps)
  moreover have "j = i \<or> \<not> i \<le> j \<or> i + 1 \<le> j \<and> (b # s) ! (j - i) = s ! (j - (i + 1))" by (auto simp: nth_Cons')
  ultimately show ?case using Cons by (auto simp: less_Suc_eq_le)
qed auto

lemma unpack_seg_ok:
  assumes "up_inv L (seg_bytes t @ rest) D s" "length t = 8" "length (nz t) \<noteq> 8"
  shows "\<exists>s'. unpack_step s = Some (Inr s') \<and> up_inv L rest (D @ t) s'"
proof -
  let ?h = "seg_mask 0 t 0"
  have b: "\<forall>j<length t. bit ?h (0 + j) \<longleftrightarrow> t ! j \<noteq> 0" using assms(2) by (auto simp: seg_mask_bit)
  have "?h \<noteq> 0xff"
  proof
    assume "?h = 0xff"
    then have "bit ?h j" if "j < 8" for j
    proof -
      have "?h = mask 8" using \<open>?h = 0xff\<close> by (simp add: mask_eq_exp_minus_1)
      then show ?thesis using that by (simp only: bit_mask_iff) simp
    qed
    then have "\<forall>x\<in>set t. x \<noteq> 0" using b assms(2) by (auto simp: in_set_conv_nth)
    then have "nz t = t" by (simp add: nz_def)
    with assms(2,3) show False by simp
  qed
  moreover have "up_inv L (nz t @ rest) D (s\<lparr>up_src := nz t @ rest, up_srcsz := up_srcsz s - 1\<rparr>)"
    using assms(1) by (auto simp: up_inv_def seg_bytes_def)
  from unpack_bits_ok [OF this b] assms(2) obtain s' where
    "unpack_bits 8 ?h 0 (s\<lparr>up_src := nz t @ rest, up_srcsz := up_srcsz s - 1\<rparr>) = Some (Inr s')" "up_inv L rest (D @ t) s'"
    by auto
  ultimately show ?thesis using assms(1)
    by (auto simp: unpack_step_def up_inv_def seg_bytes_def Let_def simp del: unpack_bits.simps)
qed

lemma unpack_ff_ok:
  assumes "up_inv L (ff_bytes acc @ rest) D s" "acc \<noteq> []" "length acc \<le> 256" "\<forall>a\<in>set acc. length a = 8"
  shows "\<exists>s'. unpack_step s = Some (Inr s') \<and> up_inv L rest (D @ concat acc) s'"
proof -
  obtain k where k: "length acc = Suc k" using assms(2) by (cases acc) auto
  let ?n = "8 * Suc k"
  obtain c :: u8 where c: "c = of_nat (length acc - 1)" "unat c = k"
  proof
    have "k < 2 ^ LENGTH(8)" using k assms(3) by simp
    then show "unat (of_nat (length acc - 1) :: u8) = k" unfolding k by (simp only: diff_Suc_1 unat_of_nat mod_less)
  qed simp
  have len: "length (concat acc) = ?n" using assms(4) unfolding k [symmetric] by (induction acc) auto
  have src: "up_src s = 0xff # c # concat acc @ rest" "up_srcsz s = int (?n + 2 + length rest)"
    using assms(1,2) len by (auto simp: up_inv_def ff_bytes_def c(1))
  note c = c(2)
  show ?thesis
  proof (cases "length D + ?n \<le> L")
    case True
    with assms(1) have d: "length (up_mem s) = L" "up_buffer s = length D" "up_bufsz s = int L - int (length D)"
      "take (length D) (up_mem s) = D" "up_size s = length D" by (auto simp: up_inv_def)
    have "poke_all (up_mem s) (length D) (concat acc) = Some (D @ concat acc @ drop (length D + ?n) (up_mem s))"
      using poke_all_ok [of "length D" "concat acc" "up_mem s"] True d len by simp
    with True d src len c show ?thesis
      by (simp add: unpack_step_def up_inv_def Let_def peek_range_def)
  next
    case False
    then have "up_bufsz s < int ?n" using assms(1) assms(2) unfolding up_inv_def by (cases "length D \<le> L") auto
    with False src len c assms(1) show ?thesis
      by (auto simp: unpack_step_def up_inv_def Let_def peek_range_def)
  qed
qed

lemma unpack_loop_step:
  assumes "up_inv L (p @ rest) D s" "p \<noteq> []" "unpack_step s = Some (Inr s')"
  shows "unpack_loop s = unpack_loop s'"
proof -
  have "up_srcsz s > 0" using assms(1,2) by (cases p) (auto simp: up_inv_def)
  with assms(3) show ?thesis by (subst unpack_loop.simps) simp
qed

lemma unpack_acc_ok:
  assumes "up_inv L (ff_bytes acc @ rest) D s" "length acc \<le> 256" "\<forall>a\<in>set acc. length a = 8"
  shows "\<exists>s'. unpack_loop s = unpack_loop s' \<and> up_inv L rest (D @ concat acc) s'"
proof (cases "acc = []")
  case True
  with assms show ?thesis by (auto simp: ff_bytes_def)
next
  case False
  with unpack_ff_ok [OF assms(1) False assms(2,3)] unpack_loop_step [OF assms(1)] show ?thesis
    by (auto simp: ff_bytes_def)
qed

lemma unpack_loop_ok:
  "up_inv L (pack_spec acc segs) D s \<Longrightarrow> length acc < 256 \<Longrightarrow> \<forall>a\<in>set (acc @ segs). length a = 8 \<Longrightarrow>
     \<exists>s'. unpack_loop s = Some (Inr s') \<and> up_inv L [] (D @ concat (acc @ segs)) s'"
proof (induction acc segs arbitrary: D s rule: pack_spec.induct)
  case (1 acc)
  have "up_inv L (ff_bytes acc @ []) D s" using "1.prems"(1) by simp
  from unpack_acc_ok [OF this] "1.prems" obtain s' where
    "unpack_loop s = unpack_loop s'" "up_inv L [] (D @ concat acc) s'" by auto
  then show ?case by (subst (asm) (2) unpack_loop.simps) (auto simp: up_inv_def)
next
  case (2 acc t ss)
  show ?case
  proof (cases "length (nz t) = 8 \<or> acc \<noteq> [] \<and> 6 \<le> length (nz t)")
    case dense: True
    show ?thesis
    proof (cases "length acc = 255")
      case True
      have "up_inv L (ff_bytes (acc @ [t]) @ pack_spec [] ss) D s" using "2.prems"(1) dense True by auto
      from unpack_acc_ok [OF this] "2.prems" True obtain s' where
        s': "unpack_loop s = unpack_loop s'" "up_inv L (pack_spec [] ss) (D @ concat (acc @ [t])) s'" by auto
      from "2.IH"(1) [OF dense True s'(2)] "2.prems"(3) s'(1) show ?thesis by simp
    next
      case False
      with "2.prems" dense have "up_inv L (pack_spec (acc @ [t]) ss) D s" by auto
      from "2.IH"(2) [OF dense False this] "2.prems" False show ?thesis by auto
    qed
  next
    case False
    then have "up_inv L (ff_bytes acc @ seg_bytes t @ pack_spec [] ss) D s" using "2.prems"(1) by auto
    from unpack_acc_ok [OF this] "2.prems" obtain s1 where
      s1: "unpack_loop s = unpack_loop s1" "up_inv L (seg_bytes t @ pack_spec [] ss) (D @ concat acc) s1" by auto
    from unpack_seg_ok [OF s1(2)] False "2.prems"(3) obtain s2 where
      s2: "unpack_step s1 = Some (Inr s2)" "up_inv L (pack_spec [] ss) ((D @ concat acc) @ t) s2" by auto
    from unpack_loop_step [OF s1(2) _ s2(1)] "2.IH"(3) [OF False s2(2)] "2.prems"(3) s1(1) show ?thesis
      by (simp add: seg_bytes_def)
  qed
qed

section \<open>Round trip and bounds\<close>

lemma segments_length: "\<forall>a\<in>set (segments xs). length a = 8" "length (segments xs) = (length xs + 7) div 8"
proof (induction xs rule: segments.induct)
  case (1 xs)
  {
    case 1
    then show ?case using "1.IH"(1)
      by (cases "xs = []") (auto simp: segments.simps [of xs] segments.simps [of "[]"] pad8_def min_def)
  next
    case 2
    show ?case
    proof (cases "xs = []")
      case False
      have "(length xs + 7) div 8 = Suc ((length (drop 8 xs) + 7) div 8)"
      proof (cases "8 \<le> length xs")
        case True
        then have "length xs + 7 = 8 + (length (drop 8 xs) + 7)" by simp
        then show ?thesis by (simp only: div_add_self1)
      next
        case False
        with \<open>xs \<noteq> []\<close> have "length xs + 7 = 8 + (length xs - 1)" by (cases xs) auto
        with False show ?thesis by (simp only: div_add_self1) simp
      qed
      with "1.IH"(2) [OF False] False show ?thesis by (simp add: segments.simps [of xs])
    qed (simp add: segments.simps)
  }
qed

lemma concat_segments: "concat (segments xs) = xs @ replicate (8 * ((length xs + 7) div 8) - length xs) 0"
proof -
  have "\<exists>n. concat (segments xs) = xs @ replicate n 0"
  proof (induction xs rule: segments.induct)
    case (1 xs)
    show ?case
    proof (cases "length xs < 8")
      case True
      then show ?thesis by (cases "xs = []") (auto simp: segments.simps [of xs] segments.simps [of "[]"] pad8_def)
    next
      case False
      then have "xs \<noteq> []" by auto
      with 1 [OF this] False show ?thesis
        by (auto simp: segments.simps [of xs] pad8_def min_def append_assoc [symmetric] simp del: append_assoc)
    qed
  qed
  then obtain n where n: "concat (segments xs) = xs @ replicate n 0" by blast
  have "length (concat ss) = 8 * length ss" if "\<forall>a\<in>set ss. length a = 8" for ss :: "bytes list"
    using that by (induction ss) auto
  from this [OF segments_length(1) [of xs]] n show ?thesis by (simp add: segments_length(2))
qed

lemma unpack_spec:
  "\<exists>mem. sproto_unpack (pack_spec [] (segments src)) buf = Some (int (length (concat (segments src))), mem) \<and>
     length mem = length buf \<and>
     (length (concat (segments src)) \<le> length buf \<longrightarrow> take (length (concat (segments src))) mem = concat (segments src))"
proof -
  let ?p = "pack_spec [] (segments src)"
  let ?s = "\<lparr>up_src = ?p, up_srcsz = int (length ?p), up_mem = buf, up_buffer = 0,
    up_bufsz = int (length buf), up_size = 0\<rparr>"
  have "up_inv (length buf) ?p [] ?s" by (simp add: up_inv_def)
  from unpack_loop_ok [OF this] segments_length(1) [of src] obtain s' where
    "unpack_loop ?s = Some (Inr s')" "up_inv (length buf) [] (concat (segments src)) s'" by auto
  then show ?thesis by (auto simp: up_inv_def sproto_unpack_def)
qed

text \<open>
  C37: Unpacking inverts packing, for sources whose length is a multiple of eight or at most 2040 bytes. For these
  \<open>sproto_pack\<close> never leaves its buffers, returns the packed size even when the buffer is too small, and fills the
  buffer when it fits; \<open>sproto_unpack\<close> of the packed bytes returns the source padded with zeros to a multiple of
  eight, again with the size even when its buffer is too small. A longer source of another length can have
  a run of 256 dense groups that ends in its last, padded group, and \<open>write_ff\<close> then reads past the end of the source.
\<close>

theorem pack_roundtrip:
  assumes "8 dvd length src \<or> length src \<le> 2040"
  shows "\<exists>packed. (\<forall>buf. \<exists>mem. sproto_pack src buf = Some (length packed, mem) \<and> length mem = length buf \<and>
       (length packed \<le> length buf \<longrightarrow> take (length packed) mem = packed)) \<and>
     (\<forall>buf. \<exists>mem. sproto_unpack packed buf = Some (int (8 * ((length src + 7) div 8)), mem) \<and> length mem = length buf \<and>
       (8 * ((length src + 7) div 8) \<le> length buf \<longrightarrow>
          take (8 * ((length src + 7) div 8)) mem = src @ replicate (8 * ((length src + 7) div 8) - length src) 0))"
proof -
  let ?p = "pack_spec [] (segments src)" and ?n = "8 * ((length src + 7) div 8)"
  have l: "length (concat (segments src)) = ?n" by (simp add: concat_segments)
  have "\<exists>mem. sproto_unpack ?p buf = Some (int ?n, mem) \<and> length mem = length buf \<and>
       (?n \<le> length buf \<longrightarrow> take ?n mem = src @ replicate (?n - length src) 0)" for buf
    using unpack_spec [of src buf] unfolding l unfolding concat_segments .
  with sproto_pack_ok [OF assms] show ?thesis by metis
qed

theorem pack_roundtrip_witness:
  "\<exists>packed. (\<forall>buf. \<exists>mem. sproto_pack [1, 0, 2] buf = Some (length packed, mem) \<and> length mem = length buf \<and>
       (length packed \<le> length buf \<longrightarrow> take (length packed) mem = packed)) \<and>
     (\<forall>buf. \<exists>mem. sproto_unpack packed buf = Some (8, mem) \<and> length mem = length buf \<and>
       (8 \<le> length buf \<longrightarrow> take 8 mem = [1, 0, 2, 0, 0, 0, 0, 0]))"
proof -
  have "8 * ((length [1 :: u8, 0, 2] + 7) div 8) = 8" "[1 :: u8, 0, 2] @ replicate (8 - length [1 :: u8, 0, 2]) 0 = [1, 0, 2, 0, 0, 0, 0, 0]"
    by code_simp+
  moreover have "8 dvd length [1 :: u8, 0, 2] \<or> length [1 :: u8, 0, 2] \<le> 2040" by simp
  ultimately show ?thesis using pack_roundtrip [of "[1, 0, 2]"] by (simp only: of_nat_numeral)
qed

lemma pack_spec_bound:
  "length acc < 256 \<Longrightarrow> \<forall>a\<in>set (acc @ segs). length a = 8 \<Longrightarrow>
     length (pack_spec acc segs) \<le> 8 * (length acc + length segs) + 2 * ((length acc + length segs + 255) div 256)"
proof (induction acc segs rule: pack_spec.induct)
  case (1 acc)
  have "1 \<le> (length acc + 255) div 256" if "acc \<noteq> []" using that by (cases acc) (auto simp: div_greater_zero_iff Suc_le_eq)
  with "1.prems" length_ff_bytes [of acc] show ?case by (cases "acc = []") auto
next
  case (2 acc t ss)
  let ?n = "length acc" and ?m = "length ss"
  have lt: "length t = 8" "\<forall>a\<in>set acc. length a = 8" using "2.prems" by auto
  show ?case
  proof (cases "length (nz t) = 8 \<or> acc \<noteq> [] \<and> 6 \<le> length (nz t)")
    case dense: True
    show ?thesis
    proof (cases "?n = 255")
      case True
      have "length (ff_bytes (acc @ [t])) = 2 + 8 * 256" using length_ff_bytes [of "acc @ [t]"] lt True by auto
      moreover have "(?n + length (t # ss) + 255) div 256 = 1 + (?m + 255) div 256" using True by simp
      moreover have "length (pack_spec [] ss) \<le> 8 * ?m + 2 * ((?m + 255) div 256)"
        using "2.IH"(1) [OF dense True] "2.prems" by simp
      moreover have "pack_spec acc (t # ss) = ff_bytes (acc @ [t]) @ pack_spec [] ss" using dense True by auto
      ultimately show ?thesis using True by simp
    next
      case False
      with "2.IH"(2) [OF dense False] "2.prems" dense show ?thesis by (auto simp: add.commute add.left_commute)
    qed
  next
    case False
    have l: "length (ff_bytes acc) + length (seg_bytes t) \<le> 8 * (?n + 1)"
      using length_ff_bytes [OF lt(2)] False length_nz_le [of t] lt(1) by (auto simp: seg_bytes_def)
    have ih: "length (pack_spec [] ss) \<le> 8 * ?m + 2 * ((?m + 255) div 256)"
      using "2.IH"(3) [OF False] "2.prems" by simp
    have m: "(?m + 255) div 256 \<le> (?n + length (t # ss) + 255) div 256" by (rule div_le_mono) simp
    have "pack_spec acc (t # ss) = ff_bytes acc @ seg_bytes t @ pack_spec [] ss" using False by auto
    then show ?thesis using l ih m by simp
  qed
qed

lemma pack_size_bound: "8 dvd length src \<Longrightarrow> length (pack_spec [] (segments src)) \<le> pack_maxsz (length src)"
proof -
  assume "8 dvd length src"
  then obtain n where n: "length src = 8 * n" by (auto simp: dvd_def)
  have "(8 * n + 2047) div 2048 = (8 * n + 2047) div 8 div 256" by (simp add: div_mult2_eq [symmetric])
  also have "(8 * n + 2047) div 8 = n + 255" by simp
  finally have "(length src + 2047) div 2048 = (n + 255) div 256" using n by simp
  moreover have "length (segments src) = n" using segments_length(2) [of src] n by simp
  ultimately show ?thesis
    using pack_spec_bound [of "[]" "segments src"] segments_length(1) [of src] n by (simp add: pack_maxsz_def)
qed

text \<open>
  The bound \<open>lpack\<close> reserves counts the source's own length, not the padded one: nine dense bytes take twelve,
  where it reserves eleven.
\<close>

lemma pack_maxsz_too_small:
  "length (pack_spec [] (segments [1, 2, 3, 4, 5, 6, 7, 8, 9])) = 12" "pack_maxsz 9 = 11"
  by code_simp+

lemma grow_size_bounds: "0 < osz \<Longrightarrow> osz < nsz \<Longrightarrow> nsz \<le> grow_size osz nsz \<and> grow_size osz nsz < 2 * nsz"
proof (induction osz nsz rule: grow_size.induct)
  case (1 osz nsz)
  then show ?case by (cases "osz * 2 < nsz") (auto simp: grow_size.simps [of osz])
qed

lemma expand_ok:
  assumes "0 < osz" "osz < nsz" "nsz \<le> 2 ^ 23" "\<And>n. length (fresh n) = n"
  shows "\<exists>out. expand_buffer fresh osz nsz = Inr out \<and> nsz \<le> length out"
  using grow_size_bounds [OF assms(1,2)] assms(3,4) by (auto simp: expand_buffer_def ENCODE_MAXSIZE_def Let_def)

lemma pad8_exact: "8 dvd n \<Longrightarrow> 8 * ((n + 7) div 8) = (n :: nat)"
  by (auto simp: dvd_def)

lemma lpack_ok:
  assumes "8 dvd length src" "pack_maxsz (length src) \<le> 2 ^ 23" "out \<noteq> []" "\<And>n. length (fresh n) = n"
  shows "\<exists>out'. lpack fresh out src = Some (Inr (pack_spec [] (segments src), out'))"
proof -
  let ?m = "pack_maxsz (length src)"
  obtain o1 where o1: "(if length out < ?m then expand_buffer fresh (length out) ?m else Inr out) = Inr o1" "?m \<le> length o1"
    using expand_ok [of "length out" ?m fresh] assms by (cases "length out < ?m") auto
  from sproto_pack_ok [of src "take ?m o1"] assms(1) obtain mem where
    "sproto_pack src (take ?m o1) = Some (length (pack_spec [] (segments src)), mem)"
    "take (length (pack_spec [] (segments src))) mem = pack_spec [] (segments src)"
    using o1(2) pack_size_bound [OF assms(1)] by (auto simp: min.absorb2)
  with o1 pack_size_bound [OF assms(1)] show ?thesis by (simp add: lpack_def Let_def)
qed

lemma unpack_spec_ok:
  assumes "8 dvd length src"
  shows "\<exists>mem. sproto_unpack (pack_spec [] (segments src)) buf = Some (int (length src), mem) \<and> length mem = length buf \<and>
     (length src \<le> length buf \<longrightarrow> take (length src) mem = src)"
proof -
  have "concat (segments src) = src" using pad8_exact [OF assms] by (simp add: concat_segments)
  with unpack_spec [of src buf] show ?thesis by simp
qed

text \<open>
  C38: The Lua functions \<open>pack\<close> and \<open>unpack\<close> round trip, growing their shared buffers as needed: a source whose
  length is a multiple of eight is packed within the space \<open>lpack\<close> reserves and unpacked to itself, as long as
  the reserved space is at most half of \<open>ENCODE_MAXSIZE\<close>. A new buffer has the size asked for.
\<close>

theorem lpack_lunpack:
  assumes "8 dvd length src" "pack_maxsz (length src) \<le> 2 ^ 23" "out1 \<noteq> []" "out2 \<noteq> []"
    "\<And>n. length (fresh n) = n"
  shows "\<exists>packed out1' out2'. lpack fresh out1 src = Some (Inr (packed, out1')) \<and>
     length packed \<le> pack_maxsz (length src) \<and> lunpack fresh out2 packed = Some (Inr (src, out2'))"
proof -
  let ?p = "pack_spec [] (segments src)"
  obtain out1' where "lpack fresh out1 src = Some (Inr (?p, out1'))" using lpack_ok [OF assms(1-3,5)] by blast
  moreover have "\<exists>out2'. lunpack fresh out2 ?p = Some (Inr (src, out2'))"
  proof (cases "length src > length out2")
    case False
    from unpack_spec_ok [OF assms(1), of out2] False show ?thesis by (auto simp: lunpack_def)
  next
    case True
    have "length src \<le> 2 ^ 23" using assms(2) by (simp add: pack_maxsz_def)
    with expand_ok [of "length out2" "length src" fresh] True assms(4,5) obtain o1 where
      o1: "expand_buffer fresh (length out2) (length src) = Inr o1" "length src \<le> length o1" by auto
    from unpack_spec_ok [OF assms(1), of "take (length src) o1"] unpack_spec_ok [OF assms(1), of out2] True o1
    show ?thesis by (auto simp: lunpack_def min.absorb2)
  qed
  ultimately show ?thesis using pack_size_bound [OF assms(1)] by blast
qed

theorem lpack_lunpack_witness:
  "\<exists>packed out1' out2'. lpack (\<lambda>n. replicate n 0) [0] [1, 2, 3, 4, 5, 6, 7, 8] = Some (Inr (packed, out1')) \<and>
     length packed \<le> pack_maxsz (length [1, 2, 3, 4, 5, 6, 7, 8 :: u8]) \<and>
     lunpack (\<lambda>n. replicate n 0) [0] packed = Some (Inr ([1, 2, 3, 4, 5, 6, 7, 8], out2'))"
proof (rule lpack_lunpack)
  show "8 dvd length [1, 2, 3, 4, 5, 6, 7, 8 :: u8]" by code_simp
qed (simp_all add: pack_maxsz_def)

text \<open>
  A stream cut one byte short is not refused: the test \<open>srcsz < 0\<close> in \<open>sproto_unpack\<close> comes one byte late, so
  a mask that announces a byte at the very end makes it read behind the source, while two missing bytes and a
  cut run are refused.
\<close>

theorem unpack_truncated:
  "sproto_unpack [1] buf = None \<and> sproto_unpack [0xff] buf = None \<and>
   sproto_unpack [0xff, 0, 1, 2, 3] buf = Some (- 1, buf)"
proof (intro conjI)
  show "sproto_unpack [1] buf = None"
    by (simp add: sproto_unpack_def unpack_loop.simps unpack_step_def Let_def eval_nat_numeral)
  show "sproto_unpack [0xff] buf = None"
    by (simp add: sproto_unpack_def unpack_loop.simps unpack_step_def Let_def)
  show "sproto_unpack [0xff, 0, 1, 2, 3] buf = Some (- 1, buf)"
    by (simp add: sproto_unpack_def unpack_loop.simps unpack_step_def Let_def)
qed

end
