(* ===== verification/Sproto_Schema.thy ===== *)
theory Sproto_Schema
  imports Sproto_Pack
begin

text \<open>
  The schema side of \<open>src/lualib/sproto/sproto.c\<close>: the memory pool, the import of a compiled schema
  and the queries. A pointer into the bundle is the rest of the bytes from there; a read behind the
  bundle, and a loop that does not end, is \<open>None\<close>, a returned null pointer is \<open>Some None\<close>. A pointer to
  a type is its index in the array of types. \<open>malloc\<close> succeeds.
\<close>

section \<open>The pool\<close>

definition CHUNK_SIZE :: nat where "CHUNK_SIZE = 1000"

text \<open>
  The chain of chunks is the list of their sizes in the order of allocation, so that the \<open>header\<close> of the
  chain is the last; an address is the number of a chunk and an offset into it.
\<close>

record pool =
  pool_chunks :: "nat list"
  pool_current :: "nat option"
  current_used :: nat

definition pool_init :: pool where
  "pool_init = \<lparr>pool_chunks = [], pool_current = None, current_used = 0\<rparr>"

definition pool_release :: "pool \<Rightarrow> nat list" where
  "pool_release p = rev [0..<length (pool_chunks p)]"

definition pool_newchunk :: "nat \<Rightarrow> pool \<Rightarrow> (nat \<times> nat) \<times> pool" where
  "pool_newchunk sz p = ((length (pool_chunks p), 0), p\<lparr>pool_chunks := pool_chunks p @ [sz]\<rparr>)"

definition pool_alloc :: "nat \<Rightarrow> pool \<Rightarrow> (nat \<times> nat) \<times> pool" where
  "pool_alloc sz p =
     (let sz = (sz + 7) div 8 * 8 in
      if sz \<ge> CHUNK_SIZE then pool_newchunk sz p
      else
        let p = (case pool_current p of
            None \<Rightarrow> let (_, p) = pool_newchunk CHUNK_SIZE p in p\<lparr>pool_current := Some (length (pool_chunks p) - 1)\<rparr>
          | Some _ \<Rightarrow> p)
        in if sz + current_used p \<le> CHUNK_SIZE
           then ((the (pool_current p), current_used p), p\<lparr>current_used := current_used p + sz\<rparr>)
           else if sz \<ge> current_used p then pool_newchunk sz p
           else let (ret, p) = pool_newchunk CHUNK_SIZE p
                in (ret, p\<lparr>pool_current := Some (length (pool_chunks p) - 1), current_used := sz\<rparr>))"

section \<open>Data\<close>

definition SPROTO_TARRAY :: int where "SPROTO_TARRAY = 0x80"
definition SPROTO_TINTEGER :: int where "SPROTO_TINTEGER = 0"
definition SPROTO_TBOOLEAN :: int where "SPROTO_TBOOLEAN = 1"
definition SPROTO_TSTRING :: int where "SPROTO_TSTRING = 2"
definition SPROTO_TSTRUCT :: int where "SPROTO_TSTRUCT = 3"
definition SIZEOF_LENGTH :: nat where "SIZEOF_LENGTH = 4"
definition SIZEOF_HEADER :: nat where "SIZEOF_HEADER = 2"
definition SIZEOF_FIELD :: nat where "SIZEOF_FIELD = 2"

lemmas sizeof_defs = SIZEOF_LENGTH_def SIZEOF_HEADER_def SIZEOF_FIELD_def
lemmas sproto_consts = SPROTO_TARRAY_def SPROTO_TINTEGER_def SPROTO_TBOOLEAN_def SPROTO_TSTRING_def SPROTO_TSTRUCT_def

record field =
  f_tag :: int
  f_type :: int
  f_name :: "bytes option"
  f_st :: "nat option"
  f_key :: int

record sproto_type =
  st_name :: "bytes option"
  st_n :: nat
  st_base :: int
  st_maxn :: nat
  st_f :: "field list"

record protocol =
  p_name :: "bytes option"
  p_tag :: int
  p_request :: "nat option"
  p_response :: "nat option"

record sproto =
  memory :: pool
  sp_type :: "sproto_type list"
  sp_proto :: "protocol list"
  type_n :: nat
  protocol_n :: nat

section \<open>Streams\<close>

definition toword :: "bytes \<Rightarrow> nat option" where
  "toword p = (case p of p0 # p1 # _ \<Rightarrow> Some (unat p0 + 256 * unat p1) | _ \<Rightarrow> None)"

definition todword :: "bytes \<Rightarrow> u32 option" where
  "todword p = (case p of p0 # p1 # p2 # p3 # _ \<Rightarrow>
     Some (ucast p0 OR push_bit 8 (ucast p1) OR push_bit 16 (ucast p2) OR push_bit 24 (ucast p3)) | _ \<Rightarrow> None)"

partial_function (option) count_loop :: "u32 \<Rightarrow> int \<Rightarrow> bytes \<Rightarrow> int option" where
  "count_loop len n stream =
     (if len > 0 then
        if len < of_nat SIZEOF_LENGTH then Some (- 1)
        else do {
          nsz \<leftarrow> todword stream;
          let nsz = nsz + of_nat SIZEOF_LENGTH;
          if nsz > len then Some (- 1)
          else count_loop (len - nsz) (n + 1) (drop (unat nsz) stream) }
      else Some n)"

declare count_loop.simps [code]

definition count_array :: "bytes \<Rightarrow> int option" where
  "count_array stream = do { len \<leftarrow> todword stream; count_loop len 0 (drop SIZEOF_LENGTH stream) }"

fun struct_loop :: "nat \<Rightarrow> bytes \<Rightarrow> bytes \<Rightarrow> nat \<Rightarrow> bool option" where
  "struct_loop 0 fld stream sz = Some True"
| "struct_loop (Suc k) fld stream sz = do {
     value \<leftarrow> toword fld;
     let fld = drop SIZEOF_FIELD fld;
     if value \<noteq> 0 then struct_loop k fld stream sz
     else if sz < SIZEOF_LENGTH then Some False
     else do {
       dsz \<leftarrow> todword stream;
       let n = unat (of_nat SIZEOF_LENGTH + dsz);
       if sz < n then Some False
       else struct_loop k fld (drop n stream) (sz - n) } }"

definition struct_field :: "bytes \<Rightarrow> nat \<Rightarrow> int option" where
  "struct_field stream sz =
     (if sz < SIZEOF_LENGTH then Some (- 1)
      else do {
        fn \<leftarrow> toword stream;
        let header = SIZEOF_HEADER + SIZEOF_FIELD * fn;
        if sz < header then Some (- 1)
        else do {
          ok \<leftarrow> struct_loop fn (drop SIZEOF_HEADER stream) (drop header stream) (sz - header);
          Some (if ok then int fn else - 1) } })"

section \<open>Import\<close>

definition import_string :: "sproto \<Rightarrow> bytes \<Rightarrow> (bytes \<times> sproto) option" where
  "import_string s stream = do {
     sz \<leftarrow> todword stream;
     let (_, mem) = pool_alloc (unat (sz + 1)) (memory s);
     buffer \<leftarrow> peek_range stream SIZEOF_LENGTH (unat sz);
     Some (buffer, s\<lparr>memory := mem\<rparr>) }"

record import_state =
  is_s :: sproto
  is_f :: field
  is_array :: int
  is_tag :: int

definition field_step :: "nat \<Rightarrow> bytes \<Rightarrow> import_state \<Rightarrow> import_state option option" where
  "field_step value content st =
     (let st = st\<lparr>is_tag := is_tag st + 1\<rparr>; f = is_f st in
      if odd value then Some (Some (st\<lparr>is_tag := is_tag st + int (value div 2)\<rparr>))
      else if is_tag st = 0 then
        if value \<noteq> 0 then Some None
        else do {
          (name, s) \<leftarrow> import_string (is_s st) content;
          Some (Some (st\<lparr>is_s := s, is_f := f\<lparr>f_name := Some name\<rparr>\<rparr>)) }
      else if value = 0 then Some None
      else
        let value = int (value div 2) - 1 in
        if is_tag st = 1 then
          if value \<ge> SPROTO_TSTRUCT then Some None
          else Some (Some (st\<lparr>is_f := f\<lparr>f_type := value\<rparr>\<rparr>))
        else if is_tag st = 2 then
          if value \<ge> int (type_n (is_s st)) then Some None
          else if f_type f \<ge> 0 then Some None
          else Some (Some (st\<lparr>is_f := f\<lparr>f_type := SPROTO_TSTRUCT, f_st := Some (nat value)\<rparr>\<rparr>))
        else if is_tag st = 3 then Some (Some (st\<lparr>is_f := f\<lparr>f_tag := value\<rparr>\<rparr>))
        else if is_tag st = 4 then Some (Some (if value \<noteq> 0 then st\<lparr>is_array := SPROTO_TARRAY\<rparr> else st))
        else if is_tag st = 5 then Some (Some (st\<lparr>is_f := f\<lparr>f_key := value\<rparr>\<rparr>))
        else Some None)"

fun field_loop :: "nat \<Rightarrow> nat \<Rightarrow> bytes \<Rightarrow> bytes \<Rightarrow> import_state \<Rightarrow> import_state option option" where
  "field_loop 0 i rec content st = Some (Some st)"
| "field_loop (Suc k) i rec content st = do {
     value \<leftarrow> toword (drop (SIZEOF_FIELD * i) rec);
     r \<leftarrow> field_step value content st;
     case r of None \<Rightarrow> Some None | Some st \<Rightarrow> field_loop k (i + 1) rec content st }"

definition import_field :: "sproto \<Rightarrow> bytes \<Rightarrow> (sproto \<times> field \<times> bytes) option option" where
  "import_field s stream = do {
     let f = \<lparr>f_tag = - 1, f_type = - 1, f_name = None, f_st = None, f_key = - 1\<rparr>;
     sz \<leftarrow> todword stream;
     let stream = drop SIZEOF_LENGTH stream;
     let result = drop (unat sz) stream;
     fn \<leftarrow> struct_field stream (unat sz);
     if fn < 0 then Some None
     else do {
       let stream = drop SIZEOF_HEADER stream;
       r \<leftarrow> field_loop (nat fn) 0 stream (drop (nat fn * SIZEOF_FIELD) stream)
              \<lparr>is_s = s, is_f = f, is_array = 0, is_tag = - 1\<rparr>;
       case r of None \<Rightarrow> Some None
       | Some st \<Rightarrow>
           if f_tag (is_f st) < 0 \<or> f_type (is_f st) < 0 \<or> f_name (is_f st) = None then Some None
           else Some (Some (is_s st, (is_f st)\<lparr>f_type := f_type (is_f st) OR is_array st\<rparr>, result)) } }"

fun all_zero_words :: "nat \<Rightarrow> bytes \<Rightarrow> bool option" where
  "all_zero_words 0 p = Some True"
| "all_zero_words (Suc k) p = do {
     v \<leftarrow> toword p;
     if v \<noteq> 0 then Some False else all_zero_words k (drop SIZEOF_FIELD p) }"

fun import_fields :: "nat \<Rightarrow> sproto \<Rightarrow> field list \<Rightarrow> nat \<Rightarrow> int \<Rightarrow> bytes \<Rightarrow> (sproto \<times> field list \<times> nat) option option" where
  "import_fields 0 s fs maxn prev stream = Some (Some (s, fs, maxn))"
| "import_fields (Suc k) s fs maxn prev stream = do {
     r \<leftarrow> import_field s stream;
     case r of None \<Rightarrow> Some None
     | Some (s, f, stream) \<Rightarrow>
         let tag = f_tag f in
         if tag \<le> prev then Some None
         else import_fields k s (fs @ [f]) (if tag > prev + 1 then maxn + 1 else maxn) tag stream }"

definition import_type :: "sproto \<Rightarrow> bytes \<Rightarrow> (sproto \<times> sproto_type \<times> bytes) option option" where
  "import_type s stream = do {
     sz \<leftarrow> todword stream;
     let stream = drop SIZEOF_LENGTH stream;
     let result = drop (unat sz) stream;
     fn \<leftarrow> struct_field stream (unat sz);
     if fn \<le> 0 \<or> fn > 2 then Some None
     else do {
       ok \<leftarrow> all_zero_words (nat fn) (drop SIZEOF_HEADER stream);
       if \<not> ok then Some None
       else do {
         let stream = drop (SIZEOF_HEADER + nat fn * SIZEOF_FIELD) stream;
         (name, s) \<leftarrow> import_string s stream;
         let t = \<lparr>st_name = Some name, st_n = 0, st_base = 0, st_maxn = 0, st_f = []\<rparr>;
         if fn = 1 then Some (Some (s, t, result))
         else do {
           len \<leftarrow> todword stream;
           let stream = drop (unat (len + of_nat SIZEOF_LENGTH)) stream;
           n \<leftarrow> count_array stream;
           if n < 0 then Some None
           else do {
             let stream = drop SIZEOF_LENGTH stream;
             let (_, mem) = pool_alloc (32 * nat n) (memory s);
             r \<leftarrow> import_fields (nat n) (s\<lparr>memory := mem\<rparr>) [] (nat n) (- 1) stream;
             case r of None \<Rightarrow> Some None
             | Some (s, fs, maxn) \<Rightarrow>
                 if fs = [] then None
                 else
                   let base = f_tag (hd fs) in
                   Some (Some (s, t\<lparr>st_n := nat n, st_f := fs, st_maxn := maxn,
                     st_base := (if f_tag (last fs) - base + 1 \<noteq> n then - 1 else base)\<rparr>, result)) } } } } }"

definition protocol_step :: "nat \<Rightarrow> nat \<Rightarrow> bytes \<Rightarrow> nat \<times> sproto \<times> protocol \<Rightarrow> (nat \<times> sproto \<times> protocol) option option" where
  "protocol_step i value content = (\<lambda>(tag, s, p).
     if odd value then Some (Some (tag + (value - 1) div 2, s, p))
     else
       let value = int (value div 2) - 1 in
       if i = 0 then
         if value \<noteq> - 1 then Some None
         else do { (name, s) \<leftarrow> import_string s content; Some (Some (tag, s, p\<lparr>p_name := Some name\<rparr>)) }
       else if i = 1 then
         if value < 0 then Some None else Some (Some (tag, s, p\<lparr>p_tag := value\<rparr>))
       else if i = 2 then
         if value < 0 \<or> value \<ge> int (type_n s) then Some None
         else Some (Some (tag, s, p\<lparr>p_request := Some (nat value)\<rparr>))
       else if i = 3 then
         if value < 0 \<or> value \<ge> int (type_n s) then Some None
         else Some (Some (tag, s, p\<lparr>p_response := Some (nat value)\<rparr>))
       else Some None)"

fun protocol_loop :: "nat \<Rightarrow> nat \<Rightarrow> bytes \<Rightarrow> bytes \<Rightarrow> nat \<times> sproto \<times> protocol \<Rightarrow> (nat \<times> sproto \<times> protocol) option option" where
  "protocol_loop 0 i rec content st = Some (Some st)"
| "protocol_loop (Suc k) i rec content st = do {
     value \<leftarrow> toword (drop (SIZEOF_FIELD * i) rec);
     r \<leftarrow> protocol_step i value content st;
     case r of None \<Rightarrow> Some None
     | Some (tag, s, p) \<Rightarrow> protocol_loop k (i + 1) rec content (tag + 1, s, p) }"

definition import_protocol :: "sproto \<Rightarrow> bytes \<Rightarrow> (sproto \<times> protocol \<times> bytes) option option" where
  "import_protocol s stream = do {
     sz \<leftarrow> todword stream;
     let stream = drop SIZEOF_LENGTH stream;
     let result = drop (unat sz) stream;
     fn \<leftarrow> struct_field stream (unat sz);
     let stream = drop SIZEOF_HEADER stream;
     r \<leftarrow> protocol_loop (nat fn) 0 stream (drop (SIZEOF_FIELD * nat fn) stream)
            (0, s, \<lparr>p_name = None, p_tag = - 1, p_request = None, p_response = None\<rparr>);
     case r of None \<Rightarrow> Some None
     | Some (_, s, p) \<Rightarrow> if p_name p = None \<or> p_tag p < 0 then Some None else Some (Some (s, p, result)) }"

fun import_types :: "nat \<Rightarrow> sproto \<Rightarrow> bytes \<Rightarrow> sproto option option" where
  "import_types 0 s typedata = Some (Some s)"
| "import_types (Suc k) s typedata = do {
     r \<leftarrow> import_type s typedata;
     case r of None \<Rightarrow> Some None
     | Some (s, t, typedata) \<Rightarrow> import_types k (s\<lparr>sp_type := sp_type s @ [t]\<rparr>) typedata }"

fun import_protocols :: "nat \<Rightarrow> sproto \<Rightarrow> bytes \<Rightarrow> sproto option option" where
  "import_protocols 0 s protocoldata = Some (Some s)"
| "import_protocols (Suc k) s protocoldata = do {
     r \<leftarrow> import_protocol s protocoldata;
     case r of None \<Rightarrow> Some None
     | Some (s, p, protocoldata) \<Rightarrow> import_protocols k (s\<lparr>sp_proto := sp_proto s @ [p]\<rparr>) protocoldata }"

text \<open>The first loop of \<open>create_from_bundle\<close>: field 0 holds the types, field 1 the protocols.\<close>

fun bundle_loop :: "nat \<Rightarrow> nat \<Rightarrow> bytes \<Rightarrow> bytes \<Rightarrow> sproto \<times> bytes \<times> bytes \<Rightarrow> (sproto \<times> bytes \<times> bytes) option option" where
  "bundle_loop 0 i rec content st = Some (Some st)"
| "bundle_loop (Suc k) i rec content st = (case st of (s, typedata, protocoldata) \<Rightarrow> do {
     value \<leftarrow> toword (drop (i * SIZEOF_FIELD) rec);
     if value \<noteq> 0 then Some None
     else do {
       n \<leftarrow> count_array content;
       if n < 0 then Some None
       else do {
         let (_, mem) = pool_alloc (nat n * 32) (memory s);
         let s = s\<lparr>memory := mem\<rparr>;
         len \<leftarrow> todword content;
         let next = drop (unat (len + of_nat SIZEOF_LENGTH)) content;
         if i = 0
         then bundle_loop k (i + 1) rec next (s\<lparr>type_n := nat n\<rparr>, drop SIZEOF_LENGTH content, protocoldata)
         else bundle_loop k (i + 1) rec next (s\<lparr>protocol_n := nat n\<rparr>, typedata, drop SIZEOF_LENGTH content) } } })"

definition create_from_bundle :: "sproto \<Rightarrow> bytes \<Rightarrow> sproto option option" where
  "create_from_bundle s stream = do {
     fn \<leftarrow> struct_field stream (length stream);
     if fn < 0 \<or> fn > 2 then Some None
     else do {
       let stream = drop SIZEOF_HEADER stream;
       r \<leftarrow> bundle_loop (nat fn) 0 stream (drop (nat fn * SIZEOF_FIELD) stream) (s, [], []);
       case r of None \<Rightarrow> Some None
       | Some (s, typedata, protocoldata) \<Rightarrow> do {
           r \<leftarrow> import_types (type_n s) s typedata;
           case r of None \<Rightarrow> Some None
           | Some s \<Rightarrow> import_protocols (protocol_n s) s protocoldata } } }"

definition sproto_create :: "bytes \<Rightarrow> sproto option option" where
  "sproto_create proto =
     (let (_, mem) = pool_alloc 48 pool_init
      in create_from_bundle \<lparr>memory = mem, sp_type = [], sp_proto = [], type_n = 0, protocol_n = 0\<rparr> proto)"

definition sproto_release :: "sproto option \<Rightarrow> nat list" where
  "sproto_release s = (case s of None \<Rightarrow> [] | Some s \<Rightarrow> pool_release (memory s))"

section \<open>Queries\<close>

definition strcmp_eq :: "bytes \<Rightarrow> bytes \<Rightarrow> bool" where
  "strcmp_eq a b \<longleftrightarrow> takeWhile (\<lambda>c. c \<noteq> 0) a = takeWhile (\<lambda>c. c \<noteq> 0) b"

fun prototag_loop :: "protocol list \<Rightarrow> bytes \<Rightarrow> int" where
  "prototag_loop [] name = - 1"
| "prototag_loop (p # ps) name = (if strcmp_eq name (the (p_name p)) then p_tag p else prototag_loop ps name)"

definition sproto_prototag :: "sproto \<Rightarrow> bytes \<Rightarrow> int" where
  "sproto_prototag sp name = prototag_loop (take (protocol_n sp) (sp_proto sp)) name"

text \<open>Both searches halve an index range of an array ordered by tags.\<close>

function tag_search :: "(nat \<Rightarrow> int) \<Rightarrow> int \<Rightarrow> nat \<Rightarrow> nat \<Rightarrow> nat option" where
  "tag_search tag_at tag b e =
     (if b < e then
        let mid = (b + e) div 2; t = tag_at mid in
        if t = tag then Some mid
        else if tag > t then tag_search tag_at tag (mid + 1) e
        else tag_search tag_at tag b mid
      else None)"
  by pat_completeness auto
termination by (relation "measure (\<lambda>(tag_at, tag, b, e). e - b)") auto

declare tag_search.simps [simp del]

definition query_proto :: "sproto \<Rightarrow> int \<Rightarrow> protocol option" where
  "query_proto sp tag = map_option (\<lambda>i. sp_proto sp ! i) (tag_search (\<lambda>i. p_tag (sp_proto sp ! i)) tag 0 (protocol_n sp))"

definition sproto_protoquery :: "sproto \<Rightarrow> int \<Rightarrow> int \<Rightarrow> nat option" where
  "sproto_protoquery sp proto what =
     (if what < 0 \<or> what > 1 then None
      else case query_proto sp proto of None \<Rightarrow> None | Some p \<Rightarrow> if what = 0 then p_request p else p_response p)"

definition sproto_protoname :: "sproto \<Rightarrow> int \<Rightarrow> bytes option" where
  "sproto_protoname sp proto = (case query_proto sp proto of None \<Rightarrow> None | Some p \<Rightarrow> p_name p)"

fun type_loop :: "nat \<Rightarrow> sproto_type list \<Rightarrow> bytes \<Rightarrow> nat option" where
  "type_loop i [] name = None"
| "type_loop i (t # ts) name = (if strcmp_eq name (the (st_name t)) then Some i else type_loop (i + 1) ts name)"

definition sproto_type_query :: "sproto \<Rightarrow> bytes \<Rightarrow> nat option" where
  "sproto_type_query sp type_name = type_loop 0 (take (type_n sp) (sp_type sp)) type_name"

definition sproto_name :: "sproto_type \<Rightarrow> bytes option" where
  "sproto_name st = st_name st"

definition findtag :: "sproto_type \<Rightarrow> int \<Rightarrow> field option" where
  "findtag st tag =
     (if st_base st \<ge> 0 then
        let tag = tag - st_base st in
        if tag < 0 \<or> tag \<ge> int (st_n st) then None else Some (st_f st ! nat tag)
      else map_option (\<lambda>i. st_f st ! i) (tag_search (\<lambda>i. f_tag (st_f st ! i)) tag 0 (st_n st)))"

section \<open>The pool hands out disjoint memory\<close>

type_synonym region = "(nat \<times> nat) \<times> nat"

definition apart :: "region \<Rightarrow> region \<Rightarrow> bool" where
  "apart r r' \<longleftrightarrow> (case (r, r') of (((c, a), n), ((c', a'), n')) \<Rightarrow> c \<noteq> c' \<or> a + n \<le> a' \<or> a' + n' \<le> a)"

definition round8 :: "nat \<Rightarrow> nat" where
  "round8 sz = (sz + 7) div 8 * 8"

fun alloc_all :: "nat list \<Rightarrow> pool \<Rightarrow> region list \<times> pool" where
  "alloc_all [] p = ([], p)"
| "alloc_all (sz # szs) p =
     (let (a, p) = pool_alloc sz p; (rs, p) = alloc_all szs p in ((a, round8 sz) # rs, p))"

definition in_pool :: "pool \<Rightarrow> region \<Rightarrow> bool" where
  "in_pool p r \<longleftrightarrow> (case r of ((c, a), n) \<Rightarrow> c < length (pool_chunks p) \<and> 8 dvd a \<and> a + n \<le> pool_chunks p ! c)"

definition pool_inv :: "pool \<Rightarrow> region set \<Rightarrow> bool" where
  "pool_inv p R \<longleftrightarrow> (\<forall>r\<in>R. in_pool p r) \<and> 8 dvd current_used p \<and>
     (case pool_current p of None \<Rightarrow> current_used p = 0
      | Some c \<Rightarrow> c < length (pool_chunks p) \<and> pool_chunks p ! c = CHUNK_SIZE \<and> current_used p \<le> CHUNK_SIZE \<and>
          (\<forall>((c', a), n)\<in>R. c' = c \<longrightarrow> a + n \<le> current_used p))"

lemma in_pool_grow: "in_pool p r \<Longrightarrow> pool_chunks p' = pool_chunks p @ cs \<Longrightarrow> in_pool p' r"
  by (auto simp: in_pool_def nth_append)

lemma round8_dvd [simp]: "8 dvd round8 sz" "sz \<le> round8 sz"
  unfolding round8_def using div_mod_decomp [of "sz + 7" 8] by (auto simp: dvd_mult2)

lemma newchunk_ok:
  assumes "pool_inv p R" "pool_newchunk (round8 sz) p = (a, p')"
  shows "pool_inv p' (insert (a, round8 sz) R)" "\<forall>r\<in>R. apart (a, round8 sz) r"
    "\<exists>cs. pool_chunks p' = pool_chunks p @ cs"
  using assms by (auto simp: pool_newchunk_def pool_inv_def in_pool_def apart_def nth_append split: option.splits)

lemma pool_alloc_ok:
  assumes inv: "pool_inv p R" and al: "pool_alloc sz p = (a, p')"
  shows "pool_inv p' (insert (a, round8 sz) R) \<and> (\<forall>r\<in>R. apart (a, round8 sz) r) \<and> (\<exists>cs. pool_chunks p' = pool_chunks p @ cs)"
proof (cases "round8 sz \<ge> CHUNK_SIZE")
  case True
  with al have "pool_newchunk (round8 sz) p = (a, p')" by (simp add: pool_alloc_def round8_def)
  with newchunk_ok [OF inv] show ?thesis by blast
next
  case small: False
  define q where "q = (case pool_current p of
      None \<Rightarrow> p\<lparr>pool_chunks := pool_chunks p @ [CHUNK_SIZE], pool_current := Some (length (pool_chunks p))\<rparr> | Some _ \<Rightarrow> p)"
  have q: "pool_inv q R" "\<exists>cs. pool_chunks q = pool_chunks p @ cs"
    using inv by (auto simp: q_def pool_inv_def in_pool_def CHUNK_SIZE_def nth_append split: option.splits)
  obtain c where c: "pool_current q = Some c" by (cases "pool_current p") (auto simp: q_def)
  have qi: "c < length (pool_chunks q)" "pool_chunks q ! c = CHUNK_SIZE" "current_used q \<le> CHUNK_SIZE" "8 dvd current_used q"
    "\<forall>((c', a), n)\<in>R. c' = c \<longrightarrow> a + n \<le> current_used q" "\<forall>r\<in>R. in_pool q r"
    using q(1) c by (auto simp: pool_inv_def)
  have al': "(if round8 sz + current_used q \<le> CHUNK_SIZE
       then ((c, current_used q), q\<lparr>current_used := current_used q + round8 sz\<rparr>)
       else if round8 sz \<ge> current_used q then pool_newchunk (round8 sz) q
       else ((length (pool_chunks q), 0), q\<lparr>pool_chunks := pool_chunks q @ [CHUNK_SIZE],
          pool_current := Some (length (pool_chunks q)), current_used := round8 sz\<rparr>)) = (a, p')"
    using al small c unfolding pool_alloc_def q_def round8_def [symmetric]
    by (cases "pool_current p") (auto simp: pool_newchunk_def Let_def)
  consider (fits) "round8 sz + current_used q \<le> CHUNK_SIZE"
    | (own) "\<not> round8 sz + current_used q \<le> CHUNK_SIZE" "round8 sz \<ge> current_used q"
    | (fresh) "\<not> round8 sz + current_used q \<le> CHUNK_SIZE" "\<not> round8 sz \<ge> current_used q" by blast
  then have "pool_inv p' (insert (a, round8 sz) R) \<and> (\<forall>r\<in>R. apart (a, round8 sz) r) \<and> (\<exists>cs. pool_chunks p' = pool_chunks q @ cs)"
  proof cases
    case fits
    then have "a = (c, current_used q)" "p' = q\<lparr>current_used := current_used q + round8 sz\<rparr>" using al' by auto
    moreover have "\<forall>r\<in>R. apart ((c, current_used q), round8 sz) r" using qi(5) by (fastforce simp: apart_def)
    ultimately show ?thesis using fits qi c by (fastforce simp: pool_inv_def in_pool_def)
  next
    case own
    then have "pool_newchunk (round8 sz) q = (a, p')" using al' by auto
    with newchunk_ok [OF q(1)] show ?thesis by blast
  next
    case fresh
    then have a: "a = (length (pool_chunks q), 0)" "p' = q\<lparr>pool_chunks := pool_chunks q @ [CHUNK_SIZE],
      pool_current := Some (length (pool_chunks q)), current_used := round8 sz\<rparr>" using al' by auto
    have "\<forall>((c', a'), n)\<in>R. c' < length (pool_chunks q)" using qi(6) by (auto simp: in_pool_def)
    then have "\<forall>r\<in>R. apart (a, round8 sz) r" "\<forall>((c', a'), n)\<in>R. c' \<noteq> length (pool_chunks q)"
      by (fastforce simp: a apart_def)+
    moreover have "\<forall>r\<in>R. in_pool p' r" using qi(6) in_pool_grow a(2) by fastforce
    ultimately show ?thesis using small by (fastforce simp: a pool_inv_def in_pool_def nth_append)
  qed
  with q(2) show ?thesis by auto
qed

lemma alloc_all_ok:
  "pool_inv p R \<Longrightarrow> alloc_all szs p = (rs, p') \<Longrightarrow>
     pool_inv p' (set rs \<union> R) \<and> sorted_wrt apart rs \<and> (\<forall>r\<in>set rs. \<forall>r'\<in>R. apart r r')"
proof (induction szs arbitrary: p R rs)
  case (Cons sz szs)
  obtain a q where a: "pool_alloc sz p = (a, q)" by (cases "pool_alloc sz p")
  obtain ts where ts: "alloc_all szs q = (ts, p')" "rs = (a, round8 sz) # ts"
    using Cons.prems(2) a by (auto simp: Let_def split: prod.splits)
  note st = pool_alloc_ok [OF Cons.prems(1) a]
  have sym: "apart x y \<Longrightarrow> apart y x" for x y by (auto simp: apart_def)
  from Cons.IH [OF conjunct1 [OF st] ts(1)] st show ?case by (auto simp: ts(2) intro: sym)
qed simp

text \<open>
  The memory pool of a schema is safe: any sequence of allocations from a new pool yields pairwise
  disjoint blocks, each aligned to eight bytes and inside the chunk it was cut from, and releasing the pool
  frees every chunk exactly once.
\<close>

theorem pool_blocks_disjoint:
  assumes "alloc_all szs pool_init = (blocks, p)"
  shows "sorted_wrt apart blocks \<and> (\<forall>r\<in>set blocks. in_pool p r) \<and>
     distinct (pool_release p) \<and> set (pool_release p) = {..<length (pool_chunks p)}"
proof -
  have "pool_inv pool_init {}" by (simp add: pool_inv_def pool_init_def)
  from alloc_all_ok [OF this assms] show ?thesis by (auto simp: pool_inv_def pool_release_def)
qed

theorem pool_blocks_disjoint_witness:
  "let (blocks, p) = alloc_all [48, 700, 1200, 500, 3] pool_init in
     sorted_wrt apart blocks \<and> (\<forall>r\<in>set blocks. in_pool p r) \<and>
     distinct (pool_release p) \<and> set (pool_release p) = {..<length (pool_chunks p)}"
  using pool_blocks_disjoint [of "[48, 700, 1200, 500, 3]"] by (cases "alloc_all [48, 700, 1200, 500, 3] pool_init") simp

section \<open>Search by tag\<close>

lemma tag_search_sound: "tag_search f tag b e = Some i \<Longrightarrow> b \<le> i \<and> i < e \<and> f i = tag"
proof (induction f tag b e rule: tag_search.induct)
  case (1 f tag b e)
  then show ?case by (subst (asm) (3) tag_search.simps) (fastforce simp: Let_def split: if_splits)
qed

lemma tag_search_complete:
  "\<forall>j k. b \<le> j \<and> j < k \<and> k < e \<longrightarrow> f j < f k \<Longrightarrow> b \<le> i \<Longrightarrow> i < e \<Longrightarrow> f i = tag \<Longrightarrow> tag_search f tag b e = Some i"
proof (induction f tag b e rule: tag_search.induct)
  case (1 f tag b e)
  let ?m = "(b + e) div 2"
  have be: "b < e" "b \<le> ?m" "?m < e" using "1.prems" by auto
  consider "i < ?m" "f i < f ?m" | "i = ?m" | "?m < i" "f ?m < f i" using "1.prems" be by (metis nat_neq_iff)
  then show ?case
  proof cases
    case 1
    then have "tag_search f tag b ?m = Some i" using "1.IH"(2) [OF be(1) refl refl] "1.prems" be by fastforce
    with 1 be "1.prems"(4) show ?thesis by (subst tag_search.simps) (simp add: Let_def)
  next
    case 2
    with be "1.prems"(4) show ?thesis by (subst tag_search.simps) (simp add: Let_def)
  next
    case 3
    then have "tag_search f tag (?m + 1) e = Some i" using "1.IH"(1) [OF be(1) refl refl] "1.prems" be by fastforce
    with 3 be "1.prems"(4) show ?thesis by (subst tag_search.simps) (simp add: Let_def)
  qed
qed

section \<open>Imported types are well-formed\<close>

fun gaps :: "int \<Rightarrow> int list \<Rightarrow> nat" where
  "gaps prev [] = 0"
| "gaps prev (t # ts) = (if t > prev + 1 then 1 else 0) + gaps t ts"

definition field_ok :: "nat \<Rightarrow> field \<Rightarrow> bool" where
  "field_ok tn f \<longleftrightarrow> f_tag f \<ge> 0 \<and> f_name f \<noteq> None \<and>
     (f_type f \<in> {0, 1, 2, 0x80, 0x81, 0x82} \<and> f_st f = None \<or>
      f_type f \<in> {3, 0x83} \<and> (\<exists>k<tn. f_st f = Some k))"

definition type_wf :: "nat \<Rightarrow> sproto_type \<Rightarrow> bool" where
  "type_wf tn t \<longleftrightarrow> st_n t = length (st_f t) \<and> sorted_wrt (<) (map f_tag (st_f t)) \<and>
     list_all (field_ok tn) (st_f t) \<and>
     (st_base t \<ge> 0 \<longrightarrow> (\<forall>i<length (st_f t). f_tag (st_f t ! i) = st_base t + int i)) \<and>
     st_maxn t = st_n t + gaps (- 1) (map f_tag (st_f t))"

definition proto_ok :: "nat \<Rightarrow> protocol \<Rightarrow> bool" where
  "proto_ok tn p \<longleftrightarrow> p_name p \<noteq> None \<and> p_tag p \<ge> 0 \<and> (\<forall>k. p_request p = Some k \<longrightarrow> k < tn) \<and>
     (\<forall>k. p_response p = Some k \<longrightarrow> k < tn)"

lemma import_string_keeps:
  "import_string s stream = Some (name, s') \<Longrightarrow>
     type_n s' = type_n s \<and> protocol_n s' = protocol_n s \<and> sp_type s' = sp_type s \<and> sp_proto s' = sp_proto s"
  by (auto simp: import_string_def split: Option.bind_splits prod.splits)

definition same_schema :: "sproto \<Rightarrow> sproto \<Rightarrow> bool" where
  "same_schema s s' \<longleftrightarrow> type_n s' = type_n s \<and> protocol_n s' = protocol_n s \<and> sp_type s' = sp_type s \<and> sp_proto s' = sp_proto s"

definition fl_inv :: "sproto \<Rightarrow> import_state \<Rightarrow> bool" where
  "fl_inv s st \<longleftrightarrow> same_schema s (is_s st) \<and> is_array st \<in> {0, 0x80} \<and>
     (f_type (is_f st) \<in> {-1, 0, 1, 2} \<and> f_st (is_f st) = None \<or>
      f_type (is_f st) = 3 \<and> (\<exists>k<type_n s. f_st (is_f st) = Some k) \<and> 2 \<le> is_tag st)"

lemma field_step_inv: "field_step value content st = Some (Some st') \<Longrightarrow> fl_inv s st \<Longrightarrow> fl_inv s st'"
proof -
  assume r: "field_step value content st = Some (Some st')" and inv: "fl_inv s st"
  let ?t = "is_tag st + 1" and ?v = "int (value div 2) - 1"
  consider (skip) "odd value" | (name) "even value" "?t = 0" | (type) "even value" "value \<noteq> 0" "?t = 1"
    | (st) "even value" "value \<noteq> 0" "?t = 2" | (other) "even value" "value \<noteq> 0" "?t \<notin> {0, 1, 2}"
    | (bad) "even value" "value = 0" "?t \<noteq> 0" by blast
  then show ?thesis
  proof cases
    case skip
    with r inv show ?thesis by (auto simp: field_step_def Let_def fl_inv_def)
  next
    case name
    then obtain nm s1 where n: "import_string (is_s st) content = Some (nm, s1)"
      "st' = st\<lparr>is_tag := 0, is_s := s1, is_f := (is_f st)\<lparr>f_name := Some nm\<rparr>\<rparr>"
      using r by (auto simp: field_step_def Let_def split: if_splits Option.bind_splits)
    with import_string_keeps [OF n(1)] inv name show ?thesis by (auto simp: fl_inv_def same_schema_def)
  next
    case type
    then have "st' = st\<lparr>is_tag := 1, is_f := (is_f st)\<lparr>f_type := ?v\<rparr>\<rparr>" "?v < 3" "0 \<le> ?v"
      using r by (auto simp: field_step_def Let_def sproto_consts split: if_splits)
    moreover from this have "?v = 0 \<or> ?v = 1 \<or> ?v = 2" by linarith
    ultimately show ?thesis using inv type by (auto simp: fl_inv_def)
  next
    case st
    then have "st' = st\<lparr>is_tag := 2, is_f := (is_f st)\<lparr>f_type := 3, f_st := Some (nat ?v)\<rparr>\<rparr>" "?v < int (type_n (is_s st))" "0 \<le> ?v"
      using r by (auto simp: field_step_def Let_def sproto_consts split: if_splits)
    with inv st show ?thesis by (auto simp: fl_inv_def same_schema_def)
  next
    case other
    then have "st' = st\<lparr>is_tag := ?t, is_f := (is_f st)\<lparr>f_tag := ?v\<rparr>\<rparr> \<or> st' = st\<lparr>is_tag := ?t, is_array := 0x80\<rparr> \<or>
        st' = st\<lparr>is_tag := ?t\<rparr> \<or> st' = st\<lparr>is_tag := ?t, is_f := (is_f st)\<lparr>f_key := ?v\<rparr>\<rparr>"
      using r by (auto simp: field_step_def Let_def sproto_consts split: if_splits)
    with inv show ?thesis by (auto simp: fl_inv_def)
  next
    case bad
    with r show ?thesis by (simp add: field_step_def Let_def)
  qed
qed

lemma field_loop_inv:
  "field_loop k i rec content st = Some (Some st') \<Longrightarrow> fl_inv s st \<Longrightarrow> fl_inv s st'"
proof (induction k i rec content st rule: field_loop.induct)
  case (2 k i rec content st)
  then show ?case using field_step_inv by (fastforce split: Option.bind_splits option.splits)
qed simp

lemma import_field_ok:
  assumes "import_field s stream = Some (Some (s', f, rest))"
  shows "same_schema s s' \<and> field_ok (type_n s) f"
proof -
  have i: "fl_inv s \<lparr>is_s = s, is_f = \<lparr>f_tag = - 1, f_type = - 1, f_name = None, f_st = None, f_key = - 1\<rparr>, is_array = 0, is_tag = - 1\<rparr>"
    by (simp add: fl_inv_def same_schema_def)
  from assms obtain k stream' content st where
    st: "field_loop k 0 stream' content \<lparr>is_s = s, is_f = \<lparr>f_tag = - 1, f_type = - 1, f_name = None, f_st = None, f_key = - 1\<rparr>,
        is_array = 0, is_tag = - 1\<rparr> = Some (Some st)" "\<not> (f_tag (is_f st) < 0 \<or> f_type (is_f st) < 0 \<or> f_name (is_f st) = None)"
      "s' = is_s st" "f = (is_f st)\<lparr>f_type := f_type (is_f st) OR is_array st\<rparr>"
    unfolding import_field_def Let_def by (auto split: Option.bind_splits if_splits option.splits)
  from field_loop_inv [OF st(1) i] st(2-) show ?thesis
    by (auto simp: fl_inv_def field_ok_def not_less)
qed

lemma import_fields_ok:
  "import_fields k s fs maxn prev stream = Some (Some (s', fs', maxn')) \<Longrightarrow>
     \<exists>new. fs' = fs @ new \<and> length new = k \<and> same_schema s s' \<and> list_all (field_ok (type_n s)) new \<and>
       sorted_wrt (<) (map f_tag new) \<and> (\<forall>f\<in>set new. prev < f_tag f) \<and> maxn' = maxn + gaps prev (map f_tag new)"
proof (induction k s fs maxn prev stream rule: import_fields.induct)
  case (1 s fs maxn prev stream)
  then show ?case by (simp add: same_schema_def)
next
  case (2 k s fs maxn prev stream)
  from "2.prems" obtain s1 f rest where r: "import_field s stream = Some (Some (s1, f, rest))" "\<not> f_tag f \<le> prev"
    "import_fields k s1 (fs @ [f]) (if f_tag f > prev + 1 then maxn + 1 else maxn) (f_tag f) rest = Some (Some (s', fs', maxn'))"
    by (auto simp: Let_def split: Option.bind_splits option.splits if_splits)
  from "2.IH" [OF r(1) refl refl refl refl] r(2,3) obtain new where
    "fs' = (fs @ [f]) @ new" "length new = k" "same_schema s1 s'" "list_all (field_ok (type_n s1)) new"
    "sorted_wrt (<) (map f_tag new)" "\<forall>g\<in>set new. f_tag f < f_tag g"
    "maxn' = (if f_tag f > prev + 1 then maxn + 1 else maxn) + gaps (f_tag f) (map f_tag new)" by auto
  with import_field_ok [OF r(1)] r(2) show ?case
    by (intro exI [of _ "f # new"]) (auto simp: same_schema_def)
qed

lemma strict_contiguous:
  assumes "sorted_wrt (<) (xs :: int list)" "xs \<noteq> []" "last xs - hd xs + 1 = int (length xs)" "i < length xs"
  shows "xs ! i = hd xs + int i"
proof -
  have step: "xs ! a + int b \<le> xs ! (a + b)" if "a + b < length xs" for a b
    using that
  proof (induction b)
    case (Suc b)
    then have "xs ! (a + b) < xs ! (a + Suc b)" using assms(1) by (simp add: sorted_wrt_iff_nth_less)
    with Suc show ?case by simp
  qed simp
  from step [of 0 i] assms(4) have "hd xs + int i \<le> xs ! i" by (simp add: hd_conv_nth assms(2))
  moreover from step [of i "length xs - 1 - i"] assms(4) have "xs ! i + int (length xs - 1 - i) \<le> last xs"
    by (simp add: last_conv_nth assms(2))
  ultimately show ?thesis using assms(3,4) by simp
qed

lemma import_type_ok:
  assumes "import_type s stream = Some (Some (s', t, rest))"
  shows "same_schema s s' \<and> type_wf (type_n s) t"
proof -
  from assms consider (empty) s1 name stream' where "import_string s stream' = Some (name, s1)" "s' = s1"
      "t = \<lparr>st_name = Some name, st_n = 0, st_base = 0, st_maxn = 0, st_f = []\<rparr>"
    | (fields) s1 name stream' stream'' n mem fs maxn where "import_string s stream' = Some (name, s1)" "0 \<le> n"
      "import_fields (nat n) (s1\<lparr>memory := mem\<rparr>) [] (nat n) (- 1) stream'' = Some (Some (s', fs, maxn))" "fs \<noteq> []"
      "\<exists>base. t = \<lparr>st_name = Some name, st_n = nat n, st_base = base, st_maxn = maxn, st_f = fs\<rparr> \<and>
         (base = - 1 \<or> base = f_tag (hd fs) \<and> f_tag (last fs) - f_tag (hd fs) + 1 = n)"
    unfolding import_type_def Let_def by (auto simp: not_less split: Option.bind_splits option.splits if_splits prod.splits)
  then show ?thesis
  proof cases
    case empty
    with import_string_keeps [OF empty(1)] show ?thesis by (simp add: type_wf_def same_schema_def)
  next
    case fields
    have keep: "same_schema s s1" using import_string_keeps [OF fields(1)] by (simp add: same_schema_def)
    from import_fields_ok [OF fields(3)] have fs: "length fs = nat n" "same_schema (s1\<lparr>memory := mem\<rparr>) s'"
      "list_all (field_ok (type_n s)) fs" "sorted_wrt (<) (map f_tag fs)" "maxn = nat n + gaps (- 1) (map f_tag fs)"
      using keep by (auto simp: same_schema_def)
    have "f_tag (fs ! i) = f_tag (hd fs) + int i" if "f_tag (last fs) - f_tag (hd fs) + 1 = n" "i < length fs" for i
      using strict_contiguous [OF fs(4), of i] fs(1) fields(2,4) that by (simp add: last_map hd_map)
    with fs fields keep show ?thesis by (auto simp: type_wf_def same_schema_def)
  qed
qed

lemma protocol_loop_ok:
  "protocol_loop k i rec content (tag, s, p) = Some (Some (tag', s', p')) \<Longrightarrow>
   (\<forall>k. p_request p = Some k \<longrightarrow> k < type_n s) \<and> (\<forall>k. p_response p = Some k \<longrightarrow> k < type_n s) \<Longrightarrow>
     same_schema s s' \<and> (\<forall>k. p_request p' = Some k \<longrightarrow> k < type_n s) \<and> (\<forall>k. p_response p' = Some k \<longrightarrow> k < type_n s)"
proof (induction k arbitrary: i tag s p)
  case 0
  then show ?case by (simp add: same_schema_def)
next
  case (Suc k)
  from Suc.prems(1) obtain v tag1 s1 p1 where
    r: "protocol_step i v content (tag, s, p) = Some (Some (tag1, s1, p1))"
      "protocol_loop k (i + 1) rec content (tag1 + 1, s1, p1) = Some (Some (tag', s', p'))"
    by (auto split: Option.bind_splits option.splits)
  have "same_schema s s1 \<and> (\<forall>k. p_request p1 = Some k \<longrightarrow> k < type_n s) \<and> (\<forall>k. p_response p1 = Some k \<longrightarrow> k < type_n s)"
    using r(1) Suc.prems(2) import_string_keeps
    by (auto simp: protocol_step_def Let_def same_schema_def split: if_splits Option.bind_splits)
  with Suc.IH [OF r(2)] show ?case by (auto simp: same_schema_def)
qed

lemma import_protocol_ok:
  assumes "import_protocol s stream = Some (Some (s', p, rest))"
  shows "same_schema s s' \<and> proto_ok (type_n s) p"
proof -
  from assms obtain k stream' content tag where
    r: "protocol_loop k 0 stream' content (0, s, \<lparr>p_name = None, p_tag = - 1, p_request = None, p_response = None\<rparr>) =
        Some (Some (tag, s', p))" "p_name p \<noteq> None" "\<not> p_tag p < 0"
    unfolding import_protocol_def Let_def by (auto split: Option.bind_splits option.splits if_splits)
  from protocol_loop_ok [OF r(1)] r(2,3) show ?thesis by (auto simp: proto_ok_def not_less)
qed

lemma import_types_ok:
  "import_types k s typedata = Some (Some s') \<Longrightarrow>
     type_n s' = type_n s \<and> protocol_n s' = protocol_n s \<and> sp_proto s' = sp_proto s \<and>
     (\<exists>ts. sp_type s' = sp_type s @ ts \<and> length ts = k \<and> list_all (type_wf (type_n s)) ts)"
proof (induction k arbitrary: s typedata)
  case (Suc k)
  from Suc.prems obtain s1 t rest where r: "import_type s typedata = Some (Some (s1, t, rest))"
    "import_types k (s1\<lparr>sp_type := sp_type s1 @ [t]\<rparr>) rest = Some (Some s')"
    by (auto split: Option.bind_splits option.splits)
  from Suc.IH [OF r(2)] import_type_ok [OF r(1)] show ?case by (auto simp: same_schema_def)
qed auto

lemma import_protocols_ok:
  "import_protocols k s protocoldata = Some (Some s') \<Longrightarrow>
     type_n s' = type_n s \<and> protocol_n s' = protocol_n s \<and> sp_type s' = sp_type s \<and>
     (\<exists>ps. sp_proto s' = sp_proto s @ ps \<and> length ps = k \<and> list_all (proto_ok (type_n s)) ps)"
proof (induction k arbitrary: s protocoldata)
  case (Suc k)
  from Suc.prems obtain s1 p rest where r: "import_protocol s protocoldata = Some (Some (s1, p, rest))"
    "import_protocols k (s1\<lparr>sp_proto := sp_proto s1 @ [p]\<rparr>) rest = Some (Some s')"
    by (auto split: Option.bind_splits option.splits)
  from Suc.IH [OF r(2)] import_protocol_ok [OF r(1)] show ?case by (auto simp: same_schema_def)
qed auto

lemma bundle_loop_keeps:
  "bundle_loop k i rec content (s, td, pd) = Some (Some (s', td', pd')) \<Longrightarrow> sp_type s' = sp_type s \<and> sp_proto s' = sp_proto s"
proof (induction k arbitrary: i content s td pd)
  case (Suc k)
  from Suc.prems obtain c s1 td1 pd1 where "bundle_loop k (i + 1) rec c (s1, td1, pd1) = Some (Some (s', td', pd'))"
    "sp_type s1 = sp_type s" "sp_proto s1 = sp_proto s"
    by (fastforce simp: Let_def split: Option.bind_splits if_splits prod.splits)
  with Suc.IH show ?case by fastforce
qed simp

lemma sproto_create_ok:
  assumes "sproto_create proto = Some (Some sp)"
  shows "length (sp_type sp) = type_n sp \<and> length (sp_proto sp) = protocol_n sp \<and>
     list_all (type_wf (type_n sp)) (sp_type sp) \<and> list_all (proto_ok (type_n sp)) (sp_proto sp)"
proof -
  from assms obtain mem k rec content s td pd s1 where
    b: "bundle_loop k 0 rec content (\<lparr>memory = mem, sp_type = [], sp_proto = [], type_n = 0, protocol_n = 0\<rparr>, [], []) =
        Some (Some (s, td, pd))"
    and t: "import_types (type_n s) s td = Some (Some s1)" and p: "import_protocols (protocol_n s1) s1 pd = Some (Some sp)"
    unfolding sproto_create_def create_from_bundle_def Let_def
    by (auto split: prod.splits Option.bind_splits option.splits if_splits)
  from bundle_loop_keeps [OF b] import_types_ok [OF t] import_protocols_ok [OF p] show ?thesis by auto
qed

text \<open>A field lookup finds the field of that tag, by index or by bisection.\<close>

lemma find_nth: "distinct (map g fs) \<Longrightarrow> i < length fs \<Longrightarrow> List.find (\<lambda>f. g f = g (fs ! i)) fs = Some (fs ! i)"
  by (induction fs arbitrary: i) (auto simp: nth_Cons' split: if_splits)

lemma find_tag_None: "(\<forall>i<length fs. g (fs ! i) \<noteq> tag) \<Longrightarrow> List.find (\<lambda>f. g f = tag) fs = None"
  by (auto simp: find_None_iff in_set_conv_nth)

lemma tag_search_find:
  assumes "sorted_wrt (<) (map g fs)"
  shows "map_option ((!) fs) (tag_search (\<lambda>i. g (fs ! i)) tag 0 (length fs)) = List.find (\<lambda>f. g f = (tag :: int)) fs"
proof (cases "\<exists>i<length fs. g (fs ! i) = tag")
  case True
  then obtain i where i: "i < length fs" "g (fs ! i) = tag" by blast
  have "tag_search (\<lambda>i. g (fs ! i)) tag 0 (length fs) = Some i"
    by (rule tag_search_complete) (use assms i in \<open>auto simp: sorted_wrt_iff_nth_less\<close>)
  moreover have "distinct (map g fs)" using assms strict_sorted_iff by blast
  ultimately show ?thesis using find_nth [of g fs i] i by simp
next
  case False
  then have "tag_search (\<lambda>i. g (fs ! i)) tag 0 (length fs) = None"
    using tag_search_sound by (metis option.exhaust)
  with False show ?thesis by (simp add: find_tag_None)
qed

lemma findtag_find:
  assumes "type_wf tn t"
  shows "findtag t tag = List.find (\<lambda>f. f_tag f = tag) (st_f t)"
proof (cases "st_base t \<ge> 0")
  case False
  with assms show ?thesis by (simp add: findtag_def type_wf_def tag_search_find)
next
  case True
  with assms have c: "\<And>i. i < length (st_f t) \<Longrightarrow> f_tag (st_f t ! i) = st_base t + int i" "st_n t = length (st_f t)"
    "distinct (map f_tag (st_f t))" using strict_sorted_iff by (auto simp: type_wf_def)
  show ?thesis
  proof (cases "st_base t \<le> tag \<and> tag < st_base t + int (length (st_f t))")
    case in_range: True
    let ?i = "nat (tag - st_base t)"
    have "?i < length (st_f t)" "f_tag (st_f t ! ?i) = tag" using in_range c(1) [of ?i] by auto
    with find_nth [OF c(3)] in_range True c(2) show ?thesis by (fastforce simp: findtag_def Let_def)
  next
    case False
    then have "List.find (\<lambda>f. f_tag f = tag) (st_f t) = None" using c(1) by (intro find_tag_None) auto
    with False True c(2) show ?thesis by (auto simp: findtag_def Let_def)
  qed
qed

text \<open>A bundle with the type \<open>t {a 0 : integer, s 2 : string}\<close> and the protocol \<open>p 0 {request t}\<close>.\<close>

definition demo_bundle :: bytes where
  "demo_bundle = [2, 0, 0, 0, 0, 0, 57, 0, 0, 0, 53, 0, 0, 0, 2, 0, 0, 0, 0, 0, 1, 0, 0, 0, 116, 38, 0, 0, 0, 15, 0, 0,
     0, 4, 0, 0, 0, 2, 0, 1, 0, 2, 0, 1, 0, 0, 0, 97, 15, 0, 0, 0, 4, 0, 0, 0, 6, 0, 1, 0, 6, 0, 1, 0, 0, 0, 115,
     17, 0, 0, 0, 13, 0, 0, 0, 3, 0, 0, 0, 2, 0, 2, 0, 1, 0, 0, 0, 112]"

lemma demo_imports: "\<exists>sp. sproto_create demo_bundle = Some (Some sp) \<and> map p_tag (sp_proto sp) = [0]"
proof -
  have "map_option (map_option (map p_tag \<circ> sp_proto)) (sproto_create demo_bundle) = Some (Some [0])" by code_simp
  then show ?thesis by auto
qed

text \<open>
  C39: Every schema \<open>sproto_create\<close> accepts is well-formed: as many types and protocols as counted, the fields of
  a type in strictly ascending non-negative tags, \<open>base\<close> set only when the tags are contiguous, \<open>maxn\<close> large enough
  for one header entry per field and per gap, every type index in range.
\<close>

theorem imported_schema_wf:
  assumes "sproto_create proto = Some (Some sp)"
  shows "length (sp_type sp) = type_n sp \<and> length (sp_proto sp) = protocol_n sp \<and>
     list_all (type_wf (type_n sp)) (sp_type sp) \<and> list_all (proto_ok (type_n sp)) (sp_proto sp)"
  by (rule sproto_create_ok [OF assms])

theorem imported_schema_wf_witness:
  "\<exists>sp. sproto_create demo_bundle = Some (Some sp) \<and> length (sp_type sp) = type_n sp \<and>
     list_all (type_wf (type_n sp)) (sp_type sp)"
  using demo_imports imported_schema_wf by blast

text \<open>
  \<open>findtag\<close> on a type of an imported schema, whether it indexes from \<open>base\<close> or bisects, returns the field with
  the tag asked for, and nothing when there is none.
\<close>

theorem findtag_is_find:
  assumes "sproto_create proto = Some (Some sp)" "t \<in> set (sp_type sp)"
  shows "findtag t tag = List.find (\<lambda>f. f_tag f = tag) (st_f t)"
  using findtag_find sproto_create_ok [OF assms(1)] assms(2) by (auto simp: list_all_iff)

theorem findtag_is_find_witness:
  "\<exists>sp. sproto_create demo_bundle = Some (Some sp) \<and>
     (\<forall>t\<in>set (sp_type sp). findtag t 2 = List.find (\<lambda>f. f_tag f = 2) (st_f t))"
  using demo_imports findtag_is_find by blast

text \<open>
  When the protocols of an imported schema are in ascending tags, which the import does not check, the lookup
  of a protocol by tag is exact, and the name of a protocol found by tag leads back to a tag.
\<close>

theorem query_proto_is_find:
  assumes "sproto_create proto = Some (Some sp)" "sorted_wrt (<) (map p_tag (sp_proto sp))"
  shows "query_proto sp tag = List.find (\<lambda>p. p_tag p = tag) (sp_proto sp) \<and>
     (\<forall>name. sproto_protoname sp tag = Some name \<longrightarrow> sproto_prototag sp name \<ge> 0)"
proof -
  have wf: "length (sp_proto sp) = protocol_n sp" "list_all (proto_ok (type_n sp)) (sp_proto sp)"
    using sproto_create_ok [OF assms(1)] by auto
  have q: "query_proto sp tag = List.find (\<lambda>p. p_tag p = tag) (sp_proto sp)"
    using tag_search_find [OF assms(2)] wf(1) by (simp add: query_proto_def)
  have found: "prototag_loop ps name \<ge> 0" if "p \<in> set ps" "p_name p = Some name" "list_all (proto_ok tn) ps" for ps p tn name
    using that by (induction ps) (auto simp: proto_ok_def strcmp_eq_def)
  have "sproto_prototag sp name \<ge> 0" if n: "sproto_protoname sp tag = Some name" for name
  proof -
    obtain p where p: "List.find (\<lambda>p. p_tag p = tag) (sp_proto sp) = Some p" "p_name p = Some name"
      using n q by (auto simp: sproto_protoname_def split: option.splits)
    from p(1) have "p \<in> set (sp_proto sp)" by (auto simp: find_Some_iff)
    with found [OF this p(2) wf(2)] wf(1) show ?thesis by (simp add: sproto_prototag_def)
  qed
  with q show ?thesis by blast
qed

theorem query_proto_is_find_witness:
  "\<exists>sp. sproto_create demo_bundle = Some (Some sp) \<and> query_proto sp 0 = List.find (\<lambda>p. p_tag p = 0) (sp_proto sp)"
proof -
  obtain sp where sp: "sproto_create demo_bundle = Some (Some sp)" "map p_tag (sp_proto sp) = [0]"
    using demo_imports by (elim exE conjE)
  have "sorted_wrt (<) (map p_tag (sp_proto sp))" unfolding sp(2) by simp
  from query_proto_is_find [OF sp(1) this, of 0] sp(1) show ?thesis by (intro exI [of _ sp]) simp
qed

section \<open>Lengths that wrap\<close>

lemma count_loop_stuck_aux:
  assumes "count_loop len n stream = Some r"
  shows "\<not> (todword stream = Some 0xFFFFFFFC \<and> 4 \<le> len)"
proof (rule count_loop.raw_induct [where P = "\<lambda>len n stream r. \<not> (todword stream = Some 0xFFFFFFFC \<and> 4 \<le> len)", OF _ assms])
  fix rec_call len n stream r
  assume 1: "\<And>len n stream r. rec_call len n stream = Some r \<Longrightarrow> \<not> (todword stream = Some 0xFFFFFFFC \<and> 4 \<le> len)"
    "(if len > 0 then
        if len < of_nat SIZEOF_LENGTH then Some (- 1)
        else do {
          nsz \<leftarrow> todword stream;
          let nsz = nsz + of_nat SIZEOF_LENGTH;
          if nsz > len then Some (- 1)
          else rec_call (len - nsz) (n + 1) (drop (unat nsz) stream) }
      else Some n) = Some r"
  define c where "c = (0xFFFFFFFC :: u32)"
  have z: "c + 4 = 0" by (simp add: c_def)
  show "\<not> (todword stream = Some 0xFFFFFFFC \<and> 4 \<le> len)" unfolding c_def [symmetric]
  proof
    assume a: "todword stream = Some c \<and> 4 \<le> len"
    then have "0 < len" "\<not> len < 4" by (auto simp: word_less_nat_alt word_le_nat_alt)
    with 1(2) a have "rec_call len (n + 1) stream = Some r" by (simp add: SIZEOF_LENGTH_def Let_def z)
    from 1(1) [OF this, folded c_def] a show False by simp
  qed
qed

text \<open>
  The length check of \<open>count_array\<close> wraps: an element that claims \<open>0xFFFFFFFC\<close> bytes advances the stream by
  nothing, and \<open>count_array\<close> never returns on it.
\<close>

theorem count_array_loops:
  assumes "todword stream = Some len" "4 \<le> len" "todword (drop 4 stream) = Some 0xFFFFFFFC"
  shows "count_array stream = None"
  using count_loop_stuck_aux [of len 0 "drop 4 stream"] assms
  by (cases "count_loop len 0 (drop 4 stream)") (auto simp: count_array_def SIZEOF_LENGTH_def)

theorem count_array_loops_witness: "count_array [4, 0, 0, 0, 0xFC, 0xFF, 0xFF, 0xFF] = None"
  by (rule count_array_loops [where len = 4]) (simp_all add: todword_def push_bit_eq_mult)

end
