(* ===== verification/Bytes.thy ===== *)
theory Bytes
  imports Prelude
begin

text \<open>
  Integers as bytes on a little-endian host: what the sources do with shifts and masks, or by copying an
  integer variable to or from a buffer.
\<close>

definition le_bytes :: "nat \<Rightarrow> u64 \<Rightarrow> bytes" where
  "le_bytes n v = map (\<lambda>i. ucast (drop_bit (8 * i) v)) [0..<n]"

definition le_word :: "bytes \<Rightarrow> u64" where
  "le_word bs = foldr (\<lambda>b v. push_bit 8 v OR ucast b) bs 0"

lemma length_le_bytes [simp]: "length (le_bytes n v) = n"
  by (simp add: le_bytes_def)

lemma le_bytes_bit: "i < n \<Longrightarrow> j < 8 \<Longrightarrow> bit (le_bytes n v ! i) j = bit v (8 * i + j)"
  by (simp add: le_bytes_def bit_simps add.commute)

lemma le_word_bit: "m < 64 \<Longrightarrow> bit (le_word bs) m \<longleftrightarrow> m div 8 < length bs \<and> bit (bs ! (m div 8)) (m mod 8)"
proof (induction bs arbitrary: m)
  case (Cons b bs)
  have e: "le_word (b # bs) = push_bit 8 (le_word bs) OR ucast b" by (simp add: le_word_def)
  show ?case
  proof (cases "m < 8")
    case True
    then show ?thesis by (auto simp: e bit_simps)
  next
    case False
    then obtain k where k: "m = 8 + k" using le_Suc_ex not_less by blast
    have "\<not> bit b m" using False by (auto dest: bit_imp_le_length)
    moreover have "(8 + k) div 8 = Suc (k div 8)" "(8 + k) mod 8 = k mod 8" by simp_all
    ultimately show ?thesis using k Cons.IH [of k] Cons.prems by (simp add: e bit_simps)
  qed
qed (simp add: le_word_def)

lemma le_word_8 [simp]: "le_word (le_bytes 8 v) = v"
proof (rule bit_word_eqI)
  fix m assume m: "m < LENGTH(64)"
  then have "m div 8 < 8" by auto
  with m show "bit (le_word (le_bytes 8 v)) m = bit v m"
    using le_bytes_bit [of "m div 8" 8 "m mod 8" v] by (simp add: le_word_bit)
qed

lemma le_word_4: "le_word (le_bytes 4 v) = take_bit 32 v"
proof (rule bit_word_eqI)
  fix m assume m: "m < LENGTH(64)"
  have "m div 8 < 4 \<longleftrightarrow> m < 32" by auto
  then show "bit (le_word (le_bytes 4 v)) m = bit (take_bit 32 v) m"
    using le_bytes_bit [of "m div 8" 4 "m mod 8" v] m by (auto simp: le_word_bit bit_simps)
qed

lemma le_bytes_drop4: "drop 4 (le_bytes 8 v) = le_bytes 4 (drop_bit 32 v)"
proof (rule nth_equalityI)
  fix i assume "i < length (drop 4 (le_bytes 8 v))"
  then have i: "i < 4" by simp
  show "drop 4 (le_bytes 8 v) ! i = le_bytes 4 (drop_bit 32 v) ! i"
  proof (rule bit_word_eqI)
    fix n assume n: "n < LENGTH(8)"
    have e: "8 * (4 + i) + n = 32 + (8 * i + n)" by simp
    show "bit (drop 4 (le_bytes 8 v) ! i) n = bit (le_bytes 4 (drop_bit 32 v) ! i) n"
      using i n le_bytes_bit [of "4 + i" 8 n v] le_bytes_bit [of i 4 n "drop_bit 32 v"]
      unfolding e by (simp add: bit_drop_bit_eq)
  qed
qed simp

lemma le_bytes_eq_Nil [simp]: "le_bytes n v = [] \<longleftrightarrow> n = 0"
  by (simp add: le_bytes_def)

end
