(* ===== verification/Sproto_Codec.thy ===== *)
theory Sproto_Codec
  imports Sproto_Schema Bytes
begin

text \<open>
  Encoding and decoding of messages, \<open>sproto_encode\<close> and \<open>sproto_decode\<close> of
  \<open>src/lualib/sproto/sproto.c\<close>. The caller's callback is a parameter: it gets the arguments, the
  bytes at \<open>value\<close> and the user data, and returns its result with the bytes it left there and the new
  user data; \<open>None\<close> is a callback that raises an error. A buffer passed on with its size is the list
  of its bytes; a callback keeps the length of the buffer it gets. A write or read outside a buffer
  is \<open>None\<close>. After a result of \<open>-1\<close> the buffer is given as it was passed, since no caller looks at it
  again. The scalars behind \<open>value\<close> start as zero and are stored as on a little-endian host.
\<close>

record sproto_arg =
  a_tagname :: "bytes option"
  a_tagid :: int
  a_type :: int
  a_subtype :: "nat option"
  a_length :: int
  a_index :: int
  a_mainindex :: int

type_synonym 'u encode_cb = "sproto_arg \<Rightarrow> bytes \<Rightarrow> 'u \<Rightarrow> (int \<times> bytes \<times> 'u) option"
type_synonym 'u decode_cb = "sproto_arg \<Rightarrow> bytes \<Rightarrow> 'u \<Rightarrow> (int \<times> 'u) option"

section \<open>Scalars\<close>

definition fill_size :: "bytes \<Rightarrow> nat \<Rightarrow> int \<Rightarrow> (int \<times> bytes) option" where
  "fill_size mem data sz = do {
     mem \<leftarrow> poke_all mem data (le_bytes 4 (of_int sz));
     Some (sz + int SIZEOF_LENGTH, mem) }"

text \<open>
  \<open>size < SIZEOF_LENGTH + sizeof(v)\<close> compares an \<open>int\<close> with a \<open>size_t\<close>: a negative size counts as a huge one.
\<close>

definition less_sizeof :: "int \<Rightarrow> int \<Rightarrow> bool" where
  "less_sizeof siz n \<longleftrightarrow> 0 \<le> siz \<and> siz < n"

definition encode_integer :: "u64 \<Rightarrow> bytes \<Rightarrow> (int \<times> bytes) option" where
  "encode_integer v data =
     (if less_sizeof (int (length data)) 8 then Some (- 1, data)
      else do { data \<leftarrow> poke_all data 4 (le_bytes 4 v); fill_size data 0 4 })"

definition encode_uint64 :: "u64 \<Rightarrow> bytes \<Rightarrow> (int \<times> bytes) option" where
  "encode_uint64 v data =
     (if less_sizeof (int (length data)) 12 then Some (- 1, data)
      else do { data \<leftarrow> poke_all data 4 (le_bytes 8 v); fill_size data 0 8 })"

definition expand64 :: "u32 \<Rightarrow> u64" where
  "expand64 v = (if bit v 31 then ucast v OR push_bit 32 (NOT 0) else ucast v)"

section \<open>Encoding\<close>

definition encode_object :: "'u encode_cb \<Rightarrow> sproto_arg \<Rightarrow> bytes \<Rightarrow> 'u \<Rightarrow> (int \<times> bytes \<times> 'u) option" where
  "encode_object cb args data ud =
     (if length data < SIZEOF_LENGTH then Some (- 1, data, ud)
      else do {
        (sz, value, ud) \<leftarrow> cb (args\<lparr>a_length := int (length data) - int SIZEOF_LENGTH\<rparr>) (drop SIZEOF_LENGTH data) ud;
        let data = take SIZEOF_LENGTH data @ value;
        if sz \<le> 0 then Some (sz, data, ud)
        else do {
          (r, data) \<leftarrow> fill_size data 0 (if a_type args = SPROTO_TSTRING then sz - 1 else sz);
          Some (r, data, ud) } })"

definition uint32_to_uint64 :: "bool \<Rightarrow> bytes \<Rightarrow> nat \<Rightarrow> bytes option" where
  "uint32_to_uint64 negative mem buffer = poke_all mem (buffer + 4) (replicate 4 (if negative then 0xff else 0))"

fun rearrange :: "nat \<Rightarrow> bytes \<Rightarrow> bytes option" where
  "rearrange 0 mem = Some mem"
| "rearrange (Suc i) mem = do {
     v \<leftarrow> peek_range mem (1 + i * 4) 4;
     mem \<leftarrow> poke_all mem (1 + i * 8) v;
     mem \<leftarrow> uint32_to_uint64 (bit (v ! 3) 7) mem (1 + i * 8);
     rearrange i mem }"

record int_array =
  ia_mem :: bytes
  ia_buffer :: nat
  ia_size :: int
  ia_intlen :: nat
  ia_index :: nat

text \<open>One element that is there; \<open>Some None\<close> is the return of the null pointer.\<close>

definition int_element :: "int \<Rightarrow> bytes \<Rightarrow> int_array \<Rightarrow> int_array option option" where
  "int_element sz u s =
     (if less_sizeof (ia_size s) 8 then Some None
      else if sz = 4 then do {
        mem \<leftarrow> poke_all (ia_mem s) (ia_buffer s) (take 4 u);
        mem \<leftarrow> (if ia_intlen s = 8 then uint32_to_uint64 (bit (u ! 3) 7) mem (ia_buffer s) else Some mem);
        Some (Some (s\<lparr>ia_mem := mem, ia_size := ia_size s - int (ia_intlen s),
          ia_buffer := ia_buffer s + ia_intlen s, ia_index := ia_index s + 1\<rparr>)) }
      else if sz \<noteq> 8 then Some None
      else do {
        r \<leftarrow> (if ia_intlen s = 4 then
          let n = ia_index s - 1; size = ia_size s - int (n * 4) in
          if less_sizeof size 8 then Some None
          else do {
            mem \<leftarrow> rearrange n (ia_mem s);
            Some (Some (s\<lparr>ia_mem := mem, ia_size := size, ia_buffer := ia_buffer s + n * 4, ia_intlen := 8\<rparr>)) }
          else Some (Some s));
        case r of None \<Rightarrow> Some None
        | Some s \<Rightarrow> do {
            mem \<leftarrow> poke_all (ia_mem s) (ia_buffer s) u;
            Some (Some (s\<lparr>ia_mem := mem, ia_size := ia_size s - int (ia_intlen s),
              ia_buffer := ia_buffer s + ia_intlen s, ia_index := ia_index s + 1\<rparr>)) } })"

partial_function (option) int_array_loop ::
  "'u encode_cb \<Rightarrow> sproto_arg \<Rightarrow> int_array \<Rightarrow> 'u \<Rightarrow> (int_array option \<times> 'u) option" where
  "int_array_loop cb args s ud = do {
     (sz, u, ud) \<leftarrow> cb (args\<lparr>a_length := 8, a_index := int (ia_index s)\<rparr>) (replicate 8 0) ud;
     if sz < 0 then Some (None, ud)
     else if sz = 0 then Some (Some s, ud)
     else do {
       r \<leftarrow> int_element sz u s;
       case r of None \<Rightarrow> Some (None, ud) | Some s \<Rightarrow> int_array_loop cb args s ud } }"

declare int_array_loop.simps [code]

text \<open>The returned pointer is the number of bytes used from \<open>header\<close> on.\<close>

definition encode_integer_array :: "'u encode_cb \<Rightarrow> sproto_arg \<Rightarrow> bytes \<Rightarrow> 'u \<Rightarrow> ((nat \<times> bytes) option \<times> 'u) option" where
  "encode_integer_array cb args mem ud =
     (if length mem < 1 then Some (None, ud)
      else do {
        (r, ud) \<leftarrow> int_array_loop cb args
          \<lparr>ia_mem = mem, ia_buffer = 1, ia_size = int (length mem) - 1, ia_intlen = 4, ia_index = 1\<rparr> ud;
        case r of None \<Rightarrow> Some (None, ud)
        | Some s \<Rightarrow>
            if ia_buffer s = 1 then Some (Some (0, ia_mem s), ud)
            else do { mem \<leftarrow> poke (ia_mem s) 0 (of_nat (ia_intlen s)); Some (Some (ia_buffer s, mem), ud) } })"

partial_function (option) bool_array_loop ::
  "'u encode_cb \<Rightarrow> sproto_arg \<Rightarrow> nat \<Rightarrow> nat \<Rightarrow> bytes \<Rightarrow> 'u \<Rightarrow> ((nat \<times> bytes) option \<times> 'u) option" where
  "bool_array_loop cb args index buffer mem ud = do {
     (sz, v, ud) \<leftarrow> cb (args\<lparr>a_length := 4, a_index := int index\<rparr>) (replicate 4 0) ud;
     if sz < 0 then Some (None, ud)
     else if sz = 0 then Some (Some (buffer, mem), ud)
     else if length mem - buffer < 1 then Some (None, ud)
     else do {
       mem \<leftarrow> poke mem buffer (if v \<noteq> replicate 4 0 then 1 else 0);
       bool_array_loop cb args (index + 1) (buffer + 1) mem ud } }"

declare bool_array_loop.simps [code]

partial_function (option) object_array_loop ::
  "'u encode_cb \<Rightarrow> sproto_arg \<Rightarrow> nat \<Rightarrow> nat \<Rightarrow> bytes \<Rightarrow> 'u \<Rightarrow> ((nat \<times> bytes) option \<times> 'u) option" where
  "object_array_loop cb args index buffer mem ud =
     (if length mem - buffer < SIZEOF_LENGTH then Some (None, ud)
      else do {
        let p = buffer + SIZEOF_LENGTH;
        (sz, value, ud) \<leftarrow> cb (args\<lparr>a_length := int (length mem - p), a_index := int index\<rparr>) (drop p mem) ud;
        let mem = take p mem @ value;
        if sz = 0 then Some (Some (buffer, mem), ud)
        else if sz < 0 then Some (None, ud)
        else do {
          let sz = (if a_type args = SPROTO_TSTRING then sz - 1 else sz);
          (_, mem) \<leftarrow> fill_size mem buffer sz;
          object_array_loop cb args (index + 1) (p + nat sz) mem ud } })"

declare object_array_loop.simps [code]

definition encode_array :: "'u encode_cb \<Rightarrow> sproto_arg \<Rightarrow> bytes \<Rightarrow> 'u \<Rightarrow> (int \<times> bytes \<times> 'u) option" where
  "encode_array cb args data ud =
     (if length data < SIZEOF_LENGTH then Some (- 1, data, ud)
      else do {
        let mem = drop SIZEOF_LENGTH data;
        (r, ud) \<leftarrow> (if a_type args = SPROTO_TINTEGER then encode_integer_array cb args mem ud
          else if a_type args = SPROTO_TBOOLEAN then bool_array_loop cb args 1 0 mem ud
          else object_array_loop cb args 1 0 mem ud);
        case r of None \<Rightarrow> Some (- 1, data, ud)
        | Some (sz, mem) \<Rightarrow>
            let data = take SIZEOF_LENGTH data @ mem in
            if sz = 0 then Some (0, data, ud)
            else do { (r, data) \<leftarrow> fill_size data 0 (int sz); Some (r, data, ud) } })"

record encode_state =
  es_mem :: bytes
  es_data :: nat
  es_index :: nat
  es_lasttag :: int

text \<open>
  The part of the loop body that asks the callback for one field: the size, the inlined value, the bytes
  from \<open>data\<close> on.
\<close>

definition encode_field :: "'u encode_cb \<Rightarrow> field \<Rightarrow> bytes \<Rightarrow> 'u \<Rightarrow> (int \<times> int \<times> bytes \<times> 'u) option" where
  "encode_field cb f data ud =
     (let args = \<lparr>a_tagname = f_name f, a_tagid = f_tag f, a_type = f_type f, a_subtype = f_st f, a_length = 0,
            a_index = 0, a_mainindex = f_key f\<rparr> in
      if f_type f AND SPROTO_TARRAY \<noteq> 0 then do {
        (sz, data, ud) \<leftarrow> encode_array cb (args\<lparr>a_type := f_type f AND NOT SPROTO_TARRAY\<rparr>) data ud;
        Some (sz, 0, data, ud) }
      else if f_type f = SPROTO_TINTEGER \<or> f_type f = SPROTO_TBOOLEAN then do {
        (sz, u, ud) \<leftarrow> cb (args\<lparr>a_length := 8\<rparr>) (replicate 8 0) ud;
        if sz < 0 then Some (- 1, 0, data, ud)
        else if sz = 0 then Some (0, 0, data, ud)
        else if sz = 4 then
          let v = le_word (take 4 u) in
          if v < 0x7fff then Some (2, (uint v + 1) * 2, data, ud)
          else do { (sz, data) \<leftarrow> encode_integer v data; Some (sz, 0, data, ud) }
        else if sz = 8 then do { (sz, data) \<leftarrow> encode_uint64 (le_word u) data; Some (sz, 0, data, ud) }
        else Some (- 1, 0, data, ud) }
      else if f_type f = SPROTO_TSTRUCT \<or> f_type f = SPROTO_TSTRING then do {
        (sz, data, ud) \<leftarrow> encode_object cb args data ud;
        Some (sz, 0, data, ud) }
      else Some (- 1, 0, data, ud))"

definition put_record :: "field \<Rightarrow> int \<Rightarrow> encode_state \<Rightarrow> encode_state option option" where
  "put_record f value s =
     (let record = SIZEOF_HEADER + SIZEOF_FIELD * es_index s; tag = f_tag f - es_lasttag s - 1 in
      if tag > 0 then
        let tag = (tag - 1) * 2 + 1 in
        if tag > 0xffff then Some None
        else do {
          mem \<leftarrow> poke_all (es_mem s) record (le_bytes 2 (of_int tag));
          mem \<leftarrow> poke_all mem (record + SIZEOF_FIELD) (le_bytes 2 (of_int value));
          Some (Some (s\<lparr>es_mem := mem, es_index := es_index s + 2, es_lasttag := f_tag f\<rparr>)) }
      else do {
        mem \<leftarrow> poke_all (es_mem s) record (le_bytes 2 (of_int value));
        Some (Some (s\<lparr>es_mem := mem, es_index := es_index s + 1, es_lasttag := f_tag f\<rparr>)) })"

fun encode_fields :: "'u encode_cb \<Rightarrow> field list \<Rightarrow> encode_state \<Rightarrow> 'u \<Rightarrow> (encode_state option \<times> 'u) option" where
  "encode_fields cb [] s ud = Some (Some s, ud)"
| "encode_fields cb (f # fs) s ud = do {
     (sz, value, data, ud) \<leftarrow> encode_field cb f (drop (es_data s) (es_mem s)) ud;
     let s = s\<lparr>es_mem := take (es_data s) (es_mem s) @ data\<rparr>;
     if sz < 0 then Some (None, ud)
     else if sz > 0 then do {
       r \<leftarrow> put_record f value (if value = 0 then s\<lparr>es_data := es_data s + nat sz\<rparr> else s);
       case r of None \<Rightarrow> Some (None, ud) | Some s \<Rightarrow> encode_fields cb fs s ud }
     else encode_fields cb fs s ud }"

definition sproto_encode :: "sproto_type \<Rightarrow> bytes \<Rightarrow> 'u encode_cb \<Rightarrow> 'u \<Rightarrow> (int \<times> bytes \<times> 'u) option" where
  "sproto_encode st buffer cb ud =
     (let header_sz = SIZEOF_HEADER + st_maxn st * SIZEOF_FIELD in
      if length buffer < header_sz then Some (- 1, buffer, ud)
      else do {
        (r, ud) \<leftarrow> encode_fields cb (take (st_n st) (st_f st))
          \<lparr>es_mem = buffer, es_data = header_sz, es_index = 0, es_lasttag = - 1\<rparr> ud;
        case r of None \<Rightarrow> Some (- 1, buffer, ud)
        | Some s \<Rightarrow> do {
            mem \<leftarrow> poke_all (es_mem s) 0 (le_bytes 2 (of_nat (es_index s)));
            let datasz = es_data s - header_sz;
            data \<leftarrow> peek_range mem header_sz datasz;
            mem \<leftarrow> (if es_index s \<noteq> st_maxn st
              then poke_all mem (SIZEOF_HEADER + es_index s * SIZEOF_FIELD) data else Some mem);
            Some (int (SIZEOF_HEADER + es_index s * SIZEOF_FIELD + datasz), mem, ud) } })"

section \<open>Decoding\<close>

function decode_array_object :: "'u decode_cb \<Rightarrow> sproto_arg \<Rightarrow> nat \<Rightarrow> bytes \<Rightarrow> nat \<Rightarrow> 'u \<Rightarrow> (int \<times> 'u) option" where
  "decode_array_object cb args index stream sz ud =
     (if sz > 0 then
        if sz < SIZEOF_LENGTH then Some (- 1, ud)
        else do {
          hsz \<leftarrow> map_option unat (todword stream);
          let stream = drop SIZEOF_LENGTH stream;
          let sz = sz - SIZEOF_LENGTH;
          if hsz > sz then Some (- 1, ud)
          else do {
            value \<leftarrow> peek_range stream 0 hsz;
            (r, ud) \<leftarrow> cb (args\<lparr>a_index := int index, a_length := int hsz\<rparr>) value ud;
            if r \<noteq> 0 then Some (- 1, ud)
            else decode_array_object cb args (index + 1) (drop hsz stream) (sz - hsz) ud } }
      else Some (0, ud))"
  by pat_completeness auto
termination by (relation "measure (\<lambda>(cb, args, index, stream, sz, ud). sz)") (auto simp: SIZEOF_LENGTH_def)

declare decode_array_object.simps [simp del]

fun decode_scalars :: "'u decode_cb \<Rightarrow> sproto_arg \<Rightarrow> (bytes \<Rightarrow> u64 option) \<Rightarrow> nat \<Rightarrow> nat \<Rightarrow> nat \<Rightarrow> bytes \<Rightarrow> 'u \<Rightarrow> 'u option" where
  "decode_scalars cb args rd width 0 i stream ud = Some ud"
| "decode_scalars cb args rd width (Suc k) i stream ud = do {
     value \<leftarrow> rd stream;
     (_, ud) \<leftarrow> cb (args\<lparr>a_index := int i + 1, a_length := 8\<rparr>) (le_bytes 8 value) ud;
     decode_scalars cb args rd width k (i + 1) (drop width stream) ud }"

definition read_int32 :: "bytes \<Rightarrow> u64 option" where
  "read_int32 stream = map_option expand64 (todword stream)"

definition read_int64 :: "bytes \<Rightarrow> u64 option" where
  "read_int64 stream = do {
     low \<leftarrow> todword stream;
     hi \<leftarrow> todword (drop 4 stream);
     Some (ucast low OR push_bit 32 (ucast hi)) }"

definition read_byte :: "bytes \<Rightarrow> u64 option" where
  "read_byte stream = (case stream of [] \<Rightarrow> None | b # _ \<Rightarrow> Some (ucast b))"

definition decode_array :: "'u decode_cb \<Rightarrow> sproto_arg \<Rightarrow> bytes \<Rightarrow> 'u \<Rightarrow> (int \<times> 'u) option" where
  "decode_array cb args stream ud = do {
     sz \<leftarrow> map_option unat (todword stream);
     let stream = drop SIZEOF_LENGTH stream;
     if a_type args = SPROTO_TINTEGER then
       if sz < 1 then Some (- 1, ud)
       else do {
         len \<leftarrow> map_option unat (read_byte stream);
         let stream = drop 1 stream;
         let sz = sz - 1;
         if len = 4 then
           if sz mod 4 \<noteq> 0 then Some (- 1, ud)
           else map_option (Pair 0) (decode_scalars cb args read_int32 4 (sz div 4) 0 stream ud)
         else if len = 8 then
           if sz mod 8 \<noteq> 0 then Some (- 1, ud)
           else map_option (Pair 0) (decode_scalars cb args read_int64 8 (sz div 8) 0 stream ud)
         else Some (- 1, ud) }
     else if a_type args = SPROTO_TBOOLEAN then
       map_option (Pair 0) (decode_scalars cb args read_byte 1 sz 0 stream ud)
     else if a_type args = SPROTO_TSTRING \<or> a_type args = SPROTO_TSTRUCT then
       decode_array_object cb args 1 stream sz ud
     else Some (- 1, ud) }"

text \<open>What is done with one field that the type has; \<open>value\<close> is negative when its data is in \<open>currentdata\<close>.\<close>

definition decode_field :: "'u decode_cb \<Rightarrow> field \<Rightarrow> int \<Rightarrow> bytes \<Rightarrow> 'u \<Rightarrow> (int \<times> 'u) option" where
  "decode_field cb f value currentdata ud =
     (let args = \<lparr>a_tagname = f_name f, a_tagid = f_tag f, a_type = f_type f AND NOT SPROTO_TARRAY, a_subtype = f_st f,
            a_length = 0, a_index = 0, a_mainindex = f_key f\<rparr> in
      if value < 0 then
        if f_type f AND SPROTO_TARRAY \<noteq> 0 then do {
          (r, ud) \<leftarrow> decode_array cb args currentdata ud;
          Some (if r \<noteq> 0 then - 1 else 0, ud) }
        else if f_type f = SPROTO_TINTEGER then do {
          sz \<leftarrow> todword currentdata;
          if sz = 4 then do {
            v \<leftarrow> read_int32 (drop SIZEOF_LENGTH currentdata);
            (_, ud) \<leftarrow> cb (args\<lparr>a_length := 8\<rparr>) (le_bytes 8 v) ud;
            Some (0, ud) }
          else if sz \<noteq> 8 then Some (- 1, ud)
          else do {
            v \<leftarrow> read_int64 (drop SIZEOF_LENGTH currentdata);
            (_, ud) \<leftarrow> cb (args\<lparr>a_length := 8\<rparr>) (le_bytes 8 v) ud;
            Some (0, ud) } }
        else if f_type f = SPROTO_TSTRING \<or> f_type f = SPROTO_TSTRUCT then do {
          sz \<leftarrow> map_option unat (todword currentdata);
          value \<leftarrow> peek_range currentdata SIZEOF_LENGTH sz;
          (r, ud) \<leftarrow> cb (args\<lparr>a_length := int sz\<rparr>) value ud;
          Some (if r \<noteq> 0 then - 1 else 0, ud) }
        else Some (- 1, ud)
      else if f_type f \<noteq> SPROTO_TINTEGER \<and> f_type f \<noteq> SPROTO_TBOOLEAN then Some (- 1, ud)
      else do {
        (_, ud) \<leftarrow> cb (args\<lparr>a_length := 8\<rparr>) (le_bytes 8 (of_int value)) ud;
        Some (0, ud) })"

fun decode_loop :: "sproto_type \<Rightarrow> 'u decode_cb \<Rightarrow> nat \<Rightarrow> int \<Rightarrow> bytes \<Rightarrow> bytes \<Rightarrow> nat \<Rightarrow> 'u \<Rightarrow> (nat option \<times> 'u) option" where
  "decode_loop st cb 0 tag stream datastream siz ud = Some (Some siz, ud)"
| "decode_loop st cb (Suc k) tag stream datastream siz ud = do {
     value \<leftarrow> toword stream;
     let stream = drop SIZEOF_FIELD stream;
     let tag = tag + 1;
     if odd value then decode_loop st cb k (tag + int (value div 2)) stream datastream siz ud
     else do {
       let value = int (value div 2) - 1;
       r \<leftarrow> (if value < 0 then
           if siz < SIZEOF_LENGTH then Some None
           else do {
             sz \<leftarrow> todword datastream;
             let n = unat (sz + of_nat SIZEOF_LENGTH);
             if siz < n then Some None else Some (Some n) }
         else Some (Some 0));
       case r of None \<Rightarrow> Some (None, ud)
       | Some n \<Rightarrow>
           (case findtag st tag of
              None \<Rightarrow> decode_loop st cb k tag stream (drop n datastream) (siz - n) ud
            | Some f \<Rightarrow> do {
                (r, ud) \<leftarrow> decode_field cb f value datastream ud;
                if r \<noteq> 0 then Some (None, ud)
                else decode_loop st cb k tag stream (drop n datastream) (siz - n) ud }) } }"

definition sproto_decode :: "sproto_type \<Rightarrow> bytes \<Rightarrow> 'u decode_cb \<Rightarrow> 'u \<Rightarrow> (int \<times> 'u) option" where
  "sproto_decode st data cb ud =
     (let total = length data in
      if total < SIZEOF_HEADER then Some (- 1, ud)
      else do {
        fn \<leftarrow> toword data;
        let stream = drop SIZEOF_HEADER data;
        let size = total - SIZEOF_HEADER;
        if size < fn * SIZEOF_FIELD then Some (- 1, ud)
        else do {
          (r, ud) \<leftarrow> decode_loop st cb fn (- 1) stream (drop (fn * SIZEOF_FIELD) stream) (size - fn * SIZEOF_FIELD) ud;
          Some (case r of None \<Rightarrow> - 1 | Some size \<Rightarrow> int (total - size), ud) } })"

end
