(* ===== verification/Sproto_Lua.thy ===== *)
theory Sproto_Lua
  imports Sproto_Codec
begin

text \<open>
  The Lua binding \<open>src/lualib/sproto/lsproto.c\<close>: the callbacks that read and build Lua tables, and the
  entry points. Lua values are a datatype (floating-point numbers, functions and userdata are
  \<open>LOther\<close>); a table is the list of its entries in the order \<open>lua_next\<close> visits them. The stack slots of the C code are
  fields of the callback's state: \<open>tbl_index\<close>, \<open>array_index\<close>, \<open>iter_index\<close>, \<open>result_index\<close>, \<open>key_index\<close> are the values
  they point at. The pointer of a field's name, which the code compares to see that a new array
  begins, is the field's tag. A Lua error is \<open>None\<close>. How Lua writes a number that is used as a string
  is the parameter \<open>tostr\<close>.
\<close>

section \<open>Lua values\<close>

datatype lua = LNil | LBool bool | LInt u64 | LStr bytes | LTab "(lua \<times> lua) list" | LOther

fun entries :: "lua \<Rightarrow> (lua \<times> lua) list" where
  "entries (LTab t) = t"
| "entries _ = []"

definition lua_gettable :: "lua \<Rightarrow> lua \<Rightarrow> lua" where
  "lua_gettable t k = (case map_of (entries t) k of None \<Rightarrow> LNil | Some v \<Rightarrow> v)"

fun put_entry :: "lua \<Rightarrow> lua \<Rightarrow> (lua \<times> lua) list \<Rightarrow> (lua \<times> lua) list" where
  "put_entry k v [] = [(k, v)]"
| "put_entry k v ((k', v') # t) = (if k = k' then (k, v) # t else (k', v') # put_entry k v t)"

definition lua_settable :: "lua \<Rightarrow> lua \<Rightarrow> lua \<Rightarrow> lua" where
  "lua_settable t k v = LTab (put_entry k v (entries t))"

fun lua_istable :: "lua \<Rightarrow> bool" where
  "lua_istable (LTab t) = True"
| "lua_istable _ = False"

text \<open>The entry after the key in the slot, the first one when the slot is nil.\<close>

fun next_after :: "lua \<Rightarrow> (lua \<times> lua) list \<Rightarrow> (lua \<times> lua) option" where
  "next_after k [] = None"
| "next_after k ((k', v) # t) = (if k = k' then (case t of [] \<Rightarrow> None | e # _ \<Rightarrow> Some e) else next_after k t)"

definition lua_next :: "lua \<Rightarrow> lua \<Rightarrow> (lua \<times> lua) option" where
  "lua_next t k =
     (if k = LNil then (case entries t of [] \<Rightarrow> None | e # _ \<Rightarrow> Some e) else next_after k (entries t))"

section \<open>The encoding callback\<close>

definition ENCODE_DEEPLEVEL :: nat where "ENCODE_DEEPLEVEL = 64"

record encode_ud =
  eu_tbl :: lua
  eu_array_tag :: "int option"
  eu_array :: "lua option"
  eu_iter :: lua

text \<open>The value the arguments ask for: \<open>Some (None, _)\<close> is the return of 0 before a value is on the stack.\<close>

definition encode_fetch :: "sproto_arg \<Rightarrow> encode_ud \<Rightarrow> (lua option \<times> encode_ud) option" where
  "encode_fetch args self =
     (let name = LStr (the (a_tagname args)) in
      if a_index args > 0 then do {
        (stop, self) \<leftarrow> (if Some (a_tagid args) \<noteq> eu_array_tag self then
            let self = self\<lparr>eu_array_tag := Some (a_tagid args)\<rparr>; v = lua_gettable (eu_tbl self) name in
            if v = LNil then Some (True, self\<lparr>eu_array := None\<rparr>)
            else if \<not> lua_istable v then None
            else Some (False, self\<lparr>eu_array := Some v\<rparr>)
          else Some (False, self));
        if stop then Some (None, self)
        else do {
          arr \<leftarrow> eu_array self;
          if a_mainindex args \<ge> 0 then
            (case lua_next arr (eu_iter self) of
               None \<Rightarrow> Some (None, self\<lparr>eu_iter := LNil\<rparr>)
             | Some (k, v) \<Rightarrow> Some (Some v, self\<lparr>eu_iter := k\<rparr>))
          else Some (Some (lua_gettable arr (LInt (of_int (a_index args)))), self) } }
      else Some (Some (lua_gettable (eu_tbl self) name), self))"

definition lua_tolstring :: "(u64 \<Rightarrow> bytes) \<Rightarrow> lua \<Rightarrow> bytes option" where
  "lua_tolstring tostr v = (case v of LStr b \<Rightarrow> Some b | LInt i \<Rightarrow> Some (tostr i) | _ \<Rightarrow> None)"

text \<open>\<open>encode k\<close> is the callback with \<open>k\<close> levels left below \<open>ENCODE_DEEPLEVEL\<close>.\<close>

fun encode :: "(u64 \<Rightarrow> bytes) \<Rightarrow> sproto_type list \<Rightarrow> nat \<Rightarrow> encode_ud encode_cb" where
  "encode tostr tys 0 args value self = None"
| "encode tostr tys (Suc k) args value self = do {
     (v, self) \<leftarrow> encode_fetch args self;
     case v of None \<Rightarrow> Some (0, value, self)
     | Some v \<Rightarrow>
         if v = LNil then Some (0, value, self)
         else if a_type args = SPROTO_TINTEGER then
           (case v of
              LInt i \<Rightarrow>
                let vh = drop_bit 31 (sint i) in
                if vh = 0 \<or> vh = - 1
                then do { value \<leftarrow> poke_all value 0 (le_bytes 4 i); Some (4, value, self) }
                else do { value \<leftarrow> poke_all value 0 (le_bytes 8 i); Some (8, value, self) }
            | _ \<Rightarrow> None)
         else if a_type args = SPROTO_TBOOLEAN then
           (case v of
              LBool b \<Rightarrow> do { value \<leftarrow> poke_all value 0 (le_bytes 4 (if b then 1 else 0)); Some (4, value, self) }
            | _ \<Rightarrow> None)
         else if a_type args = SPROTO_TSTRING then do {
           str \<leftarrow> lua_tolstring tostr v;
           if int (length str) > a_length args then Some (- 1, value, self)
           else do { value \<leftarrow> poke_all value 0 str; Some (int (length str) + 1, value, self) } }
         else if a_type args = SPROTO_TSTRUCT then
           if \<not> lua_istable v then None
           else do {
             let sub = \<lparr>eu_tbl = v, eu_array_tag = None, eu_array = None, eu_iter = LNil\<rparr>;
             st \<leftarrow> a_subtype args;
             (r, value, _) \<leftarrow> sproto_encode (tys ! st) value (encode tostr tys k) sub;
             Some (r, value, self) }
         else None }"

partial_function (option) lencode_loop ::
  "(u64 \<Rightarrow> bytes) \<Rightarrow> sproto_type list \<Rightarrow> (nat \<Rightarrow> bytes) \<Rightarrow> sproto_type \<Rightarrow> lua \<Rightarrow> bytes \<Rightarrow> (string + bytes \<times> bytes) option" where
  "lencode_loop tostr tys fresh st tbl buffer = do {
     (r, buf, _) \<leftarrow> sproto_encode st buffer (encode tostr tys ENCODE_DEEPLEVEL)
       \<lparr>eu_tbl = tbl, eu_array_tag = None, eu_array = None, eu_iter = LNil\<rparr>;
     if r < 0 then
       (case expand_buffer fresh (length buffer) (length buffer * 2) of
          Inl e \<Rightarrow> Some (Inl e)
        | Inr buffer \<Rightarrow> lencode_loop tostr tys fresh st tbl buffer)
     else Some (Inr (take (nat r) buf, buf)) }"

declare lencode_loop.simps [code]

definition lencode :: "(u64 \<Rightarrow> bytes) \<Rightarrow> sproto_type list \<Rightarrow> (nat \<Rightarrow> bytes) \<Rightarrow> sproto_type \<Rightarrow> lua \<Rightarrow> bytes \<Rightarrow> (string + bytes \<times> bytes) option" where
  "lencode tostr tys fresh st tbl buffer =
     (if \<not> lua_istable tbl then Some (Inl ''table expected'') else lencode_loop tostr tys fresh st tbl buffer)"

section \<open>The decoding callback\<close>

text \<open>
  The table at \<open>array_index\<close> is the one in the result under the array's name, so that an entry put into the
  array shows in the result.
\<close>

record decode_ud =
  du_result :: lua
  du_array_tag :: "int option"
  du_array :: "lua option"
  du_mainindex_tag :: int
  du_key :: lua

definition array_set :: "lua \<Rightarrow> lua \<Rightarrow> lua \<Rightarrow> decode_ud \<Rightarrow> decode_ud" where
  "array_set name k v self =
     self\<lparr>du_result := lua_settable (du_result self) name (lua_settable (lua_gettable (du_result self) name) k v)\<rparr>"

fun decode :: "sproto_type list \<Rightarrow> nat \<Rightarrow> decode_ud decode_cb" where
  "decode tys 0 args value self = None"
| "decode tys (Suc k) args value self = do {
     let name = LStr (the (a_tagname args));
     let self = (if a_index args > 0 \<and> Some (a_tagid args) \<noteq> du_array_tag self
       then self\<lparr>du_array_tag := Some (a_tagid args), du_array := Some name,
              du_result := lua_settable (du_result self) name (LTab [])\<rparr>
       else self);
     let finish = (\<lambda>v self.
       if a_index args > 0 then do {
         arr \<leftarrow> du_array self;
         Some (0, array_set arr (LInt (of_int (a_index args))) v self) }
       else
         let self = (if du_mainindex_tag self = a_tagid args then self\<lparr>du_key := v\<rparr> else self)
         in Some (0, self\<lparr>du_result := lua_settable (du_result self) name v\<rparr>));
     if a_type args = SPROTO_TINTEGER then finish (LInt (le_word value)) self
     else if a_type args = SPROTO_TBOOLEAN then finish (LBool ((ucast (le_word value) :: u32) \<noteq> 0)) self
     else if a_type args = SPROTO_TSTRING then finish (LStr value) self
     else if a_type args = SPROTO_TSTRUCT then do {
       st \<leftarrow> a_subtype args;
       let sub = \<lparr>du_result = LTab [], du_array_tag = None, du_array = None,
         du_mainindex_tag = (if a_mainindex args \<ge> 0 then a_mainindex args else - 1), du_key = LNil\<rparr>;
       (r, sub) \<leftarrow> sproto_decode (tys ! st) value (decode tys k) sub;
       if r < 0 \<or> r \<noteq> a_length args then Some (r, self)
       else if a_mainindex args \<ge> 0 then
         if du_key sub = LNil then None
         else do {
           arr \<leftarrow> du_array self;
           Some (0, array_set arr (du_key sub) (du_result sub) self) }
       else finish (du_result sub) self }
     else None }"

definition ldecode :: "sproto_type list \<Rightarrow> sproto_type \<Rightarrow> bytes \<Rightarrow> lua \<Rightarrow> (string + lua \<times> int) option" where
  "ldecode tys st buffer table = do {
     (r, self) \<leftarrow> sproto_decode st buffer (decode tys ENCODE_DEEPLEVEL)
       \<lparr>du_result = (if lua_istable table then table else LTab []), du_array_tag = None, du_array = None,
         du_mainindex_tag = - 1, du_key = LNil\<rparr>;
     Some (if r < 0 then Inl ''decode error'' else Inr (du_result self, r)) }"

section \<open>Schemas\<close>

definition lnewproto :: "bytes \<Rightarrow> sproto option option" where
  "lnewproto buffer = sproto_create buffer"

definition lquerytype :: "sproto \<Rightarrow> bytes \<Rightarrow> string + nat" where
  "lquerytype sp type_name = (case sproto_type_query sp type_name of None \<Rightarrow> Inl ''type not found'' | Some st \<Rightarrow> Inr st)"

text \<open>The values pushed: the name or the tag, and the two types.\<close>

definition lprotocol :: "sproto \<Rightarrow> int + bytes \<Rightarrow> ((bytes + int) \<times> nat option \<times> nat option) option" where
  "lprotocol sp key = do {
     (first, tag) \<leftarrow> (case key of
         Inl tag \<Rightarrow> (case sproto_protoname sp tag of None \<Rightarrow> None | Some name \<Rightarrow> Some (Inl name, tag))
       | Inr name \<Rightarrow> let tag = sproto_prototag sp name in if tag < 0 then None else Some (Inr tag, tag));
     Some (first, sproto_protoquery sp tag 0, sproto_protoquery sp tag 1) }"

definition MAX_GLOBALSPROTO :: int where "MAX_GLOBALSPROTO = 16"

definition lsaveproto :: "sproto option list \<Rightarrow> sproto \<Rightarrow> int \<Rightarrow> string + sproto option list" where
  "lsaveproto G_sproto sp index =
     (if index < 0 \<or> index \<ge> MAX_GLOBALSPROTO then Inl ''Invalid global slot index''
      else Inr (G_sproto[nat index := Some sp]))"

definition lloadproto :: "sproto option list \<Rightarrow> int \<Rightarrow> string + sproto" where
  "lloadproto G_sproto index =
     (if index < 0 \<or> index \<ge> MAX_GLOBALSPROTO then Inl ''Invalid global slot index''
      else case G_sproto ! nat index of None \<Rightarrow> Inl ''nil sproto'' | Some sp \<Rightarrow> Inr sp)"

text \<open>The default table of a type: the callback only records, the encoding is thrown away.\<close>

definition encode_default :: "sproto_type list \<Rightarrow> lua encode_cb" where
  "encode_default tys args value t = do {
     let name = LStr (the (a_tagname args));
     if a_index args > 0 then Some (0, value, lua_settable t name (LTab []))
     else if a_type args = SPROTO_TINTEGER then Some (0, value, lua_settable t name (LInt 0))
     else if a_type args = SPROTO_TBOOLEAN then Some (0, value, lua_settable t name (LBool False))
     else if a_type args = SPROTO_TSTRING then Some (0, value, lua_settable t name (LStr []))
     else if a_type args = SPROTO_TSTRUCT then do {
       st \<leftarrow> a_subtype args;
       Some (0, value, lua_settable t name
         (LTab [(LStr (map (of_nat \<circ> of_char) ''__type''), LStr (the (sproto_name (tys ! st))))])) }
     else None }"

partial_function (option) ldefault_loop :: "sproto_type list \<Rightarrow> sproto_type \<Rightarrow> nat \<Rightarrow> lua \<Rightarrow> lua option" where
  "ldefault_loop tys st sz t = do {
     (ret, _, t) \<leftarrow> sproto_encode st (replicate sz 0) (encode_default tys) t;
     if ret \<ge> 0 then Some t else ldefault_loop tys st (sz * 2) t }"

declare ldefault_loop.simps [code]

definition ldefault :: "sproto_type list \<Rightarrow> sproto_type \<Rightarrow> lua option" where
  "ldefault tys st = ldefault_loop tys st 64 (LTab [])"

end
