(* ===== verification/Sproto_Spec.thy ===== *)
theory Sproto_Spec
  imports Sproto_Lua
begin

text \<open>
  The wire format of sproto as a reference definition, independent of the buffers and callbacks of
  \<open>sproto.c\<close> and \<open>lsproto.c\<close>: \<open>msg_bytes\<close> is the encoding of a table, \<open>msg_norm\<close> the table that a receiver gets to
  see (the present fields in the order of the schema, empty arrays left out, numbers in text fields
  written out), \<open>msg_need\<close> a buffer size that is enough, and \<open>msg_ok\<close> what a table of a type has to be. The
  recursion goes over the levels of nesting that are left. The second part has the lemmas on
  little-endian bytes.
\<close>

section \<open>Values\<close>

definition fits32 :: "u64 \<Rightarrow> bool" where
  "fits32 v \<longleftrightarrow> drop_bit 31 (sint v) = 0 \<or> drop_bit 31 (sint v) = - 1"

definition int_of :: "lua \<Rightarrow> u64" where
  "int_of v = (case v of LInt i \<Rightarrow> i | _ \<Rightarrow> 0)"

definition field_name :: "field \<Rightarrow> lua" where
  "field_name f = LStr (the (f_name f))"

definition st_fields :: "sproto_type \<Rightarrow> field list" where
  "st_fields st = take (st_n st) (st_f st)"

definition elem_type :: "field \<Rightarrow> int" where
  "elem_type f = f_type f AND NOT SPROTO_TARRAY"

definition is_array_field :: "field \<Rightarrow> bool" where
  "is_array_field f \<longleftrightarrow> f_type f AND SPROTO_TARRAY \<noteq> 0"

text \<open>The elements of an array: all values when the field has a main index, else those at 1, 2, ... up to the first nil.\<close>

definition array_items :: "field \<Rightarrow> lua \<Rightarrow> lua list" where
  "array_items f arr =
     (if f_key f \<ge> 0 then map snd (entries arr)
      else takeWhile (\<lambda>v. v \<noteq> LNil) (map (\<lambda>i. lua_gettable arr (LInt (of_nat i))) [1..<length (entries arr) + 2]))"

section \<open>The bytes of a message\<close>

definition sized :: "bytes \<Rightarrow> bytes" where
  "sized b = le_bytes 4 (of_nat (length b)) @ b"

definition elem_body :: "(u64 \<Rightarrow> bytes) \<Rightarrow> (nat \<Rightarrow> lua \<Rightarrow> bytes) \<Rightarrow> int \<Rightarrow> nat option \<Rightarrow> lua \<Rightarrow> bytes" where
  "elem_body tostr sub ty st v = (if ty = SPROTO_TSTRING then the (lua_tolstring tostr v) else sub (the st) v)"

definition int_width :: "lua list \<Rightarrow> nat" where
  "int_width vs = (if list_all (\<lambda>v. fits32 (int_of v)) vs then 4 else 8)"

definition array_body :: "(u64 \<Rightarrow> bytes) \<Rightarrow> (nat \<Rightarrow> lua \<Rightarrow> bytes) \<Rightarrow> int \<Rightarrow> nat option \<Rightarrow> lua list \<Rightarrow> bytes" where
  "array_body tostr sub ty st vs =
     (if ty = SPROTO_TINTEGER then
        of_nat (int_width vs) # concat (map (\<lambda>v. le_bytes (int_width vs) (int_of v)) vs)
      else if ty = SPROTO_TBOOLEAN then map (\<lambda>v. if v = LBool True then 1 else 0) vs
      else concat (map (\<lambda>v. sized (elem_body tostr sub ty st v)) vs))"

definition int_code :: "u64 \<Rightarrow> int \<times> bytes" where
  "int_code i =
     (if fits32 i then
        if take_bit 32 i < 0x7fff then ((uint (take_bit 32 i) + 1) * 2, []) else (0, sized (le_bytes 4 i))
      else (0, sized (le_bytes 8 i)))"

text \<open>The word of a field in the header and its bytes in the data part; \<open>None\<close> is a field that is left out.\<close>

definition field_code :: "(u64 \<Rightarrow> bytes) \<Rightarrow> (nat \<Rightarrow> lua \<Rightarrow> bytes) \<Rightarrow> field \<Rightarrow> lua \<Rightarrow> (int \<times> bytes) option" where
  "field_code tostr sub f v =
     (if v = LNil then None
      else if is_array_field f then
        let vs = array_items f v in
        if vs = [] then None else Some (0, sized (array_body tostr sub (elem_type f) (f_st f) vs))
      else if f_type f = SPROTO_TINTEGER then Some (int_code (int_of v))
      else if f_type f = SPROTO_TBOOLEAN then Some (if v = LBool True then 4 else 2, [])
      else Some (0, sized (elem_body tostr sub (f_type f) (f_st f) v)))"

fun record_words :: "int \<Rightarrow> (field \<times> int \<times> bytes) list \<Rightarrow> int list" where
  "record_words lasttag [] = []"
| "record_words lasttag ((f, v, d) # items) =
     (if f_tag f - lasttag - 1 > 0 then [(f_tag f - lasttag - 2) * 2 + 1, v] else [v]) @ record_words (f_tag f) items"

definition word_bytes :: "int list \<Rightarrow> bytes" where
  "word_bytes ws = concat (map (\<lambda>w. le_bytes 2 (of_int w)) ws)"

definition record_data :: "(field \<times> int \<times> bytes) list \<Rightarrow> bytes" where
  "record_data items = concat (map (snd \<circ> snd) items)"

definition record_bytes :: "(field \<times> int \<times> bytes) list \<Rightarrow> bytes" where
  "record_bytes items =
     (let ws = record_words (- 1) items in le_bytes 2 (of_nat (length ws)) @ word_bytes ws @ record_data items)"

fun present :: "('a \<Rightarrow> 'b option) \<Rightarrow> 'a list \<Rightarrow> ('a \<times> 'b) list" where
  "present g [] = []"
| "present g (f # fs) = (case g f of None \<Rightarrow> present g fs | Some c \<Rightarrow> (f, c) # present g fs)"

fun msg_bytes :: "(u64 \<Rightarrow> bytes) \<Rightarrow> sproto_type list \<Rightarrow> nat \<Rightarrow> sproto_type \<Rightarrow> lua \<Rightarrow> bytes" where
  "msg_bytes tostr tys 0 st tbl = []"
| "msg_bytes tostr tys (Suc k) st tbl =
     record_bytes (present (\<lambda>f. field_code tostr (\<lambda>s. msg_bytes tostr tys k (tys ! s)) f (lua_gettable tbl (field_name f)))
       (st_fields st))"

section \<open>The room a message needs\<close>

definition elem_need :: "(u64 \<Rightarrow> bytes) \<Rightarrow> (nat \<Rightarrow> lua \<Rightarrow> nat) \<Rightarrow> int \<Rightarrow> nat option \<Rightarrow> lua \<Rightarrow> nat" where
  "elem_need tostr sub ty st v =
     (if ty = SPROTO_TSTRING then length (the (lua_tolstring tostr v)) else sub (the st) v)"

definition array_need :: "(u64 \<Rightarrow> bytes) \<Rightarrow> (nat \<Rightarrow> lua \<Rightarrow> nat) \<Rightarrow> int \<Rightarrow> nat option \<Rightarrow> lua list \<Rightarrow> nat" where
  "array_need tostr sub ty st vs =
     (if ty = SPROTO_TINTEGER then 1 + 8 * length vs
      else if ty = SPROTO_TBOOLEAN then length vs
      else sum_list (map (\<lambda>v. SIZEOF_LENGTH + elem_need tostr sub ty st v) vs) + SIZEOF_LENGTH)"

definition field_need :: "(u64 \<Rightarrow> bytes) \<Rightarrow> (nat \<Rightarrow> lua \<Rightarrow> nat) \<Rightarrow> field \<Rightarrow> lua \<Rightarrow> nat" where
  "field_need tostr sub f v =
     (if is_array_field f then SIZEOF_LENGTH + array_need tostr sub (elem_type f) (f_st f) (array_items f v)
      else if f_type f = SPROTO_TINTEGER \<or> f_type f = SPROTO_TBOOLEAN then 12
      else SIZEOF_LENGTH + (if v = LNil then 0 else elem_need tostr sub (f_type f) (f_st f) v))"

fun msg_need :: "(u64 \<Rightarrow> bytes) \<Rightarrow> sproto_type list \<Rightarrow> nat \<Rightarrow> sproto_type \<Rightarrow> lua \<Rightarrow> nat" where
  "msg_need tostr tys 0 st tbl = 0"
| "msg_need tostr tys (Suc k) st tbl =
     SIZEOF_HEADER + st_maxn st * SIZEOF_FIELD +
     sum_list (map (\<lambda>f. field_need tostr (\<lambda>s. msg_need tostr tys k (tys ! s)) f (lua_gettable tbl (field_name f)))
       (st_fields st))"

section \<open>What the receiver sees\<close>

definition elem_norm :: "(u64 \<Rightarrow> bytes) \<Rightarrow> (nat \<Rightarrow> lua \<Rightarrow> lua) \<Rightarrow> int \<Rightarrow> nat option \<Rightarrow> lua \<Rightarrow> lua" where
  "elem_norm tostr sub ty st v =
     (if ty = SPROTO_TSTRING then LStr (the (lua_tolstring tostr v))
      else if ty = SPROTO_TSTRUCT then sub (the st) v else v)"

text \<open>The value of an element's main index, under which it is filed.\<close>

definition main_key :: "sproto_type list \<Rightarrow> field \<Rightarrow> lua \<Rightarrow> lua" where
  "main_key tys f v =
     (case findtag (tys ! the (f_st f)) (f_key f) of None \<Rightarrow> LNil
      | Some g \<Rightarrow> if is_array_field g then LNil else lua_gettable v (field_name g))"

definition array_norm :: "sproto_type list \<Rightarrow> field \<Rightarrow> lua list \<Rightarrow> lua" where
  "array_norm tys f vs =
     LTab (if f_key f \<ge> 0 then fold (\<lambda>v. put_entry (main_key tys f v) v) vs []
           else zip (map (\<lambda>i. LInt (of_nat i)) [1..<length vs + 1]) vs)"

definition field_norm ::
  "(u64 \<Rightarrow> bytes) \<Rightarrow> sproto_type list \<Rightarrow> (nat \<Rightarrow> lua \<Rightarrow> lua) \<Rightarrow> field \<Rightarrow> lua \<Rightarrow> lua option" where
  "field_norm tostr tys sub f v =
     (if v = LNil then None
      else if is_array_field f then
        let vs = array_items f v in
        if vs = [] then None else Some (array_norm tys f (map (elem_norm tostr sub (elem_type f) (f_st f)) vs))
      else Some (elem_norm tostr sub (f_type f) (f_st f) v))"

fun msg_norm :: "(u64 \<Rightarrow> bytes) \<Rightarrow> sproto_type list \<Rightarrow> nat \<Rightarrow> sproto_type \<Rightarrow> lua \<Rightarrow> lua" where
  "msg_norm tostr tys 0 st tbl = LTab []"
| "msg_norm tostr tys (Suc k) st tbl =
     LTab (map (\<lambda>(f, v). (field_name f, v))
       (present (\<lambda>f. field_norm tostr tys (\<lambda>s. msg_norm tostr tys k (tys ! s)) f (lua_gettable tbl (field_name f)))
         (st_fields st)))"

section \<open>Tables of a type\<close>

definition elem_ok :: "(u64 \<Rightarrow> bytes) \<Rightarrow> (nat \<Rightarrow> lua \<Rightarrow> bool) \<Rightarrow> int \<Rightarrow> nat option \<Rightarrow> lua \<Rightarrow> bool" where
  "elem_ok tostr sub ty st v =
     (if ty = SPROTO_TINTEGER then (case v of LInt _ \<Rightarrow> True | _ \<Rightarrow> False)
      else if ty = SPROTO_TBOOLEAN then (case v of LBool _ \<Rightarrow> True | _ \<Rightarrow> False)
      else if ty = SPROTO_TSTRING then lua_tolstring tostr v \<noteq> None
      else lua_istable v \<and> sub (the st) v)"

text \<open>A Lua table has no key twice, and neither a key nor a value is nil.\<close>

definition table_wf :: "lua \<Rightarrow> bool" where
  "table_wf t \<longleftrightarrow> distinct (map fst (entries t)) \<and>
     list_all (\<lambda>(k, v). k \<noteq> LNil \<and> v \<noteq> LNil) (entries t) \<and> int (length (entries t)) < 2 ^ 62"

definition value_ok ::
  "(u64 \<Rightarrow> bytes) \<Rightarrow> sproto_type list \<Rightarrow> (nat \<Rightarrow> lua \<Rightarrow> bool) \<Rightarrow> (nat \<Rightarrow> lua \<Rightarrow> lua) \<Rightarrow> field \<Rightarrow> lua \<Rightarrow> bool" where
  "value_ok tostr tys sub norm f v \<longleftrightarrow> v = LNil \<or>
     (if is_array_field f then lua_istable v \<and> table_wf v \<and>
        list_all (\<lambda>e. elem_ok tostr sub (elem_type f) (f_st f) e \<and>
          (f_key f \<ge> 0 \<longrightarrow> main_key tys f (elem_norm tostr norm (elem_type f) (f_st f) e) \<noteq> LNil)) (array_items f v)
      else elem_ok tostr sub (f_type f) (f_st f) v)"

fun msg_ok :: "(u64 \<Rightarrow> bytes) \<Rightarrow> sproto_type list \<Rightarrow> nat \<Rightarrow> sproto_type \<Rightarrow> lua \<Rightarrow> bool" where
  "msg_ok tostr tys 0 st tbl = False"
| "msg_ok tostr tys (Suc k) st tbl =
     (lua_istable tbl \<and> list_all (\<lambda>f. value_ok tostr tys (\<lambda>s. msg_ok tostr tys k (tys ! s))
        (\<lambda>s. msg_norm tostr tys k (tys ! s)) f (lua_gettable tbl (field_name f))) (st_fields st))"

text \<open>
  A schema whose tags fit the skip words of the header, with different names in a type and main
  indexes only on arrays of structures.
\<close>

definition schema_ok :: "sproto_type list \<Rightarrow> bool" where
  "schema_ok tys \<longleftrightarrow> list_all (\<lambda>t. type_wf (length tys) t \<and> distinct (map f_name (st_f t)) \<and> int (st_maxn t) < 2 ^ 16 \<and>
     list_all (\<lambda>f. f_tag f < 2 ^ 15 \<and> (f_key f \<ge> 0 \<longrightarrow> f_type f = 0x83)) (st_f t)) tys"

section \<open>Little-endian bytes\<close>

lemma todword_bit:
  assumes "todword p = Some w" "m < 32"
  shows "bit w m = bit (p ! (m div 8)) (m mod 8)"
proof -
  from assms(1) obtain p0 p1 p2 p3 r where p: "p = p0 # p1 # p2 # p3 # r"
    and w: "w = ucast p0 OR push_bit 8 (ucast p1) OR push_bit 16 (ucast p2) OR push_bit 24 (ucast p3)"
    by (auto simp: todword_def split: list.splits)
  consider "m < 8" "m div 8 = 0" "m mod 8 = m" | "8 \<le> m" "m < 16" "m div 8 = 1" "m mod 8 = m - 8"
    | "16 \<le> m" "m < 24" "m div 8 = 2" "m mod 8 = m - 16" | "24 \<le> m" "m < 32" "m div 8 = 3" "m mod 8 = m - 24"
  proof -
    have "m < 8 \<or> 8 \<le> m \<and> m < 16 \<or> 16 \<le> m \<and> m < 24 \<or> 24 \<le> m \<and> m < 32" using assms(2) by linarith
    moreover have "m div 8 = q \<and> m mod 8 = m - 8 * q" if "8 * q \<le> m" "m < 8 * Suc q" for q
      using div_nat_eqI [of 8 q m] that by (simp add: modulo_nat_def)
    from this [of 1] this [of 2] this [of 3] have "8 \<le> m \<and> m < 16 \<Longrightarrow> m div 8 = 1 \<and> m mod 8 = m - 8"
      "16 \<le> m \<and> m < 24 \<Longrightarrow> m div 8 = 2 \<and> m mod 8 = m - 16" "24 \<le> m \<and> m < 32 \<Longrightarrow> m div 8 = 3 \<and> m mod 8 = m - 24"
      by simp_all
    ultimately show thesis using that by auto
  qed
  then show ?thesis unfolding w p by cases (auto simp: bit_simps dest: bit_imp_le_length)
qed

lemma todword_some: "4 \<le> length p \<Longrightarrow> \<exists>w. todword p = Some w"
  by (auto simp: todword_def numeral_eq_Suc Suc_le_length_iff split: list.splits)

lemma todword_le_bytes: "4 \<le> n \<Longrightarrow> todword (le_bytes n v @ r) = Some (ucast v)"
proof -
  assume n: "4 \<le> n"
  then obtain w where w: "todword (le_bytes n v @ r) = Some w" using todword_some [of "le_bytes n v @ r"] by auto
  have "w = ucast v"
  proof (rule bit_word_eqI)
    fix m assume m: "m < LENGTH(32)"
    then have "m div 8 < n" using n by auto
    with todword_bit [OF w, of m] m le_bytes_bit [of "m div 8" n "m mod 8" v] show "bit w m = bit (ucast v :: u32) m"
      by (simp add: nth_append bit_simps)
  qed
  with w show ?thesis by simp
qed

lemma toword_le_bytes: "toword (le_bytes 2 v @ r) = Some (unat v mod 65536)"
proof -
  have s: "le_bytes 2 v = [ucast v, ucast (drop_bit 8 v)]" by (simp add: le_bytes_def numeral_2_eq_2)
  have "unat v mod 256 + 256 * (unat v div 256 mod 256) = unat v mod (256 * 256)"
    using mod_mult2_eq [of "unat v" 256 256] by simp
  then show ?thesis by (simp add: toword_def s unat_ucast unat_drop_bit)
qed

lemma read_int64_le [simp]: "read_int64 (le_bytes 8 v @ r) = Some v"
proof -
  have "todword (drop 4 (le_bytes 8 v @ r)) = Some (ucast (drop_bit 32 v))"
    using todword_le_bytes [of 4 "drop_bit 32 v" r] by (simp add: le_bytes_drop4)
  moreover have "ucast (ucast v :: u32) OR push_bit 32 (ucast (ucast (drop_bit 32 v) :: u32)) = v"
    by (rule bit_word_eqI) (auto simp: bit_simps)
  ultimately show ?thesis by (simp add: read_int64_def todword_le_bytes)
qed

lemma fits32_bits: "fits32 v \<Longrightarrow> 31 \<le> m \<Longrightarrow> m < 64 \<Longrightarrow> bit v m = bit v 31"
proof -
  assume f: "fits32 v" and m: "31 \<le> m" "m < 64"
  have b: "bit (drop_bit 31 (sint v)) n = bit v (min 63 (31 + n))" for n
    by (auto simp: bit_simps bit_sint_iff min_def not_less dest: bit_imp_le_length)
  have c: "bit (drop_bit 31 (sint v)) (m - 31) = bit (drop_bit 31 (sint v)) 0" using f by (auto simp: fits32_def)
  have "min 63 (31 + (m - 31)) = m" using m by auto
  with c [unfolded b] show ?thesis by simp
qed

lemma expand64_fits: "fits32 v \<Longrightarrow> expand64 (ucast v) = v"
proof (rule bit_word_eqI)
  fix m assume f: "fits32 v" and m: "m < LENGTH(64)"
  show "bit (expand64 (ucast v)) m = bit v m"
  proof (cases "m < 32")
    case True
    then show ?thesis by (auto simp: expand64_def bit_simps)
  next
    case False
    with fits32_bits [OF f, of m] m show ?thesis by (auto simp: expand64_def bit_simps)
  qed
qed

lemma le_bytes_8_fits: "fits32 v \<Longrightarrow> le_bytes 8 v = le_bytes 4 v @ replicate 4 (if bit v 31 then 0xff else 0)"
proof (rule nth_equalityI)
  fix i assume f: "fits32 v" and "i < length (le_bytes 8 v)"
  then have i: "i < 8" by simp
  have ff: "(0xff :: u8) = mask 8" by (simp add: mask_eq_exp_minus_1)
  show "le_bytes 8 v ! i = (le_bytes 4 v @ replicate 4 (if bit v 31 then 0xff else 0)) ! i"
  proof (rule bit_word_eqI)
    fix j assume j: "j < LENGTH(8)"
    show "bit (le_bytes 8 v ! i) j = bit ((le_bytes 4 v @ replicate 4 (if bit v 31 then 0xff else 0)) ! i) j"
      using fits32_bits [OF f, of "8 * i + j"] i j
      by (auto simp: le_bytes_bit nth_append ff bit_mask_iff simp del: mask_eq_exp_minus_1)
  qed
qed simp

lemma read_int32_le: "fits32 v \<Longrightarrow> read_int32 (le_bytes 4 v @ r) = Some v"
  by (simp add: read_int32_def todword_le_bytes expand64_fits)

end
