(* ===== verification/Sproto_Enc.thy ===== *)
theory Sproto_Enc
  imports Sproto_Spec
begin

text \<open>
  The encoder writes the wire format: for every table of a type and every buffer with the room that
  \<open>msg_need\<close> names, \<open>sproto_encode\<close> with the Lua callback returns the length of \<open>msg_bytes\<close> and leaves these bytes at
  the start of the buffer (\<open>sproto_encode_writes\<close>, \<open>codec_levels\<close>). The contract \<open>codec_level\<close> is what the callback
  of one level of nesting relies on for the level below.
\<close>

section \<open>Asking for elements\<close>

fun fetch_seq :: "sproto_arg \<Rightarrow> nat \<Rightarrow> encode_ud \<Rightarrow> lua list \<Rightarrow> encode_ud \<Rightarrow> bool" where
  "fetch_seq args i self [] self' \<longleftrightarrow>
     (\<exists>v. encode_fetch (args\<lparr>a_index := int i\<rparr>) self = Some (v, self') \<and> (v = None \<or> v = Some LNil))"
| "fetch_seq args i self (v # vs) self' \<longleftrightarrow> v \<noteq> LNil \<and>
     (\<exists>s. encode_fetch (args\<lparr>a_index := int i\<rparr>) self = Some (Some v, s) \<and> fetch_seq args (Suc i) s vs self')"

lemma encode_fetch_length [simp]: "encode_fetch (args\<lparr>a_length := l, a_index := i\<rparr>) = encode_fetch (args\<lparr>a_index := i\<rparr>)"
  by (rule ext) (simp add: encode_fetch_def Let_def)

lemma encode_fetch_new:
  assumes "0 < i" "eu_array_tag self \<noteq> Some (a_tagid args)" "lua_gettable (eu_tbl self) (LStr (the (a_tagname args))) = arr"
    "lua_istable arr"
  shows "encode_fetch (args\<lparr>a_index := i\<rparr>) self =
    encode_fetch (args\<lparr>a_index := i\<rparr>) (self\<lparr>eu_array_tag := Some (a_tagid args), eu_array := Some arr\<rparr>)"
  using assms by (cases arr) (auto simp: encode_fetch_def Let_def)

lemma fetch_seq_new:
  assumes "0 < i" "eu_array_tag self \<noteq> Some (a_tagid args)" "lua_gettable (eu_tbl self) (LStr (the (a_tagname args))) = arr"
    "lua_istable arr"
  shows "fetch_seq args i self vs self' = fetch_seq args i (self\<lparr>eu_array_tag := Some (a_tagid args), eu_array := Some arr\<rparr>) vs self'"
  using encode_fetch_new [of "int i" self args arr] assms by (cases vs) simp_all

lemma fetch_by_index:
  assumes "0 < i" "eu_array_tag self = Some (a_tagid args)" "eu_array self = Some arr" "a_mainindex args < 0"
  shows "encode_fetch (args\<lparr>a_index := int i\<rparr>) self = Some (Some (lua_gettable arr (LInt (of_nat i))), self)"
  using assms by (simp add: encode_fetch_def Let_def)

lemma fetch_seq_index:
  assumes "0 < i" "eu_array_tag self = Some (a_tagid args)" "eu_array self = Some arr" "a_mainindex args < 0"
    "\<exists>j. i \<le> j \<and> j < m \<and> lua_gettable arr (LInt (of_nat j)) = LNil"
  shows "fetch_seq args i self (takeWhile (\<lambda>v. v \<noteq> LNil) (map (\<lambda>i. lua_gettable arr (LInt (of_nat i))) [i..<m])) self"
  using assms
proof (induction "m - i" arbitrary: i)
  case (Suc d)
  then have "i < m" by simp
  then have u: "[i..<m] = i # [Suc i..<m]" by (rule upt_conv_Cons)
  show ?case
  proof (cases "lua_gettable arr (LInt (of_nat i)) = LNil")
    case True
    then show ?thesis using fetch_by_index [of i self args arr] Suc.prems unfolding u by simp
  next
    case False
    then have "\<exists>j. Suc i \<le> j \<and> j < m \<and> lua_gettable arr (LInt (of_nat j)) = LNil"
      using Suc.prems(5) by (metis le_antisym not_less_eq_eq)
    then have "fetch_seq args (Suc i) self (takeWhile (\<lambda>v. v \<noteq> LNil) (map (\<lambda>i. lua_gettable arr (LInt (of_nat i))) [Suc i..<m])) self"
      using Suc.hyps(2) Suc.prems by (intro Suc.hyps(1)) auto
    then show ?thesis using False fetch_by_index [of i self args arr] Suc.prems unfolding u by simp
  qed
qed auto

lemma gettable_nil_exists:
  assumes "int (length (entries arr)) < 2 ^ 62"
  shows "\<exists>j. 1 \<le> j \<and> j < length (entries arr) + 2 \<and> lua_gettable arr (LInt (of_nat j)) = LNil"
proof (rule ccontr)
  let ?n = "length (entries arr)" and ?key = "\<lambda>j :: nat. LInt (of_nat j)"
  assume no: "\<not> ?thesis"
  have "map_of (entries arr) (?key j) \<noteq> None" if "1 \<le> j" "j \<le> ?n + 1" for j
  proof -
    have "lua_gettable arr (?key j) \<noteq> LNil" using no that by auto
    then show ?thesis by (auto simp: lua_gettable_def split: option.splits)
  qed
  then have "?key ` {1..?n + 1} \<subseteq> set (map fst (entries arr))" by (auto simp: map_of_eq_None_iff)
  then have "card (?key ` {1..?n + 1}) \<le> card (set (map fst (entries arr)))" by (intro card_mono) auto
  also have "\<dots> \<le> ?n" using card_length [of "map fst (entries arr)"] by simp
  finally have le: "card (?key ` {1..?n + 1}) \<le> ?n" .
  have "inj_on ?key {1..?n + 1}"
  proof (rule inj_onI)
    fix a b assume ab: "a \<in> {1..?n + 1}" "b \<in> {1..?n + 1}" "?key a = ?key b"
    have "a < 2 ^ 64" "b < 2 ^ 64" using ab(1,2) assms by auto
    moreover have "(of_nat a :: u64) = of_nat b" using ab(3) by simp
    ultimately show "a = b" by (simp add: word_of_nat_eq_iff take_bit_nat_eq_self)
  qed
  then show False using le by (simp add: card_image)
qed

lemma fetch_by_next:
  assumes "0 < i" "eu_array_tag self = Some (a_tagid args)" "eu_array self = Some arr" "0 \<le> a_mainindex args"
  shows "encode_fetch (args\<lparr>a_index := int i\<rparr>) self = (case lua_next arr (eu_iter self) of
     None \<Rightarrow> Some (None, self\<lparr>eu_iter := LNil\<rparr>) | Some (k, v) \<Rightarrow> Some (Some v, self\<lparr>eu_iter := k\<rparr>))"
  using assms by (simp add: encode_fetch_def Let_def)

lemma next_after_append: "k \<notin> set (map fst pre) \<Longrightarrow>
  next_after k (pre @ (k, v) # post) = (case post of [] \<Rightarrow> None | e # _ \<Rightarrow> Some e)"
  by (induction pre) auto

lemma lua_next_split:
  assumes "table_wf arr" "entries arr = pre @ post"
  shows "lua_next arr (if pre = [] then LNil else fst (last pre)) = (case post of [] \<Rightarrow> None | e # _ \<Rightarrow> Some e)"
proof (cases pre rule: rev_cases)
  case Nil
  then show ?thesis using assms by (simp add: lua_next_def)
next
  case (snoc p e)
  then show ?thesis using assms next_after_append [of "fst e" p "snd e" post]
    by (cases e) (auto simp: lua_next_def table_wf_def)
qed

lemma fetch_seq_next:
  assumes "0 < i" "eu_array_tag self = Some (a_tagid args)" "eu_array self = Some arr" "0 \<le> a_mainindex args"
    "table_wf arr" "entries arr = pre @ post" "eu_iter self = (if pre = [] then LNil else fst (last pre))"
  shows "fetch_seq args i self (map snd post) (self\<lparr>eu_iter := LNil\<rparr>)"
  using assms
proof (induction post arbitrary: i pre self)
  case Nil
  then show ?case using lua_next_split [OF Nil.prems(5,6)] fetch_by_next [of i self args arr] by simp
next
  case (Cons e post)
  obtain k v where e: "e = (k, v)" by fastforce
  have "fetch_seq args (Suc i) (self\<lparr>eu_iter := k\<rparr>) (map snd post) (self\<lparr>eu_iter := k\<rparr>\<lparr>eu_iter := LNil\<rparr>)"
    using Cons.prems by (intro Cons.IH [of _ _ "pre @ [e]"]) (simp_all add: e)
  moreover have "v \<noteq> LNil" using Cons.prems(5,6) by (simp add: table_wf_def e)
  ultimately show ?case
    using lua_next_split [OF Cons.prems(5,6)] fetch_by_next [of i self args arr] Cons.prems by (simp add: e)
qed

definition between :: "lua \<Rightarrow> int option \<Rightarrow> encode_ud \<Rightarrow> bool" where
  "between tbl tag self \<longleftrightarrow> eu_tbl self = tbl \<and> eu_iter self = LNil \<and> eu_array_tag self = tag"

lemma array_fetch:
  assumes "between tbl tag self" "tag \<noteq> Some (f_tag f)" "lua_gettable tbl (field_name f) = arr"
    "arr = LNil \<or> lua_istable arr \<and> table_wf arr"
    "a_tagname args = f_name f" "a_tagid args = f_tag f" "a_mainindex args = f_key f"
  shows "\<exists>self'. fetch_seq args 1 self (array_items f arr) self' \<and> between tbl (Some (f_tag f)) self'"
proof (cases "arr = LNil")
  case True
  then have "encode_fetch (args\<lparr>a_index := 1\<rparr>) self =
      Some (None, self\<lparr>eu_array_tag := Some (f_tag f), eu_array := None\<rparr>)"
    using assms by (auto simp: encode_fetch_def Let_def between_def field_name_def)
  moreover have "array_items f LNil = []" by (simp add: array_items_def lua_gettable_def)
  ultimately show ?thesis using assms(1) True by (auto simp: between_def)
next
  case False
  let ?s = "self\<lparr>eu_array_tag := Some (f_tag f), eu_array := Some arr\<rparr>"
  have new: "fetch_seq args 1 self vs s' = fetch_seq args 1 ?s vs s'" for vs s'
    using fetch_seq_new [of 1 self args arr vs s'] False assms by (simp add: between_def field_name_def)
  show ?thesis
  proof (cases "0 \<le> f_key f")
    case True
    have "fetch_seq args 1 ?s (map snd (entries arr)) (?s\<lparr>eu_iter := LNil\<rparr>)"
      using True False assms by (intro fetch_seq_next [where pre = "[]" and arr = arr]) (auto simp: between_def)
    then show ?thesis using True assms(1) unfolding new
      by (intro exI [of _ "?s\<lparr>eu_iter := LNil\<rparr>"]) (simp add: array_items_def between_def)
  next
    case neg: False
    have "int (length (entries arr)) < 2 ^ 62" using False assms(4) by (simp add: table_wf_def)
    from gettable_nil_exists [OF this] have "fetch_seq args 1 ?s (array_items f arr) ?s"
      using neg False assms fetch_seq_index [of 1 ?s args arr "length (entries arr) + 2"]
      unfolding array_items_def by (simp del: upt_Suc)
    then show ?thesis using assms(1) unfolding new by (intro exI [of _ ?s]) (simp add: between_def)
  qed
qed

section \<open>The callback on one value\<close>

lemma encode_nil:
  "encode_fetch args self = Some (v, s) \<Longrightarrow> v = None \<or> v = Some LNil \<Longrightarrow>
   encode tostr tys (Suc k) args value self = Some (0, value, s)"
  by auto

lemma encode_int:
  assumes "encode_fetch args self = Some (Some (LInt i), s)" "a_type args = SPROTO_TINTEGER" "length value = 8"
  shows "encode tostr tys (Suc k) args value self =
    Some (if fits32 i then (4, le_bytes 4 i @ drop 4 value, s) else (8, le_bytes 8 i, s))"
  using assms by (simp add: fits32_def poke_all_ok)

lemma encode_bool:
  assumes "encode_fetch args self = Some (Some (LBool b), s)" "a_type args = SPROTO_TBOOLEAN" "4 \<le> length value"
  shows "encode tostr tys (Suc k) args value self =
    Some (4, le_bytes 4 (if b then 1 else 0) @ drop 4 value, s)"
  using assms by (simp add: poke_all_ok sproto_consts)

text \<open>What a level owes the one above: it writes the bytes of the sub-message into any buffer that is big enough.\<close>

definition writes :: "(bytes \<Rightarrow> (int \<times> bytes \<times> 'u) option) \<Rightarrow> bytes \<Rightarrow> nat \<Rightarrow> bool" where
  "writes enc bs need \<longleftrightarrow> length bs \<le> need \<and> (\<forall>mem. need \<le> length mem \<longrightarrow>
     (\<exists>mem' ud. enc mem = Some (int (length bs), mem', ud) \<and> length mem' = length mem \<and> take (length bs) mem' = bs))"

definition codec_level :: "(u64 \<Rightarrow> bytes) \<Rightarrow> sproto_type list \<Rightarrow> nat \<Rightarrow> bool" where
  "codec_level tostr tys k \<longleftrightarrow> (\<forall>st\<in>set tys. \<forall>tbl self. msg_ok tostr tys k st tbl \<longrightarrow> between tbl None self \<longrightarrow>
     msg_bytes tostr tys k st tbl \<noteq> [] \<and>
     writes (\<lambda>mem. sproto_encode st mem (encode tostr tys k) self) (msg_bytes tostr tys k st tbl) (msg_need tostr tys k st tbl))"

definition obj_size :: "int \<Rightarrow> bytes \<Rightarrow> int" where
  "obj_size ty bs = int (length bs) + (if ty = SPROTO_TSTRING then 1 else 0)"

lemma encode_obj:
  assumes "encode_fetch args self = Some (Some v, s)" "a_type args = SPROTO_TSTRING \<or> a_type args = SPROTO_TSTRUCT"
    "codec_level tostr tys k" "v \<noteq> LNil" "elem_ok tostr (\<lambda>s. msg_ok tostr tys k (tys ! s)) (a_type args) (a_subtype args) v"
    "a_type args = SPROTO_TSTRUCT \<Longrightarrow> \<exists>n<length tys. a_subtype args = Some n"
    "elem_need tostr (\<lambda>s. msg_need tostr tys k (tys ! s)) (a_type args) (a_subtype args) v \<le> length value"
    "a_length args = int (length value)"
    "bs = elem_body tostr (\<lambda>s. msg_bytes tostr tys k (tys ! s)) (a_type args) (a_subtype args) v"
  shows "0 < obj_size (a_type args) bs \<and> length bs \<le> elem_need tostr (\<lambda>s. msg_need tostr tys k (tys ! s)) (a_type args) (a_subtype args) v \<and>
    (\<exists>value'. encode tostr tys (Suc k) args value self = Some (obj_size (a_type args) bs, value', s) \<and>
       length value' = length value \<and> take (length bs) value' = bs)"
proof (cases "a_type args = SPROTO_TSTRING")
  case True
  then have ne: "a_type args \<noteq> SPROTO_TINTEGER" "a_type args \<noteq> SPROTO_TBOOLEAN" by (simp_all add: sproto_consts)
  have "lua_tolstring tostr v = Some bs" using True ne assms(5,9) by (auto simp: elem_ok_def elem_body_def)
  moreover from this have "length bs \<le> length value" using assms(7) True by (simp add: elem_need_def)
  ultimately show ?thesis using True ne assms(1,4,8) by (simp add: poke_all_ok obj_size_def elem_need_def)
next
  case False
  then have ty: "a_type args = SPROTO_TSTRUCT" using assms(2) by simp
  then have ne: "a_type args \<noteq> SPROTO_TINTEGER" "a_type args \<noteq> SPROTO_TBOOLEAN" by (simp_all add: sproto_consts)
  from assms(6) [OF ty] obtain n where n: "n < length tys" "a_subtype args = Some n" by blast
  let ?sub = "\<lparr>eu_tbl = v, eu_array_tag = None, eu_array = None, eu_iter = LNil\<rparr>"
  have ok: "lua_istable v" "msg_ok tostr tys k (tys ! n) v" using assms(5) ne False n by (simp_all add: elem_ok_def)
  have bs: "bs = msg_bytes tostr tys k (tys ! n) v" using assms(9) False n by (simp add: elem_body_def)
  have "between v None ?sub" by (simp add: between_def)
  with assms(3) ok(2) n(1) have w: "bs \<noteq> []"
    "writes (\<lambda>mem. sproto_encode (tys ! n) mem (encode tostr tys k) ?sub) bs (msg_need tostr tys k (tys ! n) v)"
    unfolding codec_level_def bs by (meson nth_mem)+
  moreover have "msg_need tostr tys k (tys ! n) v \<le> length value" using assms(7) False n by (simp add: elem_need_def)
  ultimately obtain mem' ud where "sproto_encode (tys ! n) value (encode tostr tys k) ?sub = Some (int (length bs), mem', ud)"
    "length mem' = length value" "take (length bs) mem' = bs" unfolding writes_def by blast
  then show ?thesis using ty False ne n ok assms(1,4) w by (simp add: obj_size_def elem_need_def writes_def)
qed

declare encode.simps [simp del]

section \<open>Arrays\<close>

lemma bool_array_writes:
  assumes "fetch_seq args i self vs self'" "a_type args = SPROTO_TBOOLEAN"
    "list_all (\<lambda>v. case v of LBool _ \<Rightarrow> True | _ \<Rightarrow> False) vs" "b + length vs \<le> length mem"
  shows "bool_array_loop (encode tostr tys (Suc k)) args i b mem self =
    Some (Some (b + length vs, take b mem @ map (\<lambda>v. if v = LBool True then 1 else 0) vs @ drop (b + length vs) mem), self')"
  using assms
proof (induction vs arbitrary: i b mem self)
  case Nil
  then obtain v where "encode_fetch (args\<lparr>a_index := int i\<rparr>) self = Some (v, self')" "v = None \<or> v = Some LNil" by auto
  then have "encode tostr tys (Suc k) (args\<lparr>a_length := 4, a_index := int i\<rparr>) (replicate 4 0) self = Some (0, replicate 4 0, self')"
    by (intro encode_nil) simp_all
  then show ?case by (subst bool_array_loop.simps) (simp)
next
  case (Cons v vs)
  then obtain x where v: "v = LBool x" by (auto split: lua.splits)
  from Cons.prems(1) obtain s where s: "encode_fetch (args\<lparr>a_index := int i\<rparr>) self = Some (Some v, s)"
    "fetch_seq args (Suc i) s vs self'" by auto
  let ?b = "if x then 1 else 0 :: u8"
  have e: "encode tostr tys (Suc k) (args\<lparr>a_length := 4, a_index := int i\<rparr>) (replicate 4 0) self =
      Some (4, le_bytes 4 (if x then 1 else 0), s)"
    using s(1) Cons.prems(2) encode_bool [of "args\<lparr>a_length := 4, a_index := int i\<rparr>" self x s "replicate 4 0"]
    by (simp add: v)
  have nz: "le_bytes 4 (if x then 1 else 0) \<noteq> replicate 4 0 \<longleftrightarrow> x" by (simp add: le_bytes_def numeral_eq_Suc)
  have m: "take (Suc b) (mem[b := ?b]) = take b mem @ [?b]" "drop (Suc b + length vs) (mem[b := ?b]) = drop (Suc b + length vs) mem"
    using Cons.prems(4) by (simp_all add: take_poke)
  have "bool_array_loop (encode tostr tys (Suc k)) args (Suc i) (Suc b) (mem[b := ?b]) s =
    Some (Some (Suc b + length vs, take (Suc b) (mem[b := ?b]) @ map (\<lambda>v. if v = LBool True then 1 else 0) vs @
       drop (Suc b + length vs) (mem[b := ?b])), self')"
    using Cons.prems s by (intro Cons.IH) auto
  then show ?case using Cons.prems(4)
    by (subst bool_array_loop.simps) (simp add: e nz poke_def m v)
qed


text \<open>The specifications of the sub-messages one level down.\<close>

abbreviation sub_bytes :: "(u64 \<Rightarrow> bytes) \<Rightarrow> sproto_type list \<Rightarrow> nat \<Rightarrow> nat \<Rightarrow> lua \<Rightarrow> bytes" where
  "sub_bytes tostr tys k s \<equiv> msg_bytes tostr tys k (tys ! s)"

abbreviation sub_need :: "(u64 \<Rightarrow> bytes) \<Rightarrow> sproto_type list \<Rightarrow> nat \<Rightarrow> nat \<Rightarrow> lua \<Rightarrow> nat" where
  "sub_need tostr tys k s \<equiv> msg_need tostr tys k (tys ! s)"

abbreviation sub_ok :: "(u64 \<Rightarrow> bytes) \<Rightarrow> sproto_type list \<Rightarrow> nat \<Rightarrow> nat \<Rightarrow> lua \<Rightarrow> bool" where
  "sub_ok tostr tys k s \<equiv> msg_ok tostr tys k (tys ! s)"

lemma object_array_writes:
  assumes "fetch_seq args i self vs self'" "a_type args = SPROTO_TSTRING \<or> a_type args = SPROTO_TSTRUCT"
    "codec_level tostr tys k" "list_all (elem_ok tostr (sub_ok tostr tys k) (a_type args) (a_subtype args)) vs"
    "a_type args = SPROTO_TSTRUCT \<Longrightarrow> \<exists>n<length tys. a_subtype args = Some n"
    "b + array_need tostr (sub_need tostr tys k) (a_type args) (a_subtype args) vs \<le> length mem"
  shows "\<exists>mem'. object_array_loop (encode tostr tys (Suc k)) args i b mem self =
      Some (Some (b + length (array_body tostr (sub_bytes tostr tys k) (a_type args) (a_subtype args) vs), mem'), self') \<and>
    length mem' = length mem \<and>
    take (b + length (array_body tostr (sub_bytes tostr tys k) (a_type args) (a_subtype args) vs)) mem' =
      take b mem @ array_body tostr (sub_bytes tostr tys k) (a_type args) (a_subtype args) vs"
  using assms
proof (induction vs arbitrary: i b mem self)
  have ne: "a_type args \<noteq> SPROTO_TINTEGER" "a_type args \<noteq> SPROTO_TBOOLEAN"
    using assms(2) by (auto simp: sproto_consts)
  {
    case Nil
    then obtain v where "encode_fetch (args\<lparr>a_index := int i\<rparr>) self = Some (v, self')" "v = None \<or> v = Some LNil" by auto
    then have "encode tostr tys (Suc k) (args\<lparr>a_length := int (length mem - (b + 4)), a_index := int i\<rparr>) (drop (b + 4) mem) self =
        Some (0, drop (b + 4) mem, self')"
      by (intro encode_nil) simp_all
    then show ?case using Nil.prems(6) ne
      by (subst object_array_loop.simps) (simp add: array_body_def array_need_def sizeof_defs)
  next
    case (Cons v vs)
    let ?a = "args\<lparr>a_length := int (length mem - (b + 4)), a_index := int i\<rparr>"
    let ?body = "array_body tostr (sub_bytes tostr tys k) (a_type args) (a_subtype args)"
    let ?need = "array_need tostr (sub_need tostr tys k) (a_type args) (a_subtype args)"
    define bs where "bs = elem_body tostr (sub_bytes tostr tys k) (a_type args) (a_subtype args) v"
    define need where "need = elem_need tostr (sub_need tostr tys k) (a_type args) (a_subtype args) v"
    from Cons.prems(1) obtain s where s: "encode_fetch (args\<lparr>a_index := int i\<rparr>) self = Some (Some v, s)"
      "fetch_seq args (Suc i) s vs self'" "v \<noteq> LNil" by auto
    have room: "?need (v # vs) = 4 + need + ?need vs" and body: "?body (v # vs) = sized bs @ ?body vs"
      using ne by (simp_all add: array_need_def array_body_def need_def bs_def sizeof_defs)
    have "0 < obj_size (a_type ?a) bs \<and> length bs \<le> elem_need tostr (sub_need tostr tys k) (a_type ?a) (a_subtype ?a) v \<and>
      (\<exists>value'. encode tostr tys (Suc k) ?a (drop (b + 4) mem) self = Some (obj_size (a_type ?a) bs, value', s) \<and>
         length value' = length (drop (b + 4) mem) \<and> take (length bs) value' = bs)"
      using s Cons.prems room by (intro encode_obj) (auto simp: need_def bs_def)
    then obtain value' where e: "0 < obj_size (a_type args) bs" "length bs \<le> need"
      "encode tostr tys (Suc k) ?a (drop (b + 4) mem) self = Some (obj_size (a_type args) bs, value', s)"
      "length value' = length mem - (b + 4)" "take (length bs) value' = bs" by (auto simp: need_def)
    define mem2 where "mem2 = take b mem @ le_bytes 4 (of_nat (length bs)) @ value'"
    have fits: "b + 4 + need + ?need vs \<le> length mem" using Cons.prems(6) room by simp
    then have len2: "length mem2 = length mem" using e(4) by (simp add: mem2_def)
    have "take b (take (b + 4) mem @ value') = take b mem" "drop (b + 4) (take (b + 4) mem @ value') = value'"
      using fits by simp_all
    then have fill: "fill_size (take (b + 4) mem @ value') b (int (length bs)) = Some (int (length bs) + 4, mem2)"
      using fits e(4) by (simp add: fill_size_def poke_all_ok mem2_def SIZEOF_LENGTH_def)
    have t2: "take (b + 4 + length bs) mem2 = take b mem @ sized bs" using fits e(5) by (simp add: mem2_def sized_def)
    have "\<exists>mem'. object_array_loop (encode tostr tys (Suc k)) args (Suc i) (b + 4 + length bs) mem2 s =
        Some (Some (b + 4 + length bs + length (?body vs), mem'), self') \<and> length mem' = length mem2 \<and>
        take (b + 4 + length bs + length (?body vs)) mem' = take (b + 4 + length bs) mem2 @ ?body vs"
      using Cons.prems s fits e(2) len2 by (intro Cons.IH) auto
    then obtain mem' where l: "object_array_loop (encode tostr tys (Suc k)) args (Suc i) (b + 4 + length bs) mem2 s =
        Some (Some (b + 4 + length bs + length (?body vs), mem'), self')" "length mem' = length mem2"
        "take (b + 4 + length bs + length (?body vs)) mem' = take (b + 4 + length bs) mem2 @ ?body vs" by blast
    have sz: "(if a_type args = SPROTO_TSTRING then obj_size (a_type args) bs - 1 else obj_size (a_type args) bs) = int (length bs)"
      by (simp add: obj_size_def)
    have "object_array_loop (encode tostr tys (Suc k)) args i b mem self =
        Some (Some (b + 4 + length bs + length (?body vs), mem'), self')"
      using e(1) fits
      by (subst object_array_loop.simps) (simp add: Let_def SIZEOF_LENGTH_def e(3) sz fill l(1) del: of_nat_diff)
    moreover have "length (?body (v # vs)) = 4 + length bs + length (?body vs)" by (simp add: body sized_def)
    ultimately show ?case using l(2,3) t2 len2 body by (intro exI [of _ mem']) (simp add: add.assoc)
  }
qed

lemma length_concat_le_bytes [simp]: "length (concat (map (le_bytes w) ds)) = w * length ds"
  by (induction ds) auto

lemma poke_all_append:
  "length bs \<le> length r \<Longrightarrow> poke_all (pre @ r) (length pre) bs = Some (pre @ bs @ drop (length bs) r)"
  by (simp add: poke_all_ok)

lemma int_of_LInt [simp]: "int_of (LInt i) = i"
  by (simp add: int_of_def)

lemma rearrange_widens:
  "length junk = 4 * length ds \<Longrightarrow> list_all fits32 ds \<Longrightarrow>
   rearrange (length ds) (h # concat (map (le_bytes 4) ds) @ junk @ tl') =
     Some (h # concat (map (le_bytes 8) ds) @ tl')"
proof (induction ds arbitrary: junk tl' rule: rev_induct)
  case (snoc d ds)
  let ?n = "length ds" and ?pre = "h # concat (map (le_bytes 4) ds)"
  define mem where "mem = ?pre @ le_bytes 4 d @ junk @ tl'"
  define junk' where "junk' = take (4 * ?n) (le_bytes 4 d @ junk)"
  have len: "length junk = 4 * ?n + 4" using snoc.prems(1) by simp
  then have j: "length junk' = 4 * ?n" by (simp add: junk'_def)
  have peek: "peek_range mem (1 + ?n * 4) 4 = Some (le_bytes 4 d)" by (simp add: mem_def peek_range_def)
  have split: "le_bytes 4 d @ junk = junk' @ drop (4 * ?n) (le_bytes 4 d @ junk)"
    unfolding junk'_def by (rule append_take_drop_id [symmetric])
  define old where "old = drop (4 * ?n) (le_bytes 4 d @ junk)"
  have o: "length old = 8" using len by (simp add: old_def)
  have "mem = ?pre @ (junk' @ old) @ tl'" unfolding split [folded old_def, symmetric] by (simp add: mem_def)
  then have mem: "mem = (?pre @ junk') @ old @ tl'" by simp
  have pl: "length (?pre @ junk') = 1 + ?n * 8" using j by simp
  have p1: "poke_all mem (1 + ?n * 8) (le_bytes 4 d) = Some ((?pre @ junk') @ le_bytes 4 d @ drop 4 old @ tl')"
    using poke_all_append [of "le_bytes 4 d" "old @ tl'" "?pre @ junk'"] o unfolding mem pl [symmetric] by simp
  have bit: "bit (le_bytes 4 d ! 3) 7 = bit d 31" by (simp add: le_bytes_bit)
  let ?x = "replicate 4 (if bit d 31 then 0xff else 0) :: bytes"
  have "poke_all ((?pre @ junk' @ le_bytes 4 d) @ drop 4 old @ tl') (length (?pre @ junk' @ le_bytes 4 d)) ?x =
    Some ((?pre @ junk' @ le_bytes 4 d) @ ?x @ tl')"
    using o poke_all_append [of ?x "drop 4 old @ tl'" "?pre @ junk' @ le_bytes 4 d"] by simp
  then have p2: "uint32_to_uint64 (bit d 31) ((?pre @ junk') @ le_bytes 4 d @ drop 4 old @ tl') (1 + ?n * 8) =
      Some ((?pre @ junk') @ le_bytes 8 d @ tl')"
    using j snoc.prems(2) le_bytes_8_fits [of d]
    by (simp add: uint32_to_uint64_def mult.commute split: if_splits)
  have "rearrange ?n (?pre @ junk' @ le_bytes 8 d @ tl') = Some (h # concat (map (le_bytes 8) ds) @ le_bytes 8 d @ tl')"
    using snoc.IH [OF j] snoc.prems(2) by simp
  then have "rearrange (Suc ?n) mem = Some (h # concat (map (le_bytes 8) ds) @ le_bytes 8 d @ tl')"
    using peek p1 p2 bit by simp
  then show ?case by (simp add: mem_def)
qed simp

definition ia_state :: "nat \<Rightarrow> u8 \<Rightarrow> u64 list \<Rightarrow> bytes \<Rightarrow> int_array" where
  "ia_state w h ds rest = \<lparr>ia_mem = h # concat (map (le_bytes w) ds) @ rest, ia_buffer = 1 + w * length ds,
     ia_size = int (length rest), ia_intlen = w, ia_index = length ds + 1\<rparr>"


lemma int_element_step:
  assumes "w = 4 \<and> list_all fits32 ds \<or> w = 8" "8 \<le> length rest" "\<not> fits32 i \<Longrightarrow> w = 4 \<Longrightarrow> 4 * length ds + 8 \<le> length rest"
    "w' = (if fits32 i then w else 8)"
  shows "\<exists>rest'. int_element (if fits32 i then 4 else 8) (if fits32 i then le_bytes 4 i @ replicate 4 0 else le_bytes 8 i)
      (ia_state w h ds rest) = Some (Some (ia_state w' h (ds @ [i]) rest')) \<and>
    w' * (length ds + 1) + length rest' = w * length ds + length rest"
proof -
  define pre where "pre = h # concat (map (le_bytes w) ds)"
  have pl: "length pre = 1 + w * length ds" by (simp add: pre_def)
  note poke = poke_all_append
  consider (narrow) "fits32 i" "w = 4" | (sign) "fits32 i" "w = 8" | (grow) "\<not> fits32 i" "w = 4" | (wide) "\<not> fits32 i" "w = 8"
    using assms(1) by blast
  then show ?thesis
  proof cases
    case narrow
    then have "int_element 4 (le_bytes 4 i @ replicate 4 0) (ia_state w h ds rest) =
        Some (Some (ia_state 4 h (ds @ [i]) (drop 4 rest)))"
      using poke [of "le_bytes 4 i" rest pre] pl assms(2)
      by (simp add: int_element_def ia_state_def less_sizeof_def pre_def)
    then show ?thesis using narrow assms(2,4) by (intro exI [of _ "drop 4 rest"]) simp
  next
    case sign
    let ?x = "replicate 4 (if bit i 31 then 0xff else 0) :: bytes"
    have "poke_all (pre @ rest) (length pre) (le_bytes 4 i) = Some (pre @ le_bytes 4 i @ drop 4 rest)"
      using assms(2) poke [of "le_bytes 4 i" rest pre] by simp
    moreover have "poke_all (pre @ le_bytes 4 i @ drop 4 rest) (length pre + 4) ?x = Some (pre @ le_bytes 8 i @ drop 8 rest)"
      using assms(2) poke [of ?x "drop 4 rest" "pre @ le_bytes 4 i"] le_bytes_8_fits [OF sign(1)] by simp
    moreover have "bit ((le_bytes 4 i @ replicate 4 0) ! 3) 7 = bit i 31" by (simp add: nth_append le_bytes_bit)
    ultimately have "int_element 4 (le_bytes 4 i @ replicate 4 0) (ia_state w h ds rest) =
        Some (Some (ia_state 8 h (ds @ [i]) (drop 8 rest)))"
      using assms(2) pl sign by (simp add: int_element_def ia_state_def less_sizeof_def pre_def uint32_to_uint64_def)
    then show ?thesis using sign assms(2,4) by (intro exI [of _ "drop 8 rest"]) simp
  next
    case grow
    let ?n = "length ds" and ?pre8 = "h # concat (map (le_bytes 8) ds)"
    have room: "4 * ?n + 8 \<le> length rest" using assms(3) grow by simp
    define r2 where "r2 = drop (4 * ?n) rest"
    have fit: "list_all fits32 ds" using assms(1) grow by simp
    have "rearrange ?n (h # concat (map (le_bytes 4) ds) @ take (4 * ?n) rest @ r2) = Some (?pre8 @ r2)"
      using rearrange_widens [of "take (4 * ?n) rest" ds h r2] room fit by simp
    then have re: "rearrange ?n (pre @ rest) = Some (?pre8 @ r2)" using grow by (simp add: r2_def pre_def)
    have po: "poke_all (?pre8 @ r2) (length ?pre8) (le_bytes 8 i) = Some (?pre8 @ le_bytes 8 i @ drop 8 r2)"
      using poke [of "le_bytes 8 i" r2 ?pre8] room by (simp add: r2_def)
    have "int (length rest) - int (?n * 4) = int (length r2)" using room by (simp add: r2_def)
    then have "int_element 8 (le_bytes 8 i) (ia_state w h ds rest) = Some (Some (ia_state 8 h (ds @ [i]) (drop 8 r2)))"
      using grow room re po
      by (simp add: int_element_def ia_state_def less_sizeof_def Let_def pre_def r2_def)
    then show ?thesis using grow assms(4) room by (intro exI [of _ "drop 8 r2"]) (simp add: r2_def)
  next
    case wide
    then have "int_element 8 (le_bytes 8 i) (ia_state w h ds rest) = Some (Some (ia_state 8 h (ds @ [i]) (drop 8 rest)))"
      using poke [of "le_bytes 8 i" rest pre] pl assms(2)
      by (simp add: int_element_def ia_state_def less_sizeof_def pre_def)
    then show ?thesis using wide assms(2,4) by (intro exI [of _ "drop 8 rest"]) simp
  qed
qed

lemma int_array_loop_writes:
  assumes "fetch_seq args (length ds + 1) self vs self'" "a_type args = SPROTO_TINTEGER"
    "list_all (\<lambda>v. case v of LInt _ \<Rightarrow> True | _ \<Rightarrow> False) vs"
    "w = 4 \<and> list_all fits32 ds \<or> w = 8" "8 * (length ds + length vs) \<le> w * length ds + length rest"
  shows "\<exists>rest'. int_array_loop (encode tostr tys (Suc k)) args (ia_state w h ds rest) self =
      Some (Some (ia_state (if w = 4 then int_width vs else 8) h (ds @ map int_of vs) rest'), self') \<and>
    (if w = 4 then int_width vs else 8) * (length ds + length vs) + length rest' = w * length ds + length rest"
  using assms
proof (induction vs arbitrary: ds w rest self)
  case Nil
  then obtain v where "encode_fetch (args\<lparr>a_index := int (Suc (length ds))\<rparr>) self = Some (v, self')" "v = None \<or> v = Some LNil" by auto
  then have "encode tostr tys (Suc k) (args\<lparr>a_length := 8, a_index := int (Suc (length ds))\<rparr>) (replicate 8 0) self =
      Some (0, replicate 8 0, self')"
    by (intro encode_nil) simp_all
  moreover have "ia_index (ia_state w h ds rest) = Suc (length ds)" by (simp add: ia_state_def)
  ultimately show ?case using Nil.prems(4)
    by (subst int_array_loop.simps) (auto simp: int_width_def simp del: of_nat_Suc)
next
  case (Cons v vs)
  then obtain i where v: "v = LInt i" by (auto split: lua.splits)
  from Cons.prems(1) obtain s where s: "encode_fetch (args\<lparr>a_index := int (Suc (length ds))\<rparr>) self = Some (Some (LInt i), s)"
    "fetch_seq args (length (ds @ [i]) + 1) s vs self'" by (auto simp: v)
  have e: "encode tostr tys (Suc k) (args\<lparr>a_length := 8, a_index := int (Suc (length ds))\<rparr>) (replicate 8 0) self =
      Some (if fits32 i then 4 else 8, if fits32 i then le_bytes 4 i @ replicate 4 0 else le_bytes 8 i, s)"
    using s(1) Cons.prems(2) encode_int [of "args\<lparr>a_length := 8, a_index := int (Suc (length ds))\<rparr>" self i s "replicate 8 0"]
    by (simp del: of_nat_Suc)
  define w' where "w' = (if fits32 i then w else 8)"
  have "8 \<le> length rest" "w = 4 \<Longrightarrow> 4 * length ds + 8 \<le> length rest" using Cons.prems(4,5) by auto
  from int_element_step [OF Cons.prems(4) this(1) this(2) w'_def, where h = h] obtain r where
    r: "int_element (if fits32 i then 4 else 8) (if fits32 i then le_bytes 4 i @ replicate 4 0 else le_bytes 8 i)
      (ia_state w h ds rest) = Some (Some (ia_state w' h (ds @ [i]) r))" "w' * (length ds + 1) + length r = w * length ds + length rest"
    by blast
  have "\<exists>rest'. int_array_loop (encode tostr tys (Suc k)) args (ia_state w' h (ds @ [i]) r) s =
      Some (Some (ia_state (if w' = 4 then int_width vs else 8) h ((ds @ [i]) @ map int_of vs) rest'), self') \<and>
    (if w' = 4 then int_width vs else 8) * (length (ds @ [i]) + length vs) + length rest' = w' * length (ds @ [i]) + length r"
    using Cons.prems s(2) r(2) by (intro Cons.IH) (auto simp: w'_def)
  then obtain rest' where l: "int_array_loop (encode tostr tys (Suc k)) args (ia_state w' h (ds @ [i]) r) s =
      Some (Some (ia_state (if w' = 4 then int_width vs else 8) h ((ds @ [i]) @ map int_of vs) rest'), self')"
    "(if w' = 4 then int_width vs else 8) * (length (ds @ [i]) + length vs) + length rest' = w' * length (ds @ [i]) + length r" by blast
  have w: "(if w = 4 then int_width (v # vs) else 8) = (if w' = 4 then int_width vs else 8)"
    by (simp add: w'_def int_width_def v)
  have "ia_index (ia_state w h ds rest) = Suc (length ds)" by (simp add: ia_state_def)
  then have "int_array_loop (encode tostr tys (Suc k)) args (ia_state w h ds rest) self =
      Some (Some (ia_state (if w' = 4 then int_width vs else 8) h ((ds @ [i]) @ map int_of vs) rest'), self')"
    by (subst int_array_loop.simps) (simp add: e r(1) l(1) del: of_nat_Suc)
  then show ?case unfolding w using l(2) r(2) by (intro exI [of _ rest']) (simp add: v)
qed


lemma encode_integer_array_writes:
  assumes "fetch_seq args 1 self vs self'" "a_type args = SPROTO_TINTEGER"
    "list_all (\<lambda>v. case v of LInt _ \<Rightarrow> True | _ \<Rightarrow> False) vs" "1 + 8 * length vs \<le> length mem"
    "bs = (if vs = [] then [] else array_body tostr sub SPROTO_TINTEGER st vs)"
  shows "\<exists>mem'. encode_integer_array (encode tostr tys (Suc k)) args mem self = Some (Some (length bs, mem'), self') \<and>
    length mem' = length mem \<and> take (length bs) mem' = bs"
proof -
  obtain h rest where mem: "mem = h # rest" using assms(4) by (cases mem) auto
  have init: "\<lparr>ia_mem = mem, ia_buffer = 1, ia_size = int (length mem) - 1, ia_intlen = 4, ia_index = 1\<rparr> = ia_state 4 h [] rest"
    by (simp add: ia_state_def mem)
  define ds where "ds = map int_of vs"
  have dl: "length ds = length vs" by (simp add: ds_def)
  from int_array_loop_writes [of args "[]" self vs self' 4 rest tostr tys k h] assms mem obtain rest' where
    l: "int_array_loop (encode tostr tys (Suc k)) args (ia_state 4 h [] rest) self =
      Some (Some (ia_state (int_width vs) h ds rest'), self')"
    "int_width vs * length vs + length rest' = length rest" by (auto simp: ds_def)
  show ?thesis
  proof (cases "vs = []")
    case True
    with l dl assms(5) mem show ?thesis
      by (simp add: encode_integer_array_def init [unfolded mem]) (simp add: ia_state_def)
  next
    case False
    then have "0 < int_width vs * length vs" by (simp add: int_width_def)
    moreover have "bs = of_nat (int_width vs) # concat (map (le_bytes (int_width vs)) ds)"
      using False assms(5) by (simp add: array_body_def o_def ds_def)
    ultimately show ?thesis using l mem dl
      by (simp add: encode_integer_array_def init [unfolded mem])
         (simp add: ia_state_def poke_def)
  qed
qed

lemma fill_size_front:
  "4 \<le> length data \<Longrightarrow> fill_size (take 4 data @ mem) 0 (int (length bs)) =
     Some (int (length bs) + 4, le_bytes 4 (of_nat (length bs)) @ mem)"
  by (simp add: fill_size_def poke_all_ok SIZEOF_LENGTH_def)

definition array_code :: "(u64 \<Rightarrow> bytes) \<Rightarrow> (nat \<Rightarrow> lua \<Rightarrow> bytes) \<Rightarrow> int \<Rightarrow> nat option \<Rightarrow> lua list \<Rightarrow> bytes" where
  "array_code tostr sub ty st vs = (if vs = [] then [] else sized (array_body tostr sub ty st vs))"

lemma encode_array_writes:
  assumes "fetch_seq args 1 self vs self'" "codec_level tostr tys k"
    "list_all (elem_ok tostr (sub_ok tostr tys k) (a_type args) (a_subtype args)) vs"
    "a_type args \<in> {SPROTO_TINTEGER, SPROTO_TBOOLEAN, SPROTO_TSTRING, SPROTO_TSTRUCT}"
    "a_type args = SPROTO_TSTRUCT \<Longrightarrow> \<exists>n<length tys. a_subtype args = Some n"
    "4 + array_need tostr (sub_need tostr tys k) (a_type args) (a_subtype args) vs \<le> length data"
    "bs = array_code tostr (sub_bytes tostr tys k) (a_type args) (a_subtype args) vs"
  shows "\<exists>data'. encode_array (encode tostr tys (Suc k)) args data self = Some (int (length bs), data', self') \<and>
    length data' = length data \<and> take (length bs) data' = bs"
proof -
  define body where "body = (if vs = [] then [] else array_body tostr (sub_bytes tostr tys k) (a_type args) (a_subtype args) vs)"
  define r where "r = (if a_type args = SPROTO_TINTEGER then encode_integer_array (encode tostr tys (Suc k)) args (drop 4 data) self
      else if a_type args = SPROTO_TBOOLEAN then bool_array_loop (encode tostr tys (Suc k)) args 1 0 (drop 4 data) self
      else object_array_loop (encode tostr tys (Suc k)) args 1 0 (drop 4 data) self)"
  have "\<exists>mem'. r = Some (Some (length body, mem'), self') \<and> length mem' = length (drop 4 data) \<and> take (length body) mem' = body"
  proof -
    consider (int) "a_type args = SPROTO_TINTEGER" | (bool) "a_type args = SPROTO_TBOOLEAN"
      | (obj) "a_type args = SPROTO_TSTRING \<or> a_type args = SPROTO_TSTRUCT" using assms(4) by blast
    then show ?thesis
    proof cases
      case int
      have a: "list_all (\<lambda>v. case v of LInt _ \<Rightarrow> True | _ \<Rightarrow> False) vs" using assms(3) int by (simp add: elem_ok_def [abs_def])
      have b: "1 + 8 * length vs \<le> length (drop 4 data)" using assms(6) int by (simp add: array_need_def)
      show ?thesis using encode_integer_array_writes [OF assms(1) int a b body_def [unfolded int], of tys k] int
        by (simp add: r_def)
    next
      case bool
      then have b: "a_type args \<noteq> SPROTO_TINTEGER" by (simp add: sproto_consts)
      with bool assms(3) have "list_all (\<lambda>v. case v of LBool _ \<Rightarrow> True | _ \<Rightarrow> False) vs"
        by (simp add: elem_ok_def [abs_def])
      moreover have "length vs \<le> length (drop 4 data)" using assms(6) bool b by (simp add: array_need_def)
      ultimately have "bool_array_loop (encode tostr tys (Suc k)) args 1 0 (drop 4 data) self =
          Some (Some (length vs, map (\<lambda>v. if v = LBool True then 1 else 0) vs @ drop (length vs) (drop 4 data)), self')"
        using bool_array_writes [of args 1 self vs self' 0 "drop 4 data"] assms(1) bool by simp
      moreover have "body = map (\<lambda>v. if v = LBool True then 1 else 0) vs"
        using bool b by (simp add: body_def array_body_def)
      ultimately show ?thesis using bool b \<open>length vs \<le> length (drop 4 data)\<close> by (simp add: r_def)
    next
      case obj
      then have o: "a_type args \<noteq> SPROTO_TINTEGER" "a_type args \<noteq> SPROTO_TBOOLEAN" by (auto simp: sproto_consts)
      then have "body = array_body tostr (sub_bytes tostr tys k) (a_type args) (a_subtype args) vs"
        by (simp add: body_def array_body_def)
      then show ?thesis using object_array_writes [of args 1 self vs self' tostr tys k 0 "drop 4 data"] obj o assms
        by (simp add: r_def)
    qed
  qed
  then obtain mem' where m: "r = Some (Some (length body, mem'), self')" "length mem' = length data - 4" "take (length body) mem' = body"
    by auto
  have len: "4 \<le> length data" using assms(6) by simp
  have empty: "body = [] \<longleftrightarrow> vs = []" by (cases vs) (auto simp: body_def array_body_def sized_def)
  have bs: "bs = (if vs = [] then [] else sized body)" by (simp add: assms(7) array_code_def body_def)
  have "encode_array (encode tostr tys (Suc k)) args data self =
      Some (int (length bs), if vs = [] then take 4 data @ mem' else le_bytes 4 (of_nat (length body)) @ mem', self')"
    using len m(1) fill_size_front [OF len, of mem' body] empty
    unfolding encode_array_def Let_def SIZEOF_LENGTH_def r_def [symmetric] by (simp add: bs sized_def)
  then show ?thesis using m len empty by (auto simp: bs sized_def)
qed


section \<open>Fields\<close>

definition field_type_ok :: "nat \<Rightarrow> field \<Rightarrow> bool" where
  "field_type_ok tn f \<longleftrightarrow> elem_type f \<in> {SPROTO_TINTEGER, SPROTO_TBOOLEAN, SPROTO_TSTRING, SPROTO_TSTRUCT} \<and>
     (elem_type f = SPROTO_TSTRUCT \<longrightarrow> (\<exists>n<tn. f_st f = Some n)) \<and> (\<not> is_array_field f \<longrightarrow> f_type f = elem_type f)"

lemma field_ok_type: "field_ok tn f \<Longrightarrow> field_type_ok tn f"
  unfolding field_ok_def field_type_ok_def elem_type_def is_array_field_def sproto_consts by auto

lemma le_bytes_take_bit: "le_bytes 4 (take_bit 32 v) = le_bytes 4 v"
  by (rule nth_equalityI, simp, rule bit_word_eqI) (auto simp: le_bytes_bit bit_simps)

definition field_written :: "(int \<times> bytes) option \<Rightarrow> nat \<Rightarrow> int \<Rightarrow> int \<Rightarrow> bytes \<Rightarrow> bool" where
  "field_written code need sz value data \<longleftrightarrow> (case code of None \<Rightarrow> sz = 0
     | Some (w, d) \<Rightarrow> 0 < sz \<and> value = w \<and> (if w = 0 then sz = int (length d) else d = []) \<and> length d \<le> need \<and> take (length d) data = d)"

lemma array_code_short:
  assumes "\<And>v. v \<in> set vs \<Longrightarrow> length (elem_body tostr sub ty st v) \<le> elem_need tostr subn ty st v"
  shows "length (array_code tostr sub ty st vs) \<le> 4 + array_need tostr subn ty st vs"
proof -
  have "length (concat (map (\<lambda>v. sized (elem_body tostr sub ty st v)) vs)) \<le>
      sum_list (map (\<lambda>v. SIZEOF_LENGTH + elem_need tostr subn ty st v) vs)"
    using assms by (induction vs) (auto simp: sized_def SIZEOF_LENGTH_def intro: add_mono)
  moreover have "length (concat (map (\<lambda>v. le_bytes w (int_of v)) vs)) = w * length vs" for w by (induction vs) auto
  ultimately show ?thesis by (simp add: array_code_def array_body_def array_need_def sized_def int_width_def)
qed

lemma elem_body_short:
  assumes "codec_level tostr tys k" "elem_ok tostr (sub_ok tostr tys k) ty st v" "ty \<in> {SPROTO_TSTRING, SPROTO_TSTRUCT}"
    "ty = SPROTO_TSTRUCT \<Longrightarrow> \<exists>n<length tys. st = Some n"
  shows "length (elem_body tostr (sub_bytes tostr tys k) ty st v) \<le> elem_need tostr (sub_need tostr tys k) ty st v"
proof (cases "ty = SPROTO_TSTRING")
  case False
  then have ty: "ty = SPROTO_TSTRUCT" using assms(3) by simp
  with assms(4) obtain n where n: "n < length tys" "st = Some n" by blast
  have "msg_ok tostr tys k (tys ! n) v" using assms(2) ty n by (simp add: elem_ok_def sproto_consts)
  moreover have "between v None \<lparr>eu_tbl = v, eu_array_tag = None, eu_array = None, eu_iter = LNil\<rparr>" by (simp add: between_def)
  ultimately have "length (sub_bytes tostr tys k n v) \<le> sub_need tostr tys k n v"
    using assms(1) nth_mem [OF n(1)] unfolding codec_level_def writes_def by blast
  then show ?thesis using n False by (simp add: elem_body_def elem_need_def)
qed (simp add: elem_body_def elem_need_def)

lemma encode_field_array:
  assumes "codec_level tostr tys k" "field_type_ok (length tys) f" "is_array_field f"
    "between tbl tag self" "tag \<noteq> Some (f_tag f)"
    "value_ok tostr tys (sub_ok tostr tys k) norm f (lua_gettable tbl (field_name f))"
    "field_need tostr (sub_need tostr tys k) f (lua_gettable tbl (field_name f)) \<le> length data"
  shows "\<exists>sz value data' self'. encode_field (encode tostr tys (Suc k)) f data self = Some (sz, value, data', self') \<and>
    length data' = length data \<and> between tbl (Some (f_tag f)) self' \<and>
    field_written (field_code tostr (sub_bytes tostr tys k) f (lua_gettable tbl (field_name f)))
      (field_need tostr (sub_need tostr tys k) f (lua_gettable tbl (field_name f))) sz value data'"
proof -
  let ?v = "lua_gettable tbl (field_name f)" and ?vs = "array_items f (lua_gettable tbl (field_name f))"
  let ?a = "\<lparr>a_tagname = f_name f, a_tagid = f_tag f, a_type = elem_type f, a_subtype = f_st f, a_length = 0, a_index = 0,
    a_mainindex = f_key f\<rparr>"
  define bs where "bs = array_code tostr (sub_bytes tostr tys k) (elem_type f) (f_st f) ?vs"
  have nil: "array_items f LNil = []" by (simp add: array_items_def lua_gettable_def)
  from assms have "\<exists>self'. fetch_seq ?a 1 self ?vs self' \<and> between tbl (Some (f_tag f)) self'"
    by (intro array_fetch) (auto simp: value_ok_def)
  then obtain self' where s: "fetch_seq ?a 1 self ?vs self'" "between tbl (Some (f_tag f)) self'" by blast
  have ok: "list_all (elem_ok tostr (sub_ok tostr tys k) (elem_type f) (f_st f)) ?vs"
    using assms(3,6) nil by (auto simp: value_ok_def list_all_iff)
  have need: "field_need tostr (sub_need tostr tys k) f ?v = 4 + array_need tostr (sub_need tostr tys k) (elem_type f) (f_st f) ?vs"
    using assms(3) by (simp add: field_need_def SIZEOF_LENGTH_def)
  have "\<exists>data'. encode_array (encode tostr tys (Suc k)) ?a data self = Some (int (length bs), data', self') \<and>
    length data' = length data \<and> take (length bs) data' = bs"
    using s ok assms(1,2,7) need by (intro encode_array_writes) (auto simp: field_type_ok_def bs_def)
  then obtain data' where d: "encode_array (encode tostr tys (Suc k)) ?a data self = Some (int (length bs), data', self')"
    "length data' = length data" "take (length bs) data' = bs" by blast
  have code: "field_code tostr (sub_bytes tostr tys k) f ?v = (if ?vs = [] then None else Some (0, bs))"
    using assms(3) nil by (auto simp: field_code_def array_code_def bs_def Let_def)
  have "encode_field (encode tostr tys (Suc k)) f data self = Some (int (length bs), 0, data', self')"
    using assms(3) d(1) by (simp add: encode_field_def Let_def is_array_field_def elem_type_def)
  moreover have "length bs \<le> 4 + array_need tostr (sub_need tostr tys k) (elem_type f) (f_st f) ?vs"
  proof (cases "elem_type f \<in> {SPROTO_TSTRING, SPROTO_TSTRUCT}")
    case True
    with ok assms(1,2) show ?thesis unfolding bs_def
      by (intro array_code_short elem_body_short) (auto simp: field_type_ok_def list_all_iff)
  next
    case False
    have "length (concat (map (\<lambda>v. le_bytes w (int_of v)) vs)) = w * length vs" for w vs by (induction vs) auto
    with False assms(2) show ?thesis
      by (auto simp: bs_def array_code_def array_body_def array_need_def sized_def int_width_def field_type_ok_def)
  qed
  moreover have "bs = [] \<longleftrightarrow> ?vs = []" by (simp add: bs_def array_code_def sized_def)
  ultimately show ?thesis using d(2,3) s(2) code need
    by (intro exI [of _ "int (length bs)"] exI [of _ 0] exI [of _ data'] exI [of _ self']) (auto simp: field_written_def)
qed

lemma fetch_scalar:
  "a_index args = 0 \<Longrightarrow> encode_fetch args self = Some (Some (lua_gettable (eu_tbl self) (LStr (the (a_tagname args)))), self)"
  by (simp add: encode_fetch_def Let_def)


lemma encode_field_int:
  assumes "f_type f = SPROTO_TINTEGER" "between tbl tag self" "lua_gettable tbl (field_name f) = LInt i" "12 \<le> length data"
  shows "\<exists>sz value data'. encode_field (encode tostr tys (Suc k)) f data self = Some (sz, value, data', self) \<and>
    length data' = length data \<and> field_written (Some (int_code i)) 12 sz value data'"
proof -
  let ?a = "\<lparr>a_tagname = f_name f, a_tagid = f_tag f, a_type = SPROTO_TINTEGER, a_subtype = f_st f, a_length = 8, a_index = 0,
    a_mainindex = f_key f\<rparr>"
  have na: "\<not> f_type f AND SPROTO_TARRAY \<noteq> 0" using assms(1) by (simp add: sproto_consts)
  have e: "encode tostr tys (Suc k) ?a (replicate 8 0) self =
      Some (if fits32 i then (4, le_bytes 4 i @ replicate 4 0, self) else (8, le_bytes 8 i, self))"
    using encode_int [of ?a self i self "replicate 8 0"] fetch_scalar [of ?a self] assms(2,3)
    by (simp add: between_def field_name_def)
  have four: "encode_integer v data = Some (8, sized (le_bytes 4 v) @ drop 8 data)" for v
    using assms(4) by (simp add: encode_integer_def less_sizeof_def fill_size_def poke_all_ok SIZEOF_LENGTH_def sized_def)
  have eight: "encode_uint64 v data = Some (12, sized (le_bytes 8 v) @ drop 12 data)" for v
    using assms(4) by (simp add: encode_uint64_def less_sizeof_def fill_size_def poke_all_ok SIZEOF_LENGTH_def sized_def)
  consider (small) "fits32 i" "take_bit 32 i < 0x7fff" | (narrow) "fits32 i" "\<not> take_bit 32 i < 0x7fff" | (wide) "\<not> fits32 i" by blast
  then show ?thesis
  proof cases
    case small
    then have "encode_field (encode tostr tys (Suc k)) f data self = Some (2, (uint (take_bit 32 i) + 1) * 2, data, self)"
      using assms(1) na e by (simp add: encode_field_def Let_def le_word_4)
    moreover have "0 \<le> x \<Longrightarrow> (x + 1) * 2 \<noteq> 0" for x :: int by simp
    from this [OF uint_ge_0] have "(uint (take_bit 32 i) + 1) * 2 \<noteq> 0" .
    ultimately show ?thesis using small by (auto simp: field_written_def int_code_def)
  next
    case narrow
    then have "encode_field (encode tostr tys (Suc k)) f data self = Some (8, 0, sized (le_bytes 4 i) @ drop 8 data, self)"
      using assms(1) na e four [of "take_bit 32 i"] by (simp add: encode_field_def Let_def le_word_4 le_bytes_take_bit)
    then show ?thesis using narrow assms(4) by (auto simp: field_written_def int_code_def sized_def)
  next
    case wide
    then have "encode_field (encode tostr tys (Suc k)) f data self = Some (12, 0, sized (le_bytes 8 i) @ drop 12 data, self)"
      using assms(1) na e eight [of i] by (simp add: encode_field_def Let_def)
    then show ?thesis using wide assms(4) by (auto simp: field_written_def int_code_def sized_def)
  qed
qed

lemma encode_field_bool:
  assumes "f_type f = SPROTO_TBOOLEAN" "between tbl tag self" "lua_gettable tbl (field_name f) = LBool b"
  shows "encode_field (encode tostr tys (Suc k)) f data self = Some (2, if b then 4 else 2, data, self)"
proof -
  let ?a = "\<lparr>a_tagname = f_name f, a_tagid = f_tag f, a_type = SPROTO_TBOOLEAN, a_subtype = f_st f, a_length = 8, a_index = 0,
    a_mainindex = f_key f\<rparr>"
  have na: "\<not> f_type f AND SPROTO_TARRAY \<noteq> 0" using assms(1) by (simp add: sproto_consts)
  have "encode tostr tys (Suc k) ?a (replicate 8 0) self =
      Some (4, le_bytes 4 (if b then 1 else 0) @ replicate 4 0, self)"
    using encode_bool [of ?a self b self "replicate 8 0"] fetch_scalar [of ?a self] assms(2,3)
    by (simp add: between_def field_name_def)
  then show ?thesis using assms(1) na by (simp add: encode_field_def Let_def le_word_4)
qed

lemma encode_field_obj:
  assumes "codec_level tostr tys k" "field_type_ok (length tys) f" "f_type f = SPROTO_TSTRING \<or> f_type f = SPROTO_TSTRUCT"
    "between tbl tag self" "lua_gettable tbl (field_name f) = v" "v \<noteq> LNil"
    "elem_ok tostr (sub_ok tostr tys k) (f_type f) (f_st f) v"
    "4 + elem_need tostr (sub_need tostr tys k) (f_type f) (f_st f) v \<le> length data"
    "bs = elem_body tostr (sub_bytes tostr tys k) (f_type f) (f_st f) v"
  shows "\<exists>data'. encode_field (encode tostr tys (Suc k)) f data self = Some (int (length (sized bs)), 0, data', self) \<and>
    length data' = length data \<and> take (length (sized bs)) data' = sized bs \<and>
    length bs \<le> elem_need tostr (sub_need tostr tys k) (f_type f) (f_st f) v"
proof -
  let ?a = "\<lparr>a_tagname = f_name f, a_tagid = f_tag f, a_type = f_type f, a_subtype = f_st f, a_length = int (length data) - 4, a_index = 0,
    a_mainindex = f_key f\<rparr>"
  have na: "\<not> f_type f AND SPROTO_TARRAY \<noteq> 0" "elem_type f = f_type f" using assms(3) by (auto simp: sproto_consts elem_type_def)
  have "encode_fetch ?a self = Some (Some v, self)"
    using fetch_scalar [of ?a self] assms(4,5) by (simp add: between_def field_name_def)
  then have "0 < obj_size (a_type ?a) bs \<and> length bs \<le> elem_need tostr (sub_need tostr tys k) (a_type ?a) (a_subtype ?a) v \<and>
    (\<exists>value'. encode tostr tys (Suc k) ?a (drop 4 data) self = Some (obj_size (a_type ?a) bs, value', self) \<and>
       length value' = length (drop 4 data) \<and> take (length bs) value' = bs)"
    using assms na by (intro encode_obj) (auto simp: field_type_ok_def)
  then obtain value' where e: "0 < obj_size (f_type f) bs" "length bs \<le> elem_need tostr (sub_need tostr tys k) (f_type f) (f_st f) v"
    "encode tostr tys (Suc k) ?a (drop 4 data) self = Some (obj_size (f_type f) bs, value', self)"
    "length value' = length data - 4" "take (length bs) value' = bs" by auto
  have sz: "(if f_type f = SPROTO_TSTRING then obj_size (f_type f) bs - 1 else obj_size (f_type f) bs) = int (length bs)"
    by (simp add: obj_size_def)
  have ty: "f_type f \<noteq> SPROTO_TINTEGER" "f_type f \<noteq> SPROTO_TBOOLEAN" using assms(3) by (auto simp: sproto_consts)
  have "encode_field (encode tostr tys (Suc k)) f data self =
      Some (int (length bs) + 4, 0, le_bytes 4 (of_nat (length bs)) @ value', self)"
    using assms(3,8) na(1) e(1) ty fill_size_front [of data value' bs]
    by (auto simp: encode_field_def encode_object_def Let_def SIZEOF_LENGTH_def e(3) sz)
  then show ?thesis using e(2,4,5) assms(8)
    by (intro exI [of _ "le_bytes 4 (of_nat (length bs)) @ value'"]) (simp add: sized_def)
qed

lemma encode_field_nil:
  assumes "field_type_ok (length tys) f" "\<not> is_array_field f" "between tbl tag self" "lua_gettable tbl (field_name f) = LNil"
    "field_need tostr subn f LNil \<le> length data"
  shows "\<exists>data'. encode_field (encode tostr tys (Suc k)) f data self = Some (0, 0, data', self) \<and> length data' = length data"
proof -
  have na: "\<not> f_type f AND SPROTO_TARRAY \<noteq> 0" using assms(2) by (simp add: is_array_field_def)
  have e: "encode tostr tys (Suc k) \<lparr>a_tagname = f_name f, a_tagid = f_tag f, a_type = ty, a_subtype = f_st f, a_length = l,
      a_index = 0, a_mainindex = f_key f\<rparr> val self = Some (0, val, self)" for ty l val
    using assms(3,4) by (intro encode_nil [where v = "Some LNil"]) (simp_all add: fetch_scalar between_def field_name_def)
  consider "f_type f = SPROTO_TINTEGER \<or> f_type f = SPROTO_TBOOLEAN"
    | (obj) "f_type f = SPROTO_TSTRING \<or> f_type f = SPROTO_TSTRUCT" "\<not> (f_type f = SPROTO_TINTEGER \<or> f_type f = SPROTO_TBOOLEAN)"
    using assms(1,2) by (auto simp: field_type_ok_def)
  then show ?thesis
  proof cases
    case obj
    then have "4 \<le> length data" using assms(2,5) by (simp add: field_need_def SIZEOF_LENGTH_def)
    then show ?thesis using obj na by (auto simp: encode_field_def encode_object_def Let_def SIZEOF_LENGTH_def e)
  qed (use na in \<open>simp add: encode_field_def Let_def e\<close>)
qed


lemma encode_field_writes:
  assumes "codec_level tostr tys k" "field_type_ok (length tys) f" "between tbl tag self" "tag \<noteq> Some (f_tag f)"
    "value_ok tostr tys (sub_ok tostr tys k) norm f (lua_gettable tbl (field_name f))"
    "field_need tostr (sub_need tostr tys k) f (lua_gettable tbl (field_name f)) \<le> length data"
  shows "\<exists>sz value data' self' tag'. encode_field (encode tostr tys (Suc k)) f data self = Some (sz, value, data', self') \<and>
    length data' = length data \<and> between tbl tag' self' \<and> (tag' = tag \<or> tag' = Some (f_tag f)) \<and>
    field_written (field_code tostr (sub_bytes tostr tys k) f (lua_gettable tbl (field_name f)))
      (field_need tostr (sub_need tostr tys k) f (lua_gettable tbl (field_name f))) sz value data'"
proof (cases "is_array_field f")
  case True
  then show ?thesis using encode_field_array [OF assms(1,2) True assms(3-6)] by blast
next
  case False
  let ?v = "lua_gettable tbl (field_name f)"
  have ty: "f_type f \<in> {SPROTO_TINTEGER, SPROTO_TBOOLEAN, SPROTO_TSTRING, SPROTO_TSTRUCT}"
    using assms(2) False by (auto simp: field_type_ok_def)
  have ok: "?v \<noteq> LNil \<Longrightarrow> elem_ok tostr (sub_ok tostr tys k) (f_type f) (f_st f) ?v" using assms(5) False by (simp add: value_ok_def)
  consider (nil) "?v = LNil" | (int) i where "?v = LInt i" "f_type f = SPROTO_TINTEGER"
    | (bool) b where "?v = LBool b" "f_type f = SPROTO_TBOOLEAN"
    | (obj) "f_type f = SPROTO_TSTRING \<or> f_type f = SPROTO_TSTRUCT" "?v \<noteq> LNil"
    using ty ok by (cases ?v) (auto simp: elem_ok_def sproto_consts)
  then show ?thesis
  proof cases
    case nil
    from encode_field_nil [OF assms(2) False assms(3) nil, of tostr "sub_need tostr tys k" data k] assms(6) nil obtain data' where
      "encode_field (encode tostr tys (Suc k)) f data self = Some (0, 0, data', self)" "length data' = length data" by auto
    then show ?thesis using nil assms(3) by (auto simp: field_written_def field_code_def)
  next
    case int
    have n: "field_need tostr (sub_need tostr tys k) f ?v = 12" using int False by (simp add: field_need_def)
    have c: "field_code tostr (sub_bytes tostr tys k) f ?v = Some (int_code i)" using int False by (simp add: field_code_def)
    from encode_field_int [OF int(2) assms(3) int(1), of data tostr tys k] assms(3,6) show ?thesis unfolding n c by fastforce
  next
    case bool
    have n: "field_need tostr (sub_need tostr tys k) f ?v = 12" using bool False by (simp add: field_need_def)
    have c: "field_code tostr (sub_bytes tostr tys k) f ?v = Some (if b then 4 else 2, [])"
      using bool False by (simp add: field_code_def sproto_consts)
    from encode_field_bool [OF bool(2) assms(3) bool(1), of tostr tys k data] assms(3) show ?thesis unfolding n c
      by (auto simp: field_written_def)
  next
    case obj
    define bs where "bs = elem_body tostr (sub_bytes tostr tys k) (f_type f) (f_st f) ?v"
    have t: "f_type f \<noteq> SPROTO_TINTEGER" "f_type f \<noteq> SPROTO_TBOOLEAN" using obj(1) by (auto simp: sproto_consts)
    have n: "field_need tostr (sub_need tostr tys k) f ?v = 4 + elem_need tostr (sub_need tostr tys k) (f_type f) (f_st f) ?v"
      using obj False t by (simp add: field_need_def SIZEOF_LENGTH_def)
    have c: "field_code tostr (sub_bytes tostr tys k) f ?v = Some (0, sized bs)"
      using obj False t by (simp add: field_code_def bs_def)
    from encode_field_obj [OF assms(1,2) obj(1) assms(3) refl obj(2) ok [OF obj(2)] assms(6) [unfolded n] bs_def] obtain data' where
      "encode_field (encode tostr tys (Suc k)) f data self = Some (int (length (sized bs)), 0, data', self)"
      "length data' = length data" "take (length (sized bs)) data' = sized bs"
      "length bs \<le> elem_need tostr (sub_need tostr tys k) (f_type f) (f_st f) ?v" by blast
    then show ?thesis unfolding n c using assms(3)
      by (intro exI [of _ "int (length (sized bs))"] exI [of _ 0] exI [of _ data'] exI [of _ self] exI [of _ tag])
         (simp add: field_written_def sized_def)
  qed
qed

section \<open>Messages\<close>

definition es_state :: "bytes \<Rightarrow> bytes \<Rightarrow> bytes \<Rightarrow> bytes \<Rightarrow> bytes \<Rightarrow> nat \<Rightarrow> int \<Rightarrow> encode_state" where
  "es_state m0 W gap D rest n lt =
     \<lparr>es_mem = m0 @ W @ gap @ D @ rest, es_data = length (m0 @ W @ gap @ D), es_index = n, es_lasttag = lt\<rparr>"

definition field_words :: "int \<Rightarrow> field \<Rightarrow> int \<Rightarrow> int list" where
  "field_words lt f w = (if f_tag f - lt - 1 > 0 then [(f_tag f - lt - 2) * 2 + 1, w] else [w])"

lemma word_bytes_simps [simp]: "word_bytes [] = []" "word_bytes (w # ws) = le_bytes 2 (of_int w) @ word_bytes ws"
  "word_bytes (ws @ ws') = word_bytes ws @ word_bytes ws'"
  by (simp_all add: word_bytes_def)

lemma length_word_bytes [simp]: "length (word_bytes ws) = 2 * length ws"
  by (induction ws) simp_all

lemma put_record_writes:
  assumes "length m0 = 2" "length W = 2 * n" "2 * length (field_words lt f w) \<le> length gap" "f_tag f - lt \<le> 2 ^ 15"
  shows "put_record f w (es_state m0 W gap D rest n lt) = Some (Some (es_state m0 (W @ word_bytes (field_words lt f w))
    (drop (2 * length (field_words lt f w)) gap) D rest (n + length (field_words lt f w)) (f_tag f)))"
proof (cases "f_tag f - lt - 1 > 0")
  case True
  let ?t = "(f_tag f - lt - 2) * 2 + 1"
  have ws: "field_words lt f w = [?t, w]" using True by (simp add: field_words_def)
  have p: "poke_all ((m0 @ W) @ gap @ D @ rest) (length (m0 @ W)) (le_bytes 2 (of_int ?t)) =
      Some ((m0 @ W) @ le_bytes 2 (of_int ?t) @ drop 2 gap @ D @ rest)"
    using assms(3) ws poke_all_append [of "le_bytes 2 (of_int ?t)" "gap @ D @ rest" "m0 @ W"] by simp
  have q: "poke_all ((m0 @ W @ le_bytes 2 (of_int ?t)) @ drop 2 gap @ D @ rest) (length (m0 @ W @ le_bytes 2 (of_int ?t))) (le_bytes 2 (of_int w)) =
      Some ((m0 @ W @ le_bytes 2 (of_int ?t)) @ le_bytes 2 (of_int w) @ drop 4 gap @ D @ rest)"
    using assms(3) ws poke_all_append [of "le_bytes 2 (of_int w)" "drop 2 gap @ D @ rest" "m0 @ W @ le_bytes 2 (of_int ?t)"] by simp
  have "?t = (f_tag f - lt - 1 - 1) * 2 + 1" "?t \<le> 0xffff" using assms(4) by simp_all
  then show ?thesis using True assms(1-3) p q ws
    by (simp add: put_record_def es_state_def Let_def sizeof_defs)
next
  case False
  have ws: "field_words lt f w = [w]" using False by (simp add: field_words_def)
  have "poke_all ((m0 @ W) @ gap @ D @ rest) (length (m0 @ W)) (le_bytes 2 (of_int w)) =
      Some ((m0 @ W) @ le_bytes 2 (of_int w) @ drop 2 gap @ D @ rest)"
    using assms(3) ws poke_all_append [of "le_bytes 2 (of_int w)" "gap @ D @ rest" "m0 @ W"] by simp
  then show ?thesis using False assms(1-3) ws by (simp add: put_record_def es_state_def Let_def sizeof_defs)
qed


lemma record_words_Cons: "record_words lt ((f, w, d) # items) = field_words lt f w @ record_words (f_tag f) items"
  by (simp add: field_words_def)

lemma record_data_simps [simp]: "record_data [] = []" "record_data ((f, w, d) # items) = d @ record_data items"
  by (simp_all add: record_data_def)

lemma drop_es_state: "drop (es_data (es_state m0 W gap D rest n lt)) (es_mem (es_state m0 W gap D rest n lt)) = rest"
  and take_es_state: "take (es_data (es_state m0 W gap D rest n lt)) (es_mem (es_state m0 W gap D rest n lt)) = m0 @ W @ gap @ D"
  by (simp_all add: es_state_def)

lemma encode_fields_Cons:
  assumes "encode_field cb f rest self = Some (sz, w, data', self')" "field_written code need sz w data'"
  shows "encode_fields cb (f # fs) (es_state m0 W gap D rest n lt) self =
    (case code of None \<Rightarrow> encode_fields cb fs (es_state m0 W gap D data' n lt) self'
     | Some (v, d) \<Rightarrow> do {
         r \<leftarrow> put_record f v (es_state m0 W gap (D @ d) (drop (length d) data') n lt);
         case r of None \<Rightarrow> Some (None, self') | Some s \<Rightarrow> encode_fields cb fs s self' })"
proof -
  have mem: "(es_state m0 W gap D rest n lt)\<lparr>es_mem := m0 @ W @ gap @ D @ data'\<rparr> = es_state m0 W gap D data' n lt"
    by (simp add: es_state_def)
  show ?thesis
  proof (cases code)
    case None
    then show ?thesis using assms by (simp add: field_written_def drop_es_state take_es_state mem Let_def)
  next
    case (Some c)
    then obtain v d where c: "code = Some (v, d)" by (cases c) auto
    then have w: "0 < sz" "v = w" "if w = 0 then sz = int (length d) else d = []" "take (length d) data' = d"
      using assms(2) by (simp_all add: field_written_def)
    have "data' = d @ drop (length d) data'" using w(4) by (metis append_take_drop_id)
    then have "w = 0 \<Longrightarrow> (es_state m0 W gap D data' n lt)\<lparr>es_data := es_data (es_state m0 W gap D data' n lt) + length d\<rparr> =
        es_state m0 W gap (D @ d) (drop (length d) data') n lt"
      "w \<noteq> 0 \<Longrightarrow> es_state m0 W gap D data' n lt = es_state m0 W gap (D @ d) (drop (length d) data') n lt"
      using w(3) by (auto simp: es_state_def)
    then show ?thesis using w c assms(1) by (simp add: drop_es_state take_es_state mem Let_def)
  qed
qed

declare encode_fields.simps(2) [simp del]

lemma encode_fields_writes:
  assumes "codec_level tostr tys k" "list_all (field_type_ok (length tys)) fs" "distinct (map f_tag fs)"
    "between tbl tag self" "tag \<notin> Some ` f_tag ` set fs" "- 1 \<le> lt" "list_all (\<lambda>f. 0 \<le> f_tag f \<and> f_tag f < 2 ^ 15) fs"
    "list_all (\<lambda>f. value_ok tostr tys (sub_ok tostr tys k) norm f (lua_gettable tbl (field_name f))) fs"
    "items = present (\<lambda>f. field_code tostr (sub_bytes tostr tys k) f (lua_gettable tbl (field_name f))) fs"
    "sum_list (map (\<lambda>f. field_need tostr (sub_need tostr tys k) f (lua_gettable tbl (field_name f))) fs) \<le> length rest"
    "2 * length (record_words lt items) \<le> length gap" "length m0 = 2" "length W = 2 * n"
  shows "\<exists>rest' lt' self'. encode_fields (encode tostr tys (Suc k)) fs (es_state m0 W gap D rest n lt) self =
      Some (Some (es_state m0 (W @ word_bytes (record_words lt items)) (drop (2 * length (record_words lt items)) gap)
        (D @ record_data items) rest' (n + length (record_words lt items)) lt'), self') \<and>
    length (record_data items) + length rest' = length rest \<and>
    length (record_data items) \<le> sum_list (map (\<lambda>f. field_need tostr (sub_need tostr tys k) f (lua_gettable tbl (field_name f))) fs)"
  using assms
proof (induction fs arbitrary: W gap D rest n lt tag self items)
  case (Cons f fs)
  let ?v = "lua_gettable tbl (field_name f)"
  let ?need = "\<lambda>f. field_need tostr (sub_need tostr tys k) f (lua_gettable tbl (field_name f))"
  let ?items = "present (\<lambda>f. field_code tostr (sub_bytes tostr tys k) f (lua_gettable tbl (field_name f))) fs"
  have ft: "field_type_ok (length tys) f" and tg: "tag \<noteq> Some (f_tag f)"
    and vo: "value_ok tostr tys (sub_ok tostr tys k) norm f ?v" and room: "?need f + sum_list (map ?need fs) \<le> length rest"
    using Cons.prems by auto
  from encode_field_writes [OF Cons.prems(1) ft Cons.prems(4) tg vo, of rest] room obtain sz w data' self' tag' where
    e: "encode_field (encode tostr tys (Suc k)) f rest self = Some (sz, w, data', self')" "length data' = length rest"
      "between tbl tag' self'" "tag' = tag \<or> tag' = Some (f_tag f)"
      "field_written (field_code tostr (sub_bytes tostr tys k) f ?v) (?need f) sz w data'" by auto
  have tag': "tag' \<notin> Some ` f_tag ` set fs" using e(4) Cons.prems(3,5) by (force simp: image_iff)
  note step = encode_fields_Cons [OF e(1,5), of fs m0 W gap D n lt]
  show ?case
  proof (cases "field_code tostr (sub_bytes tostr tys k) f ?v")
    case None
    then have it: "items = ?items" using Cons.prems(9) by simp
    have "\<exists>rest' lt' self''. encode_fields (encode tostr tys (Suc k)) fs (es_state m0 W gap D data' n lt) self' =
        Some (Some (es_state m0 (W @ word_bytes (record_words lt items)) (drop (2 * length (record_words lt items)) gap)
          (D @ record_data items) rest' (n + length (record_words lt items)) lt'), self'') \<and>
      length (record_data items) + length rest' = length data' \<and> length (record_data items) \<le> sum_list (map ?need fs)"
      using Cons.prems e(2,3) tag' room it by (intro Cons.IH) auto
    then show ?thesis unfolding step None option.case using e(2) by (simp, meson trans_le_add2)
  next
    case (Some c)
    then obtain v d where c: "field_code tostr (sub_bytes tostr tys k) f ?v = Some (v, d)" by (cases c) auto
    then have it: "items = (f, v, d) # ?items" using Cons.prems(9) by simp
    have d: "length d \<le> ?need f" "length d \<le> length rest" using e(5) room c by (simp_all add: field_written_def)
    let ?ws = "field_words lt f v"
    have gap: "2 * length ?ws + 2 * length (record_words (f_tag f) ?items) \<le> length gap"
      using Cons.prems(11) unfolding it record_words_Cons by simp
    have "put_record f v (es_state m0 W gap (D @ d) (drop (length d) data') n lt) =
        Some (Some (es_state m0 (W @ word_bytes ?ws) (drop (2 * length ?ws) gap) (D @ d) (drop (length d) data') (n + length ?ws) (f_tag f)))"
      using Cons.prems(6,7,12,13) gap by (intro put_record_writes) auto
    then have s2: "encode_fields (encode tostr tys (Suc k)) (f # fs) (es_state m0 W gap D rest n lt) self =
        encode_fields (encode tostr tys (Suc k)) fs
          (es_state m0 (W @ word_bytes ?ws) (drop (2 * length ?ws) gap) (D @ d) (drop (length d) data') (n + length ?ws) (f_tag f)) self'"
      using step c by simp
    have "\<exists>rest' lt' self''. encode_fields (encode tostr tys (Suc k)) fs
          (es_state m0 (W @ word_bytes ?ws) (drop (2 * length ?ws) gap) (D @ d) (drop (length d) data') (n + length ?ws) (f_tag f)) self' =
        Some (Some (es_state m0 ((W @ word_bytes ?ws) @ word_bytes (record_words (f_tag f) ?items))
          (drop (2 * length (record_words (f_tag f) ?items)) (drop (2 * length ?ws) gap)) ((D @ d) @ record_data ?items) rest'
          (n + length ?ws + length (record_words (f_tag f) ?items)) lt'), self'') \<and>
      length (record_data ?items) + length rest' = length (drop (length d) data') \<and>
      length (record_data ?items) \<le> sum_list (map ?need fs)"
      using Cons.prems e(2,3) tag' room d gap by (intro Cons.IH) auto
    then obtain rest' lt' self'' where "encode_fields (encode tostr tys (Suc k)) (f # fs) (es_state m0 W gap D rest n lt) self =
        Some (Some (es_state m0 (W @ word_bytes (record_words lt items)) (drop (2 * length (record_words lt items)) gap)
          (D @ record_data items) rest' (n + length (record_words lt items)) lt'), self'')"
      "length (record_data items) + length rest' = length rest" "length (record_data ?items) \<le> sum_list (map ?need fs)"
      using d e(2) unfolding s2 it record_words_Cons by (auto simp: add.assoc add.commute)
    then show ?thesis using d(1) by (auto simp: it)
  qed
qed (auto simp: es_state_def)


lemma present_tags: "(f, c) \<in> set (present g fs) \<Longrightarrow> f \<in> set fs"
  by (induction fs) (auto split: option.splits)

lemma record_words_bound:
  assumes "sorted_wrt (<) (p # map f_tag fs)" "lt \<le> p"
  shows "length (record_words lt (present g fs)) \<le> length fs + gaps p (map f_tag fs) + (if lt < p then 1 else 0)"
  using assms
proof (induction fs arbitrary: p lt)
  case (Cons f fs)
  have s: "sorted_wrt (<) (f_tag f # map f_tag fs)" "p < f_tag f" using Cons.prems(1) by simp_all
  show ?case
  proof (cases "g f")
    case None
    have "length (record_words lt (present g fs)) \<le> length fs + gaps (f_tag f) (map f_tag fs) + 1"
      using Cons.IH [OF s(1), of lt] s(2) Cons.prems(2) by simp
    then show ?thesis using None by simp
  next
    case (Some c)
    then obtain v d where c: "present g (f # fs) = (f, v, d) # present g fs" by (cases c) auto
    have "length (record_words (f_tag f) (present g fs)) \<le> length fs + gaps (f_tag f) (map f_tag fs)"
      using Cons.IH [OF s(1), of "f_tag f"] by simp
    then show ?thesis using s(2) Cons.prems(2) unfolding c by simp
  qed
qed simp

lemma record_bytes_append: "ws = record_words (- 1) items \<Longrightarrow>
  record_bytes items = le_bytes 2 (of_nat (length ws)) @ word_bytes ws @ record_data items"
  by (simp add: record_bytes_def Let_def)

lemma sproto_encode_writes:
  assumes "codec_level tostr tys k" "type_wf (length tys) st" "list_all (\<lambda>f. f_tag f < 2 ^ 15) (st_f st)"
    "msg_ok tostr tys (Suc k) st tbl" "between tbl None self"
  shows "writes (\<lambda>mem. sproto_encode st mem (encode tostr tys (Suc k)) self)
    (msg_bytes tostr tys (Suc k) st tbl) (msg_need tostr tys (Suc k) st tbl)"
proof -
  let ?need = "\<lambda>f. field_need tostr (sub_need tostr tys k) f (lua_gettable tbl (field_name f))"
  define fs where "fs = st_fields st"
  define items where "items = present (\<lambda>f. field_code tostr (sub_bytes tostr tys k) f (lua_gettable tbl (field_name f))) fs"
  define ws where "ws = record_words (- 1) items"
  define hs where "hs = 2 + st_maxn st * 2"
  have fs: "fs = st_f st" "take (st_n st) (st_f st) = fs" using assms(2) by (simp_all add: fs_def st_fields_def type_wf_def)
  have wf: "sorted_wrt (<) (map f_tag fs)" "list_all (field_ok (length tys)) fs"
    "st_maxn st = length fs + gaps (- 1) (map f_tag fs)" using assms(2) by (simp_all add: type_wf_def fs)
  then have types: "list_all (field_type_ok (length tys)) fs" "list_all (\<lambda>f. 0 \<le> f_tag f \<and> f_tag f < 2 ^ 15) fs"
    using assms(3) field_ok_type by (auto simp: fs list_all_iff field_ok_def)
  have "sorted_wrt (<) (- 1 # map f_tag fs)" using wf(1) types(2) by (auto simp: list_all_iff)
  from record_words_bound [OF this, of "- 1"] have bound: "length ws \<le> st_maxn st"
    using wf(3) by (simp add: ws_def items_def)
  have dist: "distinct (map f_tag fs)" using wf(1) by (simp add: strict_sorted_iff)
  have val: "list_all (\<lambda>f. value_ok tostr tys (sub_ok tostr tys k) (\<lambda>s. msg_norm tostr tys k (tys ! s)) f (lua_gettable tbl (field_name f))) fs"
    using assms(4) by (simp add: fs_def)
  have bytes: "msg_bytes tostr tys (Suc k) st tbl = le_bytes 2 (of_nat (length ws)) @ word_bytes ws @ record_data items"
    unfolding record_bytes_append [OF ws_def, symmetric] by (simp add: items_def fs_def)
  have need: "msg_need tostr tys (Suc k) st tbl = hs + sum_list (map ?need fs)"
    by (simp add: hs_def fs_def sizeof_defs)
  have run: "\<exists>rest' lt' self'. encode_fields (encode tostr tys (Suc k)) fs (es_state (take 2 mem) [] (drop 2 (take hs mem)) [] (drop hs mem) 0 (- 1)) self =
      Some (Some (es_state (take 2 mem) (word_bytes ws) (drop (2 * length ws) (drop 2 (take hs mem))) (record_data items) rest' (length ws) lt'), self') \<and>
      length (record_data items) + length rest' = length mem - hs \<and> length (record_data items) \<le> sum_list (map ?need fs)"
    if "hs + sum_list (map ?need fs) \<le> length mem" for mem
    using encode_fields_writes [OF assms(1) types(1) dist assms(5) _ _ types(2) val items_def,
        of "- 1" "drop hs mem" "drop 2 (take hs mem)" "take 2 mem" "[]" 0 "[]"] bound that
    by (simp add: ws_def [symmetric] hs_def mult.commute)
  show ?thesis unfolding writes_def
  proof (intro conjI allI impI)
    obtain n where "length (record_data items) \<le> sum_list (map ?need fs)"
      using run [of "replicate (hs + sum_list (map ?need fs)) 0"] by auto
    then show "length (msg_bytes tostr tys (Suc k) st tbl) \<le> msg_need tostr tys (Suc k) st tbl"
      using bound unfolding bytes need by (simp add: hs_def)
  next
    fix mem :: bytes assume "msg_need tostr tys (Suc k) st tbl \<le> length mem"
    then have len: "hs + sum_list (map ?need fs) \<le> length mem" using need by simp
    from run [OF len] obtain rest' lt' self' where
      r: "encode_fields (encode tostr tys (Suc k)) fs (es_state (take 2 mem) [] (drop 2 (take hs mem)) [] (drop hs mem) 0 (- 1)) self =
        Some (Some (es_state (take 2 mem) (word_bytes ws) (drop (2 * length ws) (drop 2 (take hs mem))) (record_data items) rest' (length ws) lt'), self')"
      "length (record_data items) + length rest' = length mem - hs" by blast
    define gap where "gap = drop (2 * length ws) (drop 2 (take hs mem))"
    have gl: "length gap = 2 * (st_maxn st - length ws)" using len by (simp add: gap_def hs_def)
    define m1 where "m1 = le_bytes 2 (of_nat (length ws)) @ word_bytes ws @ gap @ record_data items @ rest'"
    have init: "\<lparr>es_mem = mem, es_data = hs, es_index = 0, es_lasttag = - 1\<rparr> =
        es_state (take 2 mem) [] (drop 2 (take hs mem)) [] (drop hs mem) 0 (- 1)"
    proof -
      have "mem = take 2 mem @ drop 2 (take hs mem) @ drop hs mem"
        using append_take_drop_id [of 2 "take hs mem"] append_take_drop_id [of hs mem]
        by (metis append_assoc min.absorb1 take_take hs_def le_add1)
      then show ?thesis using len by (simp add: es_state_def hs_def)
    qed
    let ?pre = "le_bytes 2 (of_nat (length ws)) @ word_bytes ws"
    have p1: "poke_all (take 2 mem @ word_bytes ws @ gap @ record_data items @ rest') 0 (le_bytes 2 (of_nat (length ws))) = Some m1"
      using len by (simp add: poke_all_ok m1_def hs_def)
    have hl: "2 + length (word_bytes ws) + length gap = hs" using bound gl by (simp add: hs_def)
    have p2: "peek_range m1 hs (length (record_data items)) = Some (record_data items)"
      unfolding hl [symmetric] by (simp add: peek_range_def m1_def)
    define m2 where "m2 = (if length ws \<noteq> st_maxn st then ?pre @ record_data items @ drop (length (record_data items)) (gap @ record_data items @ rest') else m1)"
    have p3: "(if length ws \<noteq> st_maxn st then poke_all m1 (2 + length ws * 2) (record_data items) else Some m1) = Some m2"
      using poke_all_append [of "record_data items" "gap @ record_data items @ rest'" ?pre]
      by (simp add: m2_def m1_def mult.commute)
    have "sproto_encode st mem (encode tostr tys (Suc k)) self =
        Some (int (2 + length ws * 2 + length (record_data items)), m2, self')"
    proof -
      define sF where "sF = es_state (take 2 mem) (word_bytes ws) gap (record_data items) rest' (length ws) lt'"
      have h: "SIZEOF_HEADER + st_maxn st * SIZEOF_FIELD = hs" by (simp add: hs_def sizeof_defs)
      have sF: "es_mem sF = take 2 mem @ word_bytes ws @ gap @ record_data items @ rest'" "es_index sF = length ws"
        "es_data sF - hs = length (record_data items)"
        using len hl by (simp_all add: sF_def es_state_def hs_def)
      have "encode_fields (encode tostr tys (Suc k)) (take (st_n st) (st_f st))
          \<lparr>es_mem = mem, es_data = hs, es_index = 0, es_lasttag = - 1\<rparr> self = Some (Some sF, self')"
        unfolding init fs(2) sF_def gap_def by (rule r(1))
      then show ?thesis using len p1 p2 p3 unfolding sproto_encode_def Let_def h
        by (auto simp: sF sizeof_defs split: if_splits)
    qed
    moreover have "length m2 = length mem" using r(2) hl len by (auto simp: m2_def m1_def)
    moreover have "take (length (?pre @ record_data items)) m2 = ?pre @ record_data items"
      using gl by (auto simp: m2_def m1_def)
    ultimately show "\<exists>mem' ud. sproto_encode st mem (encode tostr tys (Suc k)) self =
        Some (int (length (msg_bytes tostr tys (Suc k) st tbl)), mem', ud) \<and> length mem' = length mem \<and>
        take (length (msg_bytes tostr tys (Suc k) st tbl)) mem' = msg_bytes tostr tys (Suc k) st tbl"
      unfolding bytes by (intro exI [of _ m2] exI [of _ self']) simp
  qed
qed

lemma codec_levels: "schema_ok tys \<Longrightarrow> codec_level tostr tys k"
proof (induction k)
  case 0
  then show ?case by (simp add: codec_level_def)
next
  case (Suc k)
  show ?case unfolding codec_level_def
  proof (intro ballI allI impI)
    fix st tbl self assume st: "st \<in> set tys" "msg_ok tostr tys (Suc k) st tbl" "between tbl None self"
    have "type_wf (length tys) st" "list_all (\<lambda>f. f_tag f < 2 ^ 15) (st_f st)"
      using Suc.prems st(1) by (auto simp: schema_ok_def list_all_iff)
    from sproto_encode_writes [OF Suc.IH [OF Suc.prems] this st(2,3)]
    show "msg_bytes tostr tys (Suc k) st tbl \<noteq> [] \<and>
      writes (\<lambda>mem. sproto_encode st mem (encode tostr tys (Suc k)) self) (msg_bytes tostr tys (Suc k) st tbl)
        (msg_need tostr tys (Suc k) st tbl)" by (simp add: record_bytes_def Let_def)
  qed
qed

end
