(* ===== verification/Sproto_Round.thy ===== *)
theory Sproto_Round
  imports Sproto_Enc
begin

text \<open>
  The decoder reads the wire format back: \<open>sproto_decode\<close> of \<open>msg_bytes\<close> with the Lua callback consumes all the bytes
  and builds \<open>msg_norm\<close> of the table (\<open>sproto_decode_reads\<close>, \<open>reads_levels\<close>); with the encoder's theorem this is the
  round trip of \<open>lencode\<close> and \<open>ldecode\<close>. The contract \<open>reads_level\<close> is what the callback of one level of nesting
  relies on for the level below. The last theorem shows where the encoder leaves its buffer.
\<close>

section \<open>Tables\<close>

lemma put_entry_new: "k \<notin> fst ` set t \<Longrightarrow> put_entry k v t = t @ [(k, v)]"
  by (induction t) auto

lemma put_entry_last: "k \<notin> fst ` set t \<Longrightarrow> put_entry k v (t @ [(k, v')]) = t @ [(k, v)]"
  by (induction t) auto

lemma gettable_last: "k \<notin> fst ` set t \<Longrightarrow> lua_gettable (LTab (t @ [(k, v)])) k = v"
  by (simp add: lua_gettable_def map_add_def map_of_eq_None_iff [THEN iffD2])

abbreviation sub_norm :: "(u64 \<Rightarrow> bytes) \<Rightarrow> sproto_type list \<Rightarrow> nat \<Rightarrow> nat \<Rightarrow> lua \<Rightarrow> lua" where
  "sub_norm tostr tys k s \<equiv> msg_norm tostr tys k (tys ! s)"

section \<open>The callback on one value\<close>

definition decode_init :: "int \<Rightarrow> decode_ud" where
  "decode_init m = \<lparr>du_result = LTab [], du_array_tag = None, du_array = None, du_mainindex_tag = m, du_key = LNil\<rparr>"

definition found_key :: "sproto_type \<Rightarrow> int \<Rightarrow> lua \<Rightarrow> lua" where
  "found_key st m v = (case findtag st m of None \<Rightarrow> LNil
     | Some g \<Rightarrow> if is_array_field g then LNil else lua_gettable v (field_name g))"

definition reads_level :: "(u64 \<Rightarrow> bytes) \<Rightarrow> sproto_type list \<Rightarrow> nat \<Rightarrow> bool" where
  "reads_level tostr tys k \<longleftrightarrow> (\<forall>st\<in>set tys. \<forall>tbl m. msg_ok tostr tys k st tbl \<longrightarrow>
     int (length (msg_bytes tostr tys k st tbl)) < 2 ^ 32 \<longrightarrow>
     (\<exists>self. sproto_decode st (msg_bytes tostr tys k st tbl) (decode tys k) (decode_init m) =
         Some (int (length (msg_bytes tostr tys k st tbl)), self) \<and>
       du_result self = msg_norm tostr tys k st tbl \<and> du_key self = found_key st m (msg_norm tostr tys k st tbl)))"

text \<open>The bytes behind \<open>value\<close> when the callback gets an element.\<close>

definition elem_rep :: "(u64 \<Rightarrow> bytes) \<Rightarrow> (nat \<Rightarrow> lua \<Rightarrow> bytes) \<Rightarrow> int \<Rightarrow> nat option \<Rightarrow> lua \<Rightarrow> bytes" where
  "elem_rep tostr sub ty st v =
     (if ty = SPROTO_TINTEGER then le_bytes 8 (int_of v)
      else if ty = SPROTO_TBOOLEAN then le_bytes 8 (if v = LBool True then 1 else 0)
      else elem_body tostr sub ty st v)"

definition elem_fits :: "(u64 \<Rightarrow> bytes) \<Rightarrow> sproto_type list \<Rightarrow> nat \<Rightarrow> sproto_arg \<Rightarrow> lua \<Rightarrow> bool" where
  "elem_fits tostr tys k args v \<longleftrightarrow>
     a_type args \<in> {SPROTO_TINTEGER, SPROTO_TBOOLEAN, SPROTO_TSTRING, SPROTO_TSTRUCT} \<and>
     elem_ok tostr (sub_ok tostr tys k) (a_type args) (a_subtype args) v \<and>
     (a_type args = SPROTO_TSTRUCT \<longrightarrow> (\<exists>n<length tys. a_subtype args = Some n) \<and>
        int (length (sub_bytes tostr tys k (the (a_subtype args)) v)) < 2 ^ 32 \<and>
        a_length args = int (length (sub_bytes tostr tys k (the (a_subtype args)) v)))"

definition decode_finish :: "sproto_arg \<Rightarrow> lua \<Rightarrow> decode_ud \<Rightarrow> (int \<times> decode_ud) option" where
  "decode_finish args v self =
     (if a_index args > 0 then do {
        arr \<leftarrow> du_array self;
        Some (0, array_set arr (LInt (of_int (a_index args))) v self) }
      else Some (0, (if du_mainindex_tag self = a_tagid args then self\<lparr>du_key := v\<rparr> else self)
        \<lparr>du_result := lua_settable (du_result self) (LStr (the (a_tagname args))) v\<rparr>))"

lemma decode_elem:
  assumes "reads_level tostr tys k" "elem_fits tostr tys k args v"
    "a_index args > 0 \<Longrightarrow> du_array_tag self = Some (a_tagid args)" "a_mainindex args < 0 \<or> a_type args \<noteq> SPROTO_TSTRUCT"
  shows "decode tys (Suc k) args (elem_rep tostr (sub_bytes tostr tys k) (a_type args) (a_subtype args) v) self =
    decode_finish args (elem_norm tostr (sub_norm tostr tys k) (a_type args) (a_subtype args) v) self"
proof -
  have new: "\<not> (a_index args > 0 \<and> Some (a_tagid args) \<noteq> du_array_tag self)" using assms(3) by auto
  have ok: "elem_ok tostr (sub_ok tostr tys k) (a_type args) (a_subtype args) v" using assms(2) by (simp add: elem_fits_def)
  consider (int) i where "a_type args = SPROTO_TINTEGER" "v = LInt i" | (bool) b where "a_type args = SPROTO_TBOOLEAN" "v = LBool b"
    | (str) "a_type args = SPROTO_TSTRING" | (struct) "a_type args = SPROTO_TSTRUCT"
    using assms(2) by (cases v) (auto simp: elem_fits_def elem_ok_def sproto_consts)
  then show ?thesis
  proof cases
    case int
    then show ?thesis using new
      by (simp add: elem_rep_def elem_norm_def decode_finish_def Let_def) (auto simp: sproto_consts)
  next
    case bool
    have "(ucast (if b then 1 else 0 :: u64) :: u32) \<noteq> 0 \<longleftrightarrow> b" by simp
    then show ?thesis using bool new
      by (simp add: elem_rep_def elem_norm_def decode_finish_def Let_def sproto_consts)
  next
    case str
    then show ?thesis using new
      by (simp add: elem_rep_def elem_body_def elem_norm_def decode_finish_def Let_def sproto_consts)
  next
    case struct
    then obtain n where n: "n < length tys" "a_subtype args = Some n"
      "int (length (sub_bytes tostr tys k n v)) < 2 ^ 32" "a_length args = int (length (sub_bytes tostr tys k n v))"
      using assms(2) by (auto simp: elem_fits_def)
    have "msg_ok tostr tys k (tys ! n) v" using ok struct n by (simp add: elem_ok_def sproto_consts)
    then obtain sub where s: "sproto_decode (tys ! n) (sub_bytes tostr tys k n v) (decode tys k) (decode_init (- 1)) =
        Some (int (length (sub_bytes tostr tys k n v)), sub)" "du_result sub = sub_norm tostr tys k n v"
      using assms(1) n(1,3) nth_mem [OF n(1)] unfolding reads_level_def by blast
    have "\<not> 0 \<le> a_mainindex args" using assms(4) struct by simp
    then show ?thesis using struct new n s unfolding decode_init_def
      by (simp add: elem_rep_def elem_body_def elem_norm_def decode_finish_def Let_def sproto_consts)
  qed
qed

lemma decode_keyed:
  assumes "reads_level tostr tys k" "elem_fits tostr tys k args v"
    "a_index args > 0" "du_array_tag self = Some (a_tagid args)" "du_array self = Some name" "0 \<le> a_mainindex args"
    "a_type args = SPROTO_TSTRUCT" "nv = sub_norm tostr tys k (the (a_subtype args)) v"
    "key = found_key (tys ! the (a_subtype args)) (a_mainindex args) nv" "key \<noteq> LNil"
  shows "decode tys (Suc k) args (elem_rep tostr (sub_bytes tostr tys k) (a_type args) (a_subtype args) v) self =
    Some (0, array_set name key nv self)"
proof -
  have new: "\<not> (a_index args > 0 \<and> Some (a_tagid args) \<noteq> du_array_tag self)" using assms(4) by auto
  obtain n where n: "n < length tys" "a_subtype args = Some n"
    "int (length (sub_bytes tostr tys k n v)) < 2 ^ 32" "a_length args = int (length (sub_bytes tostr tys k n v))"
    using assms(2,7) by (auto simp: elem_fits_def)
  have "msg_ok tostr tys k (tys ! n) v" using assms(2,7) n by (simp add: elem_fits_def elem_ok_def sproto_consts)
  then obtain sub where s: "sproto_decode (tys ! n) (sub_bytes tostr tys k n v) (decode tys k) (decode_init (a_mainindex args)) =
      Some (int (length (sub_bytes tostr tys k n v)), sub)" "du_result sub = nv" "du_key sub = key"
    using assms(1,8,9) n nth_mem [OF n(1)] unfolding reads_level_def option.sel by fastforce
  then show ?thesis using assms(3-7,10) new n unfolding decode_init_def
    by (simp add: elem_rep_def elem_body_def Let_def sproto_consts)
qed

declare decode.simps [simp del]


section \<open>Arrays\<close>

text \<open>The state while the array of a field is filled, and the key of its \<open>i\<close>-th element.\<close>

definition array_state :: "decode_ud \<Rightarrow> field \<Rightarrow> (lua \<times> lua) list \<Rightarrow> (lua \<times> lua) list \<Rightarrow> decode_ud" where
  "array_state self f acc t = self\<lparr>du_array_tag := Some (f_tag f), du_array := Some (field_name f),
     du_result := LTab (acc @ [(field_name f, LTab t)])\<rparr>"

definition elem_key :: "sproto_type list \<Rightarrow> field \<Rightarrow> nat \<Rightarrow> lua \<Rightarrow> lua" where
  "elem_key tys f i v = (if f_key f \<ge> 0 then main_key tys f v else LInt (of_nat i))"

fun put_elems :: "sproto_type list \<Rightarrow> field \<Rightarrow> nat \<Rightarrow> lua list \<Rightarrow> (lua \<times> lua) list \<Rightarrow> (lua \<times> lua) list" where
  "put_elems tys f i [] t = t"
| "put_elems tys f i (v # vs) t = put_elems tys f (Suc i) vs (put_entry (elem_key tys f i v) v t)"

definition array_args :: "field \<Rightarrow> sproto_arg" where
  "array_args f = \<lparr>a_tagname = f_name f, a_tagid = f_tag f, a_type = elem_type f, a_subtype = f_st f, a_length = 0,
     a_index = 0, a_mainindex = f_key f\<rparr>"

lemma array_set_state:
  "field_name f \<notin> fst ` set acc \<Longrightarrow>
   array_set (field_name f) k v (array_state self f acc t) = array_state self f acc (put_entry k v t)"
  by (simp add: array_set_def array_state_def gettable_last lua_settable_def put_entry_last)

text \<open>The first element of an array finds another array's tag and starts the new table.\<close>

lemma decode_new_array:
  assumes "0 < i" "du_array_tag self \<noteq> Some (f_tag f)" "du_result self = LTab acc" "field_name f \<notin> fst ` set acc"
  shows "decode tys (Suc k) ((array_args f)\<lparr>a_index := i, a_length := l\<rparr>) val self =
    decode tys (Suc k) ((array_args f)\<lparr>a_index := i, a_length := l\<rparr>) val (array_state self f acc [])"
proof -
  let ?a = "(array_args f)\<lparr>a_index := i, a_length := l\<rparr>"
  let ?start = "\<lambda>self. if a_index ?a > 0 \<and> Some (a_tagid ?a) \<noteq> du_array_tag self
    then self\<lparr>du_array_tag := Some (a_tagid ?a), du_array := Some (LStr (the (a_tagname ?a))),
           du_result := lua_settable (du_result self) (LStr (the (a_tagname ?a))) (LTab [])\<rparr> else self"
  have l: "?start self = array_state self f acc []"
    using assms by (auto simp: array_args_def array_state_def field_name_def lua_settable_def put_entry_new)
  have r: "?start (array_state self f acc []) = array_state self f acc []"
    by (simp add: array_args_def array_state_def)
  show ?thesis unfolding decode.simps(2) Let_def l r by (rule refl)
qed

text \<open>What an element of the array of a field has to be, and the bytes the callback gets for it.\<close>

definition item_fits :: "(u64 \<Rightarrow> bytes) \<Rightarrow> sproto_type list \<Rightarrow> nat \<Rightarrow> field \<Rightarrow> lua \<Rightarrow> bool" where
  "item_fits tostr tys k f v \<longleftrightarrow> elem_ok tostr (sub_ok tostr tys k) (elem_type f) (f_st f) v \<and>
     (f_key f \<ge> 0 \<longrightarrow> elem_type f = SPROTO_TSTRUCT \<and>
        main_key tys f (elem_norm tostr (sub_norm tostr tys k) (elem_type f) (f_st f) v) \<noteq> LNil) \<and>
     (elem_type f = SPROTO_TSTRUCT \<longrightarrow> int (length (sub_bytes tostr tys k (the (f_st f)) v)) < 2 ^ 32)"

abbreviation item_rep :: "(u64 \<Rightarrow> bytes) \<Rightarrow> sproto_type list \<Rightarrow> nat \<Rightarrow> field \<Rightarrow> lua \<Rightarrow> bytes" where
  "item_rep tostr tys k f v \<equiv> elem_rep tostr (sub_bytes tostr tys k) (elem_type f) (f_st f) v"

abbreviation item_norm :: "(u64 \<Rightarrow> bytes) \<Rightarrow> sproto_type list \<Rightarrow> nat \<Rightarrow> field \<Rightarrow> lua \<Rightarrow> lua" where
  "item_norm tostr tys k f v \<equiv> elem_norm tostr (sub_norm tostr tys k) (elem_type f) (f_st f) v"

lemma decode_array_elem:
  assumes "reads_level tostr tys k" "field_type_ok (length tys) f" "item_fits tostr tys k f v" "0 < i"
    "field_name f \<notin> fst ` set acc" "elem_type f = SPROTO_TSTRUCT \<Longrightarrow> l = int (length (item_rep tostr tys k f v))"
  shows "decode tys (Suc k) ((array_args f)\<lparr>a_index := int i, a_length := l\<rparr>) (item_rep tostr tys k f v) (array_state self f acc t) =
    Some (0, array_state self f acc (put_entry (elem_key tys f i (item_norm tostr tys k f v)) (item_norm tostr tys k f v) t))"
proof -
  let ?a = "(array_args f)\<lparr>a_index := int i, a_length := l\<rparr>"
  have fits: "elem_fits tostr tys k ?a v"
    using assms(2,3,6) by (auto simp: elem_fits_def array_args_def field_type_ok_def item_fits_def elem_rep_def elem_body_def sproto_consts)
  have st: "du_array_tag (array_state self f acc t) = Some (a_tagid ?a)" "du_array (array_state self f acc t) = Some (field_name f)"
    by (simp_all add: array_state_def array_args_def)
  show ?thesis
  proof (cases "f_key f \<ge> 0")
    case False
    have "decode tys (Suc k) ?a (elem_rep tostr (sub_bytes tostr tys k) (a_type ?a) (a_subtype ?a) v) (array_state self f acc t) =
      decode_finish ?a (elem_norm tostr (sub_norm tostr tys k) (a_type ?a) (a_subtype ?a) v) (array_state self f acc t)"
      using False st by (intro decode_elem assms fits) (simp_all add: array_args_def)
    then show ?thesis using False st assms(4,5)
      by (simp add: array_args_def decode_finish_def elem_key_def array_set_state)
  next
    case True
    then have ty: "elem_type f = SPROTO_TSTRUCT" and ne: "main_key tys f (item_norm tostr tys k f v) \<noteq> LNil"
      using assms(3) True by (auto simp: item_fits_def)
    have nv: "item_norm tostr tys k f v = sub_norm tostr tys k (the (f_st f)) v" using ty by (simp add: elem_norm_def sproto_consts)
    have key: "main_key tys f w = found_key (tys ! the (f_st f)) (f_key f) w" for w by (simp add: main_key_def found_key_def)
    have "decode tys (Suc k) ?a (elem_rep tostr (sub_bytes tostr tys k) (a_type ?a) (a_subtype ?a) v) (array_state self f acc t) =
      Some (0, array_set (field_name f) (main_key tys f (item_norm tostr tys k f v)) (item_norm tostr tys k f v) (array_state self f acc t))"
      using True st ty assms(4) ne nv key by (intro decode_keyed assms fits) (simp_all add: array_args_def)
    then show ?thesis using True assms(5) by (simp add: array_args_def elem_key_def array_set_state)
  qed
qed

text \<open>The state in which the callback meets an element: the array is under way, or it is about to begin.\<close>

definition array_from :: "field \<Rightarrow> (lua \<times> lua) list \<Rightarrow> decode_ud \<Rightarrow> (lua \<times> lua) list \<Rightarrow> decode_ud \<Rightarrow> bool" where
  "array_from f acc self t ud \<longleftrightarrow> field_name f \<notin> fst ` set acc \<and> (ud = array_state self f acc t \<or>
     t = [] \<and> ud = self \<and> du_array_tag self \<noteq> Some (f_tag f) \<and> du_result self = LTab acc)"

definition array_fresh :: "field \<Rightarrow> (lua \<times> lua) list \<Rightarrow> decode_ud \<Rightarrow> bool" where
  "array_fresh f acc self \<longleftrightarrow> field_name f \<notin> fst ` set acc \<and> du_array_tag self \<noteq> Some (f_tag f) \<and> du_result self = LTab acc"

lemma array_fresh_from: "array_fresh f acc self \<Longrightarrow> array_from f acc self [] self"
  by (simp add: array_fresh_def array_from_def)

lemma decode_array_item:
  assumes "reads_level tostr tys k" "field_type_ok (length tys) f" "item_fits tostr tys k f v" "0 < i"
    "array_from f acc self t ud" "elem_type f = SPROTO_TSTRUCT \<Longrightarrow> l = int (length (item_rep tostr tys k f v))"
  shows "decode tys (Suc k) ((array_args f)\<lparr>a_index := int i, a_length := l\<rparr>) (item_rep tostr tys k f v) ud =
    Some (0, array_state self f acc (put_entry (elem_key tys f i (item_norm tostr tys k f v)) (item_norm tostr tys k f v) t))"
  using assms(5) decode_array_elem [OF assms(1-4), where acc = acc and l = l and self = self and t = t]
    decode_new_array [of "int i" self f acc] assms(4,6)
  by (auto simp: array_from_def)

lemma decode_scalars_reads:
  assumes "reads_level tostr tys k" "field_type_ok (length tys) f" "elem_type f \<noteq> SPROTO_TSTRUCT"
    "list_all (item_fits tostr tys k f) vs" "array_from f acc self t ud" "vs = [] \<Longrightarrow> ud = array_state self f acc t"
    "\<And>v r. v \<in> set vs \<Longrightarrow> length (enc v) = width \<and> (\<exists>w. rd (enc v @ r) = Some w \<and> le_bytes 8 w = item_rep tostr tys k f v)"
  shows "decode_scalars (decode tys (Suc k)) (array_args f) rd width (length vs) i (concat (map enc vs) @ r) ud =
    Some (array_state self f acc (put_elems tys f (Suc i) (map (item_norm tostr tys k f) vs) t))"
  using assms(4-7)
proof (induction vs arbitrary: i t ud)
  case (Cons v vs)
  have v: "length (enc v) = width" using Cons.prems(4) [of v] by simp
  obtain w where w: "rd (enc v @ concat (map enc vs) @ r) = Some w" "le_bytes 8 w = item_rep tostr tys k f v"
    using Cons.prems(4) [of v "concat (map enc vs) @ r"] by auto
  have "decode tys (Suc k) ((array_args f)\<lparr>a_index := int (Suc i), a_length := 8\<rparr>) (le_bytes 8 w) ud =
      Some (0, array_state self f acc (put_entry (elem_key tys f (Suc i) (item_norm tostr tys k f v)) (item_norm tostr tys k f v) t))"
    unfolding w(2) using assms(3) Cons.prems(1,2) by (intro decode_array_item assms(1,2)) auto
  moreover have "decode_scalars (decode tys (Suc k)) (array_args f) rd width (length vs) (Suc i) (concat (map enc vs) @ r)
      (array_state self f acc (put_entry (elem_key tys f (Suc i) (item_norm tostr tys k f v)) (item_norm tostr tys k f v) t)) =
    Some (array_state self f acc (put_elems tys f (Suc (Suc i)) (map (item_norm tostr tys k f) vs)
      (put_entry (elem_key tys f (Suc i) (item_norm tostr tys k f v)) (item_norm tostr tys k f v) t)))"
    using Cons.prems by (intro Cons.IH) (auto simp: array_from_def)
  ultimately show ?case using w(1) v by (simp add: add.commute)
qed simp

lemma decode_array_object_reads:
  assumes "reads_level tostr tys k" "field_type_ok (length tys) f" "elem_type f = SPROTO_TSTRING \<or> elem_type f = SPROTO_TSTRUCT"
    "list_all (item_fits tostr tys k f) vs" "array_from f acc self t ud" "vs = [] \<Longrightarrow> ud = array_state self f acc t" "0 < i"
    "bs = concat (map (\<lambda>v. sized (item_rep tostr tys k f v)) vs)" "int (length bs) < 2 ^ 32"
  shows "decode_array_object (decode tys (Suc k)) (array_args f) i (bs @ r) (length bs) ud =
    Some (0, array_state self f acc (put_elems tys f i (map (item_norm tostr tys k f) vs) t))"
  using assms(4-9)
proof (induction vs arbitrary: i t bs ud)
  case Nil
  then show ?case by (subst decode_array_object.simps) simp
next
  case (Cons v vs)
  define b where "b = item_rep tostr tys k f v"
  define bs' where "bs' = concat (map (\<lambda>v. sized (item_rep tostr tys k f v)) vs)"
  have bs: "bs = le_bytes 4 (of_nat (length b)) @ b @ bs'" using Cons.prems(5) by (simp add: b_def bs'_def sized_def)
  have len: "length b < 2 ^ 32" using Cons.prems(6) bs by simp
  then have dw: "map_option unat (todword (bs @ r)) = Some (length b)"
    unfolding bs by (simp add: todword_le_bytes unat_ucast unat_of_nat take_bit_nat_eq_self)
  from dw obtain z where z: "todword (bs @ r) = Some z" "unat z = length b" by auto
  have "decode tys (Suc k) ((array_args f)\<lparr>a_index := int i, a_length := int (length b)\<rparr>) b ud =
      Some (0, array_state self f acc (put_entry (elem_key tys f i (item_norm tostr tys k f v)) (item_norm tostr tys k f v) t))"
    unfolding b_def using Cons.prems(1,2,4) by (intro decode_array_item assms(1,2)) auto
  moreover have "decode_array_object (decode tys (Suc k)) (array_args f) (Suc i) (bs' @ r) (length bs')
      (array_state self f acc (put_entry (elem_key tys f i (item_norm tostr tys k f v)) (item_norm tostr tys k f v) t)) =
    Some (0, array_state self f acc (put_elems tys f (Suc i) (map (item_norm tostr tys k f) vs)
      (put_entry (elem_key tys f i (item_norm tostr tys k f v)) (item_norm tostr tys k f v) t)))"
    using Cons.prems bs bs'_def by (intro Cons.IH) (auto simp: array_from_def)
  ultimately show ?case using z(1)
    by (subst decode_array_object.simps) (simp add: bs z(2) SIZEOF_LENGTH_def peek_range_def)
qed


lemma sized_size:
  assumes "int (length b) < 2 ^ 32"
  shows "todword (sized b @ r) = Some (of_nat (length b))" "unat (of_nat (length b) :: u32) = length b"
    "drop 4 (sized b @ r) = b @ r"
proof -
  have "ucast (of_nat (length b) :: u64) = (of_nat (length b) :: u32)"
    using assms by (simp add: unsigned_of_nat take_bit_nat_eq_self)
  then show "todword (sized b @ r) = Some (of_nat (length b))" by (simp add: sized_def todword_le_bytes)
  show "unat (of_nat (length b) :: u32) = length b" using assms by (simp add: unat_of_nat take_bit_nat_eq_self)
qed (simp add: sized_def)

lemma int_array_body_length:
  "length (concat (map (\<lambda>v. le_bytes w (int_of v)) vs)) = w * length vs"
  by (induction vs) auto

lemma decode_array_reads:
  assumes "reads_level tostr tys k" "field_type_ok (length tys) f" "list_all (item_fits tostr tys k f) vs" "vs \<noteq> []"
    "array_fresh f acc self" "body = array_body tostr (sub_bytes tostr tys k) (elem_type f) (f_st f) vs"
    "int (length body) < 2 ^ 32"
  shows "decode_array (decode tys (Suc k)) (array_args f) (sized body @ r) self =
    Some (0, array_state self f acc (put_elems tys f 1 (map (item_norm tostr tys k f) vs) []))"
proof -
  note sz = sized_size(1,3) [OF assms(7), of r] sized_size(2) [OF assms(7)]
  have at: "a_type (array_args f) = elem_type f" by (simp add: array_args_def)
  have items: "elem_ok tostr (sub_ok tostr tys k) (elem_type f) (f_st f) v" if "v \<in> set vs" for v
    using assms(3) that by (auto simp: list_all_iff item_fits_def)
  consider (int) "elem_type f = SPROTO_TINTEGER" | (bool) "elem_type f = SPROTO_TBOOLEAN"
    | (obj) "elem_type f = SPROTO_TSTRING \<or> elem_type f = SPROTO_TSTRUCT" using assms(2) by (auto simp: field_type_ok_def)
  then show ?thesis
  proof cases
    case int
    define w where "w = int_width vs"
    define ints where "ints = concat (map (\<lambda>v. le_bytes w (int_of v)) vs)"
    have b: "body = of_nat w # ints" using assms(6) int by (simp add: array_body_def w_def ints_def)
    have w: "w = 4 \<and> (\<forall>v\<in>set vs. fits32 (int_of v)) \<or> w = 8" by (auto simp: w_def int_width_def list_all_iff)
    have len: "length ints = w * length vs" unfolding ints_def by (rule int_array_body_length)
    have run: "decode_scalars (decode tys (Suc k)) (array_args f) (if w = 4 then read_int32 else read_int64) w (length vs) 0 (ints @ r) self =
        Some (array_state self f acc (put_elems tys f (Suc 0) (map (item_norm tostr tys k f) vs) []))"
      unfolding ints_def using w int
      by (intro decode_scalars_reads assms(1-3) array_fresh_from [OF assms(5)]) (auto simp: assms(4) elem_rep_def read_int32_le sproto_consts)
    have "unat (ucast (of_nat w :: u8) :: u64) = w" using w by auto
    then show ?thesis using w run sz(3) len unfolding decode_array_def Let_def SIZEOF_LENGTH_def sz(1,2)
      by (auto simp: at int b read_byte_def)
  next
    case bool
    let ?enc = "\<lambda>v. [if v = LBool True then 1 else 0 :: u8]"
    have b: "body = concat (map ?enc vs)" using assms(6) bool by (simp add: array_body_def sproto_consts)
    have len: "length body = length vs" by (simp add: b)
    have "decode_scalars (decode tys (Suc k)) (array_args f) read_byte 1 (length vs) 0 (body @ r) self =
        Some (array_state self f acc (put_elems tys f (Suc 0) (map (item_norm tostr tys k f) vs) []))"
      unfolding b using bool
      by (intro decode_scalars_reads assms(1-3) array_fresh_from [OF assms(5)]) (auto simp: assms(4) elem_rep_def read_byte_def sproto_consts)
    then show ?thesis using sz len bool unfolding decode_array_def Let_def SIZEOF_LENGTH_def
      by (simp add: at sproto_consts)
  next
    case obj
    then have t: "elem_type f \<noteq> SPROTO_TINTEGER" "elem_type f \<noteq> SPROTO_TBOOLEAN" by (auto simp: sproto_consts)
    then have b: "body = concat (map (\<lambda>v. sized (item_rep tostr tys k f v)) vs)"
      using assms(6) by (simp add: array_body_def elem_rep_def)
    have "decode_array_object (decode tys (Suc k)) (array_args f) 1 (body @ r) (length body) self =
        Some (0, array_state self f acc (put_elems tys f 1 (map (item_norm tostr tys k f) vs) []))"
      using obj assms(7) by (intro decode_array_object_reads assms(1-3) array_fresh_from [OF assms(5)]) (simp_all add: b assms(4))
    then show ?thesis using sz obj t unfolding decode_array_def Let_def SIZEOF_LENGTH_def by (auto simp: at)
  qed
qed

section \<open>Fields\<close>

lemma put_elems_keys:
  "0 \<le> f_key f \<Longrightarrow> put_elems tys f i vs t = fold (\<lambda>v. put_entry (main_key tys f v) v) vs t"
  by (induction vs arbitrary: i t) (auto simp: elem_key_def)

lemma put_elems_index:
  assumes "f_key f < 0" "\<And>j. i \<le> j \<Longrightarrow> j < i + length vs \<Longrightarrow> LInt (of_nat j) \<notin> fst ` set t" "i + length vs < 2 ^ 64"
  shows "put_elems tys f i vs t = t @ zip (map (\<lambda>i. LInt (of_nat i)) [i..<i + length vs]) vs"
  using assms
proof (induction vs arbitrary: i t)
  case (Cons v vs)
  have new: "LInt (of_nat i) \<notin> fst ` set t" using Cons.prems(2) [of i] by simp
  have "LInt (of_nat j) \<notin> fst ` set (t @ [(LInt (of_nat i), v)])" if "Suc i \<le> j" "j < Suc i + length vs" for j
  proof -
    have "(of_nat j :: u64) \<noteq> of_nat i"
      using that Cons.prems(3) by (simp add: word_of_nat_eq_iff take_bit_nat_eq_self)
    then show ?thesis using Cons.prems(2) [of j] that by simp
  qed
  from Cons.IH [OF Cons.prems(1) this] Cons.prems(3) have
    "put_elems tys f (Suc i) vs (t @ [(LInt (of_nat i), v)]) =
      (t @ [(LInt (of_nat i), v)]) @ zip (map (\<lambda>i. LInt (of_nat i)) [Suc i..<Suc i + length vs]) vs" by simp
  then show ?case using Cons.prems(1) new by (simp add: elem_key_def put_entry_new upt_conv_Cons del: upt_Suc)
qed simp

lemma put_elems_norm:
  assumes "length vs < 2 ^ 63"
  shows "LTab (put_elems tys f 1 vs []) = array_norm tys f vs"
proof (cases "0 \<le> f_key f")
  case False
  then show ?thesis using put_elems_index [of f 1 vs "[]" tys] assms by (simp add: array_norm_def del: upt_Suc)
qed (simp add: array_norm_def put_elems_keys)


lemma fits32_small:
  assumes "fits32 i" "take_bit 32 i < (0x7fff :: u64)"
  shows "take_bit 32 i = i"
proof -
  have "unat (take_bit 32 i) < 0x7fff" using assms(2) by (simp add: word_less_nat_alt)
  then have "drop_bit 31 (take_bit 32 i) = 0" by (simp add: word_unat_eq_iff unat_drop_bit)
  then have "\<not> bit (drop_bit 31 (take_bit 32 i)) 0" by simp
  then have b: "\<not> bit i 31" by (simp add: bit_simps)
  show ?thesis
  proof (rule bit_word_eqI)
    fix m assume "m < LENGTH(64)"
    then show "bit (take_bit 32 i) m = bit i m" using fits32_bits [OF assms(1), of m] b
      by (cases "m < 32") (auto simp: bit_simps)
  qed
qed

text \<open>What decoding a field does to the table that is built.\<close>

definition field_read :: "field \<Rightarrow> lua \<Rightarrow> (lua \<times> lua) list \<Rightarrow> decode_ud \<Rightarrow> decode_ud \<Rightarrow> bool" where
  "field_read f nv acc self self' \<longleftrightarrow> du_result self' = LTab (acc @ [(field_name f, nv)]) \<and>
     du_mainindex_tag self' = du_mainindex_tag self \<and>
     (du_array_tag self' = du_array_tag self \<or> du_array_tag self' = Some (f_tag f)) \<and>
     du_key self' = (if du_mainindex_tag self = f_tag f \<and> \<not> is_array_field f then nv else du_key self)"

lemma decode_single:
  assumes "reads_level tostr tys k" "field_type_ok (length tys) f" "\<not> is_array_field f" "f_key f < 0"
    "elem_ok tostr (sub_ok tostr tys k) (elem_type f) (f_st f) v" "array_fresh f acc self"
    "elem_type f = SPROTO_TSTRUCT \<Longrightarrow> int (length (item_rep tostr tys k f v)) < 2 ^ 32 \<and> l = int (length (item_rep tostr tys k f v))"
  shows "\<exists>self'. decode tys (Suc k) ((array_args f)\<lparr>a_length := l\<rparr>) (item_rep tostr tys k f v) self = Some (0, self') \<and>
    field_read f (item_norm tostr tys k f v) acc self self'"
proof -
  let ?a = "(array_args f)\<lparr>a_length := l\<rparr>"
  have fits: "elem_fits tostr tys k ?a v"
    using assms(2,5,7) by (auto simp: elem_fits_def array_args_def field_type_ok_def elem_rep_def elem_body_def sproto_consts)
  have acc: "du_result self = LTab acc" "field_name f \<notin> fst ` set acc"
    using assms(6) by (auto simp: array_fresh_def)
  have "decode tys (Suc k) ?a (elem_rep tostr (sub_bytes tostr tys k) (a_type ?a) (a_subtype ?a) v) self =
      decode_finish ?a (elem_norm tostr (sub_norm tostr tys k) (a_type ?a) (a_subtype ?a) v) self"
    using assms(4) by (intro decode_elem assms(1) fits) (simp_all add: array_args_def)
  then show ?thesis using acc assms(3)
    by (simp add: array_args_def decode_finish_def field_read_def lua_settable_def put_entry_new field_name_def)
qed


lemma array_items_length: "length (array_items f v) \<le> length (entries v) + 1"
  unfolding array_items_def using length_takeWhile_le [of _ "map (\<lambda>i. lua_gettable v (LInt (of_nat i))) [1..<length (entries v) + 2]"]
  by (auto simp del: upt_Suc)

lemma sized_elem_le: "v \<in> set vs \<Longrightarrow> length (g v) \<le> length (concat (map (\<lambda>v. sized (g v)) vs))"
  by (induction vs) (auto simp: sized_def)

lemma decode_field_args:
  "\<lparr>a_tagname = f_name f, a_tagid = f_tag f, a_type = f_type f AND NOT SPROTO_TARRAY, a_subtype = f_st f,
     a_length = 0, a_index = 0, a_mainindex = f_key f\<rparr> = array_args f"
  by (simp add: array_args_def elem_type_def)

lemma decode_field_array:
  assumes "reads_level tostr tys k" "field_type_ok (length tys) f" "is_array_field f" "0 \<le> f_key f \<Longrightarrow> elem_type f = SPROTO_TSTRUCT"
    "value_ok tostr tys (sub_ok tostr tys k) (sub_norm tostr tys k) f v" "array_fresh f acc self"
    "field_code tostr (sub_bytes tostr tys k) f v = Some (w, d)" "int (length d) < 2 ^ 32"
  shows "\<exists>self' nv. field_norm tostr tys (sub_norm tostr tys k) f v = Some nv \<and>
    decode_field (decode tys (Suc k)) f (w div 2 - 1) (d @ r) self = Some (0, self') \<and> field_read f nv acc self self'"
proof -
  let ?vs = "array_items f v"
  define body where "body = array_body tostr (sub_bytes tostr tys k) (elem_type f) (f_st f) ?vs"
  have v: "v \<noteq> LNil" "?vs \<noteq> []" "w = 0" "d = sized body"
    using assms(3,7) by (auto simp: field_code_def Let_def body_def split: if_splits)
  have small: "int (length body) < 2 ^ 32" using assms(8) v(4) by (simp add: sized_def)
  have "int (length (sub_bytes tostr tys k (the (f_st f)) e)) < 2 ^ 32" if "e \<in> set ?vs" "elem_type f = SPROTO_TSTRUCT" for e
    using sized_elem_le [of e ?vs "elem_body tostr (sub_bytes tostr tys k) (elem_type f) (f_st f)"] small that
    by (simp add: body_def array_body_def elem_body_def sproto_consts)
  then have fits: "list_all (item_fits tostr tys k f) ?vs"
    using assms(3,4,5) v(1) by (auto simp: value_ok_def list_all_iff item_fits_def)
  have "table_wf v" using assms(3,5) v(1) by (simp add: value_ok_def)
  then have few: "length (map (item_norm tostr tys k f) ?vs) < 2 ^ 63"
    using array_items_length [of f v] by (simp add: table_wf_def)
  have "decode_array (decode tys (Suc k)) (array_args f) (d @ r) self =
      Some (0, array_state self f acc (put_elems tys f 1 (map (item_norm tostr tys k f) ?vs) []))"
    unfolding v(4) by (rule decode_array_reads [OF assms(1,2) fits v(2) assms(6) body_def small])
  then have "decode_field (decode tys (Suc k)) f (w div 2 - 1) (d @ r) self =
      Some (0, array_state self f acc (put_elems tys f 1 (map (item_norm tostr tys k f) ?vs) []))"
    using assms(3) v(3) unfolding decode_field_def Let_def decode_field_args by (simp add: is_array_field_def)
  moreover have "field_norm tostr tys (sub_norm tostr tys k) f v = Some (array_norm tys f (map (item_norm tostr tys k f) ?vs))"
    using assms(3) v(1,2) by (simp add: field_norm_def)
  ultimately show ?thesis using assms(3) unfolding put_elems_norm [OF few, symmetric]
    by (intro exI [of _ "array_state self f acc (put_elems tys f 1 (map (item_norm tostr tys k f) ?vs) [])"])
       (auto simp: field_read_def array_state_def)
qed

lemma decode_field_single:
  assumes "reads_level tostr tys k" "field_type_ok (length tys) f" "\<not> is_array_field f" "f_key f < 0"
    "value_ok tostr tys (sub_ok tostr tys k) (sub_norm tostr tys k) f v" "array_fresh f acc self"
    "field_code tostr (sub_bytes tostr tys k) f v = Some (w, d)" "int (length d) < 2 ^ 32"
  shows "\<exists>self' nv. field_norm tostr tys (sub_norm tostr tys k) f v = Some nv \<and>
    decode_field (decode tys (Suc k)) f (w div 2 - 1) (d @ r) self = Some (0, self') \<and> field_read f nv acc self self'"
proof -
  have v: "v \<noteq> LNil" using assms(7) by (auto simp: field_code_def)
  have ty: "f_type f = elem_type f" using assms(2,3) by (simp add: field_type_ok_def)
  have na: "\<not> f_type f AND SPROTO_TARRAY \<noteq> 0" using assms(3) by (simp add: is_array_field_def)
  have ok: "elem_ok tostr (sub_ok tostr tys k) (elem_type f) (f_st f) v" using assms(3,5) v ty by (simp add: value_ok_def)
  have nv: "field_norm tostr tys (sub_norm tostr tys k) f v = Some (item_norm tostr tys k f v)"
    using assms(3) v ty by (simp add: field_norm_def)
  note call = decode_single [OF assms(1-4) ok assms(6)]
  consider (int) i where "elem_type f = SPROTO_TINTEGER" "v = LInt i" | (bool) b where "elem_type f = SPROTO_TBOOLEAN" "v = LBool b"
    | (obj) "elem_type f = SPROTO_TSTRING \<or> elem_type f = SPROTO_TSTRUCT"
    using assms(2) ok by (cases v) (auto simp: field_type_ok_def elem_ok_def sproto_consts)
  then show ?thesis
  proof cases
    case int
    have rep: "item_rep tostr tys k f v = le_bytes 8 i" using int by (simp add: elem_rep_def)
    from call [of 8] int obtain self' where
      self': "decode tys (Suc k) ((array_args f)\<lparr>a_length := 8\<rparr>) (le_bytes 8 i) self = Some (0, self')"
      "field_read f (item_norm tostr tys k f v) acc self self'" unfolding rep by (auto simp: sproto_consts)
    have code: "int_code i = (w, d)" using assms(3,7) int ty v by (simp add: field_code_def)
    consider (small) "fits32 i" "take_bit 32 i < 0x7fff" | (narrow) "fits32 i" "\<not> take_bit 32 i < 0x7fff" | (wide) "\<not> fits32 i" by blast
    then have "decode_field (decode tys (Suc k)) f (w div 2 - 1) (d @ r) self = Some (0, self')"
    proof cases
      case small
      then have "w = (uint i + 1) * 2" using code fits32_small [OF small] by (simp add: int_code_def)
      then have "w div 2 - 1 = uint i" by simp
      then show ?thesis using self'(1) int ty na unfolding decode_field_def Let_def decode_field_args by simp
    next
      case narrow
      then have wd: "w = 0" "d = sized (le_bytes 4 i)" using code by (simp_all add: int_code_def)
      have "todword (d @ r) = Some 4" "read_int32 (drop 4 (d @ r)) = Some i"
        using sized_size(1,3) [of "le_bytes 4 i" r] read_int32_le [OF narrow(1), of r] unfolding wd by simp_all
      then show ?thesis using self'(1) int ty na wd(1)
        unfolding decode_field_def Let_def decode_field_args SIZEOF_LENGTH_def by simp
    next
      case wide
      then have wd: "w = 0" "d = sized (le_bytes 8 i)" using code by (simp_all add: int_code_def)
      have "todword (d @ r) = Some 8" "read_int64 (drop 4 (d @ r)) = Some i"
        using sized_size(1,3) [of "le_bytes 8 i" r] unfolding wd by simp_all
      then show ?thesis using self'(1) int ty na wd(1)
        unfolding decode_field_def Let_def decode_field_args SIZEOF_LENGTH_def by simp
    qed
    then show ?thesis using nv self'(2) by blast
  next
    case bool
    have rep: "item_rep tostr tys k f v = le_bytes 8 (if b then 1 else 0)" using bool by (simp add: elem_rep_def sproto_consts)
    from call [of 8] bool obtain self' where
      self': "decode tys (Suc k) ((array_args f)\<lparr>a_length := 8\<rparr>) (le_bytes 8 (if b then 1 else 0)) self = Some (0, self')"
      "field_read f (item_norm tostr tys k f v) acc self self'" unfolding rep by (auto simp: sproto_consts)
    have "w = (if b then 4 else 2)" using assms(3,7) bool ty by (auto simp: field_code_def sproto_consts)
    then have "w div 2 - 1 = (if b then 1 else 0)" by simp
    then have "decode_field (decode tys (Suc k)) f (w div 2 - 1) (d @ r) self = Some (0, self')"
      using self'(1) bool ty na unfolding decode_field_def Let_def decode_field_args by (cases b) simp_all
    then show ?thesis using nv self'(2) by blast
  next
    case obj
    define b where "b = item_rep tostr tys k f v"
    have t: "elem_type f \<noteq> SPROTO_TINTEGER" "elem_type f \<noteq> SPROTO_TBOOLEAN" using obj by (auto simp: sproto_consts)
    have wd: "w = 0" "d = sized b" using assms(3,7) ty v t by (auto simp: field_code_def b_def elem_rep_def split: if_splits)
    have small: "int (length b) < 2 ^ 32" using assms(8) wd(2) by (simp add: sized_def)
    from call [of "int (length b)"] small obtain self' where
      self': "decode tys (Suc k) ((array_args f)\<lparr>a_length := int (length b)\<rparr>) b self = Some (0, self')"
      "field_read f (item_norm tostr tys k f v) acc self self'" unfolding b_def by blast
    have "peek_range (d @ r) 4 (length b) = Some b" by (simp add: wd peek_range_def sized_def)
    then have "decode_field (decode tys (Suc k)) f (w div 2 - 1) (d @ r) self = Some (0, self')"
      using self'(1) obj t ty na wd sized_size(1) [OF small, of r] sized_size(2) [OF small]
      unfolding decode_field_def Let_def decode_field_args SIZEOF_LENGTH_def by auto
    then show ?thesis using nv self'(2) by blast
  qed
qed


section \<open>Messages\<close>

lemma toword_word: "0 \<le> w \<Longrightarrow> w < 2 ^ 16 \<Longrightarrow> toword (le_bytes 2 (of_int w) @ r) = Some (nat w)"
proof -
  assume w: "0 \<le> w" "w < 2 ^ 16"
  have "unat (of_int w :: u64) = nat w" using w by (simp add: unat_eq_nat_uint uint_word_of_int_eq take_bit_int_eq_self)
  then show ?thesis using w by (simp add: toword_le_bytes nat_less_iff)
qed

text \<open>The word and the data of a field as the encoder makes them.\<close>

definition code_ok :: "int \<Rightarrow> bytes \<Rightarrow> bool" where
  "code_ok w d \<longleftrightarrow> 0 \<le> w \<and> w < 2 ^ 16 \<and> even w \<and> (if w = 0 then \<exists>b. d = sized b else d = [])"

lemma field_code_ok: "field_code tostr sub f v = Some (w, d) \<Longrightarrow> code_ok w d"
proof -
  have "code_ok w d" if "int_code i = (w, d)" for i
  proof (cases "fits32 i \<and> take_bit 32 i < 0x7fff")
    case True
    define u where "u = uint (take_bit 32 i)"
    have "0 \<le> u" "u < 0x7fff" using True by (simp_all add: u_def word_less_def)
    moreover have "w = (u + 1) * 2" "d = []" using that True by (simp_all add: int_code_def u_def)
    ultimately show ?thesis by (simp add: code_ok_def)
  next
    case False
    then show ?thesis using that by (auto simp: int_code_def code_ok_def split: if_splits)
  qed
  then show "field_code tostr sub f v = Some (w, d) \<Longrightarrow> code_ok w d"
    by (auto simp: field_code_def Let_def code_ok_def split: if_splits)
qed

lemma decode_loop_word:
  assumes "code_ok w d" "findtag st (tag + 1) = Some f" "length d \<le> siz" "int (length d) < 2 ^ 32"
  shows "decode_loop st cb (Suc n) tag (le_bytes 2 (of_int w) @ S) (d @ R) siz ud = do {
    (r, ud) \<leftarrow> decode_field cb f (w div 2 - 1) (d @ R) ud;
    if r \<noteq> 0 then Some (None, ud) else decode_loop st cb n (tag + 1) S R (siz - length d) ud }"
proof -
  have w: "toword (le_bytes 2 (of_int w) @ S) = Some (nat w)" "\<not> odd (nat w)" "int (nat w div 2) - 1 = w div 2 - 1"
    using assms(1) by (auto simp: toword_word code_ok_def even_nat_iff nat_div_distrib [of w 2, simplified, symmetric] zdiv_int)
  show ?thesis
  proof (cases "w = 0")
    case True
    then obtain b where d: "d = sized b" using assms(1) by (auto simp: code_ok_def)
    then have small: "int (length b) < 2 ^ 32" and len: "length d = length b + 4" using assms(4) by (simp_all add: sized_def)
    have "length b + 4 < 2 ^ 32" using assms(4) len by simp
    then have "unat (of_nat (length b + 4) :: u32) = length b + 4" by (subst unat_of_nat) (simp add: take_bit_nat_eq_self)
    then have n: "unat (of_nat (length b) + 4 :: u32) = length d" using len by simp
    have "4 \<le> siz" using len assms(3) by simp
    then show ?thesis using True w n sized_size(1) [OF small, of R] assms(2,3)
      by (simp add: d [symmetric] SIZEOF_FIELD_def SIZEOF_LENGTH_def Let_def cong: if_cong)
  next
    case False
    then have "d = []" "\<not> w div 2 - 1 < 0" using assms(1) by (auto simp: code_ok_def elim!: evenE)
    then show ?thesis using w assms(2) by (simp add: SIZEOF_FIELD_def Let_def cong: if_cong)
  qed
qed

lemma decode_loop_skip:
  assumes "0 \<le> t" "t * 2 + 1 < 2 ^ 16"
  shows "decode_loop st cb (Suc n) tag (le_bytes 2 (of_int (t * 2 + 1)) @ S) D siz ud = decode_loop st cb n (tag + 1 + t) S D siz ud"
proof -
  have "toword (le_bytes 2 (of_int (t * 2 + 1)) @ S) = Some (nat (t * 2 + 1))" using assms by (intro toword_word) simp_all
  moreover have "nat (t * 2 + 1) = 2 * nat t + 1" using assms(1) by simp
  ultimately show ?thesis using assms(1) by (simp add: SIZEOF_FIELD_def Let_def del: of_int_add)
qed

declare decode_loop.simps(2) [simp del]

lemma decode_loop_Cons:
  assumes "code_ok w d" "findtag st (f_tag f) = Some f" "length d \<le> siz" "int (length d) < 2 ^ 32"
    "lt < f_tag f" "- 1 \<le> lt" "f_tag f < 2 ^ 15"
  shows "decode_loop st cb (length (field_words lt f w) + n) lt (word_bytes (field_words lt f w) @ S) (d @ R) siz ud = do {
    (r, ud) \<leftarrow> decode_field cb f (w div 2 - 1) (d @ R) ud;
    if r \<noteq> 0 then Some (None, ud) else decode_loop st cb n (f_tag f) S R (siz - length d) ud }"
proof (cases "f_tag f - lt - 1 > 0")
  case True
  define t where "t = f_tag f - lt - 2"
  have t: "0 \<le> t" "t * 2 + 1 < 2 ^ 16" using True assms(6,7) by (simp_all add: t_def)
  have ws: "field_words lt f w = [t * 2 + 1, w]" using True by (simp add: field_words_def t_def)
  have tag: "lt + 1 + t + 1 = f_tag f" by (simp add: t_def)
  have "decode_loop st cb (Suc (Suc n)) lt (le_bytes 2 (of_int (t * 2 + 1)) @ le_bytes 2 (of_int w) @ S) (d @ R) siz ud =
      decode_loop st cb (Suc n) (lt + 1 + t) (le_bytes 2 (of_int w) @ S) (d @ R) siz ud"
    by (rule decode_loop_skip [OF t])
  with decode_loop_word [OF assms(1) _ assms(3,4), of st "lt + 1 + t" f cb n S R ud, unfolded tag] assms(2) show ?thesis
    unfolding ws by (simp del: of_int_add)
next
  case False
  then have tag: "lt + 1 = f_tag f" using assms(5) by simp
  show ?thesis using False decode_loop_word [OF assms(1) _ assms(3,4), of st lt f cb n S R ud, unfolded tag] assms(2)
    by (simp add: field_words_def)
qed

fun key_after :: "int \<Rightarrow> (field \<times> lua) list \<Rightarrow> lua \<Rightarrow> lua" where
  "key_after m [] key = key"
| "key_after m ((f, v) # vs) key = key_after m vs (if m = f_tag f \<and> \<not> is_array_field f then v else key)"

lemma field_norm_None: "field_norm tostr tys norm f v = None \<longleftrightarrow> field_code tostr sub f v = None"
  by (simp add: field_norm_def field_code_def Let_def)


lemma decode_loop_reads:
  assumes "reads_level tostr tys k"
    "list_all (\<lambda>f. field_type_ok (length tys) f \<and> findtag st (f_tag f) = Some f \<and> f_tag f < 2 ^ 15 \<and>
       (0 \<le> f_key f \<longrightarrow> is_array_field f \<and> elem_type f = SPROTO_TSTRUCT)) fs"
    "list_all (\<lambda>f. value_ok tostr tys (sub_ok tostr tys k) (sub_norm tostr tys k) f (lua_gettable tbl (field_name f))) fs"
    "sorted_wrt (<) (lt # map f_tag fs)" "- 1 \<le> lt" "distinct (map field_name fs)" "fst ` set acc \<inter> field_name ` set fs = {}"
    "du_array_tag self \<notin> Some ` f_tag ` set fs" "du_result self = LTab acc"
    "items = present (\<lambda>f. field_code tostr (sub_bytes tostr tys k) f (lua_gettable tbl (field_name f))) fs"
    "vals = present (\<lambda>f. field_norm tostr tys (sub_norm tostr tys k) f (lua_gettable tbl (field_name f))) fs"
    "int (length (record_data items)) < 2 ^ 32"
  shows "\<exists>self'. decode_loop st (decode tys (Suc k)) (length (record_words lt items)) lt (word_bytes (record_words lt items) @ S)
      (record_data items @ R) (length (record_data items)) self = Some (Some 0, self') \<and>
    du_result self' = LTab (acc @ map (\<lambda>(f, v). (field_name f, v)) vals) \<and>
    du_key self' = key_after (du_mainindex_tag self) vals (du_key self)"
  using assms
proof (induction fs arbitrary: lt acc self items vals)
  case (Cons f fs)
  let ?v = "lua_gettable tbl (field_name f)"
  let ?items = "present (\<lambda>f. field_code tostr (sub_bytes tostr tys k) f (lua_gettable tbl (field_name f))) fs"
  let ?vals = "present (\<lambda>f. field_norm tostr tys (sub_norm tostr tys k) f (lua_gettable tbl (field_name f))) fs"
  show ?case
  proof (cases "field_code tostr (sub_bytes tostr tys k) f ?v")
    case None
    then have "field_norm tostr tys (sub_norm tostr tys k) f ?v = None" using field_norm_None by blast
    with None have it: "items = ?items" "vals = ?vals" using Cons.prems(10,11) by simp_all
    show ?thesis using Cons.prems it by (intro Cons.IH) auto
  next
    case (Some c)
    then obtain w d where c: "field_code tostr (sub_bytes tostr tys k) f ?v = Some (w, d)" by (cases c) auto
    have it: "items = (f, w, d) # ?items" using Cons.prems(10) c by simp
    have len: "int (length d) < 2 ^ 32" and rest: "int (length (record_data ?items)) < 2 ^ 32"
      using Cons.prems(12) unfolding it by simp_all
    have f: "field_type_ok (length tys) f" "findtag st (f_tag f) = Some f" "f_tag f < 2 ^ 15"
      "value_ok tostr tys (sub_ok tostr tys k) (sub_norm tostr tys k) f ?v" "lt < f_tag f" using Cons.prems by auto
    have fresh: "array_fresh f acc self" using Cons.prems(7-9) by (auto simp: array_fresh_def)
    have "\<exists>self' nv. field_norm tostr tys (sub_norm tostr tys k) f ?v = Some nv \<and>
      decode_field (decode tys (Suc k)) f (w div 2 - 1) (d @ record_data ?items @ R) self = Some (0, self') \<and> field_read f nv acc self self'"
    proof (cases "is_array_field f")
      case True
      with Cons.prems(2) show ?thesis by (intro decode_field_array [OF Cons.prems(1) f(1) _ _ f(4) fresh c len]) auto
    next
      case False
      with Cons.prems(2) show ?thesis by (intro decode_field_single [OF Cons.prems(1) f(1) _ _ f(4) fresh c len]) auto
    qed
    then obtain self1 nv where s1: "field_norm tostr tys (sub_norm tostr tys k) f ?v = Some nv"
      "decode_field (decode tys (Suc k)) f (w div 2 - 1) (d @ record_data ?items @ R) self = Some (0, self1)" "field_read f nv acc self self1"
      by blast
    have vals: "vals = (f, nv) # ?vals" using Cons.prems(11) s1(1) by simp
    have ws: "record_words lt items = field_words lt f w @ record_words (f_tag f) ?items" unfolding it by (rule record_words_Cons)
    have "decode_loop st (decode tys (Suc k)) (length (record_words lt items)) lt (word_bytes (record_words lt items) @ S)
        (record_data items @ R) (length (record_data items)) self =
      decode_loop st (decode tys (Suc k)) (length (record_words (f_tag f) ?items)) (f_tag f) (word_bytes (record_words (f_tag f) ?items) @ S)
        (record_data ?items @ R) (length (record_data ?items)) self1"
      using decode_loop_Cons [OF field_code_ok [OF c] f(2) _ len f(5) Cons.prems(5) f(3), of "length (record_data items)"
          "decode tys (Suc k)" "length (record_words (f_tag f) ?items)" "word_bytes (record_words (f_tag f) ?items) @ S" "record_data ?items @ R" self]
        s1(2) unfolding ws by (simp add: it)
    moreover have "\<exists>self'. decode_loop st (decode tys (Suc k)) (length (record_words (f_tag f) ?items)) (f_tag f)
        (word_bytes (record_words (f_tag f) ?items) @ S) (record_data ?items @ R) (length (record_data ?items)) self1 = Some (Some 0, self') \<and>
      du_result self' = LTab ((acc @ [(field_name f, nv)]) @ map (\<lambda>(f, v). (field_name f, v)) ?vals) \<and>
      du_key self' = key_after (du_mainindex_tag self1) ?vals (du_key self1)"
    proof (rule Cons.IH)
      show "du_array_tag self1 \<notin> Some ` f_tag ` set fs"
        using s1(3) Cons.prems(4,8) by (auto simp: field_read_def)
      show "fst ` set (acc @ [(field_name f, nv)]) \<inter> field_name ` set fs = {}" using Cons.prems(6,7) by auto
      show "- 1 \<le> f_tag f" using f(5) Cons.prems(5) by simp
      show "int (length (record_data ?items)) < 2 ^ 32" by (rule rest)
    qed (use Cons.prems s1(3) in \<open>simp_all add: field_read_def\<close>)
    ultimately show ?thesis using s1(3) vals by (simp add: field_read_def)
  qed
qed simp


lemma key_after_find:
  "distinct (map f_tag fs) \<Longrightarrow> key_after m (present g fs) key = (case List.find (\<lambda>f. f_tag f = m) fs of None \<Rightarrow> key
     | Some h \<Rightarrow> if is_array_field h then key else case g h of None \<Rightarrow> key | Some v \<Rightarrow> v)"
proof (induction fs arbitrary: key)
  case (Cons f fs)
  have "List.find (\<lambda>h. f_tag h = f_tag f) fs = None" using Cons.prems
    by (simp add: find_None_iff) (metis image_eqI)
  then have none: "m = f_tag f \<Longrightarrow> key_after m (present g fs) key = key" for key using Cons.prems Cons.IH by simp
  show ?case
  proof (cases "f_tag f = m")
    case True
    then show ?thesis using none by (auto split: option.splits)
  next
    case False
    then show ?thesis using Cons by (auto split: option.splits)
  qed
qed simp

lemma gettable_present:
  "h \<in> set fs \<Longrightarrow> distinct (map field_name fs) \<Longrightarrow>
   lua_gettable (LTab (map (\<lambda>(f, v). (field_name f, v)) (present g fs))) (field_name h) = (case g h of None \<Rightarrow> LNil | Some v \<Rightarrow> v)"
proof (induction fs)
  case (Cons f fs)
  have "field_name f \<notin> field_name ` fst ` set (present g fs)" using Cons.prems(2) by (auto dest: present_tags)
  then have none: "map_of (map (\<lambda>(f, v). (field_name f, v)) (present g fs)) (field_name f) = None"
    by (force simp: map_of_eq_None_iff)
  show ?case
  proof (cases "h = f")
    case True
    then show ?thesis using none by (auto simp: lua_gettable_def split: option.splits)
  next
    case False
    then have h: "h \<in> set fs" using Cons.prems(1) by simp
    then have "field_name h \<in> field_name ` set fs" by simp
    then have "field_name h \<noteq> field_name f" using Cons.prems(2) by auto
    then show ?thesis using Cons h by (auto simp: lua_gettable_def split: option.splits)
  qed
qed simp

lemma sproto_decode_reads:
  assumes "reads_level tostr tys k" "st \<in> set tys" "schema_ok tys" "msg_ok tostr tys (Suc k) st tbl"
    "int (length (msg_bytes tostr tys (Suc k) st tbl)) < 2 ^ 32"
  shows "\<exists>self. sproto_decode st (msg_bytes tostr tys (Suc k) st tbl) (decode tys (Suc k)) (decode_init m) =
      Some (int (length (msg_bytes tostr tys (Suc k) st tbl)), self) \<and>
    du_result self = msg_norm tostr tys (Suc k) st tbl \<and> du_key self = found_key st m (msg_norm tostr tys (Suc k) st tbl)"
proof -
  define fs where "fs = st_fields st"
  define items where "items = present (\<lambda>f. field_code tostr (sub_bytes tostr tys k) f (lua_gettable tbl (field_name f))) fs"
  define vals where "vals = present (\<lambda>f. field_norm tostr tys (sub_norm tostr tys k) f (lua_gettable tbl (field_name f))) fs"
  define ws where "ws = record_words (- 1) items"
  have wf: "type_wf (length tys) st" "distinct (map f_name (st_f st))" "int (st_maxn st) < 2 ^ 16"
    "\<forall>f\<in>set (st_f st). f_tag f < 2 ^ 15 \<and> (f_key f \<ge> 0 \<longrightarrow> f_type f = 0x83)"
    using assms(2,3) by (auto simp: schema_ok_def list_all_iff)
  have fs: "fs = st_f st" using wf(1) by (simp add: fs_def st_fields_def type_wf_def)
  have t: "sorted_wrt (<) (map f_tag fs)" "list_all (field_ok (length tys)) fs" "st_maxn st = length fs + gaps (- 1) (map f_tag fs)"
    using wf(1) by (simp_all add: type_wf_def fs)
  then have sorted: "sorted_wrt (<) (- 1 # map f_tag fs)" and names: "distinct (map field_name fs)" and tags: "distinct (map f_tag fs)"
  proof -
    show "sorted_wrt (<) (- 1 # map f_tag fs)" using t by (auto simp: list_all_iff field_ok_def)
    show "distinct (map f_tag fs)" using t(1) by (simp add: strict_sorted_iff)
    have "inj_on field_name (set fs)"
    proof (rule inj_onI)
      fix x y assume xy: "x \<in> set fs" "y \<in> set fs" "field_name x = field_name y"
      then obtain a b where "f_name x = Some a" "f_name y = Some b" using t(2) by (fastforce simp: list_all_iff field_ok_def)
      then have "f_name x = f_name y" using xy(3) by (simp add: field_name_def)
      then show "x = y" using wf(2) xy(1,2) by (simp add: fs distinct_map inj_on_def)
    qed
    then show "distinct (map field_name fs)" using wf(2) by (simp add: fs distinct_map)
  qed
  have find: "findtag st tag = List.find (\<lambda>f. f_tag f = tag) fs" for tag using findtag_find [OF wf(1)] fs by simp
  have found: "findtag st (f_tag f) = Some f" if f: "f \<in> set fs" for f
  proof -
    obtain g where g: "List.find (\<lambda>h. f_tag h = f_tag f) fs = Some g"
      using f by (cases "List.find (\<lambda>h. f_tag h = f_tag f) fs") (auto simp: find_None_iff)
    then have "g \<in> set fs" "f_tag g = f_tag f" by (auto simp: find_Some_iff)
    then show ?thesis using g tags f find by (auto simp: distinct_map inj_on_def)
  qed
  have keyed: "is_array_field f \<and> elem_type f = SPROTO_TSTRUCT" if "f_type f = 0x83" for f
    using that by (simp add: is_array_field_def elem_type_def sproto_consts)
  have good: "list_all (\<lambda>f. field_type_ok (length tys) f \<and> findtag st (f_tag f) = Some f \<and> f_tag f < 2 ^ 15 \<and>
       (0 \<le> f_key f \<longrightarrow> is_array_field f \<and> elem_type f = SPROTO_TSTRUCT)) fs"
    using t(2) wf(4) found keyed by (auto simp: list_all_iff field_ok_type fs)
  have val: "list_all (\<lambda>f. value_ok tostr tys (sub_ok tostr tys k) (sub_norm tostr tys k) f (lua_gettable tbl (field_name f))) fs"
    using assms(4) by (simp add: fs_def)
  have bytes: "msg_bytes tostr tys (Suc k) st tbl = le_bytes 2 (of_nat (length ws)) @ word_bytes ws @ record_data items"
    unfolding record_bytes_append [OF ws_def, symmetric] by (simp add: items_def fs_def)
  have norm: "msg_norm tostr tys (Suc k) st tbl = LTab (map (\<lambda>(f, v). (field_name f, v)) vals)" by (simp add: vals_def fs_def)
  have "length ws \<le> st_maxn st" using record_words_bound [OF sorted, of "- 1"] t(3) by (simp add: ws_def items_def)
  then have few: "length ws < 2 ^ 16" using wf(3) by simp
  have small: "int (length (record_data items)) < 2 ^ 32" using assms(5) unfolding bytes by simp
  have "\<exists>self'. decode_loop st (decode tys (Suc k)) (length (record_words (- 1) items)) (- 1) (word_bytes (record_words (- 1) items) @ record_data items)
      (record_data items @ []) (length (record_data items)) (decode_init m) = Some (Some 0, self') \<and>
    du_result self' = LTab ([] @ map (\<lambda>(f, v). (field_name f, v)) vals) \<and>
    du_key self' = key_after (du_mainindex_tag (decode_init m)) vals (du_key (decode_init m))"
    by (intro decode_loop_reads [OF assms(1) good val sorted _ names _ _ _ items_def vals_def small]) (simp_all add: decode_init_def)
  then obtain self where loop: "decode_loop st (decode tys (Suc k)) (length ws) (- 1) (word_bytes ws @ record_data items)
      (record_data items) (length (record_data items)) (decode_init m) = Some (Some 0, self)"
    "du_result self = msg_norm tostr tys (Suc k) st tbl" "du_key self = key_after m vals LNil"
    unfolding norm by (auto simp: ws_def decode_init_def)
  have "toword (msg_bytes tostr tys (Suc k) st tbl) = Some (length ws)"
    using toword_word [of "int (length ws)" "word_bytes ws @ record_data items"] few unfolding bytes by simp
  then have "sproto_decode st (msg_bytes tostr tys (Suc k) st tbl) (decode tys (Suc k)) (decode_init m) =
      Some (int (length (msg_bytes tostr tys (Suc k) st tbl)), self)"
    using loop(1) unfolding sproto_decode_def Let_def bytes by (simp add: SIZEOF_HEADER_def SIZEOF_FIELD_def mult.commute)
  moreover have "key_after m vals LNil = found_key st m (msg_norm tostr tys (Suc k) st tbl)"
    unfolding vals_def key_after_find [OF tags] found_key_def find norm
    by (auto simp: gettable_present [OF _ names] split: option.splits dest!: find_Some_iff [THEN iffD1])
  ultimately show ?thesis using loop(2,3) by auto
qed

lemma reads_levels: "schema_ok tys \<Longrightarrow> reads_level tostr tys k"
proof (induction k)
  case (Suc k)
  then show ?case using sproto_decode_reads [of tostr tys k] unfolding reads_level_def [of tostr tys "Suc k"] by blast
qed (simp add: reads_level_def)


section \<open>The round trip\<close>

lemma msg_ok_table: "msg_ok tostr tys k st tbl \<Longrightarrow> lua_istable tbl"
  by (cases k) simp_all

lemma lencode_bytes:
  assumes "schema_ok tys" "st \<in> set tys" "msg_ok tostr tys ENCODE_DEEPLEVEL st tbl" "msg_need tostr tys ENCODE_DEEPLEVEL st tbl \<le> length buffer"
  shows "\<exists>buf. lencode tostr tys new st tbl buffer = Some (Inr (msg_bytes tostr tys ENCODE_DEEPLEVEL st tbl, buf))"
proof -
  let ?self = "\<lparr>eu_tbl = tbl, eu_array_tag = None, eu_array = None, eu_iter = LNil\<rparr>" and ?k = ENCODE_DEEPLEVEL
  have "between tbl None ?self" by (simp add: between_def)
  with codec_levels [OF assms(1), of tostr ?k] assms(2,3)
  have "writes (\<lambda>mem. sproto_encode st mem (encode tostr tys ?k) ?self) (msg_bytes tostr tys ?k st tbl) (msg_need tostr tys ?k st tbl)"
    unfolding codec_level_def by blast
  then obtain buf ud where "sproto_encode st buffer (encode tostr tys ?k) ?self = Some (int (length (msg_bytes tostr tys ?k st tbl)), buf, ud)"
    "take (length (msg_bytes tostr tys ?k st tbl)) buf = msg_bytes tostr tys ?k st tbl"
    using assms(4) unfolding writes_def by blast
  moreover have "lua_istable tbl" by (rule msg_ok_table [OF assms(3)])
  ultimately show ?thesis by (simp add: lencode_def lencode_loop.simps)
qed

lemma ldecode_bytes:
  assumes "schema_ok tys" "st \<in> set tys" "msg_ok tostr tys ENCODE_DEEPLEVEL st tbl"
    "int (length (msg_bytes tostr tys ENCODE_DEEPLEVEL st tbl)) < 2 ^ 32"
  shows "ldecode tys st (msg_bytes tostr tys ENCODE_DEEPLEVEL st tbl) LNil =
    Some (Inr (msg_norm tostr tys ENCODE_DEEPLEVEL st tbl, int (length (msg_bytes tostr tys ENCODE_DEEPLEVEL st tbl))))"
proof -
  let ?bs = "msg_bytes tostr tys ENCODE_DEEPLEVEL st tbl"
  from reads_levels [OF assms(1), of tostr ENCODE_DEEPLEVEL] assms(2-4) obtain self where
    "sproto_decode st ?bs (decode tys ENCODE_DEEPLEVEL) (decode_init (- 1)) = Some (int (length ?bs), self)"
    "du_result self = msg_norm tostr tys ENCODE_DEEPLEVEL st tbl" unfolding reads_level_def by blast
  then show ?thesis by (simp add: ldecode_def decode_init_def)
qed

definition demo_types :: "sproto_type list" where
  "demo_types =
     [\<lparr>st_name = Some [112], st_n = 2, st_base = 0, st_maxn = 2, st_f =
        [\<lparr>f_tag = 0, f_type = 0, f_name = Some [105], f_st = None, f_key = - 1\<rparr>,
         \<lparr>f_tag = 1, f_type = 2, f_name = Some [110], f_st = None, f_key = - 1\<rparr>]\<rparr>,
      \<lparr>st_name = Some [113], st_n = 4, st_base = - 1, st_maxn = 6, st_f =
        [\<lparr>f_tag = 1, f_type = 1, f_name = Some [98], f_st = None, f_key = - 1\<rparr>,
         \<lparr>f_tag = 2, f_type = 0x80, f_name = Some [118], f_st = None, f_key = - 1\<rparr>,
         \<lparr>f_tag = 5, f_type = 0x83, f_name = Some [109], f_st = Some 0, f_key = 0\<rparr>,
         \<lparr>f_tag = 6, f_type = 3, f_name = Some [112], f_st = Some 0, f_key = - 1\<rparr>]\<rparr>]"

definition demo_table :: lua where
  "demo_table = LTab
     [(LStr [98], LBool True), (LStr [118], LTab [(LInt 1, LInt 7), (LInt 2, LInt 0x123456789a)]),
      (LStr [109], LTab [(LInt 3, LTab [(LStr [105], LInt 3), (LStr [110], LStr [65])])]),
      (LStr [112], LTab [(LStr [105], LInt (- 1))])]"

lemma demo_facts:
  "schema_ok demo_types"
  "msg_ok (\<lambda>_. []) demo_types ENCODE_DEEPLEVEL (demo_types ! 1) demo_table"
  "msg_norm (\<lambda>_. []) demo_types ENCODE_DEEPLEVEL (demo_types ! 1) demo_table = demo_table"
  "msg_need (\<lambda>_. []) demo_types ENCODE_DEEPLEVEL (demo_types ! 1) demo_table \<le> 2050"
  "length (msg_bytes (\<lambda>_. []) demo_types ENCODE_DEEPLEVEL (demo_types ! 1) demo_table) < 2050"
  "demo_types ! 1 \<in> set demo_types"
proof -
  show "schema_ok demo_types" by code_simp
  show "msg_ok (\<lambda>_. []) demo_types ENCODE_DEEPLEVEL (demo_types ! 1) demo_table" by code_simp
  show "msg_norm (\<lambda>_. []) demo_types ENCODE_DEEPLEVEL (demo_types ! 1) demo_table = demo_table" by code_simp
  have "int (msg_need (\<lambda>_. []) demo_types ENCODE_DEEPLEVEL (demo_types ! 1) demo_table) \<le> 2050" by code_simp
  then show "msg_need (\<lambda>_. []) demo_types ENCODE_DEEPLEVEL (demo_types ! 1) demo_table \<le> 2050" by simp
  have "int (length (msg_bytes (\<lambda>_. []) demo_types ENCODE_DEEPLEVEL (demo_types ! 1) demo_table)) < 2050" by code_simp
  then show "length (msg_bytes (\<lambda>_. []) demo_types ENCODE_DEEPLEVEL (demo_types ! 1) demo_table) < 2050" by simp
  show "demo_types ! 1 \<in> set demo_types" by (simp add: demo_types_def)
qed

section \<open>Properties\<close>

text \<open>
  C11: What a sender encodes is what a receiver decodes. For every schema that fits the format, every
  table of a type of it, with nested structures, arrays of all kinds and maps by main index, and every
  buffer with the room of \<open>msg_need\<close>, \<open>encode\<close> returns a string, and \<open>decode\<close> of it consumes it all and builds the
  table's normal form: the same values under the same names, empty arrays left out.
\<close>

theorem lencode_ldecode:
  assumes "schema_ok tys" "st \<in> set tys" "msg_ok tostr tys ENCODE_DEEPLEVEL st tbl"
    "msg_need tostr tys ENCODE_DEEPLEVEL st tbl \<le> length buffer"
    "int (length (msg_bytes tostr tys ENCODE_DEEPLEVEL st tbl)) < 2 ^ 32"
  shows "\<exists>bs buf. lencode tostr tys new st tbl buffer = Some (Inr (bs, buf)) \<and>
    ldecode tys st bs LNil = Some (Inr (msg_norm tostr tys ENCODE_DEEPLEVEL st tbl, int (length bs)))"
  using lencode_bytes [OF assms(1-4), of new] ldecode_bytes [OF assms(1-3,5)] by blast

theorem lencode_ldecode_witness:
  "\<exists>bs buf. lencode (\<lambda>_. []) demo_types (\<lambda>n. replicate n 0) (demo_types ! 1) demo_table (replicate 2050 0) = Some (Inr (bs, buf)) \<and>
    ldecode demo_types (demo_types ! 1) bs LNil = Some (Inr (demo_table, int (length bs)))"
  using lencode_ldecode [OF demo_facts(1,6,2), of "replicate 2050 0" "\<lambda>n. replicate n 0"] demo_facts(4,5) unfolding demo_facts(3) by simp

text \<open>
  C25: The encoder writes exactly the wire format, whatever was in the buffer: the header with one word
  per field and a skip word per gap in the tags, small integers inline, then the data with a length
  before each part, integer arrays in four or eight bytes depending on the widest element.
\<close>

theorem lencode_writes_format:
  assumes "schema_ok tys" "st \<in> set tys" "msg_ok tostr tys ENCODE_DEEPLEVEL st tbl"
    "msg_need tostr tys ENCODE_DEEPLEVEL st tbl \<le> length buffer"
  shows "\<exists>buf. lencode tostr tys new st tbl buffer = Some (Inr (msg_bytes tostr tys ENCODE_DEEPLEVEL st tbl, buf))"
  by (rule lencode_bytes [OF assms])

theorem lencode_writes_format_witness:
  "\<exists>buf. lencode (\<lambda>_. []) demo_types (\<lambda>n. replicate n 0) (demo_types ! 1) demo_table (replicate 2050 0) =
     Some (Inr (msg_bytes (\<lambda>_. []) demo_types ENCODE_DEEPLEVEL (demo_types ! 1) demo_table, buf))"
  using lencode_writes_format [OF demo_facts(1,6,2), of "replicate 2050 0"] demo_facts(4) by simp

text \<open>
  C40: The check of the remaining size before a wide integer compares a negative number as unsigned: when
  an array of at least three narrow integers meets a wide one and the rest of the buffer, although eight
  bytes or more, is shorter than what widening the earlier elements takes, \<open>encode_integer_array\<close> writes
  behind the buffer.
\<close>

theorem wide_int_overruns:
  assumes "\<not> fits32 i" "8 \<le> length rest" "length rest < 4 * length ds"
  shows "int_element 8 (le_bytes 8 i) (ia_state 4 h ds rest) = None"
proof -
  obtain n where n: "length ds = Suc n" using assms(3) by (cases "length ds") auto
  have out: "poke_all mem j bs = None" if "length mem < j + length bs" "bs \<noteq> []" for mem :: bytes and j bs
    using that
  proof (induction bs arbitrary: mem j)
    case (Cons b bs)
    then show ?case using Cons.IH [of "mem[j := b]" "j + 1"] by (cases "bs = []") (auto simp: poke_def)
  qed simp
  let ?mem = "h # concat (map (le_bytes 4) ds) @ rest"
  have short: "length ?mem < 1 + n * 8 + 8" using assms(3) n by simp
  have "rearrange (Suc n) ?mem = None"
  proof -
    have "poke_all m (1 + n * 8 + 4) bs = None" if "length m = length ?mem" "length bs = 4" for m :: bytes and bs
    proof -
      have "bs \<noteq> []" using that(2) by auto
      then show ?thesis using out [of m "1 + n * 8 + 4" bs] that short by simp
    qed
    moreover have "length m = length ?mem" if "poke_all ?mem (1 + n * 8) bs = Some m" for m bs
    proof (cases "1 + n * 8 + length bs \<le> length ?mem")
      case True
      then show ?thesis using that poke_all_ok [OF True] by auto
    next
      case False
      then show ?thesis using that out [of ?mem "1 + n * 8" bs] by (cases "bs = []") auto
    qed
    ultimately show ?thesis unfolding rearrange.simps uint32_to_uint64_def
      by (auto split: Option.bind_splits simp del: poke_all.simps)
  qed
  then show ?thesis using assms(2,3) n by (simp add: int_element_def ia_state_def less_sizeof_def Let_def del: rearrange.simps)
qed

theorem wide_int_overruns_witness:
  "int_element 8 (le_bytes 8 0x100000000) (ia_state 4 0 [1, 2, 3] (replicate 10 0)) = None"
  using wide_int_overruns [where i = "0x100000000" and rest = "replicate 10 0" and ds = "[1, 2, 3]" and h = 0] by (simp add: fits32_def)

end
