(* ===== verification/Serial.thy ===== *)
theory Serial
  imports Bytes
begin

text \<open>
  The serialisation of Lua values between services, \<open>src/src/lserial.c\<close>. A table is the list of its entries in
  the order of \<open>lua_next\<close>, with the pairs that its \<open>__pairs\<close> metamethod yields when it has one. A float is its
  eight bytes. What Lua itself decides is a parameter: \<open>rawlen\<close> is \<open>lua_rawlen\<close>, which may be any border of a
  table, and \<open>numkey\<close> is how a float becomes a key (an integral one an integer, none for NaN). A table as
  a key is a new object, equal to no other. The output buffer is the chain of its nodes, the input
  buffer the bytes that are left.
\<close>

section \<open>Values\<close>

datatype lvalue =
    VNil
  | VBool bool
  | VInt u64
  | VNum u64
  | VStr bytes
  | VPtr u64
  | VTab "(lvalue \<times> lvalue) list" "(lvalue \<times> lvalue) list option"
  | VFun

definition rawget :: "(lvalue \<times> lvalue) list \<Rightarrow> lvalue \<Rightarrow> lvalue" where
  "rawget t k = (case map_of t k of None \<Rightarrow> VNil | Some v \<Rightarrow> v)"

fun put :: "lvalue \<Rightarrow> lvalue \<Rightarrow> (lvalue \<times> lvalue) list \<Rightarrow> (lvalue \<times> lvalue) list" where
  "put k v [] = (if v = VNil then [] else [(k, v)])"
| "put k v ((k', v') # t) = (if k = k' then (if v = VNil then t else (k, v) # t) else (k', v') # put k v t)"

fun is_tab :: "lvalue \<Rightarrow> bool" where
  "is_tab (VTab t m) = True"
| "is_tab _ = False"

definition rawset :: "(u64 \<Rightarrow> lvalue option) \<Rightarrow> lvalue \<Rightarrow> lvalue \<Rightarrow> (lvalue \<times> lvalue) list \<Rightarrow> (lvalue \<times> lvalue) list option" where
  "rawset numkey k v t = (case k of
     VNil \<Rightarrow> None
   | VNum x \<Rightarrow> map_option (\<lambda>k. put k v t) (numkey x)
   | VTab e m \<Rightarrow> Some (if v = VNil then t else t @ [(k, v)])
   | _ \<Rightarrow> Some (put k v t))"

section \<open>The output buffer\<close>

definition DATA_SIZE :: nat where "DATA_SIZE = 128"
definition MAX_DEPTH :: nat where "MAX_DEPTH = 32"

record buffer =
  b_nodes :: "bytes list"
  b_size :: nat
  b_offset :: nat

definition buffer_init :: buffer where
  "buffer_init = \<lparr>b_nodes = [replicate DATA_SIZE 0], b_size = 0, b_offset = 0\<rparr>"

text \<open>\<open>memcpy\<close> into the current node, which is the last.\<close>

definition node_copy :: "bytes \<Rightarrow> buffer \<Rightarrow> buffer" where
  "node_copy data b =
     (let cur = last (b_nodes b) in
      b\<lparr>b_nodes := butlast (b_nodes b) @ [take (b_offset b) cur @ data @ drop (b_offset b + length data) cur],
        b_size := b_size b + length data\<rparr>)"

definition node_new :: "buffer \<Rightarrow> buffer" where
  "node_new b = b\<lparr>b_nodes := b_nodes b @ [replicate DATA_SIZE 0], b_offset := 0\<rparr>"

text \<open>From the comparison on; the jump to \<open>_again\<close> is the recursive call.\<close>

function buffer_put :: "buffer \<Rightarrow> bytes \<Rightarrow> buffer" where
  "buffer_put b data =
     (if b_offset b + length data \<le> DATA_SIZE
      then (node_copy data b)\<lparr>b_offset := b_offset b + length data\<rparr>
      else let n = DATA_SIZE - b_offset b in buffer_put (node_new (node_copy (take n data) b)) (drop n data))"
  by pat_completeness auto
termination
  by (relation "measure (\<lambda>(b, data). 2 * length data + (if b_offset b \<ge> DATA_SIZE then 1 else 0))")
     (auto simp: node_new_def DATA_SIZE_def)

declare buffer_put.simps [simp del]

definition buffer_push :: "buffer \<Rightarrow> bytes \<Rightarrow> buffer" where
  "buffer_push b data = buffer_put (if b_offset b = DATA_SIZE then node_new b else b) data"

section \<open>Packing\<close>

definition TYPE_NIL :: u8 where "TYPE_NIL = 0"
definition TYPE_BOOL :: u8 where "TYPE_BOOL = 1"
definition TYPE_INTEGER :: u8 where "TYPE_INTEGER = 2"
definition TYPE_NUMBER :: u8 where "TYPE_NUMBER = 3"
definition TYPE_STRING :: u8 where "TYPE_STRING = 4"
definition TYPE_USERDATA :: u8 where "TYPE_USERDATA = 5"
definition TYPE_TABLE :: u8 where "TYPE_TABLE = 6"

lemmas type_defs = TYPE_NIL_def TYPE_BOOL_def TYPE_INTEGER_def TYPE_NUMBER_def TYPE_STRING_def TYPE_USERDATA_def TYPE_TABLE_def

definition buffer_push_nil :: "buffer \<Rightarrow> buffer" where
  "buffer_push_nil b = buffer_push b [TYPE_NIL]"

definition buffer_push_integer :: "buffer \<Rightarrow> u64 \<Rightarrow> buffer" where
  "buffer_push_integer b v = buffer_push (buffer_push b [TYPE_INTEGER]) (le_bytes 8 v)"

definition buffer_push_number :: "buffer \<Rightarrow> u64 \<Rightarrow> buffer" where
  "buffer_push_number b v = buffer_push (buffer_push b [TYPE_NUMBER]) (le_bytes 8 v)"

definition buffer_push_boolean :: "buffer \<Rightarrow> bool \<Rightarrow> buffer" where
  "buffer_push_boolean b v = buffer_push (buffer_push b [TYPE_BOOL]) (le_bytes 1 (if v then 1 else 0))"

definition buffer_push_string :: "buffer \<Rightarrow> bytes \<Rightarrow> buffer" where
  "buffer_push_string b str = buffer_push (buffer_push (buffer_push b [TYPE_STRING]) (le_bytes 4 (of_nat (length str)))) str"

definition buffer_push_pointer :: "buffer \<Rightarrow> u64 \<Rightarrow> buffer" where
  "buffer_push_pointer b v = buffer_push (buffer_push b [TYPE_USERDATA]) (le_bytes 8 v)"

type_synonym packer = "lvalue \<Rightarrow> buffer \<Rightarrow> string + buffer"

fun pack_all :: "packer \<Rightarrow> lvalue list \<Rightarrow> buffer \<Rightarrow> string + buffer" where
  "pack_all one [] b = Inr b"
| "pack_all one (v # vs) b = (case one v b of Inl e \<Rightarrow> Inl e | Inr b \<Rightarrow> pack_all one vs b)"

definition push_table_head :: "nat \<Rightarrow> buffer \<Rightarrow> buffer" where
  "push_table_head n b = buffer_push (buffer_push b [TYPE_TABLE]) (le_bytes 8 (of_nat n))"

definition buffer_push_array :: "packer \<Rightarrow> nat \<Rightarrow> (lvalue \<times> lvalue) list \<Rightarrow> buffer \<Rightarrow> string + buffer" where
  "buffer_push_array one array_size t b =
     pack_all one (map (\<lambda>i. rawget t (VInt (of_nat i))) [1..<array_size + 1]) (push_table_head array_size b)"

fun in_array :: "nat \<Rightarrow> lvalue \<Rightarrow> bool" where
  "in_array array_size (VInt x) \<longleftrightarrow> sint x > 0 \<and> sint x \<le> int array_size"
| "in_array array_size _ \<longleftrightarrow> False"

fun push_pairs :: "packer \<Rightarrow> (lvalue \<times> lvalue) list \<Rightarrow> buffer \<Rightarrow> string + buffer" where
  "push_pairs one [] b = Inr (buffer_push_nil b)"
| "push_pairs one ((k, v) # t) b = (case one k b of Inl e \<Rightarrow> Inl e
     | Inr b \<Rightarrow> (case one v b of Inl e \<Rightarrow> Inl e | Inr b \<Rightarrow> push_pairs one t b))"

definition buffer_push_hash :: "packer \<Rightarrow> nat \<Rightarrow> (lvalue \<times> lvalue) list \<Rightarrow> buffer \<Rightarrow> string + buffer" where
  "buffer_push_hash one array_size t b = push_pairs one (filter (\<lambda>(k, v). \<not> in_array array_size k) t) b"

definition buffer_push_metapairs :: "packer \<Rightarrow> (lvalue \<times> lvalue) list \<Rightarrow> buffer \<Rightarrow> string + buffer" where
  "buffer_push_metapairs one pairs b = push_pairs one pairs (push_table_head 0 b)"

definition buffer_push_table ::
  "((lvalue \<times> lvalue) list \<Rightarrow> nat) \<Rightarrow> packer \<Rightarrow> (lvalue \<times> lvalue) list \<Rightarrow> (lvalue \<times> lvalue) list option \<Rightarrow> buffer \<Rightarrow> string + buffer" where
  "buffer_push_table rawlen one t m b = (case m of
     Some pairs \<Rightarrow> buffer_push_metapairs one pairs b
   | None \<Rightarrow> (case buffer_push_array one (rawlen t) t b of Inl e \<Rightarrow> Inl e
       | Inr b \<Rightarrow> buffer_push_hash one (rawlen t) t b))"

text \<open>The argument counts the levels that are left below \<open>MAX_DEPTH\<close>; on an error the buffer is released.\<close>

fun lpack_one :: "((lvalue \<times> lvalue) list \<Rightarrow> nat) \<Rightarrow> nat \<Rightarrow> packer" where
  "lpack_one rawlen 0 v b = Inl ''serial table too depth''"
| "lpack_one rawlen (Suc k) v b = (case v of
     VNil \<Rightarrow> Inr (buffer_push_nil b)
   | VInt i \<Rightarrow> Inr (buffer_push_integer b i)
   | VNum x \<Rightarrow> Inr (buffer_push_number b x)
   | VBool x \<Rightarrow> Inr (buffer_push_boolean b x)
   | VStr s \<Rightarrow> Inr (buffer_push_string b s)
   | VPtr p \<Rightarrow> Inr (buffer_push_pointer b p)
   | VTab t m \<Rightarrow> buffer_push_table rawlen (lpack_one rawlen k) t m b
   | VFun \<Rightarrow> Inl ''serial unsupport type'')"

text \<open>\<open>None\<close> is a node that is not there.\<close>

fun lpack_ret :: "bytes list \<Rightarrow> nat \<Rightarrow> bytes option" where
  "lpack_ret nodes len =
     (if len = 0 then Some []
      else case nodes of [] \<Rightarrow> None
        | node # nodes \<Rightarrow>
            if len \<ge> DATA_SIZE then map_option (\<lambda>p. node @ p) (lpack_ret nodes (len - DATA_SIZE))
            else Some (take len node))"

definition lpack :: "((lvalue \<times> lvalue) list \<Rightarrow> nat) \<Rightarrow> lvalue list \<Rightarrow> (string + bytes) option" where
  "lpack rawlen vs = (case pack_all (lpack_one rawlen (MAX_DEPTH + 1)) vs buffer_init of
     Inl e \<Rightarrow> Some (Inl e)
   | Inr b \<Rightarrow> map_option Inr (lpack_ret (b_nodes b) (b_size b)))"

section \<open>Unpacking\<close>

definition buffer_pop :: "nat \<Rightarrow> bytes \<Rightarrow> (bytes \<times> bytes) option" where
  "buffer_pop siz b = (if length b < siz then None else Some (take siz b, drop siz b))"

text \<open>
  What is pushed and the bytes left; nothing is pushed when the type is not known. \<open>None\<close> is the use of a null
  pointer, a Lua error, or a stack that lacks the value a table needs. Every value takes at least one
  byte, so the number of bytes that are left bounds the nesting of tables and the number of pairs.
\<close>

type_synonym unpacker = "bytes \<Rightarrow> (lvalue option \<times> bytes) option"

definition lunpack_one :: "(u8 \<Rightarrow> unpacker) \<Rightarrow> unpacker" where
  "lunpack_one val b = (case b of [] \<Rightarrow> Some (None, []) | ty # b \<Rightarrow> val ty b)"

fun pop_array :: "unpacker \<Rightarrow> nat \<Rightarrow> nat \<Rightarrow> (lvalue \<times> lvalue) list \<Rightarrow> bytes \<Rightarrow> ((lvalue \<times> lvalue) list \<times> bytes) option" where
  "pop_array one i 0 t b = Some (t, b)"
| "pop_array one i (Suc n) t b = do {
     (v, b) \<leftarrow> one b;
     v \<leftarrow> v;
     pop_array one (i + 1) n (put (VInt (of_nat i)) v t) b }"

fun pop_pairs :: "(u64 \<Rightarrow> lvalue option) \<Rightarrow> unpacker \<Rightarrow> nat \<Rightarrow> (lvalue \<times> lvalue) list \<Rightarrow> bytes \<Rightarrow> ((lvalue \<times> lvalue) list \<times> bytes) option" where
  "pop_pairs numkey one 0 t b = None"
| "pop_pairs numkey one (Suc n) t b = do {
     (k, b) \<leftarrow> one b;
     k \<leftarrow> k;
     if k = VNil then Some (t, b)
     else do {
       (v, b) \<leftarrow> one b;
       v \<leftarrow> v;
       t \<leftarrow> rawset numkey k v t;
       pop_pairs numkey one n t b } }"

definition buffer_pop_table :: "(u64 \<Rightarrow> lvalue option) \<Rightarrow> unpacker \<Rightarrow> unpacker" where
  "buffer_pop_table numkey one b = do {
     (v, b) \<leftarrow> buffer_pop 8 b;
     let array_size = nat (sint (ucast (le_word v) :: u32));
     (t, b) \<leftarrow> pop_array one 1 array_size [] b;
     (t, b) \<leftarrow> pop_pairs numkey one (length b + 1) t b;
     Some (Some (VTab t None), b) }"

definition buffer_pop_string :: unpacker where
  "buffer_pop_string b = do {
     (v, b) \<leftarrow> buffer_pop 4 b;
     let siz = sint (ucast (le_word v) :: u32);
     if siz < 0 then None
     else do { (p, b) \<leftarrow> buffer_pop (nat siz) b; Some (Some (VStr p), b) } }"

definition buffer_pop_userdata :: unpacker where
  "buffer_pop_userdata b =
     (case buffer_pop 8 b of None \<Rightarrow> Some (Some VNil, b) | Some (v, b) \<Rightarrow> Some (Some (VPtr (le_word v)), b))"

fun lunpack_value :: "(u64 \<Rightarrow> lvalue option) \<Rightarrow> nat \<Rightarrow> u8 \<Rightarrow> unpacker" where
  "lunpack_value numkey 0 ty b = None"
| "lunpack_value numkey (Suc f) ty b =
     (if ty = TYPE_NIL then Some (Some VNil, b)
      else if ty = TYPE_BOOL then do { (v, b) \<leftarrow> buffer_pop 1 b; Some (Some (VBool (v \<noteq> [0])), b) }
      else if ty = TYPE_INTEGER then do { (v, b) \<leftarrow> buffer_pop 8 b; Some (Some (VInt (le_word v)), b) }
      else if ty = TYPE_NUMBER then do { (v, b) \<leftarrow> buffer_pop 8 b; Some (Some (VNum (le_word v)), b) }
      else if ty = TYPE_STRING then buffer_pop_string b
      else if ty = TYPE_USERDATA then buffer_pop_userdata b
      else if ty = TYPE_TABLE then buffer_pop_table numkey (lunpack_one (lunpack_value numkey f)) b
      else Some (None, b))"

text \<open>The values on the stack.\<close>

fun lunpack_loop :: "(u64 \<Rightarrow> lvalue option) \<Rightarrow> nat \<Rightarrow> bytes \<Rightarrow> lvalue list option" where
  "lunpack_loop numkey 0 b = None"
| "lunpack_loop numkey (Suc n) b = (case b of [] \<Rightarrow> Some []
     | ty # b \<Rightarrow> do {
         (v, b) \<leftarrow> lunpack_value numkey (length b + 1) ty b;
         vs \<leftarrow> lunpack_loop numkey n b;
         Some (case v of None \<Rightarrow> vs | Some v \<Rightarrow> v # vs) })"

definition lunpack :: "(u64 \<Rightarrow> lvalue option) \<Rightarrow> bytes \<Rightarrow> lvalue list option" where
  "lunpack numkey data = (if data = [] then Some [] else lunpack_loop numkey (length data + 1) data)"

section \<open>The buffer holds what was pushed\<close>

definition buffer_ok :: "buffer \<Rightarrow> bool" where
  "buffer_ok b \<longleftrightarrow> b_nodes b \<noteq> [] \<and> list_all (\<lambda>n. length n = DATA_SIZE) (b_nodes b) \<and> b_offset b \<le> DATA_SIZE \<and>
     b_size b = DATA_SIZE * (length (b_nodes b) - 1) + b_offset b"

definition content :: "buffer \<Rightarrow> bytes" where
  "content b = take (b_size b) (concat (b_nodes b))"

lemma length_concat_nodes: "list_all (\<lambda>n. length n = s) ns \<Longrightarrow> length (concat ns) = s * length ns"
  by (induction ns) auto

lemma buffer_split:
  assumes "buffer_ok b"
  obtains ns cur where "b_nodes b = ns @ [cur]" "length cur = DATA_SIZE" "list_all (\<lambda>n. length n = DATA_SIZE) ns"
    "b_size b = DATA_SIZE * length ns + b_offset b" "content b = concat ns @ take (b_offset b) cur"
proof -
  from assms obtain ns cur where n: "b_nodes b = ns @ [cur]" by (metis buffer_ok_def append_butlast_last_id)
  with assms show thesis
    by (intro that [of ns cur]) (auto simp: buffer_ok_def content_def length_concat_nodes)
qed

lemma node_copy_ok:
  assumes "buffer_ok b" "b_offset b + length d \<le> DATA_SIZE"
  shows "buffer_ok ((node_copy d b)\<lparr>b_offset := b_offset b + length d\<rparr>)"
    and "content ((node_copy d b)\<lparr>b_offset := b_offset b + length d\<rparr>) = content b @ d"
proof -
  from buffer_split [OF assms(1)] obtain ns cur where s: "b_nodes b = ns @ [cur]" "length cur = DATA_SIZE"
    "list_all (\<lambda>n. length n = DATA_SIZE) ns" "b_size b = DATA_SIZE * length ns + b_offset b"
    "content b = concat ns @ take (b_offset b) cur" .
  then show "buffer_ok ((node_copy d b)\<lparr>b_offset := b_offset b + length d\<rparr>)"
    using assms(2) by (simp add: buffer_ok_def node_copy_def Let_def)
  show "content ((node_copy d b)\<lparr>b_offset := b_offset b + length d\<rparr>) = content b @ d"
    unfolding s(5) using s(1-4) assms(2) by (simp add: content_def node_copy_def Let_def length_concat_nodes)
qed

lemma node_new_ok:
  assumes "buffer_ok b" "b_offset b = DATA_SIZE"
  shows "buffer_ok (node_new b)" and "content (node_new b) = content b"
proof -
  from buffer_split [OF assms(1)] obtain ns cur where s: "b_nodes b = ns @ [cur]" "length cur = DATA_SIZE"
    "list_all (\<lambda>n. length n = DATA_SIZE) ns" "b_size b = DATA_SIZE * length ns + b_offset b" .
  then show "buffer_ok (node_new b)" using assms(2) by (simp add: buffer_ok_def node_new_def)
  show "content (node_new b) = content b" using s assms(2) by (simp add: content_def node_new_def length_concat_nodes)
qed

lemma buffer_put_ok: "buffer_ok b \<Longrightarrow> buffer_ok (buffer_put b d) \<and> content (buffer_put b d) = content b @ d"
proof (induction b d rule: buffer_put.induct)
  case (1 b d)
  show ?case
  proof (cases "b_offset b + length d \<le> DATA_SIZE")
    case True
    then show ?thesis using node_copy_ok [OF "1.prems"] by (subst (1 2) buffer_put.simps) simp
  next
    case False
    let ?n = "DATA_SIZE - b_offset b"
    let ?b = "(node_copy (take ?n d) b)\<lparr>b_offset := DATA_SIZE\<rparr>"
    have off: "b_offset b \<le> DATA_SIZE" using "1.prems" by (simp add: buffer_ok_def)
    have c: "buffer_ok ?b" "content ?b = content b @ take ?n d"
      using node_copy_ok [OF "1.prems", of "take ?n d"] False off by simp_all
    have "node_new (node_copy (take ?n d) b) = node_new ?b" by (simp add: node_new_def)
    then have "buffer_ok (node_new (node_copy (take ?n d) b))" "content (node_new (node_copy (take ?n d) b)) = content b @ take ?n d"
      using node_new_ok [OF c(1)] c(2) by simp_all
    with "1.IH" [OF False refl] have "buffer_ok (buffer_put (node_new (node_copy (take ?n d) b)) (drop ?n d)) \<and>
        content (buffer_put (node_new (node_copy (take ?n d) b)) (drop ?n d)) = content b @ d" by simp
    then show ?thesis using False by (subst (1 2) buffer_put.simps) (simp add: Let_def)
  qed
qed

lemma buffer_push_ok [simp]: "buffer_ok b \<Longrightarrow> buffer_ok (buffer_push b d)"
  and content_push [simp]: "buffer_ok b \<Longrightarrow> content (buffer_push b d) = content b @ d"
  using buffer_put_ok [of "node_new b" d] buffer_put_ok [of b d] node_new_ok [of b]
  by (auto simp: buffer_push_def)

lemma lpack_ret_content:
  "list_all (\<lambda>n. length n = DATA_SIZE) nodes \<Longrightarrow> len \<le> DATA_SIZE * length nodes \<Longrightarrow>
   lpack_ret nodes len = Some (take len (concat nodes))"
proof (induction nodes arbitrary: len)
  case (Cons n nodes)
  show ?case
  proof (cases "len \<ge> DATA_SIZE")
    case True
    then have "lpack_ret nodes (len - DATA_SIZE) = Some (take (len - DATA_SIZE) (concat nodes))"
      using Cons.prems by (intro Cons.IH) auto
    with True Cons.prems show ?thesis by (subst lpack_ret.simps) auto
  next
    case False
    with Cons.prems show ?thesis by (subst lpack_ret.simps) auto
  qed
qed simp

declare lpack_ret.simps [simp del]

section \<open>The format\<close>

definition tab_bytes :: "(lvalue \<Rightarrow> bytes) \<Rightarrow> nat \<Rightarrow> lvalue list \<Rightarrow> (lvalue \<times> lvalue) list \<Rightarrow> bytes" where
  "tab_bytes enc n arr prs = [TYPE_TABLE] @ le_bytes 8 (of_nat n) @ concat (map enc arr) @
     concat (map (\<lambda>(k, v). enc k @ enc v) prs) @ [TYPE_NIL]"

definition array_part :: "nat \<Rightarrow> (lvalue \<times> lvalue) list \<Rightarrow> lvalue list" where
  "array_part n t = map (\<lambda>i. rawget t (VInt (of_nat i))) [1..<n + 1]"

definition hash_part :: "nat \<Rightarrow> (lvalue \<times> lvalue) list \<Rightarrow> (lvalue \<times> lvalue) list" where
  "hash_part n t = filter (\<lambda>(k, v). \<not> in_array n k) t"

text \<open>The array part and the pairs that are written for a table.\<close>

definition table_parts :: "((lvalue \<times> lvalue) list \<Rightarrow> nat) \<Rightarrow> (lvalue \<times> lvalue) list \<Rightarrow> (lvalue \<times> lvalue) list option \<Rightarrow>
    lvalue list \<times> (lvalue \<times> lvalue) list" where
  "table_parts rawlen t m = (case m of Some prs \<Rightarrow> ([], prs) | None \<Rightarrow> (array_part (rawlen t) t, hash_part (rawlen t) t))"

definition parts_all :: "(lvalue \<Rightarrow> bool) \<Rightarrow> lvalue list \<times> (lvalue \<times> lvalue) list \<Rightarrow> bool" where
  "parts_all P parts \<longleftrightarrow> list_all P (fst parts) \<and> list_all (\<lambda>(k, v). P k \<and> P v) (snd parts)"

fun val_bytes :: "((lvalue \<times> lvalue) list \<Rightarrow> nat) \<Rightarrow> nat \<Rightarrow> lvalue \<Rightarrow> bytes" where
  "val_bytes rawlen 0 v = []"
| "val_bytes rawlen (Suc k) v = (case v of
     VNil \<Rightarrow> [TYPE_NIL]
   | VInt i \<Rightarrow> TYPE_INTEGER # le_bytes 8 i
   | VNum x \<Rightarrow> TYPE_NUMBER # le_bytes 8 x
   | VBool x \<Rightarrow> [TYPE_BOOL, if x then 1 else 0]
   | VStr s \<Rightarrow> TYPE_STRING # le_bytes 4 (of_nat (length s)) @ s
   | VPtr p \<Rightarrow> TYPE_USERDATA # le_bytes 8 p
   | VTab t m \<Rightarrow> (let (arr, prs) = table_parts rawlen t m in tab_bytes (val_bytes rawlen k) (length arr) arr prs)
   | VFun \<Rightarrow> [])"

fun packable :: "((lvalue \<times> lvalue) list \<Rightarrow> nat) \<Rightarrow> nat \<Rightarrow> lvalue \<Rightarrow> bool" where
  "packable rawlen 0 v = False"
| "packable rawlen (Suc k) v = (case v of
     VFun \<Rightarrow> False
   | VTab t m \<Rightarrow> parts_all (packable rawlen k) (table_parts rawlen t m)
   | _ \<Rightarrow> True)"

section \<open>Packing writes the format\<close>

definition packs :: "packer \<Rightarrow> (lvalue \<Rightarrow> bool) \<Rightarrow> (lvalue \<Rightarrow> bytes) \<Rightarrow> bool" where
  "packs one P enc \<longleftrightarrow> (\<forall>v b. buffer_ok b \<longrightarrow>
     (if P v then \<exists>b'. one v b = Inr b' \<and> buffer_ok b' \<and> content b' = content b @ enc v else \<exists>e. one v b = Inl e))"

lemma pack_all_packs:
  assumes "packs one P enc" "buffer_ok b"
  shows "if list_all P vs then \<exists>b'. pack_all one vs b = Inr b' \<and> buffer_ok b' \<and> content b' = content b @ concat (map enc vs)
    else \<exists>e. pack_all one vs b = Inl e"
  using assms(2)
proof (induction vs arbitrary: b)
  case (Cons v vs)
  show ?case
  proof (cases "P v")
    case True
    with assms(1) Cons.prems obtain b1 where b1: "one v b = Inr b1" "buffer_ok b1" "content b1 = content b @ enc v"
      unfolding packs_def by meson
    with Cons.IH [OF b1(2)] True show ?thesis by (simp split: if_splits)
  next
    case False
    with assms(1) Cons.prems obtain e where "one v b = Inl e" unfolding packs_def by meson
    with False show ?thesis by simp
  qed
qed simp

lemma push_pairs_packs:
  assumes "packs one P enc" "buffer_ok b"
  shows "if list_all (\<lambda>(k, v). P k \<and> P v) prs
    then \<exists>b'. push_pairs one prs b = Inr b' \<and> buffer_ok b' \<and>
      content b' = content b @ concat (map (\<lambda>(k, v). enc k @ enc v) prs) @ [TYPE_NIL]
    else \<exists>e. push_pairs one prs b = Inl e"
  using assms(2)
proof (induction prs arbitrary: b)
  case Nil
  then show ?case by (simp add: buffer_push_nil_def)
next
  case (Cons p prs)
  obtain k v where p: "p = (k, v)" by fastforce
  note step = assms(1) [unfolded packs_def, rule_format]
  show ?case
  proof (cases "P k")
    case False
    with step [OF Cons.prems, of k] show ?thesis by (auto simp: p)
  next
    case k: True
    with step [OF Cons.prems, of k] obtain b1 where b1: "one k b = Inr b1" "buffer_ok b1" "content b1 = content b @ enc k" by auto
    show ?thesis
    proof (cases "P v")
      case False
      with step [OF b1(2), of v] b1 k show ?thesis by (auto simp: p)
    next
      case True
      with step [OF b1(2), of v] obtain b2 where "one v b1 = Inr b2" "buffer_ok b2" "content b2 = content b1 @ enc v" by auto
      with Cons.IH [of b2] b1 k True show ?thesis by (simp add: p split: if_splits)
    qed
  qed
qed

lemma buffer_push_table_packs:
  assumes "packs one P enc" "buffer_ok b"
  shows "if parts_all P (table_parts rawlen t m)
    then \<exists>b'. buffer_push_table rawlen one t m b = Inr b' \<and> buffer_ok b' \<and>
      content b' = content b @ (let (arr, prs) = table_parts rawlen t m in tab_bytes enc (length arr) arr prs)
    else \<exists>e. buffer_push_table rawlen one t m b = Inl e"
proof (cases m)
  case (Some prs)
  have h: "buffer_ok (push_table_head 0 b)" "content (push_table_head 0 b) = content b @ TYPE_TABLE # le_bytes 8 0"
    using assms(2) by (simp_all add: push_table_head_def)
  from push_pairs_packs [OF assms(1) h(1), of prs] h(2) Some show ?thesis
    by (simp add: buffer_push_table_def buffer_push_metapairs_def table_parts_def parts_all_def tab_bytes_def split: if_splits)
next
  case None
  let ?n = "rawlen t"
  have h: "buffer_ok (push_table_head ?n b)" "content (push_table_head ?n b) = content b @ TYPE_TABLE # le_bytes 8 (of_nat ?n)"
    using assms(2) by (simp_all add: push_table_head_def)
  have arr: "buffer_push_array one ?n t b = pack_all one (array_part ?n t) (push_table_head ?n b)"
    by (simp add: buffer_push_array_def array_part_def)
  have hash: "buffer_push_hash one ?n t b' = push_pairs one (hash_part ?n t) b'" for b'
    by (simp add: buffer_push_hash_def hash_part_def)
  have n: "length (array_part ?n t) = ?n" by (simp add: array_part_def)
  note a = pack_all_packs [OF assms(1) h(1), of "array_part ?n t"]
  show ?thesis
  proof (cases "list_all P (array_part ?n t)")
    case False
    with a None show ?thesis by (auto simp: buffer_push_table_def arr table_parts_def parts_all_def)
  next
    case True
    with a obtain b1 where b1: "pack_all one (array_part ?n t) (push_table_head ?n b) = Inr b1" "buffer_ok b1"
      "content b1 = content (push_table_head ?n b) @ concat (map enc (array_part ?n t))" by auto
    from push_pairs_packs [OF assms(1) b1(2), of "hash_part ?n t"] b1 True None h(2) n show ?thesis
      by (simp add: buffer_push_table_def arr hash table_parts_def parts_all_def tab_bytes_def split: if_splits)
  qed
qed

lemma lpack_one_packs: "packs (lpack_one rawlen k) (packable rawlen k) (val_bytes rawlen k)"
proof (induction k)
  case (Suc k)
  show ?case unfolding packs_def
  proof (intro allI impI)
    fix v b assume b: "buffer_ok b"
    show "if packable rawlen (Suc k) v
      then \<exists>b'. lpack_one rawlen (Suc k) v b = Inr b' \<and> buffer_ok b' \<and> content b' = content b @ val_bytes rawlen (Suc k) v
      else \<exists>e. lpack_one rawlen (Suc k) v b = Inl e"
    proof (cases v)
      case (VTab t m)
      with buffer_push_table_packs [OF Suc b, of rawlen t m] show ?thesis by (simp add: Let_def split: if_splits)
    qed (use b in \<open>auto simp: buffer_push_nil_def buffer_push_integer_def buffer_push_number_def buffer_push_boolean_def
        buffer_push_string_def buffer_push_pointer_def le_bytes_def\<close>)
  qed
qed (simp add: packs_def)

lemma buffer_init_ok: "buffer_ok buffer_init" "content buffer_init = []"
  by (simp_all add: buffer_ok_def buffer_init_def content_def)

lemma lpack_bytes:
  "if list_all (packable rawlen (MAX_DEPTH + 1)) vs
   then lpack rawlen vs = Some (Inr (concat (map (val_bytes rawlen (MAX_DEPTH + 1)) vs)))
   else \<exists>e. lpack rawlen vs = Some (Inl e)"
proof -
  note p = pack_all_packs [OF lpack_one_packs buffer_init_ok(1), of rawlen "MAX_DEPTH + 1" vs]
  show ?thesis
  proof (cases "list_all (packable rawlen (MAX_DEPTH + 1)) vs")
    case True
    with p obtain b where b: "pack_all (lpack_one rawlen (MAX_DEPTH + 1)) vs buffer_init = Inr b" "buffer_ok b"
      "content b = concat (map (val_bytes rawlen (MAX_DEPTH + 1)) vs)" by (auto simp: buffer_init_ok)
    have "lpack_ret (b_nodes b) (b_size b) = Some (content b)"
    proof -
      have "b_size b \<le> DATA_SIZE * length (b_nodes b)"
        using b(2) by (cases "b_nodes b") (auto simp: buffer_ok_def)
      then show ?thesis using b(2) unfolding content_def by (intro lpack_ret_content) (simp_all add: buffer_ok_def)
    qed
    with b True show ?thesis by (simp add: lpack_def)
  next
    case False
    with p show ?thesis by (auto simp: lpack_def)
  qed
qed


section \<open>What the receiver sees\<close>

fun put_from :: "nat \<Rightarrow> lvalue list \<Rightarrow> (lvalue \<times> lvalue) list \<Rightarrow> (lvalue \<times> lvalue) list" where
  "put_from i [] t = t"
| "put_from i (v # vs) t = put_from (i + 1) vs (put (VInt (of_nat i)) v t)"

definition put_pair :: "lvalue \<times> lvalue \<Rightarrow> (lvalue \<times> lvalue) list \<Rightarrow> (lvalue \<times> lvalue) list" where
  "put_pair = (\<lambda>(k, v) t. if is_tab k then (if v = VNil then t else t @ [(k, v)]) else put k v t)"

text \<open>The value that arrives: tables without metatables, the array part first.\<close>

fun val_norm :: "((lvalue \<times> lvalue) list \<Rightarrow> nat) \<Rightarrow> nat \<Rightarrow> lvalue \<Rightarrow> lvalue" where
  "val_norm rawlen 0 v = v"
| "val_norm rawlen (Suc k) v = (case v of
     VTab t m \<Rightarrow>
       (let (arr, prs) = table_parts rawlen t m in
        VTab (fold put_pair (map (map_prod (val_norm rawlen k) (val_norm rawlen k)) prs)
          (put_from 1 (map (val_norm rawlen k) arr) [])) None)
   | _ \<Rightarrow> v)"

text \<open>Sizes fit their fields, keys are not nil, and a float key stays a float.\<close>

definition key_ok :: "(u64 \<Rightarrow> lvalue option) \<Rightarrow> lvalue \<Rightarrow> bool" where
  "key_ok numkey k = (case k of VNil \<Rightarrow> False | VNum x \<Rightarrow> numkey x = Some (VNum x) | _ \<Rightarrow> True)"

fun val_ok :: "(u64 \<Rightarrow> lvalue option) \<Rightarrow> ((lvalue \<times> lvalue) list \<Rightarrow> nat) \<Rightarrow> nat \<Rightarrow> lvalue \<Rightarrow> bool" where
  "val_ok numkey rawlen 0 v = False"
| "val_ok numkey rawlen (Suc k) v = (case v of
     VStr s \<Rightarrow> int (length s) < 2 ^ 31
   | VTab t m \<Rightarrow> int (length (fst (table_parts rawlen t m))) < 2 ^ 31 \<and>
       parts_all (val_ok numkey rawlen k) (table_parts rawlen t m) \<and>
       list_all (\<lambda>(k, v). key_ok numkey k) (snd (table_parts rawlen t m))
   | VFun \<Rightarrow> False
   | _ \<Rightarrow> True)"

section \<open>Unpacking reads the format\<close>

definition unpacks :: "unpacker \<Rightarrow> bytes \<Rightarrow> lvalue \<Rightarrow> bool" where
  "unpacks one bs v \<longleftrightarrow> (\<forall>r. one (bs @ r) = Some (Some v, r))"

lemma pop_array_unpacks:
  assumes "\<And>v. v \<in> set vs \<Longrightarrow> unpacks one (enc v) (norm v)"
  shows "pop_array one i (length vs) t (concat (map enc vs) @ r) = Some (put_from i (map norm vs) t, r)"
  using assms
proof (induction vs arbitrary: i t)
  case (Cons v vs)
  then have "one (enc v @ concat (map enc vs) @ r) = Some (Some (norm v), concat (map enc vs) @ r)" by (simp add: unpacks_def)
  with Cons show ?case by simp
qed simp

lemma key_ok_rawset: "key_ok numkey k \<Longrightarrow> rawset numkey k v t = Some (put_pair (k, v) t)"
  by (cases k) (auto simp: key_ok_def rawset_def put_pair_def)

lemma val_norm_head [simp]: "val_norm rawlen k v = VNil \<longleftrightarrow> v = VNil" "key_ok numkey (val_norm rawlen k v) \<longleftrightarrow> key_ok numkey v"
  "is_tab (val_norm rawlen k v) \<longleftrightarrow> is_tab v"
  by (cases k; cases v; simp add: key_ok_def split: prod.splits)+

lemma pop_pairs_unpacks:
  assumes "\<And>k v. (k, v) \<in> set prs \<Longrightarrow> unpacks one (enc k) (norm k) \<and> unpacks one (enc v) (norm v) \<and> norm k \<noteq> VNil \<and> key_ok numkey (norm k)"
    "unpacks one [TYPE_NIL] VNil" "length prs < n"
  shows "pop_pairs numkey one n t (concat (map (\<lambda>(k, v). enc k @ enc v) prs) @ [TYPE_NIL] @ r) =
    Some (fold put_pair (map (map_prod norm norm) prs) t, r)"
  using assms(1,3)
proof (induction prs arbitrary: n t)
  case Nil
  then obtain m where "n = Suc m" by (cases n) auto
  with assms(2) show ?case by (simp add: unpacks_def)
next
  case (Cons p prs)
  obtain k v where p: "p = (k, v)" by fastforce
  let ?r = "concat (map (\<lambda>(k, v). enc k @ enc v) prs) @ [TYPE_NIL] @ r"
  from Cons.prems(2) obtain m where n: "n = Suc m" by (cases n) auto
  have kv: "unpacks one (enc k) (norm k)" "unpacks one (enc v) (norm v)" "norm k \<noteq> VNil" "key_ok numkey (norm k)"
    using Cons.prems(1) [of k v] p by auto
  have "one (enc k @ enc v @ ?r) = Some (Some (norm k), enc v @ ?r)" "one (enc v @ ?r) = Some (Some (norm v), ?r)"
    using kv(1,2) by (simp_all only: unpacks_def append_assoc)
  moreover have "pop_pairs numkey one m (put_pair (norm k, norm v) t) ?r = Some (fold put_pair (map (map_prod norm norm) prs) (put_pair (norm k, norm v) t), r)"
    using Cons.prems n by (intro Cons.IH) auto
  ultimately show ?case using kv(3) key_ok_rawset [OF kv(4)] n p by simp
qed

lemma buffer_pop_append: "length d = n \<Longrightarrow> buffer_pop n (d @ b) = Some (d, b)"
  by (simp add: buffer_pop_def)

lemma small_size:
  assumes "int n < 2 ^ 31" "w = (of_nat n :: u64)"
  shows "sint (ucast w :: u32) = int n"
proof -
  have "ucast (of_nat n :: u64) = (of_nat n :: u32)" using assms(1) by (simp add: unsigned_of_nat take_bit_nat_eq_self)
  moreover have "sint (of_nat n :: u32) = int n" using assms(1) by (simp add: signed_of_nat signed_take_bit_int_eq_self)
  ultimately show ?thesis using assms(2) by simp
qed

lemma le_word_4_size: "int n < 2 ^ 31 \<Longrightarrow> sint (ucast (le_word (le_bytes 4 (of_nat n))) :: u32) = int n"
  by (rule small_size) (simp_all add: le_word_4 take_bit_of_nat take_bit_nat_eq_self)


lemma concat_map_le: "x \<in> set xs \<Longrightarrow> length (g x) \<le> length (concat (map g xs))"
  by (induction xs) auto

lemma count_le_concat: "(\<And>x. x \<in> set xs \<Longrightarrow> g x \<noteq> []) \<Longrightarrow> length xs \<le> length (concat (map g xs))"
proof (induction xs)
  case (Cons x xs)
  have "0 < length (g x)" using Cons.prems [of x] by simp
  with Cons show ?case by (simp add: Suc_le_eq add_strict_increasing)
qed simp

lemma val_bytes_ne: "packable rawlen k v \<Longrightarrow> val_bytes rawlen k v \<noteq> []"
  by (cases k; cases v) (auto simp: tab_bytes_def split: prod.splits)

lemma lunpack_value_unpacks:
  assumes "packable rawlen k v" "val_ok numkey rawlen k v" "length (val_bytes rawlen k v) \<le> f"
  shows "unpacks (lunpack_one (lunpack_value numkey f)) (val_bytes rawlen k v) (val_norm rawlen k v)"
  using assms
proof (induction k arbitrary: v f)
  case (Suc k)
  have "val_bytes rawlen (Suc k) v \<noteq> []" using Suc.prems(1) by (rule val_bytes_ne)
  then obtain f' where f: "f = Suc f'" using Suc.prems(3) by (cases f) auto
  show ?case
  proof (cases v)
    case (VStr s)
    then have s: "int (length s) < 2 ^ 31" using Suc.prems(2) by simp
    show ?thesis using VStr le_word_4_size [OF s]
      by (simp add: unpacks_def lunpack_one_def f type_defs buffer_pop_string_def buffer_pop_append Let_def)
  next
    case (VTab t m)
    obtain arr prs where parts: "table_parts rawlen t m = (arr, prs)" by fastforce
    let ?one = "lunpack_one (lunpack_value numkey f')" and ?enc = "val_bytes rawlen k" and ?norm = "val_norm rawlen k"
    define A where "A = concat (map ?enc arr)"
    define P where "P = concat (map (\<lambda>(k, v). ?enc k @ ?enc v) prs)"
    have bytes: "val_bytes rawlen (Suc k) v = TYPE_TABLE # le_bytes 8 (of_nat (length arr)) @ A @ P @ [TYPE_NIL]"
      by (simp add: VTab parts tab_bytes_def A_def P_def)
    then have room: "length A + length P < f'" using Suc.prems(3) f by simp
    have arr: "unpacks ?one (?enc e) (?norm e)" if "e \<in> set arr" for e
    proof (rule Suc.IH)
      show "length (?enc e) \<le> f'" using concat_map_le [OF that, of ?enc] room by (simp add: A_def)
    qed (use Suc.prems that VTab parts in \<open>auto simp: parts_all_def list_all_iff\<close>)
    have prs: "unpacks ?one (?enc a) (?norm a) \<and> unpacks ?one (?enc b) (?norm b) \<and> ?norm a \<noteq> VNil \<and> key_ok numkey (?norm a)"
      if "(a, b) \<in> set prs" for a b
    proof -
      have "length (?enc a @ ?enc b) \<le> length P" using concat_map_le [OF that, of "\<lambda>(k, v). ?enc k @ ?enc v"] by (simp add: P_def)
      then have "length (?enc a) \<le> f'" "length (?enc b) \<le> f'" using room by simp_all
      moreover have ok: "packable rawlen k a" "packable rawlen k b" "val_ok numkey rawlen k a" "val_ok numkey rawlen k b" "key_ok numkey a"
        using Suc.prems that VTab parts by (auto simp: parts_all_def list_all_iff)
      moreover have "a \<noteq> VNil" using ok(5) by (auto simp: key_ok_def)
      ultimately show ?thesis using Suc.IH by simp
    qed
    have nil: "unpacks ?one [TYPE_NIL] VNil" using room by (cases f') (simp_all add: unpacks_def lunpack_one_def)
    have small: "int (length arr) < 2 ^ 31" using Suc.prems(2) VTab parts by simp
    have count: "length prs \<le> length P"
    proof -
      have "(\<lambda>(k, v). ?enc k @ ?enc v) x \<noteq> []" if "x \<in> set prs" for x
        using Suc.prems(1) that VTab parts by (cases x) (auto simp: parts_all_def list_all_iff dest: val_bytes_ne)
      then show ?thesis unfolding P_def by (rule count_le_concat)
    qed
    have "buffer_pop_table numkey ?one (le_bytes 8 (of_nat (length arr)) @ A @ P @ [TYPE_NIL] @ r) =
        Some (Some (VTab (fold put_pair (map (map_prod ?norm ?norm) prs) (put_from 1 (map ?norm arr) [])) None), r)" for r
    proof -
      define R where "R = P @ [TYPE_NIL] @ r"
      have "sint (ucast (of_nat (length arr) :: u64) :: u32) = int (length arr)" by (rule small_size [OF small refl])
      moreover have "pop_array ?one 1 (length arr) [] (A @ R) = Some (put_from 1 (map ?norm arr) [], R)"
        unfolding A_def using arr by (intro pop_array_unpacks) auto
      moreover have "pop_pairs numkey ?one (length R + 1) (put_from 1 (map ?norm arr) []) R =
          Some (fold put_pair (map (map_prod ?norm ?norm) prs) (put_from 1 (map ?norm arr) []), r)"
        using prs nil count unfolding P_def R_def by (intro pop_pairs_unpacks) auto
      ultimately show ?thesis unfolding buffer_pop_table_def R_def [symmetric]
        by (simp add: buffer_pop_append Let_def del: pop_pairs.simps)
    qed
    then show ?thesis unfolding unpacks_def bytes
      by (simp add: lunpack_one_def f VTab parts) (simp add: type_defs)
  qed (use Suc.prems f in \<open>auto simp: unpacks_def lunpack_one_def type_defs buffer_pop_append buffer_pop_userdata_def
      buffer_pop_def\<close>)
qed simp


lemma lunpack_loop_values:
  assumes "list_all (\<lambda>v. packable rawlen k v \<and> val_ok numkey rawlen k v) vs" "length vs < n"
  shows "lunpack_loop numkey n (concat (map (val_bytes rawlen k) vs)) = Some (map (val_norm rawlen k) vs)"
  using assms
proof (induction vs arbitrary: n)
  case Nil
  then show ?case by (cases n) auto
next
  case (Cons v vs)
  let ?r = "concat (map (val_bytes rawlen k) vs)"
  from Cons.prems(2) obtain m where n: "n = Suc m" by (cases n) auto
  have ok: "packable rawlen k v" "val_ok numkey rawlen k v" using Cons.prems(1) by simp_all
  then obtain ty b where tb: "val_bytes rawlen k v = ty # b" using val_bytes_ne by (metis list.exhaust)
  have "unpacks (lunpack_one (lunpack_value numkey (length (b @ ?r) + 1))) (ty # b) (val_norm rawlen k v)"
    unfolding tb [symmetric] by (rule lunpack_value_unpacks [OF ok]) (simp add: tb)
  then have "lunpack_value numkey (length (b @ ?r) + 1) ty (b @ ?r) = Some (Some (val_norm rawlen k v), ?r)"
    unfolding unpacks_def lunpack_one_def by (metis append_Cons list.simps(5))
  moreover have "lunpack_loop numkey m ?r = Some (map (val_norm rawlen k) vs)" using Cons n by simp
  ultimately show ?case using n tb by (simp del: lunpack_value.simps)
qed

section \<open>The table that arrives\<close>

definition scalar_keys :: "(lvalue \<times> lvalue) list \<Rightarrow> lvalue list" where
  "scalar_keys t = filter (\<lambda>k. \<not> is_tab k) (map fst t)"

lemma rawget_put: "distinct (scalar_keys t) \<Longrightarrow> \<not> is_tab k \<Longrightarrow> rawget (put k v t) q = (if q = k then v else rawget t q)"
proof (induction t)
  case (Cons e t)
  have "k \<notin> set (scalar_keys t) \<Longrightarrow> map_of t k = None" using Cons.prems(2) by (force simp: scalar_keys_def map_of_eq_None_iff)
  with Cons show ?case by (cases e) (auto simp: rawget_def scalar_keys_def split: if_splits)
qed (simp add: rawget_def)

lemma mem_fst: "(a, b) \<in> set t \<Longrightarrow> a \<in> fst ` set t"
  by force

lemma put_keys: "(a, b) \<in> set (put k v t) \<Longrightarrow> a = k \<or> a \<in> fst ` set t"
  by (induction t) (auto split: if_splits dest: mem_fst)

lemma distinct_put: "distinct (scalar_keys t) \<Longrightarrow> \<not> is_tab k \<Longrightarrow> distinct (scalar_keys (put k v t))"
proof (induction t)
  case (Cons e t)
  then show ?case by (cases e) (auto simp: scalar_keys_def dest: put_keys mem_fst)
qed (simp add: scalar_keys_def)

lemma put_from_lookup:
  assumes "distinct (scalar_keys t)" "i + length vs < 2 ^ 64"
  shows "distinct (scalar_keys (put_from i vs t)) \<and>
    rawget (put_from i vs t) q = (case q of VInt x \<Rightarrow> if i \<le> unat x \<and> unat x < i + length vs then vs ! (unat x - i) else rawget t q | _ \<Rightarrow> rawget t q)"
  using assms
proof (induction vs arbitrary: i t)
  case Nil
  then show ?case by (auto split: lvalue.splits)
next
  case (Cons v vs)
  let ?t = "put (VInt (of_nat i)) v t"
  have d: "distinct (scalar_keys ?t)" using Cons.prems(1) by (simp add: distinct_put)
  have g: "rawget ?t q = (if q = VInt (of_nat i) then v else rawget t q)" using Cons.prems(1) by (simp add: rawget_put)
  have "unat (of_nat i :: u64) = i" using Cons.prems(2) by (simp add: unat_of_nat take_bit_nat_eq_self)
  then have key: "VInt x = VInt (of_nat i) \<longleftrightarrow> unat x = i" for x by (metis lvalue.inject(2) word_unat_eq_iff)
  have ih: "distinct (scalar_keys (put_from (i + 1) vs ?t)) \<and>
    rawget (put_from (i + 1) vs ?t) q = (case q of VInt x \<Rightarrow> if i + 1 \<le> unat x \<and> unat x < i + 1 + length vs then vs ! (unat x - (i + 1)) else rawget ?t q | _ \<Rightarrow> rawget ?t q)"
    using Cons.prems by (intro Cons.IH d) simp
  show ?case
  proof (cases q)
    case (VInt x)
    with ih g key [of x] show ?thesis by (auto simp: nth_Cons' Suc_le_eq)
  qed (use ih g in auto)
qed

lemma fold_put_pair_lookup:
  assumes "distinct (scalar_keys t)" "\<not> is_tab q"
  shows "rawget (fold put_pair prs t) q = (case map_of (rev prs) q of None \<Rightarrow> rawget t q | Some v \<Rightarrow> v)"
  using assms(1)
proof (induction prs arbitrary: t)
  case (Cons p prs)
  obtain k v where p: "p = (k, v)" by fastforce
  have t: "distinct (scalar_keys (put_pair p t))" "rawget (put_pair p t) q = (if q = k then v else rawget t q)"
  proof -
    show "distinct (scalar_keys (put_pair p t))" using Cons.prems by (auto simp: p put_pair_def distinct_put) (simp add: scalar_keys_def)
    have "is_tab k \<Longrightarrow> rawget (t @ [(k, v)]) q = rawget t q" using assms(2) by (auto simp: rawget_def map_add_def split: option.splits)
    then show "rawget (put_pair p t) q = (if q = k then v else rawget t q)"
      using Cons.prems assms(2) by (auto simp: p put_pair_def rawget_put)
  qed
  show ?case using Cons.IH [OF t(1)] t(2) by (auto simp: p map_add_def split: option.splits)
qed simp

lemma map_of_norm:
  assumes "\<not> is_tab q" "distinct (scalar_keys t)"
  shows "map_of (rev (map (map_prod (val_norm rawlen k) (val_norm rawlen k)) t)) q = map_option (val_norm rawlen k) (map_of t q)"
proof -
  have same: "val_norm rawlen k a = q \<longleftrightarrow> a = q" for a
    using assms(1) by (cases k; cases a) (auto split: prod.splits)
  show ?thesis using assms(2)
  proof (induction t)
    case (Cons e t)
    obtain a b where e: "e = (a, b)" by fastforce
    have ih: "map_of (rev (map (map_prod (val_norm rawlen k) (val_norm rawlen k)) t)) q = map_option (val_norm rawlen k) (map_of t q)"
      using Cons by (simp add: scalar_keys_def split: if_splits)
    show ?case
    proof (cases "a = q")
      case True
      then have "map_of t q = None" using Cons.prems assms(1) by (force simp: e scalar_keys_def map_of_eq_None_iff)
      then show ?thesis using True ih same [of a] by (simp add: e map_add_def)
    next
      case False
      then show ?thesis using ih same [of a] by (auto simp: e map_add_def split: option.splits)
    qed
  qed simp
qed


lemma norm_lookup:
  assumes "distinct (scalar_keys t)" "int (rawlen t) < 2 ^ 31" "\<not> is_tab q"
  shows "\<exists>t'. val_norm rawlen (Suc k) (VTab t None) = VTab t' None \<and> rawget t' q = val_norm rawlen k (rawget t q)"
proof -
  let ?n = "rawlen t" and ?norm = "val_norm rawlen k"
  define A where "A = put_from 1 (map ?norm (array_part ?n t)) []"
  have len: "length (array_part ?n t) = ?n" by (simp add: array_part_def)
  have empty: "distinct (scalar_keys [])" "\<And>q. rawget [] q = VNil" by (simp_all add: scalar_keys_def rawget_def)
  have A: "distinct (scalar_keys A)"
    "rawget A q = (case q of VInt x \<Rightarrow> if 1 \<le> unat x \<and> unat x < 1 + ?n then ?norm (array_part ?n t ! (unat x - 1)) else VNil | _ \<Rightarrow> VNil)"
    using put_from_lookup [OF empty(1), of 1 "map ?norm (array_part ?n t)" q] assms(2) len
    by (auto simp: A_def empty(2) split: lvalue.splits)
  have "scalar_keys (hash_part n t) = filter (\<lambda>k. \<not> in_array n k) (scalar_keys t)" for n
    unfolding scalar_keys_def hash_part_def by (induction t) auto
  then have hd: "distinct (scalar_keys (hash_part ?n t))" using assms(1) by simp
  have hash: "map_of (hash_part n t) q = (if in_array n q then None else map_of t q)" for n
    unfolding hash_part_def by (induction t) auto
  have nil: "?norm VNil = VNil" by (cases k) simp_all
  have "rawget (fold put_pair (map (map_prod ?norm ?norm) (hash_part ?n t)) A) q =
      (case map_option ?norm (map_of (hash_part ?n t) q) of None \<Rightarrow> rawget A q | Some v \<Rightarrow> v)"
    using fold_put_pair_lookup [OF A(1) assms(3)] map_of_norm [OF assms(3) hd] by simp
  also have "\<dots> = ?norm (rawget t q)"
  proof (cases "in_array ?n q")
    case True
    then obtain x where q: "q = VInt x" and x: "0 < sint x" "sint x \<le> int ?n" by (cases q) auto
    have u: "int (unat x) = sint x" 
    proof -
      have lt: "uint x < 2 ^ 64" using uint_lt2p [of x] by simp
      then have "take_bit 64 (uint x) = uint x" by (simp add: take_bit_int_eq_self)
      then have "sint x = uint x - 2 ^ 64 * of_bool (bit (uint x) 63)"
        by (simp add: sint_uint signed_take_bit_eq_take_bit_minus)
      then have "sint x = uint x" using x(1) lt by (cases "bit (uint x) 63") auto
      then show ?thesis by simp
    qed
    then have "1 \<le> unat x" "unat x < 1 + ?n" using x by linarith+
    then show ?thesis using A(2) True hash q by (simp add: array_part_def del: upt_Suc)
  next
    case False
    show ?thesis
    proof (cases "map_of t q")
      case None
      have "rawget A q = VNil"
      proof (cases q)
        case (VInt x)
        have "\<not> (1 \<le> unat x \<and> unat x < 1 + ?n)"
        proof
          assume r: "1 \<le> unat x \<and> unat x < 1 + ?n"
          then have "unat x < 2 ^ 31" using assms(2) by simp
          then have "int (unat x) < 2 ^ 31" by (metis of_nat_less_numeral_power_cancel_iff)
          then have "uint x < 2 ^ 31" by (metis uint_nat)
          then have "signed_take_bit 63 (uint x) = uint x"
            by (intro signed_take_bit_int_eq_self) (use order.trans [OF _ uint_ge_0 [of x]] in auto)
          then have "sint x = int (unat x)" by (simp add: sint_uint)
          moreover have "\<not> (0 < sint x \<and> sint x \<le> int ?n)" using False VInt by simp
          ultimately show False using r by linarith
        qed
        then show ?thesis using A(2) VInt by auto
      qed (use A(2) in simp_all)
      moreover have "map_of (hash_part ?n t) q = None" using None hash by simp
      ultimately show ?thesis using None nil by (metis rawget_def option.simps(4) option.map(1))
    next
      case (Some v)
      with False hash show ?thesis by (simp add: rawget_def)
    qed
  qed
  finally show ?thesis by (simp add: table_parts_def A_def)
qed


section \<open>The bounds of the loops\<close>

definition advances :: "unpacker \<Rightarrow> bool" where
  "advances one \<longleftrightarrow> (\<forall>b v b'. one b = Some (Some v, b') \<longrightarrow> length b' < length b)"

definition agrees :: "nat \<Rightarrow> unpacker \<Rightarrow> unpacker \<Rightarrow> bool" where
  "agrees n one one' \<longleftrightarrow> (\<forall>b. length b \<le> n \<longrightarrow> one b = one' b)"

lemma pop_array_agrees:
  assumes "advances one" "agrees n one one'" "length b \<le> n"
  shows "pop_array one i m t b = pop_array one' i m t b \<and> (\<forall>t' b'. pop_array one i m t b = Some (t', b') \<longrightarrow> length b' \<le> length b)"
  using assms(3)
proof (induction m arbitrary: i t b)
  case (Suc m)
  have eq: "one' b = one b" using assms(2) Suc.prems by (simp add: agrees_def)
  show ?case
  proof (cases "\<exists>v b1. one b = Some (Some v, b1)")
    case True
    then obtain v b1 where b1: "one b = Some (Some v, b1)" by blast
    then have "length b1 < length b" using assms(1) by (simp add: advances_def)
    with Suc.IH [of b1 "i + 1" "put (VInt (of_nat i)) v t"] Suc.prems b1 eq show ?thesis by fastforce
  next
    case False
    then show ?thesis using eq by (cases "one b") (auto split: option.splits)
  qed
qed simp

lemma pop_pairs_agrees:
  assumes "advances one" "agrees n one one'" "length b \<le> n" "length b < f" "length b < f'"
  shows "pop_pairs numkey one f t b = pop_pairs numkey one' f' t b \<and> (\<forall>t' b'. pop_pairs numkey one f t b = Some (t', b') \<longrightarrow> length b' \<le> length b)"
  using assms(3-5)
proof (induction f arbitrary: t b f')
  case (Suc f)
  from Suc.prems(3) obtain g where f': "f' = Suc g" by (cases f') auto
  have eq: "one' c = one c" if "length c \<le> n" for c using assms(2) that by (simp add: agrees_def)
  show ?case
  proof (cases "\<exists>k b1. one b = Some (Some k, b1)")
    case False
    then show ?thesis using eq [OF Suc.prems(1)] f' by (cases "one b") (auto split: option.splits)
  next
    case True
    then obtain k b1 where b1: "one b = Some (Some k, b1)" by blast
    then have l1: "length b1 < length b" using assms(1) by (simp add: advances_def)
    have e1: "one' b1 = one b1" using eq [of b1] l1 Suc.prems(1) by simp
    show ?thesis
    proof (cases "\<exists>v b2. one b1 = Some (Some v, b2)")
      case False
      then show ?thesis using b1 e1 l1 eq [OF Suc.prems(1)] f' by (cases "one b1") (auto split: option.splits)
    next
      case True
      then obtain v b2 where b2: "one b1 = Some (Some v, b2)" by blast
      then have l2: "length b2 < length b1" using assms(1) by (simp add: advances_def)
      have ih: "pop_pairs numkey one f t2 b2 = pop_pairs numkey one' g t2 b2 \<and>
          (\<forall>t' b'. pop_pairs numkey one f t2 b2 = Some (t', b') \<longrightarrow> length b' \<le> length b2)" for t2
        using Suc.IH [of b2 g t2] l1 l2 Suc.prems f' by simp
      then have len: "pop_pairs numkey one f t2 b2 = Some (t', b') \<Longrightarrow> length b' \<le> length b" for t2 t' b'
        using l1 l2 by (meson le_trans less_imp_le)
      show ?thesis using ih len b1 b2 e1 l1 eq [OF Suc.prems(1)] f' by (auto split: option.splits simp: bind_eq_Some_conv)
    qed
  qed
qed simp

lemma buffer_pop_shorter: "buffer_pop n b = Some (v, b') \<Longrightarrow> length b' \<le> length b"
  by (auto simp: buffer_pop_def split: if_splits)

lemma lunpack_value_shorter: "lunpack_value numkey f ty b = Some (v, b') \<Longrightarrow> length b' \<le> length b"
proof (induction f arbitrary: ty b v b')
  case (Suc f)
  let ?one = "lunpack_one (lunpack_value numkey f)"
  have adv: "advances ?one"
    using Suc.IH by (fastforce simp: advances_def lunpack_one_def less_Suc_eq_le split: list.splits)
  have ag: "agrees n ?one ?one" for n by (simp add: agrees_def)
  have "length b' \<le> length b" if "buffer_pop_table numkey ?one b = Some (v, b')"
  proof -
    from that obtain h b1 t b2 t' where "buffer_pop 8 b = Some (h, b1)"
      "pop_array ?one 1 (nat (sint (ucast (le_word h) :: u32))) [] b1 = Some (t, b2)"
      "pop_pairs numkey ?one (length b2 + 1) t b2 = Some (t', b')"
      by (auto simp: buffer_pop_table_def bind_eq_Some_conv Let_def simp del: pop_pairs.simps)
    then show ?thesis using buffer_pop_shorter pop_array_agrees [OF adv ag, of b1 "length b1"]
        pop_pairs_agrees [OF adv ag, of b2 "length b2" "length b2 + 1" "length b2 + 1"] by (fastforce simp del: pop_pairs.simps)
  qed
  moreover have "length b' \<le> length b" if "buffer_pop_string b = Some (v, b')"
    using that by (auto simp: buffer_pop_string_def bind_eq_Some_conv Let_def split: if_splits dest!: buffer_pop_shorter)
  ultimately show ?case using Suc.prems
    by (auto simp: buffer_pop_userdata_def bind_eq_Some_conv split: if_splits option.splits dest!: buffer_pop_shorter)
qed simp

lemma lunpack_one_advances: "advances (lunpack_one (lunpack_value numkey f))"
  using lunpack_value_shorter by (fastforce simp: advances_def lunpack_one_def less_Suc_eq_le split: list.splits)

lemma lunpack_value_bound: "length b < f \<Longrightarrow> length b < f' \<Longrightarrow> lunpack_value numkey f ty b = lunpack_value numkey f' ty b"
proof (induction f arbitrary: ty b f')
  case (Suc f)
  then obtain g where f': "f' = Suc g" by (cases f') auto
  let ?one = "lunpack_one (lunpack_value numkey f)" and ?one' = "lunpack_one (lunpack_value numkey g)"
  have ag: "agrees n ?one ?one'" if "n < f" "n < g" for n
    using Suc.IH that by (auto simp: agrees_def lunpack_one_def split: list.splits)
  have "buffer_pop_table numkey ?one b = buffer_pop_table numkey ?one' b"
  proof (cases "buffer_pop 8 b")
    case None
    then show ?thesis by (simp add: buffer_pop_table_def)
  next
    case (Some p)
    obtain h b1 where p: "p = (h, b1)" by fastforce
    with Some have "length b1 + 8 = length b" by (auto simp: buffer_pop_def split: if_splits)
    then have n: "length b1 < f" "length b1 < g" using Suc.prems f' by simp_all
    let ?m = "nat (sint (ucast (le_word h) :: u32))"
    note arr = pop_array_agrees [OF lunpack_one_advances ag [OF n], of b1 1 ?m "[]", simplified]
    show ?thesis
    proof (cases "pop_array ?one 1 ?m [] b1")
      case None
      then show ?thesis using arr Some p by (simp add: buffer_pop_table_def Let_def)
    next
      case (Some q)
      obtain t b2 where q: "q = (t, b2)" by fastforce
      have "length b2 \<le> length b1" using arr Some q by simp
      then have "pop_pairs numkey ?one (length b2 + 1) t b2 = pop_pairs numkey ?one' (length b2 + 1) t b2"
        using pop_pairs_agrees [OF lunpack_one_advances ag [OF n], of b2 "length b2 + 1" "length b2 + 1" numkey t] by simp
      then show ?thesis using arr Some q \<open>buffer_pop 8 b = Some p\<close> p
        by (simp add: buffer_pop_table_def Let_def del: pop_pairs.simps)
    qed
  qed
  then show ?case using f' by simp
qed simp

lemma lunpack_loop_bound: "length b < n \<Longrightarrow> length b < n' \<Longrightarrow> lunpack_loop numkey n b = lunpack_loop numkey n' b"
proof (induction n arbitrary: b n')
  case (Suc n)
  then obtain m where n': "n' = Suc m" by (cases n') auto
  show ?case
  proof (cases b)
    case (Cons ty b1)
    have "lunpack_loop numkey n b2 = lunpack_loop numkey m b2" if "lunpack_value numkey (length b1 + 1) ty b1 = Some (v, b2)" for v b2
      using lunpack_value_shorter [OF that] Suc.prems n' Cons by (intro Suc.IH) auto
    then show ?thesis using n' Cons by (cases "lunpack_value numkey (length b1 + 1) ty b1") (auto simp del: lunpack_value.simps)
  qed (simp add: n')
qed simp


section \<open>Properties\<close>

lemma val_ok_packable: "val_ok numkey rawlen k v \<Longrightarrow> packable rawlen k v"
proof (induction k arbitrary: v)
  case (Suc k)
  then show ?case by (cases v) (auto simp: parts_all_def list_all_iff)
qed simp

lemma lpack_lunpack_values:
  assumes "list_all (val_ok numkey rawlen (MAX_DEPTH + 1)) vs"
  shows "\<exists>bs. lpack rawlen vs = Some (Inr bs) \<and> lunpack numkey bs = Some (map (val_norm rawlen (MAX_DEPTH + 1)) vs)"
proof -
  let ?bs = "concat (map (val_bytes rawlen (MAX_DEPTH + 1)) vs)"
  have ok: "list_all (\<lambda>v. packable rawlen (MAX_DEPTH + 1) v \<and> val_ok numkey rawlen (MAX_DEPTH + 1) v) vs"
    using assms val_ok_packable by (auto simp: list_all_iff simp del: val_ok.simps packable.simps)
  then have ne: "val_bytes rawlen (MAX_DEPTH + 1) v \<noteq> []" if "v \<in> set vs" for v
    using val_bytes_ne that by (auto simp: list_all_iff simp del: packable.simps val_bytes.simps)
  have "lpack rawlen vs = Some (Inr ?bs)" using lpack_bytes [of rawlen vs] ok
    by (auto simp: list_all_iff simp del: val_ok.simps packable.simps val_bytes.simps)
  moreover have "lunpack_loop numkey (length ?bs + 1) ?bs = Some (map (val_norm rawlen (MAX_DEPTH + 1)) vs)"
    using count_le_concat [of vs "val_bytes rawlen (MAX_DEPTH + 1)"] ne
    by (intro lunpack_loop_values [OF ok]) (simp del: val_bytes.simps)
  moreover have "?bs = [] \<Longrightarrow> vs = []" using ne by (cases vs) auto
  ultimately show ?thesis by (auto simp: lunpack_def)
qed

text \<open>
  C12: What a service packs for another one is what the other unpacks. For every list of values (nil,
  booleans, integers, floats, strings, pointers, tables nested up to the limit and tables with a
  \<open>__pairs\<close> metamethod) \<open>pack\<close> succeeds, and \<open>unpack\<close> of its bytes gives the values back in order, each table as a
  plain table.
\<close>

theorem serial_roundtrip:
  assumes "list_all (val_ok numkey rawlen (MAX_DEPTH + 1)) vs"
  shows "\<exists>bs. lpack rawlen vs = Some (Inr bs) \<and> lunpack numkey bs = Some (map (val_norm rawlen (MAX_DEPTH + 1)) vs)"
  using assms by (rule lpack_lunpack_values)

theorem serial_roundtrip_witness:
  "\<exists>bs. lpack (\<lambda>t. 1) [VBool True, VTab [(VStr [97], VInt 5), (VInt 1, VStr [])] None] = Some (Inr bs) \<and>
    lunpack (\<lambda>x. Some (VNum x)) bs = Some [VBool True, VTab [(VInt 1, VStr []), (VStr [97], VInt 5)] None]"
proof -
  let ?vs = "[VBool True, VTab [(VStr [97], VInt 5), (VInt 1, VStr [])] None]"
  have "list_all (val_ok (\<lambda>x. Some (VNum x)) (\<lambda>t. 1) (MAX_DEPTH + 1)) ?vs" by code_simp
  moreover have "map (val_norm (\<lambda>t. 1) (MAX_DEPTH + 1)) ?vs = [VBool True, VTab [(VInt 1, VStr []), (VStr [97], VInt 5)] None]" by code_simp
  ultimately show ?thesis using serial_roundtrip [of "\<lambda>x. Some (VNum x)" "\<lambda>t. 1" ?vs] by simp
qed

text \<open>
  The table that arrives has the entries of the table that was sent: whatever border \<open>lua_rawlen\<close> chose, under
  every key that is not a table itself it has the value the original has there, nil where that has none.
\<close>

theorem serial_same_entries:
  assumes "val_ok numkey rawlen (MAX_DEPTH + 1) (VTab t None)" "distinct (scalar_keys t)" "\<not> is_tab q"
  shows "\<exists>bs t'. lpack rawlen [VTab t None] = Some (Inr bs) \<and> lunpack numkey bs = Some [VTab t' None] \<and>
    (if is_tab (rawget t q) then is_tab (rawget t' q) else rawget t' q = rawget t q)"
proof -
  from norm_lookup [OF assms(2) _ assms(3), of rawlen MAX_DEPTH] assms(1)
  obtain t' where t': "val_norm rawlen (MAX_DEPTH + 1) (VTab t None) = VTab t' None"
      "rawget t' q = val_norm rawlen MAX_DEPTH (rawget t q)"
    by (auto simp: table_parts_def array_part_def simp del: val_norm.simps upt_Suc)
  have "val_norm rawlen k v = v \<or> is_tab v \<and> is_tab (val_norm rawlen k v)" for k v
    by (cases k; cases v) (simp_all add: split_beta)
  then have q: "if is_tab (rawget t q) then is_tab (rawget t' q) else rawget t' q = rawget t q" using t'(2) by metis
  have "list_all (val_ok numkey rawlen (MAX_DEPTH + 1)) [VTab t None]" using assms(1) by (simp only: list.pred_inject conj_absorb simp_thms)
  from lpack_lunpack_values [OF this] obtain bs where "lpack rawlen [VTab t None] = Some (Inr bs)" "lunpack numkey bs = Some [VTab t' None]"
    by (auto simp only: list.map t'(1))
  with q show ?thesis by blast
qed

theorem serial_same_entries_witness:
  "\<exists>bs t'. lpack (\<lambda>t. 1) [VTab [(VStr [97], VInt 5), (VInt 1, VStr [7])] None] = Some (Inr bs) \<and>
    lunpack (\<lambda>x. Some (VNum x)) bs = Some [VTab t' None] \<and> rawget t' (VInt 1) = VStr [7]"
proof -
  have "val_ok (\<lambda>x. Some (VNum x)) (\<lambda>t. 1) (MAX_DEPTH + 1) (VTab [(VStr [97], VInt 5), (VInt 1, VStr [7])] None)" by code_simp
  from serial_same_entries [OF this, of "VInt 1"] show ?thesis by (simp add: scalar_keys_def rawget_def)
qed

text \<open>
  C30: The chain of nodes holds exactly the bytes of the format, across every boundary between nodes, and
  \<open>pack\<close> fails with an error in exactly the cases of a table nested deeper than the limit or a value that
  cannot be sent.
\<close>

theorem lpack_format:
  "if list_all (packable rawlen (MAX_DEPTH + 1)) vs
   then lpack rawlen vs = Some (Inr (concat (map (val_bytes rawlen (MAX_DEPTH + 1)) vs)))
   else \<exists>e. lpack rawlen vs = Some (Inl e)"
  by (rule lpack_bytes)

text \<open>
  The fuel of the reader is enough: the number of bytes bounds the values, and within a value the nesting
  and the pairs of a table, so larger bounds never change the result.
\<close>

theorem lunpack_bounded:
  assumes "length b < n" "length b < f"
  shows "lunpack_loop numkey n b = lunpack_loop numkey (length b + 1) b \<and>
    lunpack_value numkey f ty b = lunpack_value numkey (length b + 1) ty b \<and>
    pop_pairs numkey (lunpack_one (lunpack_value numkey f)) n t b =
      pop_pairs numkey (lunpack_one (lunpack_value numkey f)) (length b + 1) t b"
proof (intro conjI)
  show "lunpack_loop numkey n b = lunpack_loop numkey (length b + 1) b" using assms(1) by (intro lunpack_loop_bound) simp_all
  show "lunpack_value numkey f ty b = lunpack_value numkey (length b + 1) ty b" using assms(2) by (intro lunpack_value_bound) simp_all
  have "agrees (length b) (lunpack_one (lunpack_value numkey f)) (lunpack_one (lunpack_value numkey f))" by (simp add: agrees_def)
  from pop_pairs_agrees [OF lunpack_one_advances this le_refl assms(1), of "length b + 1" numkey t]
  show "pop_pairs numkey (lunpack_one (lunpack_value numkey f)) n t b =
      pop_pairs numkey (lunpack_one (lunpack_value numkey f)) (length b + 1) t b" by (simp del: pop_pairs.simps)
qed

theorem lunpack_bounded_witness:
  "lunpack_loop (\<lambda>x. Some (VNum x)) 9 [0, 1, 1] = lunpack_loop (\<lambda>x. Some (VNum x)) 4 [0, 1, 1]"
  using lunpack_bounded [of "[0, 1, 1]" 9 9 "\<lambda>x. Some (VNum x)" 0 "[]"] by (simp add: numeral_eq_Suc del: lunpack_loop.simps lunpack_value.simps pop_pairs.simps)

end
