(* ===== verification/Modules.thy ===== *)
theory Modules
  imports Prelude
begin

text \<open>
  The table of loaded service modules, \<open>src/src/module.c\<close>: the search along the module path and the
  cache of at most 64 modules. The dynamic linker is a parameter: \<open>dlopen\<close> maps a file name to a
  library, \<open>dlsym\<close> a library and a symbol to an address, both \<open>0\<close> when there is none. The 256-byte buffer in which
  a file name is put together is the array of its characters, so what is left in it from
  one entry of the path to the next is what the C string functions leave there. \<open>None\<close> is a process that does not go on: it
  writes behind the buffer, or it calls \<open>exit\<close>.
\<close>

section \<open>C strings in a buffer\<close>

abbreviation NUL :: char where "NUL \<equiv> CHR 0x00"

definition cstr :: "string \<Rightarrow> string" where
  "cstr buf = takeWhile (\<lambda>c. c \<noteq> NUL) buf"

definition strncpy :: "string \<Rightarrow> string \<Rightarrow> nat \<Rightarrow> string option" where
  "strncpy buf src n = (if n > length buf then None else Some (take n (src @ replicate n NUL) @ drop n buf))"

definition strcat :: "string \<Rightarrow> string \<Rightarrow> string option" where
  "strcat buf src =
     (let k = length (cstr buf); e = k + length src + 1 in
      if e > length buf then None else Some (take k buf @ src @ [NUL] @ drop e buf))"

text \<open>The count is a \<open>size_t\<close>: a negative one is larger than every string.\<close>

definition strncat :: "string \<Rightarrow> string \<Rightarrow> int \<Rightarrow> string option" where
  "strncat buf src n = strcat buf (if n < 0 then src else take (nat n) src)"

fun strchr :: "string \<Rightarrow> char \<Rightarrow> nat option" where
  "strchr [] c = None"
| "strchr (x # xs) c = (if x = c then Some 0 else map_option Suc (strchr xs c))"

lemma strchr_less: "strchr p c = Some s \<Longrightarrow> s < length p \<and> p ! s = c \<and> (\<forall>i < s. p ! i \<noteq> c)"
proof (induction p arbitrary: s)
  case (Cons x xs)
  then show ?case by (auto split: if_splits simp: nth_Cons split: nat.splits)
qed simp

section \<open>Data\<close>

record module =
  m_name :: string
  m_dl :: addr
  dl_new :: addr
  dl_init :: addr
  dl_free :: addr
  dl_signal :: addr

definition MODULE_SIZE :: nat where "MODULE_SIZE = 64"

definition zero_module :: module where
  "zero_module = \<lparr>m_name = [], m_dl = 0, dl_new = 0, dl_init = 0, dl_free = 0, dl_signal = 0\<rparr>"

record module_global =
  m_path :: string
  modules :: "module list"
  m_count :: nat

definition module_init :: "string \<Rightarrow> module_global" where
  "module_init path = \<lparr>m_path = path, modules = replicate MODULE_SIZE zero_module, m_count = 0\<rparr>"

section \<open>Loading\<close>

text \<open>One entry of the path, which starts at \<open>p\<close>: the name that is tried and what is left of the buffer.\<close>

definition entry_file :: "string \<Rightarrow> string \<Rightarrow> string \<Rightarrow> string option" where
  "entry_file nm p tmp = do {
     let siz = (case strchr p (CHR '';'') of None \<Rightarrow> length p | Some s \<Rightarrow> s);
     l \<leftarrow> strchr p (CHR ''?'');
     tmp \<leftarrow> strncpy tmp p l;
     tmp \<leftarrow> strcat tmp nm;
     strncat tmp (drop (l + 1) p) (int siz - int l - 1) }"

function module_open_loop :: "(string \<Rightarrow> addr) \<Rightarrow> string \<Rightarrow> string \<Rightarrow> string \<Rightarrow> addr option" where
  "module_open_loop dlopen nm p tmp =
     (let p = dropWhile (\<lambda>c. c = CHR '';'') p in
      if p = [] then Some 0
      else do {
        tmp \<leftarrow> entry_file nm p tmp;
        let dl = dlopen (cstr tmp);
        case strchr p (CHR '';'') of
          None \<Rightarrow> Some dl
        | Some s \<Rightarrow> if dl = 0 then module_open_loop dlopen nm (drop s p) tmp else Some dl })"
  by pat_completeness auto

termination
proof (relation "measure (\<lambda>(dlopen, nm, p, tmp). length p)")
  fix dlopen :: "string \<Rightarrow> addr" and nm p tmp q tmp' dl s
  assume q: "q = dropWhile (\<lambda>c. c = CHR '';'') p" "q \<noteq> []" "strchr q (CHR '';'') = Some s"
  have "q ! 0 \<noteq> CHR '';''" using hd_dropWhile [of "\<lambda>c. c = CHR '';''" p] q(1,2) by (metis hd_conv_nth)
  then have "s \<noteq> 0" using strchr_less [OF q(3)] by metis
  moreover have "length q \<le> length p" using q(1) by (simp add: length_dropWhile_le)
  ultimately have "length (drop s q) < length p" using q(2) by (cases q) auto
  then show "((dlopen, nm, drop s q, tmp'), dlopen, nm, p, tmp) \<in> measure (\<lambda>(dlopen, nm, p, tmp). length p)" by simp
qed simp

declare module_open_loop.simps [simp del]

definition module_open :: "(string \<Rightarrow> addr) \<Rightarrow> string \<Rightarrow> module_global \<Rightarrow> addr option" where
  "module_open dlopen nm M = module_open_loop dlopen nm (m_path M) (replicate 256 NUL)"

text \<open>The symbols of a module; false when it has no \<open>_init\<close>.\<close>

definition module_sym :: "(addr \<Rightarrow> string \<Rightarrow> addr) \<Rightarrow> module \<Rightarrow> bool \<times> module" where
  "module_sym dlsym m =
     (let m = m\<lparr>dl_new := dlsym (m_dl m) (m_name m @ ''_new''),
                dl_init := dlsym (m_dl m) (m_name m @ ''_init''),
                dl_free := dlsym (m_dl m) (m_name m @ ''_free''),
                dl_signal := dlsym (m_dl m) (m_name m @ ''_signal'')\<rparr>
      in (dl_init m \<noteq> 0, m))"

section \<open>Queries\<close>

text \<open>A pointer to a module is its index in the table.\<close>

definition query :: "string \<Rightarrow> module_global \<Rightarrow> nat option" where
  "query nm M = List.find (\<lambda>i. m_name (modules M ! i) = nm) [0..<m_count M]"

definition module_query ::
  "(string \<Rightarrow> addr) \<Rightarrow> (addr \<Rightarrow> string \<Rightarrow> addr) \<Rightarrow> string \<Rightarrow> module_global \<Rightarrow> (nat option \<times> module_global) option" where
  "module_query dlopen dlsym nm M =
     (case query nm M of
        Some i \<Rightarrow> Some (Some i, M)
      | None \<Rightarrow>
          if m_count M < MODULE_SIZE then do {
            dl \<leftarrow> module_open dlopen nm M;
            if dl = 0 then Some (None, M)
            else
              (let (ok, m) = module_sym dlsym ((modules M ! m_count M)\<lparr>m_name := nm, m_dl := dl\<rparr>);
                   M1 = M\<lparr>modules := (modules M)[m_count M := m]\<rparr>
               in Some (if ok then (Some (m_count M), M1\<lparr>m_count := m_count M + 1\<rparr>) else (None, M1))) }
          else Some (None, M))"

text \<open>\<open>module_unit\<close>: the libraries it closes, in order.\<close>

definition module_unit :: "module_global \<Rightarrow> addr list" where
  "module_unit M = map (\<lambda>i. m_dl (modules M ! i)) [0..<m_count M]"

section \<open>The cache\<close>

definition modules_inv :: "module_global \<Rightarrow> bool" where
  "modules_inv M \<longleftrightarrow> length (modules M) = MODULE_SIZE \<and> m_count M \<le> MODULE_SIZE \<and>
     distinct (map m_name (take (m_count M) (modules M))) \<and>
     list_all (\<lambda>m. m_dl m \<noteq> 0 \<and> dl_init m \<noteq> 0) (take (m_count M) (modules M))"

lemma module_init_inv: "modules_inv (module_init path)"
  by (simp add: modules_inv_def module_init_def)

lemma query_cases:
  assumes "modules_inv M"
  shows "case query nm M of
      Some i \<Rightarrow> i < m_count M \<and> m_name (modules M ! i) = nm
    | None \<Rightarrow> nm \<notin> m_name ` set (take (m_count M) (modules M))"
proof (cases "query nm M")
  case None
  then have "\<forall>i < m_count M. m_name (modules M ! i) \<noteq> nm" by (auto simp: query_def find_None_iff)
  then show ?thesis using None assms by (fastforce simp: modules_inv_def in_set_conv_nth)
next
  case (Some i)
  then have "i < m_count M \<and> m_name (modules M ! i) = nm" unfolding query_def by (auto simp: find_Some_iff)
  with Some show ?thesis by simp
qed

lemma modules_inv_nth: "modules_inv M \<Longrightarrow> i < m_count M \<Longrightarrow> m_dl (modules M ! i) \<noteq> 0 \<and> dl_init (modules M ! i) \<noteq> 0"
  by (auto simp: modules_inv_def list_all_length)

lemma query_unique:
  assumes "modules_inv M" "i < m_count M" "m_name (modules M ! i) = nm"
  shows "query nm M = Some i"
proof -
  let ?ns = "map m_name (take (m_count M) (modules M))"
  have len: "length ?ns = m_count M" using assms(1) by (simp add: modules_inv_def)
  from assms(2,3) have "nm \<in> m_name ` set (take (m_count M) (modules M))"
    using len by (metis (no_types, lifting) image_eqI in_set_conv_nth length_map nth_take)
  then obtain j where j: "query nm M = Some j" using query_cases [OF assms(1), of nm] by (cases "query nm M") auto
  then have "j < m_count M" "m_name (modules M ! j) = nm" using query_cases [OF assms(1), of nm] by simp_all
  then have "?ns ! i = ?ns ! j" using assms(2,3) len by simp
  then have "i = j"
    using assms(1,2) \<open>j < m_count M\<close> len by (subst (asm) nth_eq_iff_index_eq) (simp_all add: modules_inv_def)
  with j show ?thesis by simp
qed

lemma modules_inv_add:
  assumes "modules_inv M" "m_count M < MODULE_SIZE" "m_name m \<notin> m_name ` set (take (m_count M) (modules M))"
    "m_dl m \<noteq> 0" "dl_init m \<noteq> 0"
  shows "modules_inv (M\<lparr>modules := (modules M)[m_count M := m], m_count := m_count M + 1\<rparr>)"
  using assms by (simp add: modules_inv_def take_Suc_conv_app_nth)

text \<open>
  A module is loaded once. Whatever the linker answers, a query keeps the table well-formed (at most 64
  modules, distinct names, every one with its \<open>_init\<close>) and the modules it holds; a module it returns has
  the name asked for, and every later query for that name returns the same one without the linker.
\<close>

theorem module_query_caches:
  assumes "modules_inv M" "module_query dlopen dlsym nm M = Some (r, M')"
  shows "modules_inv M' \<and> (\<forall>i < m_count M. modules M' ! i = modules M ! i) \<and>
    (case r of None \<Rightarrow> m_count M' = m_count M
     | Some i \<Rightarrow> i < m_count M' \<and> m_name (modules M' ! i) = nm \<and> m_dl (modules M' ! i) \<noteq> 0 \<and>
         (\<forall>open' sym'. module_query open' sym' nm M' = Some (Some i, M')))"
proof (cases "query nm M")
  case (Some i)
  then have "i < m_count M" "m_name (modules M ! i) = nm" using query_cases [OF assms(1), of nm] by simp_all
  moreover have "r = Some i" "M' = M" using Some assms(2) by (simp_all add: module_query_def)
  moreover have "module_query open' sym' nm M = Some (Some i, M)" for open' sym' using Some by (simp add: module_query_def)
  ultimately show ?thesis using assms(1) modules_inv_nth [OF assms(1), of i] by simp
next
  case None
  note new = query_cases [OF assms(1), of nm, unfolded None, simplified]
  show ?thesis
  proof (cases "m_count M < MODULE_SIZE \<and> module_open dlopen nm M \<noteq> Some 0")
    case False
    with None assms have "r = None \<and> M' = M" by (cases "m_count M < MODULE_SIZE") (simp_all add: module_query_def)
    with assms(1) show ?thesis by simp
  next
    case True
    then obtain dl where dl: "module_open dlopen nm M = Some dl" "dl \<noteq> 0"
      using None assms(2) by (cases "module_open dlopen nm M") (auto simp: module_query_def)
    obtain ok m where m: "module_sym dlsym ((modules M ! m_count M)\<lparr>m_name := nm, m_dl := dl\<rparr>) = (ok, m)" by fastforce
    then have f: "m_name m = nm" "m_dl m = dl" "ok = (dl_init m \<noteq> 0)" by (auto simp: module_sym_def Let_def)
    let ?M = "M\<lparr>modules := (modules M)[m_count M := m]\<rparr>"
    have r: "(r, M') = (if ok then (Some (m_count M), ?M\<lparr>m_count := m_count M + 1\<rparr>) else (None, ?M))"
      using None assms(2) dl m True by (auto simp: module_query_def Let_def)
    show ?thesis
    proof (cases ok)
      case False
      with r assms(1) show ?thesis by (simp add: modules_inv_def)
    next
      case ok: True
      let ?M' = "M\<lparr>modules := (modules M)[m_count M := m], m_count := m_count M + 1\<rparr>"
      have i: "modules_inv ?M'" using modules_inv_add [OF assms(1), of m] True new f dl(2) ok by simp
      moreover have "m_count M < length (modules M)" using True assms(1) by (simp add: modules_inv_def)
      ultimately have "query nm ?M' = Some (m_count M)" using query_unique [OF i, of "m_count M" nm] f by simp
      with i r ok f dl(2) \<open>m_count M < length (modules M)\<close> show ?thesis by (simp add: module_query_def)
    qed
  qed
qed

text \<open>A module path with one entry, a library with everything a module needs, and the query that loads it.\<close>

theorem module_query_caches_witness:
  "\<exists>M'. module_query (\<lambda>f. if f = ''./log.so'' then 7 else 0) (\<lambda>dl s. 9) ''log'' (module_init ''./?.so'') = Some (Some 0, M') \<and>
     module_query (\<lambda>f. 0) (\<lambda>dl s. 0) ''log'' M' = Some (Some 0, M')"
proof -
  let ?q = "module_query (\<lambda>f. if f = ''./log.so'' then 7 else 0) (\<lambda>dl s. 9) ''log'' (module_init ''./?.so'')"
  have "map_option fst ?q = Some (Some 0)" by code_simp
  then obtain M' where M': "?q = Some (Some 0, M')" by (cases ?q) auto
  from module_query_caches [OF module_init_inv M'] M' show ?thesis by auto
qed

section \<open>The search path\<close>

lemma strchr_append: "c \<notin> set a \<Longrightarrow> strchr (a @ c # b) c = Some (length a)"
  by (induction a) auto

lemma strchr_none: "c \<notin> set a \<Longrightarrow> strchr a c = None"
  by (induction a) auto

lemma cstr_append: "NUL \<notin> set a \<Longrightarrow> cstr (a @ b) = a @ cstr b"
  by (simp add: cstr_def takeWhile_append)

lemma cstr_simps [simp]: "cstr [] = []" "cstr (NUL # b) = []" "cstr (replicate n NUL) = []"
  by (simp_all add: cstr_def takeWhile_replicate)

text \<open>The buffer when it holds the string \<open>s\<close>, and nothing but zeros behind it.\<close>

definition holds :: "string \<Rightarrow> string" where
  "holds s = s @ replicate (256 - length s) NUL"

lemma strcat_holds:
  "NUL \<notin> set s \<Longrightarrow> length s + length x < 256 \<Longrightarrow> strcat (holds s) x = Some (holds (s @ x))"
  by (auto simp: strcat_def holds_def cstr_append Let_def simp flip: replicate_Suc Suc_diff_le)

lemma strncpy_holds:
  assumes "length c \<le> length p" "take (length c) p = c" "length c + length s < 256"
  shows "strncpy (holds s) p (length c) = Some (holds (c @ drop (length c) s))"
  using assms by (auto simp: strncpy_def holds_def)

text \<open>
  An entry \<open>c?d\<close> of the path when the buffer holds the name \<open>s\<close> tried before it: the name that is tried starts with
  \<open>c\<close>, but what is left of \<open>s\<close> behind it stays there.
\<close>

lemma entry_file_holds:
  assumes "CHR '';'' \<notin> set (c @ d)" "CHR ''?'' \<notin> set c" "NUL \<notin> set (c @ s @ nm)" "rest = [] \<or> hd rest = CHR '';''"
    "length c + length s + length nm + length d < 256"
  shows "entry_file nm (c @ CHR ''?'' # d @ rest) (holds s) = Some (holds (c @ drop (length c) s @ nm @ d))"
proof -
  let ?p = "c @ CHR ''?'' # d @ rest"
  have siz: "(case strchr ?p (CHR '';'') of None \<Rightarrow> length ?p | Some s \<Rightarrow> s) = length c + 1 + length d"
  proof (cases rest)
    case Nil
    then show ?thesis using assms(1) by (simp add: strchr_none)
  next
    case (Cons x xs)
    then show ?thesis using assms(1,4) strchr_append [of "CHR '';''" "c @ CHR ''?'' # d" xs] by simp
  qed
  have l: "strchr ?p (CHR ''?'') = Some (length c)" using assms(2) by (rule strchr_append)
  have "strncpy (holds s) ?p (length c) = Some (holds (c @ drop (length c) s))"
    using assms(5) by (intro strncpy_holds) simp_all
  moreover have "NUL \<notin> set (c @ drop (length c) s)" using assms(3) by (auto dest: in_set_dropD)
  moreover have "NUL \<notin> set (c @ drop (length c) s @ nm)" using assms(3) by (auto dest: in_set_dropD)
  ultimately show ?thesis
    using assms(5) strcat_holds [of "c @ drop (length c) s" nm] strcat_holds [of "c @ drop (length c) s @ nm" d]
    by (simp add: entry_file_def siz l strncat_def del: strchr.simps)
qed

lemma holds_empty: "replicate 256 NUL = holds []"
  by (simp add: holds_def)

lemma cstr_holds: "NUL \<notin> set s \<Longrightarrow> cstr (holds s) = s"
  by (simp add: holds_def cstr_append)

lemma first_no_semicolon: "CHR '';'' \<notin> set (c @ d) \<Longrightarrow> dropWhile (\<lambda>c. c = CHR '';'') (c @ CHR ''?'' # d @ rest) = c @ CHR ''?'' # d @ rest"
  by (cases c) auto

lemma module_open_step:
  assumes "CHR '';'' \<notin> set (c @ d)" "CHR ''?'' \<notin> set c" "NUL \<notin> set (c @ s @ nm @ d)"
    "length c + length s + length nm + length d < 256"
  shows "module_open_loop dlopen nm (c @ CHR ''?'' # d) (holds s) = Some (dlopen (c @ drop (length c) s @ nm @ d))"
    and "module_open_loop dlopen nm (c @ CHR ''?'' # d @ CHR '';'' # rest) (holds s) =
      (let f = c @ drop (length c) s @ nm @ d in
       if dlopen f = 0 then module_open_loop dlopen nm (CHR '';'' # rest) (holds f) else Some (dlopen f))"
proof -
  let ?f = "c @ drop (length c) s @ nm @ d"
  have f: "NUL \<notin> set ?f" using assms(3) by (auto dest: in_set_dropD)
  have e: "entry_file nm (c @ CHR ''?'' # d @ rest) (holds s) = Some (holds ?f)"
    if "rest = [] \<or> hd rest = CHR '';''" for rest
    using assms that by (intro entry_file_holds) simp_all
  have "strchr (c @ CHR ''?'' # d) (CHR '';'') = None" using assms(1) by (intro strchr_none) simp
  then show "module_open_loop dlopen nm (c @ CHR ''?'' # d) (holds s) = Some (dlopen ?f)"
    using e [of "[]"] first_no_semicolon [OF assms(1), of "[]"] cstr_holds [OF f] by (subst module_open_loop.simps) simp
  have "strchr (c @ CHR ''?'' # d @ CHR '';'' # rest) (CHR '';'') = Some (length c + 1 + length d)"
    using strchr_append [of "CHR '';''" "c @ CHR ''?'' # d" rest] assms(1) by simp
  then show "module_open_loop dlopen nm (c @ CHR ''?'' # d @ CHR '';'' # rest) (holds s) =
      (let f = ?f in if dlopen f = 0 then module_open_loop dlopen nm (CHR '';'' # rest) (holds f) else Some (dlopen f))"
    using e [of "CHR '';'' # rest"] first_no_semicolon [OF assms(1)] cstr_holds [OF f]
    by (subst module_open_loop.simps) (simp add: Let_def)
qed

lemma module_open_skip: "module_open_loop dlopen nm (CHR '';'' # p) tmp = module_open_loop dlopen nm p tmp"
  by (subst (1 2) module_open_loop.simps) simp

text \<open>
  The files \<open>_module_open\<close> tries. For the first entry \<open>a?b\<close> of the path it is the entry with the module's name for the
  question mark. When that cannot be opened, a second entry \<open>c?d\<close> does not give \<open>c\<close>, name, \<open>d\<close>: the buffer is not
  cleared and \<open>strncpy\<close> writes no terminator, so what the first name has behind the length of \<open>c\<close> is kept.
\<close>

theorem module_open_entries:
  assumes "CHR '';'' \<notin> set (a @ b @ c @ d)" "CHR ''?'' \<notin> set (a @ c)" "NUL \<notin> set (a @ b @ c @ d @ nm)"
    "length (a @ b @ c @ d @ nm @ nm) < 256" "m_path M = a @ CHR ''?'' # b @ CHR '';'' # c @ CHR ''?'' # d"
  shows "module_open dlopen nm M =
    Some (let f = a @ nm @ b in if dlopen f \<noteq> 0 then dlopen f else dlopen (c @ drop (length c) f @ nm @ d))"
proof -
  have "module_open_loop dlopen nm (c @ CHR ''?'' # d) (holds (a @ nm @ b)) =
      Some (dlopen (c @ drop (length c) (a @ nm @ b) @ nm @ d))"
    using assms(1-4) by (intro module_open_step(1)) simp_all
  moreover have "module_open dlopen nm M = (let f = a @ nm @ b in
      if dlopen f = 0 then module_open_loop dlopen nm (CHR '';'' # c @ CHR ''?'' # d) (holds f) else Some (dlopen f))"
    using module_open_step(2) [of a b "[]" nm dlopen "c @ CHR ''?'' # d"] assms by (simp add: module_open_def holds_empty)
  ultimately show ?thesis by (simp add: module_open_skip Let_def)
qed

theorem module_open_entries_witness:
  "module_open (\<lambda>f. if f = ''./b/log.so'' then 7 else if f = ''./b/log.solog.so'' then 8 else 0) ''log''
     (module_init ''./a/?.so;./b/?.so'') = Some 8"
  using module_open_entries [of "''./a/''" "''.so''" "''./b/''" "''.so''" "''log''" "module_init ''./a/?.so;./b/?.so''"
      "\<lambda>f. if f = ''./b/log.so'' then 7 else if f = ''./b/log.solog.so'' then 8 else 0"]
  by (simp add: module_init_def)

end
