(* ===== verification/Cnum.thy ===== *)
theory Cnum
  imports Prelude
begin

text \<open>
  Numbers and strings the way the C library converts them: \<open>strtoul\<close>, \<open>strtol\<close>, \<open>atoi\<close> and the directives \<open>%u\<close> and
  \<open>%d\<close> of \<open>sprintf\<close>, as the service commands of \<open>src/src/pixel.c\<close> use them. \<open>unsigned long\<close> and \<open>long\<close> have 64 bits.
\<close>

section \<open>Printing\<close>

definition digit :: "int \<Rightarrow> char" where
  "digit d = ''0123456789'' ! nat d"

function udec :: "int \<Rightarrow> string" where
  "udec n = (if n < 10 then [digit n] else udec (n div 10) @ [digit (n mod 10)])"
  by pat_completeness auto
termination
  by (relation "measure nat") auto

declare udec.simps [simp del]

definition sdec :: "int \<Rightarrow> string" where
  "sdec n = (if n < 0 then CHR ''-'' # udec (- n) else udec n)"

section \<open>Reading\<close>

definition isspace :: "char \<Rightarrow> bool" where
  "isspace c \<longleftrightarrow> c \<in> {CHR '' '', CHR 0x09, CHR 0x0A, CHR 0x0B, CHR 0x0C, CHR 0x0D}"

definition digit_val :: "char \<Rightarrow> int" where
  "digit_val c =
     (let n = of_char c in
      if 48 \<le> n \<and> n \<le> 57 then n - 48
      else if 97 \<le> n \<and> n \<le> 122 then n - 87
      else if 65 \<le> n \<and> n \<le> 90 then n - 55
      else 99)"

fun digits :: "int \<Rightarrow> int \<Rightarrow> string \<Rightarrow> int" where
  "digits b acc [] = acc"
| "digits b acc (c # cs) = (if digit_val c < b then digits b (acc * b + digit_val c) cs else acc)"

text \<open>Base \<open>0\<close> reads the base from the prefix.\<close>

definition magnitude :: "int \<Rightarrow> string \<Rightarrow> int" where
  "magnitude b s =
     (if b = 0 then
        (case s of
           c # x # r \<Rightarrow> if c = CHR ''0'' then if x \<in> {CHR ''x'', CHR ''X''} then digits 16 0 r else digits 8 0 (x # r)
             else digits 10 0 s
         | _ \<Rightarrow> digits 10 0 s)
      else digits b 0 s)"

text \<open>The sign, and the value behind it.\<close>

definition signed_part :: "int \<Rightarrow> string \<Rightarrow> bool \<times> int" where
  "signed_part b s =
     (case dropWhile isspace s of
        [] \<Rightarrow> (False, 0)
      | c # r \<Rightarrow> if c = CHR ''-'' then (True, magnitude b r) else if c = CHR ''+'' then (False, magnitude b r)
          else (False, magnitude b (c # r)))"

definition strtoul :: "int \<Rightarrow> string \<Rightarrow> u64" where
  "strtoul b s =
     (let (neg, n) = signed_part b s in
      if n \<ge> 2 ^ 64 then - 1 else word_of_int (if neg then - n else n))"

definition strtol :: "int \<Rightarrow> string \<Rightarrow> int" where
  "strtol b s =
     (let (neg, n) = signed_part b s; v = (if neg then - n else n) in max (- (2 ^ 63)) (min (2 ^ 63 - 1) v))"

definition atoi :: "string \<Rightarrow> int" where
  "atoi s = sint (word_of_int (strtol 10 s) :: u32)"

section \<open>What is printed is read back\<close>

lemma digit_digit_val: "0 \<le> d \<Longrightarrow> d < 10 \<Longrightarrow> digit_val (digit d) = d \<and> \<not> isspace (digit d) \<and> digit d \<noteq> CHR ''-'' \<and> digit d \<noteq> CHR ''+'' \<and> (digit d = CHR ''0'' \<longleftrightarrow> d = 0)"
proof -
  assume "0 \<le> d" "d < 10"
  then have "d \<in> {0, 1, 2, 3, 4, 5, 6, 7, 8, 9}" by (simp, presburger)
  then show ?thesis by (auto simp: digit_def digit_val_def isspace_def)
qed

lemma digits_append: "\<forall>c\<in>set xs. digit_val c < b \<Longrightarrow> digits b acc (xs @ ys) = digits b (digits b acc xs) ys"
  by (induction xs arbitrary: acc) auto

lemma udec_digits:
  assumes "0 \<le> n"
  shows "digits 10 0 (udec n) = n \<and> (\<forall>c\<in>set (udec n). digit_val c < 10 \<and> \<not> isspace c \<and> c \<noteq> CHR ''-'' \<and> c \<noteq> CHR ''+'')"
  using assms
proof (induction n rule: udec.induct)
  case (1 n)
  show ?case
  proof (cases "n < 10")
    case True
    then show ?thesis using digit_digit_val [of n] "1.prems" by (subst (1 2) udec.simps) simp
  next
    case False
    have d: "0 \<le> n mod 10" "n mod 10 < 10" "n div 10 * 10 + n mod 10 = n" by simp_all
    from 1(1) [OF False] "1.prems" have ih: "digits 10 0 (udec (n div 10)) = n div 10"
      "\<forall>c\<in>set (udec (n div 10)). digit_val c < 10 \<and> \<not> isspace c \<and> c \<noteq> CHR ''-'' \<and> c \<noteq> CHR ''+''" by auto
    then show ?thesis using False digit_digit_val [OF d(1,2)] d(3)
      by (subst (1 2) udec.simps) (simp add: digits_append)
  qed
qed

lemma udec_head: "0 \<le> n \<Longrightarrow> \<exists>c r. udec n = c # r \<and> (c = CHR ''0'' \<longrightarrow> r = [])"
proof (induction n rule: udec.induct)
  case (1 n)
  show ?case
  proof (cases "n < 10")
    case True
    then show ?thesis by (subst udec.simps) simp
  next
    case False
    from 1(1) [OF False] False obtain c r where cr: "udec (n div 10) = c # r" "c = CHR ''0'' \<longrightarrow> r = []"
      by (auto simp: pos_imp_zdiv_nonneg_iff)
    have "c \<noteq> CHR ''0''"
    proof
      assume "c = CHR ''0''"
      with cr have "udec (n div 10) = ''0''" by simp
      moreover have "0 \<le> n div 10" using False by (simp add: pos_imp_zdiv_nonneg_iff)
      ultimately have "n div 10 = digits 10 0 ''0''" using udec_digits [of "n div 10"] by metis
      then have "n div 10 = 0" by (simp add: digit_val_def)
      then show False using False by presburger
    qed
    with cr show ?thesis using False by (subst udec.simps) simp
  qed
qed

lemma signed_part_udec:
  assumes "0 \<le> n" "b = 0 \<or> b = 10"
  shows "signed_part b (udec n) = (False, n)"
proof -
  obtain c r where cr: "udec n = c # r" "c = CHR ''0'' \<longrightarrow> r = []" using udec_head [OF assms(1)] by blast
  note d = udec_digits [OF assms(1)]
  have "magnitude 0 (udec n) = digits 10 0 (udec n)"
    using cr by (cases r) (auto simp: magnitude_def)
  moreover have "magnitude 10 (udec n) = digits 10 0 (udec n)" by (simp add: magnitude_def)
  ultimately have "magnitude b (udec n) = n" using assms(2) d by metis
  then show ?thesis using cr(1) d by (simp add: signed_part_def)
qed

lemma strtoul_udec: "0 \<le> n \<Longrightarrow> n < 2 ^ 64 \<Longrightarrow> strtoul 0 (udec n) = word_of_int n"
  by (simp add: strtoul_def signed_part_udec)

lemma strtoul_handle: "ucast (strtoul 0 (udec (uint h))) = (h :: u32)"
proof -
  have "uint h < 2 ^ 64" using uint_lt2p [of h] by simp
  then have "strtoul 0 (udec (uint h)) = ucast h" by (simp add: strtoul_udec)
  then show ?thesis by (simp add: ucast_up_ucast_id is_up_def source_size_def target_size_def)
qed

lemma atoi_udec: "0 \<le> n \<Longrightarrow> n < 2 ^ 31 \<Longrightarrow> atoi (udec n) = n"
  by (simp add: atoi_def strtol_def signed_part_udec signed_take_bit_int_eq_self sint_sbintrunc')

end
