(* ===== verification/Pixel.thy ===== *)
theory Pixel
  imports Mqueue Handles Wheel Modules Cnum
begin

text \<open>
  The service runtime of \<open>src/src/pixel.c\<close> with the harbor of \<open>src/src/harbor.c\<close>, the monitor of \<open>src/src/monitor.c\<close> and
  the environment of \<open>src/src/env.c\<close>: creating and freeing services, sending, dispatching, and the commands. The state is one
  record that holds the registry, the queues, the modules and the timer of the other components, the service
  contexts and the blocks of message data by address, and what was written to the standard error. An allocation takes the next
  address. The code that the runtime calls and does not contain is the parameter \<open>K\<close>: the linker, the functions of
  the modules, the service callbacks and \<open>fopen\<close>; a function pointer is an address. \<open>None\<close> is
  undefined behaviour (a freed or null pointer, a copy behind the end of a block, a failed
  assertion) or a run that does not end.
\<close>

section \<open>Data\<close>

record pixel =
  p_queue :: addr
  p_module :: nat
  p_inst :: addr
  p_handle :: u32
  p_session :: int
  p_cb :: addr
  p_ud :: addr
  p_endless :: bool
  p_logfile :: addr

record timer_event =
  te_session :: int
  te_handle :: u32

record monitor =
  mon_version :: u32
  mon_check :: u32
  mon_source :: u32
  mon_destination :: u32

record world =
  w_ctx :: "addr \<rightharpoonup> pixel"
  w_q :: queue_global
  w_h :: handle_global
  w_m :: module_global
  w_t :: "timer_event timer"
  w_total :: int
  w_log :: addr
  w_hctx :: addr
  w_harbor :: u32
  w_mem :: "addr \<rightharpoonup> bytes"
  w_brk :: addr
  w_env :: "string \<rightharpoonup> string"
  w_err :: "(u32 \<times> string) list"

record hooks =
  k_dlopen :: "string \<Rightarrow> addr"
  k_dlsym :: "addr \<Rightarrow> string \<Rightarrow> addr"
  k_new :: "addr \<Rightarrow> world \<Rightarrow> (addr \<times> world) option"
  k_init :: "addr \<Rightarrow> addr \<Rightarrow> addr \<Rightarrow> string option \<Rightarrow> world \<Rightarrow> (int \<times> world) option"
  k_free :: "addr \<Rightarrow> addr \<Rightarrow> world \<Rightarrow> world option"
  k_signal :: "addr \<Rightarrow> addr \<Rightarrow> int \<Rightarrow> world \<Rightarrow> world option"
  k_cb :: "addr \<Rightarrow> addr \<Rightarrow> addr \<Rightarrow> int \<Rightarrow> int \<Rightarrow> u32 \<Rightarrow> addr \<Rightarrow> u64 \<Rightarrow> world \<Rightarrow> (int \<times> world) option"
  k_fopen :: "string \<Rightarrow> addr"

definition PIXEL_TEXT :: int where "PIXEL_TEXT = 0"
definition PIXEL_RESPONSE :: int where "PIXEL_RESPONSE = 1"
definition PIXEL_SOCKET :: int where "PIXEL_SOCKET = 6"
definition PIXEL_TAG_DONTCOPY :: int where "PIXEL_TAG_DONTCOPY = 0x10000"
definition PIXEL_TAG_ALLOCSESSION :: int where "PIXEL_TAG_ALLOCSESSION = 0x20000"
definition MSG_TYPE_SHIFT :: nat where "MSG_TYPE_SHIFT = 56"
definition MSG_TYPE_MASK :: u64 where "MSG_TYPE_MASK = drop_bit 8 (- 1)"

definition typed_size :: "int \<Rightarrow> u64 \<Rightarrow> u64" where
  "typed_size ty sz = sz OR push_bit MSG_TYPE_SHIFT (word_of_int ty)"

section \<open>Memory\<close>

text \<open>
  \<open>pixel_alloc\<close>. The size is an \<open>int\<close>: when it is negative \<open>malloc\<close> fails and the null pointer is written to.
\<close>

definition pixel_alloc :: "addr \<Rightarrow> int \<Rightarrow> world \<Rightarrow> (addr \<times> world) option" where
  "pixel_alloc p siz W =
     (if siz = 0 then
        if p = 0 then Some (0, W)
        else if w_mem W p = None then None
        else Some (0, W\<lparr>w_mem := (w_mem W)(p := None)\<rparr>)
      else if siz < 0 then None
      else Some (w_brk W, W\<lparr>w_mem := (w_mem W)(w_brk W \<mapsto> replicate (nat siz) 0), w_brk := w_brk W + 1\<rparr>))"

definition free_data :: "addr \<Rightarrow> world \<Rightarrow> world option" where
  "free_data p W = map_option snd (pixel_alloc p 0 W)"

text \<open>\<open>memcpy\<close> of all of \<open>bs\<close> to the beginning of a block.\<close>

definition store :: "addr \<Rightarrow> bytes \<Rightarrow> world \<Rightarrow> world option" where
  "store p bs W =
     (if bs = [] then Some W
      else do {
        old \<leftarrow> w_mem W p;
        if length bs > length old then None
        else Some (W\<lparr>w_mem := (w_mem W)(p \<mapsto> bs @ drop (length bs) old)\<rparr>) })"

definition read_block :: "addr \<Rightarrow> nat \<Rightarrow> world \<Rightarrow> bytes option" where
  "read_block p n W =
     (if n = 0 then Some []
      else do { bs \<leftarrow> w_mem W p; if n > length bs then None else Some (take n bs) })"

definition text_bytes :: "string \<Rightarrow> bytes" where
  "text_bytes s = map of_char s @ [0]"

section \<open>Handles, logging, freeing\<close>

definition world_grab :: "u32 \<Rightarrow> world \<Rightarrow> addr \<times> world" where
  "world_grab h W = (let (c, H) = handle_grab h (w_h W) in (c, W\<lparr>w_h := H\<rparr>))"

type_synonym releaser = "u32 \<Rightarrow> world \<Rightarrow> (addr \<times> world) option"

text \<open>
  \<open>handle_release\<close> frees a service, which logs a line, which pushes a message to the log service and
  releases its handle. Each of these functions has the release that it calls as an argument; the
  recursion is tied below.
\<close>

definition push_with :: "releaser \<Rightarrow> u32 \<Rightarrow> message \<Rightarrow> world \<Rightarrow> (int \<times> world) option" where
  "push_with rel h m W =
     (let (c, W) = world_grab h W in
      if c = 0 then Some (- 1, W)
      else do {
        ctx \<leftarrow> w_ctx W c;
        Q \<leftarrow> queue_push (p_queue ctx) m (w_q W);
        (_, W) \<leftarrow> rel (p_handle ctx) (W\<lparr>w_q := Q\<rparr>);
        Some (0, W) })"

definition ctx_handle :: "addr \<Rightarrow> world \<Rightarrow> u32 option" where
  "ctx_handle c W = (if c = 0 then Some 0 else map_option p_handle (w_ctx W c))"

text \<open>The text is the formatted line.\<close>

definition log_with :: "releaser \<Rightarrow> addr \<Rightarrow> string \<Rightarrow> world \<Rightarrow> world option" where
  "log_with rel c line W = do {
     src \<leftarrow> ctx_handle c W;
     if w_log W = 0 then Some (W\<lparr>w_err := w_err W @ [(src, line)]\<rparr>)
     else do {
       (d, W) \<leftarrow> pixel_alloc 0 (int (length line) + 1) W;
       W \<leftarrow> store d (text_bytes line) W;
       lg \<leftarrow> w_ctx W (w_log W);
       let m = \<lparr>msg_source = src, msg_session = 0, msg_data = d,
                msg_size = typed_size PIXEL_TEXT (of_nat (length line))\<rparr>;
       (r, W) \<leftarrow> push_with rel (p_handle lg) m W;
       if r \<noteq> 0 then free_data d (W\<lparr>w_err := w_err W @ [(src, line)]\<rparr>) else Some W } }"

definition module_inst_free :: "hooks \<Rightarrow> nat \<Rightarrow> addr \<Rightarrow> world \<Rightarrow> world option" where
  "module_inst_free K i inst W =
     (let f = dl_free (modules (w_m W) ! i) in if f \<noteq> 0 then k_free K f inst W else Some W)"

text \<open>\<open>pixel_free\<close>: the service is not read again once its module has freed the instance.\<close>

definition free_with :: "hooks \<Rightarrow> releaser \<Rightarrow> addr \<Rightarrow> world \<Rightarrow> world option" where
  "free_with K rel c W =
     (if c = 0 then Some W
      else do {
        W \<leftarrow> log_with rel c ''EXIT\<newline>'' W;
        ctx \<leftarrow> w_ctx W c;
        Q \<leftarrow> queue_mark_free (p_queue ctx) (w_q W);
        W \<leftarrow> module_inst_free K (p_module ctx) (p_inst ctx) (W\<lparr>w_q := Q\<rparr>);
        Some (W\<lparr>w_ctx := (w_ctx W)(c := None)\<rparr>) })"

fun release_depth :: "hooks \<Rightarrow> nat \<Rightarrow> releaser" where
  "release_depth K 0 h W = None"
| "release_depth K (Suc n) h W =
     (let (c, fr, H) = handle_release h (w_h W) in
      do {
        W \<leftarrow> (case fr of [] \<Rightarrow> Some (W\<lparr>w_h := H\<rparr>) | x # _ \<Rightarrow> free_with K (release_depth K n) x (W\<lparr>w_h := H\<rparr>));
        Some (c, W) })"

text \<open>
  Freeing a service may release the log service, which is grabbed just before and so is not freed
  itself: two levels are enough.
\<close>

definition world_release :: "hooks \<Rightarrow> releaser" where
  "world_release K = release_depth K 2"

definition pixel_push :: "hooks \<Rightarrow> u32 \<Rightarrow> message \<Rightarrow> world \<Rightarrow> (int \<times> world) option" where
  "pixel_push K = push_with (world_release K)"

definition pixel_log :: "hooks \<Rightarrow> addr \<Rightarrow> string \<Rightarrow> world \<Rightarrow> world option" where
  "pixel_log K = log_with (world_release K)"

definition pixel_free :: "hooks \<Rightarrow> addr \<Rightarrow> world \<Rightarrow> world option" where
  "pixel_free K = free_with K (world_release K)"

section \<open>Services\<close>

definition pixel_reserve :: "addr \<Rightarrow> world \<Rightarrow> world option" where
  "pixel_reserve c W = do {
     ctx \<leftarrow> w_ctx W c;
     let W = snd (world_grab (p_handle ctx) W);
     Some (W\<lparr>w_total := w_total W - 1\<rparr>) }"

definition pixel_setlog :: "addr \<Rightarrow> world \<Rightarrow> world option" where
  "pixel_setlog c W = pixel_reserve c (W\<lparr>w_log := c\<rparr>)"

fun drop_messages :: "message list \<Rightarrow> world \<Rightarrow> world option" where
  "drop_messages [] W = Some W"
| "drop_messages (m # ms) W = do { W \<leftarrow> free_data (msg_data m) W; drop_messages ms W }"

definition free_queue :: "addr \<Rightarrow> world \<Rightarrow> world option" where
  "free_queue a W = do {
     (ms, Q) \<leftarrow> queue_free a (w_q W);
     drop_messages ms (W\<lparr>w_q := Q\<rparr>) }"

definition pixel_force_free :: "hooks \<Rightarrow> addr \<Rightarrow> world \<Rightarrow> world option" where
  "pixel_force_free K c W = do {
     ctx \<leftarrow> w_ctx W c;
     (c, W) \<leftarrow> world_release K (p_handle ctx) W;
     if c = 0 then do { W \<leftarrow> free_queue (p_queue ctx) W; Some (W\<lparr>w_total := w_total W - 1\<rparr>) }
     else Some W }"

fun release_all :: "hooks \<Rightarrow> u32 list \<Rightarrow> world \<Rightarrow> world option" where
  "release_all K [] W = Some W"
| "release_all K (h # hs) W = do { (_, W) \<leftarrow> world_release K h W; release_all K hs W }"

definition pixel_exit :: "hooks \<Rightarrow> world \<Rightarrow> world option" where
  "pixel_exit K W = release_all K (filter (\<lambda>h. h \<noteq> 0) (map sl_handle (h_slot (w_h W)))) W"

definition module_inst_new :: "hooks \<Rightarrow> nat \<Rightarrow> world \<Rightarrow> (addr \<times> world) option" where
  "module_inst_new K i W =
     (let f = dl_new (modules (w_m W) ! i) in if f \<noteq> 0 then k_new K f W else Some (2 ^ 64 - 1, W))"

definition module_inst_init :: "hooks \<Rightarrow> nat \<Rightarrow> addr \<Rightarrow> addr \<Rightarrow> string option \<Rightarrow> world \<Rightarrow> (int \<times> world) option" where
  "module_inst_init K i inst c param W = k_init K (dl_init (modules (w_m W) ! i)) inst c param W"

definition module_inst_signal :: "hooks \<Rightarrow> nat \<Rightarrow> addr \<Rightarrow> int \<Rightarrow> world \<Rightarrow> world option" where
  "module_inst_signal K i inst sig W =
     (let f = dl_signal (modules (w_m W) ! i) in if f \<noteq> 0 then k_signal K f inst sig W else Some W)"

text \<open>
  The part of \<open>pixel_new\<close> from the allocation of the context to the call of the module's \<open>_init\<close>: the context and its queue exist and
  the caller holds a reference.
\<close>

definition ctx_create :: "nat \<Rightarrow> addr \<Rightarrow> world \<Rightarrow> (addr \<times> world) option" where
  "ctx_create i inst W = do {
     let c = w_brk W;
     (h, H) \<leftarrow> handle_regist c (w_h W);
     let a = c + 1;
     let ctx = \<lparr>p_queue = a, p_module = i, p_inst = inst, p_handle = h, p_session = 0, p_cb = 0, p_ud = 0,
               p_endless = False, p_logfile = 0\<rparr>;
     Some (world_grab h (W\<lparr>w_brk := c + 2, w_ctx := (w_ctx W)(c \<mapsto> ctx), w_h := H,
       w_q := (w_q W)\<lparr>qheap := (qheap (w_q W))(a \<mapsto> queue_new h)\<rparr>, w_total := w_total W + 1\<rparr>)) }"

definition param_text :: "string option \<Rightarrow> string" where
  "param_text param = (case param of None \<Rightarrow> [] | Some s \<Rightarrow> s)"

definition pixel_new :: "hooks \<Rightarrow> string \<Rightarrow> string option \<Rightarrow> world \<Rightarrow> (addr \<times> world) option" where
  "pixel_new K nm param W = do {
     (mo, M) \<leftarrow> module_query (k_dlopen K) (k_dlsym K) nm (w_m W);
     let W = W\<lparr>w_m := M\<rparr>;
     case mo of
       None \<Rightarrow> Some (0, W)
     | Some i \<Rightarrow> do {
         (inst, W) \<leftarrow> module_inst_new K i W;
         if inst = 0 then Some (0, W)
         else do {
           (c, W) \<leftarrow> ctx_create i inst W;
           (r, W) \<leftarrow> module_inst_init K i inst c param W;
           if r \<noteq> 0 then do {
             W \<leftarrow> pixel_log K c (''LAUNCH FAILED '' @ nm @ '' '' @ param_text param @ ''\<newline>'') W;
             ctx \<leftarrow> w_ctx W c;
             (_, W) \<leftarrow> world_release K (p_handle ctx) W;
             W \<leftarrow> pixel_force_free K c W;
             Some (0, W) }
           else do {
             ctx \<leftarrow> w_ctx W c;
             Q \<leftarrow> queue_push_global (p_queue ctx) (w_q W);
             (c, W) \<leftarrow> world_release K (p_handle ctx) (W\<lparr>w_q := Q\<rparr>);
             W \<leftarrow> (if c \<noteq> 0 then pixel_log K c (''LAUNCH '' @ nm @ '' '' @ param_text param @ ''\<newline>'') W else Some W);
             Some (c, W) } } } }"

definition pixel_endless :: "hooks \<Rightarrow> u32 \<Rightarrow> world \<Rightarrow> world option" where
  "pixel_endless K h W =
     (let (c, W) = world_grab h W in
      if c = 0 then Some W
      else do {
        ctx \<leftarrow> w_ctx W c;
        (_, W) \<leftarrow> world_release K h (W\<lparr>w_ctx := (w_ctx W)(c \<mapsto> ctx\<lparr>p_endless := True\<rparr>)\<rparr>);
        Some W })"

text \<open>A session behind \<open>INT_MAX\<close> is a signed overflow.\<close>

definition pixel_session :: "addr \<Rightarrow> world \<Rightarrow> (int \<times> world) option" where
  "pixel_session c W = do {
     ctx \<leftarrow> w_ctx W c;
     let s = p_session ctx + 1;
     if s \<ge> 2 ^ 31 then None else Some (s, W\<lparr>w_ctx := (w_ctx W)(c \<mapsto> ctx\<lparr>p_session := s\<rparr>)\<rparr>) }"

definition pixel_callback :: "addr \<Rightarrow> addr \<Rightarrow> addr \<Rightarrow> world \<Rightarrow> world option" where
  "pixel_callback c ud cb W = do {
     ctx \<leftarrow> w_ctx W c;
     Some (W\<lparr>w_ctx := (w_ctx W)(c \<mapsto> ctx\<lparr>p_cb := cb, p_ud := ud\<rparr>)\<rparr>) }"

section \<open>Harbor\<close>

definition harbor_init :: "int \<Rightarrow> world \<Rightarrow> world" where
  "harbor_init hb W = W\<lparr>w_hctx := 0, w_harbor := push_bit 24 (word_of_int (hb AND 0xff))\<rparr>"

definition harbor_unit :: "hooks \<Rightarrow> world \<Rightarrow> world option" where
  "harbor_unit K W = (if w_hctx W \<noteq> 0 then pixel_force_free K (w_hctx W) W else Some W)"

definition harbor_start :: "addr \<Rightarrow> world \<Rightarrow> world option" where
  "harbor_start c W = pixel_reserve c (W\<lparr>w_hctx := c\<rparr>)"

definition harbor_send :: "hooks \<Rightarrow> message \<Rightarrow> world \<Rightarrow> (int \<times> world) option" where
  "harbor_send K m W = do { ctx \<leftarrow> w_ctx W (w_hctx W); pixel_push K (p_handle ctx) m W }"

definition harbor_isremote :: "u32 \<Rightarrow> world \<Rightarrow> bool option" where
  "harbor_isremote h W =
     (if w_harbor W = - 1 then None
      else (let x = h AND NOT 0xffffff in Some (x \<noteq> w_harbor W \<and> x \<noteq> 0)))"

section \<open>Sending\<close>

definition has_tag :: "int \<Rightarrow> int \<Rightarrow> bool" where
  "has_tag tag ty \<longleftrightarrow> ty AND tag \<noteq> 0"

definition filter_args ::
  "addr \<Rightarrow> int \<Rightarrow> int \<Rightarrow> addr \<Rightarrow> u64 \<Rightarrow> world \<Rightarrow> ((int \<times> addr \<times> u64) \<times> world) option" where
  "filter_args c ty session data siz W = do {
     (session, W) \<leftarrow> (if has_tag PIXEL_TAG_ALLOCSESSION ty then pixel_session c W else Some (session, W));
     (data, W) \<leftarrow> (if \<not> has_tag PIXEL_TAG_DONTCOPY ty \<and> data \<noteq> 0 then do {
         (newdata, W) \<leftarrow> pixel_alloc 0 (sint (ucast siz :: u32)) W;
         bs \<leftarrow> read_block data (unat siz) W;
         W \<leftarrow> store newdata bs W;
         Some (newdata, W) }
       else Some (data, W));
     Some ((session, data, typed_size (ty AND 0xff) siz), W) }"

definition drop_uncopied :: "int \<Rightarrow> addr \<Rightarrow> world \<Rightarrow> world option" where
  "drop_uncopied ty data W = (if has_tag PIXEL_TAG_DONTCOPY ty then free_data data W else Some W)"

definition too_large_text :: "u32 \<Rightarrow> u64 \<Rightarrow> string" where
  "too_large_text dest siz =
     ''message to '' @ udec (uint dest) @ '' is too large (size='' @ sdec (sint (ucast siz :: u32)) @ '')\<newline>''"

definition pixel_send ::
  "hooks \<Rightarrow> addr \<Rightarrow> u32 \<Rightarrow> u32 \<Rightarrow> int \<Rightarrow> int \<Rightarrow> addr \<Rightarrow> u64 \<Rightarrow> world \<Rightarrow> (int \<times> world) option" where
  "pixel_send K c source dest ty session data siz W =
     (if siz AND MSG_TYPE_MASK \<noteq> siz then do {
        W \<leftarrow> pixel_log K c (too_large_text dest siz) W;
        W \<leftarrow> drop_uncopied ty data W;
        Some (- 1, W) }
      else if dest = 0 then do { W \<leftarrow> drop_uncopied ty data W; Some (- 1, W) }
      else do {
        ((session, data, siz), W) \<leftarrow> filter_args c ty session data siz W;
        source \<leftarrow> (if source = 0 then map_option p_handle (w_ctx W c) else Some source);
        let m = \<lparr>msg_source = source, msg_session = session, msg_data = data, msg_size = siz\<rparr>;
        remote \<leftarrow> harbor_isremote dest W;
        (r, W) \<leftarrow> (if remote then harbor_send K m W else pixel_push K dest m W);
        if r \<noteq> 0 then do { W \<leftarrow> free_data data W; Some (- 1, W) } else Some (session, W) })"

definition pixel_timer_dispatch :: "hooks \<Rightarrow> timer_event \<Rightarrow> world \<Rightarrow> world option" where
  "pixel_timer_dispatch K ev W = do {
     let m = \<lparr>msg_source = 0, msg_session = te_session ev, msg_data = 0, msg_size = typed_size PIXEL_RESPONSE 0\<rparr>;
     (_, W) \<leftarrow> pixel_push K (te_handle ev) m W;
     Some W }"

text \<open>A socket event: its type, the service it is for, and the bytes of the whole structure.\<close>

record socket_message =
  sm_type :: int
  sm_ud :: u64
  sm_raw :: bytes

definition SOCKET_EXIT :: int where "SOCKET_EXIT = 0"

definition pixel_socket_dispatch :: "hooks \<Rightarrow> socket_message \<Rightarrow> world \<Rightarrow> world option" where
  "pixel_socket_dispatch K sm W =
     (if sm_type sm = SOCKET_EXIT then Some W
      else do {
        (d, W) \<leftarrow> pixel_alloc 0 (int (length (sm_raw sm))) W;
        W \<leftarrow> store d (sm_raw sm) W;
        let m = \<lparr>msg_source = 0, msg_session = 0, msg_data = d,
                 msg_size = typed_size PIXEL_SOCKET (of_nat (length (sm_raw sm)))\<rparr>;
        (r, W) \<leftarrow> pixel_push K (ucast (sm_ud sm)) m W;
        if r \<noteq> 0 then free_data d W else Some W })"

section \<open>Dispatching\<close>

text \<open>\<open>_dispatch\<close>; what the log file of a service records is not modelled.\<close>

definition dispatch_message :: "hooks \<Rightarrow> addr \<Rightarrow> message \<Rightarrow> world \<Rightarrow> world option" where
  "dispatch_message K c m W = do {
     ctx \<leftarrow> w_ctx W c;
     (r, W) \<leftarrow> k_cb K (p_cb ctx) c (p_ud ctx) (uint (drop_bit MSG_TYPE_SHIFT (msg_size m)))
       (msg_session m) (msg_source m) (msg_data m) (msg_size m AND MSG_TYPE_MASK) W;
     if r = 0 then free_data (msg_data m) W else Some W }"

definition monitor_trigger :: "u32 \<Rightarrow> u32 \<Rightarrow> monitor \<Rightarrow> monitor" where
  "monitor_trigger source dest mon = mon\<lparr>mon_source := source, mon_destination := dest, mon_version := mon_version mon + 1\<rparr>"

definition pop_global :: "world \<Rightarrow> (addr \<times> world) option" where
  "pop_global W = do { (a, Q) \<leftarrow> queue_pop_global (w_q W); Some (a, W\<lparr>w_q := Q\<rparr>) }"

definition put_queue :: "addr \<Rightarrow> queue \<Rightarrow> world \<Rightarrow> world" where
  "put_queue a q W = W\<lparr>w_q := (w_q W)\<lparr>qheap := (qheap (w_q W))(a \<mapsto> q)\<rparr>\<rparr>"

text \<open>The body of \<open>pixel_dispatch\<close> from the call of \<open>queue_overload\<close> to the second \<open>monitor_trigger\<close>.\<close>

definition run_message :: "hooks \<Rightarrow> addr \<Rightarrow> addr \<Rightarrow> u32 \<Rightarrow> message \<Rightarrow> world \<Rightarrow> world option" where
  "run_message K a c h m W = do {
     q \<leftarrow> qheap (w_q W) a;
     let (ov, q) = queue_overload q;
     let W = put_queue a q W;
     W \<leftarrow> (if ov \<noteq> 0 then pixel_log K c (''overload queue length = '' @ sdec ov @ ''\<newline>'') W else Some W);
     ctx \<leftarrow> w_ctx W c;
     if p_cb ctx = 0 then do {
       W \<leftarrow> pixel_log K c (''_dispatch handle:'' @ udec (uint (p_handle ctx)) @ '' err\<newline>'') W;
       free_data (msg_data m) W }
     else dispatch_message K c m W }"

definition pixel_dispatch :: "hooks \<Rightarrow> addr \<Rightarrow> monitor \<Rightarrow> world \<Rightarrow> (addr \<times> monitor \<times> world) option" where
  "pixel_dispatch K a mon W = do {
     (a, W) \<leftarrow> (if a = 0 then pop_global W else Some (a, W));
     if a = 0 then Some (0, mon, W)
     else do {
       q \<leftarrow> qheap (w_q W) a;
       let h = q_handle q;
       let (c, W) = world_grab h W;
       if c = 0 then do {
         W \<leftarrow> free_queue a W;
         (a, W) \<leftarrow> pop_global (W\<lparr>w_total := w_total W - 1\<rparr>);
         Some (a, mon, W) }
       else do {
         (mo, q) \<leftarrow> queue_pop q;
         let W = put_queue a q W;
         case mo of
           None \<Rightarrow> do {
             (_, W) \<leftarrow> world_release K h W;
             (a, W) \<leftarrow> pop_global W;
             Some (a, mon, W) }
         | Some m \<Rightarrow> do {
             let mon = monitor_trigger (msg_source m) h mon;
             W \<leftarrow> run_message K a c h m W;
             let mon = monitor_trigger 0 0 mon;
             (n, W) \<leftarrow> pop_global W;
             W \<leftarrow> (if n \<noteq> 0 then do { Q \<leftarrow> queue_push_global a (w_q W); Some (W\<lparr>w_q := Q\<rparr>) } else Some W);
             (_, W) \<leftarrow> world_release K h W;
             Some (if n \<noteq> 0 then n else a, mon, W) } } } }"

text \<open>A service that keeps sending to itself keeps \<open>pixel_dispatchall\<close> from returning.\<close>

partial_function (option) dispatch_loop :: "hooks \<Rightarrow> addr \<Rightarrow> addr \<Rightarrow> world \<Rightarrow> world option" where
  "dispatch_loop K c a W = do {
     q \<leftarrow> qheap (w_q W) a;
     (mo, q) \<leftarrow> queue_pop q;
     case mo of
       None \<Rightarrow> Some (put_queue a q W)
     | Some m \<Rightarrow> do { W \<leftarrow> dispatch_message K c m (put_queue a q W); dispatch_loop K c a W } }"

definition pixel_dispatchall :: "hooks \<Rightarrow> addr \<Rightarrow> world \<Rightarrow> world option" where
  "pixel_dispatchall K c W = do { ctx \<leftarrow> w_ctx W c; dispatch_loop K c (p_queue ctx) W }"

definition monitor_check :: "hooks \<Rightarrow> monitor \<Rightarrow> world \<Rightarrow> (monitor \<times> world) option" where
  "monitor_check K mon W =
     (if mon_version mon = mon_check mon then
        if mon_destination mon \<noteq> 0 then do {
          W \<leftarrow> pixel_endless K (mon_destination mon) W;
          W \<leftarrow> pixel_log K 0 (''message from ['' @ udec (uint (mon_source mon)) @ ''] to ['' @
            udec (uint (mon_destination mon)) @ ''] maybe in endless loop (version='' @ sdec (sint (mon_version mon)) @ '')\<newline>'') W;
          Some (mon, W) }
        else Some (mon, W)
      else Some (mon\<lparr>mon_check := mon_version mon\<rparr>, W))"

section \<open>Commands\<close>

text \<open>A command gets the caller's context and a parameter that may be null, and returns a string or null.\<close>

type_synonym command = "addr \<Rightarrow> string option \<Rightarrow> world \<Rightarrow> (string option \<times> world) option"

text \<open>The text before the first space, and the text behind it when there is one.\<close>

definition split_space :: "string \<Rightarrow> string \<times> string option" where
  "split_space s = (case strchr s (CHR '' '') of None \<Rightarrow> (s, None) | Some i \<Rightarrow> (take i s, Some (drop (i + 1) s)))"

definition cmd_launch :: "hooks \<Rightarrow> command" where
  "cmd_launch K c param W = do {
     param \<leftarrow> param;
     let (nm, p) = split_space param;
     (newctx, W) \<leftarrow> pixel_new K nm p W;
     if newctx = 0 then Some (None, W)
     else do { ctx \<leftarrow> w_ctx W newctx; Some (Some (udec (uint (p_handle ctx))), W) } }"

text \<open>
  The handle that \<open>KILL\<close>, \<open>LOGON\<close>, \<open>LOGOFF\<close> and \<open>SIGNAL\<close> act on: the caller's own, or the one in the parameter; a parameter that is not a
  handle is logged.
\<close>

definition param_handle :: "hooks \<Rightarrow> string \<Rightarrow> addr \<Rightarrow> string option \<Rightarrow> world \<Rightarrow> (u32 option \<times> world) option" where
  "param_handle K what c param W = do {
     ctx \<leftarrow> w_ctx W c;
     case param of
       None \<Rightarrow> Some (Some (p_handle ctx), W)
     | Some s \<Rightarrow>
         (let h = ucast (strtoul 0 s) in
          if h = 0 then do { W \<leftarrow> pixel_log K c (what @ '':'' @ s @ '' failed\<newline>'') W; Some (None, W) }
          else Some (Some h, W)) }"

definition cmd_kill :: "hooks \<Rightarrow> command" where
  "cmd_kill K c param W = do {
     (ho, W) \<leftarrow> param_handle K ''kill'' c param W;
     case ho of None \<Rightarrow> Some (None, W)
     | Some h \<Rightarrow> do { (_, W) \<leftarrow> world_release K h W; Some (None, W) } }"

definition cmd_abort :: "hooks \<Rightarrow> command" where
  "cmd_abort K c param W = do { W \<leftarrow> pixel_exit K W; Some (None, W) }"

definition cmd_timeout :: "hooks \<Rightarrow> command" where
  "cmd_timeout K c param W = do {
     param \<leftarrow> param;
     let ti = atoi param;
     (session, W) \<leftarrow> pixel_session c W;
     ctx \<leftarrow> w_ctx W c;
     if ti = 0 then do {
       let m = \<lparr>msg_source = 0, msg_session = session, msg_data = 0, msg_size = typed_size PIXEL_RESPONSE 0\<rparr>;
       (r, W) \<leftarrow> pixel_push K (p_handle ctx) m W;
       Some (Some (sdec (if r \<noteq> 0 then - 1 else session)), W) }
     else
       Some (Some (sdec session),
         W\<lparr>w_t := timer_timeout ti \<lparr>te_session = session, te_handle = p_handle ctx\<rparr> (w_t W)\<rparr>) }"

definition cmd_now :: command where
  "cmd_now c param W = Some (Some (udec (uint (timer_now (w_t W)))), W)"

definition cmd_starttime :: command where
  "cmd_starttime c param W = Some (Some (udec (uint (timer_starttime (w_t W)))), W)"

definition cmd_self :: command where
  "cmd_self c param W = do { ctx \<leftarrow> w_ctx W c; Some (Some (udec (uint (p_handle ctx))), W) }"

definition cmd_name :: command where
  "cmd_name c param W = do {
     param \<leftarrow> param;
     case split_space param of
       (nm, None) \<Rightarrow> Some (None, W)
     | (nm, Some p) \<Rightarrow> Some (None, W\<lparr>w_h := snd (handle_name_op nm (ucast (strtoul 0 p)) (w_h W))\<rparr>) }"

definition cmd_query :: command where
  "cmd_query c param W =
     (case param of
        None \<Rightarrow> Some (None, W)
      | Some s \<Rightarrow>
          if s = [] then Some (None, W)
          else (let (h, H) = handle_name_op s 0 (w_h W) in
            Some (if h > 0 then Some (udec (uint h)) else None, W\<lparr>w_h := H\<rparr>)))"

definition cmd_session :: command where
  "cmd_session c param W = do { (session, W) \<leftarrow> pixel_session c W; Some (Some (sdec session), W) }"

definition cmd_endless :: command where
  "cmd_endless c param W = do {
     ctx \<leftarrow> w_ctx W c;
     if p_endless ctx then Some (Some ''1'', W\<lparr>w_ctx := (w_ctx W)(c \<mapsto> ctx\<lparr>p_endless := False\<rparr>)\<rparr>)
     else Some (None, W) }"

definition cmd_mqlen :: command where
  "cmd_mqlen c param W = do {
     ctx \<leftarrow> w_ctx W c;
     q \<leftarrow> qheap (w_q W) (p_queue ctx);
     Some (Some (sdec (queue_len q)), W) }"

definition log_open :: "hooks \<Rightarrow> addr \<Rightarrow> u32 \<Rightarrow> world \<Rightarrow> (addr \<times> world) option" where
  "log_open K c h W = do {
     let nm = udec (uint h) @ ''.log'';
     let f = k_fopen K nm;
     W \<leftarrow> pixel_log K c (''open log file '' @ nm @ (if f \<noteq> 0 then [] else '' failed'') @ ''\<newline>'') W;
     Some (f, W) }"

definition log_close :: "hooks \<Rightarrow> addr \<Rightarrow> u32 \<Rightarrow> world \<Rightarrow> world option" where
  "log_close K c h W = pixel_log K c (''close log file '' @ udec (uint h) @ ''\<newline>'') W"

definition set_logfile :: "addr \<Rightarrow> addr \<Rightarrow> world \<Rightarrow> world option" where
  "set_logfile c f W = do {
     ctx \<leftarrow> w_ctx W c;
     Some (W\<lparr>w_ctx := (w_ctx W)(c \<mapsto> ctx\<lparr>p_logfile := f\<rparr>)\<rparr>) }"

definition cmd_logon :: "hooks \<Rightarrow> command" where
  "cmd_logon K c param W = do {
     (ho, W) \<leftarrow> param_handle K ''logon'' c param W;
     case ho of None \<Rightarrow> Some (None, W)
     | Some h \<Rightarrow>
         (let (t, W) = world_grab h W in
          if t = 0 then Some (None, W)
          else do {
            ctx \<leftarrow> w_ctx W t;
            W \<leftarrow> (if p_logfile ctx = 0 then do {
                (f, W) \<leftarrow> log_open K c h W;
                ctx \<leftarrow> w_ctx W t;
                if f \<noteq> 0 \<and> p_logfile ctx = 0 then set_logfile t f W else Some W }
              else Some W);
            (_, W) \<leftarrow> world_release K h W;
            Some (None, W) }) }"

definition cmd_logoff :: "hooks \<Rightarrow> command" where
  "cmd_logoff K c param W = do {
     (ho, W) \<leftarrow> param_handle K ''logoff'' c param W;
     case ho of None \<Rightarrow> Some (None, W)
     | Some h \<Rightarrow>
         (let (t, W) = world_grab h W in
          if t = 0 then Some (None, W)
          else do {
            ctx \<leftarrow> w_ctx W t;
            W \<leftarrow> (if p_logfile ctx \<noteq> 0 then do { W \<leftarrow> set_logfile t 0 W; log_close K c h W } else Some W);
            (_, W) \<leftarrow> world_release K h W;
            Some (None, W) }) }"

definition env_set :: "string \<Rightarrow> string \<Rightarrow> world \<Rightarrow> world" where
  "env_set key val W = W\<lparr>w_env := (w_env W)(key \<mapsto> val)\<rparr>"

definition env_get :: "string \<Rightarrow> world \<Rightarrow> string option" where
  "env_get key W = w_env W key"

definition cmd_setenv :: command where
  "cmd_setenv c param W = do {
     param \<leftarrow> param;
     case split_space param of (key, None) \<Rightarrow> Some (None, W) | (key, Some val) \<Rightarrow> Some (None, env_set key val W) }"

definition cmd_getenv :: command where
  "cmd_getenv c param W = do { param \<leftarrow> param; Some (env_get param W, W) }"

text \<open>The text behind the handle is looked for in the parameter, which the code does not check for null here.\<close>

definition cmd_signal :: "hooks \<Rightarrow> command" where
  "cmd_signal K c param W = do {
     (ho, W) \<leftarrow> param_handle K ''signal'' c param W;
     case ho of None \<Rightarrow> Some (None, W)
     | Some h \<Rightarrow>
         (let (t, W) = world_grab h W in
          if t = 0 then Some (None, W)
          else do {
            param \<leftarrow> param;
            let sig = (case strchr param (CHR '' '') of None \<Rightarrow> 0
              | Some i \<Rightarrow> sint (word_of_int (strtol 0 (drop i param)) :: u32));
            ctx \<leftarrow> w_ctx W t;
            W \<leftarrow> module_inst_signal K (p_module ctx) (p_inst ctx) sig W;
            (_, W) \<leftarrow> world_release K h W;
            Some (None, W) }) }"

definition cmd_harbor :: command where
  "cmd_harbor c param W = do { W \<leftarrow> harbor_start c W; Some (None, W) }"

definition funcs :: "hooks \<Rightarrow> (string \<times> command) list" where
  "funcs K = [(''KILL'', cmd_kill K), (''LAUNCH'', cmd_launch K), (''TIMEOUT'', cmd_timeout K), (''ABORT'', cmd_abort K),
     (''NOW'', cmd_now), (''SELF'', cmd_self), (''NAME'', cmd_name), (''QUERY'', cmd_query), (''HARBOR'', cmd_harbor),
     (''SESSION'', cmd_session), (''ENDLESS'', cmd_endless), (''STARTTIME'', cmd_starttime), (''MQLEN'', cmd_mqlen),
     (''LOGON'', cmd_logon K), (''LOGOFF'', cmd_logoff K), (''SETENV'', cmd_setenv), (''GETENV'', cmd_getenv),
     (''SIGNAL'', cmd_signal K)]"

definition pixel_command :: "hooks \<Rightarrow> addr \<Rightarrow> string \<Rightarrow> string option \<Rightarrow> world \<Rightarrow> (string option \<times> world) option" where
  "pixel_command K c cmd param W =
     (case map_of (funcs K) cmd of
        Some f \<Rightarrow> f c param W
      | None \<Rightarrow> do { W \<leftarrow> pixel_log K c (''not support cmd:'' @ cmd @ ''\<newline>'') W; Some (None, W) })"

section \<open>Starting and stopping\<close>

definition pixel_init :: "world \<Rightarrow> world" where
  "pixel_init W = W\<lparr>w_total := 0, w_log := 0, w_env := Map.empty\<rparr>"

text \<open>\<open>pixel_unit\<close> up to \<open>pixel_force_free\<close>: the rest releases the other components.\<close>

definition pixel_unit :: "hooks \<Rightarrow> world \<Rightarrow> world option" where
  "pixel_unit K W = do {
     W \<leftarrow> harbor_unit K W;
     W \<leftarrow> pixel_dispatchall K (w_log W) W;
     pixel_force_free K (w_log W) W }"

section \<open>Timers\<close>

text \<open>
  One tick of the timer in the runtime: the wheel's batch goes to \<open>pixel_timer_dispatch\<close> event by event, which does not touch the wheel.
\<close>

fun dispatch_events :: "hooks \<Rightarrow> timer_event list \<Rightarrow> world \<Rightarrow> world option" where
  "dispatch_events K [] W = Some W"
| "dispatch_events K (ev # evs) W = do { W \<leftarrow> pixel_timer_dispatch K ev W; dispatch_events K evs W }"

definition world_tick :: "hooks \<Rightarrow> world \<Rightarrow> world option" where
  "world_tick K W = do {
     (ds, T, _) \<leftarrow> timer_tick [] (w_t W);
     dispatch_events K (map payload ds) (W\<lparr>w_t := T\<rparr>) }"

fun world_ticks :: "hooks \<Rightarrow> nat \<Rightarrow> world \<Rightarrow> world option" where
  "world_ticks K 0 W = Some W"
| "world_ticks K (Suc n) W = do { W \<leftarrow> world_tick K W; world_ticks K n W }"

section \<open>The Lua binding\<close>

text \<open>What the fifth argument of \<open>send\<close> is: a string at an address with its length, a light userdata, or neither.\<close>

datatype ldata = LString addr u64 | LUserdata addr u64 | LOther

text \<open>The outcome is a Lua error or the returned session.\<close>

definition lsend ::
  "hooks \<Rightarrow> addr \<Rightarrow> int \<Rightarrow> int \<Rightarrow> int \<Rightarrow> int option \<Rightarrow> ldata \<Rightarrow> world \<Rightarrow> ((string + int option) \<times> world) option" where
  "lsend K c dest source ty session d W =
     (let dest = word_of_int dest; source = word_of_int source;
          ty = sint (word_of_int ty :: u32);
          ty = (if session = None then ty OR PIXEL_TAG_ALLOCSESSION else ty);
          session = (case session of None \<Rightarrow> 0 | Some s \<Rightarrow> sint (word_of_int s :: u32));
          ret = (\<lambda>(session, W). (Inr (if session < 0 then None else Some session), W))
      in case d of
           LString p n \<Rightarrow> map_option ret (pixel_send K c source dest ty session p n W)
         | LUserdata p n \<Rightarrow> map_option ret (pixel_send K c source dest (ty OR PIXEL_TAG_DONTCOPY) session p n W)
         | LOther \<Rightarrow> Some (Inl ''pixel.send invalid param'', W))"

definition lharbor :: "int \<Rightarrow> world \<Rightarrow> (int \<times> bool) option" where
  "lharbor h W = do {
     let h = (word_of_int h :: u32);
     r \<leftarrow> harbor_isremote h W;
     Some (uint (drop_bit 24 h), r) }"

definition lsession :: "addr \<Rightarrow> world \<Rightarrow> (int \<times> world) option" where
  "lsession c W = pixel_session c W"

definition lcommand :: "hooks \<Rightarrow> addr \<Rightarrow> string \<Rightarrow> string option \<Rightarrow> world \<Rightarrow> (string option \<times> world) option" where
  "lcommand K c cmd pam W = pixel_command K c cmd pam W"

definition llog :: "hooks \<Rightarrow> addr \<Rightarrow> string \<Rightarrow> world \<Rightarrow> world option" where
  "llog K c line W = pixel_log K c line W"

text \<open>The bytes of a message as a Lua string; the size is an \<open>int\<close>, and a negative one is more than any block has.\<close>

definition ltostring :: "addr \<Rightarrow> int \<Rightarrow> world \<Rightarrow> bytes option" where
  "ltostring data siz W = (let n = sint (word_of_int siz :: u32) in if n < 0 then None else read_block data (nat n) W)"

definition ldrop :: "addr \<Rightarrow> world \<Rightarrow> world option" where
  "ldrop data W = free_data data W"

text \<open>
  The callback of a Lua service: the protected call of the Lua function is the parameter \<open>pcall\<close>. An error is logged, and the data is freed
  in both cases, unless the service forwards its messages.
\<close>

datatype lua_status = LUA_OK | LUA_ERRRUN string | LUA_ERRMEM | LUA_ERRERR | LUA_ERRGCMM

definition lua_cb :: "hooks \<Rightarrow> (world \<Rightarrow> (lua_status \<times> world) option) \<Rightarrow> addr \<Rightarrow> world \<Rightarrow> (int \<times> world) option" where
  "lua_cb K pcall c W = do {
     (r, W) \<leftarrow> pcall W;
     W \<leftarrow> (case r of
         LUA_OK \<Rightarrow> Some W
       | LUA_ERRRUN e \<Rightarrow> pixel_log K c (''LUA_ERRRUN :'' @ e @ ''\<newline>'') W
       | LUA_ERRMEM \<Rightarrow> pixel_log K c ''LUA_ERRMEM\<newline>'' W
       | LUA_ERRERR \<Rightarrow> pixel_log K c ''LUA_ERRERR\<newline>'' W
       | LUA_ERRGCMM \<Rightarrow> pixel_log K c ''LUA_ERRGCMM\<newline>'' W);
     Some (0, W) }"

definition forward_cb :: "hooks \<Rightarrow> (world \<Rightarrow> (lua_status \<times> world) option) \<Rightarrow> addr \<Rightarrow> world \<Rightarrow> (int \<times> world) option" where
  "forward_cb K pcall c W = do { (_, W) \<leftarrow> lua_cb K pcall c W; Some (1, W) }"

definition lcallback :: "addr \<Rightarrow> addr \<Rightarrow> addr \<Rightarrow> addr \<Rightarrow> bool \<Rightarrow> world \<Rightarrow> world option" where
  "lcallback cb_ptr forward_cb_ptr c gL forward W = pixel_callback c gL (if forward then forward_cb_ptr else cb_ptr) W"

end
