(* ===== verification/Pixel_Inv.thy ===== *)
theory Pixel_Inv
  imports Pixel
begin

text \<open>
  The well-formed states of the runtime and what its operations do to them: pushing, sending, logging, freeing and collecting
  services, dispatching messages and timer events. A queue is seen as the messages it holds, so that the bookkeeping of the run queue and
  of the ring buffers stays with \<open>Mqueue\<close>, and the registry as the map of \<open>Handles\<close>.
\<close>

declare release_depth.simps [simp del]

lemma world_swap: "W\<lparr>w_q := Q, w_h := H\<rparr> = W\<lparr>w_h := H, w_q := Q\<rparr>"
  by (cases W) simp

section \<open>What a queue holds\<close>

text \<open>The messages of each queue, whether it is released, and its handle: what the run queue does not change.\<close>

definition mbox :: "queue_global \<Rightarrow> addr \<rightharpoonup> message list \<times> int \<times> u32" where
  "mbox Q a = map_option (\<lambda>q. (messages q, release q, q_handle q)) (qheap Q a)"

lemma mbox_eq:
  assumes "map_option (q_next_update (\<lambda>_. 0)) (qheap Q' a) = map_option (q_next_update (\<lambda>_. 0)) (qheap Q a)"
  shows "mbox Q' a = mbox Q a"
proof -
  have same: "(messages q, release q, q_handle q) = (messages q', release q', q_handle q')"
    if "q\<lparr>q_next := 0\<rparr> = q'\<lparr>q_next := 0\<rparr>" for q q' :: queue
    using arg_cong [OF that, of "\<lambda>q. (messages q, release q, q_handle q)"] by simp
  show ?thesis
  proof (cases "qheap Q a")
    case (Some q)
    with assms obtain q' where "qheap Q' a = Some q'" "q'\<lparr>q_next := 0\<rparr> = q\<lparr>q_next := 0\<rparr>" by (cases "qheap Q' a") auto
    with Some same [of q' q] show ?thesis by (simp add: mbox_def)
  qed (use assms in \<open>simp add: mbox_def\<close>)
qed

lemma mbox_SomeD: "mbox Q a = Some (ms, rl, qh) \<Longrightarrow> \<exists>q. qheap Q a = Some q \<and> messages q = ms \<and> release q = rl \<and> q_handle q = qh"
  by (auto simp: mbox_def)

lemma mbox_update: "mbox (Q\<lparr>qheap := (qheap Q)(a \<mapsto> q)\<rparr>) = (mbox Q)(a \<mapsto> (messages q, release q, q_handle q))"
  by (auto simp: mbox_def)

lemma mbox_frame [simp]: "mbox (Q\<lparr>Qhead := x\<rparr>) = mbox Q" "mbox (Q\<lparr>Qtail := x\<rparr>) = mbox Q"
  by (simp_all add: mbox_def fun_eq_iff)

lemma push_global_mbox:
  assumes "runq Q xs" "qheap Q a = Some q" "a \<notin> set xs" "a \<noteq> 0"
  shows "\<exists>Q'. queue_push_global a Q = Some Q' \<and> mbox Q' = mbox Q"
  using queue_push_global_runq [OF assms] mbox_eq by (metis ext)

lemma pop_global_mbox:
  assumes "run_inv (Q, HD) xs"
  shows "\<exists>a Q'. queue_pop_global Q = Some (a, Q') \<and> mbox Q' = mbox Q \<and>
    (case xs of [] \<Rightarrow> a = 0 \<and> Q' = Q | x # ys \<Rightarrow> a = x \<and> a \<noteq> 0 \<and> run_inv (Q', insert a HD) ys)"
proof (cases xs)
  case Nil
  with assms queue_pop_global_empty [of Q] show ?thesis by (simp add: run_inv_def)
next
  case (Cons x ys)
  have rq: "runq Q (x # ys)" using assms Cons by (simp add: run_inv_def)
  from queue_pop_global_runq [OF rq] obtain q where q: "qheap Q x = Some q"
    "queue_pop_global Q = Some (x, Q\<lparr>Qhead := q_next q, Qtail := (if q_next q = 0 then 0 else Qtail Q),
       qheap := (qheap Q)(x \<mapsto> q\<lparr>q_next := 0\<rparr>)\<rparr>)" by blast
  have x: "x \<noteq> 0" using runq_dom [OF rq] by auto
  have "messages (q\<lparr>q_next := 0\<rparr>) = messages q" by (simp add: messages_def)
  then have "mbox (Q\<lparr>Qhead := q_next q, Qtail := (if q_next q = 0 then 0 else Qtail Q), qheap := (qheap Q)(x \<mapsto> q\<lparr>q_next := 0\<rparr>)\<rparr>) = mbox Q"
    using q(1) by (auto simp: mbox_def fun_eq_iff)
  with run_inv_take [OF assms q(2) x] Cons x q(2) show ?thesis by auto
qed

lemma queue_store_handle [simp]: "q_handle (queue_store m q) = q_handle q"
  by (simp add: queue_store_def queue_expand_def Let_def)

lemma queue_push_mbox:
  assumes "run_inv (Q, HD) xs" "mbox Q a = Some (ms, 0, qh)"
  shows "\<exists>Q' ys. queue_push a m Q = Some Q' \<and> run_inv (Q', HD) ys \<and> mbox Q' = (mbox Q)(a \<mapsto> (ms @ [m], 0, qh))"
proof -
  from mbox_SomeD [OF assms(2)] obtain q where q: "qheap Q a = Some q" "messages q = ms" "release q = 0" "q_handle q = qh" by blast
  have qi: "queue_inv q" using assms(1) q(1) by (auto simp: run_inv_def queue_ok_def)
  have ms: "messages (queue_store m q) = ms @ [m]" using queue_store_messages [OF qi, of m] q(2) by simp
  have "\<exists>Q'. queue_push a m Q = Some Q' \<and> mbox Q' = (mbox Q)(a \<mapsto> (ms @ [m], 0, qh))"
  proof (cases "global q = 0")
    case True
    let ?q = "(queue_store m q)\<lparr>global := 1\<rparr>"
    let ?Q = "Q\<lparr>qheap := (qheap Q)(a \<mapsto> ?q)\<rparr>"
    have a: "a \<notin> set xs" "a \<noteq> 0" "runq Q xs"
      using assms(1) q True by (auto simp: run_inv_def queue_ok_def)
    have "runq ?Q xs" using a(3) q(1) by (intro runq_update [of Q]) auto
    from push_global_mbox [OF this, of a ?q] a obtain Q' where "queue_push_global a ?Q = Some Q'" "mbox Q' = mbox ?Q" by auto
    moreover have "mbox ?Q = (mbox Q)(a \<mapsto> (ms @ [m], 0, qh))" using mbox_update [of Q a ?q] ms q by simp
    ultimately show ?thesis using True q(1) by (simp add: queue_push_def)
  next
    case False
    then show ?thesis using q ms mbox_update [of Q a "queue_store m q"] by (simp add: queue_push_def)
  qed
  then obtain Q' where Q': "queue_push a m Q = Some Q'" "mbox Q' = (mbox Q)(a \<mapsto> (ms @ [m], 0, qh))" by blast
  with run_inv_send [OF assms(1) q(1,3) Q'(1)] show ?thesis by blast
qed

section \<open>The state of the runtime\<close>

text \<open>
  The registry and the queues are well-formed, and every registered service has its context and its
  queue, which is not released. The set holds the queues that are in the hands of a thread or were abandoned by a failed launch.
\<close>

definition world_ok :: "addr set \<Rightarrow> world \<Rightarrow> bool" where
  "world_ok HD W \<longleftrightarrow> handle_inv (w_h W) \<and> (\<exists>xs. run_inv (w_q W, HD) xs) \<and>
     (\<forall>h r c. registered (w_h W) h = Some (r, c) \<longrightarrow>
        (\<exists>ctx ms. w_ctx W c = Some ctx \<and> hkey (p_handle ctx) = h \<and> mbox (w_q W) (p_queue ctx) = Some (ms, 0, p_handle ctx)))"

text \<open>The handle \<open>h\<close> is served by the queue \<open>a\<close>, which belongs to the full handle \<open>qh\<close> and holds \<open>ms\<close>.\<close>

definition serves :: "world \<Rightarrow> u32 \<Rightarrow> addr \<Rightarrow> u32 \<Rightarrow> message list \<Rightarrow> bool" where
  "serves W h a qh ms \<longleftrightarrow> (\<exists>r c ctx. registered (w_h W) (hkey h) = Some (r, c) \<and> w_ctx W c = Some ctx \<and>
     p_queue ctx = a \<and> p_handle ctx = qh \<and> mbox (w_q W) a = Some (ms, 0, qh))"

definition ctx_key :: "world \<Rightarrow> addr \<Rightarrow> (addr \<times> u32) option" where
  "ctx_key W c = map_option (\<lambda>x. (p_queue x, p_handle x)) (w_ctx W c)"

lemma ctx_key_Some: "ctx_key W c = Some (a, qh) \<longleftrightarrow> (\<exists>ctx. w_ctx W c = Some ctx \<and> p_queue ctx = a \<and> p_handle ctx = qh)"
  by (auto simp: ctx_key_def)

lemma serves_key: "serves W h a qh ms \<longleftrightarrow> (\<exists>r c. registered (w_h W) (hkey h) = Some (r, c) \<and> ctx_key W c = Some (a, qh)) \<and>
    mbox (w_q W) a = Some (ms, 0, qh)"
  unfolding serves_def ctx_key_Some by blast

lemma world_ok_key: "world_ok HD W \<longleftrightarrow> handle_inv (w_h W) \<and> (\<exists>xs. run_inv (w_q W, HD) xs) \<and>
    (\<forall>h r c. registered (w_h W) h = Some (r, c) \<longrightarrow>
       (\<exists>a qh ms. ctx_key W c = Some (a, qh) \<and> hkey qh = h \<and> mbox (w_q W) a = Some (ms, 0, qh)))"
  unfolding world_ok_def ctx_key_Some by metis

lemma world_frame:
  assumes "registered (w_h W') = registered (w_h W)" "handle_inv (w_h W') = handle_inv (w_h W)" "w_q W' = w_q W" "ctx_key W' = ctx_key W"
  shows "world_ok HD W' = world_ok HD W" "serves W' h a qh ms = serves W h a qh ms"
  using assms by (simp_all add: world_ok_key serves_key)

lemma serves_hkey:
  assumes "world_ok HD W" "serves W h a qh ms"
  shows "hkey qh = hkey h" "hkey h \<noteq> 0" "h \<noteq> 0"
proof -
  from assms(2) obtain r c where r: "registered (w_h W) (hkey h) = Some (r, c)" "ctx_key W c = Some (a, qh)" by (auto simp: serves_key)
  with assms(1) show "hkey qh = hkey h" by (fastforce simp: world_ok_key)
  show "hkey h \<noteq> 0" using registered_SomeD [OF _ r(1)] assms(1) by (auto simp: world_ok_def)
  then show "h \<noteq> 0" by auto
qed

lemma release_kept:
  assumes "handle_inv (w_h W)" "registered (w_h W) (hkey h) = Some (r, c)" "1 < r"
  shows "\<exists>H. release_depth K (Suc n) h W = Some (c, W\<lparr>w_h := H\<rparr>) \<and> handle_inv H \<and>
    registered H = (registered (w_h W))(hkey h \<mapsto> (r - 1, c))"
proof -
  have "hkey h \<noteq> 0" using registered_SomeD(1) [OF assms(1,2)] .
  from handle_release_spec [OF assms(1) this] assms(2,3) show ?thesis by (auto simp: release_depth.simps)
qed

lemma grab_registered:
  assumes "handle_inv (w_h W)" "registered (w_h W) (hkey h) = Some (r, c)"
  shows "\<exists>H. world_grab h W = (c, W\<lparr>w_h := H\<rparr>) \<and> handle_inv H \<and> registered H = (registered (w_h W))(hkey h \<mapsto> (r + 1, c))"
  using handle_grab_spec [OF assms(1) registered_SomeD(1) [OF assms]] assms(2) by (auto simp: world_grab_def)

lemma grab_gone:
  assumes "handle_inv (w_h W)" "hkey h \<noteq> 0" "registered (w_h W) (hkey h) = None"
  shows "world_grab h W = (0, W)"
  using handle_grab_spec [OF assms(1,2)] assms(3) by (simp add: world_grab_def)

lemma world_ok_mbox:
  assumes "world_ok HD W" "mbox (w_q W) a = Some (ms, 0, qh)" "run_inv (Q, HD') ys"
    "mbox Q = (mbox (w_q W))(a \<mapsto> (ms', 0, qh))" "handle_inv H" "\<forall>h r c. registered H h = Some (r, c) \<longrightarrow> (\<exists>r. registered (w_h W) h = Some (r, c))"
  shows "world_ok HD' (W\<lparr>w_h := H, w_q := Q\<rparr>)"
proof -
  have key: "ctx_key (W\<lparr>w_h := H, w_q := Q\<rparr>) = ctx_key W" by (simp add: ctx_key_def fun_eq_iff)
  have "\<exists>b bh ms. ctx_key W c = Some (b, bh) \<and> hkey bh = h \<and> mbox Q b = Some (ms, 0, bh)"
    if r: "registered H h = Some (r, c)" for h r c
  proof -
    from assms(6) r obtain r' where "registered (w_h W) h = Some (r', c)" by blast
    with assms(1) obtain b bh bs where x: "ctx_key W c = Some (b, bh)" "hkey bh = h" "mbox (w_q W) b = Some (bs, 0, bh)"
      unfolding world_ok_key by blast
    then show ?thesis using assms(2,4) by (cases "b = a") auto
  qed
  then show ?thesis using assms(3,5) by (auto simp: world_ok_key key)
qed

text \<open>Pushing to a service that is there: the message is behind the others, and nothing else is different.\<close>

lemma push_serves:
  assumes "world_ok HD W" "serves W h a qh ms"
  shows "\<exists>H Q. push_with (release_depth K (Suc n)) h m W = Some (0, W\<lparr>w_h := H, w_q := Q\<rparr>) \<and>
    registered H = registered (w_h W) \<and> mbox Q = (mbox (w_q W))(a \<mapsto> (ms @ [m], 0, qh)) \<and>
    world_ok HD (W\<lparr>w_h := H, w_q := Q\<rparr>)"
proof -
  note k = serves_hkey [OF assms]
  have inv: "handle_inv (w_h W)" using assms(1) by (simp add: world_ok_def)
  from assms(2) obtain r c ctx where r: "registered (w_h W) (hkey h) = Some (r, c)" "w_ctx W c = Some ctx" "p_queue ctx = a"
    "p_handle ctx = qh" "mbox (w_q W) a = Some (ms, 0, qh)" by (auto simp: serves_def)
  note d = registered_SomeD(3,4) [OF inv r(1)]
  from grab_registered [OF inv r(1)] obtain H1 where H1: "world_grab h W = (c, W\<lparr>w_h := H1\<rparr>)" "handle_inv H1"
    "registered H1 = (registered (w_h W))(hkey h \<mapsto> (r + 1, c))" by blast
  from assms obtain xs where "run_inv (w_q W, HD) xs" by (auto simp: world_ok_def)
  from queue_push_mbox [OF this r(5), of m] obtain Q ys where Q: "queue_push a m (w_q W) = Some Q"
    "run_inv (Q, HD) ys" "mbox Q = (mbox (w_q W))(a \<mapsto> (ms @ [m], 0, qh))" by blast
  from release_kept [of "W\<lparr>w_h := H1, w_q := Q\<rparr>" qh "r + 1" c K n] H1 k d obtain H where H:
    "release_depth K (Suc n) qh (W\<lparr>w_h := H1, w_q := Q\<rparr>) = Some (c, W\<lparr>w_h := H, w_q := Q\<rparr>)" "handle_inv H"
    "registered H = (registered H1)(hkey h \<mapsto> (r, c))" by (auto simp: world_swap)
  then have same: "registered H = registered (w_h W)" using H1(3) r by (auto simp: fun_eq_iff)
  have "push_with (release_depth K (Suc n)) h m W = Some (0, W\<lparr>w_h := H, w_q := Q\<rparr>)"
    using H1(1) d r Q(1) H(1) by (simp add: push_with_def)
  moreover have "world_ok HD (W\<lparr>w_h := H, w_q := Q\<rparr>)"
    using world_ok_mbox [OF assms(1) r(5) Q(2,3) H(2)] same by auto
  ultimately show ?thesis using same Q(3) by blast
qed

lemma push_gone:
  assumes "handle_inv (w_h W)" "hkey h \<noteq> 0" "registered (w_h W) (hkey h) = None"
  shows "push_with rel h m W = Some (- 1, W)"
  using grab_gone [OF assms] by (simp add: push_with_def)

lemma world_release_Suc: "world_release K = release_depth K (Suc 1)"
  by (simp add: world_release_def numeral_2_eq_2)

lemmas pixel_push_serves = push_serves [where n = 1, folded world_release_Suc, folded pixel_push_def]

lemma pixel_push_gone:
  "handle_inv (w_h W) \<Longrightarrow> hkey h \<noteq> 0 \<Longrightarrow> registered (w_h W) (hkey h) = None \<Longrightarrow> pixel_push K h m W = Some (- 1, W)"
  unfolding pixel_push_def by (rule push_gone)

section \<open>Sending\<close>

text \<open>The data block that a message carries, and the memory then.\<close>

definition sent_data :: "int \<Rightarrow> addr \<Rightarrow> u64 \<Rightarrow> world \<Rightarrow> addr \<times> (addr \<rightharpoonup> bytes)" where
  "sent_data ty data siz W =
     (if has_tag PIXEL_TAG_DONTCOPY ty \<or> data = 0 then (data, w_mem W)
      else if siz = 0 then (0, w_mem W)
      else (w_brk W, (w_mem W)(w_brk W \<mapsto> take (unat siz) (the (w_mem W data)))))"

definition sent_session :: "int \<Rightarrow> int \<Rightarrow> pixel \<Rightarrow> int" where
  "sent_session ty session ctx = (if has_tag PIXEL_TAG_ALLOCSESSION ty then p_session ctx + 1 else session)"

text \<open>The contexts after a send: the sender's session counter has gone up when a session was asked for.\<close>

definition sent_ctx :: "int \<Rightarrow> addr \<Rightarrow> pixel \<Rightarrow> world \<Rightarrow> (addr \<rightharpoonup> pixel)" where
  "sent_ctx ty c ctx W = (if has_tag PIXEL_TAG_ALLOCSESSION ty then (w_ctx W)(c \<mapsto> ctx\<lparr>p_session := p_session ctx + 1\<rparr>) else w_ctx W)"

text \<open>What a caller owes: a block of the size it names, of less than two gigabytes, when it is copied, and a session counter that has not run out.\<close>

definition send_pre :: "int \<Rightarrow> addr \<Rightarrow> u64 \<Rightarrow> pixel \<Rightarrow> world \<Rightarrow> bool" where
  "send_pre ty data siz ctx W \<longleftrightarrow>
     (has_tag PIXEL_TAG_ALLOCSESSION ty \<longrightarrow> p_session ctx + 1 < 2 ^ 31) \<and>
     (has_tag PIXEL_TAG_DONTCOPY ty \<or> data = 0 \<or>
        uint siz < 2 ^ 31 \<and> data < w_brk W \<and> (\<exists>bs. w_mem W data = Some bs \<and> unat siz \<le> length bs))"

lemma small_int: "uint siz < 2 ^ 31 \<Longrightarrow> sint (ucast (siz :: u64) :: u32) = uint siz"
proof -
  assume a: "uint siz < 2 ^ 31"
  then have u: "uint (ucast siz :: u32) = uint siz" by (simp add: unsigned_ucast_eq take_bit_int_eq_self)
  have "signed_take_bit 31 (uint siz) = uint siz"
    using a by (intro signed_take_bit_int_eq_self) (use order.trans [OF _ uint_ge_0 [of siz]] in auto)
  with u show ?thesis by (simp add: sint_uint)
qed

lemma copy_block:
  assumes "uint (siz :: u64) < 2 ^ 31" "data < w_brk W" "w_mem W data = Some bs" "unat siz \<le> length bs" "siz \<noteq> 0"
  shows "\<exists>W1. pixel_alloc 0 (sint (ucast siz :: u32)) W = Some (w_brk W, W1) \<and>
    read_block data (unat siz) W1 = Some (take (unat siz) bs) \<and>
    store (w_brk W) (take (unat siz) bs) W1 =
      Some (W\<lparr>w_mem := (w_mem W)(w_brk W \<mapsto> take (unat siz) bs), w_brk := w_brk W + 1\<rparr>)"
proof -
  have n: "nat (uint siz) = unat siz" "uint siz > 0" "unat siz \<noteq> 0" using assms(5)
    by (simp_all add: unat_eq_nat_uint [symmetric] unat_eq_zero order_less_le uint_0_iff)
  have i: "sint (ucast siz :: u32) = int (unat siz)" using small_int [OF assms(1)] by simp
  have "W\<lparr>w_brk := x, w_mem := y\<rparr> = W\<lparr>w_mem := y, w_brk := x\<rparr>" for x y by (cases W) simp
  then show ?thesis
    using assms(2-4) n by (auto simp: pixel_alloc_def read_block_def store_def i)
qed

lemma filter_args_spec:
  assumes "w_ctx W c = Some ctx" "send_pre ty data siz ctx W"
  shows "\<exists>W'. filter_args c ty session data siz W =
      Some ((sent_session ty session ctx, fst (sent_data ty data siz W), typed_size (ty AND 0xff) siz), W') \<and>
    w_mem W' = snd (sent_data ty data siz W) \<and> w_h W' = w_h W \<and> w_q W' = w_q W \<and> ctx_key W' = ctx_key W \<and>
    w_harbor W' = w_harbor W \<and> map_option p_handle (w_ctx W' c) = Some (p_handle ctx) \<and> w_ctx W' = sent_ctx ty c ctx W"
proof -
  let ?s = "sent_session ty session ctx"
  define W1 where "W1 = (if has_tag PIXEL_TAG_ALLOCSESSION ty then W\<lparr>w_ctx := (w_ctx W)(c \<mapsto> ctx\<lparr>p_session := p_session ctx + 1\<rparr>)\<rparr> else W)"
  have s: "(if has_tag PIXEL_TAG_ALLOCSESSION ty then pixel_session c W else Some (session, W)) = Some (?s, W1)"
    using assms by (auto simp: pixel_session_def sent_session_def send_pre_def W1_def Let_def)
  have f: "w_mem W1 = w_mem W" "w_brk W1 = w_brk W" "w_h W1 = w_h W" "w_q W1 = w_q W" "w_harbor W1 = w_harbor W"
    "ctx_key W1 = ctx_key W" "map_option p_handle (w_ctx W1 c) = Some (p_handle ctx)" "w_ctx W1 = sent_ctx ty c ctx W"
    using assms(1) by (auto simp: W1_def ctx_key_def sent_ctx_def)
  show ?thesis
  proof (cases "\<not> has_tag PIXEL_TAG_DONTCOPY ty \<and> data \<noteq> 0")
    case False
    then show ?thesis using s f by (auto simp: filter_args_def sent_data_def)
  next
    case True
    then have p: "uint siz < 2 ^ 31" "data < w_brk W1" "\<exists>bs. w_mem W1 data = Some bs \<and> unat siz \<le> length bs"
      using assms(2) f by (auto simp: send_pre_def)
    show ?thesis
    proof (cases "siz = 0")
      case siz: True
      have "filter_args c ty session data siz W = Some ((?s, 0, typed_size (ty AND 0xff) siz), W1)"
        using True s siz by (simp add: filter_args_def pixel_alloc_def read_block_def store_def)
      then show ?thesis using True f siz by (auto simp: sent_data_def)
    next
      case False
      from p obtain bs where bs: "w_mem W1 data = Some bs" "unat siz \<le> length bs" by blast
      from copy_block [OF p(1,2) bs False] obtain W2 where W2: "pixel_alloc 0 (sint (ucast siz :: u32)) W1 = Some (w_brk W1, W2)"
        "read_block data (unat siz) W2 = Some (take (unat siz) bs)"
        "store (w_brk W1) (take (unat siz) bs) W2 = Some (W1\<lparr>w_mem := (w_mem W1)(w_brk W1 \<mapsto> take (unat siz) bs), w_brk := w_brk W1 + 1\<rparr>)"
        by blast
      define W3 where "W3 = W1\<lparr>w_mem := (w_mem W1)(w_brk W1 \<mapsto> take (unat siz) bs), w_brk := w_brk W1 + 1\<rparr>"
      have "filter_args c ty session data siz W = Some ((?s, w_brk W1, typed_size (ty AND 0xff) siz), W3)"
        using True s W2 by (simp add: filter_args_def W3_def)
      moreover have "w_mem W3 = (w_mem W)(w_brk W \<mapsto> take (unat siz) bs)" "w_h W3 = w_h W" "w_q W3 = w_q W"
        "w_harbor W3 = w_harbor W" "map_option p_handle (w_ctx W3 c) = Some (p_handle ctx)" "ctx_key W3 = ctx_key W"
        "w_ctx W3 = sent_ctx ty c ctx W"
        using f by (simp_all add: W3_def ctx_key_def fun_eq_iff)
      ultimately show ?thesis using True False f bs(1) by (simp add: sent_data_def)
    qed
  qed
qed

definition sent_message :: "u32 \<Rightarrow> int \<Rightarrow> int \<Rightarrow> addr \<Rightarrow> u64 \<Rightarrow> pixel \<Rightarrow> world \<Rightarrow> message" where
  "sent_message source ty session data siz ctx W =
     \<lparr>msg_source = (if source = 0 then p_handle ctx else source), msg_session = sent_session ty session ctx,
      msg_data = fst (sent_data ty data siz W), msg_size = typed_size (ty AND 0xff) siz\<rparr>"

text \<open>\<open>pixel_send\<close> of a message that fits, to any handle but \<open>0\<close>, once its arguments are prepared.\<close>

lemma pixel_send_prepared:
  assumes "w_ctx W c = Some ctx" "send_pre ty data siz ctx W" "siz AND MSG_TYPE_MASK = siz" "dest \<noteq> 0"
    "harbor_isremote dest W = Some remote" "d = fst (sent_data ty data siz W)"
  shows "\<exists>W1. w_mem W1 = snd (sent_data ty data siz W) \<and> w_h W1 = w_h W \<and> w_q W1 = w_q W \<and> ctx_key W1 = ctx_key W \<and>
    w_ctx W1 = sent_ctx ty c ctx W \<and> pixel_send K c source dest ty session data siz W =
      do { (r, W) \<leftarrow> (if remote then harbor_send K (sent_message source ty session data siz ctx W) W1
                      else pixel_push K dest (sent_message source ty session data siz ctx W) W1);
           if r \<noteq> 0 then do { W \<leftarrow> free_data d W; Some (- 1, W) }
           else Some (sent_session ty session ctx, W) }"
proof -
  from filter_args_spec [OF assms(1,2), of session] obtain W1 where W1:
    "filter_args c ty session data siz W = Some ((sent_session ty session ctx, fst (sent_data ty data siz W), typed_size (ty AND 0xff) siz), W1)"
    "w_mem W1 = snd (sent_data ty data siz W)" "w_h W1 = w_h W" "w_q W1 = w_q W" "ctx_key W1 = ctx_key W"
    "w_harbor W1 = w_harbor W" "map_option p_handle (w_ctx W1 c) = Some (p_handle ctx)" "w_ctx W1 = sent_ctx ty c ctx W" by blast
  have r: "harbor_isremote dest W1 = Some remote" using assms(5) by (simp only: harbor_isremote_def W1(6))
  from W1(7) obtain ctx1 where "w_ctx W1 c = Some ctx1" "p_handle ctx1 = p_handle ctx" by auto
  then show ?thesis
    using assms(3,4) W1(1-5,8) r unfolding assms(6) by (intro exI [of _ W1]) (simp add: pixel_send_def sent_message_def)
qed


text \<open>What a service sends to another one that is there arrives behind what that one has already.\<close>

lemma send_serves:
  assumes "world_ok HD W" "serves W dest a qh ms" "harbor_isremote dest W = Some False" "w_ctx W c = Some ctx"
    "siz AND MSG_TYPE_MASK = siz" "send_pre ty data siz ctx W"
  shows "\<exists>W'. pixel_send K c source dest ty session data siz W = Some (sent_session ty session ctx, W') \<and> world_ok HD W' \<and>
    mbox (w_q W') = (mbox (w_q W))(a \<mapsto> (ms @ [sent_message source ty session data siz ctx W], 0, qh)) \<and>
    w_mem W' = snd (sent_data ty data siz W) \<and> registered (w_h W') = registered (w_h W) \<and> w_ctx W' = sent_ctx ty c ctx W"
proof -
  let ?m = "sent_message source ty session data siz ctx W"
  from pixel_send_prepared [OF assms(4,6,5) serves_hkey(3) [OF assms(1,2)] assms(3) refl, of K source session] obtain W1 where W1:
    "w_mem W1 = snd (sent_data ty data siz W)" "w_h W1 = w_h W" "w_q W1 = w_q W" "ctx_key W1 = ctx_key W" "w_ctx W1 = sent_ctx ty c ctx W"
    "pixel_send K c source dest ty session data siz W =
      do { (r, W') \<leftarrow> pixel_push K dest ?m W1;
           if r \<noteq> 0 then do { W' \<leftarrow> free_data (fst (sent_data ty data siz W)) W'; Some (- 1, W') }
           else Some (sent_session ty session ctx, W') }" by auto
  note fr = world_frame [of W1 W, unfolded W1(2-4), OF refl refl refl refl]
  from pixel_push_serves [OF fr(1) [THEN iffD2, OF assms(1)] fr(2) [THEN iffD2, OF assms(2)], of K ?m] obtain H Q where
    HQ: "pixel_push K dest ?m W1 = Some (0, W1\<lparr>w_h := H, w_q := Q\<rparr>)" "registered H = registered (w_h W)"
    "mbox Q = (mbox (w_q W))(a \<mapsto> (ms @ [?m], 0, qh))" "world_ok HD (W1\<lparr>w_h := H, w_q := Q\<rparr>)" using W1 by auto
  show ?thesis using HQ W1(1) by (intro exI [of _ "W1\<lparr>w_h := H, w_q := Q\<rparr>"]) (simp add: W1(5,6))
qed

text \<open>No block is leaked by a message that cannot be delivered: the copy is freed again, and a block that was handed over is freed.\<close>

lemma send_gone:
  assumes "world_ok HD W" "dest = 0 \<or> hkey dest \<noteq> 0 \<and> registered (w_h W) (hkey dest) = None \<and> harbor_isremote dest W = Some False"
    "w_ctx W c = Some ctx" "siz AND MSG_TYPE_MASK = siz" "send_pre ty data siz ctx W"
    "has_tag PIXEL_TAG_DONTCOPY ty \<longrightarrow> data = 0 \<or> w_mem W data \<noteq> None" "w_mem W (w_brk W) = None" "w_mem W 0 = None" "w_brk W \<noteq> 0"
  shows "\<exists>W'. pixel_send K c source dest ty session data siz W = Some (- 1, W') \<and> world_ok HD W' \<and> w_q W' = w_q W \<and> w_h W' = w_h W \<and>
    w_mem W' = (if has_tag PIXEL_TAG_DONTCOPY ty then (w_mem W)(data := None) else w_mem W)"
proof (cases "dest = 0")
  case True
  have "world_ok HD (W\<lparr>w_mem := x\<rparr>)" for x
    using world_frame(1) [of "W\<lparr>w_mem := x\<rparr>" W] assms(1) by (simp add: ctx_key_def fun_eq_iff)
  with True assms show ?thesis
    by (auto simp: pixel_send_def drop_uncopied_def free_data_def pixel_alloc_def fun_upd_idem)
next
  case False
  let ?m = "sent_message source ty session data siz ctx W" and ?d = "fst (sent_data ty data siz W)"
  from False assms(2) have gone: "hkey dest \<noteq> 0" "registered (w_h W) (hkey dest) = None" "harbor_isremote dest W = Some False" by auto
  from pixel_send_prepared [OF assms(3,5,4) False gone(3) refl, of K source session] obtain W1 where W1:
    "w_mem W1 = snd (sent_data ty data siz W)" "w_h W1 = w_h W" "w_q W1 = w_q W" "ctx_key W1 = ctx_key W" "w_ctx W1 = sent_ctx ty c ctx W"
    "pixel_send K c source dest ty session data siz W =
      do { (r, W') \<leftarrow> pixel_push K dest ?m W1;
           if r \<noteq> 0 then do { W' \<leftarrow> free_data ?d W'; Some (- 1, W') } else Some (sent_session ty session ctx, W') }" by auto
  have "pixel_push K dest ?m W1 = Some (- 1, W1)"
    using assms(1) gone W1(2) by (intro pixel_push_gone) (auto simp: world_ok_def)
  moreover have "free_data ?d W1 = Some (W1\<lparr>w_mem := (if has_tag PIXEL_TAG_DONTCOPY ty then (w_mem W)(data := None) else w_mem W)\<rparr>)"
    using assms(6-9) W1(1) by (auto simp: free_data_def pixel_alloc_def sent_data_def fun_upd_idem)
  moreover have "world_ok HD (W1\<lparr>w_mem := x\<rparr>)" for x
    using world_frame(1) [of "W1\<lparr>w_mem := x\<rparr>" W] assms(1) W1(2-4) by (simp add: ctx_key_def fun_eq_iff)
  ultimately show ?thesis using W1 by simp
qed

section \<open>Logging\<close>

text \<open>From one state to a later one, queues only grow at their ends.\<close>

definition grows :: "queue_global \<Rightarrow> queue_global \<Rightarrow> bool" where
  "grows Q Q' \<longleftrightarrow> (\<forall>a. case mbox Q a of None \<Rightarrow> mbox Q' a = None
     | Some (ms, rl, qh) \<Rightarrow> \<exists>ms'. mbox Q' a = Some (ms @ ms', rl, qh))"

lemma grows_refl [simp]: "grows Q Q"
  by (auto simp: grows_def split: option.splits)

lemma grows_push: "mbox Q a = Some (ms, rl, qh) \<Longrightarrow> mbox Q' = (mbox Q)(a \<mapsto> (ms @ ms', rl, qh)) \<Longrightarrow> grows Q Q'"
  by (auto simp: grows_def split: option.splits)

lemma growsD: "grows Q Q' \<Longrightarrow> mbox Q a = Some (ms, rl, qh) \<Longrightarrow> \<exists>ms'. mbox Q' a = Some (ms @ ms', rl, qh)"
  by (fastforce simp: grows_def split: option.splits)

text \<open>The log service is not set, or its context is there.\<close>

definition log_ok :: "world \<Rightarrow> bool" where
  "log_ok W \<longleftrightarrow> w_log W \<noteq> 0 \<longrightarrow> (\<exists>lg. w_ctx W (w_log W) = Some lg \<and> hkey (p_handle lg) \<noteq> 0)"

definition log_box :: "world \<Rightarrow> addr set" where
  "log_box W = {a. \<exists>lg qh ms. w_log W \<noteq> 0 \<and> w_ctx W (w_log W) = Some lg \<and> serves W (p_handle lg) a qh ms}"

text \<open>What a log line may change: the standard error, the queue of the log service, and memory that was free.\<close>

definition logged :: "addr set \<Rightarrow> world \<Rightarrow> world \<Rightarrow> bool" where
  "logged HD W W' \<longleftrightarrow> world_ok HD W' \<and> registered (w_h W') = registered (w_h W) \<and> w_ctx W' = w_ctx W \<and> w_m W' = w_m W \<and>
     w_total W' = w_total W \<and> w_log W' = w_log W \<and> grows (w_q W) (w_q W') \<and>
     (\<forall>a. a \<notin> log_box W \<longrightarrow> mbox (w_q W') a = mbox (w_q W) a) \<and>
     (\<forall>p<w_brk W. w_mem W' p = w_mem W p)"

lemma log_logged:
  assumes "world_ok HD W" "log_ok W" "ctx_handle c W = Some src"
  shows "\<exists>W'. log_with (release_depth K (Suc n)) c line W = Some W' \<and> logged HD W W'"
proof (cases "w_log W = 0")
  case True
  have "world_ok HD (W\<lparr>w_err := x\<rparr>)" for x
    using world_frame(1) [of "W\<lparr>w_err := x\<rparr>" W] assms(1) by (simp add: ctx_key_def fun_eq_iff)
  with True assms(3) show ?thesis by (auto simp: log_with_def logged_def)
next
  case False
  with assms(2) obtain lg where lg: "w_ctx W (w_log W) = Some lg" "hkey (p_handle lg) \<noteq> 0" by (auto simp: log_ok_def)
  let ?b = "w_brk W"
  define W1 where "W1 = W\<lparr>w_mem := (w_mem W)(?b \<mapsto> text_bytes line), w_brk := ?b + 1\<rparr>"
  define m where "m = \<lparr>msg_source = src, msg_session = 0, msg_data = ?b, msg_size = typed_size PIXEL_TEXT (of_nat (length line))\<rparr>"
  have sw: "W\<lparr>w_brk := x, w_mem := y\<rparr> = W\<lparr>w_mem := y, w_brk := x\<rparr>" for x y by (cases W) simp
  obtain W0 where al: "pixel_alloc 0 (int (length line) + 1) W = Some (?b, W0)" "store ?b (text_bytes line) W0 = Some W1"
    by (simp add: pixel_alloc_def store_def W1_def text_bytes_def sw nat_add_distrib)
  have log: "log_with rel c line W = (do { (r, W') \<leftarrow> push_with rel (p_handle lg) m W1;
      if r \<noteq> 0 then free_data ?b (W'\<lparr>w_err := w_err W' @ [(src, line)]\<rparr>) else Some W' })" for rel
    using False assms(3) lg(1) al W1_def by (simp add: log_with_def m_def)
  have key: "ctx_key W1 = ctx_key W" by (simp add: W1_def ctx_key_def fun_eq_iff)
  have f1: "w_h W1 = w_h W" "w_q W1 = w_q W" "w_ctx W1 = w_ctx W" "w_m W1 = w_m W" "w_total W1 = w_total W" "w_log W1 = w_log W"
    "\<forall>p<?b. w_mem W1 p = w_mem W p" "w_mem W1 ?b \<noteq> None" by (auto simp: W1_def)
  have ok: "world_ok HD W1" using world_frame(1) [of W1 W] f1 key assms(1) by simp
  show ?thesis
  proof (cases "registered (w_h W) (hkey (p_handle lg))")
    case None
    have "push_with (release_depth K (Suc n)) (p_handle lg) m W1 = Some (- 1, W1)"
      using assms(1) None lg(2) f1 by (intro push_gone) (auto simp: world_ok_def)
    moreover have "free_data ?b (W1\<lparr>w_err := x\<rparr>) = Some (W1\<lparr>w_err := x, w_mem := (w_mem W1)(?b := None)\<rparr>) \<or> ?b = 0" for x
      using f1(8) by (auto simp: free_data_def pixel_alloc_def)
    moreover have "free_data 0 (W1\<lparr>w_err := x\<rparr>) = Some (W1\<lparr>w_err := x\<rparr>)" for x by (simp add: free_data_def pixel_alloc_def)
    moreover have "world_ok HD (W1\<lparr>w_err := x, w_mem := y\<rparr>)" "world_ok HD (W1\<lparr>w_err := x\<rparr>)" for x y
      using world_frame(1) [of "W1\<lparr>w_err := x, w_mem := y\<rparr>" W1] world_frame(1) [of "W1\<lparr>w_err := x\<rparr>" W1] ok by (simp_all add: ctx_key_def fun_eq_iff)
    ultimately show ?thesis using f1 by (cases "?b = 0") (auto simp: log logged_def)
  next
    case (Some rc)
    then obtain r lc where r: "registered (w_h W) (hkey (p_handle lg)) = Some (r, lc)" by (cases rc) auto
    with assms(1) obtain a qh ms where a: "ctx_key W lc = Some (a, qh)" "mbox (w_q W) a = Some (ms, 0, qh)"
      unfolding world_ok_key by blast
    with r have sv: "serves W (p_handle lg) a qh ms" by (auto simp: serves_key)
    then have "serves W1 (p_handle lg) a qh ms" using world_frame(2) [of W1 W] f1 key by simp
    from push_serves [OF ok this, of K n m] f1 obtain H Q where HQ:
      "push_with (release_depth K (Suc n)) (p_handle lg) m W1 = Some (0, W1\<lparr>w_h := H, w_q := Q\<rparr>)" "registered H = registered (w_h W)"
      "mbox Q = (mbox (w_q W))(a \<mapsto> (ms @ [m], 0, qh))" "world_ok HD (W1\<lparr>w_h := H, w_q := Q\<rparr>)" by auto
    have "a \<in> log_box W" using sv lg False by (auto simp: log_box_def)
    moreover have "grows (w_q W) Q" using grows_push [OF a(2) HQ(3)] .
    ultimately have "logged HD W (W1\<lparr>w_h := H, w_q := Q\<rparr>)" using HQ f1 by (auto simp: logged_def)
    with HQ(1) show ?thesis by (simp add: log)
  qed
qed

section \<open>Freeing a service\<close>

lemma mark_free_mbox:
  assumes "run_inv (Q, HD) xs" "mbox Q a = Some (ms, 0, qh)"
  shows "\<exists>Q' ys. queue_mark_free a Q = Some Q' \<and> run_inv (Q', HD) ys \<and> mbox Q' = (mbox Q)(a \<mapsto> (ms, 1, qh)) \<and> a \<in> set ys \<union> HD"
proof -
  from mbox_SomeD [OF assms(2)] obtain q where q: "qheap Q a = Some q" "messages q = ms" "release q = 0" "q_handle q = qh" by blast
  let ?Q = "Q\<lparr>qheap := (qheap Q)(a \<mapsto> q\<lparr>release := 1\<rparr>)\<rparr>"
  have mb: "mbox ?Q = (mbox Q)(a \<mapsto> (ms, 1, qh))" using q by (simp add: mbox_update)
  have "\<exists>Q'. queue_mark_free a Q = Some Q' \<and> mbox Q' = mbox ?Q"
  proof (cases "global q = 0")
    case True
    have a: "a \<notin> set xs" "a \<noteq> 0" "runq Q xs" using assms(1) q True by (auto simp: run_inv_def queue_ok_def)
    have "runq ?Q xs" using a(3) q(1) by (intro runq_update [of Q]) auto
    from push_global_mbox [OF this, of a "q\<lparr>release := 1\<rparr>"] a True q show ?thesis by (auto simp: queue_mark_free_def Let_def)
  next
    case False
    with q show ?thesis by (simp add: queue_mark_free_def Let_def)
  qed
  then obtain Q' where Q': "queue_mark_free a Q = Some Q'" "mbox Q' = (mbox Q)(a \<mapsto> (ms, 1, qh))" using mb by auto
  from run_inv_mark [OF assms(1) Q'(1)] obtain ys where ys: "run_inv (Q', HD) ys" ..
  from Q'(2) mbox_SomeD [of Q' a ms 1 qh] obtain q' where "qheap Q' a = Some q'" "release q' = 1" by auto
  with ys have "a \<in> set ys \<union> HD" by (auto simp: run_inv_def queue_ok_def)
  with Q' ys show ?thesis by blast
qed

text \<open>
  The state in which the free function of a module is called on the instance of the service \<open>c\<close>, which has just lost its last
  reference in \<open>W\<close>, and what is asked of that function: the runtime stays well-formed, the handle and the context stay unused, the
  queue of the service stays as it is and the data of the messages in it stays allocated. It may send, log, start timers, start
  and end other services.
\<close>

definition freeing_pre :: "addr set \<Rightarrow> world \<Rightarrow> u32 \<Rightarrow> addr \<Rightarrow> pixel \<Rightarrow> message list \<Rightarrow> world \<Rightarrow> bool" where
  "freeing_pre HD W h c ctx ms V \<longleftrightarrow> world_ok HD V \<and> registered (w_h V) = (registered (w_h W))(hkey h := None) \<and> w_ctx V = w_ctx W \<and>
     w_m V = w_m W \<and> w_total V = w_total W \<and> mbox (w_q V) (p_queue ctx) = Some (ms, 1, p_handle ctx) \<and> (\<forall>p<w_brk W. w_mem V p = w_mem W p)"

definition freeing_post :: "addr set \<Rightarrow> u32 \<Rightarrow> addr \<Rightarrow> pixel \<Rightarrow> message list \<Rightarrow> world \<Rightarrow> bool" where
  "freeing_post HD h c ctx ms V \<longleftrightarrow> world_ok HD V \<and> registered (w_h V) (hkey h) = None \<and> (\<forall>h' r. registered (w_h V) h' \<noteq> Some (r, c)) \<and>
     mbox (w_q V) (p_queue ctx) = Some (ms, 1, p_handle ctx) \<and> (\<forall>m\<in>set ms. msg_data m \<noteq> 0 \<longrightarrow> w_mem V (msg_data m) \<noteq> None)"

definition freeing_ok :: "hooks \<Rightarrow> addr set \<Rightarrow> world \<Rightarrow> u32 \<Rightarrow> addr \<Rightarrow> pixel \<Rightarrow> message list \<Rightarrow> bool" where
  "freeing_ok K HD W h c ctx ms \<longleftrightarrow> (\<forall>V. freeing_pre HD W h c ctx ms V \<longrightarrow>
     (\<exists>V'. module_inst_free K (p_module ctx) (p_inst ctx) V = Some V' \<and> freeing_post HD h c ctx ms V'))"

lemma world_ok_drop_ctx:
  assumes "world_ok HD W" "\<forall>h r. registered (w_h W) h \<noteq> Some (r, c)"
  shows "world_ok HD (W\<lparr>w_ctx := (w_ctx W)(c := None)\<rparr>)"
proof -
  have "ctx_key (W\<lparr>w_ctx := (w_ctx W)(c := None)\<rparr>) c' = ctx_key W c'" if "registered (w_h W) h = Some (r, c')" for h r c'
    using assms(2) that by (auto simp: ctx_key_def)
  with assms(1) show ?thesis by (simp add: world_ok_key)
qed

lemma release_last:
  assumes "world_ok HD W" "log_ok W" "registered (w_h W) (hkey h) = Some (1, c)" "w_ctx W c = Some ctx"
    "mbox (w_q W) (p_queue ctx) = Some (ms, 0, p_handle ctx)" "freeing_ok K HD W h c ctx ms"
  shows "\<exists>V V'. freeing_pre HD W h c ctx ms V \<and> module_inst_free K (p_module ctx) (p_inst ctx) V = Some V' \<and> freeing_post HD h c ctx ms V' \<and>
    world_release K h W = Some (0, V'\<lparr>w_ctx := (w_ctx V')(c := None)\<rparr>) \<and> world_ok HD (V'\<lparr>w_ctx := (w_ctx V')(c := None)\<rparr>)"
proof -
  let ?a = "p_queue ctx" and ?k = "hkey h"
  have inv: "handle_inv (w_h W)" using assms(1) by (simp add: world_ok_def)
  note d = registered_SomeD(1,4) [OF inv assms(3)]
  from handle_release_spec [OF inv d(1)] assms(3) obtain H where H: "handle_release h (w_h W) = (0, [c], H)" "handle_inv H"
    "registered H = (registered (w_h W))(?k := None)" by auto
  let ?W = "W\<lparr>w_h := H\<rparr>"
  have own: "ctx_key W c' \<noteq> Some (?a, qh)" if "registered (w_h W) h' = Some (r, c')" "h' \<noteq> ?k" for h' r c' qh
  proof
    assume x: "ctx_key W c' = Some (?a, qh)"
    with assms(1) that(1) obtain ms' where "hkey qh = h'" "mbox (w_q W) ?a = Some (ms', 0, qh)" unfolding world_ok_key by fastforce
    moreover from assms(1,3,4) have "hkey (p_handle ctx) = ?k" by (fastforce simp: world_ok_def)
    ultimately show False using assms(5) that(2) by simp
  qed
  have key: "ctx_key ?W = ctx_key W" by (simp add: ctx_key_def fun_eq_iff)
  have ok: "world_ok HD ?W"
    using assms(1) H(2,3) unfolding world_ok_key key by (auto split: if_splits)
  have "log_ok ?W" "ctx_handle c ?W = Some (p_handle ctx)" using assms(2,4) d(2) by (simp_all add: log_ok_def ctx_handle_def)
  from log_logged [OF ok this, of K 0 "''EXIT\<newline>''"] obtain W1 where W1: "log_with (release_depth K 1) c ''EXIT\<newline>'' ?W = Some W1"
    "logged HD ?W W1" by auto
  have "?a \<notin> log_box ?W"
    using own H(3) by (auto simp: log_box_def serves_key key split: if_splits)
  with W1(2) assms(5) have m1: "mbox (w_q W1) ?a = Some (ms, 0, p_handle ctx)" by (simp add: logged_def)
  from W1(2) obtain xs where "run_inv (w_q W1, HD) xs" by (auto simp: logged_def world_ok_def)
  from mark_free_mbox [OF this m1] obtain Q ys where Q: "queue_mark_free ?a (w_q W1) = Some Q" "run_inv (Q, HD) ys"
    "mbox Q = (mbox (w_q W1))(?a \<mapsto> (ms, 1, p_handle ctx))" "?a \<in> set ys \<union> HD" by blast
  let ?V = "W1\<lparr>w_q := Q\<rparr>"
  have w1: "registered (w_h W1) = (registered (w_h W))(?k := None)" "w_ctx W1 = w_ctx W" "handle_inv (w_h W1)" "world_ok HD W1" "w_m W1 = w_m W"
    "w_total W1 = w_total W" "\<forall>p<w_brk W. w_mem W1 p = w_mem W p" using W1(2) H(3) by (auto simp: logged_def world_ok_def)
  have "\<exists>a qh ms. ctx_key ?V c' = Some (a, qh) \<and> hkey qh = h' \<and> mbox Q a = Some (ms, 0, qh)"
    if r: "registered (w_h W1) h' = Some (r, c')" for h' r c'
  proof -
    from w1(4) r obtain a qh ms' where x: "ctx_key W1 c' = Some (a, qh)" "hkey qh = h'" "mbox (w_q W1) a = Some (ms', 0, qh)"
      unfolding world_ok_key by blast
    from r w1(1) have r': "registered (w_h W) h' = Some (r, c')" "h' \<noteq> ?k" by (auto split: if_splits)
    have "ctx_key W c' = Some (a, qh)" using x(1) w1(2) by (simp add: ctx_key_def)
    then have "a \<noteq> ?a" using own [OF r'] by auto
    then show ?thesis using x Q(3) by (auto simp: ctx_key_def)
  qed
  then have "world_ok HD ?V" using w1(3) Q(2) by (auto simp: world_ok_key)
  then have pre: "freeing_pre HD W h c ctx ms ?V" using w1 Q(3) by (simp add: freeing_pre_def)
  with assms(6) obtain V' where V': "module_inst_free K (p_module ctx) (p_inst ctx) ?V = Some V'" "freeing_post HD h c ctx ms V'"
    by (auto simp: freeing_ok_def)
  have "free_with K (release_depth K 1) c ?W = Some (V'\<lparr>w_ctx := (w_ctx V')(c := None)\<rparr>)"
    using W1 d(2) assms(4) Q(1) V'(1) w1(2) by (simp add: free_with_def)
  then have rel: "world_release K h W = Some (0, V'\<lparr>w_ctx := (w_ctx V')(c := None)\<rparr>)"
    using H(1) by (simp add: world_release_Suc release_depth.simps)
  have "world_ok HD (V'\<lparr>w_ctx := (w_ctx V')(c := None)\<rparr>)" using V'(2) by (intro world_ok_drop_ctx) (auto simp: freeing_post_def)
  with rel pre V' show ?thesis by blast
qed

section \<open>The run queue\<close>

lemma world_ok_queue:
  assumes "world_ok HD W" "run_inv (Q, HD') ys"
    and keep: "\<And>b bs bh. mbox (w_q W) b = Some (bs, 0, bh) \<Longrightarrow> \<exists>bs'. mbox Q b = Some (bs', 0, bh)"
  shows "world_ok HD' (W\<lparr>w_q := Q\<rparr>)"
proof -
  have key: "ctx_key (W\<lparr>w_q := Q\<rparr>) = ctx_key W" by (simp add: ctx_key_def fun_eq_iff)
  have "\<exists>a qh ms. ctx_key W c = Some (a, qh) \<and> hkey qh = h \<and> mbox Q a = Some (ms, 0, qh)"
    if "registered (w_h W) h = Some (r, c)" for h r c
    using assms(1) that keep unfolding world_ok_key by metis
  then show ?thesis using assms(1,2) by (auto simp: world_ok_key key)
qed

lemma world_ok_runq:
  assumes "world_ok HD W" "run_inv (Q, HD') ys" "mbox Q = mbox (w_q W)"
  shows "world_ok HD' (W\<lparr>w_q := Q\<rparr>)"
  using world_ok_queue [OF assms(1,2)] assms(3) by simp

lemma pop_global_ok:
  assumes "world_ok HD W"
  shows "\<exists>n Q. pop_global W = Some (n, W\<lparr>w_q := Q\<rparr>) \<and> mbox Q = mbox (w_q W) \<and>
    world_ok (if n = 0 then HD else insert n HD) (W\<lparr>w_q := Q\<rparr>)"
proof -
  from assms obtain xs where xs: "run_inv (w_q W, HD) xs" by (auto simp: world_ok_def)
  from pop_global_mbox [OF xs] obtain n Q where n: "queue_pop_global (w_q W) = Some (n, Q)" "mbox Q = mbox (w_q W)"
    "case xs of [] \<Rightarrow> n = 0 \<and> Q = w_q W | x # ys \<Rightarrow> n = x \<and> n \<noteq> 0 \<and> run_inv (Q, insert n HD) ys" by blast
  have "\<exists>ys. run_inv (Q, if n = 0 then HD else insert n HD) ys" using n(3) xs by (cases xs) auto
  then obtain ys where "run_inv (Q, if n = 0 then HD else insert n HD) ys" ..
  from world_ok_runq [OF assms this n(2)] n show ?thesis by (auto simp: pop_global_def)
qed

lemma push_global_ok:
  assumes "world_ok HD W" "a \<in> HD"
  shows "\<exists>Q. queue_push_global a (w_q W) = Some Q \<and> mbox Q = mbox (w_q W) \<and> world_ok (HD - {a}) (W\<lparr>w_q := Q\<rparr>)"
proof -
  from assms obtain xs where xs: "run_inv (w_q W, HD) xs" by (auto simp: world_ok_def)
  then have "a \<in> dom (qheap (w_q W))" using assms(2) by (auto simp: run_inv_def)
  then obtain q where q: "qheap (w_q W) a = Some q" "a \<notin> set xs" "a \<noteq> 0" "runq (w_q W) xs"
    using xs assms(2) by (cases "a = 0") (auto simp: run_inv_def)
  from push_global_mbox [OF q(4,1-3)] obtain Q where Q: "queue_push_global a (w_q W) = Some Q" "mbox Q = mbox (w_q W)" by blast
  have "run_inv (Q, HD - {a}) (xs @ [a])"
    using xs q assms(2) Q(1) by (intro run_inv_push_global) (auto simp: run_inv_def insert_absorb)
  from world_ok_runq [OF assms(1) this Q(2)] Q show ?thesis by blast
qed

section \<open>Collecting a freed service\<close>

lemma drop_messages_frees:
  assumes "distinct (filter (\<lambda>d. d \<noteq> 0) (map msg_data ms))" "\<forall>m\<in>set ms. msg_data m \<noteq> 0 \<longrightarrow> w_mem W (msg_data m) \<noteq> None"
  shows "drop_messages ms W = Some (W\<lparr>w_mem := w_mem W |` (- {d. d \<noteq> 0 \<and> d \<in> msg_data ` set ms})\<rparr>)"
  using assms
proof (induction ms arbitrary: W)
  case Nil
  then show ?case by simp
next
  case (Cons m ms)
  let ?d = "msg_data m"
  let ?W = "if ?d = 0 then W else W\<lparr>w_mem := (w_mem W)(?d := None)\<rparr>"
  have nd: "\<forall>m'\<in>set ms. ?d \<noteq> 0 \<longrightarrow> msg_data m' \<noteq> ?d" using Cons.prems(1) by (fastforce simp: image_iff)
  have free: "free_data ?d W = Some ?W" using Cons.prems(2) by (auto simp: free_data_def pixel_alloc_def)
  have "\<forall>m'\<in>set ms. msg_data m' \<noteq> 0 \<longrightarrow> w_mem ?W (msg_data m') \<noteq> None" 
    using Cons.prems nd by (auto simp: image_iff)
  moreover have "distinct (filter (\<lambda>d. d \<noteq> 0) (map msg_data ms))" using Cons.prems(1) by (simp split: if_splits)
  ultimately have "drop_messages ms ?W = Some (?W\<lparr>w_mem := w_mem ?W |` (- {d. d \<noteq> 0 \<and> d \<in> msg_data ` set ms})\<rparr>)"
    by (rule Cons.IH [rotated])
  moreover have "w_mem ?W |` (- {d. d \<noteq> 0 \<and> d \<in> msg_data ` set ms}) = w_mem W |` (- {d. d \<noteq> 0 \<and> d \<in> msg_data ` set (m # ms)})"
    by (auto simp: fun_eq_iff restrict_map_def)
  ultimately show ?case using free by (simp split: if_splits)
qed

lemma collect_freed:
  assumes "world_ok HD W" "a \<in> HD" "mbox (w_q W) a = Some (ms, 1, qh)" "registered (w_h W) (hkey qh) = None" "hkey qh \<noteq> 0"
    "distinct (filter (\<lambda>d. d \<noteq> 0) (map msg_data ms))" "\<forall>m\<in>set ms. msg_data m \<noteq> 0 \<longrightarrow> w_mem W (msg_data m) \<noteq> None"
  shows "\<exists>n W'. pixel_dispatch K a mon W = Some (n, mon, W') \<and> mbox (w_q W') = (mbox (w_q W))(a := None) \<and>
    w_total W' = w_total W - 1 \<and> w_mem W' = w_mem W |` (- {d. d \<noteq> 0 \<and> d \<in> msg_data ` set ms}) \<and>
    world_ok (if n = 0 then HD - {a} else insert n (HD - {a})) W' \<and> w_ctx W' = w_ctx W \<and> w_h W' = w_h W"
proof -
  from assms(1) obtain xs where xs: "run_inv (w_q W, HD) xs" by (auto simp: world_ok_def)
  from mbox_SomeD [OF assms(3)] obtain q where q: "qheap (w_q W) a = Some q" "messages q = ms" "release q = 1" "q_handle q = qh" by blast
  have a: "a \<noteq> 0" "queue_inv q" using xs assms(2) q(1) by (auto simp: run_inv_def queue_ok_def)
  have grab: "world_grab qh W = (0, W)" using assms(1,4,5) by (intro grab_gone) (auto simp: world_ok_def)
  let ?Q = "(w_q W)\<lparr>qheap := (qheap (w_q W))(a := None)\<rparr>"
  have free: "queue_free a (w_q W) = Some (ms, ?Q)" using q a queue_drop_all [of q] by (auto simp: queue_free_def)
  from run_inv_free [OF xs assms(2) free] obtain ys where ys: "run_inv (?Q, HD - {a}) ys" ..
  have mb: "mbox ?Q = (mbox (w_q W))(a := None)" by (auto simp: mbox_def)
  define W1 where "W1 = W\<lparr>w_q := ?Q, w_mem := w_mem W |` (- {d. d \<noteq> 0 \<and> d \<in> msg_data ` set ms})\<rparr>"
  have fq: "free_queue a W = Some W1"
    using drop_messages_frees [of ms "W\<lparr>w_q := ?Q\<rparr>"] assms(6,7) free by (simp add: free_queue_def W1_def)
  let ?W2 = "W1\<lparr>w_total := w_total W1 - 1\<rparr>"
  have "world_ok (HD - {a}) (W\<lparr>w_q := ?Q\<rparr>)"
    using assms(3) mb by (intro world_ok_queue [OF assms(1) ys]) (auto split: if_splits)
  then have "world_ok (HD - {a}) ?W2"
    using world_frame(1) [of ?W2 "W\<lparr>w_q := ?Q\<rparr>"] by (simp add: W1_def ctx_key_def fun_eq_iff)
  from pop_global_ok [OF this] obtain n Q where n: "pop_global ?W2 = Some (n, ?W2\<lparr>w_q := Q\<rparr>)" "mbox Q = mbox (w_q ?W2)"
    "world_ok (if n = 0 then HD - {a} else insert n (HD - {a})) (?W2\<lparr>w_q := Q\<rparr>)" by blast
  have "pixel_dispatch K a mon W = Some (n, mon, ?W2\<lparr>w_q := Q\<rparr>)"
    using a(1) q grab fq n(1) by (simp add: pixel_dispatch_def)
  then show ?thesis using n(2,3) mb by (simp add: W1_def)
qed

section \<open>Dispatching\<close>

text \<open>What the callback of a service may assume, and what the runtime relies on.\<close>

definition callback_pre :: "addr set \<Rightarrow> world \<Rightarrow> addr \<Rightarrow> u32 \<Rightarrow> message list \<Rightarrow> int \<Rightarrow> addr \<Rightarrow> world \<Rightarrow> bool" where
  "callback_pre HD W a qh ms r c V \<longleftrightarrow> world_ok HD V \<and> registered (w_h V) = (registered (w_h W))(hkey qh \<mapsto> (r + 1, c)) \<and>
     w_ctx V = w_ctx W \<and> (\<exists>ms'. mbox (w_q V) a = Some (ms @ ms', 0, qh)) \<and> (\<forall>p<w_brk W. w_mem V p = w_mem W p)"

definition callback_post :: "addr set \<Rightarrow> u32 \<Rightarrow> addr \<Rightarrow> message \<Rightarrow> int \<Rightarrow> world \<Rightarrow> bool" where
  "callback_post HD qh c m res V \<longleftrightarrow> world_ok HD V \<and> (\<exists>r>1. registered (w_h V) (hkey qh) = Some (r, c)) \<and>
     (res = 0 \<longrightarrow> msg_data m = 0 \<or> w_mem V (msg_data m) \<noteq> None)"

definition call_cb :: "hooks \<Rightarrow> addr \<Rightarrow> pixel \<Rightarrow> message \<Rightarrow> world \<Rightarrow> (int \<times> world) option" where
  "call_cb K c ctx m = k_cb K (p_cb ctx) c (p_ud ctx) (uint (drop_bit MSG_TYPE_SHIFT (msg_size m))) (msg_session m)
     (msg_source m) (msg_data m) (msg_size m AND MSG_TYPE_MASK)"

definition after_cb :: "message \<Rightarrow> int \<Rightarrow> world \<Rightarrow> (addr \<rightharpoonup> bytes)" where
  "after_cb m res V = (if res = 0 \<and> msg_data m \<noteq> 0 then (w_mem V)(msg_data m := None) else w_mem V)"

lemma queue_pop_mbox:
  assumes "queue_inv q" "messages q = m # ms" "queue_pop q = Some (r, q')"
  shows "r = Some m" "messages q' = ms" "queue_inv q'" "release q' = release q" "q_handle q' = q_handle q" "q_next q' = q_next q" "global q' = global q"
proof -
  from mq.pop_first [OF assms(1,2)] assms(3) show x: "r = Some m" "messages q' = ms" "queue_inv q'" by auto
  from queue_pop_fields [OF assms(3)] x show "release q' = release q" "q_next q' = q_next q" "global q' = global q" by auto
  show "q_handle q' = q_handle q" using assms(3) by (auto simp: queue_pop_def Let_def bind_eq_Some_conv split: if_splits)
qed

lemma queue_overload_fields:
  "queue_overload q = (ov, q') \<Longrightarrow> messages q' = messages q \<and> queue_inv q' = queue_inv q \<and> release q' = release q \<and>
     q_handle q' = q_handle q \<and> q_next q' = q_next q \<and> global q' = global q"
  by (auto simp: queue_overload_def queue_inv_def split: if_splits)

lemma put_queue_ok:
  assumes "world_ok HD W" "qheap (w_q W) a = Some q" "a \<in> HD" "queue_ok True q'" "q_next q' = q_next q"
    "release q' = 0" "release q = 0" "q_handle q' = q_handle q"
  shows "world_ok HD (put_queue a q' W)" "mbox (w_q (put_queue a q' W)) = (mbox (w_q W))(a \<mapsto> (messages q', 0, q_handle q))"
proof -
  let ?Q = "(w_q W)\<lparr>qheap := (qheap (w_q W))(a \<mapsto> q')\<rparr>"
  show mb: "mbox (w_q (put_queue a q' W)) = (mbox (w_q W))(a \<mapsto> (messages q', 0, q_handle q))"
    using assms(6,8) by (simp add: put_queue_def mbox_update)
  from assms(1) obtain xs where xs: "run_inv (w_q W, HD) xs" by (auto simp: world_ok_def)
  have "run_inv (?Q, HD) xs" using run_inv_update [OF xs assms(2,5), of HD] assms(3,4) by simp
  then show "world_ok HD (put_queue a q' W)"
    unfolding put_queue_def using mb assms(2,7) by (intro world_ok_queue [OF assms(1)]) (auto simp: put_queue_def mbox_def split: if_splits)
qed

lemma run_message_calls:
  assumes "world_ok HD W" "log_ok W" "a \<in> HD" "mbox (w_q W) a = Some (ms, 0, qh)"
    "w_ctx W c = Some ctx" "c \<noteq> 0" "p_cb ctx \<noteq> 0" "registered (w_h W) (hkey qh) = Some (r + 1, c)"
    and cb: "\<And>V. callback_pre HD (W\<lparr>w_h := H0\<rparr>) a qh ms r c V \<Longrightarrow> \<exists>res V'. call_cb K c ctx m V = Some (res, V') \<and> callback_post HD qh c m res V' \<and> P res V'"
    and H0: "registered (w_h W) = (registered H0)(hkey qh \<mapsto> (r + 1, c))"
  shows "\<exists>res V. run_message K a c h m W = Some (V\<lparr>w_mem := after_cb m res V\<rparr>) \<and> callback_post HD qh c m res V \<and> P res V"
proof -
  from mbox_SomeD [OF assms(4)] obtain q where q: "qheap (w_q W) a = Some q" "messages q = ms" "release q = 0" "q_handle q = qh" by blast
  obtain ov q' where ov: "queue_overload q = (ov, q')" by fastforce
  note f = queue_overload_fields [OF ov]
  from assms(1) obtain xs where xs: "run_inv (w_q W, HD) xs" by (auto simp: world_ok_def)
  have "queue_ok True q" using run_inv_held(1) [OF xs assms(3) q(1)] .
  then have "queue_ok True q'" using f by (simp add: queue_ok_def)
  from put_queue_ok [OF assms(1) q(1) assms(3) this] f q
  have W1: "world_ok HD (put_queue a q' W)" "mbox (w_q (put_queue a q' W)) = mbox (w_q W)"
    using assms(4) by (auto simp: fun_eq_iff)
  let ?W1 = "put_queue a q' W"
  have f1: "w_ctx ?W1 = w_ctx W" "w_h ?W1 = w_h W" "w_log ?W1 = w_log W" "w_mem ?W1 = w_mem W" "w_brk ?W1 = w_brk W"
    by (simp_all add: put_queue_def)
  have "\<exists>V. (if ov \<noteq> 0 then pixel_log K c (''overload queue length = '' @ sdec ov @ ''\<newline>'') ?W1 else Some ?W1) = Some V \<and> logged HD ?W1 V"
  proof (cases "ov = 0")
    case True
    then show ?thesis using W1 by (simp add: logged_def)
  next
    case False
    have "log_ok ?W1" "ctx_handle c ?W1 = Some (p_handle ctx)" using assms(2,5,6) f1 by (simp_all add: log_ok_def ctx_handle_def)
    from log_logged [OF W1(1) this, of K 1] False show ?thesis by (simp add: pixel_log_def world_release_Suc)
  qed
  then obtain V where V: "(if ov \<noteq> 0 then pixel_log K c (''overload queue length = '' @ sdec ov @ ''\<newline>'') ?W1 else Some ?W1) = Some V" "logged HD ?W1 V" by blast
  have "callback_pre HD (W\<lparr>w_h := H0\<rparr>) a qh ms r c V"
    using V(2) f1 H0 growsD [of "w_q ?W1" "w_q V" a ms 0 qh] W1(2) assms(4) by (auto simp: callback_pre_def logged_def)
  from cb [OF this] obtain res V' where r: "call_cb K c ctx m V = Some (res, V')" "callback_post HD qh c m res V'" "P res V'" by blast
  have ctx: "w_ctx V c = Some ctx" using V(2) f1 assms(5) by (simp add: logged_def)
  have "dispatch_message K c m V = Some (V'\<lparr>w_mem := after_cb m res V'\<rparr>)"
    using r ctx by (auto simp: dispatch_message_def call_cb_def after_cb_def callback_post_def free_data_def pixel_alloc_def)
  then have "run_message K a c h m W = Some (V'\<lparr>w_mem := after_cb m res V'\<rparr>)"
    using q(1) ov V(1) ctx assms(7) by (simp add: run_message_def)
  with r show ?thesis by blast
qed

text \<open>The end of \<open>pixel_dispatch\<close>: the queue goes to the end of the run queue when another one waits.\<close>

definition next_queue :: "addr \<Rightarrow> addr list \<Rightarrow> addr" where
  "next_queue a xs = (if xs = [] then a else hd xs)"

definition rotated :: "addr \<Rightarrow> addr list \<Rightarrow> addr list" where
  "rotated a xs = (if xs = [] then [] else tl xs @ [a])"

lemma rotate_ok:
  assumes "world_ok HD W" "a \<in> HD" "run_inv (w_q W, HD) xs"
  shows "\<exists>n W1 Q. pop_global W = Some (n, W1) \<and>
    (if n \<noteq> 0 then do { Q \<leftarrow> queue_push_global a (w_q W1); Some (W1\<lparr>w_q := Q\<rparr>) } else Some W1) = Some (W\<lparr>w_q := Q\<rparr>) \<and>
    (if n \<noteq> 0 then n else a) = next_queue a xs \<and> mbox Q = mbox (w_q W) \<and>
    run_inv (Q, insert (next_queue a xs) (HD - {a})) (rotated a xs) \<and> world_ok (insert (next_queue a xs) (HD - {a})) (W\<lparr>w_q := Q\<rparr>)"
proof -
  from pop_global_mbox [OF assms(3)] obtain n Q where n: "queue_pop_global (w_q W) = Some (n, Q)" "mbox Q = mbox (w_q W)"
    "case xs of [] \<Rightarrow> n = 0 \<and> Q = w_q W | x # ys \<Rightarrow> n = x \<and> n \<noteq> 0 \<and> run_inv (Q, insert n HD) ys" by blast
  have pop: "pop_global W = Some (n, W\<lparr>w_q := Q\<rparr>)" using n(1) by (simp add: pop_global_def)
  show ?thesis
  proof (cases xs)
    case Nil
    then have "n = 0" "Q = w_q W" using n(3) by simp_all
    with Nil pop assms show ?thesis
      by (intro exI [of _ 0] exI [of _ W] exI [of _ "w_q W"]) (simp add: next_queue_def rotated_def insert_absorb)
  next
    case (Cons x ys)
    then have x: "n = x" "n \<noteq> 0" "run_inv (Q, insert n HD) ys" using n(3) by auto
    have "n \<notin> HD" using assms(3) Cons x(1) by (auto simp: run_inv_def)
    then have na: "n \<noteq> a" "insert n HD - {a} = insert n (HD - {a})" using assms(2) by auto
    have a: "a \<in> dom (qheap Q)" "a \<notin> set ys" "qheap Q 0 = None" "runq Q ys" using x(3) assms(2) by (auto simp: run_inv_def)
    then obtain q where q: "qheap Q a = Some q" "a \<noteq> 0" by (cases "a = 0") auto
    from push_global_mbox [OF a(4) q(1) a(2) q(2)] obtain Q' where Q': "queue_push_global a Q = Some Q'" "mbox Q' = mbox Q" by blast
    have r: "run_inv (Q', insert n HD - {a}) (ys @ [a])"
      using x(3) q a assms(2) Q'(1) by (intro run_inv_push_global) (auto simp: run_inv_def insert_absorb)
    have "world_ok (insert n (HD - {a})) (W\<lparr>w_q := Q'\<rparr>)"
      using world_ok_runq [OF assms(1) r] n(2) Q'(2) na(2) by simp
    with pop x Cons Q' n(2) r na show ?thesis by (auto simp: next_queue_def rotated_def)
  qed
qed

lemma callback_pre_cong:
  "w_h W' = w_h W \<Longrightarrow> w_ctx W' = w_ctx W \<Longrightarrow> w_brk W' = w_brk W \<Longrightarrow> w_mem W' = w_mem W \<Longrightarrow>
     callback_pre HD W' a qh ms r c V = callback_pre HD W a qh ms r c V"
  by (simp add: callback_pre_def)

lemma dispatch_calls:
  assumes "world_ok HD W" "log_ok W" "a \<in> HD" "mbox (w_q W) a = Some (m # ms, 0, qh)"
    "registered (w_h W) (hkey qh) = Some (r, c)" "w_ctx W c = Some ctx" "p_cb ctx \<noteq> 0"
    and cb: "\<And>V. callback_pre HD W a qh ms r c V \<Longrightarrow> \<exists>res V'. call_cb K c ctx m V = Some (res, V') \<and> callback_post HD qh c m res V' \<and> P res V'"
  shows "\<exists>res V n W'. P res V \<and> callback_post HD qh c m res V \<and>
    pixel_dispatch K a mon W = Some (n, monitor_trigger 0 0 (monitor_trigger (msg_source m) qh mon), W') \<and>
    (\<exists>xs. run_inv (w_q V, HD) xs \<and> n = next_queue a xs \<and> run_inv (w_q W', insert n (HD - {a})) (rotated a xs)) \<and>
    world_ok (insert n (HD - {a})) W' \<and> mbox (w_q W') = mbox (w_q V) \<and> w_mem W' = after_cb m res V \<and> w_ctx W' = w_ctx V \<and>
    (\<exists>r2>1. registered (w_h V) (hkey qh) = Some (r2, c) \<and> registered (w_h W') = (registered (w_h V))(hkey qh \<mapsto> (r2 - 1, c)))"
proof -
  have inv: "handle_inv (w_h W)" using assms(1) by (simp add: world_ok_def)
  note d = registered_SomeD(1,3,4) [OF inv assms(5)]
  from grab_registered [OF inv assms(5)] obtain H where H: "world_grab qh W = (c, W\<lparr>w_h := H\<rparr>)" "handle_inv H"
    "registered H = (registered (w_h W))(hkey qh \<mapsto> (r + 1, c))" by blast
  from mbox_SomeD [OF assms(4)] obtain q where q: "qheap (w_q W) a = Some q" "messages q = m # ms" "release q = 0" "q_handle q = qh" by blast
  from assms(1) obtain xs where xs: "run_inv (w_q W, HD) xs" by (auto simp: world_ok_def)
  have ok: "queue_ok True q" "a \<noteq> 0" using run_inv_held(1) [OF xs assms(3) q(1)] xs q(1) by (auto simp: run_inv_def)
  then have qi: "queue_inv q" by (simp add: queue_ok_def)
  from mq.pop_first [OF qi q(2)] obtain q' where pop: "queue_pop q = Some (Some m, q')" by blast
  note p = queue_pop_mbox [OF qi q(2) pop]
  let ?W0 = "W\<lparr>w_h := H\<rparr>"
  have key: "ctx_key ?W0 = ctx_key W" by (simp add: ctx_key_def fun_eq_iff)
  have ok0: "world_ok HD ?W0" using assms(1,5) H(2,3) unfolding world_ok_key key by (auto split: if_splits)
  let ?W1 = "put_queue a q' ?W0"
  have "queue_ok True q'" using ok(1) p by (simp add: queue_ok_def)
  from put_queue_ok [OF ok0 _ assms(3) this p(6)] p q have W1: "world_ok HD ?W1" "mbox (w_q ?W1) a = Some (ms, 0, qh)" by auto
  have f1: "w_ctx ?W1 = w_ctx W" "w_h ?W1 = H" "w_log ?W1 = w_log W" "w_mem ?W1 = w_mem W" "w_brk ?W1 = w_brk W"
    by (simp_all add: put_queue_def)
  have cong: "callback_pre HD (?W1\<lparr>w_h := w_h W\<rparr>) a qh ms r c V = callback_pre HD W a qh ms r c V" for V
    by (rule callback_pre_cong) (simp_all add: put_queue_def)
  have "log_ok ?W1" using assms(2) f1 by (simp add: log_ok_def)
  from run_message_calls [OF W1(1) this assms(3) W1(2), of c ctx r "w_h W" K m P qh] cb
  obtain res V where V: "run_message K a c qh m ?W1 = Some (V\<lparr>w_mem := after_cb m res V\<rparr>)" "callback_post HD qh c m res V" "P res V"
    unfolding cong f1 using assms(6,7) d(3) H(3) by auto
  let ?V = "V\<lparr>w_mem := after_cb m res V\<rparr>"
  have okV: "world_ok HD ?V"
    using world_frame(1) [of ?V V] V(2) by (simp add: ctx_key_def fun_eq_iff callback_post_def)
  from okV obtain ys where ys: "run_inv (w_q ?V, HD) ys" by (auto simp: world_ok_def)
  let ?n = "next_queue a ys"
  from rotate_ok [OF okV assms(3) ys] obtain n V1 Q where n: "pop_global ?V = Some (n, V1)"
    "(if n \<noteq> 0 then do { Q \<leftarrow> queue_push_global a (w_q V1); Some (V1\<lparr>w_q := Q\<rparr>) } else Some V1) = Some (?V\<lparr>w_q := Q\<rparr>)"
    "mbox Q = mbox (w_q V)" "world_ok (insert ?n (HD - {a})) (?V\<lparr>w_q := Q\<rparr>)" "(if n \<noteq> 0 then n else a) = ?n"
    "run_inv (Q, insert ?n (HD - {a})) (rotated a ys)" by auto
  from V(2) obtain r2 where r2: "1 < r2" "registered (w_h V) (hkey qh) = Some (r2, c)" by (auto simp: callback_post_def)
  have "handle_inv (w_h V)" using V(2) by (simp add: callback_post_def world_ok_def)
  with release_kept [of "?V\<lparr>w_q := Q\<rparr>" qh r2 c K 1] r2 obtain H2 where H2:
    "world_release K qh (?V\<lparr>w_q := Q\<rparr>) = Some (c, ?V\<lparr>w_q := Q, w_h := H2\<rparr>)" "handle_inv H2"
    "registered H2 = (registered (w_h V))(hkey qh \<mapsto> (r2 - 1, c))" by (auto simp: world_release_Suc)
  let ?W' = "?V\<lparr>w_q := Q, w_h := H2\<rparr>"
  have key2: "ctx_key ?W' = ctx_key (?V\<lparr>w_q := Q\<rparr>)" by (simp add: ctx_key_def fun_eq_iff)
  have ok': "world_ok (insert ?n (HD - {a})) ?W'" using n(4) r2 H2(2,3) unfolding world_ok_key key2 by (auto split: if_splits)
  have "pixel_dispatch K a mon W = Some (?n, monitor_trigger 0 0 (monitor_trigger (msg_source m) qh mon), ?W')"
    using ok(2) q(1,4) H(1) d(3) pop V(1) n(1,2) H2(1) unfolding n(5) [symmetric] by (simp add: pixel_dispatch_def Let_def)
  moreover have "\<exists>xs. run_inv (w_q V, HD) xs \<and> ?n = next_queue a xs \<and> run_inv (w_q ?W', insert ?n (HD - {a})) (rotated a xs)"
    using ys n(6) by (intro exI [of _ ys]) simp
  moreover have "\<exists>r2>1. registered (w_h V) (hkey qh) = Some (r2, c) \<and> registered (w_h ?W') = (registered (w_h V))(hkey qh \<mapsto> (r2 - 1, c))"
    using r2 H2(3) by auto
  ultimately show ?thesis using V ok' n(3) by (intro exI [of _ res] exI [of _ V] exI [of _ ?n] exI [of _ ?W']) simp
qed

section \<open>Timers\<close>

definition response :: "int \<Rightarrow> message" where
  "response session = \<lparr>msg_source = 0, msg_session = session, msg_data = 0, msg_size = typed_size PIXEL_RESPONSE 0\<rparr>"

lemma grows_trans: "grows Q Q1 \<Longrightarrow> grows Q1 Q2 \<Longrightarrow> grows Q Q2"
  unfolding grows_def
proof
  fix a
  assume g: "\<forall>a. case mbox Q a of None \<Rightarrow> mbox Q1 a = None | Some (ms, rl, qh) \<Rightarrow> \<exists>ms'. mbox Q1 a = Some (ms @ ms', rl, qh)"
    "\<forall>a. case mbox Q1 a of None \<Rightarrow> mbox Q2 a = None | Some (ms, rl, qh) \<Rightarrow> \<exists>ms'. mbox Q2 a = Some (ms @ ms', rl, qh)"
  from g(1) [rule_format, of a] g(2) [rule_format, of a]
  show "case mbox Q a of None \<Rightarrow> mbox Q2 a = None | Some (ms, rl, qh) \<Rightarrow> \<exists>ms'. mbox Q2 a = Some (ms @ ms', rl, qh)"
    by (cases "mbox Q a") auto
qed

text \<open>What an event does that only sends: the registry, the contexts and the timer stay, and queues grow.\<close>

definition sends_only :: "addr set \<Rightarrow> world \<Rightarrow> world \<Rightarrow> bool" where
  "sends_only HD W W' \<longleftrightarrow> world_ok HD W' \<and> registered (w_h W') = registered (w_h W) \<and> w_ctx W' = w_ctx W \<and> w_t W' = w_t W \<and>
     grows (w_q W) (w_q W')"

lemma serves_sends_only:
  assumes "sends_only HD W W'" "serves W h a qh ms"
  shows "\<exists>ms'. serves W' h a qh (ms @ ms')"
  using assms growsD [of "w_q W" "w_q W'" a ms 0 qh] by (auto simp: serves_def sends_only_def)

lemma timer_dispatch_sends:
  assumes "world_ok HD W" "hkey (te_handle ev) \<noteq> 0"
  shows "\<exists>W'. pixel_timer_dispatch K ev W = Some W' \<and> sends_only HD W W' \<and>
    (\<forall>a qh ms. serves W (te_handle ev) a qh ms \<longrightarrow> serves W' (te_handle ev) a qh (ms @ [response (te_session ev)]))"
proof (cases "registered (w_h W) (hkey (te_handle ev))")
  case None
  have "pixel_push K (te_handle ev) (response (te_session ev)) W = Some (- 1, W)"
    using assms None by (intro pixel_push_gone) (auto simp: world_ok_def)
  then have "pixel_timer_dispatch K ev W = Some W" by (simp add: pixel_timer_dispatch_def response_def)
  moreover have "\<not> serves W (te_handle ev) a qh ms" for a qh ms using None by (simp add: serves_def)
  ultimately show ?thesis using assms(1) by (simp add: sends_only_def)
next
  case (Some rc)
  then obtain r c where r: "registered (w_h W) (hkey (te_handle ev)) = Some (r, c)" by (cases rc) auto
  with assms(1) obtain a qh ms where a: "ctx_key W c = Some (a, qh)" "mbox (w_q W) a = Some (ms, 0, qh)" unfolding world_ok_key by blast
  with r have sv: "serves W (te_handle ev) a qh ms" by (auto simp: serves_key)
  have uniq: "a' = a \<and> qh' = qh \<and> ms' = ms" if "serves W (te_handle ev) a' qh' ms'" for a' qh' ms'
    using that r a by (auto simp: serves_key)
  from pixel_push_serves [OF assms(1) sv, of K "response (te_session ev)"] obtain H Q where HQ:
    "pixel_push K (te_handle ev) (response (te_session ev)) W = Some (0, W\<lparr>w_h := H, w_q := Q\<rparr>)" "registered H = registered (w_h W)"
    "mbox Q = (mbox (w_q W))(a \<mapsto> (ms @ [response (te_session ev)], 0, qh))" "world_ok HD (W\<lparr>w_h := H, w_q := Q\<rparr>)" by blast
  let ?W = "W\<lparr>w_h := H, w_q := Q\<rparr>"
  have "pixel_timer_dispatch K ev W = Some ?W" using HQ(1) by (simp add: pixel_timer_dispatch_def response_def)
  moreover have "sends_only HD W ?W" using HQ grows_push [OF a(2) HQ(3)] by (simp add: sends_only_def)
  moreover have "ctx_key ?W = ctx_key W" by (simp add: ctx_key_def fun_eq_iff)
  then have "serves ?W (te_handle ev) a qh (ms @ [response (te_session ev)])" using r a HQ(2,3) by (auto simp: serves_key)
  ultimately show ?thesis using uniq by blast
qed

lemma sends_only_trans: "sends_only HD W W1 \<Longrightarrow> sends_only HD W1 W2 \<Longrightarrow> sends_only HD W W2"
  by (auto simp: sends_only_def intro: grows_trans)

lemma dispatch_events_sends:
  assumes "world_ok HD W" "\<forall>ev\<in>set evs. hkey (te_handle ev) \<noteq> 0"
  shows "\<exists>W'. dispatch_events K evs W = Some W' \<and> sends_only HD W W' \<and>
    (\<forall>ev\<in>set evs. \<forall>a qh ms. serves W (te_handle ev) a qh ms \<longrightarrow>
       (\<exists>ms'. serves W' (te_handle ev) a qh (ms @ ms') \<and> response (te_session ev) \<in> set ms'))"
  using assms
proof (induction evs arbitrary: W)
  case Nil
  then show ?case by (simp add: sends_only_def)
next
  case (Cons e evs)
  from timer_dispatch_sends [OF Cons.prems(1), of e K] Cons.prems(2) obtain W1 where W1: "pixel_timer_dispatch K e W = Some W1"
    "sends_only HD W W1" "\<And>a qh ms. serves W (te_handle e) a qh ms \<Longrightarrow> serves W1 (te_handle e) a qh (ms @ [response (te_session e)])" by auto
  have "world_ok HD W1" using W1(2) by (simp add: sends_only_def)
  from Cons.IH [OF this] Cons.prems(2) obtain W2 where W2: "dispatch_events K evs W1 = Some W2" "sends_only HD W1 W2"
    "\<And>ev a qh ms. ev \<in> set evs \<Longrightarrow> serves W1 (te_handle ev) a qh ms \<Longrightarrow>
       \<exists>ms'. serves W2 (te_handle ev) a qh (ms @ ms') \<and> response (te_session ev) \<in> set ms'" by auto
  have "\<exists>ms'. serves W2 (te_handle ev) a qh (ms @ ms') \<and> response (te_session ev) \<in> set ms'"
    if ev: "ev \<in> set (e # evs)" "serves W (te_handle ev) a qh ms" for ev a qh ms
  proof (cases "ev = e")
    case True
    with W1(3) ev(2) have "serves W1 (te_handle ev) a qh (ms @ [response (te_session ev)])" by simp
    from serves_sends_only [OF W2(2) this] obtain ms' where "serves W2 (te_handle ev) a qh (ms @ response (te_session ev) # ms')" by auto
    then show ?thesis by (intro exI [of _ "response (te_session ev) # ms'"]) simp
  next
    case False
    from serves_sends_only [OF W1(2) ev(2)] obtain m1 where "serves W1 (te_handle ev) a qh (ms @ m1)" by blast
    from W2(3) [OF _ this] False ev(1) obtain m2 where "serves W2 (te_handle ev) a qh ((ms @ m1) @ m2)" "response (te_session ev) \<in> set m2" by auto
    then show ?thesis by (intro exI [of _ "m1 @ m2"]) simp
  qed
  with W1(1) W2(1) sends_only_trans [OF W1(2) W2(2)] show ?case by auto
qed

text \<open>Every pending event names a handle that is not null in its low bits.\<close>

definition events_ok :: "timer_event timer \<Rightarrow> bool" where
  "events_ok T \<longleftrightarrow> wheel_inv T \<and> (\<forall>n\<in>#pending T. hkey (te_handle (payload n)) \<noteq> 0)"

lemma world_tick_sends:
  assumes "world_ok HD W" "events_ok (w_t W)" "n \<in># pending (w_t W)"
  shows "\<exists>W'. world_tick K W = Some W' \<and> world_ok HD W' \<and> events_ok (w_t W') \<and>
    (\<forall>h a qh ms. serves W h a qh ms \<longrightarrow> (\<exists>ms'. serves W' h a qh (ms @ ms'))) \<and>
    (if unat (expire n - time (w_t W)) \<le> 1
     then \<forall>a qh ms. serves W (te_handle (payload n)) a qh ms \<longrightarrow>
       (\<exists>ms'. serves W' (te_handle (payload n)) a qh (ms @ ms') \<and> response (te_session (payload n)) \<in> set ms')
     else n \<in># pending (w_t W') \<and> unat (expire n - time (w_t W')) = unat (expire n - time (w_t W)) - 1)"
proof -
  have T: "wheel_inv (w_t W)" "valid_batches ([] :: (int \<times> timer_event) list list)" using assms(2) by (simp_all add: events_ok_def valid_batches_def)
  from tick_node [OF T assms(3)] obtain ds T' bs' where t: "timer_tick [] (w_t W) = Some (ds, T', bs')" "wheel_inv T'"
    "unat (expire n - time (w_t W)) \<le> 1 \<Longrightarrow> n \<in> set ds"
    "2 \<le> unat (expire n - time (w_t W)) \<Longrightarrow> n \<notin> set ds \<and> n \<in># pending T' \<and> unat (expire n - time T') = unat (expire n - time (w_t W)) - 1" by blast
  from timer_tick_spec [OF T] t(1) have p: "pending (w_t W) = mset ds + pending T'" by auto
  have ev: "\<forall>e\<in>set (map payload ds). hkey (te_handle e) \<noteq> 0" and T': "events_ok T'"
    using assms(2) t(2) unfolding events_ok_def p by auto
  let ?W = "W\<lparr>w_t := T'\<rparr>"
  have fr: "world_ok HD ?W = world_ok HD W" "serves ?W h a qh ms = serves W h a qh ms" for h a qh ms
    using world_frame [of ?W W] by (simp_all add: ctx_key_def fun_eq_iff)
  from dispatch_events_sends [of HD ?W "map payload ds" K] fr(1) assms(1) ev obtain W' where W':
    "dispatch_events K (map payload ds) ?W = Some W'" "sends_only HD ?W W'"
    "\<forall>e\<in>set (map payload ds). \<forall>a qh ms. serves W (te_handle e) a qh ms \<longrightarrow>
       (\<exists>ms'. serves W' (te_handle e) a qh (ms @ ms') \<and> response (te_session e) \<in> set ms')" unfolding fr by blast
  have "world_tick K W = Some W'" using t(1) W'(1) by (simp add: world_tick_def)
  moreover have "world_ok HD W'" "w_t W' = T'" using W'(2) by (simp_all add: sends_only_def)
  moreover have "\<exists>ms'. serves W' h a qh (ms @ ms')" if "serves W h a qh ms" for h a qh ms
    using serves_sends_only [OF W'(2), of h a qh ms] that fr by simp
  ultimately show ?thesis using t(3,4) T' W'(3) by (cases "unat (expire n - time (w_t W)) \<le> 1") auto
qed

lemma world_ticks_sends:
  assumes "world_ok HD W" "events_ok (w_t W)" "n \<in># pending (w_t W)" "k = max 1 (unat (expire n - time (w_t W)))"
    "serves W (te_handle (payload n)) a qh ms"
  shows "\<exists>W' ms'. world_ticks K k W = Some W' \<and> world_ok HD W' \<and>
    serves W' (te_handle (payload n)) a qh (ms @ ms') \<and> response (te_session (payload n)) \<in> set ms'"
  using assms
proof (induction k arbitrary: W ms)
  case (Suc k)
  from world_tick_sends [OF Suc.prems(1-3), of K] obtain W1 where W1: "world_tick K W = Some W1" "world_ok HD W1" "events_ok (w_t W1)"
    "\<And>h a qh ms. serves W h a qh ms \<Longrightarrow> \<exists>ms'. serves W1 h a qh (ms @ ms')"
    "if unat (expire n - time (w_t W)) \<le> 1
     then \<forall>a qh ms. serves W (te_handle (payload n)) a qh ms \<longrightarrow>
       (\<exists>ms'. serves W1 (te_handle (payload n)) a qh (ms @ ms') \<and> response (te_session (payload n)) \<in> set ms')
     else n \<in># pending (w_t W1) \<and> unat (expire n - time (w_t W1)) = unat (expire n - time (w_t W)) - 1" by blast
  show ?case
  proof (cases "unat (expire n - time (w_t W)) \<le> 1")
    case True
    then have "k = 0" using Suc.prems(4) by simp
    with True W1 Suc.prems(5) show ?thesis by auto
  next
    case False
    then have n: "n \<in># pending (w_t W1)" "k = max 1 (unat (expire n - time (w_t W1)))" using W1(5) Suc.prems(4) by auto
    from W1(4) [OF Suc.prems(5)] obtain m1 where "serves W1 (te_handle (payload n)) a qh (ms @ m1)" ..
    from Suc.IH [OF W1(2,3) n this] obtain W' m2 where "world_ticks K k W1 = Some W'" "world_ok HD W'"
      "serves W' (te_handle (payload n)) a qh ((ms @ m1) @ m2)" "response (te_session (payload n)) \<in> set m2" by blast
    with W1(1) show ?thesis by (intro exI [of _ W'] exI [of _ "m1 @ m2"]) simp
  qed
qed simp

end
