(* ===== verification/Runtime.thy ===== *)
theory Runtime
  imports Pixel_Inv
begin

text \<open>
  What the runtime promises its services: delivery and refusal of messages, the dispatch of a message to its callback, the end of a
  service, timeouts, names. Each property composes the queues, the registry and the timer.
\<close>

section \<open>Creating a service\<close>

lemma ctx_create_ok:
  assumes "world_ok HD W" "handle_regist (w_brk W) (w_h W) = Some (h, H)" "handle_inv H" "hkey h \<noteq> 0"
    "registered (w_h W) (hkey h) = None" "registered H = (registered (w_h W))(hkey h \<mapsto> (1, w_brk W))"
    "w_ctx W (w_brk W) = None" "qheap (w_q W) (w_brk W + 1) = None" "w_brk W \<noteq> 0"
  shows "\<exists>W'. ctx_create i inst W = Some (w_brk W, W') \<and> world_ok (insert (w_brk W + 1) HD) W' \<and>
    registered (w_h W') = (registered (w_h W))(hkey h \<mapsto> (2, w_brk W)) \<and>
    w_ctx W' = (w_ctx W)(w_brk W \<mapsto> \<lparr>p_queue = w_brk W + 1, p_module = i, p_inst = inst, p_handle = h, p_session = 0,
      p_cb = 0, p_ud = 0, p_endless = False, p_logfile = 0\<rparr>) \<and>
    mbox (w_q W') = (mbox (w_q W))(w_brk W + 1 \<mapsto> ([], 0, h)) \<and> w_total W' = w_total W + 1"
proof -
  let ?c = "w_brk W" and ?a = "w_brk W + 1"
  let ?ctx = "\<lparr>p_queue = ?a, p_module = i, p_inst = inst, p_handle = h, p_session = 0, p_cb = 0, p_ud = 0, p_endless = False, p_logfile = 0\<rparr>"
  let ?Q = "(w_q W)\<lparr>qheap := (qheap (w_q W))(?a \<mapsto> queue_new h)\<rparr>"
  define W1 where "W1 = W\<lparr>w_brk := ?c + 2, w_ctx := (w_ctx W)(?c \<mapsto> ?ctx), w_h := H, w_q := ?Q, w_total := w_total W + 1\<rparr>"
  from assms(1) obtain xs where xs: "run_inv (w_q W, HD) xs" by (auto simp: world_ok_def)
  have rq: "run_inv (?Q, insert ?a HD) xs" using run_inv_create [OF xs assms(8)] by simp
  have mb: "mbox ?Q = (mbox (w_q W))(?a \<mapsto> ([], 0, h))" by (simp add: mbox_update) (simp add: queue_new_def)
  have f: "w_h W1 = H" "w_q W1 = ?Q" "w_ctx W1 = (w_ctx W)(?c \<mapsto> ?ctx)" by (simp_all add: W1_def)
  have reg: "registered H (hkey h) = Some (1, ?c)" using assms(6) by simp
  from grab_registered [of W1 h 1 ?c] f reg assms(3) obtain H2 where H2: "world_grab h W1 = (?c, W1\<lparr>w_h := H2\<rparr>)" "handle_inv H2"
    "registered H2 = (registered (w_h W))(hkey h \<mapsto> (2, ?c))" using assms(6) by auto
  have "\<exists>a qh ms. ctx_key (W1\<lparr>w_h := H2\<rparr>) c = Some (a, qh) \<and> hkey qh = k \<and> mbox ?Q a = Some (ms, 0, qh)"
    if r: "registered H2 k = Some (r, c)" for k r c
  proof (cases "k = hkey h")
    case True
    then have "c = ?c" using r H2(3) by simp
    then show ?thesis using True mb f by (simp add: ctx_key_def)
  next
    case False
    then have r': "registered (w_h W) k = Some (r, c)" using r H2(3) by simp
    with assms(1) obtain a qh ms where x: "ctx_key W c = Some (a, qh)" "hkey qh = k" "mbox (w_q W) a = Some (ms, 0, qh)"
      unfolding world_ok_key by blast
    then have "c \<noteq> ?c" "a \<noteq> ?a" using assms(7,8) by (auto simp: ctx_key_def mbox_def)
    then show ?thesis using x mb f by (auto simp: ctx_key_def)
  qed
  then have "world_ok (insert ?a HD) (W1\<lparr>w_h := H2\<rparr>)" using H2(2) rq f by (auto simp: world_ok_key)
  moreover have "ctx_create i inst W = Some (?c, W1\<lparr>w_h := H2\<rparr>)"
    using assms(2) H2(1) by (simp add: ctx_create_def W1_def Let_def)
  ultimately show ?thesis using H2(3) mb f by (intro exI [of _ "W1\<lparr>w_h := H2\<rparr>"]) (simp add: W1_def)
qed

section \<open>A small runtime\<close>

text \<open>One service at address 20 with handle \<open>0x1000001\<close>, a callback and an empty queue at 21, which a worker has in hand, and a block of three bytes.\<close>

definition sample_ctx :: pixel where
  "sample_ctx = \<lparr>p_queue = 21, p_module = 0, p_inst = 1, p_handle = 0x1000001, p_session = 0, p_cb = 5, p_ud = 6,
     p_endless = False, p_logfile = 0\<rparr>"

definition sample_handles :: handle_global where
  "sample_handles = (handle_init 1)\<lparr>last_id := 1, h_n := 1,
     h_slot := (replicate 16 zero_slot)[1 := \<lparr>sl_handle = 1, sl_ref = 1, sl_ctx = 20\<rparr>]\<rparr>"

definition sample_world :: world where
  "sample_world = \<lparr>w_ctx = [20 \<mapsto> sample_ctx], w_q = \<lparr>qheap = [21 \<mapsto> queue_new 0x1000001], Qhead = 0, Qtail = 0\<rparr>,
     w_h = sample_handles, w_m = module_init [], w_t = empty_timer, w_total = 1, w_log = 0, w_hctx = 0, w_harbor = 0x1000000,
     w_mem = [10 \<mapsto> [1, 2, 3]], w_brk = 30, w_env = Map.empty, w_err = []\<rparr>"

definition sample_hooks :: hooks where
  "sample_hooks = \<lparr>k_dlopen = (\<lambda>f. 0), k_dlsym = (\<lambda>dl s. 0), k_new = (\<lambda>f W. Some (1, W)), k_init = (\<lambda>f inst c param W. Some (0, W)),
     k_free = (\<lambda>f inst W. Some W), k_signal = (\<lambda>f inst sig W. Some W),
     k_cb = (\<lambda>f c ud ty session source data siz W. Some (0, W)), k_fopen = (\<lambda>f. 0)\<rparr>"

lemma sample_fields [simp]:
  "w_ctx sample_world = [20 \<mapsto> sample_ctx]" "w_h sample_world = sample_handles" "w_mem sample_world = [10 \<mapsto> [1, 2, 3]]"
  "w_brk sample_world = 30" "w_total sample_world = 1" "w_log sample_world = 0" "w_harbor sample_world = 0x1000000" "w_t sample_world = empty_timer"
  by (simp_all add: sample_world_def)

lemma sample_handles_inv: "handle_inv sample_handles"
proof -
  have "handle_inv ((put_slot 1 \<lparr>sl_handle = 1, sl_ref = 1, sl_ctx = 20\<rparr> (handle_init 1))\<lparr>h_n := h_n (handle_init 1) + 1\<rparr>)"
    by (rule handle_inv_put [OF handle_init_inv(1)]) (simp_all add: handle_init_def slot_index_def zero_slot_def)
  then show ?thesis by (simp add: sample_handles_def handle_init_def put_slot_def slot_index_def handle_inv_def)
qed

lemma sample_registered: "registered sample_handles = [1 \<mapsto> (1, 20)]"
proof
  fix h
  have i: "slot_index h 16 < 16" using slot_index_bound [of h 4] by simp
  show "registered sample_handles h = [1 \<mapsto> (1, 20)] h"
  proof (cases "slot_index h 16 = 1")
    case True
    then show ?thesis by (auto simp: registered_def sample_handles_def handle_init_def)
  next
    case False
    then have "h \<noteq> 1" by (auto simp: slot_index_def)
    with False i show ?thesis by (simp add: registered_def sample_handles_def handle_init_def zero_slot_def)
  qed
qed

lemma sample_mbox: "mbox (w_q sample_world) = [21 \<mapsto> ([], 0, 0x1000001)]"
  by (auto simp: fun_eq_iff mbox_def sample_world_def) (auto simp: queue_new_def)

lemma sample_run_inv: "run_inv (w_q sample_world, {21}) []"
proof -
  let ?Q = "\<lparr>qheap = Map.empty, Qhead = 0, Qtail = 0\<rparr> :: queue_global"
  have "run_inv (?Q, {}) []" by (simp add: run_inv_def runq_def)
  from run_inv_create [OF this, of 21 "0x1000001"] show ?thesis by (simp add: sample_world_def)
qed

lemma sample_ok: "world_ok {21} sample_world"
  using sample_handles_inv sample_run_inv by (auto simp: world_ok_def sample_registered sample_mbox sample_ctx_def)

lemma sample_serves: "serves sample_world 0x1000001 21 0x1000001 []"
  by (simp add: serves_def sample_registered sample_mbox sample_ctx_def)

section \<open>Properties\<close>

text \<open>
  C4: A message that a service sends to a local one that is registered is delivered: it arrives exactly once, behind what the receiver's
  queue holds, with the sender's handle as its source (unless another is named) and the type in the top byte of its size. When a session
  is asked for, the sender's counter goes up by one and the message carries its new value. The message carries the block that was handed
  over, or a copy of the sender's data, in which case that stays with the sender. No other queue, no other memory, no other field of a
  context and no registration or reference count changes. This is for a size that fits in 56 bits and what a caller owes
  (\<open>send_pre\<close>): data to be copied is a block of at least the size named, of less than two gigabytes, and the session counter has not
  reached \<open>2 ^ 31 - 1\<close>.
\<close>

theorem pixel_send_delivers:
  assumes "world_ok HD W" "serves W dest a qh ms" "harbor_isremote dest W = Some False" "w_ctx W c = Some ctx"
    and "siz AND MSG_TYPE_MASK = siz" "send_pre ty data siz ctx W"
  shows "\<exists>W'. pixel_send K c source dest ty session data siz W = Some (sent_session ty session ctx, W') \<and> world_ok HD W' \<and>
    mbox (w_q W') = (mbox (w_q W))(a \<mapsto> (ms @ [sent_message source ty session data siz ctx W], 0, qh)) \<and>
    w_mem W' = snd (sent_data ty data siz W) \<and> registered (w_h W') = registered (w_h W) \<and>
    w_ctx W' = (if has_tag PIXEL_TAG_ALLOCSESSION ty then (w_ctx W)(c \<mapsto> ctx\<lparr>p_session := p_session ctx + 1\<rparr>) else w_ctx W)"
  using send_serves [OF assms] unfolding sent_ctx_def by blast

theorem pixel_send_delivers_witness:
  "\<exists>W'. pixel_send sample_hooks 20 0 0x1000001 0x20007 0 10 3 sample_world = Some (1, W') \<and>
    mbox (w_q W') 21 = Some ([\<lparr>msg_source = 0x1000001, msg_session = 1, msg_data = 30, msg_size = 0x0700000000000003\<rparr>], 0, 0x1000001) \<and>
    w_mem W' 30 = Some [1, 2, 3] \<and> w_mem W' 10 = Some [1, 2, 3] \<and> w_ctx W' 20 = Some (sample_ctx\<lparr>p_session := 1\<rparr>) \<and>
    registered (w_h W') 1 = Some (1, 20)"
proof -
  have c: "w_ctx sample_world 20 = Some sample_ctx" by simp
  have r: "harbor_isremote 0x1000001 sample_world = Some False" by (simp add: harbor_isremote_def)
  have tags: "has_tag PIXEL_TAG_ALLOCSESSION 0x20007" "\<not> has_tag PIXEL_TAG_DONTCOPY 0x20007"
    by (simp_all add: has_tag_def PIXEL_TAG_ALLOCSESSION_def PIXEL_TAG_DONTCOPY_def)
  have pre: "send_pre 0x20007 10 3 sample_ctx sample_world" using tags by (simp add: send_pre_def sample_ctx_def)
  have m: "sent_message 0 0x20007 0 10 3 sample_ctx sample_world =
      \<lparr>msg_source = 0x1000001, msg_session = 1, msg_data = 30, msg_size = 0x0700000000000003\<rparr>"
    using tags by (simp add: sent_message_def sent_session_def sent_data_def sample_ctx_def typed_size_def MSG_TYPE_SHIFT_def push_bit_eq_mult)
  have "(3 :: u64) AND MSG_TYPE_MASK = 3" by (simp add: MSG_TYPE_MASK_def mask_eq_exp_minus_1)
  from pixel_send_delivers [OF sample_ok sample_serves r c this pre, of sample_hooks 0 0] m tags show ?thesis
    by (auto simp: sent_session_def sent_data_def sample_ctx_def sample_registered)
qed

text \<open>
  C32: A message to the null handle, or to a local handle with non-zero low 24 bits that is not registered, is refused with \<open>-1\<close> and leaks
  nothing: no queue and no registration changes, a copy is freed again, and a block that was handed over is freed. This is for a size that
  fits in 56 bits, what a caller owes (\<open>send_pre\<close>: a block of at least the size named, below two gigabytes, when it is copied, and a session
  counter below \<open>2 ^ 31 - 1\<close>), a block handed over that is allocated, and a next address of the allocator that is free. It leaves out a handle that is only a harbor number, with zero low 24 bits: \<open>handle_grab\<close> takes the empty slot for it
  (\<open>Handles.grab_zero_finds_freed\<close>); and remote handles, which go to the harbor service.
\<close>

theorem pixel_send_refused:
  assumes "world_ok HD W" "w_ctx W c = Some ctx" "siz AND MSG_TYPE_MASK = siz" "send_pre ty data siz ctx W"
    and "dest = 0 \<or> dest AND 0xffffff \<noteq> 0 \<and> registered (w_h W) (dest AND 0xffffff) = None \<and> harbor_isremote dest W = Some False"
    and "has_tag PIXEL_TAG_DONTCOPY ty \<longrightarrow> data = 0 \<or> w_mem W data \<noteq> None" "w_mem W (w_brk W) = None" "w_mem W 0 = None" "w_brk W \<noteq> 0"
  shows "\<exists>W'. pixel_send K c source dest ty session data siz W = Some (- 1, W') \<and> w_q W' = w_q W \<and> w_h W' = w_h W \<and>
    w_mem W' = (if has_tag PIXEL_TAG_DONTCOPY ty then (w_mem W)(data := None) else w_mem W)"
  using send_gone [OF assms(1,5,2,3,4,6-9), of K source session] by blast

theorem pixel_send_refused_witness:
  "\<exists>W'. pixel_send sample_hooks 20 0 0x1000002 0x10000 7 10 3 sample_world = Some (- 1, W') \<and> w_mem W' = Map.empty"
proof -
  have c: "w_ctx sample_world 20 = Some sample_ctx" by simp
  have r: "harbor_isremote 0x1000002 sample_world = Some False" by (simp add: harbor_isremote_def)
  have tags: "\<not> has_tag PIXEL_TAG_ALLOCSESSION 0x10000" "has_tag PIXEL_TAG_DONTCOPY 0x10000"
    by (simp_all add: has_tag_def PIXEL_TAG_ALLOCSESSION_def PIXEL_TAG_DONTCOPY_def)
  have "(3 :: u64) AND MSG_TYPE_MASK = 3" by (simp add: MSG_TYPE_MASK_def mask_eq_exp_minus_1)
  moreover have "send_pre 0x10000 10 3 sample_ctx sample_world" using tags by (simp add: send_pre_def)
  ultimately show ?thesis
    using pixel_send_refused [OF sample_ok c, of 3 "0x10000" 10 "0x1000002" sample_hooks 0 7] r tags by (auto simp: sample_registered)
qed


text \<open>The service with one message of three bytes in its queue.\<close>

definition sample_message :: message where
  "sample_message = \<lparr>msg_source = 9, msg_session = 4, msg_data = 10, msg_size = typed_size 1 3\<rparr>"

definition busy_world :: world where
  "busy_world = snd (the (pixel_push sample_hooks 0x1000001 sample_message sample_world))"

lemma busy_world_ok:
  "world_ok {21} busy_world" "mbox (w_q busy_world) 21 = Some ([sample_message], 0, 0x1000001)"
  "registered (w_h busy_world) = [1 \<mapsto> (1, 20)]" "w_ctx busy_world = [20 \<mapsto> sample_ctx]" "w_mem busy_world = [10 \<mapsto> [1, 2, 3]]"
  "w_log busy_world = 0" "w_brk busy_world = 30" "w_total busy_world = 1"
proof -
  from pixel_push_serves [OF sample_ok sample_serves, of sample_hooks sample_message] obtain H Q where
    p: "pixel_push sample_hooks 0x1000001 sample_message sample_world = Some (0, sample_world\<lparr>w_h := H, w_q := Q\<rparr>)"
    "registered H = registered (w_h sample_world)" "mbox Q = (mbox (w_q sample_world))(21 \<mapsto> ([sample_message], 0, 0x1000001))"
    "world_ok {21} (sample_world\<lparr>w_h := H, w_q := Q\<rparr>)" by auto
  then have b: "busy_world = sample_world\<lparr>w_h := H, w_q := Q\<rparr>" by (simp add: busy_world_def)
  show "world_ok {21} busy_world" "mbox (w_q busy_world) 21 = Some ([sample_message], 0, 0x1000001)"
    "registered (w_h busy_world) = [1 \<mapsto> (1, 20)]" "w_ctx busy_world = [20 \<mapsto> sample_ctx]" "w_mem busy_world = [10 \<mapsto> [1, 2, 3]]"
    "w_log busy_world = 0" "w_brk busy_world = 30" "w_total busy_world = 1"
    unfolding b using p sample_registered by simp_all
qed


section \<open>Killing\<close>

lemma param_handle_number:
  assumes "w_ctx W k = Some kctx" "h \<noteq> 0"
  shows "param_handle K what k (Some (udec (uint h))) W = Some (Some h, W)"
  using assms by (simp add: param_handle_def strtoul_handle)

lemma cmd_kill_release:
  assumes "w_ctx W k = Some kctx" "h \<noteq> 0" "world_release K h W = Some (x, W')"
  shows "cmd_kill K k (Some (udec (uint h))) W = Some (None, W')"
  using param_handle_number [OF assms(1,2)] assms(3) by (simp add: cmd_kill_def)

text \<open>
  C7: A service that is killed when nobody uses it is gone, and its worker collects it. \<open>KILL\<close> with its handle removes the
  registration, marks the queue and calls the module's free function on the instance, in a state where nothing else has changed but the
  log (\<open>freeing_pre\<close>); then the context is gone, and the next \<open>pixel_dispatch\<close> on its queue frees every message that was waiting, frees
  the queue and counts the service out, changing nothing else but the run queue. This asks of the module's free function that it returns
  and keeps the runtime well-formed, the handle unused, the queue of the service as it is and the waiting data allocated (\<open>freeing_ok\<close>;
  it may send messages, start timers, start and end other services), and of the waiting messages that their data blocks
  are allocated and distinct.
\<close>

theorem killed_service_collected:
  assumes "world_ok HD W" "log_ok W" "freeing_ok K HD W h c ctx ms" "w_ctx W k = Some kctx" "w_ctx W c = Some ctx"
    and "registered (w_h W) (h AND 0xffffff) = Some (1, c)" "mbox (w_q W) (p_queue ctx) = Some (ms, 0, p_handle ctx)" "p_queue ctx \<in> HD"
    and "distinct (filter (\<lambda>d. d \<noteq> 0) (map msg_data ms))"
  shows "\<exists>V V' W1 n W2. freeing_pre HD W h c ctx ms V \<and> module_inst_free K (p_module ctx) (p_inst ctx) V = Some V' \<and>
    cmd_kill K k (Some (udec (uint h))) W = Some (None, W1) \<and> W1 = V'\<lparr>w_ctx := (w_ctx V')(c := None)\<rparr> \<and>
    pixel_dispatch K (p_queue ctx) mon W1 = Some (n, mon, W2) \<and> w_ctx W2 = w_ctx W1 \<and>
    registered (w_h W2) (h AND 0xffffff) = None \<and> registered (w_h W2) = registered (w_h W1) \<and>
    mbox (w_q W2) = (mbox (w_q W1))(p_queue ctx := None) \<and> w_total W2 = w_total W1 - 1 \<and>
    w_mem W2 = w_mem W1 |` (- {d. d \<noteq> 0 \<and> d \<in> msg_data ` set ms})"
proof -
  have inv: "handle_inv (w_h W)" using assms(1) by (simp add: world_ok_def)
  have k: "hkey h \<noteq> 0" using registered_SomeD(1) [OF inv assms(6)] .
  then have h: "h \<noteq> 0" by auto
  from release_last [OF assms(1,2,6,5,7,3)] obtain V V' where V: "freeing_pre HD W h c ctx ms V"
    "module_inst_free K (p_module ctx) (p_inst ctx) V = Some V'" "freeing_post HD h c ctx ms V'"
    "world_release K h W = Some (0, V'\<lparr>w_ctx := (w_ctx V')(c := None)\<rparr>)" "world_ok HD (V'\<lparr>w_ctx := (w_ctx V')(c := None)\<rparr>)" by blast
  let ?W1 = "V'\<lparr>w_ctx := (w_ctx V')(c := None)\<rparr>"
  have qh: "hkey (p_handle ctx) = hkey h" using assms(1,5,6) by (fastforce simp: world_ok_def)
  have p: "mbox (w_q ?W1) (p_queue ctx) = Some (ms, 1, p_handle ctx)" "registered (w_h ?W1) (hkey (p_handle ctx)) = None"
    "\<forall>m\<in>set ms. msg_data m \<noteq> 0 \<longrightarrow> w_mem ?W1 (msg_data m) \<noteq> None" "hkey (p_handle ctx) \<noteq> 0"
    using V(3) qh k by (simp_all add: freeing_post_def)
  from collect_freed [OF V(5) assms(8) p(1,2,4) assms(9) p(3), of K mon] obtain n W2 where W2:
    "pixel_dispatch K (p_queue ctx) mon ?W1 = Some (n, mon, W2)" "mbox (w_q W2) = (mbox (w_q ?W1))(p_queue ctx := None)"
    "w_total W2 = w_total ?W1 - 1" "w_mem W2 = w_mem ?W1 |` (- {d. d \<noteq> 0 \<and> d \<in> msg_data ` set ms})" "w_ctx W2 = w_ctx ?W1" "w_h W2 = w_h ?W1" by blast
  have "registered (w_h W2) (hkey h) = None" using W2(6) V(3) by (simp add: freeing_post_def)
  with cmd_kill_release [OF assms(4) h V(4)] V(1,2) W2 show ?thesis
    by (intro exI [of _ V] exI [of _ V'] exI [of _ ?W1] exI [of _ n] exI [of _ W2]) simp
qed

text \<open>A module whose free function does nothing to the runtime is one case.\<close>

lemma freeing_only:
  assumes "\<And>V. module_inst_free K (p_module ctx) (p_inst ctx) V = Some V" "registered (w_h W) (hkey h) = Some (r, c)" "world_ok HD W"
    "\<forall>m\<in>set ms. msg_data m \<noteq> 0 \<longrightarrow> msg_data m < w_brk W \<and> w_mem W (msg_data m) \<noteq> None"
  shows "freeing_ok K HD W h c ctx ms"
proof -
  have "registered (w_h V) h' \<noteq> Some (r', c)" if V: "freeing_pre HD W h c ctx ms V" for V h' r'
  proof
    assume r': "registered (w_h V) h' = Some (r', c)"
    with V have o: "registered (w_h W) h' = Some (r', c)" "h' \<noteq> hkey h" by (auto simp: freeing_pre_def split: if_splits)
    from assms(3) o(1) obtain x where x: "w_ctx W c = Some x" "hkey (p_handle x) = h'" unfolding world_ok_def by blast
    from assms(3,2) obtain y where "w_ctx W c = Some y" "hkey (p_handle y) = hkey h" unfolding world_ok_def by blast
    with x o(2) show False by simp
  qed
  with assms(1,4) show ?thesis by (auto simp: freeing_ok_def freeing_pre_def freeing_post_def)
qed

lemma sample_hooks_free: "module_inst_free sample_hooks i inst V = Some V"
  by (simp add: module_inst_free_def sample_hooks_def Let_def)

theorem killed_service_collected_witness:
  "\<exists>W1 n mon W2. cmd_kill sample_hooks 20 (Some (udec (uint (0x1000001 :: u32)))) busy_world = Some (None, W1) \<and>
    pixel_dispatch sample_hooks 21 \<lparr>mon_version = 0, mon_check = 0, mon_source = 0, mon_destination = 0\<rparr> W1 = Some (n, mon, W2) \<and>
    w_ctx W2 = Map.empty \<and> w_total W2 = 0 \<and> w_mem W2 10 = None"
proof -
  let ?mon = "\<lparr>mon_version = 0, mon_check = 0, mon_source = 0, mon_destination = 0\<rparr> :: monitor"
  have q: "p_queue sample_ctx = 21" "p_handle sample_ctx = 0x1000001" by (simp_all add: sample_ctx_def)
  have "log_ok busy_world" by (simp add: log_ok_def busy_world_ok)
  moreover have "freeing_ok sample_hooks {21} busy_world 0x1000001 20 sample_ctx [sample_message]"
    using busy_world_ok by (intro freeing_only) (auto simp: sample_hooks_free sample_message_def)
  ultimately obtain V V' W1 n W2 where w: "freeing_pre {21} busy_world 0x1000001 20 sample_ctx [sample_message] V"
    "module_inst_free sample_hooks (p_module sample_ctx) (p_inst sample_ctx) V = Some V'"
    "cmd_kill sample_hooks 20 (Some (udec (uint (0x1000001 :: u32)))) busy_world = Some (None, W1)" "W1 = V'\<lparr>w_ctx := (w_ctx V')(20 := None)\<rparr>"
    "pixel_dispatch sample_hooks 21 ?mon W1 = Some (n, ?mon, W2)"
    "w_ctx W2 = w_ctx W1" "w_total W2 = w_total W1 - 1" "w_mem W2 = w_mem W1 |` (- {d. d \<noteq> 0 \<and> d \<in> msg_data ` set [sample_message]})"
    using killed_service_collected [OF busy_world_ok(1), of sample_hooks "0x1000001" 20 sample_ctx "[sample_message]" 20 sample_ctx ?mon] busy_world_ok(2-4) q
    by (auto simp: sample_message_def)
  have "V' = V" using w(2) by (simp add: sample_hooks_free)
  then have "w_ctx W2 = Map.empty" "w_total W2 = 0" "w_mem W2 10 = None"
    using w(1,4,6-8) busy_world_ok by (auto simp: freeing_pre_def sample_message_def)
  with w(3,5) show ?thesis by blast
qed

text \<open>
  C33: \<open>KILL\<close> drops a reference whether or not the service has been killed already, so a service killed twice while it runs is freed
  under its worker. In every state \<open>V\<close> in which \<open>pixel_dispatch\<close> calls the callback of a service that nobody else uses
  (\<open>callback_pre\<close>: the worker that runs the callback holds the second of two references), the first \<open>KILL\<close> issued before the callback
  returns, by the service itself or by another, leaves the context in place, and a second one calls the free function of the
  module on the instance and frees the context, while the callback still runs with both. This is for a free function that
  returns and keeps the runtime well-formed, the handle unused, the queue of the service as it is and the waiting data allocated
  (\<open>freeing_ok\<close>).
\<close>

theorem double_kill_frees_running:
  assumes "callback_pre HD W a qh ms 1 c V" "log_ok V" "w_ctx V k = Some kctx" "w_ctx V c = Some ctx" "p_queue ctx = a" "p_handle ctx = qh"
    and "mbox (w_q V) a = Some (ms', 0, qh)" "freeing_ok K HD V qh c ctx ms'"
  shows "registered (w_h V) (qh AND 0xffffff) = Some (2, c) \<and>
    (\<exists>W1 U U' W2. cmd_kill K k (Some (udec (uint qh))) V = Some (None, W1) \<and> w_ctx W1 = w_ctx V \<and>
      registered (w_h W1) (qh AND 0xffffff) = Some (1, c) \<and>
      freeing_pre HD W1 qh c ctx ms' U \<and> module_inst_free K (p_module ctx) (p_inst ctx) U = Some U' \<and>
      cmd_kill K k (Some (udec (uint qh))) W1 = Some (None, W2) \<and> W2 = U'\<lparr>w_ctx := (w_ctx U')(c := None)\<rparr>)"
proof -
  from assms(1) have ok: "world_ok HD V" and r: "registered (w_h V) (hkey qh) = Some (2, c)" by (simp_all add: callback_pre_def)
  have inv: "handle_inv (w_h V)" using ok by (simp add: world_ok_def)
  have "hkey qh \<noteq> 0" using registered_SomeD(1) [OF inv r] .
  then have h: "qh \<noteq> 0" by auto
  from release_kept [OF inv r, of K 1] obtain H where H: "world_release K qh V = Some (c, V\<lparr>w_h := H\<rparr>)" "handle_inv H"
    "registered H = (registered (w_h V))(hkey qh \<mapsto> (1, c))" by (auto simp: world_release_Suc)
  let ?W1 = "V\<lparr>w_h := H\<rparr>"
  have key: "ctx_key ?W1 = ctx_key V" by (simp add: ctx_key_def fun_eq_iff)
  have "world_ok HD ?W1" using ok r H(2,3) unfolding world_ok_key key by (auto split: if_splits)
  moreover have "log_ok ?W1" using assms(2) by (simp add: log_ok_def)
  moreover have "freeing_ok K HD ?W1 qh c ctx ms'" using assms(8) H(3) by (simp add: freeing_ok_def freeing_pre_def)
  ultimately obtain U U' where U: "freeing_pre HD ?W1 qh c ctx ms' U" "module_inst_free K (p_module ctx) (p_inst ctx) U = Some U'"
    "world_release K qh ?W1 = Some (0, U'\<lparr>w_ctx := (w_ctx U')(c := None)\<rparr>)"
    using release_last [of HD ?W1 qh c ctx ms' K] H(3) assms(4-7) by auto
  have "w_ctx ?W1 k = Some kctx" using assms(3) by simp
  from cmd_kill_release [OF assms(3) h H(1)] cmd_kill_release [OF this h U(3)] U(1,2) H(3) r show ?thesis
    by (intro conjI exI [of _ ?W1] exI [of _ U] exI [of _ U'] exI [of _ "U'\<lparr>w_ctx := (w_ctx U')(c := None)\<rparr>"]) simp_all
qed

text \<open>The state in which the callback of the sample service is called.\<close>

lemma sample_callback_state:
  obtains H where "callback_pre {21} sample_world 21 0x1000001 [] 1 20 (sample_world\<lparr>w_h := H\<rparr>)"
    "registered H = [1 \<mapsto> (2, 20)]" "snd (world_grab 0x1000001 sample_world) = sample_world\<lparr>w_h := H\<rparr>"
proof -
  have inv: "handle_inv (w_h sample_world)" "registered (w_h sample_world) (0x1000001 AND 0xffffff) = Some (1, 20)"
    using sample_handles_inv sample_registered by simp_all
  from grab_registered [OF inv] obtain H where H: "world_grab 0x1000001 sample_world = (20, sample_world\<lparr>w_h := H\<rparr>)" "handle_inv H"
    "registered H = [1 \<mapsto> (2, 20)]" by (auto simp: sample_registered)
  let ?W = "sample_world\<lparr>w_h := H\<rparr>"
  have "world_ok {21} ?W" using sample_ok H(2,3) unfolding world_ok_def by (auto simp: sample_registered split: if_splits)
  then have "callback_pre {21} sample_world 21 0x1000001 [] 1 20 ?W" using H(3) sample_mbox by (simp add: callback_pre_def sample_registered)
  with H show ?thesis by (intro that) simp_all
qed

theorem double_kill_frees_running_witness:
  "\<exists>W1 W2. cmd_kill sample_hooks 20 (Some (udec (uint (0x1000001 :: u32)))) (snd (world_grab 0x1000001 sample_world)) = Some (None, W1) \<and>
    w_ctx W1 20 = Some sample_ctx \<and> cmd_kill sample_hooks 20 (Some (udec (uint (0x1000001 :: u32)))) W1 = Some (None, W2) \<and> w_ctx W2 20 = None"
proof -
  obtain H where H: "callback_pre {21} sample_world 21 0x1000001 [] 1 20 (sample_world\<lparr>w_h := H\<rparr>)"
    "registered H = [1 \<mapsto> (2, 20)]" "snd (world_grab 0x1000001 sample_world) = sample_world\<lparr>w_h := H\<rparr>" by (rule sample_callback_state)
  let ?V = "sample_world\<lparr>w_h := H\<rparr>"
  have "world_ok {21} ?V" using H(1) by (simp add: callback_pre_def)
  then have "freeing_ok sample_hooks {21} ?V 0x1000001 20 sample_ctx []"
    using H(2) by (intro freeing_only [where r = 2]) (simp_all add: sample_hooks_free)
  moreover have "log_ok ?V" by (simp add: log_ok_def)
  ultimately show ?thesis
    using double_kill_frees_running [OF H(1), of 20 sample_ctx sample_ctx "[]" sample_hooks] sample_mbox
    unfolding H(3) by (auto simp: sample_ctx_def)
qed

section \<open>Timeouts, names, remote services\<close>

text \<open>
  C6: A service that asks for a timeout of \<open>d\<close> centiseconds gets the session it was promised back: the command returns the new session, and
  after \<open>d\<close> ticks of the timer a response with that session is in the service's queue, behind what was there, whatever other timers
  are pending.
\<close>

theorem timeout_responds:
  assumes "world_ok HD W" "events_ok (w_t W)" "w_ctx W c = Some ctx" "serves W (p_handle ctx) a qh ms" "p_session ctx + 1 < 2 ^ 31"
    and "0 < d" "d < 2 ^ 31"
  shows "\<exists>W1 W2 ms'. cmd_timeout K c (Some (udec d)) W = Some (Some (sdec (p_session ctx + 1)), W1) \<and>
    world_ticks K (nat d) W1 = Some W2 \<and> world_ok HD W2 \<and>
    mbox (w_q W2) a = Some (ms @ ms', 0, qh) \<and> response (p_session ctx + 1) \<in> set ms'"
proof -
  let ?ev = "\<lparr>te_session = p_session ctx + 1, te_handle = p_handle ctx\<rparr>"
  let ?T = "timer_timeout d ?ev (w_t W)" and ?n = "\<lparr>expire = time (w_t W) + word_of_int d, payload = \<lparr>te_session = p_session ctx + 1, te_handle = p_handle ctx\<rparr>\<rparr>"
  let ?W1 = "W\<lparr>w_ctx := (w_ctx W)(c \<mapsto> ctx\<lparr>p_session := p_session ctx + 1\<rparr>), w_t := ?T\<rparr>"
  have cmd: "cmd_timeout K c (Some (udec d)) W = Some (Some (sdec (p_session ctx + 1)), ?W1)"
    using assms(3,5-7) by (simp add: cmd_timeout_def pixel_session_def atoi_udec Let_def)
  have key: "ctx_key ?W1 = ctx_key W" using assms(3) by (auto simp: ctx_key_def fun_eq_iff)
  have fr: "world_ok HD ?W1" "serves ?W1 (p_handle ctx) a qh ms" using world_frame [of ?W1 W] key assms(1,4) by simp_all
  have v: "valid_delay d" using assms(6,7) by (simp add: valid_delay_def)
  have p: "pending ?T = add_mset ?n (pending (w_t W))" by (simp add: new_node_def)
  have "hkey (p_handle ctx) \<noteq> 0" using serves_hkey(2) [OF assms(1,4)] .
  then have ev: "events_ok (w_t ?W1)" using assms(2) timer_timeout_inv [OF _ v, of "w_t W" ?ev] by (simp add: events_ok_def new_node_def)
  have tm: "time ?T = time (w_t W)" by (simp add: timer_timeout_def)
  have "unat (expire ?n - time (w_t ?W1)) = nat d"
    using assms(6,7) tm by (simp add: unsigned_of_int take_bit_int_eq_self)
  with assms(6) have k: "nat d = max 1 (unat (expire ?n - time (w_t ?W1)))" by simp
  have "?n \<in># pending (w_t ?W1)" by (simp add: new_node_def)
  from world_ticks_sends [OF fr(1) ev this k, of a qh ms K] fr(2) obtain W2 ms' where
    "world_ticks K (nat d) ?W1 = Some W2" "world_ok HD W2" "serves W2 (p_handle ctx) a qh (ms @ ms')" "response (p_session ctx + 1) \<in> set ms'" by auto
  then show ?thesis using cmd by (auto simp: serves_def)
qed

theorem timeout_responds_witness:
  "\<exists>W1 W2 ms'. cmd_timeout sample_hooks 20 (Some ''3'') sample_world = Some (Some ''1'', W1) \<and> world_ticks sample_hooks 3 W1 = Some W2 \<and>
    mbox (w_q W2) 21 = Some (ms', 0, 0x1000001) \<and> response 1 \<in> set ms'"
proof -
  have "serves sample_world (p_handle sample_ctx) 21 0x1000001 []" using sample_serves by (simp add: sample_ctx_def)
  moreover have "events_ok (w_t sample_world)" by (simp add: events_ok_def)
  moreover have "udec 3 = ''3''" "sdec 1 = ''1''" "p_session sample_ctx = 0"
    by (simp_all add: udec.simps sdec_def digit_def sample_ctx_def)
  ultimately show ?thesis using timeout_responds [OF sample_ok, of 20 sample_ctx 21 "0x1000001" "[]" 3 sample_hooks] by auto
qed

lemma split_space_name: "CHR '' '' \<notin> set nm \<Longrightarrow> split_space (nm @ CHR '' '' # p) = (nm, Some p)"
  by (simp add: split_space_def strchr_append)

text \<open>
  What \<open>NAME\<close> registers, \<open>QUERY\<close> finds, for every service: after \<open>NAME\<close> with a new name and a handle in decimal, \<open>QUERY\<close> of that name
  returns the same decimal, and every other name answers as before.
\<close>

theorem name_query:
  assumes "names_inv (w_h W)" "name_map (w_h W) nm = None" "CHR '' '' \<notin> set nm" "nm \<noteq> []" "(h :: u32) \<noteq> 0"
  shows "\<exists>W'. cmd_name c (Some (nm @ CHR '' '' # udec (uint h))) W = Some (None, W') \<and> names_inv (w_h W') \<and>
    cmd_query c' (Some nm) W' = Some (Some (udec (uint h)), W') \<and>
    (\<forall>x. x \<noteq> nm \<longrightarrow> map_option fst (cmd_query c' (Some x) W') = map_option fst (cmd_query c' (Some x) W))"
proof -
  from insert_name_spec [OF assms(1,5,2)] obtain H where H: "insert_name nm h (w_h W) = (h, H)" "names_inv H"
    "name_map H = (name_map (w_h W))(nm \<mapsto> h)" by blast
  let ?W = "W\<lparr>w_h := H\<rparr>"
  have q: "Handles.query x H' = (case name_map H' x of None \<Rightarrow> 0 | Some h \<Rightarrow> h)" if "names_inv H'" for x H'
    using bisect_names [OF that, of x] by (auto simp: Handles.query_def split: sum.splits)
  have "cmd_name c (Some (nm @ CHR '' '' # udec (uint h))) W = Some (None, ?W)"
    using assms(3,5) H(1) by (simp add: cmd_name_def split_space_name strtoul_handle handle_name_op_def)
  moreover have "cmd_query c' (Some nm) ?W = Some (Some (udec (uint h)), ?W)"
    using q [OF H(2), of nm] H(3) assms(4,5) by (simp add: cmd_query_def handle_name_op_def word_neq_0_conv)
  moreover have "map_option fst (cmd_query c' (Some x) ?W) = map_option fst (cmd_query c' (Some x) W)" if "x \<noteq> nm" for x
    using q [OF H(2), of x] q [OF assms(1), of x] H(3) that by (simp add: cmd_query_def handle_name_op_def)
  ultimately show ?thesis using H(2) by auto
qed

theorem name_query_witness:
  "\<exists>W'. cmd_name 20 (Some ''db 16777217'') sample_world = Some (None, W') \<and> cmd_query 20 (Some ''db'') W' = Some (Some ''16777217'', W')"
proof -
  have "names_inv (handle_init 1)" by (rule handle_init_inv)
  then have "names_inv (w_h sample_world)" "name_map (w_h sample_world) ''db'' = None"
    by (simp_all add: sample_handles_def names_inv_def name_map_def handle_init_def)
  moreover have "udec (uint (0x1000001 :: u32)) = ''16777217''" by (simp add: udec.simps digit_def)
  ultimately show ?thesis using name_query [of sample_world "''db''" "0x1000001" 20 20] by auto
qed

lemma memory_harbor:
  "pixel_session c W = Some (x, W') \<Longrightarrow> w_harbor W' = w_harbor W"
  "pixel_alloc p n W = Some (y, W') \<Longrightarrow> w_harbor W' = w_harbor W"
  "store p bs W = Some W' \<Longrightarrow> w_harbor W' = w_harbor W"
  by (auto simp: pixel_session_def pixel_alloc_def store_def Let_def bind_eq_Some_conv split: if_splits)

lemma filter_args_harbor: "filter_args c ty session data siz W = Some (x, W') \<Longrightarrow> w_harbor W' = w_harbor W"
  by (auto simp: filter_args_def bind_eq_Some_conv split: if_splits dest!: memory_harbor)

text \<open>
  A message to another machine loses its address: \<open>harbor_send\<close> hands the harbor service the message without its destination, so
  sending to any two remote handles does exactly the same.
\<close>

theorem remote_destination_lost:
  assumes "siz AND MSG_TYPE_MASK = siz" "harbor_isremote d1 W = Some True" "harbor_isremote d2 W = Some True"
  shows "pixel_send K c source d1 ty session data siz W = pixel_send K c source d2 ty session data siz W"
proof -
  have nz: "d \<noteq> 0" if "harbor_isremote d W = Some True" for d using that by (auto simp: harbor_isremote_def Let_def split: if_splits)
  have same: "harbor_isremote d V = harbor_isremote d W" if "w_harbor V = w_harbor W" for d V using that by (simp only: harbor_isremote_def)
  show ?thesis
  proof (cases "filter_args c ty session data siz W")
    case None
    then show ?thesis using assms nz by (simp add: pixel_send_def)
  next
    case (Some y)
    obtain s d z V where y: "y = ((s, d, z), V)" by (cases y) auto
    have "harbor_isremote d1 V = Some True" "harbor_isremote d2 V = Some True"
      using same [OF filter_args_harbor [of c ty session data siz W "(s, d, z)"]] Some y assms by simp_all
    then show ?thesis using assms nz Some y by (simp add: pixel_send_def)
  qed
qed

theorem remote_destination_lost_witness:
  "pixel_send sample_hooks 20 0 0x2000001 0 1 0 0 sample_world = pixel_send sample_hooks 20 0 0x3000009 0 1 0 0 sample_world"
  by (rule remote_destination_lost) (simp_all add: harbor_isremote_def)

end
