(* ===== verification/Socket.thy ===== *)
theory Socket
  imports Pixel Bytes
begin

text \<open>
  The socket server of \<open>src/src/socket.c\<close> over the event polling of \<open>src/src/epoll.c\<close>. Other threads put requests into a
  control pipe, and the thread that polls handles them and the events of the sockets one at a time. The
  operating system is the parameter \<open>Y\<close> with a state of its own; every system call with a numeric result is
  recorded together with its result in \<open>n_trace\<close>. The allocator and the dispatch callback are those that
  \<open>pixel_start\<close> installs, so the state of the server holds the state of the runtime. The control pipe is the list of the requests in it.
  \<open>None\<close> is a failed assertion, undefined behaviour, or a call that is interrupted for ever. What is printed to the standard
  error is left out.
\<close>

section \<open>Data\<close>

abbreviation (input) SOCKET_CLOSE :: int where "SOCKET_CLOSE \<equiv> 1"
abbreviation (input) SOCKET_OPEN :: int where "SOCKET_OPEN \<equiv> 2"
abbreviation (input) SOCKET_DATA :: int where "SOCKET_DATA \<equiv> 3"
abbreviation (input) SOCKET_ACCEPT :: int where "SOCKET_ACCEPT \<equiv> 4"
abbreviation (input) SOCKET_ERR :: int where "SOCKET_ERR \<equiv> 5"
abbreviation (input) SOCKET_UDP :: int where "SOCKET_UDP \<equiv> 6"
abbreviation (input) SOCKET_WARNING :: int where "SOCKET_WARNING \<equiv> 7"
abbreviation (input) SOCKET_PRIORITY_HIGH :: int where "SOCKET_PRIORITY_HIGH \<equiv> 0"
abbreviation (input) SOCKET_PRIORITY_LOW :: int where "SOCKET_PRIORITY_LOW \<equiv> 1"
abbreviation (input) PROTOCOL_TCP :: int where "PROTOCOL_TCP \<equiv> 0"
abbreviation (input) PROTOCOL_UDP :: int where "PROTOCOL_UDP \<equiv> 1"
abbreviation (input) PROTOCOL_UDPv6 :: int where "PROTOCOL_UDPv6 \<equiv> 2"
abbreviation (input) MAX_SOCKET :: nat where "MAX_SOCKET \<equiv> 65536"
abbreviation (input) MAX_EVENT :: nat where "MAX_EVENT \<equiv> 64"
abbreviation (input) MIN_SOCK_BUFF :: int where "MIN_SOCK_BUFF \<equiv> 64"
abbreviation (input) MAX_SOCK_INFO :: nat where "MAX_SOCK_INFO \<equiv> 128"
abbreviation (input) MAX_UDP_PACKAGE :: nat where "MAX_UDP_PACKAGE \<equiv> 65535"
abbreviation (input) UDP_ADDRESS_SIZE :: nat where "UDP_ADDRESS_SIZE \<equiv> 19"
abbreviation (input) AF_INET :: int where "AF_INET \<equiv> 2"
abbreviation (input) AF_INET6 :: int where "AF_INET6 \<equiv> 10"

datatype socket_type =
    T_INVALID | T_RESERVE | T_OPENING | T_OPENED | T_LISTEN | T_PLISTEN | T_PACCEPT | T_BIND | T_HALFCLOSE

text \<open>
  A buffer that waits to be sent: the block it was given as (\<open>buff\<close>), where the unsent part begins (\<open>ptr\<close>, a block and an
  offset) and how long it is. A \<open>buffer_list\<close> is the list of its nodes; \<open>head\<close> and \<open>tail\<close> are null when it is empty.
\<close>

record wbuffer =
  b_buff :: addr
  b_base :: addr
  b_off :: nat
  b_len :: int
  b_send_object :: bool
  b_udp_address :: bytes

datatype sock_p = P_size int | P_udp bytes

record socket =
  s_fd :: int
  s_id :: int
  s_ud :: u64
  wb_size :: int
  high :: "wbuffer list"
  low :: "wbuffer list"
  s_type :: socket_type
  s_protocol :: int
  s_p :: sock_p

text \<open>Socket addresses: port in network order and address of either family, or of another family.\<close>

datatype sockaddr = V4 bytes bytes | V6 bytes bytes | SA_other nat

record addrinfo =
  ai_family :: int
  ai_socktype :: int
  ai_protocol :: int
  ai_addr :: sockaddr

record send_req =
  rq_id :: int
  rq_priority :: int
  rq_size :: int
  rq_data :: addr

text \<open>The requests with the fields of their structures in order.\<close>

datatype socket_req =
    Req_open int int u64 string
  | Req_listen int int u64
  | Req_close int u64
  | Req_exit
  | Req_bind int int u64
  | Req_start int u64
  | Req_send send_req
  | Req_opt int int int
  | Req_udp int int int u64
  | Req_setudp int bytes
  | Req_sendudp send_req bytes

text \<open>
  A message to the owner of a socket. Its \<open>data\<close> is null, a string constant (or the text of an error), the buffer
  \<open>S.buffer\<close>, or a block.
\<close>

datatype mdata = M_null | M_text string | M_info | M_block addr

record smsg =
  m_id :: int
  m_ud :: u64
  m_data :: mdata
  m_size :: int

record event =
  e_read :: bool
  e_write :: bool
  e_ud :: "nat option"

record object_interface =
  soi_data :: "addr \<Rightarrow> addr"
  soi_size :: "addr \<Rightarrow> int"
  soi_free :: "addr \<Rightarrow> world \<Rightarrow> world option"

section \<open>The operating system\<close>

datatype errno = EINTR | EAGAIN | EINPROGRESS | EMFILE | ENFILE | E_other nat

datatype syscall =
    Sys_write int bytes
  | Sys_sendto int bytes "sockaddr option"
  | Sys_close int
  | Sys_getfl int
  | Sys_setfl int int
  | Sys_keepalive int
  | Sys_reuseaddr int
  | Sys_tcpopt int int int
  | Sys_socket int int int
  | Sys_bind int sockaddr
  | Sys_listen int int
  | Sys_connect int sockaddr
  | Sys_ctl_write socket_req
  | Sys_ctl_read
  | Sys_epoll_create
  | Sys_epoll_add int "nat option"
  | Sys_epoll_mod int "nat option" bool
  | Sys_epoll_del int

record 'o sys =
  y_errno :: "'o \<Rightarrow> errno"
  y_call :: "syscall \<Rightarrow> 'o \<Rightarrow> int \<times> 'o"
  y_read :: "int \<Rightarrow> int \<Rightarrow> 'o \<Rightarrow> bytes option \<times> 'o"
  y_recvfrom :: "int \<Rightarrow> nat \<Rightarrow> 'o \<Rightarrow> (bytes \<times> sockaddr) option \<times> 'o"
  y_accept :: "int \<Rightarrow> 'o \<Rightarrow> (int \<times> sockaddr) \<times> 'o"
  y_getaddrinfo :: "string option \<Rightarrow> string \<Rightarrow> int \<Rightarrow> int \<Rightarrow> 'o \<Rightarrow> (int \<times> addrinfo list) \<times> 'o"
  y_so_error :: "int \<Rightarrow> 'o \<Rightarrow> (int \<times> int) \<times> 'o"
  y_getpeername :: "int \<Rightarrow> 'o \<Rightarrow> sockaddr option \<times> 'o"
  y_pipe :: "'o \<Rightarrow> (int \<times> int \<times> int) \<times> 'o"
  y_epoll_wait :: "nat \<Rightarrow> 'o \<Rightarrow> (u32 \<times> nat option) list option \<times> 'o"
  y_ntop :: "sockaddr \<Rightarrow> string option"
  y_strerror :: "errno \<Rightarrow> string"
  y_gai_strerror :: "int \<Rightarrow> string"

text \<open>The state \<open>S\<close> of the server with the runtime and the operating system. The array \<open>ev\<close> is its first \<open>ev_n\<close> entries.\<close>

record 'o net =
  n_w :: world
  n_os :: 'o
  n_trace :: "(syscall \<times> int) list"
  next_id :: u32
  recvctl_fd :: int
  sendctl_fd :: int
  check_ctrl :: bool
  n_ctrl :: "socket_req list"
  slot :: "nat \<Rightarrow> socket"
  n_ev :: "event list"
  ev_idx :: nat
  n_info :: string
  n_soi :: "object_interface option"

definition sys_call :: "'o sys \<Rightarrow> syscall \<Rightarrow> 'o net \<Rightarrow> int \<times> 'o net" where
  "sys_call Y c S = (let (r, os) = y_call Y c (n_os S) in (r, S\<lparr>n_os := os, n_trace := n_trace S @ [(c, r)]\<rparr>))"

definition errno_of :: "'o sys \<Rightarrow> 'o net \<Rightarrow> errno" where
  "errno_of Y S = y_errno Y (n_os S)"

text \<open>The loops that call again after \<open>EINTR\<close>.\<close>

partial_function (option) retry_call :: "'o sys \<Rightarrow> syscall \<Rightarrow> 'o net \<Rightarrow> (int \<times> 'o net) option" where
  "retry_call Y c S =
     (let (r, S) = sys_call Y c S in
      if r < 0 \<and> errno_of Y S = EINTR then retry_call Y c S else Some (r, S))"

definition set_slot :: "nat \<Rightarrow> (socket \<Rightarrow> socket) \<Rightarrow> 'o net \<Rightarrow> 'o net" where
  "set_slot i f S = S\<lparr>slot := (slot S)(i := f (slot S i))\<rparr>"

definition set_type :: "nat \<Rightarrow> socket_type \<Rightarrow> 'o net \<Rightarrow> 'o net" where
  "set_type i ty S = set_slot i (\<lambda>s. s\<lparr>s_type := ty\<rparr>) S"

text \<open>\<open>HASH_ID\<close> with C's remainder: a negative index is outside the array.\<close>

definition hash_id :: "int \<Rightarrow> nat option" where
  "hash_id sid = (if sid < 0 \<and> sid mod 65536 \<noteq> 0 then None else Some (nat (sid mod 65536)))"

definition in_world :: "(world \<Rightarrow> world option) \<Rightarrow> 'o net \<Rightarrow> 'o net option" where
  "in_world f S = do { W \<leftarrow> f (n_w S); Some (S\<lparr>n_w := W\<rparr>) }"

definition net_alloc :: "int \<Rightarrow> 'o net \<Rightarrow> (addr \<times> 'o net) option" where
  "net_alloc siz S = do { (p, W) \<leftarrow> pixel_alloc 0 siz (n_w S); Some (p, S\<lparr>n_w := W\<rparr>) }"

text \<open>The bytes that a system call reads at an address.\<close>

definition region :: "addr \<Rightarrow> nat \<Rightarrow> int \<Rightarrow> world \<Rightarrow> bytes option" where
  "region base off len W =
     (if len < 0 then None
      else if len = 0 then Some []
      else do {
        bs \<leftarrow> w_mem W base;
        if off + nat len > length bs then None else Some (take (nat len) (drop off bs)) })"

section \<open>Event polling\<close>

definition event_new :: "'o sys \<Rightarrow> 'o net \<Rightarrow> bool \<times> 'o net" where
  "event_new Y S = (let (r, S) = sys_call Y Sys_epoll_create S in (r \<noteq> - 1, S))"

definition event_add :: "'o sys \<Rightarrow> int \<Rightarrow> nat option \<Rightarrow> 'o net \<Rightarrow> bool \<times> 'o net" where
  "event_add Y fd ud S = (let (r, S) = sys_call Y (Sys_epoll_add fd ud) S in (r = - 1, S))"

definition event_del :: "'o sys \<Rightarrow> int \<Rightarrow> 'o net \<Rightarrow> 'o net" where
  "event_del Y fd S = snd (sys_call Y (Sys_epoll_del fd) S)"

definition event_write :: "'o sys \<Rightarrow> int \<Rightarrow> nat option \<Rightarrow> bool \<Rightarrow> 'o net \<Rightarrow> 'o net" where
  "event_write Y fd ud enable S = snd (sys_call Y (Sys_epoll_mod fd ud enable) S)"

definition event_wait :: "'o sys \<Rightarrow> nat \<Rightarrow> 'o net \<Rightarrow> event list option \<times> 'o net" where
  "event_wait Y maxev S =
     (let (r, os) = y_epoll_wait Y maxev (n_os S) in
      (map_option (map (\<lambda>(flag, ptr). \<lparr>e_read = flag AND 1 \<noteq> 0, e_write = flag AND 4 \<noteq> 0, e_ud = ptr\<rparr>)) r,
       S\<lparr>n_os := os\<rparr>))"

section \<open>Sockets\<close>

definition socket_nonblocking :: "'o sys \<Rightarrow> int \<Rightarrow> 'o net \<Rightarrow> 'o net" where
  "socket_nonblocking Y fd S =
     (let (flag, S) = sys_call Y (Sys_getfl fd) S in
      if flag = - 1 then S else snd (sys_call Y (Sys_setfl fd (flag OR 2048)) S))"

definition socket_keepalive :: "'o sys \<Rightarrow> int \<Rightarrow> 'o net \<Rightarrow> 'o net" where
  "socket_keepalive Y fd S = snd (sys_call Y (Sys_keepalive fd) S)"

text \<open>
  The loop of \<open>socket_next_id\<close>. The increment wraps; the exchange that reserves the slot does not fail, because the call
  is one step.
\<close>

fun next_id_loop :: "nat \<Rightarrow> 'o net \<Rightarrow> int \<times> 'o net" where
  "next_id_loop 0 S = (- 1, S)"
| "next_id_loop (Suc k) S =
     (let w = next_id S + 1;
          w = (if sint w < 0 then w AND 0x7fffffff else w);
          S = S\<lparr>next_id := w\<rparr>;
          i = nat (sint w mod 65536) in
      if s_type (slot S i) = T_INVALID
      then (sint w, set_slot i (\<lambda>s. s\<lparr>s_type := T_RESERVE, s_id := sint w, s_fd := - 1\<rparr>) S)
      else next_id_loop k S)"

definition socket_next_id :: "'o net \<Rightarrow> int \<times> 'o net" where
  "socket_next_id S = next_id_loop MAX_SOCKET S"

definition socket_new ::
  "'o sys \<Rightarrow> int \<Rightarrow> int \<Rightarrow> int \<Rightarrow> u64 \<Rightarrow> bool \<Rightarrow> 'o net \<Rightarrow> (nat option \<times> 'o net) option" where
  "socket_new Y fd sid prot ud add S = do {
     i \<leftarrow> hash_id sid;
     if s_type (slot S i) \<noteq> T_RESERVE then None
     else
       (let S = set_slot i (\<lambda>s. s\<lparr>s_id := sid, s_fd := fd, s_ud := ud, s_p := P_size MIN_SOCK_BUFF, wb_size := 0,
                  s_protocol := prot, high := [], low := []\<rparr>) S in
        if add then
          (let (err, S) = event_add Y fd (Some i) S in
           if err then Some (None, set_type i T_INVALID S) else Some (Some i, S))
        else Some (Some i, S)) }"

definition socket_send_req :: "'o sys \<Rightarrow> socket_req \<Rightarrow> 'o net \<Rightarrow> 'o net option" where
  "socket_send_req Y req S = do {
     (n, S) \<leftarrow> retry_call Y (Sys_ctl_write req) S;
     Some (if n < 0 then S else S\<lparr>n_ctrl := n_ctrl S @ [req]\<rparr>) }"

text \<open>\<open>Some None\<close> is a failed read. To read from an empty pipe would block.\<close>

definition socket_recv_req :: "'o sys \<Rightarrow> 'o net \<Rightarrow> (socket_req option \<times> 'o net) option" where
  "socket_recv_req Y S = do {
     (n, S) \<leftarrow> retry_call Y Sys_ctl_read S;
     if n < 0 then Some (None, S)
     else (case n_ctrl S of [] \<Rightarrow> None | r # rs \<Rightarrow> Some (Some r, S\<lparr>n_ctrl := rs\<rparr>)) }"

text \<open>\<open>_socket_bind\<close>: the descriptor, or a negative number, and the family.\<close>

definition socket_bind_addr ::
  "'o sys \<Rightarrow> string option \<Rightarrow> int \<Rightarrow> int \<Rightarrow> int \<Rightarrow> 'o net \<Rightarrow> ((int \<times> int) \<times> 'o net) option" where
  "socket_bind_addr Y host port prot family S =
     (let host = (if host = None \<or> host = Some [] then Some ''0.0.0.0'' else host);
          socktype = (if prot = 6 then 1 else 2);
          ((status, ais), os) = y_getaddrinfo Y host (sdec port) socktype prot (n_os S);
          S = S\<lparr>n_os := os\<rparr> in
      if status \<noteq> 0 then Some ((- 1, family), S)
      else (case ais of
        [] \<Rightarrow> None
      | ai # _ \<Rightarrow>
         (let family = ai_family ai;
              (fd, S) = sys_call Y (Sys_socket family (ai_socktype ai) 0) S in
          if fd < 0 then Some ((- 1, family), S)
          else (let (r, S) = sys_call Y (Sys_reuseaddr fd) S in
            if r = - 1 then Some ((- 1, family), snd (sys_call Y (Sys_close fd) S))
            else (let (r, S) = sys_call Y (Sys_bind fd (ai_addr ai)) S in
              if r \<noteq> 0 then Some ((- 1, family), snd (sys_call Y (Sys_close fd) S))
              else Some ((fd, family), S))))))"

definition socket_listen_fd :: "'o sys \<Rightarrow> string option \<Rightarrow> int \<Rightarrow> 'o net \<Rightarrow> (int \<times> 'o net) option" where
  "socket_listen_fd Y host port S = do {
     ((fd, _), S) \<leftarrow> socket_bind_addr Y host port 6 0 S;
     if fd < 0 then Some (- 1, S)
     else
       (let (r, S) = sys_call Y (Sys_listen fd 512) S in
        if r = - 1 then Some (- 1, snd (sys_call Y (Sys_close fd) S)) else Some (fd, S)) }"

fun socket_free_buffer_list :: "wbuffer list \<Rightarrow> world \<Rightarrow> world option" where
  "socket_free_buffer_list [] W = Some W"
| "socket_free_buffer_list (b # bs) W = do { W \<leftarrow> free_data (b_buff b) W; socket_free_buffer_list bs W }"

definition close_msg :: "socket \<Rightarrow> smsg" where
  "close_msg s = \<lparr>m_id = s_id s, m_ud = s_ud s, m_data = M_null, m_size = 0\<rparr>"

definition socket_force_close :: "'o sys \<Rightarrow> nat \<Rightarrow> 'o net \<Rightarrow> (smsg \<times> 'o net) option" where
  "socket_force_close Y i S =
     (let s = slot S i in
      if s_type s = T_INVALID then Some (close_msg s, S)
      else if s_type s = T_RESERVE then None
      else do {
        W \<leftarrow> socket_free_buffer_list (high s) (n_w S);
        W \<leftarrow> socket_free_buffer_list (low s) W;
        let S = set_slot i (\<lambda>s. s\<lparr>high := [], low := []\<rparr>) (S\<lparr>n_w := W\<rparr>);
        let S = (if s_type s \<noteq> T_PACCEPT \<and> s_type s \<noteq> T_PLISTEN then event_del Y (s_fd s) S else S);
        let S = (if s_type s \<noteq> T_BIND then snd (sys_call Y (Sys_close (s_fd s)) S) else S);
        Some (close_msg s, set_type i T_INVALID S) })"

text \<open>\<open>socket_send_object_init\<close>: where the data begin, their size, and whether it is an object; \<open>so.free\<close> goes by the latter.\<close>

definition socket_send_object_init :: "addr \<Rightarrow> int \<Rightarrow> 'o net \<Rightarrow> (addr \<times> int \<times> bool) option" where
  "socket_send_object_init data siz S =
     (if siz < 0 then do { soi \<leftarrow> n_soi S; Some (soi_data soi data, soi_size soi data, True) }
      else Some (data, siz, False))"

definition so_free :: "bool \<Rightarrow> addr \<Rightarrow> 'o net \<Rightarrow> 'o net option" where
  "so_free obj data S =
     (if obj then do { soi \<leftarrow> n_soi S; in_world (soi_free soi data) S } else in_world (free_data data) S)"

section \<open>Writing\<close>

definition set_list :: "nat \<Rightarrow> bool \<Rightarrow> wbuffer list \<Rightarrow> 'o net \<Rightarrow> 'o net" where
  "set_list i hi bs S = set_slot i (if hi then high_update (\<lambda>_. bs) else low_update (\<lambda>_. bs)) S"

text \<open>
  \<open>socket_send_buffer_list\<close> on the list \<open>high\<close> or \<open>low\<close> of a socket, given as its nodes. The result is \<open>-1\<close> or
  \<open>SOCKET_CLOSE\<close>, with the message that \<open>socket_force_close\<close> fills in.
\<close>

fun socket_send_buffer_list ::
  "'o sys \<Rightarrow> nat \<Rightarrow> bool \<Rightarrow> wbuffer list \<Rightarrow> smsg \<Rightarrow> 'o net \<Rightarrow> (int \<times> smsg \<times> 'o net) option" where
  "socket_send_buffer_list Y i hi [] msg S = Some (- 1, msg, set_list i hi [] S)"
| "socket_send_buffer_list Y i hi (b # bs) msg S = do {
     data \<leftarrow> region (b_base b) (b_off b) (b_len b) (n_w S);
     (sz, S) \<leftarrow> retry_call Y (Sys_write (s_fd (slot S i)) data) S;
     if sz < 0 then
       if errno_of Y S = EAGAIN then Some (- 1, msg, S)
       else do { (msg, S) \<leftarrow> socket_force_close Y i S; Some (SOCKET_CLOSE, msg, S) }
     else
       (let S = set_slot i (\<lambda>s. s\<lparr>wb_size := wb_size s - sz\<rparr>) S in
        if sz \<noteq> b_len b
        then Some (- 1, msg, set_list i hi (b\<lparr>b_off := b_off b + nat sz, b_len := b_len b - sz\<rparr> # bs) S)
        else do {
          S \<leftarrow> in_world (free_data (b_buff b)) (set_list i hi bs S);
          socket_send_buffer_list Y i hi bs msg S }) }"

definition socket_buffer_list_complete :: "wbuffer list \<Rightarrow> bool" where
  "socket_buffer_list_complete bs = (case bs of [] \<Rightarrow> True | b # _ \<Rightarrow> b_base b = b_buff b \<and> b_off b = 0)"

definition socket_send_buffer :: "'o sys \<Rightarrow> nat \<Rightarrow> smsg \<Rightarrow> 'o net \<Rightarrow> (int \<times> smsg \<times> 'o net) option" where
  "socket_send_buffer Y i msg S =
     (if \<not> socket_buffer_list_complete (low (slot S i)) then None
      else do {
        (r, msg, S) \<leftarrow> socket_send_buffer_list Y i True (high (slot S i)) msg S;
        if r = SOCKET_CLOSE then Some (SOCKET_CLOSE, msg, S)
        else if high (slot S i) \<noteq> [] then Some (- 1, msg, S)
        else if low (slot S i) \<noteq> [] then do {
          (r, msg, S) \<leftarrow> socket_send_buffer_list Y i False (low (slot S i)) msg S;
          if r = SOCKET_CLOSE then Some (SOCKET_CLOSE, msg, S)
          else if socket_buffer_list_complete (low (slot S i)) then Some (- 1, msg, S)
          else Some (- 1, msg, set_slot i (\<lambda>s. s\<lparr>high := [hd (low s)], low := tl (low s)\<rparr>) S) }
        else
          (let S = event_write Y (s_fd (slot S i)) (Some i) False S in
           if s_type (slot S i) = T_HALFCLOSE
           then do { (msg, S) \<leftarrow> socket_force_close Y i S; Some (SOCKET_CLOSE, msg, S) }
           else Some (- 1, msg, S)) })"

section \<open>Reading\<close>

text \<open>A buffer size behind \<open>INT_MAX\<close> is a signed overflow.\<close>

definition socket_forward_tcp :: "'o sys \<Rightarrow> nat \<Rightarrow> smsg \<Rightarrow> 'o net \<Rightarrow> (int \<times> smsg \<times> 'o net) option" where
  "socket_forward_tcp Y i msg S = do {
     sz \<leftarrow> (case s_p (slot S i) of P_size sz \<Rightarrow> Some sz | P_udp _ \<Rightarrow> None);
     (buf, S) \<leftarrow> net_alloc sz S;
     let (res, os) = y_read Y (s_fd (slot S i)) sz (n_os S);
     let S = S\<lparr>n_os := os\<rparr>;
     case res of
       None \<Rightarrow> do {
         S \<leftarrow> in_world (free_data buf) S;
         if errno_of Y S \<in> {EINTR, EAGAIN} then Some (- 1, msg, S)
         else do {
           (msg, S) \<leftarrow> socket_force_close Y i S;
           Some (SOCKET_ERR, msg\<lparr>m_data := M_text (y_strerror Y (errno_of Y S))\<rparr>, S) } }
     | Some bs \<Rightarrow> do {
         S \<leftarrow> in_world (store buf bs) S;
         if bs = [] then do {
           S \<leftarrow> in_world (free_data buf) S;
           (msg, S) \<leftarrow> socket_force_close Y i S;
           Some (SOCKET_CLOSE, msg, S) }
         else if s_type (slot S i) = T_HALFCLOSE then do {
           S \<leftarrow> in_world (free_data buf) S;
           Some (- 1, msg, S) }
         else do {
           let n = int (length bs);
           sz' \<leftarrow> (if n = sz then if sz * 2 \<ge> 2 ^ 31 then None else Some (sz * 2)
                  else Some (if sz > MIN_SOCK_BUFF \<and> n * 2 < sz then sz div 2 else sz));
           let S = set_slot i (\<lambda>s. s\<lparr>s_p := P_size sz'\<rparr>) S;
           Some (SOCKET_DATA, \<lparr>m_id = s_id (slot S i), m_ud = s_ud (slot S i), m_data = M_block buf, m_size = n\<rparr>, S) } } }"

fun gen_udp_address :: "int \<Rightarrow> sockaddr \<Rightarrow> bytes option" where
  "gen_udp_address prot (V4 port a) = (if prot = PROTOCOL_UDP then Some (word_of_int prot # port @ a) else None)"
| "gen_udp_address prot (V6 port a) = (if prot = PROTOCOL_UDP then None else Some (word_of_int prot # port @ a))"
| "gen_udp_address prot (SA_other n) = None"

fun is_v4 :: "sockaddr \<Rightarrow> bool" where
  "is_v4 (V4 port a) = True"
| "is_v4 (V6 port a) = False"
| "is_v4 (SA_other n) = False"

definition socket_forward_udp :: "'o sys \<Rightarrow> nat \<Rightarrow> smsg \<Rightarrow> 'o net \<Rightarrow> (int \<times> smsg \<times> 'o net) option" where
  "socket_forward_udp Y i msg S =
     (let s = slot S i;
          (res, os) = y_recvfrom Y (s_fd s) MAX_UDP_PACKAGE (n_os S);
          S = S\<lparr>n_os := os\<rparr> in
      case res of
        None \<Rightarrow>
          if errno_of Y S \<in> {EINTR, EAGAIN} then Some (- 1, msg, S)
          else do {
            (msg, S) \<leftarrow> socket_force_close Y i S;
            Some (SOCKET_ERR, msg\<lparr>m_data := M_text (y_strerror Y (errno_of Y S))\<rparr>, S) }
      | Some (bs, sa) \<Rightarrow>
          (let prot = (if is_v4 sa then PROTOCOL_UDP else PROTOCOL_UDPv6);
               asz = (if is_v4 sa then 1 + 2 + 4 else 1 + 2 + 16) in
           if length bs > MAX_UDP_PACKAGE then None
           else if s_protocol s \<noteq> prot then Some (- 1, msg, S)
           else do {
             (data, S) \<leftarrow> net_alloc (int (length bs) + asz) S;
             addr \<leftarrow> gen_udp_address prot sa;
             S \<leftarrow> in_world (store data (bs @ addr)) S;
             Some (SOCKET_UDP, \<lparr>m_id = s_id s, m_ud = s_ud s, m_data = M_block data, m_size = int (length bs)\<rparr>, S) }))"

section \<open>Requests\<close>

definition socket_append_buffer :: "send_req \<Rightarrow> nat \<Rightarrow> bytes \<Rightarrow> 'o net \<Rightarrow> wbuffer option" where
  "socket_append_buffer req n addr S = do {
     (base, siz, obj) \<leftarrow> socket_send_object_init (rq_data req) (rq_size req) S;
     Some \<lparr>b_buff = rq_data req, b_base = base, b_off = n, b_len = siz - int n, b_send_object = obj,
           b_udp_address = addr\<rparr> }"

text \<open>
  \<open>socket_append_sendbuffer\<close> and \<open>socket_append_udp_sendbuffer\<close>: \<open>n\<close> bytes were sent already; the address is empty for TCP.
  Another priority than the two drops the request without freeing it.
\<close>

definition socket_append_sendbuffer :: "nat \<Rightarrow> send_req \<Rightarrow> nat \<Rightarrow> bytes \<Rightarrow> 'o net \<Rightarrow> 'o net option" where
  "socket_append_sendbuffer i req n addr S =
     (if rq_priority req = SOCKET_PRIORITY_HIGH then do {
        b \<leftarrow> socket_append_buffer req n addr S;
        Some (set_slot i (\<lambda>s. s\<lparr>high := high s @ [b], wb_size := wb_size s + b_len b\<rparr>) S) }
      else if rq_priority req = SOCKET_PRIORITY_LOW then do {
        b \<leftarrow> socket_append_buffer req n addr S;
        Some (set_slot i (\<lambda>s. s\<lparr>low := low s @ [b], wb_size := wb_size s + b_len b\<rparr>) S) }
      else Some S)"

definition socket_req_close :: "'o sys \<Rightarrow> int \<Rightarrow> u64 \<Rightarrow> smsg \<Rightarrow> 'o net \<Rightarrow> (int \<times> smsg \<times> 'o net) option" where
  "socket_req_close Y sid ud msg S = do {
     i \<leftarrow> hash_id sid;
     let s = slot S i;
     if s_type s = T_INVALID \<or> s_id s \<noteq> sid
     then Some (SOCKET_CLOSE, msg\<lparr>m_id := sid, m_ud := ud, m_data := M_text ''closed''\<rparr>, S)
     else do {
       (r, msg, S) \<leftarrow> (if high s \<noteq> [] \<or> low s \<noteq> [] then socket_send_buffer Y i msg S else Some (- 1, msg, S));
       if r \<noteq> - 1 then Some (r, msg, S)
       else if high (slot S i) = [] \<and> low (slot S i) = [] then do {
         (msg, S) \<leftarrow> socket_force_close Y i S;
         Some (SOCKET_CLOSE, \<lparr>m_id = sid, m_ud = ud, m_data = M_text ''closed'', m_size = 0\<rparr>, S) }
       else Some (- 1, msg, set_type i T_HALFCLOSE S) } }"

definition socket_req_listen ::
  "'o sys \<Rightarrow> int \<Rightarrow> int \<Rightarrow> u64 \<Rightarrow> smsg \<Rightarrow> 'o net \<Rightarrow> (int \<times> smsg \<times> 'o net) option" where
  "socket_req_listen Y sid fd ud msg S = do {
     (so, S) \<leftarrow> socket_new Y fd sid PROTOCOL_TCP ud False S;
     case so of
       Some i \<Rightarrow> Some (- 1, msg, set_type i T_PLISTEN S)
     | None \<Rightarrow> do {
         let S = snd (sys_call Y (Sys_close fd) S);
         i \<leftarrow> hash_id sid;
         Some (SOCKET_ERR, msg\<lparr>m_id := sid, m_ud := ud, m_data := M_text ''socket limit''\<rparr>, set_type i T_INVALID S) } }"

text \<open>\<open>ntohs\<close> of the port, and the text of an address in \<open>S.buffer\<close>.\<close>

definition ntohs :: "bytes \<Rightarrow> int" where
  "ntohs port = uint (port ! 0) * 256 + uint (port ! 1)"

fun sockaddr_port :: "sockaddr \<Rightarrow> int option" where
  "sockaddr_port (V4 port a) = Some (ntohs port)"
| "sockaddr_port (V6 port a) = Some (ntohs port)"
| "sockaddr_port (SA_other n) = None"

definition addr_text :: "'o sys \<Rightarrow> sockaddr \<Rightarrow> string option" where
  "addr_text Y sa = do {
     tmp \<leftarrow> y_ntop Y sa;
     port \<leftarrow> sockaddr_port sa;
     Some (take (MAX_SOCK_INFO - 1) (tmp @ '':'' @ sdec port)) }"

definition put_info :: "'o sys \<Rightarrow> sockaddr option \<Rightarrow> smsg \<Rightarrow> 'o net \<Rightarrow> smsg \<times> 'o net" where
  "put_info Y sa msg S =
     (case Option.bind sa (addr_text Y) of
        None \<Rightarrow> (msg, S)
      | Some line \<Rightarrow> (msg\<lparr>m_data := M_info\<rparr>, S\<lparr>n_info := line\<rparr>))"

text \<open>The loop over the addresses in \<open>socket_req_open\<close>: the descriptor, the result of \<open>connect\<close> and the address.\<close>

fun open_loop :: "'o sys \<Rightarrow> addrinfo list \<Rightarrow> int \<Rightarrow> 'o net \<Rightarrow> (int \<times> int \<times> sockaddr option) \<times> 'o net" where
  "open_loop Y [] status S = ((- 1, status, None), S)"
| "open_loop Y (ai # ais) status S =
     (let (fd, S) = sys_call Y (Sys_socket (ai_family ai) (ai_socktype ai) (ai_protocol ai)) S in
      if fd < 0 then open_loop Y ais status S
      else
        (let S = socket_nonblocking Y fd (socket_keepalive Y fd S);
             (status, S) = sys_call Y (Sys_connect fd (ai_addr ai)) S in
         if status \<noteq> 0 \<and> errno_of Y S \<noteq> EINPROGRESS
         then open_loop Y ais status (snd (sys_call Y (Sys_close fd) S))
         else ((fd, status, Some (ai_addr ai)), S)))"

definition open_failed :: "int \<Rightarrow> smsg \<Rightarrow> string \<Rightarrow> 'o net \<Rightarrow> (int \<times> smsg \<times> 'o net) option" where
  "open_failed sid msg why S = do {
     i \<leftarrow> hash_id sid;
     Some (SOCKET_ERR, msg\<lparr>m_data := M_text why\<rparr>, set_type i T_INVALID S) }"

definition socket_req_open ::
  "'o sys \<Rightarrow> int \<Rightarrow> int \<Rightarrow> u64 \<Rightarrow> string \<Rightarrow> smsg \<Rightarrow> 'o net \<Rightarrow> (int \<times> smsg \<times> 'o net) option" where
  "socket_req_open Y sid port ud host msg S =
     (let msg = msg\<lparr>m_id := sid, m_ud := ud\<rparr>;
          ((status, ais), os) = y_getaddrinfo Y (Some host) (sdec port) 1 6 (n_os S);
          S = S\<lparr>n_os := os\<rparr> in
      if status \<noteq> 0 then open_failed sid msg (y_gai_strerror Y status) S
      else
        (let ((fd, status, sa), S) = open_loop Y ais status S in
         if fd < 0 then open_failed sid msg (y_strerror Y (errno_of Y S)) S
         else do {
           (so, S) \<leftarrow> socket_new Y fd sid PROTOCOL_TCP ud True S;
           case so of
             None \<Rightarrow> open_failed sid msg ''socket limit'' (snd (sys_call Y (Sys_close fd) S))
           | Some i \<Rightarrow>
               if status = 0 then
                 (let (msg, S) = put_info Y sa msg (set_type i T_OPENED S) in Some (SOCKET_OPEN, msg, S))
               else Some (- 1, msg, event_write Y fd (Some i) True (set_type i T_OPENING S)) }))"

definition socket_req_start :: "'o sys \<Rightarrow> int \<Rightarrow> u64 \<Rightarrow> smsg \<Rightarrow> 'o net \<Rightarrow> (int \<times> smsg \<times> 'o net) option" where
  "socket_req_start Y sid ud msg S = do {
     i \<leftarrow> hash_id sid;
     let msg = msg\<lparr>m_id := sid, m_ud := ud\<rparr>;
     let s = slot S i;
     if s_type s = T_INVALID \<or> s_id s \<noteq> sid
     then Some (SOCKET_ERR, msg\<lparr>m_data := M_text ''socket invalid id''\<rparr>, S)
     else if s_type s = T_PACCEPT \<or> s_type s = T_PLISTEN then
       (let (err, S) = event_add Y (s_fd s) (Some i) S in
        if err then Some (SOCKET_ERR, msg\<lparr>m_data := M_text (y_strerror Y (errno_of Y S))\<rparr>, set_type i T_INVALID S)
        else Some (SOCKET_OPEN, msg\<lparr>m_data := M_text ''start''\<rparr>,
          set_slot i (\<lambda>s. s\<lparr>s_type := (if s_type s = T_PACCEPT then T_OPENED else T_LISTEN), s_ud := ud\<rparr>) S))
     else if s_type s = T_OPENED
     then Some (SOCKET_OPEN, msg\<lparr>m_data := M_text ''transfer''\<rparr>, set_slot i (\<lambda>s. s\<lparr>s_ud := ud\<rparr>) S)
     else Some (- 1, msg, S) }"

definition socket_req_bind ::
  "'o sys \<Rightarrow> int \<Rightarrow> int \<Rightarrow> u64 \<Rightarrow> smsg \<Rightarrow> 'o net \<Rightarrow> (int \<times> smsg \<times> 'o net) option" where
  "socket_req_bind Y sid fd ud msg S = do {
     let msg = msg\<lparr>m_id := sid, m_ud := ud, m_size := 0\<rparr>;
     (so, S) \<leftarrow> socket_new Y fd sid PROTOCOL_TCP ud True S;
     case so of
       None \<Rightarrow> Some (SOCKET_ERR, msg\<lparr>m_data := M_text ''socket limit''\<rparr>, S)
     | Some i \<Rightarrow> Some (SOCKET_OPEN, msg\<lparr>m_data := M_text ''binding''\<rparr>, set_type i T_BIND (socket_nonblocking Y fd S)) }"

text \<open>\<open>udp_socket_address\<close>: \<open>None\<close> when the size it returns is 0.\<close>

definition udp_socket_address :: "socket \<Rightarrow> bytes \<Rightarrow> sockaddr option" where
  "udp_socket_address s addr =
     (if uint (addr ! 0) \<noteq> s_protocol s then None
      else if s_protocol s = PROTOCOL_UDP then Some (V4 (take 2 (drop 1 addr)) (take 4 (drop 3 addr)))
      else if s_protocol s = PROTOCOL_UDPv6 then Some (V6 (take 2 (drop 1 addr)) (take 16 (drop 3 addr)))
      else None)"

text \<open>
  \<open>socket_req_send\<close>: first what is done with the data of a socket that has nothing queued, then the check of the amount queued. The
  inner result \<open>Some r\<close> is a return from the function.
\<close>

definition send_now ::
  "'o sys \<Rightarrow> nat \<Rightarrow> send_req \<Rightarrow> bytes \<Rightarrow> smsg \<Rightarrow> 'o net \<Rightarrow> (int option \<times> smsg \<times> 'o net) option" where
  "send_now Y i req udp_address msg S = do {
     let s = slot S i;
     (base, siz, obj) \<leftarrow> socket_send_object_init (rq_data req) (rq_size req) S;
     data \<leftarrow> region base 0 siz (n_w S);
     if s_protocol s = PROTOCOL_TCP then
       (let (n, S) = sys_call Y (Sys_write (s_fd s) data) S in
        if n < 0 \<and> errno_of Y S \<notin> {EINTR, EAGAIN} then do {
          (msg, S) \<leftarrow> socket_force_close Y i S;
          S \<leftarrow> so_free obj (rq_data req) S;
          Some (Some SOCKET_CLOSE, msg, S) }
        else
          (let n = (if n < 0 then 0 else n) in
           if n = siz then do { S \<leftarrow> so_free obj (rq_data req) S; Some (Some (- 1), msg, S) }
           else do {
             S \<leftarrow> socket_append_sendbuffer i req (nat n) [] S;
             Some (None, msg, event_write Y (s_fd (slot S i)) (Some i) True S) }))
     else
       (let (n, S) = sys_call Y (Sys_sendto (s_fd s) data (udp_socket_address s udp_address)) S in
        if n \<noteq> rq_size req then do {
          S \<leftarrow> socket_append_sendbuffer i req 0 udp_address S;
          Some (None, msg, event_write Y (s_fd (slot S i)) (Some i) True S) }
        else do { S \<leftarrow> so_free obj (rq_data req) S; Some (Some (- 1), msg, S) }) }"

definition udp_target :: "socket \<Rightarrow> bytes option \<Rightarrow> bytes option" where
  "udp_target s udp_address =
     (if s_protocol s = PROTOCOL_TCP then Some []
      else (case udp_address of
        Some a \<Rightarrow> Some a
      | None \<Rightarrow> (case s_p s of P_udp a \<Rightarrow> Some a | P_size _ \<Rightarrow> None)))"

definition socket_req_send ::
  "'o sys \<Rightarrow> send_req \<Rightarrow> bytes option \<Rightarrow> smsg \<Rightarrow> 'o net \<Rightarrow> (int \<times> smsg \<times> 'o net) option" where
  "socket_req_send Y req udp_address msg S = do {
     i \<leftarrow> hash_id (rq_id req);
     let s = slot S i;
     (_, _, obj) \<leftarrow> socket_send_object_init (rq_data req) (rq_size req) S;
     if s_type s = T_INVALID \<or> s_id s \<noteq> rq_id req \<or> s_type s = T_HALFCLOSE \<or> s_type s = T_PACCEPT \<or>
        s_type s = T_PLISTEN \<or> s_type s = T_LISTEN
     then do { S \<leftarrow> so_free obj (rq_data req) S; Some (- 1, msg, S) }
     else do {
       addr \<leftarrow> udp_target s udp_address;
       (r, msg, S) \<leftarrow>
         (if high s = [] \<and> low s = [] \<and> s_type s = T_OPENED then send_now Y i req addr msg S
          else do { S \<leftarrow> socket_append_sendbuffer i req 0 addr S; Some (None, msg, S) });
       case r of
         Some r \<Rightarrow> Some (r, msg, S)
       | None \<Rightarrow>
           let s = slot S i in
           if wb_size s > 1024 * 1024
           then Some (SOCKET_WARNING,
             \<lparr>m_id = s_id s, m_ud = s_ud s, m_data = M_null, m_size = wb_size s div 1024\<rparr>, S)
           else Some (- 1, msg, S) } }"

definition socket_req_opt :: "'o sys \<Rightarrow> int \<Rightarrow> int \<Rightarrow> int \<Rightarrow> smsg \<Rightarrow> 'o net \<Rightarrow> (int \<times> smsg \<times> 'o net) option" where
  "socket_req_opt Y sid what val msg S = do {
     i \<leftarrow> hash_id sid;
     let s = slot S i;
     Some (- 1, msg,
       if s_type s = T_INVALID \<or> s_id s \<noteq> sid then S else snd (sys_call Y (Sys_tcpopt (s_fd s) what val) S)) }"

definition p_bytes :: "sock_p \<Rightarrow> bytes option" where
  "p_bytes p = (case p of P_udp a \<Rightarrow> Some a | P_size _ \<Rightarrow> None)"

text \<open>
  \<open>socket_req_setudp\<close>. On a TCP socket the copy would overwrite the read size; an address that
  \<open>gen_udp_address\<close> made is never taken for one of TCP.
\<close>

definition socket_req_setudp :: "int \<Rightarrow> bytes \<Rightarrow> smsg \<Rightarrow> 'o net \<Rightarrow> (int \<times> smsg \<times> 'o net) option" where
  "socket_req_setudp sid addr msg S = do {
     i \<leftarrow> hash_id sid;
     let s = slot S i;
     if s_type s = T_INVALID \<or> s_id s \<noteq> sid then Some (- 1, msg, S)
     else if uint (addr ! 0) \<noteq> s_protocol s
     then Some (SOCKET_ERR, msg\<lparr>m_id := sid, m_ud := s_ud s, m_data := M_text ''socket protocol mismatch''\<rparr>, S)
     else do {
       old \<leftarrow> p_bytes (s_p s);
       let n = (if uint (addr ! 0) = PROTOCOL_UDP then 1 + 2 + 4 else 1 + 2 + 16);
       Some (- 1, msg, set_slot i (\<lambda>s. s\<lparr>s_p := P_udp (take n addr @ drop n old)\<rparr>) S) } }"

definition socket_req_udp ::
  "'o sys \<Rightarrow> int \<Rightarrow> int \<Rightarrow> int \<Rightarrow> u64 \<Rightarrow> smsg \<Rightarrow> 'o net \<Rightarrow> (int \<times> smsg \<times> 'o net) option" where
  "socket_req_udp Y sid fd family ud msg S = do {
     (so, S) \<leftarrow> socket_new Y fd sid (if family = AF_INET6 then PROTOCOL_UDPv6 else PROTOCOL_UDP) ud True S;
     case so of
       None \<Rightarrow> do {
         let S = snd (sys_call Y (Sys_close fd) S);
         i \<leftarrow> hash_id sid;
         Some (- 1, msg, set_type i T_INVALID S) }
     | Some i \<Rightarrow>
         Some (- 1, msg, set_slot i (\<lambda>s. s\<lparr>s_type := T_OPENED, s_p := P_udp (replicate UDP_ADDRESS_SIZE 0)\<rparr>) S) }"

fun handle_req :: "'o sys \<Rightarrow> socket_req \<Rightarrow> smsg \<Rightarrow> 'o net \<Rightarrow> (int \<times> smsg \<times> 'o net) option" where
  "handle_req Y Req_exit msg S = Some (SOCKET_EXIT, \<lparr>m_id = 0, m_ud = 0, m_data = M_null, m_size = 0\<rparr>, S)"
| "handle_req Y (Req_close sid ud) msg S = socket_req_close Y sid ud msg S"
| "handle_req Y (Req_listen sid fd ud) msg S = socket_req_listen Y sid fd ud msg S"
| "handle_req Y (Req_open sid port ud host) msg S = socket_req_open Y sid port ud host msg S"
| "handle_req Y (Req_start sid ud) msg S = socket_req_start Y sid ud msg S"
| "handle_req Y (Req_bind sid fd ud) msg S = socket_req_bind Y sid fd ud msg S"
| "handle_req Y (Req_send req) msg S = socket_req_send Y req None msg S"
| "handle_req Y (Req_opt sid what val) msg S = socket_req_opt Y sid what val msg S"
| "handle_req Y (Req_setudp sid addr) msg S = socket_req_setudp sid addr msg S"
| "handle_req Y (Req_udp sid fd family ud) msg S = socket_req_udp Y sid fd family ud msg S"
| "handle_req Y (Req_sendudp req addr) msg S = socket_req_send Y req (Some addr) msg S"

definition socket_handle_req :: "'o sys \<Rightarrow> smsg \<Rightarrow> 'o net \<Rightarrow> (int \<times> smsg \<times> 'o net) option" where
  "socket_handle_req Y msg S = do {
     (req, S) \<leftarrow> socket_recv_req Y S;
     case req of None \<Rightarrow> Some (- 1, msg, S) | Some req \<Rightarrow> handle_req Y req msg S }"

section \<open>Events\<close>

definition socket_try_open :: "'o sys \<Rightarrow> nat \<Rightarrow> smsg \<Rightarrow> 'o net \<Rightarrow> (int \<times> smsg \<times> 'o net) option" where
  "socket_try_open Y i msg S =
     (let s = slot S i;
          ((code, err), os) = y_so_error Y (s_fd s) (n_os S);
          S = S\<lparr>n_os := os\<rparr> in
      if code < 0 \<or> err \<noteq> 0 then do {
        (msg, S) \<leftarrow> socket_force_close Y i S;
        Some (SOCKET_ERR, msg\<lparr>m_data := M_text (y_strerror Y (errno_of Y S))\<rparr>, S) }
      else
        (let S = set_type i T_OPENED S;
             S = (if high s = [] \<and> low s = [] then event_write Y (s_fd s) (Some i) False S else S);
             (sa, os) = y_getpeername Y (s_fd s) (n_os S);
             (msg, S) = put_info Y sa msg (S\<lparr>n_os := os\<rparr>) in
         Some (SOCKET_OPEN, msg, S)))"

definition socket_try_accept :: "'o sys \<Rightarrow> nat \<Rightarrow> smsg \<Rightarrow> 'o net \<Rightarrow> (int \<times> smsg \<times> 'o net) option" where
  "socket_try_accept Y i msg S =
     (let s = slot S i;
          ((client_fd, sa), os) = y_accept Y (s_fd s) (n_os S);
          S = S\<lparr>n_os := os\<rparr> in
      if client_fd < 0 then
        if errno_of Y S \<in> {EMFILE, ENFILE}
        then Some (SOCKET_ERR, msg\<lparr>m_id := s_id s, m_ud := s_ud s, m_data := M_text (y_strerror Y (errno_of Y S))\<rparr>, S)
        else Some (- 1, msg, S)
      else
        (let (sid, S) = socket_next_id S in
         if sid < 0 then Some (- 1, msg, snd (sys_call Y (Sys_close client_fd) S))
         else do {
           let S = socket_nonblocking Y client_fd (socket_keepalive Y client_fd S);
           (so, S) \<leftarrow> socket_new Y client_fd sid PROTOCOL_TCP (s_ud s) False S;
           case so of
             None \<Rightarrow> Some (- 1, msg, snd (sys_call Y (Sys_close client_fd) S))
           | Some j \<Rightarrow>
               (let S = set_type j T_PACCEPT S;
                    (msg, S) = put_info Y (Some sa) (msg\<lparr>m_size := s_id (slot S j), m_data := M_null\<rparr>) S in
                Some (SOCKET_ACCEPT, msg, S)) }))"

text \<open>\<open>clear_closed\<close>: the events from \<open>ev_idx\<close> on that belong to the closed socket are dropped.\<close>

definition clear_closed :: "int \<Rightarrow> int \<Rightarrow> 'o net \<Rightarrow> 'o net" where
  "clear_closed sid ty S =
     (if ty = SOCKET_CLOSE \<or> ty = SOCKET_ERR then
        S\<lparr>n_ev := take (ev_idx S) (n_ev S) @
          map (\<lambda>e. case e_ud e of
                     None \<Rightarrow> e
                   | Some j \<Rightarrow> if s_type (slot S j) = T_INVALID \<and> s_id (slot S j) = sid then e\<lparr>e_ud := None\<rparr> else e)
              (drop (ev_idx S) (n_ev S))\<rparr>
      else S)"

text \<open>What one round of the loop in \<open>socket_poll\<close> does: go round again, leave it with a message, or return \<open>-1\<close>.\<close>

datatype poll_round = Again | Leave int | Stop

definition round_of :: "int \<Rightarrow> poll_round" where
  "round_of r = (if r = - 1 then Again else Leave r)"

definition poll_default :: "'o sys \<Rightarrow> nat \<Rightarrow> event \<Rightarrow> smsg \<Rightarrow> 'o net \<Rightarrow> (poll_round \<times> smsg \<times> 'o net) option" where
  "poll_default Y i ev msg S =
     (if e_read ev then do {
        let tcp = (s_protocol (slot S i) = PROTOCOL_TCP);
        (r, msg, S) \<leftarrow> (if tcp then socket_forward_tcp Y i msg S else socket_forward_udp Y i msg S);
        if \<not> tcp \<and> r = SOCKET_UDP then Some (Leave r, msg, S\<lparr>ev_idx := ev_idx S - 1\<rparr>)
        else
          (let S = (if e_write ev
                    then S\<lparr>n_ev := (n_ev S)[ev_idx S - 1 := ev\<lparr>e_read := False\<rparr>], ev_idx := ev_idx S - 1\<rparr>
                    else S) in
           if r = - 1 then Some (Again, msg, S)
           else Some (Leave r, msg, clear_closed (s_id (slot S i)) r S)) }
      else if e_write ev then do {
        (r, msg, S) \<leftarrow> socket_send_buffer Y i msg S;
        if r = - 1 then Some (Again, msg, S)
        else Some (Leave r, msg, clear_closed (s_id (slot S i)) r S) }
      else Some (Again, msg, S))"

definition poll_event :: "'o sys \<Rightarrow> smsg \<Rightarrow> 'o net \<Rightarrow> (poll_round \<times> smsg \<times> 'o net) option" where
  "poll_event Y msg S =
     (let ev = n_ev S ! ev_idx S;
          S = S\<lparr>ev_idx := ev_idx S + 1\<rparr> in
      case e_ud ev of
        None \<Rightarrow> Some (Again, msg, S)
      | Some i \<Rightarrow>
          (let s = slot S i; msg = close_msg s in
           case s_type s of
             T_OPENING \<Rightarrow> do { (r, msg, S) \<leftarrow> socket_try_open Y i msg S; Some (Leave r, msg, S) }
           | T_LISTEN \<Rightarrow> do { (r, msg, S) \<leftarrow> socket_try_accept Y i msg S; Some (round_of r, msg, S) }
           | T_INVALID \<Rightarrow> Some (Again, msg, S)
           | _ \<Rightarrow> poll_default Y i ev msg S))"

definition poll_once :: "'o sys \<Rightarrow> smsg \<Rightarrow> 'o net \<Rightarrow> (poll_round \<times> smsg \<times> 'o net) option" where
  "poll_once Y msg S =
     (if check_ctrl S \<and> n_ctrl S \<noteq> [] then do {
        (r, msg, S) \<leftarrow> socket_handle_req Y msg S;
        Some (if r = - 1 then (Again, msg, S) else (Leave r, msg, clear_closed (m_id msg) r S)) }
      else
        (let S = S\<lparr>check_ctrl := False\<rparr> in
         if ev_idx S = length (n_ev S) then
           (let (evs, S) = event_wait Y MAX_EVENT S;
                S = S\<lparr>check_ctrl := True, ev_idx := 0\<rparr> in
            case evs of
              None \<Rightarrow> Some (Stop, msg, S\<lparr>n_ev := []\<rparr>)
            | Some es \<Rightarrow>
                if es = [] then Some (Stop, msg, S\<lparr>n_ev := []\<rparr>)
                else if length es > MAX_EVENT then None
                else poll_event Y msg (S\<lparr>n_ev := es\<rparr>))
         else poll_event Y msg S))"

partial_function (option) poll_loop :: "'o sys \<Rightarrow> smsg \<Rightarrow> 'o net \<Rightarrow> (int option \<times> smsg \<times> 'o net) option" where
  "poll_loop Y msg S = do {
     (r, msg, S) \<leftarrow> poll_once Y msg S;
     case r of Again \<Rightarrow> poll_loop Y msg S | Leave r \<Rightarrow> Some (Some r, msg, S) | Stop \<Rightarrow> Some (None, msg, S) }"

text \<open>
  The message as the runtime gets it, with the bytes of \<open>struct socket_message\<close>: type, id, owner, data, size, and padding. The linker
  decides where the constants and \<open>S.buffer\<close> are (\<open>ptr\<close>).
\<close>

definition msg_raw :: "(mdata \<Rightarrow> u64) \<Rightarrow> int \<Rightarrow> smsg \<Rightarrow> bytes" where
  "msg_raw ptr ty msg =
     le_bytes 4 (word_of_int ty) @ le_bytes 4 (word_of_int (m_id msg)) @ le_bytes 8 (m_ud msg) @
     le_bytes 8 (ptr (m_data msg)) @ le_bytes 4 (word_of_int (m_size msg)) @ replicate 4 0"

definition socket_poll :: "hooks \<Rightarrow> (mdata \<Rightarrow> u64) \<Rightarrow> 'o sys \<Rightarrow> 'o net \<Rightarrow> (int \<times> 'o net) option" where
  "socket_poll K ptr Y S = do {
     (r, msg, S) \<leftarrow> poll_loop Y \<lparr>m_id = 0, m_ud = 0, m_data = M_null, m_size = 0\<rparr> S;
     case r of
       None \<Rightarrow> Some (- 1, S)
     | Some r \<Rightarrow> do {
         S \<leftarrow> in_world (pixel_socket_dispatch K \<lparr>sm_type = r, sm_ud = m_ud msg, sm_raw = msg_raw ptr r msg\<rparr>) S;
         Some (r, S) } }"

section \<open>The interface of the server\<close>

definition free_socket :: socket where
  "free_socket = \<lparr>s_fd = 0, s_id = 0, s_ud = 0, wb_size = 0, high = [], low = [], s_type = T_INVALID, s_protocol = 0,
                  s_p = P_size 0\<rparr>"

text \<open>\<open>socket_init\<close>: the null pointer that \<open>event_new\<close> may return is used in every case.\<close>

definition socket_init :: "'o sys \<Rightarrow> world \<Rightarrow> 'o \<Rightarrow> (int \<times> 'o net) option" where
  "socket_init Y W os =
     (let S = \<lparr>n_w = W, n_os = os, n_trace = [], next_id = 0, recvctl_fd = 0, sendctl_fd = 0, check_ctrl = False, n_ctrl = [],
               slot = (\<lambda>_. free_socket), n_ev = [], ev_idx = 0, n_info = [], n_soi = None\<rparr>;
          (ok, S) = event_new Y S;
          ((r, fd0, fd1), os) = y_pipe Y (n_os S);
          S = S\<lparr>n_os := os\<rparr> in
      if \<not> ok then None
      else if r \<noteq> 0 then Some (- 1, S)
      else
        (let (err, S) = event_add Y fd0 None S in
         if err then Some (- 1, snd (sys_call Y (Sys_close fd1) (snd (sys_call Y (Sys_close fd0) S))))
         else Some (0, S\<lparr>recvctl_fd := fd0, sendctl_fd := fd1, check_ctrl := True\<rparr>)))"

fun unit_loop :: "'o sys \<Rightarrow> nat list \<Rightarrow> 'o net \<Rightarrow> 'o net option" where
  "unit_loop Y [] S = Some S"
| "unit_loop Y (i # is) S =
     (if s_type (slot S i) \<noteq> T_RESERVE then do { (_, S) \<leftarrow> socket_force_close Y i S; unit_loop Y is S }
      else unit_loop Y is S)"

definition socket_unit :: "'o sys \<Rightarrow> 'o net \<Rightarrow> 'o net option" where
  "socket_unit Y S = do {
     S \<leftarrow> unit_loop Y [0..<MAX_SOCKET] S;
     Some (snd (sys_call Y (Sys_close (recvctl_fd S)) (snd (sys_call Y (Sys_close (sendctl_fd S)) S)))) }"

definition socket_exit :: "'o sys \<Rightarrow> 'o net \<Rightarrow> 'o net option" where
  "socket_exit Y S = socket_send_req Y Req_exit S"

definition socket_start :: "'o sys \<Rightarrow> int \<Rightarrow> u64 \<Rightarrow> 'o net \<Rightarrow> 'o net option" where
  "socket_start Y sid ud S = socket_send_req Y (Req_start sid ud) S"

definition socket_close :: "'o sys \<Rightarrow> int \<Rightarrow> u64 \<Rightarrow> 'o net \<Rightarrow> 'o net option" where
  "socket_close Y sid ud S = socket_send_req Y (Req_close sid ud) S"

text \<open>\<open>strcpy\<close> into the 128 bytes of \<open>host\<close>.\<close>

definition socket_open :: "'o sys \<Rightarrow> string \<Rightarrow> int \<Rightarrow> u64 \<Rightarrow> 'o net \<Rightarrow> (int \<times> 'o net) option" where
  "socket_open Y host port ud S =
     (let (sid, S) = socket_next_id S in
      if length host \<ge> 128 then None
      else do { S \<leftarrow> socket_send_req Y (Req_open sid port ud host) S; Some (sid, S) })"

definition socket_listen :: "'o sys \<Rightarrow> string option \<Rightarrow> int \<Rightarrow> u64 \<Rightarrow> 'o net \<Rightarrow> (int \<times> 'o net) option" where
  "socket_listen Y host port ud S = do {
     (fd, S) \<leftarrow> socket_listen_fd Y host port S;
     if fd < 0 then Some (- 1, S)
     else do {
       let (sid, S) = socket_next_id S;
       S \<leftarrow> socket_send_req Y (Req_listen sid fd ud) S;
       Some (sid, S) } }"

definition socket_bind :: "'o sys \<Rightarrow> int \<Rightarrow> u64 \<Rightarrow> 'o net \<Rightarrow> (int \<times> 'o net) option" where
  "socket_bind Y fd ud S = do {
     let (sid, S) = socket_next_id S;
     S \<leftarrow> socket_send_req Y (Req_bind sid fd ud) S;
     Some (sid, S) }"

definition freebuffer :: "addr \<Rightarrow> int \<Rightarrow> 'o net \<Rightarrow> 'o net option" where
  "freebuffer data siz S = do {
     (_, _, obj) \<leftarrow> socket_send_object_init data siz S;
     so_free obj data S }"

definition socket_send :: "'o sys \<Rightarrow> int \<Rightarrow> addr \<Rightarrow> int \<Rightarrow> int \<Rightarrow> 'o net \<Rightarrow> (int \<times> 'o net) option" where
  "socket_send Y sid data siz priority S = do {
     i \<leftarrow> hash_id sid;
     if s_id (slot S i) \<noteq> sid \<or> s_type (slot S i) = T_INVALID
     then do { S \<leftarrow> freebuffer data siz S; Some (- 1, S) }
     else do {
       S \<leftarrow> socket_send_req Y (Req_send \<lparr>rq_id = sid, rq_priority = priority, rq_size = siz, rq_data = data\<rparr>) S;
       Some (wb_size (slot S i), S) } }"

definition socket_nodelay :: "'o sys \<Rightarrow> int \<Rightarrow> 'o net \<Rightarrow> 'o net option" where
  "socket_nodelay Y sid S = socket_send_req Y (Req_opt sid 1 1) S"

definition socket_udp :: "'o sys \<Rightarrow> string option \<Rightarrow> int \<Rightarrow> u64 \<Rightarrow> 'o net \<Rightarrow> (int \<times> 'o net) option" where
  "socket_udp Y host port ud S = do {
     ((fd, family), S) \<leftarrow>
       (if port \<noteq> 0 \<or> host \<noteq> None then socket_bind_addr Y host port 17 0 S
        else (let (fd, S) = sys_call Y (Sys_socket AF_INET 2 0) S in Some ((fd, AF_INET), S)));
     if fd < 0 then Some (- 1, S)
     else do {
       let (sid, S) = socket_next_id (socket_nonblocking Y fd S);
       S \<leftarrow> socket_send_req Y (Req_udp sid fd family ud) S;
       Some (sid, S) } }"

definition pad_address :: "bytes \<Rightarrow> bytes" where
  "pad_address a = a @ replicate (UDP_ADDRESS_SIZE - length a) 0"

definition socket_udpopen :: "'o sys \<Rightarrow> int \<Rightarrow> string option \<Rightarrow> int \<Rightarrow> 'o net \<Rightarrow> (int \<times> 'o net) option" where
  "socket_udpopen Y sid host port S =
     (let ((status, ais), os) = y_getaddrinfo Y host (sdec port) 2 17 (n_os S);
          S = S\<lparr>n_os := os\<rparr> in
      if status \<noteq> 0 then Some (- 1, S)
      else (case ais of
        [] \<Rightarrow> None
      | ai # _ \<Rightarrow>
          if ai_family ai \<noteq> AF_INET \<and> ai_family ai \<noteq> AF_INET6 then Some (- 1, S)
          else do {
            a \<leftarrow> gen_udp_address (if ai_family ai = AF_INET then PROTOCOL_UDP else PROTOCOL_UDPv6) (ai_addr ai);
            S \<leftarrow> socket_send_req Y (Req_setudp sid (pad_address a)) S;
            Some (0, S) }))"

definition udp_address_size :: "bytes \<Rightarrow> nat option" where
  "udp_address_size a =
     (case a of
        [] \<Rightarrow> None
      | x # _ \<Rightarrow>
          if uint x = PROTOCOL_UDP then Some (1 + 2 + 4)
          else if uint x = PROTOCOL_UDPv6 then Some (1 + 2 + 16) else None)"

definition socket_udpsend :: "'o sys \<Rightarrow> int \<Rightarrow> bytes \<Rightarrow> addr \<Rightarrow> int \<Rightarrow> 'o net \<Rightarrow> (int \<times> 'o net) option" where
  "socket_udpsend Y sid address data siz S = do {
     i \<leftarrow> hash_id sid;
     if s_id (slot S i) \<noteq> sid \<or> s_type (slot S i) = T_INVALID
     then do { S \<leftarrow> freebuffer data siz S; Some (- 1, S) }
     else (case udp_address_size address of
       None \<Rightarrow> do { S \<leftarrow> freebuffer data siz S; Some (- 1, S) }
     | Some n \<Rightarrow> if length address < n then None else do {
         S \<leftarrow> socket_send_req Y (Req_sendudp \<lparr>rq_id = sid, rq_priority = 0, rq_size = siz, rq_data = data\<rparr>
           (pad_address (take n address))) S;
         Some (wb_size (slot S i), S) }) }"

text \<open>\<open>socket_udpaddress\<close>: the address behind the data of a message.\<close>

definition socket_udpaddress :: "bytes \<Rightarrow> nat \<Rightarrow> bytes option" where
  "socket_udpaddress block siz =
     (let a = drop siz block in map_option (\<lambda>n. take n a) (udp_address_size a))"

definition socket_object :: "object_interface \<Rightarrow> 'o net \<Rightarrow> 'o net" where
  "socket_object soi S = S\<lparr>n_soi := Some soi\<rparr>"

end
