(* ===== verification/Socket_Inv.thy ===== *)
theory Socket_Inv
  imports Socket
begin

text \<open>
  What the socket server does with socket numbers, queued output, closed sockets and received data.
\<close>

section \<open>Socket numbers\<close>

definition next_word :: "u32 \<Rightarrow> u32" where
  "next_word w = (if sint (w + 1) < 0 then (w + 1) AND 0x7fffffff else w + 1)"

lemma sint_uint_small: "uint (w :: u32) < 2 ^ 31 \<Longrightarrow> sint w = uint w"
  by (simp add: sint_uint signed_take_bit_eq_if_positive bit_iff_odd take_bit_int_eq_self)

lemma sint_negative: "sint (w :: u32) < 0 \<longleftrightarrow> \<not> uint w < 2 ^ 31"
proof -
  define r where "r = take_bit 31 (uint w)"
  have r: "0 \<le> r" "r < 2 ^ 31" unfolding r_def by (rule take_bit_nonnegative, rule take_bit_int_less_exp)
  have "uint w = 2 ^ 31 * of_bool (bit (uint w) 31) + r"
    using take_bit_Suc_from_most [of 31 "uint w"] take_bit_int_eq_self [of "uint w" 32] uint_lt2p [of w] by (simp add: r_def)
  with r have "uint w < 2 ^ 31 \<longleftrightarrow> \<not> bit (uint w) 31" by (cases "bit (uint w) 31") auto
  then show ?thesis by (simp add: sint_uint signed_take_bit_negative_iff)
qed

lemma next_word_uint: "uint (next_word w) = (uint w + 1) mod 2 ^ 31"
proof -
  have u: "uint (w + 1) = (uint w + 1) mod 2 ^ 32" by (simp add: uint_word_ariths)
  have a: "(w + 1) AND 0x7fffffff = take_bit 31 (w + 1)" unfolding take_bit_eq_mask by (simp add: mask_eq_exp_minus_1)
  have m: "uint ((w + 1) AND 0x7fffffff) = uint (w + 1) mod 2 ^ 31"
    unfolding a by (simp only: unsigned_take_bit_eq) (rule take_bit_eq_mod)
  have d: "uint (w + 1) mod 2 ^ 31 = (uint w + 1) mod 2 ^ 31" unfolding u by (rule mod_mod_cancel) simp
  show ?thesis
    using m d sint_negative [of "w + 1"] by (cases "sint (w + 1) < 0") (simp_all add: next_word_def)
qed

lemma next_word_sint: "sint (next_word w) = (uint w + 1) mod 2 ^ 31"
  using sint_uint_small [of "next_word w"] by (simp add: next_word_uint)

lemma next_word_slot: "nat (sint (next_word w) mod 65536) = Suc (unat w) mod 65536"
proof -
  have "sint (next_word w) mod 65536 = (uint w + 1) mod 65536"
    unfolding next_word_sint by (rule mod_mod_cancel) simp
  then show ?thesis by (simp add: nat_mod_distrib nat_add_distrib)
qed

lemma next_word_unat: "unat (next_word w) mod 65536 = Suc (unat w) mod 65536"
proof -
  have "sint (next_word w) = uint (next_word w)" by (rule sint_uint_small) (simp add: next_word_uint)
  then show ?thesis using next_word_slot [of w] by (simp add: nat_mod_distrib)
qed

lemma next_id_step:
  "next_id_loop (Suc k) S =
     (let w = next_word (next_id S); i = Suc (unat (next_id S)) mod 65536 in
      if s_type (slot S i) = T_INVALID
      then (sint w, set_slot i (\<lambda>s. s\<lparr>s_type := T_RESERVE, s_id := sint w, s_fd := - 1\<rparr>) (S\<lparr>next_id := w\<rparr>))
      else next_id_loop k (S\<lparr>next_id := w\<rparr>))"
proof -
  have "next_id_loop (Suc k) S =
     (let w = next_word (next_id S); i = nat (sint w mod 65536) in
      if s_type (slot S i) = T_INVALID
      then (sint w, set_slot i (\<lambda>s. s\<lparr>s_type := T_RESERVE, s_id := sint w, s_fd := - 1\<rparr>) (S\<lparr>next_id := w\<rparr>))
      else next_id_loop k (S\<lparr>next_id := w\<rparr>))"
    by (simp add: next_word_def Let_def)
  then show ?thesis unfolding Let_def next_word_slot .
qed

declare next_id_loop.simps(2) [simp del]

text \<open>A reserved slot for a number, and the search that visits the slots behind \<open>next_id\<close> in turn.\<close>

definition reserves :: "int \<Rightarrow> 'o net \<Rightarrow> 'o net \<Rightarrow> bool" where
  "reserves sid S S' \<longleftrightarrow> 0 \<le> sid \<and> sid < 2 ^ 31 \<and> s_type (slot S (nat (sid mod 65536))) = T_INVALID \<and>
     S' = set_slot (nat (sid mod 65536)) (\<lambda>s. s\<lparr>s_type := T_RESERVE, s_id := sid, s_fd := - 1\<rparr>) (S\<lparr>next_id := word_of_int sid\<rparr>)"

lemma next_id_loop_spec:
  "(\<exists>sid S'. next_id_loop k S = (sid, S') \<and> reserves sid S S') \<or>
   (\<exists>w. next_id_loop k S = (- 1, S\<lparr>next_id := w\<rparr>)) \<and>
   (\<forall>j\<in>{1..k}. s_type (slot S ((unat (next_id S) + j) mod 65536)) \<noteq> T_INVALID)"
proof (induction k arbitrary: S)
  case 0
  then show ?case by (intro disjI2 conjI exI [of _ "next_id S"]) simp_all
next
  case (Suc k)
  let ?w = "next_word (next_id S)" and ?i = "Suc (unat (next_id S)) mod 65536"
  let ?T = "S\<lparr>next_id := ?w\<rparr>"
  show ?case
  proof (cases "s_type (slot S ?i) = T_INVALID")
    case True
    have i: "nat (sint ?w mod 65536) = ?i" by (rule next_word_slot)
    have w: "word_of_int (sint ?w) = ?w" by simp
    have "reserves (sint ?w) S (snd (next_id_loop (Suc k) S))"
      unfolding reserves_def i w using True next_word_sint [of "next_id S"] by (simp add: next_id_step Let_def)
    then show ?thesis using True by (intro disjI1 exI [of _ "sint ?w"]) (simp add: next_id_step Let_def)
  next
    case False
    then have e: "next_id_loop (Suc k) S = next_id_loop k ?T" by (simp add: next_id_step Let_def)
    have shift: "(unat ?w + j) mod 65536 = (unat (next_id S) + Suc j) mod 65536" for j
      using next_word_unat [of "next_id S"] mod_add_cong [of "unat ?w" 65536 "Suc (unat (next_id S))" j j] by simp
    from Suc.IH [of ?T] consider (found) sid S' where "next_id_loop k ?T = (sid, S')" "reserves sid ?T S'"
      | (full) w where "next_id_loop k ?T = (- 1, ?T\<lparr>next_id := w\<rparr>)"
          "\<forall>j\<in>{1..k}. s_type (slot S ((unat ?w + j) mod 65536)) \<noteq> T_INVALID" by auto
    then show ?thesis
    proof cases
      case found
      have "reserves sid S S'" using found(2) by (simp add: reserves_def)
      then show ?thesis using e found(1) by auto
    next
      case full
      have "s_type (slot S ((unat (next_id S) + j) mod 65536)) \<noteq> T_INVALID" if "j \<in> {1..Suc k}" for j
      proof (cases j)
        case (Suc j')
        show ?thesis
        proof (cases "j' = 0")
          case False
          then have "j' \<in> {1..k}" using Suc that by simp
          from bspec [OF full(2) this] show ?thesis unfolding shift Suc .
        qed (use Suc False in simp)
      qed (use that in simp)
      then show ?thesis using e full(1) by auto
    qed
  qed
qed

lemma socket_next_id_spec:
  assumes "\<exists>i<65536. s_type (slot S i) = T_INVALID"
  shows "\<exists>sid S'. socket_next_id S = (sid, S') \<and> reserves sid S S'"
proof -
  from assms obtain i where i: "i < 65536" "s_type (slot S i) = T_INVALID" by auto
  let ?n = "unat (next_id S) mod 65536"
  define j where "j = (if i > ?n then i - ?n else i + 65536 - ?n)"
  have j: "j \<in> {1..65536}" using i(1) by (auto simp: j_def)
  have "(?n + j) mod 65536 = i" using i(1) by (auto simp: j_def)
  then have "(unat (next_id S) + j) mod 65536 = i" by (simp add: mod_add_left_eq)
  then show ?thesis
    using next_id_loop_spec [of MAX_SOCKET S] i(2) j unfolding socket_next_id_def by auto
qed

lemma socket_next_id_full:
  assumes "\<forall>i<65536. s_type (slot S i) \<noteq> T_INVALID"
  shows "\<exists>w. socket_next_id S = (- 1, S\<lparr>next_id := w\<rparr>)"
  using next_id_loop_spec [of MAX_SOCKET S] assms unfolding socket_next_id_def reserves_def
  by (auto simp: nat_less_iff)

section \<open>System calls\<close>

text \<open>The bytes that the system took for a descriptor, and what it promises about \<open>write\<close>.\<close>

fun sent :: "int \<Rightarrow> (syscall \<times> int) list \<Rightarrow> bytes" where
  "sent fd [] = []"
| "sent fd ((Sys_write f d, r) # xs) = (if f = fd \<and> 0 \<le> r then take (nat r) d else []) @ sent fd xs"
| "sent fd (x # xs) = sent fd xs"

lemma sent_append [simp]: "sent fd (xs @ ys) = sent fd xs @ sent fd ys"
  by (induction fd xs rule: sent.induct) simp_all

definition write_ok :: "'o sys \<Rightarrow> bool" where
  "write_ok Y \<longleftrightarrow> (\<forall>fd d os. fst (y_call Y (Sys_write fd d) os) \<le> int (length d))"

text \<open>No call is interrupted for ever.\<close>

definition interrupts_end :: "'o sys \<Rightarrow> bool" where
  "interrupts_end Y \<longleftrightarrow> (\<forall>c. wf {(os', os). \<exists>r. y_call Y c os = (r, os') \<and> y_errno Y os' = EINTR})"

lemma sys_call_eq: "sys_call Y c S = (r, S') \<longleftrightarrow> (\<exists>os. y_call Y c (n_os S) = (r, os) \<and> S' = S\<lparr>n_os := os, n_trace := n_trace S @ [(c, r)]\<rparr>)"
  by (auto simp: sys_call_def split: prod.splits)

definition retried :: "'o sys \<Rightarrow> syscall \<Rightarrow> 'o net \<Rightarrow> int \<times> 'o net \<Rightarrow> bool" where
  "retried Y c S rS \<longleftrightarrow> (\<exists>os t. snd rS = S\<lparr>n_os := os, n_trace := n_trace S @ t @ [(c, fst rS)]\<rparr> \<and>
     (\<forall>x\<in>set t. fst x = c \<and> snd x < 0) \<and> (\<exists>os'. y_call Y c os' = (fst rS, os)))"

lemma retry_call_Some:
  assumes "retry_call Y c S = Some rS"
  shows "retried Y c S rS"
proof (rule retry_call.raw_induct [where P = retried, OF _ assms])
  fix f :: "'a sys \<Rightarrow> syscall \<Rightarrow> 'a net \<Rightarrow> (int \<times> 'a net) option" and Y c S rS
  assume IH: "\<And>Y c S rS. f Y c S = Some rS \<Longrightarrow> retried Y c S rS"
    and eq: "(let (r, S) = sys_call Y c S in if r < 0 \<and> errno_of Y S = EINTR then f Y c S else Some (r, S)) = Some rS"
  obtain r1 S1 where s1: "sys_call Y c S = (r1, S1)" by fastforce
  then obtain os where os: "y_call Y c (n_os S) = (r1, os)" "S1 = S\<lparr>n_os := os, n_trace := n_trace S @ [(c, r1)]\<rparr>"
    by (auto simp: sys_call_eq)
  show "retried Y c S rS"
  proof (cases "r1 < 0 \<and> errno_of Y S1 = EINTR")
    case True
    with eq s1 have "f Y c S1 = Some rS" by simp
    from IH [OF this] obtain os2 t where "snd rS = S1\<lparr>n_os := os2, n_trace := n_trace S1 @ t @ [(c, fst rS)]\<rparr>"
      "\<forall>x\<in>set t. fst x = c \<and> snd x < 0" "\<exists>os'. y_call Y c os' = (fst rS, os2)" by (auto simp: retried_def)
    then show ?thesis using os(2) True unfolding retried_def by (intro exI [of _ os2] exI [of _ "(c, r1) # t"]) simp
  next
    case False
    with eq s1 have "rS = (r1, S1)" by (auto split: if_splits)
    then show ?thesis using os unfolding retried_def by (intro exI [of _ os] exI [of _ "[]"]) auto
  qed
qed

lemma retry_call_returns:
  assumes "interrupts_end Y"
  shows "\<exists>r S'. retry_call Y c S = Some (r, S')"
proof -
  have "\<exists>r S'. retry_call Y c S = Some (r, S')" if "n_os S = os" for os
    using that
  proof (induction os arbitrary: S rule: wf_induct_rule [OF spec [OF assms [unfolded interrupts_end_def], of c]])
    case (1 os)
    obtain r S1 where s1: "sys_call Y c S = (r, S1)" by fastforce
    show ?case
    proof (cases "r < 0 \<and> errno_of Y S1 = EINTR")
      case True
      then have "\<exists>r S'. retry_call Y c S1 = Some (r, S')"
        using 1 s1 by (auto simp: sys_call_eq errno_of_def)
      then show ?thesis using s1 True by (subst retry_call.simps) simp
    next
      case False
      then show ?thesis using s1 by (subst retry_call.simps) auto
    qed
  qed
  then show ?thesis by simp
qed

lemma sent_failed: "\<forall>x\<in>set xs. snd x < 0 \<Longrightarrow> sent fd xs = []"
  by (induction fd xs rule: sent.induct) auto

lemma retry_write:
  assumes "retry_call Y (Sys_write fd d) S = Some (r, S')" "write_ok Y"
  shows "\<exists>os xs. S' = S\<lparr>n_os := os, n_trace := n_trace S @ xs\<rparr> \<and> sent fd xs = (if r < 0 then [] else take (nat r) d) \<and>
    r \<le> int (length d)"
proof -
  from retry_call_Some [OF assms(1), unfolded retried_def] obtain os t os' where
    e: "S' = S\<lparr>n_os := os, n_trace := n_trace S @ t @ [(Sys_write fd d, r)]\<rparr>"
      "\<forall>x\<in>set t. fst x = Sys_write fd d \<and> snd x < 0" "y_call Y (Sys_write fd d) os' = (r, os)" by auto
  have "r \<le> int (length d)" using assms(2) e(3) by (metis fst_conv write_ok_def)
  moreover have "sent fd t = []" using e(2) by (intro sent_failed) auto
  ultimately show ?thesis using e(1) by (intro exI [of _ os] exI [of _ "t @ [(Sys_write fd d, r)]"]) simp
qed

section \<open>Queued output\<close>

text \<open>A node that carries the unsent part of a message: an empty message has no block.\<close>

definition carries :: "world \<Rightarrow> wbuffer \<Rightarrow> bytes \<Rightarrow> bool" where
  "carries W b m \<longleftrightarrow> b_base b = b_buff b \<and> int (b_off b) + b_len b = int (length m) \<and> 0 \<le> b_len b \<and>
     (if m = [] then b_buff b = 0 else b_buff b \<noteq> 0 \<and> w_mem W (b_buff b) = Some m)"

fun unsent :: "wbuffer list \<Rightarrow> bytes list \<Rightarrow> bytes" where
  "unsent (b # bs) (m # ms) = drop (b_off b) m @ unsent bs ms"
| "unsent _ _ = []"

definition blocks :: "wbuffer list \<Rightarrow> addr list" where
  "blocks bs = filter (\<lambda>a. a \<noteq> 0) (map b_buff bs)"

lemma blocks_simps [simp]:
  "blocks [] = []" "blocks (b # bs) = (if b_buff b = 0 then blocks bs else b_buff b # blocks bs)"
  "blocks (bs @ cs) = blocks bs @ blocks cs"
  by (simp_all add: blocks_def)

definition drop_blocks :: "addr list \<Rightarrow> world \<Rightarrow> world" where
  "drop_blocks as W = W\<lparr>w_mem := (w_mem W) |` (- set as)\<rparr>"

lemma drop_blocks_simps [simp]:
  "w_mem (drop_blocks as W) a = (if a \<in> set as then None else w_mem W a)"
  "w_brk (drop_blocks as W) = w_brk W"
  by (simp_all add: drop_blocks_def restrict_map_def)

lemma drop_blocks_Nil [simp]: "drop_blocks [] W = W"
  by (simp add: drop_blocks_def restrict_map_def)

lemma drop_blocks_append: "drop_blocks bs (drop_blocks as W) = drop_blocks (as @ bs) W"
  by (auto simp: drop_blocks_def restrict_map_def intro!: arg_cong [of _ _ "\<lambda>m. W\<lparr>w_mem := m\<rparr>"])

text \<open>The first \<open>n\<close> bytes of a queue are gone.\<close>

fun skip :: "nat \<Rightarrow> wbuffer list \<Rightarrow> wbuffer list" where
  "skip n [] = []"
| "skip n (b # bs) = b\<lparr>b_off := b_off b + n, b_len := b_len b - int n\<rparr> # bs"

lemma skip_0 [simp]: "skip 0 bs = bs"
  by (cases bs) simp_all

lemma blocks_skip [simp]: "blocks (skip n bs) = blocks bs"
  by (cases bs) (simp_all add: blocks_def)

lemma carries_region: "carries W b m \<Longrightarrow> region (b_base b) (b_off b) (b_len b) W = Some (drop (b_off b) m)"
  by (auto simp: carries_def region_def split: if_splits)

lemma drop_block_one: "m(a := None) = m |` (- {a})"
  by (rule ext) (simp add: restrict_map_def)

lemma carries_free:
  assumes "carries W b m"
  shows "free_data (b_buff b) W = Some (drop_blocks (blocks [b]) W)"
proof (cases "b_buff b = 0")
  case False
  with assms have "w_mem W (b_buff b) = Some m" by (auto simp: carries_def split: if_splits)
  with False show ?thesis by (simp add: free_data_def pixel_alloc_def drop_blocks_def drop_block_one)
qed (simp add: free_data_def pixel_alloc_def)

lemma carries_drop: "carries W b m \<Longrightarrow> b_buff b \<notin> set as \<Longrightarrow> carries (drop_blocks as W) b m"
  by (auto simp: carries_def)

lemma carries_list_drop:
  "list_all2 (carries W) bs ms \<Longrightarrow> set (blocks bs) \<inter> set as = {} \<Longrightarrow> 0 \<notin> set as \<Longrightarrow> list_all2 (carries (drop_blocks as W)) bs ms"
proof (induction rule: list_all2_induct)
  case (Cons b bs m ms)
  then show ?case by (cases "b_buff b = 0") (auto intro: carries_drop)
qed simp

lemma zero_blocks [simp]: "0 \<notin> set (blocks bs)"
  by (simp add: blocks_def)

definition queue_of :: "bool \<Rightarrow> socket \<Rightarrow> wbuffer list" where
  "queue_of hi s = (if hi then high s else low s)"

definition set_queue :: "bool \<Rightarrow> wbuffer list \<Rightarrow> socket \<Rightarrow> socket" where
  "set_queue hi bs s = (if hi then s\<lparr>high := bs\<rparr> else s\<lparr>low := bs\<rparr>)"

lemma set_list_slot: "slot (set_list i hi bs S) = (slot S)(i := set_queue hi bs (slot S i))"
  by (simp add: set_list_def set_slot_def set_queue_def)

lemma set_frame [simp]:
  "n_w (set_list i hi bs S) = n_w S" "n_trace (set_list i hi bs S) = n_trace S"
  "n_w (set_slot i f S) = n_w S" "n_trace (set_slot i f S) = n_trace S"
  "slot (set_slot i f S) = (slot S)(i := f (slot S i))"
  by (simp_all add: set_list_def set_slot_def)

lemma set_queue_simps [simp]:
  "queue_of hi (set_queue hi bs s) = bs" "set_queue hi bs (set_queue hi cs s) = set_queue hi bs s"
  "set_queue hi bs (s\<lparr>wb_size := x\<rparr>) = (set_queue hi bs s)\<lparr>wb_size := x\<rparr>" "queue_of hi (s\<lparr>wb_size := x\<rparr>) = queue_of hi s"
  "wb_size (set_queue hi bs s) = wb_size s" "s_fd (set_queue hi bs s) = s_fd s" "s_type (set_queue hi bs s) = s_type s"
  "s_id (set_queue hi bs s) = s_id s" "s_ud (set_queue hi bs s) = s_ud s" "s_protocol (set_queue hi bs s) = s_protocol s"
  by (simp_all add: set_queue_def queue_of_def)

lemma set_queue_same [simp]: "queue_of hi s = bs \<Longrightarrow> set_queue hi bs s = s"
  by (auto simp: set_queue_def queue_of_def)

lemma force_close_closes:
  assumes "socket_force_close Y i S = Some (msg, S')"
  shows "s_type (slot S' i) = T_INVALID \<and> (\<exists>xs. n_trace S' = n_trace S @ xs \<and> (\<forall>fd. sent fd xs = []))"
proof (cases "s_type (slot S i) = T_INVALID")
  case True
  with assms show ?thesis by (simp add: socket_force_close_def Let_def)
next
  case False
  with assms show ?thesis
    by (auto simp: socket_force_close_def Let_def set_type_def event_del_def sys_call_def
        split: if_splits bind_splits prod.splits)
qed

text \<open>
  What a pass over a queue did: the nodes \<open>ds\<close> are sent and freed, and \<open>n\<close> bytes of the next one. When the connection failed, the socket is
  closed.
\<close>

definition sent_part ::
  "int \<Rightarrow> nat \<Rightarrow> bool \<Rightarrow> wbuffer list \<Rightarrow> bytes list \<Rightarrow> 'o net \<Rightarrow> wbuffer list \<Rightarrow> wbuffer list \<Rightarrow> bytes list \<Rightarrow> bytes list \<Rightarrow> nat \<Rightarrow> 'o net \<Rightarrow> bool" where
  "sent_part fd i hi bs ms S ds rest dm rm n S' \<longleftrightarrow>
     bs = ds @ rest \<and> ms = dm @ rm \<and> length ds = length dm \<and> (case rest of [] \<Rightarrow> n = 0 | b # _ \<Rightarrow> int n \<le> b_len b) \<and>
     n_w S' = drop_blocks (blocks ds) (n_w S) \<and>
     (\<exists>xs. n_trace S' = n_trace S @ xs \<and> sent fd xs = unsent ds dm @ take n (unsent rest rm) \<and>
        slot S' = (slot S)(i := (set_queue hi (skip n rest) (slot S i))\<lparr>wb_size := wb_size (slot S i) - int (length (sent fd xs))\<rparr>))"

definition closed_part :: "int \<Rightarrow> nat \<Rightarrow> bytes \<Rightarrow> 'o net \<Rightarrow> 'o net \<Rightarrow> bool" where
  "closed_part fd i out S S' \<longleftrightarrow> s_type (slot S' i) = T_INVALID \<and>
     (\<exists>xs rest. n_trace S' = n_trace S @ xs \<and> sent fd xs @ rest = out)"

lemma send_list_spec:
  assumes "write_ok Y" "socket_send_buffer_list Y i hi bs msg S = Some (r, msg', S')" "list_all2 (carries (n_w S)) bs ms"
    "distinct (blocks bs)" "queue_of hi (slot S i) = bs" "s_fd (slot S i) = fd"
  shows "r = - 1 \<and> (\<exists>ds rest dm rm n. sent_part fd i hi bs ms S ds rest dm rm n S') \<or>
    r = SOCKET_CLOSE \<and> closed_part fd i (unsent bs ms) S S'"
  using assms(2-6)
proof (induction bs arbitrary: S ms)
  case Nil
  have "sent_part fd i hi [] [] S [] [] [] [] 0 S'"
    using Nil unfolding sent_part_def by (auto simp: set_list_slot intro!: exI [of _ "[]"])
  moreover have "ms = []" "r = - 1" using Nil by simp_all
  ultimately show ?case by blast
next
  case (Cons b bs)
  then obtain m ms' where ms: "ms = m # ms'" "carries (n_w S) b m" "list_all2 (carries (n_w S)) bs ms'"
    by (auto simp: list_all2_Cons1)
  let ?d = "drop (b_off b) m"
  have len: "int (length ?d) = b_len b" using ms(2) by (auto simp: carries_def)
  from Cons.prems(1) carries_region [OF ms(2)] obtain sz S1 where s1: "retry_call Y (Sys_write fd ?d) S = Some (sz, S1)"
    using Cons.prems(5) by (auto split: bind_splits)
  from retry_write [OF s1 assms(1)] obtain os xs where x: "S1 = S\<lparr>n_os := os, n_trace := n_trace S @ xs\<rparr>"
    "sent fd xs = (if sz < 0 then [] else take (nat sz) ?d)" "sz \<le> int (length ?d)" by auto
  have ret: "socket_send_buffer_list Y i hi (b # bs) msg S =
     (if sz < 0 then
       if errno_of Y S1 = EAGAIN then Some (- 1, msg, S1)
       else do { (msg, S) \<leftarrow> socket_force_close Y i S1; Some (SOCKET_CLOSE, msg, S) }
     else
       (let S = set_slot i (\<lambda>s. s\<lparr>wb_size := wb_size s - sz\<rparr>) S1 in
        if sz \<noteq> b_len b
        then Some (- 1, msg, set_list i hi (b\<lparr>b_off := b_off b + nat sz, b_len := b_len b - sz\<rparr> # bs) S)
        else do {
          S \<leftarrow> in_world (free_data (b_buff b)) (set_list i hi bs S);
          socket_send_buffer_list Y i hi bs msg S }))"
    using carries_region [OF ms(2)] s1 Cons.prems(5) by simp
  show ?case
  proof (cases "sz < 0")
    case True
    show ?thesis
    proof (cases "errno_of Y S1 = EAGAIN")
      case again: True
      have "r = - 1" "S' = S1" using Cons.prems(1) True again unfolding ret by simp_all
      moreover have "sent_part fd i hi (b # bs) ms S [] (b # bs) [] ms 0 S1"
        using x True len Cons.prems(4) unfolding sent_part_def by (auto intro!: exI [of _ xs])
      ultimately show ?thesis by blast
    next
      case False
      then obtain msg2 where c: "r = SOCKET_CLOSE" "socket_force_close Y i S1 = Some (msg2, S')"
        using Cons.prems(1) True unfolding ret by (auto split: bind_splits)
      from force_close_closes [OF c(2)] obtain ys where "s_type (slot S' i) = T_INVALID" "n_trace S' = n_trace S1 @ ys" "sent fd ys = []"
        by auto
      then have "closed_part fd i (unsent (b # bs) ms) S S'"
        using x True unfolding closed_part_def by (auto intro!: exI [of _ "xs @ ys"])
      then show ?thesis using c(1) by blast
    qed
  next
    case False
    let ?S2 = "set_slot i (\<lambda>s. s\<lparr>wb_size := wb_size s - sz\<rparr>) S1"
    have lx: "int (length (sent fd xs)) = sz" using x(2,3) False by simp
    show ?thesis
    proof (cases "sz = b_len b")
      case more: False
      then have "r = - 1" "S' = set_list i hi (b\<lparr>b_off := b_off b + nat sz, b_len := b_len b - sz\<rparr> # bs) ?S2"
        using Cons.prems(1) False unfolding ret by simp_all
      moreover have "sent_part fd i hi (b # bs) ms S [] (b # bs) [] ms (nat sz) \<dots>"
        using x False len ms(1) lx unfolding sent_part_def by (auto simp: set_list_slot intro!: exI [of _ xs])
      ultimately show ?thesis by blast
    next
      case True
      have sx: "sent fd xs = ?d" using x(2,3) False True len by simp
      define S3 where "S3 = (set_list i hi bs ?S2)\<lparr>n_w := drop_blocks (blocks [b]) (n_w S)\<rparr>"
      have f: "in_world (free_data (b_buff b)) (set_list i hi bs ?S2) = Some S3"
        using carries_free [OF ms(2)] x(1) by (simp add: in_world_def S3_def)
      have rec: "socket_send_buffer_list Y i hi bs msg S3 = Some (r, msg', S')"
        using Cons.prems(1) False True f unfolding ret by simp
      have g: "n_w S3 = drop_blocks (blocks [b]) (n_w S)" "n_trace S3 = n_trace S @ xs"
        "slot S3 = (slot S)(i := (set_queue hi bs (slot S i))\<lparr>wb_size := wb_size (slot S i) - sz\<rparr>)"
        using x(1) by (simp_all add: S3_def set_list_slot)
      have "list_all2 (carries (n_w S3)) bs ms'"
        using carries_list_drop [OF ms(3), of "blocks [b]"] Cons.prems(3) g(1) by (auto split: if_splits)
      from Cons.IH [OF rec this] Cons.prems(3) consider
          (part) ds rest dm rm n where "r = - 1" "sent_part fd i hi bs ms' S3 ds rest dm rm n S'"
        | (closed) "r = SOCKET_CLOSE" "closed_part fd i (unsent bs ms') S3 S'"
        using g(3) Cons.prems(5) by (auto split: if_splits)
      then show ?thesis
      proof cases
        case part
        from part(2) obtain ys where ys: "n_trace S' = n_trace S3 @ ys" "sent fd ys = unsent ds dm @ take n (unsent rest rm)"
          "slot S' = (slot S3)(i := (set_queue hi (skip n rest) (slot S3 i))\<lparr>wb_size := wb_size (slot S3 i) - int (length (sent fd ys))\<rparr>)"
          by (auto simp: sent_part_def)
        have "sent_part fd i hi (b # bs) ms S (b # ds) rest (m # dm) rm n S'"
          using part(2) ys g sx lx ms(1) unfolding sent_part_def
          by (auto simp: drop_blocks_append intro!: exI [of _ "xs @ ys"])
        then show ?thesis using part(1) by blast
      next
        case closed
        from closed(2) obtain ys u where "s_type (slot S' i) = T_INVALID" "n_trace S' = n_trace S3 @ ys" "sent fd ys @ u = unsent bs ms'"
          by (auto simp: closed_part_def)
        then have "closed_part fd i (unsent (b # bs) ms) S S'"
          using g(2) sx ms(1) unfolding closed_part_def by (intro conjI exI [of _ "xs @ ys"] exI [of _ u]) simp_all
        then show ?thesis using closed(1) by blast
      qed
    qed
  qed
qed

section \<open>The order of the output\<close>

lemma shuffles_snoc_left: "zs \<in> shuffles xs ys \<Longrightarrow> zs @ [z] \<in> shuffles (xs @ [z]) ys"
proof (induction zs arbitrary: xs ys)
  case (Cons a zs)
  from Cons.prems show ?case
    using Cons.IH [of "tl xs" ys] Cons.IH [of xs "tl ys"]
    by (cases xs; cases ys) (auto simp: Cons_in_shuffles_iff)
qed simp

lemma shuffles_snoc_right: "zs \<in> shuffles xs ys \<Longrightarrow> zs @ [z] \<in> shuffles xs (ys @ [z])"
  using shuffles_snoc_left [of zs ys xs z] by (simp add: shuffles_commutes)

lemma shuffles_extend: "zs \<in> shuffles xs ys \<Longrightarrow> zs @ as @ bs \<in> shuffles (xs @ as) (ys @ bs)"
proof (induction as arbitrary: zs xs)
  case Nil
  then show ?case
  proof (induction bs arbitrary: zs ys)
    case (Cons b bs)
    from Cons.IH [OF shuffles_snoc_right [OF Cons.prems, of b]] show ?case by simp
  qed simp
next
  case (Cons a as)
  from Cons.IH [OF shuffles_snoc_left [OF Cons.prems, of a]] show ?case by simp
qed

definition started :: "wbuffer list \<Rightarrow> bool" where
  "started bs \<longleftrightarrow> bs \<noteq> [] \<and> 0 < b_off (hd bs)"

definition rest_of :: "wbuffer list \<Rightarrow> bytes list \<Rightarrow> bytes" where
  "rest_of bs ms = (if started bs then drop (b_off (hd bs)) (hd ms) else [])"

definition waiting :: "wbuffer list \<Rightarrow> bytes list \<Rightarrow> bytes list" where
  "waiting bs ms = (if started bs then tl ms else ms)"

text \<open>
  The output so far, with the rest of the message that was begun, is a sequence of whole messages: a shuffle of the first ones of
  either priority. The others wait in their queues.
\<close>

definition in_order ::
  "bytes \<Rightarrow> bytes list \<Rightarrow> bytes list \<Rightarrow> wbuffer list \<Rightarrow> bytes list \<Rightarrow> wbuffer list \<Rightarrow> bytes list \<Rightarrow> bool" where
  "in_order out HS LS hb hm lb lm \<longleftrightarrow> \<not> (started hb \<and> started lb) \<and>
     (\<exists>zs hs ls. zs \<in> shuffles hs ls \<and> out @ rest_of hb hm @ rest_of lb lm = concat zs \<and>
        HS = hs @ waiting hb hm \<and> LS = ls @ waiting lb lm)"

lemma in_order_swap: "in_order out HS LS hb hm lb lm \<longleftrightarrow> in_order out LS HS lb lm hb hm"
proof -
  have "in_order out LS HS lb lm hb hm" if "in_order out HS LS hb hm lb lm" for HS LS hb hm lb lm
  proof -
    from that obtain zs hs ls where z: "\<not> (started hb \<and> started lb)" "zs \<in> shuffles hs ls"
      "out @ rest_of hb hm @ rest_of lb lm = concat zs" "HS = hs @ waiting hb hm" "LS = ls @ waiting lb lm"
      by (auto simp: in_order_def)
    then have "rest_of hb hm @ rest_of lb lm = rest_of lb lm @ rest_of hb hm" by (auto simp: rest_of_def)
    with z show ?thesis unfolding in_order_def by (metis shuffles_commutes)
  qed
  then show ?thesis by blast
qed

lemma in_order_advance:
  assumes "in_order out HS LS (b # bs) (m # ms) lb lm" "\<not> started lb" "0 < k" "b_off b + k \<le> length m"
  shows "in_order (out @ take k (drop (b_off b) m)) HS LS (b\<lparr>b_off := b_off b + k, b_len := x\<rparr> # bs) (m # ms) lb lm"
proof -
  let ?b = "b\<lparr>b_off := b_off b + k, b_len := x\<rparr>"
  from assms(1,2) obtain zs hs ls where z: "zs \<in> shuffles hs ls" "out @ rest_of (b # bs) (m # ms) = concat zs"
    "HS = hs @ waiting (b # bs) (m # ms)" "LS = ls @ waiting lb lm" by (auto simp: in_order_def rest_of_def)
  have st: "started (?b # bs)" using assms(3) by (simp add: started_def)
  have r: "take k (drop (b_off b) m) @ rest_of (?b # bs) (m # ms) = drop (b_off b) m"
    using st by (simp add: rest_of_def add.commute flip: drop_drop)
  show ?thesis
  proof (cases "started (b # bs)")
    case True
    then have "out @ take k (drop (b_off b) m) @ rest_of (?b # bs) (m # ms) = concat zs" using z(2) r by (simp add: rest_of_def)
    moreover have "waiting (?b # bs) (m # ms) = waiting (b # bs) (m # ms)" using True st by (simp add: waiting_def)
    ultimately show ?thesis using z assms(2) unfolding in_order_def by (auto simp: rest_of_def [of lb])
  next
    case False
    then have "b_off b = 0" by (simp add: started_def)
    then have "out @ take k (drop (b_off b) m) @ rest_of (?b # bs) (m # ms) = concat (zs @ [m])"
      using z(2) r False by (simp add: rest_of_def)
    moreover have "zs @ [m] \<in> shuffles (hs @ [m]) ls" using z(1) by (rule shuffles_snoc_left)
    moreover have "HS = (hs @ [m]) @ waiting (?b # bs) (m # ms)" using z(3) False st by (simp add: waiting_def)
    ultimately show ?thesis using z(4) assms(2) unfolding in_order_def by (auto simp: rest_of_def [of lb])
  qed
qed

lemma in_order_pop:
  assumes "in_order out HS LS (b # bs) (m # ms) lb lm" "\<not> started lb" "b_off b = length m" "\<not> started bs"
  shows "in_order out HS LS bs ms lb lm"
proof -
  from assms(1,2) obtain zs hs ls where z: "zs \<in> shuffles hs ls" "out @ rest_of (b # bs) (m # ms) = concat zs"
    "HS = hs @ waiting (b # bs) (m # ms)" "LS = ls @ waiting lb lm" by (auto simp: in_order_def rest_of_def)
  have n: "rest_of bs ms = []" "waiting bs ms = ms" "rest_of lb lm = []" using assms(2,4) by (simp_all add: rest_of_def waiting_def)
  show ?thesis
  proof (cases "started (b # bs)")
    case True
    then have "out = concat zs" "HS = hs @ ms" using z assms(3) by (simp_all add: rest_of_def waiting_def)
    then show ?thesis using z n assms(4) unfolding in_order_def by auto
  next
    case False
    then have "m = []" "out = concat zs" "HS = (hs @ [m]) @ ms"
      using z assms(3) by (simp_all add: rest_of_def waiting_def started_def)
    then have "out = concat (zs @ [m])" by simp
    moreover have "zs @ [m] \<in> shuffles (hs @ [m]) ls" using z(1) by (rule shuffles_snoc_left)
    ultimately show ?thesis using \<open>HS = (hs @ [m]) @ ms\<close> z(4) n assms(4) unfolding in_order_def by auto
  qed
qed

lemma in_order_finish:
  assumes "in_order out HS LS (b # bs) (m # ms) lb lm" "\<not> started lb" "carries W b m" "\<not> started bs"
  shows "in_order (out @ drop (b_off b) m) HS LS bs ms lb lm"
proof (cases "b_off b = length m")
  case True
  then show ?thesis using in_order_pop [OF assms(1,2) True assms(4)] by simp
next
  case False
  let ?k = "length m - b_off b"
  have k: "0 < ?k" "b_off b + ?k = length m" using False assms(3) by (auto simp: carries_def)
  from in_order_advance [OF assms(1,2) k(1), of 0] k(2)
  have "in_order (out @ drop (b_off b) m) HS LS (b\<lparr>b_off := b_off b + ?k, b_len := 0\<rparr> # bs) (m # ms) lb lm" by simp
  from in_order_pop [OF this assms(2) _ assms(4)] k(2) show ?thesis by simp
qed

lemma in_order_pass:
  assumes "in_order out HS LS (ds @ rest) (dm @ rm) lb lm" "\<not> started lb" "list_all2 (carries W) (ds @ rest) (dm @ rm)"
    "\<forall>b\<in>set (tl (ds @ rest)). b_off b = 0" "length ds = length dm" "case rest of [] \<Rightarrow> n = 0 | b # _ \<Rightarrow> int n \<le> b_len b"
  shows "in_order (out @ unsent ds dm @ take n (unsent rest rm)) HS LS (skip n rest) rm lb lm"
  using assms
proof (induction ds arbitrary: out dm)
  case Nil
  show ?case
  proof (cases "n = 0")
    case False
    then obtain b bs where r: "rest = b # bs" using Nil.prems(6) by (cases rest) auto
    then obtain m ms where m: "rm = m # ms" "carries W b m" using Nil.prems(3,5) by (auto simp: list_all2_Cons1)
    have n: "b_off b + n \<le> length m" using m(2) Nil.prems(6) r by (auto simp: carries_def)
    then have "take n (unsent rest rm) = take n (drop (b_off b) m)" using r m(1) by simp
    then show ?thesis
      using in_order_advance [of out HS LS b bs m ms lb lm n] Nil.prems(1,2,5) False n r m(1) by simp
  qed (use Nil in simp)
next
  case (Cons b ds)
  then obtain m dm' where m: "dm = m # dm'" by (cases dm) auto
  have "\<not> started (ds @ rest)" using Cons.prems(4) by (cases "ds @ rest") (auto simp: started_def)
  then have "in_order (out @ drop (b_off b) m) HS LS (ds @ rest) (dm' @ rm) lb lm"
    using in_order_finish [of out HS LS b "ds @ rest" m "dm' @ rm" lb lm W] Cons.prems(1-3) m by simp
  moreover have "\<forall>b\<in>set (tl (ds @ rest)). b_off b = 0" using Cons.prems(4) by (cases "ds @ rest") auto
  ultimately show ?case using Cons.IH [of "out @ drop (b_off b) m" dm'] Cons.prems m by simp
qed

text \<open>The nodes that are left hold what is left of their messages.\<close>

lemma carries_skip:
  assumes "list_all2 (carries W) rest rm" "case rest of [] \<Rightarrow> n = 0 | b # _ \<Rightarrow> int n \<le> b_len b"
  shows "list_all2 (carries W) (skip n rest) rm" "unsent (skip n rest) rm = drop n (unsent rest rm)"
    "length (unsent rest rm) = length (take n (unsent rest rm)) + length (unsent (skip n rest) rm)"
    "set (tl (skip n rest)) = set (tl rest)"
proof -
  show h: "list_all2 (carries W) (skip n rest) rm" using assms by (cases rest) (auto simp: list_all2_Cons1 carries_def split: if_splits)
  show u: "unsent (skip n rest) rm = drop n (unsent rest rm)"
    using assms by (cases rest) (auto simp: list_all2_Cons1 carries_def add.commute simp flip: drop_drop)
  show "length (unsent rest rm) = length (take n (unsent rest rm)) + length (unsent (skip n rest) rm)" unfolding u by simp
  show "set (tl (skip n rest)) = set (tl rest)" by (cases rest) simp_all
qed

lemma unsent_append: "length ds = length dm \<Longrightarrow> unsent (ds @ rest) (dm @ rm) = unsent ds dm @ unsent rest rm"
  by (induction ds dm rule: list_induct2) simp_all

lemma unsent_split: "list_all2 (carries W) bs ms \<Longrightarrow> \<forall>b\<in>set (tl bs). b_off b = 0 \<Longrightarrow> unsent bs ms = rest_of bs ms @ concat (waiting bs ms)"
proof -
  have z: "list_all2 (carries W) bs ms \<Longrightarrow> \<forall>b\<in>set bs. b_off b = 0 \<Longrightarrow> unsent bs ms = concat ms" for bs ms
    by (induction rule: list_all2_induct) simp_all
  assume a: "list_all2 (carries W) bs ms" "\<forall>b\<in>set (tl bs). b_off b = 0"
  show ?thesis
  proof (cases bs)
    case (Cons b bs')
    then obtain m ms' where m: "ms = m # ms'" "list_all2 (carries W) bs' ms'" using a(1) by (auto simp: list_all2_Cons1)
    have "unsent bs' ms' = concat ms'" using z [OF m(2)] a(2) Cons by simp
    then show ?thesis using Cons m(1) by (auto simp: rest_of_def waiting_def started_def)
  qed (use a in \<open>simp add: rest_of_def waiting_def started_def\<close>)
qed

section \<open>An open connection\<close>

text \<open>
  An open TCP socket in slot \<open>i\<close>: \<open>M\<close> are the messages whose nodes are queued and \<open>G\<close> all messages it was given, of high (\<open>True\<close>) and low
  priority, and \<open>out\<close> is its output so far.
\<close>

definition fresh_above :: "world \<Rightarrow> bool" where
  "fresh_above W \<longleftrightarrow> 0 < w_brk W \<and> (\<forall>a\<ge>w_brk W. w_mem W a = None)"

definition out_ok ::
  "nat \<Rightarrow> int \<Rightarrow> bytes \<Rightarrow> (bool \<Rightarrow> bytes list) \<Rightarrow> 'o net \<Rightarrow> (bool \<Rightarrow> bytes list) \<Rightarrow> bool" where
  "out_ok i fd out G S M \<longleftrightarrow> (let s = slot S i in
     s_type s = T_OPENED \<and> s_protocol s = PROTOCOL_TCP \<and> s_fd s = fd \<and> fresh_above (n_w S) \<and>
     (\<forall>h. list_all2 (carries (n_w S)) (queue_of h s) (M h) \<and> (\<forall>b\<in>set (tl (queue_of h s)). b_off b = 0)) \<and>
     distinct (blocks (queue_of True s) @ blocks (queue_of False s)) \<and>
     wb_size s = int (length (unsent (queue_of True s) (M True)) + length (unsent (queue_of False s) (M False))) \<and>
     in_order out (G True) (G False) (queue_of True s) (M True) (queue_of False s) (M False))"

lemma out_ok_sock:
  assumes "out_ok i fd out G S M"
  shows "s_type (slot S i) = T_OPENED" "s_protocol (slot S i) = PROTOCOL_TCP" "s_fd (slot S i) = fd" "fresh_above (n_w S)"
  using assms by (auto simp: out_ok_def Let_def)

lemma out_okD:
  assumes "out_ok i fd out G S M"
  shows "list_all2 (carries (n_w S)) (queue_of hi (slot S i)) (M hi)" "\<forall>b\<in>set (tl (queue_of hi (slot S i))). b_off b = 0"
    "distinct (blocks (queue_of hi (slot S i)) @ blocks (queue_of (\<not> hi) (slot S i)))"
    "wb_size (slot S i) = int (length (unsent (queue_of hi (slot S i)) (M hi)) + length (unsent (queue_of (\<not> hi) (slot S i)) (M (\<not> hi))))"
    "in_order out (G hi) (G (\<not> hi)) (queue_of hi (slot S i)) (M hi) (queue_of (\<not> hi) (slot S i)) (M (\<not> hi))"
  using assms in_order_swap by (cases hi; auto simp: out_ok_def Let_def)+

lemma out_okI:
  assumes "s_type (slot S i) = T_OPENED" "s_protocol (slot S i) = PROTOCOL_TCP" "s_fd (slot S i) = fd" "fresh_above (n_w S)"
    "list_all2 (carries (n_w S)) (queue_of hi (slot S i)) (M hi)" "list_all2 (carries (n_w S)) (queue_of (\<not> hi) (slot S i)) (M (\<not> hi))"
    "\<forall>b\<in>set (tl (queue_of hi (slot S i))). b_off b = 0" "\<forall>b\<in>set (tl (queue_of (\<not> hi) (slot S i))). b_off b = 0"
    "distinct (blocks (queue_of hi (slot S i)) @ blocks (queue_of (\<not> hi) (slot S i)))"
    "wb_size (slot S i) = int (length (unsent (queue_of hi (slot S i)) (M hi)) + length (unsent (queue_of (\<not> hi) (slot S i)) (M (\<not> hi))))"
    "in_order out (G hi) (G (\<not> hi)) (queue_of hi (slot S i)) (M hi) (queue_of (\<not> hi) (slot S i)) (M (\<not> hi))"
  shows "out_ok i fd out G S M"
  unfolding out_ok_def Let_def all_bool_eq using assms in_order_swap by (cases hi; simp; blast?)

lemma queue_other [simp]: "queue_of (\<not> hi) (set_queue hi bs s) = queue_of (\<not> hi) s"
  by (simp add: queue_of_def set_queue_def)

lemma fresh_drop: "fresh_above W \<Longrightarrow> fresh_above (drop_blocks as W)"
  by (simp add: fresh_above_def)

lemma pass_ok:
  assumes "out_ok i fd out G S M" "sent_part fd i hi (queue_of hi (slot S i)) (M hi) S ds rest dm rm n S'"
    "\<not> started (queue_of (\<not> hi) (slot S i))"
  shows "\<exists>xs. n_trace S' = n_trace S @ xs \<and> out_ok i fd (out @ sent fd xs) G S' (M(hi := rm)) \<and>
    queue_of hi (slot S' i) = skip n rest \<and> queue_of (\<not> hi) (slot S' i) = queue_of (\<not> hi) (slot S i) \<and>
    s_id (slot S' i) = s_id (slot S i)"
proof -
  let ?s = "slot S i" and ?o = "queue_of (\<not> hi) (slot S i)"
  note sk0 = out_ok_sock [OF assms(1)] and ok = out_okD [OF assms(1), of hi] and oko = out_okD [OF assms(1), of "\<not> hi"]
  from assms(2) obtain xs where p: "queue_of hi ?s = ds @ rest" "M hi = dm @ rm" "length ds = length dm"
    "case rest of [] \<Rightarrow> n = 0 | b # _ \<Rightarrow> int n \<le> b_len b" "n_w S' = drop_blocks (blocks ds) (n_w S)"
    "n_trace S' = n_trace S @ xs" "sent fd xs = unsent ds dm @ take n (unsent rest rm)"
    "slot S' = (slot S)(i := (set_queue hi (skip n rest) ?s)\<lparr>wb_size := wb_size ?s - int (length (sent fd xs))\<rparr>)"
    unfolding sent_part_def by auto
  have q: "queue_of hi (slot S' i) = skip n rest" "queue_of (\<not> hi) (slot S' i) = ?o" using p(8) by simp_all
  have l: "list_all2 (carries (n_w S)) rest rm"
    using ok(1) p(1-3) by (simp add: list_all2_append)
  have d: "set (blocks rest) \<inter> set (blocks ds) = {}" "set (blocks ?o) \<inter> set (blocks ds) = {}"
    "distinct (blocks rest @ blocks ?o)" using ok(3) p(1) by auto
  have l': "list_all2 (carries (n_w S')) rest rm" "list_all2 (carries (n_w S')) ?o (M (\<not> hi))"
    unfolding p(5) using carries_list_drop [OF l d(1)] carries_list_drop [OF oko(1) d(2)] by simp_all
  note sk = carries_skip [OF l'(1) p(4)]
  have "in_order (out @ sent fd xs) (G hi) (G (\<not> hi)) (skip n rest) rm ?o (M (\<not> hi))"
    unfolding p(7) using in_order_pass [OF ok(5) [unfolded p(1,2)] assms(3) ok(1) [unfolded p(1,2)] ok(2) [unfolded p(1)] p(3,4)] by simp
  moreover have "wb_size (slot S' i) = wb_size ?s - int (length (sent fd xs))" using p(8) by simp
  then have "wb_size (slot S' i) = int (length (unsent (skip n rest) rm) + length (unsent ?o (M (\<not> hi))))"
    unfolding ok(4) p(1,2) p(7) unsent_append [OF p(3)] length_append sk(3) of_nat_add by linarith
  moreover have "set (tl rest) \<subseteq> set (tl (ds @ rest))" by (cases ds; cases rest) auto
  then have "\<forall>b\<in>set (tl (skip n rest)). b_off b = 0" using ok(2) unfolding p(1) sk(4) by blast
  ultimately have "out_ok i fd (out @ sent fd xs) G S' (M(hi := rm))"
    using sk0 d(3) p(5,8) q sk(1) l'(2) oko(2) by (intro out_okI [where hi = hi]) (simp_all add: fresh_drop)
  then show ?thesis using p(6,8) q by auto
qed

text \<open>A connection that breaks has sent a beginning of the messages in order.\<close>

definition out_broken :: "bytes \<Rightarrow> (bool \<Rightarrow> bytes list) \<Rightarrow> bool" where
  "out_broken out G \<longleftrightarrow> (\<exists>zs rest. zs \<in> shuffles (G True) (G False) \<and> out @ rest = concat zs)"

text \<open>An operation on the connection: either it broke and is closed, or it goes on in order.\<close>

definition out_step ::
  "nat \<Rightarrow> int \<Rightarrow> bytes \<Rightarrow> (bool \<Rightarrow> bytes list) \<Rightarrow> 'o net \<Rightarrow> int \<Rightarrow> 'o net \<Rightarrow> bool" where
  "out_step i fd out G S r S' \<longleftrightarrow> (\<exists>xs. n_trace S' = n_trace S @ xs \<and>
     (if r = SOCKET_CLOSE then out_broken (out @ sent fd xs) G
      else s_id (slot S' i) = s_id (slot S i) \<and> (\<exists>M. out_ok i fd (out @ sent fd xs) G S' M)))"

lemma out_ok_cong: "out_ok i fd out G S M \<Longrightarrow> slot S' i = slot S i \<Longrightarrow> n_w S' = n_w S \<Longrightarrow> out_ok i fd out G S' M"
  by (simp add: out_ok_def)

lemma out_step_trans:
  assumes "n_trace S1 = n_trace S @ xs" "s_id (slot S1 i) = s_id (slot S i)" "out_step i fd (out @ sent fd xs) G S1 r S'"
  shows "out_step i fd out G S r S'"
proof -
  from assms(3) obtain ys where "n_trace S' = n_trace S1 @ ys" "if r = SOCKET_CLOSE then out_broken (out @ sent fd (xs @ ys)) G
      else s_id (slot S' i) = s_id (slot S1 i) \<and> (\<exists>M. out_ok i fd (out @ sent fd (xs @ ys)) G S' M)"
    unfolding out_step_def append_assoc sent_append by blast
  then show ?thesis unfolding out_step_def using assms(1,2) by (intro exI [of _ "xs @ ys"]) (auto split: if_splits)
qed

lemma break_ok:
  assumes "out_ok i fd out G S M" "closed_part fd i (unsent (queue_of hi (slot S i)) (M hi)) S S'"
    "\<not> started (queue_of (\<not> hi) (slot S i))"
  shows "out_step i fd out G S SOCKET_CLOSE S'"
proof -
  let ?q = "queue_of hi (slot S i)" and ?o = "queue_of (\<not> hi) (slot S i)"
  note ok = out_okD [OF assms(1), of hi]
  from assms(2) obtain xs rest where x: "n_trace S' = n_trace S @ xs" "sent fd xs @ rest = unsent ?q (M hi)"
    by (auto simp: closed_part_def)
  from ok(5) assms(3) obtain zs hs ls where z: "zs \<in> shuffles hs ls" "out @ rest_of ?q (M hi) = concat zs"
    "G hi = hs @ waiting ?q (M hi)" "G (\<not> hi) = ls @ waiting ?o (M (\<not> hi))" by (auto simp: in_order_def rest_of_def)
  let ?zs = "zs @ waiting ?q (M hi) @ waiting ?o (M (\<not> hi))"
  have "?zs \<in> shuffles (G hi) (G (\<not> hi))" unfolding z(3,4) using z(1) by (rule shuffles_extend)
  then have "?zs \<in> shuffles (G True) (G False)" by (cases hi) (simp_all add: shuffles_commutes)
  moreover have "out @ unsent ?q (M hi) = concat zs @ concat (waiting ?q (M hi))"
    unfolding unsent_split [OF ok(1,2)] using z(2) by simp
  then have "out @ sent fd xs @ rest @ concat (waiting ?o (M (\<not> hi))) = concat ?zs" using x(2) by (metis append.assoc concat_append)
  ultimately have "out_broken (out @ sent fd xs) G" unfolding out_broken_def by (metis append.assoc)
  then show ?thesis using x(1) by (auto simp: out_step_def)
qed

lemma not_started_complete:
  "list_all2 (carries W) bs ms \<Longrightarrow> socket_buffer_list_complete bs \<longleftrightarrow> \<not> started bs"
  by (cases bs) (auto simp: socket_buffer_list_complete_def started_def carries_def list_all2_Cons1)

lemma move_ok:
  assumes "out_ok i fd out G S M" "high (slot S i) = []" "started (low (slot S i))"
  shows "out_ok i fd out G (set_slot i (\<lambda>s. s\<lparr>high := [hd (low s)], low := tl (low s)\<rparr>) S) (\<lambda>h. if h then [hd (M False)] else tl (M False))"
proof -
  let ?s = "slot S i"
  note ok = out_okD [OF assms(1), of True]
  have q: "queue_of True ?s = []" "queue_of False ?s = low ?s" using assms(2) by (simp_all add: queue_of_def)
  obtain b bs where l: "low ?s = b # bs" using assms(3) by (cases "low ?s") (auto simp: started_def)
  obtain m ms where m: "M False = m # ms" "carries (n_w S) b m" "list_all2 (carries (n_w S)) bs ms"
    using out_okD(1) [OF assms(1), of False] q(2) l by (auto simp: list_all2_Cons1)
  have z: "M True = []" using ok(1) q(1) by simp
  have o: "\<forall>b\<in>set bs. b_off b = 0" using out_okD(2) [OF assms(1), of False] q(2) l by simp
  then have ns: "\<not> started bs" by (cases bs) (simp_all add: started_def)
  have st: "started (b # bs)" "started [b]" using assms(3) l by (simp_all add: started_def)
  have io: "in_order out (G True) (G False) [b] [m] bs ms"
    using ok(5) st ns q l m(1) z by (simp add: in_order_def rest_of_def waiting_def started_def [of "[]"])
  have ot: "\<forall>b\<in>set (tl bs). b_off b = 0" using o by (cases bs) auto
  show ?thesis
    using out_ok_sock [OF assms(1)] ok(3,4) io m ot l z q
    by (intro out_okI [where hi = True]) (auto simp: queue_of_def)
qed

lemma queue_of_simps: "queue_of True s = high s" "queue_of False s = low s"
  by (simp_all add: queue_of_def)

lemma pass_step:
  assumes "write_ok Y" "out_ok i fd out G S M" "socket_send_buffer_list Y i hi (queue_of hi (slot S i)) msg S = Some (r, msg', S')"
    "\<not> started (queue_of (\<not> hi) (slot S i))"
  shows "r = SOCKET_CLOSE \<and> out_step i fd out G S SOCKET_CLOSE S' \<or>
    r = - 1 \<and> (\<exists>xs M'. n_trace S' = n_trace S @ xs \<and> out_ok i fd (out @ sent fd xs) G S' M' \<and>
      queue_of (\<not> hi) (slot S' i) = queue_of (\<not> hi) (slot S i) \<and> s_id (slot S' i) = s_id (slot S i))"
proof -
  note ok = out_okD [OF assms(2), of hi] and sk = out_ok_sock [OF assms(2)]
  from send_list_spec [OF assms(1,3) ok(1) _ _ sk(3)] ok(3) consider
      (part) ds rest dm rm n where "r = - 1" "sent_part fd i hi (queue_of hi (slot S i)) (M hi) S ds rest dm rm n S'"
    | (closed) "r = SOCKET_CLOSE" "closed_part fd i (unsent (queue_of hi (slot S i)) (M hi)) S S'" by auto
  then show ?thesis
  proof cases
    case part
    then show ?thesis using pass_ok [OF assms(2) part(2) assms(4)] by blast
  next
    case closed
    then show ?thesis using break_ok [OF assms(2) closed(2) assms(4)] by blast
  qed
qed

lemma low_pass:
  assumes "write_ok Y" "out_ok i fd out G S M" "socket_send_buffer_list Y i False (low (slot S i)) msg S = Some (r, msg', S2)"
    "high (slot S i) = []"
    "S' = (if r = SOCKET_CLOSE \<or> socket_buffer_list_complete (low (slot S2 i)) then S2
           else set_slot i (\<lambda>s. s\<lparr>high := [hd (low s)], low := tl (low s)\<rparr>) S2)"
  shows "r \<in> {- 1, SOCKET_CLOSE} \<and> out_step i fd out G S r S'"
proof -
  have "\<not> started (queue_of (\<not> False) (slot S i))" using assms(4) by (simp add: queue_of_simps started_def)
  from pass_step [OF assms(1,2) assms(3) [folded queue_of_simps(2)] this] consider
      (closed) "r = SOCKET_CLOSE" "out_step i fd out G S SOCKET_CLOSE S2"
    | (part) xs M' where "r = - 1" "n_trace S2 = n_trace S @ xs" "out_ok i fd (out @ sent fd xs) G S2 M'"
        "queue_of (\<not> False) (slot S2 i) = queue_of (\<not> False) (slot S i)" "s_id (slot S2 i) = s_id (slot S i)" by blast
  then show ?thesis
  proof cases
    case closed
    then show ?thesis using assms(5) by simp
  next
    case part
    have c: "socket_buffer_list_complete (low (slot S2 i)) \<longleftrightarrow> \<not> started (low (slot S2 i))"
      using not_started_complete [OF out_okD(1) [OF part(3), of False]] by (simp add: queue_of_simps)
    have "\<exists>M. out_ok i fd (out @ sent fd xs) G S' M"
      using assms(4,5) part(1,3,4) c move_ok [OF part(3)] by (auto simp: queue_of_simps)
    moreover have "n_trace S' = n_trace S @ xs" "s_id (slot S' i) = s_id (slot S i)" using assms(5) part by auto
    ultimately show ?thesis using part(1) by (auto simp: out_step_def)
  qed
qed

lemma writable_step:
  assumes "write_ok Y" "out_ok i fd out G S M" "socket_send_buffer Y i msg S = Some (r, msg', S')"
  shows "r \<in> {- 1, SOCKET_CLOSE} \<and> out_step i fd out G S r S'"
proof -
  let ?s = "slot S i"
  from assms(3) have c: "socket_buffer_list_complete (low ?s)" by (auto simp: socket_send_buffer_def split: if_splits)
  then have nl: "\<not> started (queue_of (\<not> True) ?s)"
    using not_started_complete [OF out_okD(1) [OF assms(2), of False]] by (simp add: queue_of_simps)
  from assms(3) c obtain r1 msg1 S1 where p1: "socket_send_buffer_list Y i True (queue_of True ?s) msg S = Some (r1, msg1, S1)"
    by (auto simp: socket_send_buffer_def queue_of_simps split: bind_splits)
  note ev = assms(3) [unfolded socket_send_buffer_def] c p1 [unfolded queue_of_simps]
  from pass_step [OF assms(1,2) p1 nl] consider
      (closed) "r1 = SOCKET_CLOSE" "out_step i fd out G S SOCKET_CLOSE S1"
    | (part) xs M' where "r1 = - 1" "n_trace S1 = n_trace S @ xs" "out_ok i fd (out @ sent fd xs) G S1 M'"
        "s_id (slot S1 i) = s_id (slot S i)" by blast
  then show ?thesis
  proof cases
    case closed
    then show ?thesis using ev by simp
  next
    case part
    let ?out = "out @ sent fd xs" and ?s1 = "slot S1 i"
    consider (high) "high ?s1 \<noteq> []" | (low) "high ?s1 = []" "low ?s1 \<noteq> []" | (none) "high ?s1 = []" "low ?s1 = []" by blast
    then have "r \<in> {- 1, SOCKET_CLOSE} \<and> out_step i fd ?out G S1 r S'"
    proof cases
      case high
      then have "r = - 1" "S' = S1" using ev part(1) by simp_all
      then show ?thesis using part(3) by (auto simp: out_step_def intro!: exI [of _ "[]"])
    next
      case none
      have "s_type ?s1 = T_OPENED" using out_ok_sock [OF part(3)] by simp
      then have "r = - 1" "S' = event_write Y (s_fd ?s1) (Some i) False S1"
        using ev part(1) none by (simp_all add: event_write_def sys_call_def Let_def split: prod.splits)
      then obtain rr where w: "r = - 1" "n_trace S' = n_trace S1 @ [(Sys_epoll_mod (s_fd ?s1) (Some i) False, rr)]" "slot S' = slot S1" "n_w S' = n_w S1"
        by (auto simp: event_write_def sys_call_def split: prod.splits)
      then show ?thesis using part(3) out_ok_cong [OF part(3), of S']
        by (auto simp: out_step_def intro!: exI [of _ "[(Sys_epoll_mod (s_fd ?s1) (Some i) False, rr)]"])
    next
      case low
      obtain r2 msg2 S2 where p2: "socket_send_buffer_list Y i False (low ?s1) msg1 S1 = Some (r2, msg2, S2)"
        using ev part(1) low by (auto split: bind_splits)
      have "r2 \<in> {- 1, SOCKET_CLOSE}" using low_pass [OF assms(1) part(3) p2 low(1) refl] by blast
      then have "r = r2" "S' = (if r2 = SOCKET_CLOSE \<or> socket_buffer_list_complete (low (slot S2 i)) then S2
           else set_slot i (\<lambda>s. s\<lparr>high := [hd (low s)], low := tl (low s)\<rparr>) S2)"
        using ev part(1) low p2 by (auto split: if_splits)
      then show ?thesis using low_pass [OF assms(1) part(3) p2 low(1)] by blast
    qed
    then show ?thesis using out_step_trans [OF part(2,4)] by blast
  qed
qed

text \<open>The sender copies its message to a block of its own, as \<open>lsend\<close> does.\<close>

definition put_block :: "bytes \<Rightarrow> 'o net \<Rightarrow> (addr \<times> 'o net) option" where
  "put_block m S = do {
     (d, S) \<leftarrow> net_alloc (int (length m)) S;
     S \<leftarrow> in_world (store d m) S;
     Some (d, S) }"

definition with_block :: "bytes \<Rightarrow> world \<Rightarrow> world" where
  "with_block m W = (if m = [] then W else W\<lparr>w_mem := (w_mem W)(w_brk W \<mapsto> m), w_brk := w_brk W + 1\<rparr>)"

definition block_of :: "bytes \<Rightarrow> world \<Rightarrow> addr" where
  "block_of m W = (if m = [] then 0 else w_brk W)"

lemma put_block_eq: "put_block m S = Some (block_of m (n_w S), S\<lparr>n_w := with_block m (n_w S)\<rparr>)"
  by (simp add: put_block_def net_alloc_def in_world_def pixel_alloc_def store_def with_block_def block_of_def)

lemma fresh_with_block: "fresh_above W \<Longrightarrow> fresh_above (with_block m W)"
  by (simp add: fresh_above_def with_block_def)

lemma carries_with_block: "fresh_above W \<Longrightarrow> carries W b m' \<Longrightarrow> carries (with_block m W) b m'"
  by (auto simp: carries_def with_block_def fresh_above_def split: if_splits)

lemma carries_block_of:
  "fresh_above W \<Longrightarrow> b_base b = b_buff b \<Longrightarrow> b_buff b = block_of m W \<Longrightarrow> b_off b \<le> length m \<Longrightarrow> b_len b = int (length m) - int (b_off b) \<Longrightarrow>
    carries (with_block m W) b m"
  by (auto simp: carries_def with_block_def block_of_def fresh_above_def)

lemma free_with_block:
  "fresh_above W \<Longrightarrow> \<exists>W'. free_data (block_of m W) (with_block m W) = Some W' \<and> fresh_above W'"
  by (auto simp: free_data_def pixel_alloc_def with_block_def block_of_def fresh_above_def)

lemma carries_blocks_below:
  "list_all2 (carries W) bs ms \<Longrightarrow> fresh_above W \<Longrightarrow> \<forall>a\<in>set (blocks bs). a < w_brk W"
proof (induction rule: list_all2_induct)
  case (Cons b bs m ms)
  then have "b_buff b = 0 \<or> w_mem W (b_buff b) \<noteq> None" by (auto simp: carries_def split: if_splits)
  then have "b_buff b < w_brk W" using Cons.prems unfolding fresh_above_def by (metis not_le)
  then show ?case using Cons.IH Cons.prems by simp
qed simp

lemma in_order_append:
  assumes "in_order out HS LS hb hm lb lm" "b_off b = 0" "length hb = length hm"
  shows "in_order out (HS @ [m]) LS (hb @ [b]) (hm @ [m]) lb lm"
proof -
  have "started (hb @ [b]) = started hb \<and> rest_of (hb @ [b]) (hm @ [m]) = rest_of hb hm \<and> waiting (hb @ [b]) (hm @ [m]) = waiting hb hm @ [m]"
  proof (cases hb)
    case Nil
    then show ?thesis using assms(2,3) by (simp add: started_def rest_of_def waiting_def)
  next
    case (Cons c cs)
    then obtain x xs where "hm = x # xs" using assms(3) by (cases hm) simp_all
    then show ?thesis using Cons by (simp add: started_def rest_of_def waiting_def)
  qed
  then show ?thesis using assms(1) unfolding in_order_def by auto
qed

lemma in_order_broken: "in_order out (G True) (G False) hb hm lb lm \<Longrightarrow> out_broken out G"
proof -
  assume "in_order out (G True) (G False) hb hm lb lm"
  then obtain zs hs ls where z: "zs \<in> shuffles hs ls" "out @ rest_of hb hm @ rest_of lb lm = concat zs"
    "G True = hs @ waiting hb hm" "G False = ls @ waiting lb lm" by (auto simp: in_order_def)
  let ?zs = "zs @ waiting hb hm @ waiting lb lm"
  have "?zs \<in> shuffles (G True) (G False)" unfolding z(3,4) using z(1) by (rule shuffles_extend)
  moreover have "out @ (rest_of hb hm @ rest_of lb lm) @ concat (waiting hb hm @ waiting lb lm) = concat ?zs"
    using z(2) by (metis append.assoc concat_append)
  ultimately show ?thesis unfolding out_broken_def by blast
qed

abbreviation given :: "bool \<Rightarrow> bytes \<Rightarrow> (bool \<Rightarrow> bytes list) \<Rightarrow> bool \<Rightarrow> bytes list" where
  "given hi m G \<equiv> G(hi := G hi @ [m])"

text \<open>Queueing a message of which \<open>n\<close> bytes were written at once; only an idle socket writes at once.\<close>

lemma append_ok:
  assumes "out_ok i fd out G S M" "n_w S1 = with_block m (n_w S)"
    "slot S1 i = (set_queue hi (queue_of hi (slot S i) @ [b]) (slot S i))\<lparr>wb_size := wb_size (slot S i) + b_len b\<rparr>"
    "b_base b = b_buff b" "b_buff b = block_of m (n_w S)" "b_len b = int (length m) - int (b_off b)" "b_off b \<le> length m"
    "b_off b = 0 \<or> queue_of True (slot S i) = [] \<and> queue_of False (slot S i) = []"
  shows "out_ok i fd (out @ take (b_off b) m) (given hi m G) S1 (given hi m M)"
proof -
  let ?q = "queue_of hi (slot S i)" and ?o = "queue_of (\<not> hi) (slot S i)" and ?W = "n_w S"
  note sk = out_ok_sock [OF assms(1)] and ok = out_okD [OF assms(1), of hi] and oko = out_okD [OF assms(1), of "\<not> hi"]
  have q: "queue_of hi (slot S1 i) = ?q @ [b]" "queue_of (\<not> hi) (slot S1 i) = ?o" using assms(3) by simp_all
  have h: "carries (n_w S1) b m" unfolding assms(2) using carries_block_of [OF sk(4) assms(4,5,7,6)] .
  have l: "list_all2 (carries (n_w S1)) ?q (M hi)" "list_all2 (carries (n_w S1)) ?o (M (\<not> hi))"
    unfolding assms(2) using ok(1) oko(1) carries_with_block [OF sk(4)] by (auto elim: list_all2_mono)
  have len: "length ?q = length (M hi)" using ok(1) by (rule list_all2_lengthD)
  have "in_order (out @ take (b_off b) m) (G hi @ [m]) (G (\<not> hi)) (?q @ [b]) (M hi @ [m]) ?o (M (\<not> hi))"
  proof (cases "b_off b = 0")
    case True
    then show ?thesis using in_order_append [OF ok(5) True len] by simp
  next
    case False
    then have e: "?q = []" "?o = []" "M hi = []" using assms(8) len by (cases hi; auto)+
    have "in_order out (G hi @ [m]) (G (\<not> hi)) [b\<lparr>b_off := 0\<rparr>] [m] ?o (M (\<not> hi))"
      using in_order_append [OF ok(5), of "b\<lparr>b_off := 0\<rparr>" m] len e by simp
    from in_order_advance [OF this, of "b_off b" "b_len b"] False assms(7) e show ?thesis by (simp add: started_def)
  qed
  moreover have "wb_size (slot S1 i) = int (length (unsent (?q @ [b]) (M hi @ [m])) + length (unsent ?o (M (\<not> hi))))"
    using assms(3,6,7) ok(4) by (simp add: unsent_append [OF len] of_nat_diff)
  moreover have "distinct (blocks (?q @ [b]) @ blocks ?o)"
    using ok(3) carries_blocks_below [OF ok(1) sk(4)] carries_blocks_below [OF oko(1) sk(4)] assms(5) by (auto simp: block_of_def)
  moreover have "\<forall>b\<in>set (tl (?q @ [b])). b_off b = 0" using ok(2) assms(8) by (cases ?q; cases hi; auto)
  ultimately show ?thesis
    using sk l h q oko(2) assms(2,3) fresh_with_block [OF sk(4), of m]
    by (intro out_okI [where hi = hi]) (simp_all add: list_all2_appendI)
qed

text \<open>The message was written at once and its block is freed.\<close>

lemma sent_now_ok:
  assumes "out_ok i fd out G S M" "queue_of True (slot S i) = []" "queue_of False (slot S i) = []" "fresh_above (n_w S1)"
    "slot S1 i = slot S i"
  shows "out_ok i fd (out @ m) (given hi m G) S1 M"
proof -
  note sk = out_ok_sock [OF assms(1)] and ok = out_okD [OF assms(1), of hi]
  have q: "queue_of h (slot S i) = []" for h using assms(2,3) by (cases h) simp_all
  have e: "M h = []" for h using out_okD(1) [OF assms(1), of h] q by simp
  let ?b = "\<lparr>b_buff = 0, b_base = 0, b_off = 0, b_len = 0, b_send_object = False, b_udp_address = []\<rparr>"
  have "in_order out (G hi @ [m]) (G (\<not> hi)) [?b] [m] [] []"
    using in_order_append [OF ok(5) [unfolded q e], of ?b m] by simp
  then have "in_order (out @ m) (G hi @ [m]) (G (\<not> hi)) [] [] [] []"
  proof (cases "m = []")
    case True
    then show ?thesis using in_order_pop [of out "G hi @ [m]" "G (\<not> hi)" ?b "[]" m "[]" "[]" "[]"]
        \<open>in_order out (G hi @ [m]) (G (\<not> hi)) [?b] [m] [] []\<close> by (simp add: started_def)
  next
    case False
    have "in_order (out @ m) (G hi @ [m]) (G (\<not> hi)) [?b\<lparr>b_off := length m, b_len := 0\<rparr>] [m] [] []"
      using in_order_advance [OF \<open>in_order out (G hi @ [m]) (G (\<not> hi)) [?b] [m] [] []\<close>, of "length m" 0] False by (simp add: started_def)
    from in_order_pop [OF this] show ?thesis by (simp add: started_def)
  qed
  then show ?thesis
    using sk(1-3) ok(4) assms(4,5) q e by (intro out_okI [where hi = hi]) simp_all
qed

lemma out_ok_broken: "out_ok i fd out G S M \<Longrightarrow> out_broken out G"
  using in_order_broken out_okD(5) [of i fd out G S M True] by simp

lemma broken_given: "out_broken out G \<Longrightarrow> out_broken out (given hi m G)"
proof -
  assume "out_broken out G"
  then obtain zs rest where z: "zs \<in> shuffles (G True) (G False)" "out @ rest = concat zs" by (auto simp: out_broken_def)
  have "zs @ [m] \<in> shuffles ((given hi m G) True) ((given hi m G) False)"
    using shuffles_snoc_left [OF z(1)] shuffles_snoc_right [OF z(1)] by (cases hi) simp_all
  moreover have "out @ (rest @ m) = concat (zs @ [m])" using z(2) by simp
  ultimately show ?thesis unfolding out_broken_def by blast
qed

definition out_node :: "addr \<Rightarrow> int \<Rightarrow> nat \<Rightarrow> wbuffer" where
  "out_node d siz n = \<lparr>b_buff = d, b_base = d, b_off = n, b_len = siz - int n, b_send_object = False, b_udp_address = []\<rparr>"

definition queue_node :: "nat \<Rightarrow> bool \<Rightarrow> wbuffer \<Rightarrow> 'o net \<Rightarrow> 'o net" where
  "queue_node i hi b S = set_slot i (\<lambda>s. (set_queue hi (queue_of hi s @ [b]) s)\<lparr>wb_size := wb_size s + b_len b\<rparr>) S"

lemma queue_node_frame [simp]:
  "n_w (queue_node i hi b S) = n_w S" "n_trace (queue_node i hi b S) = n_trace S"
  "slot (queue_node i hi b S) i = (set_queue hi (queue_of hi (slot S i) @ [b]) (slot S i))\<lparr>wb_size := wb_size (slot S i) + b_len b\<rparr>"
  by (simp_all add: queue_node_def)

abbreviation plain_req :: "int \<Rightarrow> bool \<Rightarrow> addr \<Rightarrow> bytes \<Rightarrow> send_req" where
  "plain_req sid hi d m \<equiv> \<lparr>rq_id = sid, rq_priority = (if hi then 0 else 1), rq_size = int (length m), rq_data = d\<rparr>"

lemma append_sendbuffer_eq:
  "socket_append_sendbuffer i (plain_req sid hi d m) n [] S = Some (queue_node i hi (out_node d (int (length m)) n) S)"
  by (simp add: socket_append_sendbuffer_def socket_append_buffer_def socket_send_object_init_def queue_node_def out_node_def
      set_queue_def queue_of_def)

lemma region_with_block: "region (block_of m W) 0 (int (length m)) (with_block m W) = Some m"
  by (simp add: region_def with_block_def block_of_def)

lemma send_now_step:
  assumes "write_ok Y" "out_ok i fd out G S M" "queue_of True (slot S i) = []" "queue_of False (slot S i) = []"
    "send_now Y i (plain_req sid hi (block_of m (n_w S)) m) [] msg (S\<lparr>n_w := with_block m (n_w S)\<rparr>) = Some (ro, msg', S')"
  shows "ro \<in> {None, Some (- 1), Some SOCKET_CLOSE} \<and>
    out_step i fd out (given hi m G) S (case ro of None \<Rightarrow> - 1 | Some r \<Rightarrow> r) S'"
proof -
  let ?W = "n_w S" and ?d = "block_of m (n_w S)"
  let ?S1 = "S\<lparr>n_w := with_block m ?W\<rparr>"
  note sk = out_ok_sock [OF assms(2)]
  obtain n S2 where w: "sys_call Y (Sys_write fd m) ?S1 = (n, S2)" by fastforce
  then obtain os where os: "y_call Y (Sys_write fd m) (n_os S) = (n, os)"
    "S2 = ?S1\<lparr>n_os := os, n_trace := n_trace S @ [(Sys_write fd m, n)]\<rparr>" by (auto simp: sys_call_eq)
  have n: "n \<le> int (length m)" using assms(1) os(1) by (metis fst_conv write_ok_def)
  define k where "k = (if n < 0 then 0 else nat n)"
  let ?xs = "[(Sys_write fd m, n)]"
  have sx: "sent fd ?xs = take k m" by (simp add: k_def)
  have eq: "send_now Y i (plain_req sid hi ?d m) [] msg ?S1 =
     (if n < 0 \<and> errno_of Y S2 \<notin> {EINTR, EAGAIN} then do {
        (msg, S) \<leftarrow> socket_force_close Y i S2;
        S \<leftarrow> so_free False ?d S;
        Some (Some SOCKET_CLOSE, msg, S) }
      else if k = length m then do { S \<leftarrow> so_free False ?d S2; Some (Some (- 1), msg, S) }
      else Some (None, msg, event_write Y (s_fd (slot (queue_node i hi (out_node ?d (int (length m)) k) S2) i)) (Some i) True
        (queue_node i hi (out_node ?d (int (length m)) k) S2)))"
    using w sk(2,3) n by (auto simp: send_now_def socket_send_object_init_def region_with_block append_sendbuffer_eq Let_def k_def)
  have "k \<le> length m" using n by (auto simp: k_def)
  then consider (fail) "n < 0" "errno_of Y S2 \<notin> {EINTR, EAGAIN}" | (all) "\<not> (n < 0 \<and> errno_of Y S2 \<notin> {EINTR, EAGAIN})" "k = length m"
    | (part) "\<not> (n < 0 \<and> errno_of Y S2 \<notin> {EINTR, EAGAIN})" "k < length m" by (metis le_neq_implies_less)
  then show ?thesis
  proof cases
    case fail
    then obtain msg2 S3 where c: "socket_force_close Y i S2 = Some (msg2, S3)" "so_free False ?d S3 = Some S'" "ro = Some SOCKET_CLOSE"
      using assms(5) unfolding eq by (auto split: bind_splits)
    from force_close_closes [OF c(1)] obtain ys where "n_trace S3 = n_trace S2 @ ys" "sent fd ys = []" by auto
    moreover have "n_trace S' = n_trace S3" using c(2) by (auto simp: so_free_def in_world_def split: bind_splits)
    ultimately have "n_trace S' = n_trace S @ (?xs @ ys)" "sent fd (?xs @ ys) = []" using os(2) sx fail(1) by (simp_all add: k_def)
    then show ?thesis using c(3) broken_given [OF out_ok_broken [OF assms(2)]] unfolding out_step_def by fastforce
  next
    case all
    from free_with_block [OF sk(4), of m] obtain W' where f: "free_data ?d (with_block m ?W) = Some W'" "fresh_above W'" by blast
    then have r: "ro = Some (- 1)" "S' = S2\<lparr>n_w := W'\<rparr>"
      using assms(5) all os(2) unfolding eq by (auto simp: so_free_def in_world_def)
    have "out_ok i fd (out @ m) (given hi m G) S' M"
      by (rule sent_now_ok [OF assms(2-4)]) (use r(2) os(2) f(2) in simp_all)
    then show ?thesis using r os(2) sx all(2) unfolding out_step_def by (auto intro!: exI [of _ ?xs])
  next
    case part
    let ?b = "out_node ?d (int (length m)) k"
    let ?S3 = "queue_node i hi ?b S2"
    have r: "ro = None" "S' = event_write Y (s_fd (slot ?S3 i)) (Some i) True ?S3"
      using assms(5) part unfolding eq by (simp_all split: if_splits)
    then obtain rr where S': "n_trace S' = n_trace ?S3 @ [(Sys_epoll_mod (s_fd (slot ?S3 i)) (Some i) True, rr)]" "slot S' = slot ?S3" "n_w S' = n_w ?S3"
      by (auto simp: event_write_def sys_call_def split: prod.splits)
    have "out_ok i fd (out @ take k m) (given hi m G) ?S3 (given hi m M)"
      using append_ok [OF assms(2), where ?S1.0 = ?S3 and m = m and hi = hi and b = ?b] os(2) part(2) assms(3,4) by (simp add: out_node_def)
    then have "out_ok i fd (out @ take k m) (given hi m G) S' (given hi m M)" using out_ok_cong S'(2,3) by metis
    then show ?thesis using r(1) S' os(2) sx unfolding out_step_def
      by (auto intro!: exI [of _ "?xs @ [(Sys_epoll_mod (s_fd (slot ?S3 i)) (Some i) True, rr)]"])
  qed
qed

lemma send_step:
  assumes "write_ok Y" "out_ok i fd out G S M" "hash_id sid = Some i" "s_id (slot S i) = sid"
    "socket_req_send Y (plain_req sid hi (block_of m (n_w S)) m) None msg (S\<lparr>n_w := with_block m (n_w S)\<rparr>) = Some (r, msg', S')"
  shows "r \<in> {- 1, SOCKET_CLOSE, SOCKET_WARNING} \<and> out_step i fd out (given hi m G) S r S'"
proof -
  let ?S1 = "S\<lparr>n_w := with_block m (n_w S)\<rparr>" and ?d = "block_of m (n_w S)"
  let ?b = "out_node ?d (int (length m)) 0"
  note sk = out_ok_sock [OF assms(2)]
  have eq: "socket_req_send Y (plain_req sid hi ?d m) None msg ?S1 = do {
      (ro, msg, S) \<leftarrow> (if queue_of True (slot S i) = [] \<and> queue_of False (slot S i) = [] then send_now Y i (plain_req sid hi ?d m) [] msg ?S1
         else Some (None, msg, queue_node i hi ?b ?S1));
      case ro of
        Some r \<Rightarrow> Some (r, msg, S)
      | None \<Rightarrow>
          let s = slot S i in
          if wb_size s > 1024 * 1024
          then Some (SOCKET_WARNING, \<lparr>m_id = s_id s, m_ud = s_ud s, m_data = M_null, m_size = wb_size s div 1024\<rparr>, S)
          else Some (- 1, msg, S) }"
    using assms(3,4) sk
    by (simp add: socket_req_send_def socket_send_object_init_def udp_target_def append_sendbuffer_eq queue_of_simps Let_def)
  show ?thesis
  proof (cases "queue_of True (slot S i) = [] \<and> queue_of False (slot S i) = []")
    case True
    with assms(5) obtain ro msg2 S2 where n: "send_now Y i (plain_req sid hi ?d m) [] msg ?S1 = Some (ro, msg2, S2)"
      unfolding eq by (auto split: bind_splits)
    from send_now_step [OF assms(1,2) _ _ n] True have ro: "ro \<in> {None, Some (- 1), Some SOCKET_CLOSE}"
      "out_step i fd out (given hi m G) S (case ro of None \<Rightarrow> - 1 | Some r \<Rightarrow> r) S2" by auto
    have "S' = S2 \<and> (case ro of Some r' \<Rightarrow> r = r' | None \<Rightarrow> r \<in> {- 1, SOCKET_WARNING})"
      using assms(5) n True unfolding eq by (auto simp: Let_def split: option.splits if_splits)
    then show ?thesis using ro by (auto simp: out_step_def)
  next
    case False
    have "S' = queue_node i hi ?b ?S1" "r \<in> {- 1, SOCKET_WARNING}"
      using assms(5) False unfolding eq by (auto simp: Let_def split: if_splits)
    moreover have "out_ok i fd (out @ take (b_off ?b) m) (given hi m G) (queue_node i hi ?b ?S1) (given hi m M)"
      by (rule append_ok [OF assms(2)]) (simp_all add: out_node_def)
    ultimately show ?thesis by (auto simp: out_step_def out_node_def intro!: exI [of _ "[]"])
  qed
qed

section \<open>Sessions\<close>

text \<open>
  What happens to a connection from the point of view of its output: a message is copied to a block and its request handled, or the
  socket is reported writable. The run ends when the connection breaks (\<open>True\<close>).
\<close>

datatype out_op = Op_send bool bytes | Op_writable

abbreviation no_msg :: smsg where
  "no_msg \<equiv> \<lparr>m_id = 0, m_ud = 0, m_data = M_null, m_size = 0\<rparr>"

fun run_out :: "'o sys \<Rightarrow> int \<Rightarrow> out_op list \<Rightarrow> 'o net \<Rightarrow> (bool \<times> 'o net) option" where
  "run_out Y sid [] S = Some (False, S)"
| "run_out Y sid (Op_send hi m # ops) S = do {
     (d, S) \<leftarrow> put_block m S;
     (r, _, S) \<leftarrow> socket_req_send Y (plain_req sid hi d m) None no_msg S;
     if r = SOCKET_CLOSE then Some (True, S) else run_out Y sid ops S }"
| "run_out Y sid (Op_writable # ops) S = do {
     i \<leftarrow> hash_id sid;
     (r, _, S) \<leftarrow> socket_send_buffer Y i no_msg S;
     if r = SOCKET_CLOSE then Some (True, S) else run_out Y sid ops S }"

fun given_msgs :: "bool \<Rightarrow> out_op list \<Rightarrow> bytes list" where
  "given_msgs hi [] = []"
| "given_msgs hi (Op_send h m # ops) = (if h = hi then m # given_msgs hi ops else given_msgs hi ops)"
| "given_msgs hi (Op_writable # ops) = given_msgs hi ops"

text \<open>The output that is still queued, in the order in which it is going to be written.\<close>

definition queued :: "world \<Rightarrow> wbuffer list \<Rightarrow> bytes" where
  "queued W bs = concat (map (\<lambda>b. case region (b_base b) (b_off b) (b_len b) W of None \<Rightarrow> [] | Some d \<Rightarrow> d) bs)"

definition pending :: "nat \<Rightarrow> 'o net \<Rightarrow> bytes" where
  "pending i S = (let s = slot S i; W = n_w S in
     if started (low s) then queued W [hd (low s)] @ queued W (high s) @ queued W (tl (low s))
     else queued W (high s) @ queued W (low s))"

lemma queued_unsent: "list_all2 (carries W) bs ms \<Longrightarrow> queued W bs = unsent bs ms"
  by (induction rule: list_all2_induct) (simp_all add: queued_def carries_region)

lemma broken_more: "out_broken out G \<Longrightarrow> out_broken out (\<lambda>h. G h @ H h)"
proof -
  assume "out_broken out G"
  then obtain zs rest where z: "zs \<in> shuffles (G True) (G False)" "out @ rest = concat zs" by (auto simp: out_broken_def)
  have "out @ (rest @ concat (H True @ H False)) = concat (zs @ H True @ H False)" using z(2) by simp
  then show ?thesis unfolding out_broken_def using shuffles_extend [OF z(1)] by blast
qed

lemma run_out_spec:
  assumes "write_ok Y" "out_ok i fd out G S M" "hash_id sid = Some i" "s_id (slot S i) = sid" "run_out Y sid ops S = Some (c, S')"
  shows "\<exists>xs. n_trace S' = n_trace S @ xs \<and>
    (if c then out_broken (out @ sent fd xs) (\<lambda>h. G h @ given_msgs h ops)
     else \<exists>M'. out_ok i fd (out @ sent fd xs) (\<lambda>h. G h @ given_msgs h ops) S' M')"
  using assms(2,4,5)
proof (induction ops arbitrary: out G S M)
  case Nil
  then show ?case by (auto intro!: exI [of _ "[]"])
next
  case (Cons x ops)
  have go: ?case if step: "out_step i fd out G1 S r S1" and G1: "\<And>h. G1 h @ given_msgs h ops = G h @ given_msgs h (x # ops)"
    and run: "(if r = SOCKET_CLOSE then Some (True, S1) else run_out Y sid ops S1) = Some (c, S')" for G1 r S1
  proof -
    from step obtain xs where xs: "n_trace S1 = n_trace S @ xs" "if r = SOCKET_CLOSE then out_broken (out @ sent fd xs) G1
      else s_id (slot S1 i) = s_id (slot S i) \<and> (\<exists>M. out_ok i fd (out @ sent fd xs) G1 S1 M)" by (auto simp: out_step_def)
    show ?thesis
    proof (cases "r = SOCKET_CLOSE")
      case True
      then have "out_broken (out @ sent fd xs) (\<lambda>h. G h @ given_msgs h (x # ops))"
        using xs(2) broken_more [of "out @ sent fd xs" G1 "\<lambda>h. given_msgs h ops"] unfolding G1 by simp
      then show ?thesis using True run xs(1) by (intro exI [of _ xs]) simp
    next
      case False
      then obtain M1 where M1: "out_ok i fd (out @ sent fd xs) G1 S1 M1" "s_id (slot S1 i) = sid" "run_out Y sid ops S1 = Some (c, S')"
        using xs(2) run Cons.prems(2) by auto
      from Cons.IH [OF this] obtain ys where "n_trace S' = n_trace S1 @ ys"
        "if c then out_broken (out @ sent fd (xs @ ys)) (\<lambda>h. G1 h @ given_msgs h ops)
         else \<exists>M'. out_ok i fd (out @ sent fd (xs @ ys)) (\<lambda>h. G1 h @ given_msgs h ops) S' M'"
        unfolding append_assoc sent_append by blast
      then show ?thesis unfolding G1 using xs(1) by (intro exI [of _ "xs @ ys"]) simp
    qed
  qed
  show ?case
  proof (cases x)
    case (Op_send hi m)
    with Cons.prems(3) obtain r msg S1 where s: "socket_req_send Y (plain_req sid hi (block_of m (n_w S)) m) None no_msg
        (S\<lparr>n_w := with_block m (n_w S)\<rparr>) = Some (r, msg, S1)"
      "(if r = SOCKET_CLOSE then Some (True, S1) else run_out Y sid ops S1) = Some (c, S')"
      by (auto simp: put_block_eq split: bind_splits)
    then show ?thesis using send_step [OF assms(1) Cons.prems(1) assms(3) Cons.prems(2) s(1)] Op_send
      by (intro go [of "given hi m G" r S1]) auto
  next
    case Op_writable
    with Cons.prems(3) assms(3) obtain r msg S1 where s: "socket_send_buffer Y i no_msg S = Some (r, msg, S1)"
      "(if r = SOCKET_CLOSE then Some (True, S1) else run_out Y sid ops S1) = Some (c, S')" by (auto split: bind_splits)
    then show ?thesis using writable_step [OF assms(1) Cons.prems(1) s(1)] Op_writable by (intro go [of G r S1]) auto
  qed
qed

lemma out_ok_pending:
  assumes "out_ok i fd out G S M"
  shows "\<exists>zs\<in>shuffles (G True) (G False). out @ pending i S = concat zs" "wb_size (slot S i) = int (length (pending i S))"
proof -
  let ?s = "slot S i"
  note ok = out_okD [OF assms, of True, unfolded not_True_eq_False queue_of_simps]
    and okl = out_okD [OF assms, of False, unfolded queue_of_simps]
  note io = ok(5)
  have h: "queued (n_w S) (high ?s) = rest_of (high ?s) (M True) @ concat (waiting (high ?s) (M True))"
    unfolding queued_unsent [OF ok(1)] by (rule unsent_split [OF ok(1,2)])
  have l: "queued (n_w S) (low ?s) = rest_of (low ?s) (M False) @ concat (waiting (low ?s) (M False))"
    unfolding queued_unsent [OF okl(1)] by (rule unsent_split [OF okl(1,2)])
  have p: "pending i S = rest_of (high ?s) (M True) @ rest_of (low ?s) (M False) @ concat (waiting (high ?s) (M True)) @ concat (waiting (low ?s) (M False))"
  proof (cases "started (low ?s)")
    case True
    then have "\<not> started (high ?s)" using io by (simp add: in_order_def)
    obtain b bs where b: "low ?s = b # bs" using True by (cases "low ?s") (auto simp: started_def)
    then obtain m ms where m: "M False = m # ms" "carries (n_w S) b m" using okl(1) by (auto simp: list_all2_Cons1)
    have "queued (n_w S) [b] = rest_of (low ?s) (M False)" using True b m by (simp add: queued_def carries_region rest_of_def)
    moreover have "queued (n_w S) (low ?s) = queued (n_w S) [b] @ queued (n_w S) bs" unfolding b by (simp add: queued_def)
    ultimately have "queued (n_w S) bs = concat (waiting (low ?s) (M False))" using l by simp
    then show ?thesis using True h b \<open>\<not> started (high ?s)\<close> \<open>queued (n_w S) [b] = rest_of (low ?s) (M False)\<close>
      by (simp add: pending_def Let_def rest_of_def [of "high ?s"])
  qed (simp add: pending_def Let_def h l rest_of_def)
  from io obtain zs hs ls where z: "zs \<in> shuffles hs ls" "out @ rest_of (high ?s) (M True) @ rest_of (low ?s) (M False) = concat zs"
    "G True = hs @ waiting (high ?s) (M True)" "G False = ls @ waiting (low ?s) (M False)" by (auto simp: in_order_def)
  have "out @ pending i S = concat (zs @ waiting (high ?s) (M True) @ waiting (low ?s) (M False))"
    unfolding p using z(2) by (metis append.assoc concat_append)
  moreover have "zs @ waiting (high ?s) (M True) @ waiting (low ?s) (M False) \<in> shuffles (G True) (G False)"
    unfolding z(3,4) using z(1) by (rule shuffles_extend)
  ultimately show "\<exists>zs\<in>shuffles (G True) (G False). out @ pending i S = concat zs" by blast
  have "length (pending i S) = length (queued (n_w S) (high ?s)) + length (queued (n_w S) (low ?s))" unfolding p h l by simp
  then show "wb_size ?s = int (length (pending i S))"
    using ok(4) unfolding queued_unsent [OF ok(1)] queued_unsent [OF okl(1)] by simp
qed

text \<open>With output of high priority only, the low queue stays empty and no operation aborts.\<close>

lemma free_list_returns:
  "list_all2 (carries W) bs ms \<Longrightarrow> distinct (blocks bs) \<Longrightarrow> socket_free_buffer_list bs W = Some (drop_blocks (blocks bs) W)"
proof (induction bs arbitrary: W ms)
  case (Cons b bs)
  then obtain m ms' where m: "carries W b m" "list_all2 (carries W) bs ms'" by (auto simp: list_all2_Cons1)
  have "list_all2 (carries (drop_blocks (blocks [b]) W)) bs ms'"
    by (rule carries_list_drop [OF m(2)]) (use Cons.prems(2) in \<open>auto split: if_splits\<close>)
  from Cons.IH [OF this] Cons.prems(2) carries_free [OF m(1)] show ?case
    by (auto simp: drop_blocks_append split: if_splits)
qed simp

lemma close_returns:
  assumes "list_all2 (carries (n_w S)) (high (slot S i)) ms" "list_all2 (carries (n_w S)) (low (slot S i)) ms'"
    "distinct (blocks (high (slot S i)) @ blocks (low (slot S i)))" "s_type (slot S i) \<noteq> T_RESERVE"
  shows "\<exists>msg S'. socket_force_close Y i S = Some (msg, S')"
proof (cases "s_type (slot S i) = T_INVALID")
  case False
  have "list_all2 (carries (drop_blocks (blocks (high (slot S i))) (n_w S))) (low (slot S i)) ms'"
    by (rule carries_list_drop [OF assms(2)]) (use assms(3) in auto)
  then show ?thesis
    using False assms(3,4) free_list_returns [OF assms(1)] free_list_returns by (simp add: socket_force_close_def Let_def)
qed (simp add: socket_force_close_def Let_def)

lemma send_list_returns:
  assumes "interrupts_end Y" "write_ok Y" "list_all2 (carries (n_w S)) bs ms" "distinct (blocks bs)"
    "high (slot S i) = bs" "low (slot S i) = []" "s_type (slot S i) \<noteq> T_RESERVE"
  shows "\<exists>r msg' S'. socket_send_buffer_list Y i True bs msg S = Some (r, msg', S') \<and> (r \<noteq> SOCKET_CLOSE \<longrightarrow> low (slot S' i) = [])"
  using assms(3-7)
proof (induction bs arbitrary: S ms)
  case Nil
  then show ?case by (simp add: set_list_slot set_queue_def)
next
  case (Cons b bs)
  then obtain m ms' where ms: "ms = m # ms'" "carries (n_w S) b m" "list_all2 (carries (n_w S)) bs ms'"
    by (auto simp: list_all2_Cons1)
  let ?d = "drop (b_off b) m"
  from retry_call_returns [OF assms(1)] obtain sz S1 where s1: "retry_call Y (Sys_write (s_fd (slot S i)) ?d) S = Some (sz, S1)" by blast
  from retry_write [OF s1 assms(2)] obtain os xs where x: "S1 = S\<lparr>n_os := os, n_trace := n_trace S @ xs\<rparr>" by auto
  let ?S2 = "set_slot i (\<lambda>s. s\<lparr>wb_size := wb_size s - sz\<rparr>) S1"
  define S3 where "S3 = (set_list i True bs ?S2)\<lparr>n_w := drop_blocks (blocks [b]) (n_w S)\<rparr>"
  have f: "in_world (free_data (b_buff b)) (set_list i True bs ?S2) = Some S3"
    using carries_free [OF ms(2)] x by (simp add: in_world_def S3_def)
  have "\<exists>msg S'. socket_force_close Y i S1 = Some (msg, S')"
    using close_returns [of S1 i ms "[]" Y] Cons.prems x by simp
  moreover have "\<exists>r msg' S'. socket_send_buffer_list Y i True bs msg S3 = Some (r, msg', S') \<and> (r \<noteq> SOCKET_CLOSE \<longrightarrow> low (slot S' i) = [])"
  proof (rule Cons.IH)
    show "list_all2 (carries (n_w S3)) bs ms'"
      using carries_list_drop [OF ms(3), of "blocks [b]"] Cons.prems(2) by (auto simp: S3_def split: if_splits)
  qed (use Cons.prems x in \<open>auto simp: S3_def set_list_slot set_queue_def split: if_splits\<close>)
  ultimately show ?case
    using carries_region [OF ms(2)] s1 f Cons.prems(4) x by (auto simp: Let_def set_list_slot set_queue_def)
qed

lemma writable_returns:
  assumes "interrupts_end Y" "write_ok Y" "out_ok i fd out G S M" "low (slot S i) = []"
  shows "\<exists>r msg' S'. socket_send_buffer Y i msg S = Some (r, msg', S') \<and> (r \<noteq> SOCKET_CLOSE \<longrightarrow> low (slot S' i) = [])"
proof -
  note ok = out_okD [OF assms(3), of True, unfolded not_True_eq_False queue_of_simps] and sk = out_ok_sock [OF assms(3)]
  obtain r1 msg1 S1 where p: "socket_send_buffer_list Y i True (high (slot S i)) msg S = Some (r1, msg1, S1)"
    "r1 \<noteq> SOCKET_CLOSE \<longrightarrow> low (slot S1 i) = []"
    using send_list_returns [OF assms(1,2) ok(1) _ refl assms(4), of msg] ok(3) sk(1) by auto
  have c: "socket_buffer_list_complete (low (slot S i))" using assms(4) by (simp add: socket_buffer_list_complete_def)
  have nl: "\<not> started (queue_of (\<not> True) (slot S i))" using assms(4) by (simp add: queue_of_simps started_def)
  from pass_step [OF assms(2,3) p(1) [folded queue_of_simps(1)] nl]
  have t1: "r1 \<noteq> SOCKET_CLOSE \<Longrightarrow> s_type (slot S1 i) = T_OPENED" using out_ok_sock(1) by blast
  show ?thesis
    using p c t1 by (auto simp: socket_send_buffer_def event_write_def sys_call_def Let_def split: prod.splits)
qed

lemma send_returns:
  assumes "write_ok Y" "out_ok i fd out G S M" "hash_id sid = Some i" "s_id (slot S i) = sid" "low (slot S i) = []"
  shows "\<exists>r msg' S'. socket_req_send Y (plain_req sid True (block_of m (n_w S)) m) None msg (S\<lparr>n_w := with_block m (n_w S)\<rparr>) =
    Some (r, msg', S') \<and> (r \<noteq> SOCKET_CLOSE \<longrightarrow> low (slot S' i) = [])"
proof -
  let ?S1 = "S\<lparr>n_w := with_block m (n_w S)\<rparr>" and ?d = "block_of m (n_w S)"
  note sk = out_ok_sock [OF assms(2)]
  obtain n S2 where w: "sys_call Y (Sys_write fd m) ?S1 = (n, S2)" by fastforce
  then have S2: "slot S2 = slot S" "n_w S2 = with_block m (n_w S)" by (auto simp: sys_call_eq)
  from free_with_block [OF sk(4), of m] obtain W' where f: "free_data ?d (with_block m (n_w S)) = Some W'" by blast
  have r: "region ?d 0 (int (length m)) (with_block m (n_w S)) = Some m" by (rule region_with_block)
  have c: "\<exists>msg S3. socket_force_close Y i S2 = Some (msg, S3) \<and> n_w S3 = n_w S2" if "high (slot S i) = []"
    using that assms(5) sk(1) S2 by (auto simp: socket_force_close_def Let_def set_type_def event_del_def sys_call_def split: prod.splits)
  have a: "socket_append_sendbuffer i (plain_req sid True ?d m) k [] T = Some (queue_node i True (out_node ?d (int (length m)) k) T)" for k and T :: "'a net"
    by (rule append_sendbuffer_eq)
  have l: "low (slot (queue_node i True b T) i) = low (slot T i)" for b and T :: "'a net" by (simp add: set_queue_def)
  show ?thesis
  proof (cases "high (slot S i) = []")
    case True
    have "\<exists>ro msg2 S3. send_now Y i (plain_req sid True ?d m) [] msg ?S1 = Some (ro, msg2, S3) \<and> (ro \<noteq> Some SOCKET_CLOSE \<longrightarrow> low (slot S3 i) = [])"
      using w r sk(2,3) S2 f c [OF True] a [simplified] l assms(5)
      by (auto simp: send_now_def socket_send_object_init_def so_free_def in_world_def event_write_def sys_call_def [of _ "Sys_epoll_mod _ _ _"] Let_def
          split: prod.splits)
    then obtain ro msg2 S3 where "send_now Y i (plain_req sid True ?d m) [] msg ?S1 = Some (ro, msg2, S3)" "ro \<noteq> Some SOCKET_CLOSE \<longrightarrow> low (slot S3 i) = []"
      by blast
    then show ?thesis using assms(3-5) sk True
      by (cases ro) (auto simp: socket_req_send_def socket_send_object_init_def udp_target_def Let_def)
  next
    case False
    then show ?thesis using assms(3-5) sk a [simplified] l
      by (auto simp: socket_req_send_def socket_send_object_init_def udp_target_def Let_def)
  qed
qed

lemma run_out_returns:
  assumes "interrupts_end Y" "write_ok Y" "out_ok i fd out G S M" "hash_id sid = Some i" "s_id (slot S i) = sid" "low (slot S i) = []"
    "given_msgs False ops = []"
  shows "\<exists>c S'. run_out Y sid ops S = Some (c, S') \<and> (\<not> c \<longrightarrow> low (slot S' i) = [] \<and> s_id (slot S' i) = sid)"
  using assms(3,5-7)
proof (induction ops arbitrary: out G S M)
  case (Cons x ops)
  show ?case
  proof (cases x)
    case (Op_send hi m)
    then have hi: "hi" "given_msgs False ops = []" using Cons.prems(4) by (auto split: if_splits)
    from send_returns [OF assms(2) Cons.prems(1) assms(4) Cons.prems(2,3), of m no_msg] obtain r msg S1 where
      s: "socket_req_send Y (plain_req sid True (block_of m (n_w S)) m) None no_msg (S\<lparr>n_w := with_block m (n_w S)\<rparr>) = Some (r, msg, S1)"
        "r \<noteq> SOCKET_CLOSE \<Longrightarrow> low (slot S1 i) = []" by blast
    from send_step [OF assms(2) Cons.prems(1) assms(4) Cons.prems(2) s(1)] have
      "r \<noteq> SOCKET_CLOSE \<Longrightarrow> \<exists>c S'. run_out Y sid ops S1 = Some (c, S') \<and> (\<not> c \<longrightarrow> low (slot S' i) = [] \<and> s_id (slot S' i) = sid)"
      using Cons.IH s(2) hi(2) Cons.prems(2) by (auto simp: out_step_def)
    then show ?thesis using Op_send hi(1) s(1) by (auto simp: put_block_eq)
  next
    case Op_writable
    from writable_returns [OF assms(1,2) Cons.prems(1,3), of no_msg] obtain r msg S1 where
      s: "socket_send_buffer Y i no_msg S = Some (r, msg, S1)" "r \<noteq> SOCKET_CLOSE \<Longrightarrow> low (slot S1 i) = []" by blast
    from writable_step [OF assms(2) Cons.prems(1) s(1)] have
      "r \<noteq> SOCKET_CLOSE \<Longrightarrow> \<exists>c S'. run_out Y sid ops S1 = Some (c, S') \<and> (\<not> c \<longrightarrow> low (slot S' i) = [] \<and> s_id (slot S' i) = sid)"
      using Cons.IH s(2) Op_writable Cons.prems(2,4) by (auto simp: out_step_def)
    then show ?thesis using Op_writable s(1) assms(4) by auto
  qed
qed auto

lemma req_close_returns:
  assumes "interrupts_end Y" "write_ok Y" "out_ok i fd out G S M" "hash_id sid = Some i" "low (slot S i) = []"
  shows "\<exists>r msg' S'. socket_req_close Y sid ud msg S = Some (r, msg', S')"
proof -
  have empty: "\<exists>msg S'. socket_force_close Y i T = Some (msg, S')"
    if "s_type (slot T i) = T_OPENED" "high (slot T i) = []" "low (slot T i) = []" for T :: "'a net"
    using close_returns [of T i "[]" "[]" Y] that by simp
  from writable_returns [OF assms(1-3,5), of msg] obtain r msg1 S1 where s: "socket_send_buffer Y i msg S = Some (r, msg1, S1)" by blast
  from writable_step [OF assms(2,3) s] have "r \<noteq> SOCKET_CLOSE \<Longrightarrow> s_type (slot S1 i) = T_OPENED"
    using out_ok_sock(1) by (fastforce simp: out_step_def)
  then show ?thesis using s assms(4,5) empty [of S] empty [of S1] out_ok_sock(1) [OF assms(3)]
    by (cases "r = - 1") (auto simp: socket_req_close_def Let_def)
qed

definition idle_connection :: "int \<Rightarrow> nat \<Rightarrow> 'o net \<Rightarrow> bool" where
  "idle_connection sid i S \<longleftrightarrow> hash_id sid = Some i \<and> fresh_above (n_w S) \<and> (let s = slot S i in
     s_id s = sid \<and> s_type s = T_OPENED \<and> s_protocol s = PROTOCOL_TCP \<and> high s = [] \<and> low s = [] \<and> wb_size s = 0)"

lemma idle_out_ok: "idle_connection sid i S \<Longrightarrow> out_ok i (s_fd (slot S i)) [] (\<lambda>_. []) S (\<lambda>_. [])"
  by (auto simp: idle_connection_def out_ok_def queue_of_def in_order_def started_def rest_of_def waiting_def Let_def)

end
