(* ===== verification/Sockets.thy ===== *)
theory Sockets
  imports Socket_Inv Runtime
begin

text \<open>
  What the socket server promises: the numbers of sockets, the order and completeness of output, the delivery of input to the service
  that owns a socket, and where it fails to keep its promises.
\<close>

section \<open>A small system\<close>

text \<open>
  A system that takes from each write as many bytes as the next entry of its state says, and all of them when the state is empty; a
  read gives three bytes. Socket 7 is open on descriptor 70 and belongs to the service of \<open>sample_world\<close>.
\<close>

fun demo_call :: "syscall \<Rightarrow> nat list \<Rightarrow> int \<times> nat list" where
  "demo_call (Sys_write fd d) (k # ks) = (int (min k (length d)), ks)"
| "demo_call (Sys_write fd d) [] = (int (length d), [])"
| "demo_call c ks = (0, ks)"

definition demo_sys :: "nat list sys" where
  "demo_sys = \<lparr>y_errno = (\<lambda>_. EAGAIN), y_call = demo_call, y_read = (\<lambda>fd n os. (Some [1, 2, 3], os)),
     y_recvfrom = (\<lambda>fd n os. (None, os)), y_accept = (\<lambda>fd os. ((80, V4 [0, 80] [10, 0, 0, of_nat (length os)]), 0 # os)),
     y_getaddrinfo = (\<lambda>h p t q os. ((1, []), os)), y_so_error = (\<lambda>fd os. ((0, 0), os)), y_getpeername = (\<lambda>fd os. (None, os)),
     y_pipe = (\<lambda>os. ((0, 3, 4), os)), y_epoll_wait = (\<lambda>n os. (None, os)),
     y_ntop = (\<lambda>sa. case sa of V4 p a \<Rightarrow> Some (if a = [10, 0, 0, 0] then ''10.0.0.0'' else ''10.0.0.1'') | _ \<Rightarrow> None),
     y_strerror = (\<lambda>_. ''''), y_gai_strerror = (\<lambda>_. '''')\<rparr>"

definition demo_socket :: "socket_type \<Rightarrow> socket" where
  "demo_socket ty = \<lparr>s_fd = 70, s_id = 7, s_ud = 0x1000001, wb_size = 0, high = [], low = [], s_type = ty, s_protocol = 0, s_p = P_size 64\<rparr>"

definition demo_net :: "socket_type \<Rightarrow> nat list \<Rightarrow> nat list net" where
  "demo_net ty os = \<lparr>n_w = sample_world, n_os = os, n_trace = [], next_id = 7, recvctl_fd = 3, sendctl_fd = 4, check_ctrl = False, n_ctrl = [],
     slot = (\<lambda>_. free_socket)(7 := demo_socket ty), n_ev = [\<lparr>e_read = True, e_write = False, e_ud = Some 7\<rparr>], ev_idx = 0, n_info = [], n_soi = None\<rparr>"

lemma demo_call_le: "fst (demo_call (Sys_write fd d) os) \<le> int (length d)"
  by (cases os) simp_all

lemma demo_write_ok: "write_ok demo_sys"
  by (simp add: write_ok_def demo_sys_def demo_call_le)

lemma demo_interrupts_end: "interrupts_end demo_sys"
  by (simp add: interrupts_end_def demo_sys_def)

lemma demo_idle: "idle_connection 7 7 (demo_net T_OPENED os)"
  by (simp add: idle_connection_def demo_net_def demo_socket_def fresh_above_def hash_id_def)

lemma demo_fields [simp]:
  "n_os (demo_net ty os) = os" "n_w (demo_net ty os) = sample_world" "slot (demo_net ty os) = (\<lambda>_. free_socket)(7 := demo_socket ty)"
  "n_trace (demo_net ty os) = []" "n_soi (demo_net ty os) = None"
  by (simp_all add: demo_net_def)

lemma demo_socket_fields [simp]:
  "s_fd (demo_socket ty) = 70" "s_id (demo_socket ty) = 7" "high (demo_socket ty) = []" "low (demo_socket ty) = []" "s_type (demo_socket ty) = ty"
  "s_protocol (demo_socket ty) = 0" "wb_size (demo_socket ty) = 0" "s_ud (demo_socket ty) = 0x1000001" "s_p (demo_socket ty) = P_size 64"
  by (simp_all add: demo_socket_def)

lemma demo_sys_fields [simp]: "y_call demo_sys = demo_call" "y_errno demo_sys = (\<lambda>_. EAGAIN)"
  by (simp_all add: demo_sys_def)

lemma hash_7 [simp]: "hash_id 7 = Some 7"
  by (simp add: hash_id_def)

section \<open>Delivery\<close>

definition socket_event :: "addr \<Rightarrow> message" where
  "socket_event d = \<lparr>msg_source = 0, msg_session = 0, msg_data = d, msg_size = typed_size PIXEL_SOCKET 32\<rparr>"

lemma dispatch_serves:
  assumes "world_ok HD W" "serves W (ucast ud) a qh ms" "ty \<noteq> SOCKET_EXIT" "length raw = 32"
  shows "\<exists>W'. pixel_socket_dispatch K \<lparr>sm_type = ty, sm_ud = ud, sm_raw = raw\<rparr> W = Some W' \<and> world_ok HD W' \<and>
    mbox (w_q W') = (mbox (w_q W))(a \<mapsto> (ms @ [socket_event (w_brk W)], 0, qh)) \<and> w_mem W' = (w_mem W)(w_brk W \<mapsto> raw)"
proof -
  let ?W = "W\<lparr>w_brk := w_brk W + 1, w_mem := (w_mem W)(w_brk W \<mapsto> raw)\<rparr>"
  have "raw \<noteq> []" using assms(4) by auto
  then have alloc: "do { (d, W) \<leftarrow> pixel_alloc 0 (int (length raw)) W; W \<leftarrow> store d raw W; Some (d, W) } = Some (w_brk W, ?W)"
    by (simp add: pixel_alloc_def store_def)
  have f: "world_ok HD ?W = world_ok HD W" "serves ?W h a qh ms = serves W h a qh ms" for h a qh ms
    by (intro world_frame; simp add: ctx_key_def fun_eq_iff)+
  from pixel_push_serves [of HD ?W "ucast ud" a qh ms K "socket_event (w_brk W)"] f assms(1,2) obtain H Q where
    p: "pixel_push K (ucast ud) (socket_event (w_brk W)) ?W = Some (0, ?W\<lparr>w_h := H, w_q := Q\<rparr>)"
      "mbox Q = (mbox (w_q W))(a \<mapsto> (ms @ [socket_event (w_brk W)], 0, qh))" "world_ok HD (?W\<lparr>w_h := H, w_q := Q\<rparr>)" by auto
  then show ?thesis using alloc assms(3,4) \<open>raw \<noteq> []\<close>
    by (auto simp: pixel_socket_dispatch_def pixel_alloc_def store_def socket_event_def Let_def)
qed

text \<open>The size of the next read.\<close>

definition next_size :: "int \<Rightarrow> int \<Rightarrow> int" where
  "next_size sz n = (if n = sz then sz * 2 else if sz > MIN_SOCK_BUFF \<and> n * 2 < sz then sz div 2 else sz)"

lemma forward_tcp_reads:
  assumes "s_p (slot S i) = P_size sz" "0 < sz" "sz < 2 ^ 30" "s_type (slot S i) \<noteq> T_HALFCLOSE"
    "y_read Y (s_fd (slot S i)) sz (n_os S) = (Some bs, os)" "bs \<noteq> []" "int (length bs) \<le> sz"
  shows "socket_forward_tcp Y i msg S = Some (SOCKET_DATA,
    \<lparr>m_id = s_id (slot S i), m_ud = s_ud (slot S i), m_data = M_block (w_brk (n_w S)), m_size = int (length bs)\<rparr>,
    set_slot i (\<lambda>s. s\<lparr>s_p := P_size (next_size sz (int (length bs)))\<rparr>)
      (S\<lparr>n_w := (n_w S)\<lparr>w_mem := (w_mem (n_w S))(w_brk (n_w S) \<mapsto> bs @ replicate (nat sz - length bs) 0), w_brk := w_brk (n_w S) + 1\<rparr>, n_os := os\<rparr>))"
proof -
  have "length bs \<le> nat sz" using assms(7) by linarith
  then show ?thesis
    using assms by (simp add: socket_forward_tcp_def net_alloc_def pixel_alloc_def in_world_def store_def Let_def set_slot_def next_size_def)
qed

section \<open>Properties\<close>

text \<open>
  \<open>socket_next_id\<close> finds a free slot whenever there is one, wherever the counter stands and although it wraps around at 2\<open>^\<close>31; the
  number it returns is not negative and belongs to that slot, which is reserved, and no other slot changes. Only when all 65536 slots are
  in use does it return -1.
\<close>

theorem socket_next_id_reserves:
  "if \<exists>i<65536. s_type (slot S i) = T_INVALID
   then \<exists>sid S'. socket_next_id S = (sid, S') \<and> 0 \<le> sid \<and> sid < 2 ^ 31 \<and>
     (let i = nat (sid mod 65536) in s_type (slot S i) = T_INVALID \<and>
        slot S' = (slot S)(i := (slot S i)\<lparr>s_type := T_RESERVE, s_id := sid, s_fd := - 1\<rparr>))
   else \<exists>w. socket_next_id S = (- 1, S\<lparr>next_id := w\<rparr>)"
proof (cases "\<exists>i<65536. s_type (slot S i) = T_INVALID")
  case True
  with socket_next_id_spec [OF True] show ?thesis by (auto simp: reserves_def set_slot_def Let_def)
next
  case False
  with socket_next_id_full [of S] show ?thesis by auto
qed

text \<open>
  C8: What an open connection writes is a sequence of whole messages: some interleaving of the messages of high and of low priority that it was
  given, each of the two in the order of the requests, with nothing lost, repeated or split. It holds for every run of requests and writable events, whatever
  part of each write the system takes, up to the point where the connection breaks. While it lives, the part not yet written is what is queued, and the size that
  \<open>socket_send\<close> reports is its length.
\<close>

theorem socket_output_in_order:
  assumes "write_ok Y" "idle_connection sid i S" "run_out Y sid ops S = Some (broken, S')"
  shows "\<exists>xs zs rest. n_trace S' = n_trace S @ xs \<and> zs \<in> shuffles (given_msgs True ops) (given_msgs False ops) \<and>
    sent (s_fd (slot S i)) xs @ rest = concat zs \<and>
    (broken \<or> rest = pending i S' \<and> wb_size (slot S' i) = int (length rest))"
proof -
  have "hash_id sid = Some i" "s_id (slot S i) = sid" using assms(2) by (auto simp: idle_connection_def Let_def)
  from run_out_spec [OF assms(1) idle_out_ok [OF assms(2)] this assms(3)] obtain xs where
    "n_trace S' = n_trace S @ xs" "if broken then out_broken (sent (s_fd (slot S i)) xs) (\<lambda>h. given_msgs h ops)
     else \<exists>M'. out_ok i (s_fd (slot S i)) (sent (s_fd (slot S i)) xs) (\<lambda>h. given_msgs h ops) S' M'" unfolding append_Nil by blast
  then show ?thesis using out_ok_pending by (cases broken) (fastforce simp: out_broken_def)+
qed

theorem socket_output_in_order_witness:
  "\<exists>S' xs zs rest. run_out demo_sys 7 [Op_send True [1, 2, 3], Op_send False [9, 9], Op_send True [4], Op_writable] (demo_net T_OPENED [2, 1, 1]) =
      Some (False, S') \<and> n_trace S' = xs \<and> zs \<in> shuffles [[1, 2, 3], [4]] [[9, 9]] \<and> sent 70 xs @ rest = concat zs \<and>
      rest = pending 7 S' \<and> wb_size (slot S' 7) = int (length rest)"
proof -
  have "\<exists>S'. run_out demo_sys 7 [Op_send True [1, 2, 3], Op_send False [9, 9], Op_send True [4], Op_writable] (demo_net T_OPENED [2, 1, 1]) =
      Some (False, S')"
    by (simp add: put_block_eq socket_req_send_def socket_send_object_init_def udp_target_def Let_def send_now_def region_def with_block_def
        block_of_def sys_call_def socket_append_sendbuffer_def socket_append_buffer_def event_write_def set_slot_def errno_of_def
        socket_send_buffer_def socket_buffer_list_complete_def retry_call.simps set_list_def in_world_def free_data_def pixel_alloc_def)
  then obtain S' where S': "run_out demo_sys 7 [Op_send True [1, 2, 3], Op_send False [9, 9], Op_send True [4], Op_writable] (demo_net T_OPENED [2, 1, 1]) =
      Some (False, S')" by blast
  from socket_output_in_order [OF demo_write_ok demo_idle S'] S' show ?thesis by simp
qed

text \<open>
  C28: As long as only messages of high priority are sent, every send and every writable event on an open connection returns, and so
  does a request to close the connection after any number of them: no assertion fails, no memory is freed twice or read after it was
  freed, and no loop runs for ever, provided that a write takes no more than it is given and the system does not interrupt a call for ever.
\<close>

theorem high_priority_returns:
  assumes "write_ok Y" "interrupts_end Y" "idle_connection sid i S" "given_msgs False ops = []"
  shows "\<exists>broken S'. run_out Y sid ops S = Some (broken, S') \<and>
    (\<not> broken \<longrightarrow> (\<forall>ud msg. \<exists>r msg' S''. socket_req_close Y sid ud msg S' = Some (r, msg', S'')))"
proof -
  have idle: "hash_id sid = Some i" "s_id (slot S i) = sid" "low (slot S i) = []" using assms(3) by (auto simp: idle_connection_def Let_def)
  note ok = idle_out_ok [OF assms(3)]
  from run_out_returns [OF assms(2,1) ok idle assms(4)] obtain c S' where r: "run_out Y sid ops S = Some (c, S')" "\<not> c \<longrightarrow> low (slot S' i) = []" by blast
  from run_out_spec [OF assms(1) ok idle(1,2) r(1)] have "\<not> c \<Longrightarrow> \<exists>out G M. out_ok i (s_fd (slot S i)) out G S' M" by auto
  with req_close_returns [OF assms(2,1) _ idle(1)] r show ?thesis by blast
qed

theorem high_priority_returns_witness:
  "\<exists>broken S'. run_out demo_sys 7 [Op_send True [1, 2, 3], Op_writable, Op_send True [4], Op_writable] (demo_net T_OPENED [2, 0]) = Some (broken, S') \<and>
    (\<not> broken \<longrightarrow> (\<forall>ud msg. \<exists>r msg' S''. socket_req_close demo_sys 7 ud msg S' = Some (r, msg', S'')))"
  by (rule high_priority_returns [OF demo_write_ok demo_interrupts_end demo_idle]) simp

text \<open>
  C29: A message of low priority of which the first write takes only a part stays in the low queue with its beginning gone. The next writable event then
  fails the assertion of \<open>socket_send_buffer\<close>, as does a request to close the socket: the process aborts.
\<close>

theorem low_priority_partial_aborts:
  assumes "idle_connection sid i S" "y_call Y (Sys_write (s_fd (slot S i)) m) (n_os S) = (int n, os)" "0 < n" "n < length m"
  shows "\<exists>S'. run_out Y sid [Op_send False m] S = Some (False, S') \<and> (\<forall>msg. socket_send_buffer Y i msg S' = None) \<and>
    (\<forall>ud msg. socket_req_close Y sid ud msg S' = None)"
proof -
  let ?b = "out_node (block_of m (n_w S)) (int (length m)) n"
  let ?S1 = "S\<lparr>n_w := with_block m (n_w S), n_os := os, n_trace := n_trace S @ [(Sys_write (s_fd (slot S i)) m, int n)]\<rparr>"
  note idle = assms(1) [unfolded idle_connection_def Let_def]
  define S' where "S' = event_write Y (s_fd (slot S i)) (Some i) True (queue_node i False ?b ?S1)"
  have s: "slot S' i = (slot S i)\<lparr>low := [?b], wb_size := b_len ?b\<rparr>"
    using idle by (simp add: S'_def event_write_def sys_call_def queue_node_def set_slot_def set_queue_def queue_of_def split: prod.splits)
  have w: "sys_call Y (Sys_write (s_fd (slot S i)) m) (S\<lparr>n_w := with_block m (n_w S)\<rparr>) = (int n, ?S1)"
    using assms(2) by (simp add: sys_call_def)
  have "send_now Y i (plain_req sid False (block_of m (n_w S)) m) [] no_msg (S\<lparr>n_w := with_block m (n_w S)\<rparr>) = Some (None, no_msg, S')"
    using w idle assms(3,4) append_sendbuffer_eq [where hi = False and d = "block_of m (n_w S)" and m = m and n = n and S = ?S1, simplified]
    by (simp add: send_now_def socket_send_object_init_def region_with_block Let_def S'_def queue_node_def set_queue_def)
  then have "\<exists>r msg. socket_req_send Y (plain_req sid False (block_of m (n_w S)) m) None no_msg (S\<lparr>n_w := with_block m (n_w S)\<rparr>) = Some (r, msg, S') \<and>
      r \<noteq> SOCKET_CLOSE"
    using idle by (simp add: socket_req_send_def socket_send_object_init_def udp_target_def Let_def)
  then have "run_out Y sid [Op_send False m] S = Some (False, S')" by (auto simp: put_block_eq)
  moreover have n: "socket_send_buffer Y i msg S' = None" for msg
    using s assms(3) by (simp add: socket_send_buffer_def socket_buffer_list_complete_def out_node_def)
  moreover have "socket_req_close Y sid ud msg S' = None" for ud msg
    using s n idle by (simp add: socket_req_close_def Let_def)
  ultimately show ?thesis by blast
qed

theorem low_priority_partial_aborts_witness:
  "\<exists>S'. run_out demo_sys 7 [Op_send False [5, 6, 7]] (demo_net T_OPENED [2]) = Some (False, S') \<and>
    (\<forall>msg. socket_send_buffer demo_sys 7 msg S' = None) \<and> (\<forall>ud msg. socket_req_close demo_sys 7 ud msg S' = None)"
  by (rule low_priority_partial_aborts [OF demo_idle, where n = 2 and os = "[]"]) simp_all

text \<open>
  C9: Bytes that arrive on an open connection reach the service that owns it: when the socket is reported readable and the read gives
  \<open>bs\<close>, then \<open>socket_poll\<close> returns \<open>SOCKET_DATA\<close>, and the queue of the service has, behind its other messages, one socket event whose block is the
  structure with the number of the socket, a pointer to a new block that begins with these bytes, and their number. Nothing else in memory
  changes. The next read asks for twice as much when the buffer was full, for half when less than half was used and the size is above
  \<open>MIN_SOCK_BUFF\<close> (64 bytes), and for the same otherwise (\<open>next_size\<close>). This is for a read size below \<open>2 ^ 30\<close>, which can still be doubled,
  a read that gives no more than it was asked for, and a poll with no control request pending.
\<close>

theorem received_data_delivered:
  assumes "check_ctrl S \<longrightarrow> n_ctrl S = []" "ev_idx S < length (n_ev S)" "e_ud (n_ev S ! ev_idx S) = Some i" "e_read (n_ev S ! ev_idx S)"
    and "s_type (slot S i) = T_OPENED" "s_protocol (slot S i) = PROTOCOL_TCP" "s_p (slot S i) = P_size sz" "0 < sz" "sz < 2 ^ 30"
    and "y_read Y (s_fd (slot S i)) sz (n_os S) = (Some bs, os)" "bs \<noteq> []" "int (length bs) \<le> sz"
    and "world_ok HD (n_w S)" "serves (n_w S) (ucast (s_ud (slot S i))) a qh ms"
  shows "\<exists>S'. socket_poll K ptr Y S = Some (SOCKET_DATA, S') \<and> world_ok HD (n_w S') \<and>
    mbox (w_q (n_w S')) = (mbox (w_q (n_w S)))(a \<mapsto> (ms @ [socket_event (w_brk (n_w S) + 1)], 0, qh)) \<and>
    w_mem (n_w S') = (w_mem (n_w S))(w_brk (n_w S) \<mapsto> bs @ replicate (nat sz - length bs) 0,
      w_brk (n_w S) + 1 \<mapsto> msg_raw ptr SOCKET_DATA \<lparr>m_id = s_id (slot S i), m_ud = s_ud (slot S i),
        m_data = M_block (w_brk (n_w S)), m_size = int (length bs)\<rparr>) \<and>
    s_p (slot S' i) = P_size (next_size sz (int (length bs)))"
proof -
  let ?W = "n_w S" and ?s = "slot S i"
  let ?msg = "\<lparr>m_id = s_id ?s, m_ud = s_ud ?s, m_data = M_block (w_brk ?W), m_size = int (length bs)\<rparr>"
  let ?W1 = "?W\<lparr>w_mem := (w_mem ?W)(w_brk ?W \<mapsto> bs @ replicate (nat sz - length bs) 0), w_brk := w_brk ?W + 1\<rparr>"
  define S0 where "S0 = S\<lparr>check_ctrl := False, ev_idx := Suc (ev_idx S)\<rparr>"
  define S1 where "S1 = set_slot i (\<lambda>s. s\<lparr>s_p := P_size (next_size sz (int (length bs)))\<rparr>) (S0\<lparr>n_w := ?W1, n_os := os\<rparr>)"
  have f0: "slot S0 = slot S" "n_w S0 = ?W" "n_os S0 = n_os S" by (simp_all add: S0_def)
  have fwd: "socket_forward_tcp Y i msg S0 = Some (SOCKET_DATA, ?msg, S1)" for msg
    using forward_tcp_reads [of S0 i sz Y bs os msg] assms unfolding f0 S1_def by simp
  obtain S2 where S2: "poll_once Y no_msg S = Some (Leave SOCKET_DATA, ?msg, S2)" "n_w S2 = ?W1"
    "s_p (slot S2 i) = P_size (next_size sz (int (length bs)))"
    using assms(1-6) fwd f0
    by (auto simp: poll_once_def poll_event_def poll_default_def Let_def S0_def [symmetric] clear_closed_def S1_def)
  then have loop: "poll_loop Y no_msg S = Some (Some SOCKET_DATA, ?msg, S2)" by (subst poll_loop.simps) simp
  have w1: "world_ok HD ?W1" "serves ?W1 (ucast (s_ud ?s)) a qh ms"
    using world_frame [of ?W1 ?W] assms(13,14) by (simp_all add: ctx_key_def fun_eq_iff)
  from dispatch_serves [OF w1, of SOCKET_DATA "msg_raw ptr SOCKET_DATA ?msg" K] obtain W' where W':
    "pixel_socket_dispatch K \<lparr>sm_type = SOCKET_DATA, sm_ud = s_ud ?s, sm_raw = msg_raw ptr SOCKET_DATA ?msg\<rparr> ?W1 = Some W'" "world_ok HD W'"
    "mbox (w_q W') = (mbox (w_q ?W))(a \<mapsto> (ms @ [socket_event (w_brk ?W + 1)], 0, qh))"
    "w_mem W' = (w_mem ?W1)(w_brk ?W + 1 \<mapsto> msg_raw ptr SOCKET_DATA ?msg)"
    by (auto simp: SOCKET_EXIT_def msg_raw_def)
  then have "socket_poll K ptr Y S = Some (SOCKET_DATA, S2\<lparr>n_w := W'\<rparr>)" using loop S2(2) by (simp add: socket_poll_def in_world_def)
  then show ?thesis using W' S2(3) by auto
qed

theorem received_data_delivered_witness:
  "\<exists>S'. socket_poll sample_hooks (\<lambda>_. 0) demo_sys (demo_net T_OPENED []) = Some (SOCKET_DATA, S') \<and>
    mbox (w_q (n_w S')) 21 = Some ([socket_event 31], 0, 0x1000001) \<and> w_mem (n_w S') 30 = Some ([1, 2, 3] @ replicate 61 0) \<and>
    w_mem (n_w S') 31 = Some (msg_raw (\<lambda>_. 0) SOCKET_DATA \<lparr>m_id = 7, m_ud = 0x1000001, m_data = M_block 30, m_size = 3\<rparr>)"
proof -
  have h: "ucast (s_ud (slot (demo_net T_OPENED []) 7)) = (0x1000001 :: u32)" by simp
  have r: "y_read demo_sys (s_fd (slot (demo_net T_OPENED []) 7)) 64 (n_os (demo_net T_OPENED [])) = (Some [1, 2, 3], [])"
    by (simp add: demo_sys_def)
  have sv: "serves (n_w (demo_net T_OPENED [])) (ucast (s_ud (slot (demo_net T_OPENED []) 7))) 21 0x1000001 []"
    unfolding h using sample_serves by simp
  have "world_ok {21} (n_w (demo_net T_OPENED []))" using sample_ok by simp
  from received_data_delivered [OF _ _ _ _ _ _ _ _ _ r _ _ this sv, of sample_hooks "\<lambda>_. 0"] show ?thesis
    by (auto simp: demo_net_def demo_socket_def)
qed

text \<open>
  The text that a reader finds at the \<open>data\<close> of a message, as \<open>lunpack\<close> of \<open>src/lualib/lsocket.c\<close> reads it.
\<close>

definition msg_text :: "'o net \<Rightarrow> smsg \<Rightarrow> string option" where
  "msg_text S m = (case m_data m of M_text line \<Rightarrow> Some line | M_info \<Rightarrow> Some (n_info S) | _ \<Rightarrow> None)"

lemma try_accept_text:
  assumes "socket_try_accept Y i msg S = Some (SOCKET_ACCEPT, m, S')" "y_accept Y (s_fd (slot S i)) (n_os S) = ((fd, sa), os)"
    "addr_text Y sa = Some line"
  shows "m_data m = M_info \<and> n_info S' = line"
  using assms by (auto simp: socket_try_accept_def Let_def put_info_def split: if_splits prod.splits bind_splits option.splits)

text \<open>
  The address of an accepted connection is reported through the one buffer \<open>S.buffer\<close>, which the message only points to. When a second connection
  is accepted before the owner of the first has read its message, the first message shows the address of the second connection.
\<close>

theorem accepted_address_overwritten:
  assumes "socket_try_accept Y i msg S = Some (SOCKET_ACCEPT, m1, S1)" "y_accept Y (s_fd (slot S i)) (n_os S) = ((fd1, sa1), os1)"
    "addr_text Y sa1 = Some line1"
    and "socket_try_accept Y j msg' S1 = Some (SOCKET_ACCEPT, m2, S2)" "y_accept Y (s_fd (slot S1 j)) (n_os S1) = ((fd2, sa2), os2)"
    "addr_text Y sa2 = Some line2"
  shows "msg_text S1 m1 = Some line1 \<and> msg_text S2 m1 = Some line2"
  using try_accept_text [OF assms(1-3)] try_accept_text [OF assms(4-6)] by (simp add: msg_text_def)

lemma socket_next_id_first:
  assumes "s_type (slot S (Suc (unat (next_id S)) mod 65536)) = T_INVALID"
  shows "socket_next_id S = (sint (next_word (next_id S)), set_slot (Suc (unat (next_id S)) mod 65536)
    (\<lambda>s. s\<lparr>s_type := T_RESERVE, s_id := sint (next_word (next_id S)), s_fd := - 1\<rparr>) (S\<lparr>next_id := next_word (next_id S)\<rparr>))"
proof -
  have "socket_next_id S = next_id_loop (Suc 65535) S" by (simp add: socket_next_id_def)
  then show ?thesis using assms unfolding next_id_step by (simp add: Let_def)
qed

lemma sdec_80: "sdec 80 = ''80''"
  by code_simp

theorem accepted_address_overwritten_witness:
  "\<exists>m1 S1 m2 S2. socket_try_accept demo_sys 7 no_msg (demo_net T_LISTEN []) = Some (SOCKET_ACCEPT, m1, S1) \<and>
    socket_try_accept demo_sys 7 no_msg S1 = Some (SOCKET_ACCEPT, m2, S2) \<and>
    msg_text S1 m1 = Some ''10.0.0.0:80'' \<and> msg_text S2 m1 = Some ''10.0.0.1:80''"
proof -
  let ?S = "demo_net T_LISTEN []"
  have tx: "addr_text demo_sys (V4 [0, 80] [10, 0, 0, 0]) = Some ''10.0.0.0:80''"
    "addr_text demo_sys (V4 [0, 80] [10, 0, 0, 1]) = Some ''10.0.0.1:80''"
    by (simp_all add: addr_text_def demo_sys_def ntohs_def sdec_80)
  have w: "next_word 7 = 8" "next_word 8 = 9" by (simp_all add: next_word_def)
  have a: "y_accept demo_sys fd os = ((80, V4 [0, 80] [10, 0, 0, of_nat (length os)]), 0 # os)" for fd os by (simp add: demo_sys_def)
  obtain m1 S1 where s1: "socket_try_accept demo_sys 7 no_msg ?S = Some (SOCKET_ACCEPT, m1, S1)" "n_os S1 = [0]" "next_id S1 = 8"
    "slot S1 7 = demo_socket T_LISTEN" "slot S1 9 = free_socket"
    by (simp add: socket_try_accept_def a socket_next_id_first w demo_net_def free_socket_def set_slot_def socket_nonblocking_def socket_keepalive_def
        sys_call_def socket_new_def hash_id_def set_type_def put_info_def tx Let_def)
  obtain m2 S2 where s2: "socket_try_accept demo_sys 7 no_msg S1 = Some (SOCKET_ACCEPT, m2, S2)"
    using s1(2-5)
    by (simp add: socket_try_accept_def a socket_next_id_first w free_socket_def set_slot_def socket_nonblocking_def socket_keepalive_def
        sys_call_def socket_new_def hash_id_def set_type_def put_info_def tx Let_def)
  have "y_accept demo_sys (s_fd (slot ?S 7)) (n_os ?S) = ((80, V4 [0, 80] [10, 0, 0, 0]), [0])"
    "y_accept demo_sys (s_fd (slot S1 7)) (n_os S1) = ((80, V4 [0, 80] [10, 0, 0, 1]), [0, 0])" using s1(2) by (simp_all add: a)
  from accepted_address_overwritten [OF s1(1) this(1) tx(1) s2 this(2) tx(2)] show ?thesis using s1(1) s2 by blast
qed

text \<open>Output to a socket that was bound to a descriptor is queued without any system call: nothing asks for writable events.\<close>

lemma bound_socket_queues:
  assumes "hash_id sid = Some i" "s_id (slot S i) = sid" "s_type (slot S i) = T_BIND" "s_protocol (slot S i) = PROTOCOL_TCP"
  shows "\<exists>r msg'. socket_req_send Y (plain_req sid hi d m) None msg S = Some (r, msg', queue_node i hi (out_node d (int (length m)) 0) S)"
  using assms append_sendbuffer_eq [where hi = True and d = d and n = 0 and S = S, simplified] append_sendbuffer_eq [where hi = False and d = d and n = 0 and S = S, simplified]
  by (cases hi) (simp_all add: socket_req_send_def socket_send_object_init_def udp_target_def Let_def)

end
