(* ===== verification/Lsocket.thy ===== *)
theory Lsocket
  imports Runtime Socket_Inv
begin

text \<open>
  The Lua side of sockets, \<open>src/lualib/lsocket.c\<close>: the input buffer from which a service reads strings and lines, and the calls of the socket
  server. The state of a buffer call is the buffer, the pool of nodes that all buffers of a service share, and the memory; the linked nodes are a list, each with its
  place in a pool.
\<close>

section \<open>Buffers\<close>

record bnode =
  bn_at :: "addr \<times> nat"
  bn_data :: addr
  bn_size :: int

record lbuf =
  sb_size :: int
  sb_offset :: int
  sb_nodes :: "bnode list"
  bp_pool :: addr
  bp_freelist :: "(addr \<times> nat) list"
  sb_w :: world

text \<open>\<open>lnewbuffer\<close> clears the buffer.\<close>

definition lnewbuffer :: "lbuf \<Rightarrow> lbuf" where
  "lnewbuffer B = B\<lparr>sb_size := 0, sb_offset := 0, sb_nodes := []\<rparr>"

definition freebuffer_node :: "lbuf \<Rightarrow> lbuf option" where
  "freebuffer_node B =
     (case sb_nodes B of
        [] \<Rightarrow> Some B
      | node # ns \<Rightarrow> do {
          W \<leftarrow> free_data (bn_data node) (sb_w B);
          Some (B\<lparr>sb_nodes := ns, sb_offset := 0, bp_freelist := bn_at node # bp_freelist B, sb_w := W\<rparr>) })"

text \<open>The last pool is freed; \<open>lpushbuffer\<close> forgets those before.\<close>

definition lfreebufferpool :: "lbuf \<Rightarrow> lbuf option" where
  "lfreebufferpool B = do { W \<leftarrow> free_data (bp_pool B) (sb_w B); Some (B\<lparr>sb_w := W\<rparr>) }"

definition node_bytes :: "bnode \<Rightarrow> int \<Rightarrow> int \<Rightarrow> world \<Rightarrow> bytes option" where
  "node_bytes node off len W = (if off < 0 then None else region (bn_data node) (nat off) len W)"

text \<open>The loop of \<open>lpop_string\<close>, with the string built so far.\<close>

fun pop_loop :: "bnode list \<Rightarrow> int \<Rightarrow> int \<Rightarrow> bytes \<Rightarrow> lbuf \<Rightarrow> (bytes \<times> lbuf) option" where
  "pop_loop [] siz skp lb B = None"
| "pop_loop (cur # ns) siz skp lb B =
     (let bytes = bn_size cur - sb_offset B in
      if bytes \<ge> siz then do {
        s \<leftarrow> (if siz > skp then node_bytes cur (sb_offset B) (siz - skp) (sb_w B) else Some []);
        let B = B\<lparr>sb_offset := sb_offset B + siz\<rparr>;
        B \<leftarrow> (if bytes = siz then freebuffer_node B else Some B);
        Some (lb @ s, B) }
      else do {
        let real_size = siz - skp;
        s \<leftarrow> (if real_size > 0 then node_bytes cur (sb_offset B) (if real_size < bytes then real_size else bytes) (sb_w B) else Some []);
        B \<leftarrow> freebuffer_node B;
        let siz = siz - bytes;
        if siz = 0 then Some (lb @ s, B) else pop_loop ns siz skp (lb @ s) B })"

definition lpop_string :: "int \<Rightarrow> int \<Rightarrow> lbuf \<Rightarrow> (bytes \<times> lbuf) option" where
  "lpop_string siz skp B =
     (case sb_nodes B of
        [] \<Rightarrow> None
      | cur # _ \<Rightarrow>
          if siz < bn_size cur - sb_offset B then do {
            s \<leftarrow> node_bytes cur (sb_offset B) (siz - skp) (sb_w B);
            Some (s, B\<lparr>sb_offset := sb_offset B + siz\<rparr>) }
          else if siz = bn_size cur - sb_offset B then do {
            s \<leftarrow> node_bytes cur (sb_offset B) (siz - skp) (sb_w B);
            B \<leftarrow> freebuffer_node B;
            Some (s, B) }
          else pop_loop (sb_nodes B) siz skp [] B)"

fun readall_loop :: "bnode list \<Rightarrow> bytes \<Rightarrow> lbuf \<Rightarrow> (bytes \<times> lbuf) option" where
  "readall_loop [] lb B = Some (lb, B)"
| "readall_loop (cur # ns) lb B = do {
     s \<leftarrow> node_bytes cur (sb_offset B) (bn_size cur - sb_offset B) (sb_w B);
     B \<leftarrow> freebuffer_node B;
     readall_loop ns (lb @ s) B }"

definition lreadall :: "lbuf \<Rightarrow> (bytes \<times> lbuf) option" where
  "lreadall B = do {
     (s, B) \<leftarrow> readall_loop (sb_nodes B) [] B;
     Some (s, B\<lparr>sb_size := 0\<rparr>) }"

fun check_sep :: "bnode list \<Rightarrow> int \<Rightarrow> bytes \<Rightarrow> world \<Rightarrow> bool option" where
  "check_sep [] from sep W = None"
| "check_sep (node # ns) from sep W =
     (let siz = bn_size node - from in
      if siz \<ge> int (length sep) then do { s \<leftarrow> node_bytes node from (int (length sep)) W; Some (s = sep) }
      else if siz > 0 then do {
        s \<leftarrow> node_bytes node from siz W;
        if s \<noteq> take (nat siz) sep then Some False else check_sep ns 0 (drop (nat siz) sep) W }
      else if siz = 0 then check_sep ns 0 sep W
      else None)"

datatype readline_result = No_line | Has_line | Line bytes

text \<open>The loop of \<open>lreadline\<close> counts \<open>i\<close> up to \<open>b->size - len\<close>; the first argument is the number of rounds left.\<close>

fun readline_loop :: "nat \<Rightarrow> int \<Rightarrow> bnode list \<Rightarrow> int \<Rightarrow> int \<Rightarrow> bytes \<Rightarrow> bool \<Rightarrow> lbuf \<Rightarrow> (readline_result \<times> lbuf) option" where
  "readline_loop 0 i cur from bytes sep check B = Some (No_line, B)"
| "readline_loop (Suc k) i cur from bytes sep check B = do {
     found \<leftarrow> check_sep cur from sep (sb_w B);
     if found then
       if check then Some (Has_line, B)
       else do {
         (s, B) \<leftarrow> lpop_string (i + int (length sep)) (int (length sep)) B;
         Some (Line s, B\<lparr>sb_size := sb_size B - (i + int (length sep))\<rparr>) }
     else
       (let from = from + 1; bytes = bytes - 1 in
        if bytes = 0 then
          (case tl cur of
             [] \<Rightarrow> Some (No_line, B)
           | nxt # ns \<Rightarrow> readline_loop k (i + 1) (nxt # ns) 0 (bn_size nxt) sep check B)
        else readline_loop k (i + 1) cur from bytes sep check B) }"

definition lreadline :: "bytes \<Rightarrow> bool \<Rightarrow> lbuf \<Rightarrow> (readline_result \<times> lbuf) option" where
  "lreadline sep check B =
     (case sb_nodes B of
        [] \<Rightarrow> Some (No_line, B)
      | cur # _ \<Rightarrow>
          readline_loop (nat (sb_size B - int (length sep) + 1)) 0 (sb_nodes B) (sb_offset B) (bn_size cur - sb_offset B) sep check B)"

text \<open>\<open>lpopbuffer\<close>: the string, or nil, and the size that is left. The argument is the size after its conversion to \<open>int\<close>.\<close>

definition lpopbuffer :: "int \<Rightarrow> lbuf \<Rightarrow> (bytes option \<times> int \<times> lbuf) option" where
  "lpopbuffer siz B =
     (if sb_size B < siz \<or> siz = 0 then Some (None, sb_size B, B)
      else do {
        (s, B) \<leftarrow> lpop_string siz 0 B;
        let B = B\<lparr>sb_size := sb_size B - siz\<rparr>;
        Some (Some s, sb_size B, B) })"

text \<open>\<open>lpushbuffer\<close>. A pool is two nodes of 24 bytes.\<close>

definition pool_nodes :: "lbuf \<Rightarrow> lbuf option" where
  "pool_nodes B =
     (if bp_freelist B = [] then do {
        (p, W) \<leftarrow> pixel_alloc 0 (2 * 24) (sb_w B);
        Some (B\<lparr>bp_pool := p, bp_freelist := [(p, 0), (p, 1)], sb_w := W\<rparr>) }
      else Some B)"

definition lpushbuffer :: "addr \<Rightarrow> int \<Rightarrow> lbuf \<Rightarrow> (int \<times> lbuf) option" where
  "lpushbuffer data siz B = do {
     B \<leftarrow> pool_nodes B;
     let node = \<lparr>bn_at = hd (bp_freelist B), bn_data = data, bn_size = siz\<rparr>;
     let B = B\<lparr>bp_freelist := tl (bp_freelist B), sb_nodes := sb_nodes B @ [node], sb_size := sb_size B + siz\<rparr>;
     Some (sb_size B, B) }"

text \<open>\<open>lfreebuffer\<close> frees the first node only and leaves the size as it is.\<close>

definition lfreebuffer :: "lbuf \<Rightarrow> lbuf option" where
  "lfreebuffer B = freebuffer_node B"

section \<open>The bytes in a buffer\<close>

definition node_data :: "world \<Rightarrow> bnode \<Rightarrow> bytes" where
  "node_data W n = (case w_mem W (bn_data n) of None \<Rightarrow> [] | Some d \<Rightarrow> take (nat (bn_size n)) d)"

definition nodes_data :: "world \<Rightarrow> bnode list \<Rightarrow> bytes" where
  "nodes_data W ns = concat (map (node_data W) ns)"

definition contents :: "lbuf \<Rightarrow> bytes" where
  "contents B = drop (nat (sb_offset B)) (nodes_data (sb_w B) (sb_nodes B))"

definition nodes_ok :: "world \<Rightarrow> bnode list \<Rightarrow> bool" where
  "nodes_ok W ns \<longleftrightarrow> distinct (map bn_data ns) \<and>
     (\<forall>n\<in>set ns. 0 < bn_size n \<and> bn_data n \<noteq> 0 \<and> (\<exists>d. w_mem W (bn_data n) = Some d \<and> bn_size n \<le> int (length d)))"

definition offset_ok :: "lbuf \<Rightarrow> bool" where
  "offset_ok B \<longleftrightarrow> 0 \<le> sb_offset B \<and> (case sb_nodes B of [] \<Rightarrow> sb_offset B = 0 | n # _ \<Rightarrow> sb_offset B < bn_size n)"

definition buf_ok :: "lbuf \<Rightarrow> bool" where
  "buf_ok B \<longleftrightarrow> nodes_ok (sb_w B) (sb_nodes B) \<and> offset_ok B \<and> sb_size B = int (length (contents B))"

lemma nodes_data_simps [simp]:
  "nodes_data W [] = []" "nodes_data W (n # ns) = node_data W n @ nodes_data W ns" "nodes_data W (ns @ ms) = nodes_data W ns @ nodes_data W ms"
  by (simp_all add: nodes_data_def)

lemma nodes_ok_Cons:
  assumes "nodes_ok W (n # ns)"
  shows "nodes_ok W ns" "0 < bn_size n" "length (node_data W n) = nat (bn_size n)" "bn_data n \<noteq> 0" "w_mem W (bn_data n) \<noteq> None"
    "bn_data n \<notin> bn_data ` set ns"
  using assms by (auto simp: nodes_ok_def node_data_def)

lemma node_bytes_eq:
  assumes "nodes_ok W (n # ns)" "0 \<le> off" "0 \<le> len" "off + len \<le> bn_size n"
  shows "node_bytes n off len W = Some (take (nat len) (drop (nat off) (node_data W n)))"
proof -
  from assms(1) obtain d where d: "w_mem W (bn_data n) = Some d" "bn_size n \<le> int (length d)" by (auto simp: nodes_ok_def)
  have "nat len \<le> nat (bn_size n) - nat off" "nat off + nat len \<le> length d" using assms(2-4) d(2) by linarith+
  then show ?thesis using assms(2,3) d(1) by (simp add: node_bytes_def region_def node_data_def drop_take min_absorb1)
qed

lemma nodes_frame:
  assumes "nodes_ok W ns" "a \<notin> bn_data ` set ns" "w_mem W' = (w_mem W)(a := x)"
  shows "nodes_ok W' ns" "nodes_data W' ns = nodes_data W ns"
proof -
  have e: "w_mem W' (bn_data n) = w_mem W (bn_data n)" if "n \<in> set ns" for n using that assms(2,3) by auto
  show "nodes_ok W' ns" using assms(1) e by (simp add: nodes_ok_def)
  show "nodes_data W' ns = nodes_data W ns" unfolding nodes_data_def node_data_def using e by (simp cong: map_cong)
qed

text \<open>Freeing the first node.\<close>

lemma free_node:
  assumes "nodes_ok (sb_w B) (n # ns)" "sb_nodes B = n # ns"
  shows "\<exists>B'. freebuffer_node B = Some B' \<and> sb_nodes B' = ns \<and> sb_offset B' = 0 \<and> sb_size B' = sb_size B \<and> nodes_ok (sb_w B') ns \<and>
    nodes_data (sb_w B') ns = nodes_data (sb_w B) ns \<and> w_mem (sb_w B') = (w_mem (sb_w B))(bn_data n := None)"
proof -
  note n = nodes_ok_Cons [OF assms(1)]
  let ?W = "(sb_w B)\<lparr>w_mem := (w_mem (sb_w B))(bn_data n := None)\<rparr>"
  have "free_data (bn_data n) (sb_w B) = Some ?W" using n(4,5) by (auto simp: free_data_def pixel_alloc_def)
  moreover have "nodes_ok ?W ns" "nodes_data ?W ns = nodes_data (sb_w B) ns" using nodes_frame [OF n(1,6)] by auto
  ultimately show ?thesis using assms(2) by (simp add: freebuffer_node_def)
qed

text \<open>
  The string that \<open>pop_loop\<close> builds: all but the last \<open>skp\<close> of the first \<open>siz\<close> bytes, which are gone from the buffer.
\<close>

definition popped :: "nat \<Rightarrow> lbuf \<Rightarrow> lbuf \<Rightarrow> bool" where
  "popped siz B B' \<longleftrightarrow> nodes_ok (sb_w B') (sb_nodes B') \<and> offset_ok B' \<and> contents B' = drop siz (contents B) \<and> sb_size B' = sb_size B"

text \<open>The first node of a buffer, from the offset on.\<close>

lemma first_node:
  assumes "nodes_ok (sb_w B) (n # ns)" "sb_nodes B = n # ns" "offset_ok B"
  obtains off av A where "sb_offset B = int off" "bn_size n - sb_offset B = int av" "0 < av" "length A = av"
    "contents B = A @ nodes_data (sb_w B) ns" "\<And>k. k \<le> av \<Longrightarrow> node_bytes n (sb_offset B) (int k) (sb_w B) = Some (take k A)"
proof -
  note n = nodes_ok_Cons [OF assms(1)]
  define off where "off = nat (sb_offset B)"
  define av where "av = nat (bn_size n) - off"
  define A where "A = drop off (node_data (sb_w B) n)"
  have off: "sb_offset B = int off" "off < nat (bn_size n)" using assms(2,3) by (auto simp: offset_ok_def off_def)
  have "contents B = drop off (node_data (sb_w B) n @ nodes_data (sb_w B) ns)" using assms(2) by (simp add: contents_def off_def)
  then have "contents B = A @ nodes_data (sb_w B) ns" using off(2) n(3) by (simp add: A_def)
  moreover have "node_bytes n (sb_offset B) (int k) (sb_w B) = Some (take k A)" if "k \<le> av" for k
    using node_bytes_eq [OF assms(1), of "int off" "int k"] that off n(2) by (simp add: A_def av_def of_nat_diff)
  moreover have "bn_size n - sb_offset B = int av" "0 < av" using off by (auto simp: av_def)
  moreover have "length A = av" by (simp add: A_def n(3) av_def)
  ultimately show thesis using that off(1) by blast
qed

lemma advance_ok:
  assumes "nodes_ok (sb_w B) (n # ns)" "sb_nodes B = n # ns" "offset_ok B" "int k < bn_size n - sb_offset B"
  shows "popped k B (B\<lparr>sb_offset := sb_offset B + int k\<rparr>)"
proof -
  have "0 \<le> sb_offset B" using assms(3) by (simp add: offset_ok_def)
  then have "contents (B\<lparr>sb_offset := sb_offset B + int k\<rparr>) = drop k (contents B)"
    by (simp add: contents_def nat_add_distrib add.commute)
  then show ?thesis using assms by (simp add: popped_def offset_ok_def)
qed

lemma finish_node:
  assumes "nodes_ok (sb_w B) (n # ns)" "sb_nodes B = n # ns" "offset_ok B" "int k = bn_size n - sb_offset B"
  shows "\<exists>B'. freebuffer_node (B\<lparr>sb_offset := x\<rparr>) = Some B' \<and> popped k B B' \<and> sb_nodes B' = ns"
proof -
  from free_node [of "B\<lparr>sb_offset := x\<rparr>" n ns] assms(1,2) obtain B' where B': "freebuffer_node (B\<lparr>sb_offset := x\<rparr>) = Some B'" "sb_nodes B' = ns"
    "sb_offset B' = 0" "sb_size B' = sb_size B" "nodes_ok (sb_w B') ns" "nodes_data (sb_w B') ns = nodes_data (sb_w B) ns" by auto
  obtain off av A where "bn_size n - sb_offset B = int av" "length A = av" "contents B = A @ nodes_data (sb_w B) ns"
    using first_node [OF assms(1-3)] by metis
  then have "popped k B B'" using B' assms(4) by (auto simp: popped_def offset_ok_def contents_def nodes_ok_def split: list.splits)
  then show ?thesis using B' by blast
qed

lemma pop_loop_spec:
  assumes "nodes_ok (sb_w B) ns" "sb_nodes B = ns" "offset_ok B" "0 < siz" "siz \<le> length (contents B)"
  shows "\<exists>B'. pop_loop ns (int siz) (int skp) lb B = Some (lb @ take (siz - skp) (contents B), B') \<and> popped siz B B'"
  using assms
proof (induction ns arbitrary: siz lb B)
  case Nil
  then show ?case by (simp add: contents_def)
next
  case (Cons n ns)
  obtain off av A where n: "sb_offset B = int off" "bn_size n - sb_offset B = int av" "0 < av" "length A = av"
    "contents B = A @ nodes_data (sb_w B) ns" "\<And>k. k \<le> av \<Longrightarrow> node_bytes n (sb_offset B) (int k) (sb_w B) = Some (take k A)"
    using first_node [OF Cons.prems(1-3)] by metis
  show ?case
  proof (cases "siz \<le> av")
    case True
    have st: "(if int siz > int skp then node_bytes n (sb_offset B) (int siz - int skp) (sb_w B) else Some []) = Some (take (siz - skp) (contents B))"
      using n(6) [of "siz - skp"] True n(4,5) by (auto simp: of_nat_diff)
    show ?thesis
    proof (cases "siz = av")
      case all: True
      from finish_node [OF Cons.prems(1-3), of siz "sb_offset B + int siz"] n(2) all obtain B2 where
        "freebuffer_node (B\<lparr>sb_offset := sb_offset B + int siz\<rparr>) = Some B2" "popped siz B B2" by auto
      then show ?thesis using st all n(2) by (auto split: if_splits)
    next
      case False
      then have "popped siz B (B\<lparr>sb_offset := sb_offset B + int siz\<rparr>)" using advance_ok [OF Cons.prems(1-3), of siz] n(2) True by simp
      then show ?thesis using st False True n(2) by (auto split: if_splits)
    qed
  next
    case False
    let ?r = "siz - av"
    from finish_node [OF Cons.prems(1-3), of av "sb_offset B"] n(2) obtain B1 where B1: "freebuffer_node B = Some B1" "popped av B B1" "sb_nodes B1 = ns" by auto
    have c1: "contents B1 = nodes_data (sb_w B) ns" using B1(2) n(4,5) by (simp add: popped_def)
    have s: "(if int siz - int skp > 0 then node_bytes n (sb_offset B) (if int siz - int skp < int av then int siz - int skp else int av) (sb_w B) else Some [])
      = Some (take (siz - skp) A)"
      using n(6) [of "siz - skp"] n(6) [of av] n(4) by (auto simp: of_nat_diff)
    have r: "0 < ?r" "?r \<le> length (contents B1)" "int siz - int av = int ?r" using False Cons.prems(5) n(4,5) c1 by auto
    from Cons.IH [OF _ B1(3) _ r(1,2), of "lb @ take (siz - skp) A"] B1(2,3) obtain B2 where B2:
      "pop_loop ns (int ?r) (int skp) (lb @ take (siz - skp) A) B1 = Some ((lb @ take (siz - skp) A) @ take (?r - skp) (contents B1), B2)" "popped ?r B1 B2"
      by (auto simp: popped_def)
    have "take (siz - skp) (contents B) = take (siz - skp) A @ take (?r - skp) (contents B1)" using n(4,5) c1 by (simp add: add.commute)
    moreover have "popped siz B B2" using B2(2) B1(2) False n(4,5) c1 by (simp add: popped_def)
    moreover have "pop_loop (n # ns) (int siz) (int skp) lb B = pop_loop ns (int ?r) (int skp) (lb @ take (siz - skp) A) B1"
      using False B1(1) r(1) unfolding pop_loop.simps Let_def n(2) s r(3) by simp
    ultimately show ?thesis using B2(1) by simp
  qed
qed

lemma lpop_string_spec:
  assumes "buf_ok B" "contents B \<noteq> []" "skp \<le> siz" "siz \<le> length (contents B)"
  shows "\<exists>B'. lpop_string (int siz) (int skp) B = Some (take (siz - skp) (contents B), B') \<and> popped siz B B'"
proof -
  have ok: "nodes_ok (sb_w B) (sb_nodes B)" "offset_ok B" using assms(1) by (simp_all add: buf_ok_def)
  then obtain n ns where ns: "sb_nodes B = n # ns" using assms(2) by (cases "sb_nodes B") (auto simp: contents_def)
  note ok' = ok(1) [unfolded ns] ns ok(2)
  obtain off av A where n: "sb_offset B = int off" "bn_size n - sb_offset B = int av" "0 < av" "length A = av"
    "contents B = A @ nodes_data (sb_w B) ns" "\<And>k. k \<le> av \<Longrightarrow> node_bytes n (sb_offset B) (int k) (sb_w B) = Some (take k A)"
    using first_node [OF ok'] by metis
  have s: "node_bytes n (sb_offset B) (int siz - int skp) (sb_w B) = Some (take (siz - skp) (contents B))" if "siz \<le> av"
    using n(6) [of "siz - skp"] that assms(3) n(4,5) by (simp add: of_nat_diff)
  consider (less) "siz < av" | (all) "siz = av" | (more) "av < siz" by linarith
  then show ?thesis
  proof cases
    case less
    then show ?thesis using s n(2) ns advance_ok [OF ok', of siz] by (simp add: lpop_string_def)
  next
    case all
    from finish_node [OF ok', of siz "sb_offset B"] n(2) all obtain B2 where "freebuffer_node B = Some B2" "popped siz B B2" by auto
    then show ?thesis using s all n(2) ns by (simp add: lpop_string_def)
  next
    case more
    then show ?thesis using pop_loop_spec [OF ok(1) refl ok(2), of siz skp "[]"] assms(4) n(2) ns by (simp add: lpop_string_def)
  qed
qed

lemma popped_ok: "popped siz B B' \<Longrightarrow> buf_ok B \<Longrightarrow> siz \<le> length (contents B) \<Longrightarrow> buf_ok (B'\<lparr>sb_size := sb_size B' - int siz\<rparr>)"
  by (simp add: popped_def buf_ok_def offset_ok_def contents_def of_nat_diff split: list.splits)

lemma readall_spec:
  assumes "nodes_ok (sb_w B) ns" "sb_nodes B = ns" "offset_ok B"
  shows "\<exists>B'. readall_loop ns lb B = Some (lb @ contents B, B') \<and> sb_nodes B' = [] \<and> sb_offset B' = 0"
  using assms
proof (induction ns arbitrary: lb B)
  case Nil
  then show ?case by (simp add: contents_def offset_ok_def)
next
  case (Cons n ns)
  obtain off av A where n: "bn_size n - sb_offset B = int av" "length A = av" "contents B = A @ nodes_data (sb_w B) ns"
    "\<And>k. k \<le> av \<Longrightarrow> node_bytes n (sb_offset B) (int k) (sb_w B) = Some (take k A)"
    using first_node [OF Cons.prems] by metis
  from finish_node [OF Cons.prems, of av "sb_offset B"] n(1) obtain B1 where B1: "freebuffer_node B = Some B1" "popped av B B1" "sb_nodes B1 = ns" by auto
  then have "contents B1 = nodes_data (sb_w B) ns" using n(2,3) by (simp add: popped_def)
  then show ?case using Cons.IH [of B1 "lb @ A"] B1 n(1,2,3) n(4) [of av] by (simp add: popped_def)
qed

text \<open>Where a separator occurs in a text.\<close>

definition occurs :: "bytes \<Rightarrow> bytes \<Rightarrow> nat \<Rightarrow> bool" where
  "occurs sep xs i \<longleftrightarrow> take (length sep) (drop i xs) = sep"

lemma check_sep_spec:
  assumes "nodes_ok W ns" "ns \<noteq> []" "from \<le> nat (bn_size (hd ns))" "from + length sep \<le> length (nodes_data W ns)"
  shows "check_sep ns (int from) sep W = Some (occurs sep (nodes_data W ns) from)"
  using assms
proof (induction ns arbitrary: "from" sep)
  case (Cons n ns)
  note n = nodes_ok_Cons [OF Cons.prems(1)]
  let ?D = "node_data W n"
  have fl: "from \<le> length ?D" using Cons.prems(3) n(3) by simp
  define siz where "siz = length ?D - from"
  have siz: "bn_size n - int from = int siz" using fl n(2,3) by (simp add: siz_def of_nat_diff)
  have nb: "node_bytes n (int from) (int k) W = Some (take k (drop from ?D))" if "k \<le> siz" for k
    using node_bytes_eq [OF Cons.prems(1), of "int from" "int k"] that siz by simp
  show ?case
  proof (cases "length sep \<le> siz")
    case True
    then have "occurs sep (nodes_data W (n # ns)) from \<longleftrightarrow> take (length sep) (drop from ?D) = sep"
      using fl by (simp add: siz_def occurs_def)
    then show ?thesis using True siz nb [OF True] by simp
  next
    case False
    have ld: "length (drop from ?D) = siz" by (simp add: siz_def)
    have rest: "length sep - siz \<le> length (nodes_data W ns)" using Cons.prems(4) False fl by (simp add: siz_def)
    then have ns: "ns \<noteq> []" using False by (auto simp: siz_def)
    have IH: "check_sep ns 0 (drop siz sep) W = Some (occurs (drop siz sep) (nodes_data W ns) 0)"
      using Cons.IH [of 0 "drop siz sep"] n(1) ns rest by simp
    have "occurs sep (nodes_data W (n # ns)) from \<longleftrightarrow> drop from ?D @ take (length sep - siz) (nodes_data W ns) = take siz sep @ drop siz sep"
      using False fl ld by (simp add: occurs_def)
    also have "\<dots> \<longleftrightarrow> drop from ?D = take siz sep \<and> occurs (drop siz sep) (nodes_data W ns) 0"
      using False ld by (subst append_eq_append_conv) (simp_all add: occurs_def min_absorb2)
    finally have e: "occurs sep (nodes_data W (n # ns)) from \<longleftrightarrow> drop from ?D = take siz sep \<and> occurs (drop siz sep) (nodes_data W ns) 0" .
    show ?thesis
    proof (cases "siz = 0")
      case True
      then show ?thesis using siz IH e False ld by simp
    next
      case pos: False
      then show ?thesis using siz IH e False ld nb [of siz] by (auto simp: Let_def)
    qed
  qed
qed simp

text \<open>What \<open>lreadline\<close> does with the place of the first separator.\<close>

definition take_line :: "bytes \<Rightarrow> bool \<Rightarrow> lbuf \<Rightarrow> nat option \<Rightarrow> (readline_result \<times> lbuf) option" where
  "take_line sep check B at =
     (case at of
        None \<Rightarrow> Some (No_line, B)
      | Some j \<Rightarrow>
          if check then Some (Has_line, B)
          else do {
            (s, B) \<leftarrow> lpop_string (int j + int (length sep)) (int (length sep)) B;
            Some (Line s, B\<lparr>sb_size := sb_size B - (int j + int (length sep))\<rparr>) })"

lemma occurs_drop: "drop i xs = drop j ys \<Longrightarrow> occurs sep xs i = occurs sep ys j"
  by (simp add: occurs_def)

lemma readline_step:
  assumes "check_sep cur from sep (sb_w B) = Some False"
  shows "readline_loop (Suc k) i cur from bytes sep check B =
    (if bytes - 1 = 0 then
       (case tl cur of [] \<Rightarrow> Some (No_line, B) | nxt # ns \<Rightarrow> readline_loop k (i + 1) (nxt # ns) 0 (bn_size nxt) sep check B)
     else readline_loop k (i + 1) cur (from + 1) (bytes - 1) sep check B)"
  using assms by (simp add: Let_def)

declare check_sep.simps [simp del] readline_loop.simps(2) [simp del]

lemma readline_loop_spec:
  assumes "nodes_ok (sb_w B) cur" "cur \<noteq> []" "from < nat (bn_size (hd cur))" "drop i cs = drop from (nodes_data (sb_w B) cur)"
    "k \<noteq> 0 \<Longrightarrow> i + k + length sep = length cs + 1"
  shows "readline_loop k (int i) cur (int from) (bn_size (hd cur) - int from) sep check B =
    take_line sep check B (find (occurs sep cs) [i..<i + k])"
  using assms
proof (induction k arbitrary: i cur "from")
  case 0
  then show ?case by (simp add: take_line_def)
next
  case (Suc k)
  let ?W = "sb_w B"
  obtain n ns where cur: "cur = n # ns" using Suc.prems(2) by (cases cur) auto
  note n = nodes_ok_Cons [OF Suc.prems(1) [unfolded cur]]
  have ik: "i + length sep \<le> length cs" "k \<noteq> 0 \<Longrightarrow> Suc i + k + length sep = length cs + 1" using Suc.prems(5) by simp_all
  have fl: "from < length (node_data ?W n)" using Suc.prems(3) n(3) cur by simp
  have len: "length cs - i = length (nodes_data ?W cur) - from" using arg_cong [OF Suc.prems(4), of length] by simp
  then have "from + length sep \<le> length (nodes_data ?W cur)" using ik(1) fl cur by (cases "length sep = 0") auto
  then have c: "check_sep cur (int from) sep ?W = Some (occurs sep cs i)"
    using check_sep_spec [OF Suc.prems(1,2), of "from" sep] Suc.prems(3) occurs_drop [OF Suc.prems(4), of sep] by simp
  have upt: "[i..<i + Suc k] = i # [Suc i..<Suc i + k]" by (simp add: upt_conv_Cons)
  show ?case
  proof (cases "occurs sep cs i")
    case True
    then show ?thesis using c unfolding upt by (simp add: take_line_def readline_loop.simps)
  next
    case False
    have step: "drop (Suc i) cs = drop (Suc from) (nodes_data ?W cur)"
      using arg_cong [OF Suc.prems(4), of "drop 1"] by simp
    have goal: ?thesis if "readline_loop (Suc k) (int i) cur (int from) (bn_size (hd cur) - int from) sep check B =
        take_line sep check B (find (occurs sep cs) [Suc i..<Suc i + k])" using that False unfolding upt by simp
    have one: "int i + 1 = int (Suc i)" "int from + 1 = int (Suc from)" by simp_all
    note st = readline_step [OF c [unfolded eq_False [THEN iffD2, OF False]], of k "int i" _ check]
    show ?thesis
    proof (cases "bn_size (hd cur) - int from - 1 = 0")
      case last: True
      then have sf: "Suc from = length (node_data ?W n)" using n(2,3) cur by simp
      show ?thesis
      proof (cases ns)
        case Nil
        then have e: "drop (Suc i) cs = []" using step sf cur by simp
        have "sep \<noteq> []" using False by (auto simp: occurs_def)
        then have "\<not> occurs sep cs j" if "Suc i \<le> j" for j using e that by (auto simp: occurs_def)
        then have "find (occurs sep cs) [Suc i..<Suc i + k] = None" by (auto simp: find_None_iff)
        then show ?thesis using last cur Nil by (intro goal, unfold st) (simp add: take_line_def)
      next
        case (Cons n2 ns2)
        have d: "drop (Suc i) cs = drop 0 (nodes_data ?W ns)" using step sf cur by simp
        have "readline_loop k (int (Suc i)) ns (int 0) (bn_size (hd ns) - int 0) sep check B = take_line sep check B (find (occurs sep cs) [Suc i..<Suc i + k])"
          by (rule Suc.IH [OF n(1) _ _ d ik(2)]) (use Cons nodes_ok_Cons(2) [OF n(1) [unfolded Cons]] in simp_all)
        then show ?thesis using last cur Cons unfolding one(1) [symmetric] by (intro goal, unfold st) simp
      qed
    next
      case more: False
      have "Suc from < nat (bn_size (hd cur))" using more Suc.prems(3) by linarith
      from Suc.IH [OF Suc.prems(1,2) this step ik(2)]
      have "readline_loop k (int (Suc i)) cur (int (Suc from)) (bn_size (hd cur) - int (Suc from)) sep check B =
        take_line sep check B (find (occurs sep cs) [Suc i..<Suc i + k])" .
      moreover have "bn_size (hd cur) - int from - 1 = bn_size (hd cur) - int (Suc from)" by simp
      ultimately show ?thesis using more unfolding one [symmetric] by (intro goal, unfold st) (simp add: diff_diff_eq)
    qed
  qed
qed

section \<open>The calls on a buffer\<close>

lemma lpopbuffer_spec:
  assumes "buf_ok B"
  shows "if length (contents B) < n \<or> n = 0 then lpopbuffer (int n) B = Some (None, int (length (contents B)), B)
    else \<exists>B'. lpopbuffer (int n) B = Some (Some (take n (contents B)), int (length (contents B) - n), B') \<and> buf_ok B' \<and>
      contents B' = drop n (contents B)"
proof (cases "length (contents B) < n \<or> n = 0")
  case True
  then show ?thesis using assms by (auto simp: lpopbuffer_def buf_ok_def)
next
  case False
  then have "contents B \<noteq> []" "n \<le> length (contents B)" by auto
  from lpop_string_spec [OF assms this(1), of 0 n] this obtain B' where p: "lpop_string (int n) 0 B = Some (take n (contents B), B')" "popped n B B'" by auto
  have ok: "buf_ok (B'\<lparr>sb_size := sb_size B' - int n\<rparr>)" using popped_ok [OF p(2) assms] False by simp
  have sz: "sb_size B' = int (length (contents B))" using p(2) assms by (simp add: popped_def buf_ok_def)
  have cs: "contents (B'\<lparr>sb_size := x\<rparr>) = drop n (contents B)" for x using p(2) by (simp add: popped_def contents_def)
  have "lpopbuffer (int n) B = Some (Some (take n (contents B)), int (length (contents B) - n), B'\<lparr>sb_size := sb_size B' - int n\<rparr>)"
    using False p(1) sz assms by (simp add: lpopbuffer_def buf_ok_def of_nat_diff)
  then show ?thesis using False ok cs by auto
qed

lemma lreadall_spec:
  assumes "buf_ok B"
  shows "\<exists>B'. lreadall B = Some (contents B, B') \<and> buf_ok B' \<and> contents B' = []"
proof -
  have ok: "nodes_ok (sb_w B) (sb_nodes B)" "offset_ok B" using assms by (simp_all add: buf_ok_def)
  from readall_spec [OF ok(1) refl ok(2), of "[]"] obtain B' where "readall_loop (sb_nodes B) [] B = Some (contents B, B')" "sb_nodes B' = []" "sb_offset B' = 0"
    by auto
  then show ?thesis by (simp add: lreadall_def buf_ok_def contents_def offset_ok_def nodes_ok_def)
qed

text \<open>The place of the first separator in a text, and reading a line in terms of it.\<close>

definition first_sep :: "bytes \<Rightarrow> bytes \<Rightarrow> nat option" where
  "first_sep sep xs = (if length xs < length sep \<or> xs = [] then None else find (occurs sep xs) [0..<length xs - length sep + 1])"

lemma lreadline_find:
  assumes "buf_ok B"
  shows "lreadline sep check B = take_line sep check B (first_sep sep (contents B))"
proof (cases "sb_nodes B")
  case Nil
  then show ?thesis by (simp add: lreadline_def first_sep_def contents_def take_line_def)
next
  case (Cons n ns)
  let ?cs = "contents B"
  have ok: "nodes_ok (sb_w B) (n # ns)" "offset_ok B" using assms Cons by (simp_all add: buf_ok_def)
  obtain off av A where a: "sb_offset B = int off" "bn_size n - sb_offset B = int av" "0 < av" "length A = av" "?cs = A @ nodes_data (sb_w B) ns"
    using first_node [OF ok(1) Cons ok(2)] by metis
  have d: "drop 0 ?cs = drop off (nodes_data (sb_w B) (n # ns))" using Cons a(1) by (simp add: contents_def)
  have ne: "?cs \<noteq> []" using a(3,4,5) by auto
  let ?k = "nat (int (length ?cs) - int (length sep) + 1)"
  have sz: "sb_size B = int (length ?cs)" using assms by (simp add: buf_ok_def)
  have "readline_loop ?k (int 0) (n # ns) (int off) (bn_size (hd (n # ns)) - int off) sep check B = take_line sep check B (find (occurs sep ?cs) [0..<0 + ?k])"
    by (rule readline_loop_spec [OF ok(1) _ _ d]) (use a(1,2,3) in auto)
  then have "lreadline sep check B = take_line sep check B (find (occurs sep ?cs) [0..<?k])" using Cons a(1) sz by (simp add: lreadline_def)
  moreover have "find (occurs sep ?cs) [0..<?k] = first_sep sep ?cs"
  proof (cases "length ?cs < length sep")
    case True
    then show ?thesis by (simp add: first_sep_def)
  next
    case False
    then have "?k = length ?cs - length sep + 1" by linarith
    then show ?thesis using False ne by (simp add: first_sep_def)
  qed
  ultimately show ?thesis by simp
qed

lemma first_sep_bound: "first_sep sep xs = Some j \<Longrightarrow> j + length sep \<le> length xs \<and> xs \<noteq> []"
proof -
  assume a: "first_sep sep xs = Some j"
  then have n: "\<not> (length xs < length sep \<or> xs = [])" by (auto simp: first_sep_def split: if_splits)
  with a have "find (occurs sep xs) [0..<length xs - length sep + 1] = Some j" by (simp add: first_sep_def)
  then obtain m where "m < length [0..<length xs - length sep + 1]" "j = [0..<length xs - length sep + 1] ! m" unfolding find_Some_iff by blast
  then have "j < length xs - length sep + 1" by (metis add_0 diff_zero length_upt nth_upt)
  with n show ?thesis by auto
qed

lemma lreadline_spec:
  assumes "buf_ok B"
  shows "case first_sep sep (contents B) of
      None \<Rightarrow> lreadline sep check B = Some (No_line, B)
    | Some j \<Rightarrow> if check then lreadline sep check B = Some (Has_line, B)
        else \<exists>B'. lreadline sep check B = Some (Line (take j (contents B)), B') \<and> buf_ok B' \<and> contents B' = drop (j + length sep) (contents B)"
proof (cases "first_sep sep (contents B)")
  case None
  then show ?thesis using lreadline_find [OF assms] by (simp add: take_line_def)
next
  case (Some j)
  note b = first_sep_bound [OF Some]
  from lpop_string_spec [OF assms, of "length sep" "j + length sep"] b obtain B' where
    p: "lpop_string (int j + int (length sep)) (int (length sep)) B = Some (take j (contents B), B')" "popped (j + length sep) B B'" by auto
  have ok: "buf_ok (B'\<lparr>sb_size := sb_size B' - (int j + int (length sep))\<rparr>)" using popped_ok [OF p(2) assms] b by simp
  have "contents (B'\<lparr>sb_size := x\<rparr>) = drop (j + length sep) (contents B)" for x using p(2) by (simp add: popped_def contents_def)
  then show ?thesis using lreadline_find [OF assms, of sep check] Some p(1) ok by (cases check) (simp_all add: take_line_def)
qed

section \<open>Any sequence of calls on a buffer\<close>

text \<open>Blocks are freed only, so that fresh addresses stay fresh.\<close>

lemma free_data_fresh: "free_data p W = Some W' \<Longrightarrow> fresh_above W \<Longrightarrow> fresh_above W'"
  by (auto simp: free_data_def pixel_alloc_def fresh_above_def split: if_splits)

lemma freebuffer_node_fresh: "freebuffer_node B = Some B' \<Longrightarrow> fresh_above (sb_w B) \<Longrightarrow> fresh_above (sb_w B')"
  by (auto simp: freebuffer_node_def free_data_fresh split: list.splits bind_splits)

lemma pop_loop_fresh: "pop_loop ns siz skp lb B = Some (s, B') \<Longrightarrow> fresh_above (sb_w B) \<Longrightarrow> fresh_above (sb_w B')"
proof (induction ns siz skp lb B rule: pop_loop.induct)
  case (2 cur ns siz skp lb B)
  then show ?case by (fastforce simp: Let_def dest: freebuffer_node_fresh split: if_splits bind_splits)
qed simp

lemma lpop_string_fresh: "lpop_string siz skp B = Some (s, B') \<Longrightarrow> fresh_above (sb_w B) \<Longrightarrow> fresh_above (sb_w B')"
  by (auto simp: lpop_string_def simp del: pop_loop.simps dest: freebuffer_node_fresh pop_loop_fresh split: list.splits if_splits bind_splits)

lemma readall_loop_fresh: "readall_loop ns lb B = Some (s, B') \<Longrightarrow> fresh_above (sb_w B) \<Longrightarrow> fresh_above (sb_w B')"
proof (induction ns lb B rule: readall_loop.induct)
  case (2 cur ns lb B)
  then show ?case by (fastforce dest: freebuffer_node_fresh split: bind_splits)
qed simp

text \<open>A service calls \<open>push\<close> with the block that came in a message of the socket server, and the reading calls.\<close>

datatype buf_op = B_push bytes | B_pop nat | B_line bytes bool | B_all

datatype buf_res = R_size int | R_pop "bytes option" int | R_line readline_result | R_all bytes

definition buf_step :: "buf_op \<Rightarrow> lbuf \<Rightarrow> (buf_res \<times> lbuf) option" where
  "buf_step x B =
     (case x of
        B_push bs \<Rightarrow> do {
          (p, W) \<leftarrow> pixel_alloc 0 (int (length bs)) (sb_w B);
          W \<leftarrow> store p bs W;
          (n, B) \<leftarrow> lpushbuffer p (int (length bs)) (B\<lparr>sb_w := W\<rparr>);
          Some (R_size n, B) }
      | B_pop k \<Rightarrow> do { (s, n, B) \<leftarrow> lpopbuffer (int k) B; Some (R_pop s n, B) }
      | B_line sep check \<Rightarrow> do { (r, B) \<leftarrow> lreadline sep check B; Some (R_line r, B) }
      | B_all \<Rightarrow> do { (s, B) \<leftarrow> lreadall B; Some (R_all s, B) })"

text \<open>What the calls promise: the buffer is the bytes received and not read yet.\<close>

definition buf_spec :: "buf_op \<Rightarrow> bytes \<Rightarrow> buf_res \<times> bytes" where
  "buf_spec x cs =
     (case x of
        B_push bs \<Rightarrow> (R_size (int (length (cs @ bs))), cs @ bs)
      | B_pop k \<Rightarrow>
          if length cs < k \<or> k = 0 then (R_pop None (int (length cs)), cs)
          else (R_pop (Some (take k cs)) (int (length cs - k)), drop k cs)
      | B_line sep check \<Rightarrow>
          (case first_sep sep cs of
             None \<Rightarrow> (R_line No_line, cs)
           | Some j \<Rightarrow> if check then (R_line Has_line, cs) else (R_line (Line (take j cs)), drop (j + length sep) cs))
      | B_all \<Rightarrow> (R_all cs, []))"

definition buf_valid :: "buf_op \<Rightarrow> bool" where
  "buf_valid x \<longleftrightarrow> (case x of B_push bs \<Rightarrow> bs \<noteq> [] | _ \<Rightarrow> True)"

definition buf_inv :: "lbuf \<Rightarrow> bool" where
  "buf_inv B \<longleftrightarrow> buf_ok B \<and> fresh_above (sb_w B)"

lemma nodes_below: "nodes_ok W ns \<Longrightarrow> fresh_above W \<Longrightarrow> \<forall>a\<in>bn_data ` set ns. a < w_brk W"
  unfolding nodes_ok_def fresh_above_def by (metis imageE linorder_not_less option.distinct(1))

lemma nodes_new_block:
  assumes "nodes_ok W ns" "fresh_above W" "w_mem W' = (w_mem W)(w_brk W \<mapsto> x)"
  shows "nodes_ok W' ns" "nodes_data W' ns = nodes_data W ns"
  using nodes_frame [OF assms(1) _ assms(3)] nodes_below [OF assms(1,2)] by blast+

lemma pool_nodes_spec:
  assumes "nodes_ok (sb_w B) (sb_nodes B)" "fresh_above (sb_w B)"
  shows "\<exists>B'. pool_nodes B = Some B' \<and> bp_freelist B' \<noteq> [] \<and> sb_nodes B' = sb_nodes B \<and> sb_offset B' = sb_offset B \<and> sb_size B' = sb_size B \<and>
    nodes_ok (sb_w B') (sb_nodes B) \<and> nodes_data (sb_w B') (sb_nodes B) = nodes_data (sb_w B) (sb_nodes B) \<and> fresh_above (sb_w B') \<and>
    (\<forall>a<w_brk (sb_w B). w_mem (sb_w B') a = w_mem (sb_w B) a)"
proof (cases "bp_freelist B = []")
  case True
  let ?W = "(sb_w B)\<lparr>w_mem := (w_mem (sb_w B))(w_brk (sb_w B) \<mapsto> replicate 48 0), w_brk := w_brk (sb_w B) + 1\<rparr>"
  have "pixel_alloc 0 48 (sb_w B) = Some (w_brk (sb_w B), ?W)" by (simp add: pixel_alloc_def)
  then have "pool_nodes B = Some (B\<lparr>bp_pool := w_brk (sb_w B), bp_freelist := [(w_brk (sb_w B), 0), (w_brk (sb_w B), 1)], sb_w := ?W\<rparr>)"
    using True by (simp add: pool_nodes_def)
  moreover have "fresh_above ?W" using assms(2) by (simp add: fresh_above_def)
  ultimately show ?thesis using nodes_new_block [OF assms, of ?W] by simp
qed (use assms in \<open>simp add: pool_nodes_def\<close>)

lemma lpushbuffer_spec:
  assumes "buf_ok B" "fresh_above (sb_w B)" "w_mem (sb_w B) p = Some bs" "bs \<noteq> []" "p \<noteq> 0" "p \<notin> bn_data ` set (sb_nodes B)"
  shows "\<exists>B'. lpushbuffer p (int (length bs)) B = Some (int (length (contents B @ bs)), B') \<and> buf_inv B' \<and> contents B' = contents B @ bs"
proof -
  have ok: "nodes_ok (sb_w B) (sb_nodes B)" "offset_ok B" "sb_size B = int (length (contents B))" using assms(1) by (simp_all add: buf_ok_def)
  from pool_nodes_spec [OF ok(1) assms(2)] obtain B1 where b: "pool_nodes B = Some B1" "bp_freelist B1 \<noteq> []" "sb_nodes B1 = sb_nodes B"
    "sb_offset B1 = sb_offset B" "sb_size B1 = sb_size B" "nodes_ok (sb_w B1) (sb_nodes B)" "nodes_data (sb_w B1) (sb_nodes B) = nodes_data (sb_w B) (sb_nodes B)"
    "fresh_above (sb_w B1)" "\<forall>a<w_brk (sb_w B). w_mem (sb_w B1) a = w_mem (sb_w B) a" by blast
  let ?n = "\<lparr>bn_at = hd (bp_freelist B1), bn_data = p, bn_size = int (length bs)\<rparr>"
  let ?B = "B1\<lparr>bp_freelist := tl (bp_freelist B1), sb_nodes := sb_nodes B @ [?n], sb_size := sb_size B + int (length bs)\<rparr>"
  have p: "w_mem (sb_w B1) p = Some bs" using b(9) assms(2,3) by (metis fresh_above_def linorder_not_less option.distinct(1))
  have nok: "nodes_ok (sb_w B1) (sb_nodes B @ [?n])" using b(6) p assms(4,5,6) by (auto simp: nodes_ok_def)
  have off: "nat (sb_offset B) \<le> length (nodes_data (sb_w B) (sb_nodes B))"
    using ok(1,2) nodes_ok_Cons(3) by (cases "sb_nodes B") (fastforce simp: offset_ok_def)+
  have cs: "contents ?B = contents B @ bs" using b(4,7) p off by (simp add: contents_def node_data_def)
  have "offset_ok ?B" using ok(2) b(4) assms(4) by (cases "sb_nodes B") (simp_all add: offset_ok_def)
  then have "buf_inv ?B" using nok cs ok(3) b(8) by (simp add: buf_inv_def buf_ok_def)
  moreover have "lpushbuffer p (int (length bs)) B = Some (int (length (contents B @ bs)), ?B)"
    using b(1,3,5) ok(3) by (simp add: lpushbuffer_def)
  ultimately show ?thesis using cs by blast
qed

lemma buf_push_spec:
  assumes "buf_inv B" "bs \<noteq> []"
  shows "\<exists>B'. buf_step (B_push bs) B = Some (R_size (int (length (contents B @ bs))), B') \<and> buf_inv B' \<and> contents B' = contents B @ bs"
proof -
  let ?p = "w_brk (sb_w B)"
  let ?W = "(sb_w B)\<lparr>w_brk := ?p + 1, w_mem := (w_mem (sb_w B))(?p \<mapsto> bs)\<rparr>"
  have ok: "buf_ok B" "nodes_ok (sb_w B) (sb_nodes B)" "fresh_above (sb_w B)" using assms(1) by (auto simp: buf_inv_def buf_ok_def)
  note nb = nodes_new_block [OF ok(2,3), of ?W bs]
  have cs: "contents (B\<lparr>sb_w := ?W\<rparr>) = contents B" using nb(2) by (simp add: contents_def)
  then have "buf_ok (B\<lparr>sb_w := ?W\<rparr>)" using ok(1) nb(1) by (cases "sb_nodes B") (simp_all add: buf_ok_def offset_ok_def)
  moreover have "fresh_above ?W" "?p \<noteq> 0" using ok(3) by (auto simp: fresh_above_def)
  moreover have "?p \<notin> bn_data ` set (sb_nodes B)" using nodes_below [OF ok(2,3)] by blast
  ultimately obtain B' where "lpushbuffer ?p (int (length bs)) (B\<lparr>sb_w := ?W\<rparr>) = Some (int (length (contents B @ bs)), B')" "buf_inv B'" "contents B' = contents B @ bs"
    using lpushbuffer_spec [of "B\<lparr>sb_w := ?W\<rparr>" ?p bs] assms(2) cs by auto
  moreover have "pixel_alloc 0 (int (length bs)) (sb_w B) = Some (?p, (sb_w B)\<lparr>w_mem := (w_mem (sb_w B))(?p \<mapsto> replicate (length bs) 0), w_brk := ?p + 1\<rparr>)"
    "store ?p bs ((sb_w B)\<lparr>w_mem := (w_mem (sb_w B))(?p \<mapsto> replicate (length bs) 0), w_brk := ?p + 1\<rparr>) = Some ?W"
    using assms(2) by (simp_all add: pixel_alloc_def store_def)
  ultimately show ?thesis by (simp add: buf_step_def)
qed

lemma buf_step_refines:
  assumes "buf_inv B" "buf_valid x"
  shows "\<exists>r B'. buf_step x B = Some (r, B') \<and> buf_inv B' \<and> buf_spec x (contents B) = (r, contents B')"
proof (cases x)
  case (B_push bs)
  then show ?thesis using buf_push_spec [OF assms(1), of bs] assms(2) by (auto simp: buf_valid_def buf_spec_def)
next
  case (B_pop k)
  have ok: "buf_ok B" "fresh_above (sb_w B)" using assms(1) by (auto simp: buf_inv_def)
  have fr: "fresh_above (sb_w B')" if "lpopbuffer (int k) B = Some (s, m, B')" for s m B'
    using that ok(2) by (auto simp: lpopbuffer_def Let_def dest: lpop_string_fresh split: if_splits bind_splits)
  show ?thesis using lpopbuffer_spec [OF ok(1), of k] fr B_pop assms(1)
    by (auto simp: buf_step_def buf_spec_def buf_inv_def split: if_splits)
next
  case (B_line sep check)
  have ok: "buf_ok B" "fresh_above (sb_w B)" using assms(1) by (auto simp: buf_inv_def)
  have fr: "fresh_above (sb_w B')" if "lreadline sep check B = Some (r, B')" for r B'
    using that ok(2) unfolding lreadline_find [OF ok(1)] by (auto simp: take_line_def dest: lpop_string_fresh split: option.splits if_splits bind_splits)
  show ?thesis using lreadline_spec [OF ok(1), of sep check] fr B_line assms(1)
    by (auto simp: buf_step_def buf_spec_def buf_inv_def split: option.splits if_splits)
next
  case B_all
  have ok: "buf_ok B" "fresh_above (sb_w B)" using assms(1) by (auto simp: buf_inv_def)
  have fr: "fresh_above (sb_w B')" if "lreadall B = Some (s, B')" for s B'
    using that ok(2) by (auto simp: lreadall_def dest: readall_loop_fresh split: bind_splits)
  show ?thesis using lreadall_spec [OF ok(1)] fr B_all by (auto simp: buf_step_def buf_spec_def buf_inv_def)
qed

interpretation inbuf: refines buf_inv contents buf_valid buf_step buf_spec
  by unfold_locales (rule buf_step_refines)

lemma new_buffer_inv: "fresh_above (sb_w B) \<Longrightarrow> buf_inv (lnewbuffer B) \<and> contents (lnewbuffer B) = []"
  by (simp add: buf_inv_def buf_ok_def lnewbuffer_def contents_def offset_ok_def nodes_ok_def)

text \<open>
  C10: a socket buffer is a byte string: from a new buffer, every sequence of \<open>push\<close>, \<open>pop\<close>, \<open>readline\<close> and \<open>readall\<close> returns, with the results that the calls
  have on the string of the bytes pushed and not read, wherever the pieces begin and end: a line is found across pieces, a separator cut in two is one, and the memory that is
  touched is allocated at every access. The memory is one whose addresses from \<open>w_brk\<close> on are free and the pieces are not empty, as those of the socket
  server.
\<close>

theorem buffer_is_byte_string:
  assumes "fresh_above (sb_w B)" "list_all buf_valid xs"
  shows "\<exists>B'. run_steps buf_step xs (lnewbuffer B) = Some (fst (run_spec buf_spec xs []), B') \<and> buf_ok B' \<and>
    contents B' = snd (run_spec buf_spec xs []) \<and> sb_size B' = int (length (snd (run_spec buf_spec xs [])))"
proof -
  have n: "buf_inv (lnewbuffer B)" "contents (lnewbuffer B) = []" using new_buffer_inv [OF assms(1)] by simp_all
  obtain rs B' where r: "run_steps buf_step xs (lnewbuffer B) = Some (rs, B')" "buf_inv B'" "run_spec buf_spec xs [] = (rs, contents B')"
    using inbuf.run_refines [OF n(1) assms(2)] unfolding n(2) by blast
  then have "buf_ok B'" "sb_size B' = int (length (contents B'))" by (simp_all add: buf_inv_def buf_ok_def)
  with r show ?thesis by simp
qed

definition demo_buffer :: lbuf where
  "demo_buffer = \<lparr>sb_size = 0, sb_offset = 0, sb_nodes = [], bp_pool = 0, bp_freelist = [], sb_w = sample_world\<rparr>"

definition demo_calls :: "buf_op list" where
  "demo_calls = [B_push [97, 98, 13], B_line [13, 10] False, B_push [10, 99], B_line [13, 10] True, B_line [13, 10] False, B_push [100, 101, 102], B_pop 3,
     B_pop 3, B_all]"

theorem buffer_is_byte_string_witness:
  "\<exists>B'. run_steps buf_step demo_calls (lnewbuffer demo_buffer) =
    Some ([R_size 3, R_line No_line, R_size 5, R_line Has_line, R_line (Line [97, 98]), R_size 4, R_pop (Some [99, 100, 101]) 1, R_pop None 1, R_all [102]], B') \<and>
    contents B' = [] \<and> sb_size B' = 0"
proof -
  have v: "list_all buf_valid demo_calls" by (simp add: demo_calls_def buf_valid_def)
  have f: "fresh_above (sb_w demo_buffer)" by (simp add: demo_buffer_def fresh_above_def)
  have r: "run_spec buf_spec demo_calls [] =
    ([R_size 3, R_line No_line, R_size 5, R_line Has_line, R_line (Line [97, 98]), R_size 4, R_pop (Some [99, 100, 101]) 1, R_pop None 1, R_all [102]], [])"
    by code_simp
  show ?thesis using buffer_is_byte_string [OF f v] unfolding r by auto
qed

text \<open>
  \<open>free\<close> gives back the first piece only: the others stay allocated, and the size stays as it was, so that it no longer is the number of bytes in the
  buffer.
\<close>

theorem lfreebuffer_leaves_rest:
  assumes "buf_ok B" "sb_nodes B = n # m # ns"
  shows "\<exists>B'. lfreebuffer B = Some B' \<and> w_mem (sb_w B') (bn_data m) \<noteq> None \<and> sb_size B' = sb_size B \<and> int (length (contents B')) < sb_size B'"
proof -
  have ok: "nodes_ok (sb_w B) (n # m # ns)" "offset_ok B" "sb_size B = int (length (contents B))" using assms by (auto simp: buf_ok_def)
  from free_node [OF ok(1) assms(2)] obtain B' where b: "freebuffer_node B = Some B'" "sb_nodes B' = m # ns" "sb_offset B' = 0" "sb_size B' = sb_size B"
    "nodes_ok (sb_w B') (m # ns)" "nodes_data (sb_w B') (m # ns) = nodes_data (sb_w B) (m # ns)" by blast
  obtain A where "A \<noteq> []" "contents B = A @ nodes_data (sb_w B) (m # ns)" using first_node [OF ok(1) assms(2) ok(2)] by (metis length_0_conv less_irrefl)
  then have "int (length (contents B')) < sb_size B'" using b(2,3,4,6) ok(3) by (simp add: contents_def)
  then show ?thesis using b(1,4) nodes_ok_Cons(5) [OF b(5)] by (auto simp: lfreebuffer_def)
qed

section \<open>The calls of the socket server\<close>

text \<open>\<open>pixel_handle\<close> of the service, as the \<open>ud\<close> of the calls.\<close>

definition ctx_ud :: "addr \<Rightarrow> 'o net \<Rightarrow> u64 option" where
  "ctx_ud ctx S = map_option (\<lambda>c. ucast (p_handle c)) (w_ctx (n_w S) ctx)"

definition llisten :: "'o sys \<Rightarrow> addr \<Rightarrow> string \<Rightarrow> int \<Rightarrow> 'o net \<Rightarrow> (int \<times> 'o net) option" where
  "llisten Y ctx host port S = do { ud \<leftarrow> ctx_ud ctx S; socket_listen Y (Some host) port ud S }"

definition lopen :: "'o sys \<Rightarrow> addr \<Rightarrow> string \<Rightarrow> int \<Rightarrow> 'o net \<Rightarrow> (int \<times> 'o net) option" where
  "lopen Y ctx host port S = do { ud \<leftarrow> ctx_ud ctx S; socket_open Y host port ud S }"

definition lbind :: "'o sys \<Rightarrow> addr \<Rightarrow> int \<Rightarrow> 'o net \<Rightarrow> (int \<times> 'o net) option" where
  "lbind Y ctx fd S = do { ud \<leftarrow> ctx_ud ctx S; socket_bind Y fd ud S }"

definition lstart :: "'o sys \<Rightarrow> addr \<Rightarrow> int \<Rightarrow> 'o net \<Rightarrow> 'o net option" where
  "lstart Y ctx sid S = do { ud \<leftarrow> ctx_ud ctx S; socket_start Y sid ud S }"

definition lclose :: "'o sys \<Rightarrow> addr \<Rightarrow> int \<Rightarrow> 'o net \<Rightarrow> 'o net option" where
  "lclose Y ctx sid S = do { ud \<leftarrow> ctx_ud ctx S; socket_close Y sid ud S }"

text \<open>The data of \<open>lsend\<close> and \<open>ludp_send\<close>: a block and its size, or a string, which is copied.\<close>

datatype send_arg = Udata addr int | Str bytes

definition send_data :: "send_arg \<Rightarrow> 'o net \<Rightarrow> (addr \<times> int \<times> 'o net) option" where
  "send_data x S =
     (case x of
        Udata p n \<Rightarrow> Some (p, n, S)
      | Str s \<Rightarrow> do { (d, S) \<leftarrow> put_block s S; Some (d, int (length s), S) })"

definition lsend :: "'o sys \<Rightarrow> int \<Rightarrow> send_arg \<Rightarrow> int option \<Rightarrow> 'o net \<Rightarrow> (int \<times> 'o net) option" where
  "lsend Y sid x priority S = do {
     (d, n, S) \<leftarrow> send_data x S;
     socket_send Y sid d n (case priority of None \<Rightarrow> 0 | Some p \<Rightarrow> p) S }"

definition lnodelay :: "'o sys \<Rightarrow> int \<Rightarrow> 'o net \<Rightarrow> 'o net option" where
  "lnodelay Y sid S = socket_nodelay Y sid S"

text \<open>The functions on UDP sockets; \<open>Inl\<close> is an error raised in Lua.\<close>

definition ludp :: "'o sys \<Rightarrow> addr \<Rightarrow> string option \<Rightarrow> int \<Rightarrow> 'o net \<Rightarrow> ((string + int) \<times> 'o net) option" where
  "ludp Y ctx host port S = do {
     ud \<leftarrow> ctx_ud ctx S;
     (sid, S) \<leftarrow> socket_udp Y host port ud S;
     Some (if sid < 0 then Inl ''udp init failed'' else Inr sid, S) }"

definition ludp_open :: "'o sys \<Rightarrow> int \<Rightarrow> string option \<Rightarrow> int \<Rightarrow> 'o net \<Rightarrow> ((string + unit) \<times> 'o net) option" where
  "ludp_open Y sid host port S = do {
     (r, S) \<leftarrow> socket_udpopen Y sid host port S;
     Some (if r \<noteq> 0 then Inl ''udp open failed'' else Inr (), S) }"

definition ludp_send :: "'o sys \<Rightarrow> int \<Rightarrow> bytes \<Rightarrow> send_arg \<Rightarrow> 'o net \<Rightarrow> (int \<times> 'o net) option" where
  "ludp_send Y sid address x S = do {
     (d, n, S) \<leftarrow> send_data x S;
     socket_udpsend Y sid address d n S }"

definition ludp_address :: "'o sys \<Rightarrow> bytes \<Rightarrow> (string + string \<times> int) option" where
  "ludp_address Y address =
     (if length address < 2 then None
      else
        (let port = take 2 (drop 1 (address @ [0]));
             src = drop 3 address;
             ntop = (\<lambda>sa. case y_ntop Y sa of None \<Rightarrow> Inl ''invalid udp address'' | Some tmp \<Rightarrow> Inr (tmp, ntohs port)) in
         if length address = 1 + 2 + 4 then Some (ntop (V4 port src))
         else if length address \<noteq> 1 + 2 + 16 then Some (Inl ''invalid udp address'')
         else Some (ntop (V6 port src))))"

text \<open>\<open>lunpack\<close> of a message of the socket server: the text that \<open>data\<close> points to, or the pointer.\<close>

datatype udata = U_text string | U_ptr mdata

definition msg_text :: "mdata \<Rightarrow> 'o net \<Rightarrow> string option" where
  "msg_text d S =
     (case d of
        M_null \<Rightarrow> None
      | M_text s \<Rightarrow> Some s
      | M_info \<Rightarrow> Some (n_info S)
      | M_block a \<Rightarrow> do {
          bs \<leftarrow> w_mem (n_w S) a;
          if 0 \<in> set bs then Some (map (\<lambda>b. char_of (unat b)) (takeWhile (\<lambda>b. b \<noteq> 0) bs)) else None })"

definition lunpack :: "int \<Rightarrow> smsg \<Rightarrow> 'o net \<Rightarrow> (int \<times> int \<times> int \<times> udata \<times> bytes option) option" where
  "lunpack ty sm S = do {
     d \<leftarrow> (if ty = SOCKET_OPEN \<or> ty = SOCKET_ACCEPT \<or> ty = SOCKET_ERR then map_option U_text (msg_text (m_data sm) S)
           else Some (U_ptr (m_data sm)));
     address \<leftarrow>
       (if ty = SOCKET_UDP then
          (case m_data sm of
             M_block a \<Rightarrow> do {
               bs \<leftarrow> w_mem (n_w S) a;
               if m_size sm < 0 \<or> int (length bs) \<le> m_size sm then None else Some (socket_udpaddress bs (nat (m_size sm))) }
           | _ \<Rightarrow> None)
        else Some None);
     Some (ty, m_id sm, m_size sm, d, address) }"

text \<open>The address that comes with a datagram reads back as the address of the sender.\<close>

lemma address_readable:
  assumes "gen_udp_address proto sa = Some a" "sa = V4 port ip \<and> length ip = 4 \<or> sa = V6 port ip \<and> length ip = 16" "length port = 2"
  shows "ludp_address Y a = Some (case y_ntop Y sa of None \<Rightarrow> Inl ''invalid udp address'' | Some tmp \<Rightarrow> Inr (tmp, ntohs port))"
  using assms by (auto simp: ludp_address_def ntohs_def split: if_splits)

end
