(* ===== verification/Threads.thy ===== *)
theory Threads
  imports Prelude
begin

text \<open>
  The threads of the process, \<open>src/src/start.c\<close>: the monitor, the timer, the socket thread, the workers, and the main thread that joins them. Each access to the
  shared \<open>watcher\<close> and each call that may block is one step of one thread. \<open>pixel_dispatch\<close> and \<open>socket_poll\<close> return what they want, but no service comes after the last one has gone
  (\<open>pixel_dispatch\<close> may still return a queue then: the log and harbor services are taken out of the count by \<open>pixel_reserve\<close> and go on running),
  and \<open>socket_poll\<close> returns \<open>SOCKET_EXIT\<close> only after \<open>socket_exit\<close>. A thread may leave \<open>pthread_cond_wait\<close> without a signal, as POSIX allows. The calls
  that create the threads and the default mutex succeed.
\<close>

section \<open>The state\<close>

datatype thread = Worker nat | Timer

datatype worker_pc =
    Wk_loop      \<comment> \<open>at \<open>while (!watcher->quit)\<close>\<close>
  | Wk_dispatch  \<comment> \<open>in \<open>pixel_dispatch\<close>\<close>
  | Wk_lock      \<comment> \<open>in \<open>pthread_mutex_lock\<close>\<close>
  | Wk_count     \<comment> \<open>at \<open>++watcher->sleep\<close>\<close>
  | Wk_check     \<comment> \<open>at \<open>if (!watcher->quit)\<close>\<close>
  | Wk_wait      \<comment> \<open>in \<open>pthread_cond_wait\<close>, waiting\<close>
  | Wk_woken     \<comment> \<open>in \<open>pthread_cond_wait\<close>, about to lock the mutex again\<close>
  | Wk_uncount   \<comment> \<open>at \<open>--watcher->sleep\<close>\<close>
  | Wk_unlock
  | Wk_end

datatype timer_pc = Tm_update | Tm_total | Tm_sleep | Tm_signal | Tm_usleep | Tm_exit | Tm_lock | Tm_quit | Tm_broadcast | Tm_unlock | Tm_end

datatype socket_pc = Sk_poll | Sk_sleep | Sk_signal | Sk_end

datatype monitor_pc = Mn_total | Mn_check nat | Mn_pause nat | Mn_end

record watcher =
  wt_count :: nat
  wt_sleep :: int
  wt_quit :: bool
  wt_mutex :: "thread option"
  wt_total :: nat
  wt_exit :: bool
  wpc :: "nat \<Rightarrow> worker_pc"
  tpc :: timer_pc
  spc :: socket_pc
  mpc :: monitor_pc
  wt_joined :: nat

definition start_state :: "nat \<Rightarrow> nat \<Rightarrow> watcher" where
  "start_state n services = \<lparr>wt_count = n, wt_sleep = 0, wt_quit = False, wt_mutex = None, wt_total = services, wt_exit = False, wpc = (\<lambda>_. Wk_loop), tpc = Tm_update,
     spc = Sk_poll, mpc = Mn_total, wt_joined = 0\<rparr>"

definition go :: "nat \<Rightarrow> worker_pc \<Rightarrow> watcher \<Rightarrow> watcher" where
  "go i c S = S\<lparr>wpc := (wpc S)(i := c)\<rparr>"

text \<open>\<open>pthread_cond_broadcast\<close>\<close>

definition wake_all :: "watcher \<Rightarrow> watcher" where
  "wake_all S = S\<lparr>wpc := (\<lambda>i. if wpc S i = Wk_wait then Wk_woken else wpc S i)\<rparr>"

text \<open>\<open>pthread_cond_signal\<close> wakes a waiting thread, when there is one.\<close>

definition signalled :: "watcher \<Rightarrow> watcher \<Rightarrow> bool" where
  "signalled S S' \<longleftrightarrow> S' = S \<and> (\<forall>i<wt_count S. wpc S i \<noteq> Wk_wait) \<or> (\<exists>i<wt_count S. wpc S i = Wk_wait \<and> S' = go i Wk_woken S)"

text \<open>The thread that the main thread joins as number \<open>k\<close> has ended.\<close>

definition ended :: "nat \<Rightarrow> watcher \<Rightarrow> bool" where
  "ended k S \<longleftrightarrow> (if k = 0 then mpc S = Mn_end else if k = 1 then tpc S = Tm_end else if k = 2 then spc S = Sk_end else wpc S (k - 3) = Wk_end)"

section \<open>Steps\<close>

inductive wstep :: "nat \<Rightarrow> watcher \<Rightarrow> watcher \<Rightarrow> bool" where
  w_again: "wpc S i = Wk_loop \<Longrightarrow> \<not> wt_quit S \<Longrightarrow> wstep i S (go i Wk_dispatch S)"
| w_stop: "wpc S i = Wk_loop \<Longrightarrow> wt_quit S \<Longrightarrow> wstep i S (go i Wk_end S)"
| w_busy: "wpc S i = Wk_dispatch \<Longrightarrow> (wt_total S = 0 \<Longrightarrow> n = 0) \<Longrightarrow> wstep i S (go i Wk_loop (S\<lparr>wt_total := n\<rparr>))"
| w_idle: "wpc S i = Wk_dispatch \<Longrightarrow> (wt_total S = 0 \<Longrightarrow> n = 0) \<Longrightarrow> wstep i S (go i Wk_lock (S\<lparr>wt_total := n\<rparr>))"
| w_lock: "wpc S i = Wk_lock \<Longrightarrow> wt_mutex S = None \<Longrightarrow> wstep i S (go i Wk_count (S\<lparr>wt_mutex := Some (Worker i)\<rparr>))"
| w_count: "wpc S i = Wk_count \<Longrightarrow> wstep i S (go i Wk_check (S\<lparr>wt_sleep := wt_sleep S + 1\<rparr>))"
| w_wait: "wpc S i = Wk_check \<Longrightarrow> \<not> wt_quit S \<Longrightarrow> wstep i S (go i Wk_wait (S\<lparr>wt_mutex := None\<rparr>))"
| w_leave: "wpc S i = Wk_check \<Longrightarrow> wt_quit S \<Longrightarrow> wstep i S (go i Wk_loop S)"
| w_wake: "wpc S i = Wk_wait \<Longrightarrow> wstep i S (go i Wk_woken S)"
| w_relock: "wpc S i = Wk_woken \<Longrightarrow> wt_mutex S = None \<Longrightarrow> wstep i S (go i Wk_uncount (S\<lparr>wt_mutex := Some (Worker i)\<rparr>))"
| w_uncount: "wpc S i = Wk_uncount \<Longrightarrow> wstep i S (go i Wk_unlock (S\<lparr>wt_sleep := wt_sleep S - 1\<rparr>))"
| w_unlock: "wpc S i = Wk_unlock \<Longrightarrow> wstep i S (go i Wk_loop (S\<lparr>wt_mutex := None\<rparr>))"

inductive tstep :: "watcher \<Rightarrow> watcher \<Rightarrow> bool" where
  t_update: "tpc S = Tm_update \<Longrightarrow> tstep S (S\<lparr>tpc := Tm_total\<rparr>)"
| t_total: "tpc S = Tm_total \<Longrightarrow> tstep S (S\<lparr>tpc := (if wt_total S = 0 then Tm_exit else Tm_sleep)\<rparr>)"
| t_sleep: "tpc S = Tm_sleep \<Longrightarrow> tstep S (S\<lparr>tpc := (if wt_sleep S \<ge> 1 then Tm_signal else Tm_usleep)\<rparr>)"
| t_signal: "tpc S = Tm_signal \<Longrightarrow> signalled S S' \<Longrightarrow> tstep S (S'\<lparr>tpc := Tm_usleep\<rparr>)"
| t_usleep: "tpc S = Tm_usleep \<Longrightarrow> tstep S (S\<lparr>tpc := Tm_update\<rparr>)"
| t_exit: "tpc S = Tm_exit \<Longrightarrow> tstep S (S\<lparr>tpc := Tm_lock, wt_exit := True\<rparr>)"
| t_lock: "tpc S = Tm_lock \<Longrightarrow> wt_mutex S = None \<Longrightarrow> tstep S (S\<lparr>tpc := Tm_quit, wt_mutex := Some Timer\<rparr>)"
| t_quit: "tpc S = Tm_quit \<Longrightarrow> tstep S (S\<lparr>tpc := Tm_broadcast, wt_quit := True\<rparr>)"
| t_broadcast: "tpc S = Tm_broadcast \<Longrightarrow> tstep S (wake_all (S\<lparr>tpc := Tm_unlock\<rparr>))"
| t_unlock: "tpc S = Tm_unlock \<Longrightarrow> tstep S (S\<lparr>tpc := Tm_end, wt_mutex := None\<rparr>)"

inductive sstep :: "watcher \<Rightarrow> watcher \<Rightarrow> bool" where
  s_message: "spc S = Sk_poll \<Longrightarrow> sstep S (S\<lparr>spc := Sk_sleep\<rparr>)"
| s_exit: "spc S = Sk_poll \<Longrightarrow> wt_exit S \<Longrightarrow> sstep S (S\<lparr>spc := Sk_end\<rparr>)"
| s_sleep: "spc S = Sk_sleep \<Longrightarrow> sstep S (S\<lparr>spc := (if wt_sleep S \<ge> int (wt_count S) then Sk_signal else Sk_poll)\<rparr>)"
| s_signal: "spc S = Sk_signal \<Longrightarrow> signalled S S' \<Longrightarrow> sstep S (S'\<lparr>spc := Sk_poll\<rparr>)"

text \<open>The monitor checks the workers one by one and sleeps five times a second.\<close>

inductive mstep :: "watcher \<Rightarrow> watcher \<Rightarrow> bool" where
  m_total: "mpc S = Mn_total \<Longrightarrow> mstep S (S\<lparr>mpc := (if wt_total S = 0 then Mn_end else Mn_check 0)\<rparr>)"
| m_check: "mpc S = Mn_check k \<Longrightarrow> mstep S (S\<lparr>mpc := (if k < wt_count S then Mn_check (Suc k) else Mn_pause 0)\<rparr>)"
| m_pause: "mpc S = Mn_pause k \<Longrightarrow> mstep S (S\<lparr>mpc := (if k < 5 \<and> wt_total S \<noteq> 0 then Mn_pause (Suc k) else Mn_total)\<rparr>)"

inductive step :: "watcher \<Rightarrow> watcher \<Rightarrow> bool" where
  worker: "i < wt_count S \<Longrightarrow> wstep i S S' \<Longrightarrow> step S S'"
| timer: "tstep S S' \<Longrightarrow> step S S'"
| sockets: "sstep S S' \<Longrightarrow> step S S'"
| monitor: "mstep S S' \<Longrightarrow> step S S'"
| join: "wt_joined S < wt_count S + 3 \<Longrightarrow> ended (wt_joined S) S \<Longrightarrow> step S (S\<lparr>wt_joined := wt_joined S + 1\<rparr>)"

inductive steps :: "watcher \<Rightarrow> watcher \<Rightarrow> bool" where
  no_step: "steps S S"
| more_steps: "steps S S' \<Longrightarrow> step S' S'' \<Longrightarrow> steps S S''"

text \<open>The main thread has joined all the others, so that \<open>_start\<close> returns.\<close>

definition finished :: "watcher \<Rightarrow> bool" where
  "finished S \<longleftrightarrow> wt_joined S = wt_count S + 3"

inductive_cases stepE: "step S S'"
inductive_cases wstepE: "wstep i S S'"
inductive_cases tstepE: "tstep S S'"
inductive_cases sstepE: "sstep S S'"
inductive_cases mstepE: "mstep S S'"

section \<open>The invariant\<close>

definition counted_pcs :: "worker_pc set" where
  "counted_pcs = {Wk_check, Wk_wait, Wk_woken, Wk_uncount}"

definition holding_pcs :: "worker_pc set" where
  "holding_pcs = {Wk_count, Wk_check, Wk_uncount, Wk_unlock}"

text \<open>A worker that has left the loop body with the mutex.\<close>

definition leaked :: "nat \<Rightarrow> watcher \<Rightarrow> bool" where
  "leaked i S \<longleftrightarrow> wt_mutex S = Some (Worker i) \<and> wpc S i \<in> {Wk_loop, Wk_end}"

definition sleepers :: "watcher \<Rightarrow> nat set" where
  "sleepers S = {i. i < wt_count S \<and> (wpc S i \<in> counted_pcs \<or> leaked i S)}"

definition thr_inv :: "watcher \<Rightarrow> bool" where
  "thr_inv S \<longleftrightarrow>
     (\<forall>i<wt_count S. wpc S i \<in> holding_pcs \<longrightarrow> wt_mutex S = Some (Worker i)) \<and>
     (\<forall>i. wt_mutex S = Some (Worker i) \<longrightarrow> i < wt_count S \<and> (wpc S i \<in> holding_pcs \<or> wt_quit S \<and> wpc S i \<in> {Wk_loop, Wk_end})) \<and>
     (wt_mutex S = Some Timer \<longleftrightarrow> tpc S \<in> {Tm_quit, Tm_broadcast, Tm_unlock}) \<and>
     (wt_quit S \<longleftrightarrow> tpc S \<in> {Tm_broadcast, Tm_unlock, Tm_end}) \<and>
     (tpc S \<in> {Tm_unlock, Tm_end} \<longrightarrow> (\<forall>i<wt_count S. wpc S i \<noteq> Wk_wait)) \<and>
     (wt_exit S \<longleftrightarrow> tpc S \<in> {Tm_lock, Tm_quit, Tm_broadcast, Tm_unlock, Tm_end}) \<and>
     (tpc S \<in> {Tm_exit, Tm_lock, Tm_quit, Tm_broadcast, Tm_unlock, Tm_end} \<longrightarrow> wt_total S = 0) \<and>
     wt_sleep S = int (card (sleepers S))"

lemma go_simps [simp]:
  "wpc (go i c S) = (wpc S)(i := c)" "wt_count (go i c S) = wt_count S" "wt_sleep (go i c S) = wt_sleep S" "wt_quit (go i c S) = wt_quit S"
  "wt_mutex (go i c S) = wt_mutex S" "wt_total (go i c S) = wt_total S" "wt_exit (go i c S) = wt_exit S" "tpc (go i c S) = tpc S" "spc (go i c S) = spc S"
  "mpc (go i c S) = mpc S" "wt_joined (go i c S) = wt_joined S"
  by (simp_all add: go_def)

lemma wake_all_simps [simp]:
  "wpc (wake_all S) i = (if wpc S i = Wk_wait then Wk_woken else wpc S i)" "wt_count (wake_all S) = wt_count S" "wt_sleep (wake_all S) = wt_sleep S"
  "wt_quit (wake_all S) = wt_quit S" "wt_mutex (wake_all S) = wt_mutex S" "wt_total (wake_all S) = wt_total S" "wt_exit (wake_all S) = wt_exit S"
  "tpc (wake_all S) = tpc S" "spc (wake_all S) = spc S" "mpc (wake_all S) = mpc S" "wt_joined (wake_all S) = wt_joined S"
  by (simp_all add: wake_all_def)

lemmas pcs = counted_pcs_def holding_pcs_def

lemma finite_sleepers [simp]: "finite (sleepers S)"
  by (simp add: sleepers_def)

lemma thr_invI:
  assumes "\<And>i. i < wt_count S \<Longrightarrow> wpc S i \<in> holding_pcs \<Longrightarrow> wt_mutex S = Some (Worker i)"
    "\<And>i. wt_mutex S = Some (Worker i) \<Longrightarrow> i < wt_count S \<and> (wpc S i \<in> holding_pcs \<or> wt_quit S \<and> wpc S i \<in> {Wk_loop, Wk_end})"
    "wt_mutex S = Some Timer \<longleftrightarrow> tpc S \<in> {Tm_quit, Tm_broadcast, Tm_unlock}"
    "wt_quit S \<longleftrightarrow> tpc S \<in> {Tm_broadcast, Tm_unlock, Tm_end}"
    "\<And>i. tpc S \<in> {Tm_unlock, Tm_end} \<Longrightarrow> i < wt_count S \<Longrightarrow> wpc S i \<noteq> Wk_wait"
    "wt_exit S \<longleftrightarrow> tpc S \<in> {Tm_lock, Tm_quit, Tm_broadcast, Tm_unlock, Tm_end}"
    "tpc S \<in> {Tm_exit, Tm_lock, Tm_quit, Tm_broadcast, Tm_unlock, Tm_end} \<Longrightarrow> wt_total S = 0"
    "wt_sleep S = int (card (sleepers S))"
  shows "thr_inv S"
  using assms unfolding thr_inv_def by blast

lemma thr_invD:
  assumes "thr_inv S"
  shows "\<And>i. i < wt_count S \<Longrightarrow> wpc S i \<in> holding_pcs \<Longrightarrow> wt_mutex S = Some (Worker i)"
    "\<And>i. wt_mutex S = Some (Worker i) \<Longrightarrow> i < wt_count S \<and> (wpc S i \<in> holding_pcs \<or> wt_quit S \<and> wpc S i \<in> {Wk_loop, Wk_end})"
    "wt_mutex S = Some Timer \<longleftrightarrow> tpc S \<in> {Tm_quit, Tm_broadcast, Tm_unlock}"
    "wt_quit S \<longleftrightarrow> tpc S \<in> {Tm_broadcast, Tm_unlock, Tm_end}"
    "\<And>i. tpc S \<in> {Tm_unlock, Tm_end} \<Longrightarrow> i < wt_count S \<Longrightarrow> wpc S i \<noteq> Wk_wait"
    "wt_exit S \<longleftrightarrow> tpc S \<in> {Tm_lock, Tm_quit, Tm_broadcast, Tm_unlock, Tm_end}"
    "tpc S \<in> {Tm_exit, Tm_lock, Tm_quit, Tm_broadcast, Tm_unlock, Tm_end} \<Longrightarrow> wt_total S = 0"
    "wt_sleep S = int (card (sleepers S))"
  using assms unfolding thr_inv_def by blast+

text \<open>The steps of a worker: what they do to the sleepers, then to the rest.\<close>

lemma sleepers_wstep:
  assumes "wstep i S S'" "thr_inv S" "i < wt_count S"
  shows "wt_sleep S' = int (card (sleepers S'))"
proof -
  note d = thr_invD [OF assms(2)]
  have mine: "wt_mutex S = Some (Worker i)" if "wpc S i \<in> holding_pcs" using d(1) assms(3) that by blast
  have same: ?thesis if "sleepers S' = sleepers S" "wt_sleep S' = wt_sleep S" using that d(8) by simp
  show ?thesis using assms(1)
  proof cases
    case w_count
    then have "i \<notin> sleepers S" "sleepers S' = insert i (sleepers S)"
      using assms(3) mine by (auto simp: sleepers_def leaked_def pcs split: if_splits)
    then show ?thesis using w_count(1) d(8) by simp
  next
    case w_uncount
    then have "i \<in> sleepers S" "sleepers S' = sleepers S - {i}"
      using assms(3) mine by (auto simp: sleepers_def leaked_def pcs split: if_splits)
    then show ?thesis using w_uncount(1) d(8) card_Suc_Diff1 [of "sleepers S" i] by simp
  next
    case w_stop
    show ?thesis by (rule same) (use w_stop in \<open>auto simp: sleepers_def leaked_def pcs split: if_splits\<close>)
  next
    case w_again
    have "wt_mutex S \<noteq> Some (Worker i)" using d(2) [of i] w_again by (auto simp: pcs)
    then show ?thesis by (intro same) (use w_again in \<open>auto simp: sleepers_def leaked_def pcs split: if_splits\<close>)
  next
    case (w_busy n)
    have "wt_mutex S \<noteq> Some (Worker i)" using d(2) [of i] w_busy by (auto simp: pcs)
    then show ?thesis by (intro same) (use w_busy in \<open>auto simp: sleepers_def leaked_def pcs split: if_splits\<close>)
  next
    case (w_idle n)
    show ?thesis by (rule same) (use w_idle in \<open>auto simp: sleepers_def leaked_def pcs split: if_splits\<close>)
  next
    case w_lock
    show ?thesis by (rule same) (use w_lock in \<open>auto simp: sleepers_def leaked_def pcs split: if_splits\<close>)
  next
    case w_wait
    then show ?thesis using mine by (intro same) (auto simp: sleepers_def leaked_def pcs split: if_splits)
  next
    case w_leave
    then show ?thesis using mine by (intro same) (auto simp: sleepers_def leaked_def pcs split: if_splits)
  next
    case w_wake
    then show ?thesis by (intro same) (auto simp: sleepers_def leaked_def pcs split: if_splits)
  next
    case w_relock
    then show ?thesis by (intro same) (auto simp: sleepers_def leaked_def pcs split: if_splits)
  next
    case w_unlock
    then show ?thesis using mine by (intro same) (auto simp: sleepers_def leaked_def pcs split: if_splits)
  qed
qed

lemma thr_inv_wstep:
  assumes "wstep i S S'" "thr_inv S" "i < wt_count S"
  shows "thr_inv S'"
proof -
  note d = thr_invD [OF assms(2)]
  have mine: "wt_mutex S = Some (Worker i)" if "wpc S i \<in> holding_pcs" using d(1) assms(3) that by blast
  have tp: "tpc S' = tpc S" "wt_count S' = wt_count S" "wt_quit S' = wt_quit S" "wt_exit S' = wt_exit S" using assms(1) by (cases, simp_all)+
  have total: "wt_total S = 0 \<Longrightarrow> wt_total S' = 0" using assms(1) by cases simp_all
  have holds: "wt_mutex S' = Some (Worker j)" if "j < wt_count S'" "wpc S' j \<in> holding_pcs" for j
    using assms(1) that d(1) [of j] d(1) [OF assms(3)] by cases (auto simp: pcs split: if_splits)
  have owner: "j < wt_count S' \<and> (wpc S' j \<in> holding_pcs \<or> wt_quit S' \<and> wpc S' j \<in> {Wk_loop, Wk_end})" if "wt_mutex S' = Some (Worker j)" for j
    using assms(1) that d(2) [of j] assms(3) by cases (auto simp: pcs split: if_splits)
  have timer: "wt_mutex S' = Some Timer \<longleftrightarrow> wt_mutex S = Some Timer"
    using assms(1) mine by cases (auto simp: pcs)
  have wait: "wpc S' j \<noteq> Wk_wait" if "tpc S \<in> {Tm_unlock, Tm_end}" "j < wt_count S" for j
    using assms(1) that d(4) d(5) [OF that] by cases (auto split: if_splits)
  show ?thesis
    by (rule thr_invI [OF holds owner]) (use tp total timer wait d(3-7) sleepers_wstep [OF assms] in auto)
qed

text \<open>The other threads change the workers only by waking them.\<close>

definition same_workers :: "watcher \<Rightarrow> watcher \<Rightarrow> bool" where
  "same_workers S S' \<longleftrightarrow> wt_count S' = wt_count S \<and> wt_sleep S' = wt_sleep S \<and> (\<forall>i. wpc S' i = wpc S i \<or> wpc S i = Wk_wait \<and> wpc S' i = Wk_woken)"

lemma same_workers_pcs:
  assumes "same_workers S S'"
  shows "wpc S' i \<in> holding_pcs \<longleftrightarrow> wpc S i \<in> holding_pcs" "wpc S' i \<in> {Wk_loop, Wk_end} \<longleftrightarrow> wpc S i \<in> {Wk_loop, Wk_end}"
    "wpc S' i \<in> counted_pcs \<longleftrightarrow> wpc S i \<in> counted_pcs" "wpc S i \<noteq> Wk_wait \<Longrightarrow> wpc S' i \<noteq> Wk_wait" "wt_count S' = wt_count S" "wt_sleep S' = wt_sleep S"
  using assms unfolding same_workers_def pcs by (metis (no_types) insert_iff singletonD worker_pc.distinct)+

lemma same_sleepers:
  assumes "same_workers S S'" "\<And>i. wt_mutex S' = Some (Worker i) \<longleftrightarrow> wt_mutex S = Some (Worker i)"
  shows "sleepers S' = sleepers S"
  unfolding sleepers_def leaked_def assms(2) using same_workers_pcs(2,3,5) [OF assms(1)] by simp

lemma signalled_same: "signalled S S' \<Longrightarrow> same_workers S S' \<and> wt_quit S' = wt_quit S \<and> wt_mutex S' = wt_mutex S \<and> wt_total S' = wt_total S \<and> wt_exit S' = wt_exit S \<and>
    tpc S' = tpc S \<and> spc S' = spc S \<and> mpc S' = mpc S \<and> wt_joined S' = wt_joined S"
  by (auto simp: signalled_def same_workers_def split: if_splits)

lemma thr_inv_tstep:
  assumes "tstep S S'" "thr_inv S"
  shows "thr_inv S'"
proof -
  note d = thr_invD [OF assms(2)]
  have sw: "same_workers S S'" using assms(1)
  proof cases
    case (t_signal S1)
    then show ?thesis using signalled_same [of S S1] by (simp add: same_workers_def)
  qed (simp_all add: same_workers_def)
  note p = same_workers_pcs [OF sw]
  have mutex: "wt_mutex S' = Some (Worker i) \<longleftrightarrow> wt_mutex S = Some (Worker i)" for i
    using assms(1) d(3) by cases (auto dest: signalled_same)
  have quit: "wt_quit S \<Longrightarrow> wt_quit S'" using assms(1) by cases (auto dest: signalled_same)
  have timer: "wt_mutex S' = Some Timer \<longleftrightarrow> tpc S' \<in> {Tm_quit, Tm_broadcast, Tm_unlock}"
    using assms(1) d(3) by cases (auto dest!: signalled_same)
  have timer_quit: "wt_quit S' \<longleftrightarrow> tpc S' \<in> {Tm_broadcast, Tm_unlock, Tm_end}"
    using assms(1) d(4) by cases (auto dest!: signalled_same)
  have timer_exit: "wt_exit S' \<longleftrightarrow> tpc S' \<in> {Tm_lock, Tm_quit, Tm_broadcast, Tm_unlock, Tm_end}"
    using assms(1) d(6) by cases (auto dest!: signalled_same)
  have none_left: "wt_total S' = 0" if "tpc S' \<in> {Tm_exit, Tm_lock, Tm_quit, Tm_broadcast, Tm_unlock, Tm_end}"
    using assms(1) that d(7) by cases (auto dest!: signalled_same split: if_splits)
  have wait: "wpc S' i \<noteq> Wk_wait" if "tpc S' \<in> {Tm_unlock, Tm_end}" "i < wt_count S'" for i
  proof -
    have "wpc S' i \<noteq> Wk_wait \<or> tpc S = Tm_unlock" using assms(1) that(1) by cases (auto split: if_splits)
    then show ?thesis using d(5) [of i] p(4) [of i] p(5) that(2) by auto
  qed
  show ?thesis
  proof (rule thr_invI)
    show "wt_mutex S' = Some (Worker i)" if "i < wt_count S'" "wpc S' i \<in> holding_pcs" for i using d(1) that p(1,5) mutex by simp
    show "i < wt_count S' \<and> (wpc S' i \<in> holding_pcs \<or> wt_quit S' \<and> wpc S' i \<in> {Wk_loop, Wk_end})" if "wt_mutex S' = Some (Worker i)" for i
      using d(2) [OF mutex [THEN iffD1, OF that]] p(1) [of i] p(2) [of i] p(5) quit by auto
    show "wt_sleep S' = int (card (sleepers S'))" using d(8) p(6) same_sleepers [OF sw mutex] by simp
  qed (use timer timer_quit timer_exit none_left wait in blast)+
qed

lemma thr_inv_same:
  assumes "thr_inv S" "same_workers S S'" "wt_mutex S' = wt_mutex S" "wt_quit S' = wt_quit S" "tpc S' = tpc S" "wt_exit S' = wt_exit S" "wt_total S' = wt_total S"
  shows "thr_inv S'"
proof -
  note d = thr_invD [OF assms(1)] and p = same_workers_pcs [OF assms(2)]
  show ?thesis
  proof (rule thr_invI, unfold assms(3-7) p(5))
    show "wt_mutex S = Some (Worker i)" if "i < wt_count S" "wpc S' i \<in> holding_pcs" for i using d(1) that p(1) by blast
    show "i < wt_count S \<and> (wpc S' i \<in> holding_pcs \<or> wt_quit S \<and> wpc S' i \<in> {Wk_loop, Wk_end})" if "wt_mutex S = Some (Worker i)" for i
      using d(2) [OF that] p(1,2) by blast
    show "wpc S' i \<noteq> Wk_wait" if "tpc S \<in> {Tm_unlock, Tm_end}" "i < wt_count S" for i using d(5) [OF that] p(4) by blast
    show "wt_sleep S' = int (card (sleepers S'))" using d(8) p(6) same_sleepers [OF assms(2)] assms(3) by simp
  qed (use d(3,4,6,7) in blast)+
qed

lemma thr_inv_step: "step S S' \<Longrightarrow> thr_inv S \<Longrightarrow> thr_inv S'"
proof (induction rule: step.induct)
  case (worker i S S')
  then show ?case using thr_inv_wstep by blast
next
  case (timer S S')
  then show ?case using thr_inv_tstep by blast
next
  case (sockets S S')
  then show ?case by (elim sstepE) (auto elim!: thr_inv_same dest: signalled_same simp: same_workers_def)
next
  case (monitor S S')
  then show ?case by (elim mstepE) (auto elim!: thr_inv_same simp: same_workers_def)
next
  case (join S)
  then show ?case by (auto elim!: thr_inv_same simp: same_workers_def)
qed

lemma start_state_simps [simp]:
  "wt_count (start_state n k) = n" "wt_sleep (start_state n k) = 0" "wt_quit (start_state n k) = False" "wt_mutex (start_state n k) = None"
  "wt_total (start_state n k) = k" "wt_exit (start_state n k) = False" "wpc (start_state n k) i = Wk_loop" "tpc (start_state n k) = Tm_update"
  "spc (start_state n k) = Sk_poll" "mpc (start_state n k) = Mn_total" "wt_joined (start_state n k) = 0"
  by (simp_all add: start_state_def)

lemma thr_inv_start: "thr_inv (start_state n k)"
  by (simp add: thr_inv_def pcs sleepers_def leaked_def)

lemma steps_inv: "steps S S' \<Longrightarrow> thr_inv S \<Longrightarrow> thr_inv S'"
  by (induction rule: steps.induct) (auto intro: thr_inv_step)

lemma steps_count: "steps S S' \<Longrightarrow> wt_count S' = wt_count S"
proof (induction rule: steps.induct)
  case (more_steps S S' S'')
  have "wt_count S'' = wt_count S'" using more_steps(2)
    by (elim stepE) (auto elim!: wstepE tstepE sstepE mstepE dest: signalled_same simp: same_workers_def)
  then show ?case using more_steps by simp
qed simp

section \<open>Sleeping and waking\<close>

text \<open>
  C20: in every state that the threads can reach, \<open>sleep\<close> is the number of workers that have announced that they go to sleep, so that the timer, which signals when it is at least one,
  signals whenever a worker waits, and the socket thread, which signals when it is at least the number of workers, signals when all of them wait; two workers are never both
  between lock and unlock; and once the timer thread has ended no worker waits.
\<close>

theorem sleep_counts_workers:
  assumes "steps (start_state n k) S"
  shows "wt_sleep S = int (card (sleepers S)) \<and> wt_sleep S \<le> int n \<and> (\<forall>i<n. wpc S i = Wk_wait \<longrightarrow> 1 \<le> wt_sleep S) \<and>
    ((\<forall>i<n. wpc S i = Wk_wait) \<longrightarrow> wt_sleep S = int n) \<and>
    (\<forall>i<n. \<forall>j<n. wpc S i \<in> holding_pcs \<longrightarrow> wpc S j \<in> holding_pcs \<longrightarrow> i = j) \<and>
    (tpc S = Tm_end \<longrightarrow> (\<forall>i<n. wpc S i \<noteq> Wk_wait))"
proof -
  have inv: "thr_inv S" using steps_inv [OF assms thr_inv_start] .
  note d = thr_invD [OF inv]
  have n: "wt_count S = n" using steps_count [OF assms] by simp
  have sub: "sleepers S \<subseteq> {..<n}" using n by (auto simp: sleepers_def)
  have some: "1 \<le> wt_sleep S" if "i < n" "wpc S i = Wk_wait" for i
  proof -
    have "i \<in> sleepers S" using that n by (simp add: sleepers_def pcs)
    then have "0 < card (sleepers S)" using card_gt_0_iff finite_sleepers by blast
    then show ?thesis using d(8) by simp
  qed
  have all: "wt_sleep S = int n" if "\<forall>i<n. wpc S i = Wk_wait"
  proof -
    have "sleepers S = {..<n}" using that n by (auto simp: sleepers_def pcs)
    then show ?thesis using d(8) by simp
  qed
  have one: "i = j" if "i < n" "j < n" "wpc S i \<in> holding_pcs" "wpc S j \<in> holding_pcs" for i j using d(1) [of i] d(1) [of j] that n by simp
  show ?thesis using d(5,8) card_mono [OF _ sub] some all one n by auto
qed

text \<open>A run of two workers to the point where both have found no message and \<open>quit\<close> is set.\<close>

definition both_idle :: watcher where
  "both_idle = (start_state 2 0)\<lparr>wpc := (\<lambda>_. Wk_loop)(0 := Wk_lock, 1 := Wk_lock), tpc := Tm_broadcast, wt_exit := True, wt_mutex := Some Timer, wt_quit := True\<rparr>"

lemma steps_then: "steps S S' \<Longrightarrow> step S' S'' \<Longrightarrow> S'' = T \<Longrightarrow> steps S T"
  using more_steps by blast

lemma to_both_idle: "steps (start_state 2 0) both_idle"
proof -
  let ?a = "(start_state 2 0)\<lparr>wpc := (\<lambda>_. Wk_loop)(0 := Wk_lock, 1 := Wk_lock)\<rparr>"
  have "steps (start_state 2 0) (go 0 Wk_dispatch (start_state 2 0))" by (intro more_steps [OF no_step] worker [of 0] w_again) simp_all
  then have "steps (start_state 2 0) (go 0 Wk_lock (start_state 2 0))"
    by (rule steps_then [OF _ worker [of 0, OF _ w_idle [where n = 0]]]) (simp_all add: go_def start_state_def)
  then have "steps (start_state 2 0) (go 1 Wk_dispatch (go 0 Wk_lock (start_state 2 0)))" by (rule more_steps [OF _ worker [of 1, OF _ w_again]]) simp_all
  then have "steps (start_state 2 0) ?a"
    by (rule steps_then [OF _ worker [of 1, OF _ w_idle [where n = 0]]]) (simp_all add: go_def start_state_def fun_eq_iff)
  then have "steps (start_state 2 0) (?a\<lparr>tpc := Tm_total\<rparr>)" by (rule more_steps [OF _ timer [OF t_update]]) (simp add: start_state_def)
  then have "steps (start_state 2 0) (?a\<lparr>tpc := Tm_exit\<rparr>)" by (rule steps_then [OF _ timer [OF t_total]]) (simp_all add: start_state_def)
  then have "steps (start_state 2 0) (?a\<lparr>tpc := Tm_lock, wt_exit := True\<rparr>)" by (rule steps_then [OF _ timer [OF t_exit]]) (simp_all add: start_state_def)
  then have "steps (start_state 2 0) (?a\<lparr>tpc := Tm_quit, wt_exit := True, wt_mutex := Some Timer\<rparr>)"
    by (rule steps_then [OF _ timer [OF t_lock]]) (simp_all add: start_state_def)
  then show ?thesis by (rule steps_then [OF _ timer [OF t_quit]]) (simp_all add: start_state_def both_idle_def)
qed

theorem sleep_counts_workers_witness: "steps (start_state 2 0) both_idle \<and> wt_sleep both_idle = int (card (sleepers both_idle))"
  using to_both_idle sleep_counts_workers [OF to_both_idle] by blast

section \<open>Ending\<close>

text \<open>
  Two workers that go for the mutex after \<open>quit\<close> was set: the first one leaves its loop with the mutex, and the second never gets it.
\<close>

definition stranded :: "nat \<Rightarrow> watcher \<Rightarrow> bool" where
  "stranded i S \<longleftrightarrow> wpc S i \<in> {Wk_lock, Wk_count, Wk_check} \<or> leaked i S"

lemma stranded_step:
  assumes "step S S'" "thr_inv S" "wt_quit S" "i < wt_count S" "stranded i S"
  shows "stranded i S'" "wt_quit S'"
proof -
  note d = thr_invD [OF assms(2)]
  have other: "stranded i S'" if "same_workers S S'" "wt_mutex S' = Some (Worker i) \<longleftrightarrow> wt_mutex S = Some (Worker i)"
  proof -
    have "wpc S i \<noteq> Wk_wait" using assms(5) by (auto simp: stranded_def leaked_def)
    then have "wpc S' i = wpc S i" using that(1) unfolding same_workers_def by blast
    then show ?thesis using assms(5) that(2) by (simp add: stranded_def leaked_def)
  qed
  have "stranded i S' \<and> wt_quit S'" using assms(1)
  proof cases
    case (worker j)
    have mine: "wt_mutex S = Some (Worker j)" if "wpc S j \<in> holding_pcs" using d(1) worker(1) that by blast
    show ?thesis using worker(2) assms(3,5) mine
      by cases (auto simp: stranded_def leaked_def pcs split: if_splits)
  next
    case timer
    then show ?thesis using assms(3,5) d(3) by cases (auto simp: stranded_def leaked_def d(4) dest!: signalled_same)
  next
    case sockets
    have "same_workers S S' \<and> wt_mutex S' = wt_mutex S \<and> wt_quit S' = wt_quit S"
      using sockets by cases (auto dest!: signalled_same simp: same_workers_def)
    then show ?thesis using other assms(3) by simp
  next
    case monitor
    then show ?thesis using assms(3,5) by cases (auto simp: stranded_def leaked_def)
  next
    case join
    then show ?thesis using assms(3,5) by (auto simp: stranded_def leaked_def)
  qed
  then show "stranded i S'" "wt_quit S'" by simp_all
qed

lemma stranded_steps:
  "steps S S' \<Longrightarrow> thr_inv S \<Longrightarrow> wt_quit S \<Longrightarrow> i < wt_count S \<Longrightarrow> stranded i S \<Longrightarrow> stranded i S'"
proof -
  assume a: "steps S S'" "thr_inv S" "wt_quit S" "i < wt_count S" "stranded i S"
  have "thr_inv S' \<and> wt_quit S' \<and> i < wt_count S' \<and> stranded i S'" using a
  proof (induction rule: steps.induct)
    case (more_steps S S' S'')
    then have m: "thr_inv S'" "wt_quit S'" "i < wt_count S'" "stranded i S'" by auto
    have "wt_count S'' = wt_count S'" using steps_count [OF steps.more_steps [OF no_step more_steps(2)]] .
    then show ?case using stranded_step [OF more_steps(2) m] thr_inv_step [OF more_steps(2) m(1)] m(3) by simp
  qed auto
  then show "stranded i S'" by simp
qed

text \<open>Joined threads have ended.\<close>

lemma ended_stays: "step S S' \<Longrightarrow> k < wt_count S + 3 \<Longrightarrow> ended k S \<Longrightarrow> ended k S'"
proof (induction rule: step.induct)
  case (worker i S S')
  then show ?case by (elim wstepE) (auto simp: ended_def split: if_splits)
next
  case (timer S S')
  then show ?case by (elim tstepE) (auto simp: ended_def signalled_def split: if_splits)
next
  case (sockets S S')
  then show ?case by (elim sstepE) (auto simp: ended_def signalled_def split: if_splits)
next
  case (monitor S S')
  then show ?case by (elim mstepE) (auto simp: ended_def split: if_splits)
next
  case (join S)
  then show ?case by (simp add: ended_def split: if_splits)
qed

lemma joined_ended:
  assumes "steps S S'" "wt_joined S = 0"
  shows "\<forall>k<wt_joined S'. k < wt_count S' + 3 \<and> ended k S'"
  using assms
proof (induction rule: steps.induct)
  case (more_steps S S' S'')
  have c: "wt_count S'' = wt_count S'" using steps_count [OF steps.more_steps [OF no_step more_steps(2)]] .
  have j: "wt_joined S'' = wt_joined S' \<or> wt_joined S'' = Suc (wt_joined S') \<and> wt_joined S' < wt_count S' + 3 \<and> ended (wt_joined S') S'" using more_steps(2)
    by (elim stepE) (auto elim!: wstepE tstepE sstepE mstepE simp: signalled_def)
  show ?case
  proof (intro allI impI)
    fix k assume k: "k < wt_joined S''"
    have "k < wt_count S' + 3 \<and> ended k S'" using k j more_steps(3) [OF more_steps(4)] by (auto simp: less_Suc_eq)
    then show "k < wt_count S'' + 3 \<and> ended k S''" using c ended_stays [OF more_steps(2)] by simp
  qed
qed simp

lemma finished_ended:
  assumes "steps (start_state n k) S" "finished S" "i < n"
  shows "wpc S i = Wk_end"
proof -
  have "wt_count S = n" using steps_count [OF assms(1)] by simp
  then have "i + 3 < wt_joined S" using assms(2,3) by (simp add: finished_def)
  then have "ended (i + 3) S" using joined_ended [OF assms(1)] by simp
  then show ?thesis by (simp add: ended_def)
qed

lemma steps_trans: "steps S' S'' \<Longrightarrow> steps S S' \<Longrightarrow> steps S S''"
  by (induction rule: steps.induct) (auto intro: steps.intros)

text \<open>
  C18: \<open>_worker\<close> does not unlock the mutex when it finds \<open>quit\<close> set under it. So when, after the timer thread has set \<open>quit\<close>, two workers still have to take the mutex, having found
  no message, the process never ends: no further run of the threads lets the main thread join them all.
\<close>

theorem shutdown_deadlock:
  assumes "steps (start_state n k) S" "wt_quit S" "i < n" "j < n" "i \<noteq> j" "wpc S i = Wk_lock" "wpc S j = Wk_lock" "steps S S'"
  shows "\<not> finished S'"
proof
  assume f: "finished S'"
  have r: "steps (start_state n k) S'" using steps_trans [OF assms(8,1)] .
  have n: "wt_count S = n" using steps_count [OF assms(1)] by simp
  have inv: "thr_inv S" using steps_inv [OF assms(1) thr_inv_start] .
  have "stranded i S" "stranded j S" using assms(6,7) by (simp_all add: stranded_def)
  then have "stranded i S'" "stranded j S'" using stranded_steps [OF assms(8) inv assms(2)] assms(3,4) n by simp_all
  then have "leaked i S'" "leaked j S'" using finished_ended [OF r f] assms(3,4) by (simp_all add: stranded_def)
  then show False using assms(5) by (simp add: leaked_def)
qed

theorem shutdown_deadlock_witness:
  "steps (start_state 2 0) both_idle \<and> wpc both_idle 0 = Wk_lock \<and> wpc both_idle 1 = Wk_lock \<and> \<not> finished (wake_all (both_idle\<lparr>tpc := Tm_unlock\<rparr>))"
proof -
  have b: "wt_quit both_idle" "wpc both_idle 0 = Wk_lock" "wpc both_idle 1 = Wk_lock" "tpc both_idle = Tm_broadcast" by (simp_all add: both_idle_def)
  have "steps both_idle (wake_all (both_idle\<lparr>tpc := Tm_unlock\<rparr>))" by (rule more_steps [OF no_step timer [OF t_broadcast [OF b(4)]]])
  then have "\<not> finished (wake_all (both_idle\<lparr>tpc := Tm_unlock\<rparr>))"
    using shutdown_deadlock [OF to_both_idle b(1), of 0 1] b(2,3) by simp
  then show ?thesis using to_both_idle b(2,3) by simp
qed

text \<open>
  Once \<open>quit\<close> is set, a worker that is past the check of the loop may take the mutex and keep it. As long as no other worker needs the mutex then, every thread can end.
\<close>

definition at_risk :: "nat \<Rightarrow> watcher \<Rightarrow> bool" where
  "at_risk i S \<longleftrightarrow> wpc S i \<in> {Wk_dispatch, Wk_lock, Wk_count, Wk_check} \<or> leaked i S"

definition needs_mutex :: "nat \<Rightarrow> watcher \<Rightarrow> bool" where
  "needs_mutex i S \<longleftrightarrow> at_risk i S \<or> wpc S i = Wk_woken"

definition quiet :: "watcher \<Rightarrow> bool" where
  "quiet S \<longleftrightarrow> thr_inv S \<and> tpc S = Tm_end \<and> wt_joined S \<le> wt_count S + 3 \<and>
     (\<forall>i<wt_count S. \<forall>j<wt_count S. i \<noteq> j \<longrightarrow> at_risk i S \<longrightarrow> \<not> needs_mutex j S)"

fun worker_left :: "worker_pc \<Rightarrow> nat" where
  "worker_left Wk_end = 0"
| "worker_left Wk_loop = 1"
| "worker_left Wk_check = 2"
| "worker_left Wk_count = 3"
| "worker_left Wk_lock = 4"
| "worker_left Wk_dispatch = 5"
| "worker_left Wk_unlock = 2"
| "worker_left Wk_uncount = 3"
| "worker_left Wk_woken = 4"
| "worker_left Wk_wait = 5"

fun socket_left :: "socket_pc \<Rightarrow> nat" where
  "socket_left Sk_end = 0"
| "socket_left Sk_poll = 1"
| "socket_left Sk_signal = 2"
| "socket_left Sk_sleep = 3"

fun monitor_left :: "nat \<Rightarrow> monitor_pc \<Rightarrow> nat" where
  "monitor_left n Mn_end = 0"
| "monitor_left n Mn_total = 1"
| "monitor_left n (Mn_pause k) = 2"
| "monitor_left n (Mn_check k) = 3 + (n - k)"

definition steps_left :: "watcher \<Rightarrow> nat" where
  "steps_left S = (\<Sum>i<wt_count S. worker_left (wpc S i)) + socket_left (spc S) + monitor_left (wt_count S) (mpc S) + (wt_count S + 3 - wt_joined S)"

lemma sum_worker_left:
  fixes n :: nat
  assumes "i < n" "worker_left c < worker_left (p i)"
  shows "(\<Sum>j<n. worker_left ((p(i := c)) j)) < (\<Sum>j<n. worker_left (p j))"
  by (rule sum_strict_mono_ex1) (use assms in \<open>auto intro: less_imp_le\<close>)

lemma quiet_wstep:
  assumes "thr_inv S" "tpc S = Tm_end" "i < wt_count S" "wstep i S S'" "j < wt_count S"
  shows "at_risk j S' \<longrightarrow> at_risk j S" "needs_mutex j S' \<longrightarrow> needs_mutex j S"
proof -
  note d = thr_invD [OF assms(1)]
  have quit: "wt_quit S" using d(4) assms(2) by simp
  have nw: "wpc S i \<noteq> Wk_wait" using d(5) assms(2,3) by blast
  have m: "wpc S i \<notin> holding_pcs \<Longrightarrow> wpc S i \<notin> {Wk_loop, Wk_end} \<Longrightarrow> wt_mutex S \<noteq> Some (Worker i)" using d(2) [of i] by blast
  have 1: "at_risk i S' \<longrightarrow> at_risk i S" "needs_mutex i S' \<longrightarrow> needs_mutex i S"
    using assms(4) quit nw m by (cases; auto simp: at_risk_def needs_mutex_def leaked_def pcs)+
  have 2: "wpc S' j = wpc S j" "wt_mutex S' = Some (Worker j) \<longrightarrow> wt_mutex S = Some (Worker j)" if "j \<noteq> i"
    using assms(4) that by (cases; auto)+
  then show "at_risk j S' \<longrightarrow> at_risk j S" "needs_mutex j S' \<longrightarrow> needs_mutex j S"
    using 1 by (cases "j = i"; auto simp: at_risk_def needs_mutex_def leaked_def)+
qed

lemma quiet_signalled: "thr_inv S \<Longrightarrow> tpc S = Tm_end \<Longrightarrow> signalled S S' \<Longrightarrow> S' = S"
  using thr_invD(5) [of S] by (auto simp: signalled_def)

lemma quiet_step:
  assumes "step S S'" "quiet S"
  shows "quiet S'"
proof -
  have q: "thr_inv S" "tpc S = Tm_end" "wt_joined S \<le> wt_count S + 3"
    "\<And>i j. i < wt_count S \<Longrightarrow> j < wt_count S \<Longrightarrow> i \<noteq> j \<Longrightarrow> at_risk i S \<Longrightarrow> \<not> needs_mutex j S" using assms(2) by (auto simp: quiet_def)
  have inv: "thr_inv S'" using thr_inv_step [OF assms(1) q(1)] .
  have keep: "quiet S'" if "wpc S' = wpc S" "wt_count S' = wt_count S" "wt_mutex S' = wt_mutex S" "tpc S' = tpc S" "wt_joined S' \<le> wt_count S + 3"
  proof -
    have "leaked i S' = leaked i S" for i using that(1,3) by (simp add: leaked_def)
    then have r: "at_risk i S' = at_risk i S" "needs_mutex i S' = needs_mutex i S" for i using that(1) by (simp_all add: at_risk_def needs_mutex_def)
    show ?thesis unfolding quiet_def r using that(2,4,5) q inv by simp
  qed
  show ?thesis using assms(1)
  proof cases
    case (worker i)
    have f: "wt_count S' = wt_count S" "tpc S' = tpc S" "wt_joined S' = wt_joined S" using worker(2) by (cases; simp)+
    have "\<not> needs_mutex k S'" if "j < wt_count S" "k < wt_count S" "j \<noteq> k" "at_risk j S'" for j k
      using quiet_wstep(1) [OF q(1,2) worker that(1)] quiet_wstep(2) [OF q(1,2) worker that(2)] q(4) [of j k] that by blast
    then show ?thesis using inv q(2,3) f by (simp add: quiet_def)
  next
    case timer
    then show ?thesis using q(2) by cases simp_all
  next
    case sockets
    then have "wpc S' = wpc S \<and> wt_count S' = wt_count S \<and> wt_mutex S' = wt_mutex S \<and> tpc S' = tpc S \<and> wt_joined S' = wt_joined S"
      using quiet_signalled [OF q(1,2)] by cases (simp_all, blast)
    then show ?thesis using q(3) by (intro keep) simp_all
  next
    case monitor
    then have "wpc S' = wpc S \<and> wt_count S' = wt_count S \<and> wt_mutex S' = wt_mutex S \<and> tpc S' = tpc S \<and> wt_joined S' = wt_joined S" by cases simp_all
    then show ?thesis using q(3) by (intro keep) simp_all
  next
    case join
    then show ?thesis by (intro keep) simp_all
  qed
qed

lemma quiet_worker:
  assumes "i < wt_count S" "wstep i S S'" "worker_left (wpc S' i) < worker_left (wpc S i)"
  shows "\<exists>S'. step S S' \<and> steps_left S' < steps_left S"
proof -
  have f: "wt_count S' = wt_count S" "spc S' = spc S" "mpc S' = mpc S" "wt_joined S' = wt_joined S" "wpc S' = (wpc S)(i := wpc S' i)"
    using assms(2) by (cases, simp_all)+
  have "(\<Sum>j<wt_count S. worker_left (wpc S' j)) < (\<Sum>j<wt_count S. worker_left (wpc S j))"
    using sum_worker_left [of i "wt_count S" "wpc S' i" "wpc S", OF assms(1,3), folded f(5)] .
  then show ?thesis using worker [OF assms(1,2)] f(1-4) by (auto simp: steps_left_def)
qed

lemma quiet_worker_progress:
  assumes "quiet S" "i < wt_count S" "wpc S i \<noteq> Wk_end"
  shows "\<exists>S'. step S S' \<and> steps_left S' < steps_left S"
proof -
  have q: "thr_inv S" "tpc S = Tm_end" "\<And>i j. i < wt_count S \<Longrightarrow> j < wt_count S \<Longrightarrow> i \<noteq> j \<Longrightarrow> at_risk i S \<Longrightarrow> \<not> needs_mutex j S"
    using assms(1) by (auto simp: quiet_def)
  note d = thr_invD [OF q(1)]
  have quit: "wt_quit S" using d(4) q(2) by simp
  show ?thesis
  proof (cases "\<exists>j<wt_count S. wpc S j \<in> holding_pcs")
    case True
    then obtain j where j: "j < wt_count S" "wpc S j \<in> {Wk_count, Wk_check, Wk_uncount, Wk_unlock}" by (auto simp: pcs)
    then consider "wpc S j = Wk_count" | "wpc S j = Wk_check" | "wpc S j = Wk_uncount" | "wpc S j = Wk_unlock" by blast
    then show ?thesis
    proof cases
      case 1
      then show ?thesis by (intro quiet_worker [OF j(1) w_count]) simp_all
    next
      case 2
      then show ?thesis using quit by (intro quiet_worker [OF j(1) w_leave]) simp_all
    next
      case 3
      then show ?thesis by (intro quiet_worker [OF j(1) w_uncount]) simp_all
    next
      case 4
      then show ?thesis by (intro quiet_worker [OF j(1) w_unlock]) simp_all
    qed
  next
    case False
    have free: "wt_mutex S = None" if "needs_mutex i S" "wpc S i \<notin> {Wk_loop, Wk_end}"
    proof (rule ccontr)
      assume "wt_mutex S \<noteq> None"
      moreover have "wt_mutex S \<noteq> Some Timer" using d(3) q(2) by simp
      ultimately obtain j where j: "wt_mutex S = Some (Worker j)" by (metis not_Some_eq thread.exhaust)
      then have "j < wt_count S" "leaked j S" using d(2) [OF j] False by (auto simp: leaked_def)
      then have "j \<noteq> i" "at_risk j S" using that(2) by (auto simp: leaked_def at_risk_def)
      then show False using q(3) [of j i] \<open>j < wt_count S\<close> assms(2) that(1) by blast
    qed
    have "wpc S i \<in> {Wk_loop, Wk_dispatch, Wk_lock, Wk_woken}" using assms(2,3) False d(5) [of i] q(2) by (cases "wpc S i") (auto simp: pcs)
    then consider "wpc S i = Wk_loop" | "wpc S i = Wk_dispatch" | "wpc S i = Wk_lock" | "wpc S i = Wk_woken" by blast
    then show ?thesis
    proof cases
      case 1
      then show ?thesis using quit by (intro quiet_worker [OF assms(2) w_stop]) simp_all
    next
      case 2
      then show ?thesis by (intro quiet_worker [OF assms(2) w_idle [where n = 0]]) simp_all
    next
      case 3
      then show ?thesis using free by (intro quiet_worker [OF assms(2) w_lock]) (simp_all add: needs_mutex_def at_risk_def)
    next
      case 4
      then show ?thesis using free by (intro quiet_worker [OF assms(2) w_relock]) (simp_all add: needs_mutex_def)
    qed
  qed
qed

lemma quiet_progress:
  assumes "quiet S" "\<not> finished S"
  shows "\<exists>S'. step S S' \<and> steps_left S' < steps_left S"
proof (cases "\<forall>i<wt_count S. wpc S i = Wk_end")
  case False
  then show ?thesis using quiet_worker_progress [OF assms(1)] by blast
next
  case all: True
  have q: "thr_inv S" "tpc S = Tm_end" using assms(1) by (auto simp: quiet_def)
  note d = thr_invD [OF q(1)]
  have quit: "wt_exit S" "wt_total S = 0" using d(6,7) q(2) by auto
  have jn: "wt_joined S < wt_count S + 3" using assms by (auto simp: finished_def quiet_def)
  have go: ?thesis if "step S S'" "steps_left S' < steps_left S" for S' using that by blast
  consider (poll) "spc S = Sk_poll" | (sleep) "spc S = Sk_sleep" | (signal) "spc S = Sk_signal" | (total) "mpc S = Mn_total"
    | (check) k where "mpc S = Mn_check k" | (pause) k where "mpc S = Mn_pause k" | (rest) "spc S = Sk_end" "mpc S = Mn_end"
    by (cases "spc S"; cases "mpc S") auto
  then show ?thesis
  proof cases
    case poll
    then show ?thesis using jn by (intro go [OF sockets [OF s_exit [OF _ quit(1)]]]) (simp_all add: steps_left_def)
  next
    case sleep
    then show ?thesis using jn by (intro go [OF sockets [OF s_sleep]]) (auto simp: steps_left_def)
  next
    case signal
    have "signalled S S" using all by (simp add: signalled_def)
    with signal show ?thesis using jn by (intro go [OF sockets [OF s_signal]]) (auto simp: steps_left_def)
  next
    case total
    then show ?thesis using jn quit(2) by (intro go [OF monitor [OF m_total]]) (auto simp: steps_left_def)
  next
    case check
    then show ?thesis using jn by (intro go [OF monitor [OF m_check]]) (auto simp: steps_left_def)
  next
    case pause
    then show ?thesis using jn quit(2) by (intro go [OF monitor [OF m_pause]]) (auto simp: steps_left_def)
  next
    case rest
    have "ended (wt_joined S) S" using rest all jn q(2) by (simp add: ended_def)
    then show ?thesis using jn by (intro go [OF join]) (auto simp: steps_left_def)
  qed
qed

lemma quiet_steps: "steps S S' \<Longrightarrow> quiet S \<Longrightarrow> quiet S'"
  by (induction rule: steps.induct) (auto intro: quiet_step)

lemma quiet_finishes: "quiet S \<Longrightarrow> \<exists>S'. steps S S' \<and> finished S'"
proof (induction "steps_left S" arbitrary: S rule: less_induct)
  case less
  show ?case
  proof (cases "finished S")
    case True
    then show ?thesis using no_step by blast
  next
    case False
    then obtain S1 where s: "step S S1" "steps_left S1 < steps_left S" "quiet S1" using quiet_progress quiet_step less.prems by blast
    then obtain S' where "steps S1 S'" "finished S'" using less.hyps by blast
    then show ?thesis using steps_trans [OF _ more_steps [OF no_step s(1)]] by blast
  qed
qed

text \<open>
  C19: the mutex that \<open>_worker\<close> keeps is all that stands in the way of the end of the process. Take any state in which the timer thread has ended and, whenever a worker may still keep the
  mutex (it is in \<open>pixel_dispatch\<close> or on its way to the check under the mutex, or has left with the mutex: \<open>at_risk\<close>), no other worker needs it any more (\<open>needs_mutex\<close>: at risk too, or
  woken and about to lock the mutex again). Then the threads are never stuck: from every state that any further run leads to, they can go on until the main thread has joined them
  all. Two workers at risk can block each other for ever.
\<close>

theorem clean_shutdown:
  assumes "steps (start_state n k) S" "tpc S = Tm_end" "\<forall>i<n. \<forall>j<n. i \<noteq> j \<longrightarrow> at_risk i S \<longrightarrow> \<not> needs_mutex j S" "steps S S'"
  shows "\<exists>S''. steps S' S'' \<and> finished S''"
proof -
  have n: "wt_count S = n" using steps_count [OF assms(1)] by simp
  have "wt_joined S \<le> wt_count S + 3"
  proof (rule ccontr)
    assume "\<not> ?thesis"
    then show False using joined_ended [OF assms(1)] by (metis less_irrefl linorder_not_le start_state_simps(11))
  qed
  then have "quiet S" using steps_inv [OF assms(1) thr_inv_start] assms(2,3) n by (simp add: quiet_def)
  then show ?thesis using quiet_steps [OF assms(4)] quiet_finishes by blast
qed

definition timer_gone :: watcher where
  "timer_gone = (start_state 2 0)\<lparr>tpc := Tm_end, wt_exit := True, wt_mutex := None, wt_quit := True\<rparr>"

lemma to_timer_gone: "steps (start_state 2 0) timer_gone"
proof -
  let ?S = "start_state 2 0"
  have "steps ?S (?S\<lparr>tpc := Tm_total\<rparr>)" by (rule more_steps [OF no_step timer [OF t_update]]) simp
  then have "steps ?S (?S\<lparr>tpc := Tm_exit\<rparr>)" by (rule steps_then [OF _ timer [OF t_total]]) (simp_all add: start_state_def)
  then have "steps ?S (?S\<lparr>tpc := Tm_lock, wt_exit := True\<rparr>)" by (rule steps_then [OF _ timer [OF t_exit]]) (simp_all add: start_state_def)
  then have "steps ?S (?S\<lparr>tpc := Tm_quit, wt_exit := True, wt_mutex := Some Timer\<rparr>)" by (rule steps_then [OF _ timer [OF t_lock]]) (simp_all add: start_state_def)
  then have "steps ?S (?S\<lparr>tpc := Tm_broadcast, wt_exit := True, wt_mutex := Some Timer, wt_quit := True\<rparr>)"
    by (rule steps_then [OF _ timer [OF t_quit]]) (simp_all add: start_state_def)
  then have "steps ?S (?S\<lparr>tpc := Tm_unlock, wt_exit := True, wt_mutex := Some Timer, wt_quit := True\<rparr>)"
    by (rule steps_then [OF _ timer [OF t_broadcast]]) (simp_all add: start_state_def wake_all_def)
  then show ?thesis by (rule steps_then [OF _ timer [OF t_unlock]]) (simp_all add: start_state_def timer_gone_def)
qed

theorem clean_shutdown_witness: "steps (start_state 2 0) timer_gone \<and> (\<exists>S''. steps timer_gone S'' \<and> finished S'')"
proof -
  have "tpc timer_gone = Tm_end" "\<forall>i<2. \<forall>j<2. i \<noteq> j \<longrightarrow> at_risk i timer_gone \<longrightarrow> \<not> needs_mutex j timer_gone"
    by (simp_all add: timer_gone_def leaked_def at_risk_def)
  then show ?thesis using to_timer_gone clean_shutdown [OF to_timer_gone _ _ no_step] by blast
qed

end
