(* ===== verification/Config.thy ===== *)
theory Config
  imports Pixel
begin

text \<open>
  From the configuration file to the running process: \<open>src/src/main.c\<close> reads the global variables that the file leaves in Lua into the environment and takes the options from there;
  \<open>pixel_start\<close> of \<open>src/src/start.c\<close> initialises the components and launches the first services. Running the file is Lua; its result, the table of globals in the order of
  \<open>lua_next\<close>, is the input.
\<close>

section \<open>The environment from the file\<close>

text \<open>A key is a string or not; a value is a boolean, something that \<open>lua_tostring\<close> turns into a text (a string or a number), or neither. The text goes through C strings.\<close>

datatype cvalue = C_bool bool | C_text string | C_other

datatype config_error = Invalid_key | Invalid_val string

fun init_env :: "(string option \<times> cvalue) list \<Rightarrow> world \<Rightarrow> config_error + world" where
  "init_env [] W = Inr W"
| "init_env ((k, v) # kvs) W =
     (case k of
        None \<Rightarrow> Inl Invalid_key
      | Some key \<Rightarrow>
          (case v of
             C_bool b \<Rightarrow> init_env kvs (env_set (cstr key) (if b then ''true'' else ''false'') W)
           | C_text s \<Rightarrow> init_env kvs (env_set (cstr key) (cstr s) W)
           | C_other \<Rightarrow> Inl (Invalid_val (cstr key))))"

section \<open>Options\<close>

definition optint :: "string \<Rightarrow> int \<Rightarrow> world \<Rightarrow> int \<times> world" where
  "optint key opt W =
     (case env_get key W of
        None \<Rightarrow> (opt, env_set key (sdec opt) W)
      | Some val \<Rightarrow> (sint (word_of_int (strtol 10 val) :: u32), W))"

definition optstring :: "string \<Rightarrow> string option \<Rightarrow> world \<Rightarrow> string option \<times> world" where
  "optstring key opt W =
     (case env_get key W of
        None \<Rightarrow> (case opt of None \<Rightarrow> (None, W) | Some s \<Rightarrow> let W = env_set key s W in (env_get key W, W))
      | Some val \<Rightarrow> (Some val, W))"

record pixel_config =
  c_thread :: int
  c_harbor :: int
  c_module_path :: "string option"
  c_bootstrap :: "string option"
  c_logfile :: "string option"

definition main_config :: "(string option \<times> cvalue) list \<Rightarrow> world \<Rightarrow> config_error + pixel_config \<times> world" where
  "main_config tbl W =
     (case init_env tbl (pixel_init W) of
        Inl e \<Rightarrow> Inl e
      | Inr W \<Rightarrow>
          (let (thread, W) = optint ''thread'' 8 W;
               (harbor, W) = optint ''harbor'' 1 W;
               (path, W) = optstring ''cservice'' (Some ''./?.so'') W;
               (boot, W) = optstring ''bootstrap'' (Some ''lua bootstrap'') W;
               (logfile, W) = optstring ''log'' None W in
           Inr (\<lparr>c_thread = thread, c_harbor = harbor, c_module_path = path, c_bootstrap = boot, c_logfile = logfile\<rparr>, W)))"

section \<open>The first services\<close>

text \<open>\<open>sscanf\<close> with \<open>%s %s\<close>: a word is what stands between white space; a word that is not there leaves the empty string.\<close>

definition scan_word :: "string \<Rightarrow> string \<times> string" where
  "scan_word s = (let s = dropWhile isspace s in (takeWhile (\<lambda>c. \<not> isspace c) s, dropWhile (\<lambda>c. \<not> isspace c) s))"

definition bootstrap :: "hooks \<Rightarrow> string \<Rightarrow> world \<Rightarrow> (int \<times> world) option" where
  "bootstrap K s W = do {
     let (nm, r) = scan_word s;
     let (param, _) = scan_word r;
     (c, W) \<leftarrow> pixel_new K nm (Some param) W;
     if c = 0 then do { W \<leftarrow> pixel_log K 0 (''bootstrap ['' @ s @ ''] failed\<newline>'') W; Some (-1, W) }
     else Some (0, W) }"

text \<open>
  \<open>pixel_start\<close> up to the threads: \<open>Some (True, W)\<close> when they start on the world \<open>W\<close>, \<open>Some (False, W)\<close> when the process ends before. \<open>socket_init\<close>, whose result the
  code does not look at, has a state of its own. A null module path or bootstrap text, which \<open>main\<close> never gives, is \<open>None\<close>.
\<close>

definition pixel_start :: "hooks \<Rightarrow> u64 \<times> u64 \<Rightarrow> u64 \<times> u64 \<Rightarrow> pixel_config \<Rightarrow> world \<Rightarrow> (bool \<times> world) option" where
  "pixel_start K realtime monotonic cfg W = do {
     path \<leftarrow> c_module_path cfg;
     boot \<leftarrow> c_bootstrap cfg;
     let W = W\<lparr>w_t := timer_init realtime monotonic (w_t W), w_q := queue_init (w_q W), w_m := module_init path, w_h := handle_init (c_harbor cfg)\<rparr>;
     let W = harbor_init (c_harbor cfg) W;
     (log, W) \<leftarrow> pixel_new K ''log'' (c_logfile cfg) W;
     if log = 0 then do { W \<leftarrow> pixel_log K 0 ''can not launch log server\<newline>'' W; Some (False, W) }
     else do {
       W \<leftarrow> pixel_setlog log W;
       (r, W) \<leftarrow> bootstrap K boot W;
       if r \<noteq> 0 then do { W \<leftarrow> pixel_dispatchall K log W; Some (False, W) }
       else Some (True, W) } }"

section \<open>What the options are\<close>

text \<open>The value of a variable as the environment holds it; a variable that is bound twice cannot be.\<close>

definition env_text :: "cvalue \<Rightarrow> string" where
  "env_text v = (case v of C_bool b \<Rightarrow> (if b then ''true'' else ''false'') | C_text s \<Rightarrow> cstr s | C_other \<Rightarrow> [])"

definition settings :: "(string option \<times> cvalue) list \<Rightarrow> string \<rightharpoonup> string" where
  "settings tbl = map_of (map (\<lambda>(k, v). (cstr (the k), env_text v)) tbl)"

definition config_ok :: "(string option \<times> cvalue) list \<Rightarrow> bool" where
  "config_ok tbl \<longleftrightarrow> list_all (\<lambda>(k, v). k \<noteq> None \<and> v \<noteq> C_other) tbl \<and> distinct (map (cstr \<circ> the \<circ> fst) tbl)"

lemma settings_Cons: "settings ((k, v) # tbl) = (settings tbl)(cstr (the k) \<mapsto> env_text v)"
  by (simp add: settings_def)

lemma init_env_Cons: "v \<noteq> C_other \<Longrightarrow> init_env ((Some key, v) # tbl) W = init_env tbl (env_set (cstr key) (env_text v) W)"
  by (cases v) (simp_all add: env_text_def)

lemma init_env_ok:
  assumes "config_ok tbl"
  shows "init_env tbl W = Inr (W\<lparr>w_env := w_env W ++ settings tbl\<rparr>)"
  using assms
proof (induction tbl arbitrary: W)
  case (Cons kv tbl)
  obtain k v where kv: "kv = (k, v)" by fastforce
  with Cons.prems obtain key where key: "k = Some key" "v \<noteq> C_other" "config_ok tbl" "cstr key \<notin> set (map (cstr \<circ> the \<circ> fst) tbl)"
    by (auto simp: config_ok_def)
  have "settings tbl (cstr key) = None" using key(4) by (force simp: settings_def map_of_eq_None_iff)
  then have "(m(cstr key \<mapsto> x)) ++ settings tbl = m ++ (settings tbl)(cstr key \<mapsto> x)" for m x by (auto simp: fun_eq_iff map_add_def split: option.splits)
  then show ?case unfolding kv key(1) init_env_Cons [OF key(2)] Cons.IH [OF key(3)] settings_Cons by (simp add: env_set_def del: fun_upd_apply)
qed (simp add: settings_def)

lemma init_env_error:
  assumes "config_ok (pre)" "k = None \<or> v = C_other"
  shows "init_env (pre @ (k, v) # post) W = Inl (case k of None \<Rightarrow> Invalid_key | Some key \<Rightarrow> Invalid_val (cstr key))"
  using assms
proof (induction pre arbitrary: W)
  case Nil
  then show ?case by (auto split: option.splits)
next
  case (Cons kv pre)
  then show ?case by (cases kv) (auto simp: config_ok_def split: cvalue.splits)
qed

lemma optint_eq: "optint key opt W = (case w_env W key of Some s \<Rightarrow> atoi s | None \<Rightarrow> opt, W\<lparr>w_env := [key \<mapsto> sdec opt] ++ w_env W\<rparr>)"
proof (cases "w_env W key")
  case None
  then have "(w_env W)(key \<mapsto> sdec opt) = [key \<mapsto> sdec opt] ++ w_env W" by (auto simp: fun_eq_iff map_add_def split: option.splits)
  then show ?thesis using None by (simp add: optint_def env_get_def env_set_def)
next
  case (Some s)
  then have "[key \<mapsto> sdec opt] ++ w_env W = w_env W" by (auto simp: fun_eq_iff map_add_def split: option.splits)
  then show ?thesis using Some by (simp add: optint_def env_get_def atoi_def)
qed

lemma optstring_eq: "optstring key (Some d) W = (Some (case w_env W key of Some s \<Rightarrow> s | None \<Rightarrow> d), W\<lparr>w_env := [key \<mapsto> d] ++ w_env W\<rparr>)"
proof (cases "w_env W key")
  case None
  then have "(w_env W)(key \<mapsto> d) = [key \<mapsto> d] ++ w_env W" by (auto simp: fun_eq_iff map_add_def split: option.splits)
  then show ?thesis using None by (simp add: optstring_def env_get_def env_set_def Let_def map_add_def)
next
  case (Some s)
  then have "[key \<mapsto> d] ++ w_env W = w_env W" by (auto simp: fun_eq_iff map_add_def split: option.splits)
  then show ?thesis using Some by (simp add: optstring_def env_get_def)
qed

lemma optstring_None: "optstring key None W = (w_env W key, W)"
  by (simp add: optstring_def env_get_def split: option.splits)

text \<open>
  The options that \<open>main\<close> passes on are the values of the configuration file, or the defaults; the defaults of the first four are in the environment afterwards, where the services
  read them, and everything else in the file is there as it was written. A file with a key that is no string or a value with no text stops the process, with nothing started.
\<close>

theorem config_options:
  assumes "config_ok tbl"
  shows "\<exists>cfg W'. main_config tbl W = Inr (cfg, W') \<and>
    c_thread cfg = (case settings tbl ''thread'' of Some s \<Rightarrow> atoi s | None \<Rightarrow> 8) \<and>
    c_harbor cfg = (case settings tbl ''harbor'' of Some s \<Rightarrow> atoi s | None \<Rightarrow> 1) \<and>
    c_module_path cfg = Some (case settings tbl ''cservice'' of Some s \<Rightarrow> s | None \<Rightarrow> ''./?.so'') \<and>
    c_bootstrap cfg = Some (case settings tbl ''bootstrap'' of Some s \<Rightarrow> s | None \<Rightarrow> ''lua bootstrap'') \<and>
    c_logfile cfg = settings tbl ''log'' \<and>
    w_env W' = [''thread'' \<mapsto> ''8'', ''harbor'' \<mapsto> ''1'', ''cservice'' \<mapsto> ''./?.so'', ''bootstrap'' \<mapsto> ''lua bootstrap''] ++ settings tbl"
proof -
  have d: "sdec 8 = ''8''" "sdec 1 = ''1''" by (simp_all add: sdec_def udec.simps digit_def)
  have look: "(e ++ m) j = m j" if "e j = None" for j :: string and e m :: "string \<rightharpoonup> string" by (simp add: map_add_def that split: option.splits)
  have four: "[''bootstrap'' \<mapsto> b] ++ ([''cservice'' \<mapsto> c] ++ ([''harbor'' \<mapsto> h] ++ ([''thread'' \<mapsto> x] ++ m))) =
      [''thread'' \<mapsto> x, ''harbor'' \<mapsto> h, ''cservice'' \<mapsto> c, ''bootstrap'' \<mapsto> b] ++ m" for b c h x :: string and m
    by (simp add: map_add_def fun_eq_iff split: option.splits)
  show ?thesis
    unfolding main_config_def init_env_ok [OF assms] optint_eq optstring_eq optstring_None sum.case Let_def prod.case
    by (simp add: pixel_init_def look d four del: map_add_assoc)
qed

theorem config_refused:
  assumes "config_ok pre" "k = None \<or> v = C_other"
  shows "main_config (pre @ (k, v) # post) W = Inl (case k of None \<Rightarrow> Invalid_key | Some key \<Rightarrow> Invalid_val (cstr key))"
  using init_env_error [OF assms] by (simp add: main_config_def)

text \<open>The bootstrap text names a module and one word for it; what follows is dropped.\<close>

lemma scan_word_eq:
  assumes "w \<noteq> []" "list_all (\<lambda>c. \<not> isspace c) w" "r = [] \<or> isspace (hd r)"
  shows "scan_word (w @ r) = (w, r)"
proof -
  have "dropWhile isspace (w @ r) = w @ r" using assms(1,2) by (cases w) auto
  moreover have "takeWhile (\<lambda>c. \<not> isspace c) r = []" "dropWhile (\<lambda>c. \<not> isspace c) r = r" using assms(3) by (cases r; auto)+
  moreover have "\<forall>c\<in>set w. \<not> isspace c" using assms(2) by (simp add: list_all_iff)
  ultimately show ?thesis by (simp add: scan_word_def Let_def)
qed

lemma scan_word_space: "isspace c \<Longrightarrow> scan_word (c # s) = scan_word s"
  by (simp add: scan_word_def)

theorem bootstrap_words:
  assumes "nm \<noteq> []" "list_all (\<lambda>c. \<not> isspace c) nm" "w \<noteq> []" "list_all (\<lambda>c. \<not> isspace c) w" "r = [] \<or> isspace (hd r)"
    "pixel_new K nm (Some w) W = Some (c, W')" "c \<noteq> 0"
  shows "bootstrap K (nm @ '' '' @ w @ r) W = Some (0, W')"
proof -
  have "isspace CHR '' ''" by (simp add: isspace_def)
  then have "scan_word (nm @ '' '' @ w @ r) = (nm, '' '' @ w @ r)" "scan_word ('' '' @ w @ r) = (w, r)"
    using scan_word_eq [OF assms(1,2), of "'' '' @ w @ r"] scan_word_eq [OF assms(3,4,5)] scan_word_space by simp_all
  then show ?thesis using assms(6,7) by (simp add: bootstrap_def)
qed

text \<open>The threads start only on a world in which the log service and the bootstrap service were launched.\<close>

theorem start_needs_services:
  assumes "pixel_start K rt mt cfg W = Some (True, W')"
  shows "\<exists>path boot lg W1 W2. c_module_path cfg = Some path \<and> c_bootstrap cfg = Some boot \<and> lg \<noteq> 0 \<and>
    pixel_new K ''log'' (c_logfile cfg) (harbor_init (c_harbor cfg) (W\<lparr>w_t := timer_init rt mt (w_t W), w_q := queue_init (w_q W), w_m := module_init path,
      w_h := handle_init (c_harbor cfg)\<rparr>)) = Some (lg, W1) \<and> pixel_setlog lg W1 = Some W2 \<and> bootstrap K boot W2 = Some (0, W')"
  using assms by (auto simp: pixel_start_def Let_def bind_eq_Some_conv split: if_splits)

end
