(* ===== verification/Sharedata.thy ===== *)
theory Sharedata
  imports Serial
begin

text \<open>
  Read-only tables that services share, \<open>src/lualib/lsharedata.c\<close>: a Lua table is converted once into arrays and hash tables in C memory, which every
  service reads without locks. The nested tables are a tree; a slot of a hash table that was never filled is \<open>None\<close>. All strings of a table live on the
  stack of a Lua state of its own and are known by their place there. That the stack has room for them (\<open>luaL_checkstack\<close> in \<open>lnewconf\<close>) is assumed.
\<close>

section \<open>Data\<close>

datatype svalue =
    SV_nil
  | SV_real u64
  | SV_string int
  | SV_boolean bool
  | SV_table stable
  | SV_integer u64
and snode = Node (n_v: svalue) (n_key: int) (n_next: int) (n_keyhash: u32) (n_string: bool) (n_nocolliding: bool)
and stable = Table (t_array: "svalue list") (t_hash: "snode option list")

text \<open>The strings found so far with their places, and \<open>string_index\<close>.\<close>

record sctx =
  c_map :: "(bytes \<times> int) list"
  c_index :: int

text \<open>An error in Lua, or the failed assertion of \<open>fillcolliding\<close>.\<close>

datatype sd_error = Lua_error string | Assert_failed

definition sbind :: "'e + 'a \<Rightarrow> ('a \<Rightarrow> 'e + 'b) \<Rightarrow> 'e + 'b" where
  "sbind m f = (case m of Inl e \<Rightarrow> Inl e | Inr x \<Rightarrow> f x)"

lemma sbind_simps [simp]: "sbind (Inl e) f = Inl e" "sbind (Inr x) f = f x"
  by (simp_all add: sbind_def)

section \<open>Conversion\<close>

text \<open>The number of entries that do not go to the array.\<close>

fun countsize :: "(lvalue \<times> lvalue) list \<Rightarrow> nat \<Rightarrow> sd_error + nat" where
  "countsize [] sizearray = Inr 0"
| "countsize ((k, v) # t) sizearray =
     (case k of
        VInt x \<Rightarrow> sbind (countsize t sizearray) (\<lambda>n. Inr (if 0 < sint x \<and> sint x \<le> int sizearray then n else Suc n))
      | VNum x \<Rightarrow> Inl (Lua_error ''Invalid key'')
      | VStr s \<Rightarrow> sbind (countsize t sizearray) (\<lambda>n. Inr (Suc n))
      | VTab e m \<Rightarrow> sbind (countsize t sizearray) (\<lambda>n. Inr (Suc n))
      | _ \<Rightarrow> Inl (Lua_error ''Invalid key type''))"

function hash_loop :: "bytes \<Rightarrow> nat \<Rightarrow> nat \<Rightarrow> u32 \<Rightarrow> u32" where
  "hash_loop str stp l1 h =
     (if l1 \<ge> stp \<and> stp > 0
      then hash_loop str stp (l1 - stp) (h XOR (push_bit 5 h + drop_bit 2 h + ucast (str ! (l1 - 1))))
      else h)"
  by pat_completeness auto
termination by (relation "measure (\<lambda>(str, stp, l1, h). l1)") auto

definition calchash :: "bytes \<Rightarrow> u32" where
  "calchash str = (let l = length str in hash_loop str (l div 32 + 1) l (of_nat l))"

definition stringindex :: "bytes \<Rightarrow> sctx \<Rightarrow> int \<times> sctx" where
  "stringindex str ctx =
     (case map_of (c_map ctx) str of
        None \<Rightarrow> (c_index ctx + 1, ctx\<lparr>c_index := c_index ctx + 1, c_map := c_map ctx @ [(str, c_index ctx + 1)]\<rparr>)
      | Some i \<Rightarrow> (i, ctx))"

text \<open>\<open>conv\<close> is \<open>convtable\<close> on a nested table.\<close>

definition setvalue :: "((lvalue \<times> lvalue) list \<Rightarrow> sctx \<Rightarrow> sd_error + stable \<times> sctx) \<Rightarrow> lvalue \<Rightarrow> sctx \<Rightarrow> sd_error + svalue \<times> sctx" where
  "setvalue conv v ctx =
     (case v of
        VNil \<Rightarrow> Inr (SV_nil, ctx)
      | VInt x \<Rightarrow> Inr (SV_integer x, ctx)
      | VNum x \<Rightarrow> Inr (SV_real x, ctx)
      | VStr s \<Rightarrow> (let (i, ctx) = stringindex s ctx in Inr (SV_string i, ctx))
      | VBool b \<Rightarrow> Inr (SV_boolean b, ctx)
      | VTab t m \<Rightarrow> sbind (conv t ctx) (\<lambda>(tbl, ctx). Inr (SV_table tbl, ctx))
      | _ \<Rightarrow> Inl (Lua_error ''Unsupport value type''))"

text \<open>
  \<open>ishashkey\<close>: the place in the array, or the key, its hash and its type. A number is cut to an \<open>int\<close>. A table has no string value: \<open>lua_tolstring\<close> gives the
  null pointer and the length 0, which \<open>lua_pushlstring\<close> takes for the empty string.
\<close>

datatype keykind = Array_key int | Hash_key int u32 bool

definition ishashkey :: "lvalue \<Rightarrow> nat \<Rightarrow> sctx \<Rightarrow> keykind \<times> sctx" where
  "ishashkey k sizearray ctx =
     (case k of
        VInt x \<Rightarrow>
          (let key = sint (ucast x :: u32) in
           (if 0 < key \<and> key \<le> int sizearray then Array_key key else Hash_key key (word_of_int key) False, ctx))
      | _ \<Rightarrow>
          (let s = (case k of VStr s \<Rightarrow> s | _ \<Rightarrow> []);
               keyhash = calchash s;
               (key, ctx) = stringindex s ctx in
           (Hash_key key keyhash True, ctx)))"

definition empty_slot :: "snode option \<Rightarrow> bool" where
  "empty_slot s = (case s of None \<Rightarrow> True | Some n \<Rightarrow> n_v n = SV_nil)"

definition mainposition :: "u32 \<Rightarrow> snode option list \<Rightarrow> nat" where
  "mainposition keyhash hash = unat keyhash mod length hash"

fun fillnocolliding ::
  "(lvalue \<Rightarrow> sctx \<Rightarrow> sd_error + svalue \<times> sctx) \<Rightarrow> (lvalue \<times> lvalue) list \<Rightarrow> svalue list \<Rightarrow> snode option list \<Rightarrow> sctx \<Rightarrow>
   sd_error + svalue list \<times> snode option list \<times> sctx" where
  "fillnocolliding setv [] arr hash ctx = Inr (arr, hash, ctx)"
| "fillnocolliding setv ((k, v) # t) arr hash ctx =
     (case ishashkey k (length arr) ctx of
        (Array_key key, ctx) \<Rightarrow>
          sbind (setv v ctx) (\<lambda>(x, ctx). fillnocolliding setv t (arr[nat (key - 1) := x]) hash ctx)
      | (Hash_key key keyhash str, ctx) \<Rightarrow>
          (let i = mainposition keyhash hash in
           if empty_slot (hash ! i)
           then sbind (setv v ctx) (\<lambda>(x, ctx). fillnocolliding setv t arr (hash[i := Some (Node x key (- 1) keyhash str True)]) ctx)
           else fillnocolliding setv t arr hash ctx))"

definition find_empty :: "snode option list \<Rightarrow> nat option" where
  "find_empty hash = find (\<lambda>i. empty_slot (hash ! i)) [0..<length hash]"

text \<open>
  \<open>fillcolliding\<close>. A main position that no entry has filled is compared as it comes from \<open>malloc\<close>: \<open>Inl Assert_failed\<close> stands for this too.
\<close>

fun fillcolliding ::
  "(lvalue \<Rightarrow> sctx \<Rightarrow> sd_error + svalue \<times> sctx) \<Rightarrow> (lvalue \<times> lvalue) list \<Rightarrow> nat \<Rightarrow> snode option list \<Rightarrow> sctx \<Rightarrow>
   sd_error + snode option list \<times> sctx" where
  "fillcolliding setv [] sizearray hash ctx = Inr (hash, ctx)"
| "fillcolliding setv ((k, v) # t) sizearray hash ctx =
     (case ishashkey k sizearray ctx of
        (Array_key key, ctx) \<Rightarrow> fillcolliding setv t sizearray hash ctx
      | (Hash_key key keyhash str, ctx) \<Rightarrow>
          (let m = mainposition keyhash hash in
           case hash ! m of
             None \<Rightarrow> Inl Assert_failed
           | Some mainpos \<Rightarrow>
               if n_string mainpos = str \<and> n_key mainpos = key then fillcolliding setv t sizearray hash ctx
               else
                 (case find_empty hash of
                    None \<Rightarrow> Inl Assert_failed
                  | Some e \<Rightarrow>
                      (let hash1 = hash[m := Some (Node (n_v mainpos) (n_key mainpos) (int e) (n_keyhash mainpos) (n_string mainpos) False)] in
                       sbind (setv v ctx) (\<lambda>(x, ctx).
                         fillcolliding setv t sizearray (hash1[e := Some (Node x key (n_next mainpos) keyhash str False)]) ctx)))))"

text \<open>The array when there is no hash part.\<close>

fun fillarray ::
  "(lvalue \<Rightarrow> sctx \<Rightarrow> sd_error + svalue \<times> sctx) \<Rightarrow> (lvalue \<times> lvalue) list \<Rightarrow> nat list \<Rightarrow> svalue list \<Rightarrow> sctx \<Rightarrow> sd_error + svalue list \<times> sctx" where
  "fillarray setv t [] arr ctx = Inr (arr, ctx)"
| "fillarray setv t (i # is) arr ctx =
     sbind (setv (rawget t (VInt (of_nat i))) ctx) (\<lambda>(x, ctx). fillarray setv t is (arr[i - 1 := x]) ctx)"

text \<open>
  \<open>convtable\<close>; the first argument is the number of nested calls that Lua still allows.
\<close>

fun convtable :: "((lvalue \<times> lvalue) list \<Rightarrow> nat) \<Rightarrow> nat \<Rightarrow> (lvalue \<times> lvalue) list \<Rightarrow> sctx \<Rightarrow> sd_error + stable \<times> sctx" where
  "convtable rawlen 0 t ctx = Inl (Lua_error ''C stack overflow'')"
| "convtable rawlen (Suc k) t ctx =
     (let sizearray = rawlen t;
          arr = replicate sizearray SV_nil;
          setv = setvalue (convtable rawlen k) in
      sbind (countsize t sizearray) (\<lambda>sizehash.
        if sizehash \<noteq> 0
        then
          sbind (fillnocolliding setv t arr (replicate sizehash None) ctx) (\<lambda>(arr, hash, ctx).
          sbind (fillcolliding setv t sizearray hash ctx) (\<lambda>(hash, ctx).
          Inr (Table arr hash, ctx)))
        else
          sbind (fillarray setv t [1..<Suc sizearray] arr ctx) (\<lambda>(arr, ctx). Inr (Table arr [], ctx))))"

text \<open>\<open>convert_stringmap\<close>: the strings at their places on the stack; the first place is the state.\<close>

definition convert_stringmap :: "sctx \<Rightarrow> bytes option list" where
  "convert_stringmap ctx = fold (\<lambda>(s, i) st. st[nat i := Some s]) (c_map ctx) (replicate (nat (c_index ctx) + 1) None)"

definition lnewconf :: "((lvalue \<times> lvalue) list \<Rightarrow> nat) \<Rightarrow> nat \<Rightarrow> (lvalue \<times> lvalue) list \<Rightarrow> sd_error + bytes option list \<times> stable" where
  "lnewconf rawlen depth t =
     sbind (convtable rawlen depth t \<lparr>c_map = [], c_index = 1\<rparr>) (\<lambda>(tbl, ctx). Inr (convert_stringmap ctx, tbl))"

section \<open>Reading\<close>

datatype pushed = P_nil | P_number u64 | P_integer u64 | P_string bytes | P_boolean bool | P_table stable

definition string_at :: "bytes option list \<Rightarrow> int \<Rightarrow> bytes option" where
  "string_at L i = (if 0 \<le> i \<and> nat i < length L then L ! nat i else None)"

definition pushvalue :: "bytes option list \<Rightarrow> svalue \<Rightarrow> pushed option" where
  "pushvalue L v =
     (case v of
        SV_real x \<Rightarrow> Some (P_number x)
      | SV_integer x \<Rightarrow> Some (P_integer x)
      | SV_string i \<Rightarrow> map_option P_string (string_at L i)
      | SV_boolean b \<Rightarrow> Some (P_boolean b)
      | SV_table t \<Rightarrow> Some (P_table t)
      | SV_nil \<Rightarrow> Some P_nil)"

text \<open>What \<open>lookup_key\<close> looks for: a number or a string.\<close>

datatype hkey = K_int int | K_str bytes

fun keyhash_of :: "hkey \<Rightarrow> u32" where
  "keyhash_of (K_int i) = word_of_int i"
| "keyhash_of (K_str s) = calchash s"

definition node_matches :: "bytes option list \<Rightarrow> hkey \<Rightarrow> snode \<Rightarrow> bool option" where
  "node_matches L hk n =
     (if keyhash_of hk \<noteq> n_keyhash n then Some False
      else if \<not> n_string n then Some (hk = K_int (n_key n))
      else
        (case hk of
           K_int i \<Rightarrow> Some False
         | K_str s \<Rightarrow> do { s2 \<leftarrow> string_at L (n_key n); Some (s = s2) }))"

partial_function (option) lookup_loop :: "bytes option list \<Rightarrow> snode option list \<Rightarrow> hkey \<Rightarrow> nat \<Rightarrow> nat option option" where
  "lookup_loop L hash hk i = do {
     n \<leftarrow> hash ! i;
     b \<leftarrow> node_matches L hk n;
     if b then Some (Some i)
     else if n_next n < 0 then Some None
     else if nat (n_next n) < length hash then lookup_loop L hash hk (nat (n_next n)) else None }"

text \<open>\<open>lookup_key\<close>: the slot of the key, when there is one; \<open>None\<close> is a slot that was not filled, or a loop without end.\<close>

definition lookup_key :: "bytes option list \<Rightarrow> snode option list \<Rightarrow> hkey \<Rightarrow> nat option option" where
  "lookup_key L hash hk =
     (if length hash = 0 then Some None
      else do {
        n \<leftarrow> hash ! mainposition (keyhash_of hk) hash;
        if keyhash_of hk \<noteq> n_keyhash n \<and> n_nocolliding n then Some None
        else lookup_loop L hash hk (mainposition (keyhash_of hk) hash) })"

text \<open>The key of a call from Lua; \<open>Inl\<close> is an error.\<close>

definition call_key :: "lvalue \<Rightarrow> string + hkey" where
  "call_key k =
     (case k of
        VInt x \<Rightarrow> Inr (K_int (sint (ucast x :: u32)))
      | VNum x \<Rightarrow> Inl ''Invalid key''
      | VStr s \<Rightarrow> Inr (K_str s)
      | _ \<Rightarrow> Inl ''string expected'')"

definition hash_index :: "bytes option list \<Rightarrow> stable \<Rightarrow> hkey \<Rightarrow> pushed option" where
  "hash_index L tbl hk = do {
     r \<leftarrow> lookup_key L (t_hash tbl) hk;
     case r of
       None \<Rightarrow> Some P_nil
     | Some i \<Rightarrow> do { n \<leftarrow> t_hash tbl ! i; pushvalue L (n_v n) } }"

definition in_array :: "hkey \<Rightarrow> stable \<Rightarrow> nat option" where
  "in_array hk tbl = (case hk of K_int key \<Rightarrow> if 0 < key \<and> key \<le> int (length (t_array tbl)) then Some (nat (key - 1)) else None | K_str s \<Rightarrow> None)"

definition lindexconf :: "bytes option list \<Rightarrow> stable \<Rightarrow> lvalue \<Rightarrow> (string + pushed) option" where
  "lindexconf L tbl k =
     (case call_key k of
        Inl e \<Rightarrow> Some (Inl e)
      | Inr hk \<Rightarrow>
          map_option Inr (case in_array hk tbl of Some i \<Rightarrow> pushvalue L (t_array tbl ! i) | None \<Rightarrow> hash_index L tbl hk))"

text \<open>The iteration: the keys of the array in turn, then those of the hash table.\<close>

definition pushkey :: "bytes option list \<Rightarrow> snode option \<Rightarrow> lvalue option" where
  "pushkey L s = do {
     n \<leftarrow> s;
     if n_string n then map_option VStr (string_at L (n_key n)) else Some (VInt (word_of_int (n_key n))) }"

definition pushfirsthash :: "bytes option list \<Rightarrow> stable \<Rightarrow> lvalue option option" where
  "pushfirsthash L tbl = (if t_hash tbl \<noteq> [] then map_option Some (pushkey L (t_hash tbl ! 0)) else Some None)"

definition next_array :: "bytes option list \<Rightarrow> stable \<Rightarrow> nat \<Rightarrow> lvalue option option" where
  "next_array L tbl i =
     (case find (\<lambda>i. t_array tbl ! i \<noteq> SV_nil) [i..<length (t_array tbl)] of
        Some j \<Rightarrow> Some (Some (VInt (of_nat (j + 1))))
      | None \<Rightarrow> pushfirsthash L tbl)"

definition lnextkey :: "bytes option list \<Rightarrow> stable \<Rightarrow> lvalue \<Rightarrow> (string + lvalue option) option" where
  "lnextkey L tbl k =
     (if k = VNil then map_option Inr (next_array L tbl 0)
      else
        (case call_key k of
           Inl e \<Rightarrow> (case k of VNum x \<Rightarrow> Some (Inr None) | _ \<Rightarrow> Some (Inl e))
         | Inr hk \<Rightarrow>
             map_option Inr
               (case in_array hk tbl of
                  Some i \<Rightarrow> next_array L tbl (i + 1)
                | None \<Rightarrow> do {
                    r \<leftarrow> lookup_key L (t_hash tbl) hk;
                    case r of
                      None \<Rightarrow> Some None
                    | Some i \<Rightarrow> if i + 1 = length (t_hash tbl) then Some None else map_option Some (pushkey L (t_hash tbl ! (i + 1))) })))"

definition llen :: "stable \<Rightarrow> nat" where "llen tbl = length (t_array tbl)"

definition lhashlen :: "stable \<Rightarrow> nat" where "lhashlen tbl = length (t_hash tbl)"

section \<open>Sharing\<close>

text \<open>The tables in use by the address of their root, with \<open>struct state\<close>, and the boxes of the services.\<close>

record sconf =
  cf_L :: "bytes option list"
  cf_root :: stable
  cf_dirty :: int
  cf_ref :: int

record ctrl =
  ct_root :: addr
  ct_update :: addr
  ct_uservalue :: lvalue

type_synonym confs = "addr \<rightharpoonup> sconf"

text \<open>\<open>get_table\<close>: \<open>Some (Inl _)\<close> is the error for the null pointer.\<close>

definition get_table :: "addr \<Rightarrow> confs \<Rightarrow> (string + sconf) option" where
  "get_table a C = (if a = 0 then Some (Inl ''Need a conf object'') else map_option Inr (C a))"

definition with_conf :: "addr \<Rightarrow> confs \<Rightarrow> (sconf \<Rightarrow> ('r \<times> confs) option) \<Rightarrow> ((string + 'r) \<times> confs) option" where
  "with_conf a C f =
     (case get_table a C of
        None \<Rightarrow> None
      | Some (Inl e) \<Rightarrow> Some (Inl e, C)
      | Some (Inr c) \<Rightarrow> map_option (\<lambda>(r, C). (Inr r, C)) (f c))"

definition ldeleteconf :: "addr \<Rightarrow> confs \<Rightarrow> ((string + unit) \<times> confs) option" where
  "ldeleteconf a C = with_conf a C (\<lambda>c. Some ((), C(a := None)))"

definition releaseobj :: "ctrl \<Rightarrow> confs \<Rightarrow> (ctrl \<times> confs) option" where
  "releaseobj c C = do {
     s \<leftarrow> C (ct_root c);
     Some (c\<lparr>ct_root := 0, ct_update := 0\<rparr>, C(ct_root c \<mapsto> s\<lparr>cf_ref := cf_ref s - 1\<rparr>)) }"

definition lboxconf :: "addr \<Rightarrow> confs \<Rightarrow> ((string + ctrl) \<times> confs) option" where
  "lboxconf a C = with_conf a C (\<lambda>s. Some (\<lparr>ct_root = a, ct_update = 0, ct_uservalue = VNil\<rparr>, C(a \<mapsto> s\<lparr>cf_ref := cf_ref s + 1\<rparr>)))"

definition lmarkdirty :: "addr \<Rightarrow> confs \<Rightarrow> ((string + unit) \<times> confs) option" where
  "lmarkdirty a C = with_conf a C (\<lambda>s. Some ((), C(a \<mapsto> s\<lparr>cf_dirty := 1\<rparr>)))"

definition lisdirty :: "addr \<Rightarrow> confs \<Rightarrow> ((string + bool) \<times> confs) option" where
  "lisdirty a C = with_conf a C (\<lambda>s. Some (cf_dirty s \<noteq> 0, C))"

definition lgetref :: "addr \<Rightarrow> confs \<Rightarrow> ((string + int) \<times> confs) option" where
  "lgetref a C = with_conf a C (\<lambda>s. Some (cf_ref s, C))"

definition lincref :: "addr \<Rightarrow> confs \<Rightarrow> ((string + int) \<times> confs) option" where
  "lincref a C = with_conf a C (\<lambda>s. Some (cf_ref s + 1, C(a \<mapsto> s\<lparr>cf_ref := cf_ref s + 1\<rparr>)))"

definition ldecref :: "addr \<Rightarrow> confs \<Rightarrow> ((string + int) \<times> confs) option" where
  "ldecref a C = with_conf a C (\<lambda>s. Some (cf_ref s - 1, C(a \<mapsto> s\<lparr>cf_ref := cf_ref s - 1\<rparr>)))"

definition lneedupdate :: "ctrl \<Rightarrow> (addr \<times> lvalue) option" where
  "lneedupdate c = (if ct_update c \<noteq> 0 then Some (ct_update c, ct_uservalue c) else None)"

definition lupdate :: "ctrl \<Rightarrow> addr \<Rightarrow> lvalue \<Rightarrow> string + ctrl" where
  "lupdate c n v =
     (if ct_root c = n then Inl ''You should update a new object''
      else Inr (c\<lparr>ct_uservalue := v, ct_update := n\<rparr>))"

end
