(* ===== verification/Sharedata_Inv.thy ===== *)
theory Sharedata_Inv
  imports Sharedata
begin

text \<open>
  The shared tables hold what the Lua tables held: the string places, the two passes that fill a hash table with its collision chains, the search along a chain.
\<close>

section \<open>Keys and strings\<close>

definition ctx_ok :: "sctx \<Rightarrow> bool" where
  "ctx_ok c \<longleftrightarrow> distinct (map fst (c_map c)) \<and> map snd (c_map c) = map int [2..<length (c_map c) + 2] \<and> c_index c = int (length (c_map c)) + 1"

definition ctx_le :: "sctx \<Rightarrow> sctx \<Rightarrow> bool" where
  "ctx_le c c' \<longleftrightarrow> set (c_map c) \<subseteq> set (c_map c') \<and> ctx_ok c'"

lemma ctx_le_refl: "ctx_ok c \<Longrightarrow> ctx_le c c"
  by (simp add: ctx_le_def)

lemma ctx_le_trans: "ctx_le a b \<Longrightarrow> ctx_le b c \<Longrightarrow> ctx_le a c"
  by (auto simp: ctx_le_def)

lemma ctx_le_ok: "ctx_le a b \<Longrightarrow> ctx_ok b"
  by (simp add: ctx_le_def)

lemma stringindex_ok:
  assumes "ctx_ok c" "stringindex s c = (i, c')"
  shows "ctx_le c c'" "(s, i) \<in> set (c_map c')"
proof -
  show "ctx_le c c'"
  proof (cases "map_of (c_map c) s")
    case None
    then have "s \<notin> fst ` set (c_map c)" by (simp add: map_of_eq_None_iff)
    then show ?thesis using assms None by (auto simp: stringindex_def ctx_le_def ctx_ok_def)
  next
    case (Some j)
    then show ?thesis using assms by (simp add: stringindex_def ctx_le_def)
  qed
  show "(s, i) \<in> set (c_map c')" using assms(2) by (auto simp: stringindex_def dest: map_of_SomeD split: option.splits)
qed

lemma ctx_places: "ctx_ok c \<Longrightarrow> distinct (map snd (c_map c))"
  by (simp add: ctx_ok_def distinct_map)

lemma ctx_unique:
  assumes "ctx_ok c" "(s, i) \<in> set (c_map c)" "(s', i') \<in> set (c_map c)"
  shows "s = s' \<longleftrightarrow> i = i'"
proof -
  have "inj_on fst (set (c_map c))" using assms(1) by (simp add: ctx_ok_def distinct_map)
  moreover have "inj_on snd (set (c_map c))" using ctx_places [OF assms(1)] unfolding distinct_map by blast
  ultimately show ?thesis using assms(2,3) by (metis inj_onD fst_conv snd_conv prod.inject)
qed

lemma fold_places:
  "distinct (map (nat \<circ> snd) xs) \<Longrightarrow> (s, i) \<in> set xs \<Longrightarrow> nat i < length st \<Longrightarrow> fold (\<lambda>(s, i) st. st[nat i := Some s]) xs st ! nat i = Some s"
proof (induction xs arbitrary: st)
  case (Cons x xs)
  obtain s1 i1 where x: "x = (s1, i1)" by force
  have keep: "fold (\<lambda>(s, i) st. st[nat i := Some s]) ys st' ! j = st' ! j" if "j \<notin> set (map (nat \<circ> snd) ys)" for ys j and st' :: "'a option list"
    using that by (induction ys arbitrary: st') auto
  show ?case
  proof (cases "(s, i) = x")
    case True
    then have "nat i \<notin> set (map (nat \<circ> snd) xs)" using Cons.prems(1) x by auto
    then show ?thesis using keep [of "nat i" xs] True Cons.prems(3) x by simp
  next
    case False
    then show ?thesis using Cons by (simp add: split_def)
  qed
qed simp

lemma stack_at:
  assumes "ctx_ok c" "(s, i) \<in> set (c_map c)"
  shows "string_at (convert_stringmap c) i = Some s"
proof -
  have snd: "map snd (c_map c) = map int [2..<length (c_map c) + 2]" and ci: "c_index c = int (length (c_map c)) + 1" using assms(1) by (auto simp: ctx_ok_def)
  have "map (nat \<circ> snd) (c_map c) = map nat (map snd (c_map c))" by simp
  also have "\<dots> = [2..<length (c_map c) + 2]" unfolding snd by (simp add: comp_def)
  finally have d: "distinct (map (nat \<circ> snd) (c_map c))" by simp
  have "i \<in> set (map snd (c_map c))" using assms(2) by force
  then have i: "2 \<le> i" "i < int (length (c_map c)) + 2" unfolding snd by auto
  have len: "length (fold (\<lambda>(s, i) st. st[nat i := Some s]) xs st) = length st" for xs :: "(bytes \<times> int) list" and st :: "bytes option list"
    by (induction xs arbitrary: st) auto
  have "nat i < length (replicate (nat (c_index c) + 1) (None :: bytes option))" using i ci by simp
  from fold_places [OF d assms(2) this] show ?thesis using i ci by (simp add: string_at_def convert_stringmap_def len)
qed

definition skey_ok :: "lvalue \<Rightarrow> bool" where
  "skey_ok k = (case k of VStr s \<Rightarrow> True | VInt x \<Rightarrow> - (2 ^ 31) \<le> sint x \<and> sint x < 2 ^ 31 | _ \<Rightarrow> False)"

fun hkey_of :: "lvalue \<Rightarrow> hkey" where
  "hkey_of (VInt x) = K_int (sint x)"
| "hkey_of (VStr s) = K_str s"
| "hkey_of _ = K_str []"

lemma sint_cut: "- (2 ^ 31) \<le> sint (x :: u64) \<Longrightarrow> sint x < 2 ^ 31 \<Longrightarrow> sint (ucast x :: u32) = sint x"
proof -
  assume a: "- (2 ^ 31) \<le> sint x" "sint x < 2 ^ 31"
  have "ucast x = (word_of_int (sint x) :: u32)"
    by (rule bit_word_eqI) (simp add: bit_simps)
  then have "sint (ucast x :: u32) = signed_take_bit 31 (sint x)" by (simp only: sint_sbintrunc') simp
  also have "\<dots> = sint x" using a by (intro signed_take_bit_int_eq_self) auto
  finally show ?thesis .
qed

lemma call_key_ok: "skey_ok k \<Longrightarrow> call_key k = Inr (hkey_of k)"
  by (cases k) (auto simp: skey_ok_def call_key_def sint_cut)

lemma hkey_of_inj: "skey_ok k \<Longrightarrow> skey_ok k' \<Longrightarrow> hkey_of k = hkey_of k' \<Longrightarrow> k = k'"
  by (cases k; cases k') (auto simp: skey_ok_def signed_word_eqI)

text \<open>The number and type of a node's key stand for a key.\<close>

definition keyed :: "sctx \<Rightarrow> int \<Rightarrow> bool \<Rightarrow> hkey \<Rightarrow> bool" where
  "keyed c key str hk = (case hk of K_int i \<Rightarrow> \<not> str \<and> key = i | K_str s \<Rightarrow> str \<and> (s, key) \<in> set (c_map c))"

lemma keyed_mono: "ctx_le c c' \<Longrightarrow> keyed c key str hk \<Longrightarrow> keyed c' key str hk"
  by (auto simp: keyed_def ctx_le_def split: hkey.splits)

lemma keyed_unique: "ctx_ok c \<Longrightarrow> keyed c key str hk \<Longrightarrow> keyed c key' str' hk' \<Longrightarrow> hk = hk' \<longleftrightarrow> key = key' \<and> str = str'"
  by (auto simp: keyed_def ctx_unique split: hkey.splits)

definition arr_key :: "nat \<Rightarrow> lvalue \<Rightarrow> bool" where
  "arr_key n k = (case k of VInt x \<Rightarrow> 0 < sint x \<and> sint x \<le> int n | _ \<Rightarrow> False)"

lemma ishashkey_array:
  assumes "skey_ok k" "arr_key n k"
  obtains j where "ishashkey k n c = (Array_key (int j + 1), c)" "j < n" "k = VInt (of_nat (j + 1))"
proof -
  obtain x where x: "k = VInt x" "0 < sint x" "sint x \<le> int n" "- (2 ^ 31) \<le> sint x" "sint x < 2 ^ 31" using assms by (auto simp: arr_key_def skey_ok_def split: lvalue.splits)
  define j where "j = nat (sint x - 1)"
  have j: "sint x = int j + 1" "j < n" using x(2,3) by (auto simp: j_def)
  have "x = of_nat (j + 1)" using arg_cong [OF j(1), of "word_of_int :: int \<Rightarrow> u64"] by (simp add: scast_id)
  moreover have "ishashkey k n c = (Array_key (int j + 1), c)" using x sint_cut [OF x(4,5)] j by (simp add: ishashkey_def Let_def)
  ultimately show thesis using that j(2) x(1) by blast
qed

lemma ishashkey_hash:
  assumes "skey_ok k" "\<not> arr_key n k" "ctx_ok c"
  obtains key str c' where "ishashkey k n c = (Hash_key key (keyhash_of (hkey_of k)) str, c')" "ctx_le c c'" "keyed c' key str (hkey_of k)"
proof (cases k)
  case (VInt x)
  then have "ishashkey k n c = (Hash_key (sint x) (keyhash_of (hkey_of k)) False, c)"
    using assms(1,2) sint_cut [of x] by (auto simp: ishashkey_def Let_def skey_ok_def arr_key_def)
  then show thesis using that [of "sint x" False c] VInt ctx_le_refl [OF assms(3)] by (simp add: keyed_def)
next
  case (VStr s)
  obtain i c' where si: "stringindex s c = (i, c')" by force
  note o = stringindex_ok [OF assms(3) si]
  have "ishashkey k n c = (Hash_key i (keyhash_of (hkey_of k)) True, c')" using VStr si by (simp add: ishashkey_def Let_def)
  then show thesis using that [of i True c'] VStr o by (simp add: keyed_def)
qed (use assms(1) in \<open>simp_all add: skey_ok_def\<close>)

section \<open>What a shared table shows\<close>

text \<open>The keys that \<open>nextkey\<close> gives one after the other.\<close>

fun walk :: "bytes option list \<Rightarrow> stable \<Rightarrow> lvalue \<Rightarrow> lvalue list \<Rightarrow> bool" where
  "walk L tbl k [] \<longleftrightarrow> lnextkey L tbl k = Some (Inr None)"
| "walk L tbl k (x # xs) \<longleftrightarrow> lnextkey L tbl k = Some (Inr (Some x)) \<and> walk L tbl x xs"

text \<open>
  A value read from a shared table is the Lua value, or a shared table that answers every key as the Lua table does and whose iteration meets every key of it once.
\<close>

inductive reads :: "bytes option list \<Rightarrow> lvalue \<Rightarrow> pushed \<Rightarrow> bool" for L where
  reads_nil: "reads L VNil P_nil"
| reads_bool: "reads L (VBool b) (P_boolean b)"
| reads_int: "reads L (VInt x) (P_integer x)"
| reads_num: "reads L (VNum x) (P_number x)"
| reads_str: "reads L (VStr s) (P_string s)"
| reads_tab: "(\<And>k. skey_ok k \<Longrightarrow> \<exists>p. lindexconf L tbl k = Some (Inr p) \<and> reads L (rawget t k) p) \<Longrightarrow>
    walk L tbl VNil ks \<Longrightarrow> distinct ks \<Longrightarrow> set ks = fst ` set t \<Longrightarrow> reads L (VTab t m) (P_table tbl)"

inductive_simps reads_tab_simp: "reads L (VTab t m) p"

definition good :: "sctx \<Rightarrow> lvalue \<Rightarrow> svalue \<Rightarrow> bool" where
  "good c v x \<longleftrightarrow> x \<noteq> SV_nil \<and> (\<forall>c'. ctx_le c c' \<longrightarrow> (\<exists>p. pushvalue (convert_stringmap c') x = Some p \<and> reads (convert_stringmap c') v p))"

lemma good_mono: "ctx_le c c' \<Longrightarrow> good c v x \<Longrightarrow> good c' v x"
  unfolding good_def using ctx_le_trans by blast

text \<open>What the conversion of a value owes the passes.\<close>

definition sets_good :: "(lvalue \<Rightarrow> sctx \<Rightarrow> sd_error + svalue \<times> sctx) \<Rightarrow> lvalue \<Rightarrow> bool" where
  "sets_good setv v \<longleftrightarrow> (\<forall>c. ctx_ok c \<longrightarrow> (\<exists>x c'. setv v c = Inr (x, c') \<and> ctx_le c c' \<and> good c' v x))"

lemma sets_goodD:
  assumes "sets_good setv v" "ctx_ok c"
  obtains x c' where "setv v c = Inr (x, c')" "ctx_le c c'" "good c' v x"
  using assms unfolding sets_good_def by blast

section \<open>The first pass\<close>

definition isnode :: "sctx \<Rightarrow> snode \<Rightarrow> lvalue \<Rightarrow> bool" where
  "isnode c nd k \<longleftrightarrow> keyed c (n_key nd) (n_string nd) (hkey_of k) \<and> n_keyhash nd = keyhash_of (hkey_of k)"

definition main_of :: "nat \<Rightarrow> snode \<Rightarrow> nat" where
  "main_of len nd = unat (n_keyhash nd) mod len"

definition key_main :: "nat \<Rightarrow> lvalue \<Rightarrow> nat" where
  "key_main len k = unat (keyhash_of (hkey_of k)) mod len"

lemma isnode_main: "isnode c nd k \<Longrightarrow> main_of len nd = key_main len k"
  by (simp add: isnode_def main_of_def key_main_def)

lemma isnode_mono: "ctx_le c c' \<Longrightarrow> isnode c nd k \<Longrightarrow> isnode c' nd k"
  using keyed_mono by (auto simp: isnode_def)

lemma isnode_inj: "ctx_ok c \<Longrightarrow> skey_ok k \<Longrightarrow> skey_ok k' \<Longrightarrow> isnode c nd k \<Longrightarrow> isnode c nd k' \<Longrightarrow> k = k'"
  unfolding isnode_def using keyed_unique hkey_of_inj by blast

definition nodeok :: "sctx \<Rightarrow> (lvalue \<times> lvalue) list \<Rightarrow> snode \<Rightarrow> bool" where
  "nodeok c T nd \<longleftrightarrow> (\<exists>k v. (k, v) \<in> set T \<and> isnode c nd k \<and> good c v (n_v nd))"

lemma nodeok_mono: "ctx_le c c' \<Longrightarrow> set T \<subseteq> set T' \<Longrightarrow> nodeok c T nd \<Longrightarrow> nodeok c' T' nd"
  unfolding nodeok_def using isnode_mono good_mono by blast

lemma nodeok_full: "nodeok c T nd \<Longrightarrow> n_v nd \<noteq> SV_nil"
  by (auto simp: nodeok_def good_def)

abbreviation hash_entries :: "nat \<Rightarrow> (lvalue \<times> lvalue) list \<Rightarrow> (lvalue \<times> lvalue) list" where
  "hash_entries n t \<equiv> filter (\<lambda>e. \<not> arr_key n (fst e)) t"

definition array_ok :: "sctx \<Rightarrow> nat \<Rightarrow> (lvalue \<times> lvalue) list \<Rightarrow> svalue list \<Rightarrow> bool" where
  "array_ok c n P arr \<longleftrightarrow> length arr = n \<and>
     (\<forall>j<n. case map_of P (VInt (of_nat (j + 1))) of None \<Rightarrow> arr ! j = SV_nil | Some v \<Rightarrow> good c v (arr ! j))"

definition pass1 :: "sctx \<Rightarrow> (lvalue \<times> lvalue) list \<Rightarrow> snode option list \<Rightarrow> bool" where
  "pass1 c T H \<longleftrightarrow>
     (\<forall>i nd. i < length H \<longrightarrow> H ! i = Some nd \<longrightarrow> nodeok c T nd \<and> main_of (length H) nd = i \<and> n_next nd = - 1) \<and>
     (\<forall>(k, v)\<in>set T. H ! key_main (length H) k \<noteq> None)"

lemma array_ok_mono: "ctx_le c c' \<Longrightarrow> array_ok c n P arr \<Longrightarrow> array_ok c' n P arr"
  unfolding array_ok_def by (auto split: option.splits intro: good_mono)

lemma pass1_mono: "ctx_le c c' \<Longrightarrow> pass1 c T H \<Longrightarrow> pass1 c' T H"
  unfolding pass1_def using nodeok_mono [of c c' T T] by blast

lemma array_ok_store:
  assumes "array_ok c n P arr" "j < n" "good c v x" "VInt (of_nat (j + 1)) \<notin> fst ` set P" "n < 2 ^ 31"
  shows "array_ok c n (P @ [(VInt (of_nat (j + 1)), v)]) (arr[j := x])"
proof -
  have inj: "(of_nat (i + 1) :: u64) = of_nat (j + 1) \<longleftrightarrow> i = j" if "i < n" for i
  proof -
    have "take_bit 64 i = i" "take_bit 64 j = j" using that assms(2,5) by (simp_all add: take_bit_nat_eq_self_iff)
    then show ?thesis by (simp add: word_of_nat_eq_iff)
  qed
  have "map_of (P @ [(VInt (of_nat (j + 1)), v)]) (VInt (of_nat (i + 1))) = (if i = j then Some v else map_of P (VInt (of_nat (i + 1))))" if "i < n" for i
  proof (cases "i = j")
    case True
    then show ?thesis using assms(4) map_of_eq_None_iff [of P "VInt (of_nat (j + 1))"] by (simp add: map_add_def del: of_nat_add of_nat_Suc)
  next
    case False
    then show ?thesis using inj [OF that] by (simp add: map_add_def del: of_nat_add of_nat_Suc split: option.splits)
  qed
  then show ?thesis using assms(1-3) unfolding array_ok_def by (auto split: option.splits simp del: of_nat_add of_nat_Suc)
qed

lemma arr_key_nat: "j < n \<Longrightarrow> n < 2 ^ 31 \<Longrightarrow> arr_key n (VInt (of_nat (j + 1)))"
proof -
  assume a: "j < n" "n < 2 ^ 31"
  have "sint (of_nat (j + 1) :: u64) = sint (word_of_int (int (j + 1)) :: u64)" by simp
  also have "\<dots> = signed_take_bit 63 (int (j + 1))" by (simp only: sint_sbintrunc') simp
  also have "\<dots> = int (j + 1)" using a by (intro signed_take_bit_int_eq_self) auto
  finally show ?thesis using a(1) by (simp add: arr_key_def)
qed

lemma array_ok_skip:
  assumes "array_ok c n P arr" "\<not> arr_key n k" "n < 2 ^ 31"
  shows "array_ok c n (P @ [(k, v)]) arr"
proof -
  have "map_of (P @ [(k, v)]) (VInt (of_nat (j + 1))) = map_of P (VInt (of_nat (j + 1)))" if "j < n" for j
    using arr_key_nat [OF that assms(3)] assms(2) by (auto simp: map_add_def simp del: of_nat_add of_nat_Suc split: option.splits)
  then show ?thesis using assms(1) by (simp add: array_ok_def del: of_nat_add of_nat_Suc)
qed

lemma pass1_store:
  assumes "pass1 c T H" "isnode c nd k" "good c v (n_v nd)" "n_next nd = - 1" "H ! key_main (length H) k = None" "0 < length H"
  shows "pass1 c (T @ [(k, v)]) (H[key_main (length H) k := Some nd])"
proof -
  let ?i = "key_main (length H) k"
  have i: "?i < length H" using assms(6) by (simp add: key_main_def)
  have "nodeok c (T @ [(k, v)]) nd" using assms(2,3) by (auto simp: nodeok_def)
  moreover have "nodeok c (T @ [(k, v)]) nd'" if "nodeok c T nd'" for nd' using that by (auto simp: nodeok_def)
  ultimately show ?thesis using assms i isnode_main [OF assms(2)] unfolding pass1_def by (auto simp: nth_list_update split: if_splits)
qed

lemma pass1_skip:
  assumes "pass1 c T H" "H ! key_main (length H) k \<noteq> None"
  shows "pass1 c (T @ [(k, v)]) H"
proof -
  have "nodeok c (T @ [(k, v)]) nd'" if "nodeok c T nd'" for nd' using that by (auto simp: nodeok_def)
  then show ?thesis using assms unfolding pass1_def by auto
qed

lemma fillnocolliding_ok:
  assumes "\<forall>(k, v)\<in>set t. skey_ok k \<and> sets_good setv v" "distinct (map fst (P @ t))" "array_ok c n P arr" "pass1 c (hash_entries n P) H" "ctx_ok c" "n < 2 ^ 31"
    "hash_entries n t \<noteq> [] \<Longrightarrow> 0 < length H"
  shows "\<exists>arr' H' c'. fillnocolliding setv t arr H c = Inr (arr', H', c') \<and> ctx_le c c' \<and> array_ok c' n (P @ t) arr' \<and>
    pass1 c' (hash_entries n (P @ t)) H' \<and> length H' = length H"
  using assms
proof (induction t arbitrary: P arr H c)
  case Nil
  then show ?case using ctx_le_refl by simp
next
  case (Cons e t)
  obtain k v where e: "e = (k, v)" by force
  have kv: "skey_ok k" "sets_good setv v" using Cons.prems(1) e by auto
  have dist: "distinct (map fst ((P @ [e]) @ t))" "k \<notin> fst ` set P" using Cons.prems(2) e by auto
  have n: "length arr = n" using Cons.prems(3) by (simp add: array_ok_def)
  note IH = Cons.IH [of "P @ [e]", OF _ dist(1) _ _ _ Cons.prems(6)]
  show ?case
  proof (cases "arr_key n k")
    case True
    obtain j where j: "ishashkey k n c = (Array_key (int j + 1), c)" "j < n" "k = VInt (of_nat (j + 1))" using ishashkey_array [OF kv(1) True] by metis
    obtain x c1 where x: "setv v c = Inr (x, c1)" "ctx_le c c1" "good c1 v x" using sets_goodD [OF kv(2) Cons.prems(5)] .
    have a: "array_ok c1 n (P @ [e]) (arr[j := x])" using array_ok_store [OF array_ok_mono [OF x(2) Cons.prems(3)] j(2) x(3) _ Cons.prems(6)] dist(2) j(3) e by simp
    have p: "pass1 c1 (hash_entries n (P @ [e])) H" using pass1_mono [OF x(2) Cons.prems(4)] True e by simp
    have "0 < length H" if "hash_entries n t \<noteq> []" using Cons.prems(7) that True e by simp
    then obtain arr' H' c' where r: "fillnocolliding setv t (arr[j := x]) H c1 = Inr (arr', H', c')" "ctx_le c1 c'" "array_ok c' n ((P @ [e]) @ t) arr'"
      "pass1 c' (hash_entries n ((P @ [e]) @ t)) H'" "length H' = length H" using IH [OF _ a p ctx_le_ok [OF x(2)]] Cons.prems(1) by auto
    have "fillnocolliding setv (e # t) arr H c = Inr (arr', H', c')" using e j(1) n x(1) r(1) by simp
    then show ?thesis using r ctx_le_trans [OF x(2) r(2)] by simp
  next
    case False
    obtain key str c1 where h: "ishashkey k n c = (Hash_key key (keyhash_of (hkey_of k)) str, c1)" "ctx_le c c1" "keyed c1 key str (hkey_of k)"
      using ishashkey_hash [OF kv(1) False Cons.prems(5)] .
    have len: "0 < length H" using Cons.prems(7) False e by simp
    let ?i = "key_main (length H) k"
    have mp: "mainposition (keyhash_of (hkey_of k)) H = ?i" by (simp add: mainposition_def key_main_def)
    have i: "?i < length H" using len by (simp add: key_main_def)
    have "n_v nd \<noteq> SV_nil" if "H ! ?i = Some nd" for nd using Cons.prems(4) i that nodeok_full unfolding pass1_def by blast
    then have emp: "empty_slot (H ! ?i) \<longleftrightarrow> H ! ?i = None" by (cases "H ! ?i") (simp_all add: empty_slot_def)
    show ?thesis
    proof (cases "H ! ?i = None")
      case True
      obtain x c2 where x: "setv v c1 = Inr (x, c2)" "ctx_le c1 c2" "good c2 v x" using sets_goodD [OF kv(2) ctx_le_ok [OF h(2)]] .
      note le = ctx_le_trans [OF h(2) x(2)]
      let ?nd = "Node x key (- 1) (keyhash_of (hkey_of k)) str True"
      have "isnode c2 ?nd k" using keyed_mono [OF x(2) h(3)] by (simp add: isnode_def)
      from pass1_store [OF pass1_mono [OF le Cons.prems(4)] this _ _ True len, of v]
      have p: "pass1 c2 (hash_entries n (P @ [e])) (H[?i := Some ?nd])" using x(3) False e by simp
      have a: "array_ok c2 n (P @ [e]) arr" using array_ok_skip [OF array_ok_mono [OF le Cons.prems(3)] False Cons.prems(6)] e by simp
      obtain arr' H' c' where r: "fillnocolliding setv t arr (H[?i := Some ?nd]) c2 = Inr (arr', H', c')" "ctx_le c2 c'" "array_ok c' n ((P @ [e]) @ t) arr'"
        "pass1 c' (hash_entries n ((P @ [e]) @ t)) H'" "length H' = length H" using IH [OF _ a p ctx_le_ok [OF x(2)]] Cons.prems(1) len by auto
      have "fillnocolliding setv (e # t) arr H c = Inr (arr', H', c')" using e h(1) n x(1) r(1) True mp by (simp add: empty_slot_def)
      then show ?thesis using r ctx_le_trans [OF le r(2)] by simp
    next
      case full: False
      have p: "pass1 c1 (hash_entries n (P @ [e])) H" using pass1_skip [OF pass1_mono [OF h(2) Cons.prems(4)] full, of v] False e by simp
      have a: "array_ok c1 n (P @ [e]) arr" using array_ok_skip [OF array_ok_mono [OF h(2) Cons.prems(3)] False Cons.prems(6)] e by simp
      obtain arr' H' c' where r: "fillnocolliding setv t arr H c1 = Inr (arr', H', c')" "ctx_le c1 c'" "array_ok c' n ((P @ [e]) @ t) arr'"
        "pass1 c' (hash_entries n ((P @ [e]) @ t)) H'" "length H' = length H" using IH [OF _ a p ctx_le_ok [OF h(2)]] Cons.prems(1) len by auto
      have "fillnocolliding setv (e # t) arr H c = Inr (arr', H', c')" using e h(1) n r(1) full mp emp by (auto simp: Let_def)
      then show ?thesis using r ctx_le_trans [OF h(2) r(2)] by simp
    qed
  qed
qed

section \<open>The second pass\<close>

text \<open>The slots on a chain from a slot number on, and the main part of the invariant: the chain of a main position holds all the nodes that belong there.\<close>

fun chain :: "snode option list \<Rightarrow> int \<Rightarrow> nat list \<Rightarrow> bool" where
  "chain H j [] \<longleftrightarrow> j = - 1"
| "chain H j (i # is) \<longleftrightarrow> j = int i \<and> i < length H \<and> (\<exists>nd. H ! i = Some nd \<and> chain H (n_next nd) is)"

lemma chain_cong: "(\<And>i. i \<in> set is \<Longrightarrow> H' ! i = H ! i) \<Longrightarrow> length H' = length H \<Longrightarrow> chain H j is \<Longrightarrow> chain H' j is"
  by (induction "is" arbitrary: j) auto

definition slots_of :: "snode option list \<Rightarrow> nat \<Rightarrow> nat set" where
  "slots_of H m = {i. i < length H \<and> (\<exists>nd. H ! i = Some nd \<and> main_of (length H) nd = m)}"

definition chained :: "snode option list \<Rightarrow> nat \<Rightarrow> bool" where
  "chained H m \<longleftrightarrow> (\<exists>js. chain H (int m) (m # js) \<and> m \<notin> set js \<and> set (m # js) = slots_of H m)"

definition all_nodes :: "(nat \<Rightarrow> snode \<Rightarrow> bool) \<Rightarrow> snode option list \<Rightarrow> bool" where
  "all_nodes P H \<longleftrightarrow> (\<forall>i nd. i < length H \<longrightarrow> H ! i = Some nd \<longrightarrow> P i nd)"

lemma all_nodesD: "all_nodes P H \<Longrightarrow> i < length H \<Longrightarrow> H ! i = Some nd \<Longrightarrow> P i nd"
  by (simp add: all_nodes_def)

lemma all_nodesI: "(\<And>i nd. i < length H \<Longrightarrow> H ! i = Some nd \<Longrightarrow> P i nd) \<Longrightarrow> all_nodes P H"
  by (simp add: all_nodes_def)

definition same_key :: "snode \<Rightarrow> snode \<Rightarrow> bool" where
  "same_key nd nd' \<longleftrightarrow> n_key nd = n_key nd' \<and> n_string nd = n_string nd'"

definition has_node :: "sctx \<Rightarrow> snode option list \<Rightarrow> lvalue \<Rightarrow> bool" where
  "has_node c H k \<longleftrightarrow> (\<exists>i nd. i < length H \<and> H ! i = Some nd \<and> isnode c nd k)"

definition pass2 :: "sctx \<Rightarrow> (lvalue \<times> lvalue) list \<Rightarrow> lvalue set \<Rightarrow> snode option list \<Rightarrow> bool" where
  "pass2 c T Q H \<longleftrightarrow>
     all_nodes (\<lambda>i nd. nodeok c T nd) H \<and>
     all_nodes (\<lambda>i nd. n_nocolliding nd \<longrightarrow> n_next nd = - 1) H \<and>
     all_nodes (\<lambda>i nd. all_nodes (\<lambda>j nd'. same_key nd nd' \<longrightarrow> i = j) H) H \<and>
     (\<forall>k\<in>fst ` set T. chained H (key_main (length H) k)) \<and>
     all_nodes (\<lambda>i nd. main_of (length H) nd \<noteq> i \<longrightarrow> (\<exists>k\<in>Q. isnode c nd k)) H \<and>
     (\<forall>k\<in>Q. has_node c H k)"

lemma pass2D:
  assumes "pass2 c T Q H"
  shows "all_nodes (\<lambda>i nd. nodeok c T nd) H" "all_nodes (\<lambda>i nd. n_nocolliding nd \<longrightarrow> n_next nd = - 1) H"
    "all_nodes (\<lambda>i nd. all_nodes (\<lambda>j nd'. same_key nd nd' \<longrightarrow> i = j) H) H" "\<forall>k\<in>fst ` set T. chained H (key_main (length H) k)"
    "all_nodes (\<lambda>i nd. main_of (length H) nd \<noteq> i \<longrightarrow> (\<exists>k\<in>Q. isnode c nd k)) H" "\<forall>k\<in>Q. has_node c H k"
  using assms by (simp_all add: pass2_def)

lemma pass2_mono:
  assumes "ctx_le c c'" "pass2 c T Q H"
  shows "pass2 c' T Q H"
proof -
  note d = pass2D [OF assms(2)] and m = isnode_mono [OF assms(1)]
  have "all_nodes (\<lambda>i nd. nodeok c' T nd) H" by (rule all_nodesI) (use all_nodesD [OF d(1)] nodeok_mono [OF assms(1) order_refl] in blast)
  moreover have "all_nodes (\<lambda>i nd. main_of (length H) nd \<noteq> i \<longrightarrow> (\<exists>k\<in>Q. isnode c' nd k)) H"
    by (rule all_nodesI) (use all_nodesD [OF d(5)] m in blast)
  moreover have "\<forall>k\<in>Q. has_node c' H k" using d(6) m unfolding has_node_def by blast
  ultimately show ?thesis using d(2,3,4) unfolding pass2_def by (intro conjI)
qed

text \<open>Nodes with the same number and type have the same key, and nodes of different keys differ.\<close>

lemma same_key_iff:
  assumes "ctx_ok c" "isnode c nd k" "isnode c nd' k'" "skey_ok k" "skey_ok k'"
  shows "same_key nd nd' \<longleftrightarrow> k = k'"
  using assms hkey_of_inj keyed_unique [OF assms(1)] unfolding isnode_def same_key_def by metis

text \<open>After the first pass every chain is a single node.\<close>

lemma pass1_pass2:
  assumes "pass1 c T H" "ctx_ok c" "\<And>k. k \<in> fst ` set T \<Longrightarrow> skey_ok k" "T \<noteq> [] \<Longrightarrow> 0 < length H"
  shows "pass2 c T {} H"
proof -
  have d: "nodeok c T nd" "main_of (length H) nd = i" "n_next nd = - 1" if "i < length H" "H ! i = Some nd" for i nd
    using assms(1) that unfolding pass1_def by blast+
  have "all_nodes (\<lambda>i nd. all_nodes (\<lambda>j nd'. same_key nd nd' \<longrightarrow> i = j) H) H"
  proof (intro all_nodesI impI)
    fix i nd j nd' assume a: "i < length H" "H ! i = Some nd" "j < length H" "H ! j = Some nd'" "same_key nd nd'"
    obtain k v k' v' where k: "(k, v) \<in> set T" "(k', v') \<in> set T" "isnode c nd k" "isnode c nd' k'" using d(1) [OF a(1,2)] d(1) [OF a(3,4)] unfolding nodeok_def by blast
    then have "k = k'" using same_key_iff [OF assms(2) k(3,4)] assms(3) a(5) by force
    then show "i = j" using d(2) [OF a(1,2)] d(2) [OF a(3,4)] isnode_main [OF k(3)] isnode_main [OF k(4)] by metis
  qed
  moreover have "chained H (key_main (length H) k)" if "k \<in> fst ` set T" for k
  proof -
    let ?m = "key_main (length H) k"
    have m: "?m < length H" using assms(4) that by (cases T) (auto simp: key_main_def)
    have "H ! ?m \<noteq> None" using assms(1) that unfolding pass1_def by auto
    then obtain nd where nd: "H ! ?m = Some nd" by blast
    have "i = ?m" if "i \<in> slots_of H ?m" for i using that d(2) unfolding slots_of_def by blast
    moreover have "?m \<in> slots_of H ?m" using m nd d(2) [OF m nd] by (simp add: slots_of_def)
    ultimately have "slots_of H ?m = {?m}" by blast
    then show ?thesis using m nd d(3) [OF m nd] unfolding chained_def by (intro exI [of _ "[]"]) simp
  qed
  ultimately show ?thesis using d unfolding pass2_def by (auto intro!: all_nodesI)
qed

text \<open>A colliding node goes to an empty slot, which becomes the second of its chain.\<close>

definition link :: "nat \<Rightarrow> snode \<Rightarrow> snode" where
  "link e mp = Node (n_v mp) (n_key mp) (int e) (n_keyhash mp) (n_string mp) False"

lemma link_simps [simp]:
  "isnode c (link e mp) k = isnode c mp k" "main_of l (link e mp) = main_of l mp" "same_key (link e mp) nd = same_key mp nd" "same_key nd (link e mp) = same_key nd mp"
  "nodeok c T (link e mp) = nodeok c T mp" "n_next (link e mp) = int e" "n_nocolliding (link e mp) = False" "n_key (link e mp) = n_key mp" "n_string (link e mp) = n_string mp"
  by (simp_all add: link_def isnode_def main_of_def same_key_def nodeok_def)

definition insert_at :: "nat \<Rightarrow> snode \<Rightarrow> nat \<Rightarrow> snode \<Rightarrow> snode option list \<Rightarrow> snode option list" where
  "insert_at m mp e nd H = H[m := Some (link e mp), e := Some nd]"

lemma insert_at_nth:
  assumes "m < length H" "e < length H" "H ! m = Some mp" "H ! e = None" "i < length H"
  shows "insert_at m mp e nd H ! i = (if i = e then Some nd else if i = m then Some (link e mp) else H ! i)" "m \<noteq> e"
  using assms by (auto simp: insert_at_def nth_list_update)

lemma length_insert_at [simp]: "length (insert_at m mp e nd H) = length H"
  by (simp add: insert_at_def)

lemma slots_insert_at:
  assumes "m < length H" "e < length H" "H ! m = Some mp" "H ! e = None"
  shows "slots_of (insert_at m mp e nd H) m' = (if main_of (length H) nd = m' then insert e (slots_of H m') else slots_of H m')"
  using insert_at_nth [OF assms] assms by (auto simp: slots_of_def split: if_splits)

lemma chained_insert_at:
  assumes "m < length H" "e < length H" "H ! m = Some mp" "H ! e = None" "chained H m" "n_next nd = n_next mp" "main_of (length H) nd = m" "chained H m'"
  shows "chained (insert_at m mp e nd H) m'"
proof -
  note nth = insert_at_nth(1) [OF assms(1-4)]
  have me: "m \<noteq> e" using assms(3,4) by auto
  have m: "m \<in> slots_of H m" using assms(5) unfolding chained_def by auto
  have keep: "chain (insert_at m mp e nd H) j js" if "chain H j js" "set js \<subseteq> slots_of H m''" "m \<notin> set js" for j js m''
  proof (rule chain_cong [OF _ _ that(1)])
    fix i assume i: "i \<in> set js"
    then have "i \<in> slots_of H m''" "i \<noteq> m" using that(2,3) by auto
    then have "i < length H" "i \<noteq> e" using assms(4) by (auto simp: slots_of_def)
    then show "insert_at m mp e nd H ! i = H ! i" using nth \<open>i \<noteq> m\<close> by simp
  qed simp
  show ?thesis
  proof (cases "m' = m")
    case True
    obtain js where js: "chain H (int m) (m # js)" "m \<notin> set js" "set (m # js) = slots_of H m" using assms(5) unfolding chained_def by blast
    have "chain H (n_next mp) js" "set js \<subseteq> slots_of H m" using js(1,3) assms(3) by auto
    then have "chain (insert_at m mp e nd H) (n_next mp) js" using keep js(2) by blast
    moreover have "e \<notin> slots_of H m" using assms(4) by (simp add: slots_of_def)
    moreover have "e \<notin> set js" using calculation(2) js(3) by auto
    ultimately have "chain (insert_at m mp e nd H) (int m) (m # e # js)" using assms(1,2,6) nth [OF assms(1)] nth [OF assms(2)] me by simp
    then show ?thesis using True js me slots_insert_at [OF assms(1-4), of nd m'] assms(7) unfolding chained_def by (intro exI [of _ "e # js"]) auto
  next
    case False
    obtain js where js: "chain H (int m') (m' # js)" "m' \<notin> set js" "set (m' # js) = slots_of H m'" using assms(8) unfolding chained_def by blast
    have "m \<notin> slots_of H m'" using m False by (auto simp: slots_of_def)
    then have "m \<notin> set (m' # js)" using js(3) by blast
    then have "chain (insert_at m mp e nd H) (int m') (m' # js)" using keep [OF js(1)] js(3) by blast
    then show ?thesis using js False slots_insert_at [OF assms(1-4), of nd m'] assms(7) unfolding chained_def by metis
  qed
qed

lemma pass2_insert:
  assumes "pass2 c T Q H" "ctx_ok c" "\<forall>k\<in>fst ` set T. skey_ok k" "(k, v) \<in> set T" "m = key_main (length H) k" "m < length H" "H ! m = Some mp"
    "e < length H" "H ! e = None" "isnode c nd k" "good c v (n_v nd)" "n_next nd = n_next mp" "\<not> n_nocolliding nd" "\<not> has_node c H k"
  shows "pass2 c T (insert k Q) (insert_at m mp e nd H)"
proof -
  let ?H = "insert_at m mp e nd H"
  note d = pass2D [OF assms(1)] and nth = insert_at_nth [OF assms(6,8,7,9)]
  have nodes: "all_nodes P ?H" if "P e nd" "P m (link e mp)" "\<And>i n. i < length H \<Longrightarrow> i \<noteq> e \<Longrightarrow> i \<noteq> m \<Longrightarrow> H ! i = Some n \<Longrightarrow> P i n" for P
    by (rule all_nodesI) (use that nth in \<open>auto split: if_splits\<close>)
  have km: "main_of (length H) nd = m" using isnode_main [OF assms(10)] assms(5) by simp
  have kT: "k \<in> fst ` set T" using assms(4) by force
  have other: "\<not> same_key nd n \<and> \<not> same_key n nd" if i: "i < length H" "H ! i = Some n" for i n
  proof -
    obtain k1 v1 where k1: "(k1, v1) \<in> set T" "isnode c n k1" using all_nodesD [OF d(1) i] unfolding nodeok_def by blast
    then have "k1 \<noteq> k" using assms(14) i unfolding has_node_def by blast
    moreover have "skey_ok k1" "skey_ok k" using assms(3) k1(1) kT by force+
    ultimately show ?thesis using same_key_iff [OF assms(2) assms(10) k1(2)] same_key_iff [OF assms(2) k1(2) assms(10)] by blast
  qed
  have "nodeok c T nd" using assms(4,10,11) unfolding nodeok_def by blast
  then have "all_nodes (\<lambda>i nd. nodeok c T nd) ?H" by (rule nodes) (use all_nodesD [OF d(1)] assms(6,7) in \<open>simp_all\<close>)
  moreover have "all_nodes (\<lambda>i nd. n_nocolliding nd \<longrightarrow> n_next nd = - 1) ?H"
    by (rule nodes) (use all_nodesD [OF d(2)] assms(13) in auto)
  moreover have "all_nodes (\<lambda>i nd. all_nodes (\<lambda>j nd'. same_key nd nd' \<longrightarrow> i = j) ?H) ?H"
  proof -
    have old: "same_key n n' \<longrightarrow> i = j" if "i < length H" "H ! i = Some n" "j < length H" "H ! j = Some n'" for i j n n'
      using all_nodesD [OF all_nodesD [OF d(3) that(1,2)] that(3,4)] .
    have mp: "\<not> same_key n mp \<and> \<not> same_key mp n" if "i < length H" "i \<noteq> m" "H ! i = Some n" for i n
      using old [OF that(1,3) assms(6,7)] old [OF assms(6,7) that(1,3)] that(2) by blast
    show ?thesis by (intro nodes) (use other old mp assms(6,7) in \<open>simp_all\<close>)
  qed
  moreover have "chained ?H (key_main (length ?H) k')" if "k' \<in> fst ` set T" for k'
    using chained_insert_at [OF assms(6,8,7,9) _ assms(12) km, of "key_main (length H) k'"] d(4) kT that assms(5) by simp
  moreover have "all_nodes (\<lambda>i nd. main_of (length ?H) nd \<noteq> i \<longrightarrow> (\<exists>k\<in>insert k Q. isnode c nd k)) ?H"
    by (rule nodes) (use all_nodesD [OF d(5)] assms(6,7,10) in auto)
  moreover have "has_node c ?H k'" if "k' \<in> insert k Q" for k'
  proof (cases "k' = k")
    case True
    then show ?thesis using assms(8,10) nth(1) [OF assms(8)] unfolding has_node_def by (intro exI [of _ e]) simp
  next
    case False
    then have "has_node c H k'" using d(6) that by simp
    then obtain i n where i: "i < length H" "H ! i = Some n" "isnode c n k'" unfolding has_node_def by blast
    then have "i \<noteq> e" using assms(9) by auto
    then show ?thesis using i nth(1) [OF i(1)] assms(7) unfolding has_node_def by (intro exI [of _ i]) auto
  qed
  ultimately show ?thesis unfolding pass2_def by (intro conjI ballI) assumption+
qed

text \<open>As many slots as keys: all slots are filled exactly when all keys have a node.\<close>

lemma node_key_in:
  assumes "pass2 c T Q H" "i < length H" "H ! i = Some nd"
  obtains k where "k \<in> fst ` set T" "isnode c nd k"
proof -
  obtain k v where "(k, v) \<in> set T" "isnode c nd k" using all_nodesD [OF pass2D(1) [OF assms(1)] assms(2,3)] unfolding nodeok_def by blast
  then show thesis using that by force
qed

lemma one_slot:
  assumes "pass2 c T Q H" "ctx_ok c" "\<forall>k\<in>fst ` set T. skey_ok k" "k \<in> fst ` set T" "i < length H" "H ! i = Some nd" "isnode c nd k" "j < length H" "H ! j = Some nd'" "isnode c nd' k"
  shows "i = j"
proof -
  have "same_key nd nd'" using same_key_iff [OF assms(2,7,10)] assms(3,4) by blast
  then show ?thesis using all_nodesD [OF all_nodesD [OF pass2D(3) [OF assms(1)] assms(5,6)] assms(8,9)] by blast
qed

lemma filled_iff:
  assumes "pass2 c T Q H" "ctx_ok c" "\<forall>k\<in>fst ` set T. skey_ok k" "card (fst ` set T) = length H"
  shows "(\<forall>i<length H. H ! i \<noteq> None) \<longleftrightarrow> (\<forall>k\<in>fst ` set T. has_node c H k)"
proof
  assume full: "\<forall>i<length H. H ! i \<noteq> None"
  define f where "f i = (SOME k. k \<in> fst ` set T \<and> isnode c (the (H ! i)) k)" for i
  have f: "f i \<in> fst ` set T \<and> isnode c (the (H ! i)) (f i)" if i: "i < length H" for i
  proof -
    obtain nd where nd: "H ! i = Some nd" using full i by blast
    obtain k where "k \<in> fst ` set T" "isnode c nd k" using node_key_in [OF assms(1) _ nd] \<open>i < length H\<close> by metis
    then show ?thesis unfolding f_def nd option.sel by (intro someI [of "\<lambda>k. k \<in> fst ` set T \<and> isnode c nd k" k]) simp
  qed
  have "inj_on f {..<length H}"
  proof (rule inj_onI)
    fix i j assume a: "i \<in> {..<length H}" "j \<in> {..<length H}" "f i = f j"
    obtain nd nd' where "H ! i = Some nd" "H ! j = Some nd'" using full a(1,2) by blast
    then show "i = j" using one_slot [OF assms(1-3), of "f i" i nd j nd'] f [of i] f [of j] a by simp
  qed
  then have "card (f ` {..<length H}) = card (fst ` set T)" using card_image assms(4) by fastforce
  moreover have "f ` {..<length H} \<subseteq> fst ` set T" using f by blast
  ultimately have im: "f ` {..<length H} = fst ` set T" by (metis card_subset_eq finite_imageI List.finite_set)
  show "\<forall>k\<in>fst ` set T. has_node c H k"
  proof
    fix k assume "k \<in> fst ` set T"
    then obtain i where i: "i < length H" "k = f i" using im by blast
    then show "has_node c H k" using f [OF i(1)] full unfolding has_node_def by force
  qed
next
  assume all: "\<forall>k\<in>fst ` set T. has_node c H k"
  define g where "g k = (SOME i. i < length H \<and> (\<exists>nd. H ! i = Some nd \<and> isnode c nd k))" for k
  have g: "g k < length H \<and> (\<exists>nd. H ! g k = Some nd \<and> isnode c nd k)" if "k \<in> fst ` set T" for k
  proof -
    have "\<exists>i. i < length H \<and> (\<exists>nd. H ! i = Some nd \<and> isnode c nd k)" using all that unfolding has_node_def by blast
    then show ?thesis unfolding g_def by (rule someI_ex)
  qed
  have "inj_on g (fst ` set T)"
  proof (rule inj_onI)
    fix k k' assume a: "k \<in> fst ` set T" "k' \<in> fst ` set T" "g k = g k'"
    then show "k = k'" using g [OF a(1)] g [OF a(2)] isnode_inj [OF assms(2)] assms(3) by (metis option.inject)
  qed
  then have "card (g ` fst ` set T) = card {..<length H}" using card_image assms(4) by fastforce
  moreover have "g ` fst ` set T \<subseteq> {..<length H}" using g by blast
  ultimately have "g ` fst ` set T = {..<length H}" by (metis card_subset_eq finite_lessThan)
  then show "\<forall>i<length H. H ! i \<noteq> None" using g by (metis image_iff lessThan_iff option.distinct(1))
qed

lemma pass2_present:
  assumes "pass2 c T Q H" "has_node c H k"
  shows "pass2 c T (insert k Q) H"
proof -
  note d = pass2D [OF assms(1)]
  have "all_nodes (\<lambda>i nd. main_of (length H) nd \<noteq> i \<longrightarrow> (\<exists>k\<in>insert k Q. isnode c nd k)) H"
    by (rule all_nodesI) (use all_nodesD [OF d(5)] in blast)
  moreover have "\<forall>k\<in>insert k Q. has_node c H k" using d(6) assms(2) by simp
  ultimately show ?thesis using d(1-4) unfolding pass2_def by (intro conjI)
qed

text \<open>A key that was not seen in the second pass is at its main position or nowhere.\<close>

lemma not_at_main:
  assumes "pass2 c T Q H" "ctx_ok c" "\<forall>k\<in>fst ` set T. skey_ok k" "k \<in> fst ` set T" "k \<notin> Q" "Q \<subseteq> fst ` set T" "m = key_main (length H) k" "H ! m = Some mp" "\<not> isnode c mp k"
  shows "\<not> has_node c H k"
proof
  assume "has_node c H k"
  then obtain i nd where i: "i < length H" "H ! i = Some nd" "isnode c nd k" unfolding has_node_def by blast
  have "i \<noteq> m" using i assms(8,9) by auto
  then have "main_of (length H) nd \<noteq> i" using isnode_main [OF i(3)] assms(7) by simp
  then obtain k' where k': "k' \<in> Q" "isnode c nd k'" using all_nodesD [OF pass2D(5) [OF assms(1)] i(1,2)] by blast
  then have "k' = k" using isnode_inj [OF assms(2) _ _ k'(2) i(3)] assms(3,4,6) by blast
  then show False using k'(1) assms(5) by simp
qed

lemma find_empty_some:
  assumes "pass2 c T Q H" "\<not> (\<forall>i<length H. H ! i \<noteq> None)"
  obtains e where "find_empty H = Some e" "e < length H" "H ! e = None"
proof -
  have emp: "empty_slot (H ! i) \<longleftrightarrow> H ! i = None" if "i < length H" for i
    using all_nodesD [OF pass2D(1) [OF assms(1)] that] nodeok_full by (cases "H ! i") (auto simp: empty_slot_def)
  have "\<exists>i\<in>set [0..<length H]. empty_slot (H ! i)" using assms(2) emp by auto
  then obtain e where e: "find_empty H = Some e" unfolding find_empty_def by (metis find_None_iff not_Some_eq)
  then have "e \<in> set [0..<length H] \<and> empty_slot (H ! e)" unfolding find_empty_def by (metis (mono_tags, lifting) find_Some_iff nth_mem)
  then have "e < length H" "H ! e = None" using emp by auto
  then show thesis using that [OF e] by blast
qed

lemma fillcolliding_ok:
  assumes "\<forall>(k, v)\<in>set t. skey_ok k \<and> sets_good setv v" "\<forall>k\<in>fst ` set T. skey_ok k" "distinct (map fst t)" "set (hash_entries n t) \<subseteq> set T" "Q \<subseteq> fst ` set T" "Q \<inter> fst ` set t = {}"
    "pass2 c T Q H" "ctx_ok c" "card (fst ` set T) = length H"
  shows "\<exists>H' c'. fillcolliding setv t n H c = Inr (H', c') \<and> ctx_le c c' \<and> pass2 c' T (Q \<union> fst ` set (hash_entries n t)) H' \<and> length H' = length H"
  using assms
proof (induction t arbitrary: Q H c)
  case Nil
  then show ?case using ctx_le_refl by simp
next
  case (Cons e t)
  obtain k v where e: "e = (k, v)" by force
  have kv: "skey_ok k" "sets_good setv v" using Cons.prems(1) e by auto
  have prems: "\<forall>(k, v)\<in>set t. skey_ok k \<and> sets_good setv v" "distinct (map fst t)" "set (hash_entries n t) \<subseteq> set T" using Cons.prems(1,3,4) by auto
  note IH = Cons.IH [OF prems(1) Cons.prems(2) prems(2,3)]
  show ?case
  proof (cases "arr_key n k")
    case True
    obtain j where "ishashkey k n c = (Array_key (int j + 1), c)" using ishashkey_array [OF kv(1) True] by metis
    then have "fillcolliding setv (e # t) n H c = fillcolliding setv t n H c" using e by simp
    then show ?thesis using IH [OF Cons.prems(5) _ Cons.prems(7-9)] Cons.prems(6) True e by auto
  next
    case False
    obtain key str c1 where h: "ishashkey k n c = (Hash_key key (keyhash_of (hkey_of k)) str, c1)" "ctx_le c c1" "keyed c1 key str (hkey_of k)"
      using ishashkey_hash [OF kv(1) False Cons.prems(8)] .
    have p1: "pass2 c1 T Q H" using pass2_mono [OF h(2) Cons.prems(7)] .
    have kT: "(k, v) \<in> set T" "k \<in> fst ` set T" using Cons.prems(4) False e by force+
    let ?m = "key_main (length H) k"
    have "chained H ?m" using pass2D(4) [OF p1] kT(2) by blast
    then obtain mp where m: "?m < length H" "H ! ?m = Some mp" unfolding chained_def by auto
    obtain k1 where k1: "k1 \<in> fst ` set T" "isnode c1 mp k1" using node_key_in [OF p1 m] .
    have eq: "n_string mp = str \<and> n_key mp = key \<longleftrightarrow> k1 = k"
      using keyed_unique [OF ctx_le_ok [OF h(2)] _ h(3), of "n_key mp" "n_string mp" "hkey_of k1"] k1 Cons.prems(2) kv(1) hkey_of_inj unfolding isnode_def by metis
    have mp: "mainposition (keyhash_of (hkey_of k)) H = ?m" by (simp add: mainposition_def key_main_def)
    have qi: "insert k Q \<subseteq> fst ` set T" "insert k Q \<inter> fst ` set t = {}" using Cons.prems(3,5,6) kT(2) e by auto
    show ?thesis
    proof (cases "k1 = k")
      case True
      then have "has_node c1 H k" using m k1(2) unfolding has_node_def by blast
      from IH [OF qi pass2_present [OF p1 this] ctx_le_ok [OF h(2)] Cons.prems(9)] obtain H' c' where
        r: "fillcolliding setv t n H c1 = Inr (H', c')" "ctx_le c1 c'" "pass2 c' T (insert k Q \<union> fst ` set (hash_entries n t)) H'" "length H' = length H" by blast
      have "fillcolliding setv (e # t) n H c = Inr (H', c')" using e h(1) r(1) mp m(2) eq True by (simp add: Let_def)
      then show ?thesis using r ctx_le_trans [OF h(2) r(2)] False e by simp
    next
      case new: False
      then have ni: "\<not> isnode c1 mp k" using isnode_inj [OF ctx_le_ok [OF h(2)] _ kv(1) k1(2)] k1(1) Cons.prems(2) by blast
      have kQ: "k \<notin> Q" using Cons.prems(6) e by auto
      have no: "\<not> has_node c1 H k" using not_at_main [OF p1 ctx_le_ok [OF h(2)] Cons.prems(2) kT(2) kQ Cons.prems(5) refl m(2) ni] .
      then have "\<not> (\<forall>i<length H. H ! i \<noteq> None)" using filled_iff [OF p1 ctx_le_ok [OF h(2)] Cons.prems(2,9)] kT(2) by blast
      then obtain em where em: "find_empty H = Some em" "em < length H" "H ! em = None" using find_empty_some [OF p1] by blast
      obtain x c2 where x: "setv v c1 = Inr (x, c2)" "ctx_le c1 c2" "good c2 v x" using sets_goodD [OF kv(2) ctx_le_ok [OF h(2)]] .
      have p2: "pass2 c2 T Q H" using pass2_mono [OF x(2) p1] .
      have ni2: "\<not> has_node c2 H k"
        using not_at_main [OF p2 ctx_le_ok [OF x(2)] Cons.prems(2) kT(2) kQ Cons.prems(5) refl m(2)] isnode_inj [OF ctx_le_ok [OF x(2)] _ kv(1) isnode_mono [OF x(2) k1(2)]]
          k1(1) Cons.prems(2) new by blast
      let ?nd = "Node x key (n_next mp) (keyhash_of (hkey_of k)) str False"
      have "isnode c2 ?nd k" using keyed_mono [OF x(2) h(3)] by (simp add: isnode_def)
      from pass2_insert [OF p2 ctx_le_ok [OF x(2)] Cons.prems(2) kT(1) refl m em(2,3) this _ _ _ ni2] x(3)
      have p3: "pass2 c2 T (insert k Q) (insert_at ?m mp em ?nd H)" by simp
      have "card (fst ` set T) = length (insert_at ?m mp em ?nd H)" using Cons.prems(9) by simp
      from IH [OF qi p3 ctx_le_ok [OF x(2)] this] obtain H' c' where
        r: "fillcolliding setv t n (insert_at ?m mp em ?nd H) c2 = Inr (H', c')" "ctx_le c2 c'" "pass2 c' T (insert k Q \<union> fst ` set (hash_entries n t)) H'" "length H' = length H"
        by auto
      have "fillcolliding setv (e # t) n H c = Inr (H', c')" using e h(1) r(1) mp m(2) eq new em(1) x(1) by (auto simp: Let_def insert_at_def link_def)
      then show ?thesis using r ctx_le_trans [OF ctx_le_trans [OF h(2) x(2)] r(2)] False e by simp
    qed
  qed
qed

section \<open>Finding a key\<close>

lemma chain_from: "chain H j (xs @ i # ys) \<Longrightarrow> chain H (int i) (i # ys)"
  by (induction xs arbitrary: j) auto

lemma lookup_loop_spec:
  assumes "chain H (int i) (i # js)" "\<And>j. j \<in> set (i # js) \<Longrightarrow> node_matches L hk (the (H ! j)) = Some (P j)"
  shows "lookup_loop L H hk i = Some (find P (i # js))"
  using assms
proof (induction js arbitrary: i)
  case Nil
  then show ?case by (subst lookup_loop.simps) auto
next
  case (Cons i2 js)
  obtain nd where nd: "H ! i = Some nd" "n_next nd = int i2" "i2 < length H" using Cons.prems(1) by auto
  have "lookup_loop L H hk i2 = Some (find P (i2 # js))" by (rule Cons.IH) (use Cons.prems nd in auto)
  then show ?case using nd Cons.prems(2) [of i] by (subst lookup_loop.simps) auto
qed

lemma node_matches_iff:
  assumes "ctx_ok c" "isnode c nd k1" "skey_ok k1" "skey_ok k"
  shows "node_matches (convert_stringmap c) (hkey_of k) nd = Some (k1 = k)"
proof (cases "keyhash_of (hkey_of k) = n_keyhash nd")
  case False
  then have "k1 \<noteq> k" using assms(2) by (auto simp: isnode_def)
  then show ?thesis using False by (simp add: node_matches_def)
next
  case True
  have eq: "k1 = k \<longleftrightarrow> hkey_of k = hkey_of k1" using hkey_of_inj assms(3,4) by metis
  have kd: "keyed c (n_key nd) (n_string nd) (hkey_of k1)" using assms(2) by (simp add: isnode_def)
  show ?thesis
  proof (cases "hkey_of k1")
    case (K_int i)
    then show ?thesis using kd True eq by (simp add: node_matches_def keyed_def)
  next
    case (K_str s)
    then have "n_string nd" "string_at (convert_stringmap c) (n_key nd) = Some s" using kd stack_at [OF assms(1)] by (auto simp: keyed_def)
    then show ?thesis using True eq K_str by (cases "hkey_of k") (auto simp: node_matches_def)
  qed
qed

text \<open>A finished hash table: the keys of \<open>T\<close>, all of them, one to a slot.\<close>

definition finished :: "sctx \<Rightarrow> (lvalue \<times> lvalue) list \<Rightarrow> snode option list \<Rightarrow> bool" where
  "finished c T H \<longleftrightarrow> pass2 c T (fst ` set T) H \<and> ctx_ok c \<and> (\<forall>k\<in>fst ` set T. skey_ok k) \<and> card (fst ` set T) = length H \<and> distinct (map fst T)"

lemma finishedD:
  assumes "finished c T H"
  shows "pass2 c T (fst ` set T) H" "ctx_ok c" "\<forall>k\<in>fst ` set T. skey_ok k" "card (fst ` set T) = length H" "distinct (map fst T)"
  using assms by (simp_all add: finished_def)

lemma finished_mono:
  assumes "ctx_le c c'" "finished c T H"
  shows "finished c' T H"
  using finishedD [OF assms(2)] pass2_mono [OF assms(1)] ctx_le_ok [OF assms(1)] by (simp add: finished_def)

lemma finished_slot:
  assumes "finished c T H" "i < length H"
  shows "\<exists>nd k v. H ! i = Some nd \<and> (k, v) \<in> set T \<and> skey_ok k \<and> isnode c nd k \<and> good c v (n_v nd)"
proof -
  note f = finishedD [OF assms(1)]
  have "H ! i \<noteq> None" using filled_iff [OF f(1-4)] pass2D(6) [OF f(1)] assms(2) by blast
  then obtain nd where nd: "H ! i = Some nd" by blast
  then obtain k v where k: "(k, v) \<in> set T" "isnode c nd k" "good c v (n_v nd)" using all_nodesD [OF pass2D(1) [OF f(1)] assms(2)] unfolding nodeok_def by blast
  moreover have "skey_ok k" using f(3) k(1) by force
  ultimately show ?thesis using nd by blast
qed

lemma find_eqI:
  assumes "\<And>x. x \<in> set xs \<Longrightarrow> P x \<Longrightarrow> x \<in> set ys" "\<And>y. y \<in> set ys \<Longrightarrow> P y \<Longrightarrow> y \<in> set xs" "\<And>x y. x \<in> set xs \<Longrightarrow> P x \<Longrightarrow> y \<in> set xs \<Longrightarrow> P y \<Longrightarrow> x = y"
  shows "find P xs = find P ys"
proof (cases "find P xs")
  case None
  then have "\<not> (\<exists>y. y \<in> set ys \<and> P y)" using assms(2) by (auto simp: find_None_iff)
  then show ?thesis using None by (metis find_None_iff)
next
  case (Some x)
  then have x: "x \<in> set xs" "P x" by (auto simp: find_Some_iff)
  then obtain y where y: "find P ys = Some y" using assms(1) by (metis find_None_iff not_Some_eq)
  then have "y \<in> set ys" "P y" by (auto simp: find_Some_iff)
  then show ?thesis using Some y x assms by metis
qed

lemma finished_chain:
  assumes "finished c T H" "i < length H"
  obtains js where "chain H (int i) (i # js)" "set (i # js) \<subseteq> {..<length H}" "\<And>m. chained H m \<Longrightarrow> i = m \<Longrightarrow> set (i # js) = slots_of H m"
proof -
  obtain nd k v where nd: "H ! i = Some nd" "(k, v) \<in> set T" "isnode c nd k" using finished_slot [OF assms] by blast
  let ?m = "key_main (length H) k"
  have "k \<in> fst ` set T" using nd(2) by force
  then have "chained H ?m" using pass2D(4) [OF finishedD(1) [OF assms(1)]] by blast
  then obtain js where js: "chain H (int ?m) (?m # js)" "?m \<notin> set js" "set (?m # js) = slots_of H ?m" unfolding chained_def by blast
  have "i \<in> slots_of H ?m" using nd assms(2) isnode_main [OF nd(3)] by (simp add: slots_of_def)
  then obtain xs ys where xy: "?m # js = xs @ i # ys" using js(3) by (metis split_list)
  have sub: "set (i # ys) \<subseteq> {..<length H}" using js(3) xy by (auto simp: slots_of_def)
  show thesis
  proof (rule that [OF _ sub])
    show "chain H (int i) (i # ys)" using chain_from js(1) xy by metis
    show "set (i # ys) = slots_of H m" if "chained H m" "i = m" for m
    proof -
      have "m \<in> slots_of H m" using that(1) unfolding chained_def by auto
      then have "?m = m" using that(2) nd(1) isnode_main [OF nd(3)] by (simp add: slots_of_def)
      then have "xs = []" using xy js(2) that(2) by (cases xs) auto
      then show ?thesis using xy js(3) \<open>?m = m\<close> by simp
    qed
  qed
qed

lemma lookup_key_ok:
  assumes "finished c T H" "skey_ok k"
  shows "lookup_key (convert_stringmap c) H (hkey_of k) = Some (find (\<lambda>j. isnode c (the (H ! j)) k) [0..<length H])"
proof (cases "length H = 0")
  case True
  then show ?thesis by (simp add: lookup_key_def)
next
  case False
  let ?P = "\<lambda>j. isnode c (the (H ! j)) k" and ?m = "key_main (length H) k"
  have ok: "pass2 c T (fst ` set T) H" "ctx_ok c" using finishedD [OF assms(1)] by auto
  have m: "?m < length H" "mainposition (keyhash_of (hkey_of k)) H = ?m" using False by (simp_all add: key_main_def mainposition_def)
  obtain js where js: "chain H (int ?m) (?m # js)" "set (?m # js) \<subseteq> {..<length H}" "chained H ?m \<Longrightarrow> set (?m # js) = slots_of H ?m"
    using finished_chain [OF assms(1) m(1)] by metis
  have match: "node_matches (convert_stringmap c) (hkey_of k) (the (H ! j)) = Some (?P j)" if j: "j < length H" for j
  proof -
    obtain nd k1 where nd: "H ! j = Some nd" "skey_ok k1" "isnode c nd k1" using finished_slot [OF assms(1) j(1)] by blast
    have "k1 = k \<longleftrightarrow> isnode c nd k" using isnode_inj [OF ok(2) nd(2) assms(2) nd(3)] nd(3) by blast
    then show ?thesis using node_matches_iff [OF ok(2) nd(3,2) assms(2)] nd(1) by simp
  qed
  have loop: "lookup_loop (convert_stringmap c) H (hkey_of k) ?m = Some (find ?P (?m # js))"
  proof (rule lookup_loop_spec [OF js(1)])
    fix j assume "j \<in> set (?m # js)"
    then have "j < length H" using js(2) by blast
    then show "node_matches (convert_stringmap c) (hkey_of k) (the (H ! j)) = Some (?P j)" by (rule match)
  qed
  have on: "j \<in> set (?m # js)" if j: "j < length H" "?P j" for j
  proof -
    obtain nd k1 v1 where nd: "H ! j = Some nd" "(k1, v1) \<in> set T" "skey_ok k1" "isnode c nd k1" using finished_slot [OF assms(1) j(1)] by blast
    have "k1 = k" using isnode_inj [OF ok(2) nd(3) assms(2) nd(4)] j(2) nd(1) by simp
    then have "chained H ?m" using pass2D(4) [OF ok(1)] nd(2) by force
    then show ?thesis using js(3) j(1) nd(1) isnode_main [OF nd(4)] \<open>k1 = k\<close> by (simp add: slots_of_def)
  qed
  have uniq: "i = j" if ij: "i < length H" "?P i" "j < length H" "?P j" for i j
  proof -
    obtain nd k1 v1 where nd: "H ! i = Some nd" "(k1, v1) \<in> set T" "skey_ok k1" "isnode c nd k1" using finished_slot [OF assms(1) ij(1)] by blast
    obtain nd' where nd': "H ! j = Some nd'" using finished_slot [OF assms(1) ij(3)] by blast
    have "k1 = k" using isnode_inj [OF ok(2) nd(3) assms(2) nd(4)] ij(2) nd(1) by simp
    then have "k \<in> fst ` set T" using nd(2) by force
    then show ?thesis using one_slot [OF ok finishedD(3) [OF assms(1)] _ ij(1) nd(1) _ ij(3) nd'] ij(2,4) nd(1) nd' by simp
  qed
  have "find ?P (?m # js) = find ?P [0..<length H]" by (rule find_eqI) (use on uniq js(2) in auto)
  moreover obtain nd where nd: "H ! ?m = Some nd" using finished_slot [OF assms(1) m(1)] by blast
  moreover have "find ?P (?m # js) = None" if a: "keyhash_of (hkey_of k) \<noteq> n_keyhash nd" "n_nocolliding nd"
  proof -
    have "n_next nd = - 1" using all_nodesD [OF pass2D(2) [OF ok(1)] m(1) nd] a(2) by blast
    then have "js = []" using js(1) nd by (cases js) auto
    moreover have "\<not> ?P ?m" using a(1) nd by (simp add: isnode_def)
    ultimately show ?thesis by simp
  qed
  ultimately show ?thesis using loop False m(2) by (auto simp: lookup_key_def)
qed

section \<open>A converted table\<close>

lemma countsize_eq: "\<forall>k\<in>fst ` set t. skey_ok k \<Longrightarrow> countsize t n = Inr (length (hash_entries n t))"
proof (induction t)
  case (Cons e t)
  obtain k v where e: "e = (k, v)" by force
  have "skey_ok k" "countsize t n = Inr (length (hash_entries n t))" using Cons e by auto
  then show ?case using e by (cases k) (simp_all add: skey_ok_def arr_key_def)
qed simp

lemma in_array_arr:
  assumes "j < n" "n < 2 ^ 31" "length arr = n"
  shows "in_array (hkey_of (VInt (of_nat (j + 1)))) (Table arr H) = Some j"
proof -
  have "sint (of_nat (j + 1) :: u64) = sint (word_of_int (int (j + 1)) :: u64)" by simp
  also have "\<dots> = signed_take_bit 63 (int (j + 1))" by (simp only: sint_sbintrunc') simp
  also have "\<dots> = int (j + 1)" using assms(1,2) by (intro signed_take_bit_int_eq_self) auto
  finally show ?thesis using assms(1,3) by (simp add: in_array_def del: of_nat_add of_nat_Suc)
qed

lemma in_array_hash: "\<not> arr_key (length arr) k \<Longrightarrow> in_array (hkey_of k) (Table arr H) = None"
  by (cases k) (auto simp: arr_key_def in_array_def)

text \<open>The iteration.\<close>

definition slot_key :: "bytes option list \<Rightarrow> snode option list \<Rightarrow> nat \<Rightarrow> lvalue" where
  "slot_key L H i = the (pushkey L (H ! i))"

lemma pushkey_isnode:
  assumes "ctx_ok c" "isnode c nd k" "skey_ok k"
  shows "pushkey (convert_stringmap c) (Some nd) = Some k"
proof (cases k)
  case (VInt x)
  then show ?thesis using assms(2) by (simp add: pushkey_def isnode_def keyed_def scast_id)
next
  case (VStr s)
  then show ?thesis using assms(2) stack_at [OF assms(1)] by (simp add: pushkey_def isnode_def keyed_def)
qed (use assms(3) in \<open>simp_all add: skey_ok_def\<close>)

lemma slot_key_ok:
  assumes "finished c T H" "i < length H"
  shows "pushkey (convert_stringmap c) (H ! i) = Some (slot_key (convert_stringmap c) H i)" "isnode c (the (H ! i)) (slot_key (convert_stringmap c) H i)"
    "slot_key (convert_stringmap c) H i \<in> fst ` set T" "skey_ok (slot_key (convert_stringmap c) H i)"
proof -
  obtain nd k v where nd: "H ! i = Some nd" "(k, v) \<in> set T" "skey_ok k" "isnode c nd k" using finished_slot [OF assms] by blast
  have "pushkey (convert_stringmap c) (H ! i) = Some k" using pushkey_isnode [OF finishedD(2) [OF assms(1)] nd(4,3)] nd(1) by simp
  then have "slot_key (convert_stringmap c) H i = k" by (simp add: slot_key_def)
  then show "pushkey (convert_stringmap c) (H ! i) = Some (slot_key (convert_stringmap c) H i)" "isnode c (the (H ! i)) (slot_key (convert_stringmap c) H i)"
    "slot_key (convert_stringmap c) H i \<in> fst ` set T" "skey_ok (slot_key (convert_stringmap c) H i)"
    using nd \<open>pushkey (convert_stringmap c) (H ! i) = Some k\<close> by (simp, simp, force, simp)
qed

lemma lookup_slot:
  assumes "finished c T H" "i < length H"
  shows "lookup_key (convert_stringmap c) H (hkey_of (slot_key (convert_stringmap c) H i)) = Some (Some i)"
proof -
  let ?k = "slot_key (convert_stringmap c) H i"
  note k = slot_key_ok [OF assms] and f = finishedD [OF assms(1)]
  obtain nd where nd: "H ! i = Some nd" using finished_slot [OF assms] by blast
  have "j = i" if j: "j < length H" "isnode c (the (H ! j)) ?k" for j
  proof -
    obtain nd' where nd': "H ! j = Some nd'" using finished_slot [OF assms(1) j(1)] by blast
    then show ?thesis using one_slot [OF f(1-3) k(3) j(1) nd' _ assms(2) nd] j(2) k(2) nd by simp
  qed
  then have "find (\<lambda>j. isnode c (the (H ! j)) ?k) [0..<length H] = find (\<lambda>j. isnode c (the (H ! j)) ?k) [i]"
    by (intro find_eqI) (use assms(2) k(2) in auto)
  then show ?thesis using lookup_key_ok [OF assms(1) k(4)] k(2) by simp
qed

lemma walk_hash:
  assumes "finished c T H" "\<And>k. k \<in> fst ` set T \<Longrightarrow> \<not> arr_key (length arr) k" "i < length H"
  shows "walk (convert_stringmap c) (Table arr H) (slot_key (convert_stringmap c) H i) (map (slot_key (convert_stringmap c) H) [Suc i..<length H])"
  using assms(3)
proof (induction "length H - i" arbitrary: i)
  case (Suc d)
  let ?L = "convert_stringmap c"
  note k = slot_key_ok [OF assms(1) Suc.prems]
  have "slot_key ?L H i \<noteq> VNil" using k(4) by (auto simp: skey_ok_def)
  then have nx: "lnextkey ?L (Table arr H) (slot_key ?L H i) =
      map_option Inr (if i + 1 = length H then Some None else map_option Some (pushkey ?L (H ! (i + 1))))"
    using call_key_ok [OF k(4)] in_array_hash [OF assms(2) [OF k(3)]] lookup_slot [OF assms(1) Suc.prems] by (simp add: lnextkey_def)
  show ?case
  proof (cases "Suc i = length H")
    case True
    then show ?thesis using nx by simp
  next
    case False
    then have i: "Suc i < length H" using Suc.prems by simp
    have "walk ?L (Table arr H) (slot_key ?L H (Suc i)) (map (slot_key ?L H) [Suc (Suc i)..<length H])" using Suc.hyps i by simp
    then show ?thesis using nx slot_key_ok(1) [OF assms(1) i] i by (simp add: upt_conv_Cons del: upt_Suc)
  qed
qed simp

text \<open>The keys of the array from a place on.\<close>

definition array_keys :: "svalue list \<Rightarrow> nat \<Rightarrow> lvalue list" where
  "array_keys arr i = map (\<lambda>j. VInt (of_nat (j + 1))) (filter (\<lambda>j. arr ! j \<noteq> SV_nil) [i..<length arr])"

lemma walk_array:
  assumes "finished c T H" "\<And>k. k \<in> fst ` set T \<Longrightarrow> \<not> arr_key (length arr) k" "length arr < 2 ^ 31" "i \<le> length arr"
    "lnextkey (convert_stringmap c) (Table arr H) k = map_option Inr (next_array (convert_stringmap c) (Table arr H) i)"
  shows "walk (convert_stringmap c) (Table arr H) k (array_keys arr i @ map (slot_key (convert_stringmap c) H) [0..<length H])"
  using assms(4,5)
proof (induction "length arr - i" arbitrary: i k rule: less_induct)
  case less
  let ?L = "convert_stringmap c" and ?P = "\<lambda>j. arr ! j \<noteq> SV_nil"
  show ?case
  proof (cases "filter ?P [i..<length arr]")
    case Nil
    then have "find ?P [i..<length arr] = None" by (metis (no_types) filter_empty_conv find_None_iff)
    then have nx: "lnextkey ?L (Table arr H) k = map_option Inr (pushfirsthash ?L (Table arr H))" using less.prems(2) by (simp add: next_array_def)
    show ?thesis
    proof (cases "H = []")
      case True
      then show ?thesis using nx Nil by (simp add: array_keys_def pushfirsthash_def)
    next
      case False
      then have z: "0 < length H" by simp
      have "[0..<length H] = 0 # [Suc 0..<length H]" using z by (simp add: upt_conv_Cons del: upt_Suc)
      then show ?thesis using nx Nil walk_hash [OF assms(1,2) z] slot_key_ok(1) [OF assms(1) z] False by (simp add: array_keys_def pushfirsthash_def)
    qed
  next
    case (Cons j js)
    then obtain us vs where uv: "[i..<length arr] = us @ j # vs" "\<forall>u\<in>set us. \<not> ?P u" "?P j" "js = filter ?P vs" by (auto simp: filter_eq_Cons_iff)
    have "find ?P [i..<length arr] = Some j" unfolding uv(1) using uv(2,3) by (induction us) auto
    moreover have "j \<in> set [i..<length arr]" unfolding uv(1) by simp
    then have j: "i \<le> j" "j < length arr" by simp_all
    have vs: "vs = [Suc j..<length arr]"
    proof -
      have l: "length us < length arr - i" using arg_cong [OF uv(1), of length] by simp
      have "j = [i..<length arr] ! length us" unfolding uv(1) by simp
      then have "j = i + length us" using l by simp
      moreover have "vs = drop (Suc (length us)) [i..<length arr]" unfolding uv(1) by simp
      ultimately show ?thesis by (simp add: drop_upt)
    qed
    let ?k = "VInt (of_nat (j + 1))"
    have nx: "lnextkey ?L (Table arr H) k = Some (Inr (Some ?k))" using less.prems(2) calculation by (simp add: next_array_def del: of_nat_add of_nat_Suc)
    have ko: "skey_ok ?k" using arr_key_nat [OF j(2) assms(3)] assms(3) by (auto simp: skey_ok_def arr_key_def simp del: of_nat_add of_nat_Suc)
    have "lnextkey ?L (Table arr H) ?k = map_option Inr (next_array ?L (Table arr H) (Suc j))"
      using call_key_ok [OF ko] in_array_arr [OF j(2) assms(3) refl, of H] by (simp add: lnextkey_def del: of_nat_add of_nat_Suc)
    then have "walk ?L (Table arr H) ?k (array_keys arr (Suc j) @ map (slot_key ?L H) [0..<length H])" by (intro less.hyps) (use j in auto)
    moreover have "array_keys arr i = ?k # array_keys arr (Suc j)" using Cons uv(4) vs by (simp add: array_keys_def del: of_nat_add of_nat_Suc)
    ultimately show ?thesis using nx by simp
  qed
qed

lemma table_keys:
  assumes "array_ok c n t arr" "finished c (hash_entries n t) H" "n < 2 ^ 31"
  defines "ks \<equiv> array_keys arr 0 @ map (slot_key (convert_stringmap c) H) [0..<length H]"
  shows "distinct ks" "set ks = fst ` set t"
proof -
  let ?L = "convert_stringmap c" and ?T = "hash_entries n t"
  have n: "length arr = n" using assms(1) by (simp add: array_ok_def)
  have inj: "i = j" if "i < n" "j < n" "(of_nat (i + 1) :: u64) = of_nat (j + 1)" for i j
  proof -
    have "take_bit 64 (i + 1) = i + 1" "take_bit 64 (j + 1) = j + 1" using that assms(3) by (simp_all add: take_bit_nat_eq_self_iff)
    then show ?thesis using that(3) by (simp add: word_of_nat_eq_iff del: of_nat_add of_nat_Suc)
  qed
  have arr: "VInt (of_nat (j + 1)) \<in> fst ` set t \<longleftrightarrow> arr ! j \<noteq> SV_nil" if j: "j < n" for j
  proof -
    have "case map_of t (VInt (of_nat (j + 1))) of None \<Rightarrow> arr ! j = SV_nil | Some v \<Rightarrow> good c v (arr ! j)" using assms(1) j unfolding array_ok_def by blast
    moreover have "VInt (of_nat (j + 1)) \<in> fst ` set t \<longleftrightarrow> map_of t (VInt (of_nat (j + 1))) \<noteq> None" unfolding map_of_eq_None_iff by simp
    ultimately show ?thesis by (cases "map_of t (VInt (of_nat (j + 1)))") (simp_all add: good_def del: of_nat_add of_nat_Suc)
  qed
  have aks: "set (array_keys arr 0) = {k \<in> fst ` set t. arr_key n k}"
  proof (intro set_eqI iffI)
    fix k assume "k \<in> set (array_keys arr 0)"
    then obtain j where "j < n" "arr ! j \<noteq> SV_nil" "k = VInt (of_nat (j + 1))" using n by (auto simp: array_keys_def simp del: of_nat_add of_nat_Suc)
    then show "k \<in> {k \<in> fst ` set t. arr_key n k}" using arr arr_key_nat assms(3) by (simp del: of_nat_add of_nat_Suc)
  next
    fix k assume k: "k \<in> {k \<in> fst ` set t. arr_key n k}"
    then obtain x where x: "k = VInt x" "0 < sint x" "sint x \<le> int n" by (auto simp: arr_key_def split: lvalue.splits)
    define j where "j = nat (sint x) - 1"
    have j: "j < n" "sint x = int (j + 1)" using x by (auto simp: j_def)
    then have "x = of_nat (j + 1)" by (metis of_int_sint scast_id of_int_of_nat_eq)
    then show "k \<in> set (array_keys arr 0)" using arr [OF j(1)] j(1) k x(1) n by (simp add: array_keys_def del: of_nat_add of_nat_Suc)
  qed
  have hks: "set (map (slot_key ?L H) [0..<length H]) = fst ` set ?T"
  proof (intro equalityI subsetI)
    show "k \<in> fst ` set ?T" if "k \<in> set (map (slot_key ?L H) [0..<length H])" for k using that slot_key_ok(3) [OF assms(2)] by auto
    fix k assume k: "k \<in> fst ` set ?T"
    then have "has_node c H k" using pass2D(6) [OF finishedD(1) [OF assms(2)]] by blast
    then obtain i nd where i: "i < length H" "H ! i = Some nd" "isnode c nd k" unfolding has_node_def by blast
    have "skey_ok k" using finishedD(3) [OF assms(2)] k by blast
    then have "slot_key ?L H i = k" using pushkey_isnode [OF finishedD(2) [OF assms(2)] i(3)] i(2) by (simp add: slot_key_def)
    then show "k \<in> set (map (slot_key ?L H) [0..<length H])" using i(1) by force
  qed
  show "set ks = fst ` set t" unfolding ks_def set_append aks hks by auto
  have "distinct (array_keys arr 0)" unfolding array_keys_def distinct_map using inj n by (auto simp: inj_on_def simp del: of_nat_add of_nat_Suc)
  moreover have "inj_on (slot_key ?L H) {0..<length H}"
  proof (rule inj_onI)
    fix i j assume "i \<in> {0..<length H}" "j \<in> {0..<length H}" "slot_key ?L H i = slot_key ?L H j"
    then have "Some (Some i) = Some (Some j)" by (metis lookup_slot [OF assms(2)] atLeastLessThan_iff)
    then show "i = j" by simp
  qed
  then have "distinct (map (slot_key ?L H) [0..<length H])" by (simp add: distinct_map)
  moreover have "set (array_keys arr 0) \<inter> set (map (slot_key ?L H) [0..<length H]) = {}" unfolding aks hks by auto
  ultimately show "distinct ks" unfolding ks_def by simp
qed

lemma reads_table:
  assumes "array_ok c n t arr" "finished c (hash_entries n t) H" "distinct (map fst t)" "n < 2 ^ 31" "ctx_le c c'"
  shows "reads (convert_stringmap c') (VTab t m) (P_table (Table arr H))"
proof (rule reads_tab)
  have fin': "finished c' (hash_entries n t) H" and arr': "array_ok c' n t arr" using finished_mono [OF assms(5,2)] array_ok_mono [OF assms(5,1)] .
  let ?ks = "array_keys arr 0 @ map (slot_key (convert_stringmap c') H) [0..<length H]"
  show "distinct ?ks" "set ?ks = fst ` set t" using table_keys [OF arr' fin' assms(4)] .
  show "walk (convert_stringmap c') (Table arr H) VNil ?ks"
    by (rule walk_array [OF fin']) (use assms(1,4) in \<open>auto simp: array_ok_def lnextkey_def\<close>)
  fix k assume k: "skey_ok k"
  let ?L = "convert_stringmap c'" and ?t = "Table arr H"
  have n: "length arr = n" using assms(1) by (simp add: array_ok_def)
  have fin: "finished c' (hash_entries n t) H" using finished_mono [OF assms(5,2)] .
  have shown: "\<exists>p. pushvalue ?L x = Some p \<and> reads ?L v p" if "good c v x" for v x using that assms(5) unfolding good_def by blast
  show "\<exists>p. lindexconf ?L ?t k = Some (Inr p) \<and> reads ?L (rawget t k) p"
  proof (cases "arr_key n k")
    case True
    obtain j where j: "j < n" "k = VInt (of_nat (j + 1))" using ishashkey_array [OF k True] by metis
    have ia: "in_array (hkey_of k) ?t = Some j" using in_array_arr [OF j(1) assms(4) n] j(2) by simp
    have "\<exists>p. pushvalue ?L (arr ! j) = Some p \<and> reads ?L (rawget t k) p"
    proof (cases "map_of t k")
      case None
      then have "arr ! j = SV_nil" using assms(1) j unfolding array_ok_def by (auto split: option.splits simp del: of_nat_add of_nat_Suc)
      then show ?thesis using None reads_nil by (simp add: pushvalue_def rawget_def)
    next
      case (Some v)
      then have "good c v (arr ! j)" using assms(1) j unfolding array_ok_def by (auto split: option.splits simp del: of_nat_add of_nat_Suc)
      then show ?thesis using shown Some by (simp add: rawget_def)
    qed
    then show ?thesis using call_key_ok [OF k] ia by (auto simp: lindexconf_def)
  next
    case False
    have ia: "in_array (hkey_of k) ?t = None" using in_array_hash False n by simp
    note lk = lookup_key_ok [OF fin k]
    have "\<exists>p. hash_index ?L ?t (hkey_of k) = Some p \<and> reads ?L (rawget t k) p"
    proof (cases "find (\<lambda>j. isnode c' (the (H ! j)) k) [0..<length H]")
      case None
      have "map_of t k = None"
      proof (rule ccontr)
        assume "map_of t k \<noteq> None"
        then obtain v where "(k, v) \<in> set t" using map_of_SomeD by fast
        then have "k \<in> fst ` set (hash_entries n t)" using False by force
        then have "has_node c' H k" using pass2D(6) [OF finishedD(1) [OF fin]] by blast
        then show False using None by (auto simp: has_node_def find_None_iff)
      qed
      then show ?thesis using lk None reads_nil by (simp add: hash_index_def rawget_def)
    next
      case (Some i)
      then have i: "i < length H" "isnode c' (the (H ! i)) k" by (auto simp: find_Some_iff)
      obtain nd k1 v where nd: "H ! i = Some nd" "(k1, v) \<in> set (hash_entries n t)" "skey_ok k1" "isnode c' nd k1" "good c' v (n_v nd)"
        using finished_slot [OF fin i(1)] by blast
      have "k1 = k" using isnode_inj [OF finishedD(2) [OF fin] nd(3) k nd(4)] i(2) nd(1) by simp
      then have "map_of t k = Some v" using nd(2) assms(3) by simp
      moreover have "\<exists>p. pushvalue ?L (n_v nd) = Some p \<and> reads ?L v p" using nd(5) ctx_le_refl [OF finishedD(2) [OF fin]] unfolding good_def by blast
      ultimately show ?thesis using lk Some nd(1) by (auto simp: hash_index_def rawget_def)
    qed
    then show ?thesis using call_key_ok [OF k] ia by (auto simp: lindexconf_def)
  qed
qed

text \<open>The tables that \<open>lnewconf\<close> takes: keys are strings and integers of 32 bits.\<close>

fun conf_ok :: "((lvalue \<times> lvalue) list \<Rightarrow> nat) \<Rightarrow> nat \<Rightarrow> (lvalue \<times> lvalue) list \<Rightarrow> bool" where
  "conf_ok rawlen 0 t = False"
| "conf_ok rawlen (Suc k) t =
     (distinct (map fst t) \<and> rawlen t < 2 ^ 31 \<and>
      list_all (\<lambda>(key, v). skey_ok key \<and>
        (case v of VBool b \<Rightarrow> True | VInt x \<Rightarrow> True | VNum x \<Rightarrow> True | VStr s \<Rightarrow> True | VTab t' m \<Rightarrow> conf_ok rawlen k t' | _ \<Rightarrow> False)) t)"

definition converts :: "((lvalue \<times> lvalue) list \<Rightarrow> sctx \<Rightarrow> sd_error + stable \<times> sctx) \<Rightarrow> (lvalue \<times> lvalue) list \<Rightarrow> bool" where
  "converts conv t \<longleftrightarrow> (\<forall>c. ctx_ok c \<longrightarrow> (\<exists>tbl c'. conv t c = Inr (tbl, c') \<and> ctx_le c c' \<and>
     (\<forall>c'' m. ctx_le c' c'' \<longrightarrow> reads (convert_stringmap c'') (VTab t m) (P_table tbl))))"

lemma setvalue_good:
  assumes "case v of VBool b \<Rightarrow> True | VInt x \<Rightarrow> True | VNum x \<Rightarrow> True | VStr s \<Rightarrow> True | VTab t' m \<Rightarrow> converts conv t' | _ \<Rightarrow> False"
  shows "sets_good (setvalue conv) v"
proof (cases v)
  case (VStr s)
  show ?thesis unfolding sets_good_def
  proof (intro allI impI)
    fix c assume c: "ctx_ok c"
    obtain i c' where si: "stringindex s c = (i, c')" by force
    note o = stringindex_ok [OF c si]
    have "good c' v (SV_string i)" unfolding good_def
      using VStr o(2) stack_at reads_str by (auto simp: pushvalue_def ctx_le_def)
    then show "\<exists>x c'. setvalue conv v c = Inr (x, c') \<and> ctx_le c c' \<and> good c' v x" using VStr si o(1) by (simp add: setvalue_def)
  qed
next
  case (VTab t m)
  have cv: "converts conv t" using assms VTab by simp
  show ?thesis unfolding sets_good_def
  proof (intro allI impI)
    fix c assume c: "ctx_ok c"
    obtain tbl c' where t: "conv t c = Inr (tbl, c')" "ctx_le c c'" "\<forall>c'' m. ctx_le c' c'' \<longrightarrow> reads (convert_stringmap c'') (VTab t m) (P_table tbl)"
      using cv c unfolding converts_def by blast
    then have "good c' v (SV_table tbl)" using VTab unfolding good_def by (simp add: pushvalue_def)
    then show "\<exists>x c'. setvalue conv v c = Inr (x, c') \<and> ctx_le c c' \<and> good c' v x" using VTab t by (simp add: setvalue_def)
  qed
qed (use assms in \<open>auto simp: sets_good_def setvalue_def good_def pushvalue_def intro: ctx_le_refl reads.intros\<close>)

lemma fillarray_ok:
  assumes "\<And>i. i < n \<Longrightarrow> (case map_of t (VInt (of_nat (i + 1))) of None \<Rightarrow> True | Some v \<Rightarrow> sets_good (setvalue conv) v)" "ctx_ok c" "length arr = n" "j \<le> n"
    "\<forall>i<n. i < j \<longrightarrow> (case map_of t (VInt (of_nat (i + 1))) of None \<Rightarrow> arr ! i = SV_nil | Some v \<Rightarrow> good c v (arr ! i))"
  shows "\<exists>arr' c'. fillarray (setvalue conv) t [Suc j..<Suc n] arr c = Inr (arr', c') \<and> ctx_le c c' \<and> array_ok c' n t arr'"
  using assms(2-)
proof (induction "n - j" arbitrary: j arr c)
  case 0
  then show ?case using ctx_le_refl by (simp add: array_ok_def del: of_nat_add of_nat_Suc)
next
  case (Suc d)
  have j: "j < n" "d = n - Suc j" using Suc.hyps(2) by simp_all
  let ?k = "VInt (of_nat (j + 1))"
  obtain x c1 where x: "setvalue conv (rawget t ?k) c = Inr (x, c1)" "ctx_le c c1" "case map_of t ?k of None \<Rightarrow> x = SV_nil | Some v \<Rightarrow> good c1 v x"
  proof (cases "map_of t ?k")
    case None
    then show thesis using that [of SV_nil c] ctx_le_refl [OF Suc.prems(1)] by (simp add: rawget_def setvalue_def del: of_nat_add of_nat_Suc)
  next
    case (Some v)
    then have sg: "sets_good (setvalue conv) v" using assms(1) [OF j(1)] by (simp del: of_nat_add of_nat_Suc)
    show thesis using sets_goodD [OF sg Suc.prems(1)] that Some by (simp add: rawget_def del: of_nat_add of_nat_Suc) metis
  qed
  have upt: "[Suc j..<Suc n] = Suc j # [Suc (Suc j)..<Suc n]" using j(1) by (simp add: upt_conv_Cons del: upt_Suc)
  have done_: "\<forall>i<n. i < Suc j \<longrightarrow> (case map_of t (VInt (of_nat (i + 1))) of None \<Rightarrow> arr[j := x] ! i = SV_nil | Some v \<Rightarrow> good c1 v (arr[j := x] ! i))"
    using Suc.prems(2,4) x(3) j(1) good_mono [OF x(2)] by (auto simp: less_Suc_eq simp del: of_nat_add of_nat_Suc split: option.splits)
  from Suc.hyps(1) [OF j(2) ctx_le_ok [OF x(2)] _ _ done_] Suc.prems(2) j(1) obtain arr' c' where
    r: "fillarray (setvalue conv) t [Suc (Suc j)..<Suc n] (arr[j := x]) c1 = Inr (arr', c')" "ctx_le c1 c'" "array_ok c' n t arr'" by auto
  have "fillarray (setvalue conv) t [Suc j..<Suc n] arr c = Inr (arr', c')" unfolding upt using x(1) r(1) by simp
  then show ?case using r ctx_le_trans [OF x(2) r(2)] by blast
qed

lemma finished_empty: "ctx_ok c \<Longrightarrow> finished c [] []"
  by (simp add: finished_def pass2_def all_nodes_def)

lemma convtable_ok: "conf_ok rawlen k t \<Longrightarrow> converts (convtable rawlen k) t"
proof (induction k arbitrary: t)
  case (Suc k)
  let ?n = "rawlen t" and ?set = "setvalue (convtable rawlen k)"
  let ?T = "hash_entries ?n t"
  have ok: "distinct (map fst t)" "?n < 2 ^ 31" using Suc.prems by auto
  have ent: "skey_ok key \<and> sets_good ?set v" if e: "(key, v) \<in> set t" for key v
  proof -
    have "skey_ok key \<and> (case v of VBool b \<Rightarrow> True | VInt x \<Rightarrow> True | VNum x \<Rightarrow> True | VStr s \<Rightarrow> True | VTab t' m \<Rightarrow> conf_ok rawlen k t' | _ \<Rightarrow> False)"
      using Suc.prems e unfolding conf_ok.simps list_all_iff by fast
    then have "skey_ok key \<and> (case v of VBool b \<Rightarrow> True | VInt x \<Rightarrow> True | VNum x \<Rightarrow> True | VStr s \<Rightarrow> True | VTab t' m \<Rightarrow> converts (convtable rawlen k) t' | _ \<Rightarrow> False)"
      using Suc.IH by (cases v) simp_all
    then show ?thesis using setvalue_good by blast
  qed
  have keys: "\<forall>k\<in>fst ` set t. skey_ok k" "\<forall>k\<in>fst ` set ?T. skey_ok k" using ent by auto
  have cs: "countsize t ?n = Inr (length ?T)" using countsize_eq [OF keys(1)] .
  have dT: "distinct (map fst ?T)" using ok(1) by (simp add: distinct_map_filter)
  have cd: "card (fst ` set ?T) = length ?T" using distinct_card [OF dT] by simp
  have all: "\<forall>(k, v)\<in>set t. skey_ok k \<and> sets_good ?set v" using ent by blast
  show ?case unfolding converts_def
  proof (intro allI impI)
    fix c assume c: "ctx_ok c"
    have "\<exists>arr H c'. convtable rawlen (Suc k) t c = Inr (Table arr H, c') \<and> ctx_le c c' \<and> array_ok c' ?n t arr \<and> finished c' ?T H"
    proof (cases "?T = []")
      case True
      have sg: "case map_of t (VInt (of_nat (i + 1))) of None \<Rightarrow> True | Some v \<Rightarrow> sets_good ?set v" if "i < ?n" for i
        using ent by (auto split: option.splits dest: map_of_SomeD)
      obtain arr c' where "fillarray ?set t [Suc 0..<Suc ?n] (replicate ?n SV_nil) c = Inr (arr, c')" "ctx_le c c'" "array_ok c' ?n t arr"
        using fillarray_ok [where n = ?n and t = t and j = 0 and arr = "replicate ?n SV_nil", OF sg c] by auto
      then show ?thesis using cs True finished_empty ctx_le_ok by (auto simp: Let_def simp del: upt_Suc)
    next
      case False
      have a0: "array_ok c ?n [] (replicate ?n SV_nil)" "pass1 c (hash_entries ?n []) (replicate (length ?T) None)" by (simp_all add: array_ok_def pass1_def)
      obtain arr H c1 where p1: "fillnocolliding ?set t (replicate ?n SV_nil) (replicate (length ?T) None) c = Inr (arr, H, c1)" "ctx_le c c1" "array_ok c1 ?n t arr"
        "pass1 c1 ?T H" "length H = length ?T" using fillnocolliding_ok [OF all _ a0 c ok(2)] ok(1) by auto
      have p2: "pass2 c1 ?T {} H" using pass1_pass2 [OF p1(4) ctx_le_ok [OF p1(2)]] keys(2) p1(5) by simp
      obtain H' c' where p3: "fillcolliding ?set t ?n H c1 = Inr (H', c')" "ctx_le c1 c'" "pass2 c' ?T (fst ` set ?T) H'" "length H' = length H"
        using fillcolliding_ok [OF all keys(2) ok(1) _ _ _ p2 ctx_le_ok [OF p1(2)], of ?n] cd p1(5) by auto
      have "finished c' ?T H'" using p3 ctx_le_ok [OF p3(2)] keys(2) cd p1(5) dT by (simp add: finished_def)
      moreover have "convtable rawlen (Suc k) t c = Inr (Table arr H', c')" using cs False p1(1) p3(1) by (simp add: Let_def)
      ultimately show ?thesis using p1(2) p3(2) ctx_le_trans array_ok_mono [OF p3(2) p1(3)] by blast
    qed
    then show "\<exists>tbl c'. convtable rawlen (Suc k) t c = Inr (tbl, c') \<and> ctx_le c c' \<and> (\<forall>c'' m. ctx_le c' c'' \<longrightarrow> reads (convert_stringmap c'') (VTab t m) (P_table tbl))"
      using reads_table ok by blast
  qed
qed simp

section \<open>The property\<close>

text \<open>
  C13: a shared table is the Lua table it was made from. \<open>lnewconf\<close> takes every Lua table (nested up to the depth that Lua allows) whose keys are strings and integers of 32 bits and
  whose values are booleans, numbers, strings and such tables, for every border that \<open>lua_rawlen\<close> may give, and whatever keys collide; then \<open>index\<close> answers every key as the Lua table
  does, the search along the collision chain ends, and repeated \<open>nextkey\<close> meets each key once and no other, at every level of nesting.
\<close>

theorem shared_table_reads:
  assumes "conf_ok rawlen depth t"
  shows "\<exists>L tbl. lnewconf rawlen depth t = Inr (L, tbl) \<and> reads L (VTab t m) (P_table tbl)"
proof -
  let ?c = "\<lparr>c_map = [], c_index = 1\<rparr>"
  have c: "ctx_ok ?c" by (simp add: ctx_ok_def)
  obtain tbl c' where "convtable rawlen depth t ?c = Inr (tbl, c')" "ctx_le ?c c'" "\<forall>c'' m. ctx_le c' c'' \<longrightarrow> reads (convert_stringmap c'') (VTab t m) (P_table tbl)"
    using convtable_ok [OF assms] c unfolding converts_def by blast
  then show ?thesis using ctx_le_refl [OF ctx_le_ok] by (auto simp: lnewconf_def)
qed

definition demo_len :: "(lvalue \<times> lvalue) list \<Rightarrow> nat" where
  "demo_len t = (case map_of t (VInt 1) of None \<Rightarrow> 0 | Some v \<Rightarrow> 1)"

definition demo_table :: "(lvalue \<times> lvalue) list" where
  "demo_table = [(VStr [97], VInt 5), (VInt 1, VBool True), (VInt 7, VNum 0), (VStr [98], VTab [(VInt (- 3), VStr [97])] None), (VInt 4, VStr [98])]"

theorem shared_table_reads_witness:
  "conf_ok demo_len (Suc (Suc 0)) demo_table \<and> (\<exists>L tbl. lnewconf demo_len (Suc (Suc 0)) demo_table = Inr (L, tbl) \<and> reads L (VTab demo_table None) (P_table tbl))"
proof -
  have "conf_ok demo_len (Suc (Suc 0)) demo_table" by (simp add: demo_table_def demo_len_def skey_ok_def)
  then show ?thesis using shared_table_reads [of demo_len "Suc (Suc 0)" demo_table None] by blast
qed

text \<open>
  Keys are cut to 32 bits: a key that is one modulo \<open>2 ^ 32\<close> overwrites the first element of the array, and the slot that was counted for it is never filled.
\<close>

theorem wide_key_overwrites:
  "lnewconf demo_len 1 [(VInt 1, VBool True), (VInt (2 ^ 32 + 1), VBool False)] = Inr ([None, None], Table [SV_boolean False] [None])"
  "lindexconf [None, None] (Table [SV_boolean False] [None]) (VInt 1) = Some (Inr (P_boolean False))"
  "lnextkey [None, None] (Table [SV_boolean False] [None]) (VInt 1) = None"
  by code_simp+

end
