(* ===== verification/Store.thy ===== *)
theory Store
  imports Prelude
begin

text \<open>
  A store of memory blocks by address, for the libraries whose objects are freed and allocated again. The allocator is a parameter (\<open>al\<close>, which sees how often it was called
  and what is in use); it may give back any address that is free. \<open>None\<close> is a use of freed memory.
\<close>

record 'c store =
  st_heap :: "addr \<rightharpoonup> 'c"
  st_calls :: nat

type_synonym 'c allocator = "nat \<Rightarrow> (addr \<rightharpoonup> 'c) \<Rightarrow> addr"

definition free_cell :: "addr \<Rightarrow> 'c store \<Rightarrow> 'c store option" where
  "free_cell a S =
     (if a = 0 then Some S
      else if st_heap S a = None then None
      else Some (S\<lparr>st_heap := (st_heap S)(a := None)\<rparr>))"

definition new_cell :: "'c allocator \<Rightarrow> 'c \<Rightarrow> 'c store \<Rightarrow> addr \<times> 'c store" where
  "new_cell al x S = (let a = al (st_calls S) (st_heap S) in (a, S\<lparr>st_heap := (st_heap S)(a \<mapsto> x), st_calls := st_calls S + 1\<rparr>))"

definition set_cell :: "addr \<Rightarrow> 'c \<Rightarrow> 'c store \<Rightarrow> 'c store" where
  "set_cell a x S = S\<lparr>st_heap := (st_heap S)(a \<mapsto> x)\<rparr>"

definition fresh_alloc :: "'c allocator \<Rightarrow> bool" where
  "fresh_alloc al \<longleftrightarrow> (\<forall>n h. finite (dom h) \<longrightarrow> al n h \<noteq> 0 \<and> h (al n h) = None)"

lemma fresh_alloc_at:
  assumes "fresh_alloc al" "finite (dom h)"
  shows "al n h \<noteq> 0" "h (al n h) = None"
  using assms unfolding fresh_alloc_def by simp_all

text \<open>An allocator that gives the lowest free address, so that freed addresses come back at once.\<close>

definition lowest_free :: "'c allocator" where
  "lowest_free n h = (LEAST a. a \<noteq> 0 \<and> h a = None)"

lemma lowest_free_fresh: "fresh_alloc (lowest_free :: 'c allocator)"
  unfolding fresh_alloc_def
proof (intro allI impI)
  fix n and h :: "addr \<rightharpoonup> 'c"
  assume "finite (dom h)"
  then obtain a where "a \<notin> insert 0 (dom h)" using ex_new_if_finite [OF infinite_UNIV_nat, of "insert 0 (dom h)"] by blast
  then have "\<exists>a. a \<noteq> 0 \<and> h a = None" by (intro exI [of _ a]) (simp add: domIff)
  then show "lowest_free n h \<noteq> 0 \<and> h (lowest_free n h) = None" unfolding lowest_free_def by (rule LeastI_ex)
qed

end
