(* ===== verification/Stm.thy ===== *)
theory Stm
  imports Store
begin

text \<open>
  Software transactional memory between services, \<open>src/lualib/lstm.c\<close>: a writer publishes copies of a message, readers take the last one; objects and copies are
  counted references. Objects, copies and message blocks live in one store. \<open>None\<close> is a use of freed memory or a failed assertion. Each function is a step on the store. The writer's
  functions hold the object's write lock, so nothing else happens to the object meanwhile; \<open>stm_grab\<close> and \<open>stm_copy\<close> hold its read lock and make one atomic access.
  \<open>stm_releasereader\<close> holds the read lock only and accesses the object twice, so it is modelled as two steps: the count-down and the unlock, between which another
  reader can run.
\<close>

section \<open>State\<close>

record stm_object =
  o_reference :: int
  o_copy :: addr

record stm_copy =
  c_reference :: int
  c_sz :: u32
  c_msg :: addr

datatype cell = Obj stm_object | Copy stm_copy | Block bytes

type_synonym stm = "cell store"

definition object_at :: "addr \<Rightarrow> stm \<Rightarrow> stm_object option" where
  "object_at a S = (case st_heap S a of Some (Obj x) \<Rightarrow> Some x | _ \<Rightarrow> None)"

definition copy_at :: "addr \<Rightarrow> stm \<Rightarrow> stm_copy option" where
  "copy_at a S = (case st_heap S a of Some (Copy x) \<Rightarrow> Some x | _ \<Rightarrow> None)"

section \<open>Operations\<close>

definition stm_newcopy :: "cell allocator \<Rightarrow> addr \<Rightarrow> int \<Rightarrow> stm \<Rightarrow> addr \<times> stm" where
  "stm_newcopy al msg sz S = new_cell al (Copy \<lparr>c_reference = 1, c_sz = word_of_int sz, c_msg = msg\<rparr>) S"

definition stm_new :: "cell allocator \<Rightarrow> addr \<Rightarrow> int \<Rightarrow> stm \<Rightarrow> addr \<times> stm" where
  "stm_new al msg sz S =
     (let (obj, S) = new_cell al (Obj \<lparr>o_reference = 1, o_copy = 0\<rparr>) S;
          (copy, S) = stm_newcopy al msg sz S in
      (obj, set_cell obj (Obj \<lparr>o_reference = 1, o_copy = copy\<rparr>) S))"

definition stm_releasecopy :: "addr \<Rightarrow> stm \<Rightarrow> stm option" where
  "stm_releasecopy copy S =
     (if copy = 0 then Some S
      else do {
        c \<leftarrow> copy_at copy S;
        if c_reference c - 1 = 0 then do { S \<leftarrow> free_cell (c_msg c) S; free_cell copy S }
        else Some (set_cell copy (Copy (c\<lparr>c_reference := c_reference c - 1\<rparr>)) S) })"

definition stm_release :: "addr \<Rightarrow> stm \<Rightarrow> stm option" where
  "stm_release obj S = do {
     x \<leftarrow> object_at obj S;
     if o_copy x = 0 then None
     else do {
       S \<leftarrow> stm_releasecopy (o_copy x) S;
       if o_reference x - 1 > 0 then Some (set_cell obj (Obj \<lparr>o_reference = o_reference x - 1, o_copy = 0\<rparr>) S)
       else free_cell obj S } }"

text \<open>
  \<open>stm_releasereader\<close>: the count-down, which frees the object at zero (\<open>True\<close>: there is no lock left to give back), and otherwise \<open>rwlock_runlock\<close>, a write to the
  object.
\<close>

definition releasereader_drop :: "addr \<Rightarrow> stm \<Rightarrow> (bool \<times> stm) option" where
  "releasereader_drop obj S = do {
     x \<leftarrow> object_at obj S;
     if o_reference x - 1 = 0 then if o_copy x \<noteq> 0 then None else do { S \<leftarrow> free_cell obj S; Some (True, S) }
     else Some (False, set_cell obj (Obj (x\<lparr>o_reference := o_reference x - 1\<rparr>)) S) }"

definition releasereader_unlock :: "addr \<Rightarrow> stm \<Rightarrow> stm option" where
  "releasereader_unlock obj S = do { _ \<leftarrow> object_at obj S; Some S }"

definition stm_releasereader :: "addr \<Rightarrow> stm \<Rightarrow> stm option" where
  "stm_releasereader obj S = do {
     (gone, S) \<leftarrow> releasereader_drop obj S;
     if gone then Some S else releasereader_unlock obj S }"

definition stm_grab :: "addr \<Rightarrow> stm \<Rightarrow> stm option" where
  "stm_grab obj S = do {
     x \<leftarrow> object_at obj S;
     if o_reference x > 0 then Some (set_cell obj (Obj (x\<lparr>o_reference := o_reference x + 1\<rparr>)) S) else None }"

definition stm_copy_of :: "addr \<Rightarrow> stm \<Rightarrow> (addr \<times> stm) option" where
  "stm_copy_of obj S = do {
     x \<leftarrow> object_at obj S;
     if o_copy x = 0 then Some (0, S)
     else do {
       c \<leftarrow> copy_at (o_copy x) S;
       if c_reference c > 0 then Some (o_copy x, set_cell (o_copy x) (Copy (c\<lparr>c_reference := c_reference c + 1\<rparr>)) S) else None } }"

definition stm_update :: "cell allocator \<Rightarrow> addr \<Rightarrow> addr \<Rightarrow> int \<Rightarrow> stm \<Rightarrow> stm option" where
  "stm_update al obj msg sz S = do {
     let (copy, S) = stm_newcopy al msg sz S;
     x \<leftarrow> object_at obj S;
     let S = set_cell obj (Obj (x\<lparr>o_copy := copy\<rparr>)) S;
     stm_releasecopy (o_copy x) S }"

section \<open>The Lua functions\<close>

text \<open>A message is a block that the caller gives away, with its size, or a string, which is copied.\<close>

datatype stm_arg = Given addr int | Text bytes

definition take_msg :: "cell allocator \<Rightarrow> stm_arg \<Rightarrow> stm \<Rightarrow> addr \<times> int \<times> stm" where
  "take_msg al x S =
     (case x of
        Given p n \<Rightarrow> (p, n, S)
      | Text bs \<Rightarrow> if bs = [] then (0, 0, S) else (let (p, S) = new_cell al (Block bs) S in (p, int (length bs), S)))"

record boxreader =
  r_obj :: addr
  r_lastcopy :: addr

definition lcopy :: "addr \<Rightarrow> stm \<Rightarrow> (addr \<times> stm) option" where
  "lcopy obj S = do { S \<leftarrow> stm_grab obj S; Some (obj, S) }"

definition lnewwriter :: "cell allocator \<Rightarrow> stm_arg \<Rightarrow> stm \<Rightarrow> addr \<times> stm" where
  "lnewwriter al x S = (let (msg, sz, S) = take_msg al x S in stm_new al msg sz S)"

definition ldeletewriter :: "addr \<Rightarrow> stm \<Rightarrow> (addr \<times> stm) option" where
  "ldeletewriter obj S = do { S \<leftarrow> stm_release obj S; Some (0, S) }"

definition lupdate :: "cell allocator \<Rightarrow> addr \<Rightarrow> stm_arg \<Rightarrow> stm \<Rightarrow> stm option" where
  "lupdate al obj x S = (let (msg, sz, S) = take_msg al x S in stm_update al obj msg sz S)"

definition lnewreader :: "addr \<Rightarrow> boxreader" where
  "lnewreader obj = \<lparr>r_obj = obj, r_lastcopy = 0\<rparr>"

definition ldeletereader :: "boxreader \<Rightarrow> stm \<Rightarrow> (boxreader \<times> stm) option" where
  "ldeletereader r S = do {
     S \<leftarrow> stm_releasereader (r_obj r) S;
     S \<leftarrow> stm_releasecopy (r_lastcopy r) S;
     Some (\<lparr>r_obj = 0, r_lastcopy = 0\<rparr>, S) }"

text \<open>\<open>lread\<close>: the message and its size for the function of the caller, or false.\<close>

definition lread :: "boxreader \<Rightarrow> stm \<Rightarrow> ((addr \<times> u32) option \<times> boxreader \<times> stm) option" where
  "lread r S = do {
     (copy, S) \<leftarrow> stm_copy_of (r_obj r) S;
     if copy = r_lastcopy r then do { S \<leftarrow> stm_releasecopy copy S; Some (None, r, S) }
     else do {
       S \<leftarrow> stm_releasecopy (r_lastcopy r) S;
       let r = r\<lparr>r_lastcopy := copy\<rparr>;
       if copy = 0 then Some (None, r, S)
       else do { c \<leftarrow> copy_at copy S; Some (Some (c_msg c, c_sz c), r, S) } } }"

section \<open>What the store holds\<close>

text \<open>
  A store seen from outside: for each address the number of references to the object there and the copy it holds, the number of references to the copy there and its
  message. Nothing else is allocated.
\<close>

record view =
  v_obj :: "addr \<Rightarrow> nat"
  v_cur :: "addr \<Rightarrow> addr"
  v_copy :: "addr \<Rightarrow> nat"
  v_val :: "addr \<Rightarrow> bytes"

definition msg_ok :: "(addr \<rightharpoonup> cell) \<Rightarrow> stm_copy \<Rightarrow> bytes \<Rightarrow> bool" where
  "msg_ok h c bs \<longleftrightarrow> length bs < 2 ^ 31 \<and> c_sz c = of_nat (length bs) \<and> (if bs = [] then c_msg c = 0 else c_msg c \<noteq> 0 \<and> h (c_msg c) = Some (Block bs))"

definition holds :: "(addr \<rightharpoonup> cell) \<Rightarrow> view \<Rightarrow> bool" where
  "holds h v \<longleftrightarrow> finite (dom h) \<and> h 0 = None \<and>
     (\<forall>a x. h a = Some (Obj x) \<longrightarrow> 0 < v_obj v a \<and> o_reference x = int (v_obj v a) \<and> o_copy x = v_cur v a) \<and>
     (\<forall>a. 0 < v_obj v a \<longrightarrow> (\<exists>x. h a = Some (Obj x))) \<and>
     (\<forall>a c. h a = Some (Copy c) \<longrightarrow> 0 < v_copy v a \<and> c_reference c = int (v_copy v a) \<and> msg_ok h c (v_val v a)) \<and>
     (\<forall>a. 0 < v_copy v a \<longrightarrow> (\<exists>c. h a = Some (Copy c))) \<and>
     (\<forall>a b c d. h a = Some (Copy c) \<longrightarrow> h b = Some (Copy d) \<longrightarrow> c_msg c = c_msg d \<longrightarrow> c_msg c \<noteq> 0 \<longrightarrow> a = b) \<and>
     (\<forall>p bs. h p = Some (Block bs) \<longrightarrow> (\<exists>a c. h a = Some (Copy c) \<and> c_msg c = p))"

lemma holdsD:
  assumes "holds h v"
  shows "finite (dom h)" "h 0 = None" "\<And>a x. h a = Some (Obj x) \<Longrightarrow> 0 < v_obj v a \<and> o_reference x = int (v_obj v a) \<and> o_copy x = v_cur v a"
    "\<And>a. 0 < v_obj v a \<Longrightarrow> \<exists>x. h a = Some (Obj x)"
    "\<And>a c. h a = Some (Copy c) \<Longrightarrow> 0 < v_copy v a \<and> c_reference c = int (v_copy v a) \<and> msg_ok h c (v_val v a)"
    "\<And>a. 0 < v_copy v a \<Longrightarrow> \<exists>c. h a = Some (Copy c)"
    "\<And>a b c d. h a = Some (Copy c) \<Longrightarrow> h b = Some (Copy d) \<Longrightarrow> c_msg c = c_msg d \<Longrightarrow> c_msg c \<noteq> 0 \<Longrightarrow> a = b"
    "\<And>p bs. h p = Some (Block bs) \<Longrightarrow> \<exists>a c. h a = Some (Copy c) \<and> c_msg c = p"
  using assms unfolding holds_def by meson+

lemma holdsI:
  assumes "finite (dom h)" "h 0 = None" "\<And>a x. h a = Some (Obj x) \<Longrightarrow> 0 < v_obj v a \<and> o_reference x = int (v_obj v a) \<and> o_copy x = v_cur v a"
    "\<And>a. 0 < v_obj v a \<Longrightarrow> \<exists>x. h a = Some (Obj x)"
    "\<And>a c. h a = Some (Copy c) \<Longrightarrow> 0 < v_copy v a \<and> c_reference c = int (v_copy v a) \<and> msg_ok h c (v_val v a)"
    "\<And>a. 0 < v_copy v a \<Longrightarrow> \<exists>c. h a = Some (Copy c)"
    "\<And>a b c d. h a = Some (Copy c) \<Longrightarrow> h b = Some (Copy d) \<Longrightarrow> c_msg c = c_msg d \<Longrightarrow> c_msg c \<noteq> 0 \<Longrightarrow> a = b"
    "\<And>p bs. h p = Some (Block bs) \<Longrightarrow> \<exists>a c. h a = Some (Copy c) \<and> c_msg c = p"
  shows "holds h v"
  unfolding holds_def using assms by meson

text \<open>The effect of each access to the store on the view.\<close>

lemma object_holds:
  assumes "holds (st_heap S) v" "0 < v_obj v a"
  shows "object_at a S = Some \<lparr>o_reference = int (v_obj v a), o_copy = v_cur v a\<rparr>"
proof -
  obtain x where "st_heap S a = Some (Obj x)" using holdsD(4) [OF assms] by blast
  then show ?thesis using holdsD(3) [OF assms(1)] by (simp add: object_at_def)
qed

lemma set_object:
  assumes "holds h v" "a \<noteq> 0" "0 < v_obj v a \<or> h a = None" "0 < n"
  shows "holds (h(a \<mapsto> Obj \<lparr>o_reference = int n, o_copy = p\<rparr>)) (v\<lparr>v_obj := (v_obj v)(a := n), v_cur := (v_cur v)(a := p)\<rparr>)"
proof -
  note d = holdsD [OF assms(1)]
  let ?h = "h(a \<mapsto> Obj \<lparr>o_reference = int n, o_copy = p\<rparr>)"
  have "h a = None \<or> (\<exists>x. h a = Some (Obj x))" using d(4) assms(3) by blast
  then have x: "h a \<noteq> Some (Copy c)" "h a \<noteq> Some (Block bs)" for c bs by auto
  have same: "?h b = Some (Copy c) \<longleftrightarrow> h b = Some (Copy c)" "?h b = Some (Block bs) \<longleftrightarrow> h b = Some (Block bs)" for b c bs using x by auto
  have m: "msg_ok ?h c bs" if "msg_ok h c bs" for c bs using that x by (auto simp: msg_ok_def split: if_splits)
  show ?thesis
  proof (rule holdsI, unfold same)
    show "?h 0 = None" using assms(2) d(2) by simp
  qed (use d assms(4) m in \<open>auto split: if_splits\<close>)
qed

lemma free_object:
  assumes "holds h v" "0 < v_obj v a"
  shows "holds (h(a := None)) (v\<lparr>v_obj := (v_obj v)(a := 0)\<rparr>)"
proof -
  note d = holdsD [OF assms(1)]
  obtain x where x: "h a = Some (Obj x)" using d(4) assms(2) by blast
  have same: "(h(a := None)) b = Some (Copy c) \<longleftrightarrow> h b = Some (Copy c)" "(h(a := None)) b = Some (Block bs) \<longleftrightarrow> h b = Some (Block bs)" for b c bs using x by auto
  have m: "msg_ok (h(a := None)) c bs" if "msg_ok h c bs" for c bs using that x by (auto simp: msg_ok_def split: if_splits)
  show ?thesis by (rule holdsI, unfold same) (use d m in \<open>auto split: if_splits\<close>)
qed

lemma copy_holds:
  assumes "holds (st_heap S) v" "0 < v_copy v a"
  obtains c where "copy_at a S = Some c" "st_heap S a = Some (Copy c)" "c_reference c = int (v_copy v a)" "msg_ok (st_heap S) c (v_val v a)"
proof -
  obtain c where "st_heap S a = Some (Copy c)" using holdsD(6) [OF assms] by blast
  then show thesis using holdsD(5) [OF assms(1)] that [of c] by (simp add: copy_at_def)
qed

lemma set_copy:
  assumes "holds h v" "h a = Some (Copy c)" "0 < n"
  shows "holds (h(a \<mapsto> Copy (c\<lparr>c_reference := int n\<rparr>))) (v\<lparr>v_copy := (v_copy v)(a := n)\<rparr>)"
proof -
  note d = holdsD [OF assms(1)]
  let ?h = "h(a \<mapsto> Copy (c\<lparr>c_reference := int n\<rparr>))"
  have same: "?h b = Some (Obj x) \<longleftrightarrow> h b = Some (Obj x)" "?h b = Some (Block bs) \<longleftrightarrow> h b = Some (Block bs)" for b x bs using assms(2) by auto
  have m: "msg_ok ?h e bs" if "msg_ok h e bs" for e bs using that assms(2) by (auto simp: msg_ok_def split: if_splits)
  have m': "msg_ok ?h (c\<lparr>c_reference := k\<rparr>) bs" if "msg_ok h c bs" for k bs using m [OF that] by (auto simp: msg_ok_def split: if_splits)
  have cp: "\<exists>e'. h b = Some (Copy e') \<and> c_msg e' = c_msg e" if "?h b = Some (Copy e)" for b e using that assms(2) by (auto split: if_splits)
  have a0: "a \<noteq> 0" using d(2) assms(2) by (metis option.distinct(1))
  show ?thesis
  proof (rule holdsI, unfold same)
    show "b = b'" if a: "?h b = Some (Copy e)" "?h b' = Some (Copy e')" "c_msg e = c_msg e'" "c_msg e \<noteq> 0" for b b' e e'
      using cp [OF a(1)] cp [OF a(2)] a(3,4) d(7) by metis
    show "\<exists>b e. ?h b = Some (Copy e) \<and> c_msg e = q" if q: "h q = Some (Block bs)" for q bs
    proof -
      obtain b e where b: "h b = Some (Copy e)" "c_msg e = q" using d(8) q by blast
      then show ?thesis using assms(2) by (cases "b = a") (auto intro: exI [of _ b])
    qed
    show "0 < v_copy (v\<lparr>v_copy := (v_copy v)(a := n)\<rparr>) b \<and> c_reference e = int (v_copy (v\<lparr>v_copy := (v_copy v)(a := n)\<rparr>) b) \<and> msg_ok ?h e (v_val (v\<lparr>v_copy := (v_copy v)(a := n)\<rparr>) b)"
      if "?h b = Some (Copy e)" for b e using that d(5) [of b e] d(5) [OF assms(2)] m m' assms(3) by (cases "b = a") auto
    show "\<exists>e. ?h b = Some (Copy e)" if "0 < v_copy (v\<lparr>v_copy := (v_copy v)(a := n)\<rparr>) b" for b using that d(6) [of b] by (cases "b = a") auto
  qed (use d a0 in \<open>auto\<close>)
qed

text \<open>A message is stored in a block of its own, no message in none.\<close>

definition stored :: "(addr \<rightharpoonup> cell) \<Rightarrow> bytes \<Rightarrow> addr \<Rightarrow> (addr \<rightharpoonup> cell) \<Rightarrow> bool" where
  "stored h bs p h' \<longleftrightarrow> (if bs = [] then p = 0 \<and> h' = h else p \<noteq> 0 \<and> h p = None \<and> h' = h(p \<mapsto> Block bs))"

lemma add_copy:
  assumes "holds h v" "stored h bs p h'" "a \<noteq> 0" "h' a = None" "length bs < 2 ^ 31"
  shows "holds (h'(a \<mapsto> Copy \<lparr>c_reference = 1, c_sz = of_nat (length bs), c_msg = p\<rparr>)) (v\<lparr>v_copy := (v_copy v)(a := 1), v_val := (v_val v)(a := bs)\<rparr>)"
proof -
  note d = holdsD [OF assms(1)]
  let ?c = "\<lparr>c_reference = 1, c_sz = of_nat (length bs), c_msg = p\<rparr>"
  let ?g = "h'(a \<mapsto> Copy ?c)"
  let ?v = "v\<lparr>v_copy := (v_copy v)(a := 1), v_val := (v_val v)(a := bs)\<rparr>"
  have ha: "h a = None" and ap: "bs \<noteq> [] \<Longrightarrow> a \<noteq> p" using assms(2,4) by (auto simp: stored_def split: if_splits)
  have obj: "?g b = Some (Obj x) \<longleftrightarrow> h b = Some (Obj x)" for b x using assms(2) ha by (auto simp: stored_def split: if_splits)
  have copy: "?g b = Some (Copy e) \<longleftrightarrow> h b = Some (Copy e) \<or> b = a \<and> e = ?c" for b e using assms(2) ha by (auto simp: stored_def split: if_splits)
  have blk: "?g b = Some (Block q) \<longleftrightarrow> h b = Some (Block q) \<or> bs \<noteq> [] \<and> b = p \<and> q = bs" for b q using assms(2) ha ap by (auto simp: stored_def split: if_splits)
  have m: "msg_ok ?g e q" if "msg_ok h e q" for e q using that by (auto simp: msg_ok_def blk split: if_splits simp del: fun_upd_apply)
  have mc: "msg_ok ?g ?c bs" using assms(2,5) blk [of p bs] by (auto simp: msg_ok_def stored_def split: if_splits simp del: fun_upd_apply)
  have used: "c_msg e \<noteq> p \<or> p = 0" if "h b = Some (Copy e)" for b e
    using d(5) [OF that] assms(2) by (auto simp: msg_ok_def stored_def split: if_splits)
  show ?thesis
  proof (rule holdsI, unfold obj copy blk)
    show "finite (dom ?g)" using d(1) assms(2) by (auto simp: stored_def split: if_splits)
    show "?g 0 = None" using d(2) assms(2,3) by (auto simp: stored_def split: if_splits)
    show "0 < v_copy ?v b \<and> c_reference e = int (v_copy ?v b) \<and> msg_ok ?g e (v_val ?v b)" if "h b = Some (Copy e) \<or> b = a \<and> e = ?c" for b e
      using that d(5) [of b e] ha m mc by (cases "b = a") (auto simp del: fun_upd_apply simp: fun_upd_same fun_upd_other)
    show "\<exists>e. h b = Some (Copy e) \<or> b = a \<and> e = ?c" if "0 < v_copy ?v b" for b using that d(6) [of b] by (cases "b = a") auto
    show "b = b'" if "h b = Some (Copy e) \<or> b = a \<and> e = ?c" "h b' = Some (Copy e') \<or> b' = a \<and> e' = ?c" "c_msg e = c_msg e'" "c_msg e \<noteq> 0" for b b' e e'
      using that used [of b e] used [of b' e'] d(7) [of b e b' e'] by auto
    show "\<exists>b e. (h b = Some (Copy e) \<or> b = a \<and> e = ?c) \<and> c_msg e = q" if "h q = Some (Block r) \<or> bs \<noteq> [] \<and> q = p \<and> r = bs" for q r
      using that d(8) [of q r] by (elim disjE) (blast, auto intro!: exI [of _ a] exI [of _ ?c])
  qed (use d in auto)
qed

lemma free_copy:
  assumes "holds h v" "h a = Some (Copy c)"
  shows "holds (h(c_msg c := None, a := None)) (v\<lparr>v_copy := (v_copy v)(a := 0)\<rparr>)"
proof -
  note d = holdsD [OF assms(1)]
  let ?g = "h(c_msg c := None, a := None)"
  have p: "h (c_msg c) = None \<or> (\<exists>bs. h (c_msg c) = Some (Block bs))" using d(5) [OF assms(2)] d(2) by (auto simp: msg_ok_def split: if_splits)
  have obj: "?g b = Some (Obj x) \<longleftrightarrow> h b = Some (Obj x)" for b x using assms(2) p by auto
  have copy: "?g b = Some (Copy e) \<longleftrightarrow> b \<noteq> a \<and> h b = Some (Copy e)" for b e using assms(2) p by auto
  have blk: "?g b = Some (Block q) \<longleftrightarrow> b \<noteq> c_msg c \<and> h b = Some (Block q)" for b q using assms(2) by auto
  have m: "msg_ok ?g e q" if "msg_ok h e q" "h b = Some (Copy e)" "b \<noteq> a" for e q b
    using that d(7) [OF assms(2) that(2)] by (auto simp: msg_ok_def blk split: if_splits simp del: fun_upd_apply)
  show ?thesis
  proof (rule holdsI, unfold obj copy blk)
    show "finite (dom ?g)" using d(1) by simp
    show "?g 0 = None" using d(2) by simp
    show "\<exists>b e. (b \<noteq> a \<and> h b = Some (Copy e)) \<and> c_msg e = q" if q: "q \<noteq> c_msg c \<and> h q = Some (Block r)" for q r
    proof -
      obtain b e where b: "h b = Some (Copy e)" "c_msg e = q" using d(8) q by blast
      then have "b \<noteq> a" using q assms(2) by auto
      with b show ?thesis by blast
    qed
    show "b = b'" if "b \<noteq> a \<and> h b = Some (Copy e)" "b' \<noteq> a \<and> h b' = Some (Copy e')" "c_msg e = c_msg e'" "c_msg e \<noteq> 0" for b b' e e'
      using that d(7) by blast
    show "0 < v_copy (v\<lparr>v_copy := (v_copy v)(a := 0)\<rparr>) b \<and> c_reference e = int (v_copy (v\<lparr>v_copy := (v_copy v)(a := 0)\<rparr>) b) \<and> msg_ok ?g e (v_val (v\<lparr>v_copy := (v_copy v)(a := 0)\<rparr>) b)"
      if e: "b \<noteq> a \<and> h b = Some (Copy e)" for b e using e d(5) [of b e] m [of e "v_val v b" b] by simp
    show "\<exists>e. b \<noteq> a \<and> h b = Some (Copy e)" if "0 < v_copy (v\<lparr>v_copy := (v_copy v)(a := 0)\<rparr>) b" for b using that d(6) [of b] by (cases "b = a") auto
  qed (use d in auto)
qed

definition drop_ref :: "addr \<Rightarrow> view \<Rightarrow> view" where
  "drop_ref c v = (if c = 0 then v else v\<lparr>v_copy := (v_copy v)(c := v_copy v c - 1)\<rparr>)"

lemma drop_ref_simps [simp]: "v_obj (drop_ref c v) = v_obj v" "v_cur (drop_ref c v) = v_cur v" "v_val (drop_ref c v) = v_val v"
  by (simp_all add: drop_ref_def)

lemma releasecopy_effect:
  assumes "holds (st_heap S) v" "c \<noteq> 0 \<Longrightarrow> 0 < v_copy v c"
  obtains S' where "stm_releasecopy c S = Some S'" "holds (st_heap S') (drop_ref c v)"
proof (cases "c = 0")
  case True
  with assms(1) that show thesis by (simp add: stm_releasecopy_def drop_ref_def)
next
  case False
  then obtain x where x: "copy_at c S = Some x" "st_heap S c = Some (Copy x)" "c_reference x = int (v_copy v c)" "msg_ok (st_heap S) x (v_val v c)"
    using copy_holds [OF assms(1)] assms(2) by blast
  show thesis
  proof (cases "v_copy v c = 1")
    case True
    have "c_msg x \<noteq> c" using x(2,4) \<open>c \<noteq> 0\<close> by (auto simp: msg_ok_def split: if_splits)
    moreover have "c_msg x \<noteq> 0 \<Longrightarrow> st_heap S (c_msg x) \<noteq> None" using x(4) by (auto simp: msg_ok_def split: if_splits)
    moreover have "c_msg x = 0 \<Longrightarrow> (st_heap S)(c_msg x := None) = st_heap S" using holdsD(2) [OF assms(1)] by auto
    moreover have "holds ((st_heap S)(c_msg x := None, c := None)) (drop_ref c v)"
      using free_copy [OF assms(1) x(2)] False True by (simp add: drop_ref_def)
    ultimately show thesis using that x False True by (cases "c_msg x = 0") (auto simp: stm_releasecopy_def free_cell_def)
  next
    case more: False
    then have k: "0 < v_copy v c - 1" "int (v_copy v c - 1) = int (v_copy v c) - 1" using assms(2) False by linarith+
    show thesis
      using that set_copy [OF assms(1) x(2) k(1)] x False more k(2) by (simp add: stm_releasecopy_def drop_ref_def set_cell_def)
  qed
qed

text \<open>The operations on an object.\<close>

lemma grab_effect:
  assumes "holds (st_heap S) v" "0 < v_obj v a"
  obtains S' where "stm_grab a S = Some S'" "holds (st_heap S') (v\<lparr>v_obj := (v_obj v)(a := v_obj v a + 1)\<rparr>)"
proof -
  have "a \<noteq> 0" using holdsD(2,4) [OF assms(1)] assms(2) by (metis option.distinct(1))
  moreover have "v\<lparr>v_obj := (v_obj v)(a := v_obj v a + 1), v_cur := (v_cur v)(a := v_cur v a)\<rparr> = v\<lparr>v_obj := (v_obj v)(a := v_obj v a + 1)\<rparr>" by simp
  ultimately show thesis
    using that object_holds [OF assms] set_object [of "st_heap S" v a "v_obj v a + 1" "v_cur v a"] assms by (simp add: stm_grab_def set_cell_def algebra_simps)
qed

lemma releasereader_effect:
  assumes "holds (st_heap S) v" "0 < v_obj v a" "v_obj v a = 1 \<Longrightarrow> v_cur v a = 0"
  obtains S' where "stm_releasereader a S = Some S'" "holds (st_heap S') (v\<lparr>v_obj := (v_obj v)(a := v_obj v a - 1)\<rparr>)"
proof (cases "v_obj v a = 1")
  case True
  obtain x where "st_heap S a = Some (Obj x)" using holdsD(4) [OF assms(1,2)] by blast
  moreover have "a \<noteq> 0" using holdsD(2,4) [OF assms(1)] assms(2) by (metis option.distinct(1))
  ultimately show thesis
    using that object_holds [OF assms(1,2)] free_object [OF assms(1,2)] True assms(3) by (simp add: stm_releasereader_def releasereader_drop_def free_cell_def)
next
  case False
  have "a \<noteq> 0" using holdsD(2,4) [OF assms(1)] assms(2) by (metis option.distinct(1))
  moreover have "v\<lparr>v_obj := (v_obj v)(a := v_obj v a - 1), v_cur := (v_cur v)(a := v_cur v a)\<rparr> = v\<lparr>v_obj := (v_obj v)(a := v_obj v a - 1)\<rparr>" by simp
  moreover have "int (v_obj v a - 1) = int (v_obj v a) - 1" using assms(2) by linarith
  ultimately show thesis
    using that object_holds [OF assms(1,2)] set_object [of "st_heap S" v a "v_obj v a - 1" "v_cur v a"] assms False by (simp add: stm_releasereader_def releasereader_drop_def releasereader_unlock_def set_cell_def object_at_def [of _ "_\<lparr>st_heap := _\<rparr>"])
qed

lemma cur_irrelevant:
  assumes "holds h v" "v_obj v a = 0"
  shows "holds h (v\<lparr>v_cur := (v_cur v)(a := p)\<rparr>)"
proof -
  have "h a \<noteq> Some (Obj x)" for x using holdsD(3) [OF assms(1), of a x] assms(2) by auto
  then show ?thesis by - (rule holdsI; use holdsD [OF assms(1)] in \<open>auto split: if_splits\<close>)
qed

lemma release_effect:
  assumes "holds (st_heap S) v" "0 < v_obj v a" "v_cur v a \<noteq> 0" "0 < v_copy v (v_cur v a)"
  obtains S' where "stm_release a S = Some S'"
    "holds (st_heap S') ((drop_ref (v_cur v a) v)\<lparr>v_obj := (v_obj v)(a := v_obj v a - 1), v_cur := (v_cur v)(a := 0)\<rparr>)"
proof -
  obtain S1 where r: "stm_releasecopy (v_cur v a) S = Some S1" and h: "holds (st_heap S1) (drop_ref (v_cur v a) v)"
    using releasecopy_effect [OF assms(1), of "v_cur v a"] assms(4) by blast
  have o: "0 < v_obj (drop_ref (v_cur v a) v) a" using assms(2) by simp
  obtain x where x: "st_heap S1 a = Some (Obj x)" using holdsD(4) [OF h o] by blast
  have a: "a \<noteq> 0" using holdsD(2) [OF h] x by (metis option.distinct(1))
  show thesis
  proof (cases "v_obj v a = 1")
    case True
    have "holds ((st_heap S1)(a := None)) ((drop_ref (v_cur v a) v)\<lparr>v_obj := (v_obj v)(a := 0)\<rparr>)" using free_object [OF h o] by simp
    from cur_irrelevant [OF this, of a 0] show thesis
      using that object_holds [OF assms(1,2)] r x a True assms(3) by (simp add: stm_release_def free_cell_def)
  next
    case False
    moreover have "int (v_obj v a - 1) = int (v_obj v a) - 1" using assms(2) by linarith
    ultimately show thesis
      using that object_holds [OF assms(1,2)] r a assms(2,3) set_object [OF h a, of "v_obj v a - 1" 0]
      by (simp add: stm_release_def set_cell_def)
  qed
qed

lemma copy_of_effect:
  assumes "holds (st_heap S) v" "0 < v_obj v a" "v_cur v a \<noteq> 0 \<Longrightarrow> 0 < v_copy v (v_cur v a)"
  obtains S' where "stm_copy_of a S = Some (v_cur v a, S')"
    "holds (st_heap S') (if v_cur v a = 0 then v else v\<lparr>v_copy := (v_copy v)(v_cur v a := v_copy v (v_cur v a) + 1)\<rparr>)"
proof (cases "v_cur v a = 0")
  case True
  with that object_holds [OF assms(1,2)] assms(1) show thesis by (simp add: stm_copy_of_def)
next
  case False
  then obtain x where "copy_at (v_cur v a) S = Some x" "st_heap S (v_cur v a) = Some (Copy x)" "c_reference x = int (v_copy v (v_cur v a))"
    using copy_holds [OF assms(1)] assms(3) by blast
  then show thesis
    using that False object_holds [OF assms(1,2)] assms(3) set_copy [OF assms(1), of "v_cur v a" x "v_copy v (v_cur v a) + 1"]
    by (simp add: stm_copy_of_def set_cell_def algebra_simps)
qed

text \<open>Allocation: a message is taken from the caller, or copied, and put into a new copy.\<close>

lemma stored_finite: "stored h bs p h' \<Longrightarrow> finite (dom h) \<Longrightarrow> finite (dom h')"
  by (auto simp: stored_def split: if_splits)

lemma update_effect:
  assumes "fresh_alloc al" "holds h v" "stored h bs p (st_heap S)" "length bs < 2 ^ 31" "0 < v_obj v a" "v_cur v a \<noteq> 0 \<Longrightarrow> 0 < v_copy v (v_cur v a)"
  obtains S' c where "stm_update al a p (int (length bs)) S = Some S'" "c \<noteq> 0" "v_copy v c = 0"
    "holds (st_heap S') (drop_ref (v_cur v a) (v\<lparr>v_copy := (v_copy v)(c := 1), v_val := (v_val v)(c := bs), v_cur := (v_cur v)(a := c)\<rparr>))"
proof -
  note d = holdsD [OF assms(2)]
  define c where "c = al (st_calls S) (st_heap S)"
  have c: "c \<noteq> 0" "st_heap S c = None"
    using fresh_alloc_at [OF assms(1) stored_finite [OF assms(3) d(1)]] by (simp_all add: c_def)
  then have hc: "h c = None" using assms(3) by (auto simp: stored_def split: if_splits)
  have vc: "v_copy v c = 0" using d(6) [of c] hc by auto
  let ?S = "S\<lparr>st_heap := (st_heap S)(c \<mapsto> Copy \<lparr>c_reference = 1, c_sz = of_nat (length bs), c_msg = p\<rparr>), st_calls := st_calls S + 1\<rparr>"
  let ?v = "v\<lparr>v_copy := (v_copy v)(c := 1), v_val := (v_val v)(c := bs)\<rparr>"
  have n: "stm_newcopy al p (int (length bs)) S = (c, ?S)" by (simp add: stm_newcopy_def new_cell_def c_def Let_def)
  have h1: "holds (st_heap ?S) ?v" using add_copy [OF assms(2,3) c assms(4)] by simp
  have o: "0 < v_obj ?v a" using assms(5) by simp
  have a: "a \<noteq> 0" using d(2,4) assms(5) by (metis option.distinct(1))
  let ?S2 = "set_cell a (Obj \<lparr>o_reference = int (v_obj v a), o_copy = c\<rparr>) ?S"
  have h2: "holds (st_heap ?S2) (?v\<lparr>v_cur := (v_cur v)(a := c)\<rparr>)"
    using set_object [OF h1 a, of "v_obj v a" c] assms(5) by (simp add: set_cell_def)
  have live: "0 < v_copy (?v\<lparr>v_cur := (v_cur v)(a := c)\<rparr>) (v_cur v a)" if "v_cur v a \<noteq> 0" using assms(6) that by simp
  obtain S' where "stm_releasecopy (v_cur v a) ?S2 = Some S'" "holds (st_heap S') (drop_ref (v_cur v a) (?v\<lparr>v_cur := (v_cur v)(a := c)\<rparr>))"
    by (rule releasecopy_effect [OF h2 live])
  then show thesis using that [of S' c] c vc n object_holds [OF h1 o] by (simp add: stm_update_def Let_def)
qed

lemma new_effect:
  assumes "fresh_alloc al" "holds h v" "stored h bs p (st_heap S)" "length bs < 2 ^ 31"
  obtains S' a c where "stm_new al p (int (length bs)) S = (a, S')" "a \<noteq> 0" "v_obj v a = 0" "c \<noteq> 0" "v_copy v c = 0"
    "holds (st_heap S') (v\<lparr>v_copy := (v_copy v)(c := 1), v_val := (v_val v)(c := bs), v_obj := (v_obj v)(a := 1), v_cur := (v_cur v)(a := c)\<rparr>)"
proof -
  note d = holdsD [OF assms(2)]
  define a where "a = al (st_calls S) (st_heap S)"
  define g where "g = (st_heap S)(a \<mapsto> Obj \<lparr>o_reference = 1, o_copy = 0\<rparr>)"
  define c where "c = al (Suc (st_calls S)) g"
  have fin: "finite (dom (st_heap S))" using stored_finite [OF assms(3) d(1)] .
  then have a: "a \<noteq> 0" "st_heap S a = None" using fresh_alloc_at [OF assms(1)] by (simp_all add: a_def)
  have c: "c \<noteq> 0" "g c = None" using fresh_alloc_at [OF assms(1), of g] fin by (simp_all add: c_def g_def)
  then have ac: "c \<noteq> a" "st_heap S c = None" by (auto simp: g_def split: if_splits)
  have ha: "h a = None" "h c = None" using a(2) ac(2) assms(3) by (auto simp: stored_def split: if_splits)
  let ?x = "Copy \<lparr>c_reference = 1, c_sz = of_nat (length bs), c_msg = p\<rparr>"
  let ?v = "v\<lparr>v_copy := (v_copy v)(c := 1), v_val := (v_val v)(c := bs)\<rparr>"
  have h1: "holds ((st_heap S)(c \<mapsto> ?x)) ?v" using add_copy [OF assms(2,3) c(1) ac(2) assms(4)] by simp
  have "holds ((st_heap S)(c \<mapsto> ?x, a \<mapsto> Obj \<lparr>o_reference = 1, o_copy = c\<rparr>)) (?v\<lparr>v_obj := (v_obj v)(a := 1), v_cur := (v_cur v)(a := c)\<rparr>)"
    using set_object [OF h1 a(1), of 1 c] a(2) ac(1) by simp
  moreover have "(st_heap S)(c \<mapsto> ?x, a \<mapsto> Obj \<lparr>o_reference = 1, o_copy = c\<rparr>) = g(c \<mapsto> ?x, a \<mapsto> Obj \<lparr>o_reference = 1, o_copy = c\<rparr>)"
    using ac(1) by (simp add: g_def fun_upd_twist)
  moreover have "v_obj v a = 0" "v_copy v c = 0" using d(4) [of a] d(6) [of c] ha by auto
  ultimately show thesis
    using that [of a _ c] a(1) c(1)
    by (simp add: stm_new_def stm_newcopy_def new_cell_def set_cell_def Let_def flip: a_def g_def c_def)
qed

section \<open>Services that share objects\<close>

text \<open>
  The Lua values around the store: writer boxes, reader boxes and the pointers that \<open>lcopy\<close> gives, on their way to a reader. With each reader and pointer stands the number of its
  writer, which the code does not keep. A box that is closed (by its \<open>__gc\<close>, once) holds the null pointer.
\<close>

record sys =
  s_stm :: stm
  s_writers :: "addr list"
  s_readers :: "(boxreader \<times> nat) list"
  s_flight :: "(addr \<times> nat) list"

text \<open>The caller's message: \<open>True\<close> for a block that it allocated and gives away, \<open>False\<close> for a string.\<close>

datatype stm_op = NewWriter bool bytes | CopyObj nat | NewReader nat | Update nat bool bytes | ReadBox nat | CloseWriter nat | CloseReader nat

datatype stm_res = Done | Absent | Got "bytes option"

definition caller_msg :: "cell allocator \<Rightarrow> bool \<Rightarrow> bytes \<Rightarrow> stm \<Rightarrow> stm_arg \<times> stm" where
  "caller_msg al given bs S =
     (if given then (if bs = [] then (Given 0 0, S) else (let (p, S) = new_cell al (Block bs) S in (Given p (int (length bs)), S))) else (Text bs, S))"

definition message_at :: "stm \<Rightarrow> addr \<times> u32 \<Rightarrow> bytes option" where
  "message_at S m =
     (if fst m = 0 then if snd m = 0 then Some [] else None
      else case st_heap S (fst m) of Some (Block bs) \<Rightarrow> if unat (snd m) \<le> length bs then Some (take (unat (snd m)) bs) else None | _ \<Rightarrow> None)"

fun stm_step :: "cell allocator \<Rightarrow> stm_op \<Rightarrow> sys \<Rightarrow> (stm_res \<times> sys) option" where
  "stm_step al (NewWriter g bs) s =
     (let (x, S) = caller_msg al g bs (s_stm s); (obj, S) = lnewwriter al x S in Some (Done, s\<lparr>s_stm := S, s_writers := s_writers s @ [obj]\<rparr>))"
| "stm_step al (CopyObj i) s =
     (if i < length (s_writers s) \<and> s_writers s ! i \<noteq> 0
      then do { (p, S) \<leftarrow> lcopy (s_writers s ! i) (s_stm s); Some (Done, s\<lparr>s_stm := S, s_flight := s_flight s @ [(p, i)]\<rparr>) }
      else Some (Absent, s))"
| "stm_step al (NewReader i) s =
     (if i < length (s_flight s) \<and> fst (s_flight s ! i) \<noteq> 0
      then Some (Done, s\<lparr>s_readers := s_readers s @ [(lnewreader (fst (s_flight s ! i)), snd (s_flight s ! i))],
                         s_flight := (s_flight s)[i := (0, snd (s_flight s ! i))]\<rparr>)
      else Some (Absent, s))"
| "stm_step al (Update i g bs) s =
     (if i < length (s_writers s) \<and> s_writers s ! i \<noteq> 0
      then let (x, S) = caller_msg al g bs (s_stm s) in do { S \<leftarrow> lupdate al (s_writers s ! i) x S; Some (Done, s\<lparr>s_stm := S\<rparr>) }
      else Some (Absent, s))"
| "stm_step al (ReadBox i) s =
     (if i < length (s_readers s) \<and> r_obj (fst (s_readers s ! i)) \<noteq> 0
      then do {
        (m, r, S) \<leftarrow> lread (fst (s_readers s ! i)) (s_stm s);
        x \<leftarrow> (case m of None \<Rightarrow> Some None | Some m \<Rightarrow> do { bs \<leftarrow> message_at S m; Some (Some bs) });
        Some (Got x, s\<lparr>s_stm := S, s_readers := (s_readers s)[i := (r, snd (s_readers s ! i))]\<rparr>) }
      else Some (Absent, s))"
| "stm_step al (CloseWriter i) s =
     (if i < length (s_writers s) \<and> s_writers s ! i \<noteq> 0
      then do { (p, S) \<leftarrow> ldeletewriter (s_writers s ! i) (s_stm s); Some (Done, s\<lparr>s_stm := S, s_writers := (s_writers s)[i := p]\<rparr>) }
      else Some (Absent, s))"
| "stm_step al (CloseReader i) s =
     (if i < length (s_readers s) \<and> r_obj (fst (s_readers s ! i)) \<noteq> 0
      then do {
        (r, S) \<leftarrow> ldeletereader (fst (s_readers s ! i)) (s_stm s);
        Some (Done, s\<lparr>s_stm := S, s_readers := (s_readers s)[i := (r, snd (s_readers s ! i))]\<rparr>) }
      else Some (Absent, s))"

section \<open>What the library promises\<close>

text \<open>
  The values that the writers hold; for each reader its writer and whether it has seen the last value; the writers of the pointers under way. A closed box is \<open>None\<close>.
\<close>

record stm_spec =
  a_vals :: "bytes option list"
  a_readers :: "(nat \<times> bool) option list"
  a_flight :: "nat option list"

definition unseen :: "nat \<Rightarrow> (nat \<times> bool) option list \<Rightarrow> (nat \<times> bool) option list" where
  "unseen i = map (map_option (\<lambda>(k, b). (k, b \<and> k \<noteq> i)))"

fun stm_promise :: "stm_op \<Rightarrow> stm_spec \<Rightarrow> stm_res \<times> stm_spec" where
  "stm_promise (NewWriter g bs) s = (Done, s\<lparr>a_vals := a_vals s @ [Some bs]\<rparr>)"
| "stm_promise (CopyObj i) s = (if i < length (a_vals s) \<and> a_vals s ! i \<noteq> None then (Done, s\<lparr>a_flight := a_flight s @ [Some i]\<rparr>) else (Absent, s))"
| "stm_promise (NewReader i) s =
     (if i < length (a_flight s) then
        case a_flight s ! i of Some k \<Rightarrow> (Done, s\<lparr>a_readers := a_readers s @ [Some (k, False)], a_flight := (a_flight s)[i := None]\<rparr>) | None \<Rightarrow> (Absent, s)
      else (Absent, s))"
| "stm_promise (Update i g bs) s =
     (if i < length (a_vals s) \<and> a_vals s ! i \<noteq> None then (Done, s\<lparr>a_vals := (a_vals s)[i := Some bs], a_readers := unseen i (a_readers s)\<rparr>) else (Absent, s))"
| "stm_promise (ReadBox i) s =
     (if i < length (a_readers s) then
        case a_readers s ! i of
          Some (k, b) \<Rightarrow> (if b \<or> a_vals s ! k = None then (Got None, s) else (Got (a_vals s ! k), s\<lparr>a_readers := (a_readers s)[i := Some (k, True)]\<rparr>))
        | None \<Rightarrow> (Absent, s)
      else (Absent, s))"
| "stm_promise (CloseWriter i) s =
     (if i < length (a_vals s) \<and> a_vals s ! i \<noteq> None then (Done, s\<lparr>a_vals := (a_vals s)[i := None], a_readers := unseen i (a_readers s)\<rparr>) else (Absent, s))"
| "stm_promise (CloseReader i) s =
     (if i < length (a_readers s) \<and> a_readers s ! i \<noteq> None then (Done, s\<lparr>a_readers := (a_readers s)[i := None]\<rparr>) else (Absent, s))"

definition cur_of :: "stm \<Rightarrow> addr \<Rightarrow> addr" where
  "cur_of S a = (case object_at a S of Some x \<Rightarrow> o_copy x | None \<Rightarrow> 0)"

definition val_of :: "stm \<Rightarrow> addr \<Rightarrow> bytes option" where
  "val_of S a = (if a = 0 then None else case copy_at (cur_of S a) S of Some c \<Rightarrow> message_at S (c_msg c, c_sz c) | None \<Rightarrow> None)"

definition stm_abs :: "sys \<Rightarrow> stm_spec" where
  "stm_abs s =
     \<lparr>a_vals = map (val_of (s_stm s)) (s_writers s),
      a_readers = map (\<lambda>(r, k). if r_obj r = 0 then None else Some (k, s_writers s ! k \<noteq> 0 \<and> r_lastcopy r = cur_of (s_stm s) (s_writers s ! k))) (s_readers s),
      a_flight = map (\<lambda>(p, k). if p = 0 then None else Some k) (s_flight s)\<rparr>"

end
