(* ===== verification/Stm_Inv.thy ===== *)
theory Stm_Inv
  imports Stm
begin

text \<open>
  The objects of \<open>src/lualib/lstm.c\<close> behave as shared variables as long as one operation runs at a time: the reference counts of the store agree with the boxes that point to it,
  so no operation touches freed memory or fails an assertion, a reader gets each new value once, also when addresses come back, and when every box is closed nothing is left
  allocated. Two readers that close at the same time can meet freed memory.
\<close>

section \<open>References\<close>

definition refs :: "'a \<Rightarrow> 'a list \<Rightarrow> nat" where
  "refs a xs = length (filter (\<lambda>x. x = a) xs)"

lemma refs_simps [simp]: "refs a [] = 0" "refs a (x # xs) = of_bool (x = a) + refs a xs" "refs a (xs @ ys) = refs a xs + refs a ys"
  by (simp_all add: refs_def)

lemma refs_update: "i < length xs \<Longrightarrow> refs a (xs[i := y]) + of_bool (xs ! i = a) = refs a xs + of_bool (y = a)"
proof (induction xs arbitrary: i)
  case (Cons x xs)
  then show ?case by (cases i) auto
qed simp

lemma refs_pos: "0 < refs a xs \<longleftrightarrow> a \<in> set xs"
  by (induction xs) auto

lemma refs_zero: "refs a xs = 0 \<longleftrightarrow> a \<notin> set xs"
  using refs_pos [of a xs] by auto

definition handle_ok :: "addr list \<Rightarrow> addr \<Rightarrow> nat \<Rightarrow> bool" where
  "handle_ok ws a k \<longleftrightarrow> k < length ws \<and> (\<forall>j<length ws. ws ! j \<noteq> 0 \<longrightarrow> (ws ! j = a \<longleftrightarrow> j = k))"

lemma handle_ok_close: "handle_ok ws a k \<Longrightarrow> handle_ok (ws[i := 0]) a k"
  by (cases "i < length ws") (simp_all add: handle_ok_def nth_list_update)

lemma handle_ok_new: "handle_ok ws a k \<Longrightarrow> a \<noteq> b \<Longrightarrow> handle_ok (ws @ [b]) a k"
  by (auto simp: handle_ok_def nth_append less_Suc_eq)

lemma handle_ok_last: "b \<notin> set ws \<Longrightarrow> handle_ok (ws @ [b]) b (length ws)"
  by (auto simp: handle_ok_def nth_append less_Suc_eq)

definition handles :: "sys \<Rightarrow> (addr \<times> nat) set" where
  "handles s = {(s_writers s ! i, i) | i. i < length (s_writers s)} \<union> (\<lambda>(r, k). (r_obj r, k)) ` set (s_readers s) \<union> set (s_flight s)"

definition objs :: "sys \<Rightarrow> addr list" where
  "objs s = s_writers s @ map (r_obj \<circ> fst) (s_readers s) @ map fst (s_flight s)"

definition copies :: "view \<Rightarrow> sys \<Rightarrow> addr list" where
  "copies v s = map (v_cur v) (s_writers s) @ map (r_lastcopy \<circ> fst) (s_readers s)"

definition rel :: "sys \<Rightarrow> view \<Rightarrow> bool" where
  "rel s v \<longleftrightarrow> holds (st_heap (s_stm s)) v \<and> (\<forall>a. a \<noteq> 0 \<longrightarrow> v_obj v a = refs a (objs s)) \<and> (\<forall>c. c \<noteq> 0 \<longrightarrow> v_copy v c = refs c (copies v s)) \<and>
     (\<forall>a. v_cur v a \<noteq> 0 \<longleftrightarrow> a \<noteq> 0 \<and> a \<in> set (s_writers s)) \<and> (\<forall>a k. (a, k) \<in> handles s \<longrightarrow> a \<noteq> 0 \<longrightarrow> handle_ok (s_writers s) a k) \<and>
     (\<forall>r k. (r, k) \<in> set (s_readers s) \<longrightarrow> r_obj r = 0 \<longrightarrow> r_lastcopy r = 0)"

lemma relD:
  assumes "rel s v"
  shows "holds (st_heap (s_stm s)) v" "\<And>a. a \<noteq> 0 \<Longrightarrow> v_obj v a = refs a (objs s)" "\<And>c. c \<noteq> 0 \<Longrightarrow> v_copy v c = refs c (copies v s)"
    "\<And>a. v_cur v a \<noteq> 0 \<longleftrightarrow> a \<noteq> 0 \<and> a \<in> set (s_writers s)" "\<And>a k. (a, k) \<in> handles s \<Longrightarrow> a \<noteq> 0 \<Longrightarrow> handle_ok (s_writers s) a k"
    "\<And>r k. (r, k) \<in> set (s_readers s) \<Longrightarrow> r_obj r = 0 \<Longrightarrow> r_lastcopy r = 0"
  using assms unfolding rel_def by blast+

lemma rel_writer:
  assumes "rel s v" "i < length (s_writers s)" "s_writers s ! i \<noteq> 0"
  shows "0 < v_obj v (s_writers s ! i)" "v_cur v (s_writers s ! i) \<noteq> 0" "0 < v_copy v (v_cur v (s_writers s ! i))"
    "handle_ok (s_writers s) (s_writers s ! i) i"
proof -
  note d = relD [OF assms(1)]
  have m: "s_writers s ! i \<in> set (s_writers s)" using assms(2) by simp
  then show c: "v_cur v (s_writers s ! i) \<noteq> 0" using d(4) assms(3) by blast
  show "0 < v_obj v (s_writers s ! i)" using d(2) assms(3) m by (simp add: refs_pos objs_def)
  show "0 < v_copy v (v_cur v (s_writers s ! i))" using d(3) [OF c] m by (simp add: refs_pos copies_def)
  show "handle_ok (s_writers s) (s_writers s ! i) i" using d(5) assms(2,3) unfolding handles_def by blast
qed

lemma rel_reader:
  assumes "rel s v" "(r, k) \<in> set (s_readers s)" "r_obj r \<noteq> 0"
  shows "0 < v_obj v (r_obj r)" "r_lastcopy r \<noteq> 0 \<Longrightarrow> 0 < v_copy v (r_lastcopy r)" "handle_ok (s_writers s) (r_obj r) k"
    "v_cur v (r_obj r) \<noteq> 0 \<Longrightarrow> s_writers s ! k = r_obj r" "s_writers s ! k \<noteq> 0 \<Longrightarrow> s_writers s ! k = r_obj r"
proof -
  note d = relD [OF assms(1)]
  show "0 < v_obj v (r_obj r)" using d(2) [OF assms(3)] imageI [OF assms(2), of "r_obj \<circ> fst"] by (simp add: refs_pos objs_def)
  show "0 < v_copy v (r_lastcopy r)" if "r_lastcopy r \<noteq> 0" using d(3) [OF that] imageI [OF assms(2), of "r_lastcopy \<circ> fst"] by (simp add: refs_pos copies_def)
  show h: "handle_ok (s_writers s) (r_obj r) k" using d(5) [OF _ assms(3)] imageI [OF assms(2), of "\<lambda>(r, k). (r_obj r, k)"] by (simp add: handles_def)
  show "s_writers s ! k = r_obj r" if "v_cur v (r_obj r) \<noteq> 0" using that d(4) h by (auto simp: handle_ok_def in_set_conv_nth)
  show "s_writers s ! k = r_obj r" if "s_writers s ! k \<noteq> 0" using that h by (auto simp: handle_ok_def)
qed

lemma message_holds:
  assumes "msg_ok (st_heap S) c bs"
  shows "message_at S (c_msg c, c_sz c) = Some bs"
proof -
  have "unat (c_sz c) = length bs" using assms by (simp add: msg_ok_def unat_of_nat take_bit_nat_eq_self)
  then show ?thesis using assms by (cases "bs = []") (simp_all add: msg_ok_def message_at_def)
qed

definition abs_view :: "view \<Rightarrow> sys \<Rightarrow> stm_spec" where
  "abs_view v s =
     \<lparr>a_vals = map (\<lambda>a. if a = 0 then None else Some (v_val v (v_cur v a))) (s_writers s),
      a_readers = map (\<lambda>(r, k). if r_obj r = 0 then None else Some (k, s_writers s ! k \<noteq> 0 \<and> r_lastcopy r = v_cur v (s_writers s ! k))) (s_readers s),
      a_flight = map (\<lambda>(p, k). if p = 0 then None else Some k) (s_flight s)\<rparr>"

definition reader_abs :: "(addr \<Rightarrow> addr) \<Rightarrow> addr list \<Rightarrow> boxreader \<times> nat \<Rightarrow> (nat \<times> bool) option" where
  "reader_abs cur ws = (\<lambda>(r, k). if r_obj r = 0 then None else Some (k, ws ! k \<noteq> 0 \<and> r_lastcopy r = cur (ws ! k)))"

lemma reader_abs_simps:
  "r_obj r = 0 \<Longrightarrow> reader_abs cur ws (r, k) = None"
  "r_obj r \<noteq> 0 \<Longrightarrow> reader_abs cur ws (r, k) = Some (k, ws ! k \<noteq> 0 \<and> r_lastcopy r = cur (ws ! k))"
  by (simp_all add: reader_abs_def)

lemma abs_view_alt:
  "abs_view v s =
     \<lparr>a_vals = map (\<lambda>a. if a = 0 then None else Some (v_val v (v_cur v a))) (s_writers s), a_readers = map (reader_abs (v_cur v) (s_writers s)) (s_readers s),
      a_flight = map (\<lambda>(p, k). if p = 0 then None else Some k) (s_flight s)\<rparr>"
  by (simp add: abs_view_def reader_abs_def)

lemma stm_abs_view:
  assumes "rel s v"
  shows "stm_abs s = abs_view v s"
proof -
  note h = relD(1) [OF assms]
  have cur: "cur_of (s_stm s) (s_writers s ! i) = v_cur v (s_writers s ! i)" if "i < length (s_writers s)" "s_writers s ! i \<noteq> 0" for i
    using object_holds [OF h rel_writer(1) [OF assms that]] by (simp add: cur_of_def)
  have val: "val_of (s_stm s) (s_writers s ! i) = Some (v_val v (v_cur v (s_writers s ! i)))" if i: "i < length (s_writers s)" "s_writers s ! i \<noteq> 0" for i
  proof -
    obtain c where "copy_at (v_cur v (s_writers s ! i)) (s_stm s) = Some c" "msg_ok (st_heap (s_stm s)) c (v_val v (v_cur v (s_writers s ! i)))"
      by (rule copy_holds [OF h rel_writer(3) [OF assms i]])
    then show ?thesis using cur [OF i] i(2) by (simp add: val_of_def message_holds)
  qed
  have vals: "map (val_of (s_stm s)) (s_writers s) = map (\<lambda>a. if a = 0 then None else Some (v_val v (v_cur v a))) (s_writers s)"
  proof (rule nth_equalityI)
    show "map (val_of (s_stm s)) (s_writers s) ! i = map (\<lambda>a. if a = 0 then None else Some (v_val v (v_cur v a))) (s_writers s) ! i"
      if "i < length (map (val_of (s_stm s)) (s_writers s))" for i
      using that val [of i] by (cases "s_writers s ! i = 0") (simp_all add: val_of_def)
  qed simp
  have "(s_writers s ! k \<noteq> 0 \<and> r_lastcopy r = cur_of (s_stm s) (s_writers s ! k)) = (s_writers s ! k \<noteq> 0 \<and> r_lastcopy r = v_cur v (s_writers s ! k))"
    if "(r, k) \<in> set (s_readers s)" "r_obj r \<noteq> 0" for r k
    using cur [of k] rel_reader(3) [OF assms that] by (auto simp: handle_ok_def)
  then show ?thesis using vals by (auto simp: stm_abs_def abs_view_def)
qed

section \<open>Each operation keeps its promise\<close>

definition keeps :: "cell allocator \<Rightarrow> stm_op \<Rightarrow> sys \<Rightarrow> view \<Rightarrow> bool" where
  "keeps al x s v \<longleftrightarrow> (\<exists>r s' v'. stm_step al x s = Some (r, s') \<and> rel s' v' \<and> stm_promise x (abs_view v s) = (r, abs_view v' s'))"

lemma keepsI: "stm_step al x s = Some (r, s') \<Longrightarrow> rel s' v' \<Longrightarrow> stm_promise x (abs_view v s) = (r, abs_view v' s') \<Longrightarrow> keeps al x s v"
  unfolding keeps_def by blast

lemma relI:
  assumes "holds (st_heap (s_stm s)) v" "\<And>a. a \<noteq> 0 \<Longrightarrow> v_obj v a = refs a (objs s)" "\<And>c. c \<noteq> 0 \<Longrightarrow> v_copy v c = refs c (copies v s)"
    "\<And>a. v_cur v a \<noteq> 0 \<longleftrightarrow> a \<noteq> 0 \<and> a \<in> set (s_writers s)" "\<And>a k. (a, k) \<in> handles s \<Longrightarrow> a \<noteq> 0 \<Longrightarrow> handle_ok (s_writers s) a k"
    "\<And>r k. (r, k) \<in> set (s_readers s) \<Longrightarrow> r_obj r = 0 \<Longrightarrow> r_lastcopy r = 0"
  shows "rel s v"
  unfolding rel_def using assms by blast

lemma absent_keeps:
  assumes "rel s v" "stm_step al x s = Some (Absent, s)" "stm_promise x (abs_view v s) = (Absent, abs_view v s)"
  shows "keeps al x s v"
  using assms by (blast intro: keepsI)

lemma new_reader_keeps:
  assumes "rel s v"
  shows "keeps al (NewReader i) s v"
proof (cases "i < length (s_flight s) \<and> fst (s_flight s ! i) \<noteq> 0")
  case True
  note d = relD [OF assms]
  obtain a k where f: "s_flight s ! i = (a, k)" by fastforce
  then have a: "a \<noteq> 0" "i < length (s_flight s)" "(a, k) \<in> set (s_flight s)" using True by (auto simp: in_set_conv_nth)
  let ?s = "s\<lparr>s_readers := s_readers s @ [(lnewreader a, k)], s_flight := (s_flight s)[i := (0, k)]\<rparr>"
  have hk: "handle_ok (s_writers s) a k" using d(5) [OF _ a(1)] a(3) by (simp add: handles_def)
  have sub: "handles ?s \<subseteq> insert (0, k) (handles s)"
    using set_update_subset_insert [of "s_flight s" i "(0, k)"] a(3) by (auto simp: handles_def lnewreader_def)
  have rel: "rel ?s v"
  proof (rule relI)
    show "v_obj v b = refs b (objs ?s)" if "b \<noteq> 0" for b
      using d(2) [OF that] refs_update [of i "map fst (s_flight s)" b 0] a(2) f that by (auto simp: objs_def map_update lnewreader_def)
    show "v_copy v c = refs c (copies v ?s)" if "c \<noteq> 0" for c using d(3) [OF that] that by (simp add: copies_def lnewreader_def)
    show "handle_ok (s_writers ?s) b j" if "(b, j) \<in> handles ?s" "b \<noteq> 0" for b j using that sub d(5) [of b j] by auto
    show "r_lastcopy r = 0" if "(r, j) \<in> set (s_readers ?s)" "r_obj r = 0" for r j using that d(6) [of r j] by (auto simp: lnewreader_def)
  qed (use d(1,4) in simp_all)
  have cur: "s_writers s ! k = 0 \<or> 0 < v_cur v (s_writers s ! k)" using hk d(4) by (auto simp: handle_ok_def)
  show ?thesis
    by (rule keepsI [OF _ rel]) (use a f cur in \<open>auto simp: abs_view_def lnewreader_def map_update\<close>)
next
  case False
  then show ?thesis
    by (intro absent_keeps [OF assms]) (auto simp: abs_view_def split: prod.splits)
qed

lemma copy_keeps:
  assumes "rel s v"
  shows "keeps al (CopyObj i) s v"
proof (cases "i < length (s_writers s) \<and> s_writers s ! i \<noteq> 0")
  case True
  note d = relD [OF assms]
  define a where "a = s_writers s ! i"
  have w: "0 < v_obj v a" "handle_ok (s_writers s) a i" "a \<noteq> 0" using rel_writer [OF assms] True by (simp_all add: a_def)
  obtain S where S: "stm_grab a (s_stm s) = Some S" "holds (st_heap S) (v\<lparr>v_obj := (v_obj v)(a := v_obj v a + 1)\<rparr>)"
    by (rule grab_effect [OF d(1) w(1)])
  let ?s = "s\<lparr>s_stm := S, s_flight := s_flight s @ [(a, i)]\<rparr>" and ?v = "v\<lparr>v_obj := (v_obj v)(a := v_obj v a + 1)\<rparr>"
  have sub: "handles ?s = insert (a, i) (handles s)" by (auto simp: handles_def)
  have rel: "rel ?s ?v"
  proof (rule relI)
    show "v_obj ?v b = refs b (objs ?s)" if "b \<noteq> 0" for b using d(2) [OF that] by (auto simp: objs_def)
    show "v_copy ?v c = refs c (copies ?v ?s)" if "c \<noteq> 0" for c using d(3) [OF that] by (simp add: copies_def)
    show "handle_ok (s_writers ?s) b j" if "(b, j) \<in> handles ?s" "b \<noteq> 0" for b j using that w(2) d(5) [of b j] sub by auto
  qed (use S d in simp_all)
  show ?thesis
    by (rule keepsI [OF _ rel, of _ _ _ Done]) (use True S w(3) in \<open>auto simp: lcopy_def abs_view_def simp flip: a_def\<close>)
next
  case False
  then show ?thesis by (intro absent_keeps [OF assms]) (auto simp: abs_view_def)
qed

lemma msg_taken:
  assumes "fresh_alloc al" "finite (dom (st_heap S))"
  obtains p S' where "(let (x, S) = caller_msg al g bs S in take_msg al x S) = (p, int (length bs), S')" "stored (st_heap S) bs p (st_heap S')"
  using that fresh_alloc_at [OF assms, of "st_calls S"]
  by (cases "bs = []") (auto simp: caller_msg_def take_msg_def new_cell_def stored_def Let_def)

lemma new_writer_keeps:
  assumes "rel s v" "fresh_alloc al" "length bs < 2 ^ 31"
  shows "keeps al (NewWriter g bs) s v"
proof -
  note d = relD [OF assms(1)]
  obtain p S1 where t: "(let (x, S) = caller_msg al g bs (s_stm s) in take_msg al x S) = (p, int (length bs), S1)" "stored (st_heap (s_stm s)) bs p (st_heap S1)"
    by (rule msg_taken [OF assms(2) holdsD(1) [OF d(1)]])
  obtain S' a c where n: "stm_new al p (int (length bs)) S1 = (a, S')" "a \<noteq> 0" "v_obj v a = 0" "c \<noteq> 0" "v_copy v c = 0"
    "holds (st_heap S') (v\<lparr>v_copy := (v_copy v)(c := 1), v_val := (v_val v)(c := bs), v_obj := (v_obj v)(a := 1), v_cur := (v_cur v)(a := c)\<rparr>)"
    by (rule new_effect [OF assms(2) d(1) t(2) assms(3)])
  let ?v = "v\<lparr>v_copy := (v_copy v)(c := 1), v_val := (v_val v)(c := bs), v_obj := (v_obj v)(a := 1), v_cur := (v_cur v)(a := c)\<rparr>"
  let ?s = "s\<lparr>s_stm := S', s_writers := s_writers s @ [a]\<rparr>"
  have step: "stm_step al (NewWriter g bs) s = Some (Done, ?s)"
    using t(1) n(1) by (auto simp: lnewwriter_def Let_def split: prod.splits)
  have fa: "a \<notin> set (objs s)" "a \<notin> set (s_writers s)" and fc: "c \<notin> set (copies v s)" using d(2) [OF n(2)] d(3) [OF n(4)] n(3,5) by (simp_all add: refs_zero objs_def)
  have sub: "handles ?s = insert (a, length (s_writers s)) (handles s)" by (auto simp: handles_def nth_append less_Suc_eq)
  have ha: "(a, k) \<notin> handles s" for k using fa by (force simp: handles_def objs_def)
  have rel: "rel ?s ?v"
  proof (rule relI)
    show "v_obj ?v b = refs b (objs ?s)" if "b \<noteq> 0" for b using d(2) [OF that] n(3) by (auto simp: objs_def)
    show "v_copy ?v e = refs e (copies ?v ?s)" if "e \<noteq> 0" for e using d(3) [OF that] n(5) fa(2) by (auto simp: copies_def)
    show "v_cur ?v b \<noteq> 0 \<longleftrightarrow> b \<noteq> 0 \<and> b \<in> set (s_writers ?s)" for b using d(4) [of b] n(2,4) by auto
    show "handle_ok (s_writers ?s) b j" if b: "(b, j) \<in> handles ?s" "b \<noteq> 0" for b j
    proof (cases "b = a")
      case True
      then have "j = length (s_writers s)" using b(1) sub ha by simp
      then show ?thesis using True handle_ok_last [OF fa(2)] by simp
    next
      case False
      then show ?thesis using b sub d(5) [of b j] handle_ok_new by simp
    qed
  qed (use n(6) d(6) in simp_all)
  have val: "v_val ?v (v_cur ?v b) = v_val v (v_cur v b)" if "b \<in> set (s_writers s)" for b using that fa(2) fc by (auto simp: copies_def)
  have rd: "k < length (s_writers s)" if "(r, k) \<in> set (s_readers s)" "r_obj r \<noteq> 0" for r k using rel_reader(3) [OF assms(1) that] by (simp add: handle_ok_def)
  have rd': "s_writers s ! k \<noteq> a" if "k < length (s_writers s)" for k using that fa(2) by (auto simp: in_set_conv_nth)
  have "stm_promise (NewWriter g bs) (abs_view v s) = (Done, abs_view ?v ?s)"
    using val rd rd' n(2) by (auto simp: abs_view_def nth_append)
  then show ?thesis by (rule keepsI [OF step rel])
qed

lemma one_writer:
  assumes "handle_ok ws a i" "ws ! i = a" "a \<noteq> 0" "i < length ws"
  shows "map (f(a := c)) ws = (map f ws)[i := c]" "\<And>j. j < length ws \<Longrightarrow> ws ! j = a \<longleftrightarrow> j = i"
proof -
  show j: "\<And>j. j < length ws \<Longrightarrow> ws ! j = a \<longleftrightarrow> j = i" using assms by (auto simp: handle_ok_def)
  show "map (f(a := c)) ws = (map f ws)[i := c]" using j by (auto intro!: nth_equalityI simp: nth_list_update)
qed

lemma copies_writer:
  assumes "handle_ok (s_writers s) a i" "s_writers s ! i = a" "a \<noteq> 0" "i < length (s_writers s)" "v_cur v' = (v_cur v)(a := c)"
  shows "refs e (copies v' s) + of_bool (v_cur v a = e) = refs e (copies v s) + of_bool (c = e)"
  using refs_update [of i "map (v_cur v) (s_writers s)" e c] one_writer(1) [OF assms(1-4), of "v_cur v" c] assms(2,4,5) by (simp add: copies_def)

lemma update_keeps:
  assumes "rel s v" "fresh_alloc al" "length bs < 2 ^ 31"
  shows "keeps al (Update i g bs) s v"
proof (cases "i < length (s_writers s) \<and> s_writers s ! i \<noteq> 0")
  case True
  note d = relD [OF assms(1)]
  define a where "a = s_writers s ! i"
  have w: "0 < v_obj v a" "v_cur v a \<noteq> 0" "0 < v_copy v (v_cur v a)" "handle_ok (s_writers s) a i" "a \<noteq> 0" using rel_writer [OF assms(1)] True by (simp_all add: a_def)
  obtain p S1 where t: "(let (x, S) = caller_msg al g bs (s_stm s) in take_msg al x S) = (p, int (length bs), S1)" "stored (st_heap (s_stm s)) bs p (st_heap S1)"
    by (rule msg_taken [OF assms(2) holdsD(1) [OF d(1)]])
  obtain S' c where u: "stm_update al a p (int (length bs)) S1 = Some S'" "c \<noteq> 0" "v_copy v c = 0"
    "holds (st_heap S') (drop_ref (v_cur v a) (v\<lparr>v_copy := (v_copy v)(c := 1), v_val := (v_val v)(c := bs), v_cur := (v_cur v)(a := c)\<rparr>))"
    by (rule update_effect [OF assms(2) d(1) t(2) assms(3) w(1,3)])
  let ?v = "drop_ref (v_cur v a) (v\<lparr>v_copy := (v_copy v)(c := 1), v_val := (v_val v)(c := bs), v_cur := (v_cur v)(a := c)\<rparr>)"
  let ?s = "s\<lparr>s_stm := S'\<rparr>"
  have step: "stm_step al (Update i g bs) s = Some (Done, ?s)"
    using t(1) u(1) True by (auto simp: lupdate_def Let_def simp flip: a_def split: prod.splits)
  have fc: "c \<notin> set (copies v s)" using d(3) [OF u(2)] u(3) by (simp add: refs_zero)
  have ws: "s_writers s ! i = a" "i < length (s_writers s)" using True by (simp_all add: a_def)
  have rel: "rel ?s ?v"
  proof (rule relI)
    show "v_copy ?v e = refs e (copies ?v ?s)" if "e \<noteq> 0" for e
      using d(3) [OF that] copies_writer [OF w(4) ws(1) w(5) ws(2), of ?v v c e] u(3) w(2,3) fc
      by (auto simp: drop_ref_def copies_def refs_zero split: if_splits)
    show "v_cur ?v b \<noteq> 0 \<longleftrightarrow> b \<noteq> 0 \<and> b \<in> set (s_writers ?s)" for b using d(4) [of b] u(2) w(5) ws by (auto simp: in_set_conv_nth)
  qed (use u(4) d in \<open>simp_all add: objs_def handles_def\<close>)
  have val: "v_val ?v (v_cur ?v (s_writers s ! j)) = (if j = i then bs else v_val v (v_cur v (s_writers s ! j)))" if "j < length (s_writers s)" for j
    using that one_writer(2) [OF w(4) ws(1) w(5) ws(2) that] fc by (auto simp: copies_def)
  have vals: "a_vals (abs_view ?v ?s) = (a_vals (abs_view v s))[i := Some bs]"
    using val ws w(5) by (auto simp: abs_view_def nth_list_update intro!: nth_equalityI)
  have rd: "(s_writers s ! k \<noteq> 0 \<and> r_lastcopy r = v_cur ?v (s_writers s ! k)) = ((s_writers s ! k \<noteq> 0 \<and> r_lastcopy r = v_cur v (s_writers s ! k)) \<and> k \<noteq> i)"
    if "(r, k) \<in> set (s_readers s)" "r_obj r \<noteq> 0" for r k
  proof -
    have "k < length (s_writers s)" using rel_reader(3) [OF assms(1) that] by (simp add: handle_ok_def)
    moreover have "r_lastcopy r \<noteq> c" using fc imageI [OF that(1), of "r_lastcopy \<circ> fst"] by (auto simp: copies_def)
    ultimately show ?thesis using one_writer(2) [OF w(4) ws(1) w(5) ws(2), of k] by auto
  qed
  have "a_readers (abs_view ?v ?s) = unseen i (a_readers (abs_view v s))" using rd by (auto simp: abs_view_def unseen_def)
  then have "stm_promise (Update i g bs) (abs_view v s) = (Done, abs_view ?v ?s)"
    using vals True by (simp add: abs_view_def)
  then show ?thesis by (rule keepsI [OF step rel])
next
  case False
  then show ?thesis by (intro absent_keeps [OF assms(1)]) (auto simp: abs_view_def)
qed

lemma close_writer_keeps:
  assumes "rel s v"
  shows "keeps al (CloseWriter i) s v"
proof (cases "i < length (s_writers s) \<and> s_writers s ! i \<noteq> 0")
  case True
  note d = relD [OF assms]
  define a where "a = s_writers s ! i"
  have w: "0 < v_obj v a" "v_cur v a \<noteq> 0" "0 < v_copy v (v_cur v a)" "handle_ok (s_writers s) a i" "a \<noteq> 0" using rel_writer [OF assms] True by (simp_all add: a_def)
  have ws: "s_writers s ! i = a" "i < length (s_writers s)" using True by (simp_all add: a_def)
  note one = one_writer [OF w(4) ws(1) w(5) ws(2)]
  let ?v = "(drop_ref (v_cur v a) v)\<lparr>v_obj := (v_obj v)(a := v_obj v a - 1), v_cur := (v_cur v)(a := 0)\<rparr>"
  obtain S' where S: "stm_release a (s_stm s) = Some S'" "holds (st_heap S') ?v" by (rule release_effect [OF d(1) w(1-3)])
  let ?s = "s\<lparr>s_stm := S', s_writers := (s_writers s)[i := 0]\<rparr>"
  have step: "stm_step al (CloseWriter i) s = Some (Done, ?s)" using S(1) True by (simp add: ldeletewriter_def flip: a_def)
  have "v_cur v 0 = 0" using d(4) [of 0] by simp
  then have cp: "map (v_cur ?v) ((s_writers s)[i := 0]) = (map (v_cur v) (s_writers s))[i := 0]"
    using one(1) [of "v_cur v" 0] w(5) by (simp add: map_update)
  have mem: "b \<noteq> 0 \<and> b \<in> set ((s_writers s)[i := 0]) \<longleftrightarrow> b \<noteq> 0 \<and> b \<noteq> a \<and> b \<in> set (s_writers s)" for b
  proof (cases "b = a \<or> b = 0")
    case True
    then show ?thesis using one(2) ws by (auto simp: in_set_conv_nth nth_list_update split: if_splits)
  next
    case False
    have "b \<in> set ((s_writers s)[i := 0])" if b: "b \<in> set (s_writers s)"
    proof -
      obtain j where "j < length (s_writers s)" "s_writers s ! j = b" using b by (auto simp: in_set_conv_nth)
      then show ?thesis using False ws nth_mem [of j "(s_writers s)[i := 0]"] by (cases "j = i") (simp_all add: nth_list_update)
    qed
    moreover have "b \<in> set (s_writers s)" if "b \<in> set ((s_writers s)[i := 0])" using set_update_subset_insert [of "s_writers s" i 0] that False by blast
    ultimately show ?thesis using False by blast
  qed
  have sub: "handles ?s \<subseteq> insert (0, i) (handles s)" using ws(2) by (auto simp: handles_def nth_list_update)
  have rel: "rel ?s ?v"
  proof (rule relI)
    show "v_obj ?v b = refs b (objs ?s)" if "b \<noteq> 0" for b
      using d(2) [OF that] refs_update [of i "s_writers s" b 0] ws that by (auto simp: objs_def)
    show "v_copy ?v e = refs e (copies ?v ?s)" if "e \<noteq> 0" for e
      using d(3) [OF that] refs_update [of i "map (v_cur v) (s_writers s)" e 0] cp ws that w(2) by (auto simp: copies_def drop_ref_def)
    show "v_cur ?v b \<noteq> 0 \<longleftrightarrow> b \<noteq> 0 \<and> b \<in> set (s_writers ?s)" for b using d(4) [of b] mem [of b] by simp
    show "handle_ok (s_writers ?s) b j" if "(b, j) \<in> handles ?s" "b \<noteq> 0" for b j using that sub d(5) [of b j] handle_ok_close by auto
  qed (use S(2) d(6) in simp_all)
  have vals: "a_vals (abs_view ?v ?s) = (a_vals (abs_view v s))[i := None]"
    using one(2) ws by (auto simp: abs_view_def nth_list_update intro!: nth_equalityI)
  have rd: "((s_writers s)[i := 0] ! k \<noteq> 0 \<and> r_lastcopy r = v_cur ?v ((s_writers s)[i := 0] ! k)) = ((s_writers s ! k \<noteq> 0 \<and> r_lastcopy r = v_cur v (s_writers s ! k)) \<and> k \<noteq> i)"
    if "(r, k) \<in> set (s_readers s)" "r_obj r \<noteq> 0" for r k
  proof -
    have "k < length (s_writers s)" using rel_reader(3) [OF assms that] by (simp add: handle_ok_def)
    then show ?thesis using one(2) [of k] ws(2) by (auto simp: nth_list_update)
  qed
  have "a_readers (abs_view ?v ?s) = unseen i (a_readers (abs_view v s))" using rd by (auto simp: abs_view_def unseen_def)
  then have "stm_promise (CloseWriter i) (abs_view v s) = (Done, abs_view ?v ?s)" using vals True by (simp add: abs_view_def)
  then show ?thesis by (rule keepsI [OF step rel])
next
  case False
  then show ?thesis by (intro absent_keeps [OF assms]) (auto simp: abs_view_def)
qed

lemma close_reader_keeps:
  assumes "rel s v"
  shows "keeps al (CloseReader i) s v"
proof (cases "i < length (s_readers s) \<and> r_obj (fst (s_readers s ! i)) \<noteq> 0")
  case True
  note d = relD [OF assms]
  obtain r k where rk: "s_readers s ! i = (r, k)" by fastforce
  have m: "(r, k) \<in> set (s_readers s)" "r_obj r \<noteq> 0" "i < length (s_readers s)" using True rk by (auto simp: in_set_conv_nth)
  note r = rel_reader [OF assms m(1,2)]
  have last: "v_cur v (r_obj r) = 0" if "v_obj v (r_obj r) = 1"
  proof (rule ccontr)
    assume "v_cur v (r_obj r) \<noteq> 0"
    then have "0 < refs (r_obj r) (s_writers s)" using d(4) by (simp add: refs_pos)
    moreover have "0 < refs (r_obj r) (map (r_obj \<circ> fst) (s_readers s))" using imageI [OF m(1), of "r_obj \<circ> fst"] by (simp add: refs_pos)
    ultimately show False using d(2) [OF m(2)] that by (simp add: objs_def)
  qed
  let ?v1 = "v\<lparr>v_obj := (v_obj v)(r_obj r := v_obj v (r_obj r) - 1)\<rparr>"
  obtain S1 where S1: "stm_releasereader (r_obj r) (s_stm s) = Some S1" "holds (st_heap S1) ?v1" by (rule releasereader_effect [OF d(1) r(1) last])
  have live: "0 < v_copy ?v1 (r_lastcopy r)" if "r_lastcopy r \<noteq> 0" using r(2) that by simp
  let ?v = "drop_ref (r_lastcopy r) ?v1"
  obtain S' where S: "stm_releasecopy (r_lastcopy r) S1 = Some S'" "holds (st_heap S') ?v" by (rule releasecopy_effect [OF S1(2) live])
  let ?s = "s\<lparr>s_stm := S', s_readers := (s_readers s)[i := (\<lparr>r_obj = 0, r_lastcopy = 0\<rparr>, k)]\<rparr>"
  have step: "stm_step al (CloseReader i) s = Some (Done, ?s)" using S(1) S1(1) True rk by (simp add: ldeletereader_def)
  have rd: "set (s_readers ?s) \<subseteq> insert (\<lparr>r_obj = 0, r_lastcopy = 0\<rparr>, k) (set (s_readers s))" by (simp add: set_update_subset_insert)
  then have sub: "handles ?s \<subseteq> insert (0, k) (handles s)" by (auto simp: handles_def)
  have rel: "rel ?s ?v"
  proof (rule relI)
    show "v_obj ?v b = refs b (objs ?s)" if "b \<noteq> 0" for b
      using d(2) [OF that] refs_update [of i "map (r_obj \<circ> fst) (s_readers s)" b 0] rk m(3) that by (auto simp: objs_def map_update)
    show "v_copy ?v e = refs e (copies ?v ?s)" if "e \<noteq> 0" for e
      using d(3) [OF that] refs_update [of i "map (r_lastcopy \<circ> fst) (s_readers s)" e 0] rk m(3) that by (auto simp: copies_def drop_ref_def map_update)
    show "handle_ok (s_writers ?s) b j" if "(b, j) \<in> handles ?s" "b \<noteq> 0" for b j using that sub d(5) [of b j] by auto
    show "r_lastcopy x = 0" if "(x, j) \<in> set (s_readers ?s)" "r_obj x = 0" for x j using that rd d(6) [of x j] by auto
  qed (use S(2) d(4) in simp_all)
  have "stm_promise (CloseReader i) (abs_view v s) = (Done, abs_view ?v ?s)"
    using m rk by (simp add: abs_view_alt map_update reader_abs_simps)
  then show ?thesis by (rule keepsI [OF step rel])
next
  case False
  then show ?thesis by (intro absent_keeps [OF assms]) (auto simp: abs_view_def split: prod.splits)
qed

text \<open>A read takes a reference to the current copy for the one that it gives up.\<close>

lemma read_effect:
  assumes "rel s v" "s_readers s ! i = (r, k)" "i < length (s_readers s)" "r_obj r \<noteq> 0" "v_cur v (r_obj r) \<noteq> r_lastcopy r"
  obtains S v' where "lread r (s_stm s) = Some (if v_cur v (r_obj r) = 0 then None else map_option (\<lambda>c. (c_msg c, c_sz c)) (copy_at (v_cur v (r_obj r)) S), r\<lparr>r_lastcopy := v_cur v (r_obj r)\<rparr>, S)"
    "rel (s\<lparr>s_stm := S, s_readers := (s_readers s)[i := (r\<lparr>r_lastcopy := v_cur v (r_obj r)\<rparr>, k)]\<rparr>) v'" "v_cur v' = v_cur v" "v_val v' = v_val v"
    "v_cur v (r_obj r) = 0 \<or> (\<exists>c. copy_at (v_cur v (r_obj r)) S = Some c \<and> message_at S (c_msg c, c_sz c) = Some (v_val v (v_cur v (r_obj r))))"
proof -
  note d = relD [OF assms(1)]
  define p where "p = v_cur v (r_obj r)"
  have m: "(r, k) \<in> set (s_readers s)" using assms(2,3) by (auto simp: in_set_conv_nth)
  note r = rel_reader [OF assms(1) m assms(4)]
  have pl: "0 < v_copy v p" if p0: "p \<noteq> 0"
  proof -
    have "r_obj r \<in> set (s_writers s)" using d(4) p0 by (simp add: p_def)
    then show ?thesis using d(3) [OF p0] by (auto simp: refs_pos copies_def p_def)
  qed
  let ?v1 = "if p = 0 then v else v\<lparr>v_copy := (v_copy v)(p := v_copy v p + 1)\<rparr>"
  obtain S1 where S1: "stm_copy_of (r_obj r) (s_stm s) = Some (p, S1)" "holds (st_heap S1) ?v1"
    using copy_of_effect [OF d(1) r(1)] pl unfolding p_def by blast
  have live: "0 < v_copy ?v1 (r_lastcopy r)" if "r_lastcopy r \<noteq> 0" using r(2) that by simp
  let ?v = "drop_ref (r_lastcopy r) ?v1"
  obtain S where S: "stm_releasecopy (r_lastcopy r) S1 = Some S" "holds (st_heap S) ?v" by (rule releasecopy_effect [OF S1(2) live])
  have pv: "v_cur ?v = v_cur v" "v_val ?v = v_val v" "v_obj ?v = v_obj v" by simp_all
  have np: "p \<noteq> r_lastcopy r" using assms(5) by (simp add: p_def)
  have cp: "\<exists>c. copy_at p S = Some c \<and> message_at S (c_msg c, c_sz c) = Some (v_val v p)" if p0: "p \<noteq> 0"
  proof -
    have "0 < v_copy ?v p" using p0 np pl by (simp add: drop_ref_def)
    then obtain c where "copy_at p S = Some c" "msg_ok (st_heap S) c (v_val ?v p)" using copy_holds [OF S(2)] by blast
    then show ?thesis using message_holds pv(2) by simp
  qed
  have rd: "lread r (s_stm s) = Some (if p = 0 then None else map_option (\<lambda>c. (c_msg c, c_sz c)) (copy_at p S), r\<lparr>r_lastcopy := p\<rparr>, S)"
    using S(1) S1(1) np cp by (auto simp: lread_def)
  let ?s = "s\<lparr>s_stm := S, s_readers := (s_readers s)[i := (r\<lparr>r_lastcopy := p\<rparr>, k)]\<rparr>"
  have sr: "set (s_readers ?s) \<subseteq> insert (r\<lparr>r_lastcopy := p\<rparr>, k) (set (s_readers s))" by (simp add: set_update_subset_insert)
  have robj: "map (r_obj \<circ> fst) (s_readers ?s) = map (r_obj \<circ> fst) (s_readers s)" using assms(2,3) by (simp add: map_update list_update_same_conv)
  have "(\<lambda>(r, k). (r_obj r, k)) ` set (s_readers ?s) \<subseteq> (\<lambda>(r, k). (r_obj r, k)) ` set (s_readers s)"
    using image_mono [OF sr, of "\<lambda>(r, k). (r_obj r, k)"] imageI [OF m, of "\<lambda>(r, k). (r_obj r, k)"] by (simp add: insert_absorb)
  then have sub: "handles ?s \<subseteq> handles s" by (auto simp: handles_def)
  have rel: "rel ?s ?v"
  proof (rule relI)
    show "v_obj ?v b = refs b (objs ?s)" if "b \<noteq> 0" for b using d(2) [OF that] robj pv(3) by (simp add: objs_def)
    show "v_copy ?v e = refs e (copies ?v ?s)" if "e \<noteq> 0" for e
      using d(3) [OF that] refs_update [of i "map (r_lastcopy \<circ> fst) (s_readers s)" e p] assms(2,3) that np r(2) pv(1)
      by (auto simp: copies_def drop_ref_def map_update)
    show "handle_ok (s_writers ?s) b j" if "(b, j) \<in> handles ?s" "b \<noteq> 0" for b j using that sub d(5) [of b j] by auto
    show "r_lastcopy x = 0" if "(x, j) \<in> set (s_readers ?s)" "r_obj x = 0" for x j using that sr d(6) [of x j] assms(4) by auto
  qed (use S(2) d(4) pv in simp_all)
  show thesis using that [of S ?v] rd rel pv(1,2) cp unfolding p_def by blast
qed

lemma read_keeps:
  assumes "rel s v"
  shows "keeps al (ReadBox i) s v"
proof (cases "i < length (s_readers s) \<and> r_obj (fst (s_readers s ! i)) \<noteq> 0")
  case True
  note d = relD [OF assms]
  obtain r k where rk: "s_readers s ! i = (r, k)" by fastforce
  have m: "(r, k) \<in> set (s_readers s)" "r_obj r \<noteq> 0" "i < length (s_readers s)" using True rk by (auto simp: in_set_conv_nth)
  note r = rel_reader [OF assms m(1,2)]
  have wk: "k < length (s_writers s)" using r(3) by (simp add: handle_ok_def)
  have wc: "s_writers s ! k = (if v_cur v (r_obj r) = 0 then 0 else r_obj r)" using r(4,5) d(4) wk nth_mem by metis
  have cl: "0 < v_copy v (v_cur v (r_obj r))" if "v_cur v (r_obj r) \<noteq> 0"
    using rel_writer(3) [OF assms wk] wc that m(2) by simp
  show ?thesis
  proof (cases "v_cur v (r_obj r) = r_lastcopy r")
    case same: True
    obtain S1 where S1: "stm_copy_of (r_obj r) (s_stm s) = Some (r_lastcopy r, S1)"
      "holds (st_heap S1) (if r_lastcopy r = 0 then v else v\<lparr>v_copy := (v_copy v)(r_lastcopy r := v_copy v (r_lastcopy r) + 1)\<rparr>)"
      using copy_of_effect [OF d(1) r(1)] cl same by metis
    obtain S where S: "stm_releasecopy (r_lastcopy r) S1 = Some S" "holds (st_heap S) v"
      by (rule releasecopy_effect [OF S1(2), of "r_lastcopy r"]) (auto simp: drop_ref_def split: if_splits)
    have step: "stm_step al (ReadBox i) s = Some (Got None, s\<lparr>s_stm := S\<rparr>)"
      using S S1 m rk list_update_id [of "s_readers s" i] by (simp add: lread_def)
    have "rel (s\<lparr>s_stm := S\<rparr>) v" using S(2) assms by (simp add: rel_def objs_def copies_def handles_def)
    moreover have "stm_promise (ReadBox i) (abs_view v s) = (Got None, abs_view v (s\<lparr>s_stm := S\<rparr>))"
      using m rk wk wc same by (simp add: abs_view_alt reader_abs_simps)
    ultimately show ?thesis using step by (blast intro: keepsI)
  next
    case new: False
    obtain S v' where e: "lread r (s_stm s) = Some (if v_cur v (r_obj r) = 0 then None else map_option (\<lambda>c. (c_msg c, c_sz c)) (copy_at (v_cur v (r_obj r)) S), r\<lparr>r_lastcopy := v_cur v (r_obj r)\<rparr>, S)"
      "rel (s\<lparr>s_stm := S, s_readers := (s_readers s)[i := (r\<lparr>r_lastcopy := v_cur v (r_obj r)\<rparr>, k)]\<rparr>) v'" "v_cur v' = v_cur v" "v_val v' = v_val v"
      "v_cur v (r_obj r) = 0 \<or> (\<exists>c. copy_at (v_cur v (r_obj r)) S = Some c \<and> message_at S (c_msg c, c_sz c) = Some (v_val v (v_cur v (r_obj r))))"
      by (rule read_effect [OF assms rk m(3,2) new])
    let ?s = "s\<lparr>s_stm := S, s_readers := (s_readers s)[i := (r\<lparr>r_lastcopy := v_cur v (r_obj r)\<rparr>, k)]\<rparr>"
    let ?x = "if v_cur v (r_obj r) = 0 then None else Some (v_val v (v_cur v (r_obj r)))"
    have step: "stm_step al (ReadBox i) s = Some (Got ?x, ?s)" using e(1,5) m rk by (auto split: if_splits)
    have "(map (reader_abs (v_cur v) (s_writers s)) (s_readers s))[i := reader_abs (v_cur v) (s_writers s) (r, k)] = map (reader_abs (v_cur v) (s_writers s)) (s_readers s)"
      using m(3) rk by (simp add: list_update_same_conv)
    then have "stm_promise (ReadBox i) (abs_view v s) = (Got ?x, abs_view v' ?s)"
      using m rk wk wc new e(3,4) by (auto simp: abs_view_alt reader_abs_simps map_update)
    then show ?thesis by (rule keepsI [OF step e(2)])
  qed
next
  case False
  then show ?thesis by (intro absent_keeps [OF assms]) (auto simp: abs_view_def split: prod.splits)
qed

section \<open>Any sequence of operations\<close>

fun op_ok :: "stm_op \<Rightarrow> bool" where
  "op_ok (NewWriter g bs) \<longleftrightarrow> length bs < 2 ^ 31"
| "op_ok (Update i g bs) \<longleftrightarrow> length bs < 2 ^ 31"
| "op_ok _ \<longleftrightarrow> True"

definition stm_init :: sys where
  "stm_init = \<lparr>s_stm = \<lparr>st_heap = Map.empty, st_calls = 0\<rparr>, s_writers = [], s_readers = [], s_flight = []\<rparr>"

definition spec_init :: stm_spec where
  "spec_init = \<lparr>a_vals = [], a_readers = [], a_flight = []\<rparr>"

definition all_closed :: "stm_spec \<Rightarrow> bool" where
  "all_closed a \<longleftrightarrow> list_all (\<lambda>x. x = None) (a_vals a) \<and> list_all (\<lambda>x. x = None) (a_readers a) \<and> list_all (\<lambda>x. x = None) (a_flight a)"

lemma step_keeps:
  assumes "rel s v" "fresh_alloc al" "op_ok x"
  shows "keeps al x s v"
  using assms new_writer_keeps copy_keeps new_reader_keeps update_keeps read_keeps close_writer_keeps close_reader_keeps
  by (cases x) simp_all

lemma stm_refines:
  assumes "fresh_alloc al"
  shows "refines (\<lambda>s. \<exists>v. rel s v) stm_abs op_ok (stm_step al) stm_promise"
proof
  fix s x
  assume "\<exists>v. rel s v" "op_ok x"
  then obtain v where v: "rel s v" by blast
  then obtain r s' v' where "stm_step al x s = Some (r, s')" "rel s' v'" "stm_promise x (abs_view v s) = (r, abs_view v' s')"
    using step_keeps [OF v assms \<open>op_ok x\<close>] unfolding keeps_def by blast
  then show "\<exists>r s'. stm_step al x s = Some (r, s') \<and> (\<exists>v. rel s' v) \<and> stm_promise x (stm_abs s) = (r, stm_abs s')"
    using stm_abs_view [OF v] stm_abs_view [of s' v'] by auto
qed

lemma init_rel: "rel stm_init \<lparr>v_obj = \<lambda>_. 0, v_cur = \<lambda>_. 0, v_copy = \<lambda>_. 0, v_val = \<lambda>_. []\<rparr>" "stm_abs stm_init = spec_init"
  by (simp_all add: rel_def holds_def stm_init_def objs_def copies_def handles_def stm_abs_def spec_init_def)

lemma closed_empty:
  assumes "rel s v" "all_closed (stm_abs s)"
  shows "st_heap (s_stm s) = Map.empty"
proof -
  note d = relD [OF assms(1)] and h = holdsD [OF relD(1) [OF assms(1)]]
  have c: "all_closed (abs_view v s)" using assms(2) stm_abs_view [OF assms(1)] by simp
  have w: "a = 0" if "a \<in> set (s_writers s)" for a using c that by (auto simp: all_closed_def abs_view_def list_all_iff split: if_splits)
  have r: "r_obj x = 0" if "(x, k) \<in> set (s_readers s)" for x k using c that by (fastforce simp: all_closed_def abs_view_def list_all_iff split: if_splits)
  have f: "a = 0" if "(a, k) \<in> set (s_flight s)" for a k using c that by (fastforce simp: all_closed_def abs_view_def list_all_iff split: if_splits)
  have o: "v_obj v a = 0" if "a \<noteq> 0" for a using d(2) [OF that] that w r f by (fastforce simp: refs_zero objs_def)
  have "v_cur v 0 = 0" using d(4) [of 0] by simp
  then have cc: "v_copy v a = 0" if "a \<noteq> 0" for a using d(3) [OF that] that w r d(6) by (fastforce simp: refs_zero copies_def)
  have "st_heap (s_stm s) a = None" for a
  proof (cases "st_heap (s_stm s) a")
    case (Some x)
    then have "a \<noteq> 0" using h(2) by (metis option.distinct(1))
    have "st_heap (s_stm s) b \<noteq> Some (Copy y)" for b y
      using h(5) [of b y] cc [of b] h(2) by (cases "b = 0") auto
    then show ?thesis using Some h(3) [of a] o [OF \<open>a \<noteq> 0\<close>] h(8) [of a] by (cases x) auto
  qed
  then show ?thesis by auto
qed

text \<open>
  C14: The shared objects of \<open>lstm.c\<close> are what their users think they are, as long as their operations run one after another. Take any sequence of new writers, updates, copies of the
  object pointer, new readers, reads and closed boxes, of messages below \<open>2 ^ 31\<close> bytes, by any services, each finished before the next begins, whatever free addresses the allocator
  gives back. Every operation returns (no use of freed memory, no failed assertion); each read gets the last value of its
  writer exactly if the writer published one since the last read and is open; and when all boxes are closed and no pointer is under way, no object, copy or message is left allocated.
\<close>

theorem stm_shared_variables:
  assumes "fresh_alloc al" "list_all op_ok xs"
  shows "\<exists>rs s. run_steps (stm_step al) xs stm_init = Some (rs, s) \<and> run_spec stm_promise xs spec_init = (rs, stm_abs s) \<and>
    (all_closed (stm_abs s) \<longrightarrow> st_heap (s_stm s) = Map.empty)"
proof -
  obtain rs s v where "run_steps (stm_step al) xs stm_init = Some (rs, s)" "rel s v" "run_spec stm_promise xs (stm_abs stm_init) = (rs, stm_abs s)"
    using refines.run_refines [OF stm_refines [OF assms(1)], of stm_init xs] init_rel(1) assms(2) by blast
  then show ?thesis using closed_empty init_rel(2) by auto
qed

definition stm_demo :: "stm_op list" where
  "stm_demo =
     [NewWriter False [7], CopyObj 0, CopyObj 0, NewReader 1, ReadBox 0, ReadBox 0, Update 0 True [8, 9], Update 0 False [], ReadBox 0, NewReader 0, Update 0 False [1],
      ReadBox 1, CloseWriter 0, ReadBox 0, CloseReader 0, CloseReader 1]"

theorem stm_shared_variables_witness:
  "\<exists>s. run_steps (stm_step lowest_free) stm_demo stm_init =
    Some ([Done, Done, Done, Done, Got (Some [7]), Got None, Done, Done, Got (Some []), Done, Done, Got (Some [1]), Done, Got None, Done, Done], s) \<and>
    st_heap (s_stm s) = Map.empty"
proof -
  have "run_spec stm_promise stm_demo spec_init =
    ([Done, Done, Done, Done, Got (Some [7]), Got None, Done, Done, Got (Some []), Done, Done, Got (Some [1]), Done, Got None, Done, Done],
     \<lparr>a_vals = [None], a_readers = [None, None], a_flight = [None, None]\<rparr>)" by code_simp
  moreover have "list_all op_ok stm_demo" by (simp add: stm_demo_def)
  moreover obtain rs s where "run_steps (stm_step lowest_free) stm_demo stm_init = Some (rs, s)" "run_spec stm_promise stm_demo spec_init = (rs, stm_abs s)"
    "all_closed (stm_abs s) \<longrightarrow> st_heap (s_stm s) = Map.empty"
    using stm_shared_variables [OF lowest_free_fresh] \<open>list_all op_ok stm_demo\<close> by blast
  moreover have "all_closed \<lparr>a_vals = [None], a_readers = [None, None], a_flight = [None, None]\<rparr>" by (simp add: all_closed_def)
  ultimately show ?thesis by simp
qed

text \<open>
  Two readers of an object whose writer is gone cannot close at the same time. \<open>stm_releasereader\<close> holds the object's lock only for reading, so both can be in it. When the first
  has counted down to one, the second counts down to zero and frees the object, and the \<open>rwlock_runlock\<close> of the first writes to freed memory. This holds in every store where two
  references to the object are left and its writer has released it.
\<close>

theorem reader_close_race:
  assumes "object_at obj S = Some \<lparr>o_reference = 2, o_copy = 0\<rparr>" "obj \<noteq> 0"
  shows "\<exists>S1 S2. releasereader_drop obj S = Some (False, S1) \<and> releasereader_drop obj S1 = Some (True, S2) \<and>
    object_at obj S2 = None \<and> releasereader_unlock obj S2 = None"
proof -
  let ?S1 = "set_cell obj (Obj \<lparr>o_reference = 1, o_copy = 0\<rparr>) S"
  have "releasereader_drop obj S = Some (False, ?S1)" using assms by (simp add: releasereader_drop_def)
  moreover have "releasereader_drop obj ?S1 = Some (True, ?S1\<lparr>st_heap := (st_heap ?S1)(obj := None)\<rparr>)"
    using assms(2) by (simp add: releasereader_drop_def free_cell_def object_at_def set_cell_def)
  moreover have "object_at obj (?S1\<lparr>st_heap := (st_heap ?S1)(obj := None)\<rparr>) = None" by (simp add: object_at_def)
  ultimately show ?thesis by (auto simp: releasereader_unlock_def)
qed

text \<open>A writer that published a byte, gave its pointer to two readers and closed.\<close>

definition race_prefix :: "stm_op list" where
  "race_prefix = [NewWriter False [7], CopyObj 0, CopyObj 0, NewReader 0, NewReader 1, CloseWriter 0]"

theorem reader_close_race_witness:
  "\<exists>rs s S1 S2. run_steps (stm_step (\<lambda>n h. Suc n)) race_prefix stm_init = Some (rs, s) \<and> map (r_obj \<circ> fst) (s_readers s) = [2, 2] \<and>
    releasereader_drop 2 (s_stm s) = Some (False, S1) \<and> releasereader_drop 2 S1 = Some (True, S2) \<and> releasereader_unlock 2 S2 = None"
proof -
  let ?r = "run_steps (stm_step (\<lambda>n h. Suc n)) race_prefix stm_init"
  have "map_option (\<lambda>(rs, s). (map (r_obj \<circ> fst) (s_readers s), object_at 2 (s_stm s))) ?r = Some ([2, 2], Some \<lparr>o_reference = 2, o_copy = 0\<rparr>)"
    by code_simp
  then obtain rs s where s: "?r = Some (rs, s)" "map (r_obj \<circ> fst) (s_readers s) = [2, 2]" "object_at 2 (s_stm s) = Some \<lparr>o_reference = 2, o_copy = 0\<rparr>"
    by auto
  from reader_close_race [OF s(3)] s(1,2) show ?thesis by auto
qed

end
