(* ===== verification/Multicast.thy ===== *)
theory Multicast
  imports Store
begin

text \<open>
  Multicast packages, \<open>src/lualib/lmulticast.c\<close>: one message in a package with a reference count, sent to the subscribers of a channel as a pointer to the package. The
  publisher packs, the multicast service binds the package to the number of subscribers, each of them unpacks and closes. Errors that reach Lua are \<open>Inl\<close>, with the
  store they leave; \<open>None\<close> is a use of freed memory.
\<close>

section \<open>Packages\<close>

record mc_package =
  mc_reference :: int
  mc_size :: u32
  mc_data :: addr

datatype mcell = Package mc_package | Pointer addr | Data bytes

type_synonym mstore = "mcell store"

datatype mc_error = Size_32 | String_too_long | Package_size int | Bound_twice | Bad_reference int

definition package_at :: "addr \<Rightarrow> mstore \<Rightarrow> mc_package option" where
  "package_at a S = (case st_heap S a of Some (Package p) \<Rightarrow> Some p | _ \<Rightarrow> None)"

definition pointer_at :: "addr \<Rightarrow> mstore \<Rightarrow> addr option" where
  "pointer_at a S = (case st_heap S a of Some (Pointer p) \<Rightarrow> Some p | _ \<Rightarrow> None)"

definition pack :: "mcell allocator \<Rightarrow> addr \<Rightarrow> u64 \<Rightarrow> mstore \<Rightarrow> (addr \<times> int) \<times> mstore" where
  "pack al data msz S =
     (let (p, S) = new_cell al (Package \<lparr>mc_reference = 0, mc_size = ucast msz, mc_data = data\<rparr>) S;
          (ret, S) = new_cell al (Pointer p) S in
      ((ret, 8), S))"

text \<open>A new block of a given size: none for size 0, as \<open>pixel_alloc\<close> answers.\<close>

definition new_data :: "mcell allocator \<Rightarrow> bytes \<Rightarrow> mstore \<Rightarrow> addr \<times> mstore" where
  "new_data al bs S = (if bs = [] then (0, S) else new_cell al (Data bs) S)"

definition mc_packlocal :: "mcell allocator \<Rightarrow> addr \<Rightarrow> int \<Rightarrow> mstore \<Rightarrow> mc_error + (addr \<times> int) \<times> mstore" where
  "mc_packlocal al data n S =
     (let msz = (word_of_int n :: u64) in
      if msz \<noteq> ucast (ucast msz :: u32) then Inl Size_32 else Inr (pack al data msz S))"

text \<open>The data is copied out of the store; a size past its block reads outside.\<close>

definition mc_packremote :: "mcell allocator \<Rightarrow> addr \<Rightarrow> int \<Rightarrow> mstore \<Rightarrow> (mc_error + (addr \<times> int) \<times> mstore) option" where
  "mc_packremote al data n S =
     (let msz = (word_of_int n :: u64) in
      if msz \<noteq> ucast (ucast msz :: u32) then Some (Inl Size_32)
      else do {
        bs \<leftarrow> (if msz = 0 then Some [] else case st_heap S data of Some (Data bs) \<Rightarrow> if unat msz \<le> length bs then Some (take (unat msz) bs) else None | _ \<Rightarrow> None);
        let (msg, S) = new_data al bs S;
        Some (Inr (pack al msg msz S)) })"

definition mc_packstring :: "mcell allocator \<Rightarrow> bytes \<Rightarrow> mstore \<Rightarrow> mc_error + (addr \<times> int) \<times> mstore" where
  "mc_packstring al msg S =
     (let msz = (of_nat (length msg) :: u64) in
      if msz \<noteq> ucast (ucast msz :: u32) then Inl String_too_long
      else let (data, S) = new_data al msg S in Inr (pack al data msz S))"

definition mc_unpacklocal :: "addr \<Rightarrow> int \<Rightarrow> mstore \<Rightarrow> (mc_error + addr \<times> addr \<times> int) option" where
  "mc_unpacklocal ptr n S =
     (let sz = sint (word_of_int n :: 32 word) in
      if sz \<noteq> 8 then Some (Inl (Package_size sz))
      else do { p \<leftarrow> pointer_at ptr S; x \<leftarrow> package_at p S; Some (Inr (p, mc_data x, uint (mc_size x))) })"

definition mc_bindrefer :: "addr \<Rightarrow> int \<Rightarrow> mstore \<Rightarrow> (mc_error + addr \<times> mstore) option" where
  "mc_bindrefer ptr n S = do {
     p \<leftarrow> pointer_at ptr S;
     x \<leftarrow> package_at p S;
     if mc_reference x \<noteq> 0 then Some (Inl Bound_twice)
     else Some (Inr (p, set_cell p (Package (x\<lparr>mc_reference := sint (word_of_int n :: 32 word)\<rparr>)) S)) }"

definition mc_closelocal :: "addr \<Rightarrow> mstore \<Rightarrow> (mc_error option \<times> mstore) option" where
  "mc_closelocal p S = do {
     x \<leftarrow> package_at p S;
     let ref = mc_reference x - 1;
     if ref \<le> 0 then do {
       S \<leftarrow> free_cell (mc_data x) S;
       S \<leftarrow> free_cell p S;
       Some (if ref < 0 then Some (Bad_reference ref) else None, S) }
     else Some (None, set_cell p (Package (x\<lparr>mc_reference := ref\<rparr>)) S) }"

definition mc_remote :: "addr \<Rightarrow> mstore \<Rightarrow> ((addr \<times> int) \<times> mstore) option" where
  "mc_remote ptr S = do {
     p \<leftarrow> pointer_at ptr S;
     x \<leftarrow> package_at p S;
     S \<leftarrow> free_cell p S;
     Some ((mc_data x, uint (mc_size x)), S) }"

definition mc_nextid :: "int \<Rightarrow> int" where
  "mc_nextid n = uint ((word_of_int n :: u32) + 256)"

section \<open>A message for the subscribers\<close>

text \<open>What a subscriber does: unpack the pointer that it was sent, read the message, close the package.\<close>

definition receive :: "addr \<Rightarrow> mstore \<Rightarrow> (mc_error + bytes \<times> mc_error option \<times> mstore) option" where
  "receive ptr S = do {
     r \<leftarrow> mc_unpacklocal ptr 8 S;
     case r of
       Inl e \<Rightarrow> Some (Inl e)
     | Inr (p, data, msz) \<Rightarrow> do {
         bs \<leftarrow> (if msz = 0 then Some [] else case st_heap S data of Some (Data bs) \<Rightarrow> if nat msz \<le> length bs then Some (take (nat msz) bs) else None | _ \<Rightarrow> None);
         (e, S) \<leftarrow> mc_closelocal p S;
         Some (Inr (bs, e, S)) } }"

fun receive_n :: "nat \<Rightarrow> addr \<Rightarrow> mstore \<Rightarrow> ((mc_error + bytes \<times> mc_error option) list \<times> mstore) option" where
  "receive_n 0 ptr S = Some ([], S)"
| "receive_n (Suc n) ptr S = do {
     r \<leftarrow> receive ptr S;
     case r of
       Inl e \<Rightarrow> do { (rs, S) \<leftarrow> receive_n n ptr S; Some (Inl e # rs, S) }
     | Inr (bs, e, S) \<Rightarrow> do { (rs, S) \<leftarrow> receive_n n ptr S; Some (Inr (bs, e) # rs, S) } }"

text \<open>A package of \<open>k\<close> references with the message \<open>bs\<close>, behind the pointer \<open>ptr\<close>, over a store that holds the rest.\<close>

definition bound :: "(addr \<rightharpoonup> mcell) \<Rightarrow> addr \<Rightarrow> addr \<Rightarrow> addr \<Rightarrow> bytes \<Rightarrow> int \<Rightarrow> (addr \<rightharpoonup> mcell) \<Rightarrow> bool" where
  "bound h ptr p d bs k h' \<longleftrightarrow> length bs < 2 ^ 32 \<and> ptr \<noteq> 0 \<and> p \<noteq> 0 \<and> ptr \<noteq> p \<and> h ptr = None \<and> h p = None \<and> (bs = [] \<longleftrightarrow> d = 0) \<and> (d \<noteq> 0 \<longrightarrow> h d = None \<and> d \<noteq> p \<and> d \<noteq> ptr) \<and>
     h' = (if d = 0 then h else h(d \<mapsto> Data bs))(p \<mapsto> Package \<lparr>mc_reference = k, mc_size = of_nat (length bs), mc_data = d\<rparr>, ptr \<mapsto> Pointer p)"

lemma size_32:
  assumes "n < 2 ^ 32"
  shows "(ucast (of_nat n :: u32) :: u64) = of_nat n" "uint (of_nat n :: u32) = int n"
proof -
  have "unat (of_nat n :: u64) = n" "unat (ucast (of_nat n :: u32) :: u64) = n" using assms by (simp_all add: unat_ucast unat_of_nat take_bit_nat_eq_self)
  then show "(ucast (of_nat n :: u32) :: u64) = of_nat n" by (simp add: word_unat_eq_iff)
  show "uint (of_nat n :: u32) = int n" using assms by (simp add: uint_nat unat_of_nat take_bit_nat_eq_self)
qed

lemma ucast_size: "(ucast (of_nat n :: u64) :: u32) = of_nat n"
  by (rule bit_word_eqI) (simp add: bit_simps)

lemma packstring_bound:
  assumes "fresh_alloc al" "finite (dom (st_heap S))" "length bs < 2 ^ 32"
  obtains ptr p d S' where "mc_packstring al bs S = Inr ((ptr, 8), S')" "bound (st_heap S) ptr p d bs 0 (st_heap S')"
proof -
  note fresh = fresh_alloc_at [OF assms(1)]
  obtain d S1 where d: "new_data al bs S = (d, S1)" by fastforce
  let ?h1 = "if d = 0 then st_heap S else (st_heap S)(d \<mapsto> Data bs)"
  have d': "st_heap S1 = ?h1" "bs = [] \<longleftrightarrow> d = 0" "d \<noteq> 0 \<longrightarrow> st_heap S d = None"
    using d fresh [OF assms(2), of "st_calls S"] by (auto simp: new_data_def new_cell_def Let_def split: if_splits)
  define p where "p = al (st_calls S1) ?h1"
  have p: "p \<noteq> 0" "?h1 p = None" using fresh [of ?h1 "st_calls S1"] assms(2) by (simp_all add: p_def)
  let ?h2 = "?h1(p \<mapsto> Package \<lparr>mc_reference = 0, mc_size = of_nat (length bs), mc_data = d\<rparr>)"
  define ptr where "ptr = al (Suc (st_calls S1)) ?h2"
  have ptr: "ptr \<noteq> 0" "?h2 ptr = None" using fresh [of ?h2 "Suc (st_calls S1)"] assms(2) by (simp_all add: ptr_def)
  have "mc_packstring al bs S = Inr ((ptr, 8), S1\<lparr>st_heap := ?h2(ptr \<mapsto> Pointer p), st_calls := st_calls S1 + 2\<rparr>)"
    using d d'(1) size_32(1) [OF assms(3)] by (simp add: mc_packstring_def pack_def new_cell_def Let_def ucast_size flip: p_def ptr_def)
  moreover have "bound (st_heap S) ptr p d bs 0 (?h2(ptr \<mapsto> Pointer p))"
    using assms(3) d' p ptr by (auto simp: bound_def split: if_splits)
  ultimately show thesis using that by simp
qed

lemma bound_reads:
  assumes "bound h ptr p d bs k (st_heap S)"
  shows "pointer_at ptr S = Some p" "package_at p S = Some \<lparr>mc_reference = k, mc_size = of_nat (length bs), mc_data = d\<rparr>"
    "mc_unpacklocal ptr 8 S = Some (Inr (p, d, int (length bs)))" "d \<noteq> 0 \<Longrightarrow> st_heap S d = Some (Data bs)"
proof -
  show a: "pointer_at ptr S = Some p" "package_at p S = Some \<lparr>mc_reference = k, mc_size = of_nat (length bs), mc_data = d\<rparr>"
    and "d \<noteq> 0 \<Longrightarrow> st_heap S d = Some (Data bs)" using assms by (auto simp: bound_def pointer_at_def package_at_def)
  have "length bs < 2 ^ 32" using assms by (simp add: bound_def)
  then show "mc_unpacklocal ptr 8 S = Some (Inr (p, d, int (length bs)))" using a size_32(2) [of "length bs"] by (simp add: mc_unpacklocal_def)
qed

lemma bound_rebind:
  "bound h ptr p d bs k h' \<Longrightarrow> bound h ptr p d bs j (h'(p \<mapsto> Package \<lparr>mc_reference = j, mc_size = of_nat (length bs), mc_data = d\<rparr>))"
  by (auto simp: bound_def fun_upd_twist)

lemma bindrefer_bound:
  assumes "bound h ptr p d bs 0 (st_heap S)"
  obtains S' where "mc_bindrefer ptr n S = Some (Inr (p, S'))" "bound h ptr p d bs (sint (word_of_int n :: 32 word)) (st_heap S')"
  using that bound_reads [OF assms] bound_rebind [OF assms] by (simp add: mc_bindrefer_def set_cell_def)

lemma receive_bound:
  assumes "bound h ptr p d bs k (st_heap S)" "1 < k"
  obtains S' where "receive ptr S = Some (Inr (bs, None, S'))" "bound h ptr p d bs (k - 1) (st_heap S')"
proof -
  have "d = 0 \<longleftrightarrow> bs = []" using assms(1) by (auto simp: bound_def)
  then show thesis using that bound_reads [OF assms(1)] bound_rebind [OF assms(1)] assms(2)
    by (cases "d = 0") (simp_all add: receive_def mc_closelocal_def set_cell_def)
qed

lemma receive_last:
  assumes "bound h ptr p d bs 1 (st_heap S)"
  obtains S' where "receive ptr S = Some (Inr (bs, None, S'))" "st_heap S' = h(ptr \<mapsto> Pointer p)"
proof -
  have d: "d = 0 \<longleftrightarrow> bs = []" "p \<noteq> 0" "p \<noteq> d" "p \<noteq> ptr" "d \<noteq> ptr \<or> d = 0" "st_heap S p \<noteq> None" using assms by (auto simp: bound_def)
  have "(st_heap S)(p := None) = h(ptr \<mapsto> Pointer p)" if "d = 0" using assms that by (auto simp: bound_def fun_upd_twist)
  moreover have "(st_heap S)(d := None, p := None) = h(ptr \<mapsto> Pointer p)" if "d \<noteq> 0" using assms that by (auto simp: bound_def fun_eq_iff)
  ultimately show thesis using that bound_reads [OF assms] d
    by (cases "d = 0") (auto simp: receive_def mc_closelocal_def free_cell_def)
qed

lemma receive_all:
  assumes "bound h ptr p d bs (int n) (st_heap S)" "0 < n"
  obtains S' where "receive_n n ptr S = Some (replicate n (Inr (bs, None)), S')" "st_heap S' = h(ptr \<mapsto> Pointer p)"
  using assms
proof (induction n arbitrary: S thesis)
  case (Suc n)
  show ?case
  proof (cases "n = 0")
    case True
    then have "bound h ptr p d bs 1 (st_heap S)" using Suc.prems(2) by simp
    from receive_last [OF this] obtain S' where "receive ptr S = Some (Inr (bs, None, S'))" "st_heap S' = h(ptr \<mapsto> Pointer p)" by blast
    then show ?thesis using True by (intro Suc.prems(1) [of S']) (simp_all add: fun_upd_def)
  next
    case False
    obtain S1 where S1: "receive ptr S = Some (Inr (bs, None, S1))" "bound h ptr p d bs (int n) (st_heap S1)"
      using receive_bound [OF Suc.prems(2)] False by auto
    obtain S' where "receive_n n ptr S1 = Some (replicate n (Inr (bs, None)), S')" "st_heap S' = h(ptr \<mapsto> Pointer p)"
      using Suc.IH [OF _ S1(2)] False by blast
    then show ?thesis using S1(1) by (intro Suc.prems(1) [of S']) (simp_all add: fun_upd_def)
  qed
qed simp

text \<open>
  A message that is packed and bound to \<open>n\<close> subscribers is read by each of them and freed with the last close: binding it again is refused, all \<open>n\<close> get the
  message and no error, after that the package and the data are gone, the rest of memory is as before, and another receiver would read freed memory. Only the pointer block
  that \<open>pack\<close> allocates is left: nothing in the library frees it.
\<close>

theorem mc_delivers:
  assumes "fresh_alloc al" "finite (dom (st_heap S))" "length bs < 2 ^ 32" "0 < n" "n < 2 ^ 31"
  shows "\<exists>ptr p S1 S2 S3. mc_packstring al bs S = Inr ((ptr, 8), S1) \<and> mc_bindrefer ptr (int n) S1 = Some (Inr (p, S2)) \<and>
    (\<forall>m. mc_bindrefer ptr m S2 = Some (Inl Bound_twice)) \<and> receive_n n ptr S2 = Some (replicate n (Inr (bs, None)), S3) \<and>
    st_heap S3 = (st_heap S)(ptr \<mapsto> Pointer p) \<and> st_heap S ptr = None \<and> receive ptr S3 = None"
proof -
  obtain ptr p d S1 where S1: "mc_packstring al bs S = Inr ((ptr, 8), S1)" "bound (st_heap S) ptr p d bs 0 (st_heap S1)"
    by (rule packstring_bound [OF assms(1-3)])
  have "sint (word_of_int (int n) :: 32 word) = int n" using assms(5) by (simp only: sint_sbintrunc') (simp add: signed_take_bit_int_eq_self)
  then obtain S2 where S2: "mc_bindrefer ptr (int n) S1 = Some (Inr (p, S2))" "bound (st_heap S) ptr p d bs (int n) (st_heap S2)"
    using bindrefer_bound [OF S1(2), of "int n"] by metis
  obtain S3 where S3: "receive_n n ptr S2 = Some (replicate n (Inr (bs, None)), S3)" "st_heap S3 = (st_heap S)(ptr \<mapsto> Pointer p)"
    by (rule receive_all [OF S2(2) assms(4)])
  have "mc_bindrefer ptr m S2 = Some (Inl Bound_twice)" for m using bound_reads [OF S2(2)] assms(4) by (simp add: mc_bindrefer_def)
  moreover have "ptr \<noteq> p" "st_heap S p = None" "st_heap S ptr = None" using S1(2) by (auto simp: bound_def)
  moreover have "receive ptr S3 = None" using S3(2) calculation(2,3) by (simp add: receive_def mc_unpacklocal_def pointer_at_def package_at_def)
  ultimately show ?thesis using S1(1) S2(1) S3 by blast
qed

theorem mc_delivers_witness:
  "\<exists>ptr p S1 S2 S3. mc_packstring lowest_free [1, 2] \<lparr>st_heap = Map.empty, st_calls = 0\<rparr> = Inr ((ptr, 8), S1) \<and> mc_bindrefer ptr 2 S1 = Some (Inr (p, S2)) \<and>
    receive_n 2 ptr S2 = Some ([Inr ([1, 2], None), Inr ([1, 2], None)], S3) \<and> st_heap S3 = [ptr \<mapsto> Pointer p]"
proof -
  have "replicate 2 (Inr ([1, 2], None)) = [Inr ([1, 2], None), Inr ([1 :: u8, 2], None :: mc_error option)]" by (simp add: numeral_2_eq_2)
  then show ?thesis using mc_delivers [OF lowest_free_fresh, of "\<lparr>st_heap = Map.empty, st_calls = 0\<rparr>" "[1, 2]" 2] by force
qed

text \<open>
  The other paths: a package that nobody closes after it was bound to no subscriber stays and can be bound again; closing a package that was not bound frees it with an error;
  for a remote node the data is taken out and the package freed; the next channel number keeps the node in the low eight bits.
\<close>

lemma mc_other_paths:
  assumes "bound h ptr p d bs 0 (st_heap S)"
  shows "\<exists>S'. mc_bindrefer ptr 0 S = Some (Inr (p, S')) \<and> st_heap S' = st_heap S"
    "\<exists>S'. mc_closelocal p S = Some (Some (Bad_reference (-1)), S') \<and> st_heap S' p = None"
    "\<exists>S'. mc_remote ptr S = Some ((d, int (length bs)), S') \<and> st_heap S' p = None \<and> (d \<noteq> 0 \<longrightarrow> st_heap S' d = Some (Data bs))"
proof -
  note r = bound_reads [OF assms]
  have d: "p \<noteq> 0" "p \<noteq> d" "st_heap S p = Some (Package \<lparr>mc_reference = 0, mc_size = of_nat (length bs), mc_data = d\<rparr>)" "length bs < 2 ^ 32"
    using assms by (auto simp: bound_def)
  show "\<exists>S'. mc_bindrefer ptr 0 S = Some (Inr (p, S')) \<and> st_heap S' = st_heap S" using r d(3) by (auto simp: mc_bindrefer_def set_cell_def)
  show "\<exists>S'. mc_closelocal p S = Some (Some (Bad_reference (-1)), S') \<and> st_heap S' p = None"
    using r d by (cases "d = 0") (auto simp: mc_closelocal_def free_cell_def)
  show "\<exists>S'. mc_remote ptr S = Some ((d, int (length bs)), S') \<and> st_heap S' p = None \<and> (d \<noteq> 0 \<longrightarrow> st_heap S' d = Some (Data bs))"
    using r d size_32(2) [OF d(4)] by (auto simp: mc_remote_def free_cell_def)
qed

lemma mc_nextid_node:
  assumes "0 \<le> c" "c < 2 ^ 32"
  shows "mc_nextid c mod 256 = c mod 256" "0 \<le> mc_nextid c" "mc_nextid c < 2 ^ 32"
proof -
  have "mc_nextid c = (c + 256) mod 2 ^ 32" by (simp add: mc_nextid_def uint_word_ariths uint_word_of_int mod_simps)
  then show "mc_nextid c mod 256 = c mod 256" "0 \<le> mc_nextid c" "mc_nextid c < 2 ^ 32" by (simp_all add: mod_mod_cancel)
qed

end
