(* ===== verification/Lalloc.thy ===== *)
theory Lalloc
  imports Prelude "HOL-Library.Multiset"
begin

text \<open>
  The memory allocator of a Lua service, \<open>src/service/lalloc.c\<close>: free lists of small blocks by size, a list of bigger blocks, huge blocks in mappings of their own. Memory is
  a store of 64-bit words at aligned addresses; the lists are linked through it, as in the code. An access outside the mappings, and an index outside \<open>small_list\<close>, is
  \<open>None\<close>. The kernel is the parameter \<open>Y\<close>. The fields of \<open>struct allocator\<close> are fields of the record; only the head of the list of huge blocks, which the list points back to,
  is in memory, at its place in the first chunk. \<open>allocator_info\<close> prints and is left out.
\<close>

section \<open>State\<close>

abbreviation SMALLSIZE :: int where "SMALLSIZE \<equiv> 8"
abbreviation SMALLLEVEL :: int where "SMALLLEVEL \<equiv> 32"
abbreviation CHUNKSIZE :: int where "CHUNKSIZE \<equiv> 32768"
abbreviation HUGESIZE :: int where "HUGESIZE \<equiv> 32752"
abbreviation MAP_FAILED :: addr where "MAP_FAILED \<equiv> 18446744073709551615"

text \<open>\<open>sizeof (struct allocator)\<close>, and the offset of \<open>huge_list\<close> in it.\<close>

abbreviation sizeof_allocator :: int where "sizeof_allocator \<equiv> 328"
abbreviation huge_offset :: addr where "huge_offset \<equiv> 296"

record lalloc =
  a_base :: addr
  small_list :: "addr list"
  chunk_list :: addr
  big_head :: addr
  big_tail :: addr
  chunk_used :: int
  l_mem :: "addr \<Rightarrow> u64"
  l_mapped :: "(addr \<times> nat) list"

record kernel =
  k_mmap :: "(addr \<times> nat) list \<Rightarrow> nat \<Rightarrow> addr"
  k_mremap :: "(addr \<times> nat) list \<Rightarrow> addr \<Rightarrow> nat \<Rightarrow> nat \<Rightarrow> addr"

definition pages :: "nat \<Rightarrow> nat" where
  "pages n = (n + 4095) div 4096 * 4096"

definition is_mapped :: "(addr \<times> nat) list \<Rightarrow> addr \<Rightarrow> nat \<Rightarrow> bool" where
  "is_mapped M a n \<longleftrightarrow> list_ex (\<lambda>(b, m). b \<le> a \<and> a + n \<le> b + m) M"

definition load :: "addr \<Rightarrow> lalloc \<Rightarrow> u64 option" where
  "load a A = (if a mod 8 = 0 \<and> is_mapped (l_mapped A) a 8 then Some (l_mem A a) else None)"

definition load_ptr :: "addr \<Rightarrow> lalloc \<Rightarrow> addr option" where
  "load_ptr a A = map_option unat (load a A)"

definition save :: "addr \<Rightarrow> u64 \<Rightarrow> lalloc \<Rightarrow> lalloc option" where
  "save a w A = (if a mod 8 = 0 \<and> is_mapped (l_mapped A) a 8 then Some (A\<lparr>l_mem := (l_mem A)(a := w)\<rparr>) else None)"

abbreviation save_ptr :: "addr \<Rightarrow> addr \<Rightarrow> lalloc \<Rightarrow> lalloc option" where
  "save_ptr a p \<equiv> save a (of_nat p)"

definition small_at :: "int \<Rightarrow> lalloc \<Rightarrow> addr option" where
  "small_at n A = (if 0 \<le> n \<and> n < int (length (small_list A)) then Some (small_list A ! nat n) else None)"

definition set_small :: "int \<Rightarrow> addr \<Rightarrow> lalloc \<Rightarrow> lalloc option" where
  "set_small n p A = (if 0 \<le> n \<and> n < int (length (small_list A)) then Some (A\<lparr>small_list := (small_list A)[nat n := p]\<rparr>) else None)"

section \<open>Pages\<close>

text \<open>New pages are filled with zeros. Unmapping a part of a mapping leaves the rest of it.\<close>

definition alloc_page :: "kernel \<Rightarrow> nat \<Rightarrow> lalloc \<Rightarrow> addr \<times> lalloc" where
  "alloc_page Y sz A =
     (let a = k_mmap Y (l_mapped A) sz in
      (a, if a = MAP_FAILED then A
          else A\<lparr>l_mapped := (a, pages sz) # l_mapped A, l_mem := \<lambda>x. if a \<le> x \<and> x < a + pages sz then 0 else l_mem A x\<rparr>))"

fun unmap :: "addr \<Rightarrow> nat \<Rightarrow> (addr \<times> nat) list \<Rightarrow> (addr \<times> nat) list" where
  "unmap a n [] = []"
| "unmap a n ((b, m) # M) = (if b = a then if pages n < m then (a + pages n, m - pages n) # M else M else (b, m) # unmap a n M)"

definition munmap :: "addr \<Rightarrow> nat \<Rightarrow> lalloc \<Rightarrow> lalloc" where
  "munmap a n A = A\<lparr>l_mapped := unmap a n (l_mapped A)\<rparr>"

definition allocator_new :: "kernel \<Rightarrow> lalloc option" where
  "allocator_new Y =
     (let (a, A) = alloc_page Y (nat CHUNKSIZE)
            \<lparr>a_base = 0, small_list = replicate 33 0, chunk_list = 0, big_head = 0, big_tail = 0, chunk_used = 0, l_mem = \<lambda>_. 0, l_mapped = []\<rparr>;
          A = A\<lparr>a_base := a, chunk_used := sizeof_allocator, chunk_list := a\<rparr> in
      do {
        A \<leftarrow> save_ptr (a + huge_offset) (a + huge_offset) A;
        save_ptr (a + huge_offset + 8) (a + huge_offset) A })"

partial_function (option) free_huge_list :: "addr \<Rightarrow> lalloc \<Rightarrow> lalloc option" where
  "free_huge_list h A =
     (if h = a_base A + huge_offset then Some A
      else do {
        nh \<leftarrow> load_ptr (h + 8) A;
        n \<leftarrow> load (h + 16) A;
        free_huge_list nh (munmap h (unat n) A) })"

partial_function (option) free_chunks :: "addr \<Rightarrow> lalloc \<Rightarrow> lalloc option" where
  "free_chunks c A =
     (if c = 0 then Some A
      else do { nc \<leftarrow> load_ptr c A; free_chunks nc (munmap c (nat CHUNKSIZE) A) })"

definition allocator_free :: "lalloc \<Rightarrow> lalloc option" where
  "allocator_free A = do {
     h \<leftarrow> load_ptr (a_base A + huge_offset + 8) A;
     A \<leftarrow> free_huge_list h A;
     free_chunks (chunk_list A) A }"

definition chunk_new :: "kernel \<Rightarrow> int \<Rightarrow> lalloc \<Rightarrow> (addr \<times> lalloc) option" where
  "chunk_new Y sz A =
     (let (nc, A) = alloc_page Y (nat CHUNKSIZE) A in
      if nc = 0 then Some (0, A)
      else do {
        A \<leftarrow> save_ptr nc (chunk_list A) A;
        Some (nc + 8, A\<lparr>chunk_list := nc, chunk_used := 8 + sz\<rparr>) })"

section \<open>Small blocks\<close>

definition memory_free_small :: "addr \<Rightarrow> int \<Rightarrow> lalloc \<Rightarrow> lalloc option" where
  "memory_free_small p n A = do {
     next \<leftarrow> small_at n A;
     A \<leftarrow> save_ptr p next A;
     set_small n p A }"

text \<open>The loop over the levels above \<open>n\<close>: a block there is cut in two. \<open>Some (0, A)\<close> when there is none.\<close>

definition small_levels :: "int \<Rightarrow> int list" where
  "small_levels n = [n + 1..SMALLLEVEL]"

fun split_small :: "int list \<Rightarrow> int \<Rightarrow> lalloc \<Rightarrow> (addr \<times> lalloc) option" where
  "split_small [] n A = Some (0, A)"
| "split_small (i # is) n A = do {
     ret \<leftarrow> small_at i A;
     if ret \<noteq> 0 then do {
       next \<leftarrow> load_ptr ret A;
       A \<leftarrow> set_small i next A;
       A \<leftarrow> memory_free_small (ret + nat ((n + 1) * SMALLSIZE)) (i - n - 1) A;
       Some (ret, A) }
     else split_small is n A }"

definition memory_alloc_small :: "kernel \<Rightarrow> int \<Rightarrow> lalloc \<Rightarrow> (addr \<times> lalloc) option" where
  "memory_alloc_small Y n A = do {
     node \<leftarrow> small_at n A;
     if node \<noteq> 0 then do { next \<leftarrow> load_ptr node A; A \<leftarrow> set_small n next A; Some (node, A) }
     else let sz = (n + 1) * SMALLSIZE in
       if chunk_used A + sz \<le> CHUNKSIZE then Some (chunk_list A + nat (chunk_used A), A\<lparr>chunk_used := chunk_used A + sz\<rparr>)
       else do {
         (ret, A) \<leftarrow> split_small (small_levels n) n A;
         if ret \<noteq> 0 then Some (ret, A) else chunk_new Y sz A } }"

section \<open>Huge blocks\<close>

text \<open>A \<open>struct hugeblock\<close> is \<open>prev\<close>, \<open>next\<close> and \<open>sz\<close>, 24 bytes in front of the memory.\<close>

definition memory_alloc_huge :: "kernel \<Rightarrow> nat \<Rightarrow> lalloc \<Rightarrow> (addr \<times> lalloc) option" where
  "memory_alloc_huge Y sz A =
     (let (h, A) = alloc_page Y (24 + sz) A; list = a_base A + huge_offset in
      if h = 0 then Some (0, A)
      else do {
        A \<leftarrow> save_ptr h list A;
        next \<leftarrow> load_ptr (list + 8) A;
        A \<leftarrow> save_ptr (h + 8) next A;
        A \<leftarrow> save (h + 16) (of_nat sz) A;
        A \<leftarrow> save_ptr next h A;
        A \<leftarrow> save_ptr (list + 8) h A;
        Some (h + 24, A) })"

definition memory_free_huge :: "addr \<Rightarrow> lalloc \<Rightarrow> lalloc option" where
  "memory_free_huge p A = do {
     let p = p - 24;
     prev \<leftarrow> load_ptr p A;
     next \<leftarrow> load_ptr (p + 8) A;
     A \<leftarrow> save_ptr (prev + 8) next A;
     A \<leftarrow> save_ptr next prev A;
     sz \<leftarrow> load (p + 16) A;
     Some (munmap p (unat (sz + 24)) A) }"

section \<open>Big blocks\<close>

text \<open>A \<open>struct bigblock\<close> is its size, in front of the memory, and the link of the free list. \<open>b_sz\<close> is compared as \<open>size_t\<close>; the difference is an \<open>int\<close>.\<close>

definition int_of :: "u64 \<Rightarrow> int" where
  "int_of w = sint (ucast w :: 32 word)"

definition cdiv :: "int \<Rightarrow> int \<Rightarrow> int" where
  "cdiv a b = (if a < 0 then - ((- a) div b) else a div b)"

fun biglist_loop :: "nat \<Rightarrow> addr \<Rightarrow> addr \<Rightarrow> int \<Rightarrow> lalloc \<Rightarrow> (addr \<times> lalloc) option" where
  "biglist_loop 0 term b sz A = Some (0, A)"
| "biglist_loop (Suc n) term b sz A = do {
     head \<leftarrow> load_ptr (b + 8) A;
     let A = A\<lparr>big_head := head\<rparr>;
     bsz \<leftarrow> load b A;
     if bsz \<ge> word_of_int sz then
       if bsz = word_of_int sz then Some (b, A)
       else do {
         let f = int_of (bsz - word_of_int sz);
         A \<leftarrow> save b (word_of_int sz) A;
         let idx = cdiv (f - 1) SMALLSIZE;
         let ptr = b + nat sz;
         if idx < SMALLLEVEL then do { A \<leftarrow> memory_free_small ptr idx A; Some (b, A) }
         else do {
           A \<leftarrow> save ptr (word_of_int f) A;
           if f > sz then do { A \<leftarrow> save_ptr (ptr + 8) (big_head A) A; Some (b, A\<lparr>big_head := ptr\<rparr>) }
           else do {
             A \<leftarrow> save_ptr (ptr + 8) 0 A;
             A \<leftarrow> save_ptr (big_tail A + 8) ptr A;
             Some (b, A\<lparr>big_tail := ptr\<rparr>) } } }
     else do {
       A \<leftarrow> save_ptr (b + 8) 0 A;
       A \<leftarrow> save_ptr (big_tail A + 8) b A;
       let A = A\<lparr>big_tail := b\<rparr>;
       if big_head A \<noteq> term then biglist_loop n term (big_head A) sz A else Some (0, A) } }"

definition lookup_biglist :: "int \<Rightarrow> lalloc \<Rightarrow> (addr \<times> lalloc) option" where
  "lookup_biglist sz A =
     (if big_head A = 0 then Some (0, A)
      else let b = big_head A in
        if b = big_tail A then do {
          bsz \<leftarrow> load b A;
          if bsz \<ge> word_of_int sz then
            let f = int_of (bsz - word_of_int sz) in
            if f = 0 then Some (b, A\<lparr>big_head := 0, big_tail := 0\<rparr>)
            else let idx = cdiv (f - 1) SMALLSIZE; ptr = b + nat sz in
              if idx < SMALLLEVEL then do { A \<leftarrow> memory_free_small ptr idx A; Some (b, A\<lparr>big_head := 0, big_tail := 0\<rparr>) }
              else Some (b, A\<lparr>big_head := ptr, big_tail := ptr\<rparr>)
          else Some (0, A) }
        else biglist_loop 128 b b sz A)"

definition memory_alloc_big :: "kernel \<Rightarrow> int \<Rightarrow> lalloc \<Rightarrow> (addr \<times> lalloc) option" where
  "memory_alloc_big Y sz A =
     (let sz = (sz + 15) div 8 * 8 in
      if chunk_used A + sz \<le> CHUNKSIZE then do {
        let b = chunk_list A + nat (chunk_used A);
        A \<leftarrow> save b (word_of_int sz) (A\<lparr>chunk_used := chunk_used A + sz\<rparr>);
        Some (b + 8, A) }
      else do {
        (b, A) \<leftarrow> lookup_biglist sz A;
        if b \<noteq> 0 then Some (b + 8, A)
        else do {
          (b, A) \<leftarrow> chunk_new Y sz A;
          if b = 0 then Some (0, A) else do { A \<leftarrow> save b (word_of_int sz) A; Some (b + 8, A) } } })"

definition memory_free_big :: "addr \<Rightarrow> lalloc \<Rightarrow> lalloc option" where
  "memory_free_big p A =
     (let b = p - 8 in
      if big_head A = 0 then save_ptr (b + 8) 0 (A\<lparr>big_head := b, big_tail := b\<rparr>)
      else do { A \<leftarrow> save_ptr (b + 8) (big_head A) A; Some (A\<lparr>big_head := b\<rparr>) })"

section \<open>The function for Lua\<close>

definition memory_alloc :: "kernel \<Rightarrow> u64 \<Rightarrow> lalloc \<Rightarrow> (addr \<times> lalloc) option" where
  "memory_alloc Y nsize A =
     (if uint nsize \<le> SMALLLEVEL * SMALLSIZE then
        if nsize = 0 then Some (0, A) else memory_alloc_small Y ((uint nsize - 1) div SMALLSIZE) A
      else if uint nsize \<le> HUGESIZE then memory_alloc_big Y (uint nsize) A
      else memory_alloc_huge Y (unat nsize) A)"

definition memory_free :: "addr \<Rightarrow> u64 \<Rightarrow> lalloc \<Rightarrow> lalloc option" where
  "memory_free p osize A =
     (if uint osize \<le> SMALLLEVEL * SMALLSIZE then memory_free_small p (int_of ((osize - 1) div 8)) A
      else if uint osize \<le> HUGESIZE then memory_free_big p A
      else memory_free_huge p A)"

text \<open>\<open>mremap\<close> moves the contents of the old mapping.\<close>

definition mremap :: "kernel \<Rightarrow> addr \<Rightarrow> nat \<Rightarrow> nat \<Rightarrow> lalloc \<Rightarrow> addr \<times> lalloc" where
  "mremap Y h old new A =
     (let nh = k_mremap Y (l_mapped A) h old new in
      (nh, if nh = MAP_FAILED then A
           else A\<lparr>l_mapped := (nh, pages new) # unmap h old (l_mapped A),
                  l_mem := \<lambda>x. if nh \<le> x \<and> x < nh + pages new then if x < nh + pages old then l_mem A (h + (x - nh)) else 0 else l_mem A x\<rparr>))"

definition memory_realloc_huge :: "kernel \<Rightarrow> addr \<Rightarrow> nat \<Rightarrow> lalloc \<Rightarrow> (addr \<times> lalloc) option" where
  "memory_realloc_huge Y p nsize A = do {
     let h = p - 24;
     sz \<leftarrow> load (h + 16) A;
     let (nh, A) = mremap Y h (unat (sz + 24)) (nsize + 24) A;
     if nh = 0 then Some (0, A)
     else do {
       A \<leftarrow> save (nh + 16) (of_nat nsize) A;
       if h = nh then Some (p, A)
       else do {
         prev \<leftarrow> load_ptr nh A;
         A \<leftarrow> save_ptr (prev + 8) nh A;
         next \<leftarrow> load_ptr (nh + 8) A;
         A \<leftarrow> save_ptr next nh A;
         Some (nh + 24, A) } } }"

text \<open>\<open>memcpy\<close>: whole words, then the low bytes of the last one.\<close>

fun copy_words :: "addr \<Rightarrow> addr \<Rightarrow> nat \<Rightarrow> lalloc \<Rightarrow> lalloc option" where
  "copy_words dst src 0 A = Some A"
| "copy_words dst src (Suc n) A = do { w \<leftarrow> load src A; A \<leftarrow> save dst w A; copy_words (dst + 8) (src + 8) n A }"

definition memcpy :: "addr \<Rightarrow> addr \<Rightarrow> nat \<Rightarrow> lalloc \<Rightarrow> lalloc option" where
  "memcpy dst src n A = do {
     A \<leftarrow> copy_words dst src (n div 8) A;
     if n mod 8 = 0 then Some A
     else do {
       let d = dst + n div 8 * 8;
       let m = mask (n mod 8 * 8);
       w \<leftarrow> load (src + n div 8 * 8) A;
       old \<leftarrow> load d A;
       save d ((old AND NOT m) OR (w AND m)) A } }"

definition pixel_lalloc :: "kernel \<Rightarrow> addr \<Rightarrow> u64 \<Rightarrow> u64 \<Rightarrow> lalloc \<Rightarrow> (addr \<times> lalloc) option" where
  "pixel_lalloc Y p osize nsize A =
     (if p = 0 then memory_alloc Y nsize A
      else if nsize = 0 then do { A \<leftarrow> memory_free p osize A; Some (0, A) }
      else if uint osize > HUGESIZE \<and> uint nsize > HUGESIZE then memory_realloc_huge Y p (unat nsize) A
      else if nsize \<le> osize then Some (p, A)
      else do {
        (tmp, A) \<leftarrow> memory_alloc Y nsize A;
        if tmp = 0 then Some (0, A)
        else do { A \<leftarrow> memcpy tmp p (unat osize) A; A \<leftarrow> memory_free p osize A; Some (tmp, A) } })"

lemma is_mapped_sub:
  assumes "is_mapped M a n" "a \<le> b" "b + m \<le> a + n"
  shows "is_mapped M b m"
proof -
  obtain c k where "(c, k) \<in> set M" "c \<le> a" "a + n \<le> c + k" using assms(1) by (auto simp: is_mapped_def list_ex_iff)
  then show ?thesis using assms(2,3) unfolding is_mapped_def list_ex_iff by (intro bexI [of _ "(c, k)"]) auto
qed

section \<open>The sizes of a block that is cut in two\<close>

text \<open>When the list of big blocks has one block, a request cuts it and no size is written: the block keeps its old size and the rest has whatever its first word holds.\<close>

lemma single_split_sizes:
  assumes "big_head A = b" "big_tail A = b" "b \<noteq> 0" "load b A = Some bsz" "0 < sz" "sz + 256 < uint bsz" "uint bsz < 2 ^ 31"
  shows "lookup_biglist sz A = Some (b, A\<lparr>big_head := b + nat sz, big_tail := b + nat sz\<rparr>)"
proof -
  have w: "uint (word_of_int sz :: u64) = sz" using assms(5-7) by (simp add: uint_word_of_int)
  then have "uint (bsz - word_of_int sz) = uint bsz - sz" using assms(5,6) by (subst uint_sub_lem [THEN iffD1]) simp_all
  moreover from this have "int_of (bsz - word_of_int sz) = uint bsz - sz" using assms(5-7)
    by (simp add: int_of_def sint_uint unsigned_ucast_eq take_bit_int_eq_self signed_take_bit_int_eq_self)
  moreover have "\<not> (uint bsz - sz - 1) div 8 < 32" using assms(6) by presburger
  ultimately show ?thesis using assms w by (simp add: lookup_biglist_def word_le_def cdiv_def Let_def)
qed

text \<open>A kernel that maps at increasing addresses, and a service that uses its memory as it may.\<close>

definition rising :: kernel where
  "rising = \<lparr>k_mmap = \<lambda>M n. 1048576 * (length M + 1), k_mremap = \<lambda>M a n m. a\<rparr>"

definition overlap_start :: "lalloc option" where
  "overlap_start = do {
     A \<leftarrow> allocator_new rising;
     (p1, A) \<leftarrow> pixel_lalloc rising 0 0 30000 A;
     A \<leftarrow> save (p1 + 3000) 27000 A;
     (_, A) \<leftarrow> pixel_lalloc rising p1 30000 0 A;
     Some A }"

lemma Suc_127: "Suc 127 = 128"
  by simp

lemmas biglist_128 = biglist_loop.simps(2) [of 127, unfolded Suc_127]

lemma overlap_start_value:
  obtains A where "overlap_start = Some A" "big_head A = 1048904" "big_tail A = 1048904" "load 1048904 A = Some 30008"
    "l_mapped A = [(1048576, 32768)]" "chunk_used A = 30336" "load 1051912 A = Some 27000"
  by (simp add: overlap_start_def allocator_new_def rising_def alloc_page_def save_def load_def load_ptr_def is_mapped_def pages_def pixel_lalloc_def memory_alloc_def memory_free_def
      memory_alloc_big_def memory_free_big_def Let_def)

text \<open>A request of a big size when the chunk is used up.\<close>

definition big_round :: "u64 \<Rightarrow> int" where
  "big_round n = (uint n + 15) div 8 * 8"

lemma big_round_bounds: "uint n + 8 \<le> big_round n" "big_round n \<le> uint n + 15" "big_round n mod 8 = 0" "nat (big_round n) mod 8 = 0"
  unfolding big_round_def by (presburger, presburger, simp, simp add: nat_mod_as_int)

lemma pixel_lalloc_big:
  assumes "256 < uint n" "uint n \<le> HUGESIZE" "CHUNKSIZE < chunk_used A + big_round n" "lookup_biglist (big_round n) A = Some (b, A')" "b \<noteq> 0"
  shows "pixel_lalloc Y 0 0 n A = Some (b + 8, A')"
  using assms by (simp add: pixel_lalloc_def memory_alloc_def memory_alloc_big_def big_round_def Let_def)

text \<open>A list of two or more blocks whose first one is big enough gives that one.\<close>

lemma lookup_first:
  assumes "big_head A = b" "big_tail A \<noteq> b" "b \<noteq> 0" "load b A = Some bsz" "is_mapped (l_mapped A) b (unat bsz)" "b mod 8 = 0" "uint bsz < 2 ^ 31"
    "0 < sz" "sz mod 8 = 0" "sz + 256 < uint bsz" "load_ptr (b + 8) A = Some nb" "load (big_tail A + 8) A \<noteq> None"
  shows "\<exists>A'. lookup_biglist sz A = Some (b, A')"
proof -
  have w: "uint (word_of_int sz :: u64) = sz" using assms(7,8,10) by (simp add: uint_word_of_int)
  then have d: "uint (bsz - word_of_int sz) = uint bsz - sz" using assms(8,10) by (subst uint_sub_lem [THEN iffD1]) simp_all
  then have f: "int_of (bsz - word_of_int sz) = uint bsz - sz" using assms(7,8,10)
    by (simp add: int_of_def sint_uint unsigned_ucast_eq take_bit_int_eq_self signed_take_bit_int_eq_self)
  have idx: "\<not> cdiv (uint bsz - sz - 1) SMALLSIZE < SMALLLEVEL" using assms(10) by (simp add: cdiv_def)
  have cmp: "word_of_int sz \<le> bsz" "bsz \<noteq> word_of_int sz" using assms(10) w by (auto simp: word_le_def)
  have m: "is_mapped (l_mapped A) (b + k) 8" "(b + k) mod 8 = 0" if "k mod 8 = 0" "int k + 8 \<le> uint bsz" for k
  proof -
    have "int (unat bsz) = uint bsz" by simp
    with that(2) have "k + 8 \<le> unat bsz" by linarith
    then show "is_mapped (l_mapped A) (b + k) 8" using is_mapped_sub [OF assms(5), of "b + k" 8] by simp
    show "(b + k) mod 8 = 0" using assms(6) that(1) by (metis add.right_neutral mod_add_eq mod_0)
  qed
  have k: "nat sz mod 8 = 0" "int (nat sz) = sz" "(nat sz + 8) mod 8 = 0" using assms(8,9) by (simp_all add: nat_mod_as_int) 
  note mm = m [of 0] m [of "nat sz"] m [of "nat sz + 8"]
  have t: "is_mapped (l_mapped A) (big_tail A + 8) 8" "(big_tail A + 8) mod 8 = 0" using assms(12) by (auto simp: load_def split: if_splits)
  have l: "load x (A\<lparr>big_head := nb\<rparr>) = load x A" for x by (simp add: load_def)
  show ?thesis
    using assms(1-4,11) w d f idx cmp mm t k assms(8,10)
    by (auto simp: lookup_biglist_def biglist_128 l save_def Let_def add.assoc)
qed

end
