(* ===== verification/Lalloc_Inv.thy ===== *)
theory Lalloc_Inv
  imports Lalloc
begin

text \<open>
  The allocator of \<open>src/service/lalloc.c\<close> for requests of up to 256 bytes: whatever a service allocates, resizes and frees, its blocks never overlap, lie in mapped memory and
  keep their contents. The rest of the allocator reuses one block of the list for big blocks wrongly, which can give the same memory to two owners.
\<close>

section \<open>Extents\<close>

type_synonym extent = "addr \<times> nat"

definition apart :: "extent \<Rightarrow> extent \<Rightarrow> bool" where
  "apart x y \<longleftrightarrow> fst x + snd x \<le> fst y \<or> fst y + snd y \<le> fst x"

definition sep :: "extent multiset \<Rightarrow> bool" where
  "sep M \<longleftrightarrow> (\<forall>x\<in>#M. \<forall>y\<in>#M - {#x#}. apart x y)"

lemma apart_sym: "apart x y \<Longrightarrow> apart y x"
  by (auto simp: apart_def)

lemma sep_add: "sep (add_mset x M) \<longleftrightarrow> (\<forall>y\<in>#M. apart x y) \<and> sep M"
proof
  assume s: "sep (add_mset x M)"
  have "apart x y" if "y \<in># M" for y using s that by (auto simp: sep_def)
  moreover have "apart z y" if z: "z \<in># M" "y \<in># M - {#z#}" for z y
  proof -
    have "y \<in># add_mset x M - {#z#}" using z by (cases "z = x") (auto dest: in_diffD)
    then show ?thesis using s z(1) by (auto simp: sep_def)
  qed
  ultimately show "(\<forall>y\<in>#M. apart x y) \<and> sep M" by (auto simp: sep_def)
next
  assume s: "(\<forall>y\<in>#M. apart x y) \<and> sep M"
  show "sep (add_mset x M)" unfolding sep_def
  proof (intro ballI)
    fix z y assume z: "z \<in># add_mset x M" "y \<in># add_mset x M - {#z#}"
    show "apart z y"
    proof (cases "z = x")
      case True
      then show ?thesis using s z(2) by simp
    next
      case False
      then have "z \<in># M" "y = x \<or> y \<in># M - {#z#}" using z by auto
      then show ?thesis using s apart_sym [of x z] unfolding sep_def by blast
    qed
  qed
qed

lemma sep_cut: "sep (add_mset (a, n + m) M) \<Longrightarrow> sep (add_mset (a, n) (add_mset (a + n, m) M))"
  by (auto simp: sep_add apart_def)

lemma sep_plus: "sep (M + N) \<Longrightarrow> sep N"
  by (induction M) (simp_all add: sep_add)

section \<open>Free lists\<close>

fun chain :: "(addr \<Rightarrow> u64) \<Rightarrow> addr \<Rightarrow> addr list \<Rightarrow> bool" where
  "chain m p [] \<longleftrightarrow> p = 0"
| "chain m p (b # bs) \<longleftrightarrow> p = b \<and> b \<noteq> 0 \<and> chain m (unat (m b)) bs"

lemma linked_cong: "(\<And>b. b \<in> set bs \<Longrightarrow> m' b = m b) \<Longrightarrow> chain m' p bs = chain m p bs"
  by (induction m p bs rule: chain.induct) auto

definition level_ext :: "nat \<Rightarrow> addr list \<Rightarrow> extent multiset" where
  "level_ext i bs = image_mset (\<lambda>b. (b, 8 * Suc i)) (mset bs)"

definition free_ext :: "(nat \<Rightarrow> addr list) \<Rightarrow> extent multiset" where
  "free_ext F = (\<Sum>i<33. level_ext i (F i))"

lemma free_ext_upd: "i < 33 \<Longrightarrow> free_ext F = level_ext i (F i) + (\<Sum>j\<in>{..<33} - {i}. level_ext j (F j))"
  unfolding free_ext_def by (rule sum.remove) simp_all

lemma free_ext_cons:
  assumes "i < 33"
  shows "free_ext (F(i := b # bs)) = add_mset (b, 8 * Suc i) (free_ext (F(i := bs)))"
proof -
  have "(\<Sum>j\<in>{..<33} - {i}. level_ext j ((F(i := b # bs)) j)) = (\<Sum>j\<in>{..<33} - {i}. level_ext j ((F(i := bs)) j))"
    by (rule sum.cong) auto
  then show ?thesis using free_ext_upd [OF assms, of "F(i := b # bs)"] free_ext_upd [OF assms, of "F(i := bs)"] by (simp add: level_ext_def)
qed

lemma free_ext_mem: "i < 33 \<Longrightarrow> b \<in> set (F i) \<Longrightarrow> (b, 8 * Suc i) \<in># free_ext F"
  using free_ext_upd [of i F] by (auto simp: level_ext_def)

definition wf_ext :: "(addr \<times> nat) list \<Rightarrow> extent \<Rightarrow> bool" where
  "wf_ext M x \<longleftrightarrow> fst x \<noteq> 0 \<and> fst x mod 8 = 0 \<and> is_mapped M (fst x) (snd x)"

definition mapped_ok :: "(addr \<times> nat) list \<Rightarrow> bool" where
  "mapped_ok M \<longleftrightarrow> (\<forall>(b, m)\<in>set M. b + m < 2 ^ 64)"

text \<open>The free lists \<open>F\<close> beside the other extents \<open>R\<close>: separate, mapped, and linked as the heads say.\<close>

definition pool :: "lalloc \<Rightarrow> (nat \<Rightarrow> addr list) \<Rightarrow> extent multiset \<Rightarrow> bool" where
  "pool A F R \<longleftrightarrow> sep (free_ext F + R) \<and> (\<forall>x\<in>#free_ext F + R. wf_ext (l_mapped A) x) \<and> mapped_ok (l_mapped A) \<and> length (small_list A) = 33 \<and>
     (\<forall>i<33. chain (l_mem A) (small_list A ! i) (F i))"

lemma poolD:
  assumes "pool A F R"
  shows "sep (free_ext F + R)" "\<And>x. x \<in># free_ext F \<Longrightarrow> wf_ext (l_mapped A) x" "\<And>x. x \<in># R \<Longrightarrow> wf_ext (l_mapped A) x" "mapped_ok (l_mapped A)"
    "length (small_list A) = 33" "\<And>i. i < 33 \<Longrightarrow> chain (l_mem A) (small_list A ! i) (F i)"
  using assms unfolding pool_def by auto

lemma poolI:
  assumes "sep (free_ext F + R)" "\<And>x. x \<in># free_ext F \<Longrightarrow> wf_ext (l_mapped A) x" "\<And>x. x \<in># R \<Longrightarrow> wf_ext (l_mapped A) x" "mapped_ok (l_mapped A)"
    "length (small_list A) = 33" "\<And>i. i < 33 \<Longrightarrow> chain (l_mem A) (small_list A ! i) (F i)"
  shows "pool A F R"
  using assms unfolding pool_def by auto

lemma wf_cut: "wf_ext M (a, n + m) \<Longrightarrow> 8 dvd n \<Longrightarrow> wf_ext M (a, n) \<and> wf_ext M (a + n, m)"
  using is_mapped_sub [of M a "n + m" a n] is_mapped_sub [of M a "n + m" "a + n" m] by (auto simp: wf_ext_def mod_add_left_eq [symmetric] dvd_eq_mod_eq_0 mod_add_eq)

lemma wf_small:
  assumes "wf_ext (l_mapped A) (p, n)" "8 \<le> n" "mapped_ok (l_mapped A)"
  shows "p \<noteq> 0" "p mod 8 = 0" "is_mapped (l_mapped A) p 8" "p < 2 ^ 64" "unat (of_nat p :: u64) = p"
proof -
  show p: "p \<noteq> 0" "p mod 8 = 0" "is_mapped (l_mapped A) p 8" using assms(1,2) is_mapped_sub [of "l_mapped A" p n p 8] by (auto simp: wf_ext_def)
  show l: "p < 2 ^ 64" using p(3) assms(3) by (fastforce simp: is_mapped_def list_ex_iff mapped_ok_def)
  then show "unat (of_nat p :: u64) = p" by (simp add: unat_of_nat take_bit_nat_eq_self)
qed

lemma free_apart:
  assumes "pool A F (add_mset x R)" "i < 33" "b \<in> set (F i)"
  shows "apart (b, 8 * Suc i) x"
proof -
  have "sep (add_mset x (free_ext F + R))" using poolD(1) [OF assms(1)] by simp
  then show ?thesis using free_ext_mem [of i b F] assms(2,3) apart_sym [of x "(b, 8 * Suc i)"] by (auto simp: sep_add)
qed

lemma free_small_effect:
  assumes "pool A F (add_mset (p, 8 * Suc i) R)" "i < 33"
  obtains w where "memory_free_small p (int i) A = Some (A\<lparr>l_mem := (l_mem A)(p := w), small_list := (small_list A)[i := p]\<rparr>)"
    "pool (A\<lparr>l_mem := (l_mem A)(p := w), small_list := (small_list A)[i := p]\<rparr>) (F(i := p # F i)) R"
proof -
  note d = poolD [OF assms(1)]
  let ?w = "of_nat (small_list A ! i) :: u64"
  let ?A = "A\<lparr>l_mem := (l_mem A)(p := ?w), small_list := (small_list A)[i := p]\<rparr>"
  have wf: "wf_ext (l_mapped A) (p, 8 * Suc i)" using d(3) by simp
  note p = wf_small [OF wf _ d(4)]
  have head: "unat ?w = small_list A ! i"
  proof (cases "F i")
    case Nil
    then show ?thesis using d(6) [OF assms(2)] by simp
  next
    case (Cons b bs)
    then have "b \<in> set (F i)" "small_list A ! i = b" using d(6) [OF assms(2)] by simp_all
    then show ?thesis using wf_small(5) [OF d(2) [OF free_ext_mem [of i b F]] _ d(4)] assms(2) by simp
  qed
  have new: "b \<noteq> p" if "j < 33" "b \<in> set (F j)" for b j using free_apart [OF assms(1) that] by (auto simp: apart_def)
  have run: "memory_free_small p (int i) A = Some ?A"
    using assms(2) d(5) p by (simp add: memory_free_small_def small_at_def save_def set_small_def)
  have "pool ?A (F(i := p # F i)) R"
  proof (rule poolI)
    show "sep (free_ext (F(i := p # F i)) + R)" using d(1) free_ext_cons [OF assms(2), of F p "F i"] by simp
    show "wf_ext (l_mapped ?A) x" if "x \<in># free_ext (F(i := p # F i))" for x using that d(2) [of x] wf free_ext_cons [OF assms(2), of F p "F i"] by auto
    show "wf_ext (l_mapped ?A) x" if "x \<in># R" for x using d(3) [of x] that by simp
    show "chain (l_mem ?A) (small_list ?A ! j) ((F(i := p # F i)) j)" if j: "j < 33" for j
    proof -
      have c: "chain (l_mem ?A) q (F j) = chain (l_mem A) q (F j)" for q by (rule linked_cong) (use new [OF j] in auto)
      show ?thesis using c d(5) d(6) [OF j] head j p(1) assms(2) by (cases "j = i") auto
    qed
  qed (use d in simp_all)
  then show thesis using run that by blast
qed

lemma pop_small_effect:
  assumes "pool A F R" "i < 33" "small_list A ! i \<noteq> 0"
  obtains bs q where "F i = small_list A ! i # bs" "load_ptr (small_list A ! i) A = Some q"
    "set_small (int i) q A = Some (A\<lparr>small_list := (small_list A)[i := q]\<rparr>)"
    "pool (A\<lparr>small_list := (small_list A)[i := q]\<rparr>) (F(i := bs)) (add_mset (small_list A ! i, 8 * Suc i) R)"
proof -
  note d = poolD [OF assms(1)]
  obtain b bs where b: "F i = b # bs" "small_list A ! i = b" "chain (l_mem A) (unat (l_mem A b)) bs"
    using d(6) [OF assms(2)] assms(3) by (cases "F i") auto
  let ?A = "A\<lparr>small_list := (small_list A)[i := unat (l_mem A b)]\<rparr>"
  have e: "free_ext F = add_mset (b, 8 * Suc i) (free_ext (F(i := bs)))" using free_ext_cons [OF assms(2), of F b bs] b(1) by (simp add: fun_upd_idem)
  have wf: "wf_ext (l_mapped A) (b, 8 * Suc i)" using d(2) e by simp
  note p = wf_small [OF wf _ d(4)]
  have "pool ?A (F(i := bs)) (add_mset (b, 8 * Suc i) R)"
  proof (rule poolI)
    show "chain (l_mem ?A) (small_list ?A ! j) ((F(i := bs)) j)" if "j < 33" for j using d(5) d(6) [OF that] b that by (cases "j = i") auto
  qed (use d e wf in auto)
  then show thesis using that [of bs "unat (l_mem A b)"] b p assms(2) d(5) by (simp add: load_ptr_def load_def set_small_def)
qed

section \<open>Allocation of small blocks\<close>

text \<open>The words of the extents in \<open>R\<close> are the same.\<close>

definition same_words :: "extent multiset \<Rightarrow> lalloc \<Rightarrow> lalloc \<Rightarrow> bool" where
  "same_words R A A' \<longleftrightarrow> (\<forall>x\<in>#R. \<forall>a. fst x \<le> a \<longrightarrow> a < fst x + snd x \<longrightarrow> l_mem A' a = l_mem A a)"

lemma same_words_upd:
  assumes "\<forall>x\<in>#R. apart (p, n) x" "0 < n"
  shows "same_words R A (A\<lparr>l_mem := (l_mem A)(p := w)\<rparr>)"
  using assms unfolding same_words_def apart_def by fastforce

definition bump :: "lalloc \<Rightarrow> extent" where
  "bump A = (chunk_list A + nat (chunk_used A), nat (CHUNKSIZE - chunk_used A))"

lemma split_small_effect:
  assumes "pool A F R" "n < 32" "list_all (\<lambda>i. int n < i \<and> i \<le> 32) is"
  shows "split_small is (int n) A = Some (0, A) \<or>
    (\<exists>p A' F'. split_small is (int n) A = Some (p, A') \<and> p \<noteq> 0 \<and> pool A' F' (add_mset (p, 8 * Suc n) R) \<and> same_words R A A' \<and> bump A' = bump A \<and>
      chunk_used A' = chunk_used A)"
  using assms(3)
proof (induction "is")
  case (Cons k ks)
  define i where "i = nat k"
  have i: "k = int i" "n < i" "i < 33" using Cons.prems by (auto simp: i_def)
  note d = poolD [OF assms(1)]
  have at: "small_at k A = Some (small_list A ! i)" using i d(5) by (simp add: small_at_def)
  show ?case
  proof (cases "small_list A ! i = 0")
    case True
    then show ?thesis using Cons at by simp
  next
    case False
    define b where "b = small_list A ! i"
    obtain bs q where q: "load_ptr b A = Some q" "set_small (int i) q A = Some (A\<lparr>small_list := (small_list A)[i := q]\<rparr>)"
      "pool (A\<lparr>small_list := (small_list A)[i := q]\<rparr>) (F(i := bs)) (add_mset (b, 8 * Suc i) R)"
      using pop_small_effect [OF assms(1) i(3) False] unfolding b_def by metis
    let ?A1 = "A\<lparr>small_list := (small_list A)[i := q]\<rparr>"
    have len: "8 * Suc i = 8 * Suc n + 8 * Suc (i - n - 1)" using i(2) by simp
    have cut: "pool ?A1 (F(i := bs)) (add_mset (b + 8 * Suc n, 8 * Suc (i - n - 1)) (add_mset (b, 8 * Suc n) R))"
    proof (rule poolI)
      note e = poolD [OF q(3)]
      show "sep (free_ext (F(i := bs)) + add_mset (b + 8 * Suc n, 8 * Suc (i - n - 1)) (add_mset (b, 8 * Suc n) R))"
        using sep_cut [of b "8 * Suc n" "8 * Suc (i - n - 1)" "free_ext (F(i := bs)) + R"] e(1) unfolding len by (simp add: add_mset_commute)
      show "wf_ext (l_mapped ?A1) x" if "x \<in># add_mset (b + 8 * Suc n, 8 * Suc (i - n - 1)) (add_mset (b, 8 * Suc n) R)" for x
        using that e(3) wf_cut [of "l_mapped ?A1" b "8 * Suc n" "8 * Suc (i - n - 1)"] unfolding len by (cases x) auto
    qed (use poolD [OF q(3)] in simp_all)
    obtain w where w: "memory_free_small (b + 8 * Suc n) (int (i - n - 1)) ?A1 =
        Some (?A1\<lparr>l_mem := (l_mem ?A1)(b + 8 * Suc n := w), small_list := (small_list ?A1)[i - n - 1 := b + 8 * Suc n]\<rparr>)"
      "pool (?A1\<lparr>l_mem := (l_mem ?A1)(b + 8 * Suc n := w), small_list := (small_list ?A1)[i - n - 1 := b + 8 * Suc n]\<rparr>)
        ((F(i := bs))(i - n - 1 := (b + 8 * Suc n) # (F(i := bs)) (i - n - 1))) (add_mset (b, 8 * Suc n) R)"
      by (rule free_small_effect [OF cut]) (use i in simp)
    have "nat ((int n + 1) * 8) = 8 * Suc n" "k - int n - 1 = int (i - n - 1)" using i by simp_all
    then have run: "split_small (k # ks) (int n) A = Some (b, ?A1\<lparr>l_mem := (l_mem ?A1)(b + 8 * Suc n := w), small_list := (small_list ?A1)[i - n - 1 := b + 8 * Suc n]\<rparr>)"
      using at q(1,2) w(1) False i(1) by (simp add: b_def)
    have "\<forall>x\<in>#R. apart (b + 8 * Suc n, 8 * Suc (i - n - 1)) x" using poolD(1) [OF cut] by (simp add: sep_add)
    then have "same_words R A (A\<lparr>l_mem := (l_mem A)(b + 8 * Suc n := w)\<rparr>)" by (rule same_words_upd) simp
    then have "same_words R A (?A1\<lparr>l_mem := (l_mem ?A1)(b + 8 * Suc n := w), small_list := (small_list ?A1)[i - n - 1 := b + 8 * Suc n]\<rparr>)" by (simp add: same_words_def)
    moreover have "b \<noteq> 0" "bump (?A1\<lparr>l_mem := (l_mem ?A1)(b + 8 * Suc n := w), small_list := (small_list ?A1)[i - n - 1 := b + 8 * Suc n]\<rparr>) = bump A"
      "chunk_used (?A1\<lparr>l_mem := (l_mem ?A1)(b + 8 * Suc n := w), small_list := (small_list ?A1)[i - n - 1 := b + 8 * Suc n]\<rparr>) = chunk_used A"
      using False by (simp_all add: b_def bump_def)
    ultimately show ?thesis using run w(2) by blast
  qed
qed simp

text \<open>What is known of \<open>mmap\<close>: it fails, or gives whole pages that nothing is mapped to.\<close>

definition honest :: "kernel \<Rightarrow> bool" where
  "honest Y \<longleftrightarrow> (\<forall>M n. k_mmap Y M n = MAP_FAILED \<or>
     k_mmap Y M n \<noteq> 0 \<and> k_mmap Y M n mod 4096 = 0 \<and> k_mmap Y M n + pages n < 2 ^ 64 \<and> (\<forall>x\<in>set M. apart (k_mmap Y M n, pages n) x))"

lemma wf_apart:
  assumes "wf_ext M x" "\<forall>y\<in>set M. apart z y"
  shows "apart z x"
proof -
  obtain b m where "(b, m) \<in> set M" "b \<le> fst x" "fst x + snd x \<le> b + m" using assms(1) by (auto simp: wf_ext_def is_mapped_def list_ex_iff)
  then show ?thesis using assms(2) by (fastforce simp: apart_def)
qed

lemma wf_more: "wf_ext M x \<Longrightarrow> wf_ext (y # M) x"
  by (auto simp: wf_ext_def is_mapped_def)

text \<open>New pages beside the pool.\<close>

lemma pool_pages:
  assumes "pool A F R" "\<forall>y\<in>set (l_mapped A). apart (a, n) y" "a + n < 2 ^ 64"
    "l_mapped A' = (a, n) # l_mapped A" "small_list A' = small_list A" "\<And>x. \<not> (a \<le> x \<and> x < a + n) \<Longrightarrow> l_mem A' x = l_mem A x"
  shows "pool A' F R" "same_words R A A'" "\<And>x. x \<in># free_ext F + R \<Longrightarrow> apart (a, n) x"
proof -
  note d = poolD [OF assms(1)]
  show ap: "apart (a, n) x" if "x \<in># free_ext F + R" for x using wf_apart [OF _ assms(2), of x] d(2) [of x] d(3) [of x] that by auto
  have out: "l_mem A' y = l_mem A y" if "x \<in># free_ext F + R" "fst x \<le> y" "y < fst x + snd x" for x y
    using ap [OF that(1)] that(2,3) assms(6) [of y] by (auto simp: apart_def)
  show "same_words R A A'" unfolding same_words_def using out by auto
  show "pool A' F R"
  proof (rule poolI)
    show "chain (l_mem A') (small_list A' ! i) (F i)" if i: "i < 33" for i
    proof -
      have "l_mem A' b = l_mem A b" if b: "b \<in> set (F i)" for b using out [of "(b, 8 * Suc i)" b] free_ext_mem [of i b F] i b by simp
      then show ?thesis using d(6) [OF i] assms(5) linked_cong [of "F i" "l_mem A'" "l_mem A"] by simp
    qed
  qed (use d assms(3-5) wf_more in \<open>auto simp: mapped_ok_def\<close>)
qed

lemma chunk_new_effect:
  assumes "pool A F R" "honest Y" "k_mmap Y (l_mapped A) 32768 \<noteq> MAP_FAILED" "sz < 32760" "8 dvd sz" "0 < sz"
  obtains p A' where "chunk_new Y (int sz) A = Some (p, A')" "p \<noteq> 0" "pool A' F (add_mset (bump A') (add_mset (p, sz) R))" "same_words R A A'"
    "0 \<le> chunk_used A'" "chunk_used A' \<le> CHUNKSIZE"
proof -
  define a where "a = k_mmap Y (l_mapped A) 32768"
  have pg: "pages 32768 = 32768" by (simp add: pages_def)
  have a: "a \<noteq> 0" "a mod 4096 = 0" "a + 32768 < 2 ^ 64" "\<forall>x\<in>set (l_mapped A). apart (a, 32768) x"
    using assms(2,3) pg unfolding honest_def a_def by metis+
  have a8: "a mod 8 = 0" using a(2) mod_mod_cancel [of 8 4096 a] by simp
  let ?A = "A\<lparr>l_mapped := (a, 32768) # l_mapped A, l_mem := (\<lambda>x. if a \<le> x \<and> x < a + 32768 then 0 else l_mem A x)(a := of_nat (chunk_list A)), chunk_list := a, chunk_used := 8 + int sz\<rparr>"
  have run: "chunk_new Y (int sz) A = Some (a + 8, ?A)"
    using assms(3) a(1) a8 pg by (simp add: chunk_new_def alloc_page_def save_def is_mapped_def Let_def flip: a_def)
  have b: "bump ?A = (a + 8 + sz, 32768 - 8 - sz)" by (simp add: bump_def nat_add_distrib nat_diff_distrib)
  have mp: "l_mapped ?A = (a, 32768) # l_mapped A" "small_list ?A = small_list A" by simp_all
  have out: "l_mem ?A x = l_mem A x" if "\<not> (a \<le> x \<and> x < a + 32768)" for x using that by auto
  note p = pool_pages [OF assms(1) a(4,3) mp out]
  have new: "apart (a + 8, sz) x \<and> apart (a + 8 + sz, 32768 - 8 - sz) x" if "x \<in># free_ext F + R" for x using p(3) [OF _ that] assms(4) by (auto simp: apart_def)
  have "wf_ext (l_mapped ?A) (a, 32768)" using a(1) a8 by (simp add: wf_ext_def is_mapped_def)
  then have wf: "wf_ext (l_mapped ?A) (a + 8, sz)" "wf_ext (l_mapped ?A) (a + 8 + sz, 32768 - 8 - sz)"
    using wf_cut [of "l_mapped ?A" a 8 32760] wf_cut [of "l_mapped ?A" "a + 8" sz "32760 - sz"] assms(4,5) by auto
  have "pool ?A F (add_mset (bump ?A) (add_mset (a + 8, sz) R))"
  proof (rule poolI)
    show "sep (free_ext F + add_mset (bump ?A) (add_mset (a + 8, sz) R))"
      using poolD(1) [OF p(1)] new unfolding b by (auto simp: sep_add apart_def)
    show "wf_ext (l_mapped ?A) x" if "x \<in># add_mset (bump ?A) (add_mset (a + 8, sz) R)" for x using that wf poolD(3) [OF p(1), of x] unfolding b by auto
  qed (use poolD [OF p(1)] in simp_all)
  then show thesis using that [OF run] p(2) assms(4) by simp
qed

lemma alloc_small_effect:
  assumes "pool A F (add_mset (bump A) R)" "n < 32" "0 \<le> chunk_used A" "chunk_used A \<le> CHUNKSIZE" "honest Y"
  shows "k_mmap Y (l_mapped A) 32768 = MAP_FAILED \<and> memory_alloc_small Y (int n) A = None \<or>
    (\<exists>p A' F'. memory_alloc_small Y (int n) A = Some (p, A') \<and> p \<noteq> 0 \<and> pool A' F' (add_mset (bump A') (add_mset (p, 8 * Suc n) R)) \<and> same_words R A A' \<and>
      0 \<le> chunk_used A' \<and> chunk_used A' \<le> CHUNKSIZE)"
proof (cases "small_list A ! n = 0")
  case False
  note d = poolD [OF assms(1)]
  have n: "n < 33" using assms(2) by simp
  obtain bs q where "F n = small_list A ! n # bs" and q: "load_ptr (small_list A ! n) A = Some q" "set_small (int n) q A = Some (A\<lparr>small_list := (small_list A)[n := q]\<rparr>)"
    "pool (A\<lparr>small_list := (small_list A)[n := q]\<rparr>) (F(n := bs)) (add_mset (small_list A ! n, 8 * Suc n) (add_mset (bump A) R))"
    by (rule pop_small_effect [OF assms(1) n False])
  let ?A = "A\<lparr>small_list := (small_list A)[n := q]\<rparr>"
  have "memory_alloc_small Y (int n) A = Some (small_list A ! n, ?A)" using q False d(5) assms(2) by (simp add: memory_alloc_small_def small_at_def)
  moreover have "pool ?A (F(n := bs)) (add_mset (bump ?A) (add_mset (small_list A ! n, 8 * Suc n) R))" using q(3) by (simp add: bump_def add_mset_commute)
  moreover have "same_words R A ?A" by (simp add: same_words_def)
  ultimately show ?thesis using False assms(3,4) by (intro disjI2 exI [of _ "small_list A ! n"] exI [of _ ?A] exI [of _ "F(n := bs)"]) simp
next
  case True
  note d = poolD [OF assms(1)]
  have at: "small_at (int n) A = Some 0" using True d(5) assms(2) by (simp add: small_at_def)
  show ?thesis
  proof (cases "chunk_used A + int (8 * Suc n) \<le> CHUNKSIZE")
    case fits: True
    let ?A = "A\<lparr>chunk_used := chunk_used A + int (8 * Suc n)\<rparr>" and ?p = "chunk_list A + nat (chunk_used A)"
    have run: "memory_alloc_small Y (int n) A = Some (?p, ?A)" using at fits by (simp add: memory_alloc_small_def Let_def algebra_simps)
    have len: "bump A = (?p, 8 * Suc n + snd (bump ?A))" "bump ?A = (?p + 8 * Suc n, snd (bump ?A))"
      using fits assms(3) by (simp_all add: bump_def nat_add_distrib)
    have "pool ?A F (add_mset (bump ?A) (add_mset (?p, 8 * Suc n) R))"
    proof (rule poolI)
      show "sep (free_ext F + add_mset (bump ?A) (add_mset (?p, 8 * Suc n) R))"
        using sep_cut [of ?p "8 * Suc n" "snd (bump ?A)" "free_ext F + R"] d(1) unfolding len(1) by (subst len(2)) (simp add: add_mset_commute)
      show "wf_ext (l_mapped ?A) x" if "x \<in># add_mset (bump ?A) (add_mset (?p, 8 * Suc n) R)" for x
        using that d(3) [of "bump A"] d(3) [of x] wf_cut [of "l_mapped A" ?p "8 * Suc n" "snd (bump ?A)"] len by auto
    qed (use d in simp_all)
    moreover have "?p \<noteq> 0" using d(3) [of "bump A"] by (simp add: wf_ext_def bump_def)
    moreover have "same_words R A ?A" by (simp add: same_words_def)
    ultimately show ?thesis using run fits assms(3) by (intro disjI2 exI [of _ ?p] exI [of _ ?A] exI [of _ F]) simp
  next
    case full: False
    have "list_all (\<lambda>i. int n < i \<and> i \<le> 32) (small_levels (int n))" by (auto simp: small_levels_def list_all_iff)
    from split_small_effect [OF assms(1,2) this] show ?thesis
    proof (elim disjE exE conjE)
      assume none: "split_small (small_levels (int n)) (int n) A = Some (0, A)"
      have p: "pool A F R" using d by (auto intro!: poolI simp: sep_add)
      show ?thesis
      proof (cases "k_mmap Y (l_mapped A) 32768 = MAP_FAILED")
        case False
        have "8 * Suc n < 32760" "8 dvd 8 * Suc n" "0 < 8 * Suc n" using assms(2) by simp_all
        then obtain p A' where c: "chunk_new Y (int (8 * Suc n)) A = Some (p, A')" "p \<noteq> 0" "pool A' F (add_mset (bump A') (add_mset (p, 8 * Suc n) R))" "same_words R A A'"
          "0 \<le> chunk_used A'" "chunk_used A' \<le> CHUNKSIZE" using chunk_new_effect [OF p assms(5) False] by metis
        have "memory_alloc_small Y (int n) A = Some (p, A')" using at full none c(1) by (simp add: memory_alloc_small_def Let_def algebra_simps)
        then show ?thesis using c by blast
      next
        case fail: True
        have "chunk_new Y (int (8 * Suc n)) A = None" using fail by (simp add: chunk_new_def alloc_page_def save_def)
        then show ?thesis using at full none fail by (simp add: memory_alloc_small_def Let_def algebra_simps)
      qed
    next
      fix p A' F'
      assume c: "split_small (small_levels (int n)) (int n) A = Some (p, A')" "p \<noteq> 0" "pool A' F' (add_mset (p, 8 * Suc n) (add_mset (bump A) R))"
        "same_words (add_mset (bump A) R) A A'" "bump A' = bump A" "chunk_used A' = chunk_used A"
      have "memory_alloc_small Y (int n) A = Some (p, A')" using at full c(1,2) by (simp add: memory_alloc_small_def Let_def algebra_simps)
      moreover have "same_words R A A'" using c(4) by (auto simp: same_words_def)
      ultimately show ?thesis using c(2,3,5,6) assms(3,4) by (intro disjI2 exI [of _ p] exI [of _ A'] exI [of _ F']) (simp add: add_mset_commute)
    qed
  qed
qed

section \<open>Blocks in use\<close>

text \<open>A block of \<open>n\<close> bytes takes whole words. The service has the blocks \<open>L\<close>, with the sizes it asked for.\<close>

definition block :: "addr \<times> nat \<Rightarrow> extent" where
  "block x = (fst x, 8 * Suc ((snd x - 1) div 8))"

definition live :: "(addr \<times> nat) multiset \<Rightarrow> extent multiset" where
  "live L = image_mset block L"

lemma live_add [simp]: "live (add_mset x L) = add_mset (block x) (live L)" "live {#} = {#}"
  by (simp_all add: live_def)

definition state_ok :: "lalloc \<Rightarrow> (nat \<Rightarrow> addr list) \<Rightarrow> (addr \<times> nat) multiset \<Rightarrow> bool" where
  "state_ok A F L \<longleftrightarrow> pool A F (add_mset (bump A) (live L)) \<and> 0 \<le> chunk_used A \<and> chunk_used A \<le> CHUNKSIZE \<and> (\<forall>x\<in>#L. 0 < snd x \<and> snd x \<le> 256)"

lemma state_okD:
  assumes "state_ok A F L"
  shows "pool A F (add_mset (bump A) (live L))" "0 \<le> chunk_used A" "chunk_used A \<le> CHUNKSIZE" "\<And>x. x \<in># L \<Longrightarrow> 0 < snd x \<and> snd x \<le> 256"
    "sep (live L)" "\<And>x. x \<in># live L \<Longrightarrow> wf_ext (l_mapped A) x"
proof -
  show p: "pool A F (add_mset (bump A) (live L))" and "0 \<le> chunk_used A" "chunk_used A \<le> CHUNKSIZE" "\<And>x. x \<in># L \<Longrightarrow> 0 < snd x \<and> snd x \<le> 256"
    using assms by (simp_all add: state_ok_def)
  show "\<And>x. x \<in># live L \<Longrightarrow> wf_ext (l_mapped A) x" using poolD(3) [OF p] by simp
  have "sep (free_ext F + live L)" using poolD(1) [OF p] by (simp add: sep_add)
  then show "sep (live L)" by (rule sep_plus)
qed

lemma size_word: "n \<le> 256 \<Longrightarrow> uint (of_nat n :: u64) = int n"
  by (simp add: uint_nat unat_of_nat take_bit_nat_eq_self)

lemma memory_alloc_effect:
  assumes "state_ok A F L" "0 < n" "n \<le> 256" "honest Y"
  shows "k_mmap Y (l_mapped A) 32768 = MAP_FAILED \<and> memory_alloc Y (of_nat n) A = None \<or>
    (\<exists>p A' F'. memory_alloc Y (of_nat n) A = Some (p, A') \<and> p \<noteq> 0 \<and> state_ok A' F' (add_mset (p, n) L) \<and> same_words (live L) A A')"
proof -
  have "(of_nat n :: u64) \<noteq> 0" using size_word [OF assms(3)] assms(2) by auto
  moreover have "(int n - 1) div 8 = int ((n - 1) div 8)" using assms(2) by (simp add: of_nat_diff zdiv_int)
  ultimately have "memory_alloc Y (of_nat n) A = memory_alloc_small Y (int ((n - 1) div 8)) A"
    using size_word [OF assms(3)] assms(3) by (simp add: memory_alloc_def)
  moreover have "(n - 1) div 8 < 32" using assms(2,3) by linarith
  ultimately show ?thesis
    using alloc_small_effect [OF state_okD(1) [OF assms(1)] _ state_okD(2,3) [OF assms(1)] assms(4), of "(n - 1) div 8"] state_okD(4) [OF assms(1)] assms(2,3)
    by (auto simp: state_ok_def block_def)
qed

lemma memory_free_effect:
  assumes "state_ok A F (add_mset (p, n) L)"
  obtains A' F' where "memory_free p (of_nat n) A = Some A'" "state_ok A' F' L" "same_words (live L) A A'"
proof -
  note d = state_okD [OF assms]
  have n: "0 < n" "n \<le> 256" using d(4) [of "(p, n)"] by simp_all
  define i where "i = (n - 1) div 8"
  have i: "i < 33" using n unfolding i_def by linarith
  obtain k where k: "n = Suc k" using n(1) by (cases n) auto
  then have "unat ((of_nat n :: u64) - 1) = k" using n(2) by (simp add: unat_of_nat take_bit_nat_eq_self)
  then have "unat (((of_nat n :: u64) - 1) div 8) = i" using k by (simp add: unat_div i_def)
  then have u: "((of_nat n :: u64) - 1) div 8 = of_nat i" using i by (simp add: word_unat_eq_iff unat_of_nat take_bit_nat_eq_self)
  have "int_of (of_nat i) = int i" using i by (simp add: int_of_def sint_uint unsigned_ucast_eq uint_nat unat_of_nat take_bit_nat_eq_self signed_take_bit_int_eq_self)
  then have m: "memory_free p (of_nat n) A = memory_free_small p (int i) A" using u size_word [OF n(2)] n(2) by (simp add: memory_free_def)
  have q: "pool A F (add_mset (p, 8 * Suc i) (add_mset (bump A) (live L)))" using d(1) by (simp add: block_def i_def add_mset_commute)
  obtain w where w: "memory_free_small p (int i) A = Some (A\<lparr>l_mem := (l_mem A)(p := w), small_list := (small_list A)[i := p]\<rparr>)"
    "pool (A\<lparr>l_mem := (l_mem A)(p := w), small_list := (small_list A)[i := p]\<rparr>) (F(i := p # F i)) (add_mset (bump A) (live L))"
    by (rule free_small_effect [OF q i])
  let ?A = "A\<lparr>l_mem := (l_mem A)(p := w), small_list := (small_list A)[i := p]\<rparr>"
  have "\<forall>x\<in>#live L. apart (p, 8 * Suc i) x" using poolD(1) [OF q] by (auto simp: sep_add)
  then have "same_words (live L) A (A\<lparr>l_mem := (l_mem A)(p := w)\<rparr>)" by (rule same_words_upd) simp
  then have "same_words (live L) A ?A" by (simp add: same_words_def)
  moreover have "state_ok ?A (F(i := p # F i)) L" using w(2) d(2,3,4) by (simp add: state_ok_def bump_def)
  ultimately show thesis using that m w(1) by simp
qed

text \<open>Writing inside a block.\<close>

lemma write_effect:
  assumes "state_ok A F (add_mset x L)" "\<And>a. \<not> (fst (block x) \<le> a \<and> a < fst (block x) + snd (block x)) \<Longrightarrow> m a = l_mem A a"
  shows "state_ok (A\<lparr>l_mem := m\<rparr>) F (add_mset x L)" "same_words (live L) A (A\<lparr>l_mem := m\<rparr>)"
proof -
  note d = state_okD [OF assms(1)] and p = poolD [OF state_okD(1) [OF assms(1)]]
  have q: "pool A F (add_mset (block x) (add_mset (bump A) (live L)))" using d(1) by (simp add: add_mset_commute)
  have ap: "apart (block x) y" if "y \<in># live L" for y using d(5) that by (simp add: sep_add)
  have "m a = l_mem A a" if "y \<in># live L" "fst y \<le> a" "a < fst y + snd y" for y a
    using assms(2) [of a] ap [OF that(1)] that(2,3) by (auto simp: apart_def)
  then show "same_words (live L) A (A\<lparr>l_mem := m\<rparr>)" by (simp add: same_words_def)
  have "chain m (small_list A ! i) (F i)" if i: "i < 33" for i
  proof -
    have "m b = l_mem A b" if "b \<in> set (F i)" for b using assms(2) [of b] free_apart [OF q i that] by (auto simp: apart_def)
    then show ?thesis using p(6) [OF i] linked_cong [of "F i" m "l_mem A"] by simp
  qed
  then have "pool (A\<lparr>l_mem := m\<rparr>) F (add_mset (bump A) (live (add_mset x L)))" using p by (intro poolI) simp_all
  then show "state_ok (A\<lparr>l_mem := m\<rparr>) F (add_mset x L)" using d(2,3,4) by (simp add: state_ok_def bump_def)
qed

text \<open>\<open>A'\<close> holds at \<open>q\<close> the first \<open>n\<close> bytes that \<open>A\<close> holds at \<open>p\<close>.\<close>

definition same_bytes :: "nat \<Rightarrow> (addr \<Rightarrow> u64) \<Rightarrow> addr \<Rightarrow> (addr \<Rightarrow> u64) \<Rightarrow> addr \<Rightarrow> bool" where
  "same_bytes n m' q m p \<longleftrightarrow> (\<forall>i<n div 8. m' (q + 8 * i) = m (p + 8 * i)) \<and>
     m' (q + 8 * (n div 8)) AND mask (8 * (n mod 8)) = m (p + 8 * (n div 8)) AND mask (8 * (n mod 8))"

lemma copy_words_effect:
  assumes "dst mod 8 = 0" "src mod 8 = 0" "is_mapped (l_mapped A) dst (8 * k)" "is_mapped (l_mapped A) src (8 * k)" "apart (dst, 8 * k) (src, 8 * k)"
  shows "\<exists>m. copy_words dst src k A = Some (A\<lparr>l_mem := m\<rparr>) \<and> (\<forall>i<k. m (dst + 8 * i) = l_mem A (src + 8 * i)) \<and>
    (\<forall>x. \<not> (dst \<le> x \<and> x < dst + 8 * k) \<longrightarrow> m x = l_mem A x)"
  using assms
proof (induction k arbitrary: dst src A)
  case (Suc k)
  let ?A = "A\<lparr>l_mem := (l_mem A)(dst := l_mem A src)\<rparr>"
  have mp: "is_mapped (l_mapped A) dst 8" "is_mapped (l_mapped A) src 8" "is_mapped (l_mapped ?A) (dst + 8) (8 * k)" "is_mapped (l_mapped ?A) (src + 8) (8 * k)"
    using is_mapped_sub [OF Suc.prems(3)] is_mapped_sub [OF Suc.prems(4)] by simp_all
  have al: "(dst + 8) mod 8 = 0" "(src + 8) mod 8 = 0" "apart (dst + 8, 8 * k) (src + 8, 8 * k)" using Suc.prems(1,2,5) by (auto simp: apart_def)
  from Suc.IH [OF al(1,2) mp(3,4) al(3)] obtain m where m: "copy_words (dst + 8) (src + 8) k ?A = Some (?A\<lparr>l_mem := m\<rparr>)"
    "\<forall>i<k. m (dst + 8 + 8 * i) = l_mem ?A (src + 8 + 8 * i)" "\<forall>x. \<not> (dst + 8 \<le> x \<and> x < dst + 8 + 8 * k) \<longrightarrow> m x = l_mem ?A x" by blast
  have run: "copy_words dst src (Suc k) A = Some (A\<lparr>l_mem := m\<rparr>)" using m(1) mp(1,2) Suc.prems(1,2) by (simp add: load_def save_def)
  have "m (dst + 8 * i) = l_mem A (src + 8 * i)" if i: "i < Suc k" for i
  proof (cases i)
    case 0
    then show ?thesis using m(3) by simp
  next
    case (Suc j)
    then show ?thesis using m(2) i \<open>apart (dst, 8 * Suc k) (src, 8 * Suc k)\<close> by (auto simp: apart_def algebra_simps)
  qed
  moreover have "m x = l_mem A x" if "\<not> (dst \<le> x \<and> x < dst + 8 * Suc k)" for x using m(3) that by auto
  ultimately show ?case using run by blast
next
  case 0
  show ?case by (rule exI [of _ "l_mem A"]) simp
qed

lemma merge_mask: "((x AND NOT w) OR (y AND w)) AND w = y AND (w :: u64)"
  by (rule bit_word_eqI) (auto simp: bit_simps)

lemma whole_words: "(0 :: nat) < n \<Longrightarrow> 8 * (n div 8) \<le> 8 * Suc ((n - 1) div 8)"
  by (cases n) (simp_all add: div_Suc)

lemma last_word:
  assumes "n mod 8 \<noteq> 0" "(0 :: nat) < n"
  shows "8 * (n div 8) + 8 = 8 * Suc ((n - 1) div 8)"
proof -
  obtain k where k: "n = Suc k" using assms(2) by (cases n) auto
  then have "k div 8 = n div 8" using assms(1) by (simp add: div_Suc)
  then show ?thesis using k by simp
qed

lemma memcpy_effect:
  assumes "0 < n" "wf_ext (l_mapped A) (q, 8 * Suc ((n - 1) div 8))" "wf_ext (l_mapped A) (p, 8 * Suc ((n - 1) div 8))"
    "apart (q, 8 * Suc ((n - 1) div 8)) (p, 8 * Suc ((n - 1) div 8))"
  obtains m where "memcpy q p n A = Some (A\<lparr>l_mem := m\<rparr>)" "same_bytes n m q (l_mem A) p" "\<And>x. \<not> (q \<le> x \<and> x < q + 8 * Suc ((n - 1) div 8)) \<Longrightarrow> m x = l_mem A x"
proof -
  let ?w = "8 * Suc ((n - 1) div 8)" and ?k = "n div 8"
  have le: "8 * ?k \<le> ?w" using assms(1) whole_words by blast
  have mp: "is_mapped (l_mapped A) q ?w" "is_mapped (l_mapped A) p ?w" "q mod 8 = 0" "p mod 8 = 0" using assms(2,3) by (simp_all add: wf_ext_def)
  have al: "q mod 8 = 0" "p mod 8 = 0" "is_mapped (l_mapped A) q (8 * ?k)" "is_mapped (l_mapped A) p (8 * ?k)" "apart (q, 8 * ?k) (p, 8 * ?k)"
    using mp is_mapped_sub [OF mp(1), of q "8 * ?k"] is_mapped_sub [OF mp(2), of p "8 * ?k"] assms(4) le by (simp_all add: apart_def) linarith
  obtain m where m: "copy_words q p ?k A = Some (A\<lparr>l_mem := m\<rparr>)" "\<forall>i<?k. m (q + 8 * i) = l_mem A (p + 8 * i)"
    "\<forall>x. \<not> (q \<le> x \<and> x < q + 8 * ?k) \<longrightarrow> m x = l_mem A x" using copy_words_effect [OF al] by blast
  show thesis
  proof (cases "n mod 8 = 0")
    case True
    have "same_bytes n m q (l_mem A) p" using m(2) True by (simp add: same_bytes_def)
    moreover have "m x = l_mem A x" if "\<not> (q \<le> x \<and> x < q + ?w)" for x using m(3) le that by auto
    ultimately show thesis using that m(1) True by (simp add: memcpy_def)
  next
    case False
    have last: "8 * ?k + 8 = ?w" using False assms(1) last_word by blast
    have mk: "is_mapped (l_mapped A) (q + 8 * ?k) 8" "is_mapped (l_mapped A) (p + 8 * ?k) 8" using is_mapped_sub [OF mp(1), of "q + 8 * ?k" 8] is_mapped_sub [OF mp(2), of "p + 8 * ?k" 8] last by simp_all
    let ?M = "mask (n mod 8 * 8) :: u64"
    let ?v = "(m (q + 8 * ?k) AND NOT ?M) OR (m (p + 8 * ?k) AND ?M)"
    have pm: "m (p + 8 * ?k) = l_mem A (p + 8 * ?k)" using m(3) assms(4) last by (auto simp: apart_def)
    have "memcpy q p n A = Some (A\<lparr>l_mem := m(q + 8 * ?k := ?v)\<rparr>)"
      using m(1) False mk al(1,2) by (simp add: memcpy_def load_def save_def Let_def mult.commute mod_add_eq)
    moreover have "same_bytes n (m(q + 8 * ?k := ?v)) q (l_mem A) p" using m(2) pm by (simp add: same_bytes_def mult.commute [of _ 8] merge_mask)
    moreover have "(m(q + 8 * ?k := ?v)) x = l_mem A x" if "\<not> (q \<le> x \<and> x < q + ?w)" for x using m(3) that last by auto
    ultimately show thesis using that by blast
  qed
qed

lemma realloc_effect:
  assumes "state_ok A F (add_mset (p, m) L)" "0 < n" "n \<le> 256" "honest Y"
  shows "k_mmap Y (l_mapped A) 32768 = MAP_FAILED \<and> pixel_lalloc Y p (of_nat m) (of_nat n) A = None \<or>
    (\<exists>q A' F'. pixel_lalloc Y p (of_nat m) (of_nat n) A = Some (q, A') \<and> q \<noteq> 0 \<and> state_ok A' F' (add_mset (q, n) L) \<and> same_words (live L) A A' \<and>
      same_bytes (min m n) (l_mem A') q (l_mem A) p)"
proof -
  note d = state_okD [OF assms(1)]
  have m: "0 < m" "m \<le> 256" using d(4) [of "(p, m)"] by simp_all
  have p0: "p \<noteq> 0" using d(6) [of "block (p, m)"] by (simp add: wf_ext_def block_def)
  have nz: "(of_nat n :: u64) \<noteq> 0" using size_word [OF assms(3)] assms(2) by auto
  have le: "(of_nat n :: u64) \<le> of_nat m \<longleftrightarrow> n \<le> m" using size_word [OF assms(3)] size_word [OF m(2)] by (simp add: word_le_def)
  show ?thesis
  proof (cases "n \<le> m")
    case True
    have run: "pixel_lalloc Y p (of_nat m) (of_nat n) A = Some (p, A)"
      using p0 nz le True size_word [OF assms(3)] assms(3) by (simp add: pixel_lalloc_def)
    have "snd (block (p, n)) \<le> snd (block (p, m))" using True by (auto simp: block_def intro: div_le_mono)
    then have len: "block (p, m) = (p, snd (block (p, n)) + (snd (block (p, m)) - snd (block (p, n))))" "block (p, n) = (p, snd (block (p, n)))" by (simp_all add: block_def)
    have "pool A F (add_mset (bump A) (live (add_mset (p, n) L)))"
    proof (rule poolI)
      note e = poolD [OF d(1)]
      have "sep (add_mset (block (p, m)) (free_ext F + add_mset (bump A) (live L)))" using e(1) by (simp add: add_mset_commute)
      then have "sep (add_mset (block (p, n)) (free_ext F + add_mset (bump A) (live L)))"
        using sep_cut [of p "snd (block (p, n))" "snd (block (p, m)) - snd (block (p, n))" "free_ext F + add_mset (bump A) (live L)"] len by (simp add: sep_add)
      then show "sep (free_ext F + add_mset (bump A) (live (add_mset (p, n) L)))" by (simp add: add_mset_commute)
      have "8 dvd snd (block (p, n))" by (simp add: block_def)
      then show "wf_ext (l_mapped A) x" if "x \<in># add_mset (bump A) (live (add_mset (p, n) L))" for x
        using that e(3) [of x] e(3) [of "block (p, m)"] wf_cut [of "l_mapped A" p "snd (block (p, n))" "snd (block (p, m)) - snd (block (p, n))"] len by auto
    qed (use poolD [OF d(1)] in simp_all)
    then have "state_ok A F (add_mset (p, n) L)" using d(2,3,4) assms(2,3) by (simp add: state_ok_def)
    moreover have "same_words (live L) A A" "same_bytes (min m n) (l_mem A) p (l_mem A) p" by (simp_all add: same_words_def same_bytes_def)
    ultimately show ?thesis using run p0 by blast
  next
    case False
    have mm: "m = min m n" using False by simp
    show ?thesis
    proof (cases "k_mmap Y (l_mapped A) 32768 = MAP_FAILED \<and> memory_alloc Y (of_nat n) A = None")
      case ok: False
      obtain q A1 F1 where a: "memory_alloc Y (of_nat n) A = Some (q, A1)" "q \<noteq> 0" "state_ok A1 F1 (add_mset (q, n) (add_mset (p, m) L))"
        "same_words (live (add_mset (p, m) L)) A A1" using memory_alloc_effect [OF assms(1-4)] ok by blast
      note e = state_okD [OF a(3)]
      let ?w = "8 * Suc ((m - 1) div 8)"
      have "?w \<le> snd (block (q, n))" using False by (auto simp: block_def intro: div_le_mono)
      then obtain k where k: "block (q, n) = (q, ?w + k)" by (metis block_def fst_conv le_Suc_ex snd_conv)
      have "wf_ext (l_mapped A1) (block (q, n))" "wf_ext (l_mapped A1) (block (p, m))" using e(6) by simp_all
      then have wq: "wf_ext (l_mapped A1) (q, ?w)" "wf_ext (l_mapped A1) (p, ?w)"
        unfolding k using wf_cut [of "l_mapped A1" q ?w k] by (simp_all add: block_def)
      have "apart (block (q, n)) (block (p, m))" using e(5) by (simp add: sep_add)
      then have "apart (q, ?w) (p, ?w)" unfolding k by (auto simp: apart_def block_def)
      from memcpy_effect [OF m(1) wq this] obtain c where c: "memcpy q p m A1 = Some (A1\<lparr>l_mem := c\<rparr>)" "same_bytes m c q (l_mem A1) p"
        "\<And>x. \<not> (q \<le> x \<and> x < q + ?w) \<Longrightarrow> c x = l_mem A1 x" by blast
      have out: "c x = l_mem A1 x" if "\<not> (fst (block (q, n)) \<le> x \<and> x < fst (block (q, n)) + snd (block (q, n)))" for x using c(3) [of x] that k by auto
      note w = write_effect [OF a(3) out]
      have "state_ok (A1\<lparr>l_mem := c\<rparr>) F1 (add_mset (p, m) (add_mset (q, n) L))" using w(1) by (simp add: add_mset_commute)
      then obtain A2 F2 where f: "memory_free p (of_nat m) (A1\<lparr>l_mem := c\<rparr>) = Some A2" "state_ok A2 F2 (add_mset (q, n) L)" "same_words (live (add_mset (q, n) L)) (A1\<lparr>l_mem := c\<rparr>) A2"
        by (rule memory_free_effect)
      have "unat (of_nat m :: u64) = m" using m(2) by (simp add: unat_of_nat take_bit_nat_eq_self)
      then have run: "pixel_lalloc Y p (of_nat m) (of_nat n) A = Some (q, A2)"
        using p0 nz le False size_word [OF assms(3)] assms(3) a(1,2) c(1) f(1) by (simp add: pixel_lalloc_def)
      have "same_words (live L) A A2" using a(4) w(2) f(3) by (simp add: same_words_def)
      moreover have "same_bytes m (l_mem A2) q (l_mem A) p"
      proof -
        have in_q: "l_mem A2 x = c x" if "q \<le> x" "x < q + ?w" for x using f(3) that k by (simp add: same_words_def)
        have in_p: "l_mem A1 x = l_mem A x" if "p \<le> x" "x < p + ?w" for x using a(4) that by (simp add: same_words_def block_def)
        have "8 * i < ?w" if "i < m div 8" for i using that whole_words [OF m(1)] by linarith
        moreover have "m mod 8 \<noteq> 0 \<Longrightarrow> 8 * (m div 8) < ?w" using m(1) last_word [of m] by simp
        ultimately show ?thesis using c(2) in_q in_p by (cases "m mod 8 = 0") (simp_all add: same_bytes_def)
      qed
      ultimately show ?thesis using run a(2) f(2) mm by metis
    next
      case fail: True
      then show ?thesis using p0 nz le False size_word [OF assms(3)] assms(3) by (simp add: pixel_lalloc_def)
    qed
  qed
qed

section \<open>What a service can do\<close>

text \<open>
  A service starts with a new allocator, asks for blocks of up to 256 bytes, resizes and frees blocks that it has, with the size it asked for, as Lua does, and writes into
  them.
\<close>

inductive reach :: "kernel \<Rightarrow> lalloc \<Rightarrow> (addr \<times> nat) multiset \<Rightarrow> bool" for Y where
  start: "allocator_new Y = Some A \<Longrightarrow> reach Y A {#}"
| alloc: "reach Y A L \<Longrightarrow> 0 < n \<Longrightarrow> n \<le> 256 \<Longrightarrow> pixel_lalloc Y 0 k (of_nat n) A = Some (p, A') \<Longrightarrow> reach Y A' (add_mset (p, n) L)"
| resize: "reach Y A (add_mset (p, m) L) \<Longrightarrow> 0 < n \<Longrightarrow> n \<le> 256 \<Longrightarrow> pixel_lalloc Y p (of_nat m) (of_nat n) A = Some (q, A') \<Longrightarrow> reach Y A' (add_mset (q, n) L)"
| release: "reach Y A (add_mset (p, m) L) \<Longrightarrow> pixel_lalloc Y p (of_nat m) 0 A = Some (q, A') \<Longrightarrow> reach Y A' L"
| wrote: "reach Y A (add_mset (p, m) L) \<Longrightarrow> a < snd (block (p, m)) \<Longrightarrow> reach Y (A\<lparr>l_mem := (l_mem A)(p + a := w)\<rparr>) (add_mset (p, m) L)"

lemma free_block:
  assumes "state_ok A F (add_mset (p, m) L)"
  obtains A' F' where "pixel_lalloc Y p (of_nat m) 0 A = Some (0, A')" "state_ok A' F' L" "same_words (live L) A A'"
proof -
  have "p \<noteq> 0" using state_okD(6) [OF assms, of "block (p, m)"] by (simp add: wf_ext_def block_def)
  moreover obtain A' F' where "memory_free p (of_nat m) A = Some A'" "state_ok A' F' L" "same_words (live L) A A'" by (rule memory_free_effect [OF assms])
  ultimately show thesis using that [of A' F'] by (simp add: pixel_lalloc_def)
qed

lemma start_ok:
  assumes "honest Y" "allocator_new Y = Some A"
  shows "state_ok A (\<lambda>_. []) {#}"
proof -
  define a where "a = k_mmap Y [] 32768"
  have pg: "pages 32768 = 32768" by (simp add: pages_def)
  let ?Z = "\<lparr>a_base = 0, small_list = replicate 33 0, chunk_list = 0, big_head = 0, big_tail = 0, chunk_used = 0, l_mem = \<lambda>_. 0, l_mapped = []\<rparr>"
  have "a \<noteq> MAP_FAILED" using assms(2) by (auto simp: allocator_new_def alloc_page_def save_def is_mapped_def Let_def simp flip: a_def)
  then have a: "a \<noteq> 0" "a mod 4096 = 0" "a + 32768 < 2 ^ 64" using assms(1) pg unfolding honest_def a_def by metis+
  have a8: "8 dvd a" using a(2) mod_mod_cancel [of 8 4096 a] by auto
  have f: "small_list A = replicate 33 0" "l_mapped A = [(a, 32768)]" "chunk_used A = 328" "chunk_list A = a"
    using assms(2) \<open>a \<noteq> MAP_FAILED\<close> pg by (auto simp: allocator_new_def alloc_page_def save_def Let_def simp flip: a_def split: if_splits)
  have b: "bump A = (a + 328, 32440)" using f by (simp add: bump_def)
  have "free_ext (\<lambda>_. []) = {#}" by (simp add: free_ext_def level_ext_def)
  then have "pool A (\<lambda>_. []) {#bump A#}"
    using a a8 f unfolding b by (simp add: pool_def sep_def wf_ext_def is_mapped_def mapped_ok_def)
  then show ?thesis using f by (simp add: state_ok_def)
qed

lemma reach_ok:
  assumes "reach Y A L" "honest Y"
  shows "\<exists>F. state_ok A F L"
  using assms
proof (induction rule: reach.induct)
  case (start A)
  then show ?case using start_ok by blast
next
  case (alloc A L n k p A')
  then obtain F where F: "state_ok A F L" by blast
  then show ?case using memory_alloc_effect [OF F alloc.hyps(2,3) alloc.prems] alloc.hyps(4) by (auto simp: pixel_lalloc_def)
next
  case (resize A p m L n q A')
  then obtain F where F: "state_ok A F (add_mset (p, m) L)" by blast
  then show ?case using realloc_effect [OF F resize.hyps(2,3) resize.prems] resize.hyps(4) by auto
next
  case (release A p m L q A')
  then obtain F where F: "state_ok A F (add_mset (p, m) L)" by blast
  obtain A1 F1 where "pixel_lalloc Y p (of_nat m) 0 A = Some (0, A1)" "state_ok A1 F1 L" by (rule free_block [OF F, of Y])
  then show ?case using release.hyps(2) by auto
next
  case (wrote A p m L a w)
  then obtain F where F: "state_ok A F (add_mset (p, m) L)" by blast
  have "((l_mem A)(p + a := w)) x = l_mem A x" if "\<not> (fst (block (p, m)) \<le> x \<and> x < fst (block (p, m)) + snd (block (p, m)))" for x
    using that wrote.hyps(2) by (auto simp: block_def)
  from write_effect(1) [OF F this] show ?case by blast
qed

text \<open>
  C15: Small blocks of the Lua allocator are safe. In every state that a service reaches with requests of up to 256 bytes, on any kernel whose \<open>mmap\<close> gives unused pages or fails:
  the blocks in use do not overlap and lie in mapped memory, aligned; a request gives a new block apart from them and leaves their contents; resizing keeps the first bytes and leaves
  the other blocks; freeing always works and leaves the other blocks. Only a failing \<open>mmap\<close> stops a request, by an access to memory that is not mapped: the code does not
  test for \<open>MAP_FAILED\<close>.
\<close>

theorem small_blocks_safe:
  assumes "honest Y" "reach Y A L"
  shows "sep (live L) \<and> (\<forall>x. x \<in># live L \<longrightarrow> wf_ext (l_mapped A) x) \<and>
    (\<forall>k n. 0 < n \<and> n \<le> 256 \<longrightarrow>
       k_mmap Y (l_mapped A) 32768 = MAP_FAILED \<and> pixel_lalloc Y 0 k (of_nat n) A = None \<or>
       (\<exists>p A'. pixel_lalloc Y 0 k (of_nat n) A = Some (p, A') \<and> sep (live (add_mset (p, n) L)) \<and> same_words (live L) A A')) \<and>
    (\<forall>p m n R. L = add_mset (p, m) R \<and> 0 < n \<and> n \<le> 256 \<longrightarrow>
       k_mmap Y (l_mapped A) 32768 = MAP_FAILED \<and> pixel_lalloc Y p (of_nat m) (of_nat n) A = None \<or>
       (\<exists>q A'. pixel_lalloc Y p (of_nat m) (of_nat n) A = Some (q, A') \<and> sep (live (add_mset (q, n) R)) \<and> same_words (live R) A A' \<and>
          same_bytes (min m n) (l_mem A') q (l_mem A) p)) \<and>
    (\<forall>p m R. L = add_mset (p, m) R \<longrightarrow> (\<exists>A'. pixel_lalloc Y p (of_nat m) 0 A = Some (0, A') \<and> same_words (live R) A A'))"
proof -
  obtain F where F: "state_ok A F L" using reach_ok [OF assms(2,1)] by blast
  show ?thesis
  proof (intro conjI allI impI)
    show "sep (live L)" "\<And>x. x \<in># live L \<Longrightarrow> wf_ext (l_mapped A) x" using state_okD(5,6) [OF F] by simp_all
    show "k_mmap Y (l_mapped A) 32768 = MAP_FAILED \<and> pixel_lalloc Y 0 k (of_nat n) A = None \<or>
      (\<exists>p A'. pixel_lalloc Y 0 k (of_nat n) A = Some (p, A') \<and> sep (live (add_mset (p, n) L)) \<and> same_words (live L) A A')"
      if n: "0 < n \<and> n \<le> 256" for k n
      using memory_alloc_effect [OF F _ _ assms(1), of n] n state_okD(5) unfolding pixel_lalloc_def by (metis (full_types))
    show "k_mmap Y (l_mapped A) 32768 = MAP_FAILED \<and> pixel_lalloc Y p (of_nat m) (of_nat n) A = None \<or>
      (\<exists>q A'. pixel_lalloc Y p (of_nat m) (of_nat n) A = Some (q, A') \<and> sep (live (add_mset (q, n) R)) \<and> same_words (live R) A A' \<and>
        same_bytes (min m n) (l_mem A') q (l_mem A) p)"
      if n: "L = add_mset (p, m) R \<and> 0 < n \<and> n \<le> 256" for p m n R
      using realloc_effect [of A F p m R n Y] F n assms(1) state_okD(5) by metis
    show "\<exists>A'. pixel_lalloc Y p (of_nat m) 0 A = Some (0, A') \<and> same_words (live R) A A'" if "L = add_mset (p, m) R" for p m R
      using free_block [of A F p m R Y] F that by metis
  qed
qed

text \<open>A kernel that maps at increasing addresses as long as there is room.\<close>

definition careful :: kernel where
  "careful = \<lparr>k_mmap = \<lambda>M n. let a = 1048576 * (length M + 1) in if a + pages n < 2 ^ 64 \<and> list_all (apart (a, pages n)) M then a else MAP_FAILED, k_mremap = \<lambda>M a n m. MAP_FAILED\<rparr>"

lemma careful_honest: "honest careful"
proof -
  have "1048576 * (length M + 1) mod 4096 = 0" for M :: "(addr \<times> nat) list"
  proof -
    have "1048576 * (length M + 1) = 4096 * (256 * (length M + 1))" by simp
    then show ?thesis by (simp only: mod_mult_self1_is_0)
  qed
  then show ?thesis unfolding honest_def careful_def by (auto simp: Let_def list_all_iff simp del: mult_Suc_right)
qed

theorem small_blocks_safe_witness:
  "\<exists>A p A'. reach careful A {#} \<and> pixel_lalloc careful 0 0 24 A = Some (p, A') \<and> reach careful A' {#(p, 24)#} \<and> sep (live {#(p, 24)#})"
proof -
  obtain A where A: "allocator_new careful = Some A" "l_mapped A = [(1048576, 32768)]"
    by (simp add: allocator_new_def alloc_page_def careful_def save_def is_mapped_def pages_def Let_def)
  then have r: "reach careful A {#}" by (intro reach.start)
  have "k_mmap careful (l_mapped A) 32768 \<noteq> MAP_FAILED" using A(2) by (simp add: careful_def pages_def apart_def Let_def)
  then obtain p A' where p: "pixel_lalloc careful 0 0 24 A = Some (p, A')" "sep (live {#(p, 24)#})"
    using small_blocks_safe [OF careful_honest r, THEN conjunct2, THEN conjunct2, THEN conjunct1, THEN spec [of _ 0], THEN spec [of _ 24]] by auto
  then have "reach careful A' {#(p, 24)#}" using reach.alloc [OF r, of 24 0 p A'] by simp
  then show ?thesis using r p by blast
qed

text \<open>
  C16: The list of big blocks hands out memory twice. When it has a single block \<open>b\<close> and a request takes a part of it, neither the size of that part nor the size of the rest is written:
  memory stays as it is, and the rest has for its size the word \<open>X\<close> that some service left there. So for every such state with the chunk used up, all requests of sizes \<open>n\<close> and \<open>m\<close> of the big
  kind (257 to 32752 bytes) with \<open>n\<close> rounded up below \<open>m\<close>, where \<open>b\<close> has room for two blocks of the rounded \<open>n\<close> and for one of the rounded \<open>m\<close> with 256 bytes to spare, and every \<open>X\<close> (below \<open>2 ^ 31\<close>)
  that exceeds the rounded \<open>n\<close> by more than 256: allocate \<open>n\<close> bytes twice, free the first block, allocate \<open>m\<close> bytes. The
  last block, \<open>m\<close> bytes from \<open>b + 8\<close>, and the second, which is in use, overlap.
\<close>

theorem big_blocks_overlap:
  assumes "big_head A = b" "big_tail A = b" "b \<noteq> 0" "b mod 8 = 0" "load b A = Some bsz" "is_mapped (l_mapped A) b (unat bsz)" "uint bsz < 2 ^ 31"
    and "256 < uint n" "uint n \<le> HUGESIZE" "CHUNKSIZE < chunk_used A + big_round n" "2 * big_round n + 16 \<le> uint bsz"
    and "load (b + nat (big_round n)) A = Some X" "big_round n + 256 < uint X" "uint X < 2 ^ 31"
    and "big_round n < uint m" "uint m \<le> HUGESIZE" "big_round m + 256 < uint bsz"
  shows "\<exists>A1 A2 A3 A4. pixel_lalloc Y 0 0 n A = Some (b + 8, A1) \<and> l_mem A1 = l_mem A \<and>
    pixel_lalloc Y 0 0 n A1 = Some (b + nat (big_round n) + 8, A2) \<and> pixel_lalloc Y (b + 8) n 0 A2 = Some (0, A3) \<and>
    pixel_lalloc Y 0 0 m A3 = Some (b + 8, A4) \<and> b + 8 < b + nat (big_round n) + 8 \<and> b + nat (big_round n) + 8 < b + 8 + unat m"
proof -
  let ?s = "big_round n" and ?t = "big_round m"
  let ?b1 = "b + nat ?s" and ?b2 = "b + nat ?s + nat ?s"
  note rn = big_round_bounds [of n] and rm = big_round_bounds [of m]
  let ?A1 = "A\<lparr>big_head := ?b1, big_tail := ?b1\<rparr>" and ?A2 = "A\<lparr>big_head := ?b2, big_tail := ?b2\<rparr>"
  have l: "load x (A\<lparr>big_head := y, big_tail := z\<rparr>) = load x A" for x y z by (simp add: load_def)
  have s: "0 < ?s" "?s + 256 < uint bsz" using assms(8,11) rn by linarith+
  have 1: "pixel_lalloc Y 0 0 n A = Some (b + 8, ?A1)"
    by (rule pixel_lalloc_big [OF assms(8-10) single_split_sizes [OF assms(1-3,5) s assms(7)] assms(3)])
  have "lookup_biglist ?s ?A1 = Some (?b1, ?A1\<lparr>big_head := ?b1 + nat ?s, big_tail := ?b1 + nat ?s\<rparr>)"
    using assms(3,12-14) s by (intro single_split_sizes [where bsz = X]) (simp_all add: l)
  then have 2: "pixel_lalloc Y 0 0 n ?A1 = Some (?b1 + 8, ?A2)" using assms(3,10) by (intro pixel_lalloc_big [OF assms(8,9)]) simp_all
  let ?A3 = "?A2\<lparr>l_mem := (l_mem A)(b + 8 := of_nat ?b2), big_head := b\<rparr>"
  have u: "int (unat bsz) = uint bsz" "int (unat m) = uint m" by simp_all
  have mp: "is_mapped (l_mapped A) (b + k) 8" if "int k + 8 \<le> uint bsz" for k
  proof -
    have "k + 8 \<le> unat bsz" using that u(1) by linarith
    then show ?thesis using is_mapped_sub [OF assms(6), of "b + k" 8] by simp
  qed
  have b8: "(b + 8) mod 8 = 0" using assms(4) by presburger
  have "8 dvd b" "8 dvd nat ?s" using assms(4) rn(4) by auto
  then have "8 dvd ?b2 + 8" by (intro dvd_add) simp_all
  then have b2: "(?b2 + 8) mod 8 = 0" by simp
  have 3: "pixel_lalloc Y (b + 8) n 0 ?A2 = Some (0, ?A3)"
    using assms(3,8,9) mp [of 8] b8 assms(11) rn(1) by (simp add: pixel_lalloc_def memory_free_def memory_free_big_def save_def Let_def)
  have t: "0 < ?t" using assms(15) rm(1) s(1) by linarith
  have "\<exists>A4. lookup_biglist ?t ?A3 = Some (b, A4)"
  proof (rule lookup_first [OF _ _ assms(3) _ _ assms(4,7) t rm(3) assms(17)])
    show "load b ?A3 = Some bsz" using assms(5) by (auto simp: load_def split: if_splits)
    show "load_ptr (b + 8) ?A3 = Some (unat (of_nat ?b2 :: u64))" using mp [of 8] b8 assms(8,11) rn(1) by (simp add: load_ptr_def load_def)
    show "load (big_tail ?A3 + 8) ?A3 \<noteq> None" using mp [of "nat ?s + nat ?s + 8"] b2 assms(11) s(1) by (simp add: load_def add.assoc)
  qed (use assms(6) s(1) in simp_all)
  then obtain A4 where A4: "lookup_biglist ?t ?A3 = Some (b, A4)" ..
  have m: "256 < uint m" "?s \<le> ?t" using assms(8,15) rn(1) rm(1) by linarith+
  then have 4: "pixel_lalloc Y 0 0 m ?A3 = Some (b + 8, A4)" using assms(3,10,16) A4 by (intro pixel_lalloc_big) auto
  have "nat ?s < unat m" using assms(15) s(1) u(2) by linarith
  then show ?thesis using 1 2 3 4 s(1) by (intro exI [of _ ?A1] exI [of _ ?A2] exI [of _ ?A3] exI [of _ A4]) simp
qed

theorem big_blocks_overlap_witness:
  "\<exists>A A1 A2 A3 A4. overlap_start = Some A \<and> pixel_lalloc rising 0 0 3000 A = Some (1048912, A1) \<and> pixel_lalloc rising 0 0 3000 A1 = Some (1051920, A2) \<and>
    pixel_lalloc rising 1048912 3000 0 A2 = Some (0, A3) \<and> pixel_lalloc rising 0 0 6000 A3 = Some (1048912, A4) \<and> (1051920 :: nat) < 1048912 + 6000"
proof -
  obtain A where A: "overlap_start = Some A" "big_head A = 1048904" "big_tail A = 1048904" "load 1048904 A = Some 30008"
    "l_mapped A = [(1048576, 32768)]" "chunk_used A = 30336" "load 1051912 A = Some 27000" by (rule overlap_start_value)
  have r: "big_round 3000 = 3008" "big_round 6000 = 6008" by (simp_all add: big_round_def)
  from big_blocks_overlap [OF A(2,3) _ _ A(4), of 3000 27000 6000 rising] A r show ?thesis by (auto simp: is_mapped_def)
qed

end
