(* ===== verification/Spec2Isabelle.thy ===== *)
theory Spec2Isabelle
  imports Mqueue Wheel Locks Handles Netpack Des Codec Keyx Sha1 Sproto_Round Serial Runtime Sockets Lsocket Threads Config Sharedata_Inv Stm_Inv Multicast Lalloc_Inv
begin

text \<open>
  A verification of \<open>routine\<close>, an actor runtime in C with services in Lua.

  \<^bold>\<open>The program.\<close> A process runs services, each with a message queue and a callback. Worker threads take a queue from the run queue, pop a message and call
  the service (\<open>src/src/start.c\<close>, \<open>pixel.c\<close>, \<open>queue.c\<close>). Services are known by 32-bit handles with reference counts and by names
  (\<open>handle.c\<close>) and are instances of modules found along a path (\<open>module.c\<close>). A timer thread turns delays into messages
  (\<open>timer.c\<close>), and a socket thread turns network input into messages and sends output (\<open>socket.c\<close>, \<open>epoll.c\<close>). Messages between
  services on other nodes go through a harbor (\<open>harbor.c\<close>), and a monitor looks for services that hang (\<open>monitor.c\<close>). The libraries of
  \<open>src/lualib\<close> serve the Lua side: packet framing, cryptography, the sproto wire format, socket buffers, shared tables and variables, multicast. Lua values travel between services in the format
  of \<open>lserial.c\<close>.

  \<^bold>\<open>The theories.\<close>

  \<^item> \<open>Prelude\<close>: machine integers (\<open>u8\<close>, \<open>u32\<close>, \<open>u64\<close> are words of their width, \<open>int\<close> is an integer), addresses, rings, and two contracts:
    \<open>fifo_buffer\<close>, a first-in first-out buffer, interpreted for the message queue (\<open>mq\<close> in \<open>Mqueue\<close>) and the packet queue (\<open>np\<close> in \<open>Netpack\<close>);
    \<open>refines\<close>, functional refinement of an abstract machine, interpreted for the socket buffers (\<open>inbuf\<close> in \<open>Lsocket\<close>) and used for the shared objects of \<open>Stm_Inv\<close>. \<open>Handles\<close> states the
    contract of a table of counted references, \<open>ref_table\<close>, and interprets it for the registry (\<open>hdl\<close>). \<open>Bytes\<close> has integers as little-endian bytes,
    \<open>Cnum\<close> the conversions of the C library.
  \<^item> \<open>Mqueue\<close> (\<open>queue.c\<close>): the ring buffer of a queue with its growth, the run queue linked through a store of queues, release. A queue is first-in first-out
    across growth. Under every interleaving of the threads, a queue in hand has one holder, and a queue with messages is on the run queue, in the hands of a thread, or was
    abandoned by a launch that failed while another thread held the service; what such a queue holds is lost.
  \<^item> \<open>Wheel\<close> (\<open>timer.c\<close>): the hierarchical timing wheel. An event fires on the tick it was set for, for every 32-bit time and delay, wrap-around included.
  \<^item> \<open>Locks\<close> (\<open>lock.h\<close>): spin lock and reader-writer lock as interleaved steps; mutual exclusion.
  \<^item> \<open>Handles\<close> (\<open>handle.c\<close>): the slot table with reference counts, growth and names. Counts are exact, a held service stays, new handles are fresh.
  \<^item> \<open>Modules\<close> (\<open>module.c\<close>), \<open>Pixel\<close> (\<open>pixel.c\<close>, \<open>harbor.c\<close>, \<open>monitor.c\<close>, \<open>env.c\<close>, \<open>log.c\<close>), \<open>Pixel_Inv\<close> (the well-formed states), \<open>Runtime\<close>
    (properties that span queue, registry, timer and memory): delivery and refusal of messages, the dispatch to the callback with the ownership of the message, timeouts, the end of a
    service. The state is the record \<open>world\<close>; message data lives in a store of blocks, so that use after free, double free and overrun are the result \<open>None\<close>. What the runtime calls and
    does not contain (the linker, module functions, service callbacks, \<open>fopen\<close>) is the parameter \<open>K\<close> of type \<open>hooks\<close>.
  \<^item> \<open>Socket\<close> (\<open>socket.c\<close>, \<open>epoll.c\<close>), \<open>Socket_Inv\<close>, \<open>Sockets\<close>: the socket server. The operating system is the parameter \<open>Y\<close> of type \<open>sys\<close>, which answers each
    system call from a state of its own; the state \<open>net\<close> records the calls and their results. Output leaves in the order of the requests and the priorities, whatever part each write takes;
    input reaches the service that owns the socket.
  \<^item> \<open>Lsocket\<close> (\<open>lsocket.c\<close>): socket buffers as byte strings, by refinement, and the calls of the server.
  \<^item> \<open>Threads\<close> (\<open>start.c\<close>): the threads and their shared \<open>watcher\<close> as a step relation: the count of sleepers, waking, the deadlock of the shutdown and the states
    from which the shutdown is sure to be possible.
  \<^item> \<open>Config\<close> (\<open>main.c\<close>, \<open>pixel_start\<close> of \<open>start.c\<close>): the options from the globals of the configuration file, with their defaults; the order in which the components and the
    first services come up.
  \<^item> \<open>Sharedata\<close>, \<open>Sharedata_Inv\<close> (\<open>lsharedata.c\<close>): Lua tables as shared read-only trees. A table is converted in two passes over a hash table with chains; look-up and iteration then answer
    as the Lua table does. The depth of the conversion is the number of nested calls that Lua allows; what \<open>lua_rawlen\<close> says is a parameter.
  \<^item> \<open>Store\<close>: blocks that are freed and allocated again, with the allocator as a parameter. \<open>Stm\<close>, \<open>Stm_Inv\<close> (\<open>lstm.c\<close>): shared objects with counted copies, refining shared
    variables as long as one operation runs at a time: no use after free, no missed and no repeated value though addresses come back, nothing left at the end; two readers that close at
    the same time can write to a freed object (\<open>reader_close_race\<close>). \<open>Multicast\<close> (\<open>lmulticast.c\<close>): packages with a reference for each
    subscriber, freed by the last one.
  \<^item> \<open>Lalloc\<close>, \<open>Lalloc_Inv\<close> (\<open>src/service/lalloc.c\<close>): the allocator of the Lua services over a store of 64-bit words, with the free lists linked through it. Blocks of up to 256 bytes never
    overlap and keep their contents, in every reachable state; the reuse of a single big block gives memory to two owners.
  \<^item> \<open>Netpack\<close> (\<open>lnetpack.c\<close>): packets come out of a stream as they went in, however it is cut.
  \<^item> \<open>Des\<close>, \<open>Codec\<close>, \<open>Keyx\<close> (\<open>lcrypt.c\<close>), \<open>Sha1\<close> (\<open>lsha1.c\<close>): DES with padding and its inverse, base64 and hexadecimal, the Diffie-Hellman exchange; SHA-1 and HMAC against
    the definitions of FIPS 180 and RFC 2104.
  \<^item> \<open>Sproto_Pack\<close>, \<open>Sproto_Schema\<close>, \<open>Sproto_Codec\<close> (\<open>sproto.c\<close>), \<open>Sproto_Lua\<close> (\<open>lsproto.c\<close>), \<open>Sproto_Spec\<close> (the wire format as a reference definition), \<open>Sproto_Enc\<close> and
    \<open>Sproto_Round\<close>: the encoder writes the format, the decoder reads it back, packing round trips, an imported schema is well-formed.
  \<^item> \<open>Serial\<close> (\<open>lserial.c\<close>): the serialisation of Lua values and its round trip.

  \<^bold>\<open>Conventions.\<close> A partial result \<open>None\<close> is undefined behaviour, a failed assertion or a run without end; errors that the code reports are values. Loops that may not end
  (\<open>EINTR\<close> loops, the poll loop) are \<open>partial_function (option)\<close>. Recursion depth stands for the depth limits of the sources (\<open>ENCODE_DEEPLEVEL\<close>, \<open>MAX_DEPTH\<close>); reading in \<open>Serial\<close> recurses on
  fuel, and more fuel than there are bytes never changes the result (\<open>lunpack_bounded\<close>). \<open>release_depth\<close> counts the nesting of service releases, where two levels are enough. The host is little-endian. Allocation succeeds (in \<open>Lalloc\<close> the kernel may refuse pages);
  in \<open>world\<close> it takes an address that was never used. The capacity of queues and tables, reference counts and the lengths of strings do not reach the limits of \<open>int\<close> (lengths of a gigabyte and
  more are cut by conversions in \<open>lserial.c\<close> and \<open>lcrypt.c\<close>); a session counter that would is \<open>None\<close>. Functions that run under a
  lock are atomic, as \<open>Locks\<close> justifies, and the functions of the runtime and of the socket API run one at a time; \<open>Mqueue\<close> interleaves the queue operations of all threads, and \<open>Threads\<close>
  single accesses. The control pipe of the
  socket server is a list of requests. A buffer that a call refused with \<open>-1\<close> is not looked at.

  \<^bold>\<open>Not modelled.\<close> The set-up of a Lua machine in a service (\<open>src/service/lua.c\<close>) and the registration of functions in Lua: calls of the Lua API only. The client socket library
  (\<open>lclientsocket.c\<close>) and the output to log files (\<open>src/service/log.c\<close>, \<open>dump.h\<close>): input and output. The vendored LPeg.
\<close>

end
